(* ===== verification/Prelude.thy ===== *)
theory Prelude
  imports Main "HOL-Library.Word" "HOL-Library.Monad_Syntax" "HOL-Library.AList"
    "HOL-Library.Multiset"
begin

text \<open>
  Shared vocabulary of the development: the parity algebra behind linear maps over the field
  of two elements, powers of two and their logarithms as the compiler's helpers compute them,
  and insertion-ordered maps. An operation of the code that can stop the compiler
  (\<open>report_fatal_error\<close>, \<open>llvm_unreachable\<close> or a failed \<open>assert\<close>) returns an
  option here, and None is the stopped compiler.
\<close>

unbundle bit_operations_syntax

type_synonym dim = string

named_theorems parity_simps

section \<open>Parities\<close>

definition parity :: "nat \<Rightarrow> (nat \<Rightarrow> bool) \<Rightarrow> bool" where
  "parity n f = odd (\<Sum>i<n. of_bool (f i) :: nat)"

lemma parity_0 [parity_simps]: "\<not> parity 0 f"
  by (simp add: parity_def)

lemma parity_Suc [parity_simps]: "parity (Suc n) f \<longleftrightarrow> (f n \<noteq> parity n f)"
  by (auto simp: parity_def)

lemma parity_cong: "(\<And>i. i < n \<Longrightarrow> f i = g i) \<Longrightarrow> parity n f = parity n g"
  by (induction n) (auto simp: parity_simps)

lemma parity_False [simp]: "\<not> parity n (\<lambda>i. False)"
  by (induction n) (auto simp: parity_simps)

lemma parity_none: "(\<And>i. i < n \<Longrightarrow> \<not> f i) \<Longrightarrow> \<not> parity n f"
  using parity_cong [of n f "\<lambda>i. False"] by auto

lemma parity_neq: "parity n (\<lambda>i. f i \<noteq> g i) \<longleftrightarrow> (parity n f \<noteq> parity n g)"
  by (induction n) (auto simp: parity_simps)

lemma parity_conj_const: "parity n (\<lambda>i. b \<and> f i) \<longleftrightarrow> b \<and> parity n f"
  by (cases b) auto

lemma parity_single: "k < n \<Longrightarrow> parity n (\<lambda>i. i = k \<and> f i) \<longleftrightarrow> f k"
proof (induction n)
  case (Suc n)
  show ?case
  proof (cases "k = n")
    case True
    have "\<not> parity n (\<lambda>i. i = k \<and> f i)" using True by (intro parity_none) auto
    then show ?thesis using True by (simp add: parity_Suc)
  next
    case False
    then show ?thesis using Suc by (simp add: parity_Suc)
  qed
qed (simp add: parity_0)

lemma parity_add: "parity (m + n) f \<longleftrightarrow> (parity m f \<noteq> parity n (\<lambda>i. f (m + i)))"
  by (induction n) (auto simp: parity_simps)

lemma parity_swap:
  "parity m (\<lambda>i. parity n (\<lambda>j. f i j)) \<longleftrightarrow> parity n (\<lambda>j. parity m (\<lambda>i. f i j))"
proof (induction m)
  case (Suc m)
  then show ?case by (simp only: parity_Suc parity_neq)
qed (simp add: parity_0)

lemma parity_le:
  "m \<le> n \<Longrightarrow> (\<And>i. m \<le> i \<Longrightarrow> i < n \<Longrightarrow> \<not> f i) \<Longrightarrow> parity n f = parity m f"
proof (induction n)
  case (Suc n)
  then show ?case by (cases "m = Suc n") (auto simp: parity_Suc)
qed simp

section \<open>Powers of two\<close>

fun log2_nat :: "nat \<Rightarrow> nat" where
  "log2_nat n = (if n \<le> 1 then 0 else Suc (log2_nat (n div 2)))"

declare log2_nat.simps [simp del]

lemma log2_nat_pow [simp]: "log2_nat (2 ^ k) = k"
proof (induction k)
  case (Suc k)
  have "1 \<le> (2::nat) ^ k" by simp
  then have "\<not> 2 * 2 ^ k \<le> (1::nat)" by linarith
  then show ?case using Suc by (simp add: log2_nat.simps [of "2 * 2 ^ k"])
qed (simp add: log2_nat.simps)

text \<open>
  An \<open>int32_t\<close> is an \<open>int\<close> here; \<open>isPowerOf2_32\<close> and \<open>Log2_32\<close> of LLVM take an
  \<open>uint32_t\<close>, so their argument is reduced modulo \<open>2 ^ 32\<close> first.
\<close>

definition is_pow2_32 :: "int \<Rightarrow> bool" where
  "is_pow2_32 x = (let u = x mod 2 ^ 32 in u \<noteq> 0 \<and> u AND (u - 1) = 0)"

definition log2_32 :: "int \<Rightarrow> nat" where
  "log2_32 x = log2_nat (nat (x mod 2 ^ 32))"

end
