(* ===== verification/F2Reduce.thy ===== *)
theory F2Reduce
  imports Prelude
begin

text \<open>
  \<open>third_party/f2reduce/f2reduce.cpp\<close>, the Gaussian elimination over the field of two
  elements on which \<open>LinearLayout\<close> rests: the routine for matrices of at most 64 rows and 64
  columns, each row one \<open>uint64_t\<close> (bit \<open>c\<close> of a row is its column \<open>c\<close>). The matrix is the list of
  its rows. Proved: the result is in reduced row echelon form and arises from the input by
  elementary row operations, so the solution space and the image are the same.
\<close>

type_synonym row = "64 word"

section \<open>The routine\<close>

definition lowmask :: "row \<Rightarrow> row" where
  "lowmask w = (w AND (- w)) - 1"

definition swap_into :: "nat \<Rightarrow> nat \<Rightarrow> row list \<Rightarrow> row list" where
  "swap_into r s m = (let this_row = m ! s in m[s := m ! r, r := this_row])"

fun select_pivot :: "nat \<Rightarrow> row \<Rightarrow> nat list \<Rightarrow> row list \<Rightarrow> row \<Rightarrow> row list \<times> row" where
  "select_pivot r next_b [] m b = (m, b)"
| "select_pivot r next_b (s # ss) m b =
     (let a = lowmask (m ! s);
          (m', b') = (if a < b then (swap_into r s m, a) else (m, b))
      in if b' = next_b then (m', b') else select_pivot r next_b ss m' b')"

definition clear_row :: "nat \<Rightarrow> nat \<Rightarrow> row list \<Rightarrow> row list" where
  "clear_row r s m =
     (let p = m ! r; ml = p AND (- p)
      in if s = r then m else if m ! s AND ml \<noteq> 0 then m[s := m ! s XOR p] else m)"

definition eliminate :: "nat \<Rightarrow> row list \<Rightarrow> row list" where
  "eliminate r m = fold (clear_row r) [0..<length m] m"

lemma length_swap_into [simp]: "length (swap_into r s m) = length m"
  by (simp add: swap_into_def Let_def)

lemma length_select_pivot:
  "select_pivot r nb ss m b = (m', b') \<Longrightarrow> length m' = length m"
  by (induction r nb ss m b rule: select_pivot.induct)
    (auto simp: Let_def split: if_splits)

lemma length_clear_row [simp]: "length (clear_row r s m) = length m"
  by (simp add: clear_row_def Let_def)

lemma length_fold_clear_row [simp]: "length (fold (clear_row r) ss m) = length m"
  by (induction ss arbitrary: m) simp_all

lemma length_eliminate [simp]: "length (eliminate r m) = length m"
  by (simp add: eliminate_def)

function rref_loop :: "row \<Rightarrow> nat \<Rightarrow> row \<Rightarrow> row list \<Rightarrow> row list" where
  "rref_loop final_b r next_b m =
     (if r < length m then
        (let (m1, b) = select_pivot r next_b [Suc r..<length m] m (lowmask (m ! r))
         in if b = - 1 then m1
            else let m2 = eliminate r m1
                 in if b = final_b then m2
                    else rref_loop final_b (Suc r) (push_bit 1 b + 1) m2)
      else m)"
  by pat_completeness auto

termination
  by (relation "measure (\<lambda>(fb, r, nb, m). length m - r)")
    (auto dest!: length_select_pivot [OF sym])

declare rref_loop.simps [simp del]

definition inplace_rref_small :: "row list \<Rightarrow> nat \<Rightarrow> row list" where
  "inplace_rref_small m cols = rref_loop (push_bit (cols - 1) 1 - 1) 0 0 m"

text \<open>
  \<open>inplace_rref_strided\<close> with stride 1. A matrix with 0 or 1 rows or with no columns is returned as
  it is. None stands for the branch for more than 64 rows or columns, whose rows do not fit in
  one word; it is not modelled.
\<close>

definition inplace_rref_strided :: "row list \<Rightarrow> nat \<Rightarrow> row list option" where
  "inplace_rref_strided m cols =
     (if length m \<le> 1 \<or> cols = 0 then Some m
      else if length m \<le> 64 \<and> cols \<le> 64 then Some (inplace_rref_small m cols)
      else None)"

text \<open>\<open>__builtin_ctzll\<close> on a nonzero word.\<close>

definition ctz :: "row \<Rightarrow> nat" where
  "ctz w = length (takeWhile (\<lambda>n. \<not> bit w n) [0..<64])"

section \<open>The lowest set bit\<close>

lemma ctz_lt: "w \<noteq> 0 \<Longrightarrow> ctz w < 64"
proof -
  assume "w \<noteq> 0"
  then obtain n where n: "bit w n" by (auto simp: bit_eq_iff)
  then have "n < 64" using bit_imp_le_length [of w n] by simp
  then have "\<not> (\<forall>k \<in> set [0..<64]. \<not> bit w k)" using n by auto
  then have "takeWhile (\<lambda>n. \<not> bit w n) [0..<64] \<noteq> [0..<64]"
    by (metis takeWhile_eq_all_conv)
  then show ?thesis unfolding ctz_def
    by (metis length_upt length_takeWhile_le minus_nat.diff_0 nat_less_le takeWhile_eq_take take_all_iff)
qed

lemma ctz_below: "n < ctz w \<Longrightarrow> \<not> bit w n"
proof -
  assume n: "n < ctz w"
  have "ctz w \<le> 64" unfolding ctz_def using length_takeWhile_le [of _ "[0..<64]"] by simp
  with n have "takeWhile (\<lambda>n. \<not> bit w n) [0..<64] ! n = n"
    unfolding ctz_def by (subst takeWhile_nth) auto
  then show ?thesis using n unfolding ctz_def by (metis nth_mem set_takeWhileD)
qed

lemma bit_ctz: "w \<noteq> 0 \<Longrightarrow> bit w (ctz w)"
  using ctz_lt [of w] nth_length_takeWhile [of "\<lambda>n. \<not> bit w n" "[0..<64]"]
  unfolding ctz_def by simp

lemma ctz_unique: "bit w n \<Longrightarrow> (\<And>k. k < n \<Longrightarrow> \<not> bit w k) \<Longrightarrow> ctz w = n"
  by (metis bit_0_eq bit_ctz bot_apply bot_bool_def ctz_below linorder_neqE_nat)

lemma lowest_bit_decomp:
  assumes "w \<noteq> (0::row)"
  shows "bit (w - 1) n \<longleftrightarrow> (if n < ctz w then True else if n = ctz w then False else bit w n)"
proof -
  let ?c = "ctz w"
  define v where "v = w AND NOT (push_bit ?c 1)"
  have c: "?c < 64" and bc: "bit w ?c" using assms by (auto simp: ctz_lt bit_ctz)
  have w: "w = v + push_bit ?c 1"
  proof -
    have "v AND push_bit ?c 1 = 0" by (intro bit_word_eqI) (simp add: v_def bit_simps)
    then have "v + push_bit ?c 1 = v OR push_bit ?c 1" by (rule disjunctive_add_eq_or)
    also have "\<dots> = w" using bc c
      by (intro bit_word_eqI) (auto simp: v_def bit_simps)
    finally show ?thesis ..
  qed
  have m: "push_bit ?c 1 - 1 = (mask ?c :: row)" by (simp add: mask_eq_exp_minus_1 push_bit_of_1)
  have disj: "v AND mask ?c = 0"
    by (intro bit_word_eqI) (auto simp: v_def bit_simps dest: ctz_below)
  have "w - 1 = v + mask ?c" unfolding m [symmetric] using w by (metis add_diff_eq)
  also have "\<dots> = v OR mask ?c" using disj by (rule disjunctive_add_eq_or)
  finally have "w - 1 = v OR mask ?c" .
  then show ?thesis using c bit_imp_le_length [of w n] by (auto simp: v_def bit_simps)
qed

lemma lowest_bit: "w \<noteq> (0::row) \<Longrightarrow> w AND (- w) = push_bit (ctz w) 1"
  using ctz_lt [of w] bit_ctz [of w]
  by (intro bit_word_eqI)
    (auto simp: bit_simps minus_eq_not_minus_1 lowest_bit_decomp dest: ctz_below)

lemma lowmask_nonzero: "w \<noteq> 0 \<Longrightarrow> lowmask w = mask (ctz w)"
  by (simp add: lowmask_def lowest_bit mask_eq_exp_minus_1 push_bit_of_1)

lemma mask_64_row: "(mask 64 :: row) = - 1"
  by (intro bit_word_eqI) (simp add: bit_simps)

lemma lowmask_zero: "lowmask 0 = mask 64"
  by (simp add: lowmask_def mask_64_row)

definition low_col :: "row \<Rightarrow> nat" where
  "low_col w = (if w = 0 then 64 else ctz w)"

lemma lowmask_eq: "lowmask w = mask (low_col w)"
  by (simp add: low_col_def lowmask_nonzero lowmask_zero)

lemma low_col_le: "low_col w \<le> 64"
  using ctz_lt [of w] by (auto simp: low_col_def)

lemma low_col_less [simp]: "low_col w < 64 \<longleftrightarrow> w \<noteq> 0"
  using ctz_lt [of w] by (auto simp: low_col_def)

lemma low_col_below: "n < low_col w \<Longrightarrow> \<not> bit w n"
  by (auto simp: low_col_def ctz_below split: if_splits)

lemma low_col_bit: "w \<noteq> 0 \<Longrightarrow> bit w (low_col w)"
  by (simp add: low_col_def bit_ctz)

lemma unat_mask_row: "k \<le> 64 \<Longrightarrow> unat (mask k :: row) = 2 ^ k - 1"
proof -
  assume k: "k \<le> 64"
  have m: "(mask k :: row) = of_nat (2 ^ k - 1)" by (simp add: mask_eq_exp_minus_1 of_nat_diff)
  have "(2::nat) ^ k \<le> 2 ^ 64" using k by (intro power_increasing) auto
  then have "(2::nat) ^ k - 1 < 2 ^ 64" by (simp add: less_eq_Suc_le)
  then show ?thesis unfolding m unat_of_nat by simp
qed

lemma mask_less_iff: "j \<le> 64 \<Longrightarrow> k \<le> 64 \<Longrightarrow> (mask j :: row) < mask k \<longleftrightarrow> j < k"
proof -
  assume jk: "j \<le> 64" "k \<le> 64"
  have "(mask j :: row) < mask k \<longleftrightarrow> (2::nat) ^ j - 1 < 2 ^ k - 1"
    using jk by (simp add: word_less_nat_alt unat_mask_row)
  also have "\<dots> \<longleftrightarrow> (2::nat) ^ j < 2 ^ k"
    by (metis diff_less_mono less_imp_diff_less linorder_not_less one_le_numeral one_le_power diff_le_mono)
  finally show ?thesis by simp
qed

lemma mask_eq_iff_row: "j \<le> 64 \<Longrightarrow> k \<le> 64 \<Longrightarrow> (mask j :: row) = mask k \<longleftrightarrow> j = k"
  using mask_less_iff [of j k] mask_less_iff [of k j] by (metis linorder_neqE_nat order_less_irrefl)

lemma push_bit_mask_row: "push_bit 1 (mask k) + 1 = (mask (Suc k) :: row)"
  by (simp add: mask_eq_exp_minus_1 algebra_simps push_bit_eq_mult)

section \<open>Row operations\<close>

definition dot :: "row \<Rightarrow> row \<Rightarrow> bool" where
  "dot w x = parity 64 (\<lambda>c. bit w c \<and> bit x c)"

lemma dot_xor: "dot (u XOR v) x \<longleftrightarrow> (dot u x \<noteq> dot v x)"
proof -
  have "dot (u XOR v) x = parity 64 (\<lambda>c. (bit u c \<and> bit x c) \<noteq> (bit v c \<and> bit x c))"
    unfolding dot_def by (rule parity_cong) (auto simp: bit_simps)
  then show ?thesis by (simp only: parity_neq dot_def)
qed

lemma dot_0 [simp]: "\<not> dot 0 x"
  by (simp add: dot_def)

inductive row_op :: "row list \<Rightarrow> row list \<Rightarrow> bool" where
  swap: "i < length m \<Longrightarrow> j < length m \<Longrightarrow> row_op m (m[i := m ! j, j := m ! i])"
| add: "i < length m \<Longrightarrow> j < length m \<Longrightarrow> i \<noteq> j \<Longrightarrow> row_op m (m[i := m ! i XOR m ! j])"

abbreviation row_equiv :: "row list \<Rightarrow> row list \<Rightarrow> bool" where
  "row_equiv \<equiv> row_op\<^sup>*\<^sup>*"

definition null_space :: "row list \<Rightarrow> row \<Rightarrow> bool" where
  "null_space m x \<longleftrightarrow> (\<forall>w \<in> set m. \<not> dot w x)"

definition onto :: "row list \<Rightarrow> bool" where
  "onto m \<longleftrightarrow> (\<forall>ys. length ys = length m \<longrightarrow> (\<exists>x. map (\<lambda>w. dot w x) m = ys))"

definition fits :: "nat \<Rightarrow> row list \<Rightarrow> bool" where
  "fits cols m \<longleftrightarrow> (\<forall>w \<in> set m. \<forall>c \<ge> cols. \<not> bit w c)"

lemma row_op_length: "row_op m m' \<Longrightarrow> length m' = length m"
  by (induction rule: row_op.induct) simp_all

lemma row_equiv_length: "row_equiv m m' \<Longrightarrow> length m' = length m"
  by (induction rule: rtranclp_induct) (simp_all add: row_op_length)

lemma null_space_nth: "null_space m x \<longleftrightarrow> (\<forall>i < length m. \<not> dot (m ! i) x)"
  by (simp add: null_space_def all_set_conv_all_nth)

lemma row_op_null_space: "row_op m m' \<Longrightarrow> null_space m' x = null_space m x"
proof (induction rule: row_op.induct)
  case (swap i m j)
  then show ?case by (simp add: null_space_def set_swap)
next
  case (add i m j)
  then show ?case by (auto simp: null_space_nth nth_list_update dot_xor)
qed

lemma row_equiv_null_space: "row_equiv m m' \<Longrightarrow> null_space m' x = null_space m x"
  by (induction rule: rtranclp_induct) (simp_all add: row_op_null_space)

lemma row_op_sym: "row_op m m' \<Longrightarrow> row_op m' m"
proof (induction rule: row_op.induct)
  case (swap i m j)
  have "(m[i := m ! j, j := m ! i])[i := m[i := m ! j, j := m ! i] ! j, j := m[i := m ! j, j := m ! i] ! i] = m"
    using swap by (intro nth_equalityI) (auto simp: nth_list_update)
  then show ?case using swap row_op.swap [of i "m[i := m ! j, j := m ! i]" j] by simp
next
  case (add i m j)
  have "(m[i := m ! i XOR m ! j])[i := m[i := m ! i XOR m ! j] ! i XOR m[i := m ! i XOR m ! j] ! j] = m"
    using add by (intro nth_equalityI) (auto simp: nth_list_update xor.assoc)
  then show ?case using add row_op.add [of i "m[i := m ! i XOR m ! j]" j] by simp
qed

lemma row_op_onto_imp: "row_op m m' \<Longrightarrow> onto m \<Longrightarrow> onto m'"
proof (induction rule: row_op.induct)
  case (swap i m j)
  show ?case unfolding onto_def
  proof (intro allI impI)
    fix ys :: "bool list" assume l: "length ys = length (m[i := m ! j, j := m ! i])"
    define zs where "zs = ys[i := ys ! j, j := ys ! i]"
    have "length zs = length m" using l by (simp add: zs_def)
    then obtain x where "map (\<lambda>w. dot w x) m = zs" using swap by (auto simp: onto_def)
    then have z: "\<And>k. k < length m \<Longrightarrow> dot (m ! k) x = zs ! k" by (metis nth_map)
    have "map (\<lambda>w. dot w x) (m[i := m ! j, j := m ! i]) = ys"
      using l swap z by (intro nth_equalityI) (auto simp: nth_list_update zs_def)
    then show "\<exists>x. map (\<lambda>w. dot w x) (m[i := m ! j, j := m ! i]) = ys" ..
  qed
next
  case (add i m j)
  show ?case unfolding onto_def
  proof (intro allI impI)
    fix ys :: "bool list" assume l: "length ys = length (m[i := m ! i XOR m ! j])"
    define zs where "zs = ys[i := (ys ! i \<noteq> ys ! j)]"
    have "length zs = length m" using l by (simp add: zs_def)
    then obtain x where "map (\<lambda>w. dot w x) m = zs" using add by (auto simp: onto_def)
    then have z: "\<And>k. k < length m \<Longrightarrow> dot (m ! k) x = zs ! k" by (metis nth_map)
    have "map (\<lambda>w. dot w x) (m[i := m ! i XOR m ! j]) = ys"
      using l add z by (intro nth_equalityI) (auto simp: nth_list_update zs_def dot_xor)
    then show "\<exists>x. map (\<lambda>w. dot w x) (m[i := m ! i XOR m ! j]) = ys" ..
  qed
qed

lemma row_equiv_onto: "row_equiv m m' \<Longrightarrow> onto m' = onto m"
  by (induction rule: rtranclp_induct) (auto dest: row_op_onto_imp row_op_sym)

lemma row_op_fits: "row_op m m' \<Longrightarrow> fits cols m \<Longrightarrow> fits cols m'"
proof (induction rule: row_op.induct)
  case (swap i m j)
  then show ?case by (simp add: fits_def set_swap)
next
  case (add i m j)
  then show ?case unfolding fits_def all_set_conv_all_nth
    by (auto simp: nth_list_update bit_simps)
qed

lemma row_equiv_fits: "row_equiv m m' \<Longrightarrow> fits cols m \<Longrightarrow> fits cols m'"
  by (induction rule: rtranclp_induct) (auto dest: row_op_fits)

section \<open>The elimination steps\<close>

lemma nth_swap_into:
  "r < length m \<Longrightarrow> s < length m \<Longrightarrow> k < length m \<Longrightarrow>
     swap_into r s m ! k = (if k = r then m ! s else if k = s then m ! r else m ! k)"
  by (auto simp: swap_into_def Let_def nth_list_update)

lemma row_equiv_swap_into: "r < length m \<Longrightarrow> s < length m \<Longrightarrow> row_equiv m (swap_into r s m)"
  using row_op.swap [of s m r] by (auto simp: swap_into_def Let_def)

lemma row_equiv_clear_row: "r < length m \<Longrightarrow> s < length m \<Longrightarrow> row_equiv m (clear_row r s m)"
  using row_op.add [of s m r] by (auto simp: clear_row_def Let_def)

lemma row_equiv_fold_clear_row:
  "r < length m \<Longrightarrow> set ss \<subseteq> {..<length m} \<Longrightarrow> row_equiv m (fold (clear_row r) ss m)"
proof (induction ss arbitrary: m)
  case (Cons s ss)
  then have "row_equiv (clear_row r s m) (fold (clear_row r) ss (clear_row r s m))" by simp
  then show ?case using Cons.prems row_equiv_clear_row [of r m s] by simp
qed simp

lemma row_equiv_eliminate: "r < length m \<Longrightarrow> row_equiv m (eliminate r m)"
  by (auto simp: eliminate_def intro: row_equiv_fold_clear_row)

lemma and_lowbit: "p \<noteq> 0 \<Longrightarrow> w AND (p AND - p) \<noteq> 0 \<longleftrightarrow> bit (w::row) (low_col p)"
  using ctz_lt [of p]
  by (simp add: lowest_bit low_col_def push_bit_of_1 and_exp_eq_0_iff_not_bit)

lemma nth_clear_row:
  "r < length m \<Longrightarrow> k < length m \<Longrightarrow> m ! r \<noteq> 0 \<Longrightarrow>
     clear_row r s m ! k =
       (if k = s \<and> s \<noteq> r \<and> bit (m ! s) (low_col (m ! r)) then m ! s XOR m ! r else m ! k)"
  by (auto simp: clear_row_def Let_def and_lowbit nth_list_update)

lemma nth_fold_clear_row:
  assumes "distinct ss" and "r < length m" and "k < length m" and "m ! r \<noteq> 0"
  shows "fold (clear_row r) ss m ! k =
       (if k \<in> set ss \<and> k \<noteq> r \<and> bit (m ! k) (low_col (m ! r)) then m ! k XOR m ! r else m ! k)"
  using assms
proof (induction ss arbitrary: m)
  case (Cons s ss)
  have r: "clear_row r s m ! r = m ! r"
    using Cons.prems nth_clear_row [of r m r s] by auto
  then have "fold (clear_row r) ss (clear_row r s m) ! k =
      (if k \<in> set ss \<and> k \<noteq> r \<and> bit (clear_row r s m ! k) (low_col (m ! r))
       then clear_row r s m ! k XOR m ! r else clear_row r s m ! k)"
    using Cons.prems by (subst Cons.IH) auto
  then show ?case using Cons.prems by (auto simp: nth_clear_row)
qed simp

lemma nth_eliminate:
  "r < length m \<Longrightarrow> k < length m \<Longrightarrow> m ! r \<noteq> 0 \<Longrightarrow>
     eliminate r m ! k =
       (if k \<noteq> r \<and> bit (m ! k) (low_col (m ! r)) then m ! k XOR m ! r else m ! k)"
  unfolding eliminate_def by (subst nth_fold_clear_row) auto

text \<open>One turn of the search for the pivot: swap if the row at hand starts further left.\<close>

definition select_step :: "nat \<Rightarrow> nat \<Rightarrow> row list \<Rightarrow> row list" where
  "select_step r s m = (if low_col (m ! s) < low_col (m ! r) then swap_into r s m else m)"

lemma length_select_step [simp]: "length (select_step r s m) = length m"
  by (simp add: select_step_def)

lemma nth_select_step:
  "r < length m \<Longrightarrow> s < length m \<Longrightarrow> k < length m \<Longrightarrow>
     select_step r s m ! k = (if low_col (m ! s) < low_col (m ! r)
       then (if k = r then m ! s else if k = s then m ! r else m ! k) else m ! k)"
  by (simp add: select_step_def nth_swap_into)

lemma select_pivot_Cons:
  assumes "r < length m" and "s < length m"
  shows "select_pivot r nb (s # ss) m (lowmask (m ! r)) =
     (let m' = select_step r s m
      in if lowmask (m' ! r) = nb then (m', lowmask (m' ! r)) else select_pivot r nb ss m' (lowmask (m' ! r)))"
  using assms
  by (simp add: Let_def select_step_def lowmask_eq mask_less_iff low_col_le nth_swap_into)

definition min_row :: "nat \<Rightarrow> nat \<Rightarrow> row list \<Rightarrow> bool" where
  "min_row r s0 m \<longleftrightarrow> (\<forall>s. r \<le> s \<longrightarrow> s < s0 \<longrightarrow> low_col (m ! r) \<le> low_col (m ! s))"

definition from_col :: "nat \<Rightarrow> nat \<Rightarrow> row list \<Rightarrow> bool" where
  "from_col n r m \<longleftrightarrow> (\<forall>s. r \<le> s \<longrightarrow> s < length m \<longrightarrow> n \<le> low_col (m ! s))"

lemma from_col_select_step:
  "r < s \<Longrightarrow> s < length m \<Longrightarrow> from_col n r m \<Longrightarrow> from_col n r (select_step r s m)"
  by (auto simp: from_col_def nth_select_step)

lemma min_row_select_step:
  "r < s \<Longrightarrow> s < length m \<Longrightarrow> min_row r s m \<Longrightarrow> min_row r (Suc s) (select_step r s m)"
  unfolding min_row_def
  by (auto simp: nth_select_step less_Suc_eq)

lemma row_equiv_select_step:
  "r < length m \<Longrightarrow> s < length m \<Longrightarrow> row_equiv m (select_step r s m)"
  by (simp add: select_step_def row_equiv_swap_into)

lemma select_pivot_spec:
  assumes "select_pivot r (mask n) [s0..<length m] m (lowmask (m ! r)) = (m', b')"
    and "r < s0" and "r < length m" and "n \<le> 64" and "from_col n r m" and "min_row r s0 m"
  shows "row_equiv m m' \<and> b' = lowmask (m' ! r) \<and> (\<forall>i < r. m' ! i = m ! i) \<and>
    from_col n r m' \<and> min_row r (length m) m'"
  using assms
proof (induction "length m - s0" arbitrary: s0 m)
  case 0
  then show ?case by (auto simp: min_row_def)
next
  case (Suc k)
  define m1 where "m1 = select_step r s0 m"
  have s0: "s0 < length m" using Suc.hyps(2) by simp
  have props: "row_equiv m m1" "from_col n r m1" "min_row r (Suc s0) m1" "length m1 = length m"
    "\<forall>i < r. m1 ! i = m ! i"
    using Suc.prems s0 row_equiv_select_step [of r m s0] from_col_select_step [of r s0 m n]
      min_row_select_step [of r s0 m] by (auto simp: m1_def nth_select_step)
  have sel: "(if lowmask (m1 ! r) = mask n then (m1, lowmask (m1 ! r))
      else select_pivot r (mask n) [Suc s0..<length m1] m1 (lowmask (m1 ! r))) = (m', b')"
    using Suc.prems(1) s0 Suc.prems(3) props(4)
    by (simp add: upt_conv_Cons [OF s0] select_pivot_Cons m1_def [symmetric] Let_def
      del: select_pivot.simps split: if_splits)
  show ?case
  proof (cases "lowmask (m1 ! r) = mask n")
    case True
    then have "low_col (m1 ! r) = n" using Suc.prems(4) by (simp add: lowmask_eq mask_eq_iff_row low_col_le)
    moreover have "m' = m1" "b' = lowmask (m1 ! r)" using True sel by auto
    ultimately show ?thesis using props by (auto simp: min_row_def from_col_def)
  next
    case False
    then have "row_equiv m1 m' \<and> b' = lowmask (m' ! r) \<and> (\<forall>i < r. m' ! i = m1 ! i) \<and>
      from_col n r m' \<and> min_row r (length m1) m'"
      using sel Suc.hyps props Suc.prems by (intro Suc.hyps(1) [of m1 "Suc s0"]) auto
    then show ?thesis using props by auto
  qed
qed

section \<open>Reduced row echelon form\<close>

text \<open>The first \<open>k\<close> rows are nonzero, their first columns increase and are zero in every other row.\<close>

definition reduced :: "nat \<Rightarrow> row list \<Rightarrow> bool" where
  "reduced k m \<longleftrightarrow> k \<le> length m \<and> (\<forall>i < k. m ! i \<noteq> 0) \<and>
     (\<forall>i j. i < j \<longrightarrow> j < k \<longrightarrow> low_col (m ! i) < low_col (m ! j)) \<and>
     (\<forall>i < k. \<forall>s < length m. s \<noteq> i \<longrightarrow> \<not> bit (m ! s) (low_col (m ! i)))"

definition rref_with :: "nat \<Rightarrow> row list \<Rightarrow> bool" where
  "rref_with k m \<longleftrightarrow> reduced k m \<and> (\<forall>s. k \<le> s \<longrightarrow> s < length m \<longrightarrow> m ! s = 0)"

definition is_rref :: "row list \<Rightarrow> bool" where
  "is_rref m \<longleftrightarrow> (\<exists>k. rref_with k m)"

definition loop_inv :: "nat \<Rightarrow> nat \<Rightarrow> row list \<Rightarrow> bool" where
  "loop_inv r n m \<longleftrightarrow> reduced r m \<and> n \<le> 64 \<and> (\<forall>i < r. low_col (m ! i) < n) \<and>
     from_col n r m"

lemma low_col_fits: "fits cols m \<Longrightarrow> s < length m \<Longrightarrow> cols \<le> low_col (m ! s) \<Longrightarrow> m ! s = 0"
  using low_col_bit [of "m ! s"] by (auto simp: fits_def)

lemma low_col_xor:
  assumes "low_col p \<le> low_col w" and "bit w (low_col p)" and "p \<noteq> 0"
  shows "low_col p < low_col (w XOR p)"
proof (rule ccontr)
  assume *: "\<not> low_col p < low_col (w XOR p)"
  then have nz: "w XOR p \<noteq> 0"
    using assms(3) low_col_less [of p] by (auto simp: low_col_def split: if_splits)
  have "bit (w XOR p) (low_col (w XOR p))" using nz by (rule low_col_bit)
  moreover have "\<not> bit (w XOR p) j" if "j \<le> low_col p" for j
    using that assms low_col_below [of j p] low_col_below [of j w] low_col_bit [of p]
    by (cases "j = low_col p") (auto simp: bit_simps)
  ultimately show False using * by simp
qed

lemma loop_inv_eliminate:
  assumes "loop_inv r n m" and r: "r < length m" and m1: "length m1 = length m"
    and low: "\<forall>i < r. m1 ! i = m ! i" and nz: "m1 ! r \<noteq> 0"
    and ge: "\<And>s. r \<le> s \<Longrightarrow> s < length m \<Longrightarrow> low_col (m1 ! r) \<le> low_col (m1 ! s)"
    and fc: "from_col n r m1"
    and unit: "\<forall>i < r. \<forall>s < length m. s \<noteq> i \<longrightarrow> \<not> bit (m1 ! s) (low_col (m1 ! i))"
  shows "loop_inv (Suc r) (Suc (low_col (m1 ! r))) (eliminate r m1)"
proof -
  let ?p = "m1 ! r" and ?e = "eliminate r m1"
  have red: "reduced r m" and n: "\<forall>i < r. low_col (m ! i) < n" using assms(1) by (auto simp: loop_inv_def)
  have e: "?e ! k = (if k \<noteq> r \<and> bit (m1 ! k) (low_col ?p) then m1 ! k XOR ?p else m1 ! k)"
    if "k < length m" for k using that r m1 nz by (simp add: nth_eliminate)
  have plt: "low_col (m1 ! i) < low_col ?p" if "i < r" for i
    using that n low fc r m1 by (fastforce simp: from_col_def)
  have nzi: "m1 ! i \<noteq> 0" if "i < r" for i using that red low by (simp add: reduced_def)
  have lc: "low_col (?e ! i) = low_col (m1 ! i)" if "i < r" for i
  proof (cases "bit (m1 ! i) (low_col ?p)")
    case True
    have "bit (m1 ! i XOR ?p) (low_col (m1 ! i))"
      using low_col_bit [OF nzi [OF that]] plt [OF that] low_col_below [of "low_col (m1 ! i)" ?p]
      by (simp add: bit_simps)
    moreover have "\<not> bit (m1 ! i XOR ?p) k" if "k < low_col (m1 ! i)" for k
      using that plt [OF \<open>i < r\<close>] low_col_below [of k "m1 ! i"] low_col_below [of k ?p]
      by (simp add: bit_simps)
    ultimately have "ctz (m1 ! i XOR ?p) = low_col (m1 ! i)" by (rule ctz_unique)
    moreover have "m1 ! i XOR ?p \<noteq> 0"
      using \<open>bit (m1 ! i XOR ?p) (low_col (m1 ! i))\<close> by auto
    ultimately show ?thesis using True that r e [of i] by (simp add: low_col_def)
  next
    case False
    then show ?thesis using that r e [of i] by simp
  qed
  have lcr: "?e ! r = ?p" using e [of r] r by simp
  have bitp: "bit ?p (low_col ?p)" using nz by (rule low_col_bit)
  have pu: "\<not> bit ?p (low_col (m1 ! i))" if "i < r" for i using that unit r by auto
  have u1: "\<not> bit (?e ! s) (low_col (m1 ! i))" if "i < r" "s < length m" "s \<noteq> i" for i s
    using that e [of s] unit pu by (auto simp: bit_simps)
  have u2: "\<not> bit (?e ! s) (low_col ?p)" if "s < length m" "s \<noteq> r" for s
    using that e [of s] bitp by (auto simp: bit_simps)
  have nze: "?e ! i \<noteq> 0" if "i < Suc r" for i
    using that lc lcr nz nzi by (metis less_Suc_eq low_col_less)
  have "reduced (Suc r) ?e"
    unfolding reduced_def
  proof (intro conjI allI impI)
    show "Suc r \<le> length ?e" using r m1 by simp
    show "?e ! i \<noteq> 0" if "i < Suc r" for i using nze that .
    show "low_col (?e ! i) < low_col (?e ! j)" if "i < j" "j < Suc r" for i j
      using that lc lcr plt red low by (auto simp: reduced_def less_Suc_eq)
    show "\<not> bit (?e ! s) (low_col (?e ! i))" if "i < Suc r" "s < length ?e" "s \<noteq> i" for i s
      using that u1 u2 lc lcr m1 by (auto simp: less_Suc_eq)
  qed
  moreover have "Suc (low_col ?p) \<le> low_col (?e ! s)" if "Suc r \<le> s" "s < length m" for s
  proof (cases "bit (m1 ! s) (low_col ?p)")
    case True
    then have "low_col ?p < low_col (m1 ! s XOR ?p)" using ge that nz by (intro low_col_xor) auto
    then show ?thesis using True that e [of s] by simp
  next
    case False
    have "low_col ?p \<noteq> low_col (m1 ! s)"
      using False low_col_bit [of "m1 ! s"] nz low_col_less [of ?p] by (auto simp: low_col_def split: if_splits)
    then show ?thesis using False that ge e [of s] by (auto simp: Suc_le_eq order_less_le)
  qed
  moreover have "Suc (low_col ?p) \<le> 64" using nz by (simp add: Suc_le_eq)
  moreover have "low_col (?e ! i) < Suc (low_col ?p)" if "i < Suc r" for i
    using that lc [of i] lcr plt [of i] by (auto simp: less_Suc_eq)
  ultimately show ?thesis using m1 by (auto simp: loop_inv_def from_col_def)
qed

lemma loop_inv_select:
  assumes "loop_inv r n m" and "r < length m"
    and "select_pivot r (mask n) [Suc r..<length m] m (lowmask (m ! r)) = (m1, b)"
  shows "row_equiv m m1" and "b = lowmask (m1 ! r)" and "length m1 = length m"
    and "\<forall>i < r. m1 ! i = m ! i" and "from_col n r m1" and "min_row r (length m) m1"
  using select_pivot_spec [OF assms(3)] assms(1,2) length_select_pivot [OF assms(3)]
  by (auto simp: loop_inv_def less_Suc_eq min_row_def)

text \<open>The rows below the pivots keep their zero columns, because they are combinations of rows
  that have them.\<close>

definition zero_col :: "nat \<Rightarrow> nat \<Rightarrow> row list \<Rightarrow> bool" where
  "zero_col c r m \<longleftrightarrow> (\<forall>s. r \<le> s \<longrightarrow> s < length m \<longrightarrow> \<not> bit (m ! s) c)"

lemma zero_col_swap_into:
  "r < length m \<Longrightarrow> r \<le> s \<Longrightarrow> s < length m \<Longrightarrow> zero_col c r m \<Longrightarrow> zero_col c r (swap_into r s m)"
  by (auto simp: zero_col_def nth_swap_into)

lemma select_pivot_Cons_if:
  "select_pivot r nb (s # ss) m b =
     (let m' = (if lowmask (m ! s) < b then swap_into r s m else m);
          b' = (if lowmask (m ! s) < b then lowmask (m ! s) else b)
      in if b' = nb then (m', b') else select_pivot r nb ss m' b')"
  by (cases "lowmask (m ! s) < b") (simp_all add: Let_def)

lemma select_pivot_zero_col:
  assumes "select_pivot r nb ss m b = (m1, b1)" and "r < length m" and "set ss \<subseteq> {r..<length m}"
    and "zero_col c r m"
  shows "zero_col c r m1"
  using assms
proof (induction ss arbitrary: m b)
  case (Cons s ss)
  define m2 where "m2 = (if lowmask (m ! s) < b then swap_into r s m else m)"
  define b2 where "b2 = (if lowmask (m ! s) < b then lowmask (m ! s) else b)"
  have z: "zero_col c r m2" "length m2 = length m"
    using Cons.prems(2-4) by (simp_all add: m2_def zero_col_swap_into)
  have sel: "(if b2 = nb then (m2, b2) else select_pivot r nb ss m2 b2) = (m1, b1)"
    using Cons.prems(1) unfolding select_pivot_Cons_if Let_def m2_def b2_def .
  show ?case
  proof (cases "b2 = nb")
    case True
    then show ?thesis using sel z by simp
  next
    case False
    then show ?thesis using sel z Cons.prems(2,3) by (intro Cons.IH [of m2 b2]) auto
  qed
qed simp

lemma rref_loop_spec:
  assumes "loop_inv r n m" and "nb = mask n" and "fits cols m" and "fb = mask (cols - 1)"
    and "0 < cols" and "cols \<le> 64"
  shows "row_equiv m (rref_loop fb r nb m) \<and> is_rref (rref_loop fb r nb m)"
  using assms
proof (induction fb r nb m arbitrary: n rule: rref_loop.induct)
  case (1 fb r nb m)
  show ?case
  proof (cases "r < length m")
    case False
    then have "rref_with r m" using "1.prems"(1) by (auto simp: loop_inv_def rref_with_def)
    then show ?thesis using False by (auto simp: rref_loop.simps [of fb r nb m] is_rref_def)
  next
    case True
    obtain m1 b where sel: "select_pivot r nb [Suc r..<length m] m (lowmask (m ! r)) = (m1, b)"
      by (cases "select_pivot r nb [Suc r..<length m] m (lowmask (m ! r))")
    note sp = loop_inv_select [OF "1.prems"(1) True sel [unfolded \<open>nb = mask n\<close>]]
    have unit: "\<forall>i < r. \<forall>s < length m. s \<noteq> i \<longrightarrow> \<not> bit (m1 ! s) (low_col (m1 ! i))"
    proof (intro allI impI)
      fix i s assume "i < r" "s < length m" "s \<noteq> i"
      have red: "reduced r m" using "1.prems"(1) by (simp add: loop_inv_def)
      show "\<not> bit (m1 ! s) (low_col (m1 ! i))"
      proof (cases "s < r")
        case True
        then show ?thesis using red \<open>i < r\<close> \<open>s < length m\<close> \<open>s \<noteq> i\<close> sp(4) by (auto simp: reduced_def)
      next
        case False
        have "zero_col (low_col (m ! i)) r m1"
          using red \<open>i < r\<close> True
          by (intro select_pivot_zero_col [OF sel]) (auto simp: reduced_def zero_col_def)
        then show ?thesis using False \<open>s < length m\<close> \<open>i < r\<close> sp(3,4) by (auto simp: zero_col_def)
      qed
    qed
    have red1: "reduced r m1"
      using "1.prems"(1) sp(3,4) unit by (auto simp: loop_inv_def reduced_def)
    have fits1: "fits cols m1" using row_equiv_fits [OF sp(1)] "1.prems"(3) .
    show ?thesis
    proof (cases "b = - 1")
      case b1: True
      then have "low_col (m1 ! r) = 64"
        using sp(2) by (simp add: lowmask_eq mask_64_row [symmetric] mask_eq_iff_row low_col_le)
      then have "m1 ! s = 0" if "r \<le> s" "s < length m1" for s
        using that sp(3,6) low_col_less [of "m1 ! s"] unfolding min_row_def by (metis linorder_not_less)
      then have "rref_with r m1" using red1 by (auto simp: rref_with_def)
      then show ?thesis using True b1 sel sp(1) by (auto simp: rref_loop.simps [of fb r nb m] is_rref_def)
    next
      case bn: False
      define m2 where "m2 = eliminate r m1"
      have nz: "m1 ! r \<noteq> 0" using bn sp(2) by (auto simp: lowmask_zero mask_64_row)
      have inv: "loop_inv (Suc r) (Suc (low_col (m1 ! r))) m2"
        unfolding m2_def using loop_inv_eliminate [OF "1.prems"(1) True sp(3,4) nz _ sp(5) unit] sp(6) by (auto simp: min_row_def)
      have eq: "row_equiv m m2"
        using sp(1) row_equiv_eliminate [of r m1] True sp(3) by (simp add: m2_def)
      have fits2: "fits cols m2" using row_equiv_fits [OF eq "1.prems"(3)] .
      show ?thesis
      proof (cases "b = fb")
        case bf: True
        then have "low_col (m1 ! r) = cols - 1"
          using sp(2) "1.prems"(4,5,6) by (simp add: lowmask_eq mask_eq_iff_row low_col_le)
        then have "m2 ! s = 0" if "Suc r \<le> s" "s < length m2" for s
          using that inv fits2 "1.prems"(5) by (intro low_col_fits) (auto simp: loop_inv_def from_col_def)
        then have "rref_with (Suc r) m2" using inv by (auto simp: rref_with_def loop_inv_def)
        then show ?thesis using True bn bf sel eq
          by (auto simp: rref_loop.simps [of fb r nb m] is_rref_def m2_def)
      next
        case bf: False
        have nb: "push_bit 1 b + 1 = mask (Suc (low_col (m1 ! r)))"
          using sp(2) push_bit_mask_row by (simp add: lowmask_eq)
        have "row_equiv m2 (rref_loop fb (Suc r) (push_bit 1 b + 1) m2) \<and>
          is_rref (rref_loop fb (Suc r) (push_bit 1 b + 1) m2)"
          using "1.IH" [OF True sel [symmetric] refl bn _ _ inv nb fits2 "1.prems"(4-6)] bf
          by (simp add: m2_def)
        then show ?thesis using True bn bf sel eq
          by (auto simp: rref_loop.simps [of fb r nb m] m2_def [symmetric])
      qed
    qed
  qed
qed

lemma loop_inv_start: "loop_inv 0 0 m"
  by (simp add: loop_inv_def reduced_def from_col_def)

lemma mask_final: "0 < cols \<Longrightarrow> push_bit (cols - 1) 1 - 1 = (mask (cols - 1) :: row)"
  by (simp add: mask_eq_exp_minus_1 push_bit_of_1)

lemma inplace_rref_small_spec:
  "fits cols m \<Longrightarrow> 0 < cols \<Longrightarrow> cols \<le> 64 \<Longrightarrow>
     row_equiv m (inplace_rref_small m cols) \<and> is_rref (inplace_rref_small m cols)"
  unfolding inplace_rref_small_def mask_final
  using rref_loop_spec [OF loop_inv_start, of 0 cols m "mask (cols - 1)"]
  by (simp add: mask_final)

lemma is_rref_single: "length m \<le> 1 \<Longrightarrow> is_rref m"
  unfolding is_rref_def rref_with_def reduced_def
  by (rule exI [of _ "length (filter (\<lambda>w. w \<noteq> 0) m)"])
    (cases m; auto simp: length_Suc_conv split: if_splits)

lemma is_rref_zero: "(\<And>s. s < length m \<Longrightarrow> m ! s = 0) \<Longrightarrow> is_rref m"
  unfolding is_rref_def rref_with_def reduced_def by (rule exI [of _ 0]) auto

lemma fits_0: "fits 0 m \<Longrightarrow> s < length m \<Longrightarrow> m ! s = 0"
  by (rule low_col_fits) auto

lemma rref_strided_spec:
  assumes "inplace_rref_strided m cols = Some m'" and "fits cols m"
  shows "row_equiv m m' \<and> is_rref m'"
proof (cases "length m \<le> 1 \<or> cols = 0")
  case True
  then have "m' = m" using assms(1) by (simp add: inplace_rref_strided_def)
  moreover have "is_rref m" using True assms(2) by (auto intro: is_rref_single is_rref_zero fits_0)
  ultimately show ?thesis by simp
next
  case False
  then show ?thesis using assms inplace_rref_small_spec [of cols m]
    by (auto simp: inplace_rref_strided_def split: if_splits)
qed

lemma rref_strided_total:
  "length m \<le> 64 \<Longrightarrow> cols \<le> 64 \<Longrightarrow> \<exists>m'. inplace_rref_strided m cols = Some m'"
  by (simp add: inplace_rref_strided_def)

section \<open>What the echelon form tells\<close>

lemma ex_row: "\<exists>x :: row. \<forall>c < 64. bit x c = P c"
  by (rule exI [of _ "horner_sum of_bool 2 (map P [0..<64])"]) (simp add: bit_horner_sum_bit_word_iff)

lemma rref_pivot_unit:
  "rref_with k m \<Longrightarrow> i < k \<Longrightarrow> s < length m \<Longrightarrow> bit (m ! s) (low_col (m ! i)) \<longleftrightarrow> s = i"
  using low_col_bit [of "m ! i"] by (auto simp: rref_with_def reduced_def)

lemma rref_pivot_inj:
  "rref_with k m \<Longrightarrow> i < k \<Longrightarrow> j < k \<Longrightarrow> low_col (m ! i) = low_col (m ! j) \<Longrightarrow> i = j"
  using rref_pivot_unit [of k m i i] rref_pivot_unit [of k m j i]
  by (auto simp: rref_with_def reduced_def)

lemma rref_rank: "rref_with k m \<Longrightarrow> length (filter (\<lambda>w. w \<noteq> 0) m) = k"
proof -
  assume r: "rref_with k m"
  then have "{i. i < length m \<and> m ! i \<noteq> 0} = {..<k}"
    by (auto simp: rref_with_def reduced_def not_less [symmetric])
  then show ?thesis by (simp add: length_filter_conv_card)
qed

lemma dot_on_pivots:
  assumes "rref_with k m" and "s < k" and "\<And>c. c < 64 \<Longrightarrow> bit x c \<Longrightarrow> \<exists>i < k. c = low_col (m ! i)"
  shows "dot (m ! s) x = bit x (low_col (m ! s))"
proof -
  have s: "s < length m" and nz: "m ! s \<noteq> 0" using assms(1,2) by (auto simp: rref_with_def reduced_def)
  have "(bit (m ! s) c \<and> bit x c) \<longleftrightarrow> (c = low_col (m ! s) \<and> bit x c)" if "c < 64" for c
    using assms(3) [OF that] rref_pivot_unit [OF assms(1) _ s] assms(2) by auto
  then have "dot (m ! s) x = parity 64 (\<lambda>c. c = low_col (m ! s) \<and> bit x c)"
    unfolding dot_def by (rule parity_cong)
  then show ?thesis using nz by (simp add: parity_single)
qed

lemma rref_onto: "rref_with k m \<Longrightarrow> onto m \<longleftrightarrow> k = length m"
proof
  assume r: "rref_with k m" and "onto m"
  show "k = length m"
  proof (rule ccontr)
    assume "k \<noteq> length m"
    then have k: "k < length m" using r by (auto simp: rref_with_def reduced_def)
    obtain x where "map (\<lambda>w. dot w x) m = replicate (length m) True"
      using \<open>onto m\<close> unfolding onto_def by (metis length_replicate)
    then have "dot (m ! k) x" using k by (metis nth_map nth_replicate)
    then show False using r k by (simp add: rref_with_def)
  qed
next
  assume r: "rref_with k m" and k: "k = length m"
  show "onto m" unfolding onto_def
  proof (intro allI impI)
    fix ys :: "bool list" assume l: "length ys = length m"
    obtain x :: row where x: "\<forall>c < 64. bit x c = (\<exists>i < k. ys ! i \<and> c = low_col (m ! i))"
      by (rule exE [OF ex_row [of "\<lambda>c. \<exists>i < k. ys ! i \<and> c = low_col (m ! i)"]])
    have "dot (m ! s) x = ys ! s" if "s < length m" for s
    proof -
      have "low_col (m ! s) < 64" using r that k by (auto simp: rref_with_def reduced_def)
      moreover have "dot (m ! s) x = bit x (low_col (m ! s))"
        using x that k by (intro dot_on_pivots [OF r]) auto
      ultimately show ?thesis using x that k rref_pivot_inj [OF r] by auto
    qed
    then have "map (\<lambda>w. dot w x) m = ys" using l by (intro nth_equalityI) auto
    then show "\<exists>x. map (\<lambda>w. dot w x) m = ys" ..
  qed
qed

lemma rref_pivot_lt: "rref_with k m \<Longrightarrow> fits cols m \<Longrightarrow> i < k \<Longrightarrow> low_col (m ! i) < cols"
  using low_col_bit [of "m ! i"] by (auto simp: rref_with_def reduced_def fits_def not_le [symmetric])

definition within :: "nat \<Rightarrow> row \<Rightarrow> bool" where
  "within cols x \<longleftrightarrow> (\<forall>c \<ge> cols. \<not> bit x c)"

text \<open>A free column gives a nonzero vector of the null space.\<close>

lemma rref_free_column:
  assumes r: "rref_with k m" and f: "f < 64" and free: "\<And>i. i < k \<Longrightarrow> low_col (m ! i) \<noteq> f"
  shows "\<exists>x. null_space m x \<and> bit x f \<and> (\<forall>c < 64. bit x c \<longrightarrow> c = f \<or> (\<exists>i < k. c = low_col (m ! i)))"
proof -
  obtain x :: row where x: "\<forall>c < 64. bit x c =
      (c = f \<or> (\<exists>i < k. bit (m ! i) f \<and> c = low_col (m ! i)))"
    by (rule exE [OF ex_row [of "\<lambda>c. c = f \<or> (\<exists>i < k. bit (m ! i) f \<and> c = low_col (m ! i))"]])
  obtain y :: row where y: "\<forall>c < 64. bit y c = (\<exists>i < k. bit (m ! i) f \<and> c = low_col (m ! i))"
    by (rule exE [OF ex_row [of "\<lambda>c. \<exists>i < k. bit (m ! i) f \<and> c = low_col (m ! i)"]])
  have "\<not> dot (m ! s) x" if s: "s < length m" for s
  proof (cases "s < k")
    case False
    then show ?thesis using r s by (simp add: rref_with_def)
  next
    case True
    have nz: "low_col (m ! s) < 64" using r True by (auto simp: rref_with_def reduced_def)
    have "(bit (m ! s) c \<and> bit x c) \<longleftrightarrow>
        ((c = f \<and> bit (m ! s) c) \<noteq> (bit (m ! s) c \<and> bit y c))" if "c < 64" for c
      using x y that free by auto
    then have "dot (m ! s) x \<longleftrightarrow> parity 64 (\<lambda>c. (c = f \<and> bit (m ! s) c) \<noteq> (bit (m ! s) c \<and> bit y c))"
      unfolding dot_def by (rule parity_cong)
    also have "\<dots> \<longleftrightarrow> (bit (m ! s) f \<noteq> dot (m ! s) y)"
      unfolding parity_neq dot_def using f by (simp only: parity_single)
    also have "dot (m ! s) y = bit y (low_col (m ! s))"
      using y by (intro dot_on_pivots [OF r True]) auto
    also have "\<dots> = bit (m ! s) f" using y nz True rref_pivot_inj [OF r] by auto
    finally show ?thesis by simp
  qed
  then show ?thesis using x f by (intro exI [of _ x]) (auto simp: null_space_nth)
qed

lemma rref_injective:
  assumes r: "rref_with k m" and fit: "fits cols m" and cols: "cols \<le> 64"
  shows "k = cols \<longleftrightarrow> (\<forall>x. within cols x \<longrightarrow> null_space m x \<longrightarrow> x = 0)"
proof -
  let ?P = "(\<lambda>i. low_col (m ! i)) ` {..<k}"
  have card: "card ?P = k" using rref_pivot_inj [OF r] by (subst card_image) (auto simp: inj_on_def)
  have sub: "?P \<subseteq> {..<cols}" using rref_pivot_lt [OF r fit] by auto
  show ?thesis
  proof
    assume "k = cols"
    then have P: "?P = {..<cols}" using card sub card_subset_eq [of "{..<cols}" ?P] by simp
    show "\<forall>x. within cols x \<longrightarrow> null_space m x \<longrightarrow> x = 0"
    proof (intro allI impI)
      fix x assume w: "within cols x" and n: "null_space m x"
      have "\<not> bit x c" if "c < 64" for c
      proof (cases "c < cols")
        case True
        then obtain i where i: "i < k" "c = low_col (m ! i)" using P by auto
        have "dot (m ! i) x = bit x (low_col (m ! i))"
        proof (rule dot_on_pivots [OF r i(1)])
          fix c assume "bit x c"
          then have "c \<in> {..<cols}" using w by (auto simp: within_def not_le [symmetric])
          then show "\<exists>i < k. c = low_col (m ! i)" using P by blast
        qed
        then show ?thesis using n i r by (auto simp: null_space_nth rref_with_def reduced_def)
      next
        case False
        then show ?thesis using w by (simp add: within_def)
      qed
      then show "x = 0" by (intro bit_word_eqI) auto
    qed
  next
    assume triv: "\<forall>x. within cols x \<longrightarrow> null_space m x \<longrightarrow> x = 0"
    show "k = cols"
    proof (rule ccontr)
      assume "k \<noteq> cols"
      then have "?P \<noteq> {..<cols}" using card by (metis card_lessThan)
      then obtain f where f: "f < cols" "f \<notin> ?P" using sub by blast
      then obtain x where x: "null_space m x" "bit x f"
          "\<forall>c < 64. bit x c \<longrightarrow> c = f \<or> (\<exists>i < k. c = low_col (m ! i))"
        using rref_free_column [OF r, of f] cols by force
      have "within cols x" unfolding within_def
      proof (intro allI impI)
        fix c assume "cols \<le> c"
        show "\<not> bit x c"
        proof
          assume "bit x c"
          moreover have "c < 64" using \<open>bit x c\<close> bit_imp_le_length [of x c] by simp
          ultimately have "c \<in> insert f ?P" using x(3) by auto
          then show False using f sub \<open>cols \<le> c\<close> by auto
        qed
      qed
      then show False using triv x by force
    qed
  qed
qed

section \<open>The interface to the layouts\<close>

text \<open>What \<open>LinearLayout\<close> needs from a row reduction, and what follows from it alone.\<close>

definition nonzero_rows :: "row list \<Rightarrow> nat" where
  "nonzero_rows m = length (filter (\<lambda>w. w \<noteq> 0) m)"

locale row_reducer =
  fixes rref :: "row list \<Rightarrow> nat \<Rightarrow> row list option"
  assumes total: "length m \<le> 64 \<Longrightarrow> cols \<le> 64 \<Longrightarrow> \<exists>m'. rref m cols = Some m'"
    and equiv: "rref m cols = Some m' \<Longrightarrow> fits cols m \<Longrightarrow> row_equiv m m'"
    and echelon: "rref m cols = Some m' \<Longrightarrow> fits cols m \<Longrightarrow> is_rref m'"
begin

lemma rank_onto:
  assumes "rref m cols = Some m'" and "fits cols m"
  shows "nonzero_rows m' = length m \<longleftrightarrow> onto m"
proof -
  obtain k where "rref_with k m'" using echelon [OF assms] by (auto simp: is_rref_def)
  then show ?thesis
    using row_equiv_onto [OF equiv [OF assms]] row_equiv_length [OF equiv [OF assms]]
    by (simp add: rref_onto rref_rank nonzero_rows_def)
qed

lemma rank_injective:
  assumes "rref m cols = Some m'" and "fits cols m" and "cols \<le> 64"
  shows "nonzero_rows m' = cols \<longleftrightarrow> (\<forall>x. within cols x \<longrightarrow> null_space m x \<longrightarrow> x = 0)"
proof -
  obtain k where "rref_with k m'" using echelon [OF assms(1,2)] by (auto simp: is_rref_def)
  then show ?thesis
    using rref_injective [of k m' cols] row_equiv_fits [OF equiv [OF assms(1,2)] assms(2)] assms(3)
      row_equiv_null_space [OF equiv [OF assms(1,2)]]
    by (simp add: rref_rank nonzero_rows_def)
qed

end

interpretation f2: row_reducer inplace_rref_strided
  by unfold_locales (auto dest: rref_strided_spec simp: rref_strided_total)

end
