(* ===== verification/LinearLayout.thy ===== *)
theory LinearLayout
  imports F2Reduce
begin

text \<open>
  The class \<open>LinearLayout\<close> of \<open>include/triton/Tools/LinearLayout.h\<close> and
  \<open>lib/Tools/LinearLayout.cpp\<close>: its state, its constructors with the invariant check, its accessors
  and \<open>apply\<close>. A \<open>MapVector\<close> is an association list in insertion order with distinct keys, an
  \<open>int32_t\<close> an \<open>int\<close>. None is a stopped compiler (a failed assertion or a fatal error).
\<close>

section \<open>State\<close>

type_synonym basesT = "(dim \<times> int list list) list"

record linear_layout =
  bases :: basesT
  outDims :: "(dim \<times> int) list"
  rank :: int

datatype ll_error =
    NegativeBasis dim
  | BasisLength dim nat
  | OutDimNotPow2 dim int
  | BasisTooLarge int dim dim
  | NotSurjective

definition mapvec :: "('k \<times> 'v) list \<Rightarrow> ('k \<times> 'v) list" where
  "mapvec ps = fold (\<lambda>(k, v). AList.update k v) ps []"

section \<open>Accessors\<close>

definition getInDimNames :: "linear_layout \<Rightarrow> dim list" where
  "getInDimNames l = map fst (bases l)"

definition getOutDimNames :: "linear_layout \<Rightarrow> dim list" where
  "getOutDimNames l = map fst (outDims l)"

definition hasInDim :: "linear_layout \<Rightarrow> dim \<Rightarrow> bool" where
  "hasInDim l d = (d \<in> set (getInDimNames l))"

definition hasOutDim :: "linear_layout \<Rightarrow> dim \<Rightarrow> bool" where
  "hasOutDim l d = (d \<in> set (getOutDimNames l))"

fun index_of :: "'a \<Rightarrow> 'a list \<Rightarrow> nat option" where
  "index_of x [] = None"
| "index_of x (y # ys) = (if y = x then Some 0 else map_option Suc (index_of x ys))"

definition getOutDimIndex :: "linear_layout \<Rightarrow> dim \<Rightarrow> nat option" where
  "getOutDimIndex l d = index_of d (getOutDimNames l)"

definition getInDimSizeLog2 :: "linear_layout \<Rightarrow> dim \<Rightarrow> nat option" where
  "getInDimSizeLog2 l d = map_option length (map_of (bases l) d)"

definition getInDimSize :: "linear_layout \<Rightarrow> dim \<Rightarrow> int option" where
  "getInDimSize l d = map_option (\<lambda>k. 2 ^ k) (getInDimSizeLog2 l d)"

definition getTotalInDimSizeLog2 :: "linear_layout \<Rightarrow> nat" where
  "getTotalInDimSizeLog2 l = sum_list (map (\<lambda>(_, bs). length bs) (bases l))"

definition getTotalInDimSize :: "linear_layout \<Rightarrow> int" where
  "getTotalInDimSize l = 2 ^ getTotalInDimSizeLog2 l"

definition getOutDimSizeLog2 :: "linear_layout \<Rightarrow> dim \<Rightarrow> nat option" where
  "getOutDimSizeLog2 l d = map_option log2_32 (map_of (outDims l) d)"

definition getOutDimSize :: "linear_layout \<Rightarrow> dim \<Rightarrow> int option" where
  "getOutDimSize l d = map_option (\<lambda>k. 2 ^ k) (getOutDimSizeLog2 l d)"

definition getTotalOutDimSizeLog2 :: "linear_layout \<Rightarrow> nat" where
  "getTotalOutDimSizeLog2 l = sum_list (map (\<lambda>(_, s). log2_32 s) (outDims l))"

definition getTotalOutDimSize :: "linear_layout \<Rightarrow> int" where
  "getTotalOutDimSize l = 2 ^ getTotalOutDimSizeLog2 l"

definition getBasisVec :: "linear_layout \<Rightarrow> dim \<Rightarrow> nat \<Rightarrow> int list option" where
  "getBasisVec l d pos = do {
     bs \<leftarrow> map_of (bases l) d;
     if pos < length bs then Some (bs ! pos) else None
   }"

definition getBasis :: "linear_layout \<Rightarrow> dim \<Rightarrow> nat \<Rightarrow> dim \<Rightarrow> int option" where
  "getBasis l d pos outDim = do {
     b \<leftarrow> getBasisVec l d pos;
     k \<leftarrow> getOutDimIndex l outDim;
     if k < length b then Some (b ! k) else None
   }"

definition isSurjective :: "linear_layout \<Rightarrow> bool" where
  "isSurjective l = (rank l = int (getTotalOutDimSizeLog2 l))"

definition isInjective :: "linear_layout \<Rightarrow> bool" where
  "isInjective l = (rank l = int (getTotalInDimSizeLog2 l))"

definition isInvertible :: "linear_layout \<Rightarrow> bool" where
  "isInvertible l = (isSurjective l \<and> getTotalInDimSize l = getTotalOutDimSize l)"

section \<open>The matrix of a layout\<close>

text \<open>All basis vectors, in-dimension by in-dimension: the columns of the matrix.\<close>

definition columns :: "linear_layout \<Rightarrow> int list list" where
  "columns l = concat (map snd (bases l))"

text \<open>Row \<open>j\<close> of the block of the \<open>k\<close>-th out-dimension: bit \<open>c\<close> is bit \<open>j\<close> of that component of
  the \<open>c\<close>-th basis vector.\<close>

definition matrix_row :: "int list list \<Rightarrow> nat \<Rightarrow> nat \<Rightarrow> row" where
  "matrix_row cols k j =
     fold (\<lambda>(c, b) w. w OR push_bit c (of_int (drop_bit j (b ! k) AND 1))) (enumerate 0 cols) 0"

definition getMatrix :: "linear_layout \<Rightarrow> row list option" where
  "getMatrix l =
     (if getTotalInDimSizeLog2 l \<le> 64 \<and> getTotalOutDimSizeLog2 l \<le> 64
      then Some (concat (map (\<lambda>(k, (_, sz)). map (matrix_row (columns l) k) [0..<log2_32 sz])
             (enumerate 0 (outDims l))))
      else None)"

definition getMatrixRank :: "row list \<Rightarrow> nat \<Rightarrow> nat option" where
  "getMatrixRank m numCols =
     (if numCols \<le> 64 then map_option nonzero_rows (inplace_rref_strided m numCols) else None)"

section \<open>The invariant check and the constructors\<close>

text \<open>The violations \<open>checkInvariants\<close> looks for, in the order of its loops; it reports the first.\<close>

definition invariant_errors :: "linear_layout \<Rightarrow> ll_error list" where
  "invariant_errors l =
     [NegativeBasis d. (d, bs) \<leftarrow> bases l, b \<leftarrow> bs, list_ex (\<lambda>x. x < 0) b] @
     [BasisLength d (length (outDims l)). (d, bs) \<leftarrow> bases l, b \<leftarrow> bs, length b \<noteq> length (outDims l)] @
     [OutDimNotPow2 d s. (d, s) \<leftarrow> outDims l, \<not> is_pow2_32 s] @
     [BasisTooLarge x d od. (d, bs) \<leftarrow> bases l, b \<leftarrow> bs, (x, (od, s)) \<leftarrow> zip b (outDims l), x \<ge> s]"

definition checkInvariants :: "bool \<Rightarrow> linear_layout \<Rightarrow> (ll_error + linear_layout) option" where
  "checkInvariants requireSurjective l =
     (case invariant_errors l of
        e # _ \<Rightarrow> Some (Inl e)
      | [] \<Rightarrow> do {
          m \<leftarrow> getMatrix l;
          r \<leftarrow> getMatrixRank m (getTotalInDimSizeLog2 l);
          let l' = l\<lparr>rank := int r\<rparr>;
          Some (if requireSurjective \<and> \<not> isSurjective l' then Inl NotSurjective else Inr l')
        })"

definition noCheckLayout :: "basesT \<Rightarrow> (dim \<times> int) list \<Rightarrow> linear_layout" where
  "noCheckLayout bs outs = \<lparr>bases = bs, outDims = mapvec outs, rank = 0\<rparr>"

text \<open>The public constructor with explicit out-dim sizes stops the compiler on a violation;
  \<open>tryCreate\<close> returns \<open>std::nullopt\<close>, the inner None.\<close>

definition mkLayout :: "basesT \<Rightarrow> (dim \<times> int) list \<Rightarrow> bool \<Rightarrow> linear_layout option" where
  "mkLayout bs outs requireSurjective =
     (case checkInvariants requireSurjective (noCheckLayout bs outs) of
        Some (Inr l) \<Rightarrow> Some l | _ \<Rightarrow> None)"

definition tryCreate :: "basesT \<Rightarrow> (dim \<times> int) list \<Rightarrow> bool \<Rightarrow> linear_layout option option" where
  "tryCreate bs outs requireSurjective =
     map_option (\<lambda>r. case r of Inl _ \<Rightarrow> None | Inr l \<Rightarrow> Some l)
       (checkInvariants requireSurjective (noCheckLayout bs outs))"

text \<open>\<open>NextPowerOf2\<close> of LLVM on the \<open>uint64_t\<close> image of an \<open>int32_t\<close>, read back as \<open>int32_t\<close>: a negative
  basis wraps to 0, and \<open>2 ^ 31\<close> to the least \<open>int32_t\<close>.\<close>

definition nextPowerOf2_32 :: "int \<Rightarrow> int" where
  "nextPowerOf2_32 x =
     (if x < 0 then 0 else if x = 0 then 1 else signed_take_bit 31 (2 ^ Suc (log2_nat (nat x))))"

definition infer_sizes :: "dim list \<Rightarrow> basesT \<Rightarrow> (dim \<times> int) list" where
  "infer_sizes names bs =
     fold (\<lambda>b sizes. fold (\<lambda>(name, x) sz.
             AList.update name (max (the (map_of sz name)) (nextPowerOf2_32 x)) sz) (zip names b) sizes)
       (concat (map snd bs)) (mapvec (map (\<lambda>n. (n, 1)) names))"

definition mkLayoutInfer :: "basesT \<Rightarrow> dim list \<Rightarrow> linear_layout option" where
  "mkLayoutInfer bs names =
     (if list_all (\<lambda>(_, vs). list_all (\<lambda>b. length b \<le> length names) vs) bs
      then mkLayout bs (infer_sizes names bs) True else None)"

definition empty_layout :: linear_layout where
  "empty_layout = \<lparr>bases = [], outDims = [], rank = 0\<rparr>"

text \<open>The powers of two below \<open>sz\<close>, as the loops \<open>for (i = 1; i < sz; i *= 2)\<close> count them.\<close>

function pow2s_below :: "int \<Rightarrow> int \<Rightarrow> int list" where
  "pow2s_below i sz = (if 0 < i \<and> i < sz then i # pow2s_below (i * 2) sz else [])"
  by pat_completeness auto
termination by (relation "measure (\<lambda>(i, sz). nat (sz - i))") auto

declare pow2s_below.simps [simp del]

definition strided1D :: "int \<Rightarrow> int \<Rightarrow> dim \<Rightarrow> dim \<Rightarrow> linear_layout option" where
  "strided1D sz stride inDim outDim =
     (if sz = 0 then Some empty_layout
      else if \<not> is_pow2_32 sz then None
      else mkLayout [(inDim, map (\<lambda>i. [i * stride]) (pow2s_below 1 sz))]
             [(outDim, stride * sz)] (stride = 1))"

definition identity1D :: "int \<Rightarrow> dim \<Rightarrow> dim \<Rightarrow> linear_layout option" where
  "identity1D sz inDim outDim = strided1D sz 1 inDim outDim"

definition zeros1D :: "int \<Rightarrow> dim \<Rightarrow> dim \<Rightarrow> int \<Rightarrow> linear_layout option" where
  "zeros1D sz inDim outDim outDimSize =
     (if sz = 0 then Some empty_layout
      else if \<not> is_pow2_32 sz then None
      else mkLayout [(inDim, map (\<lambda>_. [0]) (pow2s_below 1 sz))]
             [(outDim, outDimSize)] (outDimSize = 1))"

section \<open>Applying a layout\<close>

text \<open>\<open>assertDimsEqualIgnoringOrder\<close> and \<open>assertDimsSubsetIgnoringOrder\<close>.\<close>

definition dimsEqual :: "dim list \<Rightarrow> dim list \<Rightarrow> bool" where
  "dimsEqual a b = (set a = set b)"

definition dimsSubset :: "dim list \<Rightarrow> dim list \<Rightarrow> bool" where
  "dimsSubset a b = (set a \<subseteq> set b)"

definition xor_bases :: "int list list \<Rightarrow> nat \<Rightarrow> int \<Rightarrow> int \<Rightarrow> int" where
  "xor_bases bs k v outVal =
     fold (\<lambda>(i, b) acc. if bit v i then acc XOR (b ! k) else acc) (enumerate 0 bs) outVal"

definition apply_out :: "linear_layout \<Rightarrow> (dim \<times> int) list \<Rightarrow> nat \<Rightarrow> int" where
  "apply_out l ins k = fold (\<lambda>(d, v). xor_bases (the (map_of (bases l) d)) k v) ins 0"

definition apply_layout :: "linear_layout \<Rightarrow> (dim \<times> int) list \<Rightarrow> (dim \<times> int) list option" where
  "apply_layout l ins =
     (if dimsEqual (map fst ins) (getInDimNames l)
      then Some (map (\<lambda>(k, (od, _)). (od, apply_out l ins k)) (enumerate 0 (outDims l)))
      else None)"

definition getNumConsecutiveInOut :: "linear_layout \<Rightarrow> int" where
  "getNumConsecutiveInOut l =
     (case bases l of
        [] \<Rightarrow> 1
      | (firstDim, firstBases) # _ \<Rightarrow>
          if outDims l = [] then 1
          else let consec = length (takeWhile (\<lambda>(i, b). b ! 0 = 2 ^ i \<and> list_all (\<lambda>x. x = 0) (tl b))
                              (enumerate 0 firstBases));
                   otherBits = fold (\<lambda>x acc. acc OR x)
                     [b ! 0. (d, bs) \<leftarrow> bases l, (i, b) \<leftarrow> enumerate 0 bs, d \<noteq> firstDim \<or> consec \<le> i] 0;
                   trailingZeros = (if otherBits \<noteq> 0 then ctz (of_int otherBits) else 31)
               in 2 ^ min consec trailingZeros)"

end
