(* ===== verification/LayoutLemmas.thy ===== *)
theory LayoutLemmas
  imports LinearLayout
begin

text \<open>
  The algebra of layouts: \<open>apply\<close> as an exclusive-or of selected basis vectors, its matrix, the
  meaning of the invariant check, and what the cached rank says about the function.
\<close>

section \<open>Insertion-ordered maps\<close>

lemma update_absent: "k \<notin> fst ` set xs \<Longrightarrow> AList.update k v xs = xs @ [(k, v)]"
  by (induction xs) auto

lemma fold_update_distinct:
  "distinct (map fst ps) \<Longrightarrow> fst ` set ps \<inter> fst ` set xs = {} \<Longrightarrow>
     fold (\<lambda>(k, v). AList.update k v) ps xs = xs @ ps"
proof (induction ps arbitrary: xs)
  case (Cons p ps)
  obtain k v where [simp]: "p = (k, v)" by (cases p)
  have "fold (\<lambda>(k, v). AList.update k v) ps (xs @ [(k, v)]) = (xs @ [(k, v)]) @ ps"
    using Cons.prems by (intro Cons.IH) auto
  then show ?case using Cons.prems by (simp add: update_absent)
qed simp

lemma mapvec_distinct [simp]: "distinct (map fst ps) \<Longrightarrow> mapvec ps = ps"
  by (simp add: mapvec_def fold_update_distinct)

lemma distinct_fold_update:
  "distinct (map fst xs) \<Longrightarrow> distinct (map fst (fold (\<lambda>(k, v). AList.update k v) ps xs))"
  by (induction ps arbitrary: xs) (auto simp: AList.distinct_update)

lemma distinct_mapvec [simp]: "distinct (map fst (mapvec ps))"
  by (simp add: mapvec_def distinct_fold_update)

lemma index_of_Some: "index_of x ys = Some i \<Longrightarrow> i < length ys \<and> ys ! i = x"
  by (induction ys arbitrary: i) (auto split: if_splits)

lemma index_of_nth: "distinct ys \<Longrightarrow> i < length ys \<Longrightarrow> index_of (ys ! i) ys = Some i"
  by (induction ys arbitrary: i) (auto simp: nth_Cons split: nat.splits)

lemma index_of_None: "index_of x ys = None \<longleftrightarrow> x \<notin> set ys"
  by (induction ys) auto

section \<open>Powers of two\<close>

lemma and_pred_zero: "0 < u \<Longrightarrow> u AND (u - 1) = (0::int) \<Longrightarrow> \<exists>k. u = 2 ^ k"
proof (induction "nat u" arbitrary: u rule: less_induct)
  case less
  show ?case
  proof (cases "u = 1")
    case True
    then show ?thesis by (intro exI [of _ 0]) simp
  next
    case False
    have e: "u AND (u - 1) = of_bool (odd u \<and> odd (u - 1)) + 2 * ((u div 2) AND ((u - 1) div 2))"
      by (rule and_rec)
    have "even u"
    proof (rule ccontr)
      assume o: "odd u"
      then have "(u - 1) div 2 = u div 2" by presburger
      then have "u div 2 = 0" using e o less.prems by simp
      then show False using o less.prems False by presburger
    qed
    then have "(u - 1) div 2 = u div 2 - 1" by presburger
    then have "u div 2 AND (u div 2 - 1) = 0" using e \<open>even u\<close> less.prems by simp
    moreover have pos: "0 < u div 2" using \<open>even u\<close> less.prems(1) by presburger
    moreover have "nat (u div 2) < nat u" using pos less.prems(1) by (simp add: nat_less_eq_zless)
    ultimately obtain k where "u div 2 = 2 ^ k" using less.hyps by blast
    moreover have "u = 2 * (u div 2)" using \<open>even u\<close> by simp
    ultimately have "u = 2 ^ Suc k" by (metis power_Suc)
    then show ?thesis by blast
  qed
qed

lemma pow_and_pred: "(2::int) ^ k AND (2 ^ k - 1) = 0"
  by (simp flip: mask_eq_exp_minus_1 take_bit_eq_mask)

lemma pow_mod32: "k < 32 \<Longrightarrow> (2::int) ^ k mod 2 ^ 32 = 2 ^ k"
proof -
  assume "k < 32"
  then have "(2::int) ^ k < 2 ^ 32" by (intro power_strict_increasing) auto
  then show ?thesis by (intro mod_pos_pos_trivial) auto
qed

lemma is_pow2_32_pow [simp]: "k < 32 \<Longrightarrow> is_pow2_32 (2 ^ k)"
  unfolding is_pow2_32_def by (simp only: pow_mod32 Let_def pow_and_pred) simp

lemma log2_32_pow [simp]: "k < 32 \<Longrightarrow> log2_32 (2 ^ k) = k"
  unfolding log2_32_def by (simp only: pow_mod32) (simp add: nat_power_eq)

definition small_pow :: "int \<Rightarrow> bool" where
  "small_pow s \<longleftrightarrow> 0 < s \<and> s < 2 ^ 31 \<and> is_pow2_32 s"

lemma small_pow_iff: "small_pow s \<longleftrightarrow> (\<exists>k < 31. s = 2 ^ k)"
proof
  assume "small_pow s"
  then have assms: "0 < s" "s < 2 ^ 31" "is_pow2_32 s" by (auto simp: small_pow_def)
  moreover have "s mod 2 ^ 32 = s" using assms by (intro mod_pos_pos_trivial) auto
  ultimately obtain k where k: "s = 2 ^ k" using and_pred_zero [of s] assms by (auto simp: is_pow2_32_def Let_def)
  then have "(2::int) ^ k < 2 ^ 31" using assms by simp
  then have "k < 31" by (rule power_less_imp_less_exp [rotated]) simp
  then show "\<exists>k < 31. s = 2 ^ k" using k by auto
next
  assume "\<exists>k < 31. s = 2 ^ k"
  then obtain k where k: "k < 31" "s = 2 ^ k" by auto
  then have "s < 2 ^ 31" by (simp only:) (rule power_strict_increasing, auto)
  then show "small_pow s" using k by (auto simp: small_pow_def)
qed

lemma small_powE: "small_pow s \<Longrightarrow> s = 2 ^ log2_32 s \<and> log2_32 s < 31"
  by (auto simp: small_pow_iff)

section \<open>Exclusive-or sums\<close>

fun xlin :: "bool list \<Rightarrow> int list \<Rightarrow> int" where
  "xlin (c # cs) (x # xs) = (if c then x else 0) XOR xlin cs xs"
| "xlin _ _ = 0"

lemma xlin_append:
  "length cs = length xs \<Longrightarrow> xlin (cs @ ds) (xs @ ys) = xlin cs xs XOR xlin ds ys"
  by (induction cs xs rule: xlin.induct) (auto simp: xor.assoc)

lemma bit_xlin:
  "length cs = length xs \<Longrightarrow> bit (xlin cs xs) j = parity (length xs) (\<lambda>c. cs ! c \<and> bit (xs ! c) j)"
proof (induction cs arbitrary: xs rule: rev_induct)
  case (snoc c cs)
  then obtain ys y where xs: "xs = ys @ [y]" "length ys = length cs"
    by (metis length_append_singleton length_0_conv nat.distinct(1) rev_exhaust Suc_inject)
  have "parity (length ys) (\<lambda>i. (cs @ [c]) ! i \<and> bit ((ys @ [y]) ! i) j) =
        parity (length ys) (\<lambda>i. cs ! i \<and> bit (ys ! i) j)"
    using xs by (intro parity_cong) (auto simp: nth_append)
  then show ?case using snoc.IH [of ys] xs
    by (auto simp: xlin_append bit_xor_iff parity_Suc nth_append)
qed (simp add: parity_0)

lemma xlin_neq:
  "length cs = length xs \<Longrightarrow> length ds = length xs \<Longrightarrow>
     xlin (map2 (\<noteq>) cs ds) xs = xlin cs xs XOR xlin ds xs"
proof (induction cs xs arbitrary: ds rule: xlin.induct)
  case (1 c cs x xs)
  then show ?case by (cases ds) (auto simp: ac_simps)
qed auto

lemma xlin_zero: "(\<And>x. x \<in> set xs \<Longrightarrow> x = 0) \<Longrightarrow> xlin cs xs = 0"
  by (induction cs xs rule: xlin.induct) auto

lemma xlin_False: "(\<And>c. c \<in> set cs \<Longrightarrow> \<not> c) \<Longrightarrow> xlin cs xs = 0"
  by (induction cs xs rule: xlin.induct) auto

lemma xlin_range:
  assumes "\<And>x. x \<in> set xs \<Longrightarrow> 0 \<le> x \<and> x < 2 ^ n"
  shows "0 \<le> xlin cs xs \<and> xlin cs xs < 2 ^ n"
  using assms
proof (induction cs xs rule: xlin.induct)
  case (1 c cs x xs)
  have x: "take_bit n (if c then x else 0) = (if c then x else 0)"
    using 1(2) [of x] by (simp add: take_bit_int_eq_self)
  have y: "take_bit n (xlin cs xs) = xlin cs xs"
    using 1 by (simp add: take_bit_int_eq_self)
  have "take_bit n (xlin (c # cs) (x # xs)) = xlin (c # cs) (x # xs)"
    using x y by (simp only: xlin.simps take_bit_xor)
  then show ?case by (metis take_bit_nonnegative take_bit_int_less_exp)
qed auto

definition xsum :: "int list \<Rightarrow> int" where
  "xsum xs = fold (XOR) xs 0"

lemma xsum_mset: "mset xs = mset ys \<Longrightarrow> xsum xs = xsum ys"
  unfolding xsum_def using fold_multiset_equiv [of xs "(XOR)" ys] by (simp add: fun_eq_iff ac_simps)

lemma fold_xor: "fold (XOR) xs a = xsum xs XOR (a::int)"
proof (induction xs arbitrary: a)
  case (Cons x xs)
  show ?case using Cons [of "x XOR a"] Cons [of x] by (simp add: xsum_def ac_simps)
qed (simp add: xsum_def)

lemma xsum_Nil [simp]: "xsum [] = 0"
  by (simp add: xsum_def)

lemma xsum_Cons [simp]: "xsum (x # xs) = x XOR xsum xs"
  using fold_xor [of xs x] by (simp add: xsum_def ac_simps)

lemma xsum_filter:
  "(\<And>p. p \<in> set ps \<Longrightarrow> P p \<Longrightarrow> f p = g p) \<Longrightarrow> (\<And>p. p \<in> set ps \<Longrightarrow> \<not> P p \<Longrightarrow> g p = 0) \<Longrightarrow>
     xsum (map f (filter P ps)) = xsum (map g ps)"
  by (induction ps) auto

section \<open>apply as a linear map\<close>

definition bits_of :: "int \<Rightarrow> nat \<Rightarrow> bool list" where
  "bits_of v n = map (bit v) [0..<n]"

lemma length_bits_of [simp]: "length (bits_of v n) = n"
  by (simp add: bits_of_def)

lemma nth_bits_of [simp]: "i < n \<Longrightarrow> bits_of v n ! i = bit v i"
  by (simp add: bits_of_def)

definition comp_of :: "nat \<Rightarrow> int list list \<Rightarrow> int list" where
  "comp_of k bs = map (\<lambda>b. b ! k) bs"

lemma length_comp_of [simp]: "length (comp_of k bs) = length bs"
  by (simp add: comp_of_def)

lemma comp_of_append [simp]: "comp_of k (as @ bs) = comp_of k as @ comp_of k bs"
  by (simp add: comp_of_def)

lemma xor_bases_enumerate:
  "fold (\<lambda>(i, b) acc. if bit v i then acc XOR (b ! k) else acc) (enumerate n bs) a =
     a XOR xlin (map (bit v) [n..<n + length bs]) (comp_of k bs)"
proof (induction bs arbitrary: n a)
  case (Cons b bs)
  show ?case
    using Cons [of "Suc n"] by (simp add: comp_of_def upt_rec [of n] ac_simps del: upt_Suc)
qed (simp add: comp_of_def)

lemma xor_bases_eq: "xor_bases bs k v a = a XOR xlin (bits_of v (length bs)) (comp_of k bs)"
  using xor_bases_enumerate [of v k 0 bs a] by (simp add: xor_bases_def bits_of_def)

lemma apply_out_xsum:
  "apply_out l ins k = xsum (map (\<lambda>(d, v). xlin (bits_of v (length (the (map_of (bases l) d))))
      (comp_of k (the (map_of (bases l) d)))) ins)"
proof -
  have "fold (\<lambda>(d, v). xor_bases (the (map_of (bases l) d)) k v) ins a =
      a XOR xsum (map (\<lambda>(d, v). xlin (bits_of v (length (the (map_of (bases l) d))))
      (comp_of k (the (map_of (bases l) d)))) ins)" for a
    by (induction ins arbitrary: a) (auto simp: xor_bases_eq ac_simps)
  then show ?thesis by (simp add: apply_out_def)
qed

definition coefs :: "linear_layout \<Rightarrow> (dim \<times> int) list \<Rightarrow> bool list" where
  "coefs l ins = concat (map (\<lambda>(d, bs). bits_of (the (map_of ins d)) (length bs)) (bases l))"

lemma length_coefs [simp]: "length (coefs l ins) = getTotalInDimSizeLog2 l"
  by (simp add: coefs_def length_concat getTotalInDimSizeLog2_def comp_def case_prod_unfold)

lemma length_columns [simp]: "length (columns l) = getTotalInDimSizeLog2 l"
  by (simp add: columns_def length_concat getTotalInDimSizeLog2_def comp_def case_prod_unfold)

lemma xlin_concat:
  "(\<And>p. p \<in> set ps \<Longrightarrow> length (f p) = length (g p)) \<Longrightarrow>
     xlin (concat (map f ps)) (concat (map g ps)) = xsum (map (\<lambda>p. xlin (f p) (g p)) ps)"
  by (induction ps) (simp_all add: xlin_append)

lemma comp_of_concat: "comp_of k (concat xss) = concat (map (comp_of k) xss)"
  by (induction xss) (simp_all add: comp_of_def)

lemma mset_eq_dims:
  assumes "distinct (map fst ins)" and "distinct (map fst (bs :: (dim \<times> 'a) list))"
    and "set (map fst ins) = set (map fst bs)"
  shows "mset ins = mset (map (\<lambda>(d, _). (d, the (map_of ins d))) bs)"
proof -
  let ?g = "\<lambda>d. (d, the (map_of ins d))"
  have "ins = map ?g (map fst ins)"
    using assms(1) by (simp add: comp_def) (rule map_idI [symmetric], auto simp: map_of_eq_Some_iff)
  moreover have "mset (map fst ins) = mset (map fst bs)"
    using assms by (metis set_eq_iff_mset_eq_distinct)
  ultimately have "mset ins = image_mset ?g (mset (map fst bs))" by (metis mset_map)
  then show ?thesis by (simp add: multiset.map_comp comp_def case_prod_unfold)
qed

definition dim_term :: "nat \<Rightarrow> (dim \<times> int) list \<Rightarrow> dim \<times> int list list \<Rightarrow> int" where
  "dim_term k ins p = xlin (bits_of (the (map_of ins (fst p))) (length (snd p))) (comp_of k (snd p))"

lemma xlin_columns: "xlin (coefs l ins) (comp_of k (columns l)) = xsum (map (dim_term k ins) (bases l))"
  unfolding coefs_def columns_def comp_of_concat map_map dim_term_def case_prod_unfold comp_def
  by (rule xlin_concat) simp

lemma apply_out_eq:
  assumes "distinct (map fst ins)" and "distinct (getInDimNames l)"
    and "dimsEqual (map fst ins) (getInDimNames l)"
  shows "apply_out l ins k = xlin (coefs l ins) (comp_of k (columns l))"
proof -
  let ?bs = "\<lambda>d. the (map_of (bases l) d)"
  let ?f = "\<lambda>(d, v). xlin (bits_of v (length (?bs d))) (comp_of k (?bs d))"
  let ?g = "\<lambda>p. (fst p, the (map_of ins (fst p)))"
  have d: "distinct (map fst (bases l))" using assms(2) by (simp add: getInDimNames_def)
  have "mset ins = mset (map (\<lambda>(d, _). (d, the (map_of ins d))) (bases l))"
    using assms by (intro mset_eq_dims) (auto simp: dimsEqual_def getInDimNames_def)
  then have "mset (map ?f ins) = mset (map ?f (map ?g (bases l)))"
    unfolding mset_map case_prod_unfold by simp
  then have "apply_out l ins k = xsum (map ?f (map ?g (bases l)))"
    unfolding apply_out_xsum by (rule xsum_mset)
  also have "map ?f (map ?g (bases l)) = map (dim_term k ins) (bases l)"
    unfolding map_map
  proof (rule map_cong [OF refl])
    fix p assume "p \<in> set (bases l)"
    then have "?bs (fst p) = snd p" using d by (simp add: map_of_is_SomeI [of _ "fst p" "snd p"])
    then show "(?f \<circ> ?g) p = dim_term k ins p" by (simp add: dim_term_def)
  qed
  finally show ?thesis by (simp add: xlin_columns)
qed

section \<open>Well-formed layouts\<close>

text \<open>
  A layout whose dimension names are distinct (they are the keys of a \<open>MapVector\<close>), whose out-dim
  sizes are positive \<open>int32_t\<close> values and which its own invariant check accepts, cached rank included.
\<close>

definition wf :: "linear_layout \<Rightarrow> bool" where
  "wf l \<longleftrightarrow> distinct (getInDimNames l) \<and> distinct (getOutDimNames l) \<and>
     list_all (\<lambda>(_, s). small_pow s) (outDims l) \<and> checkInvariants False l = Some (Inr l)"

lemma wf_names: "wf l \<Longrightarrow> distinct (getInDimNames l) \<and> distinct (getOutDimNames l)"
  by (simp add: wf_def)

lemma wf_out_size: "wf l \<Longrightarrow> k < length (outDims l) \<Longrightarrow> small_pow (snd (outDims l ! k))"
  by (auto simp: wf_def list_all_length case_prod_unfold)

lemma wf_out_pow: "wf l \<Longrightarrow> k < length (outDims l) \<Longrightarrow> snd (outDims l ! k) = 2 ^ log2_32 (snd (outDims l ! k))"
  using wf_out_size small_powE by blast

lemma checked_errors: "checkInvariants r l = Some (Inr l') \<Longrightarrow> invariant_errors l = []"
  by (auto simp: checkInvariants_def split: list.splits)

lemma checked_rank:
  "checkInvariants r l = Some (Inr l') \<Longrightarrow> \<exists>m m'. getMatrix l = Some m \<and>
     getTotalInDimSizeLog2 l \<le> 64 \<and> getTotalOutDimSizeLog2 l \<le> 64 \<and>
     inplace_rref_strided m (getTotalInDimSizeLog2 l) = Some m' \<and> l' = l\<lparr>rank := int (nonzero_rows m')\<rparr>"
  by (auto simp: checkInvariants_def getMatrixRank_def getMatrix_def Let_def
      split: list.splits if_splits bind_splits)

lemma in_columns: "b \<in> set (columns l) \<longleftrightarrow> (\<exists>d bs. (d, bs) \<in> set (bases l) \<and> b \<in> set bs)"
  by (force simp: columns_def)

lemma all_columns: "(\<forall>b \<in> set (columns l). P b) \<longleftrightarrow> (\<forall>p \<in> set (bases l). \<forall>b \<in> set (snd p). P b)"
  by (auto simp: columns_def)

definition good_column :: "(dim \<times> int) list \<Rightarrow> int list \<Rightarrow> bool" where
  "good_column outs b \<longleftrightarrow> list_all2 (\<lambda>x (_, s). 0 \<le> x \<and> x < s) b outs"

lemma good_column_nth:
  "good_column outs b \<longleftrightarrow> length b = length outs \<and> (\<forall>k < length b. 0 \<le> b ! k \<and> b ! k < snd (outs ! k))"
  by (auto simp: good_column_def list_all2_conv_all_nth case_prod_unfold)

lemma good_column_parts:
  "good_column outs b \<longleftrightarrow> \<not> list_ex (\<lambda>x. x < 0) b \<and> length b = length outs \<and>
     (\<forall>q \<in> set (zip b outs). \<not> snd (snd q) \<le> fst q)"
proof (cases "length b = length outs")
  case True
  have "(\<forall>q \<in> set (zip b outs). \<not> snd (snd q) \<le> fst q) \<longleftrightarrow> (\<forall>k < length b. \<not> snd (outs ! k) \<le> b ! k)"
    using True unfolding set_zip by (auto simp del: split_paired_All)
  moreover have "\<not> list_ex (\<lambda>x. x < 0) b \<longleftrightarrow> (\<forall>k < length b. 0 \<le> b ! k)"
    by (simp add: list_ex_length not_less) (metis not_le)
  ultimately show ?thesis using True by (simp add: good_column_nth not_le) blast
qed (auto simp: good_column_nth)

lemma no_hits:
  "concat (map f xs) = [] \<longleftrightarrow> (\<forall>x \<in> set xs. f x = [])"
  "(if c then [e] else []) = [] \<longleftrightarrow> \<not> c"
  by auto

lemma no_errors_iff:
  "invariant_errors l = [] \<longleftrightarrow>
     (\<forall>b \<in> set (columns l). good_column (outDims l) b) \<and> (\<forall>p \<in> set (outDims l). is_pow2_32 (snd p))"
proof -
  have "invariant_errors l = [] \<longleftrightarrow>
     (\<forall>b \<in> set (columns l). \<not> list_ex (\<lambda>x. x < 0) b) \<and>
     (\<forall>b \<in> set (columns l). length b = length (outDims l)) \<and>
     (\<forall>p \<in> set (outDims l). is_pow2_32 (snd p)) \<and>
     (\<forall>b \<in> set (columns l). \<forall>q \<in> set (zip b (outDims l)). \<not> snd (snd q) \<le> fst q)"
    by (simp only: invariant_errors_def append_is_Nil_conv all_columns case_prod_unfold no_hits not_not)
  then show ?thesis unfolding good_column_parts by blast
qed

lemma wf_column: "wf l \<Longrightarrow> c < length (columns l) \<Longrightarrow> good_column (outDims l) (columns l ! c)"
  by (auto simp: wf_def dest!: checked_errors simp: no_errors_iff)

lemma wf_entry:
  "wf l \<Longrightarrow> c < length (columns l) \<Longrightarrow> k < length (outDims l) \<Longrightarrow>
     0 \<le> columns l ! c ! k \<and> columns l ! c ! k < snd (outDims l ! k)"
  using wf_column [of l c] by (auto simp: good_column_nth)

lemma wf_rank:
  "wf l \<Longrightarrow> \<exists>m m'. getMatrix l = Some m \<and>
     inplace_rref_strided m (getTotalInDimSizeLog2 l) = Some m' \<and> rank l = int (nonzero_rows m')"
  using checked_rank [of False l l] by (auto simp: wf_def) (metis select_convs(3) surjective update_convs(3))

lemma wf_dims: "wf l \<Longrightarrow> getTotalInDimSizeLog2 l \<le> 64 \<and> getTotalOutDimSizeLog2 l \<le> 64"
  using checked_rank [of False l l] by (auto simp: wf_def)

section \<open>The matrix\<close>

lemma bit_matrix_entry:
  "bit (push_bit n (of_int (drop_bit j x AND 1)) :: row) c \<longleftrightarrow> c < 64 \<and> c = n \<and> bit (x::int) j"
proof -
  have "drop_bit j x AND 1 = of_bool (bit x j)"
    by (simp add: and_one_eq mod_2_eq_odd bit_iff_odd_drop_bit)
  then show ?thesis by (auto simp: bit_simps)
qed

lemma bit_matrix_fold:
  "bit (fold (\<lambda>(c, b) w. w OR push_bit c (of_int (drop_bit j (b ! k) AND 1))) (enumerate n cols) (w::row)) c
     \<longleftrightarrow> bit w c \<or> (c < 64 \<and> n \<le> c \<and> c < n + length cols \<and> bit (cols ! (c - n) ! k) j)"
proof (induction cols arbitrary: n w)
  case (Cons b cols)
  have "bit (fold (\<lambda>(c, b) w. w OR push_bit c (of_int (drop_bit j (b ! k) AND 1))) (enumerate n (b # cols)) w) c
     \<longleftrightarrow> (bit w c \<or> c < 64 \<and> c = n \<and> bit (b ! k) j) \<or>
       (c < 64 \<and> Suc n \<le> c \<and> c < Suc n + length cols \<and> bit (cols ! (c - Suc n) ! k) j)"
    by (simp only: enumerate_simps fold_simps prod.case Cons.IH bit_or_iff bit_matrix_entry)
  also have "\<dots> \<longleftrightarrow> bit w c \<or> (c < 64 \<and> n \<le> c \<and> c < n + length (b # cols) \<and> bit ((b # cols) ! (c - n) ! k) j)"
  proof (cases "n < c")
    case True
    then show ?thesis by (simp add: nth_Cons' Suc_le_eq)
  qed auto
  finally show ?case .
qed auto

lemma bit_matrix_row:
  "bit (matrix_row cols k j) c \<longleftrightarrow> c < 64 \<and> c < length cols \<and> bit (cols ! c ! k) j"
  by (simp add: matrix_row_def bit_matrix_fold)


section \<open>Coordinates as bit vectors\<close>

definition fits_width :: "int \<Rightarrow> nat \<Rightarrow> bool" where
  "fits_width v w \<longleftrightarrow> 0 \<le> v \<and> v < 2 ^ w"

lemma fits_width_take: "fits_width v w \<Longrightarrow> take_bit w v = v"
  by (simp add: fits_width_def take_bit_int_eq_self)

lemma fits_width_bit: "fits_width v w \<Longrightarrow> bit v i \<Longrightarrow> i < w"
  by (metis bit_take_bit_iff fits_width_take)

lemma fits_width_xor: "fits_width u w \<Longrightarrow> fits_width v w \<Longrightarrow> fits_width (u XOR v) w"
  by (metis fits_width_def fits_width_take take_bit_int_less_exp take_bit_nonnegative take_bit_xor)

lemma bits_of_inj: "fits_width u w \<Longrightarrow> fits_width v w \<Longrightarrow> bits_of u w = bits_of v w \<longleftrightarrow> u = v"
proof
  assume h: "fits_width u w" "fits_width v w" "bits_of u w = bits_of v w"
  have "bit u i = bit v i" for i
  proof (cases "i < w")
    case True
    then show ?thesis using h(3) by (metis nth_bits_of)
  next
    case False
    then show ?thesis using h fits_width_bit by blast
  qed
  then show "u = v" by (simp add: bit_eq_iff)
qed simp

lemma bits_of_surj: "length cs = w \<Longrightarrow> \<exists>v. fits_width v w \<and> bits_of v w = cs"
proof -
  assume l: "length cs = w"
  let ?v = "horner_sum of_bool 2 cs :: int"
  have b: "bit ?v i \<longleftrightarrow> i < w \<and> cs ! i" for i
    using l by (simp add: bit_horner_sum_bit_iff)
  have "take_bit w ?v = ?v" by (rule bit_eqI) (auto simp: bit_take_bit_iff b)
  then have "fits_width ?v w"
    unfolding fits_width_def by (metis take_bit_int_less_exp take_bit_nonnegative)
  moreover have "bits_of ?v w = cs" using l by (intro nth_equalityI) (auto simp: b)
  ultimately show ?thesis by blast
qed

definition joinb :: "int list \<Rightarrow> nat list \<Rightarrow> bool list" where
  "joinb vs ws = concat (map2 bits_of vs ws)"

lemma joinb_simps [simp]:
  "joinb [] ws = []" "joinb vs [] = []" "joinb (v # vs) (w # ws) = bits_of v w @ joinb vs ws"
  by (simp_all add: joinb_def)

lemma length_joinb: "length vs = length ws \<Longrightarrow> length (joinb vs ws) = sum_list ws"
  by (induction vs ws rule: list_induct2) auto

lemma joinb_inj:
  "list_all2 fits_width us ws \<Longrightarrow> list_all2 fits_width vs ws \<Longrightarrow> joinb us ws = joinb vs ws \<longleftrightarrow> us = vs"
proof (induction us ws arbitrary: vs rule: list_all2_induct)
  case (Cons u us w ws)
  then show ?case by (auto simp: list_all2_Cons2 bits_of_inj)
qed simp

lemma joinb_surj: "length cs = sum_list ws \<Longrightarrow> \<exists>vs. list_all2 fits_width vs ws \<and> joinb vs ws = cs"
proof (induction ws arbitrary: cs)
  case (Cons w ws)
  obtain v where v: "fits_width v w" "bits_of v w = take w cs"
    using bits_of_surj [of "take w cs" w] Cons.prems by auto
  obtain vs where "list_all2 fits_width vs ws" "joinb vs ws = drop w cs"
    using Cons.IH [of "drop w cs"] Cons.prems by auto
  then show ?case using v by (intro exI [of _ "v # vs"]) auto
qed simp

lemma joinb_xor:
  "length us = length ws \<Longrightarrow> length vs = length ws \<Longrightarrow>
     joinb (map2 (XOR) us vs) ws = map2 (\<noteq>) (joinb us ws) (joinb vs ws)"
proof (induction us ws arbitrary: vs rule: list_induct2)
  case (Cons u us w ws)
  then obtain v vs' where [simp]: "vs = v # vs'" by (cases vs) auto
  have "bits_of (u XOR v) w = map2 (\<noteq>) (bits_of u w) (bits_of v w)"
    by (intro nth_equalityI) (auto simp: bit_xor_iff)
  then show ?case using Cons by simp
qed simp

section \<open>Valid inputs and outputs\<close>

definition in_widths :: "linear_layout \<Rightarrow> nat list" where
  "in_widths l = map (\<lambda>(_, bs). length bs) (bases l)"

definition out_widths :: "linear_layout \<Rightarrow> nat list" where
  "out_widths l = map (\<lambda>(_, s). log2_32 s) (outDims l)"

definition valid_ins :: "linear_layout \<Rightarrow> (dim \<times> int) list \<Rightarrow> bool" where
  "valid_ins l ins \<longleftrightarrow> map fst ins = getInDimNames l \<and> list_all2 fits_width (map snd ins) (in_widths l)"

definition valid_outs :: "linear_layout \<Rightarrow> (dim \<times> int) list \<Rightarrow> bool" where
  "valid_outs l outs \<longleftrightarrow> map fst outs = getOutDimNames l \<and> list_all2 fits_width (map snd outs) (out_widths l)"

lemma sum_in_widths [simp]: "sum_list (in_widths l) = getTotalInDimSizeLog2 l"
  by (simp add: in_widths_def getTotalInDimSizeLog2_def)

lemma sum_out_widths [simp]: "sum_list (out_widths l) = getTotalOutDimSizeLog2 l"
  by (simp add: out_widths_def getTotalOutDimSizeLog2_def)

lemma length_in_widths [simp]: "length (in_widths l) = length (bases l)"
  by (simp add: in_widths_def)

lemma length_out_widths [simp]: "length (out_widths l) = length (outDims l)"
  by (simp add: out_widths_def)

lemma map_eq_fst_snd: "map fst xs = map fst ys \<Longrightarrow> map snd xs = map snd ys \<Longrightarrow> xs = ys"
  by (metis zip_map_fst_snd)

lemma the_map_of_fst: "distinct (map fst xs) \<Longrightarrow> map (\<lambda>p. the (map_of xs (fst p))) xs = map snd xs"
  by (intro map_cong) (auto simp: map_of_is_SomeI)

lemma assoc_self: "distinct (map fst x) \<Longrightarrow> map (\<lambda>d. (d, the (map_of x d))) (map fst x) = x"
proof (rule map_eq_fst_snd)
  assume "distinct (map fst x)"
  then show "map snd (map (\<lambda>d. (d, the (map_of x d))) (map fst x)) = map snd x"
    unfolding map_map comp_def snd_conv by (rule the_map_of_fst)
qed (simp add: comp_def)

lemma coefs_joinb:
  assumes "distinct (map fst ins)" and "map fst ins = getInDimNames l"
  shows "coefs l ins = joinb (map snd ins) (in_widths l)"
proof -
  have e: "map fst ins = map fst (bases l)" using assms by (simp add: getInDimNames_def)
  have "map (\<lambda>p. the (map_of ins (fst p))) (bases l) = map (\<lambda>d. the (map_of ins d)) (map fst ins)"
    unfolding e by simp
  also have "\<dots> = map snd ins" using the_map_of_fst [OF assms(1)] by (simp add: comp_def)
  finally have s: "map snd ins = map (\<lambda>p. the (map_of ins (fst p))) (bases l)" by simp
  show ?thesis unfolding coefs_def joinb_def s in_widths_def case_prod_unfold
    by (simp add: zip_map_map zip_same_conv_map comp_def)
qed

lemma valid_coefs_surj:
  assumes "wf l" and "length cs = getTotalInDimSizeLog2 l"
  shows "\<exists>ins. valid_ins l ins \<and> coefs l ins = cs"
proof -
  obtain vs where vs: "list_all2 fits_width vs (in_widths l)" "joinb vs (in_widths l) = cs"
    using joinb_surj [of cs "in_widths l"] assms(2) by auto
  have len: "length vs = length (getInDimNames l)"
    using list_all2_lengthD [OF vs(1)] by (simp add: getInDimNames_def)
  then have "map fst (zip (getInDimNames l) vs) = getInDimNames l" "map snd (zip (getInDimNames l) vs) = vs"
    by simp_all
  then show ?thesis using vs coefs_joinb [of "zip (getInDimNames l) vs" l] wf_names [OF assms(1)]
    by (intro exI [of _ "zip (getInDimNames l) vs"]) (simp add: valid_ins_def)
qed

lemma valid_coefs_inj:
  assumes "wf l" and "valid_ins l a" and "valid_ins l b"
  shows "coefs l a = coefs l b \<longleftrightarrow> a = b"
proof
  assume h: "coefs l a = coefs l b"
  have "joinb (map snd a) (in_widths l) = joinb (map snd b) (in_widths l)"
    using h assms wf_names [OF assms(1)] by (simp add: valid_ins_def coefs_joinb)
  then show "a = b"
    using joinb_inj [of "map snd a" "in_widths l" "map snd b"] assms map_eq_fst_snd [of a b]
    by (simp add: valid_ins_def)
qed simp

section \<open>apply as a matrix product\<close>

definition out_vals :: "linear_layout \<Rightarrow> bool list \<Rightarrow> int list" where
  "out_vals l cs = map (\<lambda>k. xlin cs (comp_of k (columns l))) [0..<length (outDims l)]"

lemma length_out_vals [simp]: "length (out_vals l cs) = length (outDims l)"
  by (simp add: out_vals_def)

lemma out_vals_fit:
  assumes "wf l" shows "list_all2 fits_width (out_vals l cs) (out_widths l)"
proof (rule list_all2_all_nthI)
  fix k assume "k < length (out_vals l cs)"
  then have k: "k < length (outDims l)" by simp
  have "0 \<le> x \<and> x < 2 ^ log2_32 (snd (outDims l ! k))" if "x \<in> set (comp_of k (columns l))" for x
    using that wf_entry [OF assms _ k] wf_out_pow [OF assms k]
    by (auto simp: comp_of_def in_set_conv_nth)
  then show "fits_width (out_vals l cs ! k) (out_widths l ! k)"
    using k xlin_range [of "comp_of k (columns l)" "log2_32 (snd (outDims l ! k))" cs]
    by (simp add: out_vals_def out_widths_def case_prod_unfold fits_width_def)
qed simp

lemma map_enumerate_fst: "map (\<lambda>(k, (od, _)). (od, f k)) (enumerate n xs) = zip (map fst xs) (map f [n..<n + length xs])"
  by (induction xs arbitrary: n) (auto simp: upt_rec simp del: upt_Suc)

lemma apply_layout_eq:
  assumes "wf l" and "valid_ins l ins"
  shows "apply_layout l ins = Some (zip (getOutDimNames l) (out_vals l (coefs l ins)))"
proof -
  have "distinct (map fst ins)" "dimsEqual (map fst ins) (getInDimNames l)"
    using assms wf_names by (auto simp: valid_ins_def dimsEqual_def)
  then have "apply_out l ins k = xlin (coefs l ins) (comp_of k (columns l))" for k
    using apply_out_eq wf_names [OF assms(1)] by blast
  then show ?thesis using \<open>dimsEqual _ _\<close>
    by (simp add: apply_layout_def map_enumerate_fst out_vals_def getOutDimNames_def)
qed

definition pack :: "bool list \<Rightarrow> row" where
  "pack cs = horner_sum of_bool 2 cs"

lemma bit_pack: "bit (pack cs) c \<longleftrightarrow> c < 64 \<and> c < length cs \<and> cs ! c"
  by (auto simp: pack_def bit_horner_sum_bit_word_iff)

lemma bit_pack_map: "bit (pack (map (bit x) [0..<n])) c \<longleftrightarrow> c < 64 \<and> c < n \<and> bit x c"
  by (auto simp: bit_pack)

lemma dot_matrix_row:
  assumes "length cs = length cols" and "length cols \<le> 64"
  shows "dot (matrix_row cols k j) (pack cs) \<longleftrightarrow> bit (xlin cs (comp_of k cols)) j"
proof -
  have "dot (matrix_row cols k j) (pack cs) = parity 64 (\<lambda>c. c < length cols \<and> cs ! c \<and> bit (cols ! c ! k) j)"
    unfolding dot_def using assms by (intro parity_cong) (auto simp: bit_matrix_row bit_pack)
  also have "\<dots> = parity (length cols) (\<lambda>c. c < length cols \<and> cs ! c \<and> bit (cols ! c ! k) j)"
    using assms by (intro parity_le) auto
  also have "\<dots> = bit (xlin cs (comp_of k cols)) j"
    using assms by (simp add: bit_xlin) (rule parity_cong, simp add: comp_of_def)
  finally show ?thesis .
qed

lemma getMatrix_dot:
  assumes "getMatrix l = Some m" and "length cs = getTotalInDimSizeLog2 l"
  shows "map (\<lambda>w. dot w (pack cs)) m = joinb (out_vals l cs) (out_widths l)"
proof -
  have l64: "getTotalInDimSizeLog2 l \<le> 64" and m: "m = concat (map (\<lambda>(k, (_, sz)). map (matrix_row (columns l) k) [0..<log2_32 sz])
      (enumerate 0 (outDims l)))"
    using assms(1) by (auto simp: getMatrix_def split: if_splits)
  have "map (\<lambda>w. dot w (pack cs)) (concat (map (\<lambda>(k, (_, sz)). map (matrix_row (columns l) k) [0..<log2_32 sz]) (enumerate n outs)))
      = joinb (map (\<lambda>k. xlin cs (comp_of k (columns l))) [n..<n + length outs]) (map (\<lambda>(_, s). log2_32 s) outs)" for n outs
  proof (induction outs arbitrary: n)
    case (Cons o1 outs)
    then show ?case using Cons [of "Suc n"] dot_matrix_row [of cs "columns l"] assms l64
      by (cases o1) (simp add: upt_rec [of n] bits_of_def del: upt_Suc)
  qed simp
  from this [of 0] show ?thesis by (simp add: m out_vals_def out_widths_def)
qed

lemma getMatrix_length: "getMatrix l = Some m \<Longrightarrow> length m = getTotalOutDimSizeLog2 l"
  using getMatrix_dot [of l m "replicate (getTotalInDimSizeLog2 l) False"] length_joinb [of "out_vals l cs" "out_widths l" for cs]
  by simp (metis length_map length_out_vals length_out_widths length_joinb sum_out_widths)

lemma getMatrix_fits:
  assumes "getMatrix l = Some m" shows "fits (getTotalInDimSizeLog2 l) m"
proof -
  have "\<exists>k j. w = matrix_row (columns l) k j" if "w \<in> set m" for w
    using that assms by (auto simp: getMatrix_def split: if_splits) blast
  then show ?thesis by (fastforce simp: fits_def bit_matrix_row)
qed


lemma length_joinb_valid: "list_all2 P vs ws \<Longrightarrow> length (joinb vs ws) = sum_list ws"
  by (simp add: length_joinb list_all2_lengthD)

section \<open>What the cached rank says about the function\<close>

lemma getMatrix_onto:
  assumes "wf l" and m: "getMatrix l = Some m"
  shows "onto m \<longleftrightarrow> (\<forall>outs. valid_outs l outs \<longrightarrow> (\<exists>ins. valid_ins l ins \<and> apply_layout l ins = Some outs))"
    (is "_ \<longleftrightarrow> ?R")
proof
  assume o: "onto m"
  show ?R
  proof (intro allI impI)
    fix outs assume outs: "valid_outs l outs"
    let ?ys = "joinb (map snd outs) (out_widths l)"
    have "length ?ys = length m"
      using outs length_joinb_valid [of fits_width "map snd outs" "out_widths l"] getMatrix_length [OF m]
      by (simp add: valid_outs_def)
    then obtain x where x: "map (\<lambda>w. dot w x) m = ?ys" using o by (auto simp: onto_def)
    let ?cs = "map (bit x) [0..<getTotalInDimSizeLog2 l]"
    obtain ins where ins: "valid_ins l ins" "coefs l ins = ?cs"
      using valid_coefs_surj [OF assms(1), of ?cs] by auto
    have "dot w x = dot w (pack ?cs)" if "w \<in> set m" for w
      unfolding dot_def using getMatrix_fits [OF m] that
      by (intro parity_cong) (auto simp: bit_pack_map fits_def not_le, meson not_le)
    then have "map (\<lambda>w. dot w (pack ?cs)) m = map (\<lambda>w. dot w x) m" by (intro map_cong) auto
    then have "map (\<lambda>w. dot w (pack ?cs)) m = ?ys" using x by simp
    then have "joinb (out_vals l ?cs) (out_widths l) = ?ys"
      using getMatrix_dot [OF m, of ?cs] by simp
    then have "out_vals l ?cs = map snd outs"
      using joinb_inj [OF out_vals_fit [OF assms(1)]] outs by (simp add: valid_outs_def)
    then have "apply_layout l ins = Some outs"
      using apply_layout_eq [OF assms(1) ins(1)] ins(2) outs zip_map_fst_snd [of outs]
      by (simp add: valid_outs_def)
    then show "\<exists>ins. valid_ins l ins \<and> apply_layout l ins = Some outs" using ins by blast
  qed
next
  assume R: ?R
  show "onto m" unfolding onto_def
  proof (intro allI impI)
    fix ys :: "bool list" assume "length ys = length m"
    then have "length ys = sum_list (out_widths l)" using getMatrix_length [OF m] by simp
    then obtain vs where vs: "list_all2 fits_width vs (out_widths l)" "joinb vs (out_widths l) = ys"
      using joinb_surj by blast
    have len: "length vs = length (getOutDimNames l)"
      using list_all2_lengthD [OF vs(1)] by (simp add: getOutDimNames_def)
    then have "valid_outs l (zip (getOutDimNames l) vs)" using vs by (simp add: valid_outs_def)
    then obtain ins where ins: "valid_ins l ins" "apply_layout l ins = Some (zip (getOutDimNames l) vs)"
      using R by blast
    then have "zip (getOutDimNames l) (out_vals l (coefs l ins)) = zip (getOutDimNames l) vs"
      using apply_layout_eq [OF assms(1) ins(1)] by simp
    then have "out_vals l (coefs l ins) = vs" using len
      by (metis length_out_vals length_map getOutDimNames_def map_snd_zip)
    then show "\<exists>x. map (\<lambda>w. dot w x) m = ys"
      using getMatrix_dot [OF m, of "coefs l ins"] vs by auto
  qed
qed

lemma joinb_zero: "\<forall>b \<in> set (joinb (map (\<lambda>_. 0) xs) ws). \<not> b"
  by (auto simp: joinb_def bits_of_def dest!: set_zip_leftD)

lemma all_False_eq: "length as = length bs \<Longrightarrow> \<forall>b \<in> set bs. \<not> b \<Longrightarrow> (\<forall>a \<in> set as. \<not> a) \<longleftrightarrow> as = bs"
  by (induction as bs rule: list_induct2) auto

lemma xor_zero_iff: "x XOR y = 0 \<longleftrightarrow> x = (y::int)"
  by (metis xor.assoc xor.left_neutral xor_self_eq)

lemma out_vals_xor:
  "length cs = getTotalInDimSizeLog2 l \<Longrightarrow> length ds = getTotalInDimSizeLog2 l \<Longrightarrow>
     out_vals l (map2 (\<noteq>) cs ds) = map2 (XOR) (out_vals l cs) (out_vals l ds)"
  by (intro nth_equalityI) (auto simp: out_vals_def xlin_neq [simplified])

lemma getMatrix_kernel:
  assumes "wf l" and m: "getMatrix l = Some m" and "length cs = getTotalInDimSizeLog2 l"
  shows "null_space m (pack cs) \<longleftrightarrow> out_vals l cs = map (\<lambda>_. 0) (outDims l)"
proof -
  let ?z = "map (\<lambda>_. 0::int) (outDims l)"
  have z: "list_all2 fits_width ?z (out_widths l)"
    by (rule list_all2_all_nthI) (auto simp: fits_width_def)
  have "null_space m (pack cs) \<longleftrightarrow> (\<forall>b \<in> set (joinb (out_vals l cs) (out_widths l)). \<not> b)"
    unfolding null_space_def getMatrix_dot [OF m assms(3), symmetric] by simp
  also have "\<dots> \<longleftrightarrow> joinb (out_vals l cs) (out_widths l) = joinb ?z (out_widths l)"
    by (intro all_False_eq joinb_zero) (simp add: length_joinb)
  also have "\<dots> \<longleftrightarrow> out_vals l cs = ?z" using joinb_inj [OF out_vals_fit [OF assms(1)] z] .
  finally show ?thesis .
qed

lemma map2_xor_self: "length us = length vs \<Longrightarrow> map2 (XOR) us vs = map (\<lambda>_. 0::int) us \<longleftrightarrow> us = vs"
  by (induction us vs rule: list_induct2) (auto simp: xor_zero_iff)

lemma map2_neq_self: "length us = length vs \<Longrightarrow> (\<forall>b \<in> set (map2 (\<noteq>) us vs). \<not> b) \<longleftrightarrow> us = vs"
  by (induction us vs rule: list_induct2) auto


lemma apply_layout_eq_iff:
  assumes "wf l" and "valid_ins l a" and "valid_ins l b"
  shows "apply_layout l a = apply_layout l b \<longleftrightarrow> out_vals l (coefs l a) = out_vals l (coefs l b)"
proof -
  have "length (getOutDimNames l) = length (outDims l)" by (simp add: getOutDimNames_def)
  then show ?thesis
    using apply_layout_eq [OF assms(1,2)] apply_layout_eq [OF assms(1,3)]
    by simp (metis length_out_vals map_snd_zip)
qed

definition trivial_kernel :: "linear_layout \<Rightarrow> bool" where
  "trivial_kernel l \<longleftrightarrow> (\<forall>cs. length cs = getTotalInDimSizeLog2 l \<longrightarrow>
     out_vals l cs = map (\<lambda>_. 0) (outDims l) \<longrightarrow> (\<forall>c \<in> set cs. \<not> c))"

lemma null_space_trivial:
  assumes w: "wf l" and m: "getMatrix l = Some m"
  shows "(\<forall>x. within (getTotalInDimSizeLog2 l) x \<longrightarrow> null_space m x \<longrightarrow> x = 0) \<longleftrightarrow> trivial_kernel l"
    (is "?L \<longleftrightarrow> _")
proof -
  let ?n = "getTotalInDimSizeLog2 l" and ?z = "map (\<lambda>_. 0::int) (outDims l)"
  have n64: "?n \<le> 64" using wf_dims [OF w] by simp
  show ?thesis unfolding trivial_kernel_def
  proof (intro iffI allI impI)
    fix cs assume h: ?L "length cs = ?n" "out_vals l cs = ?z"
    have "within ?n (pack cs)" using h(2) by (auto simp: within_def bit_pack)
    then have "pack cs = 0" using h getMatrix_kernel [OF w m h(2)] by blast
    then have "\<not> cs ! i" if "i < ?n" for i using bit_pack [of cs i] that h(2) n64 by simp
    then show "\<forall>c \<in> set cs. \<not> c" using h(2) by (auto simp: in_set_conv_nth)
  next
    fix x assume h: "\<forall>cs. length cs = ?n \<longrightarrow> out_vals l cs = ?z \<longrightarrow> (\<forall>c \<in> set cs. \<not> c)"
      "within ?n x" "null_space m x"
    let ?cs = "map (bit x) [0..<?n]"
    have p: "pack ?cs = x"
      using h(2) n64 by (intro bit_word_eqI) (auto simp: bit_pack_map within_def, meson not_le)
    then have "out_vals l ?cs = ?z" using h(3) getMatrix_kernel [OF w m, of ?cs] by simp
    moreover have "length ?cs = ?n" by simp
    ultimately have "\<forall>c \<in> set ?cs. \<not> c" using h(1) by blast
    then have "\<not> bit x i" for i using h(2) by (cases "i < ?n") (auto simp: within_def)
    then show "x = 0" by (intro bit_word_eqI) simp
  qed
qed

lemma out_vals_False: "out_vals l (replicate n False) = map (\<lambda>_. 0) (outDims l)"
  by (intro nth_equalityI) (auto simp: out_vals_def intro!: xlin_False)

lemma trivial_kernel_inj:
  "trivial_kernel l \<longleftrightarrow> (\<forall>cs ds. length cs = getTotalInDimSizeLog2 l \<longrightarrow> length ds = getTotalInDimSizeLog2 l \<longrightarrow>
     out_vals l cs = out_vals l ds \<longrightarrow> cs = ds)" (is "_ \<longleftrightarrow> ?R")
proof
  let ?n = "getTotalInDimSizeLog2 l" and ?z = "map (\<lambda>_. 0::int) (outDims l)"
  assume k: "trivial_kernel l"
  show ?R
  proof (intro allI impI)
    fix cs ds assume h: "length cs = ?n" "length ds = ?n" "out_vals l cs = out_vals l ds"
    have "out_vals l (map2 (\<noteq>) cs ds) = map (\<lambda>_. 0) (out_vals l cs)"
      using out_vals_xor [OF h(1,2)] h(3) map2_xor_self [of "out_vals l cs" "out_vals l ds"] by simp
    also have "\<dots> = ?z" by (intro nth_equalityI) auto
    finally have z: "out_vals l (map2 (\<noteq>) cs ds) = ?z" .
    have "length (map2 (\<noteq>) cs ds) = ?n" using h(1,2) by simp
    then have "\<forall>c \<in> set (map2 (\<noteq>) cs ds). \<not> c"
      using k z unfolding trivial_kernel_def by blast
    then show "cs = ds" using map2_neq_self [of cs ds] h(1,2) by simp
  qed
next
  assume R: ?R
  show "trivial_kernel l" unfolding trivial_kernel_def
    using R out_vals_False by (metis in_set_replicate length_replicate)
qed

lemma trivial_kernel_apply:
  assumes "wf l"
  shows "trivial_kernel l \<longleftrightarrow>
    (\<forall>a b. valid_ins l a \<longrightarrow> valid_ins l b \<longrightarrow> apply_layout l a = apply_layout l b \<longrightarrow> a = b)"
    (is "_ \<longleftrightarrow> ?R")
  unfolding trivial_kernel_inj
proof (intro iffI allI impI)
  fix a b assume h: "\<forall>cs ds. length cs = getTotalInDimSizeLog2 l \<longrightarrow> length ds = getTotalInDimSizeLog2 l \<longrightarrow>
      out_vals l cs = out_vals l ds \<longrightarrow> cs = ds"
    and v: "valid_ins l a" "valid_ins l b" and e: "apply_layout l a = apply_layout l b"
  then have "coefs l a = coefs l b" using apply_layout_eq_iff [OF assms v] by simp
  then show "a = b" using valid_coefs_inj [OF assms v] by simp
next
  fix cs ds assume R: ?R and l: "length cs = getTotalInDimSizeLog2 l" "length ds = getTotalInDimSizeLog2 l"
    and e: "out_vals l cs = out_vals l ds"
  obtain a b where "valid_ins l a" "coefs l a = cs" "valid_ins l b" "coefs l b = ds"
    using valid_coefs_surj [OF assms] l by metis
  then show "cs = ds" using R apply_layout_eq_iff [OF assms] e by blast
qed

text \<open>
  The two facts of the rank, for the reduction the layouts use.
\<close>

lemma isSurjective_onto:
  assumes "wf l"
  shows "isSurjective l \<longleftrightarrow> (\<forall>outs. valid_outs l outs \<longrightarrow> (\<exists>ins. valid_ins l ins \<and> apply_layout l ins = Some outs))"
proof -
  obtain m m' where m: "getMatrix l = Some m" "inplace_rref_strided m (getTotalInDimSizeLog2 l) = Some m'"
    "rank l = int (nonzero_rows m')" using wf_rank [OF assms] by blast
  show ?thesis
    using f2.rank_onto [OF m(2) getMatrix_fits [OF m(1)]] getMatrix_onto [OF assms m(1)] getMatrix_length [OF m(1)] m(3)
    by (simp add: isSurjective_def)
qed

lemma isInjective_inj:
  assumes "wf l"
  shows "isInjective l \<longleftrightarrow>
    (\<forall>a b. valid_ins l a \<longrightarrow> valid_ins l b \<longrightarrow> apply_layout l a = apply_layout l b \<longrightarrow> a = b)"
proof -
  obtain m m' where m: "getMatrix l = Some m" "inplace_rref_strided m (getTotalInDimSizeLog2 l) = Some m'"
    "rank l = int (nonzero_rows m')" using wf_rank [OF assms] by blast
  show ?thesis
    using f2.rank_injective [OF m(2) getMatrix_fits [OF m(1)]] wf_dims [OF assms]
      null_space_trivial [OF assms m(1)] trivial_kernel_apply [OF assms] m(3)
    by (simp add: isInjective_def)
qed

section \<open>When a constructor succeeds\<close>

lemma rank_irrelevant [simp]:
  "invariant_errors (l\<lparr>rank := r\<rparr>) = invariant_errors l"
  "getMatrix (l\<lparr>rank := r\<rparr>) = getMatrix l"
  "getTotalInDimSizeLog2 (l\<lparr>rank := r\<rparr>) = getTotalInDimSizeLog2 l"
  "getTotalOutDimSizeLog2 (l\<lparr>rank := r\<rparr>) = getTotalOutDimSizeLog2 l"
  "columns (l\<lparr>rank := r\<rparr>) = columns l"
  "getInDimNames (l\<lparr>rank := r\<rparr>) = getInDimNames l"
  "getOutDimNames (l\<lparr>rank := r\<rparr>) = getOutDimNames l"
  "out_widths (l\<lparr>rank := r\<rparr>) = out_widths l"
  "in_widths (l\<lparr>rank := r\<rparr>) = in_widths l"
  "out_vals (l\<lparr>rank := r\<rparr>) cs = out_vals l cs"
  by (simp_all add: invariant_errors_def getMatrix_def getTotalInDimSizeLog2_def getTotalOutDimSizeLog2_def
      columns_def getInDimNames_def getOutDimNames_def out_widths_def in_widths_def out_vals_def
      cong: if_cong)

text \<open>What the code assumes of the data it hands to a constructor.\<close>

definition layout_data :: "linear_layout \<Rightarrow> bool" where
  "layout_data l \<longleftrightarrow> distinct (getInDimNames l) \<and> distinct (getOutDimNames l) \<and>
     list_all (\<lambda>(_, s). small_pow s) (outDims l) \<and> list_all (good_column (outDims l)) (columns l) \<and>
     getTotalInDimSizeLog2 l \<le> 64 \<and> getTotalOutDimSizeLog2 l \<le> 64"

definition surj_vals :: "linear_layout \<Rightarrow> bool" where
  "surj_vals l \<longleftrightarrow> (\<forall>vs. list_all2 fits_width vs (out_widths l) \<longrightarrow>
     (\<exists>cs. length cs = getTotalInDimSizeLog2 l \<and> out_vals l cs = vs))"

lemma surj_vals_rank [simp]: "surj_vals (l\<lparr>rank := r\<rparr>) = surj_vals l"
  by (simp add: surj_vals_def)

lemma wf_layout_data: "wf l \<Longrightarrow> layout_data l"
  using wf_dims [of l] wf_column [of l]
  by (auto simp: wf_def layout_data_def list_all_length)

lemma layout_data_rank:
  assumes "layout_data l"
  shows "\<exists>r. wf (l\<lparr>rank := r\<rparr>) \<and>
    checkInvariants req l = Some (if req \<and> \<not> isSurjective (l\<lparr>rank := r\<rparr>) then Inl NotSurjective else Inr (l\<lparr>rank := r\<rparr>))"
proof -
  have "invariant_errors l = []"
    using assms by (auto simp: layout_data_def no_errors_iff list_all_iff small_pow_def)
  moreover obtain m where m: "getMatrix l = Some m"
    using assms by (auto simp: layout_data_def getMatrix_def)
  moreover obtain m' where "inplace_rref_strided m (getTotalInDimSizeLog2 l) = Some m'"
    using f2.total [of m "getTotalInDimSizeLog2 l"] getMatrix_length [OF m] assms
    by (auto simp: layout_data_def)
  ultimately have c: "checkInvariants q (l\<lparr>rank := x\<rparr>) = Some (if q \<and> \<not> isSurjective (l\<lparr>rank := int (nonzero_rows m')\<rparr>)
      then Inl NotSurjective else Inr (l\<lparr>rank := int (nonzero_rows m')\<rparr>))" for q x
    using assms by (simp add: checkInvariants_def getMatrixRank_def layout_data_def Let_def)
  have "wf (l\<lparr>rank := int (nonzero_rows m')\<rparr>)" using assms c [of False] by (simp add: wf_def layout_data_def)
  moreover have "l\<lparr>rank := rank l\<rparr> = l" by simp
  ultimately show ?thesis using c [of req "rank l"] by metis
qed

lemma isSurjective_vals:
  assumes "wf l" shows "isSurjective l \<longleftrightarrow> surj_vals l"
  unfolding isSurjective_onto [OF assms]
proof
  assume R: "\<forall>outs. valid_outs l outs \<longrightarrow> (\<exists>ins. valid_ins l ins \<and> apply_layout l ins = Some outs)"
  show "surj_vals l" unfolding surj_vals_def
  proof (intro allI impI)
    fix vs assume vs: "list_all2 fits_width vs (out_widths l)"
    then have len: "length vs = length (getOutDimNames l)"
      using list_all2_lengthD by (fastforce simp: getOutDimNames_def)
    then have "valid_outs l (zip (getOutDimNames l) vs)" using vs by (simp add: valid_outs_def)
    then obtain ins where i: "valid_ins l ins" "apply_layout l ins = Some (zip (getOutDimNames l) vs)"
      using R by blast
    then have "zip (getOutDimNames l) (out_vals l (coefs l ins)) = zip (getOutDimNames l) vs"
      using apply_layout_eq [OF assms] by simp
    then have "out_vals l (coefs l ins) = vs"
      using len by (metis length_out_vals length_map getOutDimNames_def map_snd_zip)
    then show "\<exists>cs. length cs = getTotalInDimSizeLog2 l \<and> out_vals l cs = vs" by (metis length_coefs)
  qed
next
  assume S: "surj_vals l"
  show "\<forall>outs. valid_outs l outs \<longrightarrow> (\<exists>ins. valid_ins l ins \<and> apply_layout l ins = Some outs)"
  proof (intro allI impI)
    fix outs assume o: "valid_outs l outs"
    then obtain cs where cs: "length cs = getTotalInDimSizeLog2 l" "out_vals l cs = map snd outs"
      using S by (auto simp: surj_vals_def valid_outs_def)
    then obtain ins where "valid_ins l ins" "coefs l ins = cs" using valid_coefs_surj [OF assms] by blast
    then show "\<exists>ins. valid_ins l ins \<and> apply_layout l ins = Some outs"
      using apply_layout_eq [OF assms] cs o by (metis valid_outs_def zip_map_fst_snd)
  qed
qed

text \<open>Every operation that ends in a constructor call is shown to return through this lemma.\<close>

lemma mkLayout_total:
  assumes "layout_data \<lparr>bases = bs, outDims = outs, rank = 0\<rparr>"
    and "req \<Longrightarrow> surj_vals \<lparr>bases = bs, outDims = outs, rank = 0\<rparr>"
  shows "\<exists>l. mkLayout bs outs req = Some l \<and> wf l \<and> bases l = bs \<and> outDims l = outs"
proof -
  let ?l = "\<lparr>bases = bs, outDims = outs, rank = 0\<rparr>"
  have n: "noCheckLayout bs outs = ?l"
    using assms(1) by (simp add: noCheckLayout_def layout_data_def getOutDimNames_def)
  obtain r where r: "wf (?l\<lparr>rank := r\<rparr>)"
    "checkInvariants req ?l = Some (if req \<and> \<not> isSurjective (?l\<lparr>rank := r\<rparr>) then Inl NotSurjective else Inr (?l\<lparr>rank := r\<rparr>))"
    using layout_data_rank [OF assms(1)] by blast
  have "req \<Longrightarrow> isSurjective (?l\<lparr>rank := r\<rparr>)"
    using isSurjective_vals [OF r(1)] assms(2) surj_vals_rank [of r ?l] by blast
  then show ?thesis using r by (auto simp: mkLayout_def n)
qed

text \<open>Conversely a layout that a constructor returned is well formed.\<close>

lemma mkLayout_wf:
  assumes "mkLayout bs outs req = Some l" and "distinct (map fst bs)" and "distinct (map fst outs)"
    and "\<And>d s. (d, s) \<in> set outs \<Longrightarrow> 0 < s \<and> s < 2 ^ 31"
  shows "wf l \<and> bases l = bs \<and> outDims l = outs \<and> (req \<longrightarrow> isSurjective l)"
proof -
  let ?l = "\<lparr>bases = bs, outDims = outs, rank = 0\<rparr>"
  have c: "checkInvariants req ?l = Some (Inr l)"
    using assms(1,3) by (auto simp: mkLayout_def noCheckLayout_def split: option.splits sum.splits)
  have "layout_data ?l"
    using checked_errors [OF c] checked_rank [OF c] assms
    by (auto simp: layout_data_def getInDimNames_def getOutDimNames_def no_errors_iff list_all_iff small_pow_def)
  then show ?thesis using layout_data_rank [of ?l req] c by (auto split: if_splits)
qed

section \<open>Vectors over the field of two elements\<close>

fun vlin :: "nat \<Rightarrow> bool list \<Rightarrow> int list list \<Rightarrow> int list" where
  "vlin n (c # cs) (b # bs) = (if c then map2 (XOR) b (vlin n cs bs) else vlin n cs bs)"
| "vlin n _ _ = replicate n 0"

lemma length_vlin: "(\<And>b. b \<in> set bs \<Longrightarrow> length b = n) \<Longrightarrow> length (vlin n cs bs) = n"
  by (induction n cs bs rule: vlin.induct) auto

lemma nth_vlin:
  "(\<And>b. b \<in> set bs \<Longrightarrow> length b = n) \<Longrightarrow> k < n \<Longrightarrow> vlin n cs bs ! k = xlin cs (comp_of k bs)"
  by (induction n cs bs rule: vlin.induct) (auto simp: comp_of_def length_vlin)

definition wide :: "linear_layout \<Rightarrow> bool" where
  "wide l \<longleftrightarrow> list_all (\<lambda>b. length b = length (outDims l)) (columns l)"

lemma wf_wide: "wf l \<Longrightarrow> wide l"
  using wf_column [of l] by (auto simp: wide_def list_all_length good_column_nth)

lemma out_vals_vlin: "wide l \<Longrightarrow> out_vals l cs = vlin (length (outDims l)) cs (columns l)"
  by (intro nth_equalityI) (auto simp: out_vals_def length_vlin nth_vlin wide_def list_all_iff)

definition vlinear :: "nat \<Rightarrow> nat \<Rightarrow> (int list \<Rightarrow> int list) \<Rightarrow> bool" where
  "vlinear n m f \<longleftrightarrow> f (replicate n 0) = replicate m 0 \<and>
     (\<forall>u v. length u = n \<longrightarrow> length v = n \<longrightarrow> f (map2 (XOR) u v) = map2 (XOR) (f u) (f v))"

lemma vlinearD:
  "vlinear n m f \<Longrightarrow> length u = n \<Longrightarrow> length v = n \<Longrightarrow> f (map2 (XOR) u v) = map2 (XOR) (f u) (f v)"
  unfolding vlinear_def by blast

lemma vlin_map:
  "vlinear n m f \<Longrightarrow> (\<And>b. b \<in> set bs \<Longrightarrow> length b = n) \<Longrightarrow> vlin m cs (map f bs) = f (vlin n cs bs)"
proof (induction n cs bs rule: vlin.induct)
  case (1 n c cs b bs)
  have l: "length b = n" "length (vlin n cs bs) = n" using 1(4) by (auto intro!: length_vlin)
  have "vlin m cs (map f bs) = f (vlin n cs bs)" using 1 by (cases c) auto
  then show ?case using vlinearD [OF 1(3) l] by simp
qed (auto simp: vlinear_def)

lemma map_of_map2_xor:
  "length ns = length u \<Longrightarrow> length u = length v \<Longrightarrow> d \<in> set ns \<Longrightarrow>
     the (map_of (zip ns (map2 (XOR) u v)) d) = the (map_of (zip ns u) d) XOR (the (map_of (zip ns v) d) :: int)"
  by (induction ns u v rule: list_induct3) auto

lemma map_of_zip_zero: "length ns = n \<Longrightarrow> d \<in> set ns \<Longrightarrow> the (map_of (zip ns (replicate n (0::int))) d) = 0"
  by (induction ns arbitrary: n) auto

lemma bits_of_xor: "bits_of (u XOR v) w = map2 (\<noteq>) (bits_of u w) (bits_of v w)"
  by (intro nth_equalityI) (auto simp: bit_xor_iff)

lemma coefs_xor:
  assumes "length ns = length u" and "length u = length v" and "set (getInDimNames l) \<subseteq> set ns"
  shows "coefs l (zip ns (map2 (XOR) u v)) = map2 (\<noteq>) (coefs l (zip ns u)) (coefs l (zip ns v))"
proof -
  have "concat (map (\<lambda>(d, bs). bits_of (the (map_of (zip ns (map2 (XOR) u v)) d)) (length bs)) ps) =
     map2 (\<noteq>) (concat (map (\<lambda>(d, bs). bits_of (the (map_of (zip ns u) d)) (length bs)) ps))
       (concat (map (\<lambda>(d, bs). bits_of (the (map_of (zip ns v) d)) (length bs)) ps))"
    if "\<And>p. p \<in> set ps \<Longrightarrow> fst p \<in> set ns" for ps :: basesT
    using that
  proof (induction ps)
    case (Cons p ps)
    then have "fst p \<in> set ns" by simp
    then show ?case using Cons map_of_map2_xor [OF assms(1,2)]
      by (simp add: case_prod_unfold bits_of_xor)
  qed simp
  then show ?thesis using assms(3) by (auto simp: coefs_def getInDimNames_def)
qed

text \<open>A layout as a function of its inputs in the order of \<open>ns\<close>.\<close>

definition run :: "linear_layout \<Rightarrow> dim list \<Rightarrow> int list \<Rightarrow> int list" where
  "run l ns v = out_vals l (coefs l (zip ns v))"

lemma length_run [simp]: "length (run l ns v) = length (outDims l)"
  by (simp add: run_def)

lemma run_linear:
  assumes "set (getInDimNames l) \<subseteq> set ns"
  shows "vlinear (length ns) (length (outDims l)) (run l ns)"
  unfolding vlinear_def
proof (intro conjI allI impI)
  have "c \<in> set (coefs l (zip ns (replicate (length ns) 0))) \<Longrightarrow> \<not> c" for c
    using assms by (force simp: coefs_def getInDimNames_def map_of_zip_zero bits_of_def)
  then show "run l ns (replicate (length ns) 0) = replicate (length (outDims l)) 0"
    by (intro nth_equalityI) (auto simp: run_def out_vals_def intro!: xlin_False)
next
  fix u v :: "int list" assume "length u = length ns" "length v = length ns"
  then show "run l ns (map2 (XOR) u v) = map2 (XOR) (run l ns u) (run l ns v)"
    unfolding run_def using assms by (simp only: coefs_xor out_vals_xor length_coefs)
qed

lemma apply_layout_run:
  assumes "distinct (getInDimNames l)" and "distinct ns" and "length v = length ns"
    and "dimsEqual ns (getInDimNames l)"
  shows "apply_layout l (zip ns v) = Some (zip (getOutDimNames l) (run l ns v))"
proof -
  have n: "map fst (zip ns v) = ns" using assms(3) by simp
  have "apply_out l (zip ns v) k = xlin (coefs l (zip ns v)) (comp_of k (columns l))" for k
    by (rule apply_out_eq) (use assms n in auto)
  then show ?thesis using n assms(4)
    by (simp add: apply_layout_def map_enumerate_fst run_def out_vals_def getOutDimNames_def)
qed

lemma coefs_cong: "(\<And>d. d \<in> set (getInDimNames l) \<Longrightarrow> map_of a d = map_of b d) \<Longrightarrow> coefs l a = coefs l b"
  unfolding coefs_def getInDimNames_def by (intro arg_cong [where f = concat] map_cong) force+

section \<open>Sizes of named dimensions\<close>

lemma out_size_fits:
  assumes "wf l" and "d \<in> set (getOutDimNames l)"
  shows "\<exists>k < length (outDims l). getOutDimNames l ! k = d \<and> getOutDimSize l d = Some (2 ^ (out_widths l ! k))"
proof -
  obtain k where k: "k < length (outDims l)" "getOutDimNames l ! k = d"
    using assms(2) by (metis in_set_conv_nth getOutDimNames_def length_map)
  obtain s where "outDims l ! k = (d, s)" using k by (cases "outDims l ! k") (auto simp: getOutDimNames_def)
  then have "map_of (outDims l) d = Some s"
    using k wf_names [OF assms(1)] by (metis getOutDimNames_def map_of_is_SomeI nth_mem)
  then show ?thesis using k \<open>outDims l ! k = (d, s)\<close>
    by (auto simp: getOutDimSize_def getOutDimSizeLog2_def out_widths_def)
qed

lemma in_size_fits:
  assumes "wf l" and "valid_ins l ins" and "d \<in> set (getInDimNames l)"
  shows "\<exists>w. getInDimSize l d = Some (2 ^ w) \<and> fits_width (the (map_of ins d)) w"
proof -
  obtain k where k: "k < length (bases l)" "getInDimNames l ! k = d"
    using assms(3) by (metis in_set_conv_nth getInDimNames_def length_map)
  obtain bs where b: "bases l ! k = (d, bs)" using k by (cases "bases l ! k") (auto simp: getInDimNames_def)
  then have "map_of (bases l) d = Some bs"
    using k wf_names [OF assms(1)] by (metis getInDimNames_def map_of_is_SomeI nth_mem)
  moreover have "length ins = length (bases l)"
    using assms(2) by (metis valid_ins_def getInDimNames_def length_map)
  then have i: "fst (ins ! k) = d" "fits_width (snd (ins ! k)) (length bs)"
    using assms(2) k b by (auto simp: valid_ins_def list_all2_conv_all_nth in_widths_def)
      (metis getInDimNames_def nth_map)
  have "map_of ins d = Some (snd (ins ! k))"
    using i(1) k \<open>length ins = _\<close> wf_names [OF assms(1)] assms(2)
    by (metis map_of_is_SomeI nth_mem prod.collapse valid_ins_def)
  ultimately show ?thesis using i(2) by (simp add: getInDimSize_def getInDimSizeLog2_def)
qed

definition size_widths :: "(dim \<times> int) list \<Rightarrow> nat list" where
  "size_widths outs = map (\<lambda>(_, s). log2_32 s) outs"

lemma length_size_widths [simp]: "length (size_widths outs) = length outs"
  by (simp add: size_widths_def)

lemma out_widths_sizes: "out_widths l = size_widths (outDims l)"
  by (simp add: out_widths_def size_widths_def)

lemma good_column_fits:
  assumes "list_all (\<lambda>(_, s). small_pow s) outs"
  shows "good_column outs b \<longleftrightarrow> list_all2 fits_width b (size_widths outs)"
proof -
  have "snd (outs ! k) = 2 ^ log2_32 (snd (outs ! k))" if "k < length outs" for k
    using assms that small_powE by (auto simp: list_all_length case_prod_unfold)
  then show ?thesis
    by (auto simp: good_column_nth list_all2_conv_all_nth size_widths_def fits_width_def case_prod_unfold)
qed

end
