(* ===== verification/LayoutShape.thy ===== *)
theory LayoutShape
  imports LayoutLemmas
begin

text \<open>
  The operations of \<open>lib/Tools/LinearLayout.cpp\<close> that reorder, reshape, join and restrict the
  dimensions of a layout, and what each does to \<open>apply\<close>.
\<close>

section \<open>Operations\<close>

definition map_bases :: "(int list \<Rightarrow> int list) \<Rightarrow> basesT \<Rightarrow> basesT" where
  "map_bases f bs = map (\<lambda>(d, vs). (d, map f vs)) bs"

definition transposeIns :: "linear_layout \<Rightarrow> dim list \<Rightarrow> linear_layout option" where
  "transposeIns l newInDims =
     (if dimsEqual newInDims (getInDimNames l)
      then mkLayout (mapvec (map (\<lambda>d. (d, the (map_of (bases l) d))) newInDims)) (outDims l) (isSurjective l)
      else None)"

definition transposeOuts :: "linear_layout \<Rightarrow> dim list \<Rightarrow> linear_layout option" where
  "transposeOuts l newOutDims =
     (if dimsEqual newOutDims (getOutDimNames l)
      then let perm = map (\<lambda>d. the (getOutDimIndex l d)) newOutDims
           in mkLayout (map_bases (\<lambda>b. map (\<lambda>i. b ! i) perm) (bases l))
                (map (\<lambda>d. (d, the (getOutDimSize l d))) newOutDims) (isSurjective l)
      else None)"

text \<open>
  The asserted product of the new sizes (\<open>std::accumulate\<close> over \<open>int\<close>; its overflow is undefined
  behaviour and is not modelled).
\<close>

definition size_product :: "(dim \<times> int) list \<Rightarrow> int" where
  "size_product dims = fold (\<lambda>(_, s) acc. acc * s) dims 1"

text \<open>The loop that hands out the flattened bases; a repeated name appends to its entry.\<close>

fun deal_bases :: "(dim \<times> int) list \<Rightarrow> int list list \<Rightarrow> basesT \<Rightarrow> basesT" where
  "deal_bases [] flat acc = acc"
| "deal_bases ((d, s) # dims) flat acc =
     (let n = length (pow2s_below 1 s);
          old = (case map_of acc d of Some vs \<Rightarrow> vs | None \<Rightarrow> [])
      in deal_bases dims (drop n flat) (AList.update d (old @ take n flat) acc))"

definition reshapeIns :: "linear_layout \<Rightarrow> (dim \<times> int) list \<Rightarrow> linear_layout option" where
  "reshapeIns l newInDims =
     (if list_all (\<lambda>(_, s). is_pow2_32 s) newInDims \<and> getTotalInDimSize l = size_product newInDims
      then mkLayout (deal_bases newInDims (columns l) []) (outDims l) (isSurjective l)
      else None)"

text \<open>The bits of a basis vector as one number, the first out-dim the most minor, and the number
  cut again by the new sizes.\<close>

fun flatten_basis :: "int list \<Rightarrow> nat list \<Rightarrow> nat \<Rightarrow> int" where
  "flatten_basis (x # xs) (w # ws) shift = push_bit shift x + flatten_basis xs ws (shift + w)"
| "flatten_basis _ _ shift = 0"

fun split_basis :: "int \<Rightarrow> int list \<Rightarrow> int list" where
  "split_basis b [] = []"
| "split_basis b (s # ss) = b mod s # split_basis (b div s) ss"

definition reshapeOuts :: "linear_layout \<Rightarrow> (dim \<times> int) list \<Rightarrow> linear_layout option" where
  "reshapeOuts l newOutDims =
     (if list_all (\<lambda>(_, s). is_pow2_32 s) newOutDims \<and> getTotalOutDimSize l = size_product newOutDims
      then let ws = map (\<lambda>(_, s). log2_32 s) (outDims l)
           in mkLayout (map_bases (\<lambda>b. split_basis (flatten_basis b ws 0) (map snd newOutDims)) (bases l))
                newOutDims (isSurjective l)
      else None)"

definition flattenIns :: "linear_layout \<Rightarrow> linear_layout option" where
  "flattenIns l = (case getInDimNames l of
       [] \<Rightarrow> reshapeIns l []
     | d # _ \<Rightarrow> reshapeIns l [(d, getTotalInDimSize l)])"

definition flattenOuts :: "linear_layout \<Rightarrow> linear_layout option" where
  "flattenOuts l = (case getOutDimNames l of
       [] \<Rightarrow> reshapeOuts l []
     | d # _ \<Rightarrow> reshapeOuts l [(d, getTotalOutDimSize l)])"

text \<open>\<open>MapVector::insert\<close> keeps an entry that is there.\<close>

definition insert_new :: "'k \<times> 'v \<Rightarrow> ('k \<times> 'v) list \<Rightarrow> ('k \<times> 'v) list" where
  "insert_new p xs = (if fst p \<in> set (map fst xs) then xs else xs @ [p])"

definition concatIns :: "linear_layout \<Rightarrow> linear_layout \<Rightarrow> linear_layout option" where
  "concatIns l other =
     (if getOutDimNames l = getOutDimNames other \<and>
         list_all (\<lambda>d. getOutDimSize l d = getOutDimSize other d) (getOutDimNames l)
      then mkLayout (fold insert_new (bases other) (bases l)) (outDims l) False
      else None)"

definition concatOuts :: "linear_layout \<Rightarrow> linear_layout \<Rightarrow> linear_layout option" where
  "concatOuts l other =
     (if getInDimNames l = getInDimNames other \<and>
         list_all (\<lambda>d. getInDimSize l d = getInDimSize other d) (getInDimNames l)
      then mkLayout (map (\<lambda>((d, xs), (_, ys)). (d, map (\<lambda>(x, y). x @ y) (zip xs ys))) (zip (bases l) (bases other)))
             (outDims l @ outDims other) False
      else None)"

text \<open>Keep the components of a basis vector whose out-dim is kept.\<close>

definition keep_outs :: "dim list \<Rightarrow> (dim \<times> int) list \<Rightarrow> int list \<Rightarrow> int list" where
  "keep_outs ds outs b = map fst (filter (\<lambda>(x, (d, s)). d \<in> set ds) (zip b outs))"

definition sublayout :: "linear_layout \<Rightarrow> dim list \<Rightarrow> dim list \<Rightarrow> linear_layout option" where
  "sublayout l inNames outNames =
     (if dimsSubset inNames (getInDimNames l) \<and> dimsSubset outNames (getOutDimNames l)
      then mkLayout (map_bases (keep_outs outNames (outDims l)) (filter (\<lambda>(d, _). d \<in> set inNames) (bases l)))
             (filter (\<lambda>(d, _). d \<in> set outNames) (outDims l)) False
      else None)"

definition sublayoutIsZero :: "linear_layout \<Rightarrow> dim list \<Rightarrow> dim list \<Rightarrow> bool option" where
  "sublayoutIsZero l inNames outNames =
     map_option (\<lambda>ss. list_all (list_all (\<lambda>x. x = 0)) (columns ss)) (sublayout l inNames outNames)"

definition unsqueezeIn :: "linear_layout \<Rightarrow> dim \<Rightarrow> linear_layout option" where
  "unsqueezeIn l d =
     (if getInDimSize l d = Some 1
      then reshapeIns l (map (\<lambda>i. (i, the (getInDimSize l i))) (filter (\<lambda>i. i \<noteq> d) (getInDimNames l)))
      else None)"

definition unsqueezeOut :: "linear_layout \<Rightarrow> dim \<Rightarrow> linear_layout option" where
  "unsqueezeOut l d =
     (if getOutDimSize l d = Some 1
      then mkLayout (bases l) (filter (\<lambda>(od, _). od \<noteq> d) (outDims l)) (isSurjective l)
      else None)"

definition removeZeroBasesAlongDim :: "linear_layout \<Rightarrow> dim \<Rightarrow> linear_layout option" where
  "removeZeroBasesAlongDim l stripDim =
     mkLayout (map (\<lambda>(d, vs). (d, if d \<noteq> stripDim then vs else filter (list_ex (\<lambda>v. v \<noteq> 0)) vs)) (bases l))
       (map (\<lambda>d. (d, the (getOutDimSize l d))) (getOutDimNames l)) (isSurjective l)"

section \<open>Mapping the outputs\<close>

text \<open>
  \<open>transposeOuts\<close>, \<open>reshapeOuts\<close>, \<open>sublayout\<close> and \<open>compose\<close> replace every basis vector \<open>b\<close> by \<open>f b\<close> for a
  linear \<open>f\<close>. The layout then computes \<open>f\<close> of what it computed before.
\<close>

definition with_outs :: "linear_layout \<Rightarrow> (int list \<Rightarrow> int list) \<Rightarrow> (dim \<times> int) list \<Rightarrow> linear_layout" where
  "with_outs l f outs = \<lparr>bases = map_bases f (bases l), outDims = outs, rank = 0\<rparr>"

lemma columns_with_outs: "columns (with_outs l f outs) = map f (columns l)"
proof -
  have "concat (map snd (map (\<lambda>(d, vs). (d, map f vs)) bs)) = map f (concat (map snd bs))" for bs :: basesT
    by (induction bs) auto
  then show ?thesis by (simp add: with_outs_def columns_def map_bases_def)
qed

lemma with_outs_simps [simp]:
  "getInDimNames (with_outs l f outs) = getInDimNames l"
  "in_widths (with_outs l f outs) = in_widths l"
  "outDims (with_outs l f outs) = outs"
  "getTotalInDimSizeLog2 (with_outs l f outs) = getTotalInDimSizeLog2 l"
  "getOutDimNames (with_outs l f outs) = map fst outs"
  "out_widths (with_outs l f outs) = size_widths outs"
  "getTotalOutDimSizeLog2 (with_outs l f outs) = sum_list (size_widths outs)"
  by (auto simp: with_outs_def map_bases_def getInDimNames_def in_widths_def getOutDimNames_def out_widths_sizes
      getTotalInDimSizeLog2_def getTotalOutDimSizeLog2_def size_widths_def intro!: arg_cong [where f = sum_list])

lemma out_vals_with_outs:
  assumes "wide l" and "vlinear (length (outDims l)) (length outs) f" and "\<And>b. length b = length (outDims l) \<Longrightarrow> length (f b) = length outs"
  shows "out_vals (with_outs l f outs) cs = f (out_vals l cs)"
proof -
  have "wide (with_outs l f outs)"
    using assms(1,3) by (auto simp: wide_def columns_with_outs list_all_iff)
  then show ?thesis
    using vlin_map [OF assms(2)] assms(1)
    by (simp add: out_vals_vlin columns_with_outs wide_def list_all_iff)
qed

definition maps_outs :: "linear_layout \<Rightarrow> (int list \<Rightarrow> int list) \<Rightarrow> (dim \<times> int) list \<Rightarrow> bool" where
  "maps_outs l f outs \<longleftrightarrow> distinct (map fst outs) \<and> list_all (\<lambda>(_, s). small_pow s) outs \<and>
     sum_list (size_widths outs) \<le> 64 \<and> vlinear (length (outDims l)) (length outs) f \<and>
     (\<forall>b. length b = length (outDims l) \<longrightarrow> length (f b) = length outs) \<and>
     (\<forall>us. list_all2 fits_width us (out_widths l) \<longrightarrow> list_all2 fits_width (f us) (size_widths outs))"

lemma with_outs_data:
  assumes "wf l" and "maps_outs l f outs" shows "layout_data (with_outs l f outs)"
proof -
  have p: "list_all (\<lambda>(_, s). small_pow s) (outDims l)" using assms(1) by (simp add: wf_def)
  have "list_all (good_column (outDims l)) (columns l)" using wf_layout_data [OF assms(1)] by (simp add: layout_data_def)
  then show ?thesis using assms wf_names [OF assms(1)] wf_dims [OF assms(1)]
    by (auto simp: layout_data_def maps_outs_def columns_with_outs list_all_iff good_column_fits [OF p] out_widths_sizes
        good_column_fits [of outs, simplified list_all_iff])
qed

lemma with_outs_surj:
  assumes "wf l" and "maps_outs l f outs" and "surj_vals l"
    and "\<And>vs. list_all2 fits_width vs (size_widths outs) \<Longrightarrow> \<exists>us. list_all2 fits_width us (out_widths l) \<and> f us = vs"
  shows "surj_vals (with_outs l f outs)"
  unfolding surj_vals_def with_outs_simps
proof (intro allI impI)
  fix vs assume "list_all2 fits_width vs (size_widths outs)"
  then obtain us where us: "list_all2 fits_width us (out_widths l)" "f us = vs" using assms(4) by blast
  then obtain cs where "length cs = getTotalInDimSizeLog2 l" "out_vals l cs = us"
    using assms(3) by (auto simp: surj_vals_def)
  then show "\<exists>cs. length cs = getTotalInDimSizeLog2 l \<and> out_vals (with_outs l f outs) cs = vs"
    using out_vals_with_outs [OF wf_wide [OF assms(1)]] assms(2) us by (auto simp: maps_outs_def)
qed

lemma with_outs_apply:
  assumes "wf l" and "maps_outs l f outs" and "wf t" and t: "bases t = map_bases f (bases l)" "outDims t = outs"
    and i: "valid_ins l ins"
  shows "valid_ins t ins \<and> apply_layout t ins = Some (zip (map fst outs) (f (map snd (the (apply_layout l ins)))))"
proof -
  have sh: "valid_ins t ins = valid_ins (with_outs l f outs) ins" "out_vals t cs = out_vals (with_outs l f outs) cs"
    "coefs t ins = coefs (with_outs l f outs) ins" for cs
    using t by (auto simp: valid_ins_def getInDimNames_def in_widths_def out_vals_def columns_def coefs_def with_outs_def)
  have v: "valid_ins t ins" using i sh by (simp add: valid_ins_def)
  have c: "coefs t ins = coefs l ins"
    using i wf_names [OF assms(1)] by (simp add: sh valid_ins_def coefs_joinb)
  have "length (getOutDimNames l) = length (out_vals l cs)" for cs by (simp add: getOutDimNames_def)
  then have "map snd (the (apply_layout l ins)) = out_vals l (coefs l ins)"
    using apply_layout_eq [OF assms(1) i] by simp
  then show ?thesis
    using apply_layout_eq [OF assms(3) v] v c sh assms(2) out_vals_with_outs [OF wf_wide [OF assms(1)]] t
    by (simp add: maps_outs_def getOutDimNames_def)
qed

lemma map_outs_total:
  assumes "wf l" and "maps_outs l f outs"
    and "\<And>vs. req \<Longrightarrow> list_all2 fits_width vs (size_widths outs) \<Longrightarrow> \<exists>us. list_all2 fits_width us (out_widths l) \<and> f us = vs"
    and "req \<Longrightarrow> isSurjective l"
  shows "\<exists>t. mkLayout (map_bases f (bases l)) outs req = Some t \<and> wf t \<and> getInDimNames t = getInDimNames l \<and>
    in_widths t = in_widths l \<and> outDims t = outs \<and>
    (\<forall>ins. valid_ins l ins \<longrightarrow> apply_layout t ins = Some (zip (map fst outs) (f (map snd (the (apply_layout l ins))))))"
proof -
  have "\<exists>t. mkLayout (map_bases f (bases l)) outs req = Some t \<and> wf t \<and> bases t = map_bases f (bases l) \<and> outDims t = outs"
  proof (rule mkLayout_total)
    show "layout_data \<lparr>bases = map_bases f (bases l), outDims = outs, rank = 0\<rparr>"
      using with_outs_data [OF assms(1,2)] by (simp add: with_outs_def)
    assume req
    then show "surj_vals \<lparr>bases = map_bases f (bases l), outDims = outs, rank = 0\<rparr>"
      using with_outs_surj [OF assms(1,2)] assms(3,4) isSurjective_vals [OF assms(1)] by (simp add: with_outs_def)
  qed
  then obtain t where t: "mkLayout (map_bases f (bases l)) outs req = Some t" "wf t"
    "bases t = map_bases f (bases l)" "outDims t = outs" by blast
  have "getInDimNames t = getInDimNames (with_outs l f outs)" "in_widths t = in_widths (with_outs l f outs)"
    using t by (simp_all add: getInDimNames_def in_widths_def with_outs_def)
  then show ?thesis using t with_outs_apply [OF assms(1,2) t(2-4)] by auto
qed

section \<open>Selecting out-dims\<close>

definition select_idx :: "nat list \<Rightarrow> 'a list \<Rightarrow> 'a list" where
  "select_idx idx b = map (\<lambda>i. b ! i) idx"

lemma length_select_idx [simp]: "length (select_idx idx b) = length idx"
  by (simp add: select_idx_def)

lemma vlinear_select:
  "list_all (\<lambda>i. i < n) idx \<Longrightarrow> vlinear n (length idx) (select_idx idx)"
  by (auto simp: vlinear_def select_idx_def list_all_iff map_replicate_const [symmetric] intro!: nth_equalityI)

lemma sum_select_le:
  assumes "distinct idx" and "list_all (\<lambda>i. i < length ws) idx"
  shows "sum_list (select_idx idx ws) \<le> sum_list (ws :: nat list)"
proof -
  have "sum_list (select_idx idx ws) = (\<Sum>i\<in>set idx. ws ! i)"
    unfolding select_idx_def using assms(1) by (rule sum_list_distinct_conv_sum_set)
  also have "\<dots> \<le> (\<Sum>i<length ws. ws ! i)"
    using assms(2) by (intro sum_mono2) (auto simp: list_all_iff)
  also have "\<dots> = sum_list ws" by (simp add: sum_list_sum_nth lessThan_atLeast0)
  finally show ?thesis .
qed

lemma maps_outs_select:
  assumes w: "wf l" and idx: "distinct idx" "list_all (\<lambda>i. i < length (outDims l)) idx"
  shows "maps_outs l (select_idx idx) (select_idx idx (outDims l))"
proof -
  have n: "map fst (select_idx idx (outDims l)) = select_idx idx (getOutDimNames l)"
    using idx(2) by (auto simp: select_idx_def getOutDimNames_def list_all_iff)
  have ws: "size_widths (select_idx idx (outDims l)) = select_idx idx (out_widths l)"
    using idx(2) by (auto simp: select_idx_def size_widths_def out_widths_def list_all_iff)
  have d: "distinct (select_idx idx (getOutDimNames l))"
    using idx wf_names [OF w] inj_on_nth [of "getOutDimNames l" "set idx"]
    by (simp add: select_idx_def distinct_map list_all_iff) (simp add: getOutDimNames_def)
  have p: "list_all (\<lambda>(_, s). small_pow s) (select_idx idx (outDims l))"
    using idx(2) w by (auto simp: select_idx_def list_all_iff wf_def)
  have "sum_list (select_idx idx (out_widths l)) \<le> 64"
    using sum_select_le [OF idx(1), of "out_widths l"] idx(2) wf_dims [OF w] by simp
  moreover have "list_all2 fits_width (select_idx idx us) (select_idx idx (out_widths l))"
    if "list_all2 fits_width us (out_widths l)" for us
    using that idx(2) by (auto simp: select_idx_def list_all2_conv_all_nth list_all_iff)
  ultimately show ?thesis using d p n ws vlinear_select [OF idx(2)]
    by (simp add: maps_outs_def)
qed

lemma select_idx_surj:
  assumes "distinct idx" and "list_all (\<lambda>i. i < length ws) idx" and "list_all2 fits_width vs (select_idx idx ws)"
  shows "\<exists>us. list_all2 fits_width us ws \<and> select_idx idx us = vs"
proof -
  define us where "us = map (\<lambda>i. case index_of i idx of Some j \<Rightarrow> vs ! j | None \<Rightarrow> 0) [0..<length ws]"
  have l: "length vs = length idx" using list_all2_lengthD [OF assms(3)] by simp
  have j: "us ! (idx ! j) = vs ! j" if "j < length idx" for j
    using that assms(1,2) index_of_nth [OF assms(1) that] by (simp add: us_def list_all_length)
  have "list_all2 fits_width us ws"
  proof (rule list_all2_all_nthI)
    fix i assume "i < length us"
    then have i: "i < length ws" by (simp add: us_def)
    show "fits_width (us ! i) (ws ! i)"
    proof (cases "index_of i idx")
      case None
      then show ?thesis using i by (simp add: us_def fits_width_def)
    next
      case (Some j)
      then have "j < length idx" "idx ! j = i" using index_of_Some by fast+
      then show ?thesis using Some i assms(3) by (auto simp: us_def list_all2_conv_all_nth select_idx_def)
    qed
  qed (simp add: us_def)
  moreover have "select_idx idx us = vs"
    using l j by (intro nth_equalityI) (auto simp: select_idx_def)
  ultimately show ?thesis by blast
qed

section \<open>transposeOuts and sublayout\<close>

lemma getOutDimIndex_nth:
  "wf l \<Longrightarrow> d \<in> set (getOutDimNames l) \<Longrightarrow>
     \<exists>i < length (outDims l). getOutDimIndex l d = Some i \<and> getOutDimNames l ! i = d"
  using index_of_Some index_of_None unfolding getOutDimIndex_def
  by (metis getOutDimNames_def length_map not_Some_eq)

lemma outDims_entry:
  assumes "wf l" and "i < length (outDims l)"
  shows "outDims l ! i = (getOutDimNames l ! i, the (getOutDimSize l (getOutDimNames l ! i)))"
proof -
  obtain d s where e: "outDims l ! i = (d, s)" by (cases "outDims l ! i")
  then have "map_of (outDims l) d = Some s"
    using assms wf_names by (metis getOutDimNames_def map_of_is_SomeI nth_mem)
  moreover have "s = 2 ^ log2_32 s" using wf_out_pow [OF assms] e by simp
  ultimately show ?thesis using e assms(2) by (simp add: getOutDimNames_def getOutDimSize_def getOutDimSizeLog2_def)
qed

lemma transpose_idx:
  assumes "wf l" and "dimsEqual dims (getOutDimNames l)" and "distinct dims"
    and idx: "idx = map (\<lambda>d. the (getOutDimIndex l d)) dims"
  shows "distinct idx" "list_all (\<lambda>i. i < length (outDims l)) idx" "select_idx idx (getOutDimNames l) = dims"
    "select_idx idx (outDims l) = map (\<lambda>d. (d, the (getOutDimSize l d))) dims"
proof -
  have e: "the (getOutDimIndex l d) < length (outDims l) \<and> getOutDimNames l ! the (getOutDimIndex l d) = d"
    if "d \<in> set dims" for d
    using getOutDimIndex_nth [OF assms(1), of d] that assms(2) by (auto simp: dimsEqual_def)
  show "distinct idx" unfolding idx distinct_map using assms(3) e by (auto intro!: inj_onI) metis
  show "list_all (\<lambda>i. i < length (outDims l)) idx" using e by (auto simp: idx list_all_iff)
  show "select_idx idx (getOutDimNames l) = dims" using e by (auto simp: idx select_idx_def intro!: map_idI)
  show "select_idx idx (outDims l) = map (\<lambda>d. (d, the (getOutDimSize l d))) dims"
    using e outDims_entry [OF assms(1)] by (auto simp: idx select_idx_def)
qed

lemma zip_select: "length xs = length ys \<Longrightarrow> list_all (\<lambda>i. i < length xs) idx \<Longrightarrow>
    zip (select_idx idx xs) (select_idx idx ys) = select_idx idx (zip xs ys)"
  by (induction idx) (auto simp: select_idx_def)

lemma select_named:
  assumes "distinct (map fst outs)" and "list_all (\<lambda>i. i < length outs) idx"
  shows "select_idx idx outs = map (\<lambda>d. (d, the (map_of outs d))) (select_idx idx (map fst outs))"
proof -
  have "outs ! i = (fst (outs ! i), the (map_of outs (fst (outs ! i))))" if "i < length outs" for i
    using map_of_is_SomeI [OF assms(1), of "fst (outs ! i)" "snd (outs ! i)"] that by simp
  then show ?thesis using assms(2) by (auto simp: select_idx_def list_all_iff)
qed

lemma apply_layout_outs:
  assumes "wf l" and "valid_ins l ins"
  shows "\<exists>outs. apply_layout l ins = Some outs \<and> valid_outs l outs"
proof -
  have "length (getOutDimNames l) = length (out_vals l cs)" for cs by (simp add: getOutDimNames_def)
  then show ?thesis
    using apply_layout_eq [OF assms] out_vals_fit [OF assms(1)] by (auto simp: valid_outs_def)
qed

lemma transposeOuts_total:
  assumes w: "wf l" and dims: "dimsEqual dims (getOutDimNames l)" "distinct dims"
  shows "\<exists>t. transposeOuts l dims = Some t \<and> wf t \<and> getInDimNames t = getInDimNames l \<and>
    getOutDimNames t = dims \<and> in_widths t = in_widths l \<and>
    (\<forall>ins. valid_ins l ins \<longrightarrow> (\<exists>outs. apply_layout l ins = Some outs \<and>
       apply_layout t ins = Some (map (\<lambda>d. (d, the (map_of outs d))) dims)))"
proof -
  define idx where "idx = map (\<lambda>d. the (getOutDimIndex l d)) dims"
  note ix = transpose_idx [OF w dims idx_def]
  have surj: "\<exists>us. list_all2 fits_width us (out_widths l) \<and> select_idx idx us = vs"
    if "list_all2 fits_width vs (size_widths (select_idx idx (outDims l)))" for vs
  proof -
    have "size_widths (select_idx idx (outDims l)) = select_idx idx (out_widths l)"
      using ix(2) by (auto simp: select_idx_def size_widths_def out_widths_def list_all_iff)
    then show ?thesis using select_idx_surj [OF ix(1), of "out_widths l" vs] ix(2) that by simp
  qed
  obtain t where t: "mkLayout (map_bases (select_idx idx) (bases l)) (select_idx idx (outDims l)) (isSurjective l) = Some t"
    "wf t" "getInDimNames t = getInDimNames l" "in_widths t = in_widths l" "outDims t = select_idx idx (outDims l)"
    "\<And>ins. valid_ins l ins \<Longrightarrow> apply_layout t ins = Some (zip (map fst (select_idx idx (outDims l)))
        (select_idx idx (map snd (the (apply_layout l ins)))))"
    using map_outs_total [OF w maps_outs_select [OF w ix(1,2)] surj] by blast
  have n: "map fst (select_idx idx (outDims l)) = dims" using ix(4) by (simp add: comp_def)
  have "apply_layout t ins = Some (map (\<lambda>d. (d, the (map_of outs d))) dims)"
    if i: "valid_ins l ins" and o: "apply_layout l ins = Some outs" "valid_outs l outs" for ins outs
  proof -
    have len: "length outs = length (outDims l)" using o(2) by (metis valid_outs_def getOutDimNames_def length_map)
    have d: "dims = select_idx idx (map fst outs)" using ix(3) o(2) by (simp add: valid_outs_def)
    have "select_idx idx outs = map (\<lambda>d. (d, the (map_of outs d))) dims"
      using select_named [of outs idx] o(2) wf_names [OF w] ix(2) len d by (simp add: valid_outs_def)
    moreover have "zip dims (select_idx idx (map snd outs)) = select_idx idx outs"
      using zip_select [of "map fst outs" "map snd outs" idx] ix(2) len d by (simp add: zip_map_fst_snd)
    ultimately show ?thesis using t(6) [OF i] o(1) n by simp
  qed
  then have "\<forall>ins. valid_ins l ins \<longrightarrow> (\<exists>outs. apply_layout l ins = Some outs \<and>
       apply_layout t ins = Some (map (\<lambda>d. (d, the (map_of outs d))) dims))"
    using apply_layout_outs [OF w] by blast
  moreover have "transposeOuts l dims = Some t"
  proof -
    have e: "(\<lambda>b. map (\<lambda>i. b ! i) idx) = select_idx idx" by (simp add: select_idx_def fun_eq_iff)
    show ?thesis using t(1) dims(1) unfolding transposeOuts_def Let_def idx_def [symmetric] e ix(4) by simp
  qed
  ultimately show ?thesis using t(2-5) n by (auto simp: getOutDimNames_def)
qed


section \<open>Restricting the inputs\<close>

definition pick_ins :: "linear_layout \<Rightarrow> dim list \<Rightarrow> linear_layout" where
  "pick_ins l ds = l\<lparr>bases := filter (\<lambda>(d, _). d \<in> set ds) (bases l)\<rparr>"

lemma sum_filter_le: "sum_list (map f (filter P xs)) \<le> (sum_list (map f xs) :: nat)"
  by (induction xs) auto

lemma pick_ins_data:
  assumes "wf l" shows "layout_data (pick_ins l ds)"
proof -
  have "distinct (getInDimNames (pick_ins l ds))"
    using wf_names [OF assms] by (simp add: pick_ins_def getInDimNames_def distinct_map_filter)
  moreover have "set (columns (pick_ins l ds)) \<subseteq> set (columns l)" by (auto simp: pick_ins_def columns_def)
  moreover have "getTotalInDimSizeLog2 (pick_ins l ds) \<le> getTotalInDimSizeLog2 l"
    by (simp add: pick_ins_def getTotalInDimSizeLog2_def sum_filter_le)
  moreover have "getTotalOutDimSizeLog2 (pick_ins l ds) = getTotalOutDimSizeLog2 l" "outDims (pick_ins l ds) = outDims l"
    "getOutDimNames (pick_ins l ds) = getOutDimNames l"
    by (simp_all add: pick_ins_def getTotalOutDimSizeLog2_def getOutDimNames_def)
  ultimately show ?thesis using wf_layout_data [OF assms] by (auto simp: layout_data_def list_all_iff)
qed

text \<open>The inputs a restricted layout ignores are 0.\<close>

definition pad_ins :: "linear_layout \<Rightarrow> (dim \<times> int) list \<Rightarrow> (dim \<times> int) list" where
  "pad_ins l ins = map (\<lambda>d. (d, case map_of ins d of Some v \<Rightarrow> v | None \<Rightarrow> 0)) (getInDimNames l)"

lemma filter_select:
  "filter P xs = select_idx (filter (\<lambda>i. P (xs ! i)) [0..<length xs]) xs"
proof -
  have "filter P xs = filter P (map (\<lambda>i. xs ! i) [0..<length xs])" by (simp add: map_nth)
  then show ?thesis unfolding filter_map select_idx_def by (simp add: comp_def)
qed

lemma keep_outs_select:
  assumes "length b = length outs"
  shows "keep_outs ds outs b = select_idx (filter (\<lambda>i. fst (outs ! i) \<in> set ds) [0..<length outs]) b"
proof -
  have "keep_outs ds outs b = map fst (select_idx (filter (\<lambda>i. fst (outs ! i) \<in> set ds) [0..<length outs]) (zip b outs))"
    unfolding keep_outs_def using assms
    by (subst filter_select) (auto simp: case_prod_unfold intro!: arg_cong [where f = "\<lambda>i. map fst (select_idx i (zip b outs))"] filter_cong)
  then show ?thesis using assms by (auto simp: select_idx_def)
qed

lemma dim_term_zero: "the (map_of ins (fst p)) = 0 \<Longrightarrow> dim_term k ins p = 0"
  unfolding dim_term_def by (intro xlin_False) (auto simp: bits_of_def)

lemma pick_ins_names: "getInDimNames (pick_ins l ds) = filter (\<lambda>d. d \<in> set ds) (getInDimNames l)"
  by (simp add: getInDimNames_def pick_ins_def filter_map comp_def case_prod_unfold)

lemma map_of_pad_ins:
  "d \<in> set (getInDimNames l) \<Longrightarrow> map_of (pad_ins l ins) d = Some (case map_of ins d of Some v \<Rightarrow> v | None \<Rightarrow> 0)"
  by (simp add: pad_ins_def map_of_map_restrict)

lemma valid_dom:
  assumes "valid_ins l ins" shows "map_of ins d = None \<longleftrightarrow> d \<notin> set (getInDimNames l)"
proof -
  have "set (map fst ins) = set (getInDimNames l)" using assms by (simp add: valid_ins_def)
  then show ?thesis by (simp add: map_of_eq_None_iff)
qed

lemma in_bases_entry:
  assumes "wf l" and "k < length (bases l)"
  shows "getInDimSize l (getInDimNames l ! k) = Some (2 ^ (in_widths l ! k))"
proof -
  have "map_of (bases l) (getInDimNames l ! k) = Some (snd (bases l ! k))"
    using wf_names [OF assms(1)] assms(2) by (simp add: getInDimNames_def map_of_is_SomeI)
  then show ?thesis using assms(2)
    by (simp add: getInDimSize_def getInDimSizeLog2_def in_widths_def case_prod_unfold)
qed

lemma map_of_filter_fst: "P d \<Longrightarrow> map_of (filter (\<lambda>p. P (fst p)) bs) d = map_of bs d"
  by (induction bs) auto

lemma pad_ins_valid:
  assumes w: "wf l" and p: "wf (pick_ins l ds\<lparr>rank := r\<rparr>)" and i: "valid_ins (pick_ins l ds\<lparr>rank := r\<rparr>) ins"
  shows "valid_ins l (pad_ins l ins)"
  unfolding valid_ins_def
proof
  let ?p = "pick_ins l ds\<lparr>rank := r\<rparr>"
  show "map fst (pad_ins l ins) = getInDimNames l" by (simp add: pad_ins_def comp_def)
  show "list_all2 fits_width (map snd (pad_ins l ins)) (in_widths l)"
  proof (rule list_all2_all_nthI)
    fix k assume "k < length (map snd (pad_ins l ins))"
    then have k: "k < length (bases l)" by (simp add: pad_ins_def getInDimNames_def)
    let ?d = "getInDimNames l ! k"
    have e: "map snd (pad_ins l ins) ! k = (case map_of ins ?d of Some v \<Rightarrow> v | None \<Rightarrow> 0)"
      using k by (simp add: pad_ins_def getInDimNames_def)
    show "fits_width (map snd (pad_ins l ins) ! k) (in_widths l ! k)"
    proof (cases "map_of ins ?d")
      case (Some v)
      then have d: "?d \<in> set (getInDimNames ?p)" using valid_dom [OF i, of ?d] by fastforce
      then obtain x where x: "getInDimSize ?p ?d = Some (2 ^ x)" "fits_width v x"
        using in_size_fits [OF p i d] Some by auto
      have "?d \<in> set ds" using d by (simp add: pick_ins_names)
      then have "getInDimSize ?p ?d = getInDimSize l ?d"
        by (simp add: getInDimSize_def getInDimSizeLog2_def pick_ins_def map_of_filter_fst [of "\<lambda>d. d \<in> set ds"] case_prod_unfold)
      then show ?thesis using x Some e in_bases_entry [OF w k] by simp
    qed (simp add: e fits_width_def)
  qed (simp add: pad_ins_def getInDimNames_def)
qed

lemma pick_ins_apply:
  assumes w: "wf l" and p: "wf (pick_ins l ds\<lparr>rank := r\<rparr>)" and i: "valid_ins (pick_ins l ds\<lparr>rank := r\<rparr>) ins"
  shows "apply_layout (pick_ins l ds\<lparr>rank := r\<rparr>) ins = apply_layout l (pad_ins l ins)"
proof -
  let ?p = "pick_ins l ds\<lparr>rank := r\<rparr>"
  have dom: "map_of ins d = None \<longleftrightarrow> \<not> (d \<in> set ds \<and> d \<in> set (getInDimNames l))" for d
    using valid_dom [OF i] by (auto simp: pick_ins_names)
  have "xsum (map (dim_term k ins) (bases ?p)) = xsum (map (dim_term k (pad_ins l ins)) (bases l))" for k
  proof -
    have "xsum (map (dim_term k ins) (filter (\<lambda>p. fst p \<in> set ds) (bases l))) = xsum (map (dim_term k (pad_ins l ins)) (bases l))"
    proof (rule xsum_filter)
      fix q assume "q \<in> set (bases l)"
      then have d: "fst q \<in> set (getInDimNames l)" by (simp add: getInDimNames_def)
      { assume "fst q \<in> set ds"
        then have "map_of (pad_ins l ins) (fst q) = map_of ins (fst q)"
          using map_of_pad_ins [OF d] dom [of "fst q"] d by auto
        then show "dim_term k ins q = dim_term k (pad_ins l ins) q" by (simp add: dim_term_def) }
      assume "fst q \<notin> set ds"
      then have "map_of ins (fst q) = None" using dom by simp
      then show "dim_term k (pad_ins l ins) q = 0"
        using map_of_pad_ins [OF d, of ins] by (intro dim_term_zero) simp
    qed
    then show ?thesis by (simp add: pick_ins_def case_prod_unfold)
  qed
  then have "out_vals ?p (coefs ?p ins) = out_vals l (coefs l (pad_ins l ins))"
    unfolding out_vals_def xlin_columns by (simp add: pick_ins_def)
  then show ?thesis
    using apply_layout_eq [OF p i] apply_layout_eq [OF w pad_ins_valid [OF w p i]] by (simp add: getOutDimNames_def pick_ins_def)
qed


lemma sublayout_total:
  assumes w: "wf l" and sub: "dimsSubset is (getInDimNames l)" "dimsSubset os (getOutDimNames l)"
  shows "\<exists>s. sublayout l is os = Some s \<and> wf s \<and> getInDimNames s = filter (\<lambda>d. d \<in> set is) (getInDimNames l) \<and>
    outDims s = filter (\<lambda>(d, _). d \<in> set os) (outDims l) \<and>
    (\<forall>ins. valid_ins s ins \<longrightarrow> (\<exists>outs. apply_layout l (pad_ins l ins) = Some outs \<and>
       apply_layout s ins = Some (filter (\<lambda>(d, _). d \<in> set os) outs)))"
proof -
  obtain r where p: "wf (pick_ins l is\<lparr>rank := r\<rparr>)" (is "wf ?p")
    using layout_data_rank [OF pick_ins_data [OF w]] by blast
  define idx where "idx = filter (\<lambda>i. fst (outDims l ! i) \<in> set os) [0..<length (outDims l)]"
  have po: "outDims ?p = outDims l" "in_widths ?p = in_widths (pick_ins l is)" by (simp_all add: pick_ins_def in_widths_def)
  have idx: "distinct idx" "list_all (\<lambda>i. i < length (outDims ?p)) idx" by (auto simp: idx_def list_all_iff pick_ins_def)
  have so: "select_idx idx (outDims l) = filter (\<lambda>(d, _). d \<in> set os) (outDims l)"
    unfolding idx_def case_prod_unfold by (rule filter_select [symmetric])
  obtain s where s: "mkLayout (map_bases (select_idx idx) (bases ?p)) (select_idx idx (outDims l)) False = Some s" "wf s"
    "getInDimNames s = getInDimNames ?p" "in_widths s = in_widths ?p" "outDims s = select_idx idx (outDims l)"
    "\<And>ins. valid_ins ?p ins \<Longrightarrow> apply_layout s ins = Some (zip (map fst (select_idx idx (outDims l)))
        (select_idx idx (map snd (the (apply_layout ?p ins)))))"
    using map_outs_total [OF p maps_outs_select [OF p idx], of False] unfolding po by blast
  have "map_bases (select_idx idx) (bases ?p) = map_bases (keep_outs os (outDims l)) (filter (\<lambda>(d, _). d \<in> set is) (bases l))"
  proof -
    have "keep_outs os (outDims l) b = select_idx idx b" if "b \<in> set (columns l)" for b
      using that wf_wide [OF w] unfolding idx_def by (intro keep_outs_select) (auto simp: wide_def list_all_iff)
    then show ?thesis by (force simp: map_bases_def pick_ins_def in_columns)
  qed
  then have "sublayout l is os = Some s" using s(1) sub so by (simp add: sublayout_def)
  moreover have "\<exists>outs. apply_layout l (pad_ins l ins) = Some outs \<and>
      apply_layout s ins = Some (filter (\<lambda>(d, _). d \<in> set os) outs)" if "valid_ins s ins" for ins
  proof -
    have i: "valid_ins ?p ins" using that s(3,4) by (simp add: valid_ins_def)
    obtain outs where o: "apply_layout l (pad_ins l ins) = Some outs" "valid_outs l outs"
      using apply_layout_outs [OF w pad_ins_valid [OF w p i]] by blast
    have n: "map fst outs = getOutDimNames l" and len: "length outs = length (outDims l)"
      using o(2) by (simp_all add: valid_outs_def) (metis getOutDimNames_def length_map)
    have f: "fst (outs ! i) = fst (outDims l ! i)" if "i < length (outDims l)" for i
      using n len that unfolding getOutDimNames_def by (metis nth_map)
    have "filter (\<lambda>(d, _). d \<in> set os) outs = select_idx idx outs"
      unfolding idx_def case_prod_unfold filter_select [of _ outs] len
      using f by (intro arg_cong [where f = "\<lambda>x. select_idx x outs"] filter_cong) auto
    also have "\<dots> = zip (select_idx idx (map fst outs)) (select_idx idx (map snd outs))"
      using zip_select [of "map fst outs" "map snd outs" idx] idx(2) len po(1) by (simp add: zip_map_fst_snd)
    also have "select_idx idx (map fst outs) = map fst (select_idx idx (outDims l))"
      using n idx(2) len po(1) by (auto simp: select_idx_def list_all_iff getOutDimNames_def)
    finally show ?thesis using s(6) [OF i] pick_ins_apply [OF w p i] o(1) by simp
  qed
  ultimately show ?thesis using s(2,3,5) so by (auto simp: pick_ins_names)
qed

section \<open>Reshaping\<close>

text \<open>The number that a list of bits, least significant first, stands for.\<close>

definition bval :: "bool list \<Rightarrow> int" where
  "bval cs = horner_sum of_bool 2 cs"

lemma bit_bval: "bit (bval cs) i \<longleftrightarrow> i < length cs \<and> cs ! i"
  by (simp add: bval_def bit_horner_sum_bit_iff)

lemma bval_bits_of: "fits_width v w \<Longrightarrow> bval (bits_of v w) = v"
  by (simp add: bval_def bits_of_def horner_sum_bit_eq_take_bit fits_width_take)

lemma bval_append: "bval (as @ bs) = bval as + 2 ^ length as * bval bs"
  by (simp add: bval_def horner_sum_append)

lemma bval_mod: "bval cs mod 2 ^ w = bval (take w cs)"
  by (simp add: bval_def flip: take_bit_eq_mod take_bit_horner_sum_bit_eq)

lemma bval_div: "bval cs div 2 ^ w = bval (drop w cs)"
  by (simp flip: drop_bit_eq_div) (rule bit_eqI, auto simp: bit_drop_bit_eq bit_bval less_diff_conv add.commute)

lemma bval_fits: "length cs = w \<Longrightarrow> fits_width (bval cs) w"
  using bits_of_surj [of cs w] bval_bits_of by metis

lemma bval_neq: "length as = length bs \<Longrightarrow> bval (map2 (\<noteq>) as bs) = bval as XOR bval bs"
  by (rule bit_eqI) (auto simp: bit_bval bit_xor_iff)

text \<open>The index of a point in a box whose sides are powers of two, the first dimension most minor.\<close>

fun lin_index :: "int list \<Rightarrow> nat list \<Rightarrow> int" where
  "lin_index (v # vs) (w # ws) = v + 2 ^ w * lin_index vs ws"
| "lin_index _ _ = 0"

lemma lin_index_joinb: "list_all2 fits_width vs ws \<Longrightarrow> lin_index vs ws = bval (joinb vs ws)"
  by (induction vs ws rule: list_all2_induct) (simp_all add: bval_append bval_bits_of bval_def [of "[]"])

lemma flatten_basis_eq: "list_all2 fits_width b ws \<Longrightarrow> flatten_basis b ws n = push_bit n (lin_index b ws)"
  by (induction b ws arbitrary: n rule: list_all2_induct)
    (simp_all add: push_bit_eq_mult algebra_simps power_add)

fun cutvals :: "bool list \<Rightarrow> nat list \<Rightarrow> int list" where
  "cutvals cs [] = []"
| "cutvals cs (w # ws) = bval (take w cs) # cutvals (drop w cs) ws"

lemma length_cutvals [simp]: "length (cutvals cs ws) = length ws"
  by (induction ws arbitrary: cs) auto

lemma split_basis_bval: "split_basis (bval cs) (map (\<lambda>w. 2 ^ w) ws) = cutvals cs ws"
  by (induction ws arbitrary: cs) (simp_all add: bval_mod bval_div)

lemma cutvals_fit: "sum_list ws \<le> length cs \<Longrightarrow> list_all2 fits_width (cutvals cs ws) ws"
  by (induction ws arbitrary: cs) (simp_all add: bval_fits)

lemma joinb_cutvals: "length cs = sum_list ws \<Longrightarrow> joinb (cutvals cs ws) ws = cs"
proof (induction ws arbitrary: cs)
  case (Cons w ws)
  have "bits_of (bval (take w cs)) w = take w cs"
    using Cons.prems by (intro nth_equalityI) (auto simp: bit_bval)
  then show ?case using Cons by simp
qed simp

lemma cutvals_neq: "length as = length bs \<Longrightarrow> cutvals (map2 (\<noteq>) as bs) ws = map2 (XOR) (cutvals as ws) (cutvals bs ws)"
proof (induction ws arbitrary: as bs)
  case (Cons w ws)
  then have "bval (take w (map2 (\<noteq>) as bs)) = bval (take w as) XOR bval (take w bs)"
    using bval_neq [of "take w as" "take w bs"] by (simp only: take_map take_zip length_take)
  moreover have "cutvals (drop w (map2 (\<noteq>) as bs)) ws = map2 (XOR) (cutvals (drop w as) ws) (cutvals (drop w bs) ws)"
    using Cons.IH [of "drop w as" "drop w bs"] Cons.prems by (simp only: drop_map drop_zip length_drop)
  ultimately show ?case by (simp only: cutvals.simps zip_Cons_Cons list.map prod.case)
qed simp

definition rejoin :: "nat list \<Rightarrow> nat list \<Rightarrow> int list \<Rightarrow> int list" where
  "rejoin ws ws' b = cutvals (joinb b ws) ws'"

lemma cutvals_False: "\<forall>c \<in> set cs. \<not> c \<Longrightarrow> cutvals cs ws = replicate (length ws) 0"
proof (induction ws arbitrary: cs)
  case (Cons w ws)
  have "bval (take w cs) = 0" using Cons.prems by (intro bit_eqI) (auto simp: bit_bval dest!: nth_mem in_set_takeD)
  then show ?case using Cons.IH [of "drop w cs"] Cons.prems by (auto dest: in_set_dropD)
qed simp

lemma vlinear_rejoin: "vlinear (length ws) (length ws') (rejoin ws ws')"
  unfolding vlinear_def rejoin_def
proof (intro conjI allI impI)
  show "cutvals (joinb (replicate (length ws) 0) ws) ws' = replicate (length ws') 0"
    using joinb_zero [of ws ws] by (intro cutvals_False) (simp add: map_replicate_const)
  fix u v :: "int list" assume "length u = length ws" "length v = length ws"
  then show "cutvals (joinb (map2 (XOR) u v) ws) ws' = map2 (XOR) (cutvals (joinb u ws) ws') (cutvals (joinb v ws) ws')"
    by (simp only: joinb_xor cutvals_neq length_joinb)
qed

lemma rejoin_eq:
  assumes "list_all2 fits_width b ws"
  shows "split_basis (flatten_basis b ws 0) (map (\<lambda>w. 2 ^ w) ws') = rejoin ws ws' b"
  using assms by (simp add: flatten_basis_eq lin_index_joinb split_basis_bval rejoin_def)

lemma lin_index_rejoin:
  assumes "list_all2 fits_width b ws" and "sum_list ws = sum_list ws'"
  shows "lin_index (rejoin ws ws' b) ws' = lin_index b ws" "list_all2 fits_width (rejoin ws ws' b) ws'"
proof -
  have l: "length (joinb b ws) = sum_list ws'" using length_joinb_valid [OF assms(1)] assms(2) by simp
  show f: "list_all2 fits_width (rejoin ws ws' b) ws'" unfolding rejoin_def using l by (intro cutvals_fit) simp
  show "lin_index (rejoin ws ws' b) ws' = lin_index b ws"
    using l by (simp add: lin_index_joinb [OF f] lin_index_joinb [OF assms(1)]) (simp add: rejoin_def joinb_cutvals)
qed

lemma rejoin_inverse:
  assumes "list_all2 fits_width vs ws'" and "sum_list ws = sum_list ws'"
  shows "rejoin ws ws' (rejoin ws' ws vs) = vs"
proof -
  have "joinb (rejoin ws' ws vs) ws = joinb vs ws'"
    unfolding rejoin_def using assms length_joinb_valid [OF assms(1)] by (simp add: joinb_cutvals)
  then have "joinb (rejoin ws ws' (rejoin ws' ws vs)) ws' = joinb vs ws'"
    using length_joinb_valid [OF assms(1)] by (simp add: rejoin_def joinb_cutvals)
  moreover have "list_all2 fits_width (rejoin ws ws' (rejoin ws' ws vs)) ws'"
    using lin_index_rejoin(2) [OF lin_index_rejoin(2) [OF assms(1)]] assms(2) by simp
  ultimately show ?thesis using joinb_inj assms(1) by blast
qed


lemma size_product_pow:
  assumes "list_all (\<lambda>(_, s). small_pow s) dims"
  shows "size_product dims = 2 ^ sum_list (size_widths dims)"
proof -
  have "fold (\<lambda>(_, s) acc. acc * s) dims a = a * 2 ^ sum_list (size_widths dims)" for a
    using assms
  proof (induction dims arbitrary: a)
    case (Cons d dims)
    then show ?case using small_powE [of "snd d"]
      by (simp add: size_widths_def case_prod_unfold power_add)
  qed (simp add: size_widths_def)
  then show ?thesis by (simp add: size_product_def)
qed

lemma small_pow_sizes:
  "list_all (\<lambda>(_, s). small_pow s) dims \<Longrightarrow> map snd dims = map (\<lambda>w. 2 ^ w) (size_widths dims)"
  using small_powE by (auto simp: size_widths_def list_all_iff)

definition reshape_dims :: "(dim \<times> int) list \<Rightarrow> nat \<Rightarrow> bool" where
  "reshape_dims dims n \<longleftrightarrow> distinct (map fst dims) \<and> list_all (\<lambda>(_, s). small_pow s) dims \<and> sum_list (size_widths dims) = n"

lemma reshape_checks:
  assumes "reshape_dims dims n"
  shows "list_all (\<lambda>(_, s). is_pow2_32 s) dims" "2 ^ n = size_product dims"
  using assms size_product_pow by (auto simp: reshape_dims_def list_all_iff small_pow_def)

lemma reshapeOuts_total:
  assumes w: "wf l" and outs: "reshape_dims outs (getTotalOutDimSizeLog2 l)"
  shows "\<exists>t. reshapeOuts l outs = Some t \<and> wf t \<and> getInDimNames t = getInDimNames l \<and> in_widths t = in_widths l \<and>
    outDims t = outs \<and>
    (\<forall>ins. valid_ins l ins \<longrightarrow> (\<exists>os ts. apply_layout l ins = Some os \<and> apply_layout t ins = Some ts \<and>
       lin_index (map snd ts) (out_widths t) = lin_index (map snd os) (out_widths l)))"
proof -
  let ?ws = "out_widths l" and ?ws' = "size_widths outs"
  have p: "list_all (\<lambda>(_, s). small_pow s) outs" and sum: "sum_list ?ws = sum_list ?ws'" "distinct (map fst outs)"
    using outs by (simp_all add: reshape_dims_def)
  have "vlinear (length (outDims l)) (length outs) (rejoin ?ws ?ws')" using vlinear_rejoin [of ?ws ?ws'] by simp
  then have m: "maps_outs l (rejoin ?ws ?ws') outs"
    using p sum wf_dims [OF w] lin_index_rejoin(2) [OF _ sum(1)] by (simp add: maps_outs_def) (simp add: rejoin_def)
  have surj: "\<exists>us. list_all2 fits_width us ?ws \<and> rejoin ?ws ?ws' us = vs" if "list_all2 fits_width vs ?ws'" for vs
    using rejoin_inverse [OF that sum(1)] lin_index_rejoin(2) [OF that sum(1) [symmetric]] by blast
  obtain t where t: "mkLayout (map_bases (rejoin ?ws ?ws') (bases l)) outs (isSurjective l) = Some t" "wf t"
    "getInDimNames t = getInDimNames l" "in_widths t = in_widths l" "outDims t = outs"
    "\<And>ins. valid_ins l ins \<Longrightarrow> apply_layout t ins = Some (zip (map fst outs) (rejoin ?ws ?ws' (map snd (the (apply_layout l ins)))))"
    using map_outs_total [OF w m surj] by blast
  have "map_bases (rejoin ?ws ?ws') (bases l) =
      map_bases (\<lambda>b. split_basis (flatten_basis b (map (\<lambda>(_, s). log2_32 s) (outDims l)) 0) (map snd outs)) (bases l)"
  proof -
    have "split_basis (flatten_basis b ?ws 0) (map snd outs) = rejoin ?ws ?ws' b" if "b \<in> set (columns l)" for b
    proof -
      have "good_column (outDims l) b" using that wf_layout_data [OF w] by (simp add: layout_data_def list_all_iff)
      then have "list_all2 fits_width b ?ws"
        using w by (simp add: out_widths_sizes good_column_fits wf_def)
      then show ?thesis using rejoin_eq small_pow_sizes [OF p] by simp
    qed
    then show ?thesis by (force simp: map_bases_def in_columns out_widths_def)
  qed
  then have "reshapeOuts l outs = Some t"
    using t(1) reshape_checks [OF outs] by (simp add: reshapeOuts_def getTotalOutDimSize_def)
  moreover have "\<exists>os ts. apply_layout l ins = Some os \<and> apply_layout t ins = Some ts \<and>
       lin_index (map snd ts) (out_widths t) = lin_index (map snd os) ?ws" if i: "valid_ins l ins" for ins
  proof -
    obtain os where os: "apply_layout l ins = Some os" "valid_outs l os" using apply_layout_outs [OF w i] by blast
    then have f: "list_all2 fits_width (map snd os) ?ws" by (simp add: valid_outs_def)
    have "out_widths t = ?ws'" using t(5) by (simp add: out_widths_sizes)
    moreover have "length (rejoin ?ws ?ws' (map snd os)) = length outs" by (simp add: rejoin_def)
    ultimately show ?thesis using t(6) [OF i] os(1) lin_index_rejoin(1) [OF f sum(1)] by simp
  qed
  ultimately show ?thesis using t(2-5) by blast
qed

lemma length_pow2s: "i = 2 ^ j \<Longrightarrow> j \<le> w \<Longrightarrow> length (pow2s_below i (2 ^ w)) = w - j"
proof (induction i "2 ^ w :: int" arbitrary: j rule: pow2s_below.induct)
  case (1 i)
  show ?case
  proof (cases "j < w")
    case True
    then have "(2::int) ^ j < 2 ^ w" by (intro power_strict_increasing) auto
    moreover have "i * 2 = 2 ^ Suc j" using 1(2) by simp
    ultimately show ?thesis using 1(1) [of "Suc j"] 1(2) True by (subst pow2s_below.simps) simp
  next
    case False
    then show ?thesis using 1(2,3) by (subst pow2s_below.simps) simp
  qed
qed

lemma length_pow2s_size: "small_pow s \<Longrightarrow> length (pow2s_below 1 s) = log2_32 s"
  using length_pow2s [of 1 0 "log2_32 s"] small_powE [of s] by simp

lemma deal_bases_eq:
  assumes "distinct (map fst dims)" and "list_all (\<lambda>(_, s). small_pow s) dims"
    and "set (map fst dims) \<inter> fst ` set acc = {}" and "sum_list (size_widths dims) \<le> length flat"
  shows "map fst (deal_bases dims flat acc) = map fst acc @ map fst dims \<and>
    map (\<lambda>(_, bs). length bs) (deal_bases dims flat acc) = map (\<lambda>(_, bs). length bs) acc @ size_widths dims \<and>
    concat (map snd (deal_bases dims flat acc)) = concat (map snd acc) @ take (sum_list (size_widths dims)) flat"
  using assms
proof (induction dims flat acc rule: deal_bases.induct)
  case (2 d s dims flat acc)
  have n: "length (pow2s_below 1 s) = log2_32 s" using 2(3) by (intro length_pow2s_size) simp
  have "map_of acc d = None" using 2(4) by (simp add: map_of_eq_None_iff)
  moreover have "AList.update d v acc = acc @ [(d, v)]" for v using 2(4) by (intro update_absent) auto
  moreover have "log2_32 s \<le> length flat" using 2(5) by (simp add: size_widths_def)
  ultimately show ?case using 2 n by (simp add: Let_def size_widths_def take_add add.commute)
qed (simp add: size_widths_def)

lemma bval_inj: "length as = length bs \<Longrightarrow> bval as = bval bs \<Longrightarrow> as = bs"
  by (rule nth_equalityI) (use bit_bval [of as] bit_bval [of bs] in auto)

lemma in_widths_bases: "in_widths l = map (\<lambda>(_, bs). length bs) (bases l)"
  by (simp add: in_widths_def)

lemma reshapeIns_total:
  assumes w: "wf l" and dims: "reshape_dims dims (getTotalInDimSizeLog2 l)"
  shows "\<exists>t. reshapeIns l dims = Some t \<and> wf t \<and> getInDimNames t = map fst dims \<and> in_widths t = size_widths dims \<and>
    outDims t = outDims l \<and>
    (\<forall>a b. valid_ins l a \<longrightarrow> valid_ins t b \<longrightarrow>
       lin_index (map snd a) (in_widths l) = lin_index (map snd b) (in_widths t) \<longrightarrow> apply_layout t b = apply_layout l a)"
proof -
  let ?bs = "deal_bases dims (columns l) []"
  let ?t0 = "\<lparr>bases = ?bs, outDims = outDims l, rank = 0\<rparr>"
  have d: "map fst ?bs = map fst dims" "map (\<lambda>(_, bs). length bs) ?bs = size_widths dims" "concat (map snd ?bs) = columns l"
    using deal_bases_eq [of dims "[]" "columns l"] dims by (auto simp: reshape_dims_def)
  have c: "columns ?t0 = columns l" "in_widths ?t0 = size_widths dims"
    using d by (simp_all add: columns_def [of ?t0] in_widths_bases)
  have n: "getTotalInDimSizeLog2 ?t0 = getTotalInDimSizeLog2 l"
    using dims by (simp add: c flip: sum_in_widths) (simp add: reshape_dims_def)
  have o: "out_vals ?t0 cs = out_vals l cs" "out_widths ?t0 = out_widths l" for cs
    using c by (simp_all add: out_vals_def out_widths_def)
  have data: "layout_data ?t0"
    using wf_layout_data [OF w] d dims n c
    by (simp add: layout_data_def getInDimNames_def getOutDimNames_def reshape_dims_def getTotalOutDimSizeLog2_def)
  have surj: "surj_vals ?t0" if "isSurjective l"
    using that isSurjective_vals [OF w] n o by (simp add: surj_vals_def)
  obtain t where t: "mkLayout ?bs (outDims l) (isSurjective l) = Some t" "wf t" "bases t = ?bs" "outDims t = outDims l"
    using mkLayout_total [OF data surj] by blast
  have tw: "in_widths t = size_widths dims" "out_vals t cs = out_vals l cs" for cs
    using t c o by (auto simp: in_widths_bases columns_def out_vals_def)
  have "apply_layout t b = apply_layout l a"
    if v: "valid_ins l a" "valid_ins t b" and e: "lin_index (map snd a) (in_widths l) = lin_index (map snd b) (in_widths t)" for a b
  proof -
    have f: "list_all2 fits_width (map snd a) (in_widths l)" "list_all2 fits_width (map snd b) (in_widths t)"
      using v by (simp_all add: valid_ins_def)
    have "bval (joinb (map snd a) (in_widths l)) = bval (joinb (map snd b) (in_widths t))"
      using e lin_index_joinb f by simp
    moreover have "length (joinb (map snd a) (in_widths l)) = length (joinb (map snd b) (in_widths t))"
      using f length_joinb_valid dims tw(1) by (simp add: reshape_dims_def)
    ultimately have "joinb (map snd a) (in_widths l) = joinb (map snd b) (in_widths t)"
      by (intro bval_inj)
    then have "coefs l a = coefs t b"
      using v wf_names [OF w] wf_names [OF t(2)] by (simp add: coefs_joinb valid_ins_def)
    then show ?thesis
      using apply_layout_eq [OF w v(1)] apply_layout_eq [OF t(2) v(2)] tw(2) t(4) by (simp add: getOutDimNames_def)
  qed
  moreover have "reshapeIns l dims = Some t"
    using t(1) reshape_checks [OF dims] by (simp add: reshapeIns_def getTotalInDimSize_def)
  moreover have "getInDimNames t = map fst dims" using t(3) d(1) by (simp add: getInDimNames_def)
  ultimately show ?thesis using t(2,4) tw(1) by blast
qed

section \<open>transposeIns\<close>

lemma transposed_bases:
  assumes "wf l" and "dimsEqual dims (getInDimNames l)" and "distinct dims"
  shows "mset (map (\<lambda>d. (d, the (map_of (bases l) d))) dims) = mset (bases l)"
proof -
  have d: "distinct (map fst (bases l))" using wf_names [OF assms(1)] by (simp add: getInDimNames_def)
  have "mset dims = mset (map fst (bases l))"
    using assms(2) set_eq_iff_mset_eq_distinct [OF assms(3) d] by (simp add: dimsEqual_def getInDimNames_def)
  then have "mset (map (\<lambda>d. (d, the (map_of (bases l) d))) dims) = mset (map (\<lambda>d. (d, the (map_of (bases l) d))) (map fst (bases l)))"
    by (metis mset_map)
  also have "map (\<lambda>d. (d, the (map_of (bases l) d))) (map fst (bases l)) = bases l"
    using d by (simp add: comp_def) (rule map_idI, auto simp: map_of_eq_Some_iff)
  finally show ?thesis .
qed

lemma transposed_apply:
  assumes "bases t = map (\<lambda>d. (d, the (map_of (bases l) d))) dims"
    and "dimsEqual dims (getInDimNames l)" and "dimsEqual (map fst ins) (getInDimNames l)"
  shows "apply_out t ins k = apply_out l ins k"
proof -
  have "map_of (bases t) d = map_of (bases l) d" if "d \<in> fst ` set ins" for d
  proof -
    have "d \<in> set dims" "d \<in> fst ` set (bases l)" using that assms(2,3)
      by (auto simp: dimsEqual_def getInDimNames_def)
    then show ?thesis unfolding assms(1)
      by (auto simp: map_of_map_restrict dest!: weak_map_of_SomeI)
  qed
  then have "map_of (bases t) (fst p) = map_of (bases l) (fst p)" if "p \<in> set ins" for p using that by blast
  then show ?thesis unfolding apply_out_def by (intro fold_cong) (simp_all add: case_prod_unfold)
qed

lemma transposed_surj:
  assumes w: "wf l" and dims: "dimsEqual dims (getInDimNames l)" "distinct dims" and s: "surj_vals l"
    and t: "bases t = map (\<lambda>d. (d, the (map_of (bases l) d))) dims" "outDims t = outDims l"
  shows "surj_vals t"
  unfolding surj_vals_def
proof (intro allI impI)
  have names: "getInDimNames t = dims" using t(1) by (simp add: getInDimNames_def comp_def)
  fix vs assume "list_all2 fits_width vs (out_widths t)"
  then obtain cs where cs: "length cs = getTotalInDimSizeLog2 l" "out_vals l cs = vs"
    using s t(2) by (auto simp: surj_vals_def out_widths_def)
  obtain ins where ins: "valid_ins l ins" "coefs l ins = cs" using valid_coefs_surj [OF w cs(1)] by blast
  then have i: "distinct (map fst ins)" "dimsEqual (map fst ins) (getInDimNames l)" "dimsEqual (map fst ins) (getInDimNames t)"
    using wf_names [OF w] dims(1) names by (auto simp: valid_ins_def dimsEqual_def)
  have "out_vals t (coefs t ins) = vs"
    using apply_out_eq [OF i(1) _ i(3)] apply_out_eq [OF i(1) _ i(2)] transposed_apply [OF t(1) dims(1) i(2)]
      wf_names [OF w] names dims(2) ins(2) cs(2) t(2)
    by (simp add: out_vals_def)
  then show "\<exists>cs. length cs = getTotalInDimSizeLog2 t \<and> out_vals t cs = vs" by (metis length_coefs)
qed

lemma transposeIns_total:
  assumes w: "wf l" and dims: "dimsEqual dims (getInDimNames l)" "distinct dims"
  shows "\<exists>t. transposeIns l dims = Some t \<and> wf t \<and> getInDimNames t = dims \<and> outDims t = outDims l \<and>
    (\<forall>ins. apply_layout t ins = apply_layout l ins)"
proof -
  let ?bs = "map (\<lambda>d. (d, the (map_of (bases l) d))) dims"
  let ?t0 = "\<lparr>bases = ?bs, outDims = outDims l, rank = 0\<rparr>"
  have mv: "mapvec ?bs = ?bs" using dims(2) by (intro mapvec_distinct) (simp add: comp_def)
  have ms: "mset ?bs = mset (bases l)" by (rule transposed_bases [OF w dims])
  have names: "getInDimNames ?t0 = dims" by (simp add: getInDimNames_def comp_def)
  have col: "set (columns ?t0) = set (columns l)" unfolding columns_def linear_layout.select_convs set_concat set_map [of snd] mset_eq_setD [OF ms] ..
  have "mset (map (\<lambda>(_, bs). length bs) ?bs) = mset (map (\<lambda>(_, bs). length bs) (bases l))"
    unfolding mset_map [of "\<lambda>(_, bs). length bs"] ms ..
  then have n: "getTotalInDimSizeLog2 ?t0 = getTotalInDimSizeLog2 l"
    by (simp only: getTotalInDimSizeLog2_def linear_layout.select_convs sum_mset_sum_list [symmetric])
  have data: "layout_data ?t0"
    using wf_layout_data [OF w] dims(2) names n col
    by (simp add: layout_data_def list_all_iff getTotalOutDimSizeLog2_def getOutDimNames_def)
  have surj: "surj_vals ?t0" if "isSurjective l"
    using transposed_surj [OF w dims] that isSurjective_vals [OF w] by simp
  obtain t where t: "mkLayout ?bs (outDims l) (isSurjective l) = Some t" "wf t" "bases t = ?bs" "outDims t = outDims l"
    using mkLayout_total [OF data surj] by blast
  have "apply_layout t ins = apply_layout l ins" for ins
  proof -
    have "dimsEqual (map fst ins) (getInDimNames t) = dimsEqual (map fst ins) (getInDimNames l)"
      using t(3) dims(1) by (simp add: dimsEqual_def getInDimNames_def comp_def)
    then show ?thesis using transposed_apply [OF t(3) dims(1)] t(4) by (auto simp: apply_layout_def)
  qed
  then show ?thesis using t mv dims(1) by (auto simp: transposeIns_def getInDimNames_def comp_def)
qed

end
