(* ===== verification/Supremum.thy ===== *)
theory Supremum
  imports LayoutLemmas "HOL-Library.Sublist"
begin

text \<open>
  \<open>supremum\<close> of \<open>lib/Tools/LayoutUtils.cpp\<close>, which merges the dimension names of two layouts: a name
  list is a list, \<open>posX\<close> and \<open>posY\<close> give the last position of a name, the \<open>SetVector\<close> of results is a
  list and \<open>INF\<close> the value None of a candidate. None as a result is \<open>llvm_unreachable\<close>.
\<close>

definition pos_in :: "'a list \<Rightarrow> 'a \<Rightarrow> nat option" where
  "pos_in xs e = map_option (\<lambda>i. length xs - 1 - i) (index_of e (rev xs))"

definition skip_known :: "'a list \<Rightarrow> 'a list \<Rightarrow> nat \<Rightarrow> nat" where
  "skip_known result xs i = i + length (takeWhile (\<lambda>e. e \<in> set result) (drop i xs))"

definition cand :: "'a list \<Rightarrow> nat \<Rightarrow> 'a list \<Rightarrow> nat \<Rightarrow> nat option" where
  "cand xs i ys j = (if i < length xs
     then case pos_in ys (xs ! i) of Some p \<Rightarrow> if j \<le> p then Some p else None | None \<Rightarrow> None
     else None)"

definition cand_le :: "nat option \<Rightarrow> nat option \<Rightarrow> bool" where
  "cand_le p q = (case (p, q) of (_, None) \<Rightarrow> True | (None, Some _) \<Rightarrow> False | (Some a, Some b) \<Rightarrow> a \<le> b)"

definition add_name :: "'a \<Rightarrow> 'a list \<Rightarrow> 'a list" where
  "add_name e result = (if e \<in> set result then result else result @ [e])"

definition before :: "'a list \<Rightarrow> 'a \<Rightarrow> nat \<Rightarrow> bool" where
  "before ys e j = (case pos_in ys e of Some p \<Rightarrow> p < j | None \<Rightarrow> 0 < j)"

lemma skip_known_ge: "i \<le> skip_known r xs i"
  by (simp add: skip_known_def)

function sup_loop :: "'a list \<Rightarrow> 'a list \<Rightarrow> nat \<Rightarrow> nat \<Rightarrow> 'a list \<Rightarrow> 'a list option" where
  "sup_loop x y i0 j0 result =
     (let i = skip_known result x i0; j = skip_known result y j0
      in if length x \<le> i \<and> length y \<le> j then Some result
         else if i < length x \<and> j < length y \<and> x ! i = y ! j then
           if before y (x ! i) j then None else sup_loop x y (Suc i) (Suc j) (add_name (x ! i) result)
         else if i < length x \<and> cand x i y j = None then sup_loop x y (Suc i) j (add_name (x ! i) result)
         else if j < length y \<and> cand y j x i = None then sup_loop x y i (Suc j) (add_name (y ! j) result)
         else if cand_le (cand x i y j) (cand y j x i) then
           if i < length x \<and> \<not> before y (x ! i) j then sup_loop x y (Suc i) j (add_name (x ! i) result) else None
         else
           if j < length y \<and> \<not> before x (y ! j) i then sup_loop x y i (Suc j) (add_name (y ! j) result) else None)"
  by pat_completeness auto
termination
proof (relation "measure (\<lambda>(x, y, i, j, r). (length x - i) + (length y - j))", goal_cases)
  case (2 x y i0 j0 r i j)
  then show ?case using skip_known_ge [of i0 r x] skip_known_ge [of j0 r y] by auto
next
  case (3 x y i0 j0 r i j)
  then show ?case using skip_known_ge [of i0 r x] skip_known_ge [of j0 r y] by auto
next
  case (4 x y i0 j0 r i j)
  then show ?case using skip_known_ge [of i0 r x] skip_known_ge [of j0 r y] by auto
next
  case (5 x y i0 j0 r i j)
  then show ?case using skip_known_ge [of i0 r x] skip_known_ge [of j0 r y] by auto
next
  case (6 x y i0 j0 r i j)
  then show ?case using skip_known_ge [of i0 r x] skip_known_ge [of j0 r y] by auto
qed simp

declare sup_loop.simps [simp del]

definition supremum :: "'a list \<Rightarrow> 'a list \<Rightarrow> 'a list option" where
  "supremum x y = sup_loop x y 0 0 []"

section \<open>Correctness\<close>

lemma pos_in_Some: "pos_in ys e = Some p \<Longrightarrow> p < length ys \<and> ys ! p = e"
proof -
  assume "pos_in ys e = Some p"
  then obtain i where i: "index_of e (rev ys) = Some i" "p = length ys - 1 - i" by (auto simp: pos_in_def)
  then have "i < length ys" "rev ys ! i = e" using index_of_Some [OF i(1)] by auto
  then show ?thesis using i(2) by (simp add: rev_nth)
qed

lemma pos_in_None: "pos_in ys e = None \<longleftrightarrow> e \<notin> set ys"
  by (simp add: pos_in_def index_of_None)

lemma pos_in_nth: "distinct ys \<Longrightarrow> p < length ys \<Longrightarrow> pos_in ys (ys ! p) = Some p"
  using pos_in_None [of ys "ys ! p"] pos_in_Some [of ys "ys ! p"] nth_eq_iff_index_eq
  by (metis nth_mem option.exhaust)

lemma not_before_nth: "distinct ys \<Longrightarrow> j < length ys \<Longrightarrow> \<not> before ys (ys ! j) j"
  by (simp add: before_def pos_in_nth)

lemma cand_None:
  assumes "i < length x" and "distinct y"
  shows "cand x i y j = None \<longleftrightarrow> x ! i \<notin> set (drop j y)"
proof
  assume c: "cand x i y j = None"
  show "x ! i \<notin> set (drop j y)"
  proof
    assume "x ! i \<in> set (drop j y)"
    then obtain k where "k < length y - j" "y ! (j + k) = x ! i" by (auto simp: in_set_conv_nth)
    then have "pos_in y (x ! i) = Some (j + k)" using pos_in_nth [OF assms(2), of "j + k"] by simp
    then show False using c assms(1) by (simp add: cand_def)
  qed
next
  assume n: "x ! i \<notin> set (drop j y)"
  show "cand x i y j = None"
  proof (rule ccontr)
    assume "cand x i y j \<noteq> None"
    then obtain p where "pos_in y (x ! i) = Some p" "j \<le> p" using assms(1)
      by (auto simp: cand_def split: option.splits if_splits)
    then have "y ! p = x ! i" "p < length y" "j \<le> p" using pos_in_Some by fast+
    then have "drop j y ! (p - j) = x ! i" "p - j < length (drop j y)" by auto
    then show False using n nth_mem by metis
  qed
qed

lemma cand_Some: "cand x i y j = Some p \<Longrightarrow> pos_in y (x ! i) = Some p \<and> j \<le> p \<and> i < length x"
  by (auto simp: cand_def split: option.splits if_splits)

lemma cand_lt: "cand x i y j \<noteq> None \<Longrightarrow> i < length x \<and> j < length y"
  using cand_Some pos_in_Some by (metis le_less_trans option.exhaust)

lemma skip_known_taken:
  "set (take (skip_known r xs i) xs) \<subseteq> set (take i xs) \<union> set r"
proof -
  have "take (skip_known r xs i) xs = take i xs @ takeWhile (\<lambda>e. e \<in> set r) (drop i xs)"
    unfolding skip_known_def take_add by (metis takeWhile_eq_take)
  then show ?thesis by (auto dest: set_takeWhileD)
qed

lemma skip_known_new: "skip_known r xs i < length xs \<Longrightarrow> xs ! skip_known r xs i \<notin> set r"
proof -
  let ?t = "takeWhile (\<lambda>e. e \<in> set r) (drop i xs)"
  assume l: "skip_known r xs i < length xs"
  then have "length ?t < length (drop i xs)" by (simp add: skip_known_def)
  then have "drop i xs ! length ?t \<notin> set r" by (rule nth_length_takeWhile)
  then show ?thesis using l by (simp add: skip_known_def)
qed

text \<open>
  The loop keeps any predicate that its five branches keep: a step takes the next unknown name of
  \<open>x\<close> when it is not among those left in \<open>y\<close>, the next of \<open>y\<close> likewise, both when they agree, and
  one of them when each is still to come in the other list.
\<close>

definition crossing :: "'a list \<Rightarrow> 'a list \<Rightarrow> nat \<Rightarrow> nat \<Rightarrow> bool" where
  "crossing x y i j \<longleftrightarrow> i < length x \<and> j < length y \<and> x ! i \<in> set y \<and> y ! j \<in> set x \<and> x ! i \<noteq> y ! j"

lemma sup_loop_rule:
  assumes "distinct x" and "distinct y"
    and skip: "\<And>i j r. Inv i j r \<Longrightarrow> Inv (skip_known r x i) (skip_known r y j) r"
    and xy: "\<And>i j r. Inv i j r \<Longrightarrow> i < length x \<Longrightarrow> j < length y \<Longrightarrow> x ! i = y ! j \<Longrightarrow> x ! i \<notin> set r \<Longrightarrow>
        Inv (Suc i) (Suc j) (add_name (x ! i) r)"
    and sx: "\<And>i j r. Inv i j r \<Longrightarrow> i < length x \<Longrightarrow> x ! i \<notin> set r \<Longrightarrow> x ! i \<notin> set (drop j y) \<or> crossing x y i j \<Longrightarrow>
        Inv (Suc i) j (add_name (x ! i) r)"
    and sy: "\<And>i j r. Inv i j r \<Longrightarrow> j < length y \<Longrightarrow> y ! j \<notin> set r \<Longrightarrow> y ! j \<notin> set (drop i x) \<or> crossing x y i j \<Longrightarrow>
        Inv i (Suc j) (add_name (y ! j) r)"
  shows "Inv i0 j0 r0 \<Longrightarrow>
    \<exists>s i j. sup_loop x y i0 j0 r0 = Some s \<and> Inv i j s \<and> length x \<le> i \<and> length y \<le> j"
proof (induction "(length x - i0) + (length y - j0)" arbitrary: i0 j0 r0 rule: less_induct)
  case (less i0 j0 r)
  define i where "i = skip_known r x i0"
  define j where "j = skip_known r y j0"
  have inv: "Inv i j r" unfolding i_def j_def by (rule skip [OF less(2)])
  have ge: "i0 \<le> i" "j0 \<le> j" unfolding i_def j_def by (rule skip_known_ge)+
  have ni: "i < length x \<Longrightarrow> x ! i \<notin> set r" unfolding i_def by (rule skip_known_new)
  have nj: "j < length y \<Longrightarrow> y ! j \<notin> set r" unfolding j_def by (rule skip_known_new)
  note simps = sup_loop.simps [of x y i0 j0 r] i_def [symmetric] j_def [symmetric] Let_def
  have X: ?case if "sup_loop x y i0 j0 r = sup_loop x y (Suc i) j (add_name (x ! i) r)" "i < length x"
      "x ! i \<notin> set (drop j y) \<or> crossing x y i j"
    using less(1) [OF _ sx [OF inv that(2) ni [OF that(2)] that(3)]] that(1,2) ge by simp
  have Y: ?case if "sup_loop x y i0 j0 r = sup_loop x y i (Suc j) (add_name (y ! j) r)" "j < length y"
      "y ! j \<notin> set (drop i x) \<or> crossing x y i j"
    using less(1) [OF _ sy [OF inv that(2) nj [OF that(2)] that(3)]] that(1,2) ge by simp
  consider (fin) "length x \<le> i \<and> length y \<le> j"
    | (both) "i < length x \<and> j < length y \<and> x ! i = y ! j"
    | (only_x) "\<not> (i < length x \<and> j < length y \<and> x ! i = y ! j)" "i < length x \<and> cand x i y j = None"
    | (only_y) "\<not> (i < length x \<and> j < length y \<and> x ! i = y ! j)"
        "\<not> (i < length x \<and> cand x i y j = None)" "j < length y \<and> cand y j x i = None"
    | (cross) "\<not> (length x \<le> i \<and> length y \<le> j)" "\<not> (i < length x \<and> j < length y \<and> x ! i = y ! j)"
        "\<not> (i < length x \<and> cand x i y j = None)" "\<not> (j < length y \<and> cand y j x i = None)"
    by blast
  then show ?case
  proof cases
    case fin
    then show ?thesis using inv by (simp add: simps) blast
  next
    case both
    then have "\<not> before y (x ! i) j" using not_before_nth [OF assms(2), of j] by simp
    then have "sup_loop x y i0 j0 r = sup_loop x y (Suc i) (Suc j) (add_name (x ! i) r)" using both by (auto simp: simps)
    then show ?thesis using less(1) [OF _ xy [OF inv]] both ni ge by auto
  next
    case only_x
    then show ?thesis using cand_None [OF _ assms(2)] by (intro X) (auto simp: simps)
  next
    case only_y
    then show ?thesis using cand_None [OF _ assms(1)] by (intro Y) (auto simp: simps)
  next
    case cross
    then have l: "i < length x" "j < length y" using cand_lt [of x i y j] cand_lt [of y j x i] by (meson not_le)+
    obtain p q where pq: "cand x i y j = Some p" "cand y j x i = Some q" using cross l by auto
    have nb: "\<not> before y (x ! i) j" "\<not> before x (y ! j) i"
      using cand_Some [OF pq(1)] cand_Some [OF pq(2)] by (auto simp: before_def)
    have "x ! i \<in> set y" "y ! j \<in> set x"
      using cand_Some [OF pq(1)] cand_Some [OF pq(2)] pos_in_Some by (metis nth_mem)+
    then have c: "crossing x y i j" using l cross by (simp add: crossing_def)
    show ?thesis
    proof (cases "cand_le (cand x i y j) (cand y j x i)")
      case True
      then show ?thesis using c nb l cross by (intro X) (auto simp: simps)
    next
      case False
      then show ?thesis using c nb l cross by (intro Y) (auto simp: simps)
    qed
  qed
qed

definition sup_inv :: "'a list \<Rightarrow> 'a list \<Rightarrow> nat \<Rightarrow> nat \<Rightarrow> 'a list \<Rightarrow> bool" where
  "sup_inv x y i j r \<longleftrightarrow> distinct r \<and> set r = set (take i x) \<union> set (take j y)"

lemma sup_inv_skip:
  assumes "sup_inv x y i0 j0 r"
  shows "sup_inv x y (skip_known r x i0) (skip_known r y j0) r"
proof -
  have "set (take i0 x) \<subseteq> set (take (skip_known r x i0) x)" "set (take j0 y) \<subseteq> set (take (skip_known r y j0) y)"
    by (simp_all only: set_take_subset_set_take skip_known_ge)
  then show ?thesis using assms skip_known_taken [of r x i0] skip_known_taken [of r y j0] by (auto simp: sup_inv_def)
qed

lemma sup_inv_x:
  "sup_inv x y i j r \<Longrightarrow> i < length x \<Longrightarrow> x ! i \<notin> set r \<Longrightarrow> sup_inv x y (Suc i) j (add_name (x ! i) r)"
  by (auto simp: sup_inv_def add_name_def take_Suc_conv_app_nth)

lemma sup_inv_y:
  "sup_inv x y i j r \<Longrightarrow> j < length y \<Longrightarrow> y ! j \<notin> set r \<Longrightarrow> sup_inv x y i (Suc j) (add_name (y ! j) r)"
  by (auto simp: sup_inv_def add_name_def take_Suc_conv_app_nth)

lemma sup_inv_xy:
  "sup_inv x y i j r \<Longrightarrow> i < length x \<Longrightarrow> j < length y \<Longrightarrow> x ! i = y ! j \<Longrightarrow> x ! i \<notin> set r \<Longrightarrow>
     sup_inv x y (Suc i) (Suc j) (add_name (x ! i) r)"
  by (auto simp: sup_inv_def add_name_def take_Suc_conv_app_nth)

lemma supremum_total:
  assumes "distinct x" and "distinct y"
  shows "\<exists>s. supremum x y = Some s \<and> distinct s \<and> set s = set x \<union> set y"
proof -
  have "sup_inv x y 0 0 []" by (simp add: sup_inv_def)
  then have "\<exists>s i j. sup_loop x y 0 0 [] = Some s \<and> sup_inv x y i j s \<and> length x \<le> i \<and> length y \<le> j"
    by (rule sup_loop_rule [OF assms, rotated -1])
      (blast intro: sup_inv_skip sup_inv_x sup_inv_y sup_inv_xy)+
  then show ?thesis by (auto simp: supremum_def sup_inv_def)
qed

text \<open>The lists order their common names alike.\<close>

definition compatible :: "'a list \<Rightarrow> 'a list \<Rightarrow> bool" where
  "compatible x y \<longleftrightarrow> filter (\<lambda>e. e \<in> set y) x = filter (\<lambda>e. e \<in> set x) y"

definition ord_inv :: "'a list \<Rightarrow> 'a list \<Rightarrow> nat \<Rightarrow> nat \<Rightarrow> 'a list \<Rightarrow> bool" where
  "ord_inv x y i j r \<longleftrightarrow> filter (\<lambda>e. e \<in> set x) r = take i x \<and> filter (\<lambda>e. e \<in> set y) r = take j y"

lemma ord_skip_x:
  assumes "ord_inv x y i j r" and "distinct x"
  shows "skip_known r x i = i"
proof -
  have "e \<notin> set r" if "e \<in> set (drop i x)" for e
  proof
    assume "e \<in> set r"
    then have "e \<in> set (filter (\<lambda>e. e \<in> set x) r)" using in_set_dropD [OF that] by simp
    then have "e \<in> set (take i x)" using assms(1) unfolding ord_inv_def by metis
    then show False using that assms(2) by (metis append_take_drop_id disjoint_iff distinct_append)
  qed
  then show ?thesis by (cases "drop i x") (auto simp: skip_known_def)
qed

lemma ord_swap: "ord_inv x y i j r \<Longrightarrow> ord_inv y x j i r"
  by (simp add: ord_inv_def)

lemma ord_step_x:
  assumes "ord_inv x y i j r" and "i < length x" and "x ! i \<notin> set y" and "x ! i \<notin> set r"
  shows "ord_inv x y (Suc i) j (add_name (x ! i) r)"
  using assms by (simp add: ord_inv_def add_name_def take_Suc_conv_app_nth)

lemma ord_step_xy:
  assumes "ord_inv x y i j r" and "i < length x" and "j < length y" and "x ! i = y ! j" and "x ! i \<notin> set r"
  shows "ord_inv x y (Suc i) (Suc j) (add_name (x ! i) r)"
proof -
  have "y ! j \<in> set x" using assms(2,4) by (metis nth_mem)
  then show ?thesis using assms by (simp add: ord_inv_def add_name_def take_Suc_conv_app_nth)
qed

lemma ord_not_cross:
  assumes inv: "ord_inv x y i j r" and c: "compatible x y"
    and l: "i < length x" "j < length y" and m: "x ! i \<in> set y" "y ! j \<in> set x"
  shows "x ! i = y ! j"
proof -
  have "filter (\<lambda>e. e \<in> set y) (take i x) = filter (\<lambda>e. e \<in> set y) (filter (\<lambda>e. e \<in> set x) r)"
    "filter (\<lambda>e. e \<in> set x) (take j y) = filter (\<lambda>e. e \<in> set x) (filter (\<lambda>e. e \<in> set y) r)"
    using inv by (simp_all add: ord_inv_def)
  then have p: "filter (\<lambda>e. e \<in> set y) (take i x) = filter (\<lambda>e. e \<in> set x) (take j y)" by (simp add: conj_commute)
  have "x = take i x @ x ! i # drop (Suc i) x" "y = take j y @ y ! j # drop (Suc j) y"
    using l by (simp_all add: id_take_nth_drop)
  then have "filter (\<lambda>e. e \<in> set y) (take i x) @ x ! i # filter (\<lambda>e. e \<in> set y) (drop (Suc i) x) =
      filter (\<lambda>e. e \<in> set x) (take j y) @ y ! j # filter (\<lambda>e. e \<in> set x) (drop (Suc j) y)"
    using c m unfolding compatible_def by (metis (mono_tags, lifting) filter.simps(2) filter_append)
  then show ?thesis using p by simp
qed


lemma supremum_compatible:
  assumes "distinct x" and "distinct y" and c: "compatible x y"
  shows "\<exists>s. supremum x y = Some s \<and> filter (\<lambda>e. e \<in> set x) s = x \<and> filter (\<lambda>e. e \<in> set y) s = y"
proof -
  let ?I = "\<lambda>i j r. sup_inv x y i j r \<and> ord_inv x y i j r"
  have nc: "\<not> crossing x y i j" if "ord_inv x y i j r" for i j r
    using ord_not_cross [OF that c] by (auto simp: crossing_def)
  have new: "e \<notin> set ys" if "?I i j r" "e \<notin> set r" "e \<notin> set (drop k ys)" "ys = x \<and> k = i \<or> ys = y \<and> k = j" for e i j r k ys
  proof -
    have "set ys = set (take k ys) \<union> set (drop k ys)" by (metis append_take_drop_id set_append)
    moreover have "set (take k ys) \<subseteq> set r" using that(1,4) by (auto simp: sup_inv_def)
    ultimately show ?thesis using that(2,3) by blast
  qed
  have "?I 0 0 []" by (simp add: sup_inv_def ord_inv_def)
  then have "\<exists>s i j. sup_loop x y 0 0 [] = Some s \<and> ?I i j s \<and> length x \<le> i \<and> length y \<le> j"
  proof (rule sup_loop_rule [OF assms(1,2), rotated -1])
    fix i j r assume I: "?I i j r"
    have "skip_known r x i = i" "skip_known r y j = j"
      using ord_skip_x [OF _ assms(1)] ord_skip_x [OF ord_swap assms(2)] I by auto
    then show "?I (skip_known r x i) (skip_known r y j) r" using I by simp
    { assume "i < length x" "j < length y" "x ! i = y ! j" "x ! i \<notin> set r"
      then show "?I (Suc i) (Suc j) (add_name (x ! i) r)" using I sup_inv_xy ord_step_xy by blast }
    { assume "i < length x" "x ! i \<notin> set r" "x ! i \<notin> set (drop j y) \<or> crossing x y i j"
      then show "?I (Suc i) j (add_name (x ! i) r)"
        using I nc new [OF I, of "x ! i" j y] by (auto intro: sup_inv_x ord_step_x) }
    { assume "j < length y" "y ! j \<notin> set r" "y ! j \<notin> set (drop i x) \<or> crossing x y i j"
      then show "?I i (Suc j) (add_name (y ! j) r)"
        using I nc new [OF I, of "y ! j" i x] ord_swap [OF ord_step_x [OF ord_swap]] by (auto intro: sup_inv_y) }
  qed
  then show ?thesis by (auto simp: supremum_def ord_inv_def)
qed

lemma supremum_absorb:
  assumes "distinct x" and "distinct y" and "compatible x y" and "set x \<subseteq> set y"
  shows "supremum x y = Some y"
proof -
  obtain s where "supremum x y = Some s" "filter (\<lambda>e. e \<in> set y) s = y"
    using supremum_compatible [OF assms(1-3)] by blast
  moreover obtain s' where "supremum x y = Some s'" "set s' = set x \<union> set y" using supremum_total [OF assms(1,2)] by blast
  ultimately show ?thesis using assms(4) by (simp add: filter_id_conv sup_absorb2)
qed

end
