(* ===== verification/LayoutAlgebra.thy ===== *)
theory LayoutAlgebra
  imports LayoutLemmas Supremum
begin

text \<open>
  Composition, product and division of layouts: \<open>LinearLayout::compose\<close>, \<open>operator*\<close>,
  \<open>divideLeft\<close>, \<open>divideRight\<close> of \<open>lib/Tools/LinearLayout.cpp\<close> and \<open>supremum\<close> of
  \<open>lib/Tools/LayoutUtils.cpp\<close>.
\<close>

section \<open>Equality\<close>

definition equalIgnoringOutDimSizes :: "linear_layout \<Rightarrow> linear_layout \<Rightarrow> bool" where
  "equalIgnoringOutDimSizes a b = (getOutDimNames a = getOutDimNames b \<and> bases a = bases b)"

definition layout_eq :: "linear_layout \<Rightarrow> linear_layout \<Rightarrow> bool" where
  "layout_eq a b =
     (equalIgnoringOutDimSizes a b \<and> list_all (\<lambda>((_, s), (_, t)). s = t) (zip (outDims a) (outDims b)))"

section \<open>Composition\<close>

definition compose :: "linear_layout \<Rightarrow> linear_layout \<Rightarrow> linear_layout option" where
  "compose l outer =
     (if dimsEqual (getOutDimNames l) (getInDimNames outer) \<and>
         list_all (\<lambda>d. the (getOutDimSize l d) \<le> the (getInDimSize outer d)) (getOutDimNames l)
      then mkLayout
        (map (\<lambda>(d, bs). (d, map (\<lambda>b. map snd (the (apply_layout outer (zip (getOutDimNames l) b)))) bs)) (bases l))
        (outDims outer)
        (isSurjective l \<and> isSurjective outer \<and>
         list_all (\<lambda>d. the (getOutDimSize l d) = the (getInDimSize outer d)) (getOutDimNames l))
      else None)"

lemma columns_map: "columns \<lparr>bases = map (\<lambda>(d, bs). (d, map f bs)) bs, outDims = outs, rank = r\<rparr> = map f (concat (map snd bs))"
  by (induction bs) (auto simp: columns_def)

definition composed :: "linear_layout \<Rightarrow> linear_layout \<Rightarrow> linear_layout" where
  "composed l outer =
     \<lparr>bases = map (\<lambda>(d, bs). (d, map (run outer (getOutDimNames l)) bs)) (bases l), outDims = outDims outer, rank = 0\<rparr>"

lemma columns_composed: "columns (composed l outer) = map (run outer (getOutDimNames l)) (columns l)"
  unfolding composed_def columns_map by (simp add: columns_def)

lemma in_composed [simp]:
  "getInDimNames (composed l outer) = getInDimNames l"
  "in_widths (composed l outer) = in_widths l"
  "getOutDimNames (composed l outer) = getOutDimNames outer"
  "out_widths (composed l outer) = out_widths outer"
  "outDims (composed l outer) = outDims outer"
  by (auto simp: composed_def getInDimNames_def in_widths_def getOutDimNames_def out_widths_def)

lemma total_composed [simp]:
  "getTotalInDimSizeLog2 (composed l outer) = getTotalInDimSizeLog2 l"
  "getTotalOutDimSizeLog2 (composed l outer) = getTotalOutDimSizeLog2 outer"
  using sum_in_widths [of "composed l outer"] sum_out_widths [of "composed l outer"] by simp_all

lemma run_good:
  assumes "wf l" shows "good_column (outDims l) (run l ns v)"
  using out_vals_fit [OF assms] wf_out_pow [OF assms]
  by (auto simp: good_column_nth run_def list_all2_conv_all_nth out_widths_def fits_width_def case_prod_unfold)

lemma layout_data_composed:
  assumes "wf l" and "wf outer" shows "layout_data (composed l outer)"
  using wf_layout_data [OF assms(1)] wf_layout_data [OF assms(2)] run_good [OF assms(2)]
  by (auto simp: layout_data_def columns_composed list_all_iff)

lemma wide_composed: "wide (composed l outer)"
  by (auto simp: wide_def columns_composed list_all_iff)

lemma out_vals_composed:
  assumes "wf l" and "dimsEqual (getOutDimNames l) (getInDimNames outer)"
  shows "out_vals (composed l outer) cs = run outer (getOutDimNames l) (out_vals l cs)"
proof -
  have "length (getOutDimNames l) = length (outDims l)" by (simp add: getOutDimNames_def)
  then have "vlinear (length (outDims l)) (length (outDims outer)) (run outer (getOutDimNames l))"
    using run_linear [of outer "getOutDimNames l"] assms(2) by (simp add: dimsEqual_def)
  then show ?thesis
    using wf_wide [OF assms(1)] vlin_map
    by (simp add: out_vals_vlin [OF wide_composed] columns_composed out_vals_vlin [of l])
       (auto simp: wide_def list_all_iff)
qed

lemma compose_bases:
  assumes "wf l" and "wf outer" and "dimsEqual (getOutDimNames l) (getInDimNames outer)"
  shows "map (\<lambda>(d, bs). (d, map (\<lambda>b. map snd (the (apply_layout outer (zip (getOutDimNames l) b)))) bs)) (bases l)
    = bases (composed l outer)"
proof -
  have "map snd (the (apply_layout outer (zip (getOutDimNames l) b))) = run outer (getOutDimNames l) b"
    if "b \<in> set (columns l)" for b
  proof -
    have "length b = length (getOutDimNames l)"
      using that wf_wide [OF assms(1)] by (auto simp: wide_def list_all_iff getOutDimNames_def)
    moreover have "length (run outer (getOutDimNames l) b) = length (getOutDimNames outer)"
      by (simp add: getOutDimNames_def)
    ultimately show ?thesis
      using apply_layout_run [of outer "getOutDimNames l" b] wf_names [OF assms(1)] wf_names [OF assms(2)] assms(3)
      by simp
  qed
  then show ?thesis by (force simp: composed_def in_columns)
qed

lemma map_of_zip_perm:
  assumes "distinct ns" and "d \<in> set ns"
  shows "map_of (zip ns (map (\<lambda>d. the (map_of ins d)) ns)) d = Some (the (map_of ins d))"
  using assms by (auto simp: map_of_zip_map)

lemma surj_vals_composed:
  assumes w: "wf l" "wf outer" and eq: "dimsEqual (getOutDimNames l) (getInDimNames outer)"
    and s: "surj_vals l" "surj_vals outer"
    and sz: "list_all (\<lambda>d. the (getOutDimSize l d) = the (getInDimSize outer d)) (getOutDimNames l)"
  shows "surj_vals (composed l outer)"
  unfolding surj_vals_def in_composed
proof (intro allI impI)
  fix vs assume "list_all2 fits_width vs (out_widths outer)"
  then obtain ds where ds: "length ds = getTotalInDimSizeLog2 outer" "out_vals outer ds = vs"
    using s(2) by (auto simp: surj_vals_def)
  obtain ins where ins: "valid_ins outer ins" "coefs outer ins = ds"
    using valid_coefs_surj [OF w(2) ds(1)] by blast
  let ?v = "map (\<lambda>d. the (map_of ins d)) (getOutDimNames l)"
  have "list_all2 fits_width ?v (out_widths l)"
  proof (rule list_all2_all_nthI)
    fix k assume "k < length ?v"
    then have k: "k < length (getOutDimNames l)" by simp
    let ?d = "getOutDimNames l ! k"
    obtain j where j: "j < length (outDims l)" "getOutDimNames l ! j = ?d" "getOutDimSize l ?d = Some (2 ^ (out_widths l ! j))"
      using out_size_fits [OF w(1), of ?d] k by auto
    then have "j = k" using wf_names [OF w(1)] k nth_eq_iff_index_eq [of "getOutDimNames l" j k]
      by (simp add: getOutDimNames_def)
    moreover obtain x where "getInDimSize outer ?d = Some (2 ^ x)" "fits_width (the (map_of ins ?d)) x"
      using in_size_fits [OF w(2) ins(1), of ?d] eq k by (metis dimsEqual_def nth_mem)
    ultimately show "fits_width (?v ! k) (out_widths l ! k)" using sz j k by (auto simp: list_all_length)
  qed (simp add: getOutDimNames_def)
  then obtain cs where cs: "length cs = getTotalInDimSizeLog2 l" "out_vals l cs = ?v"
    using s(1) by (auto simp: surj_vals_def)
  have "coefs outer (zip (getOutDimNames l) ?v) = coefs outer ins"
  proof (rule coefs_cong)
    fix d assume d: "d \<in> set (getInDimNames outer)"
    then have "d \<in> fst ` set ins" using ins(1) by (metis valid_ins_def set_map)
    then have "map_of ins d = Some (the (map_of ins d))" by (metis map_of_eq_None_iff option.exhaust_sel)
    then show "map_of (zip (getOutDimNames l) ?v) d = map_of ins d"
      using map_of_zip_perm [of "getOutDimNames l" d ins] wf_names [OF w(1)] d eq by (simp add: dimsEqual_def)
  qed
  then have "out_vals (composed l outer) cs = vs"
    using out_vals_composed [OF w(1) eq] cs ins ds by (simp add: run_def)
  then show "\<exists>cs. length cs = getTotalInDimSizeLog2 (composed l outer) \<and> out_vals (composed l outer) cs = vs"
    using cs by auto
qed

definition composable :: "linear_layout \<Rightarrow> linear_layout \<Rightarrow> bool" where
  "composable l outer \<longleftrightarrow> dimsEqual (getOutDimNames l) (getInDimNames outer) \<and>
     list_all (\<lambda>d. the (getOutDimSize l d) \<le> the (getInDimSize outer d)) (getOutDimNames l)"

lemma compose_total:
  assumes "wf l" and "wf outer" and "composable l outer"
  shows "\<exists>c. compose l outer = Some c \<and> wf c \<and> bases c = bases (composed l outer) \<and> outDims c = outDims outer"
proof -
  let ?req = "isSurjective l \<and> isSurjective outer \<and>
         list_all (\<lambda>d. the (getOutDimSize l d) = the (getInDimSize outer d)) (getOutDimNames l)"
  have eq: "dimsEqual (getOutDimNames l) (getInDimNames outer)" using assms(3) by (simp add: composable_def)
  have c: "\<lparr>bases = bases (composed l outer), outDims = outDims outer, rank = 0\<rparr> = composed l outer"
    by (simp add: composed_def)
  have "\<exists>c. mkLayout (bases (composed l outer)) (outDims outer) ?req = Some c \<and> wf c \<and>
      bases c = bases (composed l outer) \<and> outDims c = outDims outer"
  proof (rule mkLayout_total; unfold c)
    show "layout_data (composed l outer)" by (rule layout_data_composed [OF assms(1,2)])
    assume ?req
    then show "surj_vals (composed l outer)"
      using surj_vals_composed [OF assms(1,2) eq] isSurjective_vals [OF assms(1)] isSurjective_vals [OF assms(2)]
      by blast
  qed
  then show ?thesis using assms(3) by (simp add: compose_def composable_def compose_bases [OF assms(1,2) eq])
qed


lemma same_shape:
  assumes "bases c = bases l" and "outDims c = outDims l"
  shows "valid_ins c ins = valid_ins l ins" "apply_layout c ins = apply_layout l ins"
    "out_vals c cs = out_vals l cs" "coefs c ins = coefs l ins"
  using assms
  by (simp_all add: valid_ins_def getInDimNames_def in_widths_def apply_layout_def apply_out_def getOutDimNames_def
      out_vals_def columns_def coefs_def)

lemma valid_ins_composed: "valid_ins (composed l outer) ins = valid_ins l ins"
  by (simp add: valid_ins_def)

lemma compose_apply:
  assumes w: "wf l" "wf outer" and c: "composable l outer" and i: "valid_ins l ins"
    and b: "wf c" "bases c = bases (composed l outer)" "outDims c = outDims outer"
  shows "apply_layout c ins = apply_layout l ins \<bind> apply_layout outer"
proof -
  have eq: "dimsEqual (getOutDimNames l) (getInDimNames outer)" using c by (simp add: composable_def)
  note sh = same_shape [of c "composed l outer"]
  have len: "length (out_vals l (coefs l ins)) = length (getOutDimNames l)" by (simp add: getOutDimNames_def)
  have "coefs c ins = coefs l ins"
    using i wf_names [OF w(1)] wf_names [OF b(1)] b sh by (simp add: valid_ins_def coefs_joinb)
  then have "apply_layout c ins = Some (zip (getOutDimNames outer) (run outer (getOutDimNames l) (out_vals l (coefs l ins))))"
    using apply_layout_eq [OF b(1), of ins] i b sh valid_ins_composed out_vals_composed [OF w(1) eq]
    by (simp add: getOutDimNames_def)
  moreover have "apply_layout l ins = Some (zip (getOutDimNames l) (out_vals l (coefs l ins)))"
    by (rule apply_layout_eq [OF w(1) i])
  ultimately show ?thesis
    using apply_layout_run [of outer "getOutDimNames l" "out_vals l (coefs l ins)"] wf_names [OF w(1)] wf_names [OF w(2)] eq len
    by simp
qed

section \<open>Components by name\<close>

definition in_len :: "linear_layout \<Rightarrow> dim \<Rightarrow> nat" where
  "in_len l d = (case map_of (bases l) d of Some bs \<Rightarrow> length bs | None \<Rightarrow> 0)"

definition out_len :: "linear_layout \<Rightarrow> dim \<Rightarrow> nat" where
  "out_len l od = (case map_of (outDims l) od of Some s \<Rightarrow> log2_32 s | None \<Rightarrow> 0)"

definition entry :: "linear_layout \<Rightarrow> dim \<Rightarrow> nat \<Rightarrow> dim \<Rightarrow> int" where
  "entry l d p od = (if p < in_len l d \<and> hasOutDim l od then the (getBasis l d p od) else 0)"

definition contrib :: "linear_layout \<Rightarrow> dim \<Rightarrow> dim \<Rightarrow> int \<Rightarrow> int" where
  "contrib l od d v = xlin (bits_of v (in_len l d)) (map (\<lambda>p. entry l d p od) [0..<in_len l d])"

definition dcomp :: "linear_layout \<Rightarrow> dim \<Rightarrow> (dim \<Rightarrow> int) \<Rightarrow> int" where
  "dcomp l od vals = xsum (map (\<lambda>d. contrib l od d (vals d)) (getInDimNames l))"

lemma in_len_absent: "d \<notin> set (getInDimNames l) \<Longrightarrow> in_len l d = 0"
  by (auto simp: in_len_def getInDimNames_def dest!: map_of_SomeD split: option.splits) force

lemma contrib_absent: "d \<notin> set (getInDimNames l) \<or> od \<notin> set (getOutDimNames l) \<Longrightarrow> contrib l od d v = 0"
  by (auto simp: contrib_def in_len_absent entry_def hasOutDim_def intro!: xlin_zero)

lemma getBasis_nth:
  assumes "wide l" and "map_of (bases l) d = Some bs" and "p < length bs" and "k < length (outDims l)"
    and "distinct (getOutDimNames l)"
  shows "getBasis l d p (getOutDimNames l ! k) = Some (bs ! p ! k)"
proof -
  have "bs ! p \<in> set (columns l)" using assms(2,3) map_of_SomeD nth_mem by (fastforce simp: in_columns)
  then have "length (bs ! p) = length (outDims l)" using assms(1) by (simp add: wide_def list_all_iff)
  moreover have "getOutDimIndex l (getOutDimNames l ! k) = Some k"
    using index_of_nth [OF assms(5), of k] assms(4) by (simp add: getOutDimIndex_def getOutDimNames_def)
  ultimately show ?thesis using assms by (simp add: getBasis_def getBasisVec_def)
qed

lemma dim_term_contrib:
  assumes "wide l" and "distinct (getInDimNames l)" and "distinct (getOutDimNames l)"
    and "(d, bs) \<in> set (bases l)" and "k < length (outDims l)"
  shows "dim_term k ins (d, bs) = contrib l (getOutDimNames l ! k) d (the (map_of ins d))"
proof -
  have m: "map_of (bases l) d = Some bs" using assms(2,4) by (simp add: getInDimNames_def)
  have "entry l d p (getOutDimNames l ! k) = bs ! p ! k" if "p < length bs" for p
    using getBasis_nth [OF assms(1) m that assms(5,3)] that m assms(5)
    by (simp add: entry_def in_len_def hasOutDim_def) (simp add: getOutDimNames_def)
  then have "comp_of k bs = map (\<lambda>p. entry l d p (getOutDimNames l ! k)) [0..<length bs]"
    by (intro nth_equalityI) (simp_all add: comp_of_def)
  then show ?thesis using m by (simp add: dim_term_def contrib_def in_len_def)
qed

lemma out_vals_dcomp:
  assumes "wide l" and "distinct (getInDimNames l)" and "distinct (getOutDimNames l)" and "k < length (outDims l)"
  shows "out_vals l (coefs l ins) ! k = dcomp l (getOutDimNames l ! k) (\<lambda>d. the (map_of ins d))"
proof -
  have "map (dim_term k ins) (bases l) =
      map (\<lambda>p. contrib l (getOutDimNames l ! k) (fst p) (the (map_of ins (fst p)))) (bases l)"
    using dim_term_contrib [OF assms(1-3) _ assms(4)] by (intro map_cong) (auto simp: split_paired_all)
  then show ?thesis using assms(4)
    by (simp add: out_vals_def xlin_columns dcomp_def getInDimNames_def Fun.comp_def cong: map_cong)
qed

lemma dcomp_cong: "(\<And>d. d \<in> set (getInDimNames l) \<Longrightarrow> f d = g d) \<Longrightarrow> dcomp l od f = dcomp l od g"
  unfolding dcomp_def by (intro arg_cong [where f = xsum] map_cong) auto

lemma out_len_nth:
  assumes "distinct (getOutDimNames l)" and "k < length (outDims l)"
  shows "out_len l (getOutDimNames l ! k) = out_widths l ! k"
proof -
  have "map_of (outDims l) (getOutDimNames l ! k) = Some (snd (outDims l ! k))"
    using assms by (simp add: getOutDimNames_def map_of_is_SomeI)
  then show ?thesis using assms(2) by (simp add: out_len_def out_widths_def case_prod_unfold)
qed

lemma surj_vals_named:
  assumes "layout_data l"
  shows "surj_vals l \<longleftrightarrow> (\<forall>t. (\<forall>od \<in> set (getOutDimNames l). fits_width (t od) (out_len l od)) \<longrightarrow>
    (\<exists>vals. \<forall>od \<in> set (getOutDimNames l). dcomp l od vals = t od))" (is "_ \<longleftrightarrow> ?R")
proof -
  let ?n = "getOutDimNames l"
  have d: "distinct (getInDimNames l)" "distinct ?n" "length ?n = length (outDims l)" and w: "wide l"
    using assms by (auto simp: layout_data_def getOutDimNames_def wide_def list_all_iff good_column_nth)
  obtain r where wr: "wf (l\<lparr>rank := r\<rparr>)" using layout_data_rank [OF assms] by blast
  have oc: "out_vals l (coefs l ins) = map (\<lambda>od. dcomp l od (\<lambda>d. the (map_of ins d))) ?n" for ins
    using out_vals_dcomp [OF w d(1,2)] d(3) by (intro nth_equalityI) auto
  show ?thesis
  proof
    assume s: "surj_vals l"
    show ?R
    proof (intro allI impI)
      fix t assume t: "\<forall>od \<in> set ?n. fits_width (t od) (out_len l od)"
      have "list_all2 fits_width (map t ?n) (out_widths l)"
      proof (rule list_all2_all_nthI)
        fix k assume "k < length (map t ?n)"
        then have "?n ! k \<in> set ?n" "k < length (outDims l)" using d(3) by simp_all
        then show "fits_width (map t ?n ! k) (out_widths l ! k)" using t d(3) out_len_nth [OF d(2), of k] by fastforce
      qed (simp add: d(3))
      then obtain cs where cs: "length cs = getTotalInDimSizeLog2 l" "out_vals l cs = map t ?n"
        using s by (auto simp: surj_vals_def)
      then obtain ins where "coefs (l\<lparr>rank := r\<rparr>) ins = cs" using valid_coefs_surj [OF wr] by auto
      then have "out_vals l (coefs l ins) = map t ?n" using cs by (simp add: coefs_def)
      then show "\<exists>vals. \<forall>od \<in> set ?n. dcomp l od vals = t od" unfolding oc by (auto simp: map_eq_conv)
    qed
  next
    assume R: ?R
    show "surj_vals l" unfolding surj_vals_def
    proof (intro allI impI)
      fix vs assume f: "list_all2 fits_width vs (out_widths l)"
      let ?t = "\<lambda>od. vs ! the (index_of od ?n)"
      have t: "?t (?n ! k) = vs ! k" if "k < length ?n" for k using index_of_nth [OF d(2) that] by simp
      have ft: "\<forall>od \<in> set ?n. fits_width (?t od) (out_len l od)"
        using f d t out_len_nth [OF d(2)] by (auto simp: in_set_conv_nth list_all2_conv_all_nth)
      obtain vals where v: "\<forall>od \<in> set ?n. dcomp l od vals = ?t od" using mp [OF spec [OF R, of ?t] ft] by (rule exE)
      let ?ins = "map (\<lambda>d. (d, vals d)) (getInDimNames l)"
      have "dcomp l od (\<lambda>d. the (map_of ?ins d)) = dcomp l od vals" for od
        by (rule dcomp_cong) (simp add: map_of_map_restrict)
      then have "out_vals l (coefs l ?ins) = map ?t ?n" using v unfolding oc by simp
      also have "\<dots> = vs" using t list_all2_lengthD [OF f] d(3) by (intro nth_equalityI) auto
      finally show "\<exists>cs. length cs = getTotalInDimSizeLog2 l \<and> out_vals l cs = vs" by (metis length_coefs)
    qed
  qed
qed

section \<open>The product\<close>

text \<open>
  The entry of the product for position \<open>p\<close> of in-dim \<open>d\<close> and out-dim \<open>od\<close>: the zeros are first
  overwritten by \<open>inner\<close> and then, from the offset on, by the shifted \<open>outer\<close>.
\<close>

definition prod_entry :: "linear_layout \<Rightarrow> linear_layout \<Rightarrow> dim \<Rightarrow> nat \<Rightarrow> dim \<Rightarrow> int" where
  "prod_entry inner outer d p od =
     (let offset = in_len inner d; shift = out_len inner od;
          v = (if hasInDim inner d \<and> hasOutDim inner od \<and> p < in_len inner d then the (getBasis inner d p od) else 0)
      in if hasInDim outer d \<and> hasOutDim outer od \<and> offset \<le> p \<and> p < offset + in_len outer d
         then push_bit shift (the (getBasis outer d (p - offset) od)) else v)"

definition prod_bases :: "linear_layout \<Rightarrow> linear_layout \<Rightarrow> dim list \<Rightarrow> dim list \<Rightarrow> basesT" where
  "prod_bases inner outer ins outs =
     map (\<lambda>d. (d, map (\<lambda>p. map (prod_entry inner outer d p) outs) [0..<in_len inner d + in_len outer d])) ins"

definition layout_prod :: "linear_layout \<Rightarrow> linear_layout \<Rightarrow> linear_layout option" where
  "layout_prod inner outer = do {
     ins \<leftarrow> supremum (getInDimNames inner) (getInDimNames outer);
     outs \<leftarrow> supremum (getOutDimNames inner) (getOutDimNames outer);
     mkLayout (prod_bases inner outer ins outs)
       (map (\<lambda>od. (od, 2 ^ (out_len inner od + out_len outer od))) outs)
       (isSurjective inner \<and> isSurjective outer)
   }"

lemma in_len_hasInDim: "p < in_len l d \<Longrightarrow> hasInDim l d"
  using in_len_absent by (fastforce simp: hasInDim_def)

lemma prod_entry_eq:
  "prod_entry a b d p od =
     (if p < in_len a d then entry a d p od
      else if p < in_len a d + in_len b d then push_bit (out_len a od) (entry b d (p - in_len a d) od) else 0)"
proof (cases "p < in_len a d")
  case True
  then show ?thesis using in_len_hasInDim [OF True] by (simp add: prod_entry_def entry_def)
next
  case False
  then show ?thesis using in_len_hasInDim [of "p - in_len a d" b d]
    by (auto simp: prod_entry_def entry_def Let_def)
qed

text \<open>The raw product, before the constructor checks it.\<close>

definition raw_prod :: "linear_layout \<Rightarrow> linear_layout \<Rightarrow> dim list \<Rightarrow> dim list \<Rightarrow> linear_layout" where
  "raw_prod a b ins outs = \<lparr>bases = prod_bases a b ins outs,
     outDims = map (\<lambda>od. (od, 2 ^ (out_len a od + out_len b od))) outs, rank = 0\<rparr>"

lemma raw_prod_names [simp]:
  "getInDimNames (raw_prod a b ins outs) = ins" "getOutDimNames (raw_prod a b ins outs) = outs"
  by (simp_all add: raw_prod_def prod_bases_def getInDimNames_def getOutDimNames_def comp_def)

lemma in_len_raw_prod: "d \<in> set ins \<Longrightarrow> in_len (raw_prod a b ins outs) d = in_len a d + in_len b d"
  unfolding in_len_def [of "raw_prod a b ins outs"]
  by (simp add: raw_prod_def prod_bases_def map_of_map_restrict)

lemma entry_raw_prod:
  assumes "d \<in> set ins" and "od \<in> set outs" and "distinct outs" and "p < in_len a d + in_len b d"
  shows "entry (raw_prod a b ins outs) d p od = prod_entry a b d p od"
proof -
  let ?r = "raw_prod a b ins outs"
  obtain k where k: "k < length outs" "outs ! k = od" using assms(2) by (auto simp: in_set_conv_nth)
  have "map_of (bases ?r) d = Some (map (\<lambda>p. map (prod_entry a b d p) outs) [0..<in_len a d + in_len b d])"
    using assms(1) by (simp add: raw_prod_def prod_bases_def map_of_map_restrict)
  moreover have "getOutDimIndex ?r od = Some k"
    using index_of_nth [OF assms(3) k(1)] k(2) by (simp add: getOutDimIndex_def)
  ultimately have "getBasis ?r d p od = Some (prod_entry a b d p od)"
    using assms(4) k by (simp add: getBasis_def getBasisVec_def)
  then show ?thesis using assms in_len_raw_prod [of d ins a b outs]
    by (simp add: entry_def hasOutDim_def)
qed

lemma xlin_push_bit: "xlin cs (map (push_bit m) xs) = push_bit m (xlin cs xs)"
  by (induction cs xs rule: xlin.induct) (auto simp: push_bit_xor)

lemma bits_of_add: "bits_of v (m + n) = bits_of v m @ bits_of (drop_bit m v) n"
  by (intro nth_equalityI) (auto simp: nth_append bit_drop_bit_eq)

lemma contrib_raw_prod:
  assumes "d \<in> set ins" and "od \<in> set outs" and "distinct outs"
  shows "contrib (raw_prod a b ins outs) od d v =
    contrib a od d v XOR push_bit (out_len a od) (contrib b od d (drop_bit (in_len a d) v))"
proof -
  let ?m = "in_len a d" and ?n = "in_len b d"
  have "map (\<lambda>p. entry (raw_prod a b ins outs) d p od) [0..<?m + ?n] =
      map (\<lambda>p. entry a d p od) [0..<?m] @ map (push_bit (out_len a od)) (map (\<lambda>p. entry b d p od) [0..<?n])"
    using entry_raw_prod [OF assms, of _ a b] by (intro nth_equalityI) (auto simp: nth_append prod_entry_eq)
  then show ?thesis
    by (simp add: contrib_def in_len_raw_prod [OF assms(1)] bits_of_add xlin_append xlin_push_bit flip: map_map)
qed

lemma xsum_xor: "xsum (map (\<lambda>d. f d XOR g d) ds) = xsum (map f ds) XOR xsum (map g ds)"
  by (induction ds) (auto simp: ac_simps)

lemma xsum_push_bit: "xsum (map (\<lambda>d. push_bit m (f d)) ds) = push_bit m (xsum (map f ds))"
  by (induction ds) (auto simp: push_bit_xor)

lemma xsum_support:
  assumes "distinct xs" and "distinct ys" and "set ys \<subseteq> set xs" and "\<And>x. x \<notin> set ys \<Longrightarrow> f x = 0"
  shows "xsum (map f xs) = xsum (map f ys)"
proof -
  have "xsum (map f (filter (\<lambda>x. x \<in> set ys) xs)) = xsum (map f xs)"
    using assms(4) by (intro xsum_filter) auto
  moreover have "mset (filter (\<lambda>x. x \<in> set ys) xs) = mset ys"
    using assms by (subst set_eq_iff_mset_eq_distinct [symmetric]) auto
  then have "xsum (map f (filter (\<lambda>x. x \<in> set ys) xs)) = xsum (map f ys)"
    by (intro xsum_mset) (metis mset_map)
  ultimately show ?thesis by simp
qed

lemma dcomp_raw_prod:
  assumes "distinct ins" "distinct (getInDimNames a)" "distinct (getInDimNames b)"
    and "set (getInDimNames a) \<subseteq> set ins" "set (getInDimNames b) \<subseteq> set ins" and "od \<in> set outs" "distinct outs"
  shows "dcomp (raw_prod a b ins outs) od vals =
    dcomp a od vals XOR push_bit (out_len a od) (dcomp b od (\<lambda>d. drop_bit (in_len a d) (vals d)))"
proof -
  have "dcomp (raw_prod a b ins outs) od vals = xsum (map (\<lambda>d. contrib a od d (vals d) XOR
      push_bit (out_len a od) (contrib b od d (drop_bit (in_len a d) (vals d)))) ins)"
    unfolding dcomp_def raw_prod_names using contrib_raw_prod [OF _ assms(6,7)]
    by (intro arg_cong [where f = xsum] map_cong) auto
  also have "\<dots> = xsum (map (\<lambda>d. contrib a od d (vals d)) ins) XOR
      push_bit (out_len a od) (xsum (map (\<lambda>d. contrib b od d (drop_bit (in_len a d) (vals d))) ins))"
    by (simp add: xsum_xor xsum_push_bit)
  also have "xsum (map (\<lambda>d. contrib a od d (vals d)) ins) = dcomp a od vals"
    unfolding dcomp_def using assms by (intro xsum_support) (auto simp: contrib_absent)
  also have "xsum (map (\<lambda>d. contrib b od d (drop_bit (in_len a d) (vals d))) ins) =
      dcomp b od (\<lambda>d. drop_bit (in_len a d) (vals d))"
    unfolding dcomp_def using assms by (intro xsum_support) (auto simp: contrib_absent)
  finally show ?thesis .
qed

lemma sum_support:
  assumes "distinct xs" and "distinct ys" and "set ys \<subseteq> set xs" and "\<And>x. x \<notin> set ys \<Longrightarrow> f x = 0"
  shows "sum_list (map f xs) = (sum_list (map f ys) :: nat)"
proof -
  have "(\<Sum>x\<in>set xs. f x) = (\<Sum>x\<in>set ys. f x)"
    using assms(3,4) by (intro sum.mono_neutral_right) auto
  then show ?thesis using assms(1,2) by (simp add: sum_list_distinct_conv_sum_set)
qed

lemma total_in_len: "distinct (getInDimNames l) \<Longrightarrow> getTotalInDimSizeLog2 l = sum_list (map (in_len l) (getInDimNames l))"
  by (simp add: getTotalInDimSizeLog2_def getInDimNames_def comp_def)
    (intro arg_cong [where f = sum_list] map_cong, auto simp: in_len_def)

lemma total_out_len: "distinct (getOutDimNames l) \<Longrightarrow> getTotalOutDimSizeLog2 l = sum_list (map (out_len l) (getOutDimNames l))"
  by (simp add: getTotalOutDimSizeLog2_def getOutDimNames_def comp_def)
    (intro arg_cong [where f = sum_list] map_cong, auto simp: out_len_def)

lemma out_len_absent: "od \<notin> set (getOutDimNames l) \<Longrightarrow> out_len l od = 0"
  by (auto simp: out_len_def getOutDimNames_def dest!: map_of_SomeD split: option.splits) force

lemma entry_fits:
  assumes "wf l" shows "fits_width (entry l d p od) (out_len l od)"
proof (cases "p < in_len l d \<and> hasOutDim l od")
  case True
  then obtain bs where bs: "map_of (bases l) d = Some bs" "p < length bs" by (auto simp: in_len_def split: option.splits)
  obtain k where k: "k < length (outDims l)" "getOutDimNames l ! k = od"
    using True by (auto simp: hasOutDim_def in_set_conv_nth getOutDimNames_def)
  have e: "entry l d p od = bs ! p ! k"
    using getBasis_nth [OF wf_wide [OF assms] bs k(1)] wf_names [OF assms] k(2) True by (simp add: entry_def)
  have "bs ! p \<in> set (columns l)" using bs map_of_SomeD nth_mem by (fastforce simp: in_columns)
  then obtain c where "c < length (columns l)" "columns l ! c = bs ! p" by (metis in_set_conv_nth)
  then have "0 \<le> bs ! p ! k \<and> bs ! p ! k < snd (outDims l ! k)" using wf_entry [OF assms _ k(1)] by metis
  then show ?thesis
    using wf_out_pow [OF assms k(1)] out_len_nth [of l k] wf_names [OF assms] k e
    by (simp add: fits_width_def out_widths_def case_prod_unfold)
next
  case False
  then show ?thesis by (auto simp: entry_def fits_width_def)
qed

lemma fits_width_push: "fits_width v n \<Longrightarrow> fits_width (push_bit m v) (m + n)"
  unfolding fits_width_def push_bit_eq_mult by (simp add: power_add mult.commute)

lemma fits_width_mono: "fits_width v m \<Longrightarrow> m \<le> n \<Longrightarrow> fits_width v n"
  unfolding fits_width_def by (meson less_le_trans one_le_numeral power_increasing)

lemma prod_entry_fits:
  assumes "wf a" "wf b" shows "fits_width (prod_entry a b d p od) (out_len a od + out_len b od)"
  using entry_fits [OF assms(1), of d p od] entry_fits [OF assms(2), of d "p - in_len a d" od]
  by (auto simp: prod_entry_eq intro: fits_width_push fits_width_mono) (simp add: fits_width_def)

definition prod_fits :: "linear_layout \<Rightarrow> linear_layout \<Rightarrow> bool" where
  "prod_fits a b \<longleftrightarrow> getTotalInDimSizeLog2 a + getTotalInDimSizeLog2 b \<le> 64 \<and>
     getTotalOutDimSizeLog2 a + getTotalOutDimSizeLog2 b \<le> 64 \<and>
     list_all (\<lambda>od. out_len a od + out_len b od < 31) (getOutDimNames a @ getOutDimNames b)"

lemma size_widths_pow:
  "(\<And>x. x \<in> set xs \<Longrightarrow> w x < 31) \<Longrightarrow> list_all (\<lambda>(_, s). small_pow s) (map (\<lambda>x. (x, 2 ^ w x)) xs)"
  by (auto simp: list_all_iff small_pow_iff)

definition merged :: "linear_layout \<Rightarrow> linear_layout \<Rightarrow> dim list \<Rightarrow> dim list \<Rightarrow> bool" where
  "merged a b ins outs \<longleftrightarrow> distinct ins \<and> distinct outs \<and>
     set ins = set (getInDimNames a) \<union> set (getInDimNames b) \<and> set outs = set (getOutDimNames a) \<union> set (getOutDimNames b)"

lemma out_len_raw_prod:
  assumes "od \<in> set outs" and "out_len a od + out_len b od < 31"
  shows "out_len (raw_prod a b ins outs) od = out_len a od + out_len b od"
  unfolding out_len_def [of "raw_prod a b ins outs"] using assms
  by (simp add: raw_prod_def map_of_map_restrict)

lemma raw_prod_totals:
  assumes "wf a" "wf b" and m: "merged a b ins outs" and "prod_fits a b"
  shows "getTotalInDimSizeLog2 (raw_prod a b ins outs) = getTotalInDimSizeLog2 a + getTotalInDimSizeLog2 b"
    "getTotalOutDimSizeLog2 (raw_prod a b ins outs) = getTotalOutDimSizeLog2 a + getTotalOutDimSizeLog2 b"
proof -
  let ?r = "raw_prod a b ins outs"
  have "getTotalInDimSizeLog2 ?r = sum_list (map (in_len ?r) ins)"
    using total_in_len [of ?r] m by (simp add: merged_def)
  also have "\<dots> = sum_list (map (\<lambda>d. in_len a d + in_len b d) ins)"
    by (intro arg_cong [where f = sum_list] map_cong) (auto simp: in_len_raw_prod)
  also have "\<dots> = sum_list (map (in_len a) ins) + sum_list (map (in_len b) ins)" by (rule sum_list_addf)
  also have "\<dots> = getTotalInDimSizeLog2 a + getTotalInDimSizeLog2 b"
    using m wf_names [OF assms(1)] wf_names [OF assms(2)]
    by (simp add: total_in_len sum_support [of ins "getInDimNames a"] sum_support [of ins "getInDimNames b"] merged_def in_len_absent)
  finally show "getTotalInDimSizeLog2 ?r = getTotalInDimSizeLog2 a + getTotalInDimSizeLog2 b" .
  have "out_len ?r od = out_len a od + out_len b od" if "od \<in> set outs" for od
    using that m assms(4) by (intro out_len_raw_prod) (auto simp: merged_def prod_fits_def list_all_iff)
  then have "getTotalOutDimSizeLog2 ?r = sum_list (map (\<lambda>d. out_len a d + out_len b d) outs)"
    using total_out_len [of ?r] m by (simp add: merged_def cong: map_cong)
  also have "\<dots> = sum_list (map (out_len a) outs) + sum_list (map (out_len b) outs)" by (rule sum_list_addf)
  also have "\<dots> = getTotalOutDimSizeLog2 a + getTotalOutDimSizeLog2 b"
    using m wf_names [OF assms(1)] wf_names [OF assms(2)]
    by (simp add: total_out_len sum_support [of outs "getOutDimNames a"] sum_support [of outs "getOutDimNames b"] merged_def out_len_absent)
  finally show "getTotalOutDimSizeLog2 ?r = getTotalOutDimSizeLog2 a + getTotalOutDimSizeLog2 b" .
qed

lemma raw_prod_data:
  assumes w: "wf a" "wf b" and m: "merged a b ins outs" and f: "prod_fits a b"
  shows "layout_data (raw_prod a b ins outs)"
proof -
  let ?r = "raw_prod a b ins outs"
  have lt: "out_len a od + out_len b od < 31" if "od \<in> set outs" for od
    using that m f by (auto simp: merged_def prod_fits_def list_all_iff)
  have p: "list_all (\<lambda>(_, s). small_pow s) (outDims ?r)"
    unfolding raw_prod_def using lt by (simp add: size_widths_pow)
  have sw: "size_widths (outDims ?r) = map (\<lambda>od. out_len a od + out_len b od) outs"
    unfolding raw_prod_def size_widths_def using lt by (auto intro!: log2_32_pow dest!: lt)
  have "good_column (outDims ?r) c" if c: "c \<in> set (columns ?r)" for c
  proof -
    obtain d p' where "c = map (prod_entry a b d p') outs"
      using c by (auto simp: columns_def raw_prod_def prod_bases_def)
    then show ?thesis unfolding good_column_fits [OF p] sw
      using prod_entry_fits [OF w] by (auto simp: list_all2_conv_all_nth)
  qed
  then show ?thesis using raw_prod_totals [OF w m f] m f p
    by (simp add: layout_data_def merged_def prod_fits_def list_all_iff)
qed


text \<open>Surjectivity of a product is surjectivity of its factors.\<close>

lemma contrib_cong: "bits_of u (in_len l d) = bits_of v (in_len l d) \<Longrightarrow> contrib l od d u = contrib l od d v"
  by (simp add: contrib_def)

lemma dcomp_fits:
  assumes "wf l" shows "fits_width (dcomp l od vals) (out_len l od)"
proof -
  have "fits_width (contrib l od d v) (out_len l od)" for d v
    using xlin_range [of "map (\<lambda>p. entry l d p od) [0..<in_len l d]" "out_len l od"] entry_fits [OF assms]
    by (auto simp: contrib_def fits_width_def)
  then have "fits_width (xsum (map (\<lambda>d. contrib l od d (vals d)) ds)) (out_len l od)" for ds
    by (induction ds) (simp_all add: fits_width_xor, simp add: fits_width_def)
  then show ?thesis by (simp add: dcomp_def)
qed

lemma xsum_zero: "xsum (map (\<lambda>_. 0) xs) = 0"
  by (induction xs) auto

lemma dcomp_absent: "od \<notin> set (getOutDimNames l) \<Longrightarrow> dcomp l od vals = 0"
  by (simp add: dcomp_def contrib_absent xsum_zero)

lemma fits_width_drop: "fits_width t (m + n) \<Longrightarrow> fits_width (drop_bit m t) n"
proof -
  assume f: "fits_width t (m + n)"
  have "take_bit n (drop_bit m t) = drop_bit m t"
    using fits_width_take [OF f] by (metis drop_bit_take_bit add_diff_cancel_left')
  then show ?thesis unfolding fits_width_def by (metis take_bit_int_less_exp take_bit_nonnegative)
qed

lemma xor_push_bit:
  assumes "fits_width x m"
  shows "take_bit m (x XOR push_bit m y) = x" "drop_bit m (x XOR push_bit m y) = (y::int)"
    "x XOR push_bit m y = x + 2 ^ m * y"
proof -
  have t: "take_bit m x = x" "drop_bit m x = 0"
    using fits_width_take [OF assms] by (simp_all add: drop_bit_eq_div) (metis assms fits_width_def zdiv_eq_0_iff)
  show a: "take_bit m (x XOR push_bit m y) = x" by (simp add: t take_bit_push_bit)
  show b: "drop_bit m (x XOR push_bit m y) = y" by (simp add: t drop_bit_push_bit_int)
  show "x XOR push_bit m y = x + 2 ^ m * y"
    using bits_ident [of m "x XOR push_bit m y"] unfolding a b by (simp add: push_bit_eq_mult mult.commute)
qed

lemma surj_raw_prod:
  assumes w: "wf a" "wf b" and m: "merged a b ins outs" and f: "prod_fits a b" and s: "surj_vals a" "surj_vals b"
  shows "surj_vals (raw_prod a b ins outs)"
  unfolding surj_vals_named [OF raw_prod_data [OF w m f]] raw_prod_names
proof (intro allI impI)
  note md = m [unfolded merged_def]
  fix t assume t: "\<forall>od \<in> set outs. fits_width (t od) (out_len (raw_prod a b ins outs) od)"
  let ?m = "out_len a" and ?n = "in_len a"
  have ft: "fits_width (t od) (?m od + out_len b od)" if "od \<in> set outs" for od
  proof -
    have "?m od + out_len b od < 31" using that md f by (auto simp: prod_fits_def list_all_iff)
    then show ?thesis using t out_len_raw_prod [OF that, of a b ins] that by metis
  qed
  have "\<forall>od \<in> set (getOutDimNames a). fits_width (take_bit (?m od) (t od)) (?m od)"
    by (simp add: fits_width_def take_bit_int_less_exp)
  then obtain va where va: "\<forall>od \<in> set (getOutDimNames a). dcomp a od va = take_bit (?m od) (t od)"
    using spec [OF s(1) [unfolded surj_vals_named [OF wf_layout_data [OF w(1)]]], of "\<lambda>od. take_bit (?m od) (t od)"] by blast
  have "fits_width (drop_bit (?m od) (t od)) (out_len b od)" if "od \<in> set (getOutDimNames b)" for od
    using ft [of od] that md by (intro fits_width_drop) simp
  then obtain vb where vb: "\<forall>od \<in> set (getOutDimNames b). dcomp b od vb = drop_bit (?m od) (t od)"
    using spec [OF s(2) [unfolded surj_vals_named [OF wf_layout_data [OF w(2)]]], of "\<lambda>od. drop_bit (?m od) (t od)"] by blast
  let ?v = "\<lambda>d. take_bit (?n d) (va d) XOR push_bit (?n d) (vb d)"
  have fx: "fits_width (take_bit (?n d) (va d)) (?n d)" for d by (simp add: fits_width_def take_bit_int_less_exp)
  have a: "dcomp a od ?v = dcomp a od va" for od
    unfolding dcomp_def
    by (intro arg_cong [where f = xsum] map_cong refl contrib_cong nth_equalityI)
      (auto simp: bit_xor_iff bit_take_bit_iff bit_push_bit_iff)
  have b: "(\<lambda>d. drop_bit (?n d) (?v d)) = vb" using xor_push_bit(2) [OF fx] by (simp add: fun_eq_iff)
  have "dcomp (raw_prod a b ins outs) od ?v = t od" if "od \<in> set outs" for od
  proof -
    have "dcomp (raw_prod a b ins outs) od ?v = dcomp a od va XOR push_bit (?m od) (dcomp b od vb)"
      using dcomp_raw_prod [of ins a b od outs ?v] md wf_names [OF w(1)] wf_names [OF w(2)] that unfolding a b by simp
    also have "dcomp a od va = take_bit (?m od) (t od)"
      using va dcomp_absent [of od a] by (cases "od \<in> set (getOutDimNames a)") (auto simp: out_len_absent)
    also have "dcomp b od vb = drop_bit (?m od) (t od)"
    proof (cases "od \<in> set (getOutDimNames b)")
      case False
      then have "fits_width (t od) (?m od)" using ft [OF that] by (simp add: out_len_absent)
      then have "drop_bit (?m od) (t od) = 0" unfolding drop_bit_eq_div by (simp add: fits_width_def)
      then show ?thesis using False by (simp add: dcomp_absent)
    qed (use vb in simp)
    also have "take_bit (?m od) (t od) XOR push_bit (?m od) (drop_bit (?m od) (t od)) = t od"
      by (rule bit_eqI) (auto simp: bit_simps)
    finally show ?thesis .
  qed
  then show "\<exists>vals. \<forall>od \<in> set outs. dcomp (raw_prod a b ins outs) od vals = t od" by blast
qed

lemma apply_named:
  assumes "wf l" and "map fst x = getInDimNames l"
  shows "apply_layout l x = Some (map (\<lambda>od. (od, dcomp l od (\<lambda>d. the (map_of x d)))) (getOutDimNames l))"
proof -
  have n: "distinct (getInDimNames l)" "distinct (getOutDimNames l)" using wf_names [OF assms(1)] by auto
  have d: "dimsEqual (map fst x) (getInDimNames l)" using assms(2) by (simp add: dimsEqual_def)
  have "apply_out l x k = dcomp l (getOutDimNames l ! k) (\<lambda>d. the (map_of x d))" if "k < length (outDims l)" for k
    using apply_out_eq [of x l k] out_vals_dcomp [OF wf_wide [OF assms(1)] n that, of x] n d assms(2) that
    by (simp add: out_vals_def)
  then have "zip (getOutDimNames l) (map (apply_out l x) [0..<length (outDims l)]) =
      map (\<lambda>od. (od, dcomp l od (\<lambda>d. the (map_of x d)))) (getOutDimNames l)"
    by (intro nth_equalityI) (auto simp: getOutDimNames_def)
  then show ?thesis using d by (simp add: apply_layout_def map_enumerate_fst getOutDimNames_def)
qed

text \<open>The inputs of the two factors, and reading an output that a factor may not have.\<close>

definition low_ins :: "linear_layout \<Rightarrow> (dim \<times> int) list \<Rightarrow> (dim \<times> int) list" where
  "low_ins a x = map (\<lambda>d. (d, take_bit (in_len a d) (the (map_of x d)))) (getInDimNames a)"

definition high_ins :: "linear_layout \<Rightarrow> linear_layout \<Rightarrow> (dim \<times> int) list \<Rightarrow> (dim \<times> int) list" where
  "high_ins a b x = map (\<lambda>d. (d, drop_bit (in_len a d) (the (map_of x d)))) (getInDimNames b)"

definition val_of :: "(dim \<times> int) list \<Rightarrow> dim \<Rightarrow> int" where
  "val_of outs od = (case map_of outs od of Some v \<Rightarrow> v | None \<Rightarrow> 0)"

lemma val_of_map: "val_of (map (\<lambda>od. (od, f od)) ods) od = (if od \<in> set ods then f od else 0)"
  by (auto simp: val_of_def map_of_map_restrict restrict_map_def)

lemma dcomp_low: "dcomp a od (\<lambda>d. the (map_of (low_ins a x) d)) = dcomp a od (\<lambda>d. the (map_of x d))"
proof -
  have "dcomp a od (\<lambda>d. the (map_of (low_ins a x) d)) = dcomp a od (\<lambda>d. take_bit (in_len a d) (the (map_of x d)))"
    by (rule dcomp_cong) (simp add: low_ins_def map_of_map_restrict)
  also have "\<dots> = dcomp a od (\<lambda>d. the (map_of x d))"
    unfolding dcomp_def
    by (intro arg_cong [where f = xsum] map_cong refl contrib_cong nth_equalityI) (auto simp: bit_take_bit_iff)
  finally show ?thesis .
qed

lemma dcomp_high:
  "dcomp b od (\<lambda>d. the (map_of (high_ins a b x) d)) = dcomp b od (\<lambda>d. drop_bit (in_len a d) (the (map_of x d)))"
  by (rule dcomp_cong) (simp add: high_ins_def map_of_map_restrict)

lemma layout_prod_total:
  assumes w: "wf a" "wf b" and f: "prod_fits a b"
  shows "\<exists>p ins outs. supremum (getInDimNames a) (getInDimNames b) = Some ins \<and>
    supremum (getOutDimNames a) (getOutDimNames b) = Some outs \<and> merged a b ins outs \<and>
    layout_prod a b = Some p \<and> wf p \<and> bases p = bases (raw_prod a b ins outs) \<and> outDims p = outDims (raw_prod a b ins outs)"
proof -
  obtain ins where i: "supremum (getInDimNames a) (getInDimNames b) = Some ins" "distinct ins"
    "set ins = set (getInDimNames a) \<union> set (getInDimNames b)"
    using supremum_total wf_names [OF w(1)] wf_names [OF w(2)] by metis
  obtain outs where o: "supremum (getOutDimNames a) (getOutDimNames b) = Some outs" "distinct outs"
    "set outs = set (getOutDimNames a) \<union> set (getOutDimNames b)"
    using supremum_total wf_names [OF w(1)] wf_names [OF w(2)] by metis
  have m: "merged a b ins outs" using i o by (simp add: merged_def)
  have r: "\<lparr>bases = prod_bases a b ins outs, outDims = map (\<lambda>od. (od, 2 ^ (out_len a od + out_len b od))) outs, rank = 0\<rparr>
      = raw_prod a b ins outs" by (simp add: raw_prod_def)
  have "\<exists>p. mkLayout (prod_bases a b ins outs) (map (\<lambda>od. (od, 2 ^ (out_len a od + out_len b od))) outs)
      (isSurjective a \<and> isSurjective b) = Some p \<and> wf p \<and> bases p = prod_bases a b ins outs \<and>
      outDims p = map (\<lambda>od. (od, 2 ^ (out_len a od + out_len b od))) outs"
  proof (rule mkLayout_total; unfold r)
    show "layout_data (raw_prod a b ins outs)" by (rule raw_prod_data [OF w m f])
    assume "isSurjective a \<and> isSurjective b"
    then show "surj_vals (raw_prod a b ins outs)"
      using surj_raw_prod [OF w m f] isSurjective_vals [OF w(1)] isSurjective_vals [OF w(2)] by blast
  qed
  then show ?thesis using i o m by (auto simp: layout_prod_def raw_prod_def)
qed

lemma dcomp_shape: "bases p = bases q \<Longrightarrow> outDims p = outDims q \<Longrightarrow> dcomp p = dcomp q"
proof -
  assume h: "bases p = bases q" "outDims p = outDims q"
  have "getBasis p = getBasis q" using h
    by (simp add: fun_eq_iff getBasis_def getBasisVec_def getOutDimIndex_def getOutDimNames_def)
  then have "entry p = entry q" using h
    by (simp add: fun_eq_iff entry_def in_len_def hasOutDim_def getOutDimNames_def)
  then show ?thesis using h by (simp add: fun_eq_iff dcomp_def contrib_def in_len_def getInDimNames_def)
qed

lemma layout_prod_apply:
  assumes w: "wf a" "wf b" and p: "wf p" and m: "merged a b ins outs"
    and b: "bases p = bases (raw_prod a b ins outs)" "outDims p = outDims (raw_prod a b ins outs)"
    and x: "valid_ins p x"
  shows "\<exists>oa ob. apply_layout a (low_ins a x) = Some oa \<and> apply_layout b (high_ins a b x) = Some ob \<and>
    apply_layout p x = Some (map (\<lambda>od. (od, val_of oa od + 2 ^ out_len a od * val_of ob od)) outs)"
proof -
  let ?v = "\<lambda>d. the (map_of x d)"
  let ?oa = "map (\<lambda>od. (od, dcomp a od ?v)) (getOutDimNames a)"
  let ?ob = "map (\<lambda>od. (od, dcomp b od (\<lambda>d. drop_bit (in_len a d) (?v d)))) (getOutDimNames b)"
  have "map fst (low_ins a x) = getInDimNames a" "map fst (high_ins a b x) = getInDimNames b"
    by (simp_all add: low_ins_def high_ins_def comp_def)
  then have ab: "apply_layout a (low_ins a x) = Some ?oa" "apply_layout b (high_ins a b x) = Some ?ob"
    using apply_named [OF w(1), of "low_ins a x"] apply_named [OF w(2), of "high_ins a b x"]
    by (simp_all add: dcomp_low dcomp_high)
  have names: "getOutDimNames p = outs" using b raw_prod_names(2) [of a b ins outs] by (simp add: getOutDimNames_def)
  have "dcomp p od ?v = val_of ?oa od + 2 ^ out_len a od * val_of ?ob od" if "od \<in> set outs" for od
  proof -
    have "dcomp p od ?v = dcomp a od ?v XOR push_bit (out_len a od) (dcomp b od (\<lambda>d. drop_bit (in_len a d) (?v d)))"
      unfolding dcomp_shape [OF b] using m wf_names [OF w(1)] wf_names [OF w(2)] that
      by (intro dcomp_raw_prod) (auto simp: merged_def)
    also have "\<dots> = dcomp a od ?v + 2 ^ out_len a od * dcomp b od (\<lambda>d. drop_bit (in_len a d) (?v d))"
      by (rule xor_push_bit(3) [OF dcomp_fits [OF w(1)]])
    finally show ?thesis by (simp add: val_of_map dcomp_absent)
  qed
  then have "apply_layout p x = Some (map (\<lambda>od. (od, val_of ?oa od + 2 ^ out_len a od * val_of ?ob od)) outs)"
    using apply_named [OF p, of x] x names by (simp add: valid_ins_def)
  then show ?thesis using ab by blast
qed

end
