(* ===== verification/LayoutSolve.thy ===== *)
theory LayoutSolve
  imports LayoutShape LayoutAlgebra
begin

text \<open>
  Solving layout equations: \<open>concatMatrices\<close>, \<open>lstsq\<close>, \<open>invertAndCompose\<close>, \<open>invert\<close>, \<open>pseudoinvert\<close> and
  \<open>getFreeVariableMasks\<close> of \<open>lib/Tools/LinearLayout.cpp\<close>. A combined matrix with more than 64
  columns takes the multi-word path of f2reduce, which is not modelled: None.
\<close>

section \<open>The code\<close>

text \<open>The rows of \<open>A\<close>, each joined with the row of \<open>B\<close> for the same bit of the same out-dim.\<close>

fun concat_rows :: "nat \<Rightarrow> (nat \<times> nat) list \<Rightarrow> row list \<Rightarrow> row list \<Rightarrow> row list" where
  "concat_rows n [] as bs = as"
| "concat_rows n ((wa, wb) # ws) as bs =
     map (\<lambda>r. if r < wb then (as ! r) OR push_bit n (bs ! r) else as ! r) [0..<wa] @
     concat_rows n ws (drop wa as) (drop (min wa wb) bs)"

definition concatMatrices :: "linear_layout \<Rightarrow> linear_layout \<Rightarrow> row list option" where
  "concatMatrices A B =
     (if getTotalOutDimSizeLog2 B \<le> getTotalOutDimSizeLog2 A \<and>
         list_all (\<lambda>od. hasOutDim B od) (getOutDimNames A)
      then do {
        a \<leftarrow> getMatrix A;
        b \<leftarrow> getMatrix B;
        Some (concat_rows (getTotalInDimSizeLog2 A)
          (map (\<lambda>od. (out_len A od, out_len B od)) (getOutDimNames A)) a b)
      }
      else None)"

text \<open>The pivot row of each column; None is a failed assertion.\<close>

definition pivot_rows :: "nat \<Rightarrow> row list \<Rightarrow> (nat \<rightharpoonup> nat) option" where
  "pivot_rows n m = fold (\<lambda>r acc. do {
       piv \<leftarrow> acc;
       if m ! r = 0 then Some piv
       else let c = ctz (m ! r)
            in if c < n \<and> piv c = None then Some (piv(c \<mapsto> r)) else None
     }) [0..<length m] (Some Map.empty)"

definition solution_basis :: "nat \<Rightarrow> row list \<Rightarrow> (nat \<rightharpoonup> nat) \<Rightarrow> nat \<Rightarrow> int" where
  "solution_basis n m piv c =
     fold (\<lambda>r b. b OR push_bit r (of_bool (case piv r of None \<Rightarrow> False | Some row \<Rightarrow> bit (drop_bit n (m ! row)) c)))
       [0..<n] 0"

definition lstsq :: "linear_layout \<Rightarrow> linear_layout \<Rightarrow> linear_layout option" where
  "lstsq A B = do {
     let n = getTotalInDimSizeLog2 A;
     let nb = getTotalInDimSizeLog2 B;
     m \<leftarrow> concatMatrices A B;
     m' \<leftarrow> inplace_rref_strided m (n + nb);
     piv \<leftarrow> pivot_rows n m';
     (case (getInDimNames A, getOutDimNames A) of
        (inDim1D # _, outDim1D # _) \<Rightarrow> do {
          flat \<leftarrow> mkLayout [(inDim1D, map (\<lambda>c. [solution_basis n m' piv c]) [0..<nb])]
                    [(outDim1D, getTotalInDimSize A)] False;
          r \<leftarrow> reshapeIns flat (map (\<lambda>d. (d, the (getInDimSize B d))) (getInDimNames B));
          reshapeOuts r (map (\<lambda>d. (d, the (getInDimSize A d))) (getInDimNames A))
        }
      | _ \<Rightarrow> None)
   }"

definition identity_dims :: "linear_layout \<Rightarrow> linear_layout \<Rightarrow> dim list \<Rightarrow> dim list" where
  "identity_dims A B outs =
     filter (\<lambda>d. hasInDim B d \<and> (case (sublayout A [d] outs, sublayout B [d] outs) of
        (Some a, Some b) \<Rightarrow> layout_eq a b | _ \<Rightarrow> False)) (getInDimNames A)"

definition times_identities :: "linear_layout \<Rightarrow> linear_layout \<Rightarrow> dim list \<Rightarrow> linear_layout option" where
  "times_identities A l ds = fold (\<lambda>d acc. do {
       r \<leftarrow> acc;
       i \<leftarrow> identity1D (the (getInDimSize A d)) d d;
       layout_prod r i
     }) ds (Some l)"

definition invertAndCompose :: "linear_layout \<Rightarrow> linear_layout \<Rightarrow> linear_layout option" where
  "invertAndCompose B outer = do {
     let outs = getOutDimNames B;
     A \<leftarrow> (if dimsEqual outs (getOutDimNames outer) then transposeOuts outer outs else None);
     (if list_all (\<lambda>d. the (getOutDimSize B d) \<le> the (getOutDimSize A d)) outs then Some () else None);
     let ids = identity_dims A B outs;
     let insA = filter (\<lambda>d. d \<notin> set ids) (getInDimNames A);
     let insB = filter (\<lambda>d. d \<notin> set ids) (getInDimNames B);
     AReduced \<leftarrow> sublayout A insA outs;
     BReduced \<leftarrow> sublayout B insB outs;
     ret \<leftarrow> (if (insA = []) = (insB = [])
             then if insA = [] then Some empty_layout else lstsq AReduced BReduced
             else None);
     ret' \<leftarrow> times_identities A ret ids;
     t \<leftarrow> transposeIns ret' (getInDimNames B);
     transposeOuts t (getInDimNames A)
   }"

definition pseudoinvert :: "linear_layout \<Rightarrow> linear_layout option" where
  "pseudoinvert l = do {
     identity \<leftarrow> fold (\<lambda>od acc. do {
         r \<leftarrow> acc;
         i \<leftarrow> identity1D (the (getOutDimSize l od)) od od;
         layout_prod r i
       }) (getOutDimNames l) (Some empty_layout);
     invertAndCompose identity l
   }"

definition invert :: "linear_layout \<Rightarrow> linear_layout option" where
  "invert l = (if isInvertible l then pseudoinvert l else None)"

text \<open>Columns of the reduced matrix with the first 1 of a row; the others are free.\<close>

fun mask_dims :: "nat set \<Rightarrow> nat \<Rightarrow> (dim \<times> nat) list \<Rightarrow> (dim \<times> int) list" where
  "mask_dims basics c [] = []"
| "mask_dims basics c ((d, n) # ds) =
     (d, fold (\<lambda>i mask. if c + i \<in> basics then mask else mask OR push_bit i 1) [0..<n] 0) # mask_dims basics (c + n) ds"

definition getFreeVariableMasks :: "linear_layout \<Rightarrow> (dim \<times> int) list option" where
  "getFreeVariableMasks l = do {
     m \<leftarrow> getMatrix l;
     m' \<leftarrow> inplace_rref_strided m (getTotalInDimSizeLog2 l);
     let basics = set (map ctz (filter (\<lambda>w. w \<noteq> 0) m'));
     Some (mask_dims basics 0 (map (\<lambda>(d, bs). (d, length bs)) (bases l)))
   }"

section \<open>Reading a solution off the reduced matrix\<close>

lemma dot_commute: "dot w x = dot x w"
  by (simp add: dot_def conj_commute)

lemma dot_xor_right: "dot w (x XOR y) \<longleftrightarrow> (dot w x \<noteq> dot w y)"
  by (simp add: dot_commute [of w] dot_xor)

lemma pack_append: "pack (cs @ ds) = pack cs XOR push_bit (length cs) (pack ds)"
  by (rule bit_word_eqI) (auto simp: bit_pack bit_simps nth_append)

lemma dot_upper:
  assumes "length ds = nb" and "n + nb \<le> 64"
  shows "dot w (push_bit n (pack ds)) \<longleftrightarrow> parity nb (\<lambda>c. bit w (n + c) \<and> ds ! c)"
proof -
  have "dot w (push_bit n (pack ds)) = parity (n + nb) (\<lambda>c. bit w c \<and> bit (push_bit n (pack ds)) c)"
    unfolding dot_def using assms by (intro parity_le) (auto simp: bit_simps bit_pack)
  also have "\<dots> = parity nb (\<lambda>c. bit w (n + c) \<and> bit (push_bit n (pack ds)) (n + c))"
    unfolding parity_add [of n nb] by (simp add: bit_simps parity_none)
  also have "\<dots> = parity nb (\<lambda>c. bit w (n + c) \<and> ds ! c)"
    using assms by (intro parity_cong) (auto simp: bit_simps bit_pack)
  finally show ?thesis .
qed

lemma ctz_low_col: "w \<noteq> 0 \<Longrightarrow> ctz w = low_col w"
  by (simp add: low_col_def)

definition is_pivot_map :: "nat \<Rightarrow> row list \<Rightarrow> (nat \<rightharpoonup> nat) \<Rightarrow> bool" where
  "is_pivot_map k m piv \<longleftrightarrow> (\<forall>c r. piv c = Some r \<longleftrightarrow> r < k \<and> low_col (m ! r) = c)"

lemma pivot_rows_spec:
  assumes r: "rref_with k m" and lt: "\<And>i. i < k \<Longrightarrow> low_col (m ! i) < n"
  shows "\<exists>piv. pivot_rows n m = Some piv \<and> is_pivot_map k m piv"
proof -
  let ?f = "\<lambda>r acc. do {
       piv \<leftarrow> acc;
       if m ! r = 0 then Some piv
       else let c = ctz (m ! r)
            in if c < n \<and> piv c = None then Some (piv(c \<mapsto> r)) else None
     }"
  have "\<exists>piv. fold ?f [0..<i] (Some Map.empty) = Some piv \<and> is_pivot_map (min i k) m piv" if "i \<le> length m" for i
    using that
  proof (induction i)
    case 0
    then show ?case by (simp add: is_pivot_map_def)
  next
    case (Suc i)
    then obtain piv where p: "fold ?f [0..<i] (Some Map.empty) = Some piv" "is_pivot_map (min i k) m piv" by auto
    show ?case
    proof (cases "i < k")
      case False
      then have "m ! i = 0" using r Suc.prems by (simp add: rref_with_def)
      then show ?thesis using p False by (simp add: not_less min_absorb2)
    next
      case True
      then have nz: "m ! i \<noteq> 0" using r by (simp add: rref_with_def reduced_def)
      have "piv (low_col (m ! i)) = None"
      proof (rule ccontr)
        assume "piv (low_col (m ! i)) \<noteq> None"
        then obtain j where "j < min i k" "low_col (m ! j) = low_col (m ! i)" using p(2) by (auto simp: is_pivot_map_def)
        then show False using rref_pivot_inj [OF r, of j i] True by simp
      qed
      moreover have "is_pivot_map (min (Suc i) k) m (piv(low_col (m ! i) \<mapsto> i))"
        using p(2) True \<open>piv _ = None\<close> unfolding is_pivot_map_def
        by (auto simp: less_Suc_eq min_def) (metis option.distinct(1))
      ultimately show ?thesis using p(1) nz lt [OF True] by (simp add: ctz_low_col)
    qed
  qed
  from this [of "length m"] show ?thesis
    using r by (simp add: pivot_rows_def rref_with_def reduced_def min_absorb2)
qed

lemma bit_solution_basis:
  "bit (solution_basis n m piv c) r \<longleftrightarrow> r < n \<and> (\<exists>row. piv r = Some row \<and> bit (m ! row) (n + c))"
proof -
  have "bit (fold (\<lambda>r b. b OR push_bit r (of_bool (case piv r of None \<Rightarrow> False | Some row \<Rightarrow> bit (drop_bit n (m ! row)) c))) [0..<k] 0 :: int) r
      \<longleftrightarrow> r < k \<and> (\<exists>row. piv r = Some row \<and> bit (m ! row) (n + c))" for k
    by (induction k) (auto simp: bit_simps less_Suc_eq split: option.splits)
  then show ?thesis by (simp add: solution_basis_def)
qed

definition solution :: "nat \<Rightarrow> nat \<Rightarrow> row list \<Rightarrow> (nat \<rightharpoonup> nat) \<Rightarrow> bool list \<Rightarrow> int" where
  "solution n nb m piv ds = xlin ds (map (solution_basis n m piv) [0..<nb])"

lemma bit_solution:
  assumes "length ds = nb"
  shows "bit (solution n nb m piv ds) r \<longleftrightarrow>
    r < n \<and> (\<exists>row. piv r = Some row \<and> parity nb (\<lambda>c. bit (m ! row) (n + c) \<and> ds ! c))"
proof -
  have "bit (solution n nb m piv ds) r = parity nb (\<lambda>c. ds ! c \<and> (r < n \<and> (\<exists>row. piv r = Some row \<and> bit (m ! row) (n + c))))"
    using assms by (simp add: solution_def bit_xlin) (rule parity_cong, simp add: bit_solution_basis)
  also have "\<dots> \<longleftrightarrow> r < n \<and> (\<exists>row. piv r = Some row \<and> parity nb (\<lambda>c. bit (m ! row) (n + c) \<and> ds ! c))"
    by (cases "r < n"; cases "piv r") (simp_all add: conj_commute)
  finally show ?thesis .
qed

lemma solution_null:
  assumes r: "rref_with k m" and p: "is_pivot_map k m piv" and lt: "\<And>i. i < k \<Longrightarrow> low_col (m ! i) < n"
    and n: "n + nb \<le> 64" and ds: "length ds = nb"
  shows "null_space m (pack (bits_of (solution n nb m piv ds) n @ ds))"
  unfolding null_space_nth
proof (intro allI impI)
  fix i assume i: "i < length m"
  let ?x = "pack (bits_of (solution n nb m piv ds) n)"
  show "\<not> dot (m ! i) (pack (bits_of (solution n nb m piv ds) n @ ds))"
  proof (cases "i < k")
    case False
    then have "m ! i = 0" using r i by (simp add: rref_with_def)
    then show ?thesis by simp
  next
    case True
    have bx: "bit ?x c \<longleftrightarrow> c < n \<and> bit (solution n nb m piv ds) c" for c using n by (auto simp: bit_pack)
    have "\<exists>j < k. c = low_col (m ! j)" if "bit ?x c" for c
      using that p unfolding bx bit_solution [OF ds] is_pivot_map_def by metis
    then have "dot (m ! i) ?x = bit ?x (low_col (m ! i))" using dot_on_pivots [OF r True] by blast
    also have "\<dots> = parity nb (\<lambda>c. bit (m ! i) (n + c) \<and> ds ! c)"
    proof -
      have "piv (low_col (m ! i)) = Some i" using p True by (simp add: is_pivot_map_def)
      then show ?thesis using lt [OF True] unfolding bx bit_solution [OF ds] by simp
    qed
    also have "\<dots> = dot (m ! i) (push_bit n (pack ds))" by (rule dot_upper [OF ds n, symmetric])
    finally show ?thesis by (simp add: pack_append dot_xor_right)
  qed
qed

text \<open>When every right-hand side has a preimage, no pivot lies among the columns of \<open>B\<close>.\<close>

lemma pivots_in_A:
  assumes r: "rref_with k m" and f: "fits (n + nb) m" and n: "n + nb \<le> 64"
    and im: "\<And>ds. length ds = nb \<Longrightarrow> \<exists>cs. length cs = n \<and> null_space m (pack (cs @ ds))" and i: "i < k"
  shows "low_col (m ! i) < n"
proof (rule ccontr)
  assume "\<not> low_col (m ! i) < n"
  then have ge: "n \<le> low_col (m ! i)" by simp
  have il: "i < length m" and nz: "m ! i \<noteq> 0" using r i by (auto simp: rref_with_def reduced_def)
  have lt: "low_col (m ! i) < n + nb" using rref_pivot_lt [OF r f i] .
  let ?ds = "map (\<lambda>c. c = low_col (m ! i) - n) [0..<nb]"
  obtain cs where cs: "length cs = n" "null_space m (pack (cs @ ?ds))" using im [of ?ds] by auto
  have z: "\<not> bit (m ! i) c" if "c < n" for c using that ge low_col_below [of c "m ! i"] by simp
  have "\<not> dot (m ! i) (pack cs)" unfolding dot_def using z cs(1) by (intro parity_none) (auto simp: bit_pack)
  moreover have "dot (m ! i) (push_bit n (pack ?ds))"
  proof -
    have "parity nb (\<lambda>c. bit (m ! i) (n + c) \<and> ?ds ! c) = parity nb (\<lambda>c. c = low_col (m ! i) - n \<and> bit (m ! i) (n + c))"
      by (intro parity_cong) auto
    also have "\<dots> = bit (m ! i) (n + (low_col (m ! i) - n))" using lt ge by (intro parity_single) simp
    also have "\<dots>" using ge low_col_bit [OF nz] by simp
    finally show ?thesis using dot_upper [of ?ds nb n] n by simp
  qed
  ultimately have "dot (m ! i) (pack (cs @ ?ds))" using cs(1) by (simp add: pack_append dot_xor_right)
  then show False using cs(2) il by (auto simp: null_space_nth)
qed


section \<open>The combined matrix\<close>

fun pad_bits :: "(nat \<times> nat) list \<Rightarrow> bool list \<Rightarrow> bool list" where
  "pad_bits [] bs = []"
| "pad_bits ((wa, wb) # ws) bs = take wb bs @ replicate (wa - wb) False @ pad_bits ws (drop wb bs)"

lemma pad_joinb:
  "list_all2 fits_width vs (map snd ws) \<Longrightarrow> list_all (\<lambda>(wa, wb). wb \<le> wa) ws \<Longrightarrow>
     pad_bits ws (joinb vs (map snd ws)) = joinb vs (map fst ws)"
proof (induction ws arbitrary: vs)
  case (Cons w ws)
  obtain wa wb where w: "w = (wa, wb)" by (cases w)
  obtain v us where vs: "vs = v # us" using Cons.prems(1) by (cases vs) auto
  have f: "fits_width v wb" "wb \<le> wa" using Cons.prems by (auto simp: w vs)
  then have "bits_of v wa = bits_of v wb @ replicate (wa - wb) False"
    by (intro nth_equalityI) (auto simp: nth_append dest: fits_width_bit)
  then show ?case using Cons by (simp add: w vs)
qed simp

lemma dot_or_push:
  assumes "\<And>c. n \<le> c \<Longrightarrow> \<not> bit a c" and "\<And>c. nb \<le> c \<Longrightarrow> \<not> bit b c" and "n + nb \<le> 64"
    and "length cs = n" "length ds = nb"
  shows "dot (a OR push_bit n b) (pack (cs @ ds)) \<longleftrightarrow> (dot a (pack cs) \<noteq> dot b (pack ds))"
proof -
  have "dot (a OR push_bit n b) (pack (cs @ ds)) = parity (n + nb) (\<lambda>c. bit (a OR push_bit n b) c \<and> bit (pack (cs @ ds)) c)"
    unfolding dot_def using assms by (intro parity_le) (auto simp: bit_pack)
  also have "\<dots> = (parity n (\<lambda>c. bit a c \<and> cs ! c) \<noteq> parity nb (\<lambda>c. bit b c \<and> ds ! c))"
    unfolding parity_add
    using assms by (intro arg_cong2 [where f = "(\<noteq>)"] parity_cong) (auto simp: bit_simps bit_pack nth_append)
  also have "parity n (\<lambda>c. bit a c \<and> cs ! c) = dot a (pack cs)"
  proof -
    have "dot a (pack cs) = parity n (\<lambda>c. bit a c \<and> bit (pack cs) c)"
      unfolding dot_def using assms by (intro parity_le) (auto simp: bit_pack)
    also have "\<dots> = parity n (\<lambda>c. bit a c \<and> cs ! c)" using assms by (intro parity_cong) (auto simp: bit_pack)
    finally show ?thesis by simp
  qed
  also have "parity nb (\<lambda>c. bit b c \<and> ds ! c) = dot b (pack ds)"
  proof -
    have "dot b (pack ds) = parity nb (\<lambda>c. bit b c \<and> bit (pack ds) c)"
      unfolding dot_def using assms by (intro parity_le) (auto simp: bit_pack)
    also have "\<dots> = parity nb (\<lambda>c. bit b c \<and> ds ! c)" using assms by (intro parity_cong) (auto simp: bit_pack)
    finally show ?thesis by simp
  qed
  finally show ?thesis .
qed

lemma dot_only_left:
  "length cs = n \<Longrightarrow> (\<And>c. n \<le> c \<Longrightarrow> \<not> bit a c) \<Longrightarrow> dot a (pack (cs @ ds)) = dot a (pack cs)"
  unfolding dot_def by (intro parity_cong) (auto simp: bit_pack nth_append not_le [symmetric])

lemma concat_rows_dot:
  assumes "fits n as" and "fits nb bs" and "n + nb \<le> 64" and "length cs = n" "length ds = nb"
    and "length as = sum_list (map fst ws)" and "length bs = sum_list (map snd ws)" and "list_all (\<lambda>(wa, wb). wb \<le> wa) ws"
  shows "map (\<lambda>w. dot w (pack (cs @ ds))) (concat_rows n ws as bs) =
    map2 (\<noteq>) (map (\<lambda>w. dot w (pack cs)) as) (pad_bits ws (map (\<lambda>w. dot w (pack ds)) bs))"
  using assms
proof (induction ws arbitrary: as bs)
  case (Cons w ws)
  obtain wa wb where w: "w = (wa, wb)" by (cases w)
  have le: "wb \<le> wa" "wa \<le> length as" "wb \<le> length bs" using Cons.prems by (auto simp: w)
  have fa: "\<not> bit (as ! r) c" if "r < wa" "n \<le> c" for r c using Cons.prems(1) that le by (auto simp: fits_def)
  have fb: "\<not> bit (bs ! r) c" if "r < wb" "nb \<le> c" for r c using Cons.prems(2) that le by (auto simp: fits_def)
  have h: "map (\<lambda>w. dot w (pack (cs @ ds))) (map (\<lambda>r. if r < wb then (as ! r) OR push_bit n (bs ! r) else as ! r) [0..<wa]) =
      map2 (\<noteq>) (map (\<lambda>w. dot w (pack cs)) (take wa as)) (take wb (map (\<lambda>w. dot w (pack ds)) bs) @ replicate (wa - wb) False)"
    using le fa fb dot_or_push [OF _ _ Cons.prems(3-5)] dot_only_left [OF Cons.prems(4)]
    by (intro nth_equalityI) (auto simp: nth_append)
  have "map (\<lambda>w. dot w (pack (cs @ ds))) (concat_rows n ws (drop wa as) (drop wb bs)) =
    map2 (\<noteq>) (map (\<lambda>w. dot w (pack cs)) (drop wa as)) (pad_bits ws (map (\<lambda>w. dot w (pack ds)) (drop wb bs)))"
    using Cons.prems by (intro Cons.IH) (auto simp: w fits_def dest: in_set_dropD)
  moreover have "map (\<lambda>w. dot w (pack cs)) as = map (\<lambda>w. dot w (pack cs)) (take wa as) @ map (\<lambda>w. dot w (pack cs)) (drop wa as)"
    by (metis append_take_drop_id map_append)
  moreover have "length (map (\<lambda>w. dot w (pack cs)) (take wa as)) = length (take wb (map (\<lambda>w. dot w (pack ds)) bs) @ replicate (wa - wb) False)"
    using le by simp
  moreover have "map2 (\<noteq>) (u @ v) (y @ z) = map2 (\<noteq>) u y @ map2 (\<noteq>) v z" if "length u = length y" for u v y z :: "bool list"
    using that by simp
  ultimately show ?case using h le
    unfolding w concat_rows.simps pad_bits.simps map_append append_assoc [symmetric] drop_map min_absorb2 [OF le(1)] by (simp only:)
qed simp

section \<open>lstsq\<close>

lemma out_widths_names: "distinct (getOutDimNames l) \<Longrightarrow> out_widths l = map (out_len l) (getOutDimNames l)"
proof (rule nth_equalityI)
  fix k assume "distinct (getOutDimNames l)" "k < length (out_widths l)"
  then show "out_widths l ! k = map (out_len l) (getOutDimNames l) ! k"
    using out_len_nth [of l k] by (simp add: getOutDimNames_def)
qed (simp add: getOutDimNames_def)

lemma in_widths_names: "distinct (getInDimNames l) \<Longrightarrow> in_widths l = map (in_len l) (getInDimNames l)"
  by (auto simp: in_widths_def getInDimNames_def in_len_def)

lemma in_sizes:
  assumes "distinct (getInDimNames l)" and "getTotalInDimSizeLog2 l < 31"
  shows "reshape_dims (map (\<lambda>d. (d, the (getInDimSize l d))) (getInDimNames l)) (getTotalInDimSizeLog2 l)"
    "size_widths (map (\<lambda>d. (d, the (getInDimSize l d))) (getInDimNames l)) = in_widths l"
    "map fst (map (\<lambda>d. (d, the (getInDimSize l d))) (getInDimNames l)) = getInDimNames l"
proof -
  have s: "the (getInDimSize l d) = 2 ^ in_len l d" if "d \<in> set (getInDimNames l)" for d
    using that by (auto simp: getInDimSize_def getInDimSizeLog2_def in_len_def getInDimNames_def
        dest!: map_of_eq_None_iff [THEN iffD1] split: option.splits)
  have lt: "in_len l d < 31" if "d \<in> set (getInDimNames l)" for d
  proof -
    have "in_len l d \<le> sum_list (map (in_len l) (getInDimNames l))" using that by (intro member_le_sum_list) auto
    then show ?thesis using assms total_in_len by simp
  qed
  have e: "map (\<lambda>d. (d, the (getInDimSize l d))) (getInDimNames l) = map (\<lambda>d. (d, 2 ^ in_len l d)) (getInDimNames l)"
    using s by auto
  show w: "size_widths (map (\<lambda>d. (d, the (getInDimSize l d))) (getInDimNames l)) = in_widths l"
    unfolding e in_widths_names [OF assms(1)] using lt by (auto simp: size_widths_def intro!: log2_32_pow dest!: lt)
  show "map fst (map (\<lambda>d. (d, the (getInDimSize l d))) (getInDimNames l)) = getInDimNames l" by (simp add: comp_def)
  show "reshape_dims (map (\<lambda>d. (d, the (getInDimSize l d))) (getInDimNames l)) (getTotalInDimSizeLog2 l)"
    unfolding reshape_dims_def w using assms(1) size_widths_pow [of "getInDimNames l" "in_len l"] lt
    by (simp add: comp_def e del: map_eq_conv)
qed

definition solvable :: "linear_layout \<Rightarrow> linear_layout \<Rightarrow> bool" where
  "solvable A B \<longleftrightarrow> (\<forall>x. valid_ins B x \<longrightarrow> (\<exists>y. valid_ins A y \<and> apply_layout A y = apply_layout B x))"

definition lstsq_dims :: "linear_layout \<Rightarrow> linear_layout \<Rightarrow> bool" where
  "lstsq_dims A B \<longleftrightarrow> getOutDimNames B = getOutDimNames A \<and> getInDimNames A \<noteq> [] \<and> getOutDimNames A \<noteq> [] \<and>
     list_all (\<lambda>od. out_len B od \<le> out_len A od) (getOutDimNames A) \<and>
     getTotalInDimSizeLog2 A < 31 \<and> getTotalInDimSizeLog2 B < 31"

lemma list_all2_mono_widths:
  "list_all2 fits_width vs ws \<Longrightarrow> list_all2 (\<le>) ws ws' \<Longrightarrow> list_all2 fits_width vs ws'"
  by (rule list_all2_trans [of fits_width "(\<le>)" fits_width]) (auto intro: fits_width_mono)

lemma concat_rows_fits:
  assumes "fits n as" and "fits nb bs" and "n + nb \<le> 64"
    and "length as = sum_list (map fst ws)" and "length bs = sum_list (map snd ws)" and "list_all (\<lambda>(wa, wb). wb \<le> wa) ws"
  shows "fits (n + nb) (concat_rows n ws as bs) \<and> length (concat_rows n ws as bs) = length as"
  using assms
proof (induction ws arbitrary: as bs)
  case (Cons w ws)
  obtain wa wb where w: "w = (wa, wb)" by (cases w)
  have le: "wb \<le> wa" "wa \<le> length as" "wb \<le> length bs" using Cons.prems by (auto simp: w)
  have "fits (n + nb) (concat_rows n ws (drop wa as) (drop wb bs)) \<and>
      length (concat_rows n ws (drop wa as) (drop wb bs)) = length (drop wa as)"
    using Cons.prems by (intro Cons.IH) (auto simp: w fits_def dest: in_set_dropD)
  moreover have "\<not> bit (as ! r) c" if "r < wa" "n + nb \<le> c" for r c using Cons.prems(1) that le by (auto simp: fits_def)
  moreover have "\<not> bit (push_bit n (bs ! r)) c" if "r < wb" "n + nb \<le> c" for r c
    using Cons.prems(2) that le by (auto simp: fits_def bit_simps)
  ultimately show ?case using le by (auto simp: w fits_def min_absorb2 bit_or_iff)
qed (simp add: fits_def)

lemma concatMatrices_spec:
  assumes w: "wf A" "wf B" and d: "lstsq_dims A B"
  defines "n \<equiv> getTotalInDimSizeLog2 A" and "nb \<equiv> getTotalInDimSizeLog2 B"
  shows "\<exists>M. concatMatrices A B = Some M \<and> fits (n + nb) M \<and> length M = getTotalOutDimSizeLog2 A \<and>
    (\<forall>cs ds. length cs = n \<longrightarrow> length ds = nb \<longrightarrow>
       null_space M (pack (cs @ ds)) = (out_vals A cs = out_vals B ds))"
proof -
  let ?ws = "map (\<lambda>od. (out_len A od, out_len B od)) (getOutDimNames A)"
  note d = d [unfolded lstsq_dims_def]
  obtain a where a: "getMatrix A = Some a" using wf_rank [OF w(1)] by blast
  obtain b where b: "getMatrix B = Some b" using wf_rank [OF w(2)] by blast
  have ws: "map fst ?ws = out_widths A" "map snd ?ws = out_widths B"
    using d wf_names [OF w(1)] wf_names [OF w(2)] by (simp_all add: out_widths_names comp_def)
  have le: "list_all (\<lambda>(wa, wb). wb \<le> wa) ?ws" using d by (simp add: list_all_iff)
  have tot: "getTotalOutDimSizeLog2 B \<le> getTotalOutDimSizeLog2 A"
    using d wf_names [OF w(1)] wf_names [OF w(2)] by (simp add: total_out_len list_all_iff) (rule sum_list_mono, simp)
  have len: "length a = sum_list (map fst ?ws)" "length b = sum_list (map snd ?ws)"
    unfolding ws using getMatrix_length [OF a] getMatrix_length [OF b] by simp_all
  have n64: "n + nb \<le> 64" using d by (simp add: n_def nb_def)
  note fa = getMatrix_fits [OF a, folded n_def] and fb = getMatrix_fits [OF b, folded nb_def]
  let ?M = "concat_rows n ?ws a b"
  have "concatMatrices A B = Some ?M"
    using a b tot d by (simp add: concatMatrices_def list_all_iff hasOutDim_def n_def)
  moreover have "fits (n + nb) ?M \<and> length ?M = length a" by (rule concat_rows_fits [OF fa fb n64 len le])
  moreover have "null_space ?M (pack (cs @ ds)) = (out_vals A cs = out_vals B ds)"
    if cs: "length cs = n" and ds: "length ds = nb" for cs ds
  proof -
    have fv: "list_all2 fits_width (out_vals B ds) (out_widths A)"
      using le unfolding ws(1,2) [symmetric]
      by (intro list_all2_mono_widths [OF out_vals_fit [OF w(2), folded ws(2)]])
        (simp add: list_all2_conv_all_nth list_all_length)
    have "map (\<lambda>w. dot w (pack (cs @ ds))) ?M = map2 (\<noteq>) (map (\<lambda>w. dot w (pack cs)) a) (pad_bits ?ws (map (\<lambda>w. dot w (pack ds)) b))"
      by (rule concat_rows_dot [OF fa fb n64 cs ds len le])
    also have "\<dots> = map2 (\<noteq>) (joinb (out_vals A cs) (out_widths A)) (joinb (out_vals B ds) (out_widths A))"
      using getMatrix_dot [OF a cs [unfolded n_def]] getMatrix_dot [OF b ds [unfolded nb_def]]
        pad_joinb [of "out_vals B ds" ?ws, unfolded ws, OF out_vals_fit [OF w(2)] le] by (simp only:)
    finally have m: "map (\<lambda>w. dot w (pack (cs @ ds))) ?M =
        map2 (\<noteq>) (joinb (out_vals A cs) (out_widths A)) (joinb (out_vals B ds) (out_widths A))" .
    have "null_space ?M (pack (cs @ ds)) = (\<forall>c \<in> set (map (\<lambda>w. dot w (pack (cs @ ds))) ?M). \<not> c)"
      by (simp add: null_space_def)
    also have "\<dots> = (joinb (out_vals A cs) (out_widths A) = joinb (out_vals B ds) (out_widths A))"
      unfolding m using length_joinb_valid [OF out_vals_fit [OF w(1)], of cs] length_joinb_valid [OF fv]
      by (intro map2_neq_self) simp
    also have "\<dots> = (out_vals A cs = out_vals B ds)" by (rule joinb_inj [OF out_vals_fit [OF w(1)] fv])
    finally show ?thesis .
  qed
  ultimately show ?thesis using getMatrix_length [OF a] by (intro exI [of _ ?M]) simp
qed


lemma lstsq_solution:
  assumes w: "wf A" "wf B" and d: "lstsq_dims A B" and sol: "solvable A B"
  defines "n \<equiv> getTotalInDimSizeLog2 A" and "nb \<equiv> getTotalInDimSizeLog2 B"
  shows "\<exists>M m piv. concatMatrices A B = Some M \<and> inplace_rref_strided M (n + nb) = Some m \<and> pivot_rows n m = Some piv \<and>
    (\<forall>ds. length ds = nb \<longrightarrow> out_vals A (bits_of (solution n nb m piv ds) n) = out_vals B ds)"
proof -
  have n64: "n + nb \<le> 64" using d by (simp add: n_def nb_def lstsq_dims_def)
  obtain M where M: "concatMatrices A B = Some M" "fits (n + nb) M" "length M = getTotalOutDimSizeLog2 A"
    "\<And>cs ds. length cs = n \<Longrightarrow> length ds = nb \<Longrightarrow> null_space M (pack (cs @ ds)) = (out_vals A cs = out_vals B ds)"
    using concatMatrices_spec [OF w d, folded n_def nb_def] by blast
  obtain m where m: "inplace_rref_strided M (n + nb) = Some m" using f2.total [of M "n + nb"] M(3) wf_dims [OF w(1)] n64 by auto
  obtain k where k: "rref_with k m" using f2.echelon [OF m M(2)] by (auto simp: is_rref_def)
  have ns: "null_space m x = null_space M x" for x by (rule row_equiv_null_space [OF f2.equiv [OF m M(2)]])
  have im: "\<exists>cs. length cs = n \<and> null_space m (pack (cs @ ds))" if ds: "length ds = nb" for ds
  proof -
    obtain x where x: "valid_ins B x" "coefs B x = ds" using valid_coefs_surj [OF w(2)] ds by (auto simp: nb_def)
    then obtain y where y: "valid_ins A y" "apply_layout A y = apply_layout B x" using sol by (auto simp: solvable_def)
    have "zip (getOutDimNames A) (out_vals A (coefs A y)) = zip (getOutDimNames B) (out_vals B (coefs B x))"
      using apply_layout_eq [OF w(1) y(1)] apply_layout_eq [OF w(2) x(1)] y(2) by simp
    then have "out_vals A (coefs A y) = out_vals B ds"
      using d x(2) by (metis getOutDimNames_def length_map length_out_vals lstsq_dims_def map_snd_zip)
    then show ?thesis using M(4) [of "coefs A y" ds] ds ns
      by (intro exI [of _ "coefs A y"]) (simp add: n_def)
  qed
  have lt: "low_col (m ! i) < n" if "i < k" for i
    using pivots_in_A [OF k row_equiv_fits [OF f2.equiv [OF m M(2)] M(2)] n64 im that] .
  obtain piv where p: "pivot_rows n m = Some piv" "is_pivot_map k m piv" using pivot_rows_spec [OF k lt] by blast
  have "out_vals A (bits_of (solution n nb m piv ds) n) = out_vals B ds" if ds: "length ds = nb" for ds
    using solution_null [OF k p(2) lt n64 ds] M(4) [of "bits_of (solution n nb m piv ds) n" ds] ds ns by simp
  then show ?thesis using M(1) m p(1) by blast
qed

lemma lstsq_flat:
  assumes "n < 31" and "nb < 31"
  shows "\<exists>flat. mkLayout [(d1, map (\<lambda>c. [solution_basis n m piv c]) [0..<nb])] [(o1, 2 ^ n)] False = Some flat \<and> wf flat \<and>
    getInDimNames flat = [d1] \<and>
    in_widths flat = [nb] \<and> outDims flat = [(o1, 2 ^ n)] \<and> out_widths flat = [n] \<and>
    (\<forall>ds. length ds = nb \<longrightarrow> out_vals flat ds = [solution n nb m piv ds])"
proof -
  let ?bs = "[(d1, map (\<lambda>c. [solution_basis n m piv c]) [0..<nb])]"
  let ?l = "\<lparr>bases = ?bs, outDims = [(o1, 2 ^ n)], rank = 0\<rparr>"
  have lg: "log2_32 (2 ^ n) = n" using assms(1) by (intro log2_32_pow) simp
  have f: "fits_width (solution_basis n m piv c) n" for c
  proof -
    have "take_bit n (solution_basis n m piv c) = solution_basis n m piv c"
      by (rule bit_eqI) (auto simp: bit_take_bit_iff bit_solution_basis)
    then show ?thesis unfolding fits_width_def by (metis take_bit_int_less_exp take_bit_nonnegative)
  qed
  have "layout_data ?l"
    using assms f
    by (auto simp: layout_data_def getInDimNames_def getOutDimNames_def columns_def good_column_def list_all_iff fits_width_def
        getTotalInDimSizeLog2_def getTotalOutDimSizeLog2_def lg small_pow_iff)
  then obtain flat where fl: "mkLayout ?bs [(o1, 2 ^ n)] False = Some flat" "wf flat" "bases flat = ?bs" "outDims flat = [(o1, 2 ^ n)]"
    using mkLayout_total [of ?bs "[(o1, 2 ^ n)]" False] by blast
  have "comp_of 0 (columns flat) = map (solution_basis n m piv) [0..<nb]"
    using fl(3) by (simp add: columns_def comp_of_def comp_def)
  then have "out_vals flat ds = [solution n nb m piv ds]" if "length ds = nb" for ds
    using fl(4) by (simp add: out_vals_def solution_def)
  then show ?thesis using fl lg by (auto simp: in_widths_bases getInDimNames_def out_widths_def)
qed

lemma lin_index_single: "lin_index [v] [w] = v"
  by simp

lemma lin_index_bits: "list_all2 fits_width vs ws \<Longrightarrow> bits_of (lin_index vs ws) (sum_list ws) = joinb vs ws"
  by (simp add: lin_index_joinb length_joinb_valid bit_bval list_eq_iff_nth_eq)

lemma valid_zip:
  assumes "wf l" and "apply_layout l ins = Some ts" and "valid_ins l ins"
  shows "map fst ts = getOutDimNames l" "list_all2 fits_width (map snd ts) (out_widths l)"
  using assms apply_layout_eq [OF assms(1,3)] out_vals_fit [OF assms(1), of "coefs l ins"] by (auto simp: getOutDimNames_def)

lemma coefs_lin_index:
  assumes "wf l" and "valid_ins l ins"
  shows "coefs l ins = bits_of (lin_index (map snd ins) (in_widths l)) (getTotalInDimSizeLog2 l)"
  using assms lin_index_bits [of "map snd ins" "in_widths l"] wf_names [OF assms(1)]
  by (simp add: valid_ins_def coefs_joinb)

lemma lstsq_total:
  assumes w: "wf A" "wf B" and d: "lstsq_dims A B" and sol: "solvable A B"
  shows "\<exists>X. lstsq A B = Some X \<and> wf X \<and> getInDimNames X = getInDimNames B \<and> in_widths X = in_widths B \<and>
    getOutDimNames X = getInDimNames A \<and> out_widths X = in_widths A \<and>
    (\<forall>x. valid_ins B x \<longrightarrow> (\<exists>y. apply_layout X x = Some y \<and> valid_ins A y \<and> apply_layout A y = apply_layout B x))"
proof -
  let ?n = "getTotalInDimSizeLog2 A" and ?nb = "getTotalInDimSizeLog2 B"
  note d' = d [unfolded lstsq_dims_def]
  have n: "?n < 31" "?nb < 31" using d' by auto
  obtain M m piv where M: "concatMatrices A B = Some M" "inplace_rref_strided M (?n + ?nb) = Some m" "pivot_rows ?n m = Some piv"
    and s: "\<And>ds. length ds = ?nb \<Longrightarrow> out_vals A (bits_of (solution ?n ?nb m piv ds) ?n) = out_vals B ds"
    using lstsq_solution [OF w d sol] by blast
  obtain i1 is1 o1 os1 where hd: "getInDimNames A = i1 # is1" "getOutDimNames A = o1 # os1"
    using d' by (meson neq_Nil_conv)
  obtain flat where fl: "mkLayout [(i1, map (\<lambda>c. [solution_basis ?n m piv c]) [0..<?nb])] [(o1, getTotalInDimSize A)] False = Some flat"
    "wf flat" "in_widths flat = [?nb]" "outDims flat = [(o1, 2 ^ ?n)]" "out_widths flat = [?n]"
    and fn: "getInDimNames flat = [i1]"
    and fs: "\<And>ds. length ds = ?nb \<Longrightarrow> out_vals flat ds = [solution ?n ?nb m piv ds]"
    using lstsq_flat [OF n, of i1 m piv o1] by (auto simp: getTotalInDimSize_def)
  have nf: "getTotalInDimSizeLog2 flat = ?nb" "getTotalOutDimSizeLog2 flat = ?n"
    using fl(3,5) sum_in_widths [of flat] sum_out_widths [of flat] by (simp_all del: sum_in_widths sum_out_widths)
  let ?db = "map (\<lambda>d. (d, the (getInDimSize B d))) (getInDimNames B)"
  let ?da = "map (\<lambda>d. (d, the (getInDimSize A d))) (getInDimNames A)"
  note sb = in_sizes [OF conjunct1 [OF wf_names [OF w(2)]] n(2)] and sa = in_sizes [OF conjunct1 [OF wf_names [OF w(1)]] n(1)]
  obtain r where r: "reshapeIns flat ?db = Some r" "wf r" "getInDimNames r = getInDimNames B" "in_widths r = in_widths B"
    "outDims r = outDims flat" "\<And>a b. valid_ins flat a \<Longrightarrow> valid_ins r b \<Longrightarrow>
      lin_index (map snd a) (in_widths flat) = lin_index (map snd b) (in_widths r) \<Longrightarrow> apply_layout r b = apply_layout flat a"
    using reshapeIns_total [OF fl(2), of ?db] sb unfolding nf by (metis (no_types, lifting))
  have nr: "getTotalOutDimSizeLog2 r = ?n" "out_widths r = [?n]"
    using r(5) nf(2) fl(5) by (simp_all add: getTotalOutDimSizeLog2_def out_widths_def)
  obtain X where X: "reshapeOuts r ?da = Some X" "wf X" "getInDimNames X = getInDimNames r" "in_widths X = in_widths r"
    "outDims X = ?da" "\<And>ins. valid_ins r ins \<Longrightarrow> \<exists>os ts. apply_layout r ins = Some os \<and> apply_layout X ins = Some ts \<and>
       lin_index (map snd ts) (out_widths X) = lin_index (map snd os) (out_widths r)"
    using reshapeOuts_total [OF r(2), of ?da] sa unfolding nr by (metis (no_types, lifting))
  have ox: "out_widths X = in_widths A" "getOutDimNames X = getInDimNames A"
    using X(5) sa(2,3) by (simp_all add: out_widths_def size_widths_def getOutDimNames_def)
  have "lstsq A B = Some X" using M fl(1) r(1) X(1) hd by (simp add: lstsq_def)
  moreover have "\<exists>y. apply_layout X x = Some y \<and> valid_ins A y \<and> apply_layout A y = apply_layout B x" if x: "valid_ins B x" for x
  proof -
    let ?v = "lin_index (map snd x) (in_widths B)" and ?a = "\<lambda>v. [(i1, v)]"
    have vr: "valid_ins r x" "valid_ins X x" using x r(3,4) X(3,4) by (simp_all add: valid_ins_def)
    have v: "fits_width ?v ?nb" using x lin_index_joinb [of "map snd x" "in_widths B"] bval_fits
      by (metis length_joinb_valid sum_in_widths valid_ins_def order_refl)
    have va: "valid_ins flat (?a ?v)" using v fl(3) fn by (simp add: valid_ins_def)
    have "coefs flat (?a ?v) = coefs B x"
      using coefs_lin_index [OF fl(2) va] coefs_lin_index [OF w(2) x] fl(3) nf(1) by simp
    then have "apply_layout r x = Some [(o1, solution ?n ?nb m piv (coefs B x))]"
      using r(6) [OF va vr(1)] apply_layout_eq [OF fl(2) va] fs [of "coefs B x"] fl(3,4) r(4) by (simp add: getOutDimNames_def)
    then obtain y where y: "apply_layout X x = Some y" "lin_index (map snd y) (in_widths A) = solution ?n ?nb m piv (coefs B x)"
      using X(6) [OF vr(1)] nr(2) ox(1) by auto
    have vy: "valid_ins A y" using valid_zip [OF X(2) y(1) vr(2)] ox by (simp add: valid_ins_def)
    have "out_vals A (coefs A y) = out_vals B (coefs B x)"
      using coefs_lin_index [OF w(1) vy] y(2) s [of "coefs B x"] by simp
    then show ?thesis using y(1) vy apply_layout_eq [OF w(1) vy] apply_layout_eq [OF w(2) x] d' by auto
  qed
  ultimately show ?thesis using X(2-4) r(3,4) ox by auto
qed

end
