(* ===== verification/LayoutDivide.thy ===== *)
theory LayoutDivide
  imports LayoutAlgebra
begin

text \<open>
  \<open>divideLeft\<close> and \<open>divideRight\<close> of \<open>lib/Tools/LinearLayout.cpp\<close>. The outer None is a stopped
  compiler (the constructor of the quotient, or the final assertion), the inner None is
  \<open>std::nullopt\<close>.
\<close>

section \<open>The code\<close>

definition div_out_sizes :: "linear_layout \<Rightarrow> linear_layout \<Rightarrow> (dim \<times> int) list option" where
  "div_out_sizes A B =
     (if list_all (\<lambda>od. out_len B od \<le> out_len A od) (getOutDimNames A)
      then Some (map (\<lambda>od. (od, 2 ^ (out_len A od - out_len B od))) (getOutDimNames A)) else None)"

definition basis_of :: "linear_layout \<Rightarrow> dim \<Rightarrow> nat \<Rightarrow> dim \<Rightarrow> int" where
  "basis_of l d p od = the (getBasis l d p od)"

definition divl_dim :: "linear_layout \<Rightarrow> linear_layout \<Rightarrow> dim \<Rightarrow> int list list option" where
  "divl_dim A B d =
     (let inA = in_len A d; inB = in_len B d; outs = getOutDimNames A
      in if inA < inB then None
         else if list_ex (\<lambda>i. list_ex (\<lambda>od. basis_of A d i od \<noteq> (if hasOutDim B od then basis_of B d i od else 0)) outs)
                [0..<inB] then None
         else if list_ex (\<lambda>i. list_ex (\<lambda>od. basis_of A d i od AND (2 ^ out_len B od - 1) \<noteq> 0) outs) [inB..<inA] then None
         else Some (map (\<lambda>i. map (\<lambda>od. drop_bit (out_len B od) (basis_of A d i od)) outs) [inB..<inA]))"

definition divr_dim :: "linear_layout \<Rightarrow> linear_layout \<Rightarrow> dim \<Rightarrow> int list list option" where
  "divr_dim A B d =
     (let inA = in_len A d; inB = in_len B d; inC = inA - inB
      in if inA < inB then None
         else if list_ex (\<lambda>i. list_ex (\<lambda>od.
                   let shift = out_len A od - out_len B od; v = basis_of A d i od
                   in v AND (2 ^ shift - 1) \<noteq> 0 \<or> drop_bit shift v \<noteq> basis_of B d (i - inC) od) (getOutDimNames B))
                [inC..<inA] then None
         else Some (map (\<lambda>i. map (\<lambda>od. basis_of A d i od) (getOutDimNames A)) [0..<inC]))"

definition div_bases :: "(dim \<Rightarrow> int list list option) \<Rightarrow> dim list \<Rightarrow> basesT option" where
  "div_bases f ds = those (map (\<lambda>d. map_option (Pair d) (f d)) ds)"

definition dims_contained :: "linear_layout \<Rightarrow> linear_layout \<Rightarrow> bool" where
  "dims_contained B A \<longleftrightarrow> list_all (\<lambda>d. d \<in> set (getInDimNames A)) (getInDimNames B) \<and>
     list_all (\<lambda>d. d \<in> set (getOutDimNames A)) (getOutDimNames B)"

definition divideLeft :: "linear_layout \<Rightarrow> linear_layout \<Rightarrow> linear_layout option option" where
  "divideLeft A B =
     (if \<not> dims_contained B A then Some None
      else case (div_out_sizes A B, div_bases (divl_dim A B) (getInDimNames A)) of
        (Some cOuts, Some cBases) \<Rightarrow> do {
          C \<leftarrow> mkLayout cBases cOuts (isSurjective A \<and> isSurjective B);
          BC \<leftarrow> layout_prod B C;
          if layout_eq BC A then Some (Some C) else None
        }
      | _ \<Rightarrow> Some None)"

definition divideRight :: "linear_layout \<Rightarrow> linear_layout \<Rightarrow> linear_layout option option" where
  "divideRight A B =
     (if \<not> dims_contained B A then Some None
      else case (div_out_sizes A B, div_bases (divr_dim A B) (getInDimNames A)) of
        (Some cOuts, Some cBases) \<Rightarrow> do {
          C \<leftarrow> mkLayout cBases cOuts (isSurjective A \<and> isSurjective B);
          CB \<leftarrow> layout_prod C B;
          if layout_eq CB A then Some (Some C) else None
        }
      | _ \<Rightarrow> Some None)"

section \<open>Entries\<close>

lemma those_map_Some: "those (map (\<lambda>d. map_option (Pair d) (f d)) ds) = Some bs \<longleftrightarrow>
    (\<forall>d \<in> set ds. f d \<noteq> None) \<and> bs = map (\<lambda>d. (d, the (f d))) ds"
  by (induction ds arbitrary: bs) (auto split: option.splits)

lemma basis_of_entry: "p < in_len l d \<Longrightarrow> od \<in> set (getOutDimNames l) \<Longrightarrow> basis_of l d p od = entry l d p od"
  by (simp add: basis_of_def entry_def hasOutDim_def)

lemma bases_entries:
  assumes "wf l"
  shows "bases l = map (\<lambda>d. (d, map (\<lambda>p. map (entry l d p) (getOutDimNames l)) [0..<in_len l d])) (getInDimNames l)"
proof (rule nth_equalityI)
  fix i assume i: "i < length (bases l)"
  obtain d bs where e: "bases l ! i = (d, bs)" by (cases "bases l ! i")
  have n: "distinct (getInDimNames l)" "distinct (getOutDimNames l)" using wf_names [OF assms] by auto
  have d: "getInDimNames l ! i = d" using i e by (simp add: getInDimNames_def)
  have m: "map_of (bases l) d = Some bs" using n(1) i e by (metis getInDimNames_def map_of_is_SomeI nth_mem)
  have "map (entry l d p) (getOutDimNames l) = bs ! p" if p: "p < length bs" for p
  proof (rule nth_equalityI)
    have "bs ! p \<in> set (columns l)" using m p map_of_SomeD nth_mem by (fastforce simp: in_columns)
    then show l: "length (map (entry l d p) (getOutDimNames l)) = length (bs ! p)"
      using wf_wide [OF assms] by (simp add: wide_def list_all_iff getOutDimNames_def)
    fix k assume "k < length (map (entry l d p) (getOutDimNames l))"
    then have k: "k < length (outDims l)" and kn: "k < length (getOutDimNames l)" by (simp_all add: getOutDimNames_def)
    have "getOutDimNames l ! k \<in> set (getOutDimNames l)" using kn by simp
    then show "map (entry l d p) (getOutDimNames l) ! k = bs ! p ! k"
      using getBasis_nth [OF wf_wide [OF assms] m p k n(2)] kn p m
      by (simp add: entry_def hasOutDim_def in_len_def)
  qed
  then have "map (\<lambda>p. map (entry l d p) (getOutDimNames l)) [0..<length bs] = bs"
    by (intro nth_equalityI) auto
  moreover have "in_len l d = length bs" using m by (simp add: in_len_def)
  moreover have "i < length (getInDimNames l)" using i by (simp add: getInDimNames_def)
  ultimately show "bases l ! i = map (\<lambda>d. (d, map (\<lambda>p. map (entry l d p) (getOutDimNames l)) [0..<in_len l d])) (getInDimNames l) ! i"
    using d e by simp
qed (simp add: getInDimNames_def)

lemma outDims_out_len:
  assumes "wf l" shows "outDims l = map (\<lambda>od. (od, 2 ^ out_len l od)) (getOutDimNames l)"
proof (rule nth_equalityI)
  fix k assume k: "k < length (outDims l)"
  then show "outDims l ! k = map (\<lambda>od. (od, 2 ^ out_len l od)) (getOutDimNames l) ! k"
    using out_len_nth [of l k] wf_names [OF assms] wf_out_pow [OF assms k]
    by (simp add: getOutDimNames_def out_widths_def case_prod_unfold prod_eq_iff)
qed (simp add: getOutDimNames_def)

lemma layout_eq_iff: "wf a \<Longrightarrow> wf b \<Longrightarrow> layout_eq a b \<longleftrightarrow> bases a = bases b \<and> outDims a = outDims b"
proof -
  have "map fst xs = map fst ys \<Longrightarrow> list_all (\<lambda>((_, s), (_, t)). s = t) (zip xs ys) \<longleftrightarrow> xs = ys"
    for xs ys :: "(dim \<times> int) list"
    by (induction xs arbitrary: ys) (auto simp: Cons_eq_map_conv map_eq_Cons_conv)
  then show ?thesis by (auto simp: layout_eq_def equalIgnoringOutDimSizes_def getOutDimNames_def)
qed


section \<open>divideLeft\<close>

definition quot_layout :: "linear_layout \<Rightarrow> linear_layout \<Rightarrow> linear_layout" where
  "quot_layout A B = \<lparr>bases = map (\<lambda>d. (d, map (\<lambda>i. map (\<lambda>od. drop_bit (out_len B od) (entry A d i od)) (getOutDimNames A))
       [in_len B d..<in_len A d])) (getInDimNames A),
     outDims = map (\<lambda>od. (od, 2 ^ (out_len A od - out_len B od))) (getOutDimNames A), rank = 0\<rparr>"

text \<open>The block structure that the code checks.\<close>

definition divl_ok :: "linear_layout \<Rightarrow> linear_layout \<Rightarrow> bool" where
  "divl_ok A B \<longleftrightarrow> (\<forall>od \<in> set (getOutDimNames A). out_len B od \<le> out_len A od) \<and>
     (\<forall>d \<in> set (getInDimNames A). in_len B d \<le> in_len A d \<and>
        (\<forall>od \<in> set (getOutDimNames A). (\<forall>i < in_len B d. entry A d i od = entry B d i od) \<and>
           (\<forall>i. in_len B d \<le> i \<longrightarrow> i < in_len A d \<longrightarrow> take_bit (out_len B od) (entry A d i od) = 0)))"

lemma and_mask_zero: "v AND (2 ^ n - 1) = take_bit n (v::int)"
  by (simp add: take_bit_eq_mask mask_eq_exp_minus_1)

lemma divl_dim_entry:
  "divl_dim A B d =
     (if in_len A d < in_len B d then None
      else if list_ex (\<lambda>i. list_ex (\<lambda>od. entry A d i od \<noteq> entry B d i od) (getOutDimNames A)) [0..<in_len B d] then None
      else if list_ex (\<lambda>i. list_ex (\<lambda>od. take_bit (out_len B od) (entry A d i od) \<noteq> 0) (getOutDimNames A)) [in_len B d..<in_len A d]
      then None
      else Some (map (\<lambda>i. map (\<lambda>od. drop_bit (out_len B od) (entry A d i od)) (getOutDimNames A)) [in_len B d..<in_len A d]))"
proof (cases "in_len A d < in_len B d")
  case False
  have b: "basis_of A d i od = entry A d i od" if "i < in_len A d" "od \<in> set (getOutDimNames A)" for i od
    using that by (rule basis_of_entry)
  have e: "(if hasOutDim B od then basis_of B d i od else 0) = entry B d i od" if "i < in_len B d" for i od
    using that by (simp add: entry_def basis_of_def)
  have "list_ex (\<lambda>i. list_ex (\<lambda>od. basis_of A d i od \<noteq> (if hasOutDim B od then basis_of B d i od else 0)) (getOutDimNames A)) [0..<in_len B d]
      = list_ex (\<lambda>i. list_ex (\<lambda>od. entry A d i od \<noteq> entry B d i od) (getOutDimNames A)) [0..<in_len B d]"
    using False by (intro list_ex_cong refl) (simp add: e b del: if_split)
  moreover have "list_ex (\<lambda>i. list_ex (\<lambda>od. basis_of A d i od AND (2 ^ out_len B od - 1) \<noteq> 0) (getOutDimNames A)) [in_len B d..<in_len A d]
      = list_ex (\<lambda>i. list_ex (\<lambda>od. take_bit (out_len B od) (entry A d i od) \<noteq> 0) (getOutDimNames A)) [in_len B d..<in_len A d]"
    by (intro list_ex_cong refl) (simp add: b and_mask_zero)
  moreover have "map (\<lambda>i. map (\<lambda>od. drop_bit (out_len B od) (basis_of A d i od)) (getOutDimNames A)) [in_len B d..<in_len A d]
      = map (\<lambda>i. map (\<lambda>od. drop_bit (out_len B od) (entry A d i od)) (getOutDimNames A)) [in_len B d..<in_len A d]"
    by (intro map_cong refl) (simp add: b)
  ultimately show ?thesis unfolding divl_dim_def Let_def by (simp only:)
qed (simp add: divl_dim_def)

lemma divl_dim_Some:
  "(\<exists>bs. divl_dim A B d = Some bs) \<longleftrightarrow> in_len B d \<le> in_len A d \<and>
        (\<forall>od \<in> set (getOutDimNames A). (\<forall>i < in_len B d. entry A d i od = entry B d i od) \<and>
           (\<forall>i. in_len B d \<le> i \<longrightarrow> i < in_len A d \<longrightarrow> take_bit (out_len B od) (entry A d i od) = 0))"
  "divl_dim A B d = Some bs \<Longrightarrow> bs =
        map (\<lambda>i. map (\<lambda>od. drop_bit (out_len B od) (entry A d i od)) (getOutDimNames A)) [in_len B d..<in_len A d]"
  unfolding divl_dim_entry list_ex_iff set_upt
  by (simp add: not_less, meson atLeastLessThan_iff le0) (simp split: if_splits)

lemma divl_checks:
  assumes "wf A"
  shows "(case (div_out_sizes A B, div_bases (divl_dim A B) (getInDimNames A)) of
      (Some cOuts, Some cBases) \<Rightarrow> divl_ok A B \<and> cOuts = outDims (quot_layout A B) \<and> cBases = bases (quot_layout A B)
    | _ \<Rightarrow> \<not> divl_ok A B)"
proof (cases "divl_ok A B")
  case True
  then have sm: "\<exists>bs. divl_dim A B d = Some bs" if "d \<in> set (getInDimNames A)" for d
    using that unfolding divl_dim_Some(1) divl_ok_def by blast
  then have "map (\<lambda>d. (d, the (divl_dim A B d))) (getInDimNames A) = bases (quot_layout A B)"
    using divl_dim_Some(2) by (fastforce simp: quot_layout_def)
  then have "div_bases (divl_dim A B) (getInDimNames A) = Some (bases (quot_layout A B))"
    using sm by (fastforce simp: div_bases_def those_map_Some)
  moreover have "div_out_sizes A B = Some (outDims (quot_layout A B))"
    using True by (simp add: div_out_sizes_def divl_ok_def list_all_iff quot_layout_def)
  ultimately show ?thesis using True by simp
next
  case False
  have "divl_ok A B" if "div_out_sizes A B = Some cOuts" "div_bases (divl_dim A B) (getInDimNames A) = Some cBases" for cOuts cBases
  proof -
    have "\<exists>bs. divl_dim A B d = Some bs" if "d \<in> set (getInDimNames A)" for d
      using that \<open>div_bases _ _ = _\<close> by (auto simp: div_bases_def those_map_Some)
    then show ?thesis using \<open>div_out_sizes A B = _\<close> unfolding divl_dim_Some(1) divl_ok_def
      by (auto simp: div_out_sizes_def list_all_iff split: if_splits)
  qed
  then show ?thesis using False
    by (cases "div_out_sizes A B"; cases "div_bases (divl_dim A B) (getInDimNames A)") auto
qed

lemma quot_names [simp]:
  "getInDimNames (quot_layout A B) = getInDimNames A" "getOutDimNames (quot_layout A B) = getOutDimNames A"
  by (simp_all add: quot_layout_def getInDimNames_def getOutDimNames_def comp_def)

lemma in_len_quot: "d \<in> set (getInDimNames A) \<Longrightarrow> in_len (quot_layout A B) d = in_len A d - in_len B d"
  unfolding in_len_def [of "quot_layout A B"] by (simp add: quot_layout_def map_of_map_restrict)

lemma out_len_lt:
  assumes "wf A" shows "out_len A od < 31"
proof (cases "map_of (outDims A) od")
  case (Some s)
  then have "small_pow s" using assms by (auto simp: wf_def list_all_iff dest!: map_of_SomeD)
  then show ?thesis using Some small_powE by (simp add: out_len_def)
qed (simp add: out_len_def)

lemma out_len_quot:
  assumes "wf A" and "od \<in> set (getOutDimNames A)"
  shows "out_len (quot_layout A B) od = out_len A od - out_len B od"
proof -
  have "out_len A od - out_len B od < 32" using out_len_lt [OF assms(1), of od] by simp
  then show ?thesis unfolding out_len_def [of "quot_layout A B"]
    using assms(2) by (simp add: quot_layout_def map_of_map_restrict)
qed

lemma entry_quot:
  assumes "wf A" and "d \<in> set (getInDimNames A)" and "od \<in> set (getOutDimNames A)" and "p < in_len A d - in_len B d"
  shows "entry (quot_layout A B) d p od = drop_bit (out_len B od) (entry A d (in_len B d + p) od)"
proof -
  obtain k where k: "k < length (getOutDimNames A)" "getOutDimNames A ! k = od" using assms(3) by (auto simp: in_set_conv_nth)
  have "getOutDimIndex (quot_layout A B) od = Some k"
    using index_of_nth [of "getOutDimNames A" k] wf_names [OF assms(1)] k by (simp add: getOutDimIndex_def)
  moreover have "map_of (bases (quot_layout A B)) d = Some (map (\<lambda>i. map (\<lambda>od. drop_bit (out_len B od) (entry A d i od)) (getOutDimNames A))
       [in_len B d..<in_len A d])"
    using assms(2) by (simp add: quot_layout_def map_of_map_restrict)
  ultimately have "getBasis (quot_layout A B) d p od = Some (drop_bit (out_len B od) (entry A d (in_len B d + p) od))"
    using assms(4) k by (simp add: getBasis_def getBasisVec_def)
  then show ?thesis using assms by (simp add: entry_def in_len_quot hasOutDim_def)
qed

lemma merged_quot:
  assumes "wf A" and "dims_contained B A"
  shows "merged B (quot_layout A B) (getInDimNames A) (getOutDimNames A)"
  using assms wf_names [OF assms(1)] by (auto simp: merged_def dims_contained_def list_all_iff)

lemma push_drop: "take_bit n v = 0 \<Longrightarrow> push_bit n (drop_bit n v) = (v::int)"
  using bits_ident [of n v] by simp

lemma in_len_contained: "dims_contained B A \<Longrightarrow> d \<notin> set (getInDimNames A) \<Longrightarrow> in_len B d = 0"
  by (auto simp: dims_contained_def list_all_iff intro!: in_len_absent)

lemma raw_prod_quot:
  assumes w: "wf A" and ok: "divl_ok A B"
  shows "bases (raw_prod B (quot_layout A B) (getInDimNames A) (getOutDimNames A)) = bases A"
    "outDims (raw_prod B (quot_layout A B) (getInDimNames A) (getOutDimNames A)) = outDims A"
proof -
  have e: "prod_entry B (quot_layout A B) d p od = entry A d p od"
    if "d \<in> set (getInDimNames A)" "od \<in> set (getOutDimNames A)" "p < in_len A d" for d p od
  proof (cases "p < in_len B d")
    case True
    then show ?thesis using ok that by (simp add: prod_entry_eq divl_ok_def)
  next
    case False
    then have "take_bit (out_len B od) (entry A d p od) = 0" using ok that by (simp add: divl_ok_def)
    then show ?thesis using False that ok
      by (simp add: prod_entry_eq in_len_quot entry_quot [OF w] push_drop divl_ok_def)
  qed
  have "in_len B d + in_len (quot_layout A B) d = in_len A d" if "d \<in> set (getInDimNames A)" for d
    using that ok by (simp add: in_len_quot divl_ok_def)
  then show "bases (raw_prod B (quot_layout A B) (getInDimNames A) (getOutDimNames A)) = bases A"
    unfolding bases_entries [OF w] using e by (auto simp: raw_prod_def prod_bases_def)
  have "out_len B od + out_len (quot_layout A B) od = out_len A od" if "od \<in> set (getOutDimNames A)" for od
    using that ok by (simp add: out_len_quot [OF w] divl_ok_def)
  then show "outDims (raw_prod B (quot_layout A B) (getInDimNames A) (getOutDimNames A)) = outDims A"
    unfolding outDims_out_len [OF w] by (auto simp: raw_prod_def)
qed

lemma sum_list_mono_map: "(\<And>x. x \<in> set xs \<Longrightarrow> f x \<le> g x) \<Longrightarrow> sum_list (map f xs) \<le> (sum_list (map g xs) :: nat)"
  by (induction xs) (auto intro: add_mono)

lemma fits_width_drop_0: "fits_width v n \<Longrightarrow> drop_bit n v = 0"
  by (simp add: drop_bit_eq_div fits_width_def)

lemma quot_data:
  assumes w: "wf A" shows "layout_data (quot_layout A B)"
proof -
  let ?Q = "quot_layout A B"
  have n: "distinct (getInDimNames A)" "distinct (getOutDimNames A)" using wf_names [OF w] by auto
  have lt: "out_len A od - out_len B od < 31" for od using out_len_lt [OF w, of od] by simp
  have p: "list_all (\<lambda>(_, s). small_pow s) (outDims ?Q)" unfolding quot_layout_def using lt by (simp add: size_widths_pow)
  have "getTotalInDimSizeLog2 ?Q \<le> getTotalInDimSizeLog2 A"
    using n by (simp add: total_in_len in_len_quot cong: map_cong) (rule sum_list_mono_map, simp)
  moreover have "getTotalOutDimSizeLog2 ?Q \<le> getTotalOutDimSizeLog2 A"
    using n by (simp add: total_out_len out_len_quot [OF w] cong: map_cong) (rule sum_list_mono_map, simp)
  moreover have "good_column (outDims ?Q) c" if cc: "c \<in> set (columns ?Q)" for c
  proof -
    obtain d i where c: "c = map (\<lambda>od. drop_bit (out_len B od) (entry A d i od)) (getOutDimNames A)"
      using cc by (auto simp: columns_def quot_layout_def)
    have "log2_32 (2 ^ (out_len A od - out_len B od)) = out_len A od - out_len B od" for od
      using lt [of od] by (intro log2_32_pow) simp
    then have "size_widths (outDims ?Q) = map (\<lambda>od. out_len A od - out_len B od) (getOutDimNames A)"
      by (simp add: size_widths_def quot_layout_def)
    moreover have "fits_width (drop_bit (out_len B od) (entry A d i od)) (out_len A od - out_len B od)" for od
    proof (cases "out_len B od \<le> out_len A od")
      case True
      then show ?thesis using entry_fits [OF w, of d i od] by (intro fits_width_drop) simp
    next
      case False
      then have "fits_width (entry A d i od) (out_len B od)" 
        using False by (intro fits_width_mono [OF entry_fits [OF w]]) simp
      then have "drop_bit (out_len B od) (entry A d i od) = 0" by (rule fits_width_drop_0)
      then show ?thesis by (simp add: fits_width_def)
    qed
    ultimately show ?thesis unfolding good_column_fits [OF p] c by (simp add: list_all2_conv_all_nth)
  qed
  ultimately show ?thesis using wf_dims [OF w] n p by (simp add: layout_data_def list_all_iff)
qed

text \<open>The high part of a surjective product is surjective.\<close>

lemma surj_outer:
  assumes p: "layout_data (raw_prod a b ins outs)" and wa: "wf a" and db: "layout_data b" and m: "merged a b ins outs"
    and l: "\<And>od. od \<in> set outs \<Longrightarrow> out_len (raw_prod a b ins outs) od = out_len a od + out_len b od"
    and d: "distinct (getInDimNames a)" "distinct (getInDimNames b)"
    and s: "surj_vals (raw_prod a b ins outs)"
  shows "surj_vals b"
  unfolding surj_vals_named [OF db]
proof (intro allI impI)
  note md = m [unfolded merged_def]
  fix t assume t: "\<forall>od \<in> set (getOutDimNames b). fits_width (t od) (out_len b od)"
  let ?T = "\<lambda>od. if od \<in> set (getOutDimNames b) then push_bit (out_len a od) (t od) else 0"
  have "\<forall>od \<in> set outs. fits_width (?T od) (out_len (raw_prod a b ins outs) od)"
    using t l fits_width_push by (auto simp: fits_width_def [of 0])
  then obtain v where v: "\<forall>od \<in> set outs. dcomp (raw_prod a b ins outs) od v = ?T od"
    using spec [OF s [unfolded surj_vals_named [OF p] raw_prod_names], of ?T] by blast
  have "dcomp b od (\<lambda>d. drop_bit (in_len a d) (v d)) = t od" if "od \<in> set (getOutDimNames b)" for od
  proof -
    have o: "od \<in> set outs" using that md by auto
    have "dcomp a od v XOR push_bit (out_len a od) (dcomp b od (\<lambda>d. drop_bit (in_len a d) (v d))) = push_bit (out_len a od) (t od)"
      using dcomp_raw_prod [of ins a b od outs v] md d o v that by auto
    then have "drop_bit (out_len a od) (dcomp a od v XOR push_bit (out_len a od) (dcomp b od (\<lambda>d. drop_bit (in_len a d) (v d)))) = t od"
      by (simp add: drop_bit_push_bit_int)
    then show ?thesis using xor_push_bit(2) [OF dcomp_fits [OF wa]] by simp
  qed
  then show "\<exists>vals. \<forall>od \<in> set (getOutDimNames b). dcomp b od vals = t od" by blast
qed


lemma divl_quot:
  assumes w: "wf A" "wf B" and cont: "dims_contained B A" and ok: "divl_ok A B"
    and cp: "compatible (getInDimNames B) (getInDimNames A)" "compatible (getOutDimNames B) (getOutDimNames A)"
  shows "\<exists>C BC. mkLayout (bases (quot_layout A B)) (outDims (quot_layout A B)) (isSurjective A \<and> isSurjective B) = Some C \<and>
    wf C \<and> bases C = bases (quot_layout A B) \<and> outDims C = outDims (quot_layout A B) \<and>
    layout_prod B C = Some BC \<and> layout_eq BC A"
proof -
  let ?Q = "quot_layout A B" and ?r = "raw_prod B (quot_layout A B) (getInDimNames A) (getOutDimNames A)"
  have Q: "\<lparr>bases = bases ?Q, outDims = outDims ?Q, rank = 0\<rparr> = ?Q" by (simp add: quot_layout_def)
  note r = raw_prod_quot [OF w(1) ok]
  have rA: "?r = A\<lparr>rank := 0\<rparr>" using r by (simp add: raw_prod_def)
  have dr: "layout_data ?r" "surj_vals ?r = surj_vals A" "out_len ?r od = out_len A od" for od
    using wf_layout_data [OF w(1)] by (simp_all only: rA surj_vals_rank) (simp_all add: layout_data_def out_len_def)
  have ol: "out_len ?r od = out_len B od + out_len ?Q od" if "od \<in> set (getOutDimNames A)" for od
    using that ok by (simp add: dr(3) out_len_quot [OF w(1)] divl_ok_def)
  have "\<exists>C. mkLayout (bases ?Q) (outDims ?Q) (isSurjective A \<and> isSurjective B) = Some C \<and> wf C \<and>
      bases C = bases ?Q \<and> outDims C = outDims ?Q"
  proof (rule mkLayout_total; unfold Q)
    show d: "layout_data ?Q" by (rule quot_data [OF w(1)])
    assume "isSurjective A \<and> isSurjective B"
    then have "surj_vals ?r" using isSurjective_vals [OF w(1)] dr(2) by simp
    then show "surj_vals ?Q"
      using surj_outer [OF dr(1) w(2) d merged_quot [OF w(1) cont] ol] wf_names [OF w(1)] wf_names [OF w(2)] by simp
  qed
  then obtain C where C: "mkLayout (bases ?Q) (outDims ?Q) (isSurjective A \<and> isSurjective B) = Some C" "wf C"
    "bases C = bases ?Q" "outDims C = outDims ?Q" by blast
  have sh: "getInDimNames C = getInDimNames A" "getOutDimNames C = getOutDimNames A" "in_len C = in_len ?Q" "out_len C = out_len ?Q"
    using C(3,4) quot_names [of A B] by (simp_all add: getInDimNames_def getOutDimNames_def fun_eq_iff in_len_def out_len_def)
  have le: "getTotalInDimSizeLog2 B + getTotalInDimSizeLog2 C = getTotalInDimSizeLog2 A"
    "getTotalOutDimSizeLog2 B + getTotalOutDimSizeLog2 C = getTotalOutDimSizeLog2 A"
    using wf_names [OF w(1)] wf_names [OF w(2)] ok cont out_len_quot [OF w(1)]
    by (simp_all add: total_in_len total_out_len sh in_len_quot divl_ok_def dims_contained_def list_all_iff subset_iff
        in_len_absent out_len_absent sum_support [of "getInDimNames A" "getInDimNames B", symmetric]
        sum_support [of "getOutDimNames A" "getOutDimNames B", symmetric] flip: sum_list_addf cong: map_cong)
  have "out_len B od + out_len C od < 31" if "od \<in> set (getOutDimNames B @ getOutDimNames C)" for od
  proof -
    have "od \<in> set (getOutDimNames A)" using that cont by (auto simp: sh dims_contained_def list_all_iff)
    then show ?thesis using ol [of od] dr(3) [of od] out_len_lt [OF w(1), of od] by (simp add: sh)
  qed
  then have pf: "prod_fits B C" using le wf_dims [OF w(1)] by (simp add: prod_fits_def list_all_iff)
  have "supremum (getInDimNames B) (getInDimNames C) = Some (getInDimNames A)"
    "supremum (getOutDimNames B) (getOutDimNames C) = Some (getOutDimNames A)"
    using supremum_absorb cp wf_names [OF w(1)] wf_names [OF w(2)] cont
    by (auto simp: sh dims_contained_def list_all_iff)
  then obtain BC where BC: "layout_prod B C = Some BC" "wf BC"
    "bases BC = bases (raw_prod B C (getInDimNames A) (getOutDimNames A))"
    "outDims BC = outDims (raw_prod B C (getInDimNames A) (getOutDimNames A))"
    using layout_prod_total [OF w(2) C(2) pf] by auto
  have "getBasis C = getBasis ?Q"
    using C(3,4) by (simp add: fun_eq_iff getBasis_def getBasisVec_def getOutDimIndex_def getOutDimNames_def)
  then have "raw_prod B C (getInDimNames A) (getOutDimNames A) = ?r"
    by (simp add: raw_prod_def prod_bases_def prod_entry_def [abs_def] sh hasInDim_def hasOutDim_def Let_def cong: if_cong)
  then have "layout_eq BC A" using BC r layout_eq_iff [OF BC(2) w(1)] by simp
  then show ?thesis using C BC(1) by blast
qed

text \<open>
  \<open>divideLeft\<close> never stops the compiler, and its answer is exact: a quotient exactly when \<open>A\<close> has the
  block structure, and then the product gives \<open>A\<close> back.
\<close>

lemma divideLeft_spec:
  assumes w: "wf A" "wf B"
    and cp: "compatible (getInDimNames B) (getInDimNames A)" "compatible (getOutDimNames B) (getOutDimNames A)"
  shows "if dims_contained B A \<and> divl_ok A B
    then \<exists>C BC. divideLeft A B = Some (Some C) \<and> wf C \<and> bases C = bases (quot_layout A B) \<and>
       outDims C = outDims (quot_layout A B) \<and> layout_prod B C = Some BC \<and> layout_eq BC A
    else divideLeft A B = Some None"
proof (cases "dims_contained B A \<and> divl_ok A B")
  case True
  then obtain C BC where C: "mkLayout (bases (quot_layout A B)) (outDims (quot_layout A B)) (isSurjective A \<and> isSurjective B) = Some C"
    "wf C" "bases C = bases (quot_layout A B)" "outDims C = outDims (quot_layout A B)" "layout_prod B C = Some BC" "layout_eq BC A"
    using divl_quot [OF w _ _ cp] by blast
  have "div_out_sizes A B = Some (outDims (quot_layout A B))"
    "div_bases (divl_dim A B) (getInDimNames A) = Some (bases (quot_layout A B))"
    using divl_checks [OF w(1), of B] True by (auto split: option.splits)
  then have "divideLeft A B = Some (Some C)" using C True by (simp add: divideLeft_def)
  then show ?thesis using C True by auto
next
  case False
  then show ?thesis using divl_checks [OF w(1), of B]
    by (cases "dims_contained B A"; cases "div_out_sizes A B"; cases "div_bases (divl_dim A B) (getInDimNames A)")
      (auto simp: divideLeft_def)
qed

end
