(* ===== verification/LayoutInvert.thy ===== *)
theory LayoutInvert
  imports LayoutSolve LayoutDivide
begin

text \<open>
  What \<open>invertAndCompose\<close>, \<open>pseudoinvert\<close> and \<open>invert\<close> (modelled in LayoutSolve) compute: sublayouts over
  some inputs, the identity factors multiplied back for the dims both layouts share, the reduced
  problem \<open>lstsq\<close> solves, and the inverse of an invertible layout.
\<close>

section \<open>Layouts by name\<close>

lemma valid_named:
  assumes "distinct (getInDimNames l)"
  shows "valid_ins l (map (\<lambda>d. (d, vals d)) (getInDimNames l)) \<longleftrightarrow>
    (\<forall>d \<in> set (getInDimNames l). fits_width (vals d) (in_len l d))"
  using in_widths_names [OF assms]
  by (simp add: valid_ins_def comp_def list_all2_map1 list_all2_map2 list_all2_same)

lemma valid_ins_map:
  assumes "distinct (getInDimNames l)" and "map fst x = getInDimNames l"
  shows "x = map (\<lambda>d. (d, the (map_of x d))) (getInDimNames l)"
  using assoc_self [of x] assms by simp

lemma valid_ins_iff:
  assumes "distinct (getInDimNames l)"
  shows "valid_ins l x \<longleftrightarrow> map fst x = getInDimNames l \<and>
    (\<forall>d \<in> set (getInDimNames l). fits_width (the (map_of x d)) (in_len l d))"
proof (cases "map fst x = getInDimNames l")
  case True
  show ?thesis using valid_named [OF assms, of "\<lambda>d. the (map_of x d)"]
    unfolding valid_ins_map [OF assms True, symmetric] by (simp add: True)
qed (simp add: valid_ins_def)

lemma dcomp_outside: "od \<notin> set (getOutDimNames l) \<Longrightarrow> dcomp l od vals = 0"
  by (rule dcomp_absent)

lemma entry_eq:
  assumes "map_of (bases a) d = map_of (bases b) d" and "outDims a = outDims b"
  shows "in_len a d = in_len b d" "entry a d p od = entry b d p od" "contrib a od d v = contrib b od d v"
proof -
  show i: "in_len a d = in_len b d" using assms by (simp add: in_len_def)
  show e: "entry a d p od = entry b d p od" for p
    using assms by (simp add: entry_def i hasOutDim_def getOutDimNames_def getBasis_def getBasisVec_def getOutDimIndex_def)
  show "contrib a od d v = contrib b od d v" by (simp add: contrib_def i e)
qed

lemma dcomp_eq:
  assumes "distinct (getInDimNames a)" "distinct (getInDimNames b)"
    and "set (getInDimNames a) = set (getInDimNames b)"
    and "\<And>d. map_of (bases a) d = map_of (bases b) d" and "outDims a = outDims b"
  shows "dcomp a = dcomp b"
proof (intro ext)
  fix od vals
  have "mset (getInDimNames a) = mset (getInDimNames b)"
    using assms(1-3) by (simp add: set_eq_iff_mset_eq_distinct)
  then have "xsum (map (\<lambda>d. contrib b od d (vals d)) (getInDimNames a)) = dcomp b od vals"
    unfolding dcomp_def by (intro xsum_mset) simp
  then show "dcomp a od vals = dcomp b od vals"
    using entry_eq(3) [OF assms(4,5)] by (simp add: dcomp_def)
qed

lemma xsum_partition:
  "xsum (map f xs) = xsum (map f (filter P xs)) XOR xsum (map f (filter (\<lambda>x. \<not> P x) xs))"
  by (induction xs) (auto simp: xor.assoc xor.left_commute)

section \<open>Selecting inputs\<close>

lemma mkLayout_shape: "mkLayout bs outs req = Some l \<Longrightarrow> bases l = bs \<and> outDims l = mapvec outs"
  by (auto simp: mkLayout_def noCheckLayout_def checkInvariants_def Let_def Option.bind_eq_Some_conv
      split: option.splits sum.splits list.splits if_splits)

lemma keep_all: "length b = length outs \<Longrightarrow> set (map fst outs) \<subseteq> set ds \<Longrightarrow> keep_outs ds outs b = b"
  by (induction b outs rule: list_induct2) (auto simp: keep_outs_def)

lemma sublayout_ins:
  assumes w: "wf A" and sub: "set ds \<subseteq> set (getInDimNames A)"
  shows "\<exists>s. sublayout A ds (getOutDimNames A) = Some s \<and> wf s \<and> bases s = filter (\<lambda>(d, _). d \<in> set ds) (bases A) \<and>
    outDims s = outDims A \<and> getInDimNames s = filter (\<lambda>d. d \<in> set ds) (getInDimNames A)"
proof -
  obtain s where s: "sublayout A ds (getOutDimNames A) = Some s" "wf s"
    "getInDimNames s = filter (\<lambda>d. d \<in> set ds) (getInDimNames A)"
    "outDims s = filter (\<lambda>(d, _). d \<in> set (getOutDimNames A)) (outDims A)"
    using sublayout_total [OF w, of ds "getOutDimNames A"] sub by (auto simp: dimsSubset_def)
  have o: "filter (\<lambda>(d, _). d \<in> set (getOutDimNames A)) (outDims A) = outDims A"
    by (intro filter_True) (force simp: getOutDimNames_def)
  have l: "length b = length (outDims A)" if "(d, bs) \<in> set (bases A)" "b \<in> set bs" for d bs b
    using wf_wide [OF w] that by (auto simp: wide_def list_all_iff in_columns)
  have "bases s = map_bases (keep_outs (getOutDimNames A) (outDims A)) (filter (\<lambda>(d, _). d \<in> set ds) (bases A))"
    using s(1) mkLayout_shape by (auto simp: sublayout_def split: if_splits)
  also have "\<dots> = filter (\<lambda>(d, _). d \<in> set ds) (bases A)"
    unfolding map_bases_def
    by (rule map_idI) (auto simp: getOutDimNames_def intro!: map_idI keep_all dest: l)
  finally show ?thesis using s o by simp
qed

lemma sublayout_dcomp:
  assumes w: "wf A" and b: "bases s = filter (\<lambda>(d, _). d \<in> set ds) (bases A)" and o: "outDims s = outDims A"
    and n: "getInDimNames s = filter (\<lambda>d. d \<in> set ds) (getInDimNames A)"
  shows "d \<in> set ds \<Longrightarrow> in_len s d = in_len A d"
    "dcomp s od vals = xsum (map (\<lambda>d. contrib A od d (vals d)) (filter (\<lambda>d. d \<in> set ds) (getInDimNames A)))"
proof -
  have m: "map_of (bases s) d = map_of (bases A) d" if "d \<in> set ds" for d
    using that map_of_filter_fst [of "\<lambda>d. d \<in> set ds" d "bases A"] by (simp add: b case_prod_unfold)
  show "d \<in> set ds \<Longrightarrow> in_len s d = in_len A d" using entry_eq(1) [OF m o] .
  show "dcomp s od vals = xsum (map (\<lambda>d. contrib A od d (vals d)) (filter (\<lambda>d. d \<in> set ds) (getInDimNames A)))"
    unfolding dcomp_def n by (intro arg_cong [where f = xsum] map_cong) (auto simp: entry_eq(3) [OF m o])
qed

section \<open>Identity factors\<close>

lemma pow2s_below_pow: "i = 2 ^ j \<Longrightarrow> j \<le> w \<Longrightarrow> pow2s_below i (2 ^ w) = map (\<lambda>p. 2 ^ p) [j..<w]"
proof (induction i "2 ^ w :: int" arbitrary: j rule: pow2s_below.induct)
  case (1 i)
  show ?case
  proof (cases "j = w")
    case True
    then show ?thesis using 1 by (simp add: pow2s_below.simps)
  next
    case False
    then have "j < w" "i < 2 ^ w" "0 < i" using 1 by simp_all
    then show ?thesis using 1(1) [of "Suc j"] 1(2) by (simp add: pow2s_below.simps [of "2 ^ j"] upt_conv_Cons mult.commute)
  qed
qed

definition identity_layout :: "nat \<Rightarrow> dim \<Rightarrow> dim \<Rightarrow> linear_layout" where
  "identity_layout k i d = \<lparr>bases = [(i, map (\<lambda>p. [2 ^ p]) [0..<k])], outDims = [(d, 2 ^ k)], rank = int k\<rparr>"

lemma xlin_pows: "xlin (bits_of v k) (map (\<lambda>p. 2 ^ p) [0..<k]) = take_bit k v"
proof (rule bit_eqI)
  fix n
  show "bit (xlin (bits_of v k) (map (\<lambda>p. (2::int) ^ p) [0..<k])) n \<longleftrightarrow> bit (take_bit k v) n"
  proof (induction k)
    case (Suc k)
    have "bits_of v (Suc k) = bits_of v k @ [bit v k]" by (simp add: bits_of_def)
    then show ?case using Suc by (auto simp: xlin_append bit_xor_iff bit_exp_iff bit_take_bit_iff less_Suc_eq)
  qed simp
qed


lemma identity_wf:
  assumes "k < 31"
  shows "identity1D (2 ^ k) i d = Some (identity_layout k i d)" "wf (identity_layout k i d)"
    "in_len (identity_layout k i d) x = (if x = i then k else 0)"
    "out_len (identity_layout k i d) x = (if x = d then k else 0)"
    "dcomp (identity_layout k i d) x vals = (if x = d then take_bit k (vals i) else 0)"
    "getInDimNames (identity_layout k i d) = [i]" "getOutDimNames (identity_layout k i d) = [d]"
    "getTotalInDimSizeLog2 (identity_layout k i d) = k" "getTotalOutDimSizeLog2 (identity_layout k i d) = k"
    "isSurjective (identity_layout k i d)"
proof -
  let ?b = "[(i, map (\<lambda>p. [2 ^ p]) [0..<k])]" and ?o = "[(d, 2 ^ k)]"
  let ?l = "\<lparr>bases = ?b, outDims = ?o, rank = 0\<rparr>"
  have g: "good_column ?o [2 ^ p]" if "p < k" for p
    using that by (simp add: good_column_nth)
  have d: "layout_data ?l" using assms g
    by (auto simp: layout_data_def getInDimNames_def getOutDimNames_def small_pow_iff list_all_iff columns_def
        getTotalInDimSizeLog2_def getTotalOutDimSizeLog2_def)
  have cols: "comp_of 0 (columns ?l) = map (\<lambda>p. 2 ^ p) [0..<k]" by (simp add: comp_of_def columns_def comp_def)
  have s: "surj_vals ?l"
    unfolding surj_vals_def
  proof (intro allI impI)
    fix vs assume "list_all2 fits_width vs (out_widths ?l)"
    then obtain v where v: "vs = [v]" "fits_width v k" using assms by (auto simp: out_widths_def list_all2_Cons2)
    have "out_vals ?l (bits_of v k) = vs" using v by (simp add: out_vals_def cols xlin_pows fits_width_take)
    then show "\<exists>cs. length cs = getTotalInDimSizeLog2 ?l \<and> out_vals ?l cs = vs"
      by (intro exI [of _ "bits_of v k"]) (simp add: getTotalInDimSizeLog2_def)
  qed
  obtain l where l: "mkLayout ?b ?o True = Some l" "wf l" "bases l = ?b" "outDims l = ?o"
    using mkLayout_total [OF d s] by blast
  have "isSurjective l" using l(1) by (auto simp: mkLayout_def checkInvariants_def Let_def Option.bind_eq_Some_conv
      split: option.splits sum.splits list.splits if_splits)
  then have "rank l = int k" using l(4) assms by (simp add: isSurjective_def getTotalOutDimSizeLog2_def)
  then have e: "l = identity_layout k i d" using l(3,4) by (simp add: identity_layout_def linear_layout.equality)
  show "wf (identity_layout k i d)" using l(2) e by simp
  have "is_pow2_32 (2 ^ k)" "(2::int) ^ k \<noteq> 0" using assms by simp_all
  then show "identity1D (2 ^ k) i d = Some (identity_layout k i d)"
    using l(1) pow2s_below_pow [of 1 0 k] by (simp add: identity1D_def strided1D_def comp_def e)
  show "in_len (identity_layout k i d) x = (if x = i then k else 0)"
    by (simp add: in_len_def identity_layout_def)
  show "out_len (identity_layout k i d) x = (if x = d then k else 0)"
    using assms by (simp add: out_len_def identity_layout_def)
  show n: "getInDimNames (identity_layout k i d) = [i]" "getOutDimNames (identity_layout k i d) = [d]"
    by (simp_all add: getInDimNames_def getOutDimNames_def identity_layout_def)
  show "getTotalInDimSizeLog2 (identity_layout k i d) = k" "getTotalOutDimSizeLog2 (identity_layout k i d) = k"
    "isSurjective (identity_layout k i d)"
    using assms by (simp_all add: getTotalInDimSizeLog2_def getTotalOutDimSizeLog2_def isSurjective_def identity_layout_def)
  have "entry (identity_layout k i d) i p d = 2 ^ p" if "p < k" for p
    using that by (simp add: entry_def in_len_def hasOutDim_def getBasis_def getBasisVec_def getOutDimIndex_def
        identity_layout_def getOutDimNames_def)
  then have "contrib (identity_layout k i d) d i v = take_bit k v" for v
  proof -
    have "in_len (identity_layout k i d) i = k" by (simp add: in_len_def identity_layout_def)
    moreover have "map (\<lambda>p. entry (identity_layout k i d) i p d) [0..<k] = map (\<lambda>p. 2 ^ p) [0..<k]"
      using \<open>\<And>p. p < k \<Longrightarrow> entry (identity_layout k i d) i p d = 2 ^ p\<close> by simp
    ultimately show ?thesis unfolding contrib_def by (simp only: xlin_pows)
  qed
  then show "dcomp (identity_layout k i d) x vals = (if x = d then take_bit k (vals i) else 0)"
    using dcomp_outside [of x "identity_layout k i d"] by (simp add: n dcomp_def)
qed


text \<open>A product with a factor over names the other layout does not have.\<close>

lemma prod_identity:
  assumes w: "wf r" and d: "d \<notin> set (getInDimNames r)" "d \<notin> set (getOutDimNames r)" and k: "k < 31"
    and t: "getTotalInDimSizeLog2 r + k \<le> 64" "getTotalOutDimSizeLog2 r + k \<le> 64"
  shows "\<exists>p. layout_prod r (identity_layout k d d) = Some p \<and> wf p \<and>
    set (getInDimNames p) = insert d (set (getInDimNames r)) \<and> set (getOutDimNames p) = insert d (set (getOutDimNames r)) \<and>
    getTotalInDimSizeLog2 p = getTotalInDimSizeLog2 r + k \<and> getTotalOutDimSizeLog2 p = getTotalOutDimSizeLog2 r + k \<and>
    (\<forall>x. in_len p x = (if x = d then k else in_len r x)) \<and> (\<forall>x. out_len p x = (if x = d then k else out_len r x)) \<and>
    (\<forall>od vals. dcomp p od vals = (if od = d then take_bit k (vals d) else dcomp r od vals))"
proof -
  let ?i = "identity_layout k d d"
  note i = identity_wf [OF k, where i = d and d = d]
  have z: "in_len r d = 0" "out_len r d = 0" using d by (simp_all add: in_len_absent out_len_absent)
  have pf: "prod_fits r ?i"
    using t k z out_len_lt [OF w] by (auto simp: prod_fits_def i list_all_iff)
  obtain p ins outs where p: "merged r ?i ins outs" "layout_prod r ?i = Some p" "wf p"
    "bases p = bases (raw_prod r ?i ins outs)" "outDims p = outDims (raw_prod r ?i ins outs)"
    using layout_prod_total [OF w i(2) pf] by blast
  let ?R = "raw_prod r ?i ins outs"
  have n: "getInDimNames p = ins" "getOutDimNames p = outs"
    using raw_prod_names [of r ?i ins outs] p(4,5) by (simp_all add: getInDimNames_def getOutDimNames_def)
  have m: "distinct ins" "distinct outs" "set ins = insert d (set (getInDimNames r))" "set outs = insert d (set (getOutDimNames r))"
    using p(1) by (auto simp: merged_def i)
  have il: "in_len p x = (if x = d then k else in_len r x)" for x
  proof (cases "x \<in> set ins")
    case True
    then have "in_len p x = in_len r x + in_len ?i x" using in_len_raw_prod [of x ins r ?i outs] p(4) by (simp add: in_len_def)
    then show ?thesis using z by (simp add: i)
  qed (use m n in \<open>auto simp: in_len_absent\<close>)
  have ol: "out_len p x = (if x = d then k else out_len r x)" for x
  proof (cases "x \<in> set outs")
    case True
    have "out_len r x + out_len ?i x < 31" using z out_len_lt [OF w, of x] k by (simp add: i)
    from out_len_raw_prod [OF True this] have "out_len p x = out_len r x + out_len ?i x" using p(5) by (simp add: out_len_def)
    then show ?thesis using z by (simp add: i)
  qed (use m n in \<open>auto simp: out_len_absent\<close>)
  have dc: "dcomp p od vals = (if od = d then take_bit k (vals d) else dcomp r od vals)" for od vals
  proof (cases "od \<in> set outs")
    case True
    have "dcomp p od vals = dcomp r od vals XOR push_bit (out_len r od) (dcomp ?i od (\<lambda>d. drop_bit (in_len r d) (vals d)))"
      using dcomp_raw_prod [OF m(1) _ _ _ _ True m(2), of r ?i vals] wf_names [OF w] m(3) dcomp_shape [OF p(4,5)]
      by (simp add: i subset_insertI)
    then show ?thesis using z dcomp_outside [of d r] d by (simp add: i)
  qed (use m n in \<open>auto simp: dcomp_outside\<close>)
  have "getTotalInDimSizeLog2 p = getTotalInDimSizeLog2 ?R" "getTotalOutDimSizeLog2 p = getTotalOutDimSizeLog2 ?R"
    using p(4,5) by (simp_all add: getTotalInDimSizeLog2_def getTotalOutDimSizeLog2_def)
  then have "getTotalInDimSizeLog2 p = getTotalInDimSizeLog2 r + k" "getTotalOutDimSizeLog2 p = getTotalOutDimSizeLog2 r + k"
    using raw_prod_totals [OF w i(2) p(1) pf] by (simp_all add: i)
  then show ?thesis using p(2,3) n m il ol dc by simp
qed

lemma times_identities_total:
  assumes "wf r" and "distinct ds" and "set ds \<inter> (set (getInDimNames r) \<union> set (getOutDimNames r)) = {}"
    and "\<And>d. d \<in> set ds \<Longrightarrow> getInDimSize A d = Some (2 ^ k d) \<and> k d < 31"
    and "getTotalInDimSizeLog2 r + sum_list (map k ds) \<le> 64" "getTotalOutDimSizeLog2 r + sum_list (map k ds) \<le> 64"
  shows "\<exists>t. times_identities A r ds = Some t \<and> wf t \<and>
    set (getInDimNames t) = set ds \<union> set (getInDimNames r) \<and> set (getOutDimNames t) = set ds \<union> set (getOutDimNames r) \<and>
    (\<forall>x. in_len t x = (if x \<in> set ds then k x else in_len r x)) \<and> (\<forall>x. out_len t x = (if x \<in> set ds then k x else out_len r x)) \<and>
    (\<forall>od vals. dcomp t od vals = (if od \<in> set ds then take_bit (k od) (vals od) else dcomp r od vals))"
  using assms
proof (induction ds arbitrary: r)
  case Nil
  then show ?case by (simp add: times_identities_def)
next
  case (Cons d ds)
  have k: "getInDimSize A d = Some (2 ^ k d)" "k d < 31" using Cons.prems(4) by auto
  have dn: "d \<notin> set (getInDimNames r)" "d \<notin> set (getOutDimNames r)" using Cons.prems(3) by auto
  have tot: "getTotalInDimSizeLog2 r + k d \<le> 64" "getTotalOutDimSizeLog2 r + k d \<le> 64" using Cons.prems(5,6) by auto
  obtain p where p: "layout_prod r (identity_layout (k d) d d) = Some p" "wf p"
    "set (getInDimNames p) = insert d (set (getInDimNames r))" "set (getOutDimNames p) = insert d (set (getOutDimNames r))"
    "getTotalInDimSizeLog2 p = getTotalInDimSizeLog2 r + k d" "getTotalOutDimSizeLog2 p = getTotalOutDimSizeLog2 r + k d"
    "\<And>x. in_len p x = (if x = d then k d else in_len r x)" "\<And>x. out_len p x = (if x = d then k d else out_len r x)"
    "\<And>od vals. dcomp p od vals = (if od = d then take_bit (k d) (vals d) else dcomp r od vals)"
    using prod_identity [OF Cons.prems(1) dn k(2) tot] by blast
  have "times_identities A r (d # ds) = times_identities A p ds"
    using p(1) k by (simp add: times_identities_def identity_wf(1))
  moreover obtain t where "times_identities A p ds = Some t" "wf t"
    "set (getInDimNames t) = set ds \<union> set (getInDimNames p)" "set (getOutDimNames t) = set ds \<union> set (getOutDimNames p)"
    "\<And>x. in_len t x = (if x \<in> set ds then k x else in_len p x)" "\<And>x. out_len t x = (if x \<in> set ds then k x else out_len p x)"
    "\<And>od vals. dcomp t od vals = (if od \<in> set ds then take_bit (k od) (vals od) else dcomp p od vals)"
    using Cons.IH [OF p(2)] Cons.prems p(3-6) by fastforce
  ultimately show ?case using p(3,4,7-9) by auto
qed

section \<open>Inverting and composing\<close>

lemma contrib_zero [simp]: "contrib l od d 0 = 0"
  unfolding contrib_def by (rule xlin_False) (auto simp: bits_of_def)

lemma identity_dims_same:
  assumes w: "wf A" "wf B" and n: "getOutDimNames A = outs" "getOutDimNames B = outs" and d: "d \<in> set (identity_dims A B outs)"
  shows "d \<in> set (getInDimNames A)" "d \<in> set (getInDimNames B)" "map_of (bases A) d = map_of (bases B) d" "outDims A = outDims B"
proof -
  have dd: "d \<in> set (getInDimNames A)" "d \<in> set (getInDimNames B)"
    and e: "case (sublayout A [d] outs, sublayout B [d] outs) of (Some a, Some b) \<Rightarrow> layout_eq a b | _ \<Rightarrow> False"
    using d by (auto simp: identity_dims_def hasInDim_def)
  show "d \<in> set (getInDimNames A)" "d \<in> set (getInDimNames B)" by (fact dd)+
  obtain a where a: "sublayout A [d] outs = Some a" "wf a" "bases a = filter (\<lambda>(x, _). x \<in> set [d]) (bases A)" "outDims a = outDims A"
    using sublayout_ins [OF w(1), of "[d]"] dd n by auto
  obtain b where b: "sublayout B [d] outs = Some b" "wf b" "bases b = filter (\<lambda>(x, _). x \<in> set [d]) (bases B)" "outDims b = outDims B"
    using sublayout_ins [OF w(2), of "[d]"] dd n by auto
  have "bases a = bases b \<and> outDims a = outDims b"
    using e a(1) b(1) layout_eq_iff [OF a(2) b(2)] by simp
  then have f: "filter (\<lambda>p. fst p \<in> set [d]) (bases A) = filter (\<lambda>p. fst p \<in> set [d]) (bases B)" and "outDims A = outDims B"
    using a(3,4) b(3,4) by (auto simp: case_prod_unfold)
  then show "outDims A = outDims B" by simp
  show "map_of (bases A) d = map_of (bases B) d"
    using map_of_filter_fst [of "\<lambda>x. x \<in> set [d]" d "bases A"] map_of_filter_fst [of "\<lambda>x. x \<in> set [d]" d "bases B"] f by simp
qed

definition zero_on :: "dim set \<Rightarrow> (dim \<times> int) list \<Rightarrow> bool" where
  "zero_on ds x \<longleftrightarrow> (\<forall>(d, v) \<in> set x. d \<in> ds \<longrightarrow> v = 0)"

lemma zero_on_map: "zero_on ds (map (\<lambda>d. (d, f d)) xs) \<longleftrightarrow> (\<forall>d \<in> set xs. d \<in> ds \<longrightarrow> f d = 0)"
  by (auto simp: zero_on_def)

lemma dcomp_split:
  "dcomp l od vals = xsum (map (\<lambda>d. contrib l od d (vals d)) (filter (\<lambda>d. d \<in> S) (getInDimNames l))) XOR
     xsum (map (\<lambda>d. contrib l od d (vals d)) (filter (\<lambda>d. d \<notin> S) (getInDimNames l)))"
  unfolding dcomp_def by (rule xsum_partition)

text \<open>The reduced problem: the results of B on inputs that are 0 on the shared dims are results of A on such inputs.\<close>

definition reduced_solvable :: "linear_layout \<Rightarrow> linear_layout \<Rightarrow> dim set \<Rightarrow> bool" where
  "reduced_solvable A B ids \<longleftrightarrow> (\<forall>x. valid_ins B x \<longrightarrow> zero_on ids x \<longrightarrow>
     (\<exists>y. valid_ins A y \<and> zero_on ids y \<and> apply_layout A y = apply_layout B x))"

lemma apply_dcomp:
  assumes "wf l"
  shows "apply_layout l (map (\<lambda>d. (d, vals d)) (getInDimNames l)) = Some (map (\<lambda>od. (od, dcomp l od vals)) (getOutDimNames l))"
proof -
  have "dcomp l od (\<lambda>d. the (map_of (map (\<lambda>d. (d, vals d)) (getInDimNames l)) d)) = dcomp l od vals" for od
    by (rule dcomp_cong) (simp add: map_of_map_restrict)
  then show ?thesis using apply_named [OF assms, of "map (\<lambda>d. (d, vals d)) (getInDimNames l)"] by (simp add: comp_def)
qed

lemma apply_eq_dcomp:
  assumes "wf a" "wf b" and "getOutDimNames a = getOutDimNames b"
  shows "apply_layout a (map (\<lambda>d. (d, f d)) (getInDimNames a)) = apply_layout b (map (\<lambda>d. (d, g d)) (getInDimNames b)) \<longleftrightarrow>
    (\<forall>od \<in> set (getOutDimNames b). dcomp a od f = dcomp b od g)"
  using assms by (simp add: apply_dcomp)

text \<open>Solving the reduced problem, by least squares or, when nothing is left, by the empty layout.\<close>

lemma reduced_solution:
  assumes w: "wf A" "wf B" and n: "getOutDimNames A = getOutDimNames B" "getOutDimNames B \<noteq> []"
    and le: "\<And>od. od \<in> set (getOutDimNames B) \<Longrightarrow> out_len B od \<le> out_len A od"
    and t: "getTotalInDimSizeLog2 A < 31" "getTotalInDimSizeLog2 B < 31"
    and ids: "set ids \<subseteq> set (getInDimNames A)" "set ids \<subseteq> set (getInDimNames B)"
    and insA: "insA = filter (\<lambda>d. d \<notin> set ids) (getInDimNames A)" and insB: "insB = filter (\<lambda>d. d \<notin> set ids) (getInDimNames B)"
    and e: "insA = [] \<longleftrightarrow> insB = []" and red: "reduced_solvable A B (set ids)"
  shows "\<exists>AR BR X. sublayout A insA (getOutDimNames B) = Some AR \<and> sublayout B insB (getOutDimNames B) = Some BR \<and>
    (if insA = [] then Some empty_layout else lstsq AR BR) = Some X \<and> wf X \<and>
    getInDimNames X = insB \<and> getOutDimNames X = insA \<and>
    (\<forall>d. in_len X d = (if d \<in> set insB then in_len B d else 0)) \<and> (\<forall>d. out_len X d = (if d \<in> set insA then in_len A d else 0)) \<and>
    getTotalInDimSizeLog2 X = sum_list (map (in_len B) insB) \<and> getTotalOutDimSizeLog2 X = sum_list (map (in_len A) insA) \<and>
    (\<forall>vals. (\<forall>d \<in> set insB. fits_width (vals d) (in_len B d)) \<longrightarrow> (\<forall>od \<in> set (getOutDimNames B).
       xsum (map (\<lambda>d. contrib A od d (dcomp X d vals)) insA) = xsum (map (\<lambda>d. contrib B od d (vals d)) insB)))"
proof -
  have sA: "set insA \<subseteq> set (getInDimNames A)" and sB: "set insB \<subseteq> set (getInDimNames B)" using insA insB by auto
  obtain AR where AR: "sublayout A insA (getOutDimNames B) = Some AR" "wf AR"
    "bases AR = filter (\<lambda>(d, _). d \<in> set insA) (bases A)" "outDims AR = outDims A"
    "getInDimNames AR = filter (\<lambda>d. d \<in> set insA) (getInDimNames A)"
    using sublayout_ins [OF w(1) sA] n by auto
  obtain BR where BR: "sublayout B insB (getOutDimNames B) = Some BR" "wf BR"
    "bases BR = filter (\<lambda>(d, _). d \<in> set insB) (bases B)" "outDims BR = outDims B"
    "getInDimNames BR = filter (\<lambda>d. d \<in> set insB) (getInDimNames B)"
    using sublayout_ins [OF w(2) sB] by auto
  have fA: "filter (\<lambda>d. d \<in> set insA) (getInDimNames A) = insA" and fB: "filter (\<lambda>d. d \<in> set insB) (getInDimNames B) = insB"
    unfolding insA insB by (auto intro: filter_cong)
  note AD = sublayout_dcomp [OF w(1) AR(3-5), unfolded fA] and BD = sublayout_dcomp [OF w(2) BR(3-5), unfolded fB]
  have nR: "getOutDimNames AR = getOutDimNames B" "getOutDimNames BR = getOutDimNames B"
    using AR(4) BR(4) n by (simp_all add: getOutDimNames_def)
  have di: "distinct insA" "distinct insB" using wf_names [OF w(1)] wf_names [OF w(2)] insA insB by simp_all
  have iA: "getInDimNames AR = insA" and iB: "getInDimNames BR = insB" using AR(5) BR(5) fA fB by simp_all
  show ?thesis
  proof (cases "insA = []")
    case True
    have "wf empty_layout" by code_simp
    then show ?thesis using True e AR(1) BR(1)
      by (simp add: empty_layout_def getInDimNames_def getOutDimNames_def in_len_def out_len_def
          getTotalInDimSizeLog2_def getTotalOutDimSizeLog2_def)
  next
    case False
    have tot: "getTotalInDimSizeLog2 AR = sum_list (map (in_len A) insA)" "getTotalInDimSizeLog2 BR = sum_list (map (in_len B) insB)"
      using total_in_len [of AR] total_in_len [of BR] di AD(1) BD(1) by (simp_all add: iA iB cong: map_cong)
    have small: "sum_list (map (in_len A) insA) \<le> getTotalInDimSizeLog2 A" "sum_list (map (in_len B) insB) \<le> getTotalInDimSizeLog2 B"
      using wf_names [OF w(1)] wf_names [OF w(2)] by (simp_all add: total_in_len insA insB sum_filter_le)
    have ol: "out_len AR = out_len A" "out_len BR = out_len B" using AR(4) BR(4) by (simp_all add: out_len_def fun_eq_iff)
    have ds: "lstsq_dims AR BR"
      unfolding lstsq_dims_def using False n(2) le t tot small by (simp add: nR iA iB ol list_all_iff)
    have s: "solvable AR BR"
      unfolding solvable_def
    proof (intro allI impI)
      fix x assume x: "valid_ins BR x"
      have xf: "map fst x = insB" "x = map (\<lambda>d. (d, the (map_of x d))) insB" "\<And>d. d \<in> set insB \<Longrightarrow> fits_width (the (map_of x d)) (in_len B d)"
        using x valid_ins_iff [of BR x] valid_ins_map [of BR x] di BD(1) by (auto simp: iB)
      let ?v = "\<lambda>d. if d \<in> set ids then 0 else the (map_of x d)"
      let ?x = "map (\<lambda>d. (d, ?v d)) (getInDimNames B)"
      have "valid_ins B ?x" "zero_on (set ids) ?x"
        using valid_named [of B ?v] wf_names [OF w(2)] xf(3) by (auto simp: insB zero_on_map fits_width_def)
      then obtain y where y: "valid_ins A y" "zero_on (set ids) y" "apply_layout A y = apply_layout B ?x"
        using red by (auto simp: reduced_solvable_def)
      let ?u = "\<lambda>d. the (map_of y d)"
      have yn: "y = map (\<lambda>d. (d, ?u d)) (getInDimNames A)" "\<And>d. d \<in> set (getInDimNames A) \<Longrightarrow> fits_width (?u d) (in_len A d)"
        using valid_ins_map [of A y] valid_ins_iff [of A y] wf_names [OF w(1)] y(1) by auto
      have yz: "?u d = 0" if "d \<in> set ids" for d
      proof -
        have "d \<in> fst ` set y" using that ids(1) y(1) by (metis set_map valid_ins_def subsetD)
        then obtain v where "map_of y d = Some v" by (metis map_of_eq_None_iff not_None_eq)
        then show ?thesis using y(2) that map_of_SomeD by (fastforce simp: zero_on_def)
      qed
      have "dcomp A od ?u = dcomp B od ?v" if "od \<in> set (getOutDimNames B)" for od
        using y(3) apply_eq_dcomp [OF w n(1), of ?u ?v] that yn(1) by simp
      moreover have "dcomp A od ?u = dcomp AR od ?u" for od
      proof -
        have "xsum (map (\<lambda>d. contrib A od d (?u d)) (filter (\<lambda>d. d \<in> set ids) (getInDimNames A))) = xsum (map (\<lambda>_. 0) (filter (\<lambda>d. d \<in> set ids) (getInDimNames A)))"
          by (intro arg_cong [where f = xsum] map_cong) (auto simp: yz)
        then show ?thesis using dcomp_split [of A od ?u "set ids"] AD(2) [of od ?u] by (simp add: xsum_zero insA)
      qed
      moreover have "dcomp B od ?v = dcomp BR od (\<lambda>d. the (map_of x d))" for od
      proof -
        have "xsum (map (\<lambda>d. contrib B od d (?v d)) (filter (\<lambda>d. d \<in> set ids) (getInDimNames B))) = xsum (map (\<lambda>_. 0) (filter (\<lambda>d. d \<in> set ids) (getInDimNames B)))"
          by (intro arg_cong [where f = xsum] map_cong) auto
        moreover have "xsum (map (\<lambda>d. contrib B od d (?v d)) insB) = xsum (map (\<lambda>d. contrib B od d (the (map_of x d))) insB)"
          by (intro arg_cong [where f = xsum] map_cong) (auto simp: insB)
        ultimately show ?thesis
          using dcomp_split [of B od ?v "set ids"] BD(2) [of od "\<lambda>d. the (map_of x d)"] by (simp add: xsum_zero flip: insB)
      qed
      ultimately have "apply_layout AR (map (\<lambda>d. (d, ?u d)) insA) = apply_layout BR (map (\<lambda>d. (d, the (map_of x d))) insB)"
        using apply_eq_dcomp [OF AR(2) BR(2), of ?u "\<lambda>d. the (map_of x d)"] by (simp add: iA iB nR)
      moreover have "valid_ins AR (map (\<lambda>d. (d, ?u d)) insA)"
        using valid_named [of AR ?u] di yn(2) sA AD(1) by (auto simp: iA)
      ultimately show "\<exists>y. valid_ins AR y \<and> apply_layout AR y = apply_layout BR x"
        using xf(2) by metis
    qed
    obtain X where X: "lstsq AR BR = Some X" "wf X" "getInDimNames X = insB" "in_widths X = in_widths BR"
      "getOutDimNames X = insA" "out_widths X = in_widths AR"
      and Xa: "\<And>x. valid_ins BR x \<Longrightarrow> \<exists>y. apply_layout X x = Some y \<and> valid_ins AR y \<and> apply_layout AR y = apply_layout BR x"
      using lstsq_total [OF AR(2) BR(2) ds s] iA iB by auto
    have len: "in_len X d = (if d \<in> set insB then in_len B d else 0)" "out_len X d = (if d \<in> set insA then in_len A d else 0)" for d
    proof -
      have "map (in_len X) insB = map (in_len BR) insB" "map (out_len X) insA = map (in_len AR) insA"
        using X(4,6) in_widths_names [of X] in_widths_names [of BR] in_widths_names [of AR] out_widths_names [of X] di X(3,5)
        by (simp_all add: iA iB)
      then show "in_len X d = (if d \<in> set insB then in_len B d else 0)" "out_len X d = (if d \<in> set insA then in_len A d else 0)"
        using AD(1) BD(1) in_len_absent [of d X] out_len_absent [of d X] X(3,5) by (auto simp: map_eq_conv)
    qed
    have tX: "getTotalInDimSizeLog2 X = sum_list (map (in_len B) insB)" "getTotalOutDimSizeLog2 X = sum_list (map (in_len A) insA)"
      using total_in_len [of X] total_out_len [of X] di X(3,5) len by (simp_all cong: map_cong)
    have "xsum (map (\<lambda>d. contrib A od d (dcomp X d vals)) insA) = xsum (map (\<lambda>d. contrib B od d (vals d)) insB)"
      if v: "\<And>d. d \<in> set insB \<Longrightarrow> fits_width (vals d) (in_len B d)" and od: "od \<in> set (getOutDimNames B)" for vals od
    proof -
      let ?x = "map (\<lambda>d. (d, vals d)) insB"
      have "valid_ins BR ?x" using valid_named [of BR vals] di BD(1) v by (auto simp: iB)
      then obtain y where y: "apply_layout X ?x = Some y" "valid_ins AR y" "apply_layout AR y = apply_layout BR ?x"
        using Xa by blast
      have "y = map (\<lambda>d. (d, dcomp X d vals)) insA"
        using y(1) apply_dcomp [OF X(2), of vals] X(3,5) by simp
      then have "dcomp AR od (\<lambda>d. dcomp X d vals) = dcomp BR od vals"
        using y(3) apply_eq_dcomp [OF AR(2) BR(2), of "\<lambda>d. dcomp X d vals" vals] od by (simp add: iA iB nR)
      then show ?thesis using AD(2) BD(2) by simp
    qed
    then show ?thesis using False AR(1) BR(1) X(1-3,5) len tX by auto
  qed
qed


lemma transposed_dcomp:
  assumes w: "wf t" and d: "dimsEqual dims (getInDimNames t)" "distinct dims" and T: "transposeIns t dims = Some T"
  shows "wf T" "getInDimNames T = dims" "outDims T = outDims t" "dcomp T = dcomp t" "in_len T = in_len t"
proof -
  show T3: "wf T" "getInDimNames T = dims" "outDims T = outDims t"
    using transposeIns_total [OF w d] T by auto
  have b: "bases T = map (\<lambda>x. (x, the (map_of (bases t) x))) dims"
    using T d mkLayout_shape by (auto simp: transposeIns_def comp_def split: if_splits)
  have m: "map_of (bases T) x = map_of (bases t) x" for x
  proof (cases "x \<in> set dims")
    case True
    then obtain v where "map_of (bases t) x = Some v"
      using d(1) by (metis dimsEqual_def getInDimNames_def map_of_eq_None_iff not_None_eq set_map)
    then show ?thesis using True by (simp add: b map_of_map_restrict)
  next
    case False
    then have "x \<notin> fst ` set (bases t)" using d(1) by (simp add: dimsEqual_def getInDimNames_def)
    then show ?thesis using False by (metis b map_of_map_restrict map_of_eq_None_iff restrict_out)
  qed
  show "dcomp T = dcomp t"
    by (rule dcomp_eq [OF _ _ _ m T3(3)]) (use wf_names [OF w] d T3(2) in \<open>auto simp: dimsEqual_def\<close>)
  show "in_len T = in_len t" using entry_eq(1) [OF m T3(3)] by auto
qed

lemma getOutDimSize_len: "d \<in> set (getOutDimNames l) \<Longrightarrow> getOutDimSize l d = Some (2 ^ out_len l d)"
  using map_of_eq_None_iff [of "outDims l" d]
  by (auto simp: getOutDimSize_def getOutDimSizeLog2_def out_len_def getOutDimNames_def)

lemma identity_dims_names: "set (identity_dims A B outs) \<subseteq> set (getInDimNames A)" "set (identity_dims A B outs) \<subseteq> set (getInDimNames B)"
  by (auto simp: identity_dims_def hasInDim_def)

lemma sum_two_filters: "sum_list (map f (filter P xs)) + sum_list (map f (filter (\<lambda>x. \<not> P x) xs)) = (sum_list (map f xs) :: nat)"
  by (induction xs) auto

lemma invertAndCompose_total:
  assumes w: "wf B" "wf outer" and A: "transposeOuts outer (getOutDimNames B) = Some A"
    and ns: "set (getOutDimNames B) = set (getOutDimNames outer)" "getOutDimNames B \<noteq> []"
    and le: "\<And>od. od \<in> set (getOutDimNames B) \<Longrightarrow> out_len B od \<le> out_len A od"
    and t: "getTotalInDimSizeLog2 A < 31" "getTotalInDimSizeLog2 B < 31"
    and ids: "ids = identity_dims A B (getOutDimNames B)"
    and e: "set (getInDimNames A) \<subseteq> set ids \<longleftrightarrow> set (getInDimNames B) \<subseteq> set ids"
    and red: "reduced_solvable A B (set ids)"
  shows "\<exists>X. invertAndCompose B outer = Some X \<and> wf X \<and> getInDimNames X = getInDimNames B \<and> in_widths X = in_widths B \<and>
    getOutDimNames X = getInDimNames A \<and>
    (\<forall>x. valid_ins B x \<longrightarrow> (\<exists>y. apply_layout X x = Some y \<and> valid_ins A y \<and> apply_layout A y = apply_layout B x))"
proof -
  let ?outs = "getOutDimNames B"
  have wA: "wf A" and n: "getOutDimNames A = ?outs"
    using wf_names [OF w(1)] transposeOuts_total [OF w(2), of ?outs] A ns(1) by (auto simp: dimsEqual_def)
  have dn: "distinct ?outs" "distinct (getInDimNames A)" "distinct (getInDimNames B)"
    using wf_names [OF w(1)] wf_names [OF wA] by auto
  define insA where "insA = filter (\<lambda>d. d \<notin> set ids) (getInDimNames A)"
  define insB where "insB = filter (\<lambda>d. d \<notin> set ids) (getInDimNames B)"
  have ide: "insA = [] \<longleftrightarrow> insB = []" using e by (auto simp: insA_def insB_def filter_empty_conv)
  have sub: "set ids \<subseteq> set (getInDimNames A)" "set ids \<subseteq> set (getInDimNames B)" using identity_dims_names ids by auto
  have same: "contrib A od d v = contrib B od d v" "in_len A d = in_len B d" if "d \<in> set ids" for d od v
    using identity_dims_same [OF wA w(1) n refl] that entry_eq(1,3) unfolding ids by metis+
  obtain AR BR X where X: "sublayout A insA ?outs = Some AR" "sublayout B insB ?outs = Some BR"
    "(if insA = [] then Some empty_layout else lstsq AR BR) = Some X" "wf X" "getInDimNames X = insB" "getOutDimNames X = insA"
    and len: "\<And>d. in_len X d = (if d \<in> set insB then in_len B d else 0)" "\<And>d. out_len X d = (if d \<in> set insA then in_len A d else 0)"
    and tX: "getTotalInDimSizeLog2 X = sum_list (map (in_len B) insB)" "getTotalOutDimSizeLog2 X = sum_list (map (in_len A) insA)"
    and Xs: "\<And>vals od. (\<And>d. d \<in> set insB \<Longrightarrow> fits_width (vals d) (in_len B d)) \<Longrightarrow> od \<in> set ?outs \<Longrightarrow>
       xsum (map (\<lambda>d. contrib A od d (dcomp X d vals)) insA) = xsum (map (\<lambda>d. contrib B od d (vals d)) insB)"
    using reduced_solution [OF wA w(1) n ns(2) le t sub insA_def insB_def ide red] by blast
  have fids: "ids = filter (\<lambda>d. d \<in> set ids) (getInDimNames A)"
    unfolding ids identity_dims_def by (rule filter_cong) auto
  have di: "distinct ids" using dn(2) by (subst fids) simp
  have sumA: "sum_list (map (in_len A) ids) + sum_list (map (in_len A) insA) = getTotalInDimSizeLog2 A"
    using sum_two_filters [of "in_len A" "\<lambda>d. d \<in> set ids" "getInDimNames A"] total_in_len [OF dn(2)]
    by (simp add: insA_def flip: fids)
  have sumB: "sum_list (map (in_len A) ids) + sum_list (map (in_len B) insB) = getTotalInDimSizeLog2 B"
  proof -
    have "mset (filter (\<lambda>d. d \<in> set ids) (getInDimNames B)) = mset ids"
      using sub(2) dn(3) di by (intro set_eq_iff_mset_eq_distinct [THEN iffD1]) auto
    then have "sum_list (map (in_len B) (filter (\<lambda>d. d \<in> set ids) (getInDimNames B))) = sum_list (map (in_len B) ids)"
      by (metis mset_map sum_mset_sum_list)
    moreover have "sum_list (map (in_len A) ids) = sum_list (map (in_len B) ids)" using same(2) by (simp cong: map_cong)
    ultimately show ?thesis
      using sum_two_filters [of "in_len B" "\<lambda>d. d \<in> set ids" "getInDimNames B"] total_in_len [OF dn(3)] by (simp add: insB_def)
  qed
  have k: "getInDimSize A d = Some (2 ^ in_len A d) \<and> in_len A d < 31" if "d \<in> set ids" for d
  proof -
    have "d \<in> fst ` set (bases A)" using that sub(1) by (auto simp: getInDimNames_def)
    then obtain bs where "map_of (bases A) d = Some bs" by (metis map_of_eq_None_iff not_None_eq)
    moreover have "in_len A d \<le> sum_list (map (in_len A) ids)" using that by (simp add: member_le_sum_list)
    ultimately show ?thesis using sumA t(1) by (simp add: getInDimSize_def getInDimSizeLog2_def in_len_def)
  qed
  have dj: "set ids \<inter> (set (getInDimNames X) \<union> set (getOutDimNames X)) = {}"
    unfolding X(5,6) insA_def insB_def by auto
  have tj: "getTotalInDimSizeLog2 X + sum_list (map (in_len A) ids) \<le> 64"
    "getTotalOutDimSizeLog2 X + sum_list (map (in_len A) ids) \<le> 64"
    using tX sumA sumB t by simp_all
  obtain T where T: "times_identities A X ids = Some T" "wf T" "set (getInDimNames T) = set ids \<union> set insB"
    "set (getOutDimNames T) = set ids \<union> set insA" "\<And>x. in_len T x = (if x \<in> set ids then in_len A x else in_len X x)"
    "\<And>x. out_len T x = (if x \<in> set ids then in_len A x else out_len X x)"
    "\<And>od vals. dcomp T od vals = (if od \<in> set ids then take_bit (in_len A od) (vals od) else dcomp X od vals)"
    using times_identities_total [OF X(4) di dj k tj, unfolded X(5,6)] by blast
  have eB: "dimsEqual (getInDimNames B) (getInDimNames T)" and eA: "set (getInDimNames A) = set (getOutDimNames T)"
    using T(3,4) sub by (auto simp: dimsEqual_def insA_def insB_def)
  obtain U where U: "transposeIns T (getInDimNames B) = Some U" using transposeIns_total [OF T(2) eB dn(3)] by blast
  note U' = transposed_dcomp [OF T(2) eB dn(3) U]
  have eA': "dimsEqual (getInDimNames A) (getOutDimNames U)" using eA U'(3) by (simp add: dimsEqual_def getOutDimNames_def)
  obtain V where V: "transposeOuts U (getInDimNames A) = Some V" "wf V" "getInDimNames V = getInDimNames U"
    "getOutDimNames V = getInDimNames A" "in_widths V = in_widths U"
    "\<And>ins. valid_ins U ins \<Longrightarrow> \<exists>outs. apply_layout U ins = Some outs \<and>
       apply_layout V ins = Some (map (\<lambda>d. (d, the (map_of outs d))) (getInDimNames A))"
    using transposeOuts_total [OF U'(1) eA' dn(2)] by blast
  have lenB: "in_len T d = in_len B d" if "d \<in> set (getInDimNames B)" for d
    using T(5) len(1) same(2) that by (auto simp: insB_def)
  have wB: "in_widths V = in_widths B"
    using in_widths_names [of U] in_widths_names [OF dn(3)] dn(3) U'(2,5) V(5) lenB by simp
  have inv: "invertAndCompose B outer = Some V"
  proof -
    have "list_all (\<lambda>d. the (getOutDimSize B d) \<le> the (getOutDimSize A d)) ?outs"
      using le n getOutDimSize_len by (simp add: list_all_iff)
    then show ?thesis
      using A X(1-3) T(1) U V(1) ns(1) ide
      by (simp add: invertAndCompose_def Let_def dimsEqual_def flip: ids insA_def insB_def split: if_splits)
  qed
  have "\<exists>y. apply_layout V x = Some y \<and> valid_ins A y \<and> apply_layout A y = apply_layout B x" if x: "valid_ins B x" for x
  proof -
    let ?v = "\<lambda>d. the (map_of x d)" and ?u = "\<lambda>d. dcomp T d (\<lambda>d. the (map_of x d))"
    let ?y = "map (\<lambda>d. (d, ?u d)) (getInDimNames A)"
    have xf: "map fst x = getInDimNames B" "\<And>d. d \<in> set (getInDimNames B) \<Longrightarrow> fits_width (?v d) (in_len B d)"
      "x = map (\<lambda>d. (d, ?v d)) (getInDimNames B)"
      using x valid_ins_iff [OF dn(3)] valid_ins_map [OF dn(3)] by auto
    have "valid_ins U x" using x U'(2) V(3,5) wB by (simp add: valid_ins_def)
    then have "apply_layout V x = Some (map (\<lambda>d. (d, the (map_of (map (\<lambda>od. (od, dcomp U od ?v)) (getOutDimNames U)) d))) (getInDimNames A))"
      using V(6) apply_named [OF U'(1), of x] xf(1) U'(2) by fastforce
    also have "\<dots> = Some ?y"
      using eA' U'(4) by (auto simp: map_of_map_restrict dimsEqual_def)
    finally have a: "apply_layout V x = Some ?y" .
    have vy: "valid_ins A ?y"
    proof -
      have "fits_width (?u d) (in_len A d)" if "d \<in> set (getInDimNames A)" for d
        using dcomp_fits [OF T(2), of d ?v] T(6) len(2) that by (auto simp: insA_def split: if_splits)
      then show ?thesis using valid_named [OF dn(2), of ?u] by blast
    qed
    have "dcomp A od ?u = dcomp B od ?v" if od: "od \<in> set ?outs" for od
    proof -
      have u: "?u d = (if d \<in> set ids then ?v d else dcomp X d ?v)" for d
        using T(7) same(2) xf(2) sub(2) fits_width_take by (auto simp: subset_iff)
      have "xsum (map (\<lambda>d. contrib A od d (?u d)) (filter (\<lambda>d. d \<in> set ids) (getInDimNames A))) = xsum (map (\<lambda>d. contrib B od d (?v d)) ids)"
        unfolding fids [symmetric] by (intro arg_cong [where f = xsum] map_cong) (auto simp: u same)
      also have "\<dots> = xsum (map (\<lambda>d. contrib B od d (?v d)) (filter (\<lambda>d. d \<in> set ids) (getInDimNames B)))"
      proof (rule xsum_mset)
        have "mset ids = mset (filter (\<lambda>d. d \<in> set ids) (getInDimNames B))"
          using sub(2) dn(3) di by (intro set_eq_iff_mset_eq_distinct [THEN iffD1]) auto
        then show "mset (map (\<lambda>d. contrib B od d (?v d)) ids) = mset (map (\<lambda>d. contrib B od d (?v d)) (filter (\<lambda>d. d \<in> set ids) (getInDimNames B)))"
          by (metis mset_map)
      qed
      finally have 1: "xsum (map (\<lambda>d. contrib A od d (?u d)) (filter (\<lambda>d. d \<in> set ids) (getInDimNames A))) = \<dots>" .
      have "xsum (map (\<lambda>d. contrib A od d (?u d)) insA) = xsum (map (\<lambda>d. contrib A od d (dcomp X d ?v)) insA)"
        by (intro arg_cong [where f = xsum] map_cong) (auto simp: u insA_def)
      also have "\<dots> = xsum (map (\<lambda>d. contrib B od d (?v d)) insB)"
        by (rule Xs [OF _ od]) (use xf(2) in \<open>auto simp: insB_def\<close>)
      finally show ?thesis
        using 1 dcomp_split [of A od ?u "set ids"] dcomp_split [of B od ?v "set ids"] by (simp add: insA_def insB_def)
    qed
    then have "apply_layout A ?y = apply_layout B x"
      using apply_eq_dcomp [OF wA w(1) n, of ?u ?v] xf(3) by simp
    then show ?thesis using a vy by blast
  qed
  then show ?thesis using inv V(2-4) U'(2) wB by auto
qed

section \<open>Inverses\<close>

lemma transposeOuts_len:
  assumes w: "wf l" and d: "dimsEqual dims (getOutDimNames l)" "distinct dims" and A: "transposeOuts l dims = Some A"
  shows "out_len A od = out_len l od"
proof -
  have m: "map_of (outDims A) od = (if od \<in> set dims then Some (the (getOutDimSize l od)) else None)"
    using A d mkLayout_shape by (auto simp: transposeOuts_def map_of_map_restrict comp_def Let_def split: if_splits)
  show ?thesis
  proof (cases "od \<in> set dims")
    case True
    then have "getOutDimSize l od = Some (2 ^ out_len l od)" using d(1) getOutDimSize_len by (simp add: dimsEqual_def)
    then show ?thesis using m True out_len_lt [OF w, of od] by (simp add: out_len_def [of A])
  next
    case False
    then have "out_len l od = 0" using d(1) out_len_absent by (simp add: dimsEqual_def)
    then show ?thesis using m False by (simp add: out_len_def [of A])
  qed
qed

lemma apply_perm:
  assumes "set (map fst x) = set (getInDimNames l)" and "distinct (map fst x)" and "distinct (getInDimNames l)"
  shows "apply_layout l x = apply_layout l (map (\<lambda>d. (d, the (map_of x d))) (getInDimNames l))"
proof -
  let ?y = "map (\<lambda>d. (d, the (map_of x d))) (getInDimNames l)"
  have "mset (getInDimNames l) = mset (map fst x)" using assms by (metis set_eq_iff_mset_eq_distinct)
  then have "mset ?y = mset (map (\<lambda>d. (d, the (map_of x d))) (map fst x))" by (metis mset_map)
  also have "map (\<lambda>d. (d, the (map_of x d))) (map fst x) = x" by (rule assoc_self [OF assms(2)])
  finally have "mset (map g ?y) = mset (map g x)" for g :: "_ \<Rightarrow> int" by (simp only: mset_map)
  then have "apply_out l ?y k = apply_out l x k" for k unfolding apply_out_xsum by (rule xsum_mset)
  moreover have "map fst ?y = getInDimNames l" by (simp add: comp_def)
  ultimately show ?thesis using assms(1) by (simp add: apply_layout_def dimsEqual_def)
qed

definition pow_dims :: "linear_layout \<Rightarrow> linear_layout" where
  "pow_dims l = \<lparr>bases = map (\<lambda>od. (od, replicate (out_len l od) [])) (getOutDimNames l), outDims = [], rank = 0\<rparr>"

text \<open>The identity layout \<open>pseudoinvert\<close> builds over the out-dims.\<close>

lemma identity_total:
  assumes w: "wf l"
  shows "\<exists>I. pseudoinvert l = invertAndCompose I l \<and> wf I \<and> set (getInDimNames I) = set (getOutDimNames l) \<and>
    set (getOutDimNames I) = set (getOutDimNames l) \<and> in_len I = out_len l \<and> out_len I = out_len l \<and>
    (\<forall>od vals. od \<in> set (getOutDimNames l) \<longrightarrow> dcomp I od vals = take_bit (out_len l od) (vals od))"
proof -
  let ?outs = "getOutDimNames l"
  have d: "distinct ?outs" using wf_names [OF w] by simp
  have s: "getInDimSize (pow_dims l) od = Some (2 ^ out_len l od)" "getOutDimSize l od = Some (2 ^ out_len l od)"
    if "od \<in> set ?outs" for od
    using that getOutDimSize_len by (simp_all add: pow_dims_def getInDimSize_def getInDimSizeLog2_def map_of_map_restrict)
  have "fold (\<lambda>od acc. do {r \<leftarrow> acc; i \<leftarrow> identity1D (the (getOutDimSize l od)) od od; layout_prod r i}) ?outs (Some empty_layout) =
     times_identities (pow_dims l) empty_layout ?outs"
    unfolding times_identities_def by (rule fold_cong) (use s in auto)
  then have p: "pseudoinvert l = times_identities (pow_dims l) empty_layout ?outs \<bind> (\<lambda>I. invertAndCompose I l)"
    by (simp add: pseudoinvert_def)
  have e: "wf empty_layout" by code_simp
  have n: "set ?outs \<inter> (set (getInDimNames empty_layout) \<union> set (getOutDimNames empty_layout)) = {}"
    by (simp add: empty_layout_def getInDimNames_def getOutDimNames_def)
  have t: "getTotalInDimSizeLog2 empty_layout + sum_list (map (out_len l) ?outs) \<le> 64"
     "getTotalOutDimSizeLog2 empty_layout + sum_list (map (out_len l) ?outs) \<le> 64"
    using wf_dims [OF w] total_out_len [OF d] by (simp_all add: empty_layout_def getTotalInDimSizeLog2_def getTotalOutDimSizeLog2_def)
  have z: "in_len empty_layout x = 0" "out_len empty_layout x = 0" for x
    by (simp_all add: empty_layout_def in_len_def out_len_def)
  obtain I where I: "times_identities (pow_dims l) empty_layout ?outs = Some I" "wf I"
    "set (getInDimNames I) = set ?outs \<union> set (getInDimNames empty_layout)" "set (getOutDimNames I) = set ?outs \<union> set (getOutDimNames empty_layout)"
    "\<And>x. in_len I x = (if x \<in> set ?outs then out_len l x else in_len empty_layout x)"
    "\<And>x. out_len I x = (if x \<in> set ?outs then out_len l x else out_len empty_layout x)"
    "\<And>od vals. dcomp I od vals = (if od \<in> set ?outs then take_bit (out_len l od) (vals od) else dcomp empty_layout od vals)"
    using times_identities_total [OF e d n _ t, of "pow_dims l"] s(1) out_len_lt [OF w] by blast
  have "in_len I = out_len l" "out_len I = out_len l" using I(5,6) z out_len_absent by (auto simp: fun_eq_iff)
  moreover have "set (getInDimNames empty_layout) = {}" "set (getOutDimNames empty_layout) = {}"
    by (simp_all add: empty_layout_def getInDimNames_def getOutDimNames_def)
  moreover have "pseudoinvert l = invertAndCompose I l" using p I(1) by simp
  ultimately show ?thesis using I(2-4,7) by (metis sup_bot_right)
qed

lemma invert_total:
  assumes w: "wf l" and inv: "isInvertible l" and ne: "getInDimNames l \<noteq> []" "getOutDimNames l \<noteq> []"
    and dj: "set (getInDimNames l) \<inter> set (getOutDimNames l) = {}" and t: "getTotalInDimSizeLog2 l < 31"
  shows "\<exists>X. invert l = Some X \<and> wf X \<and> getOutDimNames X = getInDimNames l \<and> set (getInDimNames X) = set (getOutDimNames l) \<and>
    (\<forall>x. valid_ins l x \<longrightarrow> (\<exists>os. apply_layout l x = Some os \<and> apply_layout X os = Some x))"
proof -
  have io: "getTotalInDimSizeLog2 l = getTotalOutDimSizeLog2 l" and sur: "isSurjective l"
    using inv by (simp_all add: isInvertible_def getTotalInDimSize_def getTotalOutDimSize_def)
  then have inj: "isInjective l" by (simp add: isInjective_def isSurjective_def)
  have d: "distinct (getInDimNames l)" "distinct (getOutDimNames l)" using wf_names [OF w] by auto
  obtain I where I: "pseudoinvert l = invertAndCompose I l" "wf I" "set (getInDimNames I) = set (getOutDimNames l)"
    "set (getOutDimNames I) = set (getOutDimNames l)" "in_len I = out_len l" "out_len I = out_len l"
    "\<And>od vals. od \<in> set (getOutDimNames l) \<Longrightarrow> dcomp I od vals = take_bit (out_len l od) (vals od)"
    using identity_total [OF w] by blast
  let ?n = "getOutDimNames I"
  have dI: "distinct ?n" "distinct (getInDimNames I)" using wf_names [OF I(2)] by auto
  have e: "dimsEqual ?n (getOutDimNames l)" using I(4) by (simp add: dimsEqual_def)
  obtain A where A: "transposeOuts l ?n = Some A" "wf A" "getInDimNames A = getInDimNames l" "getOutDimNames A = ?n" "in_widths A = in_widths l"
    and Aa: "\<And>ins. valid_ins l ins \<Longrightarrow> \<exists>outs. apply_layout l ins = Some outs \<and>
       apply_layout A ins = Some (map (\<lambda>d. (d, the (map_of outs d))) ?n)"
    using transposeOuts_total [OF w e dI(1)] by blast
  have vA: "valid_ins A y = valid_ins l y" for y using A(3,5) by (simp add: valid_ins_def)
  have appI: "apply_layout I x = Some (map (\<lambda>od. (od, the (map_of x od))) ?n)" if x: "valid_ins I x" for x
  proof -
    have "dcomp I od (\<lambda>d. the (map_of x d)) = the (map_of x od)" if "od \<in> set ?n" for od
      using that I(3-5,7) x valid_ins_iff [OF dI(2)] by (simp add: fits_width_take)
    then show ?thesis using apply_named [OF I(2), of x] x by (simp add: valid_ins_def)
  qed
  have lookup: "os = map (\<lambda>d. (d, the (map_of os d))) (getOutDimNames l)"
    "\<And>d. d \<in> set (getOutDimNames l) \<Longrightarrow> fits_width (the (map_of os d)) (out_len l d)" if "valid_outs l os" for os
  proof -
    have f: "map fst os = getOutDimNames l" using that by (simp add: valid_outs_def)
    show m: "os = map (\<lambda>d. (d, the (map_of os d))) (getOutDimNames l)"
      using assoc_self [of os] d(2) f by simp
    show "fits_width (the (map_of os x)) (out_len l x)" if "x \<in> set (getOutDimNames l)" for x
    proof -
      have "list_all2 fits_width (map snd os) (map (out_len l) (getOutDimNames l))"
        using \<open>valid_outs l os\<close> out_widths_names [OF d(2)] by (simp add: valid_outs_def)
      then have "list_all2 fits_width (map (\<lambda>d. the (map_of os d)) (getOutDimNames l)) (map (out_len l) (getOutDimNames l))"
        using arg_cong [OF m, of "map snd"] by (simp add: comp_def)
      then show ?thesis using that by (simp add: list_all2_map1 list_all2_map2 list_all2_same)
    qed
  qed
  have "set (identity_dims A I ?n) \<subseteq> set (getInDimNames l) \<inter> set (getOutDimNames l)"
      using identity_dims_names [of A I ?n] A(3) I(3) by simp
  then have no: "set (identity_dims A I ?n) = {}" unfolding dj by (simp only: subset_empty)
  have red: "reduced_solvable A I (set (identity_dims A I ?n))"
    unfolding reduced_solvable_def
  proof (intro allI impI)
    fix x assume x: "valid_ins I x"
    let ?os = "map (\<lambda>d. (d, the (map_of x d))) (getOutDimNames l)"
    have "list_all2 fits_width (map snd ?os) (out_widths l)"
      using out_widths_names [OF d(2)] x valid_ins_iff [OF dI(2)] I(3,5)
      by (simp add: comp_def list_all2_map1 list_all2_map2 list_all2_same)
    then have "valid_outs l ?os" by (simp add: valid_outs_def comp_def)
    then obtain y where y: "valid_ins l y" "apply_layout l y = Some ?os" using sur isSurjective_onto [OF w] by blast
    have "apply_layout A y = Some (map (\<lambda>d. (d, the (map_of ?os d))) ?n)" using Aa [OF y(1)] y(2) by simp
    then have "apply_layout A y = apply_layout I x" using appI [OF x] I(4) by (simp add: map_of_map_restrict)
    then show "\<exists>y. valid_ins A y \<and> zero_on (set (identity_dims A I ?n)) y \<and> apply_layout A y = apply_layout I x"
      using y(1) vA no by (auto simp: zero_on_def)
  qed
  have tI: "getTotalInDimSizeLog2 I < 31"
  proof -
    have "mset (getInDimNames I) = mset (getOutDimNames l)" using I(3) dI(2) d(2) by (metis set_eq_iff_mset_eq_distinct)
    then have "getTotalInDimSizeLog2 I = getTotalOutDimSizeLog2 l"
      using total_in_len [OF dI(2)] total_out_len [OF d(2)] I(5) by (metis mset_map sum_mset_sum_list)
    then show ?thesis using io t by simp
  qed
  have tA: "getTotalInDimSizeLog2 A < 31" using A(5) t by (metis sum_in_widths)
  have le: "out_len I od \<le> out_len A od" for od
    using transposeOuts_len [OF w e dI(1) A(1)] I(6) by simp
  have nn: "?n \<noteq> []" using ne(2) I(4) by (metis set_empty)
  have em: "set (getInDimNames A) \<subseteq> set (identity_dims A I ?n) \<longleftrightarrow> set (getInDimNames I) \<subseteq> set (identity_dims A I ?n)"
    unfolding no A(3) I(3) subset_empty set_empty using ne by simp
  obtain X where X: "invertAndCompose I l = Some X" "wf X" "getInDimNames X = getInDimNames I" "getOutDimNames X = getInDimNames A"
    "\<And>x. valid_ins I x \<Longrightarrow> \<exists>y. apply_layout X x = Some y \<and> valid_ins A y \<and> apply_layout A y = apply_layout I x"
    using invertAndCompose_total [OF I(2) w A(1) I(4) nn le tA tI refl em red] by blast
  have "\<exists>os. apply_layout l x = Some os \<and> apply_layout X os = Some x" if x: "valid_ins l x" for x
  proof -
    obtain os where os: "apply_layout l x = Some os" "valid_outs l os" using apply_layout_outs [OF w x] by blast
    let ?x = "map (\<lambda>d. (d, the (map_of os d))) (getInDimNames I)"
    have vx: "valid_ins I ?x" using valid_named [OF dI(2), of "\<lambda>d. the (map_of os d)"] lookup(2) [OF os(2)] I(3,5) by simp
    obtain y where y: "apply_layout X ?x = Some y" "valid_ins A y" "apply_layout A y = apply_layout I ?x" using X(5) [OF vx] by blast
    obtain ol where ol: "apply_layout l y = Some ol" "valid_outs l ol" "apply_layout A y = Some (map (\<lambda>d. (d, the (map_of ol d))) ?n)"
      using Aa [of y] y(2) vA apply_layout_outs [OF w] by fastforce
    have "\<forall>d \<in> set ?n. the (map_of ol d) = the (map_of os d)"
      using ol(3) y(3) appI [OF vx] I(3,4) by (auto simp: map_of_map_restrict)
    then have "ol = os" using lookup(1) [OF ol(2)] lookup(1) [OF os(2)] I(4) by (metis (no_types, lifting) map_eq_conv)
    then have "y = x" using isInjective_inj [OF w] inj ol(1) os(1) y(2) vA x by metis
    moreover have "apply_layout X os = apply_layout X ?x"
    proof -
      have f: "map fst os = getOutDimNames l" using os(2) by (simp add: valid_outs_def)
      show ?thesis using apply_perm [of os X] f d(2) dI(2) I(3) X(3) by simp
    qed
    ultimately show ?thesis using os(1) y(1) by simp
  qed
  then show ?thesis using X I(1,3) inv A(3) by (auto simp: invert_def)
qed

end
