(* ===== verification/LayoutProps.thy ===== *)
theory LayoutProps
  imports LayoutInvert
begin

text \<open>
  The properties of the row reduction and of the layout algebra, each followed by an instance on
  concrete layouts.
\<close>

section \<open>Sample layouts\<close>

text \<open>A 4 by 2 swizzle: the second register bit also flips the bank.\<close>

definition swizzle_layout :: linear_layout where
  "swizzle_layout = \<lparr>bases = [(''reg'', [[1, 0], [2, 1]]), (''lane'', [[0, 1]])],
     outDims = [(''x'', 4), (''y'', 2)], rank = 3\<rparr>"

text \<open>Addresses of a 4 by 2 tile, with the dimensions named in the other order.\<close>

definition address_layout :: linear_layout where
  "address_layout = \<lparr>bases = [(''y'', [[4]]), (''x'', [[1], [2]])], outDims = [(''offset'', 8)], rank = 3\<rparr>"

definition broadcast_layout :: linear_layout where
  "broadcast_layout = \<lparr>bases = [(''reg'', [[1], [0], [2]])], outDims = [(''x'', 4)], rank = 2\<rparr>"

lemma sample_wf: "wf swizzle_layout" "wf address_layout" "wf broadcast_layout"
  by code_simp+

section \<open>Row reduction\<close>

text \<open>
  C4: for a matrix of at most 64 rows and columns whose rows have no bits beyond its columns,
  \<open>inplace_rref_strided\<close> of f2reduce returns; its result is obtained by elementary row
  operations, has the same null space and is in reduced row echelon form.
\<close>

theorem rref_correct:
  assumes "length m \<le> 64" and "cols \<le> 64" and "fits cols m"
  shows "\<exists>m'. inplace_rref_strided m cols = Some m' \<and> row_equiv m m' \<and> is_rref m' \<and>
    (\<forall>x. null_space m' x = null_space m x)"
  using f2.total [OF assms(1,2)] f2.equiv [OF _ assms(3)] f2.echelon [OF _ assms(3)] row_equiv_null_space
  by blast

theorem rref_correct_witness:
  "\<exists>m'. inplace_rref_strided [6, 5, 3] 3 = Some m' \<and> row_equiv [6, 5, 3] m' \<and> is_rref m' \<and>
    (\<forall>x. null_space m' x = null_space [6, 5, 3] x)"
proof (rule rref_correct)
  have "\<not> bit (w::row) c" if "w \<in> {6, 5, 3}" and "3 \<le> c" for w c
  proof -
    have "take_bit 3 w = w" using that(1) by auto
    then show ?thesis using that(2) by (metis bit_take_bit_iff not_le)
  qed
  then show "fits 3 [6, 5, 3]" by (simp add: fits_def)
qed simp_all

section \<open>Layouts as linear functions\<close>

text \<open>
  C9: a well-formed layout is reported surjective (by its cached rank) exactly when every
  combination of in-range out-dim values is the result of \<open>apply\<close> on some in-range inputs.
\<close>

theorem isSurjective_correct:
  "wf l \<Longrightarrow> isSurjective l \<longleftrightarrow>
     (\<forall>outs. valid_outs l outs \<longrightarrow> (\<exists>ins. valid_ins l ins \<and> apply_layout l ins = Some outs))"
  by (rule isSurjective_onto)

theorem isSurjective_correct_witness:
  "\<exists>ins. valid_ins broadcast_layout ins \<and> apply_layout broadcast_layout ins = Some [(''x'', 3)]"
proof -
  have "isSurjective broadcast_layout" "valid_outs broadcast_layout [(''x'', 3)]" by code_simp+
  then show ?thesis using isSurjective_correct [OF sample_wf(3)] by blast
qed

text \<open>
  C10: a well-formed layout is reported injective exactly when \<open>apply\<close> maps different in-range
  inputs to different outputs.
\<close>

theorem isInjective_correct:
  "wf l \<Longrightarrow> isInjective l \<longleftrightarrow>
     (\<forall>a b. valid_ins l a \<longrightarrow> valid_ins l b \<longrightarrow> apply_layout l a = apply_layout l b \<longrightarrow> a = b)"
  by (rule isInjective_inj)

theorem isInjective_correct_witness:
  "\<not> isInjective broadcast_layout \<and>
     apply_layout swizzle_layout [(''reg'', 2), (''lane'', 0)] \<noteq> apply_layout swizzle_layout [(''reg'', 2), (''lane'', 1)]"
proof -
  have "valid_ins broadcast_layout [(''reg'', 1)]" "valid_ins broadcast_layout [(''reg'', 3)]"
    "apply_layout broadcast_layout [(''reg'', 1)] = apply_layout broadcast_layout [(''reg'', 3)]"
    "isInjective swizzle_layout" "valid_ins swizzle_layout [(''reg'', 2), (''lane'', 0)]"
    "valid_ins swizzle_layout [(''reg'', 2), (''lane'', 1)]" by code_simp+
  moreover have "[(''reg'', 1::int)] \<noteq> [(''reg'', 3)]"
    "[(''reg'', 2), (''lane'', 0::int)] \<noteq> [(''reg'', 2), (''lane'', 1)]" by simp_all
  ultimately show ?thesis
    using isInjective_correct [OF sample_wf(3)] isInjective_correct [OF sample_wf(1)] by blast
qed

text \<open>
  C5: composing two well-formed layouts whose dimensions match and fit never stops the compiler,
  also when the code asks the constructor for surjectivity; the result is well formed and \<open>apply\<close> of
  it is \<open>apply\<close> of the one after the other.
\<close>

theorem compose_correct:
  assumes "wf l" and "wf outer" and "composable l outer"
  shows "\<exists>c. compose l outer = Some c \<and> wf c \<and> getInDimNames c = getInDimNames l \<and> outDims c = outDims outer \<and>
    (\<forall>ins. valid_ins l ins \<longrightarrow> apply_layout c ins = apply_layout l ins \<bind> apply_layout outer)"
proof -
  obtain c where c: "compose l outer = Some c" "wf c" "bases c = bases (composed l outer)" "outDims c = outDims outer"
    using compose_total [OF assms] by blast
  moreover have "getInDimNames c = getInDimNames l"
    using c(3) in_composed(1) [of l outer] by (simp add: getInDimNames_def)
  ultimately show ?thesis using compose_apply [OF assms] by blast
qed

theorem compose_correct_witness:
  "\<exists>c. compose swizzle_layout address_layout = Some c \<and> wf c \<and>
    apply_layout c [(''reg'', 3), (''lane'', 1)] = Some [(''offset'', 3)]"
proof -
  have k: "composable swizzle_layout address_layout"
    "valid_ins swizzle_layout [(''reg'', 3), (''lane'', 1)]"
    "apply_layout swizzle_layout [(''reg'', 3), (''lane'', 1)] \<bind> apply_layout address_layout
       = Some [(''offset'', 3)]" by code_simp+
  show ?thesis using compose_correct [OF sample_wf(1,2) k(1)] k(2,3) by auto
qed

section \<open>Constructors\<close>

text \<open>
  C11: every layout a constructor accepts is well formed, whatever bases and (positive, \<open>int32_t\<close>)
  out-dim sizes it is given, is surjective when the caller asked for it, and maps in-range inputs to
  in-range outputs: the type invariant of the class.
\<close>

theorem constructor_wf:
  assumes "mkLayout bs outs req = Some l" and "distinct (map fst bs)" and "distinct (map fst outs)"
    and "\<And>d s. (d, s) \<in> set outs \<Longrightarrow> 0 < s \<and> s < 2 ^ 31"
  shows "wf l \<and> bases l = bs \<and> outDims l = outs \<and> (req \<longrightarrow> isSurjective l) \<and>
    (\<forall>ins. valid_ins l ins \<longrightarrow> (\<exists>os. apply_layout l ins = Some os \<and> valid_outs l os))"
proof -
  have "wf l \<and> bases l = bs \<and> outDims l = outs \<and> (req \<longrightarrow> isSurjective l)"
    by (rule mkLayout_wf [OF assms])
  then show ?thesis using apply_layout_outs by blast
qed

theorem constructor_wf_witness:
  "(\<exists>l. mkLayout [(''reg'', [[1, 0], [2, 1]]), (''lane'', [[0, 1]])] [(''x'', 4), (''y'', 2)] True = Some l) \<and>
   wf swizzle_layout \<and> isSurjective swizzle_layout"
proof -
  have l: "mkLayout [(''reg'', [[1, 0], [2, 1]]), (''lane'', [[0, 1]])] [(''x'', 4), (''y'', 2)] True = Some swizzle_layout"
    by code_simp
  have s: "0 < s \<and> s < (2::int) ^ 31" if "(d, s) \<in> set [(''x'', 4), (''y'', 2)]" for d s
    using that by auto
  show ?thesis using constructor_wf [OF l _ _ s] l by auto
qed

text \<open>
  C12: for at most 64 input and output bits, \<open>tryCreate\<close> always returns, and it answers
  \<open>std::nullopt\<close> exactly when a basis vector is negative, too long or too short or out of range, an
  out-dim size is no power of two, or surjectivity was asked for and some output is not reached.
\<close>

theorem tryCreate_errors:
  assumes "distinct (map fst bs)" and "distinct (map fst outs)"
    and "\<And>d s. (d, s) \<in> set outs \<Longrightarrow> 0 < s \<and> s < 2 ^ 31"
    and l: "l = \<lparr>bases = bs, outDims = outs, rank = 0\<rparr>"
    and "getTotalInDimSizeLog2 l \<le> 64" and "getTotalOutDimSizeLog2 l \<le> 64"
  shows "\<exists>r. tryCreate bs outs req = Some r \<and>
    (r = None \<longleftrightarrow> (\<exists>b \<in> set (columns l). \<not> good_column outs b) \<or> (\<exists>p \<in> set outs. \<not> is_pow2_32 (snd p)) \<or>
       req \<and> \<not> surj_vals l)"
proof -
  have n: "noCheckLayout bs outs = l"
    using assms(2) by (simp add: l noCheckLayout_def)
  show ?thesis
  proof (cases "invariant_errors l")
    case Nil
    then have d: "layout_data l"
      using assms by (auto simp: layout_data_def getInDimNames_def getOutDimNames_def no_errors_iff list_all_iff small_pow_def)
    obtain r where r: "wf (l\<lparr>rank := r\<rparr>)"
      "checkInvariants req l = Some (if req \<and> \<not> isSurjective (l\<lparr>rank := r\<rparr>) then Inl NotSurjective else Inr (l\<lparr>rank := r\<rparr>))"
      using layout_data_rank [OF d] by blast
    have "isSurjective (l\<lparr>rank := r\<rparr>) \<longleftrightarrow> surj_vals l"
      using isSurjective_vals [OF r(1)] by simp
    then show ?thesis using r(2) Nil by (auto simp: tryCreate_def n no_errors_iff l)
  next
    case (Cons e es)
    then have "\<not> ((\<forall>b \<in> set (columns l). good_column outs b) \<and> (\<forall>p \<in> set outs. is_pow2_32 (snd p)))"
      using no_errors_iff [of l] by (simp add: l)
    then show ?thesis using Cons by (auto simp: tryCreate_def n checkInvariants_def)
  qed
qed

theorem tryCreate_errors_witness:
  "\<exists>r. tryCreate [(''reg'', [[4]])] [(''x'', 4)] False = Some r \<and> r = None"
proof -
  let ?l = "\<lparr>bases = [(''reg'', [[4]])], outDims = [(''x'', 4)], rank = 0\<rparr>"
  have "\<exists>b \<in> set (columns ?l). \<not> good_column [(''x'', 4)] b" by code_simp
  moreover have "getTotalInDimSizeLog2 ?l \<le> 64" "getTotalOutDimSizeLog2 ?l \<le> 64" by code_simp+
  ultimately show ?thesis
    using tryCreate_errors [of "[(''reg'', [[4]])]" "[(''x'', 4)]" ?l False] by auto
qed

section \<open>Merging dimension names\<close>

text \<open>
  C20: on lists without duplicates that order their common names alike, \<open>supremum\<close> returns, and its result is a
  duplicate-free list of exactly the names of both that extends the order of each.
\<close>

theorem supremum_merges:
  assumes "distinct x" and "distinct y" and "compatible x y"
  shows "\<exists>s. supremum x y = Some s \<and> distinct s \<and> set s = set x \<union> set y \<and>
    filter (\<lambda>e. e \<in> set x) s = x \<and> filter (\<lambda>e. e \<in> set y) s = y"
  using supremum_total [OF assms(1,2)] supremum_compatible [OF assms] by fastforce

theorem supremum_merges_witness:
  "\<exists>s. supremum [''reg'', ''lane''] [''lane'', ''warp''] = Some s \<and> distinct s \<and> s \<noteq> [] \<and>
    filter (\<lambda>e. e \<in> {''lane'', ''warp''}) s = [''lane'', ''warp'']"
proof -
  have "compatible [''reg'', ''lane''] [''lane'', ''warp'']" by code_simp
  then show ?thesis
    using supremum_merges [of "[''reg'', ''lane'']" "[''lane'', ''warp'']"] by fastforce
qed

section \<open>Products and quotients\<close>

text \<open>
  C13: two well-formed layouts that order their common dims alike and fit in 64 bits (and 30 bits for each out-dim)
  have a product, with the dims of both in an order that extends the order of each; it applies the inner layout to
  the low bits of each input and the outer layout to the bits above, concatenates the results in each out-dim, and
  is surjective when both are.
\<close>

theorem product_correct:
  assumes "wf a" and "wf b" and "prod_fits a b"
    and "compatible (getInDimNames a) (getInDimNames b)" and "compatible (getOutDimNames a) (getOutDimNames b)"
  shows "\<exists>p. layout_prod a b = Some p \<and> wf p \<and>
    set (getInDimNames p) = set (getInDimNames a) \<union> set (getInDimNames b) \<and>
    set (getOutDimNames p) = set (getOutDimNames a) \<union> set (getOutDimNames b) \<and>
    filter (hasInDim a) (getInDimNames p) = getInDimNames a \<and> filter (hasInDim b) (getInDimNames p) = getInDimNames b \<and>
    filter (hasOutDim a) (getOutDimNames p) = getOutDimNames a \<and> filter (hasOutDim b) (getOutDimNames p) = getOutDimNames b \<and>
    (isSurjective a \<and> isSurjective b \<longrightarrow> isSurjective p) \<and>
    (\<forall>x. valid_ins p x \<longrightarrow> (\<exists>oa ob. apply_layout a (low_ins a x) = Some oa \<and> apply_layout b (high_ins a b x) = Some ob \<and>
       apply_layout p x = Some (map (\<lambda>od. (od, val_of oa od + 2 ^ out_len a od * val_of ob od)) (getOutDimNames p))))"
proof -
  obtain p ins outs where p: "merged a b ins outs" "layout_prod a b = Some p" "wf p"
    "bases p = bases (raw_prod a b ins outs)" "outDims p = outDims (raw_prod a b ins outs)"
    and s: "supremum (getInDimNames a) (getInDimNames b) = Some ins" "supremum (getOutDimNames a) (getOutDimNames b) = Some outs"
    using layout_prod_total [OF assms(1-3)] by blast
  have n: "getInDimNames p = ins" "getOutDimNames p = outs"
    using raw_prod_names [of a b ins outs] p(4,5) by (simp_all add: getInDimNames_def getOutDimNames_def)
  have "isSurjective p" if "isSurjective a" "isSurjective b"
  proof -
    have "p = (raw_prod a b ins outs)\<lparr>rank := rank p\<rparr>" using p(4,5) by simp
    moreover have "surj_vals (raw_prod a b ins outs)"
      using surj_raw_prod [OF assms(1,2) p(1) assms(3)] isSurjective_vals [OF assms(1)] isSurjective_vals [OF assms(2)] that by blast
    ultimately have "surj_vals p" by (metis surj_vals_rank)
    then show ?thesis using isSurjective_vals [OF p(3)] by blast
  qed
  then show ?thesis
    using p layout_prod_apply [OF assms(1,2) p(3,1,4,5)] supremum_compatible [OF _ _ assms(4)] supremum_compatible [OF _ _ assms(5)]
      wf_names [OF assms(1)] wf_names [OF assms(2)] s
    by (auto simp: merged_def n hasInDim_def [abs_def] hasOutDim_def [abs_def])
qed


theorem product_correct_witness:
  "\<exists>p. layout_prod swizzle_layout broadcast_layout = Some p \<and> wf p \<and>
     set (getInDimNames p) = {''reg'', ''lane''}"
proof -
  have f: "prod_fits swizzle_layout broadcast_layout" by code_simp
  have "getInDimNames swizzle_layout = [''reg'', ''lane'']" "getInDimNames broadcast_layout = [''reg'']" by code_simp+
  moreover have "compatible (getInDimNames swizzle_layout) (getInDimNames broadcast_layout)"
    "compatible (getOutDimNames swizzle_layout) (getOutDimNames broadcast_layout)" by code_simp+
  ultimately show ?thesis using product_correct [OF sample_wf(1,3) f] by auto
qed

text \<open>
  C14: \<open>divideLeft A B\<close> answers a layout C exactly when the names of B are among those of A and, basis
  by basis, the low bits of A are B and its other bits avoid B; then multiplying back gives A again (the
  assertion at the end of the function never fails), and otherwise it answers \<open>std::nullopt\<close>.
\<close>

theorem divideLeft_roundtrip:
  assumes "wf A" and "wf B"
    and "compatible (getInDimNames B) (getInDimNames A)" and "compatible (getOutDimNames B) (getOutDimNames A)"
  shows "if dims_contained B A \<and> divl_ok A B
    then \<exists>C BC. divideLeft A B = Some (Some C) \<and> wf C \<and> layout_prod B C = Some BC \<and> layout_eq BC A
    else divideLeft A B = Some None"
  using divideLeft_spec [OF assms] by (auto split: if_splits)

definition tile_layout :: linear_layout where
  "tile_layout = \<lparr>bases = [(''reg'', [[1, 0]]), (''lane'', [])], outDims = [(''x'', 2), (''y'', 1)], rank = 1\<rparr>"

definition blocked_layout :: linear_layout where
  "blocked_layout = \<lparr>bases = [(''reg'', [[1, 0], [2, 1]]), (''lane'', [[4, 0]])], outDims = [(''x'', 8), (''y'', 2)], rank = 3\<rparr>"

theorem divideLeft_roundtrip_witness:
  "\<exists>C BC. divideLeft blocked_layout tile_layout = Some (Some C) \<and> layout_prod tile_layout C = Some BC \<and>
     layout_eq BC blocked_layout"
proof -
  have w: "wf blocked_layout" "wf tile_layout" by code_simp+
  have c: "compatible (getInDimNames tile_layout) (getInDimNames blocked_layout)"
    "compatible (getOutDimNames tile_layout) (getOutDimNames blocked_layout)" by code_simp+
  have "divideLeft blocked_layout tile_layout \<noteq> Some None" by code_simp
  then show ?thesis using divideLeft_roundtrip [OF w c] by (auto split: if_splits)
qed

section \<open>Changes of shape\<close>

text \<open>
  \<open>transposeOuts\<close> to any order of the out-dims returns a well-formed layout over the same inputs
  whose \<open>apply\<close> gives the same values in the new order, and transposing back gives \<open>apply\<close> of the
  original layout again.
\<close>

theorem transposeOuts_roundtrip:
  assumes "wf l" and "dimsEqual dims (getOutDimNames l)" and "distinct dims"
  shows "\<exists>t u. transposeOuts l dims = Some t \<and> wf t \<and> getOutDimNames t = dims \<and>
    (\<forall>ins. valid_ins l ins \<longrightarrow> (\<exists>outs. apply_layout l ins = Some outs \<and>
       apply_layout t ins = Some (map (\<lambda>d. (d, the (map_of outs d))) dims))) \<and>
    transposeOuts t (getOutDimNames l) = Some u \<and> wf u \<and>
    (\<forall>ins. valid_ins l ins \<longrightarrow> apply_layout u ins = apply_layout l ins)"
proof -
  obtain t where t: "transposeOuts l dims = Some t" "wf t" "getInDimNames t = getInDimNames l" "in_widths t = in_widths l"
    "getOutDimNames t = dims"
    "\<And>ins. valid_ins l ins \<Longrightarrow> \<exists>outs. apply_layout l ins = Some outs \<and>
       apply_layout t ins = Some (map (\<lambda>d. (d, the (map_of outs d))) dims)"
    using transposeOuts_total [OF assms] by blast
  have e: "dimsEqual (getOutDimNames l) (getOutDimNames t)" "distinct (getOutDimNames l)"
    using assms(2) t(5) wf_names [OF assms(1)] by (simp_all add: dimsEqual_def)
  obtain u where u: "transposeOuts t (getOutDimNames l) = Some u" "wf u"
    "\<And>ins. valid_ins t ins \<Longrightarrow> \<exists>outs. apply_layout t ins = Some outs \<and>
       apply_layout u ins = Some (map (\<lambda>d. (d, the (map_of outs d))) (getOutDimNames l))"
    using transposeOuts_total [OF t(2) e] by blast
  have "apply_layout u ins = apply_layout l ins" if i: "valid_ins l ins" for ins
  proof -
    obtain outs where o: "apply_layout l ins = Some outs" "valid_outs l outs"
      using apply_layout_outs [OF assms(1) i] by blast
    have n: "map fst outs = getOutDimNames l" using o(2) by (simp add: valid_outs_def)
    have "valid_ins t ins" using i t(3,4) by (simp add: valid_ins_def)
    then have "apply_layout u ins = Some (map (\<lambda>d. (d, the (map_of (map (\<lambda>d. (d, the (map_of outs d))) dims) d))) (getOutDimNames l))"
      using u(3) t(6) [OF i] o(1) by fastforce
    also have "\<dots> = Some (map (\<lambda>d. (d, the (map_of outs d))) (map fst outs))"
      using assms(2) n by (simp add: dimsEqual_def map_of_map_restrict)
    also have "map (\<lambda>d. (d, the (map_of outs d))) (map fst outs) = outs"
      using assoc_self [of outs] e(2) n by simp
    finally show ?thesis using o(1) by simp
  qed
  then show ?thesis using t u(1,2) by blast
qed

theorem transposeOuts_roundtrip_witness:
  "\<exists>t. transposeOuts swizzle_layout [''y'', ''x''] = Some t \<and> wf t \<and>
     apply_layout t [(''reg'', 3), (''lane'', 0)] = Some [(''y'', 1), (''x'', 3)]"
proof -
  have d: "dimsEqual [''y'', ''x''] (getOutDimNames swizzle_layout)" by code_simp
  have "valid_ins swizzle_layout [(''reg'', 3), (''lane'', 0)]"
    "apply_layout swizzle_layout [(''reg'', 3), (''lane'', 0)] = Some [(''x'', 3), (''y'', 1)]" by code_simp+
  then show ?thesis using transposeOuts_roundtrip [OF sample_wf(1) d] by fastforce
qed

text \<open>
  \<open>transposeIns\<close> to any order of the in-dims returns a well-formed layout with the new order of
  inputs and the same outputs whose \<open>apply\<close> is the same function.
\<close>

theorem transposeIns_correct:
  assumes "wf l" and "dimsEqual dims (getInDimNames l)" and "distinct dims"
  shows "\<exists>t. transposeIns l dims = Some t \<and> wf t \<and> getInDimNames t = dims \<and> outDims t = outDims l \<and>
    (\<forall>ins. apply_layout t ins = apply_layout l ins)"
  by (rule transposeIns_total [OF assms])

theorem transposeIns_correct_witness:
  "\<exists>t. transposeIns swizzle_layout [''lane'', ''reg''] = Some t \<and> wf t \<and> getInDimNames t = [''lane'', ''reg'']"
proof -
  have "dimsEqual [''lane'', ''reg''] (getInDimNames swizzle_layout)" by code_simp
  then show ?thesis using transposeIns_correct [OF sample_wf(1), of "[''lane'', ''reg'']"] by auto
qed

lemma lin_index_inj:
  assumes "list_all2 fits_width us ws" and "list_all2 fits_width vs ws" and "lin_index us ws = lin_index vs ws"
  shows "us = vs"
  using assms bval_inj [of "joinb us ws" "joinb vs ws"]
  by (simp add: lin_index_joinb joinb_inj length_joinb_valid)

text \<open>
  Reshaping the outputs to dims with the same number of bits returns a well-formed layout that
  maps every input to the same linear index of the output space, and reshaping back to the old out-dims
  gives \<open>apply\<close> of the original layout.
\<close>

theorem reshapeOuts_roundtrip:
  assumes w: "wf l" and outs: "reshape_dims outs (getTotalOutDimSizeLog2 l)"
  shows "\<exists>t u. reshapeOuts l outs = Some t \<and> wf t \<and> outDims t = outs \<and>
    (\<forall>ins. valid_ins l ins \<longrightarrow> (\<exists>os ts. apply_layout l ins = Some os \<and> apply_layout t ins = Some ts \<and>
       lin_index (map snd ts) (out_widths t) = lin_index (map snd os) (out_widths l))) \<and>
    reshapeOuts t (outDims l) = Some u \<and> wf u \<and>
    (\<forall>ins. valid_ins l ins \<longrightarrow> apply_layout u ins = apply_layout l ins)"
proof -
  obtain t where t: "reshapeOuts l outs = Some t" "wf t" "getInDimNames t = getInDimNames l" "in_widths t = in_widths l"
    "outDims t = outs"
    and ta: "\<And>ins. valid_ins l ins \<Longrightarrow> \<exists>os ts. apply_layout l ins = Some os \<and> apply_layout t ins = Some ts \<and>
       lin_index (map snd ts) (out_widths t) = lin_index (map snd os) (out_widths l)"
    using reshapeOuts_total [OF w outs] by blast
  have "reshape_dims (outDims l) (getTotalOutDimSizeLog2 t)"
    using w outs t(5) wf_names [OF w]
    by (simp add: reshape_dims_def wf_def getOutDimNames_def flip: sum_out_widths out_widths_sizes)
      (simp add: out_widths_sizes)
  from reshapeOuts_total [OF t(2) this] obtain u where u: "reshapeOuts t (outDims l) = Some u" "wf u" "outDims u = outDims l"
    "getInDimNames u = getInDimNames t" "in_widths u = in_widths t"
    and ua: "\<And>ins. valid_ins t ins \<Longrightarrow> \<exists>os us. apply_layout t ins = Some os \<and> apply_layout u ins = Some us \<and>
       lin_index (map snd us) (out_widths u) = lin_index (map snd os) (out_widths t)"
    by blast
  have "apply_layout u ins = apply_layout l ins" if i: "valid_ins l ins" for ins
  proof -
    have it: "valid_ins t ins" and iu: "valid_ins u ins" using i t u by (simp_all add: valid_ins_def)
    obtain os us where ou: "apply_layout l ins = Some os" "apply_layout u ins = Some us"
      "lin_index (map snd us) (out_widths u) = lin_index (map snd os) (out_widths l)"
      using ta [OF i] ua [OF it] by auto
    have n: "out_widths u = out_widths l" "getOutDimNames u = getOutDimNames l"
      using u(3) by (simp_all add: out_widths_sizes getOutDimNames_def)
    have v: "valid_outs l os" "valid_outs u us"
      using apply_layout_outs [OF w i] apply_layout_outs [OF u(2) iu] ou(1,2) by auto
    have "map snd us = map snd os"
      using v ou(3) n by (auto simp: valid_outs_def intro: lin_index_inj)
    then have "us = os" using v n by (auto simp: valid_outs_def intro: map_eq_fst_snd)
    then show ?thesis using ou by simp
  qed
  then show ?thesis using t(1,2,5) ta u(1,2) by blast
qed

theorem reshapeOuts_roundtrip_witness:
  "\<exists>t u. reshapeOuts swizzle_layout [(''a'', 2), (''b'', 2), (''c'', 2)] = Some t \<and> wf t \<and>
     reshapeOuts t [(''x'', 4), (''y'', 2)] = Some u \<and>
     apply_layout u [(''reg'', 3), (''lane'', 0)] = Some [(''x'', 3), (''y'', 1)]"
proof -
  have d: "reshape_dims [(''a'', 2), (''b'', 2), (''c'', 2)] (getTotalOutDimSizeLog2 swizzle_layout)" by code_simp
  have "valid_ins swizzle_layout [(''reg'', 3), (''lane'', 0)]" "outDims swizzle_layout = [(''x'', 4), (''y'', 2)]"
    "apply_layout swizzle_layout [(''reg'', 3), (''lane'', 0)] = Some [(''x'', 3), (''y'', 1)]" by code_simp+
  then show ?thesis using reshapeOuts_roundtrip [OF sample_wf(1) d] by fastforce
qed

text \<open>
  Reshaping the inputs to dims with the same number of bits returns a well-formed layout; on
  inputs with the same linear index both layouts have the same result.
\<close>

theorem reshapeIns_correct:
  assumes "wf l" and "reshape_dims dims (getTotalInDimSizeLog2 l)"
  shows "\<exists>t. reshapeIns l dims = Some t \<and> wf t \<and> getInDimNames t = map fst dims \<and> in_widths t = size_widths dims \<and>
    outDims t = outDims l \<and>
    (\<forall>a b. valid_ins l a \<longrightarrow> valid_ins t b \<longrightarrow>
       lin_index (map snd a) (in_widths l) = lin_index (map snd b) (in_widths t) \<longrightarrow> apply_layout t b = apply_layout l a)"
  by (rule reshapeIns_total [OF assms])

theorem reshapeIns_correct_witness:
  "\<exists>t. reshapeIns swizzle_layout [(''i'', 8)] = Some t \<and> wf t \<and> apply_layout t [(''i'', 6)] = Some [(''x'', 2), (''y'', 0)]"
proof -
  have d: "reshape_dims [(''i'', 8)] (getTotalInDimSizeLog2 swizzle_layout)" by code_simp
  obtain t where t: "reshapeIns swizzle_layout [(''i'', 8)] = Some t" "wf t" "getInDimNames t = [''i'']" "in_widths t = size_widths [(''i'', 8)]"
    "\<And>a b. valid_ins swizzle_layout a \<Longrightarrow> valid_ins t b \<Longrightarrow>
       lin_index (map snd a) (in_widths swizzle_layout) = lin_index (map snd b) (in_widths t) \<Longrightarrow>
       apply_layout t b = apply_layout swizzle_layout a"
    using reshapeIns_correct [OF sample_wf(1) d] by auto
  have s: "size_widths [(''i'', 8)] = [3]" "in_widths swizzle_layout = [2, 1]" "fits_width 6 3" by code_simp+
  have "valid_ins t [(''i'', 6)]" using t(3,4) s by (simp add: valid_ins_def)
  moreover have "valid_ins swizzle_layout [(''reg'', 2), (''lane'', 1)]"
    "apply_layout swizzle_layout [(''reg'', 2), (''lane'', 1)] = Some [(''x'', 2), (''y'', 0)]" by code_simp+
  ultimately show ?thesis using t s by fastforce
qed

text \<open>
  A sublayout over subsets of the dims always exists and is well formed; it computes the chosen
  outputs of the layout with every other input at 0.
\<close>

theorem sublayout_correct:
  assumes "wf l" and "dimsSubset is (getInDimNames l)" and "dimsSubset os (getOutDimNames l)"
  shows "\<exists>s. sublayout l is os = Some s \<and> wf s \<and> getInDimNames s = filter (\<lambda>d. d \<in> set is) (getInDimNames l) \<and>
    outDims s = filter (\<lambda>(d, _). d \<in> set os) (outDims l) \<and>
    (\<forall>ins. valid_ins s ins \<longrightarrow> (\<exists>outs. apply_layout l (pad_ins l ins) = Some outs \<and>
       apply_layout s ins = Some (filter (\<lambda>(d, _). d \<in> set os) outs)))"
  by (rule sublayout_total [OF assms])

theorem sublayout_correct_witness:
  "\<exists>s. sublayout swizzle_layout [''reg''] [''y''] = Some s \<and> wf s \<and> outDims s = [(''y'', 2)]"
proof -
  have d: "dimsSubset [''reg''] (getInDimNames swizzle_layout)" "dimsSubset [''y''] (getOutDimNames swizzle_layout)"
    by code_simp+
  have "outDims swizzle_layout = [(''x'', 4), (''y'', 2)]" by code_simp
  then show ?thesis using sublayout_correct [OF sample_wf(1) d] by auto
qed

text \<open>
  C8: whenever every result of B is a result of A, \<open>lstsq A B\<close> returns a well-formed layout X from the
  inputs of B to the inputs of A, and A after X is B.
\<close>

theorem lstsq_solves:
  assumes "wf A" and "wf B" and "lstsq_dims A B" and "solvable A B"
  shows "\<exists>X. lstsq A B = Some X \<and> wf X \<and> getInDimNames X = getInDimNames B \<and> in_widths X = in_widths B \<and>
    getOutDimNames X = getInDimNames A \<and> out_widths X = in_widths A \<and>
    (\<forall>x. valid_ins B x \<longrightarrow> (\<exists>y. apply_layout X x = Some y \<and> valid_ins A y \<and> apply_layout A y = apply_layout B x))"
  by (rule lstsq_total [OF assms])

definition column_layout :: linear_layout where
  "column_layout = \<lparr>bases = [(''reg'', [[0, 1]]), (''lane'', [[2, 0], [1, 0]])], outDims = [(''x'', 4), (''y'', 2)], rank = 3\<rparr>"

theorem lstsq_solves_witness:
  "\<exists>X y. lstsq swizzle_layout column_layout = Some X \<and>
     apply_layout X [(''reg'', 1), (''lane'', 1)] = Some y \<and>
     apply_layout swizzle_layout y = Some [(''x'', 2), (''y'', 1)]"
proof -
  have w: "wf column_layout" and d: "lstsq_dims swizzle_layout column_layout" by code_simp+
  have s: "isSurjective swizzle_layout" "getOutDimNames column_layout = getOutDimNames swizzle_layout"
    "out_widths column_layout = out_widths swizzle_layout" by code_simp+
  have "solvable swizzle_layout column_layout"
    unfolding solvable_def
  proof (intro allI impI)
    fix x assume "valid_ins column_layout x"
    from apply_layout_outs [OF w this]
    obtain os where "apply_layout column_layout x = Some os" "valid_outs swizzle_layout os"
      using s by (auto simp: valid_outs_def)
    then show "\<exists>y. valid_ins swizzle_layout y \<and> apply_layout swizzle_layout y = apply_layout column_layout x"
      using s(1) isSurjective_onto [OF sample_wf(1)] by auto
  qed
  moreover have "valid_ins column_layout [(''reg'', 1), (''lane'', 1)]"
    "apply_layout column_layout [(''reg'', 1), (''lane'', 1)] = Some [(''x'', 2), (''y'', 1)]" by code_simp+
  ultimately show ?thesis using lstsq_solves [OF sample_wf(1) w d] by fastforce
qed

section \<open>Inverses\<close>

text \<open>
  C6: \<open>B.invertAndCompose(A)\<close>, for layouts with the same out-dims in the same order: unless only one
  of them has inputs left once the dims both share are set aside, and when the results of B on inputs
  that are 0 on the shared dims are results of A on such inputs, it returns a well-formed layout X from the
  inputs of B to those of A, and A after X is B.
\<close>

theorem invertAndCompose_correct:
  assumes "wf B" and "wf outer" and "transposeOuts outer (getOutDimNames B) = Some A"
    and "set (getOutDimNames B) = set (getOutDimNames outer)" and "getOutDimNames B \<noteq> []"
    and "\<And>od. od \<in> set (getOutDimNames B) \<Longrightarrow> out_len B od \<le> out_len A od"
    and "getTotalInDimSizeLog2 A < 31" and "getTotalInDimSizeLog2 B < 31"
    and "ids = identity_dims A B (getOutDimNames B)"
    and "set (getInDimNames A) \<subseteq> set ids \<longleftrightarrow> set (getInDimNames B) \<subseteq> set ids"
    and "reduced_solvable A B (set ids)"
  shows "\<exists>X. invertAndCompose B outer = Some X \<and> wf X \<and> getInDimNames X = getInDimNames B \<and> in_widths X = in_widths B \<and>
    getOutDimNames X = getInDimNames A \<and>
    (\<forall>x. valid_ins B x \<longrightarrow> (\<exists>y. apply_layout X x = Some y \<and> valid_ins A y \<and> apply_layout A y = apply_layout B x))"
  by (rule invertAndCompose_total [OF assms])

definition warp_layout :: linear_layout where
  "warp_layout = \<lparr>bases = [(''lane'', [[1]]), (''warp'', [[2]])], outDims = [(''x'', 4)], rank = 2\<rparr>"

definition lane_layout :: linear_layout where
  "lane_layout = \<lparr>bases = [(''reg'', [[1]]), (''warp'', [[2]])], outDims = [(''x'', 4)], rank = 2\<rparr>"

theorem invertAndCompose_correct_witness:
  "\<exists>X y. invertAndCompose warp_layout lane_layout = Some X \<and>
     apply_layout X [(''lane'', 1), (''warp'', 1)] = Some y \<and> apply_layout lane_layout y = Some [(''x'', 3)]"
proof -
  have w: "wf warp_layout" "wf lane_layout" by code_simp+
  have A: "transposeOuts lane_layout (getOutDimNames warp_layout) = Some lane_layout" by code_simp
  have ids: "[''warp''] = identity_dims lane_layout warp_layout (getOutDimNames warp_layout)" by code_simp
  have n: "getOutDimNames warp_layout = [''x'']" "getOutDimNames lane_layout = [''x'']"
    "getInDimNames lane_layout = [''reg'', ''warp'']" "getInDimNames warp_layout = [''lane'', ''warp'']"
    "out_len warp_layout ''x'' = 2" "out_len lane_layout ''x'' = 2"
    "getTotalInDimSizeLog2 lane_layout = 2" "getTotalInDimSizeLog2 warp_layout = 2"
    "in_widths lane_layout = [1, 1]" "in_widths warp_layout = [1, 1]" by code_simp+
  have v: "valid_ins warp_layout [(''lane'', 1), (''warp'', 1)]"
    "apply_layout warp_layout [(''lane'', 1), (''warp'', 1)] = Some [(''x'', 3)]"
    "apply_layout lane_layout [(''reg'', 0), (''warp'', 0)] = apply_layout warp_layout [(''lane'', 0), (''warp'', 0)]"
    "apply_layout lane_layout [(''reg'', 1), (''warp'', 0)] = apply_layout warp_layout [(''lane'', 1), (''warp'', 0)]"
    "valid_ins lane_layout [(''reg'', 0), (''warp'', 0)]" "valid_ins lane_layout [(''reg'', 1), (''warp'', 0)]"
    by code_simp+
  have red: "reduced_solvable lane_layout warp_layout (set [''warp''])"
    unfolding reduced_solvable_def
  proof (intro allI impI)
    fix x assume x: "valid_ins warp_layout x" "zero_on (set [''warp'']) x"
    obtain a b where "x = [(''lane'', a), (''warp'', b)]" "fits_width a 1"
      using x(1) n by (auto simp: valid_ins_def map_eq_Cons_conv)
    moreover have "a = 0 \<or> a = 1" if "fits_width a 1" for a using that by (auto simp: fits_width_def)
    ultimately have "x = [(''lane'', 0), (''warp'', 0)] \<or> x = [(''lane'', 1), (''warp'', 0)]"
      using x(2) by (auto simp: zero_on_def)
    then show "\<exists>y. valid_ins lane_layout y \<and> zero_on (set [''warp'']) y \<and> apply_layout lane_layout y = apply_layout warp_layout x"
    proof
      assume "x = [(''lane'', 0), (''warp'', 0)]"
      then show ?thesis using v by (intro exI [of _ "[(''reg'', 0), (''warp'', 0)]"]) (simp add: zero_on_def)
    next
      assume "x = [(''lane'', 1), (''warp'', 0)]"
      then show ?thesis using v by (intro exI [of _ "[(''reg'', 1), (''warp'', 0)]"]) (simp add: zero_on_def)
    qed
  qed
  from invertAndCompose_correct [OF w A _ _ _ _ _ ids _ red] n v(1,2) show ?thesis by fastforce
qed

text \<open>
  C7: for an invertible layout of fewer than 31 bits whose in-dims and out-dims have different names,
  \<open>invert\<close> returns a layout that undoes it.
\<close>

theorem invert_correct:
  assumes "wf l" and "isInvertible l" and "getInDimNames l \<noteq> []" and "getOutDimNames l \<noteq> []"
    and "set (getInDimNames l) \<inter> set (getOutDimNames l) = {}" and "getTotalInDimSizeLog2 l < 31"
  shows "\<exists>X. invert l = Some X \<and> wf X \<and> getOutDimNames X = getInDimNames l \<and> set (getInDimNames X) = set (getOutDimNames l) \<and>
    (\<forall>x. valid_ins l x \<longrightarrow> (\<exists>os. apply_layout l x = Some os \<and> apply_layout X os = Some x))"
  by (rule invert_total [OF assms])

theorem invert_correct_witness:
  "\<exists>X. invert swizzle_layout = Some X \<and> apply_layout X [(''x'', 3), (''y'', 1)] = Some [(''reg'', 3), (''lane'', 0)]"
proof -
  have i: "isInvertible swizzle_layout" by code_simp
  have n: "getInDimNames swizzle_layout = [''reg'', ''lane'']" "getOutDimNames swizzle_layout = [''x'', ''y'']"
    "getTotalInDimSizeLog2 swizzle_layout = 3" by code_simp+
  have v: "valid_ins swizzle_layout [(''reg'', 3), (''lane'', 0)]"
    "apply_layout swizzle_layout [(''reg'', 3), (''lane'', 0)] = Some [(''x'', 3), (''y'', 1)]" by code_simp+
  show ?thesis using invert_correct [OF sample_wf(1) i] n v by fastforce
qed

definition sheared_layout :: linear_layout where
  "sheared_layout = \<lparr>bases = [(''x'', [[1, 0]]), (''y'', [[1, 1]])], outDims = [(''x'', 2), (''y'', 2)], rank = 2\<rparr>"

text \<open>
  With a common name the inverse can be missed: an invertible 2 by 2 layout over in-dims and out-dims
  named alike, whose first dim is the identity, makes the reduced system of \<open>invert\<close> unsolvable, and
  the compiler stops in \<open>lstsq\<close>.
\<close>

theorem invert_missed: "wf sheared_layout \<and> isInvertible sheared_layout \<and> invert sheared_layout = None"
  by (intro conjI) code_simp+

section \<open>Where the code stops\<close>

text \<open>
  \<open>unsqueezeOut\<close> hands the basis vectors to the constructor unchanged, with one out-dim fewer; it
  therefore stops the compiler on every layout that has a basis vector.
\<close>

theorem unsqueezeOut_stops:
  assumes w: "wf l" and "getOutDimSize l d = Some 1" and "columns l \<noteq> []"
  shows "unsqueezeOut l d = None"
proof -
  let ?outs = "filter (\<lambda>(od, _). od \<noteq> d) (outDims l)" and ?o = "outDims l"
  let ?l = "\<lparr>bases = bases l, outDims = ?outs, rank = 0\<rparr>"
  obtain b where b: "b \<in> set (columns l)" using assms(3) by (meson list.set_sel(1))
  obtain s where "(d, s) \<in> set ?o"
    using assms(2) map_of_SomeD by (fastforce simp: getOutDimSize_def getOutDimSizeLog2_def)
  then have "length ?outs < length ?o" by (intro length_filter_less [of "(d, s)"]) auto
  moreover have "length b = length ?o" using wf_wide [OF w] b by (simp add: wide_def list_all_iff)
  ultimately have "\<not> good_column ?outs b" by (auto simp: good_column_parts)
  moreover have "b \<in> set (columns ?l)" using b by (simp add: columns_def)
  ultimately have "invariant_errors ?l \<noteq> []" using no_errors_iff [of ?l] by auto
  moreover have "noCheckLayout (bases l) ?outs = ?l"
    using wf_names [OF w] by (simp add: noCheckLayout_def getOutDimNames_def distinct_map_filter)
  ultimately show ?thesis
    by (auto simp: unsqueezeOut_def mkLayout_def checkInvariants_def split: list.splits)
qed

theorem unsqueezeOut_stops_witness:
  "unsqueezeOut \<lparr>bases = [(''reg'', [[1, 0]])], outDims = [(''x'', 2), (''y'', 1)], rank = 1\<rparr> ''y'' = None"
proof (rule unsqueezeOut_stops)
  show "wf \<lparr>bases = [(''reg'', [[1, 0]])], outDims = [(''x'', 2), (''y'', 1)], rank = 1\<rparr>" by code_simp
qed code_simp+

text \<open>
  \<open>divideRight\<close> compares the last basis vectors of A with B on the out-dims of B only, and the first
  ones with nothing: on these two pairs of well-formed layouts it does not answer \<open>std::nullopt\<close> but stops,
  in the final assertion and in the constructor of the quotient.
\<close>

theorem divideRight_stops:
  "wf \<lparr>bases = [(''reg'', [[1, 0], [2, 1]])], outDims = [(''x'', 4), (''y'', 2)], rank = 2\<rparr> \<and>
   divideRight \<lparr>bases = [(''reg'', [[1, 0], [2, 1]])], outDims = [(''x'', 4), (''y'', 2)], rank = 2\<rparr>
     (identity_layout 1 ''reg'' ''x'') = None \<and>
   wf \<lparr>bases = [(''reg'', [[2], [2]])], outDims = [(''x'', 4)], rank = 1\<rparr> \<and>
   divideRight \<lparr>bases = [(''reg'', [[2], [2]])], outDims = [(''x'', 4)], rank = 1\<rparr>
     (identity_layout 1 ''reg'' ''x'') = None"
  by (intro conjI) code_simp+

end
