(* ===== verification/ColumnAction.thy ===== *)
theory ColumnAction
  imports LayoutLemmas
begin

text \<open>
  The class \<open>ColumnAction\<close> of \<open>include/triton/Tools/LinearLayout.h\<close> and
  \<open>lib/Tools/LinearLayout.cpp\<close>: a selection and reordering of the basis vectors of one input
  dimension, applied to a layout or to the registers that hold its values. A value list is polymorphic:
  the code never looks inside an \<open>mlir::Value\<close>.
\<close>

section \<open>The code\<close>

record column_action =
  action :: "nat list"
  inDim :: dim
  inSizeLog2 :: nat
  m_isIdentity :: bool

definition mkColumnAction :: "nat list \<Rightarrow> dim \<Rightarrow> nat \<Rightarrow> column_action option" where
  "mkColumnAction act d n =
     (if list_all (\<lambda>a. a < n) act
      then Some \<lparr>action = act, inDim = d, inSizeLog2 = n, m_isIdentity = (length act = n \<and> act = [0..<length act])\<rparr>
      else None)"

definition identityAction :: "dim \<Rightarrow> nat \<Rightarrow> column_action option" where
  "identityAction d n = mkColumnAction [0..<n] d n"

text \<open>\<open>bases[inDim] = newBases\<close> on the copied map of a layout.\<close>

definition applyAction :: "column_action \<Rightarrow> linear_layout \<Rightarrow> linear_layout option" where
  "applyAction a l =
     (if getInDimSizeLog2 l (inDim a) \<noteq> Some (inSizeLog2 a) then None
      else if m_isIdentity a then Some l
      else do {
        basesInDim \<leftarrow> map_of (bases l) (inDim a);
        mkLayout (AList.update (inDim a) (map (\<lambda>i. basesInDim ! i) (action a)) (bases l))
          (map (\<lambda>d. (d, the (getOutDimSize l d))) (getOutDimNames l)) False
      })"

definition applyValues :: "column_action \<Rightarrow> 'v list \<Rightarrow> 'v list option" where
  "applyValues a vs =
     (if length vs \<noteq> 2 ^ inSizeLog2 a \<or> inDim a \<noteq> ''register'' then None
      else if m_isIdentity a then Some vs
      else do {
        idl \<leftarrow> identity1D (int (length vs)) (inDim a) (inDim a);
        permLL \<leftarrow> applyAction a idl;
        n \<leftarrow> getInDimSize permLL (inDim a);
        those (map (\<lambda>i. case apply_layout permLL [(inDim a, int i)] of
            Some ((_, srcIdx) # _) \<Rightarrow> (if nat srcIdx < length vs then Some (vs ! nat srcIdx) else None)
          | _ \<Rightarrow> None) [0..<nat n])
      })"

text \<open>The write \<open>invPerm[action[i]]\<close> past the end of \<open>invPerm\<close> is a failed assertion of \<open>SmallVector\<close>.\<close>

definition inverseAction :: "column_action \<Rightarrow> column_action option" where
  "inverseAction a =
     (if list_all (\<lambda>x. x < length (action a)) (action a)
      then mkColumnAction (fold (\<lambda>(i, x) inv. inv[x := i]) (enumerate 0 (action a)) (replicate (length (action a)) 0))
             (inDim a) (inSizeLog2 a)
      else None)"

end
