(* ===== verification/LayoutUtils.thy ===== *)
theory LayoutUtils
  imports ColumnAction LayoutSolve "HOL-Library.Signed_Division"
begin

text \<open>
  \<open>lib/Tools/LayoutUtils.cpp\<close> but \<open>supremum\<close>: trivial dimensions and the quotient by them
  (\<open>isTrivialOver\<close> and \<open>quotient\<close> of \<open>lib/Tools/LinearLayout.cpp\<close>), layouts adjusted to a shape, and the
  column actions a lowering applies to its registers.
\<close>

section \<open>Trivial dimensions\<close>

definition checkSquareSublayout :: "linear_layout \<Rightarrow> dim list \<Rightarrow> (nat \<Rightarrow> int \<Rightarrow> bool) \<Rightarrow> bool option" where
  "checkSquareSublayout ll dimNames checkBasis =
     (if dimNames = [] then Some True
      else do {
        sl \<leftarrow> sublayout ll dimNames dimNames;
        if \<exists>d \<in> set dimNames. getInDimSize ll d \<noteq> getOutDimSize ll d then Some False
        else do {
          i \<leftarrow> flattenIns sl;
          f \<leftarrow> flattenOuts i;
          Some (list_all (\<lambda>(b, basis). checkBasis b (basis ! 0)) (enumerate 0 (snd (hd (bases f)))))
        }
      })"

definition squareSublayoutIsIdentity :: "linear_layout \<Rightarrow> dim list \<Rightarrow> bool option" where
  "squareSublayoutIsIdentity ll dimNames = checkSquareSublayout ll dimNames (\<lambda>b basis. basis = 2 ^ b)"

definition remainingDimNames :: "dim list \<Rightarrow> dim list \<Rightarrow> dim list" where
  "remainingDimNames dimNames allNames = filter (\<lambda>d. d \<notin> set dimNames) allNames"

text \<open>The conjunction is evaluated from the left and stops at the first false conjunct.\<close>

definition isTrivialOver :: "linear_layout \<Rightarrow> dim list \<Rightarrow> bool option" where
  "isTrivialOver l dimNames =
     (if \<exists>d \<in> set dimNames. d \<notin> set (getInDimNames l) \<and> d \<notin> set (getOutDimNames l) then Some False
      else do {
        a \<leftarrow> squareSublayoutIsIdentity l dimNames;
        if \<not> a then Some False
        else do {
          b \<leftarrow> sublayoutIsZero l (remainingDimNames dimNames (getInDimNames l)) dimNames;
          if \<not> b then Some False
          else sublayoutIsZero l dimNames (remainingDimNames dimNames (getOutDimNames l))
        }
      })"

definition quotient :: "linear_layout \<Rightarrow> dim list \<Rightarrow> linear_layout option option" where
  "quotient l dimNames = do {
     t \<leftarrow> isTrivialOver l dimNames;
     if \<not> t then Some None
     else map_option Some (sublayout l (remainingDimNames dimNames (getInDimNames l))
                             (remainingDimNames dimNames (getOutDimNames l)))
   }"

section \<open>Layouts and shapes\<close>

text \<open>A \<open>SmallDenseMap<StringAttr, int64_t>\<close>: \<open>lookup\<close> gives 0 for an absent key; the code reads the
  sizes as \<open>int32_t\<close>.\<close>

type_synonym named_shape = "(dim \<times> int) list"

definition shape_lookup :: "named_shape \<Rightarrow> dim \<Rightarrow> int" where
  "shape_lookup shape d = signed_take_bit 31 (case map_of shape d of Some s \<Rightarrow> s | None \<Rightarrow> 0)"

text \<open>The non-zero components of the bases at one out-dim, with the place of each, the largest first.
  \<open>llvm::sort\<close> leaves the order of equal components open; they are kept in the order of the loops here.\<close>

definition sorted_bases :: "basesT \<Rightarrow> nat \<Rightarrow> (dim \<times> nat \<times> int) list" where
  "sorted_bases bs k =
     sort_key (\<lambda>(_, _, v). - v)
       [(d, i, b ! k). (d, vs) \<leftarrow> bs, (i, b) \<leftarrow> enumerate 0 vs, b ! k \<noteq> 0]"

definition zero_component :: "basesT \<Rightarrow> dim \<Rightarrow> nat \<Rightarrow> nat \<Rightarrow> basesT" where
  "zero_component bs d i k = map (\<lambda>(d', vs). (d', if d' = d then vs[i := (vs ! i)[k := 0]] else vs)) bs"

fun shrink_dim :: "bool \<Rightarrow> nat \<Rightarrow> int \<Rightarrow> (dim \<times> nat \<times> int) list \<Rightarrow> int \<Rightarrow> basesT \<times> nat set \<Rightarrow> basesT \<times> nat set" where
  "shrink_dim bcast k desired [] actual (bs, dropped) = (bs, dropped)"
| "shrink_dim bcast k desired ((d, i, v) # rest) actual (bs, dropped) =
     (if actual \<le> desired then (bs, dropped)
      else shrink_dim bcast k desired rest (actual div 2)
        (if \<not> bcast \<and> d = ''register'' then (bs, insert i dropped) else (zero_component bs d i k, dropped)))"

definition shrink_dims :: "linear_layout \<Rightarrow> named_shape \<Rightarrow> bool \<Rightarrow> (basesT \<times> nat set) option" where
  "shrink_dims l shape bcast =
     fold (\<lambda>(k, d) acc. do {
         (bs, dropped) \<leftarrow> acc;
         let actual = the (getOutDimSize l d);
         let desired = shape_lookup shape d;
         if actual \<le> desired then Some (bs, dropped)
         else if desired = 0 \<or> actual mod desired \<noteq> 0 then None
         else let cands = sorted_bases bs k
              in if list_all (\<lambda>(_, _, v). is_pow2_32 v) cands
                 then Some (shrink_dim bcast k desired cands actual (bs, dropped)) else None
       }) (enumerate 0 (getOutDimNames l)) (Some (bases l, {}))"

text \<open>Without broadcasting the map is read with \<open>operator[]\<close>, which adds a missing register dimension.\<close>

definition ensureLayoutNotLargerThan :: "linear_layout \<Rightarrow> named_shape \<Rightarrow> bool \<Rightarrow> linear_layout option" where
  "ensureLayoutNotLargerThan l shape bcast =
     (if length shape \<noteq> length (outDims l) then None
      else if shape = [] then Some l
      else do {
        (bs, dropped) \<leftarrow> shrink_dims l shape bcast;
        let bs' = (if bcast then bs
             else AList.update ''register''
               (map snd (filter (\<lambda>(i, _). i \<notin> dropped)
                  (enumerate 0 (case map_of bs ''register'' of Some vs \<Rightarrow> vs | None \<Rightarrow> [])))) bs);
        mkLayout bs' (map (\<lambda>(d, s). (d, min s (shape_lookup shape d))) (outDims l)) False
      })"

definition ensureLayoutNotSmallerThan :: "linear_layout \<Rightarrow> named_shape \<Rightarrow> linear_layout option" where
  "ensureLayoutNotSmallerThan l shape =
     (if length shape \<noteq> length (outDims l) then None
      else if shape = [] then Some l
      else (case getInDimNames l of
          [] \<Rightarrow> None
        | kDim # _ \<Rightarrow>
            if kDim \<noteq> ''register'' \<and> kDim \<noteq> ''offset'' then None
            else fold (\<lambda>d acc. do {
                ret \<leftarrow> acc;
                let actual = the (getOutDimSize l d);
                let desired = shape_lookup shape d;
                (if actual > desired \<or> desired mod actual = 0 then Some () else None);
                i \<leftarrow> identity1D (desired sdiv actual) kDim d;
                r \<leftarrow> layout_prod ret i;
                (case getOutDimSize r d of
                   Some s \<Rightarrow> if s \<ge> desired then Some r else None
                 | None \<Rightarrow> None)
              }) (getOutDimNames l) (Some l)))"

text \<open>The overload that takes the dimension names and sizes apart.\<close>

definition ensureNamedNotSmallerThan :: "linear_layout \<Rightarrow> dim list \<Rightarrow> int list \<Rightarrow> linear_layout option" where
  "ensureNamedNotSmallerThan l names shape =
     (if length names = length shape \<and> distinct names then ensureLayoutNotSmallerThan l (zip names shape) else None)"

fun digits_nat :: "nat \<Rightarrow> string" where
  "digits_nat n = (if n < 10 then [char_of (48 + n)] else digits_nat (n div 10) @ [char_of (48 + n mod 10)])"

declare digits_nat.simps [simp del]

definition standardOutDimNames :: "nat \<Rightarrow> dim list" where
  "standardOutDimNames r = map (\<lambda>i. ''dim'' @ digits_nat i) [0..<r]"

definition standardOutDimPairs :: "int list \<Rightarrow> (dim \<times> int) list" where
  "standardOutDimPairs shape = zip (standardOutDimNames (length shape)) (map (signed_take_bit 31) shape)"

definition identityStandardND :: "dim \<Rightarrow> int list \<Rightarrow> nat list \<Rightarrow> linear_layout option" where
  "identityStandardND inDimName shape order =
     (if length shape \<noteq> length order then None
      else let names = standardOutDimNames (length shape)
           in fold (\<lambda>d acc. do {
                ret \<leftarrow> acc;
                (if d < length shape then Some () else None);
                i \<leftarrow> identity1D (shape ! d) inDimName (names ! d);
                layout_prod ret i
              }) order (Some empty_layout))"

definition zerosLike :: "linear_layout \<Rightarrow> linear_layout option" where
  "zerosLike l =
     mkLayout (map (\<lambda>(d, vs). (d, map (map (\<lambda>_. 0)) vs)) (bases l))
       (map (\<lambda>d. (d, the (getOutDimSize l d))) (getOutDimNames l)) False"

definition reshapeLayout :: "linear_layout \<Rightarrow> int list \<Rightarrow> linear_layout option" where
  "reshapeLayout l shape = do {
     t \<leftarrow> transposeOuts l (rev (getOutDimNames l));
     r \<leftarrow> reshapeOuts t (rev (standardOutDimPairs shape));
     transposeOuts r (standardOutDimNames (length shape))
   }"

text \<open>The sizes of the result are inferred from its bases; the names stay where they are.\<close>

definition transposeLinearLayout :: "linear_layout \<Rightarrow> nat list \<Rightarrow> linear_layout option" where
  "transposeLinearLayout l order =
     (if list_all (\<lambda>i. i < length (outDims l)) order \<or> columns l = []
      then mkLayoutInfer (map (\<lambda>(d, vs). (d, map (\<lambda>b. map (\<lambda>i. b ! i) order) vs)) (bases l)) (getOutDimNames l)
      else None)"

section \<open>Column actions\<close>

text \<open>The first unused index of \<open>A\<close> for each basis of \<open>B\<close> in order.\<close>

fun match_bases :: "int list list \<Rightarrow> int list list \<Rightarrow> nat list \<Rightarrow> nat list option" where
  "match_bases as [] used = Some (rev used)"
| "match_bases as (b # bs) used =
     (case find (\<lambda>j. j \<notin> set used \<and> as ! j = b) [0..<length as] of
        Some j \<Rightarrow> match_bases as bs (j # used)
      | None \<Rightarrow> None)"

text \<open>
  \<open>log2QuotSize\<close> is a map to \<open>unsigned\<close>: its test for a negative value never holds, and a negative
  difference wraps. A shift by such a value is undefined behaviour: None.
\<close>

definition regPermForDivide :: "linear_layout \<Rightarrow> linear_layout \<Rightarrow> bool \<Rightarrow> column_action option option" where
  "regPermForDivide A B left =
     (case (getInDimNames A, getInDimNames B) of
        (kReg # _, kRegB # _) \<Rightarrow>
          if kReg \<noteq> ''register'' \<or> kReg \<noteq> kRegB then None
          else do {
            broadcast \<leftarrow> fold (\<lambda>d acc. do {r \<leftarrow> acc; i \<leftarrow> identity1D 1 kReg d; layout_prod r i})
                           (getOutDimNames A) (Some empty_layout);
            BB \<leftarrow> layout_prod broadcast B;
            let ra = the (map_of (bases A) kReg);
            let rb = the (map_of (bases BB) kReg);
            quot \<leftarrow> those (map (\<lambda>d. case (getOutDimSizeLog2 A d, getOutDimSizeLog2 BB d) of
                (Some a, Some b) \<Rightarrow> Some ((int a - int b) mod 2 ^ 32) | _ \<Rightarrow> None) (getOutDimNames A));
            rb' \<leftarrow> (if left then Some rb
                    else if list_all (\<lambda>b. length b = length quot) rb \<and> (rb = [] \<or> list_all (\<lambda>q. q < 32) quot)
                    then Some (map (\<lambda>b. map (\<lambda>(q, x). signed_take_bit 31 (push_bit (nat q) x)) (zip quot b)) rb)
                    else None);
            (case match_bases ra rb' [] of
               None \<Rightarrow> Some None
             | Some is \<Rightarrow>
                 let rest = filter (\<lambda>i. i \<notin> set is) [0..<length ra]
                 in map_option Some (mkColumnAction (if left then is @ rest else rest @ is) kReg (length ra)))
          }
      | _ \<Rightarrow> None)"

definition actionRemoveBroadcastedRegs :: "linear_layout \<Rightarrow> column_action option" where
  "actionRemoveBroadcastedRegs l =
     (case bases l of
        [] \<Rightarrow> None
      | (kReg, bs) # _ \<Rightarrow>
          if kReg \<noteq> ''register'' then None
          else mkColumnAction (map fst (filter (\<lambda>(_, b). \<not> list_all (\<lambda>x. x = 0) b) (enumerate 0 bs))) kReg (length bs))"

text \<open>The masks are \<open>uint32_t\<close>; \<open>1 << front.size()\<close> is an \<open>int\<close>.\<close>

definition actionAdditiveStrides :: "linear_layout \<Rightarrow> linear_layout \<Rightarrow> int \<Rightarrow> (int \<times> column_action) option" where
  "actionAdditiveStrides l addr maskSpanOffsets =
     (case bases l of
        [] \<Rightarrow> None
      | (kReg, bs) # _ \<Rightarrow>
          if kReg \<noteq> ''register'' \<or> length (outDims l) \<noteq> 1 \<or> outDims addr = [] \<and> columns addr \<noteq> [] then None
          else let tiles = map (\<lambda>b. b ! 0) (columns addr);
                   bits = fold (\<lambda>t acc. acc OR t) tiles (take_bit 32 maskSpanOffsets);
                   isFront = (\<lambda>(i, b). (b ! 0) AND bits = 0 \<or> b ! 0 \<in> set tiles);
                   front = map fst (filter isFront (enumerate 0 bs));
                   back = map fst (filter (\<lambda>x. \<not> isFront x) (enumerate 0 bs))
               in if length front < 31
                  then map_option (\<lambda>a. (2 ^ length front, a)) (mkColumnAction (front @ back) kReg (length bs))
                  else None)"

fun broadcast_bases :: "int \<Rightarrow> nat \<Rightarrow> nat \<Rightarrow> nat \<Rightarrow> int list list" where
  "broadcast_bases bmask i j 0 = []"
| "broadcast_bases bmask i j (Suc n) =
     (if bit bmask j then [0] # broadcast_bases bmask i (Suc j) n
      else [2 ^ i] # broadcast_bases bmask (Suc i) (Suc j) n)"

definition broadcastAs :: "'v list \<Rightarrow> linear_layout \<Rightarrow> 'v list option" where
  "broadcastAs values l =
     (case getInDimNames l of
        [] \<Rightarrow> None
      | kReg # _ \<Rightarrow>
          if kReg \<noteq> ''register'' then None
          else do {
            masks \<leftarrow> getFreeVariableMasks l;
            let bmask = the (map_of masks kReg);
            n \<leftarrow> getInDimSizeLog2 l kReg;
            (if (2::int) ^ n div 2 ^ length (filter (bit bmask) [0..<32]) = int (length values) then Some () else None);
            newLayout \<leftarrow> mkLayoutInfer [(kReg, broadcast_bases bmask 0 0 n)] [kReg];
            those (map (\<lambda>i. case apply_layout newLayout [(kReg, int i)] of
                Some ((_, src) # _) \<Rightarrow> (if nat src < length values then Some (values ! nat src) else None)
              | _ \<Rightarrow> None) [0..<2 ^ n])
          })"

end
