(* ===== verification/Encodings.thy ===== *)
theory Encodings
  imports LayoutUtils
begin

text \<open>
  The layout attributes of the TritonGPU dialect (\<open>TritonGPUAttrDefs.td\<close>) and the functions on them in
  \<open>lib/Dialect/TritonGPU/IR/Dialect.cpp\<close>: orders, splits over CTAs, verifiers, builders, and the
  quantities a linear encoding derives from its bases. An \<open>unsigned\<close> is an \<open>int\<close>, an index a \<open>nat\<close>.
  None is a stopped compiler.
\<close>

section \<open>Permutations\<close>

text \<open>The templates of \<open>include/triton/Dialect/Triton/IR/Utility.h\<close>, with their assertions.\<close>

definition isIota :: "nat list \<Rightarrow> bool" where
  "isIota vec = list_all (\<lambda>i. vec ! i = i) [0..<length vec]"

definition isPermutationOfIota :: "nat list \<Rightarrow> bool" where
  "isPermutationOfIota vals = isIota (sort vals)"

definition applyPermutation :: "'a list \<Rightarrow> nat list \<Rightarrow> 'a list option" where
  "applyPermutation vec permutation =
     (if length vec = length permutation \<and> isPermutationOfIota permutation
      then Some (map (\<lambda>i. vec ! i) permutation) else None)"

definition inversePermutation :: "nat list \<Rightarrow> nat list option" where
  "inversePermutation permutation =
     (if isPermutationOfIota permutation
      then Some (fold (\<lambda>i r. r[permutation ! i := i]) [0..<length permutation] (replicate (length permutation) 0))
      else None)"

definition gather :: "'a list \<Rightarrow> nat list \<Rightarrow> 'a list" where
  "gather elems indices = map (\<lambda>i. elems ! i) indices"

definition isConsecutive :: "nat list \<Rightarrow> bool" where
  "isConsecutive vec = list_all (\<lambda>i. vec ! i = vec ! (i - 1) + 1) [1..<length vec]"

text \<open>An integer division stops the compiler when the divisor is 0.\<close>

definition cdiv :: "int \<Rightarrow> int \<Rightarrow> int option" where
  "cdiv a b = (if b = 0 then None else Some (a sdiv b))"

section \<open>The attributes\<close>

record cta_layout =
  CTAsPerCGA :: "int list"
  CTASplitNum :: "int list"
  CTAOrder :: "nat list"

text \<open>\<open>CTALayoutAttr::get\<close> gives a layout of single CTAs the canonical order.\<close>

definition mkCTALayout :: "int list \<Rightarrow> int list \<Rightarrow> nat list \<Rightarrow> cta_layout" where
  "mkCTALayout ctas split ord =
     \<lparr>CTAsPerCGA = ctas, CTASplitNum = split,
      CTAOrder = (if list_all (\<lambda>x. x = 1) ctas then rev [0..<length ctas] else ord)\<rparr>"

definition defaultCTALayout :: "nat \<Rightarrow> cta_layout" where
  "defaultCTALayout r = mkCTALayout (replicate r 1) (replicate r 1) (rev [0..<r])"

record blocked_encoding =
  sizePerThread :: "int list"
  threadsPerWarp :: "int list"
  warpsPerCTA :: "int list"
  blockedOrder :: "nat list"
  blockedCTA :: cta_layout

datatype elem_type = F64 | F32 | I32 | OtherType

record mfma_encoding =
  mfmaVersion :: int
  mfmaWarps :: "int list"
  tilesPerWarp :: "int list"
  mDim :: int
  nDim :: int
  mfmaTransposed :: bool
  mfmaCTA :: cta_layout
  mfmaElem :: "elem_type option"

record wmma_encoding =
  wmmaVersion :: int
  wmmaTransposed :: bool
  wmmaWarps :: "int list"
  wmmaCTA :: cta_layout

record mma_encoding =
  versionMajor :: int
  versionMinor :: int
  mmaWarps :: "int list"
  mmaCTA :: cta_layout
  instrShape :: "int list"

datatype distributed =
    LinearEnc linear_layout
  | Blocked blocked_encoding
  | Mfma mfma_encoding
  | Wmma wmma_encoding
  | NvidiaMma mma_encoding
  | SliceEnc nat distributed
  | DotOperand nat distributed int

text \<open>The shared encodings with a swizzle pattern, plain and rotating, share their parameters.\<close>

record swizzle_params =
  vec :: int
  perPhase :: int
  maxPhase :: int
  swizzleOrder :: "nat list"
  swizzleCTA :: cta_layout

record padded_encoding =
  intervals :: "int list"
  paddings :: "int list"
  paddedOrder :: "nat list"
  paddedCTA :: cta_layout

record nvmma_encoding =
  swizzlingByteWidth :: int
  nvTransposed :: bool
  elementBitWidth :: int
  fp4Padded :: bool
  nvCTA :: cta_layout

record tmem_encoding =
  blockM :: int
  blockN :: int
  unpacked :: bool
  CTASplitM :: int
  CTASplitN :: int

datatype encoding =
    Distributed distributed
  | Swizzled swizzle_params
  | Rotating swizzle_params
  | Padded padded_encoding
  | NVMMAShared nvmma_encoding
  | TensorMemory tmem_encoding
  | TensorMemoryScales int int

section \<open>Orders\<close>

definition eraseOrder :: "nat list \<Rightarrow> nat \<Rightarrow> nat list option" where
  "eraseOrder ord d =
     (if d < length ord then Some (map (\<lambda>i. if i < d then i else i - 1) (filter (\<lambda>i. i \<noteq> d) ord)) else None)"

definition getMatrixOrder :: "nat \<Rightarrow> bool \<Rightarrow> nat list" where
  "getMatrixOrder r rowMajor =
     (if r < 2 then replicate r 0
      else let o' = rev [0..<r] in if rowMajor then o' else o'[0 := o' ! 1, 1 := o' ! 0])"

definition getOrderForDotOperand :: "nat \<Rightarrow> nat \<Rightarrow> bool \<Rightarrow> nat list option" where
  "getOrderForDotOperand opIdx r kContig =
     (if opIdx \<le> 1 then Some (getMatrixOrder r ((opIdx = 1) \<noteq> kContig)) else None)"

section \<open>Linear encodings\<close>

definition nonzero_at :: "int list \<Rightarrow> nat option" where
  "nonzero_at basis = find (\<lambda>i. basis ! i \<noteq> 0) [0..<length basis]"

text \<open>A basis that broadcasts counts, where it does, for the dimension the last other basis moves in.\<close>

fun bases_per_dim :: "bool \<Rightarrow> int list list \<Rightarrow> nat \<Rightarrow> int list \<Rightarrow> int list" where
  "bases_per_dim skipBroadcast [] i ret = ret"
| "bases_per_dim skipBroadcast (b # bs) i ret =
     (case nonzero_at b of
        Some j \<Rightarrow> bases_per_dim skipBroadcast bs j (ret[j := ret ! j * 2])
      | None \<Rightarrow> bases_per_dim skipBroadcast bs i (if skipBroadcast then ret else ret[i := ret ! i * 2]))"

definition basesPerDimImpl :: "basesT \<Rightarrow> dim \<Rightarrow> nat \<Rightarrow> bool \<Rightarrow> int list option" where
  "basesPerDimImpl namedBases dimName r skipBroadcast =
     map_option (\<lambda>bs. bases_per_dim skipBroadcast bs 0 (replicate r 1)) (map_of namedBases dimName)"

definition basesPerDim :: "linear_layout \<Rightarrow> dim \<Rightarrow> bool \<Rightarrow> int list option" where
  "basesPerDim ll dimName skipBroadcast = basesPerDimImpl (bases ll) dimName (length (outDims ll)) skipBroadcast"

text \<open>A \<open>SetVector\<close>: the first occurrence of each value.\<close>

definition set_vector :: "nat list \<Rightarrow> nat list" where
  "set_vector xs = rev (remdups (rev xs))"

definition orderPerDim :: "linear_layout \<Rightarrow> dim \<Rightarrow> nat list \<Rightarrow> nat list option" where
  "orderPerDim ll dimName defaultOrder =
     map_option (\<lambda>bs. set_vector (concat (map (\<lambda>b. case nonzero_at b of Some i \<Rightarrow> [i] | None \<Rightarrow> []) bs) @ defaultOrder))
       (map_of (bases ll) dimName)"

definition linearOrder :: "linear_layout \<Rightarrow> nat list option" where
  "linearOrder ll = orderPerDim ll ''register'' (rev [0..<length (outDims ll)])"

definition linearCTAsPerCGA :: "linear_layout \<Rightarrow> int list option" where
  "linearCTAsPerCGA ll = basesPerDim ll ''block'' False"

definition linearCTASplitNum :: "linear_layout \<Rightarrow> int list option" where
  "linearCTASplitNum ll = basesPerDim ll ''block'' True"

definition linearCTAOrder :: "linear_layout \<Rightarrow> nat list option" where
  "linearCTAOrder ll = Option.bind (linearOrder ll) (orderPerDim ll ''block'')"

definition linearWarpsPerCTA :: "linear_layout \<Rightarrow> int list option" where
  "linearWarpsPerCTA ll = basesPerDim ll ''warp'' True"

definition linearWarpOrder :: "linear_layout \<Rightarrow> nat list option" where
  "linearWarpOrder ll = Option.bind (linearOrder ll) (orderPerDim ll ''warp'')"

definition linearThreadsPerWarp :: "linear_layout \<Rightarrow> int list option" where
  "linearThreadsPerWarp ll = basesPerDim ll ''lane'' True"

definition linearThreadOrder :: "linear_layout \<Rightarrow> nat list option" where
  "linearThreadOrder ll = Option.bind (linearOrder ll) (orderPerDim ll ''lane'')"

text \<open>Repetitions, the last registers that fill up the shape of a CTA, are taken off; the arguments are
  the registers from the last one on. The test on the set vector always holds right after the insertion
  unless the dimension was there before.\<close>

fun strip_reps :: "int list list \<Rightarrow> int list \<Rightarrow> nat list \<Rightarrow> int list list" where
  "strip_reps [] ctaShape seen = []"
| "strip_reps (b # bs) ctaShape seen =
     (case nonzero_at b of
        None \<Rightarrow> b # bs
      | Some d \<Rightarrow>
          let seen' = (if d \<in> set seen then seen else seen @ [d])
          in if d \<noteq> last seen' \<or> 2 * (b ! d) \<noteq> ctaShape ! d then b # bs
             else strip_reps bs (ctaShape[d := ctaShape ! d sdiv 2]) seen')"

definition linearSizePerThread :: "linear_layout \<Rightarrow> int list option" where
  "linearSizePerThread ll = do {
     split \<leftarrow> linearCTASplitNum ll;
     regs \<leftarrow> map_of (bases ll) ''register'';
     let ctaShape = map (\<lambda>((_, s), n). s sdiv n) (zip (outDims ll) split);
     let bs = AList.update ''register'' (rev (strip_reps (rev regs) ctaShape [])) (bases ll);
     basesPerDimImpl bs ''register'' (length (outDims ll)) True
   }"

fun extend_contig :: "nat list \<Rightarrow> int list list \<Rightarrow> int list \<Rightarrow> int list" where
  "extend_contig [] bs contig = contig"
| "extend_contig (d # ds) bs contig =
     (let n = length contig;
          k = length (takeWhile (\<lambda>(i, b). b = (replicate n 0)[d := contig ! d * 2 ^ i]) (enumerate 0 bs))
      in extend_contig ds (drop k bs) (contig[d := contig ! d * 2 ^ k]))"

definition linearContig :: "linear_layout \<Rightarrow> dim \<Rightarrow> int list \<Rightarrow> int list option" where
  "linearContig ll d lowerContig = do {
     bs \<leftarrow> map_of (bases ll) d;
     ord \<leftarrow> linearOrder ll;
     Some (extend_contig ord bs lowerContig)
   }"

definition linearContigPerThread :: "linear_layout \<Rightarrow> int list option" where
  "linearContigPerThread ll = linearContig ll ''register'' (replicate (length (outDims ll)) 1)"

definition linearContigPerWarp :: "linear_layout \<Rightarrow> int list option" where
  "linearContigPerWarp ll = Option.bind (linearContigPerThread ll) (linearContig ll ''lane'')"

text \<open>\<open>LinearEncodingAttr::toLinearLayout\<close>: the layout adjusted to a shape.\<close>

definition linearToShape :: "linear_layout \<Rightarrow> int list \<Rightarrow> linear_layout option" where
  "linearToShape ll shape = do {
     ord \<leftarrow> linearOrder ll;
     let canonicalDims = getOutDimNames ll;
     (if list_all (\<lambda>d. d < length canonicalDims \<and> d < length shape) ord then Some () else None);
     let permutedDims = map (\<lambda>d. canonicalDims ! d) ord;
     let namedShape = mapvec (map (\<lambda>d. (canonicalDims ! d, shape ! d)) ord);
     l1 \<leftarrow> transposeOuts ll permutedDims;
     l2 \<leftarrow> ensureLayoutNotSmallerThan l1 namedShape;
     l3 \<leftarrow> ensureLayoutNotLargerThan l2 namedShape False;
     transposeOuts l3 canonicalDims
   }"

definition linearElemsPerThread :: "linear_layout \<Rightarrow> int list \<Rightarrow> int list option" where
  "linearElemsPerThread ll shape = do {
     scaled \<leftarrow> linearToShape ll shape;
     basesPerDim scaled ''register'' False
   }"

definition linearTotalElemsPerThread :: "linear_layout \<Rightarrow> int list \<Rightarrow> int option" where
  "linearTotalElemsPerThread ll shape = map_option prod_list (linearElemsPerThread ll shape)"

section \<open>The traits of the encodings\<close>

text \<open>\<open>getCTASplitNum\<close>, \<open>getCTAOrder\<close>, \<open>getCTAsPerCGA\<close> of the distributed encodings.\<close>

fun distCTASplitNum :: "distributed \<Rightarrow> int list option" where
  "distCTASplitNum (LinearEnc ll) = linearCTASplitNum ll"
| "distCTASplitNum (Blocked e) = Some (CTASplitNum (blockedCTA e))"
| "distCTASplitNum (Mfma e) = Some (CTASplitNum (mfmaCTA e))"
| "distCTASplitNum (Wmma e) = Some (CTASplitNum (wmmaCTA e))"
| "distCTASplitNum (NvidiaMma e) = Some (CTASplitNum (mmaCTA e))"
| "distCTASplitNum (SliceEnc d parent) = do {
     res \<leftarrow> distCTASplitNum parent;
     if d < length res then Some (take d res @ drop (Suc d) res) else None
   }"
| "distCTASplitNum (DotOperand opIdx parent kWidth) = do {
     res \<leftarrow> distCTASplitNum parent;
     if length res = 2 \<or> length res = 3
     then Some (res[(if opIdx = 0 then length res - 1 else length res - 2) := 1]) else None
   }"

fun distCTAOrder :: "distributed \<Rightarrow> nat list option" where
  "distCTAOrder (LinearEnc ll) = linearCTAOrder ll"
| "distCTAOrder (Blocked e) = Some (CTAOrder (blockedCTA e))"
| "distCTAOrder (Mfma e) = Some (CTAOrder (mfmaCTA e))"
| "distCTAOrder (Wmma e) = Some (CTAOrder (wmmaCTA e))"
| "distCTAOrder (NvidiaMma e) = Some (CTAOrder (mmaCTA e))"
| "distCTAOrder (SliceEnc d parent) = Option.bind (distCTAOrder parent) (\<lambda>ord. eraseOrder ord d)"
| "distCTAOrder (DotOperand opIdx parent kWidth) = distCTAOrder parent"

fun distCTAsPerCGA :: "distributed \<Rightarrow> int list option" where
  "distCTAsPerCGA (LinearEnc ll) = linearCTAsPerCGA ll"
| "distCTAsPerCGA (Blocked e) = Some (CTAsPerCGA (blockedCTA e))"
| "distCTAsPerCGA (Mfma e) = Some (CTAsPerCGA (mfmaCTA e))"
| "distCTAsPerCGA (Wmma e) = Some (CTAsPerCGA (wmmaCTA e))"
| "distCTAsPerCGA (NvidiaMma e) = Some (CTAsPerCGA (mmaCTA e))"
| "distCTAsPerCGA (SliceEnc d parent) = do {
     res \<leftarrow> distCTAsPerCGA parent;
     if d < length res \<and> res ! d = 1 then Some (take d res @ drop (Suc d) res) else None
   }"
| "distCTAsPerCGA (DotOperand opIdx parent kWidth) = distCTAsPerCGA parent"

definition distRank :: "distributed \<Rightarrow> nat option" where
  "distRank e = map_option length (distCTAOrder e)"

text \<open>The repetition order; the cast of a dot operand's parent accepts the matrix encodings and blocked ones.\<close>

fun distRepOrder :: "distributed \<Rightarrow> nat list option" where
  "distRepOrder (LinearEnc ll) = linearOrder ll"
| "distRepOrder (Blocked e) = Some (blockedOrder e)"
| "distRepOrder (Mfma e) = Some (getMatrixOrder (length (CTAOrder (mfmaCTA e))) True)"
| "distRepOrder (Wmma e) = Some (getMatrixOrder (length (CTAOrder (wmmaCTA e))) True)"
| "distRepOrder (NvidiaMma e) = Some (getMatrixOrder (length (CTAOrder (mmaCTA e))) True)"
| "distRepOrder (SliceEnc d parent) = Option.bind (distRepOrder parent) (\<lambda>ord. eraseOrder ord d)"
| "distRepOrder (DotOperand opIdx parent kWidth) =
     (case parent of
        Mfma e \<Rightarrow> getOrderForDotOperand opIdx (length (CTAOrder (mfmaCTA e))) True
      | Wmma e \<Rightarrow> getOrderForDotOperand opIdx (length (CTAOrder (wmmaCTA e))) True
      | NvidiaMma e \<Rightarrow> getOrderForDotOperand opIdx (length (CTAOrder (mmaCTA e))) True
      | Blocked e \<Rightarrow> Some (blockedOrder e)
      | _ \<Rightarrow> None)"

definition getCTASplitNum :: "encoding \<Rightarrow> int list option" where
  "getCTASplitNum e =
     (case e of
        Distributed d \<Rightarrow> distCTASplitNum d
      | Swizzled s \<Rightarrow> Some (CTASplitNum (swizzleCTA s))
      | Rotating s \<Rightarrow> Some (CTASplitNum (swizzleCTA s))
      | Padded s \<Rightarrow> Some (CTASplitNum (paddedCTA s))
      | NVMMAShared s \<Rightarrow> Some (CTASplitNum (nvCTA s))
      | TensorMemory t \<Rightarrow> Some [CTASplitM t, CTASplitN t]
      | TensorMemoryScales m n \<Rightarrow> Some [m, n])"

definition getCTAOrder :: "encoding \<Rightarrow> nat list option" where
  "getCTAOrder e =
     (case e of
        Distributed d \<Rightarrow> distCTAOrder d
      | Swizzled s \<Rightarrow> Some (CTAOrder (swizzleCTA s))
      | Rotating s \<Rightarrow> Some (CTAOrder (swizzleCTA s))
      | Padded s \<Rightarrow> Some (CTAOrder (paddedCTA s))
      | NVMMAShared s \<Rightarrow> Some (CTAOrder (nvCTA s))
      | _ \<Rightarrow> None)"

definition getCTAsPerCGA :: "encoding \<Rightarrow> int list option" where
  "getCTAsPerCGA e =
     (case e of
        Distributed d \<Rightarrow> distCTAsPerCGA d
      | Swizzled s \<Rightarrow> Some (CTAsPerCGA (swizzleCTA s))
      | Rotating s \<Rightarrow> Some (CTAsPerCGA (swizzleCTA s))
      | Padded s \<Rightarrow> Some (CTAsPerCGA (paddedCTA s))
      | NVMMAShared s \<Rightarrow> Some (CTAsPerCGA (nvCTA s))
      | _ \<Rightarrow> None)"

definition getCTALayout :: "encoding \<Rightarrow> cta_layout option" where
  "getCTALayout e = do {
     ctas \<leftarrow> getCTAsPerCGA e;
     split \<leftarrow> getCTASplitNum e;
     ord \<leftarrow> getCTAOrder e;
     Some (mkCTALayout ctas split ord)
   }"

definition getNumCTAs :: "encoding \<Rightarrow> int option" where
  "getNumCTAs e = map_option prod_list (getCTAsPerCGA e)"

text \<open>The alignment of a shared encoding.\<close>

definition nvVec :: "nvmma_encoding \<Rightarrow> int option" where
  "nvVec e = (if swizzlingByteWidth e = 0 then Some 1 else cdiv 128 (elementBitWidth e))"

definition nvPerPhase :: "nvmma_encoding \<Rightarrow> int option" where
  "nvPerPhase e = (if swizzlingByteWidth e = 0 then Some 1 else cdiv 128 (swizzlingByteWidth e))"

definition nvMaxPhase :: "nvmma_encoding \<Rightarrow> int" where
  "nvMaxPhase e = (if swizzlingByteWidth e = 0 then 1 else swizzlingByteWidth e sdiv 16)"

definition sharedAlignment :: "encoding \<Rightarrow> int option" where
  "sharedAlignment e =
     (case e of NVMMAShared s \<Rightarrow> Some (128 * nvMaxPhase s) | Swizzled _ \<Rightarrow> Some 16 | Rotating _ \<Rightarrow> Some 16
      | Padded _ \<Rightarrow> Some 16 | _ \<Rightarrow> None)"

definition sharedOrder :: "encoding \<Rightarrow> nat \<Rightarrow> nat list option" where
  "sharedOrder e r =
     (case e of
        Swizzled s \<Rightarrow> Some (swizzleOrder s)
      | Padded s \<Rightarrow> Some (paddedOrder s)
      | NVMMAShared s \<Rightarrow> Some (if r = 1 then [0] else getMatrixOrder r (\<not> nvTransposed s))
      | Rotating s \<Rightarrow> Some (swizzleOrder s)
      | _ \<Rightarrow> None)"

section \<open>Shapes per CTA\<close>

text \<open>The two overloads: of a list of splits, and of an encoding.\<close>

definition shapePerCTA :: "int list \<Rightarrow> int list \<Rightarrow> int list option" where
  "shapePerCTA splitNum shape =
     (let r = length shape;
          splits = (if length splitNum \<le> r then replicate (r - length splitNum) 1 @ splitNum
                    else drop (length splitNum - r) splitNum)
      in those (map (\<lambda>(s, n). cdiv s (min s n)) (zip shape splits)))"

definition getShapePerCTA :: "encoding \<Rightarrow> int list \<Rightarrow> int list option" where
  "getShapePerCTA e shape = Option.bind (getCTASplitNum e) (\<lambda>split. shapePerCTA split shape)"

definition getAllocationShapePerCTA :: "encoding \<Rightarrow> int list \<Rightarrow> int list option" where
  "getAllocationShapePerCTA e shapeLogical =
     (case e of
        NVMMAShared s \<Rightarrow>
          if fp4Padded s
          then (case sharedOrder e (length shapeLogical) of
              Some (packedAxis # _) \<Rightarrow>
                if packedAxis < length shapeLogical
                then getShapePerCTA e (shapeLogical[packedAxis := shapeLogical ! packedAxis * 2]) else None
            | _ \<Rightarrow> None)
          else getShapePerCTA e shapeLogical
      | _ \<Rightarrow> getShapePerCTA e shapeLogical)"

text \<open>The number of elements of a padded tensor, an \<open>int64_t\<close>.\<close>

definition getPaddedSize :: "padded_encoding \<Rightarrow> int list \<Rightarrow> int option" where
  "getPaddedSize e shape =
     (let unpaddedSize = prod_list shape
      in if length (intervals e) \<noteq> length (paddings e) \<or> 0 \<in> set (intervals e) \<or> 0 \<in> set (paddings e) then None
         else Some (unpaddedSize + sum_list (map (\<lambda>(i, p).
             push_bit (log2_32 p) (drop_bit (log2_32 i) unpaddedSize) - (if unpaddedSize mod i = 0 then p else 0))
           (zip (intervals e) (paddings e)))))"

section \<open>Verifiers\<close>

text \<open>What a verifier reports first; None is success.\<close>

datatype enc_error =
    RanksDiffer
  | OrderNoPermutation
  | ZeroEntry string
  | NotPowersOfTwo string
  | BadVersion
  | BadDims
  | BadElementType
  | TransposedVersion1
  | SliceRank
  | SliceDim
  | InDimName nat dim
  | OutDimName nat dim
  | BaseMovesTwice
  | IntervalCount
  | NoIntervals
  | DuplicateIntervals
  | EmptyOrder
  | BadOpIdx
  | BadKWidth
  | BadParent

text \<open>The first failing check.\<close>

fun first_error :: "(bool \<times> enc_error) list \<Rightarrow> enc_error option" where
  "first_error [] = None"
| "first_error ((failed, e) # cs) = (if failed then Some e else first_error cs)"

definition is_pow2_64u :: "int \<Rightarrow> bool" where
  "is_pow2_64u x = (x \<noteq> 0 \<and> x AND (x - 1) = 0)"

definition verifyLayoutOrder :: "nat list \<Rightarrow> enc_error option" where
  "verifyLayoutOrder ord = first_error [(\<not> isPermutationOfIota ord, OrderNoPermutation)]"

definition verifyCTALayout :: "int list \<Rightarrow> int list \<Rightarrow> nat list \<Rightarrow> enc_error option" where
  "verifyCTALayout ctas split ord = first_error
     [(\<not> (length ctas = length split \<and> length split = length ord), RanksDiffer),
      (\<not> isPermutationOfIota ord, OrderNoPermutation),
      (list_ex (\<lambda>x. x = 0) ctas, ZeroEntry ''CTAsPerCGA''),
      (list_ex (\<lambda>x. x = 0) split, ZeroEntry ''CTASplitNum'')]"

definition verifyBlocked :: "blocked_encoding \<Rightarrow> enc_error option" where
  "verifyBlocked e = first_error
     [(\<not> (length (sizePerThread e) = length (threadsPerWarp e) \<and> length (threadsPerWarp e) = length (warpsPerCTA e) \<and>
          length (warpsPerCTA e) = length (blockedOrder e)), RanksDiffer),
      (list_ex (\<lambda>x. \<not> is_pow2_64u x) (sizePerThread e), NotPowersOfTwo ''sizePerThread''),
      (list_ex (\<lambda>x. \<not> is_pow2_64u x) (threadsPerWarp e), NotPowersOfTwo ''threadsPerWarp''),
      (list_ex (\<lambda>x. \<not> is_pow2_64u x) (warpsPerCTA e), NotPowersOfTwo ''warpsPerCTA''),
      (length (blockedOrder e) \<noteq> length (CTAOrder (blockedCTA e)), RanksDiffer),
      (\<not> isPermutationOfIota (blockedOrder e), OrderNoPermutation)]"

text \<open>\<open>zip\<close> stops at the shorter list: missing in-dims are accepted.\<close>

definition verifyLinear :: "linear_layout \<Rightarrow> enc_error option" where
  "verifyLinear ll = first_error
     (map (\<lambda>(i, (d, expected)). (d \<noteq> expected, InDimName i d))
        (enumerate 0 (zip (getInDimNames ll) [''register'', ''lane'', ''warp'', ''block''])) @
      map (\<lambda>(i, (d, expected)). (d \<noteq> expected, OutDimName i d))
        (enumerate 0 (zip (getOutDimNames ll) (standardOutDimNames (length (outDims ll))))) @
      map (\<lambda>(_, bs). (\<not> list_all (\<lambda>b. length (filter (\<lambda>x. x \<noteq> 0) b) \<le> 1) bs, BaseMovesTwice)) (bases ll))"

definition verifyMfma :: "mfma_encoding \<Rightarrow> enc_error option" where
  "verifyMfma e = first_error
     [(\<not> (0 \<le> mfmaVersion e \<and> mfmaVersion e \<le> 4), BadVersion),
      ((mDim e, nDim e) \<notin> {(32, 32), (16, 16), (64, 4), (4, 64)}, BadDims),
      (mfmaElem e = Some OtherType, BadElementType)]"

definition verifyWmma :: "wmma_encoding \<Rightarrow> enc_error option" where
  "verifyWmma e = first_error
     [(wmmaVersion e \<noteq> 1 \<and> wmmaVersion e \<noteq> 2, BadVersion),
      (wmmaVersion e \<noteq> 2 \<and> wmmaTransposed e, TransposedVersion1)]"

definition verifySlice :: "nat \<Rightarrow> nat \<Rightarrow> enc_error option" where
  "verifySlice d parentRank = first_error [(parentRank \<le> 1, SliceRank), (d \<ge> parentRank, SliceDim)]"

definition verifySwizzled :: "swizzle_params \<Rightarrow> enc_error option" where
  "verifySwizzled e = first_error
     [(length (swizzleOrder e) \<noteq> length (CTAOrder (swizzleCTA e)), RanksDiffer),
      (\<not> isPermutationOfIota (swizzleOrder e), OrderNoPermutation)]"

definition verifyPadded :: "padded_encoding \<Rightarrow> enc_error option" where
  "verifyPadded e = first_error
     [(length (intervals e) \<noteq> length (paddings e), IntervalCount),
      (intervals e = [], NoIntervals),
      (\<not> list_all is_pow2_64u (intervals e), NotPowersOfTwo ''intervals''),
      (\<not> list_all is_pow2_64u (paddings e), NotPowersOfTwo ''paddings''),
      (\<not> distinct (intervals e), DuplicateIntervals),
      (paddedOrder e = [], EmptyOrder),
      (length (paddedOrder e) \<noteq> length (CTAOrder (paddedCTA e)), RanksDiffer),
      (\<not> isPermutationOfIota (paddedOrder e), OrderNoPermutation)]"

definition isAmpere :: "mma_encoding \<Rightarrow> bool" where
  "isAmpere e = (versionMajor e = 2)"

definition isHopper :: "mma_encoding \<Rightarrow> bool" where
  "isHopper e = (versionMajor e = 3)"

definition verifyDotOperand :: "nat \<Rightarrow> distributed \<Rightarrow> int \<Rightarrow> enc_error option" where
  "verifyDotOperand opIdx parent kWidth =
     (if opIdx \<noteq> 0 \<and> opIdx \<noteq> 1 then Some BadOpIdx
      else case parent of
          NvidiaMma e \<Rightarrow> first_error
            [(kWidth \<noteq> 0 \<and> \<not> (isAmpere e \<or> isHopper e), BadKWidth),
             (kWidth = 0 \<and> (isAmpere e \<or> isHopper e), BadKWidth),
             (opIdx \<noteq> 0 \<and> isHopper e, BadOpIdx)]
        | Wmma e \<Rightarrow> first_error
            [(kWidth \<noteq> 8 \<and> kWidth \<noteq> 16 \<and> wmmaVersion e = 1 \<or>
              kWidth \<noteq> 4 \<and> kWidth \<noteq> 8 \<and> kWidth \<noteq> 16 \<and> wmmaVersion e = 2, BadKWidth)]
        | Mfma e \<Rightarrow> first_error [(kWidth = 0, BadKWidth)]
        | Blocked e \<Rightarrow> first_error [(kWidth \<noteq> 0, BadKWidth)]
        | _ \<Rightarrow> Some BadParent)"

section \<open>Builders\<close>

text \<open>\<open>std::clamp\<close>, undefined when the bounds are the wrong way round.\<close>

definition clamp :: "int \<Rightarrow> int \<Rightarrow> int \<Rightarrow> int option" where
  "clamp v lo hi = (if hi < lo then None else Some (if v < lo then lo else if hi < v then hi else v))"

text \<open>The threads and warps of a blocked encoding, dimension by dimension from the most minor one; the last
  dimension takes what is left.\<close>

fun spread_threads ::
  "int list \<Rightarrow> int list \<Rightarrow> nat list \<Rightarrow> int \<times> int \<times> int \<times> int \<times> int \<Rightarrow> int list \<Rightarrow> int list \<Rightarrow>
   (int \<times> int \<times> int list \<times> int list) option" where
  "spread_threads shapePer spt [] (lanes, threads, warps, prevLanes, prevWarps) tpw wpc = Some (prevLanes, prevWarps, tpw, wpc)"
| "spread_threads shapePer spt (i # is) (lanes, threads, warps, prevLanes, prevWarps) tpw wpc = do {
     (if i < length shapePer \<and> i < length spt then Some () else None);
     fit \<leftarrow> cdiv (shapePer ! i) (spt ! i);
     threadsPerCTA \<leftarrow> clamp threads 1 (max 1 fit);
     t \<leftarrow> clamp threadsPerCTA 1 lanes;
     tw \<leftarrow> cdiv threadsPerCTA t;
     w \<leftarrow> clamp tw 1 warps;
     warps' \<leftarrow> cdiv warps w;
     lanes' \<leftarrow> cdiv lanes t;
     threads' \<leftarrow> cdiv threads threadsPerCTA;
     spread_threads shapePer spt is (lanes', threads', warps', prevLanes * t, prevWarps * w) (tpw[i := t]) (wpc[i := w])
   }"

definition buildBlocked ::
  "int list \<Rightarrow> int list \<Rightarrow> nat list \<Rightarrow> int \<Rightarrow> int \<Rightarrow> cta_layout \<Rightarrow> blocked_encoding option" where
  "buildBlocked shape spt ord numWarps numThreadsPerWarp cta = do {
     let r = length spt;
     (if r \<noteq> 0 \<and> length ord = r \<and> list_all (\<lambda>i. i < r) ord then Some () else None);
     shapePer \<leftarrow> shapePerCTA (CTASplitNum cta) shape;
     (prevLanes, prevWarps, tpw, wpc) \<leftarrow> spread_threads shapePer spt (butlast ord)
        (numThreadsPerWarp, numWarps * numThreadsPerWarp, numWarps, 1, 1) (replicate r 0) (replicate r 0);
     lastLanes \<leftarrow> cdiv numThreadsPerWarp prevLanes;
     lastWarps \<leftarrow> cdiv numWarps prevWarps;
     Some \<lparr>sizePerThread = spt, threadsPerWarp = tpw[last ord := lastLanes], warpsPerCTA = wpc[last ord := lastWarps],
           blockedOrder = ord, blockedCTA = cta\<rparr>
   }"

text \<open>The CTAs, dimension by dimension from the most strided one; what is left wraps at the last index.\<close>

fun spread_ctas :: "int list \<Rightarrow> int list \<Rightarrow> nat list \<Rightarrow> int \<Rightarrow> int list \<Rightarrow> (int \<times> int list) option" where
  "spread_ctas shape spt [] remaining ctas = Some (remaining, ctas)"
| "spread_ctas shape spt (i # is) remaining ctas = do {
     (if i < length shape \<and> i < length spt then Some () else None);
     fit \<leftarrow> cdiv (shape ! i) (spt ! i);
     c \<leftarrow> clamp remaining 1 (max 1 fit);
     rest \<leftarrow> cdiv remaining c;
     spread_ctas shape spt is rest (ctas[i := c])
   }"

definition buildBlockedCTAs ::
  "int list \<Rightarrow> int list \<Rightarrow> nat list \<Rightarrow> int \<Rightarrow> int \<Rightarrow> int \<Rightarrow> blocked_encoding option" where
  "buildBlockedCTAs shape spt ord numWarps numThreadsPerWarp numCTAs = do {
     let r = length spt;
     (if r \<noteq> 0 \<and> length ord = r \<and> list_all (\<lambda>i. i < r) ord then Some () else None);
     (remaining, split) \<leftarrow> spread_ctas shape spt (rev ord) numCTAs (replicate r 0);
     buildBlocked shape spt ord numWarps numThreadsPerWarp
       (mkCTALayout (split[r - 1 := split ! (r - 1) * remaining]) split ord)
   }"

definition getDefaultBlockedEncoding :: "int list \<Rightarrow> int \<Rightarrow> int \<Rightarrow> int \<Rightarrow> blocked_encoding option" where
  "getDefaultBlockedEncoding shape numWarps threads numCTAs =
     buildBlockedCTAs shape (replicate (length shape) 1) (rev [0..<length shape]) numWarps threads numCTAs"

text \<open>The Nvidia constructor of a swizzled encoding for a dot operand.\<close>

definition buildSwizzledNvidia ::
  "nat \<Rightarrow> int \<Rightarrow> int list \<Rightarrow> nat list \<Rightarrow> cta_layout \<Rightarrow> int \<Rightarrow> bool \<Rightarrow> swizzle_params option" where
  "buildSwizzledNvidia opIdx kWidth shape ord cta bitwidth needTrans = do {
     shapePer \<leftarrow> shapePerCTA (CTASplitNum cta) shape;
     (if opIdx \<le> 1 \<and> ord \<noteq> [] \<and> hd ord < length shapePer then Some () else None);
     let k = shapePer ! hd ord;
     pp \<leftarrow> cdiv 1024 (bitwidth * k);
     let perPhase = max pp 1;
     let (vec1, stride1) = (if needTrans then (8, 4 * kWidth) else (4 * kWidth, 8));
     let kDim = int (length ord) - (if opIdx = 0 then 1 else 2);
     let (v, mmaStride) = (if int (hd ord) \<noteq> kDim then (stride1, vec1) else (vec1, stride1));
     q \<leftarrow> cdiv 1024 (v * bitwidth);
     p \<leftarrow> cdiv (max (min mmaStride q) 1) perPhase;
     Some \<lparr>vec = v, perPhase = perPhase, maxPhase = max p 1, swizzleOrder = ord, swizzleCTA = cta\<rparr>
   }"

definition unswizzled :: "nat list \<Rightarrow> cta_layout \<Rightarrow> swizzle_params" where
  "unswizzled ord cta = \<lparr>vec = 1, perPhase = 1, maxPhase = 1, swizzleOrder = ord, swizzleCTA = cta\<rparr>"

definition mfmaComposeShared ::
  "mfma_encoding \<Rightarrow> cta_layout \<Rightarrow> nat \<Rightarrow> int list \<Rightarrow> nat list \<Rightarrow> int \<Rightarrow> int \<Rightarrow> bool \<Rightarrow> swizzle_params option" where
  "mfmaComposeShared e cta operandIdx operandShape ord vectorSize elemBitWidth needTrans =
     (if operandIdx \<ge> 2 then Some (unswizzled ord cta)
      else if ord = [] then None
      else
        let kDim0 = (if operandIdx = 0 then 1 else 0);
            kDimIndex = (if needTrans then 1 - kDim0 else kDim0);
            isKContig = (hd ord = kDimIndex);
            isGFX950 = (mfmaVersion e = 4);
            swizzleNonKContig = (isGFX950 \<and> (elemBitWidth = 8 \<or> elemBitWidth = 16))
        in if \<not> isKContig \<and> \<not> swizzleNonKContig then Some (unswizzled ord cta)
           else if hd ord \<ge> length operandShape then None
           else do {
             let numBanks = (if isGFX950 then 64 else 32);
             let innerDimLength = operandShape ! hd ord;
             elemsPerOneBanksRow \<leftarrow> cdiv (numBanks * 32) elemBitWidth;
             pp \<leftarrow> cdiv elemsPerOneBanksRow innerDimLength;
             let perPhase = max 1 pp;
             a \<leftarrow> cdiv 16 perPhase;
             b \<leftarrow> cdiv innerDimLength vectorSize;
             Some \<lparr>vec = vectorSize, perPhase = perPhase, maxPhase = (if mDim e = 4 then 4 else max (min a b) 1),
                   swizzleOrder = ord, swizzleCTA = cta\<rparr>
           })"

definition wmmaComposeShared ::
  "cta_layout \<Rightarrow> nat \<Rightarrow> int list \<Rightarrow> nat list \<Rightarrow> int \<Rightarrow> int \<Rightarrow> swizzle_params option" where
  "wmmaComposeShared cta operandIdx operandShape ord kWidth elemBitWidth =
     (if ord = [] then None
      else if hd ord \<noteq> (if operandIdx = 0 then 1 else 0) then Some (unswizzled ord cta)
      else if hd ord \<ge> length operandShape then None
      else do {
        vectorSize \<leftarrow> cdiv (min (kWidth * elemBitWidth) 128) elemBitWidth;
        let innerDimLength = operandShape ! hd ord;
        elemsPerOneBanksRow \<leftarrow> cdiv (32 * 32) elemBitWidth;
        pp \<leftarrow> cdiv elemsPerOneBanksRow innerDimLength;
        let perPhase = max 1 pp;
        a \<leftarrow> cdiv 16 perPhase;
        b \<leftarrow> cdiv innerDimLength vectorSize;
        Some \<lparr>vec = vectorSize, perPhase = perPhase, maxPhase = max (min a b) 1, swizzleOrder = ord, swizzleCTA = cta\<rparr>
      })"

text \<open>The constructor that chooses by the parent of the dot operand.\<close>

definition buildSwizzledForDot ::
  "nat \<Rightarrow> distributed \<Rightarrow> int \<Rightarrow> int list \<Rightarrow> nat list \<Rightarrow> cta_layout \<Rightarrow> int \<Rightarrow> bool \<Rightarrow> swizzle_params option" where
  "buildSwizzledForDot opIdx parent kWidth shape ord cta bitwidth needTrans =
     (case parent of
        Mfma e \<Rightarrow> mfmaComposeShared e cta opIdx shape ord kWidth bitwidth needTrans
      | Wmma e \<Rightarrow> wmmaComposeShared cta opIdx shape ord kWidth bitwidth
      | NvidiaMma e \<Rightarrow>
          if isAmpere e \<or> isHopper e then buildSwizzledNvidia opIdx kWidth shape ord cta bitwidth needTrans else None
      | _ \<Rightarrow> Some (unswizzled ord cta))"

text \<open>The NVMMA encoding of a shape: the widest swizzle the contiguous dimension allows.\<close>

definition buildNVMMAShared :: "int list \<Rightarrow> nat list \<Rightarrow> cta_layout \<Rightarrow> int \<Rightarrow> bool \<Rightarrow> nvmma_encoding option" where
  "buildNVMMAShared shape ord cta eleBitWidth padded = do {
     shapePer \<leftarrow> shapePerCTA (CTASplitNum cta) shape;
     (if ord \<noteq> [] \<and> length shapePer \<le> length ord \<and> list_all (\<lambda>i. i < length shapePer) ord then Some () else None);
     let packingFactor = (if padded then 2 else 1);
     let contigBytes = shapePer ! hd ord * packingFactor * eleBitWidth sdiv 8;
     let width = (if contigBytes \<ge> 128 \<and> contigBytes mod 128 = 0 then 128
                  else if contigBytes \<ge> 64 \<and> contigBytes mod 64 = 0 then 64
                  else if contigBytes \<ge> 32 \<and> contigBytes mod 32 = 0 then 32 else 0);
     let flattenOutterDim = prod_list (map (\<lambda>i. shapePer ! (ord ! i)) [1..<length shapePer]);
     Some \<lparr>swizzlingByteWidth = (if length shapePer < 2 \<or> flattenOutterDim < 8 then 0 else width),
           nvTransposed = (hd ord = 0), elementBitWidth = eleBitWidth, fp4Padded = padded, nvCTA = cta\<rparr>
   }"

section \<open>Repetitions of matrix instructions\<close>

definition hasUnitTilesPerWarp :: "mfma_encoding \<Rightarrow> bool" where
  "hasUnitTilesPerWarp e = (\<not> list_ex (\<lambda>x. x \<noteq> 1) (tilesPerWarp e))"

definition mfmaInstrShapeForOperand :: "mfma_encoding \<Rightarrow> int \<Rightarrow> nat \<Rightarrow> (int \<times> int) option" where
  "mfmaInstrShapeForOperand e kWidth opIdx =
     (if (mDim e = nDim e \<and> mDim e \<in> {32, 16, 4} \<or> mDim e = 64 \<and> nDim e = 4 \<or> mDim e = 4 \<and> nDim e = 64) \<and> opIdx \<le> 1
      then let kDim = kWidth * (64 div min (mDim e) (nDim e))
           in Some (if opIdx = 0 then (mDim e, kDim) else (kDim, nDim e))
      else None)"

definition rep_batch :: "int list \<Rightarrow> int list \<Rightarrow> int option" where
  "rep_batch shape warps = (if length shape = 3 then map_option (max 1) (cdiv (shape ! 0) (warps ! 0)) else Some 1)"

definition mfmaRepForOperand :: "mfma_encoding \<Rightarrow> int list \<Rightarrow> int \<Rightarrow> nat \<Rightarrow> int list option" where
  "mfmaRepForOperand e shape kWidth opIdx = do {
     (t0, t1) \<leftarrow> mfmaInstrShapeForOperand e kWidth opIdx;
     let r = length shape;
     (if 2 \<le> r \<and> r \<le> length (mfmaWarps e) \<and> r \<le> length (tilesPerWarp e) then Some () else None);
     numRepBatch \<leftarrow> rep_batch shape (mfmaWarps e);
     (if opIdx = 0 then do {
        m \<leftarrow> cdiv (shape ! (r - 2)) (t0 * tilesPerWarp e ! (r - 2) * mfmaWarps e ! (r - 2));
        k \<leftarrow> cdiv (shape ! (r - 1)) t1;
        Some [numRepBatch, max 1 m * tilesPerWarp e ! (r - 2), max 1 k]
      } else do {
        k \<leftarrow> cdiv (shape ! (r - 2)) t0;
        n \<leftarrow> cdiv (shape ! (r - 1)) (t1 * tilesPerWarp e ! (r - 1) * mfmaWarps e ! (r - 1));
        Some [numRepBatch, max 1 k, max 1 n * tilesPerWarp e ! (r - 1)]
      })
   }"

definition wmmaElemsPerInstr :: "int \<Rightarrow> nat \<Rightarrow> int \<times> int" where
  "wmmaElemsPerInstr kDim opIdx = (if opIdx = 0 then (16, kDim) else (kDim, 16))"

definition wmmaRepForOperand :: "wmma_encoding \<Rightarrow> int list \<Rightarrow> int \<Rightarrow> nat \<Rightarrow> int list option" where
  "wmmaRepForOperand e shape kDim opIdx = do {
     let (t0, t1) = wmmaElemsPerInstr kDim opIdx;
     let r = length shape;
     (if (r = 2 \<or> r = 3) \<and> r \<le> length (wmmaWarps e) \<and> opIdx \<le> 1 then Some () else None);
     numRepBatch \<leftarrow> rep_batch shape (wmmaWarps e);
     (if opIdx = 0 then do {
        m \<leftarrow> cdiv (shape ! (r - 2)) (t0 * wmmaWarps e ! (r - 2));
        k \<leftarrow> cdiv (shape ! (r - 1)) t1;
        Some [numRepBatch, max 1 m, max 1 k]
      } else do {
        k \<leftarrow> cdiv (shape ! (r - 2)) t0;
        n \<leftarrow> cdiv (shape ! (r - 1)) (t1 * wmmaWarps e ! (r - 1));
        Some [numRepBatch, max 1 k, max 1 n]
      })
   }"

definition mmaRepForOperand :: "mma_encoding \<Rightarrow> int list \<Rightarrow> int \<Rightarrow> int \<Rightarrow> nat \<Rightarrow> int list option" where
  "mmaRepForOperand e shape bitwidth kWidth opIdx = do {
     w \<leftarrow> cdiv 32 bitwidth;
     let r = length shape;
     (if kWidth \<ge> max w 1 \<and> 2 \<le> r \<and> (if opIdx = 0 then r - 1 else r - 2) < length (mmaWarps e) then Some () else None);
     let warps = (mmaWarps e)[(if opIdx = 0 then r - 1 else r - 2) := 1];
     let tileBitWidthK = (if isAmpere e \<and> bitwidth = 64 then 4 * 256 else 4 * 64);
     kElems \<leftarrow> cdiv tileBitWidthK bitwidth;
     let tileSize = (if r = 3 then [1] else []) @ (if opIdx = 0 then [16, kElems] else [kElems, 8]);
     reps \<leftarrow> those (map (\<lambda>(s, (t, n)). map_option (max 1) (cdiv s (t * n))) (zip shape (zip tileSize warps)));
     Some ((if r \<noteq> 3 then [1] else []) @ reps)
   }"

section \<open>Batches\<close>

definition expandMatrixShapeWithBatch :: "int list \<Rightarrow> int list option" where
  "expandMatrixShapeWithBatch s =
     (if length s = 3 then Some s else if length s = 2 then Some [1, s ! 0, s ! 1] else None)"

definition expandMatrixOrderWithBatch :: "nat list \<Rightarrow> nat list option" where
  "expandMatrixOrderWithBatch o' =
     (if length o' = 3 then Some o' else if length o' = 2 then Some [o' ! 0 + 1, o' ! 1 + 1, 0] else None)"

text \<open>A shape with an entry of 1 at the sliced dimension.\<close>

definition paddedShape :: "nat \<Rightarrow> int list \<Rightarrow> int list option" where
  "paddedShape d shape = (if d \<le> length shape then Some (take d shape @ 1 # drop d shape) else None)"

end
