(* ===== verification/LayoutConversions.thy ===== *)
theory LayoutConversions
  imports Encodings
begin

text \<open>
  \<open>lib/Dialect/TritonGPU/IR/LinearLayoutConversions.cpp\<close>: the linear layout of every encoding
  attribute at a shape. Distributed layouts go from register, lane, warp and block to tensor
  indices, shared ones from offset and block. The cache of the dialect is left out: it returns
  what was computed before for the same arguments.
\<close>

section \<open>Combining layouts\<close>

text \<open>\<open>l *= identity1D(sz, d, od)\<close>.\<close>

definition times_id :: "int \<Rightarrow> dim \<Rightarrow> dim \<Rightarrow> linear_layout \<Rightarrow> linear_layout option" where
  "times_id sz d od l = Option.bind (identity1D sz d od) (layout_prod l)"

definition permuteDimNames :: "dim list \<Rightarrow> nat list \<Rightarrow> dim list option" where
  "permuteDimNames names ord =
     (if length names = length ord \<and> list_all (\<lambda>i. i < length names) ord then Some (map (\<lambda>i. names ! i) ord) else None)"

definition makeCgaLayout :: "cta_layout \<Rightarrow> linear_layout option" where
  "makeCgaLayout layout =
     (let r = length (CTAOrder layout); names = standardOutDimNames r
      in do {
        ret \<leftarrow> fold (\<lambda>i acc. do {
            l \<leftarrow> acc;
            let d = CTAOrder layout ! i;
            (if d < length (CTASplitNum layout) \<and> d < length (CTAsPerCGA layout) \<and> d < r then Some () else None);
            let split = CTASplitNum layout ! d;
            let ctas = CTAsPerCGA layout ! d;
            (if split \<noteq> 0 \<and> ctas mod split = 0 then Some () else None);
            i1 \<leftarrow> identity1D split ''block'' (names ! d);
            z \<leftarrow> zeros1D (ctas div split) ''block'' (names ! d) 1;
            iz \<leftarrow> layout_prod i1 z;
            layout_prod l iz
          }) [0..<r] (Some empty_layout);
        transposeOuts ret names
      })"

definition combineCtaCgaWithShape :: "linear_layout \<Rightarrow> cta_layout \<Rightarrow> int list \<Rightarrow> linear_layout option" where
  "combineCtaCgaWithShape ctaLayout cga shape =
     (let r = length shape; names = standardOutDimNames r; labeledShape = zip names shape
      in if length (outDims ctaLayout) \<noteq> r \<or> length (CTAOrder cga) \<noteq> r then None
         else do {
           c0 \<leftarrow> makeCgaLayout cga;
           c1 \<leftarrow> ensureLayoutNotLargerThan c0 labeledShape True;
           cgaLayout \<leftarrow> transposeOuts c1 (getOutDimNames ctaLayout);
           (if getOutDimNames ctaLayout = getOutDimNames cgaLayout then Some () else None);
           ctaShape \<leftarrow> those (map (\<lambda>d. case (map_of labeledShape d, getOutDimSize cgaLayout d) of
               (Some s, Some n) \<Rightarrow> Some (d, max 1 (s sdiv n)) | _ \<Rightarrow> None) (getOutDimNames ctaLayout));
           l1 \<leftarrow> ensureLayoutNotSmallerThan ctaLayout ctaShape;
           l2 \<leftarrow> ensureLayoutNotLargerThan l1 ctaShape True;
           l3 \<leftarrow> layout_prod l2 cgaLayout;
           ret \<leftarrow> transposeOuts l3 names;
           (if list_all (\<lambda>d. getOutDimSize ret d = map_of labeledShape d) (getOutDimNames ret) then Some ret else None)
         })"

section \<open>Shared encodings\<close>

text \<open>The bases of the two most minor dimensions, with the column a row is moved by.\<close>

definition swizzle_bases :: "int \<Rightarrow> int \<Rightarrow> (int \<Rightarrow> int option) \<Rightarrow> int list list option" where
  "swizzle_bases numRows numCols colOf = do {
     rows \<leftarrow> those (map (\<lambda>row. map_option (\<lambda>c. [row, c]) (colOf row)) (pow2s_below 1 numRows));
     Some (map (\<lambda>col. [0, col]) (pow2s_below 1 numCols) @ rows)
   }"

definition swizzled_col :: "swizzle_params \<Rightarrow> int \<Rightarrow> int \<Rightarrow> int option" where
  "swizzled_col e numCols row = do {
     p \<leftarrow> cdiv row (perPhase e);
     if maxPhase e = 0 \<or> numCols = 0 then None else Some (vec e * (p smod maxPhase e) smod numCols)
   }"

definition rotated_col :: "swizzle_params \<Rightarrow> int \<Rightarrow> int \<Rightarrow> int option" where
  "rotated_col e numCols row = do {
     p \<leftarrow> cdiv row (perPhase e);
     q \<leftarrow> cdiv row (maxPhase e);
     q' \<leftarrow> cdiv q (perPhase e);
     if numCols = 0 then None
     else Some (vec e * ((p smod maxPhase e) XOR (q' smod maxPhase e)) smod numCols)
   }"

text \<open>Both conversions; the rotating one reads the sizes from the shape itself, not from the shape per CTA.\<close>

definition swizzled_layout ::
  "swizzle_params \<Rightarrow> (int \<Rightarrow> int \<Rightarrow> int option) \<Rightarrow> int list \<Rightarrow> int list \<Rightarrow> int list \<Rightarrow> linear_layout option" where
  "swizzled_layout e colOf perCTA sizes shape =
     (let r = length shape; names = standardOutDimNames r; ord = swizzleOrder e
      in if r = 1
         then Option.bind (identity1D (hd perCTA) ''offset'' ''dim0'') (\<lambda>l. combineCtaCgaWithShape l (swizzleCTA e) shape)
         else if r = 0 \<or> length ord < r \<or> \<not> list_all (\<lambda>d. d < r) (take r ord) then None
         else do {
           let colDim = ord ! 0;
           let rowDim = ord ! 1;
           bs \<leftarrow> swizzle_bases (sizes ! rowDim) (sizes ! colDim) (colOf (sizes ! colDim));
           tile \<leftarrow> mkLayoutInfer [(''offset'', bs)] [names ! rowDim, names ! colDim];
           cta \<leftarrow> fold (\<lambda>i acc. do {l \<leftarrow> acc; times_id (sizes ! (ord ! i)) ''offset'' (names ! (ord ! i)) l}) [2..<r] (Some tile);
           combineCtaCgaWithShape cta (swizzleCTA e) shape
         })"

definition swizzledSharedToLinearLayout :: "int list \<Rightarrow> swizzle_params \<Rightarrow> linear_layout option" where
  "swizzledSharedToLinearLayout shape e = do {
     perCTA \<leftarrow> getShapePerCTA (Swizzled e) shape;
     swizzled_layout e (swizzled_col e) perCTA perCTA shape
   }"

definition sharedToLinearLayoutAMDRotating :: "int list \<Rightarrow> swizzle_params \<Rightarrow> linear_layout option" where
  "sharedToLinearLayoutAMDRotating shape e = do {
     perCTA \<leftarrow> getShapePerCTA (Rotating e) shape;
     swizzled_layout e (rotated_col e) perCTA shape shape
   }"

definition pack_fp4 :: "int \<Rightarrow> int" where
  "pack_fp4 col = col sdiv 16 * 8 + col smod 8"

definition getCoreMatrixLinearLayout :: "nvmma_encoding \<Rightarrow> bool \<Rightarrow> linear_layout option" where
  "getCoreMatrixLinearLayout e disableSwizzle = do {
     v \<leftarrow> nvVec e;
     pp \<leftarrow> nvPerPhase e;
     let mp = nvMaxPhase e;
     tileCols \<leftarrow> cdiv (8 * swizzlingByteWidth e) (elementBitWidth e);
     let cols = map (\<lambda>col. [0, if fp4Padded e then pack_fp4 col else col]) (pow2s_below 1 tileCols);
     rows \<leftarrow> those (map (\<lambda>row.
         if disableSwizzle then Some [row, 0]
         else if pp = 0 \<or> mp = 0 then None
         else let c = v * ((row sdiv pp) smod mp)
              in Some [row, if fp4Padded e then pack_fp4 c else c]) (pow2s_below 1 8));
     mkLayoutInfer [(''offset'', cols @ rows)] (standardOutDimNames 2)
   }"

text \<open>\<open>getTMABlockShape\<close> of \<open>lib/Dialect/TritonNvidiaGPU/Transforms/TMAUtilities.cpp\<close>.\<close>

definition getTMABlockShape :: "int list \<Rightarrow> int \<Rightarrow> int \<Rightarrow> bool \<Rightarrow> bool \<Rightarrow> bool \<Rightarrow> int list option" where
  "getTMABlockShape perCTA elemBits swizzleBytes padded isTransposed packedSize =
     (if perCTA = [] then None
      else
        let contigDim = (if isTransposed then 0 else length perCTA - 1);
            s1 = (if padded then perCTA[contigDim := perCTA ! contigDim * 2] else perCTA);
            s2 = map (\<lambda>s. min s 256) s1
        in do {
          s3 \<leftarrow> (if swizzleBytes \<noteq> 0 then do {
                   contigDimSize \<leftarrow> cdiv (8 * swizzleBytes) elemBits;
                   if s2 ! contigDim < contigDimSize then None else Some (s2[contigDim := contigDimSize])
                 } else Some s2);
          Some (if padded \<and> packedSize then s3[contigDim := s3 ! contigDim sdiv 2] else s3)
        })"

definition nvmmaSharedToLinearLayout :: "int list \<Rightarrow> nvmma_encoding \<Rightarrow> bool \<Rightarrow> linear_layout option" where
  "nvmmaSharedToLinearLayout shape e disableSwizzle = do {
     let r = length shape;
     perCTA \<leftarrow> getShapePerCTA (NVMMAShared e) shape;
     tmaShape \<leftarrow> getTMABlockShape perCTA (elementBitWidth e) (swizzlingByteWidth e) (fp4Padded e) (nvTransposed e) True;
     let names = standardOutDimNames r;
     (if swizzlingByteWidth e = 0 then do {
        l0 \<leftarrow> identity1D (tmaShape ! (r - 1)) ''offset'' (names ! (r - 1));
        l1 \<leftarrow> fold (\<lambda>i acc. do {l \<leftarrow> acc; times_id (tmaShape ! i) ''offset'' (names ! i) l}) (rev [0..<r - 1]) (Some l0);
        l2 \<leftarrow> ensureNamedNotSmallerThan l1 names perCTA;
        combineCtaCgaWithShape l2 (nvCTA e) shape
      } else if r < 2 then None
      else do {
        let outer = prod_list (butlast tmaShape);
        let (rows, cols) = (if nvTransposed e then (last tmaShape, outer) else (outer, last tmaShape));
        tileLayout \<leftarrow> getCoreMatrixLinearLayout e disableSwizzle;
        tileRows \<leftarrow> getOutDimSize tileLayout ''dim0'';
        tileCols \<leftarrow> getOutDimSize tileLayout ''dim1'';
        (if cols * (if fp4Padded e then 2 else 1) < tileCols \<or> rows < tileRows then None else Some ());
        layout \<leftarrow> ensureNamedNotSmallerThan tileLayout (standardOutDimNames 2) [rows, cols];
        let maybeTransposed = (if nvTransposed e then tl tmaShape @ [hd tmaShape] else tmaShape);
        reshaped0 \<leftarrow> reshapeLayout layout maybeTransposed;
        reshaped \<leftarrow> (if nvTransposed e then transposeLinearLayout reshaped0 ((r - 1) # [0..<r - 1]) else Some reshaped0);
        grown \<leftarrow> ensureNamedNotSmallerThan reshaped (standardOutDimNames (length perCTA)) perCTA;
        combineCtaCgaWithShape grown (nvCTA e) shape
      })
   }"

section \<open>Distributed encodings\<close>

definition broadcastedDotOperandLayout :: "int list \<Rightarrow> nat list \<Rightarrow> nat \<Rightarrow> dim \<Rightarrow> linear_layout option" where
  "broadcastedDotOperandLayout shape ord kDim inDimName =
     (let names = standardOutDimNames (length shape)
      in fold (\<lambda>d acc. do {
           l \<leftarrow> acc;
           (if d < length shape then Some () else None);
           i \<leftarrow> (if d = kDim then zeros1D (shape ! d) inDimName (names ! d) 1
                 else identity1D (shape ! d) inDimName (names ! d));
           layout_prod l i
         }) ord (Some empty_layout))"

text \<open>Identities multiplied on from the left to the right.\<close>

definition times_ids :: "(int \<times> dim \<times> dim) list \<Rightarrow> linear_layout \<Rightarrow> linear_layout option" where
  "times_ids fs l = fold (\<lambda>(sz, d, od) acc. do {l' \<leftarrow> acc; times_id sz d od l'}) fs (Some l)"

definition blockedToLinearLayout :: "blocked_encoding \<Rightarrow> int list \<Rightarrow> linear_layout option" where
  "blockedToLinearLayout e shape = do {
     regs \<leftarrow> identityStandardND ''register'' (sizePerThread e) (blockedOrder e);
     lanes \<leftarrow> identityStandardND ''lane'' (threadsPerWarp e) (blockedOrder e);
     warps \<leftarrow> identityStandardND ''warp'' (warpsPerCTA e) (blockedOrder e);
     rl \<leftarrow> layout_prod regs lanes;
     rlw \<leftarrow> layout_prod rl warps;
     combineCtaCgaWithShape rlw (blockedCTA e) shape
   }"

definition fmaDotToLinearLayout :: "blocked_encoding \<Rightarrow> nat \<Rightarrow> cta_layout \<Rightarrow> int list \<Rightarrow> linear_layout option" where
  "fmaDotToLinearLayout e opIdx cta shape = do {
     let r = length shape;
     let kDim = (if opIdx = 0 then r - 1 else r - 2);
     (if kDim < length (sizePerThread e) \<and> kDim < r then Some () else None);
     let threadSize = (sizePerThread e)[kDim := shape ! kDim];
     repDimNames \<leftarrow> permuteDimNames (standardOutDimNames r) (blockedOrder e);
     regs \<leftarrow> identityStandardND ''register'' threadSize (blockedOrder e);
     lanes \<leftarrow> broadcastedDotOperandLayout (threadsPerWarp e) (blockedOrder e) kDim ''lane'';
     warps \<leftarrow> broadcastedDotOperandLayout (warpsPerCTA e) (blockedOrder e) kDim ''warp'';
     regs' \<leftarrow> transposeOuts regs repDimNames;
     lanes' \<leftarrow> transposeOuts lanes repDimNames;
     warps' \<leftarrow> transposeOuts warps repDimNames;
     rl \<leftarrow> layout_prod regs' lanes';
     rlw \<leftarrow> layout_prod rl warps';
     combineCtaCgaWithShape rlw cta shape
   }"

definition nvidiaMmaTile :: "int list \<Rightarrow> int \<Rightarrow> nat list \<Rightarrow> nat list \<Rightarrow> linear_layout option" where
  "nvidiaMmaTile tileShape kWidth ord repOrder = do {
     let r = length repOrder;
     let names = standardOutDimNames r;
     cta0 \<leftarrow> identityStandardND ''register'' (replicate r 1) repOrder;
     (if 2 \<le> r \<and> 2 \<le> length ord \<and> length tileShape = r \<and> ord ! 0 < r \<and> ord ! 1 < r then Some () else None);
     let inner = names ! (ord ! 0);
     let outer = names ! (ord ! 1);
     let m = tileShape ! (ord ! 1);
     let n = tileShape ! (ord ! 0);
     (if kWidth \<noteq> 0 \<and> m mod 8 = 0 \<and> n mod (kWidth * 4) = 0 then Some () else None);
     times_ids [(kWidth, ''register'', inner), (4, ''lane'', inner), (8, ''lane'', outer), (m div 8, ''register'', outer),
                (n div (kWidth * 4), ''register'', inner)] cta0
   }"

definition getDefaultMmaOrder :: "nat \<Rightarrow> nat list" where
  "getDefaultMmaOrder r = getMatrixOrder r True"

definition mmaToLinearLayout :: "mma_encoding \<Rightarrow> int list \<Rightarrow> linear_layout option" where
  "mmaToLinearLayout e shape = do {
     let r = length shape;
     let encRank = length (CTAOrder (mmaCTA e));
     (if r = encRank then Some () else None);
     tileShape \<leftarrow> (if isAmpere e then Some (instrShape e)
                   else if isHopper e \<and> 2 \<le> length (instrShape e) then Some (take 2 (instrShape e)) else None);
     tile \<leftarrow> nvidiaMmaTile tileShape 2 (getDefaultMmaOrder encRank) (getMatrixOrder encRank True);
     warps \<leftarrow> identityStandardND ''warp'' (mmaWarps e) (getMatrixOrder r (\<not> isHopper e));
     warps' \<leftarrow> transposeOuts warps (getOutDimNames tile);
     cta \<leftarrow> layout_prod tile warps';
     combineCtaCgaWithShape cta (mmaCTA e) shape
   }"

definition nvidiaDotToLinearLayout :: "mma_encoding \<Rightarrow> nat \<Rightarrow> int \<Rightarrow> cta_layout \<Rightarrow> int list \<Rightarrow> linear_layout option" where
  "nvidiaDotToLinearLayout e opIdx kWidth cta shape = do {
     let r = length shape;
     (if 2 \<le> r \<and> (opIdx = 0 \<or> isAmpere e) then Some () else None);
     let tileShape = (if opIdx = 0 then (replicate r 1)[r - 2 := 16, r - 1 := kWidth * 8]
                      else (replicate r 1)[r - 2 := kWidth * 8, r - 1 := 8]);
     ord \<leftarrow> getOrderForDotOperand opIdx r True;
     rep \<leftarrow> getOrderForDotOperand opIdx (length (CTAOrder (mmaCTA e))) True;
     tile \<leftarrow> nvidiaMmaTile tileShape kWidth ord rep;
     let kDim = (if opIdx = 0 then r - 1 else r - 2);
     warps \<leftarrow> broadcastedDotOperandLayout (mmaWarps e) (getMatrixOrder r (\<not> isHopper e)) kDim ''warp'';
     warps' \<leftarrow> transposeOuts warps (getOutDimNames tile);
     l \<leftarrow> layout_prod tile warps';
     combineCtaCgaWithShape l cta shape
   }"

section \<open>AMD matrix encodings\<close>

definition mfmaToLinearLayout :: "mfma_encoding \<Rightarrow> int list \<Rightarrow> linear_layout option" where
  "mfmaToLinearLayout e shape = do {
     let r = length shape;
     (if r = length (CTAOrder (mfmaCTA e)) \<and> 2 \<le> r then Some () else None);
     let hasBatchDim = (r = 3);
     let mIndex = (if hasBatchDim then 1 else 0 :: nat);
     let nIndex = mIndex + 1;
     let names = standardOutDimNames r;
     let ord = getDefaultMmaOrder r;
     let dimM = names ! (ord ! 1);
     let dimN = names ! (ord ! 0);
     let height = (if mfmaElem e = Some F64 then 1 else 4);
     (if mDim e = 64 \<and> nDim e = 4 \<and> \<not> mfmaTransposed e then None else Some ());
     tiles \<leftarrow> cdiv (mDim e * nDim e) (64 * height);
     tile \<leftarrow> (if \<not> mfmaTransposed e then do {
         regs \<leftarrow> identity1D height ''register'' dimM;
         l0 \<leftarrow> identity1D (nDim e) ''lane'' dimN;
         q \<leftarrow> cdiv 64 (nDim e);
         lanes \<leftarrow> times_id q ''lane'' dimM l0;
         t \<leftarrow> layout_prod regs lanes;
         if tiles > 0 then times_id tiles ''register'' dimM t else Some t
       } else do {
         regs \<leftarrow> identity1D height ''register'' dimN;
         l0 \<leftarrow> identity1D (mDim e) ''lane'' dimM;
         q \<leftarrow> cdiv 64 (mDim e);
         lanes \<leftarrow> times_id q ''lane'' dimN l0;
         t \<leftarrow> layout_prod regs lanes;
         if tiles > 0 then times_id tiles ''register'' dimN t else Some t
       });
     t1 \<leftarrow> transposeOuts tile [dimN, dimM];
     (if nIndex < length (tilesPerWarp e) \<and> nIndex < length (mfmaWarps e) then Some () else None);
     let tilesM = tilesPerWarp e ! mIndex;
     let tilesN = tilesPerWarp e ! nIndex;
     let warpsM = mfmaWarps e ! mIndex;
     let warpsN = mfmaWarps e ! nIndex;
     repsN \<leftarrow> cdiv (shape ! nIndex) (nDim e * warpsN * tilesN);
     t2 \<leftarrow> times_ids [(tilesN, ''register'', dimN), (warpsN, ''warp'', dimN), (repsN, ''register'', dimN),
                      (tilesM, ''register'', dimM), (warpsM, ''warp'', dimM)] t1;
     t3 \<leftarrow> (if hasBatchDim
            then times_ids [(1, ''register'', names ! (ord ! 2)), (1, ''lane'', names ! (ord ! 2)),
                            (mfmaWarps e ! 0, ''warp'', names ! (ord ! 2))] t2
            else Some t2);
     combineCtaCgaWithShape t3 (mfmaCTA e) shape
   }"

text \<open>The batch dimension, moved by no register and no lane.\<close>

definition with_batch :: "nat list \<Rightarrow> dim list \<Rightarrow> linear_layout \<Rightarrow> linear_layout option" where
  "with_batch ord names tile =
     (if length names = 3
      then if ord ! 2 = 0
           then times_ids [(1, ''register'', names ! (ord ! 2)), (1, ''lane'', names ! (ord ! 2))] tile else None
      else Some tile)"

definition mfmaDotToLinearLayout :: "mfma_encoding \<Rightarrow> nat \<Rightarrow> int \<Rightarrow> int list \<Rightarrow> linear_layout option" where
  "mfmaDotToLinearLayout e opIdx kWidth shape = do {
     let r = length shape;
     (if 2 \<le> r then Some () else None);
     let kDimIndex = (if opIdx = 0 then r - 1 else r - 2);
     (if kDimIndex < length (tilesPerWarp e) then Some () else None);
     let tileNonK = tilesPerWarp e ! kDimIndex;
     let nonKDim = (if opIdx = 0 then mDim e else nDim e);
     let kSize = shape ! kDimIndex;
     let names = standardOutDimNames r;
     ord \<leftarrow> getOrderForDotOperand opIdx r True;
     let dimK = names ! (ord ! 0);
     let dimNonK = names ! (ord ! 1);
     regs \<leftarrow> identity1D kWidth ''register'' dimK;
     q \<leftarrow> cdiv 64 nonKDim;
     l0 \<leftarrow> identity1D nonKDim ''lane'' dimNonK;
     lanes \<leftarrow> times_id q ''lane'' dimK l0;
     t0 \<leftarrow> layout_prod regs lanes;
     let special = (mDim e = 64 \<and> nDim e = 4 \<and> opIdx = 0 \<or> mDim e = 4 \<and> nDim e = 64 \<and> opIdx = 1);
     t1 \<leftarrow> (if special then times_id 16 ''register'' dimK t0 else Some t0);
     let kTileSize = q * kWidth * (if special then 16 else 1);
     t2 \<leftarrow> (if kSize > kTileSize
            then Option.bind (cdiv kSize kTileSize) (\<lambda>n. times_id n ''register'' dimK t1) else Some t1);
     t3 \<leftarrow> times_id tileNonK ''register'' dimNonK t2;
     t4 \<leftarrow> transposeOuts t3 [dimK, dimNonK];
     t5 \<leftarrow> with_batch ord names t4;
     warps \<leftarrow> identityStandardND ''warp'' (mfmaWarps e) (getDefaultMmaOrder (length (CTAOrder (mfmaCTA e))));
     cta \<leftarrow> layout_prod t5 warps;
     l \<leftarrow> combineCtaCgaWithShape cta (mfmaCTA e) shape;
     transposeOuts l names
   }"

text \<open>The bases of one transposed read from shared memory, over the non-contracted dimension and k.\<close>

definition ds_read_fp4 :: "int \<Rightarrow> int \<Rightarrow> (int list list \<times> int list list) option" where
  "ds_read_fp4 kSize mdim =
     (let kTileSize = (if mdim = 32 then 64 else 128);
          regs = [[1, 0], [2, 0], [4, 0], [0, 16]] @ map (\<lambda>reg. [0, reg]) (pow2s_below kTileSize kSize);
          lanes = [[0, 1], [0, 2], [0, 4], [0, 8]]
      in if mdim = 16 then Some (regs, lanes @ [[0, 32], [0, 64]])
         else if mdim = 32 then Some (regs, lanes @ [[8, 0], [0, 32]]) else None)"

definition ds_read_wide :: "int \<Rightarrow> int \<Rightarrow> int \<Rightarrow> int \<Rightarrow> (int list list \<times> int list list) option" where
  "ds_read_wide elemBitWidth kSize kWidthDot mdim = do {
     kWidthTransRead \<leftarrow> cdiv 64 elemBitWidth;
     threadsNonK \<leftarrow> cdiv 16 kWidthTransRead;
     let threadsK = kWidthTransRead;
     double \<leftarrow> cdiv (if mdim = 32 then 32 else 64) (elemBitWidth sdiv 8);
     kTileSize \<leftarrow> cdiv (kWidthDot * 64) mdim;
     let numSubtiles = (if kTileSize = double then 2 else 1);
     let regsPerTile = kWidthTransRead * numSubtiles;
     reps \<leftarrow> cdiv kSize kTileSize;
     let regs = map (\<lambda>i. [i, 0]) (pow2s_below 1 kWidthTransRead) @
                (if numSubtiles = 2 then [[0, threadsK]] else []) @
                map (\<lambda>reg. [0, reg sdiv regsPerTile * kTileSize]) (pow2s_below regsPerTile (reps * regsPerTile));
     let lanes = map (\<lambda>i. [i * kWidthTransRead, 0]) (pow2s_below 1 threadsNonK) @
                 map (\<lambda>i. [0, i]) (pow2s_below 1 threadsK) @
                 (if mdim = 32 then [[16, 0], [0, numSubtiles * threadsK]]
                  else [[0, numSubtiles * threadsK], [0, 2 * numSubtiles * threadsK]]);
     Some (regs, lanes)
   }"

definition chooseDotDsReadB64TrLayout ::
  "mfma_encoding \<Rightarrow> nat \<Rightarrow> int \<Rightarrow> int list \<Rightarrow> int \<Rightarrow> linear_layout option" where
  "chooseDotDsReadB64TrLayout e opIdx kWidth shape elemBitWidth = do {
     (if (mDim e = 16 \<or> mDim e = 32) \<and> elemBitWidth \<in> {4, 8, 16} \<and> 2 \<le> length shape then Some () else None);
     let r = length shape;
     let kSize = shape ! (if opIdx = 0 then r - 1 else r - 2);
     let names = standardOutDimNames r;
     ord \<leftarrow> getOrderForDotOperand opIdx r False;
     (regs, lanes) \<leftarrow> (if elemBitWidth = 4 then ds_read_fp4 kSize (mDim e)
                       else ds_read_wide elemBitWidth kSize kWidth (mDim e));
     tile0 \<leftarrow> mkLayoutInfer [(''register'', regs), (''lane'', lanes)] [names ! (ord ! 0), names ! (ord ! 1)];
     tile \<leftarrow> with_batch ord names tile0;
     warps \<leftarrow> identityStandardND ''warp'' (mfmaWarps e) (getDefaultMmaOrder (length (CTAOrder (mfmaCTA e))));
     tile' \<leftarrow> transposeOuts tile names;
     warps' \<leftarrow> transposeOuts warps names;
     cta \<leftarrow> layout_prod tile' warps';
     combineCtaCgaWithShape cta (mfmaCTA e) shape
   }"

definition wmmaToLinearLayout :: "wmma_encoding \<Rightarrow> int list \<Rightarrow> linear_layout option" where
  "wmmaToLinearLayout e shape = do {
     let r = length shape;
     let encRank = length (CTAOrder (wmmaCTA e));
     let mIndex = (if r = 3 then 1 else 0 :: nat);
     let nIndex = mIndex + 1;
     (if r = encRank \<and> 2 \<le> r \<and> (shape ! mIndex = 1 \<or> shape ! mIndex \<ge> 16) \<and> (shape ! nIndex = 1 \<or> shape ! nIndex \<ge> 16)
      then Some () else None);
     let names = standardOutDimNames r;
     let ord = getMatrixOrder r (\<not> wmmaTransposed e);
     (if ord ! 0 \<in> {mIndex, nIndex} \<and> ord ! 1 \<in> {mIndex, nIndex} \<and> wmmaVersion e \<in> {1, 2} then Some () else None);
     tile0 \<leftarrow> (if wmmaVersion e = 1
       then mkLayoutInfer [(''register'', [[0, 2], [0, 4], [0, 8]]), (''lane'', [[1, 0], [2, 0], [4, 0], [8, 0], [0, 1]])]
              [names ! (ord ! 0), names ! (ord ! 1)]
       else mkLayoutInfer [(''register'', [[0, 1], [0, 2], [0, 4]]), (''lane'', [[1, 0], [2, 0], [4, 0], [8, 0], [0, 8]])]
              [names ! (ord ! 0), names ! (ord ! 1)]);
     tile \<leftarrow> (if r = 3 then times_ids [(1, ''register'', names ! 0), (1, ''lane'', names ! 0)] tile0 else Some tile0);
     warps \<leftarrow> identityStandardND ''warp'' (wmmaWarps e) (getDefaultMmaOrder encRank);
     repDimNames \<leftarrow> permuteDimNames names (getMatrixOrder encRank True);
     tile' \<leftarrow> transposeOuts tile repDimNames;
     warps' \<leftarrow> transposeOuts warps repDimNames;
     cta \<leftarrow> layout_prod tile' warps';
     combineCtaCgaWithShape cta (wmmaCTA e) shape
   }"

definition wmmaDotOperandToLinearLayout :: "wmma_encoding \<Rightarrow> nat \<Rightarrow> int \<Rightarrow> int list \<Rightarrow> linear_layout option" where
  "wmmaDotOperandToLinearLayout e opIdx kWidth shape = do {
     let r = length shape;
     let encRank = length (CTAOrder (wmmaCTA e));
     (if 2 \<le> r then Some () else None);
     let kDim = (if opIdx = 0 then r - 1 else r - 2);
     let names = standardOutDimNames r;
     ord \<leftarrow> getOrderForDotOperand opIdx r True;
     extra \<leftarrow> (if wmmaVersion e = 1 then Some [0, 0] else if wmmaVersion e = 2 then Some [kWidth, 0] else None);
     tile0 \<leftarrow> mkLayoutInfer [(''register'', map (\<lambda>i. [i, 0]) (pow2s_below 1 kWidth)),
                              (''lane'', [[0, 1], [0, 2], [0, 4], [0, 8], extra])]
                [names ! (ord ! 0), names ! (ord ! 1)];
     tile \<leftarrow> with_batch ord names tile0;
     warps \<leftarrow> broadcastedDotOperandLayout (wmmaWarps e) (getDefaultMmaOrder encRank) kDim ''warp'';
     repOrder \<leftarrow> getOrderForDotOperand opIdx encRank True;
     repDimNames \<leftarrow> permuteDimNames names repOrder;
     tile' \<leftarrow> transposeOuts tile repDimNames;
     warps' \<leftarrow> transposeOuts warps repDimNames;
     cta \<leftarrow> layout_prod tile' warps';
     combineCtaCgaWithShape cta (wmmaCTA e) shape
   }"

definition dotToLinearLayout :: "nat \<Rightarrow> distributed \<Rightarrow> int \<Rightarrow> int list \<Rightarrow> linear_layout option" where
  "dotToLinearLayout opIdx parent kWidth shape =
     (case parent of
        Blocked e \<Rightarrow> Option.bind (getCTALayout (Distributed (DotOperand opIdx parent kWidth)))
          (\<lambda>cta. fmaDotToLinearLayout e opIdx cta shape)
      | Mfma e \<Rightarrow> mfmaDotToLinearLayout e opIdx kWidth shape
      | Wmma e \<Rightarrow> wmmaDotOperandToLinearLayout e opIdx kWidth shape
      | NvidiaMma e \<Rightarrow> Option.bind (getCTALayout (Distributed (DotOperand opIdx parent kWidth)))
          (\<lambda>cta. nvidiaDotToLinearLayout e opIdx kWidth cta shape)
      | _ \<Rightarrow> None)"

section \<open>Slices\<close>

definition slice_transform :: "nat \<Rightarrow> nat \<Rightarrow> linear_layout \<Rightarrow> linear_layout option" where
  "slice_transform r d parentLL =
     (let names = standardOutDimNames r
      in fold (\<lambda>(idx, (od, _)) acc. do {
           t \<leftarrow> acc;
           (if (if idx \<le> d then idx else idx - 1) < r then Some () else None);
           sz \<leftarrow> getOutDimSize parentLL od;
           f \<leftarrow> (if idx = d then zeros1D sz od (names ! 0) 1
                 else identity1D sz od (names ! (if idx < d then idx else idx - 1)));
           layout_prod t f
         }) (enumerate 0 (outDims parentLL)) (Some empty_layout))"

text \<open>\<open>bases[S("register")]\<close> adds the dimension when it is missing.\<close>

definition sliceOfParent :: "nat \<Rightarrow> nat \<Rightarrow> linear_layout \<Rightarrow> linear_layout option" where
  "sliceOfParent r d parentLL = do {
     transform \<leftarrow> slice_transform r d parentLL;
     sliceLL \<leftarrow> compose parentLL transform;
     let regs = (case map_of (bases sliceLL) ''register'' of Some vs \<Rightarrow> vs | None \<Rightarrow> []);
     mkLayoutInfer (AList.update ''register'' (filter (list_ex (\<lambda>b. b \<noteq> 0)) regs) (bases sliceLL)) (getOutDimNames sliceLL)
   }"

fun distToLinearLayout :: "distributed \<Rightarrow> int list \<Rightarrow> linear_layout option" where
  "distToLinearLayout (LinearEnc ll) shape = linearToShape ll shape"
| "distToLinearLayout (Blocked e) shape = blockedToLinearLayout e shape"
| "distToLinearLayout (Mfma e) shape = mfmaToLinearLayout e shape"
| "distToLinearLayout (Wmma e) shape = wmmaToLinearLayout e shape"
| "distToLinearLayout (NvidiaMma e) shape = mmaToLinearLayout e shape"
| "distToLinearLayout (DotOperand opIdx parent kWidth) shape = dotToLinearLayout opIdx parent kWidth shape"
| "distToLinearLayout (SliceEnc d parent) shape =
     (if d \<le> length shape
      then Option.bind (distToLinearLayout parent (take d shape @ 1 # drop d shape)) (sliceOfParent (Suc (length shape)) d) else None)"

section \<open>Tensor memory\<close>

definition tmem_tile :: "int list \<Rightarrow> int \<Rightarrow> int \<Rightarrow> linear_layout option" where
  "tmem_tile shape bM bN =
     (if bM = 64 then do {
        r0 \<leftarrow> identity1D 16 ''row'' ''dim0'';
        t0 \<leftarrow> times_id bN ''col'' ''dim1'' r0;
        let extra = (if shape ! 0 > bM then [64, 0] else if shape ! 1 > bN then [0, bN] else [0, 0]);
        let rows = (case map_of (bases t0) ''row'' of Some vs \<Rightarrow> vs | None \<Rightarrow> []);
        mkLayoutInfer (AList.update ''row'' (rows @ [extra, [16, 0], [32, 0]]) (bases t0)) [''dim0'', ''dim1'']
      } else if bM = 128 then Option.bind (identity1D bM ''row'' ''dim0'') (times_id bN ''col'' ''dim1'')
      else None)"

definition tmem_block :: "int list \<Rightarrow> int \<Rightarrow> int \<Rightarrow> linear_layout option" where
  "tmem_block shape bM bN = do {
     tile \<leftarrow> tmem_tile shape bM bN;
     s0 \<leftarrow> getOutDimSize tile ''dim0'';
     s1 \<leftarrow> getOutDimSize tile ''dim1'';
     let repsM = shape ! 0 sdiv s0;
     let repsN = shape ! 1 sdiv s1;
     (if repsM \<ge> 1 \<and> repsN \<ge> 1 then times_ids [(repsM, ''col'', ''dim0''), (repsN, ''col'', ''dim1'')] tile else None)
   }"

text \<open>The splits are taken off one after the other: first N, then M.\<close>

definition tensorMemoryToLinearLayout :: "int list \<Rightarrow> tmem_encoding \<Rightarrow> linear_layout option" where
  "tensorMemoryToLinearLayout shape e =
     (if length shape \<noteq> 2 then None
      else
        let m = CTASplitM e; n = CTASplitN e;
            shapeN = (if n > 1 then [shape ! 0, shape ! 1 sdiv n] else shape);
            shapeMN = (if m > 1 then [shapeN ! 0 sdiv m, shapeN ! 1] else shapeN)
        in if m < 1 \<or> n < 1 then None
           else do {
             t0 \<leftarrow> tmem_block shapeMN (blockM e) (blockN e);
             t1 \<leftarrow> (if m > 1 then times_id m ''col'' ''dim0'' t0 else Some t0);
             if n > 1 then times_id n ''col'' ''dim1'' t1 else Some t1
           })"

definition tensorMemoryScalesToLinearLayout :: "int list \<Rightarrow> linear_layout option" where
  "tensorMemoryScalesToLinearLayout shape =
     (if length shape \<noteq> 2 then None
      else Option.bind (identity1D (min 32 (shape ! 0)) ''row'' ''dim0'')
        (times_ids [(min 4 (shape ! 1), ''col'', ''dim1''), (max 1 (shape ! 0 sdiv 32), ''col'', ''dim0''),
                    (max 1 (shape ! 1 sdiv 4), ''col'', ''dim1'')]))"

section \<open>Every encoding\<close>

definition toLinearLayout :: "int list \<Rightarrow> encoding \<Rightarrow> linear_layout option" where
  "toLinearLayout shape e =
     (case e of
        Distributed d \<Rightarrow> distToLinearLayout d shape
      | _ \<Rightarrow>
          if \<not> list_all (\<lambda>d. is_pow2_32 d \<and> d \<ge> 1) shape then None
          else (case e of
              Swizzled s \<Rightarrow> swizzledSharedToLinearLayout shape s
            | NVMMAShared s \<Rightarrow> nvmmaSharedToLinearLayout shape s False
            | Rotating s \<Rightarrow> sharedToLinearLayoutAMDRotating shape s
            | TensorMemory t \<Rightarrow> tensorMemoryToLinearLayout shape t
            | TensorMemoryScales m n \<Rightarrow> tensorMemoryScalesToLinearLayout shape
            | _ \<Rightarrow> None))"

text \<open>The type of a memory descriptor counts its allocated shape, less the leading dims it indexes away.\<close>

definition memDescToLinearLayout :: "int list \<Rightarrow> nat \<Rightarrow> encoding \<Rightarrow> linear_layout option" where
  "memDescToLinearLayout allocShape r e = toLinearLayout (drop (length allocShape - r) allocShape) e"

definition getLayoutWithinBlock :: "linear_layout \<Rightarrow> linear_layout option" where
  "getLayoutWithinBlock l =
     (if hasInDim l ''block'' then mkLayoutInfer (AList.update ''block'' [] (bases l)) (getOutDimNames l) else None)"

section \<open>Layouts for particular instructions\<close>

definition dim_name :: "string \<Rightarrow> nat \<Rightarrow> dim" where
  "dim_name stem d = stem @ digits_nat d"

definition chooseShemLayoutForRegToRegConversion :: "int list \<Rightarrow> int list \<Rightarrow> nat list \<Rightarrow> linear_layout option" where
  "chooseShemLayoutForRegToRegConversion tensorShape repShape ord = do {
     let r = length tensorShape;
     let names = standardOutDimNames r;
     (if r \<le> length ord \<and> list_all (\<lambda>d. d < r \<and> d < length repShape) (take r ord) then Some () else None);
     let dims = take r ord;
     l \<leftarrow> fold (\<lambda>d acc. do {
         l \<leftarrow> acc;
         (if is_pow2_32 (repShape ! d) \<and> is_pow2_32 (tensorShape ! d) then Some () else None);
         times_ids [(repShape ! d, dim_name ''offset'' d, names ! d),
                    (tensorShape ! d div repShape ! d, dim_name ''iteration'' d, names ! d)] l
       }) dims (Some empty_layout);
     t \<leftarrow> transposeIns l (map (dim_name ''offset'') dims @ map (dim_name ''iteration'') dims);
     reshapeIns t [(''offset'', prod_list (map (\<lambda>d. repShape ! d) dims)),
                   (''iteration'', prod_list (map (\<lambda>d. tensorShape ! d div repShape ! d) dims)), (''block'', 1)]
   }"

definition chooseScaledMfmaScaleLayout ::
  "nat \<Rightarrow> int list \<Rightarrow> int \<Rightarrow> int list \<Rightarrow> int list \<Rightarrow> linear_layout option" where
  "chooseScaledMfmaScaleLayout dotOperandIdx shape mfmaMDim tiles warps = do {
     let r = length shape;
     let ord = getMatrixOrder r True;
     let mnDim = (if dotOperandIdx = 0 then r - 2 else r - 1);
     (if 2 \<le> r \<and> mnDim < length tiles \<and> 2 \<le> length warps then Some () else None);
     let tileMN = tiles ! mnDim;
     let kSize = shape ! 1;
     let threadsInKDim = (if mfmaMDim = 32 then 2 else 4);
     let regs = map (\<lambda>elem. [elem, 0]) (pow2s_below threadsInKDim kSize) @
                map (\<lambda>elem. [0, elem]) (pow2s_below mfmaMDim (tileMN * mfmaMDim));
     lanes \<leftarrow> (if mfmaMDim = 32 then Some [[0, 1], [0, 2], [0, 4], [0, 8], [0, 16], [1, 0]]
              else if mfmaMDim = 16 then Some [[0, 1], [0, 2], [0, 4], [0, 8], [1, 0], [2, 0]] else None);
     let names = standardOutDimNames r;
     tile \<leftarrow> mkLayoutInfer [(''register'', regs), (''lane'', lanes)] [names ! (ord ! 0), names ! (ord ! 1)];
     warpLayout \<leftarrow> identityStandardND ''warp'' (if dotOperandIdx = 1 then [warps ! 1, warps ! 0] else [warps ! 0, warps ! 1])
       (if dotOperandIdx = 1 then [0, 1] else [1, 0]);
     tile' \<leftarrow> transposeOuts tile names;
     warp' \<leftarrow> transposeOuts warpLayout names;
     cta \<leftarrow> layout_prod tile' warp';
     combineCtaCgaWithShape cta (mkCTALayout [1, 1] [1, 1] [1, 0]) shape
   }"

text \<open>\<open>chooseMfmaLikeStoreLayout\<close> of a tensor: its shape, its encoding and whether its elements are f16 or
  bf16. The inner None is \<open>std::nullopt\<close>.\<close>

definition chooseMfmaLikeStoreLayout :: "int list \<Rightarrow> encoding \<Rightarrow> bool \<Rightarrow> linear_layout option option" where
  "chooseMfmaLikeStoreLayout valShape e half =
     (case e of
        Distributed (Mfma m) \<Rightarrow>
          let isMfma32 = (mDim m = 32 \<and> nDim m = 32);
              isMfma16 = (mDim m = 16 \<and> nDim m = 16)
          in if isMfma16 \<and> (valShape = [] \<or> last valShape \<ge> 32 \<and> mfmaWarps m = []) then None
             else let validForMfma16 = (isMfma16 \<and> last valShape \<ge> 16 * 2 \<and> last (mfmaWarps m) = 1)
             in if \<not> (length valShape = 2 \<and> half \<and> mfmaVersion m = 4 \<and> mfmaTransposed m \<and> (isMfma32 \<or> validForMfma16))
             then Some None
             else do {
               mfmaLL \<leftarrow> mfmaToLinearLayout m valShape;
               let dimM = getOutDimNames mfmaLL ! 0;
               let dimN = getOutDimNames mfmaLL ! 1;
               swap0 \<leftarrow> times_id (valShape ! 0) dimM dimM empty_layout;
               n \<leftarrow> getOutDimSizeLog2 mfmaLL dimN;
               let dest = (if isMfma32 then 3 else 4);
               let bs = map (\<lambda>i. [2 ^ i]) [0..<n];
               bs' \<leftarrow> (if dest < n then Some (bs[2 := bs ! dest, dest := bs ! 2]) else None);
               swap1 \<leftarrow> mkLayoutInfer [(dimN, bs')] [dimN];
               swapLL \<leftarrow> layout_prod swap0 swap1;
               map_option Some (compose mfmaLL swapLL)
             }
      | _ \<Rightarrow> Some None)"

definition getScaleTMEMStoreLinearLayout :: "int list \<Rightarrow> encoding \<Rightarrow> int \<Rightarrow> linear_layout option" where
  "getScaleTMEMStoreLinearLayout shape e numWarps = do {
     (if numWarps \<in> {4, 8} \<and> 2 \<le> length shape then Some () else None);
     let m = shape ! 0;
     let n = shape ! 1;
     cta \<leftarrow> getCTALayout e;
     let regs = map (\<lambda>i. if i \<ge> n then [0, 0] else [0, i]) (pow2s_below 1 4) @
                map (\<lambda>i. [i, 0]) (pow2s_below 32 m) @ map (\<lambda>i. [0, i]) (pow2s_below 4 n);
     let (regs', warps) = (if numWarps = 8 then (butlast regs, [[0, 0], [0, 0], last regs]) else (regs, [[0, 0], [0, 0]]));
     l \<leftarrow> mkLayoutInfer [(''register'', regs'), (''lane'', [[1, 0], [2, 0], [4, 0], [8, 0], [16, 0]]), (''warp'', warps)]
            [''dim0'', ''dim1''];
     combineCtaCgaWithShape l cta shape
   }"

text \<open>The inner None is \<open>std::nullopt\<close>; the tensor is given by its shape, encoding and element width.\<close>

definition getTmemLoadStoreLayout16x256 :: "int \<Rightarrow> int \<Rightarrow> int list \<Rightarrow> encoding \<Rightarrow> int \<Rightarrow> int \<Rightarrow> linear_layout option option" where
  "getTmemLoadStoreLayout16x256 m n fullShape e elemBits numWarps =
     (if numWarps = 8 \<and> m = 64 \<and> n \<le> 16 \<and> elemBits < 32 then Some None
      else do {
        (if numWarps \<in> {4, 8} then Some () else None);
        cta \<leftarrow> getCTALayout e;
        shape \<leftarrow> getShapePerCTA e fullShape;
        (if 2 \<le> length shape then Some () else None);
        nElems \<leftarrow> cdiv 256 elemBits;
        kWidth \<leftarrow> cdiv 64 elemBits;
        t0 \<leftarrow> nvidiaMmaTile [8, nElems] kWidth [1, 0] [0, 1];
        let distributeM = (numWarps = 8 \<and> shape ! 0 > 128);
        let distributeN = (numWarps = 8 \<and> \<not> shape ! 0 > 128);
        let maxRegN = min n (if distributeN then shape ! 1 sdiv 2 else shape ! 1);
        repN \<leftarrow> cdiv maxRegN nElems;
        q \<leftarrow> cdiv (min 128 (shape ! 0)) m;
        let restM = shape ! 0 sdiv (if distributeM then 256 else 128);
        let maxN = (if distributeN then shape ! 1 sdiv 2 else shape ! 1);
        restN \<leftarrow> cdiv maxN maxRegN;
        l \<leftarrow> times_ids
          ([(2, ''register'', ''dim0'')] @
           (if repN > 1 then [(repN, ''register'', ''dim1'')] else []) @
           (if m \<noteq> 64 then [(2, ''register'', ''dim0'')] else []) @
           [(4, ''warp'', ''dim0'')] @
           (if q > 1 then [(q, ''register'', ''dim0'')] else []) @
           (if distributeM then [(2, ''warp'', ''dim0'')] else []) @
           (if restM > 1 then [(restM, ''register'', ''dim0'')] else []) @
           (if restN > 1 then [(restN, ''register'', ''dim1'')] else []) @
           (if distributeN then [(2, ''warp'', ''dim1'')] else [])) t0;
        map_option Some (combineCtaCgaWithShape l cta fullShape)
      })"

definition getTmemLoadLayoutSplitLongM :: "int \<Rightarrow> int \<Rightarrow> int list \<Rightarrow> encoding \<Rightarrow> int \<Rightarrow> linear_layout option" where
  "getTmemLoadLayoutSplitLongM m n fullShape e numWarps = do {
     (if numWarps = 8 \<and> m = 128 \<and> 0 < n then Some () else None);
     cta \<leftarrow> getCTALayout e;
     shape \<leftarrow> getShapePerCTA e fullShape;
     (if 2 \<le> length shape then Some () else None);
     l \<leftarrow> mkLayoutInfer
       [(''register'', map (\<lambda>i. [0, i]) (pow2s_below 1 (n sdiv 2)) @ map (\<lambda>i. [0, i]) (pow2s_below n (shape ! 1)) @
                       map (\<lambda>i. [i, 0]) (pow2s_below m (shape ! 0))),
        (''lane'', map (\<lambda>i. [i, 0]) (pow2s_below 1 16) @ [[0, n sdiv 2]]),
        (''warp'', [[32, 0], [64, 0], [16, 0]])] [''dim0'', ''dim1''];
     combineCtaCgaWithShape l cta fullShape
   }"

end
