(* ===== verification/PlacedLayouts.thy ===== *)
theory PlacedLayouts
  imports LayoutConversions LayoutInvert
begin

text \<open>
  Placed layouts: every basis vector is zero or one power of two in one out-dim, and every power of two
  below a size is the vector of exactly one position. The conversions of distributed encodings build
  their results from placed layouts by products, transpositions and the adjustments to a shape; this
  theory shows that each of them returns, keeps layouts placed and changes the sizes as the code says.
\<close>

section \<open>Products by name\<close>

lemma prod_named:
  assumes w: "wf a" "wf b" and f: "prod_fits a b"
  shows "\<exists>p. layout_prod a b = Some p \<and> wf p \<and>
    supremum (getInDimNames a) (getInDimNames b) = Some (getInDimNames p) \<and>
    supremum (getOutDimNames a) (getOutDimNames b) = Some (getOutDimNames p) \<and>
    set (getInDimNames p) = set (getInDimNames a) \<union> set (getInDimNames b) \<and>
    set (getOutDimNames p) = set (getOutDimNames a) \<union> set (getOutDimNames b) \<and>
    getTotalInDimSizeLog2 p = getTotalInDimSizeLog2 a + getTotalInDimSizeLog2 b \<and>
    (\<forall>d. in_len p d = in_len a d + in_len b d) \<and> (\<forall>od. out_len p od = out_len a od + out_len b od) \<and>
    (\<forall>d q od. entry p d q od = prod_entry a b d q od)"
proof -
  obtain p ins outs where p: "supremum (getInDimNames a) (getInDimNames b) = Some ins"
    "supremum (getOutDimNames a) (getOutDimNames b) = Some outs" "merged a b ins outs" "layout_prod a b = Some p" "wf p"
    "bases p = bases (raw_prod a b ins outs)" "outDims p = outDims (raw_prod a b ins outs)"
    using layout_prod_total [OF w f] by blast
  let ?R = "raw_prod a b ins outs"
  note m = p(3) [unfolded merged_def]
  have n: "getInDimNames p = ins" "getOutDimNames p = outs"
    using raw_prod_names [of a b ins outs] p(6,7) by (simp_all add: getInDimNames_def getOutDimNames_def)
  have same: "in_len p = in_len ?R" "out_len p = out_len ?R" "entry p = entry ?R"
    "getTotalInDimSizeLog2 p = getTotalInDimSizeLog2 ?R"
    using p(6,7) by (simp_all add: fun_eq_iff in_len_def out_len_def getTotalInDimSizeLog2_def entry_def hasOutDim_def
        getOutDimNames_def getBasis_def getBasisVec_def getOutDimIndex_def)
  have il: "in_len p d = in_len a d + in_len b d" for d
    using m n same(1) in_len_raw_prod [of d ins a b outs] in_len_absent [of d p] in_len_absent [of d a] in_len_absent [of d b]
    by (cases "d \<in> set ins") auto
  have ol: "out_len p od = out_len a od + out_len b od" for od
  proof (cases "od \<in> set outs")
    case True
    have "out_len a od + out_len b od < 31" using f m True by (auto simp: prod_fits_def list_all_iff)
    then show ?thesis using same(2) out_len_raw_prod [OF True] by simp
  qed (use m n in \<open>auto simp: out_len_absent\<close>)
  have e: "entry p d q od = prod_entry a b d q od" for d q od
  proof (cases "od \<in> set outs \<and> d \<in> set ins \<and> q < in_len a d + in_len b d")
    case True
    then show ?thesis using same(3) entry_raw_prod [of d ins od outs q a b] m by simp
  next
    case False
    have "\<not> hasOutDim p od \<or> \<not> q < in_len p d" using False il in_len_absent [of d p] n
      by (auto simp: hasOutDim_def)
    then have z: "entry p d q od = 0" by (auto simp: entry_def)
    have "prod_entry a b d q od = 0" using False m in_len_absent [of d a] in_len_absent [of d b]
      by (auto simp: prod_entry_eq entry_def hasOutDim_def)
    then show ?thesis using z by simp
  qed
  show ?thesis using p(1,2,4,5) n m il ol e same(4) raw_prod_totals(1) [OF w p(3) f] by simp
qed

section \<open>Placed layouts\<close>

definition placed :: "linear_layout \<Rightarrow> bool" where
  "placed l \<longleftrightarrow> wf l \<and>
     (\<forall>d p od. entry l d p od \<noteq> 0 \<longrightarrow> (\<exists>k. entry l d p od = 2 ^ k) \<and> (\<forall>od'. entry l d p od' \<noteq> 0 \<longrightarrow> od' = od)) \<and>
     (\<forall>od k. k < out_len l od \<longrightarrow> (\<exists>!q. entry l (fst q) (snd q) od = 2 ^ k))"

lemma placedD:
  assumes "placed l"
  shows "wf l" "entry l d p od \<noteq> 0 \<Longrightarrow> \<exists>k < out_len l od. entry l d p od = 2 ^ k"
    "entry l d p od \<noteq> 0 \<Longrightarrow> entry l d p od' \<noteq> 0 \<Longrightarrow> od' = od"
    "k < out_len l od \<Longrightarrow> \<exists>d p. entry l d p od = 2 ^ k"
    "k < out_len l od \<Longrightarrow> entry l d p od = 2 ^ k \<Longrightarrow> entry l d' p' od = 2 ^ k \<Longrightarrow> d' = d \<and> p' = p"
proof -
  show w: "wf l" using assms by (simp add: placed_def)
  show "entry l d p od \<noteq> 0 \<Longrightarrow> \<exists>k < out_len l od. entry l d p od = 2 ^ k"
    using assms entry_fits [OF w, of d p od] by (auto simp: placed_def fits_width_def) (metis power_less_imp_less_exp one_less_numeral_iff semiring_norm(76))
  show "entry l d p od \<noteq> 0 \<Longrightarrow> entry l d p od' \<noteq> 0 \<Longrightarrow> od' = od" using assms by (auto simp: placed_def)
  show "k < out_len l od \<Longrightarrow> \<exists>d p. entry l d p od = 2 ^ k" using assms by (fastforce simp: placed_def)
  show "k < out_len l od \<Longrightarrow> entry l d p od = 2 ^ k \<Longrightarrow> entry l d' p' od = 2 ^ k \<Longrightarrow> d' = d \<and> p' = p"
    using assms unfolding placed_def by (metis fst_conv snd_conv)
qed

lemma placedI:
  assumes "wf l"
    and "\<And>d p od. entry l d p od \<noteq> 0 \<Longrightarrow> \<exists>k. entry l d p od = 2 ^ k"
    and "\<And>d p od od'. entry l d p od \<noteq> 0 \<Longrightarrow> entry l d p od' \<noteq> 0 \<Longrightarrow> od' = od"
    and "\<And>od k. k < out_len l od \<Longrightarrow> \<exists>d p. entry l d p od = 2 ^ k"
    and "\<And>od k d p d' p'. k < out_len l od \<Longrightarrow> entry l d p od = 2 ^ k \<Longrightarrow> entry l d' p' od = 2 ^ k \<Longrightarrow> d' = d \<and> p' = p"
  shows "placed l"
  unfolding placed_def
proof (intro conjI allI impI)
  fix od k assume k: "k < out_len l od"
  then obtain d p where e: "entry l d p od = 2 ^ k" using assms(4) by blast
  show "\<exists>!q. entry l (fst q) (snd q) od = 2 ^ k"
    by (rule ex1I [of _ "(d, p)"]) (use e assms(5) [OF k] in \<open>auto simp: prod_eq_iff\<close>)
qed (use assms in blast)+

text \<open>A placed layout reaches every output: each bit of an output is the bit of one input.\<close>

lemma xlin_unique:
  assumes "length cs = length xs" and "\<And>p. p < length xs \<Longrightarrow> cs ! p \<and> bit (xs ! p) j \<longleftrightarrow> p = q \<and> c" and "q < length xs"
  shows "bit (xlin cs xs) j = c"
proof -
  have "bit (xlin cs xs) j = parity (length xs) (\<lambda>p. p = q \<and> c)"
    using assms(2) unfolding bit_xlin [OF assms(1)] by (intro parity_cong) simp
  also have "\<dots> = c" using assms(3) by (cases c) (simp_all add: parity_def Collect_conv_if cong: conj_cong)
  finally show ?thesis .
qed

lemma bit_xsum_unique:
  assumes "distinct ds" and "\<And>d. d \<in> set ds \<Longrightarrow> bit (f d) j \<longleftrightarrow> d = e \<and> c" and "e \<in> set ds"
  shows "bit (xsum (map f ds)) j = c"
  using assms
proof (induction ds)
  case (Cons d ds)
  show ?case
  proof (cases "d = e")
    case True
    have "\<not> bit (xsum (map f ds)) j"
      using Cons.prems True by (induction ds) (auto simp: bit_xor_iff)
    then show ?thesis using Cons.prems True by (simp add: bit_xor_iff)
  next
    case False
    then show ?thesis using Cons by (simp add: bit_xor_iff)
  qed
qed simp

lemma placed_dcomp:
  assumes pl: "placed l" and k: "k < out_len l od" and e: "entry l d p od = 2 ^ k"
  shows "bit (dcomp l od vals) k = bit (vals d) p"
proof -
  have n: "distinct (getInDimNames l)" using wf_names [OF placedD(1) [OF pl]] by simp
  have pos: "p < in_len l d" using e by (auto simp: entry_def split: if_splits)
  then have d: "d \<in> set (getInDimNames l)" using in_len_absent by fastforce
  have hit: "bit (entry l d' p' od) k \<longleftrightarrow> d' = d \<and> p' = p" for d' p'
  proof
    assume b: "bit (entry l d' p' od) k"
    then have "entry l d' p' od \<noteq> 0" by auto
    then obtain k' where k': "entry l d' p' od = 2 ^ k'" using placedD(2) [OF pl] by blast
    then have "k' = k" using b by (simp add: bit_exp_iff)
    then show "d' = d \<and> p' = p" using placedD(5) [OF pl k e] k' by simp
  qed (use e in \<open>simp add: bit_exp_iff\<close>)
  have "bit (contrib l od d' (vals d')) k \<longleftrightarrow> d' = d \<and> bit (vals d) p" for d'
  proof (cases "d' = d")
    case True
    have "bit (xlin (bits_of (vals d) (in_len l d)) (map (\<lambda>p. entry l d p od) [0..<in_len l d])) k = bit (vals d) p"
      by (rule xlin_unique [where q = p]) (use hit pos in auto)
    then show ?thesis using True by (simp add: contrib_def)
  next
    case False
    have "\<not> bit (contrib l od d' (vals d')) k"
      unfolding contrib_def by (subst bit_xlin) (use hit False in \<open>auto intro!: parity_none\<close>)
    then show ?thesis using False by simp
  qed
  then show ?thesis unfolding dcomp_def by (intro bit_xsum_unique [OF n _ d])
qed

lemma placed_surj:
  assumes pl: "placed l" shows "surj_vals l" "isSurjective l"
proof -
  have w: "wf l" by (rule placedD(1) [OF pl])
  show s: "surj_vals l"
    unfolding surj_vals_named [OF wf_layout_data [OF w]]
  proof (intro allI impI)
    fix t assume t: "\<forall>od \<in> set (getOutDimNames l). fits_width (t od) (out_len l od)"
    define on where "on = (\<lambda>d p. \<exists>od k. k < out_len l od \<and> entry l d p od = 2 ^ k \<and> bit (t od) k)"
    have v: "\<exists>v::int. \<forall>p < in_len l d. bit v p \<longleftrightarrow> on d p" for d
      by (rule exI [of _ "bval (map (on d) [0..<in_len l d])"]) (simp add: bit_bval)
    then obtain vals where vals: "\<And>d p. p < in_len l d \<Longrightarrow> bit (vals d :: int) p \<longleftrightarrow> on d p" by metis
    have "dcomp l od vals = t od" if od: "od \<in> set (getOutDimNames l)" for od
    proof (rule bit_eqI)
      fix k
      show "bit (dcomp l od vals) k \<longleftrightarrow> bit (t od) k"
      proof (cases "k < out_len l od")
        case True
        then obtain d p where e: "entry l d p od = 2 ^ k" using placedD(4) [OF pl] by blast
        then have p: "p < in_len l d" by (auto simp: entry_def split: if_splits)
        have "on d p \<longleftrightarrow> bit (t od) k"
        proof
          assume "on d p"
          then obtain od' k' where o: "entry l d p od' = 2 ^ k'" "bit (t od') k'" by (auto simp: on_def)
          then have "od' = od" using placedD(3) [OF pl, of d p od od'] e by simp
          then show "bit (t od) k" using o e by simp
        qed (use e True in \<open>auto simp: on_def\<close>)
        then show ?thesis using placed_dcomp [OF pl True e] vals [OF p] by simp
      next
        case False
        then show ?thesis using dcomp_fits [OF w, of od vals] t od by (meson fits_width_bit)
      qed
    qed
    then show "\<exists>vals. \<forall>od \<in> set (getOutDimNames l). dcomp l od vals = t od" by blast
  qed
  show "isSurjective l" using isSurjective_vals [OF w] s by simp
qed

text \<open>Products of placed layouts are placed: the inner one holds the low bits, the outer one the high ones.\<close>

lemma push_bit_eq_pow: "push_bit m v = (2::int) ^ k \<longleftrightarrow> m \<le> k \<and> v = 2 ^ (k - m)"
proof
  assume p: "push_bit m v = 2 ^ k"
  then have m: "m \<le> k" by (metis bit_exp_iff bit_push_bit_iff order_refl possible_bit_int)
  then have "push_bit m v = push_bit m (2 ^ (k - m))" using p by (simp add: push_bit_eq_mult flip: power_add)
  then show "m \<le> k \<and> v = 2 ^ (k - m)" using m by (simp add: push_bit_eq_mult)
qed (simp add: push_bit_eq_mult flip: power_add)

lemma placed_prod:
  assumes a: "placed a" and b: "placed b" and w: "wf p"
    and il: "\<And>d. in_len p d = in_len a d + in_len b d" and ol: "\<And>od. out_len p od = out_len a od + out_len b od"
    and e: "\<And>d q od. entry p d q od = prod_entry a b d q od"
  shows "placed p"
proof (rule placedI [OF w])
  fix d q od assume n: "entry p d q od \<noteq> 0"
  then show "\<exists>k. entry p d q od = 2 ^ k"
    using placedD(2) [OF a, of d q od] placedD(2) [OF b, of d "q - in_len a d" od]
    by (auto simp: e prod_entry_eq push_bit_eq_pow push_bit_eq_mult split: if_splits) (metis power_add)
next
  fix d q od od' assume "entry p d q od \<noteq> 0" "entry p d q od' \<noteq> 0"
  then show "od' = od"
    using placedD(3) [OF a, of d q od od'] placedD(3) [OF b, of d "q - in_len a d" od od']
    by (auto simp: e prod_entry_eq split: if_splits)
next
  fix od k assume k: "k < out_len p od"
  show "\<exists>d q. entry p d q od = 2 ^ k"
  proof (cases "k < out_len a od")
    case True
    then obtain d q where "entry a d q od = 2 ^ k" using placedD(4) [OF a] by blast
    moreover from this have "q < in_len a d" by (auto simp: entry_def split: if_splits)
    ultimately show ?thesis by (intro exI [of _ d] exI [of _ q]) (simp add: e prod_entry_eq)
  next
    case False
    then have "k - out_len a od < out_len b od" using k ol by simp
    then obtain d q where q: "entry b d q od = 2 ^ (k - out_len a od)" using placedD(4) [OF b] by blast
    moreover from this have "q < in_len b d" by (auto simp: entry_def split: if_splits)
    ultimately show ?thesis using False
      by (intro exI [of _ d] exI [of _ "in_len a d + q"]) (simp add: e prod_entry_eq push_bit_eq_pow)
  qed
next
  fix od k d q d' q' assume k: "k < out_len p od" and h: "entry p d q od = 2 ^ k" "entry p d' q' od = 2 ^ k"
  have low: "x < in_len a y \<and> entry a y x od = 2 ^ k \<or>
      in_len a y \<le> x \<and> out_len a od \<le> k \<and> entry b y (x - in_len a y) od = 2 ^ (k - out_len a od)"
    if "entry p y x od = 2 ^ k" for y x
    using that by (auto simp: e prod_entry_eq push_bit_eq_pow split: if_splits)
  have small: "k < out_len a od" if "entry a y x od = 2 ^ k" for y x
    using placedD(2) [OF a, of y x od] that by auto
  show "d' = d \<and> q' = q"
  proof (cases "k < out_len a od")
    case True
    then have "entry a d q od = 2 ^ k" "entry a d' q' od = 2 ^ k" using low [OF h(1)] low [OF h(2)] by auto
    then show ?thesis using placedD(5) [OF a True] by blast
  next
    case False
    then have n: "in_len a d \<le> q" "entry b d (q - in_len a d) od = 2 ^ (k - out_len a od)"
      "in_len a d' \<le> q'" "entry b d' (q' - in_len a d') od = 2 ^ (k - out_len a od)"
      using low [OF h(1)] low [OF h(2)] small by auto
    have "k - out_len a od < out_len b od" using k ol False by simp
    then have "d' = d \<and> q' - in_len a d' = q - in_len a d" using placedD(5) [OF b _ n(2,4)] by blast
    then show ?thesis using n by auto
  qed
qed

text \<open>A placed layout has at least as many input bits as output bits.\<close>

lemma placed_total:
  assumes pl: "placed l" shows "getTotalOutDimSizeLog2 l \<le> getTotalInDimSizeLog2 l"
proof -
  note n = wf_names [OF placedD(1) [OF pl]]
  let ?O = "SIGMA od : set (getOutDimNames l). {..<out_len l od}"
  let ?I = "SIGMA d : set (getInDimNames l). {..<in_len l d}"
  define site where "site = (\<lambda>(od, k). SOME q. entry l (fst q) (snd q) od = 2 ^ k)"
  have s: "entry l (fst (site (od, k))) (snd (site (od, k))) od = 2 ^ k" if k: "k < out_len l od" for od k
  proof -
    obtain d p where "entry l d p od = 2 ^ k" using placedD(4) [OF pl k] by blast
    then have "\<exists>q. entry l (fst q) (snd q) od = 2 ^ k" by (intro exI [of _ "(d, p)"]) simp
    from someI_ex [OF this] show ?thesis by (simp only: site_def prod.case)
  qed
  have "inj_on site ?O"
  proof (rule inj_onI)
    fix x y assume xy: "x \<in> ?O" "y \<in> ?O" "site x = site y"
    obtain od k od' k' where x: "x = (od, k)" "y = (od', k')" by (cases x; cases y) auto
    have "entry l (fst (site x)) (snd (site x)) od = 2 ^ k" "entry l (fst (site x)) (snd (site x)) od' = 2 ^ k'"
      using s [of k od] s [of k' od'] xy x by auto
    then show "x = y" using placedD(3) [OF pl, of "fst (site x)" "snd (site x)" od od'] x by auto
  qed
  moreover have "site ` ?O \<subseteq> ?I"
  proof (clarify)
    fix a b od k assume h: "(a, b) = site (od, k)" "od \<in> set (getOutDimNames l)" "k < out_len l od"
    then have "entry l a b od = 2 ^ k" using s [of k od] by (metis fst_conv snd_conv)
    then have "b < in_len l a" by (auto simp: entry_def split: if_splits)
    then show "a \<in> set (getInDimNames l) \<and> b \<in> {..<in_len l a}" using in_len_absent by fastforce
  qed
  ultimately have "card ?O \<le> card ?I" by (intro card_inj_on_le) auto
  then show ?thesis using n by (simp add: card_SigmaI total_in_len total_out_len sum_list_distinct_conv_sum_set)
qed

lemma entry_nth:
  assumes "wf l" and "map_of (bases l) d = Some bs" and "p < length bs" and "k < length (outDims l)"
  shows "entry l d p (getOutDimNames l ! k) = bs ! p ! k"
  using getBasis_nth [OF wf_wide [OF assms(1)] assms(2-4)] wf_names [OF assms(1)] assms
  by (simp add: entry_def in_len_def hasOutDim_def) (simp add: getOutDimNames_def)

lemma placed_shape:
  assumes "placed a" and "wf b" and "out_len b = out_len a" and "entry b = entry a"
  shows "placed b"
  using assms by (simp add: placed_def)

lemma transpose_named:
  assumes w: "wf l" and dims: "set dims = set (getOutDimNames l)" "distinct dims"
  shows "\<exists>t. transposeOuts l dims = Some t \<and> wf t \<and> getInDimNames t = getInDimNames l \<and> getOutDimNames t = dims \<and>
    in_len t = in_len l \<and> out_len t = out_len l \<and> entry t = entry l \<and> getTotalInDimSizeLog2 t = getTotalInDimSizeLog2 l"
proof -
  have de: "dimsEqual dims (getOutDimNames l)" using dims by (simp add: dimsEqual_def)
  obtain t where t: "transposeOuts l dims = Some t" "wf t" "getInDimNames t = getInDimNames l" "getOutDimNames t = dims"
    using transposeOuts_total [OF w de dims(2)] by blast
  define perm where "perm = map (\<lambda>d. the (getOutDimIndex l d)) dims"
  note ix = transpose_idx [OF w de dims(2) perm_def]
  have b: "bases t = map_bases (\<lambda>b. map (\<lambda>i. b ! i) perm) (bases l)"
    using t(1) de mkLayout_shape by (auto simp: transposeOuts_def Let_def perm_def split: if_splits)
  then have m: "map_of (bases t) d = map_option (map (\<lambda>b. map (\<lambda>i. b ! i) perm)) (map_of (bases l) d)" for d
    by (simp add: map_bases_def map_of_map)
  have il: "in_len t = in_len l" by (auto simp: fun_eq_iff in_len_def m split: option.splits)
  have e: "entry t d p od = entry l d p od" for d p od
  proof (cases "p < in_len l d \<and> od \<in> set dims")
    case True
    then obtain j where j: "j < length dims" "dims ! j = od" by (auto simp: in_set_conv_nth)
    obtain bs where bs: "map_of (bases l) d = Some bs" "p < length bs"
      using True by (auto simp: in_len_def split: option.splits)
    have lt: "length dims = length (outDims t)" using t(4) by (simp add: getOutDimNames_def flip: length_map [of fst])
    have pj: "perm ! j < length (outDims l)" "getOutDimNames l ! (perm ! j) = od"
      using ix(2,3) j by (auto simp: perm_def list_all_length select_idx_def dest!: arg_cong [of _ dims "\<lambda>x. x ! j"])
    have "entry t d p (getOutDimNames t ! j) = (map (\<lambda>b. map (\<lambda>i. b ! i) perm) bs) ! p ! j"
      using bs j lt by (intro entry_nth [OF t(2)]) (auto simp: m)
    then have "entry t d p od = bs ! p ! (perm ! j)" using bs j t(4) by (simp add: perm_def)
    then show ?thesis using entry_nth [OF w bs pj(1)] pj(2) by simp
  next
    case False
    then show ?thesis using il t(4) dims(1) by (auto simp: entry_def hasOutDim_def)
  qed
  have "out_len t = out_len l" using transposeOuts_len [OF w de dims(2) t(1)] by (simp add: fun_eq_iff)
  moreover have "getTotalInDimSizeLog2 t = getTotalInDimSizeLog2 l"
    using t(3) il wf_names [OF w] wf_names [OF t(2)] by (simp add: total_in_len)
  ultimately show ?thesis using t il e by (auto simp: fun_eq_iff)
qed

lemma placed_empty: "placed empty_layout"
proof (rule placedI)
  show "wf empty_layout" by code_simp
qed (auto simp: entry_def in_len_def out_len_def empty_layout_def)

lemma empty_simps [simp]:
  "in_len empty_layout d = 0" "out_len empty_layout od = 0" "getInDimNames empty_layout = []" "getOutDimNames empty_layout = []"
  "getTotalInDimSizeLog2 empty_layout = 0" "getTotalOutDimSizeLog2 empty_layout = 0"
  by (simp_all add: in_len_def out_len_def empty_layout_def getInDimNames_def getOutDimNames_def
      getTotalInDimSizeLog2_def getTotalOutDimSizeLog2_def)

lemma placed_identity:
  assumes "k < 31" shows "placed (identity_layout k i d)"
proof -
  note w = identity_wf [OF assms, of i d]
  have e: "entry (identity_layout k i d) x p y = (if x = i \<and> y = d \<and> p < k then 2 ^ p else 0)" for x p y
  proof (cases "x = i \<and> y = d \<and> p < k")
    case True
    then show ?thesis using entry_nth [OF w(2), of x "map (\<lambda>p. [2 ^ p]) [0..<k]" p 0] w(7)
      by (simp add: identity_layout_def)
  qed (use w in \<open>auto simp: entry_def hasOutDim_def\<close>)
  show ?thesis by (rule placedI [OF w(2)]) (auto simp: e w split: if_splits)
qed

text \<open>The zero layout of a broadcast dimension.\<close>

definition zeros_layout :: "nat \<Rightarrow> dim \<Rightarrow> dim \<Rightarrow> linear_layout" where
  "zeros_layout k i d = \<lparr>bases = [(i, replicate k [0])], outDims = [(d, 1)], rank = 0\<rparr>"

lemma zeros_total:
  assumes k: "k < 31"
  shows "\<exists>z. zeros1D (2 ^ k) i d 1 = Some z \<and> placed z \<and> getInDimNames z = [i] \<and> getOutDimNames z = [d] \<and>
    in_len z = (\<lambda>x. if x = i then k else 0) \<and> out_len z = (\<lambda>_. 0) \<and> getTotalInDimSizeLog2 z = k"
proof -
  let ?b = "[(i, replicate k [0])]" and ?o = "[(d, 1)] :: (dim \<times> int) list"
  let ?l = "\<lparr>bases = ?b, outDims = ?o, rank = 0\<rparr>"
  have log1: "log2_32 1 = 0" using log2_32_pow [of 0] by simp
  have one: "small_pow 1" by (auto simp: small_pow_iff intro!: exI [of _ 0])
  have d: "layout_data ?l" using k one
    by (auto simp: layout_data_def getInDimNames_def getOutDimNames_def list_all_iff columns_def log1 good_column_nth
        getTotalInDimSizeLog2_def getTotalOutDimSizeLog2_def)
  have s: "surj_vals ?l"
    unfolding surj_vals_def
  proof (intro allI impI)
    fix vs assume "list_all2 fits_width vs (out_widths ?l)"
    then have "vs = [0]" by (auto simp: out_widths_def list_all2_Cons2 log1 fits_width_def)
    moreover have "out_vals ?l (replicate k False) = [0]"
      using out_vals_False [of ?l k] by simp
    ultimately show "\<exists>cs. length cs = getTotalInDimSizeLog2 ?l \<and> out_vals ?l cs = vs"
      by (intro exI [of _ "replicate k False"]) (simp add: getTotalInDimSizeLog2_def)
  qed
  obtain z where z: "mkLayout ?b ?o True = Some z" "wf z" "bases z = ?b" "outDims z = ?o"
    using mkLayout_total [OF d s] by blast
  have p: "map (\<lambda>_. [0]) (pow2s_below 1 (2 ^ k)) = replicate k [0 :: int]"
    using pow2s_below_pow [of 1 0 k] by (simp add: comp_def map_replicate_const)
  have "is_pow2_32 (2 ^ k)" "(2::int) ^ k \<noteq> 0" using k by simp_all
  then have "zeros1D (2 ^ k) i d 1 = Some z" using z(1) by (simp add: zeros1D_def p)
  moreover have n: "getInDimNames z = [i]" "getOutDimNames z = [d]" "in_len z = (\<lambda>x. if x = i then k else 0)"
    "out_len z = (\<lambda>_. 0)" "getTotalInDimSizeLog2 z = k"
    using z(3,4) by (auto simp: fun_eq_iff getInDimNames_def getOutDimNames_def in_len_def out_len_def log1 getTotalInDimSizeLog2_def)
  moreover have "entry z x p y = 0" for x p y
    using entry_nth [OF z(2), of i "replicate k [0]" p 0] n z(3,4)
    by (cases "x = i \<and> y = d \<and> p < k") (auto simp: entry_def hasOutDim_def)
  then have "placed z" by (intro placedI [OF z(2)]) (simp_all add: n)
  ultimately show ?thesis by blast
qed

text \<open>
  The product of placed layouts, by the counts of bits: those of the factors add up.
\<close>

lemma placed_product:
  assumes a: "placed a" and b: "placed b" and t: "getTotalInDimSizeLog2 a + getTotalInDimSizeLog2 b \<le> 64"
    and o: "\<And>od. out_len a od + out_len b od < 31"
  shows "\<exists>p. layout_prod a b = Some p \<and> placed p \<and>
    supremum (getInDimNames a) (getInDimNames b) = Some (getInDimNames p) \<and>
    supremum (getOutDimNames a) (getOutDimNames b) = Some (getOutDimNames p) \<and>
    set (getInDimNames p) = set (getInDimNames a) \<union> set (getInDimNames b) \<and>
    set (getOutDimNames p) = set (getOutDimNames a) \<union> set (getOutDimNames b) \<and>
    getTotalInDimSizeLog2 p = getTotalInDimSizeLog2 a + getTotalInDimSizeLog2 b \<and>
    in_len p = (\<lambda>d. in_len a d + in_len b d) \<and> out_len p = (\<lambda>od. out_len a od + out_len b od)"
proof -
  have "prod_fits a b"
    using placed_total [OF a] placed_total [OF b] t o by (auto simp: prod_fits_def list_all_iff)
  then obtain p where p: "layout_prod a b = Some p" "wf p"
    "supremum (getInDimNames a) (getInDimNames b) = Some (getInDimNames p)"
    "supremum (getOutDimNames a) (getOutDimNames b) = Some (getOutDimNames p)"
    "set (getInDimNames p) = set (getInDimNames a) \<union> set (getInDimNames b)"
    "set (getOutDimNames p) = set (getOutDimNames a) \<union> set (getOutDimNames b)"
    "getTotalInDimSizeLog2 p = getTotalInDimSizeLog2 a + getTotalInDimSizeLog2 b"
    "\<And>d. in_len p d = in_len a d + in_len b d" "\<And>od. out_len p od = out_len a od + out_len b od"
    "\<And>d q od. entry p d q od = prod_entry a b d q od"
    using prod_named [OF placedD(1) [OF a] placedD(1) [OF b]] by blast
  have "placed p" by (rule placed_prod [OF a b p(2,8-10)])
  then show ?thesis using p by (simp add: fun_eq_iff)
qed

lemma supremum_known:
  assumes "distinct x" and "set y \<subseteq> set x" and "distinct y" and "compatible x y"
  shows "supremum x y = Some x"
proof -
  obtain s where s: "supremum x y = Some s" "set s = set x \<union> set y" using supremum_total [OF assms(1,3)] by blast
  obtain s' where "supremum x y = Some s'" "filter (\<lambda>e. e \<in> set x) s' = x"
    using supremum_compatible [OF assms(1,3,4)] by blast
  then have "filter (\<lambda>e. e \<in> set x) s = x" using s(1) by simp
  moreover have "filter (\<lambda>e. e \<in> set x) s = s" using s(2) assms(2) by (auto simp: filter_id_conv)
  ultimately show ?thesis using s(1) by simp
qed

lemma compatible_single: "distinct x \<Longrightarrow> compatible x [d]"
  by (induction x) (auto simp: compatible_def filter_empty_conv)

lemma supremum_self [simp]: "distinct x \<Longrightarrow> supremum x x = Some x"
  by (rule supremum_known) (simp_all add: compatible_def)

lemma supremum_in: "distinct x \<Longrightarrow> d \<in> set x \<Longrightarrow> supremum x [d] = Some x"
  by (rule supremum_known) (simp_all add: compatible_single)

lemma supremum_empty [simp]: "distinct x \<Longrightarrow> supremum [] x = Some x" "distinct x \<Longrightarrow> supremum x [] = Some x"
  by (rule supremum_absorb, simp_all add: compatible_def) (rule supremum_known, simp_all add: compatible_def)

text \<open>Multiplying one identity on, also the identity of size 0, which is the empty layout.\<close>

lemma times_id_placed:
  assumes a: "placed a" and k: "k < 31" and t: "getTotalInDimSizeLog2 a + k \<le> 64" and o: "out_len a od + k < 31"
  shows "\<exists>p. times_id (2 ^ k) d od a = Some p \<and> placed p \<and>
    supremum (getInDimNames a) [d] = Some (getInDimNames p) \<and> supremum (getOutDimNames a) [od] = Some (getOutDimNames p) \<and>
    set (getInDimNames p) = insert d (set (getInDimNames a)) \<and> set (getOutDimNames p) = insert od (set (getOutDimNames a)) \<and>
    getTotalInDimSizeLog2 p = getTotalInDimSizeLog2 a + k \<and>
    in_len p = (in_len a)(d := in_len a d + k) \<and> out_len p = (out_len a)(od := out_len a od + k)"
proof -
  note i = identity_wf [OF k, of d od]
  have "out_len a x + out_len (identity_layout k d od) x < 31" for x
    using o out_len_lt [OF placedD(1) [OF a], of x] by (simp add: i)
  then obtain p where p: "layout_prod a (identity_layout k d od) = Some p" "placed p"
    "supremum (getInDimNames a) [d] = Some (getInDimNames p)" "supremum (getOutDimNames a) [od] = Some (getOutDimNames p)"
    "set (getInDimNames p) = set (getInDimNames a) \<union> {d}" "set (getOutDimNames p) = set (getOutDimNames a) \<union> {od}"
    "getTotalInDimSizeLog2 p = getTotalInDimSizeLog2 a + k"
    "in_len p = (\<lambda>x. in_len a x + in_len (identity_layout k d od) x)"
    "out_len p = (\<lambda>x. out_len a x + out_len (identity_layout k d od) x)"
    using placed_product [OF a placed_identity [OF k, of d od]] t i(6-8) by fastforce
  then show ?thesis by (auto simp: times_id_def i fun_eq_iff)
qed

lemma prod_empty:
  assumes a: "placed a"
  shows "\<exists>p. layout_prod a empty_layout = Some p \<and> placed p \<and> getInDimNames p = getInDimNames a \<and>
    getOutDimNames p = getOutDimNames a \<and> getTotalInDimSizeLog2 p = getTotalInDimSizeLog2 a \<and>
    in_len p = in_len a \<and> out_len p = out_len a"
proof -
  have w: "wf a" by (rule placedD(1) [OF a])
  obtain p where "layout_prod a empty_layout = Some p" "placed p"
    "supremum (getInDimNames a) [] = Some (getInDimNames p)" "supremum (getOutDimNames a) [] = Some (getOutDimNames p)"
    "getTotalInDimSizeLog2 p = getTotalInDimSizeLog2 a" "in_len p = in_len a" "out_len p = out_len a"
    using placed_product [OF a placed_empty] out_len_lt [OF w] wf_dims [OF w] by auto
  then show ?thesis using wf_names [OF w] by simp
qed

section \<open>Growing to a shape\<close>

lemma grow_step:
  assumes pl: "placed r" and ins: "getInDimNames r = kDim # rest" and d: "d \<in> set (getOutDimNames r)"
    and n: "n < 31" and a: "out_len r d = a" and t: "getTotalInDimSizeLog2 r + n \<le> 64"
  shows "\<exists>r'. do {i \<leftarrow> identity1D (2 ^ n sdiv 2 ^ a) kDim d; layout_prod r i} = Some r' \<and> placed r' \<and>
    getInDimNames r' = getInDimNames r \<and> getOutDimNames r' = getOutDimNames r \<and>
    out_len r' = (out_len r)(d := max a n) \<and> (\<forall>x. x \<noteq> kDim \<longrightarrow> in_len r' x = in_len r x) \<and>
    getTotalInDimSizeLog2 r' \<le> getTotalInDimSizeLog2 r + n"
proof (cases "n < a")
  case True
  have "(2::int) ^ n sdiv 2 ^ a = 0" using True by (simp add: signed_divide_int_def)
  then have "identity1D (2 ^ n sdiv 2 ^ a) kDim d = Some empty_layout" by (simp add: identity1D_def strided1D_def)
  moreover have "(out_len r)(d := max a n) = out_len r" using True a by (simp add: fun_eq_iff)
  ultimately show ?thesis using prod_empty [OF pl] by auto
next
  case False
  have dist: "distinct (getInDimNames r)" "distinct (getOutDimNames r)" using wf_names [OF placedD(1) [OF pl]] by auto
  have e: "(2::int) ^ n sdiv 2 ^ a = 2 ^ (n - a)" using False
    by (simp add: signed_divide_int_def power_diff)
  have lt: "n - a < 31" "getTotalInDimSizeLog2 r + (n - a) \<le> 64" "out_len r d + (n - a) < 31" using n a t False by auto
  obtain r' where r': "times_id (2 ^ (n - a)) kDim d r = Some r'" "placed r'"
    "supremum (getInDimNames r) [kDim] = Some (getInDimNames r')" "supremum (getOutDimNames r) [d] = Some (getOutDimNames r')"
    "getTotalInDimSizeLog2 r' = getTotalInDimSizeLog2 r + (n - a)"
    "in_len r' = (in_len r)(kDim := in_len r kDim + (n - a))" "out_len r' = (out_len r)(d := out_len r d + (n - a))"
    using times_id_placed [OF pl lt, of kDim] by blast
  have "getInDimNames r' = getInDimNames r" "getOutDimNames r' = getOutDimNames r"
    using r'(3,4) supremum_in [OF dist(1), of kDim] supremum_in [OF dist(2) d] ins by simp_all
  moreover have "out_len r d + (n - a) = max a n" using a False by simp
  ultimately show ?thesis using r' unfolding e times_id_def by auto
qed

definition grow :: "linear_layout \<Rightarrow> named_shape \<Rightarrow> dim \<Rightarrow> dim \<Rightarrow> linear_layout option \<Rightarrow> linear_layout option" where
  "grow l shape kDim d acc = do {
     ret \<leftarrow> acc;
     let actual = the (getOutDimSize l d);
     let desired = shape_lookup shape d;
     (if actual > desired \<or> desired mod actual = 0 then Some () else None);
     i \<leftarrow> identity1D (desired sdiv actual) kDim d;
     r \<leftarrow> layout_prod ret i;
     (case getOutDimSize r d of
        Some s \<Rightarrow> if s \<ge> desired then Some r else None
      | None \<Rightarrow> None)
   }"

lemma grow_total:
  assumes w: "wf l" and pl: "placed r" and ins: "getInDimNames r = kDim # rest" and d: "d \<in> set (getOutDimNames l)"
    and outs: "getOutDimNames r = getOutDimNames l"
    and n: "shape_lookup shape d = 2 ^ n" "n < 31" and a: "out_len r d = out_len l d" and t: "getTotalInDimSizeLog2 r + n \<le> 64"
  shows "\<exists>r'. grow l shape kDim d (Some r) = Some r' \<and> placed r' \<and>
    getInDimNames r' = getInDimNames r \<and> getOutDimNames r' = getOutDimNames r \<and>
    out_len r' = (out_len r)(d := max (out_len l d) n) \<and> (\<forall>x. x \<noteq> kDim \<longrightarrow> in_len r' x = in_len r x) \<and>
    getTotalInDimSizeLog2 r' \<le> getTotalInDimSizeLog2 r + n"
proof -
  have dr: "d \<in> set (getOutDimNames r)" using d outs by simp
  obtain r' where r': "do {i \<leftarrow> identity1D (2 ^ n sdiv 2 ^ out_len l d) kDim d; layout_prod r i} = Some r'" "placed r'"
    "getInDimNames r' = getInDimNames r" "getOutDimNames r' = getOutDimNames r"
    "out_len r' = (out_len r)(d := max (out_len l d) n)" "\<forall>x. x \<noteq> kDim \<longrightarrow> in_len r' x = in_len r x"
    "getTotalInDimSizeLog2 r' \<le> getTotalInDimSizeLog2 r + n"
    using grow_step [OF pl ins dr n(2) a t] by blast
  have s: "the (getOutDimSize l d) = 2 ^ out_len l d" using getOutDimSize_len [OF d] by simp
  have s': "getOutDimSize r' d = Some (2 ^ max (out_len l d) n)" using getOutDimSize_len [of d r'] dr r'(4,5) by simp
  have c: "(2::int) ^ n < 2 ^ out_len l d \<or> (2::int) ^ n mod 2 ^ out_len l d = 0"
    by (cases "n < out_len l d") (simp_all add: le_imp_power_dvd mod_eq_0_iff_dvd)
  have le: "(2::int) ^ n \<le> 2 ^ max (out_len l d) n" by (rule power_increasing) simp_all
  obtain i where i: "identity1D (2 ^ n sdiv 2 ^ out_len l d) kDim d = Some i" "layout_prod r i = Some r'"
    using r'(1) by (auto simp: Option.bind_eq_Some_conv)
  have "grow l shape kDim d (Some r) = Some r'"
    using c le i s' by (simp add: grow_def s n(1) Let_def)
  then show ?thesis using r' by blast
qed

lemma grow_placed:
  assumes pl: "placed l" and ins: "getInDimNames l = kDim # rest" and kd: "kDim \<in> {''register'', ''offset''}"
    and len: "length shape = length (outDims l)" and ne: "shape \<noteq> []"
    and sh: "\<And>d. d \<in> set (getOutDimNames l) \<Longrightarrow> shape_lookup shape d = 2 ^ n d \<and> n d < 31"
    and t: "getTotalInDimSizeLog2 l + sum_list (map n (getOutDimNames l)) \<le> 64"
  shows "\<exists>r. ensureLayoutNotSmallerThan l shape = Some r \<and> placed r \<and> getInDimNames r = getInDimNames l \<and>
    getOutDimNames r = getOutDimNames l \<and>
    (\<forall>d. out_len r d = (if d \<in> set (getOutDimNames l) then max (out_len l d) (n d) else out_len l d)) \<and>
    (\<forall>x. x \<noteq> kDim \<longrightarrow> in_len r x = in_len l x) \<and>
    getTotalInDimSizeLog2 r \<le> getTotalInDimSizeLog2 l + sum_list (map n (getOutDimNames l))"
proof -
  have w: "wf l" by (rule placedD(1) [OF pl])
  have loop: "\<exists>r'. fold (grow l shape kDim) ds (Some r) = Some r' \<and> placed r' \<and> getInDimNames r' = getInDimNames l \<and>
      getOutDimNames r' = getOutDimNames l \<and>
      (\<forall>d. out_len r' d = (if d \<in> set ds then max (out_len l d) (n d) else out_len r d)) \<and>
      (\<forall>x. x \<noteq> kDim \<longrightarrow> in_len r' x = in_len r x) \<and>
      getTotalInDimSizeLog2 r' \<le> getTotalInDimSizeLog2 r + sum_list (map n ds)"
    if "placed r" "getInDimNames r = getInDimNames l" "getOutDimNames r = getOutDimNames l"
      "distinct ds" "set ds \<subseteq> set (getOutDimNames l)" "\<forall>d \<in> set ds. out_len r d = out_len l d"
      "getTotalInDimSizeLog2 r + sum_list (map n ds) \<le> 64" for ds r
    using that
  proof (induction ds arbitrary: r)
    case (Cons d ds)
    have d: "d \<in> set (getOutDimNames l)" "out_len r d = out_len l d" using Cons.prems by auto
    have nd: "shape_lookup shape d = 2 ^ n d" "n d < 31" using sh d by auto
    have ri: "getInDimNames r = kDim # rest" using Cons.prems(2) ins by simp
    have tr: "getTotalInDimSizeLog2 r + n d \<le> 64" using Cons.prems(7) by simp
    obtain r1 where r1: "grow l shape kDim d (Some r) = Some r1" "placed r1" "getInDimNames r1 = getInDimNames r"
      "getOutDimNames r1 = getOutDimNames r" "out_len r1 = (out_len r)(d := max (out_len l d) (n d))"
      "\<forall>x. x \<noteq> kDim \<longrightarrow> in_len r1 x = in_len r x" "getTotalInDimSizeLog2 r1 \<le> getTotalInDimSizeLog2 r + n d"
      using grow_total [OF w Cons.prems(1) ri d(1) Cons.prems(3) nd d(2) tr] by blast
    have "\<forall>x \<in> set ds. out_len r1 x = out_len l x" using Cons.prems(4,6) r1(5) by auto
    then obtain r2 where r2: "fold (grow l shape kDim) ds (Some r1) = Some r2" "placed r2" "getInDimNames r2 = getInDimNames l"
      "getOutDimNames r2 = getOutDimNames l" "\<forall>x. out_len r2 x = (if x \<in> set ds then max (out_len l x) (n x) else out_len r1 x)"
      "\<forall>x. x \<noteq> kDim \<longrightarrow> in_len r2 x = in_len r1 x" "getTotalInDimSizeLog2 r2 \<le> getTotalInDimSizeLog2 r1 + sum_list (map n ds)"
      using Cons.IH [OF r1(2)] Cons.prems r1 by auto
    then show ?case using r1 by (intro exI [of _ r2]) auto
  qed simp
  have d: "distinct (getOutDimNames l)" using wf_names [OF w] by simp
  obtain r where "fold (grow l shape kDim) (getOutDimNames l) (Some l) = Some r" "placed r" "getInDimNames r = getInDimNames l"
    "getOutDimNames r = getOutDimNames l"
    "\<forall>d. out_len r d = (if d \<in> set (getOutDimNames l) then max (out_len l d) (n d) else out_len l d)"
    "\<forall>x. x \<noteq> kDim \<longrightarrow> in_len r x = in_len l x"
    "getTotalInDimSizeLog2 r \<le> getTotalInDimSizeLog2 l + sum_list (map n (getOutDimNames l))"
    using loop [OF pl refl refl d subset_refl _ t] by blast
  moreover have "ensureLayoutNotSmallerThan l shape = fold (grow l shape kDim) (getOutDimNames l) (Some l)"
    using len ne ins kd by (auto simp: ensureLayoutNotSmallerThan_def grow_def [abs_def])
  ultimately show ?thesis by auto
qed

end
