(* ===== verification/PlacedShapes.thy ===== *)
theory PlacedShapes
  imports PlacedLayouts
begin

text \<open>
  Shrinking a placed layout to a shape, the layout of the CTAs, and \<open>combineCtaCgaWithShape\<close>: on placed
  layouts it returns, and the sizes of its result are exactly the shape.
\<close>

section \<open>Shrinking to a shape\<close>

definition val :: "basesT \<Rightarrow> dim \<Rightarrow> nat \<Rightarrow> nat \<Rightarrow> int" where
  "val bs d p k = the (map_of bs d) ! p ! k"

definition like :: "basesT \<Rightarrow> basesT \<Rightarrow> bool" where
  "like bs' bs \<longleftrightarrow> map fst bs' = map fst bs \<and>
     (\<forall>d. map_option (map length) (map_of bs' d) = map_option (map length) (map_of bs d))"

lemma like_refl [simp]: "like bs bs"
  by (simp add: like_def)

lemma like_trans: "like a b \<Longrightarrow> like b c \<Longrightarrow> like a c"
  by (simp add: like_def)

lemma map_of_zero_component:
  "map_of (zero_component bs d i k) d' =
     (if d' = d then map_option (\<lambda>vs. vs[i := (vs ! i)[k := 0]]) (map_of bs d) else map_of bs d')"
  unfolding zero_component_def by (induction bs) auto

lemma zero_component_like: "like (zero_component bs d i k) bs"
proof -
  have "map fst (zero_component bs d i k) = map fst bs" by (simp add: zero_component_def case_prod_unfold comp_def)
  moreover have "map length (vs[i := (vs ! i)[k := 0]]) = map length vs" for vs :: "int list list"
    by (cases "i < length vs") (auto simp: map_update list_update_same_conv list_update_beyond)
  ultimately show ?thesis by (simp add: like_def map_of_zero_component option.map_comp comp_def)
qed

lemma val_zero_component:
  assumes "map_of bs d' = Some vs" and "p < length vs" and "k' < length (vs ! p)"
  shows "val (zero_component bs d i k) d' p k' = (if d' = d \<and> p = i \<and> k' = k then 0 else val bs d' p k')"
  using assms by (cases "p = i"; cases "k' = k") (auto simp: val_def map_of_zero_component)

definition hits :: "nat \<Rightarrow> dim \<times> int list list \<Rightarrow> (dim \<times> nat \<times> int) list" where
  "hits k q = map (\<lambda>i. (fst q, i, snd q ! i ! k)) (filter (\<lambda>i. snd q ! i ! k \<noteq> 0) [0..<length (snd q)])"

lemma hits_eq: "[(d, i, b ! k). (i, b) \<leftarrow> enumerate 0 vs, b ! k \<noteq> 0] = hits k (d, vs)"
proof (induction vs rule: rev_induct)
  case (snoc b vs)
  have "filter (\<lambda>i. (vs @ [b]) ! i ! k \<noteq> 0) [0..<length vs] = filter (\<lambda>i. vs ! i ! k \<noteq> 0) [0..<length vs]"
    by (rule filter_cong) (simp_all add: nth_append)
  then have "hits k (d, vs @ [b]) = hits k (d, vs) @ (if b ! k \<noteq> 0 then [(d, length vs, b ! k)] else [])"
    by (simp add: hits_def nth_append)
  then show ?case using snoc by (simp add: enumerate_append_eq)
qed (simp add: hits_def)

lemma sorted_bases_hits: "sorted_bases bs k = sort_key (\<lambda>(_, _, v). - v) (concat (map (hits k) bs))"
  unfolding sorted_bases_def hits_eq by (simp add: case_prod_unfold)

lemma in_hits: "(d, i, v) \<in> set (hits k q) \<longleftrightarrow> d = fst q \<and> i < length (snd q) \<and> v = snd q ! i ! k \<and> v \<noteq> 0"
  by (auto simp: hits_def)

lemma sorted_bases_set:
  assumes "distinct (map fst bs)"
  shows "(d, i, v) \<in> set (sorted_bases bs k) \<longleftrightarrow>
    (\<exists>vs. map_of bs d = Some vs \<and> i < length vs \<and> v = val bs d i k \<and> v \<noteq> 0)"
proof -
  have "(d, i, v) \<in> set (sorted_bases bs k) \<longleftrightarrow> (\<exists>vs. (d, vs) \<in> set bs \<and> i < length vs \<and> v = vs ! i ! k \<and> v \<noteq> 0)"
    by (auto simp: sorted_bases_hits in_hits) (metis fst_conv snd_conv in_hits)
  then show ?thesis using map_of_eq_Some_iff [OF assms, of d] by (auto simp: val_def) force+
qed

lemma sorted_bases_distinct:
  assumes "distinct (map fst bs)" shows "distinct (sorted_bases bs k)"
proof -
  have "distinct (concat (map (hits k) bs))"
    using assms
  proof (induction bs)
    case (Cons q bs)
    have "set (hits k q) \<inter> set (concat (map (hits k) bs)) = {}"
    proof (intro equals0I)
      fix x assume x: "x \<in> set (hits k q) \<inter> set (concat (map (hits k) bs))"
      obtain d i v where "x = (d, i, v)" by (cases x)
      then obtain q' where "d = fst q" "q' \<in> set bs" "d = fst q'" using x by (auto simp: in_hits)
      then show False using Cons.prems by force
    qed
    moreover have "distinct (hits k q)" by (auto simp: hits_def distinct_map intro!: inj_onI)
    ultimately show ?case using Cons by simp
  qed simp
  then show ?thesis by (simp add: sorted_bases_hits)
qed

text \<open>The candidates at one out-dim of a placed layout are its powers of two, the largest first.\<close>

lemma sorted_bases_placed:
  assumes pl: "placed l" and lk: "like bs (bases l)" and k: "k < length (outDims l)"
    and v: "\<And>d p. p < in_len l d \<Longrightarrow> val bs d p k = entry l d p (getOutDimNames l ! k)"
    and site: "\<And>j. j < out_len l (getOutDimNames l ! k) \<Longrightarrow> entry l (sd j) (sp j) (getOutDimNames l ! k) = 2 ^ j"
  shows "sorted_bases bs k = map (\<lambda>j. (sd j, sp j, 2 ^ j)) (rev [0..<out_len l (getOutDimNames l ! k)])" (is "_ = ?M")
proof -
  let ?od = "getOutDimNames l ! k"
  have dist: "distinct (map fst bs)" using wf_names [OF placedD(1) [OF pl]] lk by (simp add: like_def getInDimNames_def)
  have len: "(\<exists>vs. map_of bs d = Some vs \<and> i < length vs) \<longleftrightarrow> i < in_len l d" for d i
  proof -
    have "map_option (map length) (map_of bs d) = map_option (map length) (map_of (bases l) d)" using lk by (simp add: like_def)
    then have "map_option length (map_of bs d) = map_option length (map_of (bases l) d)"
      by (cases "map_of bs d"; cases "map_of (bases l) d") (auto dest: map_eq_imp_length_eq)
    then show ?thesis by (cases "map_of bs d"; cases "map_of (bases l) d") (auto simp: in_len_def)
  qed
  have "x \<in> set (sorted_bases bs k) \<longleftrightarrow> x \<in> set ?M" for x
  proof -
    obtain d i v where x: "x = (d, i, v)" by (cases x)
    have "x \<in> set (sorted_bases bs k) \<longleftrightarrow> i < in_len l d \<and> v = entry l d i ?od \<and> v \<noteq> 0"
      unfolding x sorted_bases_set [OF dist] using assms(4) len by metis
    also have "\<dots> \<longleftrightarrow> (\<exists>j < out_len l ?od. d = sd j \<and> i = sp j \<and> v = 2 ^ j)"
    proof
      assume h: "i < in_len l d \<and> v = entry l d i ?od \<and> v \<noteq> 0"
      then obtain j where j: "j < out_len l ?od" "v = 2 ^ j" using placedD(2) [OF pl, of d i ?od] by auto
      then show "\<exists>j < out_len l ?od. d = sd j \<and> i = sp j \<and> v = 2 ^ j"
        using placedD(5) [OF pl j(1) site [OF j(1)], of d i] h by auto
    next
      assume "\<exists>j < out_len l ?od. d = sd j \<and> i = sp j \<and> v = 2 ^ j"
      then obtain j where j: "j < out_len l ?od" "d = sd j" "i = sp j" "v = 2 ^ j" by blast
      then have "entry l d i ?od = v" using site [OF j(1)] by simp
      moreover from this have "i < in_len l d" using j(4) by (auto simp: entry_def split: if_splits)
      ultimately show "i < in_len l d \<and> v = entry l d i ?od \<and> v \<noteq> 0" using j by simp
    qed
    finally show ?thesis by (auto simp: x)
  qed
  then have s: "set (sorted_bases bs k) = set ?M" by blast
  have dm: "distinct ?M" by (auto simp: distinct_map intro!: inj_onI)
  have "mset (sorted_bases bs k) = mset ?M"
    using s dm sorted_bases_distinct [OF dist] by (metis set_eq_iff_mset_eq_distinct)
  moreover have "inj_on (\<lambda>(_, _, v). - v) (set (sorted_bases bs k))"
    unfolding s by (auto intro!: inj_onI)
  moreover have "sorted (map (\<lambda>(_, _, v). - v) ?M)"
    by (simp add: comp_def sorted_wrt_map sorted_wrt_rev flip: rev_map)
  ultimately have "sort_key (\<lambda>(_, _, v). - v) (sorted_bases bs k) = ?M" by (rule sort_key_inj_key_eq)
  moreover have "sort_key (\<lambda>(_, _, v). - v) (sorted_bases bs k) = sorted_bases bs k"
    unfolding sorted_bases_hits by (rule sort_key_id_if_sorted) (rule sorted_sort_key)
  ultimately show ?thesis by simp
qed

text \<open>The loop at one out-dim zeroes the components from the wanted size on.\<close>

lemma shrink_dim_zeroes:
  "n \<le> a \<Longrightarrow> shrink_dim True k (2 ^ n) (map (\<lambda>j. (sd j, sp j, 2 ^ j)) (rev [0..<a])) (2 ^ a) (bs, dr) =
     (fold (\<lambda>j bs. zero_component bs (sd j) (sp j) k) (rev [n..<a]) bs, dr)"
proof (induction a arbitrary: bs)
  case (Suc a)
  show ?case
  proof (cases "n = Suc a")
    case False
    then have "n \<le> a" "\<not> (2::int) ^ Suc a \<le> 2 ^ n" using Suc.prems by (simp_all del: power_Suc)
    then show ?thesis using Suc.IH by simp
  qed simp
qed simp

lemma fold_zero_component:
  assumes "map_of bs d = Some vs" and "p < length vs" and "k' < length (vs ! p)"
  shows "like (fold (\<lambda>j bs. zero_component bs (sd j) (sp j) k) js bs) bs"
    "val (fold (\<lambda>j bs. zero_component bs (sd j) (sp j) k) js bs) d p k' =
       (if k' = k \<and> (\<exists>j \<in> set js. sd j = d \<and> sp j = p) then 0 else val bs d p k')"
proof -
  have "like (fold (\<lambda>j bs. zero_component bs (sd j) (sp j) k) js bs) bs \<and>
    val (fold (\<lambda>j bs. zero_component bs (sd j) (sp j) k) js bs) d p k' =
       (if k' = k \<and> (\<exists>j \<in> set js. sd j = d \<and> sp j = p) then 0 else val bs d p k')"
    using assms
  proof (induction js arbitrary: bs vs)
    case (Cons j js)
    let ?b = "zero_component bs (sd j) (sp j) k"
    have lk: "like ?b bs" by (rule zero_component_like)
    have "map_option (map length) (map_of ?b d) = Some (map length vs)" using lk Cons.prems(1) by (simp add: like_def)
    then obtain vs' where vs': "map_of ?b d = Some vs'" "map length vs' = map length vs" by blast
    have len: "length vs' = length vs" by (metis vs'(2) length_map)
    have "length (vs' ! p) = length (vs ! p)" using vs'(2) Cons.prems(2) len by (metis nth_map)
    then have p: "p < length vs'" "k' < length (vs' ! p)" using Cons.prems len by auto
    show ?case using Cons.IH [OF vs'(1) p] lk val_zero_component [OF Cons.prems, of "sd j" "sp j" k]
      by (auto intro: like_trans)
  qed simp
  then show "like (fold (\<lambda>j bs. zero_component bs (sd j) (sp j) k) js bs) bs"
    "val (fold (\<lambda>j bs. zero_component bs (sd j) (sp j) k) js bs) d p k' =
       (if k' = k \<and> (\<exists>j \<in> set js. sd j = d \<and> sp j = p) then 0 else val bs d p k')" by auto
qed

lemma like_fold_zero: "like (fold (\<lambda>j bs. zero_component bs (sd j) (sp j) k) js bs) bs"
  by (induction js arbitrary: bs) (auto intro: like_trans zero_component_like)

definition shrink_step :: "linear_layout \<Rightarrow> named_shape \<Rightarrow> nat \<times> dim \<Rightarrow> (basesT \<times> nat set) option \<Rightarrow> (basesT \<times> nat set) option" where
  "shrink_step l shape = (\<lambda>(k, d) acc. do {
       (bs, dropped) \<leftarrow> acc;
       let actual = the (getOutDimSize l d);
       let desired = shape_lookup shape d;
       if actual \<le> desired then Some (bs, dropped)
       else if desired = 0 \<or> actual mod desired \<noteq> 0 then None
       else let cands = sorted_bases bs k
            in if list_all (\<lambda>(_, _, v). is_pow2_32 v) cands
               then Some (shrink_dim True k desired cands actual (bs, dropped)) else None
     })"

lemma shrink_dims_steps: "shrink_dims l shape True = fold (shrink_step l shape) (enumerate 0 (getOutDimNames l)) (Some (bases l, {}))"
  by (simp add: shrink_dims_def shrink_step_def)

lemma shrink_step_placed:
  assumes pl: "placed l" and lk: "like bs (bases l)" and k: "k < length (outDims l)" and od: "od = getOutDimNames l ! k"
    and n: "shape_lookup shape od = 2 ^ n" "n < 31"
    and v: "\<And>d p. p < in_len l d \<Longrightarrow> val bs d p k = entry l d p od"
  shows "\<exists>bs'. shrink_step l shape (k, od) (Some (bs, dr)) = Some (bs', dr) \<and> like bs' bs \<and>
    (\<forall>d p k'. p < in_len l d \<and> k' < length (outDims l) \<longrightarrow>
       val bs' d p k' = (if k' = k \<and> 2 ^ n \<le> entry l d p od then 0 else val bs d p k'))"
proof -
  let ?a = "out_len l od"
  have w: "wf l" by (rule placedD(1) [OF pl])
  have odin: "od \<in> set (getOutDimNames l)" using k od by (simp add: getOutDimNames_def)
  have act: "the (getOutDimSize l od) = 2 ^ ?a" using getOutDimSize_len [OF odin] by simp
  have a31: "?a < 31" by (rule out_len_lt [OF w])
  have small: "entry l d p od < 2 ^ ?a" "0 \<le> entry l d p od" for d p using entry_fits [OF w, of d p od] by (auto simp: fits_width_def)
  show ?thesis
  proof (cases "?a \<le> n")
    case True
    have "(2::int) ^ ?a \<le> 2 ^ n" using True by simp
    then have "\<not> 2 ^ n \<le> entry l d p od" for d p using small(1) [of d p] by linarith
    then show ?thesis using True act n by (intro exI [of _ bs]) (simp add: shrink_step_def Let_def)
  next
    case False
    define sd where "sd = (\<lambda>j. SOME d. \<exists>p. entry l d p od = 2 ^ j)"
    define sp where "sp = (\<lambda>j. SOME p. entry l (sd j) p od = 2 ^ j)"
    have site: "entry l (sd j) (sp j) od = 2 ^ j" if j: "j < ?a" for j
    proof -
      have "\<exists>d p. entry l d p od = 2 ^ j" using placedD(4) [OF pl j] by blast
      then have "\<exists>p. entry l (sd j) p od = 2 ^ j" unfolding sd_def by (rule someI_ex)
      then show ?thesis unfolding sp_def by (rule someI_ex)
    qed
    have c: "sorted_bases bs k = map (\<lambda>j. (sd j, sp j, 2 ^ j)) (rev [0..<?a])"
      unfolding od using v site od by (intro sorted_bases_placed [OF pl lk k]) auto
    let ?b = "fold (\<lambda>j bs. zero_component bs (sd j) (sp j) k) (rev [n..<?a]) bs"
    have "list_all (\<lambda>(_, _, v). is_pow2_32 v) (sorted_bases bs k)" using c a31 by (simp add: list_all_iff)
    moreover have "(2::int) ^ ?a mod 2 ^ n = 0" "\<not> (2::int) ^ ?a \<le> 2 ^ n"
      using False by (simp_all add: mod_eq_0_iff_dvd le_imp_power_dvd)
    moreover have "n \<le> ?a" using False by simp
    ultimately have r: "shrink_step l shape (k, od) (Some (bs, dr)) = Some (?b, dr)"
      by (simp add: shrink_step_def Let_def act n c shrink_dim_zeroes)
    have "val ?b d p k' = (if k' = k \<and> 2 ^ n \<le> entry l d p od then 0 else val bs d p k')"
      if p: "p < in_len l d" and k': "k' < length (outDims l)" for d p k'
    proof -
      obtain vs0 where vs0: "map_of (bases l) d = Some vs0" "p < length vs0" using p by (auto simp: in_len_def split: option.splits)
      have "map_option (map length) (map_of bs d) = Some (map length vs0)" using lk vs0 by (simp add: like_def)
      then obtain vs where vs: "map_of bs d = Some vs" "map length vs = map length vs0" by blast
      have len: "length vs = length vs0" by (metis vs(2) length_map)
      have "vs0 ! p \<in> set (columns l)" using vs0 map_of_SomeD nth_mem by (fastforce simp: in_columns)
      then have "length (vs0 ! p) = length (outDims l)" using wf_wide [OF w] by (simp add: wide_def list_all_iff)
      moreover have "length (vs ! p) = length (vs0 ! p)" using vs(2) vs0(2) len by (metis nth_map)
      ultimately have q: "p < length vs" "k' < length (vs ! p)" using vs0 len k' by auto
      have "(\<exists>j \<in> set (rev [n..<?a]). sd j = d \<and> sp j = p) \<longleftrightarrow> 2 ^ n \<le> entry l d p od"
      proof
        assume "\<exists>j \<in> set (rev [n..<?a]). sd j = d \<and> sp j = p"
        then obtain j where "n \<le> j" "j < ?a" "sd j = d" "sp j = p" by auto
        then show "2 ^ n \<le> entry l d p od" using site [of j] by simp
      next
        assume h: "2 ^ n \<le> entry l d p od"
        moreover have "(0::int) < 2 ^ n" by simp
        ultimately have "entry l d p od \<noteq> 0" by linarith
        then obtain j where j: "j < ?a" "entry l d p od = 2 ^ j" using placedD(2) [OF pl, of d p od] by auto
        then have "n \<le> j" using h by simp
        moreover have "d = sd j \<and> p = sp j" using placedD(5) [OF pl j(1) site [OF j(1)] j(2)] .
        ultimately show "\<exists>j \<in> set (rev [n..<?a]). sd j = d \<and> sp j = p" using j by auto
      qed
      then show ?thesis using fold_zero_component(2) [OF vs(1) q, of sd sp k "rev [n..<?a]"] by simp
    qed
    then show ?thesis using r like_fold_zero by blast
  qed
qed

lemma shrink_dims_placed:
  assumes pl: "placed l" and sh: "\<And>d. d \<in> set (getOutDimNames l) \<Longrightarrow> shape_lookup shape d = 2 ^ n d \<and> n d < 31"
  shows "\<exists>bs. shrink_dims l shape True = Some (bs, {}) \<and> like bs (bases l) \<and>
    (\<forall>d p k. p < in_len l d \<and> k < length (outDims l) \<longrightarrow>
       val bs d p k = (let od = getOutDimNames l ! k in if 2 ^ n od \<le> entry l d p od then 0 else entry l d p od))"
proof -
  let ?N = "getOutDimNames l"
  have w: "wf l" by (rule placedD(1) [OF pl])
  have orig: "val (bases l) d p k = entry l d p (?N ! k)" if "p < in_len l d" "k < length (outDims l)" for d p k
    using that entry_nth [OF w, of d _ p k] by (auto simp: val_def in_len_def split: option.splits)
  have loop: "\<exists>bs. fold (\<lambda>k. shrink_step l shape (k, ?N ! k)) [0..<m] (Some (bases l, {})) = Some (bs, {}) \<and> like bs (bases l) \<and>
      (\<forall>d p k. p < in_len l d \<and> k < length (outDims l) \<longrightarrow>
         val bs d p k = (if k < m \<and> 2 ^ n (?N ! k) \<le> entry l d p (?N ! k) then 0 else entry l d p (?N ! k)))"
    if "m \<le> length (outDims l)" for m
    using that
  proof (induction m)
    case 0
    then show ?case using orig by simp
  next
    case (Suc m)
    obtain bs where bs: "fold (\<lambda>k. shrink_step l shape (k, ?N ! k)) [0..<m] (Some (bases l, {})) = Some (bs, {})" "like bs (bases l)"
      "\<And>d p k. p < in_len l d \<Longrightarrow> k < length (outDims l) \<Longrightarrow>
         val bs d p k = (if k < m \<and> 2 ^ n (?N ! k) \<le> entry l d p (?N ! k) then 0 else entry l d p (?N ! k))"
      using Suc by auto
    have m: "m < length (outDims l)" using Suc.prems by simp
    then have "?N ! m \<in> set ?N" by (simp add: getOutDimNames_def)
    then have nm: "shape_lookup shape (?N ! m) = 2 ^ n (?N ! m)" "n (?N ! m) < 31" using sh by auto
    obtain bs' where bs': "shrink_step l shape (m, ?N ! m) (Some (bs, {})) = Some (bs', {})" "like bs' bs"
      "\<forall>d p k'. p < in_len l d \<and> k' < length (outDims l) \<longrightarrow>
         val bs' d p k' = (if k' = m \<and> 2 ^ n (?N ! m) \<le> entry l d p (?N ! m) then 0 else val bs d p k')"
    proof -
      have "val bs d p m = entry l d p (?N ! m)" if "p < in_len l d" for d p using bs(3) [OF that m] by simp
      from shrink_step_placed [OF pl bs(2) m refl nm this] show thesis using that by blast
    qed
    have "like bs' (bases l)" using like_trans bs(2) bs'(2) by blast
    moreover have "val bs' d p k = (if k < Suc m \<and> 2 ^ n (?N ! k) \<le> entry l d p (?N ! k) then 0 else entry l d p (?N ! k))"
      if "p < in_len l d" "k < length (outDims l)" for d p k
      using that bs' bs(3) [of p d k] by (cases "k = m") auto
    ultimately show ?case using bs(1) bs'(1) by simp
  qed
  have "enumerate 0 ?N = map (\<lambda>k. (k, ?N ! k)) [0..<length (outDims l)]"
    by (rule nth_equalityI) (simp_all add: nth_enumerate_eq, simp_all add: getOutDimNames_def)
  then have "shrink_dims l shape True = fold (\<lambda>k. shrink_step l shape (k, ?N ! k)) [0..<length (outDims l)] (Some (bases l, {}))"
    by (simp add: shrink_dims_steps fold_map comp_def)
  then show ?thesis using loop [OF order_refl] by (auto simp: Let_def)
qed

lemma like_in_len:
  assumes "like bs (bases l)"
  shows "in_len \<lparr>bases = bs, outDims = outs, rank = r\<rparr> = in_len l"
    "getInDimNames \<lparr>bases = bs, outDims = outs, rank = r\<rparr> = getInDimNames l"
proof -
  show "getInDimNames \<lparr>bases = bs, outDims = outs, rank = r\<rparr> = getInDimNames l"
    using assms by (simp add: like_def getInDimNames_def)
  have "map_option (map length) (map_of bs d) = map_option (map length) (map_of (bases l) d)" for d
    using assms by (simp add: like_def)
  then have "map_option length (map_of bs d) = map_option length (map_of (bases l) d)" for d
    by (cases "map_of bs d"; cases "map_of (bases l) d") (metis map_eq_imp_length_eq option.simps(3,9) option.sel option.simps(8))+
  then show "in_len \<lparr>bases = bs, outDims = outs, rank = r\<rparr> = in_len l"
    by (intro ext) (simp add: in_len_def, metis (no_types, lifting) option.case_eq_if option.map_disc_iff option.map_sel)
qed

lemma min_pow: "min ((2::int) ^ a) (2 ^ n) = 2 ^ min a n"
  by (cases "a \<le> n") (simp_all add: min_def)

lemma shrunk_data:
  assumes pl: "placed l" and lk: "like bs (bases l)"
    and sh: "\<And>d. d \<in> set (getOutDimNames l) \<Longrightarrow> shape_lookup shape d = 2 ^ n d \<and> n d < 31"
    and v: "\<And>d p k. p < in_len l d \<Longrightarrow> k < length (outDims l) \<Longrightarrow>
       val bs d p k = (let od = getOutDimNames l ! k in if 2 ^ n od \<le> entry l d p od then 0 else entry l d p od)"
  defines "outs \<equiv> map (\<lambda>(d, s). (d, min s (shape_lookup shape d))) (outDims l)"
  shows "layout_data \<lparr>bases = bs, outDims = outs, rank = 0\<rparr>" "map fst outs = getOutDimNames l"
    "out_len \<lparr>bases = bs, outDims = outs, rank = 0\<rparr> od = (if od \<in> set (getOutDimNames l) then min (out_len l od) (n od) else 0)"
proof -
  let ?r = "\<lparr>bases = bs, outDims = outs, rank = 0\<rparr>" and ?N = "getOutDimNames l"
  have w: "wf l" by (rule placedD(1) [OF pl])
  have dist: "distinct (getInDimNames l)" "distinct ?N" using wf_names [OF w] by auto
  show fst: "map fst outs = ?N" by (simp add: outs_def getOutDimNames_def case_prod_unfold comp_def)
  then have N: "getOutDimNames ?r = ?N" by (simp add: getOutDimNames_def)
  have size: "outs ! k = (?N ! k, 2 ^ min (out_len l (?N ! k)) (n (?N ! k)))" if k: "k < length (outDims l)" for k
  proof -
    have "?N ! k \<in> set ?N" using k by (simp add: getOutDimNames_def)
    then have "shape_lookup shape (?N ! k) = 2 ^ n (?N ! k)" using sh by simp
    moreover have "snd (outDims l ! k) = 2 ^ out_len l (?N ! k)"
      using wf_out_pow [OF w k] out_len_nth [OF dist(2) k] k by (simp add: out_widths_def case_prod_unfold)
    ultimately show ?thesis using k by (simp add: outs_def case_prod_unfold min_pow getOutDimNames_def)
  qed
  have lo: "length outs = length (outDims l)" by (simp add: outs_def)
  have m31: "min (out_len l od) (n od) < 31" for od using out_len_lt [OF w, of od] by simp
  have ol: "out_len ?r od = (if od \<in> set ?N then min (out_len l od) (n od) else 0)" for od
  proof (cases "od \<in> set ?N")
    case True
    then obtain k where k: "k < length (outDims l)" "od = ?N ! k" by (auto simp: in_set_conv_nth getOutDimNames_def)
    have "(od, 2 ^ min (out_len l od) (n od)) \<in> set outs" using size [OF k(1)] k lo nth_mem [of k outs] by simp
    then have "map_of outs od = Some (2 ^ min (out_len l od) (n od))" using fst dist(2) by (simp add: map_of_is_SomeI)
    moreover have "min (out_len l od) (n od) < 32" using m31 [of od] by simp
    ultimately show ?thesis using True by (simp add: out_len_def [of ?r])
  qed (use N out_len_absent in auto)
  then show "out_len ?r od = (if od \<in> set ?N then min (out_len l od) (n od) else 0)" .
  have p: "list_all (\<lambda>(_, s). small_pow s) outs"
    unfolding list_all_length using size m31 lo by (auto simp: small_pow_iff)
  have ti: "getTotalInDimSizeLog2 ?r = getTotalInDimSizeLog2 l"
    using like_in_len [OF lk] dist total_in_len [of ?r] total_in_len [of l] by simp
  have "getTotalOutDimSizeLog2 ?r \<le> getTotalOutDimSizeLog2 l"
    using total_out_len [of ?r] total_out_len [of l] dist N ol by (auto intro: sum_list_mono)
  then have to: "getTotalOutDimSizeLog2 ?r \<le> 64" using wf_dims [OF w] by simp
  have "good_column outs b" if b: "b \<in> set (columns ?r)" for b
  proof -
    obtain d vs where dv: "(d, vs) \<in> set bs" "b \<in> set vs" using b by (auto simp: in_columns)
    obtain q where q: "q < length vs" "vs ! q = b" using dv(2) by (auto simp: in_set_conv_nth)
    have m: "map_of bs d = Some vs" using dv(1) dist(1) lk by (simp add: like_def getInDimNames_def)
    have "map_option (map length) (map_of bs d) = map_option (map length) (map_of (bases l) d)" using lk by (simp add: like_def)
    then obtain vs0 where vs0: "map_of (bases l) d = Some vs0" "map length vs0 = map length vs"
      using m by (cases "map_of (bases l) d") auto
    have len: "length vs0 = length vs" by (metis vs0(2) length_map)
    have "vs0 ! q \<in> set (columns l)" using vs0(1) len q map_of_SomeD nth_mem by (fastforce simp: in_columns)
    then have "length (vs0 ! q) = length (outDims l)" using wf_wide [OF w] by (simp add: wide_def list_all_iff)
    then have lb: "length b = length outs" using vs0(2) q len lo by (metis nth_map)
    have iq: "q < in_len l d" using vs0(1) len q by (simp add: in_len_def)
    have "0 \<le> b ! k \<and> b ! k < snd (outs ! k)" if k: "k < length b" for k
    proof -
      let ?od = "?N ! k"
      have k': "k < length (outDims l)" using k lb lo by simp
      have "b ! k = (if 2 ^ n ?od \<le> entry l d q ?od then 0 else entry l d q ?od)"
        using v [OF iq k'] m q by (simp add: val_def Let_def)
      moreover have "0 \<le> entry l d q ?od" "entry l d q ?od < 2 ^ out_len l ?od"
        using entry_fits [OF w, of d q ?od] by (auto simp: fits_width_def)
      ultimately show ?thesis using size [OF k'] by (auto simp: min_def)
    qed
    then show ?thesis using lb by (simp add: good_column_nth)
  qed
  then show "layout_data ?r"
    using like_in_len [OF lk] dist N p ti to wf_dims [OF w] by (simp add: layout_data_def list_all_iff)
qed

lemma shrink_placed:
  assumes pl: "placed l" and len: "length shape = length (outDims l)" and ne: "shape \<noteq> []"
    and sh: "\<And>d. d \<in> set (getOutDimNames l) \<Longrightarrow> shape_lookup shape d = 2 ^ n d \<and> n d < 31"
  shows "\<exists>r. ensureLayoutNotLargerThan l shape True = Some r \<and> placed r \<and> getInDimNames r = getInDimNames l \<and>
    getOutDimNames r = getOutDimNames l \<and> in_len r = in_len l \<and>
    (\<forall>od. out_len r od = (if od \<in> set (getOutDimNames l) then min (out_len l od) (n od) else 0)) \<and>
    getTotalInDimSizeLog2 r = getTotalInDimSizeLog2 l"
proof -
  let ?N = "getOutDimNames l"
  have w: "wf l" by (rule placedD(1) [OF pl])
  have dist: "distinct (getInDimNames l)" "distinct ?N" using wf_names [OF w] by auto
  obtain bs where bs: "shrink_dims l shape True = Some (bs, {})" "like bs (bases l)"
    "\<And>d p k. p < in_len l d \<Longrightarrow> k < length (outDims l) \<Longrightarrow>
       val bs d p k = (let od = ?N ! k in if 2 ^ n od \<le> entry l d p od then 0 else entry l d p od)"
    using shrink_dims_placed [OF pl sh] by blast
  let ?o = "map (\<lambda>(d, s). (d, min s (shape_lookup shape d))) (outDims l)"
  note data = shrunk_data [OF pl bs(2) sh bs(3)]
  obtain r where r: "mkLayout bs ?o False = Some r" "wf r" "bases r = bs" "outDims r = ?o"
    using mkLayout_total [OF data(1), of False] by blast
  have eq: "in_len r = in_len \<lparr>bases = bs, outDims = ?o, rank = 0\<rparr>" "out_len r = out_len \<lparr>bases = bs, outDims = ?o, rank = 0\<rparr>"
    "getInDimNames r = getInDimNames \<lparr>bases = bs, outDims = ?o, rank = 0\<rparr>"
    using r(3,4) by (simp_all add: fun_eq_iff in_len_def out_len_def getInDimNames_def)
  have il: "in_len r = in_len l" "getInDimNames r = getInDimNames l" using eq like_in_len [OF bs(2)] by simp_all
  have ol: "out_len r od = (if od \<in> set ?N then min (out_len l od) (n od) else 0)" for od using eq(2) data(3) by simp
  have N: "getOutDimNames r = ?N" using r(4) data(2) by (simp add: getOutDimNames_def)
  have e: "entry r d p od = (if 2 ^ n od \<le> entry l d p od then 0 else entry l d p od)" for d p od
  proof (cases "p < in_len l d \<and> od \<in> set ?N")
    case True
    then obtain k where k: "k < length (outDims l)" "od = ?N ! k" by (auto simp: in_set_conv_nth getOutDimNames_def)
    have "p < in_len r d" using True il by simp
    then obtain vs where vs: "map_of bs d = Some vs" "p < length vs" using r(3) by (auto simp: in_len_def split: option.splits)
    have "entry r d p od = vs ! p ! k" using entry_nth [OF r(2), of d vs p k] vs k r(3,4) N by simp
    then show ?thesis using bs(3) [of p d k] True k vs by (simp add: val_def Let_def)
  next
    case False
    then have "entry l d p od = 0" "entry r d p od = 0" using il N by (auto simp: entry_def hasOutDim_def)
    then show ?thesis by simp
  qed
  have "placed r"
  proof (rule placedI [OF r(2)])
    show "entry r d p od \<noteq> 0 \<Longrightarrow> \<exists>k. entry r d p od = 2 ^ k" for d p od
      using placedD(2) [OF pl, of d p od] by (auto simp: e split: if_splits)
    show "entry r d p od \<noteq> 0 \<Longrightarrow> entry r d p od' \<noteq> 0 \<Longrightarrow> od' = od" for d p od od'
      using placedD(3) [OF pl, of d p od od'] by (auto simp: e split: if_splits)
    fix od k assume k: "k < out_len r od"
    then have k': "k < out_len l od" "k < n od" using ol [of od] by (auto split: if_splits)
    obtain d p where "entry l d p od = 2 ^ k" using placedD(4) [OF pl k'(1)] by blast
    then show "\<exists>d p. entry r d p od = 2 ^ k" using k'(2) by (intro exI [of _ d] exI [of _ p]) (simp add: e)
    have old: "entry l d p od = 2 ^ k" if "entry r d p od = 2 ^ k" for d p
      using that by (auto simp: e split: if_splits)
    show "d' = d \<and> p' = p" if "entry r d p od = 2 ^ k" "entry r d' p' od = 2 ^ k" for d p d' p'
      using placedD(5) [OF pl k'(1) old [OF that(1)] old [OF that(2)]] .
  qed
  moreover have "ensureLayoutNotLargerThan l shape True = Some r"
    using len ne bs(1) r(1) by (simp add: ensureLayoutNotLargerThan_def)
  moreover have "getTotalInDimSizeLog2 r = getTotalInDimSizeLog2 l"
    using il dist wf_names [OF r(2)] by (simp add: total_in_len)
  ultimately show ?thesis using il ol N by blast
qed

end
