(* ===== verification/PlacedCombine.thy ===== *)
theory PlacedCombine
  imports PlacedShapes
begin

text \<open>
  The layout of the CTAs of a cluster and \<open>combineCtaCgaWithShape\<close>: on a placed layout over the dims of
  the shape it returns a placed layout whose sizes are exactly the shape.
\<close>

section \<open>Names and orders\<close>

definition digits_value :: "string \<Rightarrow> nat" where
  "digits_value s = foldl (\<lambda>a c. 10 * a + (of_char c - 48)) 0 s"

lemma digits_value: "digits_value (digits_nat n) = n"
proof (induction n rule: digits_nat.induct)
  case (1 n)
  show ?case
  proof (cases "n < 10")
    case True
    then show ?thesis by (simp add: digits_value_def digits_nat.simps [of n])
  next
    case False
    have "digits_value (digits_nat n) = 10 * digits_value (digits_nat (n div 10)) + n mod 10"
      using False by (simp add: digits_value_def digits_nat.simps [of n])
    then show ?thesis using 1 False by simp
  qed
qed

lemma standard_names [simp]:
  "length (standardOutDimNames r) = r" "distinct (standardOutDimNames r)"
proof -
  have "inj digits_nat" by (metis digits_value injI)
  then show "distinct (standardOutDimNames r)"
    by (auto simp: standardOutDimNames_def distinct_map intro!: inj_onI dest: injD)
qed (simp_all add: standardOutDimNames_def)

lemma standard_names_eq: "i < r \<Longrightarrow> j < r \<Longrightarrow> standardOutDimNames r ! i = standardOutDimNames r ! j \<longleftrightarrow> i = j"
  using standard_names(2) [of r] by (simp add: nth_eq_iff_index_eq)

lemma isPermutation_iff: "isPermutationOfIota ord \<longleftrightarrow> distinct ord \<and> set ord = {..<length ord}"
proof
  assume "isPermutationOfIota ord"
  then have "sort ord = [0..<length ord]"
    by (intro nth_equalityI) (auto simp: isPermutationOfIota_def isIota_def list_all_iff)
  then show "distinct ord \<and> set ord = {..<length ord}"
    by (metis atLeast0LessThan distinct_sort distinct_upt set_sort set_upt)
next
  assume p: "distinct ord \<and> set ord = {..<length ord}"
  then have "mset ord = mset [0..<length ord]"
    by (intro iffD1 [OF set_eq_iff_mset_eq_distinct]) (auto simp: atLeast0LessThan)
  then have "sort ord = [0..<length ord]" by (intro properties_for_sort) simp_all
  then show "isPermutationOfIota ord" by (simp add: isPermutationOfIota_def isIota_def list_all_iff)
qed

section \<open>The CTAs of a cluster\<close>

text \<open>The cluster is a grid of powers of two, and every dimension is split over a part of its CTAs.\<close>

definition cga_ok :: "cta_layout \<Rightarrow> nat \<Rightarrow> (nat \<Rightarrow> nat) \<Rightarrow> (nat \<Rightarrow> nat) \<Rightarrow> bool" where
  "cga_ok c r s n \<longleftrightarrow> length (CTAOrder c) = r \<and> length (CTASplitNum c) = r \<and> length (CTAsPerCGA c) = r \<and>
     isPermutationOfIota (CTAOrder c) \<and>
     (\<forall>d < r. CTASplitNum c ! d = 2 ^ s d \<and> CTAsPerCGA c ! d = 2 ^ n d \<and> s d \<le> n d \<and> n d < 31)"

definition cga_step :: "cta_layout \<Rightarrow> nat \<Rightarrow> linear_layout option \<Rightarrow> linear_layout option" where
  "cga_step layout d acc = do {
     l \<leftarrow> acc;
     (if d < length (CTASplitNum layout) \<and> d < length (CTAsPerCGA layout) \<and> d < length (CTAOrder layout) then Some () else None);
     let split = CTASplitNum layout ! d;
     let ctas = CTAsPerCGA layout ! d;
     (if split \<noteq> 0 \<and> ctas mod split = 0 then Some () else None);
     i1 \<leftarrow> identity1D split ''block'' (standardOutDimNames (length (CTAOrder layout)) ! d);
     z \<leftarrow> zeros1D (ctas div split) ''block'' (standardOutDimNames (length (CTAOrder layout)) ! d) 1;
     iz \<leftarrow> layout_prod i1 z;
     layout_prod l iz
   }"

lemma makeCga_steps:
  "makeCgaLayout c = Option.bind (fold (cga_step c) (CTAOrder c) (Some empty_layout))
     (\<lambda>ret. transposeOuts ret (standardOutDimNames (length (CTAOrder c))))"
proof -
  have "fold (cga_step c) (CTAOrder c) x = fold (\<lambda>i. cga_step c (CTAOrder c ! i)) [0..<length (CTAOrder c)] x" for x
    using fold_map [of "cga_step c" "(!) (CTAOrder c)" "[0..<length (CTAOrder c)]"] by (simp add: map_nth comp_def)
  then show ?thesis by (simp add: makeCgaLayout_def cga_step_def [abs_def] Let_def)
qed

text \<open>One dimension: its split moves it, the remaining CTAs hold copies.\<close>

lemma split_and_copies:
  assumes n: "s \<le> n" "n < 31"
  shows "\<exists>iz. do {i1 \<leftarrow> identity1D (2 ^ s) ''block'' od; z \<leftarrow> zeros1D (2 ^ n div 2 ^ s) ''block'' od 1; layout_prod i1 z} = Some iz \<and>
    placed iz \<and> getInDimNames iz = [''block''] \<and> getOutDimNames iz = [od] \<and> getTotalInDimSizeLog2 iz = n \<and>
    out_len iz = (\<lambda>x. if x = od then s else 0)"
proof -
  have s: "s < 31" "n - s < 31" using n by auto
  note i = identity_wf [OF s(1), of "''block''" od]
  obtain z where z: "zeros1D (2 ^ (n - s)) ''block'' od 1 = Some z" "placed z" "getInDimNames z = [''block'']"
    "getOutDimNames z = [od]" "out_len z = (\<lambda>_. 0)" "getTotalInDimSizeLog2 z = n - s"
    using zeros_total [OF s(2)] by blast
  have "getTotalInDimSizeLog2 (identity_layout s ''block'' od) + getTotalInDimSizeLog2 z \<le> 64" using i(8) z(6) n by simp
  moreover have "out_len (identity_layout s ''block'' od) x + out_len z x < 31" for x using i(4) z(5) s by simp
  ultimately obtain p where p: "layout_prod (identity_layout s ''block'' od) z = Some p" "placed p"
    "supremum [''block''] [''block''] = Some (getInDimNames p)" "supremum [od] [od] = Some (getOutDimNames p)"
    "getTotalInDimSizeLog2 p = s + (n - s)" "out_len p = (\<lambda>x. out_len (identity_layout s ''block'' od) x + out_len z x)"
    using placed_product [OF placed_identity [OF s(1), of "''block''" od] z(2)] i(6-8) z(3,4,6) by fastforce
  have "(2::int) ^ n div 2 ^ s = 2 ^ (n - s)" using n by (simp add: power_diff)
  then show ?thesis using p z(1) i(1,4) z(5) n by (intro exI [of _ p]) (auto simp: fun_eq_iff)
qed

lemma cga_step_placed:
  assumes ok: "cga_ok c r s n" and d: "d < r" and pl: "placed l" and i: "getInDimNames l \<in> {[], [''block'']}"
    and new: "standardOutDimNames r ! d \<notin> set (getOutDimNames l)" and t: "getTotalInDimSizeLog2 l + n d \<le> 64"
  shows "\<exists>p. cga_step c d (Some l) = Some p \<and> placed p \<and> getInDimNames p = [''block''] \<and>
    set (getOutDimNames p) = insert (standardOutDimNames r ! d) (set (getOutDimNames l)) \<and>
    getTotalInDimSizeLog2 p = getTotalInDimSizeLog2 l + n d \<and>
    out_len p = (out_len l)(standardOutDimNames r ! d := s d)"
proof -
  let ?od = "standardOutDimNames r ! d"
  have o: "CTASplitNum c ! d = 2 ^ s d" "CTAsPerCGA c ! d = 2 ^ n d" "s d \<le> n d" "n d < 31"
    "length (CTAOrder c) = r" "length (CTASplitNum c) = r" "length (CTAsPerCGA c) = r"
    using ok d by (auto simp: cga_ok_def)
  obtain iz where iz: "do {i1 \<leftarrow> identity1D (2 ^ s d) ''block'' ?od; z \<leftarrow> zeros1D (2 ^ n d div 2 ^ s d) ''block'' ?od 1; layout_prod i1 z} = Some iz"
    "placed iz" "getInDimNames iz = [''block'']" "getOutDimNames iz = [?od]" "getTotalInDimSizeLog2 iz = n d"
    "out_len iz = (\<lambda>x. if x = ?od then s d else 0)"
    using split_and_copies [OF o(3,4)] by blast
  obtain i1 z where iz': "identity1D (2 ^ s d) ''block'' ?od = Some i1" "zeros1D (2 ^ n d div 2 ^ s d) ''block'' ?od 1 = Some z"
    "layout_prod i1 z = Some iz" using iz(1) by (auto simp: Option.bind_eq_Some_conv)
  have z0: "out_len l ?od = 0" using new by (rule out_len_absent)
  have "out_len l x + out_len iz x < 31" for x
    using out_len_lt [OF placedD(1) [OF pl], of x] o z0 iz(6) by simp
  moreover have "getTotalInDimSizeLog2 l + getTotalInDimSizeLog2 iz \<le> 64" using t iz(5) by simp
  ultimately obtain p where p: "layout_prod l iz = Some p" "placed p" "supremum (getInDimNames l) [''block''] = Some (getInDimNames p)"
    "set (getOutDimNames p) = set (getOutDimNames l) \<union> {?od}" "getTotalInDimSizeLog2 p = getTotalInDimSizeLog2 l + n d"
    "out_len p = (\<lambda>x. out_len l x + out_len iz x)"
    using placed_product [OF pl iz(2)] iz(3-5) by fastforce
  have "supremum [] [''block''] = Some [''block'']" by simp
  moreover have "supremum [''block''] [''block''] = Some [''block'']" by simp
  ultimately have "getInDimNames p = [''block'']" using p(3) i by auto
  moreover have "(2::int) ^ n d mod 2 ^ s d = 0" using o by (simp add: le_imp_power_dvd mod_eq_0_iff_dvd)
  then have "cga_step c d (Some l) = Some p"
    using d o iz' p(1) by (simp add: cga_step_def Let_def)
  moreover have "out_len p = (out_len l)(?od := s d)" using p(6) iz(6) z0 by (auto simp: fun_eq_iff)
  ultimately show ?thesis using p by auto
qed

lemma cga_steps_placed:
  assumes ok: "cga_ok c r s n" and "distinct ds" and "\<And>d. d \<in> set ds \<Longrightarrow> d < r" and "placed l"
    and "getInDimNames l \<in> {[], [''block'']}" and "\<And>d. d \<in> set ds \<Longrightarrow> standardOutDimNames r ! d \<notin> set (getOutDimNames l)"
    and "getTotalInDimSizeLog2 l + sum_list (map n ds) \<le> 64"
  shows "\<exists>p. fold (cga_step c) ds (Some l) = Some p \<and> placed p \<and>
    getInDimNames p = (if ds = [] then getInDimNames l else [''block'']) \<and>
    set (getOutDimNames p) = (\<lambda>d. standardOutDimNames r ! d) ` set ds \<union> set (getOutDimNames l) \<and>
    getTotalInDimSizeLog2 p = getTotalInDimSizeLog2 l + sum_list (map n ds) \<and>
    (\<forall>d \<in> set ds. out_len p (standardOutDimNames r ! d) = s d)"
  using assms(2-7)
proof (induction ds rule: rev_induct)
  case (snoc d ds)
  obtain q where q: "fold (cga_step c) ds (Some l) = Some q" "placed q"
    "getInDimNames q = (if ds = [] then getInDimNames l else [''block''])"
    "set (getOutDimNames q) = (\<lambda>d. standardOutDimNames r ! d) ` set ds \<union> set (getOutDimNames l)"
    "getTotalInDimSizeLog2 q = getTotalInDimSizeLog2 l + sum_list (map n ds)"
    "\<forall>d \<in> set ds. out_len q (standardOutDimNames r ! d) = s d"
    using snoc by auto
  have d: "d < r" using snoc.prems(2) by simp
  have apart: "standardOutDimNames r ! d \<noteq> standardOutDimNames r ! e" if "e \<in> set ds" for e
    using that snoc.prems(1,2) standard_names_eq [of d r e] d by auto
  have "standardOutDimNames r ! d \<notin> set (getOutDimNames q)" using q(4) apart snoc.prems(5) by auto
  moreover have "getInDimNames q \<in> {[], [''block'']}" using q(3) snoc.prems(4) by auto
  moreover have "getTotalInDimSizeLog2 q + n d \<le> 64" using q(5) snoc.prems(6) by simp
  ultimately obtain p where p: "cga_step c d (Some q) = Some p" "placed p" "getInDimNames p = [''block'']"
    "set (getOutDimNames p) = insert (standardOutDimNames r ! d) (set (getOutDimNames q))"
    "getTotalInDimSizeLog2 p = getTotalInDimSizeLog2 q + n d" "out_len p = (out_len q)(standardOutDimNames r ! d := s d)"
    using cga_step_placed [OF ok d q(2)] by blast
  have "out_len p (standardOutDimNames r ! e) = s e" if "e \<in> set (ds @ [d])" for e
    using that p(6) q(6) apart [of e] by (cases "e = d") (auto dest: not_sym)
  then show ?case using p q by auto
qed simp

lemma sum_list_nth: "sum_list (map n [0..<r]) = sum_list (map n ds) \<longleftrightarrow> True" if "mset ds = mset [0..<r]" for n :: "nat \<Rightarrow> nat"
  using that by (metis mset_map sum_mset_sum_list)

lemma makeCga_total:
  assumes ok: "cga_ok c r s n" and r: "0 < r" and t: "sum_list (map n [0..<r]) \<le> 64"
  shows "\<exists>g. makeCgaLayout c = Some g \<and> placed g \<and> getInDimNames g = [''block''] \<and>
    getOutDimNames g = standardOutDimNames r \<and> getTotalInDimSizeLog2 g = sum_list (map n [0..<r]) \<and>
    (\<forall>d < r. out_len g (standardOutDimNames r ! d) = s d)"
proof -
  have len: "length (CTAOrder c) = r" and perm: "distinct (CTAOrder c)" "set (CTAOrder c) = {..<r}"
    using ok by (auto simp: cga_ok_def isPermutation_iff)
  have "mset (CTAOrder c) = mset [0..<r]"
    by (intro iffD1 [OF set_eq_iff_mset_eq_distinct]) (use perm in \<open>auto simp: atLeast0LessThan\<close>)
  then have sum: "sum_list (map n (CTAOrder c)) = sum_list (map n [0..<r])" using sum_list_nth by metis
  have lt: "d < r" if "d \<in> set (CTAOrder c)" for d using that perm by simp
  have ne: "CTAOrder c \<noteq> []" using len r by auto
  obtain p where p: "fold (cga_step c) (CTAOrder c) (Some empty_layout) = Some p" "placed p" "getInDimNames p = [''block'']"
    "set (getOutDimNames p) = (\<lambda>d. standardOutDimNames r ! d) ` set (CTAOrder c)"
    "getTotalInDimSizeLog2 p = sum_list (map n (CTAOrder c))"
    "\<forall>d \<in> set (CTAOrder c). out_len p (standardOutDimNames r ! d) = s d"
    using cga_steps_placed [OF ok perm(1) lt placed_empty] t sum ne by auto
  have names: "(\<lambda>d. standardOutDimNames r ! d) ` {..<r} = set (standardOutDimNames r)"
    by (metis atLeast0LessThan list.set_map map_nth set_upt standard_names(1))
  have st: "set (standardOutDimNames r) = set (getOutDimNames p)" using p(4) perm names by simp
  obtain g where "transposeOuts p (standardOutDimNames r) = Some g" "wf g" "getInDimNames g = getInDimNames p"
    "getOutDimNames g = standardOutDimNames r" "out_len g = out_len p" "entry g = entry p"
    "getTotalInDimSizeLog2 g = getTotalInDimSizeLog2 p"
    using transpose_named [OF placedD(1) [OF p(2)] st standard_names(2)] by blast
  then show ?thesis using p placed_shape [OF p(2)] perm sum len by (intro exI [of _ g]) (auto simp: makeCga_steps)
qed

section \<open>Combining with a shape\<close>

lemma shape_lookup_pow:
  assumes "map_of shape d = Some (2 ^ k)" and "k < 31" shows "shape_lookup shape d = 2 ^ k"
proof -
  have "(2::int) ^ k < 2 ^ 31" using assms(2) by (intro power_strict_increasing) simp_all
  moreover have "- (2 ^ 31) \<le> (2::int) ^ k" by (rule order_trans [of _ 0]) simp_all
  ultimately have "signed_take_bit 31 (2 ^ k) = (2::int) ^ k" by (intro signed_take_bit_int_eq_self) simp_all
  then show ?thesis using assms(1) by (simp add: shape_lookup_def)
qed

lemma outDims_named:
  assumes "wf l" shows "outDims l = map (\<lambda>d. (d, 2 ^ out_len l d)) (getOutDimNames l)"
proof (rule nth_equalityI)
  fix k assume k: "k < length (outDims l)"
  have "out_len l (getOutDimNames l ! k) = out_widths l ! k" using out_len_nth [OF _ k] wf_names [OF assms] by simp
  then show "outDims l ! k = map (\<lambda>d. (d, 2 ^ out_len l d)) (getOutDimNames l) ! k"
    using wf_out_pow [OF assms k] k
    by (simp add: out_widths_def getOutDimNames_def case_prod_unfold prod_eq_iff)
qed (simp add: getOutDimNames_def)

lemma labeled_shape:
  assumes "length shape = r" and "i < r"
  shows "map_of (zip (standardOutDimNames r) shape) (standardOutDimNames r ! i) = Some (shape ! i)"
  using assms by (simp add: map_of_zip_nth)

text \<open>
  What the code computes of the sizes: the CTAs cover at most the shape, one CTA the rest of it.
\<close>

lemma max_div_pow: "max 1 ((2::int) ^ n sdiv 2 ^ min s n) = 2 ^ (n - min s n)"
proof -
  have "(2::int) ^ n sdiv 2 ^ min s n = 2 ^ (n - min s n)" by (simp add: signed_divide_int_def power_diff)
  then show ?thesis by (simp only:) simp
qed

lemma those_map_total: "(\<And>x. x \<in> set xs \<Longrightarrow> f x = Some (g x)) \<Longrightarrow> those (map f xs) = Some (map g xs)"
  by (induction xs) auto

lemma sum_names:
  assumes "set xs = set (standardOutDimNames r)" and "distinct xs" and "\<And>i. i < r \<Longrightarrow> f (standardOutDimNames r ! i) = g i"
  shows "sum_list (map f xs) = (sum_list (map g [0..<r]) :: nat)"
proof -
  have "mset xs = mset (standardOutDimNames r)"
    using assms(1,2) by (intro iffD1 [OF set_eq_iff_mset_eq_distinct]) simp_all
  then have "sum_list (map f xs) = sum_list (map f (standardOutDimNames r))" by (metis mset_map sum_mset_sum_list)
  also have "map f (standardOutDimNames r) = map g [0..<r]" using assms(3) by (intro nth_equalityI) simp_all
  finally show ?thesis .
qed

definition cga_part :: "linear_layout \<Rightarrow> cta_layout \<Rightarrow> int list \<Rightarrow> (linear_layout \<times> named_shape) option" where
  "cga_part l c shape = do {
     let lab = zip (standardOutDimNames (length shape)) shape;
     c0 \<leftarrow> makeCgaLayout c;
     c1 \<leftarrow> ensureLayoutNotLargerThan c0 lab True;
     g \<leftarrow> transposeOuts c1 (getOutDimNames l);
     (if getOutDimNames l = getOutDimNames g then Some () else None);
     cs \<leftarrow> those (map (\<lambda>d. case (map_of lab d, getOutDimSize g d) of
         (Some s, Some n) \<Rightarrow> Some (d, max 1 (s sdiv n)) | _ \<Rightarrow> None) (getOutDimNames l));
     Some (g, cs)
   }"

definition fit_part :: "linear_layout \<Rightarrow> linear_layout \<Rightarrow> named_shape \<Rightarrow> int list \<Rightarrow> linear_layout option" where
  "fit_part l g cs shape = do {
     l1 \<leftarrow> ensureLayoutNotSmallerThan l cs;
     l2 \<leftarrow> ensureLayoutNotLargerThan l1 cs True;
     l3 \<leftarrow> layout_prod l2 g;
     ret \<leftarrow> transposeOuts l3 (standardOutDimNames (length shape));
     (if list_all (\<lambda>d. getOutDimSize ret d = map_of (zip (standardOutDimNames (length shape)) shape) d) (getOutDimNames ret)
      then Some ret else None)
   }"

lemma combine_parts:
  assumes "length (outDims l) = length shape" and "length (CTAOrder c) = length shape"
  shows "combineCtaCgaWithShape l c shape = Option.bind (cga_part l c shape) (\<lambda>(g, cs). fit_part l g cs shape)"
  using assms
  by (simp add: combineCtaCgaWithShape_def cga_part_def fit_part_def Let_def split: bind_splits)

text \<open>Shapes of powers of two, by dimension.\<close>

definition pow_shape :: "int list \<Rightarrow> (nat \<Rightarrow> nat) \<Rightarrow> bool" where
  "pow_shape shape k \<longleftrightarrow> shape \<noteq> [] \<and> (\<forall>i < length shape. shape ! i = 2 ^ k i \<and> k i < 31)"

lemma pow_shape_lab:
  assumes "pow_shape shape k" and "i < length shape"
  shows "map_of (zip (standardOutDimNames (length shape)) shape) (standardOutDimNames (length shape) ! i) = Some (2 ^ k i)"
    "shape_lookup (zip (standardOutDimNames (length shape)) shape) (standardOutDimNames (length shape) ! i) = 2 ^ k i"
proof -
  show m: "map_of (zip (standardOutDimNames (length shape)) shape) (standardOutDimNames (length shape) ! i) = Some (2 ^ k i)"
    using labeled_shape [OF refl assms(2)] assms by (simp add: pow_shape_def)
  show "shape_lookup (zip (standardOutDimNames (length shape)) shape) (standardOutDimNames (length shape) ! i) = 2 ^ k i"
    using shape_lookup_pow [OF m] assms by (simp add: pow_shape_def)
qed

lemma standard_index: "d \<in> set (standardOutDimNames r) \<Longrightarrow> \<exists>i < r. d = standardOutDimNames r ! i"
  by (auto simp: in_set_conv_nth)

lemma index_fun: "\<exists>m. \<forall>i < r. m (standardOutDimNames r ! i) = (k i :: nat)"
proof -
  have "k (the (index_of (standardOutDimNames r ! i) (standardOutDimNames r))) = k i" if "i < r" for i
    using index_of_nth [of "standardOutDimNames r" i] that by simp
  then show ?thesis by (intro exI [of _ "\<lambda>d. k (the (index_of d (standardOutDimNames r)))"]) blast
qed

lemma outDims_count:
  assumes "wf l" and "set (getOutDimNames l) = set (standardOutDimNames r)" shows "length (outDims l) = r"
  using distinct_card [of "getOutDimNames l"] distinct_card [OF standard_names(2) [of r]] wf_names [OF assms(1)] assms(2)
  by (simp add: getOutDimNames_def)

lemma cga_part_total:
  assumes w: "wf l" and outs: "set (getOutDimNames l) = set (standardOutDimNames (length shape))"
    and ok: "cga_ok c (length shape) s n" and sh: "pow_shape shape k" and t: "sum_list (map n [0..<length shape]) \<le> 64"
  shows "\<exists>g cs. cga_part l c shape = Some (g, cs) \<and> placed g \<and> getInDimNames g = [''block''] \<and>
    getOutDimNames g = getOutDimNames l \<and> getTotalInDimSizeLog2 g = sum_list (map n [0..<length shape]) \<and>
    length cs = length (outDims l) \<and> cs \<noteq> [] \<and>
    (\<forall>i < length shape. out_len g (standardOutDimNames (length shape) ! i) = min (s i) (k i) \<and>
       shape_lookup cs (standardOutDimNames (length shape) ! i) = 2 ^ (k i - min (s i) (k i)))"
proof -
  let ?r = "length shape" let ?N = "standardOutDimNames ?r" and ?lab = "zip (standardOutDimNames ?r) shape"
  have dist: "distinct (getOutDimNames l)" using wf_names [OF w] by simp
  have r: "0 < ?r" and k31: "\<And>i. i < ?r \<Longrightarrow> k i < 31" using sh by (auto simp: pow_shape_def)
  obtain m where m: "\<And>i. i < ?r \<Longrightarrow> m (?N ! i) = k i" using index_fun [of ?r k] by blast
  obtain g where g: "makeCgaLayout c = Some g" "placed g" "getInDimNames g = [''block'']" "getOutDimNames g = ?N"
    "getTotalInDimSizeLog2 g = sum_list (map n [0..<?r])" "\<forall>d < ?r. out_len g (?N ! d) = s d"
    using makeCga_total [OF ok r t] by blast
  have leng: "length ?lab = length (outDims g)" using outDims_count [OF placedD(1) [OF g(2)], of ?r] g(4) by simp
  have "length ?lab = ?r" by simp
  then have neg: "?lab \<noteq> []" using r by (metis less_numeral_extra(3) list.size(3))
  have shg: "shape_lookup ?lab d = 2 ^ m d \<and> m d < 31" if d: "d \<in> set (getOutDimNames g)" for d
    using standard_index [of d ?r] d g(4) pow_shape_lab(2) [OF sh] m k31 by auto
  obtain g1 where g1: "ensureLayoutNotLargerThan g ?lab True = Some g1" "placed g1" "getInDimNames g1 = [''block'']"
    "getOutDimNames g1 = ?N" "\<forall>od. out_len g1 od = (if od \<in> set ?N then min (out_len g od) (m od) else 0)"
    "getTotalInDimSizeLog2 g1 = sum_list (map n [0..<?r])"
    using shrink_placed [OF g(2) leng neg shg] g(3-5) by auto
  have st: "set (getOutDimNames l) = set (getOutDimNames g1)" using g1(4) outs by simp
  obtain g2 where g2: "transposeOuts g1 (getOutDimNames l) = Some g2" "wf g2" "getInDimNames g2 = [''block'']"
    "getOutDimNames g2 = getOutDimNames l" "out_len g2 = out_len g1" "entry g2 = entry g1"
    "getTotalInDimSizeLog2 g2 = sum_list (map n [0..<?r])"
    using transpose_named [OF placedD(1) [OF g1(2)] st dist] g1(3,6) by auto
  have o2: "out_len g2 (?N ! i) = min (s i) (k i)" if "i < ?r" for i using g2(5) g1(5) g(6) m [OF that] that by auto
  define q where "q = (\<lambda>d. m d - out_len g2 d)"
  have qi: "q (?N ! i) = k i - min (s i) (k i)" if "i < ?r" for i using o2 [OF that] m [OF that] by (simp add: q_def)
  let ?cs = "map (\<lambda>d. (d, 2 ^ q d)) (getOutDimNames l) :: named_shape"
  have "those (map (\<lambda>d. case (map_of ?lab d, getOutDimSize g2 d) of
       (Some s, Some n) \<Rightarrow> Some (d, max 1 (s sdiv n)) | _ \<Rightarrow> None) (getOutDimNames l)) = Some ?cs"
  proof (rule those_map_total)
    fix d assume d: "d \<in> set (getOutDimNames l)"
    then obtain i where i: "i < ?r" "d = ?N ! i" using standard_index outs by blast
    then have "getOutDimSize g2 d = Some (2 ^ min (s i) (k i))" using getOutDimSize_len [of d g2] g2(4) d o2 by simp
    then show "(case (map_of ?lab d, getOutDimSize g2 d) of
       (Some s, Some n) \<Rightarrow> Some (d, max 1 (s sdiv n)) | _ \<Rightarrow> None) = Some (d, 2 ^ q d)"
      using pow_shape_lab(1) [OF sh i(1)] i qi [OF i(1)] max_div_pow by simp
  qed
  then have "cga_part l c shape = Some (g2, ?cs)" using g(1) g1(1) g2(1,4) by (simp add: cga_part_def)
  moreover have "placed g2" by (rule placed_shape [OF g1(2) g2(2,5,6)])
  moreover have "shape_lookup ?cs (?N ! i) = 2 ^ (k i - min (s i) (k i))" if i: "i < ?r" for i
  proof (rule shape_lookup_pow)
    have "?N ! i \<in> set (getOutDimNames l)" using i outs by simp
    then show "map_of ?cs (?N ! i) = Some (2 ^ (k i - min (s i) (k i)))"
      using qi [OF i] dist by (simp add: map_of_map_restrict comp_def)
    show "k i - min (s i) (k i) < 31" using k31 [OF i] by simp
  qed
  moreover have "?cs \<noteq> []" using outs r by (metis map_is_Nil_conv length_0_conv standard_names(1) set_empty not_less0)
  ultimately show ?thesis using g2(3,4,7) o2 by (intro exI [of _ g2] exI [of _ ?cs]) (simp add: getOutDimNames_def)
qed

text \<open>Once the tile of one CTA has its size, the rest returns with the shape as sizes.\<close>

lemma fit_part_total:
  assumes l12: "ensureLayoutNotSmallerThan l cs = Some l1" "ensureLayoutNotLargerThan l1 cs True = Some l2"
    and l3: "layout_prod l2 g = Some l3" "wf l3" and sh: "pow_shape shape k"
    and outs: "set (getOutDimNames l3) = set (standardOutDimNames (length shape))"
    and o: "\<And>i. i < length shape \<Longrightarrow> out_len l3 (standardOutDimNames (length shape) ! i) = k i"
  shows "\<exists>ret. fit_part l g cs shape = Some ret \<and> wf ret \<and> outDims ret = zip (standardOutDimNames (length shape)) shape \<and>
    getInDimNames ret = getInDimNames l3 \<and> in_len ret = in_len l3 \<and> out_len ret = out_len l3 \<and> entry ret = entry l3"
proof -
  let ?r = "length shape" let ?N = "standardOutDimNames ?r" and ?lab = "zip (standardOutDimNames ?r) shape"
  obtain ret where ret: "transposeOuts l3 ?N = Some ret" "wf ret" "getInDimNames ret = getInDimNames l3" "getOutDimNames ret = ?N"
    "in_len ret = in_len l3" "out_len ret = out_len l3" "entry ret = entry l3"
    using transpose_named [OF l3(2) _ standard_names(2), of ?r] outs by metis
  have dims: "outDims ret = ?lab"
  proof -
    have "2 ^ out_len ret (?N ! i) = shape ! i" if "i < ?r" for i
      using o [OF that] ret(6) sh that by (simp add: pow_shape_def)
    then have "map (\<lambda>d. (d, 2 ^ out_len ret d)) ?N = ?lab" by (intro nth_equalityI) simp_all
    then show ?thesis using outDims_named [OF ret(2)] ret(4) by simp
  qed
  have "getOutDimSize ret d = map_of ?lab d" if d: "d \<in> set ?N" for d
  proof -
    obtain i where i: "i < ?r" "d = ?N ! i" using standard_index d by blast
    then show ?thesis using getOutDimSize_len [of d ret] ret(4,6) d o [OF i(1)] pow_shape_lab(1) [OF sh i(1)] by simp
  qed
  then have "fit_part l g cs shape = Some ret" using l12 l3(1) ret(1,4) by (simp add: fit_part_def list_all_iff)
  then show ?thesis using ret dims by blast
qed

lemma combine_total:
  assumes pl: "placed l" and ins: "getInDimNames l = kDim # rest" and kd: "kDim \<in> {''register'', ''offset''}"
    and outs: "set (getOutDimNames l) = set (standardOutDimNames (length shape))"
    and ok: "cga_ok c (length shape) s n" and sh: "pow_shape shape k"
    and t: "getTotalInDimSizeLog2 l + sum_list (map k [0..<length shape]) + sum_list (map n [0..<length shape]) \<le> 64"
  shows "\<exists>ret. combineCtaCgaWithShape l c shape = Some ret \<and> placed ret \<and>
    outDims ret = zip (standardOutDimNames (length shape)) shape \<and> supremum (kDim # rest) [''block''] = Some (getInDimNames ret)"
proof -
  let ?r = "length shape" let ?N = "standardOutDimNames ?r"
  have w: "wf l" by (rule placedD(1) [OF pl])
  have dist: "distinct (getOutDimNames l)" using wf_names [OF w] by simp
  have k31: "\<And>i. i < ?r \<Longrightarrow> k i < 31" using sh by (auto simp: pow_shape_def)
  have tn: "sum_list (map n [0..<?r]) \<le> 64" using t by simp
  obtain g cs where g: "cga_part l c shape = Some (g, cs)" "placed g" "getInDimNames g = [''block'']" "getOutDimNames g = getOutDimNames l"
    "getTotalInDimSizeLog2 g = sum_list (map n [0..<?r])" "length cs = length (outDims l)" "cs \<noteq> []"
    "\<And>i. i < ?r \<Longrightarrow> out_len g (?N ! i) = min (s i) (k i)"
    "\<And>i. i < ?r \<Longrightarrow> shape_lookup cs (?N ! i) = 2 ^ (k i - min (s i) (k i))"
    using cga_part_total [OF w outs ok sh tn] by blast
  obtain q where q: "\<And>i. i < ?r \<Longrightarrow> q (?N ! i) = k i - min (s i) (k i)"
    using index_fun [of ?r "\<lambda>i. k i - min (s i) (k i)"] by blast
  have shq: "shape_lookup cs d = 2 ^ q d \<and> q d < 31" if d: "d \<in> set (getOutDimNames l)" for d
  proof -
    obtain i where "i < ?r" "d = ?N ! i" using standard_index d outs by blast
    then show ?thesis using g(9) q k31 less_imp_diff_less by simp
  qed
  have "sum_list (map q (getOutDimNames l)) = sum_list (map (\<lambda>i. k i - min (s i) (k i)) [0..<?r])"
    by (rule sum_names [OF outs dist]) (rule q)
  also have "\<dots> \<le> sum_list (map k [0..<?r])" by (rule sum_list_mono) simp
  finally have sq: "sum_list (map q (getOutDimNames l)) \<le> sum_list (map k [0..<?r])" .
  then have tq: "getTotalInDimSizeLog2 l + sum_list (map q (getOutDimNames l)) \<le> 64" using t by linarith
  obtain l1 where l1: "ensureLayoutNotSmallerThan l cs = Some l1" "placed l1" "getInDimNames l1 = getInDimNames l"
    "getOutDimNames l1 = getOutDimNames l"
    "\<forall>d. out_len l1 d = (if d \<in> set (getOutDimNames l) then max (out_len l d) (q d) else out_len l d)"
    "getTotalInDimSizeLog2 l1 \<le> getTotalInDimSizeLog2 l + sum_list (map q (getOutDimNames l))"
    using grow_placed [OF pl ins kd g(6,7) shq tq] by blast
  have lq1: "length cs = length (outDims l1)" using l1(4) g(6) by (metis getOutDimNames_def length_map)
  have shq1: "shape_lookup cs d = 2 ^ q d \<and> q d < 31" if "d \<in> set (getOutDimNames l1)" for d using shq l1(4) that by simp
  obtain l2 where l2: "ensureLayoutNotLargerThan l1 cs True = Some l2" "placed l2" "getInDimNames l2 = getInDimNames l1"
    "getOutDimNames l2 = getOutDimNames l1"
    "\<forall>od. out_len l2 od = (if od \<in> set (getOutDimNames l1) then min (out_len l1 od) (q od) else 0)"
    "getTotalInDimSizeLog2 l2 = getTotalInDimSizeLog2 l1"
    using shrink_placed [OF l1(2) lq1 g(7) shq1] by blast
  have o3: "out_len l2 (?N ! i) + out_len g (?N ! i) = k i" if i: "i < ?r" for i
    using l2(5) l1(4,5) outs q [OF i] g(8) [OF i] i by simp
  have b3: "out_len l2 d + out_len g d < 31" for d
  proof (cases "d \<in> set ?N")
    case True
    then obtain i where "i < ?r" "d = ?N ! i" using standard_index by blast
    then show ?thesis using o3 k31 by simp
  next
    case False
    then show ?thesis using l2(4) l1(4) g(4) outs by (simp add: out_len_absent)
  qed
  have t3: "getTotalInDimSizeLog2 l2 + getTotalInDimSizeLog2 g \<le> 64" using l2(6) l1(6) g(5) sq t by linarith
  obtain l3 where l3: "layout_prod l2 g = Some l3" "placed l3" "supremum (getInDimNames l2) (getInDimNames g) = Some (getInDimNames l3)"
    "set (getOutDimNames l3) = set (getOutDimNames l2) \<union> set (getOutDimNames g)"
    "out_len l3 = (\<lambda>od. out_len l2 od + out_len g od)"
    using placed_product [OF l2(2) g(2) t3 b3] by blast
  have st3: "set (getOutDimNames l3) = set ?N" using l3(4) l2(4) l1(4) g(4) outs by simp
  have o3': "out_len l3 (?N ! i) = k i" if "i < ?r" for i using l3(5) o3 [OF that] by simp
  obtain ret where ret: "fit_part l g cs shape = Some ret" "wf ret" "outDims ret = zip ?N shape"
    "getInDimNames ret = getInDimNames l3" "out_len ret = out_len l3" "entry ret = entry l3"
    using fit_part_total [OF l1(1) l2(1) l3(1) placedD(1) [OF l3(2)] sh st3 o3'] by blast
  have "combineCtaCgaWithShape l c shape = Some ret"
    using combine_parts [OF outDims_count [OF w outs]] ok g(1) ret(1) by (simp add: cga_ok_def)
  moreover have "supremum (kDim # rest) [''block''] = Some (getInDimNames ret)"
    using l3(3) l2(3) l1(3) g(3) ins ret(4) by simp
  ultimately show ?thesis using placed_shape [OF l3(2) ret(2,5,6)] ret(3) by blast
qed

section \<open>Standard identities\<close>

definition nd_step :: "dim \<Rightarrow> int list \<Rightarrow> nat \<Rightarrow> linear_layout option \<Rightarrow> linear_layout option" where
  "nd_step i shape d acc = do {
     ret \<leftarrow> acc;
     (if d < length shape then Some () else None);
     l \<leftarrow> identity1D (shape ! d) i (standardOutDimNames (length shape) ! d);
     layout_prod ret l
   }"

lemma nd_steps_placed:
  assumes k: "\<And>d. d < length shape \<Longrightarrow> shape ! d = 2 ^ k d \<and> k d < 31"
    and "distinct ds" and "\<And>d. d \<in> set ds \<Longrightarrow> d < length shape" and "sum_list (map k ds) \<le> 64"
  shows "\<exists>p. fold (nd_step i shape) ds (Some empty_layout) = Some p \<and> placed p \<and>
    getInDimNames p = (if ds = [] then [] else [i]) \<and>
    set (getOutDimNames p) = (\<lambda>d. standardOutDimNames (length shape) ! d) ` set ds \<and>
    getTotalInDimSizeLog2 p = sum_list (map k ds) \<and>
    (\<forall>d \<in> set ds. out_len p (standardOutDimNames (length shape) ! d) = k d)"
  using assms(2-4)
proof (induction ds rule: rev_induct)
  case Nil
  then show ?case using placed_empty by simp
next
  case (snoc d ds)
  let ?N = "standardOutDimNames (length shape)"
  obtain q where q: "fold (nd_step i shape) ds (Some empty_layout) = Some q" "placed q" "getInDimNames q = (if ds = [] then [] else [i])"
    "set (getOutDimNames q) = (\<lambda>d. ?N ! d) ` set ds" "getTotalInDimSizeLog2 q = sum_list (map k ds)"
    "\<forall>d \<in> set ds. out_len q (?N ! d) = k d"
    using snoc by auto
  have d: "d < length shape" "shape ! d = 2 ^ k d" "k d < 31" using snoc.prems(2) k by auto
  have apart: "?N ! d \<noteq> ?N ! e" if "e \<in> set ds" for e
    using that snoc.prems(1,2) standard_names_eq [of d "length shape" e] d by auto
  have new: "?N ! d \<notin> set (getOutDimNames q)" using q(4) apart by auto
  have "out_len q (?N ! d) + k d < 31" using out_len_absent [OF new] d by simp
  moreover have "getTotalInDimSizeLog2 q + k d \<le> 64" using q(5) snoc.prems(3) by simp
  ultimately obtain p where p: "times_id (2 ^ k d) i (?N ! d) q = Some p" "placed p" "supremum (getInDimNames q) [i] = Some (getInDimNames p)"
    "set (getOutDimNames p) = insert (?N ! d) (set (getOutDimNames q))" "getTotalInDimSizeLog2 p = getTotalInDimSizeLog2 q + k d"
    "out_len p = (out_len q)(?N ! d := out_len q (?N ! d) + k d)"
    using times_id_placed [OF q(2) d(3)] by blast
  have "nd_step i shape d (Some q) = Some p" using p(1) d by (simp add: nd_step_def times_id_def)
  moreover have "getInDimNames p = [i]" using p(3) q(3) by (simp split: if_splits)
  moreover have "out_len p (?N ! e) = k e" if "e \<in> set (ds @ [d])" for e
    using that p(6) q(6) apart [of e] out_len_absent [OF new] by (cases "e = d") (auto dest: not_sym)
  moreover have "getTotalInDimSizeLog2 p = sum_list (map k (ds @ [d]))" using p(5) q(5) by simp
  ultimately show ?case using p(1,2,4) q(1,4) by simp
qed

lemma identityND_placed:
  assumes k: "\<And>d. d < length shape \<Longrightarrow> shape ! d = 2 ^ k d \<and> k d < 31"
    and ord: "length ord = length shape" "isPermutationOfIota ord" and r: "shape \<noteq> []"
    and t: "sum_list (map k [0..<length shape]) \<le> 64"
  shows "\<exists>p. identityStandardND i shape ord = Some p \<and> placed p \<and> getInDimNames p = [i] \<and>
    set (getOutDimNames p) = set (standardOutDimNames (length shape)) \<and>
    getTotalInDimSizeLog2 p = sum_list (map k [0..<length shape]) \<and>
    (\<forall>d < length shape. out_len p (standardOutDimNames (length shape) ! d) = k d)"
proof -
  let ?r = "length shape"
  have perm: "distinct ord" "set ord = {..<?r}" using ord by (auto simp: isPermutation_iff)
  have "mset ord = mset [0..<?r]"
    by (intro iffD1 [OF set_eq_iff_mset_eq_distinct]) (use perm in \<open>auto simp: atLeast0LessThan\<close>)
  then have sum: "sum_list (map k ord) = sum_list (map k [0..<?r])" using sum_list_nth by metis
  have ne: "ord \<noteq> []" using ord(1) r by auto
  have names: "(\<lambda>d. standardOutDimNames ?r ! d) ` {..<?r} = set (standardOutDimNames ?r)"
    by (metis atLeast0LessThan list.set_map map_nth set_upt standard_names(1))
  have lt: "d < ?r" if "d \<in> set ord" for d using that perm by simp
  have "identityStandardND i shape ord = fold (nd_step i shape) ord (Some empty_layout)"
    using ord(1) by (simp add: identityStandardND_def nd_step_def [abs_def] Let_def)
  moreover have "sum_list (map k ord) \<le> 64" using t sum by simp
  ultimately show ?thesis using nd_steps_placed [of shape k ord i, OF k perm(1) lt] sum ne perm(2) names by auto
qed

end
