(* ===== verification/BlockedLayouts.thy ===== *)
theory BlockedLayouts
  imports PlacedCombine
begin

text \<open>
  Blocked encodings: grids of CTAs and shapes of powers of two, the verifier of linear encodings on placed
  layouts, and the conversion of every blocked encoding the verifier accepts.
\<close>

section \<open>Powers of two\<close>

definition bits :: "int list \<Rightarrow> nat" where
  "bits xs = sum_list (map log2_32 xs)"

lemma bits_append [simp]: "bits (xs @ ys) = bits xs + bits ys"
  by (simp add: bits_def)

lemma bits_nth: "bits xs = sum_list (map (\<lambda>i. log2_32 (xs ! i)) [0..<length xs])"
proof -
  have "map (\<lambda>i. log2_32 (xs ! i)) [0..<length xs] = map log2_32 xs" by (intro nth_equalityI) simp_all
  then show ?thesis by (simp add: bits_def)
qed

lemma small_pow_nth:
  "list_all small_pow xs \<Longrightarrow> i < length xs \<Longrightarrow> xs ! i = 2 ^ log2_32 (xs ! i) \<and> log2_32 (xs ! i) < 31"
  using small_powE by (simp add: list_all_length)

lemma small_pow_checked: "\<not> list_ex (\<lambda>x. \<not> is_pow2_64u x) xs \<Longrightarrow> list_all (\<lambda>x. 0 < x \<and> x < 2 ^ 31) xs \<Longrightarrow> list_all small_pow xs"
proof (simp add: list_all_iff list_ex_iff, intro ballI)
  fix x assume h: "\<forall>x \<in> set xs. is_pow2_64u x" "\<forall>x \<in> set xs. 0 < x \<and> x < 2147483648" "x \<in> set xs"
  then obtain k where k: "x = 2 ^ k" using and_pred_zero [of x] by (auto simp: is_pow2_64u_def)
  then have "(2::int) ^ k < 2 ^ 31" using h by auto
  then have "k < 31" by (rule power_less_imp_less_exp [rotated]) simp
  then show "small_pow x" using k by (auto simp: small_pow_iff)
qed

text \<open>
  A grid of CTAs the verifier accepts, of powers of two (as its conversion asserts), where each split
  divides its number of CTAs.
\<close>

definition grid :: "cta_layout \<Rightarrow> bool" where
  "grid c \<longleftrightarrow> verifyCTALayout (CTAsPerCGA c) (CTASplitNum c) (CTAOrder c) = None \<and>
     list_all small_pow (CTAsPerCGA c) \<and> list_all small_pow (CTASplitNum c) \<and>
     list_all2 (\<le>) (CTASplitNum c) (CTAsPerCGA c)"

lemma grid_ok:
  assumes "grid c"
  shows "cga_ok c (length (CTAOrder c)) (\<lambda>i. log2_32 (CTASplitNum c ! i)) (\<lambda>i. log2_32 (CTAsPerCGA c ! i))"
    "length (CTAsPerCGA c) = length (CTAOrder c)"
proof -
  have l: "length (CTAsPerCGA c) = length (CTAOrder c)" "length (CTASplitNum c) = length (CTAOrder c)" "isPermutationOfIota (CTAOrder c)"
    using assms by (auto simp: grid_def verifyCTALayout_def split: if_splits)
  have "log2_32 (CTASplitNum c ! i) \<le> log2_32 (CTAsPerCGA c ! i)" if i: "i < length (CTAOrder c)" for i
  proof -
    have "CTASplitNum c ! i \<le> CTAsPerCGA c ! i" using assms i l by (auto simp: grid_def list_all2_conv_all_nth)
    then have "(2::int) ^ log2_32 (CTASplitNum c ! i) \<le> 2 ^ log2_32 (CTAsPerCGA c ! i)"
      using small_pow_nth [of "CTASplitNum c" i] small_pow_nth [of "CTAsPerCGA c" i] assms i l by (simp add: grid_def)
    then show ?thesis by simp
  qed
  then show "cga_ok c (length (CTAOrder c)) (\<lambda>i. log2_32 (CTASplitNum c ! i)) (\<lambda>i. log2_32 (CTAsPerCGA c ! i))"
    using small_pow_nth assms l by (simp add: cga_ok_def grid_def)
  show "length (CTAsPerCGA c) = length (CTAOrder c)" by (rule l)
qed

section \<open>Combining with a shape\<close>

text \<open>What one CTA holds of a shape.\<close>

lemma perCTA_eq:
  assumes "pow_shape shape k" and "length split = length shape" and "\<And>i. i < length shape \<Longrightarrow> split ! i = 2 ^ s i"
  shows "shapePerCTA split shape = Some (map (\<lambda>i. 2 ^ (k i - min (s i) (k i))) [0..<length shape])"
proof -
  have "those (map (\<lambda>i. cdiv (shape ! i) (min (shape ! i) (split ! i))) [0..<length shape]) =
      Some (map (\<lambda>i. 2 ^ (k i - min (s i) (k i))) [0..<length shape])"
  proof (rule those_map_total)
    fix i assume "i \<in> set [0..<length shape]"
    then have "shape ! i = 2 ^ k i" "split ! i = 2 ^ s i" using assms by (auto simp: pow_shape_def)
    moreover have "min ((2::int) ^ k i) (2 ^ s i) = 2 ^ min (s i) (k i)" using min_pow [of "k i" "s i"] by (simp add: min.commute)
    ultimately show "cdiv (shape ! i) (min (shape ! i) (split ! i)) = Some (2 ^ (k i - min (s i) (k i)))"
      by (simp add: cdiv_def signed_divide_int_def power_diff)
  qed
  moreover have "map (\<lambda>(s, n). cdiv s (min s n)) (zip shape split) =
      map (\<lambda>i. cdiv (shape ! i) (min (shape ! i) (split ! i))) [0..<length shape]"
    using assms(2) by (intro nth_equalityI) simp_all
  ultimately show ?thesis using assms(2) by (simp add: shapePerCTA_def)
qed

lemma pow_shape_nth: "list_all small_pow shape \<Longrightarrow> shape \<noteq> [] \<Longrightarrow> pow_shape shape (\<lambda>i. log2_32 (shape ! i))"
  using small_pow_nth by (simp add: pow_shape_def)

lemma combine_grid:
  assumes pl: "placed l" and ins: "getInDimNames l = kDim # rest" and kd: "kDim \<in> {''register'', ''offset''}"
    and outs: "set (getOutDimNames l) = set (standardOutDimNames (length shape))" and ne: "shape \<noteq> []"
    and g: "grid c" and r: "length (CTAOrder c) = length shape" and sh: "list_all small_pow shape"
    and t: "getTotalInDimSizeLog2 l + bits shape + bits (CTAsPerCGA c) \<le> 64"
  shows "\<exists>ret. combineCtaCgaWithShape l c shape = Some ret \<and> placed ret \<and>
    outDims ret = zip (standardOutDimNames (length shape)) shape \<and> supremum (kDim # rest) [''block''] = Some (getInDimNames ret)"
proof -
  have ok: "cga_ok c (length shape) (\<lambda>i. log2_32 (CTASplitNum c ! i)) (\<lambda>i. log2_32 (CTAsPerCGA c ! i))"
    using grid_ok [OF g] r by simp
  have "bits (CTAsPerCGA c) = sum_list (map (\<lambda>i. log2_32 (CTAsPerCGA c ! i)) [0..<length shape])"
    using bits_nth [of "CTAsPerCGA c"] grid_ok(2) [OF g] r by simp
  then have "getTotalInDimSizeLog2 l + sum_list (map (\<lambda>i. log2_32 (shape ! i)) [0..<length shape]) +
      sum_list (map (\<lambda>i. log2_32 (CTAsPerCGA c ! i)) [0..<length shape]) \<le> 64"
    using t bits_nth [of shape] by simp
  then show ?thesis using combine_total [OF pl ins kd outs ok pow_shape_nth [OF sh ne]] by blast
qed

lemma first_error_None: "first_error xs = None \<longleftrightarrow> (\<forall>x \<in> set xs. \<not> fst x)"
  by (induction xs rule: first_error.induct) auto

text \<open>The bases of a placed layout with the standard names pass the verifier of linear encodings.\<close>

lemma placed_verifies:
  assumes pl: "placed l" and ins: "getInDimNames l = [''register'', ''lane'', ''warp'', ''block'']"
    and outs: "getOutDimNames l = standardOutDimNames n"
  shows "verifyLinear l = None"
proof -
  have w: "wf l" by (rule placedD(1) [OF pl])
  have one: "length (filter (\<lambda>x. x \<noteq> 0) b) \<le> 1" if db: "(d, bs) \<in> set (bases l)" "b \<in> set bs" for d bs b
  proof (rule ccontr)
    assume "\<not> length (filter (\<lambda>x. x \<noteq> 0) b) \<le> 1"
    then have c: "1 < card {i. i < length b \<and> b ! i \<noteq> 0}" by (simp add: length_filter_conv_card)
    then obtain i j where ij: "i < length b" "j < length b" "b ! i \<noteq> 0" "b ! j \<noteq> 0" "i \<noteq> j"
      by (metis (mono_tags, lifting) One_nat_def card_le_Suc0_iff_eq card.infinite linorder_not_less mem_Collect_eq zero_less_one less_zeroE not_less_zero)
    obtain p where p: "p < length bs" "bs ! p = b" using db(2) by (auto simp: in_set_conv_nth)
    have m: "map_of (bases l) d = Some bs" using db(1) wf_names [OF w] by (simp add: getInDimNames_def)
    have "b \<in> set (columns l)" using db by (auto simp: in_columns)
    then have "length b = length (outDims l)" using wf_wide [OF w] by (simp add: wide_def list_all_iff)
    then have k: "i < length (outDims l)" "j < length (outDims l)" using ij by auto
    have "entry l d p (getOutDimNames l ! i) \<noteq> 0" "entry l d p (getOutDimNames l ! j) \<noteq> 0"
      using entry_nth [OF w m p(1)] k ij p(2) by auto
    then have "getOutDimNames l ! j = getOutDimNames l ! i" using placedD(3) [OF pl] by blast
    moreover have "i < length (getOutDimNames l)" "j < length (getOutDimNames l)" using k by (simp_all add: getOutDimNames_def)
    ultimately show False using wf_names [OF w] ij(5) nth_eq_iff_index_eq [of "getOutDimNames l" j i] by simp
  qed
  have n: "length (outDims l) = n" using outs by (metis getOutDimNames_def length_map standard_names(1))
  show ?thesis unfolding first_error_None verifyLinear_def ins outs n
    using one by (fastforce simp: in_set_enumerate_eq set_zip list_all_iff)
qed

section \<open>Blocked encodings\<close>

lemma identityND_bits:
  assumes "list_all small_pow xs" and "length ord = length xs" and "isPermutationOfIota ord" and "xs \<noteq> []" and "bits xs \<le> 64"
  shows "\<exists>p. identityStandardND i xs ord = Some p \<and> placed p \<and> getInDimNames p = [i] \<and>
    set (getOutDimNames p) = set (standardOutDimNames (length xs)) \<and> getTotalInDimSizeLog2 p = bits xs \<and>
    (\<forall>d < length xs. out_len p (standardOutDimNames (length xs) ! d) = log2_32 (xs ! d))"
  using identityND_placed [of xs "\<lambda>i. log2_32 (xs ! i)" ord i] small_pow_nth [OF assms(1)] assms bits_nth [of xs] by simp

text \<open>Two factors over the same standard dims, whose sizes stay small.\<close>

lemma product_standard:
  assumes p: "placed a" "placed b" and n: "set (getOutDimNames a) = set (standardOutDimNames r)"
      "set (getOutDimNames b) = set (standardOutDimNames r)"
    and i: "supremum (getInDimNames a) (getInDimNames b) = Some ins"
    and t: "getTotalInDimSizeLog2 a + getTotalInDimSizeLog2 b \<le> 64"
    and o: "\<And>d. d < r \<Longrightarrow> out_len a (standardOutDimNames r ! d) + out_len b (standardOutDimNames r ! d) < 31"
  shows "\<exists>q. layout_prod a b = Some q \<and> placed q \<and> getInDimNames q = ins \<and>
    set (getOutDimNames q) = set (standardOutDimNames r) \<and>
    getTotalInDimSizeLog2 q = getTotalInDimSizeLog2 a + getTotalInDimSizeLog2 b \<and>
    out_len q = (\<lambda>od. out_len a od + out_len b od)"
proof -
  have "out_len a od + out_len b od < 31" for od
  proof (cases "od \<in> set (standardOutDimNames r)")
    case True
    then show ?thesis using o by (auto simp: in_set_conv_nth)
  next
    case False
    then show ?thesis using n by (simp add: out_len_absent)
  qed
  then show ?thesis using placed_product [OF p t] i n by auto
qed

lemma blocked_converts:
  assumes v: "verifyBlocked e = None"
    and small: "list_all (\<lambda>x. 0 < x \<and> x < 2 ^ 31) (sizePerThread e @ threadsPerWarp e @ warpsPerCTA e)"
    and g: "grid (blockedCTA e)" and sh: "list_all small_pow shape" "length shape = length (blockedOrder e)" "shape \<noteq> []"
    and b: "bits (sizePerThread e @ threadsPerWarp e @ warpsPerCTA e @ shape @ CTAsPerCGA (blockedCTA e)) \<le> 64"
    and tile: "\<And>d. d < length shape \<Longrightarrow> sizePerThread e ! d * threadsPerWarp e ! d * warpsPerCTA e ! d < 2 ^ 31"
  shows "\<exists>l. blockedToLinearLayout e shape = Some l \<and> wf l \<and> isSurjective l \<and>
    getInDimNames l = [''register'', ''lane'', ''warp'', ''block''] \<and>
    outDims l = zip (standardOutDimNames (length shape)) shape \<and> placed l \<and> verifyLinear l = None"
proof -
  let ?r = "length shape"
  have lens: "length (sizePerThread e) = ?r" "length (threadsPerWarp e) = ?r" "length (warpsPerCTA e) = ?r"
      "length (CTAOrder (blockedCTA e)) = ?r" and perm: "isPermutationOfIota (blockedOrder e)"
    and pows: "list_all small_pow (sizePerThread e)" "list_all small_pow (threadsPerWarp e)" "list_all small_pow (warpsPerCTA e)"
    using v sh(2) small small_pow_checked by (auto simp: verifyBlocked_def split: if_splits)
  have ne: "sizePerThread e \<noteq> []" "threadsPerWarp e \<noteq> []" "warpsPerCTA e \<noteq> []" using lens sh(3) by auto
  let ?x = "\<lambda>d. log2_32 (sizePerThread e ! d)" and ?y = "\<lambda>d. log2_32 (threadsPerWarp e ! d)" and ?z = "\<lambda>d. log2_32 (warpsPerCTA e ! d)"
  have lt: "?x d + ?y d + ?z d < 31" if d: "d < ?r" for d
  proof -
    have "sizePerThread e ! d * threadsPerWarp e ! d * warpsPerCTA e ! d = (2::int) ^ (?x d + ?y d + ?z d)"
      using small_pow_nth [OF pows(1), of d] small_pow_nth [OF pows(2), of d] small_pow_nth [OF pows(3), of d] d lens
      by (simp add: power_add)
    then have "(2::int) ^ (?x d + ?y d + ?z d) < 2 ^ 31" using tile [OF d] by simp
    then show ?thesis by (rule power_less_imp_less_exp [rotated]) simp
  qed
  obtain regs where regs: "identityStandardND ''register'' (sizePerThread e) (blockedOrder e) = Some regs" "placed regs"
    "getInDimNames regs = [''register'']" "set (getOutDimNames regs) = set (standardOutDimNames ?r)"
    "getTotalInDimSizeLog2 regs = bits (sizePerThread e)" "\<forall>d < ?r. out_len regs (standardOutDimNames ?r ! d) = ?x d"
    using identityND_bits [OF pows(1) _ perm ne(1), of "''register''"] lens sh(2) b by auto
  obtain lanes where lanes: "identityStandardND ''lane'' (threadsPerWarp e) (blockedOrder e) = Some lanes" "placed lanes"
    "getInDimNames lanes = [''lane'']" "set (getOutDimNames lanes) = set (standardOutDimNames ?r)"
    "getTotalInDimSizeLog2 lanes = bits (threadsPerWarp e)" "\<forall>d < ?r. out_len lanes (standardOutDimNames ?r ! d) = ?y d"
    using identityND_bits [OF pows(2) _ perm ne(2), of "''lane''"] lens sh(2) b by auto
  obtain warps where warps: "identityStandardND ''warp'' (warpsPerCTA e) (blockedOrder e) = Some warps" "placed warps"
    "getInDimNames warps = [''warp'']" "set (getOutDimNames warps) = set (standardOutDimNames ?r)"
    "getTotalInDimSizeLog2 warps = bits (warpsPerCTA e)" "\<forall>d < ?r. out_len warps (standardOutDimNames ?r ! d) = ?z d"
    using identityND_bits [OF pows(3) _ perm ne(3), of "''warp''"] lens sh(2) b by auto
  have s1: "supremum (getInDimNames regs) (getInDimNames lanes) = Some [''register'', ''lane'']"
    unfolding regs(3) lanes(3) by code_simp
  obtain rl where rl: "layout_prod regs lanes = Some rl" "placed rl" "getInDimNames rl = [''register'', ''lane'']"
    "set (getOutDimNames rl) = set (standardOutDimNames ?r)" "getTotalInDimSizeLog2 rl = bits (sizePerThread e) + bits (threadsPerWarp e)"
    "out_len rl = (\<lambda>od. out_len regs od + out_len lanes od)"
    using product_standard [OF regs(2) lanes(2) regs(4) lanes(4) s1] regs(5,6) lanes(5,6) lt b by fastforce
  have s2: "supremum (getInDimNames rl) (getInDimNames warps) = Some [''register'', ''lane'', ''warp'']"
    unfolding rl(3) warps(3) by code_simp
  obtain rlw where rlw: "layout_prod rl warps = Some rlw" "placed rlw" "getInDimNames rlw = [''register'', ''lane'', ''warp'']"
    "set (getOutDimNames rlw) = set (standardOutDimNames ?r)"
    "getTotalInDimSizeLog2 rlw = bits (sizePerThread e) + bits (threadsPerWarp e) + bits (warpsPerCTA e)"
    using product_standard [OF rl(2) warps(2) rl(4) warps(4) s2] rl(5,6) regs(6) lanes(6) warps(5,6) lt b by fastforce
  have t: "getTotalInDimSizeLog2 rlw + bits shape + bits (CTAsPerCGA (blockedCTA e)) \<le> 64" using rlw(5) b by simp
  obtain l where l: "combineCtaCgaWithShape rlw (blockedCTA e) shape = Some l" "placed l"
    "outDims l = zip (standardOutDimNames ?r) shape" "supremum [''register'', ''lane'', ''warp''] [''block''] = Some (getInDimNames l)"
    using combine_grid [OF rlw(2,3) _ rlw(4) sh(3) g lens(4) sh(1) t] by auto
  have "supremum [''register'', ''lane'', ''warp''] [''block''] = Some [''register'', ''lane'', ''warp'', ''block'']" by code_simp
  then have ins: "getInDimNames l = [''register'', ''lane'', ''warp'', ''block'']" using l(4) by simp
  have outs: "getOutDimNames l = standardOutDimNames ?r" using l(3) by (simp add: getOutDimNames_def)
  have "blockedToLinearLayout e shape = Some l"
    by (simp add: blockedToLinearLayout_def regs(1) lanes(1) warps(1) rl(1) rlw(1) l(1))
  then show ?thesis using l(2,3) ins placedD(1) [OF l(2)] placed_surj(2) [OF l(2)] placed_verifies [OF l(2) ins outs] by blast
qed


end
