(* ===== verification/SwizzledShared.thy ===== *)
theory SwizzledShared
  imports BlockedLayouts
begin

text \<open>
  The conversion of swizzled shared encodings: a tile whose columns are exclusive-ored with a linear
  function of the row, combined with the CTAs. The adjustments to the shape leave such a tile as it is.
\<close>

section \<open>Layouts that already have the shape\<close>

lemma prod_unit:
  assumes w: "wf r" and k: "kDim \<in> set (getInDimNames r)" and d: "d \<in> set (getOutDimNames r)"
  shows "\<exists>p. layout_prod r (identity_layout 0 kDim d) = Some p \<and> wf p \<and> getInDimNames p = getInDimNames r \<and>
    getOutDimNames p = getOutDimNames r \<and> in_len p = in_len r \<and> out_len p = out_len r \<and> entry p = entry r \<and>
    getTotalInDimSizeLog2 p = getTotalInDimSizeLog2 r"
proof -
  let ?i = "identity_layout 0 kDim d"
  have zero: "(0::nat) < 31" by simp
  note i = identity_wf [OF zero, of kDim d]
  have dist: "distinct (getInDimNames r)" "distinct (getOutDimNames r)" using wf_names [OF w] by auto
  have "prod_fits r ?i" using wf_dims [OF w] out_len_lt [OF w] by (simp add: prod_fits_def i list_all_iff)
  then obtain p where p: "layout_prod r ?i = Some p" "wf p"
    "supremum (getInDimNames r) (getInDimNames ?i) = Some (getInDimNames p)"
    "supremum (getOutDimNames r) (getOutDimNames ?i) = Some (getOutDimNames p)"
    "getTotalInDimSizeLog2 p = getTotalInDimSizeLog2 r + getTotalInDimSizeLog2 ?i"
    "\<forall>d. in_len p d = in_len r d + in_len ?i d" "\<forall>od. out_len p od = out_len r od + out_len ?i od"
    "\<forall>x q od. entry p x q od = prod_entry r ?i x q od"
    using prod_named [OF w i(2)] by blast
  have "entry r x q od = 0" if "in_len r x \<le> q" for x q od using that by (simp add: entry_def)
  then have "entry p = entry r" using p(8) by (auto simp: fun_eq_iff prod_entry_eq i)
  then show ?thesis using p i supremum_in [OF dist(1) k] supremum_in [OF dist(2) d] by (simp add: fun_eq_iff)
qed

lemma grow_exact:
  assumes w: "wf l" and ins: "getInDimNames l = kDim # rest" and kd: "kDim \<in> {''register'', ''offset''}"
    and len: "length shape = length (outDims l)" and ne: "shape \<noteq> []"
    and sh: "\<And>d. d \<in> set (getOutDimNames l) \<Longrightarrow> shape_lookup shape d = 2 ^ out_len l d"
  shows "\<exists>r. ensureLayoutNotSmallerThan l shape = Some r \<and> wf r \<and> getInDimNames r = getInDimNames l \<and>
    getOutDimNames r = getOutDimNames l \<and> in_len r = in_len l \<and> out_len r = out_len l \<and> entry r = entry l \<and>
    getTotalInDimSizeLog2 r = getTotalInDimSizeLog2 l"
proof -
  have loop: "\<exists>r'. fold (grow l shape kDim) ds (Some r) = Some r' \<and> wf r' \<and> getInDimNames r' = getInDimNames l \<and>
      getOutDimNames r' = getOutDimNames l \<and> in_len r' = in_len l \<and> out_len r' = out_len l \<and> entry r' = entry l \<and>
      getTotalInDimSizeLog2 r' = getTotalInDimSizeLog2 l"
    if "wf r" "getInDimNames r = getInDimNames l" "getOutDimNames r = getOutDimNames l" "set ds \<subseteq> set (getOutDimNames l)"
      "in_len r = in_len l" "out_len r = out_len l" "entry r = entry l" "getTotalInDimSizeLog2 r = getTotalInDimSizeLog2 l" for ds r
    using that
  proof (induction ds arbitrary: r)
    case (Cons d ds)
    have d: "d \<in> set (getOutDimNames l)" "d \<in> set (getOutDimNames r)" "kDim \<in> set (getInDimNames r)"
      using Cons.prems ins by auto
    obtain p where p: "layout_prod r (identity_layout 0 kDim d) = Some p" "wf p" "getInDimNames p = getInDimNames r"
      "getOutDimNames p = getOutDimNames r" "in_len p = in_len r" "out_len p = out_len r" "entry p = entry r"
      "getTotalInDimSizeLog2 p = getTotalInDimSizeLog2 r"
      using prod_unit [OF Cons.prems(1) d(3,2)] by blast
    have one: "identity1D 1 kDim d = Some (identity_layout 0 kDim d)" using identity_wf(1) [of 0 kDim d] by simp
    have "the (getOutDimSize l d) = 2 ^ out_len l d" "getOutDimSize p d = Some (2 ^ out_len l d)"
      using getOutDimSize_len [OF d(1)] getOutDimSize_len [of d p] d p Cons.prems(6) by simp_all
    then have "grow l shape kDim d (Some r) = Some p"
      using sh [OF d(1)] one p(1) by (simp add: grow_def Let_def signed_divide_int_def)
    then show ?case using Cons.IH [OF p(2)] Cons.prems p by simp
  qed simp
  have "ensureLayoutNotSmallerThan l shape = fold (grow l shape kDim) (getOutDimNames l) (Some l)"
    using len ne ins kd by (auto simp: ensureLayoutNotSmallerThan_def grow_def [abs_def])
  then show ?thesis using loop [OF w refl refl subset_refl refl refl refl refl] by simp
qed

lemma shrink_exact:
  assumes w: "wf l" and len: "length shape = length (outDims l)" and ne: "shape \<noteq> []"
    and sh: "\<And>d. d \<in> set (getOutDimNames l) \<Longrightarrow> shape_lookup shape d = 2 ^ out_len l d"
  shows "\<exists>r. ensureLayoutNotLargerThan l shape True = Some r \<and> wf r \<and> bases r = bases l \<and> outDims r = outDims l"
proof -
  have skip: "shrink_step l shape (k, d) (Some x) = Some x" if "d \<in> set (getOutDimNames l)" for k d x
    using getOutDimSize_len [OF that] sh [OF that] by (simp add: shrink_step_def Let_def split: prod.splits)
  have fs: "fold (shrink_step l shape) ps (Some x) = Some x" if "\<forall>q \<in> set ps. snd q \<in> set (getOutDimNames l)" for ps x
    using that by (induction ps) (auto simp: skip)
  have d: "shrink_dims l shape True = Some (bases l, {})"
    unfolding shrink_dims_steps by (rule fs) (auto simp: in_set_enumerate_eq)
  have "(d, min s (shape_lookup shape d)) = (d, s)" if ds: "(d, s) \<in> set (outDims l)" for d s
  proof -
    have dn: "d \<in> set (getOutDimNames l)" using ds by (force simp: getOutDimNames_def)
    have "(d, s) \<in> set (map (\<lambda>d. (d, 2 ^ out_len l d)) (getOutDimNames l))" using ds outDims_named [OF w] by simp
    then have "s = 2 ^ out_len l d" by auto
    then show ?thesis using sh [OF dn] by simp
  qed
  then have o: "map (\<lambda>(d, s). (d, min s (shape_lookup shape d))) (outDims l) = outDims l"
    by (intro map_idI) auto
  have "layout_data \<lparr>bases = bases l, outDims = outDims l, rank = 0\<rparr>"
  proof -
    have "layout_data (l\<lparr>rank := 0\<rparr>)" using wf_layout_data [OF w] by (simp add: layout_data_def)
    moreover have "l\<lparr>rank := 0\<rparr> = \<lparr>bases = bases l, outDims = outDims l, rank = 0\<rparr>" by (cases l) simp
    ultimately show ?thesis by simp
  qed
  then obtain r where "mkLayout (bases l) (outDims l) False = Some r" "wf r" "bases r = bases l" "outDims r = outDims l"
    using mkLayout_total [of "bases l" "outDims l" False] by blast
  then show ?thesis using len ne d o by (simp add: ensureLayoutNotLargerThan_def)
qed

lemma entry_shape:
  assumes "bases a = bases b" and "outDims a = outDims b"
  shows "in_len a = in_len b" "out_len a = out_len b" "entry a = entry b" "getInDimNames a = getInDimNames b"
    "getOutDimNames a = getOutDimNames b" "getTotalInDimSizeLog2 a = getTotalInDimSizeLog2 b"
  using assms by (simp_all add: fun_eq_iff in_len_def out_len_def entry_def hasOutDim_def getOutDimNames_def getInDimNames_def
      getBasis_def getBasisVec_def getOutDimIndex_def getTotalInDimSizeLog2_def)

text \<open>
  A layout whose sizes are what one CTA holds of the shape is kept as it is for the first CTA.
\<close>

lemma combine_exact:
  assumes w: "wf l" and ins: "getInDimNames l = kDim # rest" and kd: "kDim \<in> {''register'', ''offset''}"
    and outs: "set (getOutDimNames l) = set (standardOutDimNames (length shape))"
    and ok: "cga_ok c (length shape) s n" and sh: "pow_shape shape k"
    and fit: "\<And>i. i < length shape \<Longrightarrow> out_len l (standardOutDimNames (length shape) ! i) = k i - min (s i) (k i)"
    and t: "getTotalInDimSizeLog2 l + sum_list (map n [0..<length shape]) \<le> 64" "sum_list (map k [0..<length shape]) \<le> 64"
  shows "\<exists>ret. combineCtaCgaWithShape l c shape = Some ret \<and> wf ret \<and> outDims ret = zip (standardOutDimNames (length shape)) shape \<and>
    supremum (kDim # rest) [''block''] = Some (getInDimNames ret) \<and>
    (\<forall>d. d \<noteq> ''block'' \<longrightarrow> in_len ret d = in_len l d) \<and> (\<forall>d p od. p < in_len l d \<longrightarrow> entry ret d p od = entry l d p od)"
proof -
  let ?r = "length shape" let ?N = "standardOutDimNames ?r"
  have dist: "distinct (getOutDimNames l)" using wf_names [OF w] by simp
  have k31: "\<And>i. i < ?r \<Longrightarrow> k i < 31" using sh by (auto simp: pow_shape_def)
  have tn: "sum_list (map n [0..<?r]) \<le> 64" using t by simp
  obtain g cs where g: "cga_part l c shape = Some (g, cs)" "placed g" "getInDimNames g = [''block'']" "getOutDimNames g = getOutDimNames l"
    "getTotalInDimSizeLog2 g = sum_list (map n [0..<?r])" "length cs = length (outDims l)" "cs \<noteq> []"
    "\<And>i. i < ?r \<Longrightarrow> out_len g (?N ! i) = min (s i) (k i)"
    "\<And>i. i < ?r \<Longrightarrow> shape_lookup cs (?N ! i) = 2 ^ (k i - min (s i) (k i))"
    using cga_part_total [OF w outs ok sh tn] by blast
  have shq: "shape_lookup cs d = 2 ^ out_len l d" if d: "d \<in> set (getOutDimNames l)" for d
    using standard_index [of d ?r] d outs g(9) fit by auto
  obtain l1 where l1: "ensureLayoutNotSmallerThan l cs = Some l1" "wf l1" "getInDimNames l1 = getInDimNames l"
    "getOutDimNames l1 = getOutDimNames l" "in_len l1 = in_len l" "out_len l1 = out_len l" "entry l1 = entry l"
    "getTotalInDimSizeLog2 l1 = getTotalInDimSizeLog2 l"
    using grow_exact [OF w ins kd g(6,7) shq] by blast
  have lq1: "length cs = length (outDims l1)" using l1(4) g(6) by (metis getOutDimNames_def length_map)
  have shq1: "shape_lookup cs d = 2 ^ out_len l1 d" if "d \<in> set (getOutDimNames l1)" for d using shq l1(4,6) that by simp
  obtain l2 where l2: "ensureLayoutNotLargerThan l1 cs True = Some l2" "wf l2" "bases l2 = bases l1" "outDims l2 = outDims l1"
    using shrink_exact [OF l1(2) lq1 g(7) shq1] by blast
  note e2 = entry_shape [OF l2(3,4)]
  have o3: "out_len l2 (?N ! i) + out_len g (?N ! i) = k i" if i: "i < ?r" for i
    using e2(2) l1(6) fit [OF i] g(8) [OF i] by simp
  have b3: "out_len l2 d + out_len g d < 31" for d
  proof (cases "d \<in> set ?N")
    case True
    then obtain i where "i < ?r" "d = ?N ! i" using standard_index by blast
    then show ?thesis using o3 k31 by simp
  next
    case False
    then show ?thesis using e2(5) l1(4) g(4) outs by (simp add: out_len_absent)
  qed
  have "getTotalOutDimSizeLog2 l2 + getTotalOutDimSizeLog2 g = sum_list (map (\<lambda>d. out_len l2 d + out_len g d) (getOutDimNames l))"
    using total_out_len [of l2] total_out_len [of g] e2(5) l1(4) g(4) dist by (simp add: sum_list_addf)
  also have "\<dots> = sum_list (map k [0..<?r])" by (rule sum_names [OF outs dist]) (rule o3)
  finally have "prod_fits l2 g" using b3 t e2(6) l1(8) g(5) by (auto simp: prod_fits_def list_all_iff)
  then obtain l3 where l3: "layout_prod l2 g = Some l3" "wf l3" "supremum (getInDimNames l2) (getInDimNames g) = Some (getInDimNames l3)"
    "set (getOutDimNames l3) = set (getOutDimNames l2) \<union> set (getOutDimNames g)" "\<forall>d. in_len l3 d = in_len l2 d + in_len g d"
    "\<forall>od. out_len l3 od = out_len l2 od + out_len g od" "\<forall>d q od. entry l3 d q od = prod_entry l2 g d q od"
    using prod_named [OF l2(2) placedD(1) [OF g(2)]] by blast
  have st3: "set (getOutDimNames l3) = set ?N" using l3(4) e2(5) l1(4) g(4) outs by simp
  have o3': "out_len l3 (?N ! i) = k i" if "i < ?r" for i using l3(6) o3 [OF that] by simp
  obtain ret where ret: "fit_part l g cs shape = Some ret" "wf ret" "outDims ret = zip ?N shape"
    "getInDimNames ret = getInDimNames l3" "in_len ret = in_len l3" "entry ret = entry l3"
    using fit_part_total [OF l1(1) l2(1) l3(1,2) sh st3 o3'] by blast
  have "combineCtaCgaWithShape l c shape = Some ret"
    using combine_parts [OF outDims_count [OF w outs]] ok g(1) ret(1) by (simp add: cga_ok_def)
  moreover have "supremum (kDim # rest) [''block''] = Some (getInDimNames ret)"
    using l3(3) e2(4) l1(3) g(3) ins ret(4) by simp
  moreover have "in_len ret d = in_len l d" if "d \<noteq> ''block''" for d
    using that ret(5) l3(5) e2(1) l1(5) in_len_absent [of d g] g(3) by simp
  moreover have "entry ret d p od = entry l d p od" if "p < in_len l d" for d p od
    using that ret(6) l3(7) e2(1,3) l1(5,7) by (simp add: prod_entry_eq)
  ultimately show ?thesis using ret(2,3) by blast
qed

section \<open>The sizes a constructor infers\<close>

lemma log2_nat_less: "0 < n \<Longrightarrow> n < 2 ^ b \<Longrightarrow> log2_nat n < b"
proof (induction n arbitrary: b rule: log2_nat.induct)
  case (1 n)
  show ?case
  proof (cases "n \<le> 1")
    case True
    then have "b \<noteq> 0" using 1(2,3) by (cases b) auto
    then show ?thesis using True by (simp add: log2_nat.simps [of n])
  next
    case False
    then obtain b' where b: "b = Suc b'" using 1(3) by (cases b) auto
    have "log2_nat (n div 2) < b'" using 1(1) [OF False, of b'] False 1(3) b by auto
    then show ?thesis using False b by (simp add: log2_nat.simps [of n])
  qed
qed

lemma nextPow_exp: "j < 30 \<Longrightarrow> nextPowerOf2_32 (2 ^ j) = 2 ^ Suc j"
proof -
  assume j: "j < 30"
  have n: "nat ((2::int) ^ j) = 2 ^ j" by (simp add: nat_power_eq)
  have "(2::int) ^ Suc j < 2 ^ 31" using j by (intro power_strict_increasing) auto
  moreover have "- (2 ^ 31) \<le> (2::int) ^ Suc j" by (rule order_trans [of _ 0]) simp_all
  ultimately have "signed_take_bit 31 ((2::int) ^ Suc j) = 2 ^ Suc j" by (intro signed_take_bit_int_eq_self)
  then show ?thesis by (simp add: nextPowerOf2_32_def n del: power_Suc)
qed

lemma nextPow_le:
  assumes "0 \<le> x" and "x < 2 ^ b" and "b < 31"
  shows "nextPowerOf2_32 x \<le> 2 ^ b" "1 \<le> nextPowerOf2_32 x"
proof -
  have "nextPowerOf2_32 x \<le> 2 ^ b \<and> 1 \<le> nextPowerOf2_32 x"
  proof (cases "x = 0")
    case False
    have "nat x < 2 ^ b" using assms by (simp add: nat_less_iff)
    then have l: "log2_nat (nat x) < b" using log2_nat_less False assms(1) by simp
    let ?p = "(2::int) ^ Suc (log2_nat (nat x))"
    have p: "?p \<le> 2 ^ b" using l by (intro power_increasing) auto
    moreover have "(2::int) ^ b < 2 ^ 31" using assms(3) by (intro power_strict_increasing) auto
    moreover have "- (2 ^ 31) \<le> ?p" by (rule order_trans [of _ 0]) simp_all
    ultimately have "signed_take_bit 31 ?p = ?p" by (intro signed_take_bit_int_eq_self) linarith+
    moreover have "1 \<le> ?p" by (rule one_le_power) simp
    ultimately show ?thesis using p False assms(1) by (simp add: nextPowerOf2_32_def del: power_Suc)
  qed (simp add: nextPowerOf2_32_def)
  then show "nextPowerOf2_32 x \<le> 2 ^ b" "1 \<le> nextPowerOf2_32 x" by auto
qed

lemma update_zip:
  assumes "n \<notin> set pre" and "length pre = length ps"
  shows "AList.update n v (zip (pre @ n # suf) (ps @ s # ss)) = zip (pre @ n # suf) (ps @ v # ss)"
    "map_of (zip (pre @ n # suf) (ps @ s # ss)) n = Some s"
  using assms(2,1) by (induction pre ps rule: list_induct2) auto

lemma sizes_step:
  assumes "distinct (pre @ suf)" and "length pre = length ps" and "length ss = length suf" and "length b = length suf"
  shows "fold (\<lambda>(name, x) sz. AList.update name (max (the (map_of sz name)) (nextPowerOf2_32 x)) sz) (zip suf b)
      (zip (pre @ suf) (ps @ ss)) = zip (pre @ suf) (ps @ map2 (\<lambda>s x. max s (nextPowerOf2_32 x)) ss b)"
  using assms
proof (induction suf arbitrary: pre ps ss b)
  case (Cons n suf)
  obtain s ss' x b' where e: "ss = s # ss'" "b = x # b'" using Cons.prems(3,4) by (cases ss; cases b) auto
  let ?v = "max s (nextPowerOf2_32 x)"
  have n: "n \<notin> set pre" using Cons.prems(1) by simp
  have IH: "fold (\<lambda>(name, x) sz. AList.update name (max (the (map_of sz name)) (nextPowerOf2_32 x)) sz) (zip suf b')
      (zip ((pre @ [n]) @ suf) ((ps @ [?v]) @ ss')) = zip ((pre @ [n]) @ suf) ((ps @ [?v]) @ map2 (\<lambda>s x. max s (nextPowerOf2_32 x)) ss' b')"
    using Cons.prems e by (intro Cons.IH) auto
  then show ?case using update_zip [OF n Cons.prems(2)] e by simp
qed simp

lemma infer_sizes_eq:
  assumes "distinct names" and "\<And>b. b \<in> set (concat (map snd bs)) \<Longrightarrow> length b = length names"
  shows "infer_sizes names bs = zip names
    (fold (\<lambda>b ss. map2 (\<lambda>s x. max s (nextPowerOf2_32 x)) ss b) (concat (map snd bs)) (replicate (length names) 1))"
proof -
  have "fold (\<lambda>b sizes. fold (\<lambda>(name, x) sz.
             AList.update name (max (the (map_of sz name)) (nextPowerOf2_32 x)) sz) (zip names b) sizes) cols (zip names ss) =
        zip names (fold (\<lambda>b ss. map2 (\<lambda>s x. max s (nextPowerOf2_32 x)) ss b) cols ss)"
    if "length ss = length names" "\<forall>b \<in> set cols. length b = length names" for cols ss
    using that
  proof (induction cols arbitrary: ss)
    case (Cons b cols)
    then show ?case using sizes_step [of "[]" names "[]" ss b] assms(1) by simp
  qed simp
  moreover have "mapvec (map (\<lambda>n. (n, 1 :: int)) names) = zip names (replicate (length names) 1)"
    using assms(1) by (simp add: comp_def zip_replicate2)
  ultimately show ?thesis unfolding infer_sizes_def using assms(2) by simp
qed

section \<open>The tile\<close>

definition linear_rows :: "(int \<Rightarrow> int) \<Rightarrow> nat \<Rightarrow> bool" where
  "linear_rows F b \<longleftrightarrow> (\<forall>x y. F (x XOR y) = F x XOR F y) \<and> (\<forall>x. fits_width (F x) b)"

lemma linear_rows_zero: "linear_rows F b \<Longrightarrow> F 0 = 0"
  by (metis linear_rows_def xor_self_eq)

lemma xlin_linear:
  assumes "linear_rows F b" shows "xlin cs (map F xs) = F (xlin cs xs)"
  using assms linear_rows_zero [OF assms] by (induction cs xs rule: xlin.induct) (auto simp: linear_rows_def)

definition tile_bases :: "nat \<Rightarrow> nat \<Rightarrow> (int \<Rightarrow> int) \<Rightarrow> int list list" where
  "tile_bases a b F = map (\<lambda>j. [0, 2 ^ j]) [0..<b] @ map (\<lambda>i. [2 ^ i, F (2 ^ i)]) [0..<a]"

lemma tile_sizes:
  assumes "a < 31" and "b < 31" and "linear_rows F b" and "rn \<noteq> cn"
  shows "infer_sizes [rn, cn] [(''offset'', tile_bases a b F)] = [(rn, 2 ^ a), (cn, 2 ^ b)]"
proof -
  let ?f = "fold (\<lambda>b ss. map2 (\<lambda>s x. max s (nextPowerOf2_32 x)) ss b) :: int list list \<Rightarrow> int list \<Rightarrow> int list"
  have cols: "?f (map (\<lambda>j. [0, 2 ^ j]) [0..<n]) [1, 1] = [1, 2 ^ n]" if "n < 31" for n
    using that
  proof (induction n)
    case (Suc n)
    then show ?case using nextPow_exp [of n] nextPow_le [of 0 0] by (simp add: max_def nextPowerOf2_32_def del: power_Suc)
  qed simp
  have rows: "?f (map (\<lambda>i. [2 ^ i, F (2 ^ i)]) [0..<n]) [1, 2 ^ b] = [2 ^ n, 2 ^ b]" if "n < 31" for n
    using that
  proof (induction n)
    case (Suc n)
    have "fits_width (F (2 ^ n)) b" using assms(3) by (simp add: linear_rows_def)
    then have "nextPowerOf2_32 (F (2 ^ n)) \<le> 2 ^ b" using nextPow_le [of "F (2 ^ n)" b] assms(2) by (simp add: fits_width_def)
    then show ?case using Suc nextPow_exp [of n] by (simp add: max_def del: power_Suc)
  qed simp
  show ?thesis
    using cols [OF assms(2)] rows [OF assms(1)] assms(4)
    by (subst infer_sizes_eq) (auto simp: tile_bases_def numeral_2_eq_2)
qed

text \<open>The tile returns, and maps an offset to its row and to its column exclusive-ored with the row's shift.\<close>

lemma tile_total:
  assumes ab: "a < 31" "b < 31" and F: "linear_rows F b" and n: "rn \<noteq> cn"
  shows "\<exists>t. mkLayoutInfer [(''offset'', tile_bases a b F)] [rn, cn] = Some t \<and> wf t \<and>
    bases t = [(''offset'', tile_bases a b F)] \<and> outDims t = [(rn, 2 ^ a), (cn, 2 ^ b)] \<and>
    (\<forall>cs. out_vals t cs = [xlin cs (replicate b 0 @ map (\<lambda>i. 2 ^ i) [0..<a]),
       xlin cs (map (\<lambda>j. 2 ^ j) [0..<b] @ map F (map (\<lambda>i. 2 ^ i) [0..<a]))])"
proof -
  let ?l = "\<lparr>bases = [(''offset'', tile_bases a b F)], outDims = [(rn, 2 ^ a), (cn, 2 ^ b)], rank = 0\<rparr>"
  have Fi: "0 \<le> F x \<and> F x < 2 ^ b" for x using F by (simp add: linear_rows_def fits_width_def)
  have lg: "log2_32 (2 ^ a) = a" "log2_32 (2 ^ b) = b" using ab by simp_all
  have ci: "getTotalInDimSizeLog2 ?l = b + a" "getTotalOutDimSizeLog2 ?l = a + b"
    by (simp_all add: getTotalInDimSizeLog2_def getTotalOutDimSizeLog2_def tile_bases_def lg)
  have "good_column [(rn, 2 ^ a), (cn, 2 ^ b)] c" if c: "c \<in> set (tile_bases a b F)" for c
    using c Fi by (auto simp: tile_bases_def good_column_def)
  then have data: "layout_data ?l" using ab n ci
    by (auto simp: layout_data_def getInDimNames_def getOutDimNames_def small_pow_iff list_all_iff columns_def)
  have comps: "comp_of 0 (columns ?l) = replicate b 0 @ map (\<lambda>i. 2 ^ i) [0..<a]"
    "comp_of 1 (columns ?l) = map (\<lambda>j. 2 ^ j) [0..<b] @ map F (map (\<lambda>i. 2 ^ i) [0..<a])"
    by (simp_all add: comp_of_def columns_def tile_bases_def comp_def map_replicate_const)
  have ov: "out_vals ?l cs = [xlin cs (replicate b 0 @ map (\<lambda>i. 2 ^ i) [0..<a]),
       xlin cs (map (\<lambda>j. 2 ^ j) [0..<b] @ map F (map (\<lambda>i. 2 ^ i) [0..<a]))]" for cs
    using comps by (simp add: out_vals_def)
  have zeros: "xlin cs (replicate b 0) = 0" for cs by (rule xlin_zero) simp
  have parts: "out_vals ?l (bits_of c b @ bits_of r a) = [take_bit a r, take_bit b c XOR F (take_bit a r)]" for c r
    unfolding ov by (simp add: xlin_append zeros xlin_pows xlin_linear [OF F] del: map_map)
  have "surj_vals ?l" unfolding surj_vals_def
  proof (intro allI impI)
    fix vs assume "list_all2 fits_width vs (out_widths ?l)"
    then obtain r c where v: "vs = [r, c]" "fits_width r a" "fits_width c b"
      by (auto simp: out_widths_def lg list_all2_Cons2)
    have "fits_width (c XOR F r) b" using v(3) F by (simp add: fits_width_xor linear_rows_def)
    then have "out_vals ?l (bits_of (c XOR F r) b @ bits_of r a) = vs"
      using v fits_width_take [of "F r" b] F by (simp add: parts fits_width_take xor.assoc linear_rows_def)
    then show "\<exists>cs. length cs = getTotalInDimSizeLog2 ?l \<and> out_vals ?l cs = vs"
      using ci by (intro exI [of _ "bits_of (c XOR F r) b @ bits_of r a"]) simp
  qed
  then obtain t where t: "mkLayout [(''offset'', tile_bases a b F)] [(rn, 2 ^ a), (cn, 2 ^ b)] True = Some t" "wf t"
    "bases t = [(''offset'', tile_bases a b F)]" "outDims t = [(rn, 2 ^ a), (cn, 2 ^ b)]"
    using mkLayout_total [OF data] by blast
  have "list_all (\<lambda>b. length b \<le> 2) (tile_bases a b F)" by (auto simp: tile_bases_def list_all_iff)
  then have "mkLayoutInfer [(''offset'', tile_bases a b F)] [rn, cn] = Some t"
    using t(1) tile_sizes [OF ab F n] by (simp add: mkLayoutInfer_def numeral_2_eq_2)
  moreover have "out_vals t = out_vals ?l" using t(3,4) same_shape(3) [of t ?l] by (simp add: fun_eq_iff)
  ultimately show ?thesis using t ov by auto
qed

lemma bits_of_split: "bits_of v (m + n) = bits_of (take_bit m v) m @ bits_of (drop_bit m v) n"
  unfolding bits_of_add by (intro arg_cong2 [where f = "(@)"] nth_equalityI) (auto simp: bit_take_bit_iff)

lemma tile_dcomp:
  assumes ab: "a < 31" "b < 31" and F: "linear_rows F b" and n: "rn \<noteq> cn" and w: "wf t"
    and t: "bases t = [(''offset'', tile_bases a b F)]" "outDims t = [(rn, 2 ^ a), (cn, 2 ^ b)]"
    and ov: "\<And>cs. out_vals t cs = [xlin cs (replicate b 0 @ map (\<lambda>i. 2 ^ i) [0..<a]),
       xlin cs (map (\<lambda>j. 2 ^ j) [0..<b] @ map F (map (\<lambda>i. 2 ^ i) [0..<a]))]"
  shows "dcomp t rn vals = take_bit a (drop_bit b (vals ''offset''))"
    "dcomp t cn vals = take_bit b (vals ''offset'') XOR F (take_bit a (drop_bit b (vals ''offset'')))"
proof -
  have names: "getInDimNames t = [''offset'']" "getOutDimNames t = [rn, cn]"
    using t by (simp_all add: getInDimNames_def getOutDimNames_def)
  let ?o = "vals ''offset''"
  have il: "length (tile_bases a b F) = b + a" by (simp add: tile_bases_def)
  have c: "coefs t [(''offset'', ?o)] = bits_of ?o (b + a)" using t il by (simp add: coefs_def)
  have zeros: "xlin cs (replicate b 0) = 0" for cs by (rule xlin_zero) simp
  have "out_vals t (bits_of ?o (b + a)) = [take_bit a (drop_bit b ?o), take_bit b ?o XOR F (take_bit a (drop_bit b ?o))]"
    unfolding ov bits_of_split by (simp add: xlin_append zeros xlin_pows xlin_linear [OF F] del: map_map)
  moreover have oc: "out_vals t (coefs t [(''offset'', ?o)]) ! k = dcomp t (getOutDimNames t ! k) (\<lambda>d. the (map_of [(''offset'', ?o)] d))"
    if "k < 2" for k
    using out_vals_dcomp [OF wf_wide [OF w], of k "[(''offset'', ?o)]"] wf_names [OF w] that t(2) by simp
  moreover have "dcomp t od (\<lambda>d. the (map_of [(''offset'', ?o)] d)) = dcomp t od vals" for od
    by (rule dcomp_cong) (simp add: names)
  ultimately show "dcomp t rn vals = take_bit a (drop_bit b ?o)"
    "dcomp t cn vals = take_bit b ?o XOR F (take_bit a (drop_bit b ?o))"
    using oc [of 0] oc [of 1] unfolding c by (simp_all add: names)
qed

section \<open>The exclusive or of a row\<close>

definition row_shift :: "nat \<Rightarrow> nat \<Rightarrow> nat \<Rightarrow> nat \<Rightarrow> int \<Rightarrow> int" where
  "row_shift b v p m x = take_bit b (push_bit v (take_bit m (drop_bit p x)))"

lemma row_shift_linear: "linear_rows (row_shift b v p m) b"
  by (auto simp: linear_rows_def row_shift_def drop_bit_xor take_bit_xor push_bit_xor fits_width_def take_bit_int_less_exp)

lemma row_shift_eq: "0 \<le> x \<Longrightarrow> row_shift b v p m x = 2 ^ v * (x div 2 ^ p mod 2 ^ m) mod 2 ^ b"
  by (simp add: row_shift_def take_bit_eq_mod push_bit_eq_mult drop_bit_eq_div mult.commute)

lemma signed_nonneg: "0 \<le> x \<Longrightarrow> 0 < y \<Longrightarrow> x sdiv y = x div (y::int)" "0 \<le> x \<Longrightarrow> 0 < y \<Longrightarrow> x smod y = x mod (y::int)"
proof -
  show d: "0 \<le> x \<Longrightarrow> 0 < y \<Longrightarrow> x sdiv y = x div y" by (cases "x = 0") (simp_all add: signed_divide_int_def)
  show "0 \<le> x \<Longrightarrow> 0 < y \<Longrightarrow> x smod y = x mod y"
    by (cases "x = 0") (simp_all add: signed_modulo_int_def)
qed

lemma swizzled_col_eq:
  assumes "vec e = 2 ^ v" and "perPhase e = 2 ^ p" and "maxPhase e = 2 ^ m" and "0 \<le> x"
  shows "swizzled_col e (2 ^ b) x = Some (row_shift b v p m x)"
proof -
  have "0 \<le> x div 2 ^ p" "0 \<le> 2 ^ v * (x div 2 ^ p mod 2 ^ m)" using assms(4) by (simp_all add: pos_imp_zdiv_nonneg_iff)
  then show ?thesis
    using assms by (simp add: swizzled_col_def cdiv_def signed_nonneg row_shift_eq)
qed

lemma swizzle_bases_eq:
  assumes "\<And>i. colOf (2 ^ i) = Some (F (2 ^ i))"
  shows "swizzle_bases (2 ^ a) (2 ^ b) colOf = Some (tile_bases a b F)"
proof -
  have "those (map (\<lambda>row. map_option (\<lambda>c. [row, c]) (colOf row)) (map (\<lambda>i. 2 ^ i) [0..<a])) =
      Some (map (\<lambda>row. [row, F row]) (map (\<lambda>i. 2 ^ i) [0..<a]))"
    by (rule those_map_total) (auto simp: assms)
  then show ?thesis using pow2s_below_pow [of 1 0 a] pow2s_below_pow [of 1 0 b]
    by (simp add: swizzle_bases_def tile_bases_def comp_def)
qed

lemma swizzled_tile_total:
  assumes sh: "length shape = 2" "pow_shape shape k" and ok: "cga_ok c 2 s n" and d: "{rd, cd} = {0, 1}"
    and t: "k 0 + k 1 + n 0 + n 1 \<le> 64" and q: "\<And>i. q i = k i - min (s i) (k i)"
    and T: "mkLayoutInfer [(''offset'', tile_bases (q rd) (q cd) F)] [standardOutDimNames 2 ! rd, standardOutDimNames 2 ! cd] = Some t"
    and F: "linear_rows F (q cd)"
  shows "\<exists>l. combineCtaCgaWithShape t c shape = Some l \<and> wf l \<and> getInDimNames l = [''offset'', ''block''] \<and>
    outDims l = zip (standardOutDimNames 2) shape \<and> in_len l ''offset'' = q 0 + q 1 \<and>
    (\<forall>x y. 0 \<le> x \<and> x < 2 ^ q rd \<and> 0 \<le> y \<and> y < 2 ^ q cd \<longrightarrow>
       apply_layout l [(''offset'', x * 2 ^ q cd + y), (''block'', 0)] =
       Some (map (\<lambda>i. (standardOutDimNames 2 ! i, if i = rd then x else y XOR F x)) [0, 1]))"
proof -
  let ?N = "standardOutDimNames 2" and ?a = "q rd" and ?b = "q cd"
  have i2: "i = rd \<or> i = cd" if "i < 2" for i using less_2_cases [OF that] d by (auto simp: doubleton_eq_iff)
  have rc: "rd < 2" "cd < 2" "rd \<noteq> cd" using d by (auto simp: doubleton_eq_iff)
  have k31: "k i < 31" if "i < 2" for i using sh that by (simp add: pow_shape_def)
  have ab: "?a < 31" "?b < 31" using k31 rc q by (simp_all add: less_imp_diff_less)
  have ne: "?N ! rd \<noteq> ?N ! cd" using standard_names_eq [OF rc(1,2)] rc(3) by simp
  obtain t' where t': "mkLayoutInfer [(''offset'', tile_bases ?a ?b F)] [?N ! rd, ?N ! cd] = Some t'" "wf t'"
    "bases t' = [(''offset'', tile_bases ?a ?b F)]" "outDims t' = [(?N ! rd, 2 ^ ?a), (?N ! cd, 2 ^ ?b)]"
    "\<forall>cs. out_vals t' cs = [xlin cs (replicate ?b 0 @ map (\<lambda>i. 2 ^ i) [0..<?a]),
       xlin cs (map (\<lambda>j. 2 ^ j) [0..<?b] @ map F (map (\<lambda>i. 2 ^ i) [0..<?a]))]"
    using tile_total [OF ab F ne] by blast
  have tt: "t' = t" using T t'(1) by simp
  note w = t'(2) [unfolded tt]
  note dc = tile_dcomp [OF ab F ne w t'(3,4) [unfolded tt] t'(5) [unfolded tt, rule_format]]
  have ins: "getInDimNames t = [''offset'']" and outs: "getOutDimNames t = [?N ! rd, ?N ! cd]"
    using t'(3,4) tt by (simp_all add: getInDimNames_def getOutDimNames_def)
  have il: "in_len t ''offset'' = ?b + ?a" using t'(3) tt by (simp add: in_len_def tile_bases_def)
  have N2: "set ?N = {?N ! rd, ?N ! cd}"
  proof -
    have "set ?N = (\<lambda>i. ?N ! i) ` {..<2}" by (simp add: set_conv_nth image_def Bex_def conj_commute)
    also have "{..<2} = {0, 1 :: nat}" by (simp add: numeral_2_eq_2 lessThan_Suc insert_commute)
    also have "\<dots> = {rd, cd}" using d by (rule sym)
    finally show ?thesis by simp
  qed
  have ol: "out_len t (standardOutDimNames (length shape) ! i) = k i - min (s i) (k i)" if "i < length shape" for i
  proof -
    have "map_of (outDims t) (?N ! i) = Some (2 ^ q i)" using that i2 [of i] sh(1) t'(4) tt ne by auto
    moreover have "q i < 32" using that i2 [of i] sh(1) ab by auto
    ultimately show ?thesis by (simp add: out_len_def q sh(1))
  qed
  have tot: "getTotalInDimSizeLog2 t + sum_list (map n [0..<length shape]) \<le> 64" "sum_list (map k [0..<length shape]) \<le> 64"
  proof -
    have "getTotalInDimSizeLog2 t = ?b + ?a" using t'(3) tt by (simp add: getTotalInDimSizeLog2_def tile_bases_def)
    moreover have "?a + ?b \<le> k 0 + k 1"
    proof -
      have "q 0 + q 1 \<le> k 0 + k 1" using q by (simp add: add_mono)
      then show ?thesis using d by (auto simp: doubleton_eq_iff add.commute)
    qed
    moreover have "[0..<length shape] = [0, 1]" using sh(1) by (simp add: numeral_2_eq_2)
    ultimately show "getTotalInDimSizeLog2 t + sum_list (map n [0..<length shape]) \<le> 64" "sum_list (map k [0..<length shape]) \<le> 64"
      using t by simp_all
  qed
  have so: "set (getOutDimNames t) = set (standardOutDimNames (length shape))" using outs N2 sh(1) by simp
  have ok': "cga_ok c (length shape) s n" using ok sh(1) by simp
  obtain l where l: "combineCtaCgaWithShape t c shape = Some l" "wf l" "outDims l = zip ?N shape"
    "supremum [''offset''] [''block''] = Some (getInDimNames l)" "\<forall>d. d \<noteq> ''block'' \<longrightarrow> in_len l d = in_len t d"
    "\<forall>d p od. p < in_len t d \<longrightarrow> entry l d p od = entry t d p od"
    using combine_exact [OF w ins _ so ok' sh(2) ol tot] sh(1) by auto
  have s2: "supremum [''offset''] [''block''] = Some [''offset'', ''block'']" by code_simp
  then have il': "getInDimNames l = [''offset'', ''block'']" using l(4) by simp
  have on: "getOutDimNames l = ?N" using l(3) sh(1) by (simp add: getOutDimNames_def)
  have ilo: "in_len l ''offset'' = in_len t ''offset''" using l(5) by simp
  have dl: "dcomp l od vals = dcomp t od vals" if "vals ''block'' = 0" for od vals
  proof -
    have "map (\<lambda>p. entry l ''offset'' p od) [0..<in_len t ''offset''] = map (\<lambda>p. entry t ''offset'' p od) [0..<in_len t ''offset'']"
      by (rule map_cong) (use l(6) in auto)
    then have "contrib l od ''offset'' v = contrib t od ''offset'' v" for v by (simp only: contrib_def ilo)
    then show ?thesis using that by (simp add: dcomp_def il' ins)
  qed
  have "apply_layout l [(''offset'', x * 2 ^ ?b + y), (''block'', 0)] =
       Some (map (\<lambda>i. (?N ! i, if i = rd then x else y XOR F x)) [0, 1])"
    if xy: "0 \<le> x" "x < 2 ^ ?a" "0 \<le> y" "y < 2 ^ ?b" for x y
  proof -
    let ?x = "[(''offset'', x * 2 ^ ?b + y), (''block'', 0)]"
    have fx: "take_bit ?a x = x" "take_bit ?b (x * 2 ^ ?b + y) = y" "drop_bit ?b (x * 2 ^ ?b + y) = x"
      using xy by (simp_all add: take_bit_eq_mod drop_bit_eq_div)
    have v: "dcomp l od (\<lambda>d. the (map_of ?x d)) = dcomp t od (\<lambda>d. the (map_of ?x d))" for od by (rule dl) simp
    have "dcomp l (?N ! i) (\<lambda>d. the (map_of ?x d)) = (if i = rd then x else y XOR F x)" if "i < 2" for i
      using i2 [OF that] rc(3) dc [of "\<lambda>d. the (map_of ?x d)"] fx unfolding v by auto
    then have e: "map (\<lambda>i. (?N ! i, dcomp l (?N ! i) (\<lambda>d. the (map_of ?x d)))) [0, 1] =
        map (\<lambda>i. (?N ! i, if i = rd then x else y XOR F x)) [0, 1]" by simp
    have n2: "?N = map (\<lambda>i. ?N ! i) [0, 1]" by (intro nth_equalityI) (auto simp: less_2_cases_iff)
    have "apply_layout l ?x = Some (map (\<lambda>od. (od, dcomp l od (\<lambda>d. the (map_of ?x d)))) ?N)"
      using apply_named [OF l(2), of ?x] il' on by simp
    also have "map (\<lambda>od. (od, dcomp l od (\<lambda>d. the (map_of ?x d)))) ?N =
        map (\<lambda>od. (od, dcomp l od (\<lambda>d. the (map_of ?x d)))) (map (\<lambda>i. ?N ! i) [0, 1])" by (rule arg_cong [OF n2])
    also have "\<dots> = map (\<lambda>i. (?N ! i, if i = rd then x else y XOR F x)) [0, 1]"
      unfolding map_map comp_def by (rule e)
    finally show ?thesis .
  qed
  moreover have "in_len l ''offset'' = q 0 + q 1" using ilo il d by (auto simp: doubleton_eq_iff)
  ultimately show ?thesis using l(1-3) il' by blast
qed

section \<open>Two dimensions\<close>

lemma order_pair:
  assumes "isPermutationOfIota ord" "length ord = 2"
  shows "ord = [ord ! 0, ord ! 1] \<and> {ord ! 1, ord ! 0} = {0, 1} \<and> ord ! 1 < 2 \<and> ord ! 0 < 2"
proof -
  have o: "ord = [ord ! 0, ord ! 1]" using assms(2) by (intro nth_equalityI) (auto simp: less_2_cases_iff)
  have "set ord = {..<2}" using assms isPermutation_iff [of ord] by simp
  then have "{ord ! 1, ord ! 0} = {..<2}" using o by (metis insert_commute list.set(1,2))
  then have "{ord ! 1, ord ! 0} = {0, 1}" by (simp add: lessThan_Suc numeral_2_eq_2 insert_commute)
  then show ?thesis using o by (auto simp: doubleton_eq_iff)
qed

lemma bits_pair: "length xs = 2 \<Longrightarrow> bits xs = log2_32 (xs ! 0) + log2_32 (xs ! 1)"
  by (simp add: bits_nth numeral_2_eq_2)

end
