(* ===== verification/BlockedBuilder.thy ===== *)
theory BlockedBuilder
  imports BlockedLayouts
begin

text \<open>
  The builders of blocked encodings spread lanes, warps and CTAs over the dimensions; for powers of two
  nothing is lost to rounding and the products come out as asked.
\<close>

lemma clamp_pow: "clamp (2 ^ x) 1 (2 ^ y) = Some (2 ^ min x y)"
proof -
  have o: "\<not> (2::int) ^ x < 1" "\<not> (2::int) ^ y < 1" by (simp_all add: not_less)
  have "(2::int) ^ y < 2 ^ x \<longleftrightarrow> \<not> x \<le> y" by auto
  then show ?thesis using o by (auto simp: clamp_def min_def)
qed

lemma cdiv_pow: "y \<le> x \<Longrightarrow> cdiv (2 ^ x) (2 ^ y) = Some (2 ^ (x - y))"
  by (simp add: cdiv_def signed_divide_int_def power_diff)

lemma fit_pow: "\<exists>f. cdiv (2 ^ s) (2 ^ z) = Some f \<and> max 1 f = 2 ^ (s - z)"
proof (cases "z \<le> s")
  case True
  then show ?thesis using cdiv_pow [OF True] by simp
next
  case False
  then show ?thesis by (simp add: cdiv_def signed_divide_int_def)
qed

lemma spread_threads_step:
  assumes i: "i < length shapePer" "i < length spt" "shapePer ! i = 2 ^ s" "spt ! i = 2 ^ z"
  shows "\<exists>t w. t \<le> L \<and> w \<le> W \<and>
    spread_threads shapePer spt (i # is) (2 ^ L, 2 ^ (L + W), 2 ^ W, 2 ^ P, 2 ^ Q) tpw wpc =
    spread_threads shapePer spt is (2 ^ (L - t), 2 ^ ((L - t) + (W - w)), 2 ^ (W - w), 2 ^ (P + t), 2 ^ (Q + w)) (tpw[i := 2 ^ t]) (wpc[i := 2 ^ w])"
proof -
  obtain f where f: "cdiv (2 ^ s) (2 ^ z) = Some f" "max 1 f = 2 ^ (s - z)" using fit_pow by blast
  define x where "x = min (L + W) (s - z)"
  define t where "t = min x L"
  define w where "w = x - t"
  have b: "t \<le> L" "w \<le> W" "t \<le> x" "x \<le> L + W" "t + w = x"
  proof -
    show "t \<le> L" "t \<le> x" by (simp_all add: t_def)
    show "x \<le> L + W" by (simp add: x_def)
    show "w \<le> W" by (auto simp: x_def t_def w_def)
    show "t + w = x" using \<open>t \<le> x\<close> by (simp add: w_def)
  qed
  have "clamp (2 ^ (L + W)) 1 (max 1 f) = Some (2 ^ x)" using f(2) clamp_pow by (simp add: x_def)
  moreover have "clamp (2 ^ x) 1 (2 ^ L) = Some (2 ^ t)" using clamp_pow by (simp add: t_def)
  moreover have "cdiv (2 ^ x) (2 ^ t) = Some (2 ^ w)" using cdiv_pow [OF b(3)] by (simp add: w_def)
  moreover have "clamp (2 ^ w) 1 (2 ^ W) = Some (2 ^ w)" using clamp_pow [of w W] b(2) by (simp add: min_def)
  moreover have "cdiv (2 ^ (L + W)) (2 ^ x) = Some (2 ^ ((L - t) + (W - w)))"
  proof -
    have "L + W - x = (L - t) + (W - w)" using b by linarith
    then show ?thesis using cdiv_pow [OF b(4)] by simp
  qed
  ultimately show ?thesis using i f(1) b cdiv_pow
    by (intro exI [of _ t] exI [of _ w]) (simp add: power_add)
qed

lemma spread_threads_pow:
  assumes "\<And>i. i \<in> set is \<Longrightarrow> i < length shapePer \<and> i < length spt \<and> shapePer ! i = 2 ^ s i \<and> spt ! i = 2 ^ z i \<and> i < length tpw"
    and "distinct is" and "length wpc = length tpw"
  shows "\<exists>a b T U. spread_threads shapePer spt is (2 ^ L, 2 ^ (L + W), 2 ^ W, 2 ^ P, 2 ^ Q) tpw wpc =
      Some (2 ^ (P + sum_list (map a is)), 2 ^ (Q + sum_list (map b is)), T, U) \<and>
    sum_list (map a is) \<le> L \<and> sum_list (map b is) \<le> W \<and> length T = length tpw \<and> length U = length tpw \<and>
    (\<forall>j < length tpw. T ! j = (if j \<in> set is then 2 ^ a j else tpw ! j) \<and> U ! j = (if j \<in> set is then 2 ^ b j else wpc ! j))"
  using assms
proof (induction "is" arbitrary: L W P Q tpw wpc)
  case Nil
  then show ?case by simp
next
  case (Cons i "is")
  have i: "i < length shapePer" "i < length spt" "shapePer ! i = 2 ^ s i" "spt ! i = 2 ^ z i" "i < length tpw"
    using Cons.prems(1) [of i] by auto
  obtain t w where tw: "t \<le> L" "w \<le> W"
    "spread_threads shapePer spt (i # is) (2 ^ L, 2 ^ (L + W), 2 ^ W, 2 ^ P, 2 ^ Q) tpw wpc =
     spread_threads shapePer spt is (2 ^ (L - t), 2 ^ ((L - t) + (W - w)), 2 ^ (W - w), 2 ^ (P + t), 2 ^ (Q + w)) (tpw[i := 2 ^ t]) (wpc[i := 2 ^ w])"
    using spread_threads_step [OF i(1-4)] by blast
  obtain a b T U where IH: "spread_threads shapePer spt is (2 ^ (L - t), 2 ^ ((L - t) + (W - w)), 2 ^ (W - w), 2 ^ (P + t), 2 ^ (Q + w)) (tpw[i := 2 ^ t]) (wpc[i := 2 ^ w]) =
      Some (2 ^ (P + t + sum_list (map a is)), 2 ^ (Q + w + sum_list (map b is)), T, U)"
    "sum_list (map a is) \<le> L - t" "sum_list (map b is) \<le> W - w" "length T = length tpw" "length U = length tpw"
    "\<forall>j < length tpw. T ! j = (if j \<in> set is then 2 ^ a j else tpw[i := 2 ^ t] ! j) \<and>
       U ! j = (if j \<in> set is then 2 ^ b j else wpc[i := 2 ^ w] ! j)"
    using Cons.IH [of "tpw[i := 2 ^ t]" "wpc[i := 2 ^ w]" "L - t" "W - w" "P + t" "Q + w"] Cons.prems by auto
  have ni: "i \<notin> set is" using Cons.prems(2) by simp
  have m: "map (a(i := t)) is = map a is" "map (b(i := w)) is = map b is" using ni by auto
  show ?case
  proof (intro exI conjI)
    show "spread_threads shapePer spt (i # is) (2 ^ L, 2 ^ (L + W), 2 ^ W, 2 ^ P, 2 ^ Q) tpw wpc =
      Some (2 ^ (P + sum_list (map (a(i := t)) (i # is))), 2 ^ (Q + sum_list (map (b(i := w)) (i # is))), T, U)"
      unfolding tw(3) IH(1) list.map sum_list.Cons m by (simp add: add.assoc)
    show "sum_list (map (a(i := t)) (i # is)) \<le> L" "sum_list (map (b(i := w)) (i # is)) \<le> W"
      using IH(2,3) tw(1,2) unfolding list.map sum_list.Cons m by simp_all
    show "\<forall>j < length tpw. T ! j = (if j \<in> set (i # is) then 2 ^ (a(i := t)) j else tpw ! j) \<and>
        U ! j = (if j \<in> set (i # is) then 2 ^ (b(i := w)) j else wpc ! j)"
      using IH(6) ni Cons.prems(3) i(5) by (auto simp: nth_list_update)
  qed (use IH(4,5) in simp_all)
qed

text \<open>The products, over the positions of an order.\<close>

lemma prod_pows:
  assumes "length T = r" and "\<And>j. j < r \<Longrightarrow> T ! j = 2 ^ a j"
  shows "prod_list T = (2::int) ^ sum_list (map a [0..<r])"
proof -
  have "T = map (\<lambda>j. 2 ^ a j) [0..<r]" using assms by (intro nth_equalityI) simp_all
  moreover have "prod_list (map (\<lambda>j. (2::int) ^ a j) js) = 2 ^ sum_list (map a js)" for js
    by (induction js) (simp_all add: power_add)
  ultimately show ?thesis by simp
qed

lemma perm_sum:
  assumes "isPermutationOfIota ord" shows "sum_list (map a ord) = sum_list (map a [0..<length ord] :: nat list)"
proof -
  have "mset ord = mset [0..<length ord]"
    using assms by (intro iffD1 [OF set_eq_iff_mset_eq_distinct]) (auto simp: isPermutation_iff atLeast0LessThan)
  then show ?thesis using sum_list_nth by metis
qed

lemma buildBlocked_pow:
  assumes perm: "isPermutationOfIota ord" "length ord = length spt" "spt \<noteq> []"
    and sp: "shapePerCTA (CTASplitNum cta) shape = Some shapePer" "length shapePer = length spt"
    and s: "\<And>i. i < length spt \<Longrightarrow> shapePer ! i = 2 ^ s i" and z: "\<And>i. i < length spt \<Longrightarrow> spt ! i = 2 ^ z i"
  shows "\<exists>e a b. buildBlocked shape spt ord (2 ^ W) (2 ^ L) cta = Some e \<and> sizePerThread e = spt \<and> blockedOrder e = ord \<and>
    blockedCTA e = cta \<and> length (threadsPerWarp e) = length spt \<and> length (warpsPerCTA e) = length spt \<and>
    (\<forall>i < length spt. threadsPerWarp e ! i = 2 ^ a i \<and> warpsPerCTA e ! i = 2 ^ b i) \<and>
    sum_list (map a [0..<length spt]) = L \<and> sum_list (map b [0..<length spt]) = W"
proof -
  let ?r = "length spt"
  have ord: "distinct ord" "set ord = {..<?r}" "ord \<noteq> []"
    using iffD1 [OF isPermutation_iff perm(1)] perm(2,3) by (simp, simp, metis length_0_conv)
  have split: "butlast ord @ [last ord] = ord" using ord(3) by simp
  have d: "distinct (butlast ord @ [last ord])" "set (butlast ord @ [last ord]) = {..<?r}" using ord(1,2) unfolding split by simp_all
  then have lo: "last ord \<notin> set (butlast ord)" "last ord < ?r" "distinct (butlast ord)" "set (butlast ord) \<subseteq> {..<?r}"
  proof -
    obtain xs x where x: "ord = xs @ [x]" using ord(3) by (metis rev_exhaust)
    have bl: "butlast ord = xs" "last ord = x" by (simp_all add: x)
    have o: "distinct (xs @ [x])" "set (xs @ [x]) = {..<?r}" using ord(1,2) by (simp_all only: x)
    show "last ord \<notin> set (butlast ord)" "distinct (butlast ord)" unfolding bl using o(1) by simp_all
    show "last ord < ?r" "set (butlast ord) \<subseteq> {..<?r}" unfolding bl using o(2) by (metis in_set_conv_decomp lessThan_iff, auto)
  qed
  have cond: "i < length shapePer \<and> i < length spt \<and> shapePer ! i = 2 ^ s i \<and> spt ! i = 2 ^ z i \<and> i < length (replicate ?r (0::int))"
    if "i \<in> set (butlast ord)" for i using that lo(4) sp(2) s z by auto
  obtain a b T U where T: "spread_threads shapePer spt (butlast ord) (2 ^ L, 2 ^ (L + W), 2 ^ W, 2 ^ 0, 2 ^ 0) (replicate ?r 0) (replicate ?r 0) =
      Some (2 ^ (0 + sum_list (map a (butlast ord))), 2 ^ (0 + sum_list (map b (butlast ord))), T, U)"
    "sum_list (map a (butlast ord)) \<le> L" "sum_list (map b (butlast ord)) \<le> W" "length T = ?r" "length U = ?r"
    "\<And>j. j < ?r \<Longrightarrow> j \<in> set (butlast ord) \<Longrightarrow> T ! j = 2 ^ a j \<and> U ! j = 2 ^ b j"
    using spread_threads_pow [OF cond lo(3), of "replicate ?r 0" L W 0 0] by fastforce
  define a' where "a' = a(last ord := L - sum_list (map a (butlast ord)))"
  define b' where "b' = b(last ord := W - sum_list (map b (butlast ord)))"
  let ?T = "T[last ord := 2 ^ a' (last ord)]" and ?U = "U[last ord := 2 ^ b' (last ord)]"
  let ?e = "\<lparr>sizePerThread = spt, threadsPerWarp = ?T, warpsPerCTA = ?U, blockedOrder = ord, blockedCTA = cta\<rparr>"
  have ab: "map a' (butlast ord) = map a (butlast ord)" "map b' (butlast ord) = map b (butlast ord)"
    using lo(1) by (auto simp: a'_def b'_def)
  have ends: "sum_list (map a' ord) = sum_list (map a' (butlast ord)) + a' (last ord)"
    "sum_list (map b' ord) = sum_list (map b' (butlast ord)) + b' (last ord)"
    using arg_cong [OF split, of "\<lambda>xs. sum_list (map a' xs)"] arg_cong [OF split, of "\<lambda>xs. sum_list (map b' xs)"]
    by (simp_all del: append_butlast_last_id)
  have sums: "sum_list (map a' [0..<?r]) = L" "sum_list (map b' [0..<?r]) = W"
  proof -
    have "a' (last ord) = L - sum_list (map a (butlast ord))" "b' (last ord) = W - sum_list (map b (butlast ord))"
      by (simp_all add: a'_def b'_def)
    moreover have "sum_list (map c ord) = sum_list (map c [0..<?r])" for c :: "nat \<Rightarrow> nat" using perm_sum [OF perm(1)] perm(2) by simp
    ultimately show "sum_list (map a' [0..<?r]) = L" "sum_list (map b' [0..<?r]) = W"
      using ends T(2,3) unfolding ab by simp_all
  qed
  have nth: "?T ! i = 2 ^ a' i \<and> ?U ! i = 2 ^ b' i" if i: "i < ?r" for i
  proof (cases "i = last ord")
    case False
    have "i \<in> set (butlast ord @ [last ord])" using i d(2) by blast
    then have "i \<in> set (butlast ord)" using False by auto
    then show ?thesis using T(6) [OF i] False by (simp add: a'_def b'_def)
  qed (use T(4,5) i in simp)
  have lw: "(2::int) ^ W * 2 ^ L = 2 ^ (L + W)" by (simp add: power_add)
  have "list_all (\<lambda>i. i < ?r) ord" using ord(2) by (simp add: list_all_iff)
  then have "buildBlocked shape spt ord (2 ^ W) (2 ^ L) cta = Some ?e"
    using perm(2,3) sp(1) T(1) cdiv_pow [OF T(2)] cdiv_pow [OF T(3)]
    by (simp add: buildBlocked_def lw a'_def b'_def)
  then show ?thesis using nth sums T(4,5) by (intro exI [of _ ?e] exI [of _ a'] exI [of _ b']) simp
qed

section \<open>CTAs\<close>

lemma spread_ctas_pow:
  assumes "\<And>i. i \<in> set is \<Longrightarrow> i < length shape \<and> i < length spt \<and> shape ! i = 2 ^ s i \<and> spt ! i = 2 ^ z i \<and> i < length ctas"
    and "distinct is"
  shows "\<exists>c T. spread_ctas shape spt is (2 ^ C) ctas = Some (2 ^ (C - sum_list (map c is)), T) \<and>
    sum_list (map c is) \<le> C \<and> length T = length ctas \<and>
    (\<forall>j < length ctas. T ! j = (if j \<in> set is then 2 ^ c j else ctas ! j))"
  using assms
proof (induction "is" arbitrary: C ctas)
  case Nil
  then show ?case by simp
next
  case (Cons i "is")
  have i: "i < length shape" "i < length spt" "shape ! i = 2 ^ s i" "spt ! i = 2 ^ z i" "i < length ctas"
    using Cons.prems(1) [of i] by auto
  obtain f where f: "cdiv (2 ^ s i) (2 ^ z i) = Some f" "max 1 f = 2 ^ (s i - z i)" using fit_pow by blast
  define x where "x = min C (s i - z i)"
  have x: "x \<le> C" by (simp add: x_def)
  have step: "spread_ctas shape spt (i # is) (2 ^ C) ctas = spread_ctas shape spt is (2 ^ (C - x)) (ctas[i := 2 ^ x])"
    using i f clamp_pow [of C "s i - z i"] cdiv_pow [OF x] by (simp add: x_def)
  obtain c T where IH: "spread_ctas shape spt is (2 ^ (C - x)) (ctas[i := 2 ^ x]) = Some (2 ^ (C - x - sum_list (map c is)), T)"
    "sum_list (map c is) \<le> C - x" "length T = length ctas"
    "\<forall>j < length ctas. T ! j = (if j \<in> set is then 2 ^ c j else ctas[i := 2 ^ x] ! j)"
    using Cons.IH [of "ctas[i := 2 ^ x]" "C - x"] Cons.prems by auto
  have m: "map (c(i := x)) is = map c is" using Cons.prems(2) by auto
  show ?case
  proof (intro exI conjI)
    show "spread_ctas shape spt (i # is) (2 ^ C) ctas = Some (2 ^ (C - sum_list (map (c(i := x)) (i # is))), T)"
      unfolding step IH(1) list.map sum_list.Cons m by simp
    show "sum_list (map (c(i := x)) (i # is)) \<le> C" unfolding list.map sum_list.Cons m using IH(2) x by simp
    show "\<forall>j < length ctas. T ! j = (if j \<in> set (i # is) then 2 ^ (c(i := x)) j else ctas ! j)"
      using IH(4) Cons.prems(2) i(5) by (auto simp: nth_list_update)
  qed (rule IH(3))
qed

lemma pows_small:
  assumes "length T = r" and "\<And>j. j < r \<Longrightarrow> T ! j = (2::int) ^ a j" and "sum_list (map a [0..<r]) < 31"
  shows "list_all small_pow T" "bits T = sum_list (map a [0..<r])" "prod_list T = 2 ^ sum_list (map a [0..<r])"
    "\<And>j. j < r \<Longrightarrow> a j \<le> sum_list (map a [0..<r])"
proof -
  show le: "a j \<le> sum_list (map a [0..<r])" if "j < r" for j using that by (intro member_le_sum_list) simp_all
  have lt: "a j < 31" if "j < r" for j using le [OF that] assms(3) by simp
  then show "list_all small_pow T" using assms(1,2) by (auto simp: list_all_length small_pow_iff)
  have "log2_32 (T ! j) = a j" if "j < r" for j using assms(2) [OF that] lt [OF that] by simp
  then show "bits T = sum_list (map a [0..<r])" unfolding bits_nth using assms(1)
    by (intro arg_cong [where f = sum_list] map_cong) simp_all
  show "prod_list T = 2 ^ sum_list (map a [0..<r])" using prod_pows assms(1,2) by blast
qed

lemma pow_checked: "is_pow2_64u (2 ^ k)"
  using pow_and_pred [of k] by (simp add: is_pow2_64u_def)

text \<open>
  The builder that also spreads the CTAs: for sizes of powers of two it returns an encoding the verifier
  accepts, over a grid, with the asked numbers of threads, warps and CTAs.
\<close>

lemma buildBlockedCTAs_pow:
  assumes perm: "isPermutationOfIota ord" "length ord = length shape" "length spt = length shape" "shape \<noteq> []"
    and sh: "list_all small_pow shape" "list_all small_pow spt" and L: "L + W < 31" and C: "C < 31"
  shows "\<exists>e. buildBlockedCTAs shape spt ord (2 ^ W) (2 ^ L) (2 ^ C) = Some e \<and> verifyBlocked e = None \<and> grid (blockedCTA e) \<and>
    sizePerThread e = spt \<and> blockedOrder e = ord \<and>
    list_all small_pow (threadsPerWarp e) \<and> bits (threadsPerWarp e) = L \<and> prod_list (threadsPerWarp e) = 2 ^ L \<and>
    list_all small_pow (warpsPerCTA e) \<and> bits (warpsPerCTA e) = W \<and> prod_list (warpsPerCTA e) = 2 ^ W \<and>
    bits (CTAsPerCGA (blockedCTA e)) = C \<and> prod_list (CTAsPerCGA (blockedCTA e)) = 2 ^ C \<and>
    (\<forall>d < length shape. threadsPerWarp e ! d * warpsPerCTA e ! d \<le> 2 ^ (L + W))"
proof -
  let ?r = "length shape"
  let ?s = "\<lambda>i. log2_32 (shape ! i)" and ?z = "\<lambda>i. log2_32 (spt ! i)"
  have s: "shape ! i = 2 ^ ?s i" "?s i < 31" "spt ! i = 2 ^ ?z i" "?z i < 31" if "i < ?r" for i
    using small_pow_nth [OF sh(1) that] small_pow_nth [OF sh(2)] perm(3) that by auto
  have ord: "distinct ord" "set ord = {..<?r}" using iffD1 [OF isPermutation_iff perm(1)] perm(2) by auto
  have cond: "i < length shape \<and> i < length spt \<and> shape ! i = 2 ^ ?s i \<and> spt ! i = 2 ^ ?z i \<and> i < length (replicate ?r (0::int))"
    if "i \<in> set (rev ord)" for i
  proof -
    have "i < ?r" using that ord(2) by simp
    then show ?thesis using s(1,3) perm(3) by simp
  qed
  have dr: "distinct (rev ord)" using ord(1) by simp
  obtain c T where T: "spread_ctas shape spt (rev ord) (2 ^ C) (replicate ?r 0) = Some (2 ^ (C - sum_list (map c (rev ord))), T)"
    "sum_list (map c (rev ord)) \<le> C" "length T = ?r" "\<And>j. j < ?r \<Longrightarrow> j \<in> set (rev ord) \<Longrightarrow> T ! j = 2 ^ c j"
    using spread_ctas_pow [OF cond dr, of C] by fastforce
  have Tc: "T ! j = 2 ^ c j" if "j < ?r" for j using T(4) [OF that] ord(2) that by simp
  have sum: "sum_list (map c (rev ord)) = sum_list (map c [0..<?r])"
    using perm_sum [OF perm(1), of c] perm(2) by (simp add: rev_map [symmetric])
  have r0: "0 < ?r" using perm(4) by simp
  define last where "last = ?r - 1"
  have last: "last < ?r" using r0 by (simp add: last_def)
  define n where "n = c(last := c last + (C - sum_list (map c [0..<?r])))"
  let ?T' = "T[last := T ! last * 2 ^ (C - sum_list (map c [0..<?r]))]"
  have Tn: "?T' ! j = 2 ^ n j" if "j < ?r" for j using Tc [OF that] Tc [OF last] T(3) that by (auto simp: n_def nth_list_update power_add)
  have nsum: "sum_list (map n [0..<?r]) = C"
  proof -
    have "[0..<?r] = [0..<last] @ [last]" using r0 by (simp add: last_def upt_Suc_append [symmetric])
    moreover have "map n [0..<last] = map c [0..<last]" by (simp add: n_def)
    ultimately show ?thesis using T(2) sum by (simp add: n_def)
  qed
  have cC: "sum_list (map c [0..<?r]) < 31" using T(2) sum C by simp
  have ct: "list_all small_pow T" using pows_small(1) [of T ?r c] T(3) Tc cC by simp
  have nt: "list_all small_pow ?T'" "bits ?T' = C" "prod_list ?T' = 2 ^ C"
    using pows_small [of ?T' ?r n] T(3) Tn nsum C by simp_all
  let ?cta = "mkCTALayout ?T' T ord"
  have co: "length (CTAOrder ?cta) = ?r" "isPermutationOfIota (CTAOrder ?cta)"
  proof -
    have "isPermutationOfIota (rev [0..<?r])" unfolding isPermutation_iff by (simp add: atLeast0LessThan)
    then show "length (CTAOrder ?cta) = ?r" "isPermutationOfIota (CTAOrder ?cta)"
      using perm(1,2) T(3) by (simp_all add: mkCTALayout_def)
  qed
  have tn: "T ! j \<le> ?T' ! j" if "j < ?r" for j
  proof -
    have "c j \<le> n j" by (simp add: n_def)
    then show ?thesis using Tc [OF that] Tn [OF that] by simp
  qed
  have nz: "\<not> list_ex (\<lambda>x. x = 0) xs" if "list_all small_pow xs" for xs
    using that by (auto simp: list_all_iff list_ex_iff small_pow_def)
  have gr: "grid ?cta"
    using co ct nt(1) T(3) tn nz [OF ct] nz [OF nt(1)]
    by (simp add: grid_def verifyCTALayout_def mkCTALayout_def list_all2_conv_all_nth)
  have ps: "pow_shape shape ?s" by (rule pow_shape_nth [OF sh(1) perm(4)])
  have splits: "length (CTASplitNum ?cta) = length shape" "\<And>i. i < length shape \<Longrightarrow> CTASplitNum ?cta ! i = 2 ^ c i"
    using T(3) Tc by (simp_all add: mkCTALayout_def)
  let ?per = "map (\<lambda>i. 2 ^ (?s i - min (c i) (?s i))) [0..<?r] :: int list"
  have per: "shapePerCTA (CTASplitNum ?cta) shape = Some ?per" by (rule perCTA_eq [OF ps splits])
  have spt: "length ord = length spt" "spt \<noteq> []" "length ?per = length spt" using perm(2,3,4) by auto
  have pn: "?per ! i = 2 ^ (?s i - min (c i) (?s i))" "spt ! i = 2 ^ ?z i" if "i < length spt" for i
    using that perm(3) s(3) by simp_all
  obtain e a b where e: "buildBlocked shape spt ord (2 ^ W) (2 ^ L) ?cta = Some e" "sizePerThread e = spt" "blockedOrder e = ord"
    "blockedCTA e = ?cta" "length (threadsPerWarp e) = ?r" "length (warpsPerCTA e) = ?r"
    "\<And>i. i < ?r \<Longrightarrow> threadsPerWarp e ! i = 2 ^ a i" "\<And>i. i < ?r \<Longrightarrow> warpsPerCTA e ! i = 2 ^ b i"
    "sum_list (map a [0..<?r]) = L" "sum_list (map b [0..<?r]) = W"
    using buildBlocked_pow [OF perm(1) spt(1,2) per spt(3) pn, of W L] unfolding perm(3) by blast
  have LW: "L < 31" "W < 31" using L by simp_all
  have tp: "list_all small_pow (threadsPerWarp e)" "bits (threadsPerWarp e) = L" "prod_list (threadsPerWarp e) = 2 ^ L" "\<And>d. d < ?r \<Longrightarrow> a d \<le> L"
    using pows_small [of "threadsPerWarp e" ?r a] e(5,7,9) LW(1) by simp_all
  have wp: "list_all small_pow (warpsPerCTA e)" "bits (warpsPerCTA e) = W" "prod_list (warpsPerCTA e) = 2 ^ W" "\<And>d. d < ?r \<Longrightarrow> b d \<le> W"
    using pows_small [of "warpsPerCTA e" ?r b] e(6,8,10) LW(2) by simp_all
  have p64: "\<not> list_ex (\<lambda>x. \<not> is_pow2_64u x) xs" if "list_all small_pow xs" for xs
    using that pow_checked by (auto simp: list_all_iff list_ex_iff small_pow_iff)
  have "verifyBlocked e = None"
    using e(2-6) perm(1-3) co p64 [OF sh(2)] p64 [OF tp(1)] p64 [OF wp(1)] by (simp add: verifyBlocked_def)
  moreover have "threadsPerWarp e ! d * warpsPerCTA e ! d \<le> 2 ^ (L + W)" if "d < ?r" for d
  proof -
    have "a d + b d \<le> L + W" using tp(4) [OF that] wp(4) [OF that] by simp
    then have "(2::int) ^ (a d + b d) \<le> 2 ^ (L + W)" by simp
    then show ?thesis using e(7,8) that by (simp add: power_add)
  qed
  moreover have "list_all (\<lambda>i. i < ?r) ord" using ord(2) by (simp add: list_all_iff)
  then have "buildBlockedCTAs shape spt ord (2 ^ W) (2 ^ L) (2 ^ C) = Some e"
    using e(1) T(1) sum perm r0 by (simp add: buildBlockedCTAs_def last_def)
  ultimately show ?thesis using e(2-4) tp(1-3) wp(1-3) nt(2,3) gr
    by (intro exI [of _ e]) (simp add: mkCTALayout_def)
qed

end
