(* ===== verification/MmaLayouts.thy ===== *)
theory MmaLayouts
  imports BlockedLayouts
begin

text \<open>
  The layouts of Nvidia matrix instructions: the tile is a product of identities, so it is placed, and its
  combination with the CTAs has exactly the shape.
\<close>

section \<open>Chains of identities\<close>

lemma times_ids_placed:
  assumes "placed l" and "\<And>f. f \<in> set fs \<Longrightarrow> fst f = 2 ^ k f \<and> k f < 31"
    and "getTotalInDimSizeLog2 l + sum_list (map k fs) \<le> 64"
    and "\<And>od. out_len l od + sum_list (map k (filter (\<lambda>f. snd (snd f) = od) fs)) < 31"
    and "fold (\<lambda>f acc. Option.bind acc (\<lambda>ns. supremum ns [fst (snd f)])) fs (Some (getInDimNames l)) = Some ins"
  shows "\<exists>p. times_ids fs l = Some p \<and> placed p \<and> getInDimNames p = ins \<and>
    set (getOutDimNames p) = set (getOutDimNames l) \<union> snd ` snd ` set fs \<and>
    getTotalInDimSizeLog2 p = getTotalInDimSizeLog2 l + sum_list (map k fs) \<and>
    (\<forall>od. out_len p od = out_len l od + sum_list (map k (filter (\<lambda>f. snd (snd f) = od) fs)))"
  using assms
proof (induction fs arbitrary: l)
  case Nil
  then show ?case by (simp add: times_ids_def)
next
  case (Cons f fs)
  let ?d = "fst (snd f)" and ?od = "snd (snd f)"
  have kf: "fst f = 2 ^ k f" "k f < 31" using Cons.prems(2) [of f] by auto
  have t: "getTotalInDimSizeLog2 l + k f \<le> 64" using Cons.prems(3) by simp
  have o: "out_len l ?od + k f < 31" using Cons.prems(4) [of ?od] by simp
  obtain p where p: "times_id (2 ^ k f) ?d ?od l = Some p" "placed p" "supremum (getInDimNames l) [?d] = Some (getInDimNames p)"
    "set (getOutDimNames p) = insert ?od (set (getOutDimNames l))" "getTotalInDimSizeLog2 p = getTotalInDimSizeLog2 l + k f"
    "out_len p = (out_len l)(?od := out_len l ?od + k f)"
    using times_id_placed [OF Cons.prems(1) kf(2) t o, of ?d] by blast
  have step: "times_ids (f # fs) l = times_ids fs p" using p(1) kf(1) by (simp add: times_ids_def case_prod_unfold)
  have sums: "out_len p od' + sum_list (map k (filter (\<lambda>f. snd (snd f) = od') fs)) =
      out_len l od' + sum_list (map k (filter (\<lambda>f. snd (snd f) = od') (f # fs)))" for od'
    using p(6) by simp
  have ins: "fold (\<lambda>f acc. Option.bind acc (\<lambda>ns. supremum ns [fst (snd f)])) fs (Some (getInDimNames p)) = Some ins"
    using Cons.prems(5) p(3) by simp
  have fs: "fst g = 2 ^ k g \<and> k g < 31" if "g \<in> set fs" for g using Cons.prems(2) that by simp
  have tt: "getTotalInDimSizeLog2 p + sum_list (map k fs) \<le> 64" using Cons.prems(3) p(5) by simp
  have oo: "out_len p od' + sum_list (map k (filter (\<lambda>f. snd (snd f) = od') fs)) < 31" for od'
    unfolding sums by (rule Cons.prems(4))
  obtain q where q: "times_ids fs p = Some q" "placed q" "getInDimNames q = ins"
    "set (getOutDimNames q) = set (getOutDimNames p) \<union> snd ` snd ` set fs"
    "getTotalInDimSizeLog2 q = getTotalInDimSizeLog2 p + sum_list (map k fs)"
    "\<forall>od. out_len q od = out_len p od + sum_list (map k (filter (\<lambda>f. snd (snd f) = od) fs))"
    using Cons.IH [OF p(2) fs tt oo ins] by blast
  have "set (getOutDimNames q) = set (getOutDimNames l) \<union> snd ` snd ` set (f # fs)" using q(4) p(4) by auto
  moreover have "getTotalInDimSizeLog2 q = getTotalInDimSizeLog2 l + sum_list (map k (f # fs))" using q(5) p(5) by simp
  ultimately show ?case using q(1-3,6) step sums by metis
qed

lemma pow_div: "n \<le> m \<Longrightarrow> (2::int) ^ m div 2 ^ n = 2 ^ (m - n)" "n \<le> m \<Longrightarrow> (2::int) ^ m mod 2 ^ n = 0"
  by (simp add: power_diff) (simp add: le_imp_power_dvd mod_eq_0_iff_dvd)

section \<open>The tile of an instruction\<close>

lemma names2: "standardOutDimNames 2 = [''dim0'', ''dim1'']"
  by code_simp

lemma matrix_order2: "getMatrixOrder 2 True = [1, 0]" "getMatrixOrder 2 False = [0, 1]"
  by code_simp+

lemma nvidia_tile_eq:
  assumes "identityStandardND ''register'' (replicate 2 1) [1, 0] = Some c" "kWidth \<noteq> 0" "a mod 8 = 0" "b mod (kWidth * 4) = 0"
  shows "nvidiaMmaTile [a, b] kWidth [1, 0] [1, 0] =
    times_ids [(kWidth, ''register'', ''dim1''), (4, ''lane'', ''dim1''), (8, ''lane'', ''dim0''),
      (a div 8, ''register'', ''dim0''), (b div (kWidth * 4), ''register'', ''dim1'')] c"
proof -
  have l: "length [1 :: nat, 0] = 2" by simp
  show ?thesis
    unfolding nvidiaMmaTile_def Let_def l names2 assms(1) Option.bind.bind_lunit using assms(2-4) by simp
qed

text \<open>The tile of \<open>m\<close> rows and \<open>n\<close> columns, \<open>kWidth\<close> values of a register next to each other.\<close>

lemma mma_tile_placed:
  assumes k: "kWidth = 2 ^ kw" "kw < 20" and m: "3 \<le> m" "m < 20" and n: "kw + 2 \<le> n" "n < 20"
  shows "\<exists>p. nvidiaMmaTile [2 ^ m, 2 ^ n] kWidth [1, 0] [1, 0] = Some p \<and> placed p \<and> getInDimNames p = [''register'', ''lane''] \<and>
    set (getOutDimNames p) = {''dim0'', ''dim1''} \<and> getTotalInDimSizeLog2 p = m + n \<and>
    out_len p ''dim0'' = m \<and> out_len p ''dim1'' = n"
proof -
  obtain c where c: "identityStandardND ''register'' (replicate 2 1) [1, 0] = Some c" "placed c" "getInDimNames c = [''register'']"
    "set (getOutDimNames c) = set (standardOutDimNames 2)" "getTotalInDimSizeLog2 c = 0"
    "out_len c (standardOutDimNames 2 ! 0) = 0" "out_len c (standardOutDimNames 2 ! 1) = 0"
  proof -
    have l: "length (replicate 2 (1::int)) = 2" by simp
    have "replicate 2 (1::int) ! d = 2 ^ 0 \<and> (0::nat) < 31" if "d < length (replicate 2 (1::int))" for d using that by simp
    moreover have "isPermutationOfIota [1, 0]" by code_simp
    ultimately have "\<exists>p. identityStandardND ''register'' (replicate 2 1) [1, 0] = Some p \<and> placed p \<and> getInDimNames p = [''register''] \<and>
      set (getOutDimNames p) = set (standardOutDimNames (length (replicate 2 (1::int)))) \<and>
      getTotalInDimSizeLog2 p = sum_list (map (\<lambda>_. 0) [0..<length (replicate 2 (1::int))]) \<and>
      (\<forall>d < length (replicate 2 (1::int)). out_len p (standardOutDimNames (length (replicate 2 (1::int))) ! d) = 0)"
      by (intro identityND_placed) simp_all
    then show thesis using that unfolding l by auto
  qed
  let ?fs = "[(kWidth, ''register'', ''dim1''), (4, ''lane'', ''dim1''), (8, ''lane'', ''dim0''),
     (2 ^ m div 8, ''register'', ''dim0''), (2 ^ n div (kWidth * 4), ''register'', ''dim1'')] :: (int \<times> dim \<times> dim) list"
  have e: "(2::int) ^ m div 8 = 2 ^ (m - 3)" "(2::int) ^ n div (kWidth * 4) = 2 ^ (n - (kw + 2))"
    "(2::int) ^ m mod 8 = 0" "(2::int) ^ n mod (kWidth * 4) = 0"
  proof -
    have p: "(8::int) = 2 ^ 3" "kWidth * 4 = 2 ^ (kw + 2)" using k by (simp_all add: power_add)
    show "(2::int) ^ m div 8 = 2 ^ (m - 3)" "(2::int) ^ n div (kWidth * 4) = 2 ^ (n - (kw + 2))"
      "(2::int) ^ m mod 8 = 0" "(2::int) ^ n mod (kWidth * 4) = 0"
      unfolding p using pow_div [OF m(1)] pow_div [OF n(1)] by simp_all
  qed
  let ?k = "\<lambda>f :: int \<times> dim \<times> dim. log2_32 (fst f)"
  have lg: "log2_32 kWidth = kw" "log2_32 4 = 2" "log2_32 8 = 3" "log2_32 (2 ^ m div 8) = m - 3"
    "log2_32 (2 ^ n div (kWidth * 4)) = n - (kw + 2)"
    using k m n log2_32_pow [of 2] log2_32_pow [of 3] unfolding e by simp_all
  have fs: "fst f = 2 ^ ?k f \<and> ?k f < 31" if "f \<in> set ?fs" for f
    using that k m n lg e by auto
  have t: "getTotalInDimSizeLog2 c + sum_list (map ?k ?fs) \<le> 64" using c(5) lg m n by simp
  have o: "out_len c od + sum_list (map ?k (filter (\<lambda>f. snd (snd f) = od) ?fs)) < 31" for od
  proof -
    have "out_len c od = 0" using c(4,6,7) out_len_absent [of od c] by (cases "od \<in> set (getOutDimNames c)") (auto simp: names2)
    then show ?thesis using lg m n by auto
  qed
  have s: "supremum [''register''] [''register''] = Some [''register'']" "supremum [''register''] [''lane''] = Some [''register'', ''lane'']"
    "supremum [''register'', ''lane''] [''lane''] = Some [''register'', ''lane'']"
    "supremum [''register'', ''lane''] [''register''] = Some [''register'', ''lane'']" by code_simp+
  have i: "fold (\<lambda>f acc. Option.bind acc (\<lambda>ns. supremum ns [fst (snd f)])) ?fs (Some (getInDimNames c)) = Some [''register'', ''lane'']"
    by (simp add: c(3) s)
  obtain p where p: "times_ids ?fs c = Some p" "placed p" "getInDimNames p = [''register'', ''lane'']"
      "set (getOutDimNames p) = set (getOutDimNames c) \<union> snd ` snd ` set ?fs"
      "getTotalInDimSizeLog2 p = getTotalInDimSizeLog2 c + sum_list (map ?k ?fs)"
      "\<forall>od. out_len p od = out_len c od + sum_list (map ?k (filter (\<lambda>f. snd (snd f) = od) ?fs))"
    using times_ids_placed [OF c(2) fs t o i] by blast
  have nz: "kWidth \<noteq> 0" unfolding k(1) by simp
  have "nvidiaMmaTile [2 ^ m, 2 ^ n] kWidth [1, 0] [1, 0] = Some p"
    by (rule nvidia_tile_eq [OF c(1) nz e(3,4), unfolded p(1)])
  moreover have "set (getOutDimNames p) = {''dim0'', ''dim1''}" unfolding p(4) c(4) names2 by auto
  moreover have "getTotalInDimSizeLog2 p = m + n" unfolding p(5) c(5) using lg m n by simp
  moreover have "out_len p ''dim0'' = m" "out_len p ''dim1'' = n"
    using p(6) [rule_format, of "''dim0''"] p(6) [rule_format, of "''dim1''"] c(6,7) lg m n by (simp_all add: names2)
  ultimately show ?thesis using p(2,3) by blast
qed

section \<open>The layout\<close>

lemma mma_converts:
  assumes v: "isAmpere e \<or> isHopper e" and i: "take 2 (instrShape e) = [2 ^ m, 2 ^ n]" "isAmpere e \<Longrightarrow> length (instrShape e) = 2"
    and mn: "3 \<le> m" "m < 20" "3 \<le> n" "n < 20"
    and w: "list_all small_pow (mmaWarps e)" "length (mmaWarps e) = 2"
    and g: "grid (mmaCTA e)" "length (CTAOrder (mmaCTA e)) = 2" and sh: "list_all small_pow shape" "length shape = 2"
    and b: "m + n + bits (mmaWarps e @ shape @ CTAsPerCGA (mmaCTA e)) \<le> 64"
    and tile: "m + log2_32 (mmaWarps e ! 0) < 31" "n + log2_32 (mmaWarps e ! 1) < 31"
  shows "\<exists>l. mmaToLinearLayout e shape = Some l \<and> wf l \<and> isSurjective l \<and>
    getInDimNames l = [''register'', ''lane'', ''warp'', ''block''] \<and> outDims l = zip (standardOutDimNames 2) shape \<and>
    placed l \<and> verifyLinear l = None"
proof -
  have ts: "(if isAmpere e then Some (instrShape e) else if isHopper e \<and> 2 \<le> length (instrShape e) then Some (take 2 (instrShape e)) else None)
      = Some [2 ^ m, 2 ^ n]"
  proof (cases "isAmpere e")
    case True
    then have "take 2 (instrShape e) = instrShape e" using i(2) by simp
    then show ?thesis using True i(1) by simp
  next
    case False
    have "length (take 2 (instrShape e)) = 2" unfolding i(1) by simp
    then have "2 \<le> length (instrShape e)" by simp
    then show ?thesis using False v i(1) by simp
  qed
  obtain t where t: "nvidiaMmaTile [2 ^ m, 2 ^ n] 2 [1, 0] [1, 0] = Some t" "placed t" "getInDimNames t = [''register'', ''lane'']"
    "set (getOutDimNames t) = {''dim0'', ''dim1''}" "getTotalInDimSizeLog2 t = m + n" "out_len t ''dim0'' = m" "out_len t ''dim1'' = n"
    using mma_tile_placed [of 2 1 m n] mn by auto
  have st: "set (getOutDimNames t) = set (standardOutDimNames 2)" using t(4) by (simp add: names2)
  have perm: "isPermutationOfIota (getMatrixOrder 2 x)" "length (getMatrixOrder 2 x) = length (mmaWarps e)" for x
    using w(2) by (cases x; simp add: matrix_order2; code_simp)+
  have ne: "mmaWarps e \<noteq> []" using w(2) by auto
  have bw: "bits (mmaWarps e) \<le> 64" using b by simp
  obtain ws where ws: "identityStandardND ''warp'' (mmaWarps e) (getMatrixOrder 2 (\<not> isHopper e)) = Some ws" "placed ws"
    "getInDimNames ws = [''warp'']" "set (getOutDimNames ws) = set (standardOutDimNames 2)" "getTotalInDimSizeLog2 ws = bits (mmaWarps e)"
    "\<forall>d < 2. out_len ws (standardOutDimNames 2 ! d) = log2_32 (mmaWarps e ! d)"
    using identityND_bits [OF w(1) perm(2,1) ne bw, of "''warp''"] unfolding w(2) by blast
  have dt: "distinct (getOutDimNames t)" using wf_names [OF placedD(1) [OF t(2)]] by simp
  obtain ws' where ws': "transposeOuts ws (getOutDimNames t) = Some ws'" "wf ws'" "getInDimNames ws' = [''warp'']"
    "getOutDimNames ws' = getOutDimNames t" "out_len ws' = out_len ws" "entry ws' = entry ws" "getTotalInDimSizeLog2 ws' = bits (mmaWarps e)"
    using transpose_named [OF placedD(1) [OF ws(2)] _ dt] st ws(3-5) by metis
  have pw: "placed ws'" by (rule placed_shape [OF ws(2) ws'(2,5,6)])
  have s: "supremum (getInDimNames t) (getInDimNames ws') = Some [''register'', ''lane'', ''warp'']"
    unfolding t(3) ws'(3) by code_simp
  have tt: "getTotalInDimSizeLog2 t + getTotalInDimSizeLog2 ws' \<le> 64" using t(5) ws'(7) b by simp
  have o: "out_len t (standardOutDimNames 2 ! d) + out_len ws' (standardOutDimNames 2 ! d) < 31" if "d < 2" for d
  proof -
    have "out_len ws ''dim0'' = log2_32 (mmaWarps e ! 0)" "out_len ws ''dim1'' = log2_32 (mmaWarps e ! 1)"
      using ws(6) [rule_format, of 0] ws(6) [rule_format, of 1] by (simp_all add: names2)
    then have "out_len t ''dim0'' + out_len ws' ''dim0'' < 31" "out_len t ''dim1'' + out_len ws' ''dim1'' < 31"
      unfolding t(6,7) ws'(5) using tile by simp_all
    then show ?thesis using less_2_cases [OF that] by (auto simp: names2)
  qed
  obtain c where c: "layout_prod t ws' = Some c" "placed c" "getInDimNames c = [''register'', ''lane'', ''warp'']"
    "set (getOutDimNames c) = set (standardOutDimNames 2)" "getTotalInDimSizeLog2 c = m + n + bits (mmaWarps e)"
    using product_standard [OF t(2) pw st _ s tt o] ws'(4,7) st t(5) by auto
  have nes: "shape \<noteq> []" using sh(2) by auto
  have tb: "getTotalInDimSizeLog2 c + bits shape + bits (CTAsPerCGA (mmaCTA e)) \<le> 64" using c(5) b by simp
  have sc: "set (getOutDimNames c) = set (standardOutDimNames (length shape))" "length (CTAOrder (mmaCTA e)) = length shape"
    using c(4) g(2) sh(2) by simp_all
  obtain l where l: "combineCtaCgaWithShape c (mmaCTA e) shape = Some l" "placed l" "outDims l = zip (standardOutDimNames 2) shape"
    "supremum [''register'', ''lane'', ''warp''] [''block''] = Some (getInDimNames l)"
    using combine_grid [OF c(2,3) _ sc(1) nes g(1) sc(2) sh(1) tb] sh(2) by auto
  have "supremum [''register'', ''lane'', ''warp''] [''block''] = Some [''register'', ''lane'', ''warp'', ''block'']" by code_simp
  then have ins: "getInDimNames l = [''register'', ''lane'', ''warp'', ''block'']" using l(4) by simp
  have outs: "getOutDimNames l = standardOutDimNames 2" using l(3) sh(2) by (simp add: getOutDimNames_def)
  have "mmaToLinearLayout e shape = Some l"
    using ts t(1) ws(1) ws'(1) c(1) l(1) sh(2) g(2)
    by (simp add: mmaToLinearLayout_def getDefaultMmaOrder_def matrix_order2)
  then show ?thesis using l(2,3) ins placedD(1) [OF l(2)] placed_surj(2) [OF l(2)] placed_verifies [OF l(2) ins outs] by blast
qed

end
