(* ===== verification/MfmaTiles.thy ===== *)
theory MfmaTiles
  imports MmaLayouts
begin

text \<open>
  One AMD encoding with different numbers of tiles per warp in its two dimensions: the layout of its operand A,
  evaluated step by step.
\<close>

definition wide_tiles :: mfma_encoding where
  "wide_tiles = \<lparr>mfmaVersion = 3, mfmaWarps = [2, 1], tilesPerWarp = [1, 2], mDim = 16, nDim = 16, mfmaTransposed = False,
     mfmaCTA = \<lparr>CTAsPerCGA = [1, 1], CTASplitNum = [1, 1], CTAOrder = [1, 0]\<rparr>, mfmaElem = None\<rparr>"

lemma cga_steps:
  "makeCgaLayout \<lparr>CTAsPerCGA = [1, 1], CTASplitNum = [1, 1], CTAOrder = [1, 0]\<rparr> =
     Some \<lparr>bases = [(''block'', [])],
       outDims = [(''dim0'', 1), (''dim1'', 1)], rank = 0\<rparr>"
  "ensureLayoutNotLargerThan \<lparr>bases = [(''block'', [])],
       outDims = [(''dim0'', 1), (''dim1'', 1)], rank = 0\<rparr> [(''dim0'', 32), (''dim1'', 4)] True =
     Some \<lparr>bases = [(''block'', [])],
       outDims = [(''dim0'', 1), (''dim1'', 1)], rank = 0\<rparr>"
  "ensureLayoutNotLargerThan \<lparr>bases = [(''block'', [])],
       outDims = [(''dim0'', 1), (''dim1'', 1)], rank = 0\<rparr> [(''dim0'', 32), (''dim1'', 32)] True =
     Some \<lparr>bases = [(''block'', [])],
       outDims = [(''dim0'', 1), (''dim1'', 1)], rank = 0\<rparr>"
  "transposeOuts \<lparr>bases = [(''block'', [])],
       outDims = [(''dim0'', 1), (''dim1'', 1)], rank = 0\<rparr> [''dim1'', ''dim0''] =
     Some \<lparr>bases = [(''block'', [])],
       outDims = [(''dim1'', 1), (''dim0'', 1)], rank = 0\<rparr>"
  by code_simp+

lemma operand_steps:
  "identity1D 1 ''register'' ''dim1'' =
     Some \<lparr>bases = [(''register'', [])],
       outDims = [(''dim1'', 1)], rank = 0\<rparr>"
  "identity1D 16 ''lane'' ''dim0'' =
     Some \<lparr>bases = [(''lane'', [[1], [2], [4], [8]])],
       outDims = [(''dim0'', 16)], rank = 4\<rparr>"
  "times_id 4 ''lane'' ''dim1'' \<lparr>bases = [(''lane'', [[1], [2], [4], [8]])],
       outDims = [(''dim0'', 16)], rank = 4\<rparr> =
     Some \<lparr>bases = [(''lane'', [[1, 0], [2, 0], [4, 0], [8, 0], [0, 1], [0, 2]])],
       outDims = [(''dim0'', 16), (''dim1'', 4)], rank = 6\<rparr>"
  "layout_prod \<lparr>bases = [(''register'', [])],
       outDims = [(''dim1'', 1)], rank = 0\<rparr> \<lparr>bases = [(''lane'', [[1, 0], [2, 0], [4, 0], [8, 0], [0, 1], [0, 2]])],
       outDims = [(''dim0'', 16), (''dim1'', 4)], rank = 6\<rparr> =
     Some \<lparr>bases = [(''register'', []), (''lane'', [[1, 0], [2, 0], [4, 0], [8, 0], [0, 1], [0, 2]])],
       outDims = [(''dim0'', 16), (''dim1'', 4)], rank = 6\<rparr>"
  "times_id 2 ''register'' ''dim0'' \<lparr>bases = [(''register'', []), (''lane'', [[1, 0], [2, 0], [4, 0], [8, 0], [0, 1], [0, 2]])],
       outDims = [(''dim0'', 16), (''dim1'', 4)], rank = 6\<rparr> =
     Some \<lparr>bases = [(''register'', [[16, 0]]), (''lane'', [[1, 0], [2, 0], [4, 0], [8, 0], [0, 1], [0, 2]])],
       outDims = [(''dim0'', 32), (''dim1'', 4)], rank = 7\<rparr>"
  "transposeOuts \<lparr>bases = [(''register'', [[16, 0]]), (''lane'', [[1, 0], [2, 0], [4, 0], [8, 0], [0, 1], [0, 2]])],
       outDims = [(''dim0'', 32), (''dim1'', 4)], rank = 7\<rparr> [''dim1'', ''dim0''] =
     Some \<lparr>bases = [(''register'', [[0, 16]]), (''lane'', [[0, 1], [0, 2], [0, 4], [0, 8], [1, 0], [2, 0]])],
       outDims = [(''dim1'', 4), (''dim0'', 32)], rank = 7\<rparr>"
  "identityStandardND ''warp'' [2, 1] [1, 0] =
     Some \<lparr>bases = [(''warp'', [[0, 1]])],
       outDims = [(''dim1'', 1), (''dim0'', 2)], rank = 1\<rparr>"
  "layout_prod \<lparr>bases = [(''register'', [[0, 16]]), (''lane'', [[0, 1], [0, 2], [0, 4], [0, 8], [1, 0], [2, 0]])],
       outDims = [(''dim1'', 4), (''dim0'', 32)], rank = 7\<rparr> \<lparr>bases = [(''warp'', [[0, 1]])],
       outDims = [(''dim1'', 1), (''dim0'', 2)], rank = 1\<rparr> =
     Some \<lparr>bases = [(''register'', [[0, 16]]), (''lane'', [[0, 1], [0, 2], [0, 4], [0, 8], [1, 0], [2, 0]]), (''warp'', [[0, 32]])],
       outDims = [(''dim1'', 4), (''dim0'', 64)], rank = 8\<rparr>"
  by code_simp+

lemma operand_combine_steps:
  "ensureLayoutNotSmallerThan \<lparr>bases = [(''register'', [[0, 16]]), (''lane'', [[0, 1], [0, 2], [0, 4], [0, 8], [1, 0], [2, 0]]), (''warp'', [[0, 32]])],
       outDims = [(''dim1'', 4), (''dim0'', 64)], rank = 8\<rparr> [(''dim1'', 4), (''dim0'', 32)] =
     Some \<lparr>bases = [(''register'', [[0, 16]]), (''lane'', [[0, 1], [0, 2], [0, 4], [0, 8], [1, 0], [2, 0]]), (''warp'', [[0, 32]])],
       outDims = [(''dim1'', 4), (''dim0'', 64)], rank = 8\<rparr>"
  "ensureLayoutNotLargerThan \<lparr>bases = [(''register'', [[0, 16]]), (''lane'', [[0, 1], [0, 2], [0, 4], [0, 8], [1, 0], [2, 0]]), (''warp'', [[0, 32]])],
       outDims = [(''dim1'', 4), (''dim0'', 64)], rank = 8\<rparr> [(''dim1'', 4), (''dim0'', 32)] True =
     Some \<lparr>bases = [(''register'', [[0, 16]]), (''lane'', [[0, 1], [0, 2], [0, 4], [0, 8], [1, 0], [2, 0]]), (''warp'', [[0, 0]])],
       outDims = [(''dim1'', 4), (''dim0'', 32)], rank = 7\<rparr>"
  "layout_prod \<lparr>bases = [(''register'', [[0, 16]]), (''lane'', [[0, 1], [0, 2], [0, 4], [0, 8], [1, 0], [2, 0]]), (''warp'', [[0, 0]])],
       outDims = [(''dim1'', 4), (''dim0'', 32)], rank = 7\<rparr> \<lparr>bases = [(''block'', [])],
       outDims = [(''dim1'', 1), (''dim0'', 1)], rank = 0\<rparr> =
     Some \<lparr>bases = [(''register'', [[0, 16]]), (''lane'', [[0, 1], [0, 2], [0, 4], [0, 8], [1, 0], [2, 0]]), (''warp'', [[0, 0]]), (''block'', [])],
       outDims = [(''dim1'', 4), (''dim0'', 32)], rank = 7\<rparr>"
  "transposeOuts \<lparr>bases = [(''register'', [[0, 16]]), (''lane'', [[0, 1], [0, 2], [0, 4], [0, 8], [1, 0], [2, 0]]), (''warp'', [[0, 0]]), (''block'', [])],
       outDims = [(''dim1'', 4), (''dim0'', 32)], rank = 7\<rparr> [''dim0'', ''dim1''] =
     Some \<lparr>bases = [(''register'', [[16, 0]]), (''lane'', [[1, 0], [2, 0], [4, 0], [8, 0], [0, 1], [0, 2]]), (''warp'', [[0, 0]]), (''block'', [])],
       outDims = [(''dim0'', 32), (''dim1'', 4)], rank = 7\<rparr>"
  "transposeOuts \<lparr>bases = [(''register'', [[16, 0]]), (''lane'', [[1, 0], [2, 0], [4, 0], [8, 0], [0, 1], [0, 2]]), (''warp'', [[0, 0]]), (''block'', [])],
       outDims = [(''dim0'', 32), (''dim1'', 4)], rank = 7\<rparr> [''dim0'', ''dim1''] =
     Some \<lparr>bases = [(''register'', [[16, 0]]), (''lane'', [[1, 0], [2, 0], [4, 0], [8, 0], [0, 1], [0, 2]]), (''warp'', [[0, 0]]), (''block'', [])],
       outDims = [(''dim0'', 32), (''dim1'', 4)], rank = 7\<rparr>"
  by code_simp+

lemma operand_sizes:
  "getOutDimNames \<lparr>bases = [(''register'', [[0, 16]]), (''lane'', [[0, 1], [0, 2], [0, 4], [0, 8], [1, 0], [2, 0]]), (''warp'', [[0, 32]])],
       outDims = [(''dim1'', 4), (''dim0'', 64)], rank = 8\<rparr> =
     [''dim1'', ''dim0'']"
  "getOutDimNames \<lparr>bases = [(''block'', [])],
       outDims = [(''dim1'', 1), (''dim0'', 1)], rank = 0\<rparr> =
     [''dim1'', ''dim0'']"
  "getOutDimNames \<lparr>bases = [(''register'', [[16, 0]]), (''lane'', [[1, 0], [2, 0], [4, 0], [8, 0], [0, 1], [0, 2]]), (''warp'', [[0, 0]]), (''block'', [])],
       outDims = [(''dim0'', 32), (''dim1'', 4)], rank = 7\<rparr> =
     [''dim0'', ''dim1'']"
  "getOutDimSize \<lparr>bases = [(''block'', [])],
       outDims = [(''dim1'', 1), (''dim0'', 1)], rank = 0\<rparr> ''dim0'' =
     Some 1"
  "getOutDimSize \<lparr>bases = [(''block'', [])],
       outDims = [(''dim1'', 1), (''dim0'', 1)], rank = 0\<rparr> ''dim1'' =
     Some 1"
  "getOutDimSize \<lparr>bases = [(''register'', [[16, 0]]), (''lane'', [[1, 0], [2, 0], [4, 0], [8, 0], [0, 1], [0, 2]]), (''warp'', [[0, 0]]), (''block'', [])],
       outDims = [(''dim0'', 32), (''dim1'', 4)], rank = 7\<rparr> ''dim0'' =
     Some 32"
  "getOutDimSize \<lparr>bases = [(''register'', [[16, 0]]), (''lane'', [[1, 0], [2, 0], [4, 0], [8, 0], [0, 1], [0, 2]]), (''warp'', [[0, 0]]), (''block'', [])],
       outDims = [(''dim0'', 32), (''dim1'', 4)], rank = 7\<rparr> ''dim1'' =
     Some 4"
  by code_simp+

lemma names_le2: "standardOutDimNames (Suc (Suc 0)) = [''dim0'', ''dim1'']"
  by code_simp

lemma operand_combined:
  "combineCtaCgaWithShape \<lparr>bases = [(''register'', [[0, 16]]), (''lane'', [[0, 1], [0, 2], [0, 4], [0, 8], [1, 0], [2, 0]]), (''warp'', [[0, 32]])],
       outDims = [(''dim1'', 4), (''dim0'', 64)], rank = 8\<rparr> \<lparr>CTAsPerCGA = [1, 1], CTASplitNum = [1, 1], CTAOrder = [1, 0]\<rparr> [32, 4] =
     Some \<lparr>bases = [(''register'', [[16, 0]]), (''lane'', [[1, 0], [2, 0], [4, 0], [8, 0], [0, 1], [0, 2]]), (''warp'', [[0, 0]]), (''block'', [])],
       outDims = [(''dim0'', 32), (''dim1'', 4)], rank = 7\<rparr>"
  by (simp add: combineCtaCgaWithShape_def names_le2 cga_steps [unfolded One_nat_def] operand_combine_steps operand_sizes)

lemma operand_layout: "mfmaDotToLinearLayout wide_tiles 0 1 [32, 4] =
     Some \<lparr>bases = [(''register'', [[16, 0]]), (''lane'', [[1, 0], [2, 0], [4, 0], [8, 0], [0, 1], [0, 2]]), (''warp'', [[0, 0]]), (''block'', [])],
       outDims = [(''dim0'', 32), (''dim1'', 4)], rank = 7\<rparr>"
proof -
  have s: "getOrderForDotOperand 0 (Suc (Suc 0)) True = Some [1, 0]" "getDefaultMmaOrder (Suc (Suc 0)) = [1, 0]" "cdiv 64 16 = Some 4"
    "with_batch [1, 0] [''dim0'', ''dim1''] t = Some t" for t
    by (code_simp, code_simp, code_simp, simp add: with_batch_def)
  show ?thesis
    using operand_combined [unfolded One_nat_def] operand_steps [unfolded One_nat_def] operand_combine_steps(5) s [unfolded One_nat_def]
    by (simp add: mfmaDotToLinearLayout_def wide_tiles_def names_le2)
qed

lemma operand_repetitions: "mfmaRepForOperand wide_tiles [32, 4] 1 0 = Some [1, 1, 1]"
  by code_simp

end
