(* ===== verification/ConversionProps.thy ===== *)
theory ConversionProps
  imports SwizzledShared BlockedBuilder MfmaTiles
begin

text \<open>
  The properties of the conversions from encodings to layouts, each with an instance on concrete data.
\<close>

section \<open>Blocked encodings\<close>

text \<open>
  C22: every blocked encoding the verifier accepts, over a grid of CTAs, converts at every shape of powers
  of two (as long as the bits fit the 64 columns the compiler can reduce, and a tile below \<open>2 ^ 31\<close>): the
  layout goes from register, lane, warp and block to exactly the shape, reaches every element, and each of
  its basis vectors moves by a power of two in one dimension, so that the verifier of linear encodings
  accepts it.
\<close>

theorem blocked_encoding_layout:
  assumes v: "verifyBlocked e = None"
    and small: "list_all (\<lambda>x. 0 < x \<and> x < 2 ^ 31) (sizePerThread e @ threadsPerWarp e @ warpsPerCTA e)"
    and g: "grid (blockedCTA e)" and sh: "list_all small_pow shape" "length shape = length (blockedOrder e)" "shape \<noteq> []"
    and b: "bits (sizePerThread e @ threadsPerWarp e @ warpsPerCTA e @ shape @ CTAsPerCGA (blockedCTA e)) \<le> 64"
    and tile: "\<And>d. d < length shape \<Longrightarrow> sizePerThread e ! d * threadsPerWarp e ! d * warpsPerCTA e ! d < 2 ^ 31"
  shows "\<exists>l. blockedToLinearLayout e shape = Some l \<and> wf l \<and> isSurjective l \<and>
    getInDimNames l = [''register'', ''lane'', ''warp'', ''block''] \<and>
    outDims l = zip (standardOutDimNames (length shape)) shape \<and> placed l \<and> verifyLinear l = None"
  using assms by (rule blocked_converts)

lemma blocked_encoding_layout_witness:
  "\<exists>l. blockedToLinearLayout \<lparr>sizePerThread = [1, 4], threadsPerWarp = [8, 4], warpsPerCTA = [2, 2], blockedOrder = [1, 0],
       blockedCTA = \<lparr>CTAsPerCGA = [2, 1], CTASplitNum = [2, 1], CTAOrder = [1, 0]\<rparr>\<rparr> [64, 16] = Some l \<and> isSurjective l"
proof -
  let ?e = "\<lparr>sizePerThread = [1, 4], threadsPerWarp = [8, 4], warpsPerCTA = [2, 2], blockedOrder = [1, 0],
       blockedCTA = \<lparr>CTAsPerCGA = [2, 1], CTASplitNum = [2, 1], CTAOrder = [1, 0]\<rparr>\<rparr>"
  have v: "verifyBlocked ?e = None" by code_simp
  have g: "grid (blockedCTA ?e)" by code_simp
  have sh: "list_all small_pow [64, 16]" by code_simp
  have b: "bits (sizePerThread ?e @ threadsPerWarp ?e @ warpsPerCTA ?e @ [64, 16] @ CTAsPerCGA (blockedCTA ?e)) \<le> 64" by code_simp
  have t: "sizePerThread ?e ! d * threadsPerWarp ?e ! d * warpsPerCTA ?e ! d < 2 ^ 31" if "d < length [64, 16 :: int]" for d
    using that by (auto simp: less_Suc_eq)
  show ?thesis using blocked_encoding_layout [OF v _ g sh _ _ b t] by auto
qed

text \<open>
  C23: the builder of blocked encodings, for powers of two: it always answers, the verifier accepts the answer,
  the registers and the order are the ones asked for, and the threads, warps and CTAs are spread without a
  rest: their products are the numbers given, whatever the shape.
\<close>

theorem built_blocked_encoding:
  assumes perm: "isPermutationOfIota ord" "length ord = length shape" "length spt = length shape" "shape \<noteq> []"
    and sh: "list_all small_pow shape" "list_all small_pow spt"
    and n: "small_pow numWarps" "small_pow numThreads" "small_pow numCTAs" "numWarps * numThreads < 2 ^ 31"
  shows "\<exists>e. buildBlockedCTAs shape spt ord numWarps numThreads numCTAs = Some e \<and> verifyBlocked e = None \<and>
    sizePerThread e = spt \<and> blockedOrder e = ord \<and> prod_list (threadsPerWarp e) = numThreads \<and>
    prod_list (warpsPerCTA e) = numWarps \<and> prod_list (CTAsPerCGA (blockedCTA e)) = numCTAs"
proof -
  obtain W L C where k: "numWarps = 2 ^ W" "numThreads = 2 ^ L" "numCTAs = 2 ^ C" "C < 31"
    using n(1-3) by (auto simp: small_pow_iff)
  then have "(2::int) ^ (L + W) < 2 ^ 31" using n(4) by (simp add: power_add mult.commute)
  then have "L + W < 31" by (simp only: power_strict_increasing_iff)
  then show ?thesis using buildBlockedCTAs_pow [OF perm sh _ k(4)] k(1-3) by blast
qed

lemma built_blocked_encoding_witness:
  "\<exists>e. buildBlockedCTAs [128, 64] [1, 8] [1, 0] 4 32 2 = Some e \<and> verifyBlocked e = None \<and> prod_list (threadsPerWarp e) = 32"
proof -
  have h: "isPermutationOfIota [1, 0]" "list_all small_pow [128, 64]" "list_all small_pow [1, 8]"
    "small_pow 4" "small_pow 32" "small_pow 2" by code_simp+
  show ?thesis using built_blocked_encoding [OF h(1) _ _ _ h(2-6)] by auto
qed



section \<open>Swizzled shared encodings\<close>

text \<open>
  C24: a two-dimensional swizzled shared encoding of powers of two computes the documented swizzle: in the
  first CTA, the element at row \<open>r\<close> and column \<open>c\<close> of the storage order is the one at column
  \<open>c xor vec * ((r / perPhase) mod maxPhase)\<close> of the tensor (within the columns of one CTA), and the
  offsets are exactly the elements one CTA holds.
\<close>

theorem swizzled_shared_layout:
  assumes v: "verifySwizzled e = None" and g: "grid (swizzleCTA e)"
    and sh: "list_all small_pow shape" "length shape = 2" "length (swizzleOrder e) = 2"
    and p: "small_pow (vec e)" "small_pow (perPhase e)" "small_pow (maxPhase e)"
    and b: "bits (shape @ CTAsPerCGA (swizzleCTA e)) \<le> 64"
    and per: "getShapePerCTA (Swizzled e) shape = Some per"
    and d: "rd = swizzleOrder e ! 1" "cd = swizzleOrder e ! 0"
  shows "\<exists>l. swizzledSharedToLinearLayout shape e = Some l \<and> wf l \<and> getInDimNames l = [''offset'', ''block''] \<and>
    outDims l = zip (standardOutDimNames 2) shape \<and> getInDimSize l ''offset'' = Some (per ! 0 * per ! 1) \<and>
    (\<forall>r c. 0 \<le> r \<and> r < per ! rd \<and> 0 \<le> c \<and> c < per ! cd \<longrightarrow>
       apply_layout l [(''offset'', r * per ! cd + c), (''block'', 0)] =
       Some (map (\<lambda>i. (standardOutDimNames 2 ! i,
         if i = rd then r else c XOR (vec e * (r div perPhase e mod maxPhase e) mod per ! cd))) [0, 1]))"
proof -
  let ?c = "swizzleCTA e" and ?k = "\<lambda>i. log2_32 (shape ! i)"
  let ?s = "\<lambda>i. log2_32 (CTASplitNum ?c ! i)" and ?n = "\<lambda>i. log2_32 (CTAsPerCGA ?c ! i)"
  define q where "q = (\<lambda>i. ?k i - min (?s i) (?k i))"
  have len: "length (CTAOrder ?c) = 2" and perm: "isPermutationOfIota (swizzleOrder e)"
    using v sh(3) by (auto simp: verifySwizzled_def split: if_splits)
  have ok: "cga_ok ?c 2 ?s ?n" using grid_ok [OF g] len by simp
  have "shape \<noteq> []" using sh(2) by auto
  then have ps: "pow_shape shape ?k" by (rule pow_shape_nth [OF sh(1)])
  have splits: "length (CTASplitNum ?c) = length shape" "\<And>i. i < length shape \<Longrightarrow> CTASplitNum ?c ! i = 2 ^ ?s i"
    using ok sh(2) by (auto simp: cga_ok_def)
  have perq: "per = map (\<lambda>i. 2 ^ q i) [0..<2]"
    using per perCTA_eq [OF ps splits] sh(2) by (simp add: getShapePerCTA_def getCTASplitNum_def q_def)
  have o2: "swizzleOrder e = [cd, rd]" "{rd, cd} = {0, 1}" "rd < 2" "cd < 2"
    using order_pair [OF perm sh(3)] d by simp_all
  have pw: "vec e = 2 ^ log2_32 (vec e)" "perPhase e = 2 ^ log2_32 (perPhase e)" "maxPhase e = 2 ^ log2_32 (maxPhase e)"
    using small_powE p by blast+
  let ?F = "row_shift (q cd) (log2_32 (vec e)) (log2_32 (perPhase e)) (log2_32 (maxPhase e))"
  have q31: "q i < 31" if "i < 2" for i using ps that sh(2) by (simp add: pow_shape_def q_def less_imp_diff_less)
  have "swizzle_bases (2 ^ q rd) (2 ^ q cd) (swizzled_col e (2 ^ q cd)) = Some (tile_bases (q rd) (q cd) ?F)"
    by (rule swizzle_bases_eq) (rule swizzled_col_eq [OF pw], simp)
  moreover have ne: "standardOutDimNames 2 ! rd \<noteq> standardOutDimNames 2 ! cd"
    using standard_names_eq [OF o2(3,4)] o2(2) by (auto simp: doubleton_eq_iff)
  obtain t where t: "mkLayoutInfer [(''offset'', tile_bases (q rd) (q cd) ?F)] [standardOutDimNames 2 ! rd, standardOutDimNames 2 ! cd] = Some t"
    using tile_total [OF q31 [OF o2(3)] q31 [OF o2(4)] row_shift_linear ne] by blast
  have tot: "?k 0 + ?k 1 + ?n 0 + ?n 1 \<le> 64"
    using b bits_pair [of shape] bits_pair [of "CTAsPerCGA ?c"] sh(2) ok by (simp add: cga_ok_def)
  obtain l where l: "combineCtaCgaWithShape t ?c shape = Some l" "wf l" "getInDimNames l = [''offset'', ''block'']"
    "outDims l = zip (standardOutDimNames 2) shape" "in_len l ''offset'' = q 0 + q 1"
    "\<forall>x y. 0 \<le> x \<and> x < 2 ^ q rd \<and> 0 \<le> y \<and> y < 2 ^ q cd \<longrightarrow>
       apply_layout l [(''offset'', x * 2 ^ q cd + y), (''block'', 0)] =
       Some (map (\<lambda>i. (standardOutDimNames 2 ! i, if i = rd then x else y XOR ?F x)) [0, 1])"
    using swizzled_tile_total [OF sh(2) ps ok o2(2) tot q_def [THEN fun_cong] t row_shift_linear] by blast
  have pn: "per ! rd = 2 ^ q rd" "per ! cd = 2 ^ q cd" "per ! 0 = 2 ^ q 0" "per ! 1 = 2 ^ q 1"
    using o2(3,4) by (simp_all add: perq)
  ultimately have "swizzledSharedToLinearLayout shape e = Some l"
    using per sh(2) o2 pn t l(1) by (simp add: swizzledSharedToLinearLayout_def swizzled_layout_def)
  moreover have "getInDimSize l ''offset'' = Some (per ! 0 * per ! 1)"
  proof -
    have "map_of (bases l) ''offset'' \<noteq> None" using l(3) by (simp add: map_of_eq_None_iff getInDimNames_def flip: set_map)
    then show ?thesis using l(5) pn by (auto simp: getInDimSize_def getInDimSizeLog2_def in_len_def power_add split: option.splits)
  qed
  moreover have "?F x = vec e * (x div perPhase e mod maxPhase e) mod per ! cd" if "0 \<le> x" for x
    using row_shift_eq [OF that, of "q cd"] pn(2) by (simp flip: pw)
  ultimately show ?thesis using l(2-4,6) pn by (intro exI [of _ l]) simp
qed


lemma swizzled_shared_layout_witness:
  "\<exists>l. swizzledSharedToLinearLayout [16, 32]
      \<lparr>vec = 4, perPhase = 2, maxPhase = 4, swizzleOrder = [1, 0],
       swizzleCTA = \<lparr>CTAsPerCGA = [1, 1], CTASplitNum = [1, 1], CTAOrder = [1, 0]\<rparr>\<rparr> = Some l \<and>
    apply_layout l [(''offset'', 5 * 32 + 9), (''block'', 0)] = Some [(''dim0'', 5), (''dim1'', 1)]"
proof -
  let ?e = "\<lparr>vec = 4, perPhase = 2, maxPhase = 4, swizzleOrder = [1, 0],
       swizzleCTA = \<lparr>CTAsPerCGA = [1, 1], CTASplitNum = [1, 1], CTAOrder = [1, 0]\<rparr>\<rparr> :: swizzle_params"
  have h: "verifySwizzled ?e = None" "grid (swizzleCTA ?e)" "list_all small_pow [16, 32]" "small_pow (vec ?e)"
    "small_pow (perPhase ?e)" "small_pow (maxPhase ?e)" "bits ([16, 32] @ CTAsPerCGA (swizzleCTA ?e)) \<le> 64"
    "getShapePerCTA (Swizzled ?e) [16, 32] = Some [16, 32]" by code_simp+
  have n: "standardOutDimNames 2 ! 0 = ''dim0''" "standardOutDimNames 2 ! 1 = ''dim1''" by (simp_all add: names2)
  show ?thesis
    using swizzled_shared_layout [OF h(1-3) _ _ h(4-8), of 0 1] n by (fastforce dest: spec [of _ 5] spec [of _ 9])
qed

section \<open>Matrix instructions\<close>

text \<open>
  C25: the accumulators of Nvidia matrix instructions, Ampere and Hopper: for an instruction of \<open>2 ^ m\<close> rows and
  \<open>2 ^ n\<close> columns, any grid of warps and CTAs of powers of two and any shape of powers of two, the layout exists,
  goes from register, lane, warp and block to exactly the shape, reaches every element, and each of its basis
  vectors moves by a power of two in one dimension.
\<close>

theorem mma_layout:
  assumes "isAmpere e \<or> isHopper e" and "take 2 (instrShape e) = [2 ^ m, 2 ^ n]" "isAmpere e \<Longrightarrow> length (instrShape e) = 2"
    and "3 \<le> m" "m < 20" "3 \<le> n" "n < 20"
    and "list_all small_pow (mmaWarps e)" "length (mmaWarps e) = 2"
    and "grid (mmaCTA e)" "length (CTAOrder (mmaCTA e)) = 2" and "list_all small_pow shape" "length shape = 2"
    and "m + n + bits (mmaWarps e @ shape @ CTAsPerCGA (mmaCTA e)) \<le> 64"
    and "m + log2_32 (mmaWarps e ! 0) < 31" "n + log2_32 (mmaWarps e ! 1) < 31"
  shows "\<exists>l. mmaToLinearLayout e shape = Some l \<and> wf l \<and> isSurjective l \<and>
    getInDimNames l = [''register'', ''lane'', ''warp'', ''block''] \<and> outDims l = zip (standardOutDimNames 2) shape \<and>
    placed l \<and> verifyLinear l = None"
  using assms by (rule mma_converts)

lemma mma_layout_witness:
  "\<exists>l. mmaToLinearLayout \<lparr>versionMajor = 2, versionMinor = 0, mmaWarps = [4, 1],
       mmaCTA = \<lparr>CTAsPerCGA = [1, 1], CTASplitNum = [1, 1], CTAOrder = [1, 0]\<rparr>, instrShape = [16, 8]\<rparr> [128, 64] = Some l \<and>
    isSurjective l"
proof -
  let ?e = "\<lparr>versionMajor = 2, versionMinor = 0, mmaWarps = [4, 1],
       mmaCTA = \<lparr>CTAsPerCGA = [1, 1], CTASplitNum = [1, 1], CTAOrder = [1, 0]\<rparr>, instrShape = [16, 8]\<rparr>"
  have h: "isAmpere ?e \<or> isHopper ?e" "list_all small_pow (mmaWarps ?e)" "grid (mmaCTA ?e)" "list_all small_pow [128, 64]"
    "4 + 3 + bits (mmaWarps ?e @ [128, 64] @ CTAsPerCGA (mmaCTA ?e)) \<le> 64"
    "4 + log2_32 (mmaWarps ?e ! 0) < 31" "3 + log2_32 (mmaWarps ?e ! 1) < 31" by code_simp+
  show ?thesis using mma_layout [OF h(1) _ _ _ _ _ _ h(2) _ h(3) _ h(4) _ h(5-7)] by auto
qed

text \<open>
  The operand of an AMD matrix instruction is repeated by the tiles per warp of the wrong dimension. With
  16 rows per instruction, one tile along the rows and two along the columns, and two warps along the rows of
  operand A of 32 rows and 4 columns: the count of repetitions says that each thread holds one value, but the
  layout gives it two, of the rows \<open>r\<close> and \<open>16 + r\<close>, and both warps hold the same rows.
\<close>

theorem mfma_operand_tiles:
  "map_option bases (mfmaDotToLinearLayout wide_tiles 0 1 [32, 4]) =
     Some [(''register'', [[16, 0]]), (''lane'', [[1, 0], [2, 0], [4, 0], [8, 0], [0, 1], [0, 2]]), (''warp'', [[0, 0]]), (''block'', [])] \<and>
   mfmaRepForOperand wide_tiles [32, 4] 1 0 = Some [1, 1, 1]"
  by (simp add: operand_layout operand_repetitions)

end
