(* ===== verification/InferLayout.thy ===== *)
theory InferLayout
  imports LayoutConversions
begin

text \<open>
  The layout inference interface of the TritonGPU dialect (\<open>TritonGPUInferLayoutInterface\<close> in
  \<open>lib/Dialect/TritonGPU/IR/Dialect.cpp\<close>), with \<open>tryJoinOnAxis\<close>, the verifier of tensor layouts and
  \<open>getReshapeDecomposition\<close> of \<open>lib/Analysis/Utility.cpp\<close>. The result of an inference is an error or an
  encoding; None is a stopped compiler. Element counts are unbounded integers: those of a tensor stay far
  below the width of an \<open>int\<close>.
\<close>

datatype infer_error =
    OrderRank | EncodingRank | TransposedIn2D | NotSlice | SliceDimension
  | HopperOperand | WrongOpIdx | ParentMismatch | NotDotOperand | OperandMismatch | KWidthMismatch
  | NoLegacyEncoding | NumelMismatch | NoMemDescReshape | UnexpectedEncoding
  | JoinAxis | SplitSize | TooFewElements
  | NotDistributed | LayoutRank | ShapePower | ThreadsPerWarp | WarpsUnknown | WarpsPerCTA | CTAsPerCluster

type_synonym 'a inferred = "(infer_error + 'a) option"

abbreviation fails :: "infer_error \<Rightarrow> 'a inferred" where
  "fails e \<equiv> Some (Inl e)"

abbreviation gives :: "'a \<Rightarrow> 'a inferred" where
  "gives x \<equiv> Some (Inr x)"

definition and_then :: "'a inferred \<Rightarrow> ('a \<Rightarrow> 'b inferred) \<Rightarrow> 'b inferred" where
  "and_then r f = Option.bind r (\<lambda>s. case s of Inl e \<Rightarrow> fails e | Inr x \<Rightarrow> f x)"

lemma and_then_simps [simp]: "and_then None f = None" "and_then (fails e) f = fails e" "and_then (gives x) f = f x"
  by (simp_all add: and_then_def)

section \<open>Reduction and expansion\<close>

definition inferReduceOpEncoding :: "encoding \<Rightarrow> nat \<Rightarrow> encoding inferred" where
  "inferReduceOpEncoding operand axis =
     (case operand of Distributed d \<Rightarrow> gives (Distributed (SliceEnc axis d)) | _ \<Rightarrow> None)"

definition inferExpandDimsOpEncoding :: "encoding \<Rightarrow> nat \<Rightarrow> encoding inferred" where
  "inferExpandDimsOpEncoding operand axis =
     (case operand of
        Distributed (SliceEnc d parent) \<Rightarrow> if d \<noteq> axis then fails SliceDimension else gives (Distributed parent)
      | _ \<Rightarrow> fails NotSlice)"

section \<open>Transposition\<close>

definition permuteCTALayout :: "cta_layout \<Rightarrow> nat list \<Rightarrow> cta_layout option" where
  "permuteCTALayout layout ord =
     (if length ord \<noteq> length (CTAOrder layout) then None
      else do {
        iord \<leftarrow> inversePermutation ord;
        ctas \<leftarrow> applyPermutation (CTAsPerCGA layout) ord;
        split \<leftarrow> applyPermutation (CTASplitNum layout) ord;
        o' \<leftarrow> applyPermutation iord (CTAOrder layout);
        Some (mkCTALayout ctas split o')
      })"

definition transBlocked :: "blocked_encoding \<Rightarrow> nat list \<Rightarrow> nat list \<Rightarrow> blocked_encoding option" where
  "transBlocked e ord iord = do {
     cta \<leftarrow> permuteCTALayout (blockedCTA e) ord;
     spt \<leftarrow> applyPermutation (sizePerThread e) ord;
     tpw \<leftarrow> applyPermutation (threadsPerWarp e) ord;
     wpc \<leftarrow> applyPermutation (warpsPerCTA e) ord;
     o' \<leftarrow> applyPermutation iord (blockedOrder e);
     Some \<lparr>sizePerThread = spt, threadsPerWarp = tpw, warpsPerCTA = wpc, blockedOrder = o', blockedCTA = cta\<rparr>
   }"

definition inferTransOpEncoding :: "encoding \<Rightarrow> int list \<Rightarrow> nat list \<Rightarrow> encoding inferred" where
  "inferTransOpEncoding operand shape ord =
     (if isIota ord then gives operand
      else if length shape \<noteq> length ord then fails OrderRank
      else Option.bind (inversePermutation ord) (\<lambda>iord.
        case operand of
          Swizzled e \<Rightarrow>
            if length (CTAOrder (swizzleCTA e)) \<noteq> length ord then fails EncodingRank
            else do {
              cta \<leftarrow> permuteCTALayout (swizzleCTA e) ord;
              o' \<leftarrow> applyPermutation iord (swizzleOrder e);
              gives (Swizzled (e\<lparr>swizzleOrder := o', swizzleCTA := cta\<rparr>))
            }
        | NVMMAShared e \<Rightarrow>
            if length (CTAOrder (nvCTA e)) \<noteq> length ord then fails EncodingRank
            else if ord \<noteq> [1, 0] then fails TransposedIn2D
            else do {
              cta \<leftarrow> permuteCTALayout (nvCTA e) ord;
              gives (NVMMAShared (e\<lparr>nvTransposed := \<not> nvTransposed e, nvCTA := cta\<rparr>))
            }
        | Distributed (Blocked e) \<Rightarrow>
            if length (CTAOrder (blockedCTA e)) \<noteq> length ord then fails EncodingRank
            else Option.bind (transBlocked e ord iord) (\<lambda>e'. gives (Distributed (Blocked e')))
        | Padded e \<Rightarrow>
            if length (CTAOrder (paddedCTA e)) \<noteq> length ord then fails EncodingRank
            else do {
              cta \<leftarrow> permuteCTALayout (paddedCTA e) ord;
              o' \<leftarrow> applyPermutation iord (paddedOrder e);
              gives (Padded (e\<lparr>paddedOrder := o', paddedCTA := cta\<rparr>))
            }
        | _ \<Rightarrow> do {
            ll \<leftarrow> toLinearLayout shape operand;
            t \<leftarrow> transposeLinearLayout ll ord;
            gives (Distributed (LinearEnc t))
          }))"

section \<open>Dot products\<close>

definition inferDotOpEncoding :: "encoding \<Rightarrow> nat \<Rightarrow> encoding \<Rightarrow> unit inferred" where
  "inferDotOpEncoding operand opIdx ret =
     (case ret of
        Distributed (NvidiaMma m) \<Rightarrow>
          if isHopper m
          then (case operand of
              NVMMAShared _ \<Rightarrow> gives ()
            | Distributed (DotOperand i (NvidiaMma _) _) \<Rightarrow> if opIdx = 0 \<and> i = 0 then gives () else fails HopperOperand
            | _ \<Rightarrow> fails HopperOperand)
          else (case operand of
              Distributed (DotOperand i parent _) \<Rightarrow>
                if opIdx \<noteq> i then fails WrongOpIdx else if ret \<noteq> Distributed parent then fails ParentMismatch else gives ()
            | _ \<Rightarrow> fails NotDotOperand)
      | _ \<Rightarrow>
          (case operand of
              Distributed (DotOperand i parent _) \<Rightarrow>
                if opIdx \<noteq> i then fails WrongOpIdx else if ret \<noteq> Distributed parent then fails ParentMismatch else gives ()
            | _ \<Rightarrow> fails NotDotOperand))"

text \<open>The parent of operand A is read before it is known that A is a dot operand: when only B is one, a null
  attribute is followed.\<close>

definition dot_operand :: "encoding \<Rightarrow> (distributed \<times> int) option" where
  "dot_operand e = (case e of Distributed (DotOperand _ parent kWidth) \<Rightarrow> Some (parent, kWidth) | _ \<Rightarrow> None)"

definition verifyDotOpEncodingCompatibility :: "encoding \<Rightarrow> encoding \<Rightarrow> unit inferred" where
  "verifyDotOpEncodingCompatibility encA encB =
     (case (dot_operand encA, dot_operand encB) of
        (None, None) \<Rightarrow> gives ()
      | (None, Some _) \<Rightarrow> None
      | (Some (parentA, kA), b) \<Rightarrow>
          if (case parentA of NvidiaMma m \<Rightarrow> isHopper m | _ \<Rightarrow> False) then gives ()
          else (case b of
              None \<Rightarrow> fails OperandMismatch
            | Some (_, kB) \<Rightarrow> if kA \<noteq> kB then fails KWidthMismatch else gives ()))"

section \<open>Reshapes\<close>

text \<open>The dims of the source and of the result in chunks of the same number of elements; the state holds the
  chunks before, the current one, the next dim of each side and the elements of the current chunk. Every turn
  takes a dim or closes a chunk; the code has no bound on chunks that stay empty.\<close>

partial_function (option) decompose ::
  "int list \<Rightarrow> int list \<Rightarrow> (nat list \<times> nat list) list \<Rightarrow> nat list \<times> nat list \<Rightarrow> nat \<Rightarrow> nat \<Rightarrow> int \<Rightarrow> int \<Rightarrow>
   (nat list \<times> nat list) list option" where [code]:
  "decompose src dst ret cur i j srcN dstN =
     (if i < length src \<or> j < length dst
      then if srcN < dstN \<or> i < length src \<and> srcN = 1 \<or> i < length src \<and> src ! i = 1
           then if i < length src
                then decompose src dst ret (fst cur @ [i], snd cur) (i + 1) j (srcN * src ! i) dstN
                else None
           else if dstN < srcN \<or> j < length dst \<and> dst ! j = 1
           then if j < length dst
                then decompose src dst ret (fst cur, snd cur @ [j]) i (j + 1) srcN (dstN * dst ! j)
                else None
           else decompose src dst (ret @ [cur]) ([], []) i j 1 1
      else Some (ret @ [cur]))"

definition getReshapeDecomposition :: "int list \<Rightarrow> int list \<Rightarrow> (nat list \<times> nat list) list option" where
  "getReshapeDecomposition src dst =
     (if src = [] then if dst = [] then Some [] else None
      else decompose src dst [] ([], []) 0 0 1 1)"

text \<open>What a block takes of the shape of a chunk, from the most minor dim on; false when the block cannot be
  told apart from the reshaped dims.\<close>

fun check_subblock :: "int list \<Rightarrow> nat list \<Rightarrow> nat list \<Rightarrow> int list \<Rightarrow> (bool \<times> int list) option" where
  "check_subblock block srcDims [] rem = Some (True, rem)"
| "check_subblock block srcDims (i # is) rem =
     (let b = block ! (srcDims ! i)
      in if b = 1 then check_subblock block srcDims is rem
         else if list_ex (\<lambda>j. rem ! j \<noteq> 1) [i + 1..<length srcDims] then Some (False, rem)
         else do {
           r \<leftarrow> (if rem ! i \<ge> b
                then if b \<noteq> 0 \<and> rem ! i smod b = 0 then Some (rem ! i sdiv b) else None
                else Some 0);
           let rem' = rem[i := r];
           if r = 0 \<and> i \<noteq> 0 then Some (False, rem') else check_subblock block srcDims is rem'
         })"

fun check_subblocks :: "int list list \<Rightarrow> nat list \<Rightarrow> int list \<Rightarrow> bool option" where
  "check_subblocks [] srcDims rem = Some True"
| "check_subblocks (b # bs) srcDims rem = do {
     (ok, rem') \<leftarrow> check_subblock b srcDims (rev [0..<length srcDims]) rem;
     if ok then check_subblocks bs srcDims rem' else Some False
   }"

fun check_chunks :: "int list list \<Rightarrow> int list \<Rightarrow> (nat list \<times> nat list) list \<Rightarrow> bool option" where
  "check_chunks blocks srcShape [] = Some True"
| "check_chunks blocks srcShape ((srcDims, dstDims) # ds) = do {
     ok \<leftarrow> check_subblocks blocks srcDims (gather srcShape srcDims);
     if ok then check_chunks blocks srcShape ds else Some False
   }"

fun fill_dims :: "nat list \<Rightarrow> int \<Rightarrow> int list \<Rightarrow> int list \<Rightarrow> (int \<times> int list \<times> int list) option" where
  "fill_dims [] blockLeft dstBlock rem = Some (blockLeft, dstBlock, rem)"
| "fill_dims (d # ds) blockLeft dstBlock rem =
     (let val = min blockLeft (rem ! d)
      in if val \<noteq> 0 \<and> rem ! d smod val = 0
         then fill_dims ds (blockLeft sdiv val) (dstBlock[d := val]) (rem[d := rem ! d sdiv val]) else None)"

fun computeSubblockSize ::
  "int list \<Rightarrow> (nat list \<times> nat list) list \<Rightarrow> int list \<Rightarrow> int list \<Rightarrow> (int list \<times> int list) option" where
  "computeSubblockSize srcBlock [] dstBlock rem = Some (dstBlock, rem)"
| "computeSubblockSize srcBlock ((srcDims, dstDims) # ds) dstBlock rem = do {
     (left, dstBlock', rem') \<leftarrow> fill_dims (rev dstDims) (prod_list (gather srcBlock srcDims)) dstBlock rem;
     (if dstDims \<noteq> [] then Some () else None);
     computeSubblockSize srcBlock ds (dstBlock'[hd dstDims := dstBlock' ! hd dstDims * left]) rem'
   }"

fun legacy_divisible :: "int list \<Rightarrow> int list \<Rightarrow> bool option" where
  "legacy_divisible [] block = Some True"
| "legacy_divisible (s # ss) [] = None"
| "legacy_divisible (s # ss) (b # bs) =
     (if s < b then legacy_divisible ss bs
      else if b = 0 then None
      else if s smod b \<noteq> 0 then Some False
      else legacy_divisible ss bs)"

fun all_divisible :: "int list \<Rightarrow> int list list \<Rightarrow> bool option" where
  "all_divisible srcShape [] = Some True"
| "all_divisible srcShape (b # bs) = do {
     ok \<leftarrow> legacy_divisible srcShape b;
     if ok then all_divisible srcShape bs else Some False
   }"

text \<open>The order of the result: the chunks by the position of their first source dim, the dims of a chunk from
  the most minor one on.\<close>

definition reshaped_order :: "nat list \<Rightarrow> (nat list \<times> nat list) list \<Rightarrow> nat \<Rightarrow> nat list option" where
  "reshaped_order srcInv decomp r =
     (let dims = concat (map (\<lambda>(_, dstDims). rev dstDims) (sort_key (\<lambda>(srcDims, _). srcInv ! hd srcDims) decomp))
      in inversePermutation (fold (\<lambda>(i, d) iord. iord[d := i]) (enumerate 0 dims) (replicate r 0)))"

definition legacy_reshape :: "blocked_encoding \<Rightarrow> int list \<Rightarrow> int list \<Rightarrow> encoding inferred" where
  "legacy_reshape src srcShape dstShape = do {
     let blocks = [sizePerThread src, threadsPerWarp src, warpsPerCTA src];
     divisible \<leftarrow> all_divisible srcShape blocks;
     if \<not> divisible then fails NoLegacyEncoding
     else do {
       decomp \<leftarrow> getReshapeDecomposition srcShape dstShape;
       srcInv \<leftarrow> inversePermutation (blockedOrder src);
       if list_ex (\<lambda>(srcDims, _). \<not> isConsecutive (rev (gather srcInv srcDims))) decomp then fails NoLegacyEncoding
       else do {
         ok \<leftarrow> check_chunks blocks srcShape decomp;
         if \<not> ok then fails NoLegacyEncoding
         else do {
           let zeros = replicate (length dstShape) 0;
           (spt, rem1) \<leftarrow> computeSubblockSize (sizePerThread src) decomp zeros dstShape;
           (tpw, rem2) \<leftarrow> computeSubblockSize (threadsPerWarp src) decomp zeros rem1;
           (wpc, _) \<leftarrow> computeSubblockSize (warpsPerCTA src) decomp zeros rem2;
           ord \<leftarrow> reshaped_order srcInv decomp (length dstShape);
           let ones = replicate (length dstShape) 1;
           gives (Distributed (Blocked \<lparr>sizePerThread = spt, threadsPerWarp = tpw, warpsPerCTA = wpc, blockedOrder = ord,
             blockedCTA = mkCTALayout ones ones [0..<length dstShape]\<rparr>))
         }
       }
     }
   }"

definition inferReshapeOpLegacyEncoding :: "int list \<Rightarrow> encoding \<Rightarrow> int list \<Rightarrow> encoding inferred" where
  "inferReshapeOpLegacyEncoding srcShape srcEnc dstShape =
     (case srcEnc of
        Distributed (Blocked src) \<Rightarrow>
          if srcShape = dstShape then gives srcEnc
          else do {
            let numWarps = prod_list (warpsPerCTA src);
            let threads = prod_list (threadsPerWarp src);
            let numCTAs = prod_list (CTAsPerCGA (blockedCTA src));
            def \<leftarrow> getDefaultBlockedEncoding srcShape numWarps threads numCTAs;
            if src = def
            then Option.bind (getDefaultBlockedEncoding dstShape numWarps threads numCTAs) (\<lambda>e. gives (Distributed (Blocked e)))
            else if \<not> list_all (\<lambda>x. x = 1) (CTAsPerCGA (blockedCTA src)) \<or> \<not> list_all (\<lambda>x. x = 1) (CTASplitNum (blockedCTA src))
            then fails NoLegacyEncoding
            else legacy_reshape src srcShape dstShape
          }
      | _ \<Rightarrow> fails NoLegacyEncoding)"

definition inferReshapeLinearLayout :: "int list \<Rightarrow> encoding \<Rightarrow> int list \<Rightarrow> linear_layout option" where
  "inferReshapeLinearLayout srcShape srcEnc dstShape = do {
     src \<leftarrow> toLinearLayout srcShape srcEnc;
     (if prod_list srcShape = prod_list dstShape then Some () else None);
     reshapeLayout src dstShape
   }"

definition inferReshapeOpEncoding :: "int list \<Rightarrow> encoding \<Rightarrow> int list \<Rightarrow> encoding inferred" where
  "inferReshapeOpEncoding srcShape srcEnc dstShape =
     (if prod_list srcShape \<noteq> prod_list dstShape then fails NumelMismatch
      else Option.bind (inferReshapeOpLegacyEncoding srcShape srcEnc dstShape) (\<lambda>res.
        case res of
          Inr e \<Rightarrow> gives e
        | Inl _ \<Rightarrow>
            (case srcEnc of
               Distributed d \<Rightarrow>
                 Option.bind (inferReshapeLinearLayout srcShape srcEnc dstShape) (\<lambda>ll. gives (Distributed (LinearEnc ll)))
             | _ \<Rightarrow> fails NoMemDescReshape)))"

section \<open>Equality of layouts\<close>

definition areLayoutsEquivalent :: "int list \<Rightarrow> distributed \<Rightarrow> distributed \<Rightarrow> bool option" where
  "areLayoutsEquivalent shape lhs rhs = do {
     l \<leftarrow> distToLinearLayout lhs shape;
     r \<leftarrow> distToLinearLayout rhs shape;
     Some (layout_eq l r)
   }"

text \<open>A missing encoding is None.\<close>

definition verifyLayoutsAreEqual :: "int list \<Rightarrow> encoding option \<Rightarrow> encoding option \<Rightarrow> unit inferred" where
  "verifyLayoutsAreEqual shape expected got =
     (if expected = got then gives ()
      else case (expected, got) of
        (Some (Distributed e), Some (Distributed g)) \<Rightarrow>
          Option.bind (areLayoutsEquivalent shape e g) (\<lambda>eq. if eq then gives () else fails UnexpectedEncoding)
      | (Some _, Some _) \<Rightarrow> None
      | _ \<Rightarrow> fails UnexpectedEncoding)"

section \<open>Join and split\<close>

definition tryJoinOnAxis :: "linear_layout \<Rightarrow> bool \<Rightarrow> nat \<Rightarrow> linear_layout inferred" where
  "tryJoinOnAxis inLl fwdInference axis =
     (let outs = getOutDimNames inLl
      in if axis \<ge> length outs then None
         else if fwdInference
         then do {
           split \<leftarrow> identity1D 2 ''register'' (outs ! axis);
           l \<leftarrow> layout_prod split inLl;
           gives l
         }
         else let drops = (\<lambda>d b. b ! axis = 1 \<and> d = ''register'');
                  found = list_ex (\<lambda>(d, vs). list_ex (drops d) vs) (bases inLl);
                  newBases = map (\<lambda>(d, vs). (d, map (\<lambda>b. b[axis := b ! axis sdiv 2]) (filter (\<lambda>b. \<not> drops d b) vs))) (bases inLl)
              in if \<not> found then fails JoinAxis
                 else Option.bind (mkLayoutInfer newBases outs) gives)"

definition joinBlocked :: "blocked_encoding \<Rightarrow> blocked_encoding" where
  "joinBlocked e =
     \<lparr>sizePerThread = sizePerThread e @ [2], threadsPerWarp = threadsPerWarp e @ [1], warpsPerCTA = warpsPerCTA e @ [1],
      blockedOrder = length (blockedOrder e) # blockedOrder e,
      blockedCTA = mkCTALayout (CTAsPerCGA (blockedCTA e) @ [1]) (CTASplitNum (blockedCTA e) @ [1])
        (length (CTAOrder (blockedCTA e)) # CTAOrder (blockedCTA e))\<rparr>"

definition isSimpleSplit :: "blocked_encoding \<Rightarrow> bool" where
  "isSimpleSplit e \<longleftrightarrow> last (sizePerThread e) = 2 \<and> last (threadsPerWarp e) = 1 \<and> last (warpsPerCTA e) = 1 \<and>
     last (CTAsPerCGA (blockedCTA e)) = 1"

definition splitBlocked :: "blocked_encoding \<Rightarrow> blocked_encoding" where
  "splitBlocked e =
     \<lparr>sizePerThread = butlast (sizePerThread e), threadsPerWarp = butlast (threadsPerWarp e), warpsPerCTA = butlast (warpsPerCTA e),
      blockedOrder = filter (\<lambda>d. d \<noteq> length (blockedOrder e) - 1) (blockedOrder e),
      blockedCTA = mkCTALayout (butlast (CTAsPerCGA (blockedCTA e))) (butlast (CTASplitNum (blockedCTA e)))
        (tl (CTAOrder (blockedCTA e)))\<rparr>"

definition split_linear :: "encoding \<Rightarrow> int list \<Rightarrow> encoding inferred" where
  "split_linear srcEnc shape =
     (if shape = [] then None
      else if last shape \<noteq> 2 then fails SplitSize
      else do {
        ll \<leftarrow> toLinearLayout shape srcEnc;
        and_then (tryJoinOnAxis ll False (length shape - 1)) (\<lambda>newLl. do {
          l \<leftarrow> reshapeOuts newLl (standardOutDimPairs (butlast shape));
          gives (Distributed (LinearEnc l))
        })
      })"

definition inferSplitOpEncoding :: "encoding \<Rightarrow> int list \<Rightarrow> encoding inferred" where
  "inferSplitOpEncoding srcEnc shape =
     (case srcEnc of
        Distributed (Blocked e) \<Rightarrow> if isSimpleSplit e then gives (Distributed (Blocked (splitBlocked e))) else split_linear srcEnc shape
      | _ \<Rightarrow> split_linear srcEnc shape)"

text \<open>The encoding of a join from that of its operands: a blocked one gets a new fastest dim of two elements per
  thread; a slice off the last dim becomes its parent, when splitting the parent gives the slice back.\<close>

definition join_linear :: "encoding \<Rightarrow> int list \<Rightarrow> encoding inferred" where
  "join_linear srcEnc shape = do {
     ll \<leftarrow> toLinearLayout shape srcEnc;
     l \<leftarrow> reshapeOuts ll (standardOutDimPairs (shape @ [1]));
     (case tryJoinOnAxis l True (length shape) of
        Some (Inr newLl) \<Rightarrow> gives (Distributed (LinearEnc newLl))
      | _ \<Rightarrow> None)
   }"

definition inferDefaultJoinOpEncoding :: "encoding \<Rightarrow> int list \<Rightarrow> encoding inferred" where
  "inferDefaultJoinOpEncoding srcEnc shape =
     (case srcEnc of
        Distributed (SliceEnc d parent) \<Rightarrow>
          if d = length shape
          then do {
            parentLL \<leftarrow> distToLinearLayout parent (shape @ [2]);
            res \<leftarrow> inferSplitOpEncoding (Distributed parent) (shape @ [2]);
            (case res of
               Inr (Distributed s) \<Rightarrow>
                 Option.bind (areLayoutsEquivalent shape s (SliceEnc d parent)) (\<lambda>eq.
                   if eq then gives (Distributed parent) else join_linear srcEnc shape)
             | Inr _ \<Rightarrow> None
             | Inl _ \<Rightarrow> join_linear srcEnc shape)
          }
          else join_linear srcEnc shape
      | Distributed (Blocked e) \<Rightarrow> gives (Distributed (Blocked (joinBlocked e)))
      | _ \<Rightarrow> join_linear srcEnc shape)"

section \<open>Conversion from four bits\<close>

definition distOrder :: "distributed \<Rightarrow> int list \<Rightarrow> nat list option" where
  "distOrder d shape = Option.bind (distToLinearLayout d shape) linearOrder"

text \<open>The legacy cases double or halve the elements per thread along the axis; the test reads the order at the
  axis where the comment asks for the fastest running dim.\<close>

definition fp4_linear :: "distributed \<Rightarrow> int list \<Rightarrow> nat \<Rightarrow> bool \<Rightarrow> encoding inferred" where
  "fp4_linear d shape axis fwdInference = do {
     ll \<leftarrow> distToLinearLayout d shape;
     and_then (tryJoinOnAxis ll fwdInference axis) (\<lambda>newLl. gives (Distributed (LinearEnc newLl)))
   }"

definition inferFp4ToFpOpEncoding :: "int list \<Rightarrow> nat \<Rightarrow> encoding \<Rightarrow> bool \<Rightarrow> encoding inferred" where
  "inferFp4ToFpOpEncoding shape axis inEnc fwdInference =
     (case inEnc of
        Distributed d \<Rightarrow> do {
          ord \<leftarrow> distOrder d shape;
          if axis \<ge> length ord then None
          else if ord ! axis = 0
          then (case d of
              DotOperand opIdx parent kWidth \<Rightarrow>
                if fwdInference then gives (Distributed (DotOperand opIdx parent (kWidth * 2)))
                else if kWidth > 1 then gives (Distributed (DotOperand opIdx parent (kWidth sdiv 2)))
                else fails TooFewElements
            | Blocked e \<Rightarrow>
                let spt = sizePerThread e
                in if fwdInference then gives (Distributed (Blocked (e\<lparr>sizePerThread := spt[axis := spt ! axis * 2]\<rparr>)))
                   else if spt ! axis > 1 then gives (Distributed (Blocked (e\<lparr>sizePerThread := spt[axis := spt ! axis sdiv 2]\<rparr>)))
                   else fails TooFewElements
            | _ \<Rightarrow> fp4_linear d shape axis fwdInference)
          else fp4_linear d shape axis fwdInference
        }
      | _ \<Rightarrow> None)"

section \<open>The layout of a tensor type\<close>

text \<open>What the module says: threads per warp, warps per CTA at the operation if known, and CTAs.\<close>

definition verifyTensorLayout :: "encoding \<Rightarrow> int list \<Rightarrow> int \<Rightarrow> int option \<Rightarrow> int \<Rightarrow> unit inferred" where
  "verifyTensorLayout layout shape moduleThreads moduleWarps moduleCTAs =
     (case layout of
        Distributed d \<Rightarrow> do {
          ord \<leftarrow> distRepOrder d;
          if length ord \<noteq> length shape then fails LayoutRank
          else if list_ex (\<lambda>i. \<not> is_pow2_64u i) shape then fails ShapePower
          else do {
            ll \<leftarrow> distToLinearLayout d shape;
            lanes \<leftarrow> getInDimSize ll ''lane'';
            if lanes \<noteq> moduleThreads then fails ThreadsPerWarp
            else case moduleWarps of
              None \<Rightarrow> fails WarpsUnknown
            | Some w \<Rightarrow> do {
                warps \<leftarrow> getInDimSize ll ''warp'';
                if warps \<noteq> w then fails WarpsPerCTA
                else do {
                  blocks \<leftarrow> getInDimSize ll ''block'';
                  if blocks \<noteq> moduleCTAs then fails CTAsPerCluster else gives ()
                }
              }
          }
        }
      | _ \<Rightarrow> fails NotDistributed)"

section \<open>Padded shared memory\<close>

definition getPaddedRegToSharedLayout :: "linear_layout \<Rightarrow> padded_encoding \<Rightarrow> linear_layout option" where
  "getPaddedRegToSharedLayout regLayout e = do {
     names \<leftarrow> applyPermutation (getOutDimNames regLayout) (paddedOrder e);
     l \<leftarrow> transposeOuts regLayout names;
     reshapeOuts l [(''offset'', getTotalOutDimSize l)]
   }"

definition isInnermostContiguous :: "linear_layout \<Rightarrow> int \<Rightarrow> bool option" where
  "isInnermostContiguous actual numElems = do {
     l \<leftarrow> transposeOuts actual (rev (getOutDimNames actual));
     f \<leftarrow> flattenOuts l;
     Some (getNumConsecutiveInOut f \<ge> numElems)
   }"

end
