(* ===== verification/InferProps.thy ===== *)
theory InferProps
  imports InferLayout BlockedLayouts
begin

text \<open>
  The properties of layout inference, each with an instance on concrete data.
\<close>

section \<open>The decomposition of a reshape\<close>

definition chunk_balanced :: "int list \<Rightarrow> int list \<Rightarrow> nat list \<times> nat list \<Rightarrow> bool" where
  "chunk_balanced src dst c \<longleftrightarrow> fst c \<noteq> [] \<and> snd c \<noteq> [] \<and> prod_list (gather src (fst c)) = prod_list (gather dst (snd c))"

definition all_pos :: "int list \<Rightarrow> bool" where
  "all_pos xs \<longleftrightarrow> list_all (\<lambda>x. 1 \<le> x) xs"

lemma prod_pos: "all_pos xs \<Longrightarrow> 1 \<le> prod_list xs"
proof (induction xs)
  case (Cons x xs)
  then have "1 \<le> x" "1 \<le> prod_list xs" by (auto simp: all_pos_def)
  then show ?case using mult_mono [of 1 x 1 "prod_list xs"] by simp
qed simp

lemma all_pos_take: "all_pos xs \<Longrightarrow> all_pos (take n xs)" "all_pos xs \<Longrightarrow> all_pos (drop n xs)"
  by (auto simp: all_pos_def list_all_iff dest: in_set_takeD in_set_dropD)

lemma prod_take: "i < length xs \<Longrightarrow> prod_list (take (Suc i) xs) = prod_list (take i xs) * (xs ! i :: int)"
  by (simp add: take_Suc_conv_app_nth)

lemma prod_split: "prod_list xs = prod_list (take i xs) * (prod_list (drop i xs) :: int)"
  by (metis append_take_drop_id prod_list.append)

lemma prod_take_le: "all_pos xs \<Longrightarrow> prod_list (take i xs) \<le> prod_list xs"
  using prod_split [of xs i] prod_pos [OF all_pos_take(1), of xs i] prod_pos [OF all_pos_take(2), of xs i]
  by (metis mult.right_neutral mult_le_cancel_left_pos less_le_trans zero_less_one)

lemma prod_drop_one:
  assumes "all_pos xs" "j < length xs" "prod_list (drop j xs) = 1"
  shows "xs ! j = 1"
proof -
  have "drop j xs = xs ! j # drop (Suc j) xs" using assms(2) by (simp add: Cons_nth_drop_Suc)
  then have "xs ! j * prod_list (drop (Suc j) xs) = 1" using assms(3) by simp
  moreover have "1 \<le> xs ! j" using assms(1,2) by (simp add: all_pos_def list_all_length)
  ultimately show ?thesis by (metis pos_zmult_eq_1_iff less_le_trans zero_less_one)
qed

definition decomp_inv ::
  "int list \<Rightarrow> int list \<Rightarrow> (nat list \<times> nat list) list \<Rightarrow> nat list \<times> nat list \<Rightarrow> nat \<Rightarrow> nat \<Rightarrow> int \<Rightarrow> int \<Rightarrow> int \<Rightarrow> bool" where
  "decomp_inv src dst ret cur i j srcN dstN R \<longleftrightarrow> i \<le> length src \<and> j \<le> length dst \<and> 1 \<le> R \<and>
     srcN = prod_list (gather src (fst cur)) \<and> dstN = prod_list (gather dst (snd cur)) \<and>
     prod_list (take i src) = R * srcN \<and> prod_list (take j dst) = R * dstN \<and>
     concat (map fst ret) @ fst cur = [0..<i] \<and> concat (map snd ret) @ snd cur = [0..<j] \<and>
     (\<forall>c \<in> set ret. chunk_balanced src dst c) \<and>
     (ret = [] \<or> 1 < srcN \<or> cur = ([], []) \<and> i < length src \<and> src ! i \<noteq> 1)"

lemma gather_append [simp]: "gather xs (is @ js) = gather xs is @ gather xs js" "gather xs [] = []" "gather xs [i] = [xs ! i]"
  by (simp_all add: gather_def)

lemma all_pos_nth: "all_pos xs \<Longrightarrow> i < length xs \<Longrightarrow> 1 \<le> xs ! i"
  by (simp add: all_pos_def list_all_length)

lemma decompose_total:
  assumes pos: "all_pos src" "all_pos dst" and prod: "prod_list src = prod_list dst" and ne: "src \<noteq> []" "dst \<noteq> []"
    and inv: "decomp_inv src dst ret cur i j srcN dstN R"
  shows "\<exists>ds. decompose src dst ret cur i j srcN dstN = Some ds \<and> (\<forall>c \<in> set ds. chunk_balanced src dst c) \<and>
    concat (map fst ds) = [0..<length src] \<and> concat (map snd ds) = [0..<length dst]"
  using inv
proof (induction "2 * ((length src - i) + (length dst - j)) + (if cur = ([], []) then 0 else 1)"
    arbitrary: ret cur i j srcN dstN R rule: less_induct)
  case less
  note I = less.prems [unfolded decomp_inv_def]
  have srcle: "R * srcN \<le> prod_list src" and dstle: "R * dstN \<le> prod_list src"
    using prod_take_le [OF pos(1), of i] prod_take_le [OF pos(2), of j] I prod by auto
  have full: "i = length src \<Longrightarrow> R * srcN = prod_list src" "j = length dst \<Longrightarrow> R * dstN = prod_list src" using I prod by auto
  have R: "0 < R" using I by linarith
  have n1: "1 \<le> srcN" "1 \<le> dstN"
  proof -
    have "1 \<le> R * srcN" "1 \<le> R * dstN" using prod_pos [OF all_pos_take(1) [OF pos(1)], of i] prod_pos [OF all_pos_take(1) [OF pos(2)], of j] I by auto
    then show "1 \<le> srcN" "1 \<le> dstN" using R by (metis int_one_le_iff_zero_less zero_less_mult_pos)+
  qed
  let ?A = "srcN < dstN \<or> i < length src \<and> srcN = 1 \<or> i < length src \<and> src ! i = 1"
  let ?B = "dstN < srcN \<or> j < length dst \<and> dst ! j = 1"
  show ?case
  proof (cases "i < length src \<or> j < length dst")
    case False
    then have ij: "i = length src" "j = length dst" using I by auto
    then have "R * srcN = R * dstN" using full by simp
    then have eq: "srcN = dstN" using R by simp
    have "fst cur \<noteq> [] \<and> snd cur \<noteq> []"
    proof (cases "ret = []")
      case True
      then show ?thesis using I ij ne by auto
    next
      case False
      then have "1 < srcN" using I ij by auto
      then show ?thesis using I eq by auto
    qed
    then have "chunk_balanced src dst cur" using I eq by (simp add: chunk_balanced_def)
    then show ?thesis using False I ij by (subst decompose.simps) auto
  next
    case True
    consider (A) "?A" | (B) "\<not> ?A" "?B" | (C) "\<not> ?A" "\<not> ?B" by blast
    then show ?thesis
    proof cases
      case A
      have i: "i < length src"
      proof (rule ccontr)
        assume "\<not> i < length src"
        then have i: "i = length src" and lt: "srcN < dstN" using A I by auto
        from full(1) [OF i] dstle mult_strict_left_mono [OF lt R] show False by linarith
      qed
      have p: "1 \<le> src ! i" by (rule all_pos_nth [OF pos(1) i])
      have "1 < srcN * src ! i" if "1 < srcN" using that p by (metis less_le_trans mult.right_neutral mult_le_cancel_left_pos less_trans zero_less_one)
      moreover have "1 < srcN * src ! i" if "cur = ([], [])" "src ! i \<noteq> 1" using that p I by simp
      ultimately have "decomp_inv src dst ret (fst cur @ [i], snd cur) (i + 1) j (srcN * src ! i) dstN R"
        using I i prod_take [OF i] unfolding decomp_inv_def by (auto simp: ac_simps)
      from less.hyps [OF _ this] i A show ?thesis by (subst decompose.simps) (auto split: if_splits)
    next
      case B
      have j: "j < length dst"
      proof (rule ccontr)
        assume "\<not> j < length dst"
        then have j: "j = length dst" and lt: "dstN < srcN" using B(2) I by auto
        from full(2) [OF j] srcle mult_strict_left_mono [OF lt R] show False by linarith
      qed
      have "ret = [] \<or> 1 < srcN" using I B(1) by auto
      then have "decomp_inv src dst ret (fst cur, snd cur @ [j]) i (j + 1) srcN (dstN * dst ! j) R"
        using I j prod_take [OF j] unfolding decomp_inv_def by (auto simp: ac_simps)
      from less.hyps [OF _ this] j B show ?thesis by (subst decompose.simps) (auto split: if_splits)
    next
      case C
      have eq: "srcN = dstN" using C by auto
      have i: "i < length src"
      proof (rule ccontr)
        assume "\<not> i < length src"
        then have il: "i = length src" and j: "j < length dst" using True I by auto
        have "prod_list dst = prod_list (take j dst) * prod_list (drop j dst)" by (rule prod_split)
        moreover have "prod_list (take j dst) = prod_list dst" using full(1) [OF il] I eq prod by auto
        ultimately have "prod_list (drop j dst) = 1" using prod_pos [OF pos(2)] by auto
        from prod_drop_one [OF pos(2) j this] C j show False by simp
      qed
      then have s: "1 < srcN" "src ! i \<noteq> 1" using C(1) n1 by auto
      have cur: "fst cur \<noteq> []" "snd cur \<noteq> []" using s(1) I eq by auto
      then have "chunk_balanced src dst cur" using I eq by (simp add: chunk_balanced_def)
      moreover have "1 \<le> R * srcN" using R s(1) by (simp add: int_one_le_iff_zero_less)
      ultimately have "decomp_inv src dst (ret @ [cur]) ([], []) i j 1 1 (R * srcN)"
        using I eq i s(2) unfolding decomp_inv_def by auto
      note step = less.hyps [OF _ this]
      have nc: "cur \<noteq> ([], [])" using cur by auto
      have "decompose src dst ret cur i j srcN dstN = decompose src dst (ret @ [cur]) ([], []) i j 1 1"
        using True C by (subst decompose.simps) (simp only: if_True if_False)
      with step nc show ?thesis by simp
    qed
  qed
qed

text \<open>
  C36: the decomposition of a reshape ends for any two shapes of positive sizes with the same number of elements,
  and cuts both into chunks, none empty: together the chunks hold the dims of the source and of the result, each
  once and in order, and a chunk has as many elements on both sides.
\<close>

theorem reshape_decomposition:
  assumes "all_pos src" "all_pos dst" "prod_list src = prod_list dst" "src \<noteq> []" "dst \<noteq> []"
  shows "\<exists>ds. getReshapeDecomposition src dst = Some ds \<and> (\<forall>c \<in> set ds. chunk_balanced src dst c) \<and>
    concat (map fst ds) = [0..<length src] \<and> concat (map snd ds) = [0..<length dst]"
proof -
  have "decomp_inv src dst [] ([], []) 0 0 1 1 1" by (simp add: decomp_inv_def)
  from decompose_total [OF assms this] show ?thesis using assms(4) by (simp add: getReshapeDecomposition_def)
qed

lemma reshape_decomposition_witness:
  "\<exists>ds. getReshapeDecomposition [4, 6, 1] [2, 12] = Some ds \<and> concat (map fst ds) = [0, 1, 2] \<and> concat (map snd ds) = [0, 1]"
proof -
  have "all_pos [4, 6, 1]" "all_pos [2, 12]" by code_simp+
  from reshape_decomposition [OF this] show ?thesis by (auto simp: upt_rec)
qed

section \<open>Permutations\<close>

lemma inverse_fold:
  assumes "distinct p" "k \<le> length p" "\<forall>i < length p. p ! i < n"
  shows "length (fold (\<lambda>i r. r[p ! i := i]) [0..<k] (replicate n 0)) = n \<and>
    (\<forall>i < k. fold (\<lambda>i r. r[p ! i := i]) [0..<k] (replicate n 0) ! (p ! i) = i)"
  using assms(2)
proof (induction k)
  case (Suc k)
  then show ?case using assms(1,3) by (auto simp: nth_list_update nth_eq_iff_index_eq less_Suc_eq)
qed simp

lemma inversePermutation_spec:
  assumes p: "isPermutationOfIota p"
  obtains q where "inversePermutation p = Some q" "length q = length p" "isPermutationOfIota q"
    "\<And>i. i < length p \<Longrightarrow> q ! (p ! i) = i" "\<And>i. i < length p \<Longrightarrow> p ! (q ! i) = i"
proof -
  let ?n = "length p"
  let ?q = "fold (\<lambda>i r. r[p ! i := i]) [0..<?n] (replicate ?n 0)"
  have d: "distinct p" and s: "set p = {..<?n}" using p by (simp_all add: isPermutation_iff)
  have "\<forall>i < ?n. p ! i < ?n" using s by (metis lessThan_iff nth_mem)
  note f = inverse_fold [OF d order_refl this]
  define r where "r = ?q"
  have len: "length r = ?n" and left: "\<And>i. i < ?n \<Longrightarrow> r ! (p ! i) = i" using f by (auto simp: r_def)
  have right: "p ! (r ! i) = i" "r ! i < ?n" if "i < ?n" for i
  proof -
    from that s obtain j where j: "j < ?n" "p ! j = i" by (metis in_set_conv_nth lessThan_iff)
    then show "p ! (r ! i) = i" "r ! i < ?n" using left [OF j(1)] by auto
  qed
  have "distinct r" unfolding distinct_conv_nth
  proof (intro allI impI)
    fix i j assume "i < length r" "j < length r" "i \<noteq> j"
    then show "r ! i \<noteq> r ! j" using len right(1) by metis
  qed
  moreover have "set r \<subseteq> {..<?n}" using len right(2) by (auto simp: in_set_conv_nth)
  ultimately have "isPermutationOfIota r" unfolding isPermutation_iff
    using len by (metis card_lessThan card_subset_eq distinct_card finite_lessThan)
  then show ?thesis using that [OF _ len _ left right(1)] p by (simp add: inversePermutation_def r_def)
qed

lemma inverse_perm:
  assumes "inversePermutation p = Some q"
  shows "isPermutationOfIota p" "length q = length p" "isPermutationOfIota q"
    "\<And>i. i < length p \<Longrightarrow> q ! (p ! i) = i" "\<And>i. i < length p \<Longrightarrow> p ! (q ! i) = i"
proof -
  show p: "isPermutationOfIota p" using assms by (simp add: inversePermutation_def split: if_splits)
  show "length q = length p" "isPermutationOfIota q"
    "\<And>i. i < length p \<Longrightarrow> q ! (p ! i) = i" "\<And>i. i < length p \<Longrightarrow> p ! (q ! i) = i"
    by (rule inversePermutation_spec [OF p]; simp add: assms)+
qed

lemma inverse_unique:
  assumes "length q = length p" "length p' = length p" "isPermutationOfIota p"
    "\<And>i. i < length p \<Longrightarrow> q ! (p ! i) = i" "\<And>i. i < length p \<Longrightarrow> p' ! (q ! i) = i"
  shows "p' = p"
proof (rule nth_equalityI)
  show "length p' = length p" by (rule assms(2))
  fix i assume "i < length p'"
  then have i: "i < length p" using assms(2) by simp
  then have "p ! i < length p" using assms(3) by (metis isPermutation_iff lessThan_iff nth_mem)
  from assms(5) [OF this] show "p' ! i = p ! i" using assms(4) [OF i] by simp
qed

lemma inverse_twice:
  assumes "inversePermutation p = Some q" shows "inversePermutation q = Some p"
proof -
  note q = inverse_perm [OF assms]
  note p = q(1)
  obtain p' where p': "inversePermutation q = Some p'" by (rule inversePermutation_spec [OF q(3)])
  note p'q = inverse_perm [OF p']
  have "p' = p" by (rule inverse_unique [OF q(2) _ p q(4)]) (use p'q(2,4) q(2) in auto)
  then show ?thesis using p' by simp
qed

lemma apply_apply:
  assumes "inversePermutation p = Some q" "length xs = length p"
  shows "\<exists>ys. applyPermutation xs p = Some ys \<and> length ys = length p \<and> applyPermutation ys q = Some xs \<and> set ys = set xs"
proof -
  note p = inverse_perm(1) [OF assms(1)]
  then have s: "set p = {..<length p}" by (simp add: isPermutation_iff)
  note q = inverse_perm(2,3,5) [OF assms(1)]
  have "q ! i < length p" if "i < length p" for i
    using that q(1,2) by (metis isPermutation_iff lessThan_iff nth_mem)
  then have "map (\<lambda>i. map (\<lambda>i. xs ! i) p ! i) q = xs" using q assms(2) by (intro nth_equalityI) auto
  moreover have "(\<lambda>i. xs ! i) ` set p = set xs" unfolding s using assms(2) by (auto simp: in_set_conv_nth)
  ultimately show ?thesis using p q assms(2) by (auto simp: applyPermutation_def)
qed

lemma apply_inverse_order:
  assumes "inversePermutation p = Some q" "isPermutationOfIota xs" "length xs = length p"
  shows "\<exists>ys. applyPermutation q xs = Some ys \<and> length ys = length p \<and> isPermutationOfIota ys \<and> applyPermutation p ys = Some xs"
proof -
  note p = inverse_perm(1) [OF assms(1)]
  note q = inverse_perm(2,3,5) [OF assms(1)]
  have x: "distinct xs" "set xs = {..<length p}" using assms(2,3) by (simp_all add: isPermutation_iff)
  have y: "distinct q" "set q = {..<length p}" using q by (simp_all add: isPermutation_iff)
  let ?ys = "map (\<lambda>i. q ! i) xs"
  have "distinct ?ys" using x y q(1) by (auto simp: distinct_map inj_on_def nth_eq_iff_index_eq)
  moreover have "set ?ys = set q" using x(2) q(1) nth_image [of "length q" q] by (simp add: lessThan_atLeast0)
  ultimately have "isPermutationOfIota ?ys" using y(2) assms(3) by (simp add: isPermutation_iff)
  moreover have "map (\<lambda>i. p ! i) ?ys = xs"
    using q(3) x(2) nth_mem [of _ xs] by (intro nth_equalityI) auto
  ultimately show ?thesis using q(1) assms(2,3) by (auto simp: applyPermutation_def)
qed

section \<open>Transposition\<close>

definition cta_valid :: "cta_layout \<Rightarrow> bool" where
  "cta_valid c \<longleftrightarrow> verifyCTALayout (CTAsPerCGA c) (CTASplitNum c) (CTAOrder c) = None \<and>
     c = mkCTALayout (CTAsPerCGA c) (CTASplitNum c) (CTAOrder c)"

lemma cta_valid_lengths:
  assumes "cta_valid c"
  shows "length (CTAsPerCGA c) = length (CTAOrder c)" "length (CTASplitNum c) = length (CTAOrder c)" "isPermutationOfIota (CTAOrder c)"
  using assms by (auto simp: cta_valid_def verifyCTALayout_def split: if_splits)

lemma permute_cta:
  assumes "inversePermutation p = Some q" "cta_valid c" "length (CTAOrder c) = length p"
  shows "\<exists>c'. permuteCTALayout c p = Some c' \<and> cta_valid c' \<and> length (CTAOrder c') = length p \<and> permuteCTALayout c' q = Some c"
proof -
  note len = cta_valid_lengths [OF assms(2)]
  have lq: "length q = length p" by (rule inverse_perm(2) [OF assms(1)])
  obtain a where a: "applyPermutation (CTAsPerCGA c) p = Some a" "length a = length p" "applyPermutation a q = Some (CTAsPerCGA c)"
      "set a = set (CTAsPerCGA c)"
    using apply_apply [OF assms(1), of "CTAsPerCGA c"] len assms(3) by auto
  obtain s where s: "applyPermutation (CTASplitNum c) p = Some s" "length s = length p" "applyPermutation s q = Some (CTASplitNum c)"
      "set s = set (CTASplitNum c)"
    using apply_apply [OF assms(1), of "CTASplitNum c"] len assms(3) by auto
  obtain o1 where o1: "applyPermutation q (CTAOrder c) = Some o1" "length o1 = length p" "isPermutationOfIota o1"
      "applyPermutation p o1 = Some (CTAOrder c)"
    using apply_inverse_order [OF assms(1) len(3)] assms(3) by auto
  let ?c = "mkCTALayout a s o1"
  have ones: "list_all (\<lambda>x. x = 1) a \<longleftrightarrow> list_all (\<lambda>x. x = 1) (CTAsPerCGA c)" using a(4) by (simp add: list_all_iff)
  have c: "c = mkCTALayout (CTAsPerCGA c) (CTASplitNum c) (CTAOrder c)" using assms(2) by (simp add: cta_valid_def)
  have len': "length (CTAOrder ?c) = length p" "isPermutationOfIota (CTAOrder ?c)"
    using a(2) o1(2,3) by (auto simp: mkCTALayout_def isPermutation_iff lessThan_atLeast0)
  have v: "cta_valid ?c" using assms(2) a(2,4) s(2,4) len' len
    by (auto simp: cta_valid_def verifyCTALayout_def list_ex_iff mkCTALayout_def)
  obtain o2 where o2: "applyPermutation p (CTAOrder ?c) = Some o2" "\<not> list_all (\<lambda>x. x = 1) a \<Longrightarrow> o2 = CTAOrder c"
  proof (cases "list_all (\<lambda>x. x = 1) a")
    case True
    then show ?thesis using that len' by (simp add: applyPermutation_def)
  next
    case False
    then show ?thesis using that o1(4) by (simp add: mkCTALayout_def)
  qed
  have "mkCTALayout (CTAsPerCGA c) (CTASplitNum c) o2 = c" using o2(2) ones by (subst (3) c) (auto simp: mkCTALayout_def)
  then have "permuteCTALayout ?c q = Some c" using inverse_twice [OF assms(1)] a(3) s(3) o2(1) len'(1) lq
    by (simp add: permuteCTALayout_def mkCTALayout_def)
  moreover have "permuteCTALayout c p = Some ?c" using assms(1,3) a(1) s(1) o1(1) by (simp add: permuteCTALayout_def)
  ultimately show ?thesis using v len'(1) by blast
qed

lemma blocked_verified:
  "verifyBlocked e = None \<longleftrightarrow> length (sizePerThread e) = length (blockedOrder e) \<and> length (threadsPerWarp e) = length (blockedOrder e) \<and>
     length (warpsPerCTA e) = length (blockedOrder e) \<and> list_all is_pow2_64u (sizePerThread e) \<and> list_all is_pow2_64u (threadsPerWarp e) \<and>
     list_all is_pow2_64u (warpsPerCTA e) \<and> length (CTAOrder (blockedCTA e)) = length (blockedOrder e) \<and> isPermutationOfIota (blockedOrder e)"
  by (auto simp: verifyBlocked_def list_ex_iff list_all_iff)

lemma trans_blocked:
  assumes inv: "inversePermutation p = Some q" and e: "verifyBlocked e = None" "cta_valid (blockedCTA e)"
    and len: "length p = length (blockedOrder e)"
  shows "\<exists>e'. transBlocked e p q = Some e' \<and> verifyBlocked e' = None \<and> cta_valid (blockedCTA e') \<and>
    length (blockedOrder e') = length p \<and> transBlocked e' q p = Some e"
proof -
  note v = e(1) [unfolded blocked_verified]
  obtain s where s: "applyPermutation (sizePerThread e) p = Some s" "length s = length p" "applyPermutation s q = Some (sizePerThread e)"
    "set s = set (sizePerThread e)" using apply_apply [OF inv, of "sizePerThread e"] v len by auto
  obtain t where t: "applyPermutation (threadsPerWarp e) p = Some t" "length t = length p" "applyPermutation t q = Some (threadsPerWarp e)"
    "set t = set (threadsPerWarp e)" using apply_apply [OF inv, of "threadsPerWarp e"] v len by auto
  obtain w where w: "applyPermutation (warpsPerCTA e) p = Some w" "length w = length p" "applyPermutation w q = Some (warpsPerCTA e)"
    "set w = set (warpsPerCTA e)" using apply_apply [OF inv, of "warpsPerCTA e"] v len by auto
  obtain b where b: "applyPermutation q (blockedOrder e) = Some b" "length b = length p" "isPermutationOfIota b"
    "applyPermutation p b = Some (blockedOrder e)" using apply_inverse_order [OF inv, of "blockedOrder e"] v len by auto
  obtain c where c: "permuteCTALayout (blockedCTA e) p = Some c" "cta_valid c" "length (CTAOrder c) = length p"
    "permuteCTALayout c q = Some (blockedCTA e)" using permute_cta [OF inv e(2)] v len by auto
  let ?e = "\<lparr>sizePerThread = s, threadsPerWarp = t, warpsPerCTA = w, blockedOrder = b, blockedCTA = c\<rparr>"
  have "transBlocked e p q = Some ?e" using s t w b c by (simp add: transBlocked_def)
  moreover have "transBlocked ?e q p = Some e" using s t w b c by (simp add: transBlocked_def)
  moreover have "verifyBlocked ?e = None" using v s(2,4) t(2,4) w(2,4) b(2,3) c(3) by (simp add: blocked_verified list_all_iff)
  ultimately show ?thesis using c(2) b(2) by force
qed

lemma inverse_iota:
  assumes "inversePermutation p = Some q" shows "isIota q = isIota p"
proof -
  have "isIota b" if ab: "inversePermutation a = Some b" "isIota a" for a b
    using inverse_perm(2,4) [OF ab(1)] ab(2) by (auto simp: isIota_def list_all_iff)
  then show ?thesis using assms inverse_twice [OF assms] by blast
qed

text \<open>What a transposed encoding says of dim \<open>i\<close> is what the operand says of dim \<open>ord ! i\<close>.\<close>

definition transposed :: "nat list \<Rightarrow> blocked_encoding \<Rightarrow> blocked_encoding \<Rightarrow> bool" where
  "transposed ord e e' \<longleftrightarrow> (\<forall>i < length ord.
     sizePerThread e' ! i = sizePerThread e ! (ord ! i) \<and> threadsPerWarp e' ! i = threadsPerWarp e ! (ord ! i) \<and>
     warpsPerCTA e' ! i = warpsPerCTA e ! (ord ! i) \<and> ord ! (blockedOrder e' ! i) = blockedOrder e ! i \<and>
     CTAsPerCGA (blockedCTA e') ! i = CTAsPerCGA (blockedCTA e) ! (ord ! i) \<and>
     CTASplitNum (blockedCTA e') ! i = CTASplitNum (blockedCTA e) ! (ord ! i) \<and>
     (list_ex (\<lambda>n. n \<noteq> 1) (CTAsPerCGA (blockedCTA e)) \<longrightarrow> ord ! (CTAOrder (blockedCTA e') ! i) = CTAOrder (blockedCTA e) ! i))"


lemma perm_nth_less: "isPermutationOfIota xs \<Longrightarrow> i < length xs \<Longrightarrow> xs ! i < length xs"
  by (metis isPermutation_iff lessThan_iff nth_mem)

lemma order_back:
  assumes "inversePermutation p = Some q" "applyPermutation q xs = Some ys" "i < length p"
  shows "p ! (ys ! i) = xs ! i"
proof -
  have xs: "length xs = length p" "isPermutationOfIota xs" "ys = map (\<lambda>i. q ! i) xs"
    using assms(1,2) inverse_perm(2) [OF assms(1)] by (auto simp: applyPermutation_def split: if_splits)
  then have "xs ! i < length p" using perm_nth_less [of xs i] assms(3) by simp
  then show ?thesis using inverse_perm(5) [OF assms(1)] xs assms(3) by simp
qed

lemma trans_transposed:
  assumes inv: "inversePermutation p = Some q" and e': "transBlocked e p q = Some e'"
    and e: "verifyBlocked e = None" "cta_valid (blockedCTA e)" and len: "length p = length (blockedOrder e)"
  shows "transposed p e e'"
  unfolding transposed_def
proof (intro allI impI)
  fix i assume i: "i < length p"
  note v = e(1) [unfolded blocked_verified]
  note c = cta_valid_lengths [OF e(2)]
  obtain cta s t w b where T: "permuteCTALayout (blockedCTA e) p = Some cta" "applyPermutation (sizePerThread e) p = Some s"
    "applyPermutation (threadsPerWarp e) p = Some t" "applyPermutation (warpsPerCTA e) p = Some w"
    "applyPermutation q (blockedOrder e) = Some b"
    "e' = \<lparr>sizePerThread = s, threadsPerWarp = t, warpsPerCTA = w, blockedOrder = b, blockedCTA = cta\<rparr>"
    using e' by (auto simp: transBlocked_def split: bind_splits)
  have nth: "ys ! i = xs ! (p ! i)" if "applyPermutation xs p = Some ys" for xs ys :: "int list"
    using that i by (auto simp: applyPermutation_def split: if_splits)
  obtain a sp o1 where A: "applyPermutation (CTAsPerCGA (blockedCTA e)) p = Some a" "applyPermutation (CTASplitNum (blockedCTA e)) p = Some sp"
    "applyPermutation q (CTAOrder (blockedCTA e)) = Some o1" "cta = mkCTALayout a sp o1"
    using T(1) inv by (auto simp: permuteCTALayout_def split: bind_splits if_splits)
  have "set a = set (CTAsPerCGA (blockedCTA e))"
    using A(1) apply_apply [OF inv, of "CTAsPerCGA (blockedCTA e)"] c v len by auto
  then have "CTAOrder cta = o1" if "list_ex (\<lambda>n. n \<noteq> 1) (CTAsPerCGA (blockedCTA e))"
    using that A(4) by (auto simp: mkCTALayout_def list_ex_iff list_all_iff)
  then show "sizePerThread e' ! i = sizePerThread e ! (p ! i) \<and> threadsPerWarp e' ! i = threadsPerWarp e ! (p ! i) \<and>
     warpsPerCTA e' ! i = warpsPerCTA e ! (p ! i) \<and> p ! (blockedOrder e' ! i) = blockedOrder e ! i \<and>
     CTAsPerCGA (blockedCTA e') ! i = CTAsPerCGA (blockedCTA e) ! (p ! i) \<and>
     CTASplitNum (blockedCTA e') ! i = CTASplitNum (blockedCTA e) ! (p ! i) \<and>
     (list_ex (\<lambda>n. n \<noteq> 1) (CTAsPerCGA (blockedCTA e)) \<longrightarrow> p ! (CTAOrder (blockedCTA e') ! i) = CTAOrder (blockedCTA e) ! i)"
    using nth [OF T(2)] nth [OF T(3)] nth [OF T(4)] nth [OF A(1)] nth [OF A(2)] order_back [OF inv T(5) i] order_back [OF inv A(3) i]
      T(6) A(4) by (auto simp: mkCTALayout_def)
qed

text \<open>
  C37: transposing a blocked encoding the verifier accepts, by any order, gives an encoding the verifier accepts, its
  CTA layout included, that says of each dim what the operand says of the dim it comes from, with the dims in the same
  order from the fastest to the slowest; transposing that by the inverse order gives the encoding back.
\<close>

theorem trans_roundtrip:
  assumes "inversePermutation ord = Some iord" and "verifyBlocked e = None" "cta_valid (blockedCTA e)"
    and "length ord = length (blockedOrder e)" "length shape = length ord" "length shape' = length ord"
  shows "\<exists>e'. inferTransOpEncoding (Distributed (Blocked e)) shape ord = gives (Distributed (Blocked e')) \<and>
    verifyBlocked e' = None \<and> cta_valid (blockedCTA e') \<and> transposed ord e e' \<and>
    inferTransOpEncoding (Distributed (Blocked e')) shape' iord = gives (Distributed (Blocked e))"
proof (cases "isIota ord")
  case True
  then have id: "ord ! i = i" if "i < length ord" for i using that by (simp add: isIota_def list_all_iff)
  note v = assms(2) [unfolded blocked_verified] and c = cta_valid_lengths [OF assms(3)]
  have "blockedOrder e ! i < length ord" "CTAOrder (blockedCTA e) ! i < length ord" if "i < length ord" for i
    using that perm_nth_less [of "blockedOrder e" i] perm_nth_less [of "CTAOrder (blockedCTA e)" i] v c assms(4) by auto
  then have "transposed ord e e" using id by (simp add: transposed_def)
  then show ?thesis using True inverse_iota [OF assms(1)] assms(2,3) by (simp add: inferTransOpEncoding_def)
next
  case False
  obtain e' where e': "transBlocked e ord iord = Some e'" "verifyBlocked e' = None" "cta_valid (blockedCTA e')"
    "length (blockedOrder e') = length ord" "transBlocked e' iord ord = Some e"
    using trans_blocked [OF assms(1-4)] by blast
  have t: "transposed ord e e'" by (rule trans_transposed [OF assms(1) e'(1) assms(2-4)])
  have "length (CTAOrder (blockedCTA e)) = length ord" "length (CTAOrder (blockedCTA e')) = length iord" "length iord = length ord"
    using assms(2,4) e'(2,4) inverse_perm(2) [OF assms(1)] by (simp_all add: blocked_verified)
  then show ?thesis using e' t False assms inverse_iota [OF assms(1)] inverse_twice [OF assms(1)] by (simp add: inferTransOpEncoding_def)
qed

definition trans_example :: blocked_encoding where
  "trans_example = \<lparr>sizePerThread = [1, 2, 4], threadsPerWarp = [2, 4, 4], warpsPerCTA = [4, 1, 1], blockedOrder = [2, 0, 1],
     blockedCTA = mkCTALayout [2, 1, 4] [2, 1, 1] [0, 2, 1]\<rparr>"

lemma trans_roundtrip_witness:
  "\<exists>e'. inferTransOpEncoding (Distributed (Blocked trans_example)) [8, 16, 32] [1, 2, 0] = gives (Distributed (Blocked e')) \<and>
     inferTransOpEncoding (Distributed (Blocked e')) [16, 32, 8] [2, 0, 1] = gives (Distributed (Blocked trans_example))"
proof -
  have i: "inversePermutation [1, 2, 0] = Some [2, 0, 1]" by code_simp
  have v: "verifyBlocked trans_example = None" by code_simp
  have c: "cta_valid (blockedCTA trans_example)" by code_simp
  have l: "length (blockedOrder trans_example) = 3" by code_simp
  from trans_roundtrip [OF i v c, of "[8, 16, 32]" "[16, 32, 8]"] l show ?thesis by auto
qed

section \<open>Join and split\<close>

lemma filter_last_order:
  assumes "isPermutationOfIota ord" shows "filter (\<lambda>d. d \<noteq> length ord) ord = ord"
  using assms by (auto simp: isPermutation_iff filter_id_conv)

lemma join_cta:
  assumes "cta_valid c"
  shows "cta_valid (mkCTALayout (CTAsPerCGA c @ [1]) (CTASplitNum c @ [1]) (length (CTAOrder c) # CTAOrder c))"
    "mkCTALayout (CTAsPerCGA c) (CTASplitNum c) (tl (CTAOrder (mkCTALayout (CTAsPerCGA c @ [1]) (CTASplitNum c @ [1]) (length (CTAOrder c) # CTAOrder c)))) = c"
proof -
  note len = cta_valid_lengths [OF assms]
  have "isPermutationOfIota (length (CTAOrder c) # CTAOrder c)" "isPermutationOfIota (rev [0..<length (CTAOrder c) + 1])"
    using len(3) by (auto simp: isPermutation_iff lessThan_atLeast0 atLeast0_lessThan_Suc)
  then show "cta_valid (mkCTALayout (CTAsPerCGA c @ [1]) (CTASplitNum c @ [1]) (length (CTAOrder c) # CTAOrder c))"
    using assms len(1,2) by (auto simp: cta_valid_def verifyCTALayout_def mkCTALayout_def list_ex_iff split: if_splits)
  have c: "mkCTALayout (CTAsPerCGA c) (CTASplitNum c) (CTAOrder c) = c" using assms by (simp add: cta_valid_def)
  have "mkCTALayout (CTAsPerCGA c) (CTASplitNum c) (tl (CTAOrder (mkCTALayout (CTAsPerCGA c @ [1]) (CTASplitNum c @ [1]) (length (CTAOrder c) # CTAOrder c))))
      = mkCTALayout (CTAsPerCGA c) (CTASplitNum c) (CTAOrder c)" by (simp add: mkCTALayout_def)
  with c show "mkCTALayout (CTAsPerCGA c) (CTASplitNum c) (tl (CTAOrder (mkCTALayout (CTAsPerCGA c @ [1]) (CTASplitNum c @ [1]) (length (CTAOrder c) # CTAOrder c)))) = c"
    by simp
qed

text \<open>
  C38: joining two tensors of a blocked encoding the verifier accepts gives an encoding the verifier accepts, with a new
  fastest dim of two elements per thread, and splitting the joined tensor gives the encoding back.
\<close>

theorem split_join_roundtrip:
  assumes "verifyBlocked e = None" "cta_valid (blockedCTA e)"
  shows "\<exists>e'. inferDefaultJoinOpEncoding (Distributed (Blocked e)) shape = gives (Distributed (Blocked e')) \<and>
    verifyBlocked e' = None \<and> cta_valid (blockedCTA e') \<and>
    inferSplitOpEncoding (Distributed (Blocked e')) shape' = gives (Distributed (Blocked e))"
proof -
  note v = assms(1) [unfolded blocked_verified]
  note j = join_cta [OF assms(2)]
  let ?r = "length (blockedOrder e)"
  have ctas: "CTAsPerCGA (blockedCTA (joinBlocked e)) = CTAsPerCGA (blockedCTA e) @ [1]" "CTASplitNum (blockedCTA (joinBlocked e)) = CTASplitNum (blockedCTA e) @ [1]"
    by (simp_all add: joinBlocked_def mkCTALayout_def)
  have "distinct (blockedOrder e)" "set (blockedOrder e) = {..<?r}" using v by (simp_all add: isPermutation_iff)
  then have "isPermutationOfIota (?r # blockedOrder e)" by (simp add: isPermutation_iff lessThan_Suc)
  moreover have "is_pow2_64u 1" "is_pow2_64u 2" by code_simp+
  moreover have "length (CTAOrder (blockedCTA (joinBlocked e))) = Suc ?r"
    using v cta_valid_lengths [OF assms(2)] by (simp add: joinBlocked_def mkCTALayout_def)
  moreover have "length (blockedOrder (joinBlocked e)) = Suc ?r" "blockedOrder (joinBlocked e) = ?r # blockedOrder e"
    "sizePerThread (joinBlocked e) = sizePerThread e @ [2]" "threadsPerWarp (joinBlocked e) = threadsPerWarp e @ [1]"
    "warpsPerCTA (joinBlocked e) = warpsPerCTA e @ [1]" by (simp_all add: joinBlocked_def)
  ultimately have "verifyBlocked (joinBlocked e) = None" using v by (simp add: blocked_verified)
  moreover have "cta_valid (blockedCTA (joinBlocked e))" using j(1) by (simp add: joinBlocked_def)
  moreover have "splitBlocked (joinBlocked e) = e"
  proof -
    have "filter (\<lambda>d. d \<noteq> length (blockedOrder (joinBlocked e)) - 1) (blockedOrder (joinBlocked e)) = blockedOrder e"
      using filter_last_order [of "blockedOrder e"] v by (simp add: joinBlocked_def)
    moreover have "mkCTALayout (CTAsPerCGA (blockedCTA e)) (CTASplitNum (blockedCTA e)) (tl (CTAOrder (blockedCTA (joinBlocked e)))) = blockedCTA e"
      using j(2) by (simp add: joinBlocked_def)
    moreover have "butlast (sizePerThread (joinBlocked e)) = sizePerThread e" "butlast (threadsPerWarp (joinBlocked e)) = threadsPerWarp e"
      "butlast (warpsPerCTA (joinBlocked e)) = warpsPerCTA e" by (simp_all add: joinBlocked_def)
    ultimately show ?thesis unfolding splitBlocked_def ctas by simp
  qed
  moreover have "isSimpleSplit (joinBlocked e)" unfolding isSimpleSplit_def ctas by (simp add: joinBlocked_def)
  ultimately show ?thesis by (simp add: inferDefaultJoinOpEncoding_def inferSplitOpEncoding_def)
qed

lemma split_join_roundtrip_witness:
  "\<exists>e'. inferDefaultJoinOpEncoding (Distributed (Blocked trans_example)) [8, 16, 32] = gives (Distributed (Blocked e')) \<and>
     inferSplitOpEncoding (Distributed (Blocked e')) [8, 16, 32, 2] = gives (Distributed (Blocked trans_example))"
proof -
  have v: "verifyBlocked trans_example = None" by code_simp
  have c: "cta_valid (blockedCTA trans_example)" by code_simp
  from split_join_roundtrip [OF v c] show ?thesis by blast
qed

text \<open>Splitting a blocked encoding drops the first dim of the order of its CTAs, whichever it is.\<close>

definition split_example :: blocked_encoding where
  "split_example = \<lparr>sizePerThread = [1, 2], threadsPerWarp = [32, 1], warpsPerCTA = [4, 1], blockedOrder = [1, 0],
     blockedCTA = mkCTALayout [2, 1] [2, 1] [0, 1]\<rparr>"

text \<open>
  Splitting a blocked encoding drops the first dim from the order of its CTAs even when the split dim comes later
  there: an accepted encoding gives one whose CTA layout the verifier rejects.
\<close>

theorem split_cta_order:
  "verifyBlocked split_example = None \<and> cta_valid (blockedCTA split_example) \<and>
   (\<exists>e'. inferSplitOpEncoding (Distributed (Blocked split_example)) [64, 2] = gives (Distributed (Blocked e')) \<and>
      verifyCTALayout (CTAsPerCGA (blockedCTA e')) (CTASplitNum (blockedCTA e')) (CTAOrder (blockedCTA e')) = Some OrderNoPermutation)"
proof -
  have "isSimpleSplit split_example" "verifyBlocked split_example = None" "cta_valid (blockedCTA split_example)" by code_simp+
  moreover have "(let c = blockedCTA (splitBlocked split_example) in verifyCTALayout (CTAsPerCGA c) (CTASplitNum c) (CTAOrder c)) = Some OrderNoPermutation"
    by code_simp
  ultimately show ?thesis by (simp add: inferSplitOpEncoding_def Let_def)
qed

end
