(* ===== verification/GenericSwizzling.thy ===== *)
theory GenericSwizzling
  imports LayoutUtils
begin

text \<open>
  \<open>lib/Tools/GenericSwizzling.cpp\<close>: the shared-memory layout for a layout conversion, by linear
  algebra on the flattened bases. A basis of a flattened layout is one \<open>int32_t\<close>.
\<close>

section \<open>Bases\<close>

definition flatten_ll :: "linear_layout \<Rightarrow> dim \<Rightarrow> int list option" where
  "flatten_ll ll d =
     (case getOutDimNames ll of
        [outDim] \<Rightarrow> do {
          n \<leftarrow> getInDimSizeLog2 ll d;
          those (map (\<lambda>i. getBasis ll d i outDim) [0..<n])
        }
      | _ \<Rightarrow> None)"

definition removeZeros :: "int list \<Rightarrow> int list" where
  "removeZeros vec = filter (\<lambda>r. r \<noteq> 0) vec"

definition unflatten :: "int list \<Rightarrow> int list list" where
  "unflatten vs = map (\<lambda>b. [b]) vs"

definition to_rows :: "int list \<Rightarrow> row list" where
  "to_rows vs = map of_int vs"

definition basic_cols :: "row list \<Rightarrow> nat set" where
  "basic_cols m = set (map ctz (filter (\<lambda>w. w \<noteq> 0) m))"

text \<open>The vector of one free column; the code stores the \<open>uint64_t\<close> as an \<open>int32_t\<close>.\<close>

definition null_vector :: "row list \<Rightarrow> nat \<Rightarrow> int" where
  "null_vector m freeCol =
     signed_take_bit 31 (uint (fold (\<lambda>w vec. if bit w freeCol then vec XOR push_bit (ctz w) 1 else vec) m (push_bit freeCol (1 :: row))))"

definition nullspaceBasis :: "int list \<Rightarrow> nat \<Rightarrow> int list option" where
  "nullspaceBasis vectors n = do {
     m \<leftarrow> inplace_rref_strided (to_rows vectors) n;
     Some (map (null_vector m) (filter (\<lambda>c. c \<notin> basic_cols m) [0..<n]))
   }"

definition complementBasis :: "int list \<Rightarrow> nat \<Rightarrow> int list option" where
  "complementBasis basis n = do {
     m \<leftarrow> inplace_rref_strided (to_rows basis) n;
     Some (map (\<lambda>i. signed_take_bit 31 (2 ^ i)) (filter (\<lambda>c. c \<notin> basic_cols m) [0..<n]))
   }"

definition intersectionBasis :: "int list \<Rightarrow> int list \<Rightarrow> nat \<Rightarrow> int list option" where
  "intersectionBasis b1 b2 n =
     (if list_all is_pow2_32 b1 \<and> list_all is_pow2_32 b2
      then Some (filter (\<lambda>b. b \<noteq> 0 \<and> b \<in> set b2) b1)
      else do {
        ns1 \<leftarrow> nullspaceBasis b1 n;
        ns2 \<leftarrow> nullspaceBasis b2 n;
        nullspaceBasis (ns1 @ ns2) n
      })"

section \<open>The bank and segment dimensions\<close>

text \<open>
  A \<open>SetVector\<close> keeps the first of equal elements. The layout constructor takes the four
  dimensions in this order.
\<close>

definition buildReps :: "linear_layout \<Rightarrow> linear_layout \<Rightarrow> linear_layout \<Rightarrow> linear_layout option" where
  "buildReps src dst smem = do {
     srcRegs \<leftarrow> flatten_ll src ''register'';
     dstRegs \<leftarrow> flatten_ll dst ''register'';
     seg \<leftarrow> flatten_ll smem ''segment'';
     let smemSegment = rev (remdups (rev seg));
     let isRep = (\<lambda>s. s \<in> set srcRegs \<and> s \<in> set dstRegs);
     let get = (\<lambda>d. case map_of (bases smem) d of Some bs \<Rightarrow> bs | None \<Rightarrow> []);
     mkLayout [(''vector'', get ''vector''), (''bank'', get ''bank''),
         (''segment'', unflatten (filter (\<lambda>s. \<not> isRep s) smemSegment)),
         (''reps'', unflatten (filter isRep smemSegment))] (outDims smem) True
   }"

text \<open>
  The differences of the two hash sets are sorted before they are read, but their sizes decide which
  is the smaller, so the iteration order of the sets does not matter. A count that would be negative
  wraps as \<open>uint64_t\<close> and is read back as \<open>int32_t\<close>.
\<close>

definition computeSegment :: "int list \<Rightarrow> int list \<Rightarrow> nat \<Rightarrow> nat \<Rightarrow> int list" where
  "computeSegment bankSrc bankDst n lenSegment =
     (let setSrc = set bankSrc - {0};
          setDst = set bankDst - {0};
          free = filter (\<lambda>b. b \<notin> setSrc \<and> b \<notin> setDst) (map (\<lambda>b. signed_take_bit 31 (2 ^ b)) [0..<n])
      in if lenSegment \<le> length free then take lenSegment free
         else let dA = sorted_list_of_set (setSrc - setDst);
                  dB = sorted_list_of_set (setDst - setSrc);
                  (A, B) = (if length dB < length dA then (dB, dA) else (dA, dB));
                  conflicts = min (lenSegment - length A - length free) (length A);
                  segment = free @ map (\<lambda>(a, b). a XOR b) (drop conflicts (zip A B)) @ take conflicts A @ take conflicts B
              in take lenSegment segment)"

definition logBankConflicts :: "int list \<Rightarrow> int list \<Rightarrow> linear_layout \<Rightarrow> int \<Rightarrow> (nat \<times> nat) option" where
  "logBankConflicts tileSrc tileDst smem bitwidth =
     (if bitwidth \<le> 0 then None
      else do {
        smemFlat \<leftarrow> flattenOuts smem;
        flat \<leftarrow> flattenIns smemFlat;
        inD \<leftarrow> (case getInDimNames smemFlat of [] \<Rightarrow> None | d # _ \<Rightarrow> Some d);
        smemBases \<leftarrow> flatten_ll flat inD;
        let nBankZero = log2_32 (max 1 (32 div bitwidth));
        segmentBases \<leftarrow> flatten_ll smemFlat ''segment'';
        let bankZero = take nBankZero smemBases @ segmentBases;
        write \<leftarrow> intersectionBasis bankZero tileSrc (getTotalOutDimSizeLog2 smem);
        read \<leftarrow> intersectionBasis bankZero tileDst (getTotalOutDimSizeLog2 smem);
        Some (length read, length write)
      })"

text \<open>\<open>resize\<close> with a count larger than the list pads with zeros, with a negative count it is a huge
  allocation: None.\<close>

definition drop_back :: "nat \<Rightarrow> 'a list \<Rightarrow> 'a list option" where
  "drop_back k xs = (if k \<le> length xs then Some (take (length xs - k) xs) else None)"

definition logBankConflictsLdSt :: "linear_layout \<Rightarrow> linear_layout \<Rightarrow> linear_layout \<Rightarrow> int \<Rightarrow> (nat \<times> nat) option" where
  "logBankConflictsLdSt src dst smem bitwidth = do {
     srcFlat \<leftarrow> flattenOuts src;
     dstFlat \<leftarrow> flattenOuts dst;
     srcLane \<leftarrow> flatten_ll srcFlat ''lane'';
     dstLane \<leftarrow> flatten_ll dstFlat ''lane'';
     v \<leftarrow> getInDimSize smem ''vector'';
     let log2Vec = log2_32 (max (v * bitwidth div 32) 1);
     srcLane' \<leftarrow> drop_back log2Vec srcLane;
     dstLane' \<leftarrow> drop_back log2Vec dstLane;
     logBankConflicts srcLane' dstLane' smem bitwidth
   }"

definition index_lanes :: "int list \<Rightarrow> nat list \<Rightarrow> int list option" where
  "index_lanes lane ids = those (map (\<lambda>i. if i < length lane then Some (lane ! i) else None) ids)"

text \<open>A loop that returns at the first element that fails a test; the test can stop the compiler.\<close>

fun all_opt :: "('a \<Rightarrow> bool option) \<Rightarrow> 'a list \<Rightarrow> bool option" where
  "all_opt p [] = Some True"
| "all_opt p (x # xs) = do {
     b \<leftarrow> p x;
     if b then all_opt p xs else Some False
   }"

text \<open>
  The normalised case \<open>nRegB \<le> nRegA\<close>; the inner None is \<open>std::nullopt\<close>. A negative \<open>nRegB\<close> is
  compared as a \<open>size_t\<close>, so no vector is long enough for it.
\<close>

definition swizzlingTile :: "linear_layout \<Rightarrow> linear_layout \<Rightarrow> int \<Rightarrow> int \<Rightarrow> nat list \<Rightarrow> nat list \<Rightarrow> int list option option" where
  "swizzlingTile a b nRegA nRegB laneIdTileA laneIdTileB = do {
     let n = getTotalOutDimSizeLog2 a;
     cvt \<leftarrow> invertAndCompose b a;
     regA \<leftarrow> flatten_ll a ''register'';
     regB \<leftarrow> flatten_ll b ''register'';
     laneA \<leftarrow> flatten_ll a ''lane'';
     laneB \<leftarrow> flatten_ll b ''lane'';
     vbasis \<leftarrow> intersectionBasis regA regB n;
     if nRegB < 0 \<or> int (length vbasis) < nRegB then Some None
     else do {
       laneTileA \<leftarrow> index_lanes laneA laneIdTileA;
       laneTileB \<leftarrow> index_lanes laneB laneIdTileB;
       if list_ex (\<lambda>x. x = 0) laneTileA \<or> list_ex (\<lambda>x. x = 0) laneTileB then Some None
       else do {
         inRegs \<leftarrow> all_opt (\<lambda>i. map_option (\<lambda>v. v \<noteq> 0) (getBasis cvt ''lane'' i ''register''))
                     (take (nat (nRegA - nRegB)) laneIdTileB);
         if \<not> inRegs then Some None
         else do {
           same \<leftarrow> all_opt (\<lambda>(idA, idB). map_option (\<lambda>v. v = 2 ^ idA) (getBasis cvt ''lane'' idB ''lane''))
                     (zip laneIdTileA (drop (length laneIdTileB - length laneIdTileA) laneIdTileB));
           if \<not> same then Some None
           else Some (Some (take (nat nRegB) vbasis @ laneTileB))
         }
       }
     }
   }"

definition optimalSwizzlingTile :: "linear_layout \<Rightarrow> linear_layout \<Rightarrow> int \<Rightarrow> int \<Rightarrow> nat list \<Rightarrow> nat list \<Rightarrow> int list option option" where
  "optimalSwizzlingTile a b nRegA nRegB laneIdTileA laneIdTileB =
     (if nRegA + int (length laneIdTileA) \<noteq> nRegB + int (length laneIdTileB) then None
      else if nRegA < nRegB then swizzlingTile b a nRegB nRegA laneIdTileB laneIdTileA
      else swizzlingTile a b nRegA nRegB laneIdTileA laneIdTileB)"

section \<open>The swizzled layout\<close>

definition regsNotZero :: "linear_layout \<Rightarrow> bool" where
  "regsNotZero l = list_all (\<lambda>b. b ! 0 \<noteq> 0) (case map_of (bases l) ''register'' of Some bs \<Rightarrow> bs | None \<Rightarrow> [])"

text \<open>
  The lengths are \<open>int32_t\<close>: \<open>Log2_32\<close> of 0 is -1 there. A vector longer than the tensor makes the
  bank length negative, which the assertion compares as a \<open>size_t\<close>, so it fails.
\<close>

definition smem1D :: "linear_layout \<Rightarrow> linear_layout \<Rightarrow> int \<Rightarrow> int list \<Rightarrow> int list \<Rightarrow> int list \<Rightarrow> linear_layout option" where
  "smem1D src dst bitwidth vbasis tileSrc tileDst =
     (let n = getTotalOutDimSizeLog2 src
      in if length (outDims src) \<noteq> 1 \<or> length (outDims dst) \<noteq> 1 \<or> \<not> regsNotZero src \<or> \<not> regsNotZero dst \<or>
            bitwidth \<le> 0 \<or> n < length vbasis
         then None
         else let q = 1024 div (2 ^ length vbasis * bitwidth);
                  lenBbasis = min (if q = 0 then - 1 else int (log2_32 q)) (int (n - length vbasis));
                  lenSbasis = int n - lenBbasis - int (length vbasis);
                  sbasis = computeSegment (vbasis @ tileSrc) (vbasis @ tileDst) n (nat lenSbasis)
              in do {
                bbasis \<leftarrow> complementBasis (vbasis @ sbasis) n;
                (if int (length bbasis) = lenBbasis + (lenSbasis - int (length sbasis)) then Some () else None);
                mkLayout [(''vector'', unflatten vbasis), (''bank'', unflatten bbasis), (''segment'', unflatten sbasis)]
                  (outDims src) True
              })"

definition optimalSwizzlingFlat :: "linear_layout \<Rightarrow> linear_layout \<Rightarrow> int \<Rightarrow> int list \<Rightarrow> int list \<Rightarrow> int list \<Rightarrow> (dim \<times> int) list \<Rightarrow> linear_layout option" where
  "optimalSwizzlingFlat src dst bitwidth vbasis tileSrc tileDst outs = do {
     basis1D \<leftarrow> smem1D src dst bitwidth vbasis tileSrc tileDst;
     reps \<leftarrow> buildReps src dst basis1D;
     reshapeOuts reps outs
   }"

text \<open>The loop that pads the vector with warp bases, one of each list per round.\<close>

fun pad_warps :: "nat \<Rightarrow> int list \<Rightarrow> int list \<Rightarrow> int list \<Rightarrow> int list" where
  "pad_warps n v [] [] = v"
| "pad_warps n v (s # ss) [] =
     (if n \<le> length v then v else pad_warps n (if s \<in> set v then v else v @ [s]) ss [])"
| "pad_warps n v [] (t # ts) =
     (if n \<le> length v then v else pad_warps n (if t \<in> set v then v else v @ [t]) [] ts)"
| "pad_warps n v (s # ss) (t # ts) =
     (if n \<le> length v then v
      else let v' = (if s \<in> set v then v else v @ [s])
           in pad_warps n (if length v' < n \<and> t \<notin> set v' then v' @ [t] else v') ss ts)"

text \<open>The vector filled up to 32 bits, and whether the source fills the bank.\<close>

definition fill_bank :: "linear_layout \<Rightarrow> linear_layout \<Rightarrow> int list \<Rightarrow> int list \<Rightarrow> nat \<Rightarrow> int \<Rightarrow> int list \<Rightarrow> (int list \<times> bool) option" where
  "fill_bank srcFlat dstFlat regSrc regDst n bitwidth vbasis = do {
     let basesPerBank = log2_32 (32 div bitwidth);
     ws \<leftarrow> flatten_ll srcFlat ''warp'';
     wd \<leftarrow> flatten_ll dstFlat ''warp'';
     let warpSrc = removeZeros ws;
     let warpDst = removeZeros wd;
     let removeVec = filter (\<lambda>r. r \<notin> set vbasis);
     regSrcWarp \<leftarrow> intersectionBasis (removeVec regSrc) warpDst n;
     regDstWarp \<leftarrow> intersectionBasis (removeVec regDst) warpSrc n;
     let srcFills = (if length regSrcWarp = length regDstWarp \<and> regSrcWarp \<noteq> []
                     then Min (set regSrcWarp) < Min (set regDstWarp)
                     else length regDstWarp < length regSrcWarp);
     let v1 = vbasis @ (if srcFills then regSrcWarp else regDstWarp);
     v2 \<leftarrow> (if length v1 < basesPerBank
            then map_option (\<lambda>w. v1 @ w) (intersectionBasis warpSrc warpDst n) else Some v1);
     Some (take basesPerBank (pad_warps basesPerBank v2 warpSrc warpDst), srcFills)
   }"

text \<open>The banks that the source or the destination holds in registers move to the front.\<close>

definition reorder_banks :: "linear_layout \<Rightarrow> int list \<Rightarrow> int list \<Rightarrow> bool option \<Rightarrow> linear_layout option" where
  "reorder_banks smem regSrc regDst srcFills = do {
     smemFlat \<leftarrow> flattenOuts smem;
     banks \<leftarrow> flatten_ll smemFlat ''bank'';
     let inSrc = filter (\<lambda>i. banks ! i \<in> set regSrc) [0..<length banks];
     let inDst = filter (\<lambda>i. banks ! i \<in> set regDst) [0..<length banks];
     let order = (case srcFills of
           Some True \<Rightarrow> inSrc
         | Some False \<Rightarrow> inDst
         | None \<Rightarrow> if length inDst < length inSrc then inSrc else inDst);
     k \<leftarrow> getInDimSizeLog2 smem ''bank'';
     a \<leftarrow> mkColumnAction (order @ filter (\<lambda>i. i \<notin> set order) [0..<length banks]) ''bank'' k;
     applyAction a smem
   }"

definition optimalSwizzlingLdSt :: "linear_layout \<Rightarrow> linear_layout \<Rightarrow> int \<Rightarrow> linear_layout option" where
  "optimalSwizzlingLdSt src dst bitwidth = do {
     srcFlat \<leftarrow> flattenOuts src;
     dstFlat \<leftarrow> flattenOuts dst;
     regSrc \<leftarrow> flatten_ll srcFlat ''register'';
     regDst \<leftarrow> flatten_ll dstFlat ''register'';
     laneSrc \<leftarrow> flatten_ll srcFlat ''lane'';
     laneDst \<leftarrow> flatten_ll dstFlat ''lane'';
     let n = getTotalOutDimSizeLog2 src;
     inter \<leftarrow> intersectionBasis regSrc regDst n;
     (if 0 < bitwidth then Some () else None);
     let v0 = (if 128 div bitwidth = 0 then inter else take (log2_32 (128 div bitwidth)) inter);
     (vbasis, srcFills) \<leftarrow>
       (if 2 ^ length v0 * bitwidth < 32
        then map_option (\<lambda>(v, s). (v, Some s)) (fill_bank srcFlat dstFlat regSrc regDst n bitwidth v0)
        else Some (v0, None));
     let log2Vec = log2_32 (max 1 (2 ^ length vbasis * bitwidth div 32));
     tileSrc \<leftarrow> drop_back log2Vec laneSrc;
     tileDst \<leftarrow> drop_back log2Vec laneDst;
     smem \<leftarrow> optimalSwizzlingFlat srcFlat dstFlat bitwidth vbasis tileSrc tileDst (outDims src);
     if log2Vec < 2 then reorder_banks smem regSrc regDst srcFills else Some smem
   }"

section \<open>Choosing the instructions\<close>

record local_mem_op_tile =
  laneContig :: "nat list"
  laneAddr :: "nat list"

text \<open>
  The registers that complete a tile. \<open>regNeeded\<close> is unsigned, so more than three address lanes wrap to a
  count that no register list reaches, instead of failing the assertion that follows it.
\<close>

definition getTile :: "local_mem_op_tile \<Rightarrow> int list \<Rightarrow> int list \<Rightarrow> int list \<Rightarrow> int list option option" where
  "getTile instr regs lane vbasis =
     (let free = filter (\<lambda>r. r \<notin> set vbasis) regs
      in if 3 < length (laneAddr instr) \<or> length free < 3 - length (laneAddr instr) then Some None
         else map_option (\<lambda>ls. Some (take (3 - length (laneAddr instr)) free @ ls)) (index_lanes lane (laneAddr instr)))"

definition swizzle_candidates ::
  "linear_layout \<Rightarrow> linear_layout \<Rightarrow> local_mem_op_tile list \<Rightarrow> local_mem_op_tile list \<Rightarrow> nat \<Rightarrow> (nat \<times> nat \<times> int list) list option" where
  "swizzle_candidates srcFlat dstFlat srcTiles dstTiles totalBases =
     map_option (\<lambda>rs. [(i, j, v). (i, j, Some v) \<leftarrow> rs])
       (those [map_option (\<lambda>r. (i, j, r))
             (optimalSwizzlingTile srcFlat dstFlat (int totalBases - int (length (laneContig ts)))
                (int totalBases - int (length (laneContig td))) (laneContig ts) (laneContig td)).
         (i, ts) \<leftarrow> enumerate 0 srcTiles, (j, td) \<leftarrow> enumerate 0 dstTiles])"

definition candidate_tiles ::
  "local_mem_op_tile list \<Rightarrow> local_mem_op_tile list \<Rightarrow> int list \<Rightarrow> int list \<Rightarrow> int list \<Rightarrow> int list \<Rightarrow>
   (nat \<times> nat \<times> int list) list \<Rightarrow> (nat \<times> nat \<times> int list \<times> int list \<times> int list) list option" where
  "candidate_tiles srcTiles dstTiles regSrc regDst laneSrc laneDst cands =
     map_option (\<lambda>rs. [(i, j, v, s, d). (i, j, v, Some s, Some d) \<leftarrow> rs])
       (those (map (\<lambda>(i, j, v). do {
            s \<leftarrow> getTile (srcTiles ! i) regSrc laneSrc v;
            d \<leftarrow> getTile (dstTiles ! j) regDst laneDst v;
            Some (i, j, v, s, d)
          }) cands))"

text \<open>\<open>llvm::min_element\<close>: the first candidate that no other one is better than.\<close>

definition better :: "nat \<times> linear_layout \<times> 'i \<Rightarrow> nat \<times> linear_layout \<times> 'i \<Rightarrow> bool" where
  "better a b =
     (fst a < fst b \<or> fst a = fst b \<and>
        the (getInDimSize (fst (snd b)) ''reps'') < the (getInDimSize (fst (snd a)) ''reps''))"

definition min_smem :: "(nat \<times> linear_layout \<times> 'i) list \<Rightarrow> nat \<times> linear_layout \<times> 'i" where
  "min_smem xs = fold (\<lambda>x best. if better x best then x else best) (tl xs) (hd xs)"

definition optimalSwizzling ::
  "linear_layout \<Rightarrow> linear_layout \<Rightarrow> local_mem_op_tile list \<Rightarrow> local_mem_op_tile list \<Rightarrow> int \<Rightarrow>
   (linear_layout \<times> nat \<times> nat) option" where
  "optimalSwizzling src dst srcTiles dstTiles bitwidth =
     (if bitwidth \<le> 0 \<or> 128 < bitwidth then None
      else do {
        srcFlat \<leftarrow> flattenOuts src;
        dstFlat \<leftarrow> flattenOuts dst;
        cands \<leftarrow> swizzle_candidates srcFlat dstFlat srcTiles dstTiles (log2_32 (128 div bitwidth));
        regSrc \<leftarrow> flatten_ll srcFlat ''register'';
        regDst \<leftarrow> flatten_ll dstFlat ''register'';
        laneSrc \<leftarrow> flatten_ll srcFlat ''lane'';
        laneDst \<leftarrow> flatten_ll dstFlat ''lane'';
        tiles \<leftarrow> candidate_tiles srcTiles dstTiles regSrc regDst laneSrc laneDst cands;
        if tiles = [] then map_option (\<lambda>smem. (smem, 0, 0)) (optimalSwizzlingLdSt src dst bitwidth)
        else do {
          smems \<leftarrow> those (map (\<lambda>(i, j, v, s, d). do {
              smem \<leftarrow> optimalSwizzlingFlat srcFlat dstFlat bitwidth v s d (outDims src);
              (read, write) \<leftarrow> logBankConflicts s d smem bitwidth;
              Some (read + write, smem, i, j)
            }) tiles);
          let (_, smem, i, j) = min_smem smems;
          Some (smem, i, j)
        }
      })"

end
