(* ===== verification/AxisInfo.thy ===== *)
theory AxisInfo
  imports Prelude "HOL-Library.Signed_Division"
begin

text \<open>
  The axis analysis of \<open>include/triton/Analysis/AxisInfo.h\<close> and \<open>lib/Analysis/AxisInfo.cpp\<close>:
  the lattice value, the visitor of every operation, the transfer function and the module level map.
  An \<open>int64_t\<close> is an \<open>int\<close>; where the C++ arithmetic can leave the range the result is wrapped with
  \<open>wrap64\<close>. None is a stopped compiler: a failed assertion, a division by zero, or a shift by an
  amount outside 0..63. MLIR's types and attributes enter as the numbers the code reads off them.
\<close>

section \<open>Arithmetic helpers\<close>

definition wrap64 :: "int \<Rightarrow> int" where
  "wrap64 x = signed_take_bit 63 x"

text \<open>\<open>highestPowOf2Divisor\<close> of \<open>include/triton/Dialect/Triton/IR/Utility.h\<close> at a type of \<open>w\<close> bits; an
  unsigned argument is never negative.\<close>

definition highestPowOf2Divisor :: "nat \<Rightarrow> int \<Rightarrow> int" where
  "highestPowOf2Divisor w n = (if n = 0 \<or> n = - (2 ^ (w - 1)) then 2 ^ (w - 2) else n AND NOT (n - 1))"

definition kMaxDivisor :: int where
  "kMaxDivisor = highestPowOf2Divisor 64 0"

text \<open>The variadic \<open>gcd\<close> of the code: a zero among the first two ends the recursion.\<close>

fun gcds :: "int \<Rightarrow> int \<Rightarrow> int list \<Rightarrow> int" where
  "gcds a b cs =
     (if a = 0 then b
      else if b = 0 then a
      else (case cs of [] \<Rightarrow> gcd a b | c # ds \<Rightarrow> gcds (gcd a b) c ds))"

declare gcds.simps [simp del]

abbreviation gcd2 :: "int \<Rightarrow> int \<Rightarrow> int" where
  "gcd2 a b \<equiv> gcds a b []"

definition multiplyDivisor :: "int \<Rightarrow> int \<Rightarrow> int option" where
  "multiplyDivisor lhs rhs =
     (if rhs = 0 then None
      else if lhs > kMaxDivisor sdiv rhs then Some kMaxDivisor
      else Some (wrap64 (lhs * rhs)))"

section \<open>The lattice\<close>

record axis_info =
  contiguity :: "int list"
  divisibility :: "int list"
  constancy :: "int list"
  constantValue :: "int option"

definition mkAxisInfo :: "int list \<Rightarrow> int list \<Rightarrow> int list \<Rightarrow> int option \<Rightarrow> axis_info option" where
  "mkAxisInfo c d k v =
     (if length d = length c \<and> length k = length c
      then Some \<lparr>contiguity = c, divisibility = d, constancy = k, constantValue = v\<rparr> else None)"

definition emptyInfo :: axis_info where
  "emptyInfo = \<lparr>contiguity = [], divisibility = [], constancy = [], constantValue = None\<rparr>"

definition getRank :: "axis_info \<Rightarrow> nat" where
  "getRank i = length (contiguity i)"

definition getContiguity :: "axis_info \<Rightarrow> nat \<Rightarrow> int" where
  "getContiguity i d = contiguity i ! d"

definition getDivisibility :: "axis_info \<Rightarrow> nat \<Rightarrow> int" where
  "getDivisibility i d = divisibility i ! d"

definition getConstancy :: "axis_info \<Rightarrow> nat \<Rightarrow> int" where
  "getConstancy i d = constancy i ! d"

definition getDivisibilityFromContiguity :: "axis_info \<Rightarrow> axis_info \<Rightarrow> nat \<Rightarrow> int" where
  "getDivisibilityFromContiguity lhs rhs d =
     (if getContiguity lhs d = getContiguity rhs d \<or> getContiguity lhs d = kMaxDivisor \<or>
         getContiguity rhs d = kMaxDivisor
      then gcd2 (getDivisibility lhs d) (getDivisibility rhs d)
      else gcds (getDivisibility lhs d) (getDivisibility rhs d) [getContiguity lhs d, getContiguity rhs d])"

definition both_constant :: "axis_info \<Rightarrow> axis_info \<Rightarrow> int option" where
  "both_constant lhs rhs =
     (if constantValue lhs = constantValue rhs then constantValue lhs else None)"

text \<open>An access past the rank of the second argument fails the assertion of \<open>SmallVector\<close>.\<close>

definition join :: "axis_info \<Rightarrow> axis_info \<Rightarrow> axis_info option" where
  "join lhs rhs =
     (if getRank lhs = 0 then Some rhs
      else if getRank rhs = 0 then Some lhs
      else if getRank rhs < getRank lhs then None
      else mkAxisInfo
        (map (\<lambda>d. gcd2 (getContiguity lhs d) (getContiguity rhs d)) [0..<getRank lhs])
        (map (\<lambda>d. getDivisibilityFromContiguity lhs rhs d) [0..<getRank lhs])
        (map (\<lambda>d. gcd2 (getConstancy lhs d) (getConstancy rhs d)) [0..<getRank lhs])
        (both_constant lhs rhs))"

definition isContiguousDim :: "axis_info \<Rightarrow> int list \<Rightarrow> nat \<Rightarrow> bool" where
  "isContiguousDim i shape d = (getContiguity i d = shape ! d)"

definition isConstantDim :: "axis_info \<Rightarrow> int list \<Rightarrow> nat \<Rightarrow> bool" where
  "isConstantDim i shape d = (getConstancy i d = shape ! d)"

section \<open>Binary operations\<close>

type_synonym dimf = "axis_info \<Rightarrow> axis_info \<Rightarrow> nat \<Rightarrow> int"

text \<open>
  \<open>BinaryOpVisitorImpl\<close>: \<open>cv\<close> is the virtual \<open>getConstantValue\<close>, the three functions are the virtual
  \<open>getContiguity\<close>, \<open>getDivisibility\<close> and \<open>getConstancy\<close>. Each defaults to 1.
\<close>

definition visitBinary ::
  "(axis_info \<Rightarrow> axis_info \<Rightarrow> int option option) \<Rightarrow> dimf \<Rightarrow> (axis_info \<Rightarrow> axis_info \<Rightarrow> nat \<Rightarrow> int option) \<Rightarrow> dimf \<Rightarrow>
   axis_info \<Rightarrow> axis_info \<Rightarrow> axis_info option" where
  "visitBinary cv contig divis const lhs rhs = do {
     v \<leftarrow> cv lhs rhs;
     let rk = getRank lhs;
     if getRank rhs < rk then None
     else (case v of
         Some c \<Rightarrow> mkAxisInfo (replicate rk 1) (replicate rk (highestPowOf2Divisor 64 c))
                     (map (\<lambda>d. max (getConstancy lhs d) (getConstancy rhs d)) [0..<rk]) (Some c)
       | None \<Rightarrow> do {
           ds \<leftarrow> those (map (divis lhs rhs) [0..<rk]);
           mkAxisInfo (map (contig lhs rhs) [0..<rk]) ds (map (const lhs rhs) [0..<rk]) None
         })
   }"

definition one_dim :: dimf where
  "one_dim lhs rhs d = 1"

definition fold_constants :: "(int \<Rightarrow> int \<Rightarrow> int option) \<Rightarrow> axis_info \<Rightarrow> axis_info \<Rightarrow> int option option" where
  "fold_constants f lhs rhs =
     (case (constantValue lhs, constantValue rhs) of
        (Some a, Some b) \<Rightarrow> map_option Some (f a b)
      | _ \<Rightarrow> Some None)"

definition gcd_constancy :: dimf where
  "gcd_constancy lhs rhs d = gcd2 (getConstancy lhs d) (getConstancy rhs d)"

subsection \<open>Addition, subtraction and pointer arithmetic\<close>

datatype addsub = AddPtr nat | AddI | SubI

text \<open>The bytes of one element of a pointer with a pointee of the given width.\<close>

definition elemSize :: "nat \<Rightarrow> int" where
  "elemSize bits = max 1 (int (bits div 8))"

definition addsub_contiguity :: "addsub \<Rightarrow> dimf" where
  "addsub_contiguity k lhs rhs d =
     (if k = SubI then gcd2 (getContiguity lhs d) (getConstancy rhs d)
      else max (gcd2 (getConstancy lhs d) (getContiguity rhs d)) (gcd2 (getContiguity lhs d) (getConstancy rhs d)))"

definition addsub_divisibility :: "addsub \<Rightarrow> axis_info \<Rightarrow> axis_info \<Rightarrow> nat \<Rightarrow> int option" where
  "addsub_divisibility k lhs rhs d = do {
     r \<leftarrow> (case k of AddPtr bits \<Rightarrow> multiplyDivisor (getDivisibility rhs d) (elemSize bits)
            | _ \<Rightarrow> Some (getDivisibility rhs d));
     Some (gcd2 (getDivisibility lhs d) r)
   }"

definition addsub_constant :: "addsub \<Rightarrow> int \<Rightarrow> int \<Rightarrow> int" where
  "addsub_constant k a b =
     (case k of
        AddI \<Rightarrow> wrap64 (a + b)
      | SubI \<Rightarrow> wrap64 (a - b)
      | AddPtr bits \<Rightarrow> wrap64 (a + wrap64 (b * elemSize bits)))"

definition visitAddSub :: "addsub \<Rightarrow> axis_info \<Rightarrow> axis_info \<Rightarrow> axis_info option" where
  "visitAddSub k = visitBinary (fold_constants (\<lambda>a b. Some (addsub_constant k a b)))
     (addsub_contiguity k) (addsub_divisibility k) gcd_constancy"

subsection \<open>Multiplication, division and remainder\<close>

definition mul_contiguity :: dimf where
  "mul_contiguity lhs rhs d =
     max (if constantValue rhs = Some 1 then getContiguity lhs d else 1)
         (if constantValue lhs = Some 1 then getContiguity rhs d else 1)"

definition mul_divisibility :: "axis_info \<Rightarrow> axis_info \<Rightarrow> nat \<Rightarrow> int option" where
  "mul_divisibility lhs rhs d =
     multiplyDivisor
       (if getContiguity lhs d > 1 \<and> constantValue rhs \<noteq> Some 1 then 1 else getDivisibility lhs d)
       (if getContiguity rhs d > 1 \<and> constantValue lhs \<noteq> Some 1 then 1 else getDivisibility rhs d)"

definition visitMul :: "axis_info \<Rightarrow> axis_info \<Rightarrow> axis_info option" where
  "visitMul = visitBinary (fold_constants (\<lambda>a b. Some (wrap64 (a * b)))) mul_contiguity mul_divisibility gcd_constancy"

text \<open>\<open>shape\<close> is the shape of a ranked tensor result, None for a scalar.\<close>

definition div_contiguity :: dimf where
  "div_contiguity lhs rhs d = (if constantValue rhs = Some 1 then getContiguity lhs d else 1)"

definition div_constancy :: "int list option \<Rightarrow> dimf" where
  "div_constancy shape lhs rhs d =
     (case shape of
        None \<Rightarrow> 1
      | Some sh \<Rightarrow>
          let k = gcd_constancy lhs rhs d
          in if isContiguousDim lhs sh d \<and> isConstantDim rhs sh d
             then max k (gcds (getContiguity lhs d) (getDivisibility lhs d) [getDivisibility rhs d])
             else k)"

definition is_pow2_64 :: "int \<Rightarrow> bool" where
  "is_pow2_64 x = (let u = x mod 2 ^ 64 in u \<noteq> 0 \<and> u AND (u - 1) = 0)"

definition div_divisibility :: "axis_info \<Rightarrow> axis_info \<Rightarrow> nat \<Rightarrow> int option" where
  "div_divisibility lhs rhs d = Some
     (if constantValue lhs = Some 0 then getDivisibility lhs d
      else case constantValue rhs of
          None \<Rightarrow> 1
        | Some c \<Rightarrow>
            if c = 1 then getDivisibility lhs d
            else if is_pow2_64 \<bar>c\<bar> \<and> getContiguity lhs d = 1 then max 1 (getDivisibility lhs d sdiv \<bar>c\<bar>)
            else 1)"

text \<open>A division of \<open>int64_t\<close> without a result stops the compiler.\<close>

definition div_traps :: "int \<Rightarrow> int \<Rightarrow> bool" where
  "div_traps a b \<longleftrightarrow> b = 0 \<or> (a = - (2 ^ 63) \<and> b = -1)"

definition visitDiv :: "int list option \<Rightarrow> axis_info \<Rightarrow> axis_info \<Rightarrow> axis_info option" where
  "visitDiv shape = visitBinary (fold_constants (\<lambda>a b. if div_traps a b then None else Some (a sdiv b)))
     div_contiguity div_divisibility (div_constancy shape)"

definition rem_contiguity :: "int list option \<Rightarrow> dimf" where
  "rem_contiguity shape lhs rhs d =
     (case shape of
        None \<Rightarrow> 1
      | Some sh \<Rightarrow>
          if isContiguousDim lhs sh d \<and> isConstantDim rhs sh d
          then gcds (getContiguity lhs d) (getDivisibility lhs d) [getDivisibility rhs d] else 1)"

definition rem_divisibility :: "axis_info \<Rightarrow> axis_info \<Rightarrow> nat \<Rightarrow> int option" where
  "rem_divisibility lhs rhs d = Some
     (if getConstancy rhs d > 1 then gcd2 (getDivisibility lhs d) (getDivisibility rhs d) else 1)"

definition rem_constancy :: "int list option \<Rightarrow> dimf" where
  "rem_constancy shape lhs rhs d =
     (case shape of
        None \<Rightarrow> 1
      | Some sh \<Rightarrow> if constantValue rhs = Some 1 then sh ! d else gcd_constancy lhs rhs d)"

definition rem_constant :: "axis_info \<Rightarrow> axis_info \<Rightarrow> int option option" where
  "rem_constant lhs rhs =
     (case (constantValue lhs, constantValue rhs) of
        (Some a, Some b) \<Rightarrow> if div_traps a b then None else Some (Some (a smod b))
      | (_, Some c) \<Rightarrow> Some (if c = 1 then Some 0 else None)
      | _ \<Rightarrow> Some None)"

definition visitRem :: "int list option \<Rightarrow> axis_info \<Rightarrow> axis_info \<Rightarrow> axis_info option" where
  "visitRem shape = visitBinary rem_constant (rem_contiguity shape) rem_divisibility (rem_constancy shape)"

subsection \<open>Bitwise operations and shifts\<close>

datatype logical = AndI | OrI | XOrI

definition logical_op :: "logical \<Rightarrow> int \<Rightarrow> int \<Rightarrow> int" where
  "logical_op k a b = (case k of AndI \<Rightarrow> a AND b | OrI \<Rightarrow> a OR b | XOrI \<Rightarrow> a XOR b)"

definition visitLogical :: "logical \<Rightarrow> axis_info \<Rightarrow> axis_info \<Rightarrow> axis_info option" where
  "visitLogical k = visitBinary (fold_constants (\<lambda>a b. Some (logical_op k a b))) one_dim (\<lambda>_ _ _. Some 1) gcd_constancy"

definition shift_ok :: "int \<Rightarrow> bool" where
  "shift_ok s \<longleftrightarrow> 0 \<le> s \<and> s < 64"

definition shift_contiguity :: dimf where
  "shift_contiguity lhs rhs d = (if constantValue rhs = Some 0 then getContiguity lhs d else 1)"

definition shl_divisibility :: "axis_info \<Rightarrow> axis_info \<Rightarrow> nat \<Rightarrow> int option" where
  "shl_divisibility lhs rhs d =
     (let shift = (case constantValue rhs of Some s \<Rightarrow> s | None \<Rightarrow> 0)
      in if \<not> shift_ok shift then None
         else multiplyDivisor (if getContiguity lhs d > 1 \<and> shift \<noteq> 0 then 1 else getDivisibility lhs d)
                (wrap64 (2 ^ nat shift)))"

definition visitShl :: "axis_info \<Rightarrow> axis_info \<Rightarrow> axis_info option" where
  "visitShl = visitBinary (fold_constants (\<lambda>a b. if shift_ok b then Some (wrap64 (a * 2 ^ nat b)) else None))
     shift_contiguity shl_divisibility gcd_constancy"

definition shr_divisibility :: "axis_info \<Rightarrow> axis_info \<Rightarrow> nat \<Rightarrow> int option" where
  "shr_divisibility lhs rhs d =
     (case constantValue rhs of
        None \<Rightarrow> Some 1
      | Some shift \<Rightarrow>
          if \<not> shift_ok shift then None
          else Some (max 1 ((if getContiguity lhs d > 1 \<and> shift \<noteq> 0 then 1 else getDivisibility lhs d)
                 sdiv wrap64 (2 ^ nat shift))))"

definition visitShr :: "axis_info \<Rightarrow> axis_info \<Rightarrow> axis_info option" where
  "visitShr = visitBinary (fold_constants (\<lambda>a b. if shift_ok b then Some (drop_bit (nat b) a) else None))
     shift_contiguity shr_divisibility gcd_constancy"

section \<open>The other operations\<close>

text \<open>The bounds of a range are \<open>uint32_t\<close>; the divisor is taken at that type.\<close>

definition highestPowOf2Divisor_u32 :: "int \<Rightarrow> int" where
  "highestPowOf2Divisor_u32 n = (if n mod 2 ^ 32 = 0 then 2 ^ 30 else n mod 2 ^ 32 AND NOT (n mod 2 ^ 32 - 1))"

definition visitMakeRange :: "int \<Rightarrow> int \<Rightarrow> axis_info option" where
  "visitMakeRange start end = mkAxisInfo [(end - start) mod 2 ^ 32] [highestPowOf2Divisor_u32 start] [1] None"

text \<open>The attribute of a constant: an \<open>APInt\<close> of \<open>w\<close> bits, a splat of one over a shape, or another one.\<close>

datatype const_attr = IntAttr nat int | SplatAttr nat int "int list" | OtherAttr

definition zext64 :: "nat \<Rightarrow> int \<Rightarrow> int" where
  "zext64 w v = wrap64 (take_bit w v)"

definition visitConstant :: "const_attr \<Rightarrow> axis_info option" where
  "visitConstant a =
     (case a of
        IntAttr w v \<Rightarrow> mkAxisInfo [1] [highestPowOf2Divisor 64 (zext64 w v)] [1] (Some (zext64 w v))
      | SplatAttr w v shape \<Rightarrow>
          mkAxisInfo (replicate (length shape) 1) (replicate (length shape) (highestPowOf2Divisor 64 (zext64 w v)))
            shape (Some (zext64 w v))
      | OtherAttr \<Rightarrow> Some emptyInfo)"

definition visitPoison :: "nat \<Rightarrow> axis_info option" where
  "visitPoison r = mkAxisInfo (replicate r kMaxDivisor) (replicate r kMaxDivisor) (replicate r kMaxDivisor) None"

definition visitSplat :: "int list \<Rightarrow> axis_info \<Rightarrow> axis_info option" where
  "visitSplat shape i =
     (if shape \<noteq> [] \<and> getRank i = 0 then None
      else mkAxisInfo (replicate (length shape) 1) (replicate (length shape) (getDivisibility i 0)) shape (constantValue i))"

text \<open>\<open>mask\<close> is the info of the second operand, if there is one.\<close>

definition visitLoad :: "axis_info \<Rightarrow> axis_info option \<Rightarrow> axis_info option" where
  "visitLoad ptr msk =
     (if (case msk of Some m \<Rightarrow> getRank m < getRank ptr | None \<Rightarrow> False) then None
      else mkAxisInfo (replicate (getRank ptr) 1) (replicate (getRank ptr) 1)
        (map (\<lambda>d. gcd2 (getConstancy ptr d) (case msk of Some m \<Rightarrow> getConstancy m d | None \<Rightarrow> 0)) [0..<getRank ptr]) None)"

definition insert_at :: "nat \<Rightarrow> 'a \<Rightarrow> 'a list \<Rightarrow> 'a list" where
  "insert_at k x xs = take k xs @ x # drop k xs"

definition visitExpandDims :: "nat \<Rightarrow> axis_info \<Rightarrow> axis_info option" where
  "visitExpandDims axis i =
     (if getRank i < axis then None
      else let elem = (\<lambda>d. if getContiguity i d > 1 then 1 else getDivisibility i d);
               newDivisibility =
                 (case constantValue i of
                    Some c \<Rightarrow> highestPowOf2Divisor 64 c
                  | None \<Rightarrow> if getRank i = 0 then 1
                            else fold (\<lambda>d acc. gcd2 acc (elem d)) [1..<getRank i] (elem 0))
           in mkAxisInfo (insert_at axis 1 (contiguity i)) (insert_at axis newDivisibility (divisibility i))
                (insert_at axis 1 (constancy i)) (constantValue i))"

definition visitBroadcast :: "int list \<Rightarrow> int list \<Rightarrow> axis_info \<Rightarrow> axis_info option" where
  "visitBroadcast opShape retShape i =
     (if getRank i < length retShape \<or> length opShape < length retShape then None
      else mkAxisInfo
        (map (\<lambda>d. if opShape ! d = 1 then 1 else getContiguity i d) [0..<length retShape])
        (map (\<lambda>d. getDivisibility i d) [0..<length retShape])
        (map (\<lambda>d. if opShape ! d = 1 then retShape ! d else getConstancy i d) [0..<length retShape])
        (constantValue i))"

datatype cmp_pred = eqP | neP | sltP | sleP | sgtP | sgeP | ultP | uleP | ugtP | ugeP

definition compare :: "cmp_pred \<Rightarrow> int \<Rightarrow> int \<Rightarrow> bool" where
  "compare p a b =
     (let ua = a mod 2 ^ 64; ub = b mod 2 ^ 64
      in case p of eqP \<Rightarrow> a = b | neP \<Rightarrow> a \<noteq> b | sltP \<Rightarrow> a < b | sleP \<Rightarrow> a \<le> b | sgtP \<Rightarrow> a > b | sgeP \<Rightarrow> a \<ge> b
         | ultP \<Rightarrow> ua < ub | uleP \<Rightarrow> ua \<le> ub | ugtP \<Rightarrow> ua > ub | ugeP \<Rightarrow> ua \<ge> ub)"

definition cmp_constancy :: "cmp_pred \<Rightarrow> int list \<Rightarrow> dimf" where
  "cmp_constancy p shape lhs rhs d =
     (if constantValue lhs \<noteq> None \<and> constantValue rhs \<noteq> None then getConstancy lhs d
      else let k = gcd_constancy lhs rhs d
           in if p \<in> {sgtP, ugtP, sleP, uleP} \<and> isConstantDim lhs shape d
              then max k (gcds (getContiguity rhs d) (getDivisibility lhs d) [getDivisibility rhs d])
              else if p \<in> {sltP, ultP, sgeP, ugeP} \<and> isConstantDim rhs shape d
              then max k (gcds (getContiguity lhs d) (getDivisibility lhs d) [getDivisibility rhs d])
              else k)"

definition visitCmp :: "cmp_pred \<Rightarrow> int list option \<Rightarrow> axis_info \<Rightarrow> axis_info \<Rightarrow> axis_info option" where
  "visitCmp p shape lhs rhs =
     (case shape of
        None \<Rightarrow> Some emptyInfo
      | Some sh \<Rightarrow>
          if getRank lhs < length sh \<or> getRank rhs < length sh then None
          else mkAxisInfo (replicate (length sh) 1) (replicate (length sh) 1)
            (map (cmp_constancy p sh lhs rhs) [0..<length sh])
            (case (sh, constantValue lhs, constantValue rhs) of
               (_ # _, Some a, Some b) \<Rightarrow> Some (if compare p a b then 1 else 0)
             | _ \<Rightarrow> None))"

definition visitSelect :: "bool \<Rightarrow> axis_info \<Rightarrow> axis_info \<Rightarrow> axis_info \<Rightarrow> axis_info option" where
  "visitSelect i1Cond cond lhs rhs =
     (case constantValue cond of
        Some c \<Rightarrow> Some (if c = 0 then rhs else lhs)
      | None \<Rightarrow>
          let rk = getRank lhs;
              ck = (\<lambda>d. if i1Cond then [] else [constancy cond ! d])
          in if getRank rhs < rk \<or> \<not> i1Cond \<and> length (constancy cond) < rk then None
             else mkAxisInfo
               (map (\<lambda>d. gcds (getContiguity lhs d) (getContiguity rhs d) (ck d)) [0..<rk])
               (map (getDivisibilityFromContiguity lhs rhs) [0..<rk])
               (map (\<lambda>d. gcds (getConstancy lhs d) (getConstancy rhs d) (ck d)) [0..<rk])
               (both_constant lhs rhs))"

datatype maxmin = MaxSI | MaxUI | MinSI | MinUI

text \<open>The signed and the unsigned operations share the comparison of \<open>int64_t\<close>.\<close>

definition visitMaxMin :: "maxmin \<Rightarrow> axis_info \<Rightarrow> axis_info \<Rightarrow> axis_info option" where
  "visitMaxMin k lhs rhs =
     (let rk = getRank lhs
      in case (constantValue lhs, constantValue rhs) of
           (Some a, Some b) \<Rightarrow>
             mkAxisInfo (replicate rk 1) (replicate rk 1) (replicate rk 1)
               (Some (if k = MaxSI \<or> k = MaxUI then max a b else min a b))
         | _ \<Rightarrow>
             if getRank rhs < rk then None
             else mkAxisInfo
               (map (\<lambda>d. gcd2 (getContiguity lhs d) (getContiguity rhs d)) [0..<rk])
               (map (getDivisibilityFromContiguity lhs rhs) [0..<rk])
               (map (gcd_constancy lhs rhs) [0..<rk]) None)"

section \<open>The transfer function\<close>

text \<open>
  The operations the analysis has a visitor for, with what the visitors read off them: the shape of a
  ranked tensor result, attributes, and operand types. \<open>OtherOp\<close> has no visitor.
\<close>

datatype axis_op =
    CastOp
  | MakeRangeOp int int
  | PoisonOp nat
  | ConstantOp const_attr
  | AddSubOp addsub
  | MulIOp
  | DivOp "int list option"
  | RemOp "int list option"
  | BroadcastOp "int list" "int list"
  | SplatOp "int list"
  | ExpandDimsOp nat
  | CmpIOp cmp_pred "int list option"
  | LogicalOp logical
  | SelectOp bool
  | ShLIOp
  | ShROp
  | MaxMinOp maxmin
  | LoadOp
  | OtherOp

fun apply_visitor :: "axis_op \<Rightarrow> axis_info list \<Rightarrow> axis_info option" where
  "apply_visitor CastOp (i # _) = Some i"
| "apply_visitor (MakeRangeOp s e) _ = visitMakeRange s e"
| "apply_visitor (PoisonOp r) _ = visitPoison r"
| "apply_visitor (ConstantOp a) _ = visitConstant a"
| "apply_visitor (AddSubOp k) [l, r] = visitAddSub k l r"
| "apply_visitor MulIOp [l, r] = visitMul l r"
| "apply_visitor (DivOp sh) [l, r] = visitDiv sh l r"
| "apply_visitor (RemOp sh) [l, r] = visitRem sh l r"
| "apply_visitor (BroadcastOp os rs) (i # _) = visitBroadcast os rs i"
| "apply_visitor (SplatOp sh) (i # _) = visitSplat sh i"
| "apply_visitor (ExpandDimsOp a) (i # _) = visitExpandDims a i"
| "apply_visitor (CmpIOp p sh) (l # r # _) = visitCmp p sh l r"
| "apply_visitor (LogicalOp k) [l, r] = visitLogical k l r"
| "apply_visitor (SelectOp i1) (c # l # r # _) = visitSelect i1 c l r"
| "apply_visitor ShLIOp [l, r] = visitShl l r"
| "apply_visitor ShROp [l, r] = visitShr l r"
| "apply_visitor (MaxMinOp k) (l # r # _) = visitMaxMin k l r"
| "apply_visitor LoadOp (p # ms) = visitLoad p (case ms of [] \<Rightarrow> None | m # _ \<Rightarrow> Some m)"
| "apply_visitor OtherOp _ = Some emptyInfo"
| "apply_visitor _ _ = None"

text \<open>The discardable attributes of an operation, absent or one value per dimension.\<close>

record axis_hints =
  hintContiguity :: "int list option"
  hintDivisibility :: "int list option"
  hintConstancy :: "int list option"

definition no_hints :: axis_hints where
  "no_hints = \<lparr>hintContiguity = None, hintDivisibility = None, hintConstancy = None\<rparr>"

definition override :: "'a option \<Rightarrow> 'a \<Rightarrow> 'a" where
  "override h x = (case h of Some y \<Rightarrow> y | None \<Rightarrow> x)"

definition apply_hints :: "axis_hints \<Rightarrow> axis_info \<Rightarrow> axis_info option" where
  "apply_hints h i =
     mkAxisInfo (override (hintContiguity h) (contiguity i)) (override (hintDivisibility h) (divisibility i))
       (override (hintConstancy h) (constancy i)) (constantValue i)"

subsection \<open>Entry states\<close>

datatype arg_attr = NoArgAttr | IntArgAttr int | DenseArgAttr "int list"

definition init_vec :: "arg_attr \<Rightarrow> nat \<Rightarrow> int list \<Rightarrow> int list" where
  "init_vec a n v = (case a of NoArgAttr \<Rightarrow> v | IntArgAttr x \<Rightarrow> replicate n x | DenseArgAttr xs \<Rightarrow> xs)"

text \<open>The three attributes of a function argument; each one is replicated to the length that the
  contiguity has by then.\<close>

definition initPessimisticStateFromFunc ::
  "arg_attr \<Rightarrow> arg_attr \<Rightarrow> arg_attr \<Rightarrow> int list \<times> int list \<times> int list \<Rightarrow> int list \<times> int list \<times> int list" where
  "initPessimisticStateFromFunc ac ad ak s =
     (case s of (c, d, k) \<Rightarrow>
        let c' = init_vec ac (length c) c
        in (c', init_vec ad (length c') d, init_vec ak (length c') k))"

text \<open>Where a value comes from: an argument of a function, of the entry block of another region
  operation, the result of an operation (a region operation or not) with its hints, or anything else.\<close>

datatype value_origin =
    FuncArg arg_attr arg_attr arg_attr
  | RegionArg
  | OpResult bool axis_hints
  | OtherValue

definition getPessimisticValueState :: "nat \<Rightarrow> value_origin \<Rightarrow> axis_info option" where
  "getPessimisticValueState rk origin =
     (let ones = replicate rk 1; unknown = replicate rk kMaxDivisor
      in case origin of
           FuncArg ac ad ak \<Rightarrow>
             (case initPessimisticStateFromFunc ac ad ak (ones, ones, ones) of (c, d, k) \<Rightarrow> mkAxisInfo c d k None)
         | RegionArg \<Rightarrow> mkAxisInfo unknown unknown unknown None
         | OpResult region h \<Rightarrow>
             let v = (if region then unknown else ones)
             in mkAxisInfo (override (hintContiguity h) v) (override (hintDivisibility h) v)
                  (override (hintConstancy h) v) None
         | OtherValue \<Rightarrow> mkAxisInfo ones ones ones None)"

text \<open>
  \<open>Lattice::join\<close> of MLIR replaces the value by its join with another and reports a change. An operand of
  rank 0 is first joined with its entry state; a result without information gets its entry state.
\<close>

definition setToEntryState :: "nat \<times> value_origin \<Rightarrow> axis_info \<Rightarrow> axis_info option" where
  "setToEntryState v old = do {
     e \<leftarrow> getPessimisticValueState (fst v) (snd v);
     join old e
   }"

definition entry_operand :: "(nat \<times> value_origin) \<times> axis_info \<Rightarrow> axis_info option" where
  "entry_operand p = (if getRank (snd p) = 0 then setToEntryState (fst p) (snd p) else Some (snd p))"

definition visitOperation ::
  "axis_op \<Rightarrow> axis_hints \<Rightarrow> ((nat \<times> value_origin) \<times> axis_info) list \<Rightarrow> ((nat \<times> value_origin) \<times> axis_info) list \<Rightarrow>
   (axis_info list \<times> axis_info list) option" where
  "visitOperation op hints operands results = do {
     ops \<leftarrow> those (map entry_operand operands);
     curr \<leftarrow> apply_visitor op ops;
     rs \<leftarrow> (if getRank curr = 0 then those (map (\<lambda>(v, old). setToEntryState v old) results)
           else do {
             new \<leftarrow> apply_hints hints curr;
             those (map (\<lambda>(_, old). join old new) results)
           });
     Some (ops, rs)
   }"

definition visitForOpInductionVar :: "axis_info \<Rightarrow> axis_info \<Rightarrow> axis_info \<Rightarrow> axis_info option" where
  "visitForOpInductionVar lb step arg =
     (if getRank lb = 0 \<or> getRank step = 0 then None
      else do {
        i \<leftarrow> mkAxisInfo [1] [gcd2 (getDivisibility lb 0) (getDivisibility step 0)] [1] None;
        join arg i
      })"

definition visitWarpSpecializeExplicitCaptures :: "axis_info list \<Rightarrow> axis_info list \<Rightarrow> axis_info list option" where
  "visitWarpSpecializeExplicitCaptures captures args =
     those (map (\<lambda>(c, a). join a c) (zip captures args))"

section \<open>The module level analysis\<close>

text \<open>
  Values are numbered. \<open>initialize\<close> joins the fixed point of the solver into the map of the function;
  \<open>update\<close> lowers the attributes of a callee's arguments to what a call site passes.
\<close>

type_synonym axis_map = "(nat \<times> axis_info) list"

definition updateAxisInfoMap :: "(nat \<Rightarrow> axis_info) \<Rightarrow> nat \<Rightarrow> axis_map \<Rightarrow> axis_map option" where
  "updateAxisInfoMap lattice v m = do {
     cur \<leftarrow> (case map_of m v of Some old \<Rightarrow> join (lattice v) old | None \<Rightarrow> Some (lattice v));
     Some (AList.update v cur m)
   }"

definition initialize_map :: "(nat \<Rightarrow> axis_info) \<Rightarrow> nat list \<Rightarrow> axis_map \<Rightarrow> axis_map option" where
  "initialize_map lattice vs m = fold (\<lambda>v acc. do {m' \<leftarrow> acc; updateAxisInfoMap lattice v m'}) vs (Some m)"

record arg_attrs =
  attrContiguity :: "int option"
  attrDivisibility :: "int option"
  attrConstancy :: "int option"

definition setAttr :: "int \<Rightarrow> int option \<Rightarrow> int option" where
  "setAttr prevValue cur = Some (gcd2 prevValue (case cur of Some c \<Rightarrow> c | None \<Rightarrow> kMaxDivisor))"

definition update_arg :: "axis_info \<Rightarrow> arg_attrs \<Rightarrow> arg_attrs option" where
  "update_arg i a =
     (if getRank i = 1
      then Some \<lparr>attrContiguity = setAttr (getContiguity i 0) (attrContiguity a),
                 attrDivisibility = setAttr (getDivisibility i 0) (attrDivisibility a),
                 attrConstancy = setAttr (getConstancy i 0) (attrConstancy a)\<rparr>
      else None)"

definition update_call :: "axis_map \<Rightarrow> nat list \<Rightarrow> arg_attrs list \<Rightarrow> arg_attrs list option" where
  "update_call m operands args =
     (if length args < length operands then None
      else do {
        new \<leftarrow> those (map (\<lambda>(v, a). update_arg (case map_of m v of Some i \<Rightarrow> i | None \<Rightarrow> emptyInfo) a) (zip operands args));
        Some (new @ drop (length operands) args)
      })"

subsection \<open>What the lowering asks for\<close>

definition u32 :: "int \<Rightarrow> int" where
  "u32 x = x mod 2 ^ 32"

text \<open>
  The order and the contiguity per thread come from the linear encoding of the tensor type; \<open>isPtr\<close> tells
  a tensor of pointers. A scalar, or a value the analysis does not know, has alignment 1.
\<close>

definition getAlignment :: "axis_info option \<Rightarrow> nat list \<Rightarrow> bool \<Rightarrow> nat \<Rightarrow> int" where
  "getAlignment info order isPtr elementBitWidth =
     (case info of
        None \<Rightarrow> 1
      | Some i \<Rightarrow>
          let divi = getDivisibility i (order ! 0);
              elemNumBytes = max (int (elementBitWidth div 8)) 1;
              maxMultiple = (if isPtr then max (divi sdiv elemNumBytes) 1 else divi);
              maxContig = getContiguity i (order ! 0)
          in u32 (min maxMultiple maxContig))"

definition getContiguityOf :: "axis_info option \<Rightarrow> nat list \<Rightarrow> int list \<Rightarrow> bool \<Rightarrow> nat \<Rightarrow> int option" where
  "getContiguityOf info order contigPerThread isPtr elementBitWidth =
     (if length contigPerThread \<le> order ! 0 then None
      else Some (min (getAlignment info order isPtr elementBitWidth) (u32 (contigPerThread ! (order ! 0)))))"

definition getMaskAlignment :: "axis_info option \<Rightarrow> nat list \<Rightarrow> int" where
  "getMaskAlignment info maskOrder =
     (case info of None \<Rightarrow> 1 | Some i \<Rightarrow> max (u32 (getConstancy i (maskOrder ! 0))) 1)"

end
