(* ===== verification/AxisLemmas.thy ===== *)
theory AxisLemmas
  imports AxisInfo
begin

text \<open>
  What an info of the axis analysis claims of the values of a tensor, dimension by dimension, and the
  lemmas about the lattice and its transfer functions: divisors are powers of two, joins lose
  information only, the visitors of addition, subtraction and multiplication are sound, and every visitor
  returns well-formed infos. Tensor values are unbounded integers here: the analysis ignores the
  wrap-around of the program's own arithmetic.
\<close>

section \<open>Powers of two\<close>

text \<open>The entries of an info are powers of two no larger than \<open>kMaxDivisor\<close>.\<close>

definition divisor :: "int \<Rightarrow> bool" where
  "divisor x \<longleftrightarrow> (\<exists>k \<le> 62. x = 2 ^ k)"

lemma kMax: "kMaxDivisor = 2 ^ 62"
  by (simp add: kMaxDivisor_def highestPowOf2Divisor_def)

lemma divisor_pow [simp]: "k \<le> 62 \<Longrightarrow> divisor (2 ^ k)"
  by (auto simp: divisor_def)

lemma divisor_1 [simp]: "divisor 1"
  using divisor_pow [of 0] by simp

lemma divisor_kMax [simp]: "divisor kMaxDivisor"
  unfolding kMax by (rule divisor_pow) simp

lemma divisor_kMax_num [simp]: "divisor 4611686018427387904"
  using divisor_kMax by (simp add: kMax)

lemma divisor_pos: "divisor x \<Longrightarrow> 0 < x"
  by (auto simp: divisor_def)

lemma gcd_pow2: "gcd (2 ^ a) (2 ^ b :: int) = 2 ^ min a b"
proof (cases "a \<le> b")
  case True
  then have "(2 :: int) ^ a dvd 2 ^ b" by (simp add: le_imp_power_dvd)
  then show ?thesis using True by (simp add: gcd_proj1_iff [THEN iffD2] min_absorb1)
next
  case False
  then have "(2 :: int) ^ b dvd 2 ^ a" by (simp add: le_imp_power_dvd)
  then show ?thesis using False by (simp add: gcd_proj2_iff [THEN iffD2] min_absorb2)
qed

lemma divisor_gcd [simp]: "divisor a \<Longrightarrow> divisor b \<Longrightarrow> divisor (gcd a b)"
  unfolding divisor_def by (metis gcd_pow2 min.coboundedI1)

lemma divisor_max [simp]: "divisor a \<Longrightarrow> divisor b \<Longrightarrow> divisor (max a b)"
  by (simp add: max_def)

lemma divisor_min [simp]: "divisor a \<Longrightarrow> divisor b \<Longrightarrow> divisor (min a b)"
  by (simp add: min_def)

lemma gcds_gcd: "0 < a \<Longrightarrow> 0 < b \<Longrightarrow> gcds a b cs = (case cs of [] \<Rightarrow> gcd a b | c # ds \<Rightarrow> gcds (gcd a b) c ds)"
  by (simp add: gcds.simps)

lemma gcds_divisor:
  assumes "divisor a" and "divisor b"
  shows "gcds a b [] = gcd a b" "divisor c \<Longrightarrow> gcds a b [c] = gcd (gcd a b) c"
    "divisor c \<Longrightarrow> divisor e \<Longrightarrow> gcds a b [c, e] = gcd (gcd (gcd a b) c) e"
  using assms by (simp_all add: gcds_gcd divisor_pos gcd_pos_int less_imp_neq [THEN not_sym])

lemma divisor_cases: "divisor a \<Longrightarrow> divisor b \<Longrightarrow> a dvd b \<or> b dvd a"
  by (auto simp: divisor_def dest: le_imp_power_dvd [of _ _ "2 :: int"]) (meson le_imp_power_dvd nat_le_linear)

lemma low_bit_dvd: "n \<noteq> 0 \<Longrightarrow> \<exists>k. n AND NOT (n - 1) = 2 ^ k \<and> 2 ^ k dvd (n::int)"
proof -
  assume n: "n \<noteq> 0"
  define k where "k = (LEAST i. bit n i)"
  have "\<exists>i. bit n i" using n by (metis bit_eqI bit_0_eq bot_apply bot_bool_def)
  then have k: "bit n k" "\<And>i. i < k \<Longrightarrow> \<not> bit n i" unfolding k_def using LeastI_ex not_less_Least by metis+
  have t: "take_bit k n = 0" by (rule bit_eqI) (use k in \<open>auto simp: bit_take_bit_iff\<close>)
  then have d: "2 ^ k dvd n" by (simp add: take_bit_eq_mod mod_0_imp_dvd)
  then obtain m where m: "n = 2 ^ k * m" by (auto simp: dvd_def)
  have o: "odd m" using k(1) m by (simp add: bit_iff_odd)
  have "n - 1 = 2 ^ k * (m - 1) + (2 ^ k - 1)" using m by (simp add: algebra_simps)
  then have b: "bit (n - 1) i = (if i < k then True else bit (m - 1) (i - k))" for i
  proof -
    have "n - 1 = push_bit k (m - 1) + mask k" using m by (simp add: algebra_simps push_bit_eq_mult mask_eq_exp_minus_1)
    also have "\<dots> = push_bit k (m - 1) OR mask k"
      by (rule disjunctive_add) (auto simp: bit_push_bit_iff bit_mask_iff)
    finally show ?thesis by (auto simp: bit_or_iff bit_push_bit_iff bit_mask_iff)
  qed
  have bn: "bit n i = (k \<le> i \<and> bit m (i - k))" for i using m by (simp add: bit_push_bit_iff flip: push_bit_eq_mult) (simp add: mult.commute push_bit_eq_mult [symmetric] bit_push_bit_iff)
  have bm: "bit (m - 1) j = (j \<noteq> 0 \<and> bit m j)" for j
  proof -
    obtain q where "m = 2 * q + 1" using o by (elim oddE)
    then show ?thesis by (cases j) (simp_all add: bit_Suc bit_0)
  qed
  have "n AND NOT (n - 1) = 2 ^ k"
    by (rule bit_eqI) (auto simp: bit_and_iff bit_not_iff b bn bm bit_exp_iff k(1) o bit_0)
  then show ?thesis using d by blast
qed

lemma highestPowOf2_divides:
  assumes "- (2 ^ 63) \<le> n" and "n < 2 ^ 63"
  shows "divisor (highestPowOf2Divisor 64 n)" "n \<noteq> - (2 ^ 63) \<Longrightarrow> highestPowOf2Divisor 64 n dvd n"
proof -
  consider "n = 0 \<or> n = - (2 ^ 63)" | "n \<noteq> 0" "n \<noteq> - (2 ^ 63)" by blast
  then have "divisor (highestPowOf2Divisor 64 n) \<and> (n \<noteq> - (2 ^ 63) \<longrightarrow> highestPowOf2Divisor 64 n dvd n)"
  proof cases
    case 2
    obtain k where k: "n AND NOT (n - 1) = 2 ^ k" "2 ^ k dvd n" using low_bit_dvd [OF 2(1)] by blast
    have "2 ^ k \<le> \<bar>n\<bar>" using dvd_imp_le_int [OF 2(1) k(2)] by simp
    then have "(2::int) ^ k < 2 ^ 63" using assms 2(2) by linarith
    then have "k < 63" by (rule power_less_imp_less_exp [rotated]) simp
    then have "k \<le> 62" by simp
    then show ?thesis using k 2 by (simp add: highestPowOf2Divisor_def)
  qed (auto simp: highestPowOf2Divisor_def)
  then show "divisor (highestPowOf2Divisor 64 n)" "n \<noteq> - (2 ^ 63) \<Longrightarrow> highestPowOf2Divisor 64 n dvd n" by auto
qed

text \<open>The saturating product of divisors never overflows and divides the exact product.\<close>

lemma multiplyDivisor_pow:
  assumes "a \<le> 62" and "b \<le> 62"
  shows "multiplyDivisor (2 ^ a) (2 ^ b) = Some (2 ^ min (a + b) 62)"
proof -
  have q: "(2::int) ^ 62 sdiv 2 ^ b = 2 ^ (62 - b)"
    using assms(2) by (simp add: signed_divide_int_def power_diff)
  show ?thesis
  proof (cases "a + b \<le> 62")
    case True
    then have "(2::int) ^ a \<le> 2 ^ (62 - b)" by (intro power_increasing) auto
    moreover have "(2::int) ^ (a + b) < 2 ^ 63" using True by (intro power_strict_increasing) auto
    then have "signed_take_bit 63 ((2::int) ^ (a + b)) = 2 ^ (a + b)"
      by (intro signed_take_bit_int_eq_self) (auto intro: order_trans [of _ 0])
    ultimately show ?thesis using True q by (simp add: multiplyDivisor_def kMax wrap64_def power_add [symmetric] min_absorb1)
  next
    case False
    then have "62 - b < a" using assms by linarith
    then have "(2::int) ^ (62 - b) < 2 ^ a" by (intro power_strict_increasing) auto
    then show ?thesis using False q by (simp add: multiplyDivisor_def kMax min_absorb2)
  qed
qed

lemma multiplyDivisor_divisor:
  assumes "divisor a" and "divisor b"
  shows "\<exists>m. multiplyDivisor a b = Some m \<and> divisor m \<and> m dvd a * b"
proof -
  obtain i j where ij: "i \<le> 62" "j \<le> 62" "a = 2 ^ i" "b = 2 ^ j" using assms by (auto simp: divisor_def)
  have "(2::int) ^ min (i + j) 62 dvd 2 ^ (i + j)" by (intro le_imp_power_dvd) simp
  then show ?thesis using multiplyDivisor_pow [OF ij(1,2)] ij by (simp add: power_add)
qed


section \<open>What an info says\<close>

text \<open>
  The values along one dimension, as a function of the index: they fall into groups of \<open>c\<close> contiguous
  integers whose first elements are divisible by \<open>d\<close>, and into groups of \<open>k\<close> equal integers. A value
  tensor of a shape is a function of its index lists; every line of it has to be described.
\<close>

definition head :: "int \<Rightarrow> nat \<Rightarrow> nat" where
  "head c i = i - i mod nat c"

definition runs :: "int \<Rightarrow> nat \<Rightarrow> (nat \<Rightarrow> int) \<Rightarrow> bool" where
  "runs c n f \<longleftrightarrow> (\<forall>i < n. f i = f (head c i) + int (i mod nat c))"

definition heads_div :: "int \<Rightarrow> int \<Rightarrow> nat \<Rightarrow> (nat \<Rightarrow> int) \<Rightarrow> bool" where
  "heads_div c d n f \<longleftrightarrow> (\<forall>i < n. d dvd f (head c i))"

definition repeats :: "int \<Rightarrow> nat \<Rightarrow> (nat \<Rightarrow> int) \<Rightarrow> bool" where
  "repeats k n f \<longleftrightarrow> (\<forall>i < n. f i = f (head k i))"

definition line_ok :: "axis_info \<Rightarrow> nat \<Rightarrow> nat \<Rightarrow> (nat \<Rightarrow> int) \<Rightarrow> bool" where
  "line_ok i d n f \<longleftrightarrow> runs (getContiguity i d) n f \<and> heads_div (getContiguity i d) (getDivisibility i d) n f \<and>
     repeats (getConstancy i d) n f \<and> (\<forall>v. constantValue i = Some v \<longrightarrow> (\<forall>j < n. f j = v))"

definition in_shape :: "nat list \<Rightarrow> nat list \<Rightarrow> bool" where
  "in_shape sh ix \<longleftrightarrow> list_all2 (<) ix sh"

definition describes :: "axis_info \<Rightarrow> nat list \<Rightarrow> (nat list \<Rightarrow> int) \<Rightarrow> bool" where
  "describes i sh T \<longleftrightarrow> getRank i = length sh \<and>
     (\<forall>ix d. in_shape sh ix \<longrightarrow> d < length sh \<longrightarrow> line_ok i d (sh ! d) (\<lambda>j. T (ix[d := j])))"

text \<open>A well-formed info: as many divisibilities and constancies as contiguities, all of them divisors.\<close>

definition wf_info :: "axis_info \<Rightarrow> bool" where
  "wf_info i \<longleftrightarrow> length (divisibility i) = getRank i \<and> length (constancy i) = getRank i \<and>
     list_all divisor (contiguity i) \<and> list_all divisor (divisibility i) \<and> list_all divisor (constancy i) \<and>
     (\<forall>v. constantValue i = Some v \<longrightarrow> - (2 ^ 63) \<le> v \<and> v < 2 ^ 63)"

lemma wf_infoD:
  assumes "wf_info i" and "d < getRank i"
  shows "divisor (getContiguity i d)" "divisor (getDivisibility i d)" "divisor (getConstancy i d)"
  using assms by (simp_all add: wf_info_def list_all_length getRank_def getContiguity_def getDivisibility_def getConstancy_def)

lemma head_le: "head c i \<le> i"
  by (simp add: head_def)

lemma head_mod: "head c i mod nat c = 0"
  by (simp add: head_def minus_mod_eq_mult_div)

lemma head_1 [simp]: "head 1 i = i"
  by (simp add: head_def)

lemma head_div: "head c i = i div nat c * nat c"
  by (simp add: head_def minus_mod_eq_div_mult)

lemma head_split: "head c i + i mod nat c = i"
  by (simp add: head_def)

lemma head_dvd:
  assumes "c' dvd c" and "0 < c" and "0 < c'"
  shows "head c (head c' i) = head c i" "i mod nat c = head c' i mod nat c + i mod nat c'"
    "nat c' dvd head c' i mod nat c" "head c' (head c i) = head c i"
proof -
  obtain m where m: "c = c' * m" "0 < m" using assms by (auto simp: dvd_def zero_less_mult_iff)
  have n: "nat c = nat c' * nat m" using m assms by (simp add: nat_mult_distrib)
  have p: "0 < nat c'" "0 < nat m" using assms m by simp_all
  show h: "head c (head c' i) = head c i"
    using p by (simp add: head_div n div_mult2_eq)
  show "i mod nat c = head c' i mod nat c + i mod nat c'"
    using h head_split [of c i] head_split [of c "head c' i"] head_split [of c' i] by linarith
  have "nat c' dvd head c' i" by (simp add: head_div)
  then show "nat c' dvd head c' i mod nat c" by (simp add: dvd_mod n)
  have "nat c' dvd head c i" by (simp add: head_div n)
  then show "head c' (head c i) = head c i" by (simp add: head_def)
qed

lemma runs_weaken:
  assumes "runs c n f" and "c' dvd c" and "0 < c" and "0 < c'"
  shows "runs c' n f"
  unfolding runs_def
proof (intro allI impI)
  fix i assume i: "i < n"
  then have "head c' i < n" using head_le [of c' i] by simp
  then have "f (head c' i) = f (head c i) + int (head c' i mod nat c)" "f i = f (head c i) + int (i mod nat c)"
    using assms(1) i head_dvd(1) [OF assms(2-4)] by (auto simp: runs_def)
  then show "f i = f (head c' i) + int (i mod nat c')" using head_dvd(2) [OF assms(2-4), of i] by simp
qed

lemma repeats_weaken:
  assumes "repeats k n f" and "k' dvd k" and "0 < k" and "0 < k'"
  shows "repeats k' n f"
  unfolding repeats_def
proof (intro allI impI)
  fix i assume "i < n"
  moreover from this have "head k' i < n" using head_le [of k' i] by simp
  ultimately have "f i = f (head k i)" "f (head k' i) = f (head k (head k' i))" using assms(1) unfolding repeats_def by blast+
  then show "f i = f (head k' i)" using head_dvd(1) [OF assms(2-4)] by simp
qed

text \<open>The first elements of smaller groups: a multiple of the group size away from those of the larger.\<close>

lemma heads_weaken:
  assumes r: "runs c n f" and h: "heads_div c d n f" and c: "c' dvd c" "0 < c" "0 < c'" and d: "d' dvd d" "d' dvd c'"
  shows "heads_div c' d' n f"
  unfolding heads_div_def
proof (intro allI impI)
  fix i assume i: "i < n"
  have l: "head c' i < n" using i head_le [of c' i] by simp
  then have "f (head c' i) = f (head c i) + int (head c' i mod nat c)"
    using r head_dvd(1) [OF c] by (auto simp: runs_def)
  moreover have "d' dvd f (head c i)" using dvd_trans [OF d(1)] h i by (simp add: heads_div_def)
  moreover have "c' dvd int (head c' i mod nat c)" using head_dvd(3) [OF c, of i] c(3) by (metis int_dvd_int_iff nat_0_le order_less_imp_le)
  then have "d' dvd int (head c' i mod nat c)" using d(2) dvd_trans by blast
  ultimately show "d' dvd f (head c' i)" by simp
qed

lemma heads_weaken_div: "heads_div c d n f \<Longrightarrow> d' dvd d \<Longrightarrow> heads_div c d' n f"
  unfolding heads_div_def by (blast intro: dvd_trans)

section \<open>Join\<close>

lemma join_line:
  assumes i: "divisor cl" "divisor cr" "divisor dl" "divisor dr" and k: "cl \<noteq> kMaxDivisor" "runs cl n f" "heads_div cl dl n f"
  shows "runs (gcd cl cr) n f"
    "heads_div (gcd cl cr) (if cl = cr \<or> cl = kMaxDivisor \<or> cr = kMaxDivisor then gcd dl dr
       else gcd (gcd (gcd dl dr) cl) cr) n f"
proof -
  have p: "0 < cl" "0 < gcd cl cr" using i divisor_pos by (auto simp: gcd_pos_int)
  show "runs (gcd cl cr) n f" by (rule runs_weaken [OF k(2) _ p]) simp
  show "heads_div (gcd cl cr) (if cl = cr \<or> cl = kMaxDivisor \<or> cr = kMaxDivisor then gcd dl dr
       else gcd (gcd (gcd dl dr) cl) cr) n f"
  proof (cases "cl = cr \<or> cr = kMaxDivisor")
    case True
    have "gcd cl cr = cl"
    proof -
      obtain a where a: "a \<le> 62" "cl = 2 ^ a" using i(1) by (auto simp: divisor_def)
      show ?thesis using True
      proof
        assume "cr = kMaxDivisor"
        then show ?thesis using a gcd_pow2 [of a 62] by (simp add: kMax min_absorb1)
      qed (use p in simp)
    qed
    then show ?thesis using True heads_weaken_div [OF k(3), of "gcd dl dr"] by auto
  next
    case False
    have "gcd (gcd (gcd dl dr) cl) cr dvd gcd cl cr" by (meson dvd_trans gcd_dvd1 gcd_dvd2 gcd_greatest)
    moreover have "gcd (gcd (gcd dl dr) cl) cr dvd dl" by (meson dvd_trans gcd_dvd1)
    ultimately show ?thesis using False k(1) heads_weaken [OF k(2,3) _ p] by simp
  qed
qed

lemma getRank_nth: "wf_info i \<Longrightarrow> getRank i = length (contiguity i) \<and> length (divisibility i) = length (contiguity i) \<and>
    length (constancy i) = length (contiguity i)"
  by (simp add: wf_info_def getRank_def)

lemma mkAxisInfo_nth:
  "mkAxisInfo (map c [0..<n]) (map d [0..<n]) (map k [0..<n]) v = Some \<lparr>contiguity = map c [0..<n], divisibility = map d [0..<n],
     constancy = map k [0..<n], constantValue = v\<rparr>"
  by (simp add: mkAxisInfo_def)

lemma wf_mk:
  assumes "\<And>j. j < n \<Longrightarrow> divisor (c j)" "\<And>j. j < n \<Longrightarrow> divisor (d j)" "\<And>j. j < n \<Longrightarrow> divisor (k j)"
    and "\<And>v. w = Some v \<Longrightarrow> - (2 ^ 63) \<le> v \<and> v < 2 ^ 63"
  shows "wf_info \<lparr>contiguity = map c [0..<n], divisibility = map d [0..<n], constancy = map k [0..<n], constantValue = w\<rparr>"
  using assms by (auto simp: wf_info_def getRank_def list_all_iff)

lemma line_mk:
  "d < n \<Longrightarrow> line_ok \<lparr>contiguity = map c [0..<n], divisibility = map e [0..<n], constancy = map k [0..<n], constantValue = w\<rparr> d m f \<longleftrightarrow>
     runs (c d) m f \<and> heads_div (c d) (e d) m f \<and> repeats (k d) m f \<and> (\<forall>v. w = Some v \<longrightarrow> (\<forall>j < m. f j = v))"
  by (simp add: line_ok_def getContiguity_def getDivisibility_def getConstancy_def)

lemma getDivisibilityFromContiguity_divisor:
  assumes "wf_info l" "wf_info r" "d < getRank l" "d < getRank r"
  shows "divisor (getDivisibilityFromContiguity l r d)"
    "getDivisibilityFromContiguity l r d = (if getContiguity l d = getContiguity r d \<or> getContiguity l d = kMaxDivisor \<or> getContiguity r d = kMaxDivisor
       then gcd (getDivisibility l d) (getDivisibility r d)
       else gcd (gcd (gcd (getDivisibility l d) (getDivisibility r d)) (getContiguity l d)) (getContiguity r d))"
  using wf_infoD [OF assms(1,3)] wf_infoD [OF assms(2,4)]
  by (simp_all add: getDivisibilityFromContiguity_def gcds_divisor)

lemma join_total:
  assumes w: "wf_info l" "wf_info r" and n: "getRank l = getRank r" "getRank l \<noteq> 0"
  shows "join l r = Some \<lparr>
      contiguity = map (\<lambda>d. gcd (getContiguity l d) (getContiguity r d)) [0..<getRank l],
      divisibility = map (getDivisibilityFromContiguity l r) [0..<getRank l],
      constancy = map (\<lambda>d. gcd (getConstancy l d) (getConstancy r d)) [0..<getRank l],
      constantValue = both_constant l r\<rparr>"
proof -
  have "map (\<lambda>d. gcd2 (getContiguity l d) (getContiguity r d)) [0..<getRank l] = map (\<lambda>d. gcd (getContiguity l d) (getContiguity r d)) [0..<getRank l]"
    "map (\<lambda>d. gcd2 (getConstancy l d) (getConstancy r d)) [0..<getRank l] = map (\<lambda>d. gcd (getConstancy l d) (getConstancy r d)) [0..<getRank l]"
    using wf_infoD [OF w(1)] wf_infoD [OF w(2)] n(1) by (simp_all add: gcds_divisor)
  then show ?thesis using n by (simp add: join_def mkAxisInfo_nth)
qed

lemma describesD: "describes i sh T \<Longrightarrow> in_shape sh ix \<Longrightarrow> d < length sh \<Longrightarrow> line_ok i d (sh ! d) (\<lambda>j. T (ix[d := j]))"
  by (simp add: describes_def)

lemma join_wf:
  assumes w: "wf_info l" "wf_info r" and n: "getRank l = getRank r" "getRank l \<noteq> 0"
  shows "\<exists>j. join l r = Some j \<and> wf_info j"
proof -
  have "wf_info \<lparr>contiguity = map (\<lambda>d. gcd (getContiguity l d) (getContiguity r d)) [0..<getRank l],
      divisibility = map (getDivisibilityFromContiguity l r) [0..<getRank l],
      constancy = map (\<lambda>d. gcd (getConstancy l d) (getConstancy r d)) [0..<getRank l],
      constantValue = both_constant l r\<rparr>"
    using wf_infoD [OF w(1)] wf_infoD [OF w(2)] n(1) w getDivisibilityFromContiguity_divisor [OF w]
    by (intro wf_mk) (auto simp: both_constant_def wf_info_def split: if_splits)
  then show ?thesis using join_total [OF w n] by blast
qed

lemma join_comm:
  assumes w: "wf_info l" "wf_info r" and n: "getRank l = getRank r" "getRank l \<noteq> 0"
  shows "join l r = join r l"
proof -
  have "both_constant l r = both_constant r l" by (auto simp: both_constant_def)
  moreover have "getDivisibilityFromContiguity l r d = getDivisibilityFromContiguity r l d" if "d < getRank r" for d
    using getDivisibilityFromContiguity_divisor(2) [OF w, of d] getDivisibilityFromContiguity_divisor(2) [OF w(2,1), of d] that n(1)
    by (simp add: gcd.commute gcd.left_commute gcd.assoc disj_commute)
  ultimately show ?thesis using join_total [OF w n] join_total [OF w(2,1)] n by (simp add: gcd.commute)
qed

text \<open>The join of two infos of the same rank says nothing that is false of a value one of them describes.\<close>

lemma join_sound:
  assumes w: "wf_info l" "wf_info r" and n: "getRank l = getRank r" "getRank l \<noteq> 0"
    and k: "\<And>d. d < getRank l \<Longrightarrow> getContiguity l d \<noteq> kMaxDivisor" and T: "describes l sh T"
  shows "\<exists>j. join l r = Some j \<and> wf_info j \<and> describes j sh T"
proof -
  let ?j = "\<lparr>contiguity = map (\<lambda>d. gcd (getContiguity l d) (getContiguity r d)) [0..<getRank l],
      divisibility = map (getDivisibilityFromContiguity l r) [0..<getRank l],
      constancy = map (\<lambda>d. gcd (getConstancy l d) (getConstancy r d)) [0..<getRank l],
      constantValue = both_constant l r\<rparr>"
  have "wf_info ?j"
    using wf_infoD [OF w(1)] wf_infoD [OF w(2)] n(1) w getDivisibilityFromContiguity_divisor [OF w]
    by (intro wf_mk) (auto simp: both_constant_def wf_info_def split: if_splits)
  moreover have "describes ?j sh T"
    unfolding describes_def
  proof (intro conjI allI impI)
    show "getRank ?j = length sh" using T by (simp add: describes_def getRank_def)
  next
    fix ix d assume ix: "in_shape sh ix" and d: "d < length sh"
    have dl: "d < getRank l" "d < getRank r" using d T n(1) by (simp_all add: describes_def)
    have ok: "line_ok l d (sh ! d) (\<lambda>j. T (ix[d := j]))" by (rule describesD [OF T ix d])
    note wl = wf_infoD [OF w(1) dl(1)] and wr = wf_infoD [OF w(2) dl(2)]
    have "runs (gcd (getContiguity l d) (getContiguity r d)) (sh ! d) (\<lambda>j. T (ix[d := j]))"
      "heads_div (gcd (getContiguity l d) (getContiguity r d)) (getDivisibilityFromContiguity l r d) (sh ! d) (\<lambda>j. T (ix[d := j]))"
      using join_line [OF wl(1) wr(1) wl(2) wr(2) k [OF dl(1)]] ok getDivisibilityFromContiguity_divisor(2) [OF w dl]
      by (simp_all add: line_ok_def)
    moreover have "repeats (gcd (getConstancy l d) (getConstancy r d)) (sh ! d) (\<lambda>j. T (ix[d := j]))"
    proof (rule repeats_weaken [of "getConstancy l d"])
      show "repeats (getConstancy l d) (sh ! d) (\<lambda>j. T (ix[d := j]))" using ok by (simp add: line_ok_def)
    qed (use divisor_pos [OF wl(3)] in \<open>simp_all add: gcd_pos_int\<close>)
    moreover have "\<forall>v. both_constant l r = Some v \<longrightarrow> (\<forall>j < sh ! d. T (ix[d := j]) = v)"
    proof -
      have "\<forall>v. constantValue l = Some v \<longrightarrow> (\<forall>j < sh ! d. T (ix[d := j]) = v)" using ok by (simp add: line_ok_def)
      then show ?thesis by (simp add: both_constant_def)
    qed
    ultimately show "line_ok ?j d (sh ! d) (\<lambda>j. T (ix[d := j]))" using dl(1) by (simp add: line_mk)
  qed
  ultimately show ?thesis using join_total [OF w n] by blast
qed

section \<open>Binary visitors\<close>

lemma those_map_nth: "(\<And>d. d < n \<Longrightarrow> f d = Some (g d)) \<Longrightarrow> those (map f [0..<n]) = Some (map g [0..<n])"
proof -
  assume "\<And>d. d < n \<Longrightarrow> f d = Some (g d)"
  then have "map f [0..<n] = map Some (map g [0..<n])" by simp
  moreover have "those (map Some xs) = Some xs" for xs :: "'b list" by (induction xs) auto
  ultimately show ?thesis by (simp del: map_map)
qed

text \<open>What a visitor of a pointwise operation needs for one dimension.\<close>

definition sound_dim :: "(int \<Rightarrow> int \<Rightarrow> int) \<Rightarrow> axis_info \<Rightarrow> axis_info \<Rightarrow> int \<Rightarrow> int \<Rightarrow> int \<Rightarrow> nat \<Rightarrow> bool" where
  "sound_dim f l r c e k d \<longleftrightarrow> (\<forall>n a b. line_ok l d n a \<longrightarrow> line_ok r d n b \<longrightarrow>
     runs c n (\<lambda>j. f (a j) (b j)) \<and> heads_div c e n (\<lambda>j. f (a j) (b j)) \<and> repeats k n (\<lambda>j. f (a j) (b j)))"

lemma visitBinary_sound:
  assumes w: "wf_info l" "wf_info r" and n: "getRank l = getRank r"
    and cv: "cv l r = Some None"
    and ds: "\<And>d. d < getRank l \<Longrightarrow> divis l r d = Some (e d)"
    and dv: "\<And>d. d < getRank l \<Longrightarrow> divisor (contig l r d) \<and> divisor (e d) \<and> divisor (const l r d)"
    and s: "\<And>d. d < getRank l \<Longrightarrow> sound_dim f l r (contig l r d) (e d) (const l r d) d"
    and T: "describes l sh A" "describes r sh B"
  shows "\<exists>i. visitBinary cv contig divis const l r = Some i \<and> wf_info i \<and> describes i sh (\<lambda>ix. f (A ix) (B ix))"
proof -
  let ?i = "\<lparr>contiguity = map (contig l r) [0..<getRank l], divisibility = map e [0..<getRank l],
      constancy = map (const l r) [0..<getRank l], constantValue = None\<rparr>"
  have "visitBinary cv contig divis const l r = Some ?i"
    using cv n those_map_nth [of "getRank l" "divis l r" e] ds by (simp add: visitBinary_def Let_def mkAxisInfo_nth)
  moreover have "wf_info ?i" using dv by (intro wf_mk) auto
  moreover have "describes ?i sh (\<lambda>ix. f (A ix) (B ix))"
    unfolding describes_def
  proof (intro conjI allI impI)
    show "getRank ?i = length sh" using T(1) by (simp add: describes_def getRank_def)
  next
    fix ix d assume ix: "in_shape sh ix" and d: "d < length sh"
    have "d < getRank l" using d T(1) by (simp add: describes_def)
    then show "line_ok ?i d (sh ! d) (\<lambda>j. f (A (ix[d := j])) (B (ix[d := j])))"
      using s describesD [OF T(1) ix d] describesD [OF T(2) ix d] by (simp add: line_mk sound_dim_def)
  qed
  ultimately show ?thesis by blast
qed

text \<open>The case of two known constants, folded.\<close>

lemma visitBinary_constant:
  assumes w: "wf_info l" "wf_info r" and n: "getRank l = getRank r"
    and c: "constantValue l = Some a" "constantValue r = Some b"
    and cv: "cv l r = Some (Some (f a b))" and v: "- (2 ^ 63) < f a b" "f a b < 2 ^ 63"
    and T: "describes l sh A" "describes r sh B"
  shows "\<exists>i. visitBinary cv contig divis const l r = Some i \<and> wf_info i \<and> describes i sh (\<lambda>ix. f (A ix) (B ix))"
proof -
  let ?i = "\<lparr>contiguity = map (\<lambda>_. 1) [0..<getRank l], divisibility = map (\<lambda>_. highestPowOf2Divisor 64 (f a b)) [0..<getRank l],
      constancy = map (\<lambda>d. max (getConstancy l d) (getConstancy r d)) [0..<getRank l], constantValue = Some (f a b)\<rparr>"
  have "visitBinary cv contig divis const l r = Some ?i"
    using cv n by (simp add: visitBinary_def Let_def mkAxisInfo_def map_replicate_const)
  moreover have "wf_info ?i"
    using wf_infoD [OF w(1)] wf_infoD [OF w(2)] n highestPowOf2_divides [of "f a b"] v by (intro wf_mk) auto
  moreover have "describes ?i sh (\<lambda>ix. f (A ix) (B ix))"
    unfolding describes_def
  proof (intro conjI allI impI)
    show "getRank ?i = length sh" using T(1) by (simp add: describes_def getRank_def)
  next
    fix ix d assume ix: "in_shape sh ix" and d: "d < length sh"
    have "f (A (ix[d := j])) (B (ix[d := j])) = f a b" if "j < sh ! d" for j
      using describesD [OF T(1) ix d] describesD [OF T(2) ix d] that c by (simp add: line_ok_def)
    moreover have "head c' j < sh ! d" if "j < sh ! d" for c' j using that head_le [of c' j] by simp
    moreover have "highestPowOf2Divisor 64 (f a b) dvd f a b" using highestPowOf2_divides(2) [of "f a b"] v by simp
    moreover have "d < getRank l" using d T(1) by (simp add: describes_def)
    ultimately show "line_ok ?i d (sh ! d) (\<lambda>j. f (A (ix[d := j])) (B (ix[d := j])))"
      by (simp add: line_mk runs_def heads_div_def repeats_def)
  qed
  ultimately show ?thesis by blast
qed

section \<open>Addition and subtraction\<close>

lemma runs_1 [simp]: "runs 1 n f"
  by (simp add: runs_def)

lemma runs_max: "runs c n f \<Longrightarrow> runs c' n f \<Longrightarrow> runs (max c c') n f"
  by (simp add: max_def)

text \<open>A contiguous value and one that repeats, on groups of a common size.\<close>

lemma runs_plus:
  assumes "runs c n a" and "repeats k n b" and "g dvd c" "g dvd k" "0 < c" "0 < k" "0 < g" and s: "s = 1 \<or> s = - 1"
  shows "runs g n (\<lambda>j. a j + s * b j)" "runs g n (\<lambda>j. b j + a j)"
  using runs_weaken [OF assms(1,3,5,7)] repeats_weaken [OF assms(2,4,6,7)]
  unfolding runs_def repeats_def by (simp_all; metis add.commute add.left_commute)+

lemma repeats_2:
  assumes "repeats k n a" "repeats k' n b" "0 < k" "0 < k'"
  shows "repeats (gcd k k') n (\<lambda>j. f (a j) (b j))"
proof -
  have "0 < gcd k k'" using assms by (simp add: gcd_pos_int)
  then have "repeats (gcd k k') n a" "repeats (gcd k k') n b"
    using assms by (auto intro: repeats_weaken)
  then show ?thesis by (auto simp: repeats_def)
qed

lemma heads_div_coarser:
  assumes "heads_div c d n f" and "c dvd c'" and "0 < c" "0 < c'"
  shows "heads_div c' d n f"
  unfolding heads_div_def
proof (intro allI impI)
  fix i assume "i < n"
  then have "head c' i < n" using head_le [of c' i] by simp
  then show "d dvd f (head c' i)"
    using assms(1) head_dvd(4) [OF assms(2,4,3), of i] by (fastforce simp: heads_div_def)
qed

definition addsub_value :: "addsub \<Rightarrow> int \<Rightarrow> int \<Rightarrow> int" where
  "addsub_value k a b = (if k = SubI then a - b else a + b)"

text \<open>Where the groups of the result are unions of the groups of both operands.\<close>

definition aligned :: "addsub \<Rightarrow> axis_info \<Rightarrow> axis_info \<Rightarrow> nat \<Rightarrow> bool" where
  "aligned k l r d \<longleftrightarrow> getContiguity l d dvd addsub_contiguity k l r d \<and> getContiguity r d dvd addsub_contiguity k l r d"

lemma addsub_dim:
  assumes w: "wf_info l" "wf_info r" and d: "d < getRank l" "d < getRank r" and k: "k = AddI \<or> k = SubI"
    and al: "aligned k l r d"
  shows "divisor (addsub_contiguity k l r d)" "divisor (gcd_constancy l r d)"
    "addsub_divisibility k l r d = Some (gcd (getDivisibility l d) (getDivisibility r d))"
    "sound_dim (addsub_value k) l r (addsub_contiguity k l r d) (gcd (getDivisibility l d) (getDivisibility r d)) (gcd_constancy l r d) d"
proof -
  note L = wf_infoD [OF w(1) d(1)] and R = wf_infoD [OF w(2) d(2)]
  note P = L [THEN divisor_pos] R [THEN divisor_pos]
  let ?c1 = "gcd (getConstancy l d) (getContiguity r d)" and ?c2 = "gcd (getContiguity l d) (getConstancy r d)"
  have c: "addsub_contiguity k l r d = (if k = SubI then ?c2 else max ?c1 ?c2)"
    and kc: "gcd_constancy l r d = gcd (getConstancy l d) (getConstancy r d)"
    using L R by (simp_all add: addsub_contiguity_def gcd_constancy_def gcds_divisor)
  show dc: "divisor (addsub_contiguity k l r d)" "divisor (gcd_constancy l r d)" using L R by (simp_all add: c kc)
  show "addsub_divisibility k l r d = Some (gcd (getDivisibility l d) (getDivisibility r d))"
    using k L R by (auto simp: addsub_divisibility_def gcds_divisor)
  show "sound_dim (addsub_value k) l r (addsub_contiguity k l r d) (gcd (getDivisibility l d) (getDivisibility r d)) (gcd_constancy l r d) d"
    unfolding sound_dim_def
  proof (intro allI impI)
    fix n a b assume a: "line_ok l d n a" and b: "line_ok r d n b"
    have ga: "0 < ?c1" "0 < ?c2" using P by (simp_all add: gcd_pos_int)
    have A': "runs (getContiguity l d) n a" "repeats (getConstancy l d) n a"
      and B': "runs (getContiguity r d) n b" "repeats (getConstancy r d) n b"
      using a b by (simp_all add: line_ok_def)
    have "runs ?c1 n (\<lambda>j. a j + b j)" "runs ?c2 n (\<lambda>j. a j + 1 * b j)" "runs ?c2 n (\<lambda>j. a j + - 1 * b j)"
      using runs_plus(2) [where s = 1, OF B'(1) A'(2) gcd_dvd2 gcd_dvd1 P(4,3) ga(1)]
        runs_plus(1) [where s = 1, OF A'(1) B'(2) gcd_dvd1 gcd_dvd2 P(1,6) ga(2)]
        runs_plus(1) [where s = "- 1", OF A'(1) B'(2) gcd_dvd1 gcd_dvd2 P(1,6) ga(2)] by simp_all
    then have "runs (addsub_contiguity k l r d) n (\<lambda>j. addsub_value k (a j) (b j))"
      using k by (auto simp: c addsub_value_def intro: runs_max)
    moreover have "heads_div (addsub_contiguity k l r d) (gcd (getDivisibility l d) (getDivisibility r d)) n (\<lambda>j. addsub_value k (a j) (b j))"
    proof -
      have "heads_div (addsub_contiguity k l r d) (getDivisibility l d) n a" "heads_div (addsub_contiguity k l r d) (getDivisibility r d) n b"
        using a b al P divisor_pos [OF dc(1)] heads_div_coarser by (auto simp: line_ok_def aligned_def)
      then show ?thesis
        by (auto simp: heads_div_def addsub_value_def intro!: dvd_add dvd_diff intro: dvd_trans [OF gcd_dvd1] dvd_trans [OF gcd_dvd2])
    qed
    moreover have "repeats (gcd_constancy l r d) n (\<lambda>j. addsub_value k (a j) (b j))"
      using a b P by (auto simp: kc line_ok_def intro: repeats_2)
    ultimately show "runs (addsub_contiguity k l r d) n (\<lambda>j. addsub_value k (a j) (b j)) \<and>
      heads_div (addsub_contiguity k l r d) (gcd (getDivisibility l d) (getDivisibility r d)) n (\<lambda>j. addsub_value k (a j) (b j)) \<and>
      repeats (gcd_constancy l r d) n (\<lambda>j. addsub_value k (a j) (b j))" by simp
  qed
qed

definition small_const :: "(int \<Rightarrow> int \<Rightarrow> int) \<Rightarrow> axis_info \<Rightarrow> axis_info \<Rightarrow> bool" where
  "small_const f l r \<longleftrightarrow> (\<forall>a b. constantValue l = Some a \<longrightarrow> constantValue r = Some b \<longrightarrow> - (2 ^ 63) < f a b \<and> f a b < 2 ^ 63)"

lemma wrap64_id: "- (2 ^ 63) < x \<Longrightarrow> x < 2 ^ 63 \<Longrightarrow> wrap64 x = x"
  unfolding wrap64_def by (intro signed_take_bit_int_eq_self) auto

lemma fold_constants_cases:
  "fold_constants g l r = (case (constantValue l, constantValue r) of (Some a, Some b) \<Rightarrow> map_option Some (g a b) | _ \<Rightarrow> Some None)"
  by (simp add: fold_constants_def)

lemma visit_addsub_sound:
  assumes w: "wf_info l" "wf_info r" and n: "getRank l = getRank r" and k: "k = AddI \<or> k = SubI"
    and al: "\<And>d. d < getRank l \<Longrightarrow> aligned k l r d" and sm: "small_const (addsub_value k) l r"
    and T: "describes l sh A" "describes r sh B"
  shows "\<exists>i. visitAddSub k l r = Some i \<and> wf_info i \<and> describes i sh (\<lambda>ix. addsub_value k (A ix) (B ix))"
proof (cases "constantValue l \<noteq> None \<and> constantValue r \<noteq> None")
  case True
  then obtain a b where c: "constantValue l = Some a" "constantValue r = Some b" by auto
  have v: "- (2 ^ 63) < addsub_value k a b" "addsub_value k a b < 2 ^ 63" using sm c by (auto simp: small_const_def)
  then have "addsub_constant k a b = addsub_value k a b"
    using k by (auto simp: addsub_constant_def addsub_value_def wrap64_id)
  then show ?thesis unfolding visitAddSub_def
    by (intro visitBinary_constant [where f = "addsub_value k", OF w n c _ v T]) (simp add: fold_constants_def c)
next
  case False
  then have "fold_constants (\<lambda>a b. Some (addsub_constant k a b)) l r = Some None" by (auto simp: fold_constants_def split: option.splits)
  then show ?thesis unfolding visitAddSub_def
    using addsub_dim [OF w _ _ k al] n wf_infoD [OF w(1)] wf_infoD [OF w(2)]
    by (intro visitBinary_sound [where f = "addsub_value k", OF w n _ _ _ _ T]) auto
qed

section \<open>Multiplication\<close>

lemma mul_dim:
  assumes w: "wf_info l" "wf_info r" and d: "d < getRank l" "d < getRank r"
    and nc: "constantValue l = None \<or> constantValue r = None"
  shows "\<exists>e. divisor (mul_contiguity l r d) \<and> mul_divisibility l r d = Some e \<and> divisor e \<and>
    sound_dim (*) l r (mul_contiguity l r d) e (gcd_constancy l r d) d"
proof -
  note L = wf_infoD [OF w(1) d(1)] and R = wf_infoD [OF w(2) d(2)]
  note P = L [THEN divisor_pos] R [THEN divisor_pos]
  let ?x = "if getContiguity l d > 1 \<and> constantValue r \<noteq> Some 1 then 1 else getDivisibility l d"
  let ?y = "if getContiguity r d > 1 \<and> constantValue l \<noteq> Some 1 then 1 else getDivisibility r d"
  let ?c = "mul_contiguity l r d"
  obtain e where e: "multiplyDivisor ?x ?y = Some e" "divisor e" "e dvd ?x * ?y"
  proof -
    have "divisor ?x" "divisor ?y" using L R by simp_all
    then show ?thesis using multiplyDivisor_divisor that by blast
  qed
  have c: "?c = (if constantValue r = Some 1 then getContiguity l d else if constantValue l = Some 1 then getContiguity r d else 1)"
    using nc P by (auto simp: mul_contiguity_def max_def)
  have "sound_dim (*) l r ?c e (gcd_constancy l r d) d"
    unfolding sound_dim_def
  proof (intro allI impI)
    fix n a b assume a: "line_ok l d n a" and b: "line_ok r d n b"
    have a1: "\<forall>j < n. a j = 1" if "constantValue l = Some 1" using a that by (simp add: line_ok_def)
    have b1: "\<forall>j < n. b j = 1" if "constantValue r = Some 1" using b that by (simp add: line_ok_def)
    have hd: "head c' i < n" if "i < n" for c' i using that head_le [of c' i] by simp
    have R': "runs ?c n (\<lambda>j. a j * b j)"
    proof -
      have "runs (getContiguity l d) n (\<lambda>j. a j * b j)" if "constantValue r = Some 1"
        using a b1 [OF that] hd by (simp add: line_ok_def runs_def)
      moreover have "runs (getContiguity r d) n (\<lambda>j. a j * b j)" if "constantValue l = Some 1"
        using b a1 [OF that] hd by (simp add: line_ok_def runs_def)
      ultimately show ?thesis by (simp add: c)
    qed
    have ea: "\<forall>i < n. getContiguity l d = 1 \<longrightarrow> getDivisibility l d dvd a i" "\<forall>i < n. getDivisibility l d dvd a (head (getContiguity l d) i)"
      and eb: "\<forall>i < n. getContiguity r d = 1 \<longrightarrow> getDivisibility r d dvd b i" "\<forall>i < n. getDivisibility r d dvd b (head (getContiguity r d) i)"
      using a b by (auto simp: line_ok_def heads_div_def dest: spec)
    have "?x dvd a (head ?c i)" if i: "i < n" for i
      using ea i hd P(1) c by (cases "getContiguity l d > 1") auto
    moreover have "?y dvd b (head ?c i)" if i: "i < n" for i
      using eb i hd P(4) c nc by (cases "getContiguity r d > 1") auto
    ultimately have "heads_div ?c e n (\<lambda>j. a j * b j)"
      using e(3) unfolding heads_div_def by (meson dvd_trans mult_dvd_mono)
    moreover have "repeats (gcd_constancy l r d) n (\<lambda>j. a j * b j)"
      using a b P L R by (auto simp: gcd_constancy_def gcds_divisor line_ok_def intro: repeats_2)
    ultimately show "runs ?c n (\<lambda>j. a j * b j) \<and> heads_div ?c e n (\<lambda>j. a j * b j) \<and> repeats (gcd_constancy l r d) n (\<lambda>j. a j * b j)"
      using R' by simp
  qed
  moreover have "divisor ?c" using L R by (simp add: c)
  ultimately show ?thesis using e by (auto simp: mul_divisibility_def)
qed

lemma visit_mul_sound:
  assumes w: "wf_info l" "wf_info r" and n: "getRank l = getRank r" and sm: "small_const (*) l r"
    and T: "describes l sh A" "describes r sh B"
  shows "\<exists>i. visitMul l r = Some i \<and> wf_info i \<and> describes i sh (\<lambda>ix. A ix * B ix)"
proof (cases "constantValue l \<noteq> None \<and> constantValue r \<noteq> None")
  case True
  then obtain a b where c: "constantValue l = Some a" "constantValue r = Some b" by auto
  have v: "- (2 ^ 63) < a * b" "a * b < 2 ^ 63" using sm c by (auto simp: small_const_def)
  then show ?thesis unfolding visitMul_def
    by (intro visitBinary_constant [where f = "(*)", OF w n c _ v T]) (simp add: fold_constants_def c wrap64_id)
next
  case False
  then have f: "fold_constants (\<lambda>a b. Some (wrap64 (a * b))) l r = Some None" "constantValue l = None \<or> constantValue r = None"
    by (auto simp: fold_constants_def split: option.splits)
  have "\<forall>d. \<exists>e. d < getRank l \<longrightarrow> divisor (mul_contiguity l r d) \<and> mul_divisibility l r d = Some e \<and> divisor e \<and>
    sound_dim (*) l r (mul_contiguity l r d) e (gcd_constancy l r d) d"
    using mul_dim [OF w _ _ f(2)] n by auto
  then obtain e where e: "\<And>d. d < getRank l \<Longrightarrow> divisor (mul_contiguity l r d) \<and> mul_divisibility l r d = Some (e d) \<and> divisor (e d) \<and>
    sound_dim (*) l r (mul_contiguity l r d) (e d) (gcd_constancy l r d) d" by metis
  have g: "divisor (gcd_constancy l r d)" if "d < getRank l" for d
    using wf_infoD [OF w(1) that] wf_infoD [OF w(2)] that n by (simp add: gcd_constancy_def gcds_divisor)
  show ?thesis unfolding visitMul_def
    using e g f(1) by (intro visitBinary_sound [where f = "(*)" and e = e, OF w n _ _ _ _ T]) auto
qed

section \<open>Every visitor keeps infos well formed\<close>

definition int64 :: "int \<Rightarrow> bool" where
  "int64 v \<longleftrightarrow> - (2 ^ 63) \<le> v \<and> v < 2 ^ 63"

lemma int64_wrap [simp]: "int64 (wrap64 x)"
  using signed_take_bit_int_greater_eq_minus_exp [of 63 x] signed_take_bit_int_less_exp [of 63 x]
  by (simp add: int64_def wrap64_def)

lemma int64_iff: "int64 v \<longleftrightarrow> signed_take_bit 63 v = v"
  unfolding int64_def by (metis signed_take_bit_int_eq_self signed_take_bit_int_greater_eq_minus_exp signed_take_bit_int_less_exp)

lemma wf_constant: "wf_info i \<Longrightarrow> constantValue i = Some v \<Longrightarrow> int64 v"
  by (simp add: wf_info_def int64_def)

lemma wf_mkAxisInfo:
  assumes "mkAxisInfo c d k v = Some i" and "list_all divisor c" "list_all divisor d" "list_all divisor k"
    and "\<And>x. v = Some x \<Longrightarrow> int64 x"
  shows "wf_info i"
  using assms by (auto simp: mkAxisInfo_def wf_info_def getRank_def int64_def split: if_splits)

lemma those_divisors: "those xs = Some ys \<Longrightarrow> (\<And>x y. x \<in> set xs \<Longrightarrow> x = Some y \<Longrightarrow> P y) \<Longrightarrow> list_all P ys"
  by (induction xs arbitrary: ys) (auto split: option.splits)

lemma visitBinary_wf:
  assumes w: "wf_info l" "wf_info r" and v: "visitBinary cv contig divis const l r = Some i"
    and c: "\<And>x. cv l r = Some (Some x) \<Longrightarrow> int64 x"
    and d: "\<And>d. d < getRank l \<Longrightarrow> d < getRank r \<Longrightarrow> divisor (contig l r d) \<and> divisor (const l r d)"
    and e: "\<And>d x. d < getRank l \<Longrightarrow> d < getRank r \<Longrightarrow> divis l r d = Some x \<Longrightarrow> divisor x"
  shows "wf_info i"
proof -
  obtain x where x: "cv l r = Some x" and rk: "getRank l \<le> getRank r"
    using v by (auto simp: visitBinary_def Let_def Option.bind_eq_Some_conv split: if_splits)
  show ?thesis
  proof (cases x)
    case None
    obtain ds where ds: "those (map (divis l r) [0..<getRank l]) = Some ds"
      "mkAxisInfo (map (contig l r) [0..<getRank l]) ds (map (const l r) [0..<getRank l]) None = Some i"
      using v x rk None by (auto simp: visitBinary_def Let_def Option.bind_eq_Some_conv)
    have "list_all divisor ds" using ds(1) by (rule those_divisors) (use e rk in auto)
    moreover have "list_all divisor (map (contig l r) [0..<getRank l])" "list_all divisor (map (const l r) [0..<getRank l])"
      using d rk by (auto simp: list_all_iff)
    ultimately show ?thesis using wf_mkAxisInfo [OF ds(2)] by simp
  next
    case (Some y)
    then have y: "int64 y" using c x by simp
    have "mkAxisInfo (replicate (getRank l) 1) (replicate (getRank l) (highestPowOf2Divisor 64 y))
                     (map (\<lambda>d. max (getConstancy l d) (getConstancy r d)) [0..<getRank l]) (Some y) = Some i"
      using v x rk Some by (simp add: visitBinary_def Let_def)
    then show ?thesis
      by (rule wf_mkAxisInfo) (use y highestPowOf2_divides(1) [of y] wf_infoD(3) [OF w(1)] wf_infoD(3) [OF w(2)] rk
          in \<open>auto simp: list_all_iff int64_def\<close>)
  qed
qed

lemma fold_constants_wf:
  assumes "fold_constants f l r = Some (Some x)" and "\<And>a b y. constantValue l = Some a \<Longrightarrow> constantValue r = Some b \<Longrightarrow> f a b = Some y \<Longrightarrow> int64 y"
  shows "int64 x"
  using assms by (auto simp: fold_constants_def split: option.splits)

lemma gcd_constancy_divisor:
  "wf_info l \<Longrightarrow> wf_info r \<Longrightarrow> d < getRank l \<Longrightarrow> d < getRank r \<Longrightarrow> divisor (gcd_constancy l r d)"
  using wf_infoD(3) [of l d] wf_infoD(3) [of r d] by (simp add: gcd_constancy_def gcds_divisor)

lemma max_sdiv_divisor:
  assumes "divisor x" and "divisor y \<or> x sdiv y = 0" shows "divisor (max 1 (x sdiv y))"
  using assms(2)
proof
  assume "divisor y"
  then obtain a b where ab: "x = 2 ^ a" "y = 2 ^ b" "a \<le> 62" using assms(1) by (auto simp: divisor_def)
  show ?thesis
  proof (cases "b \<le> a")
    case True
    then have "x sdiv y = 2 ^ (a - b)" by (simp add: ab signed_divide_int_def power_diff)
    then show ?thesis using ab(3) by (simp add: max_def)
  next
    case False
    then have "(2::int) ^ a < 2 ^ b" by (intro power_strict_increasing) auto
    then have "x sdiv y = 0" by (simp add: ab signed_divide_int_def div_pos_pos_trivial)
    then show ?thesis by simp
  qed
qed simp

lemma addsub_wf:
  assumes w: "wf_info l" "wf_info r" and v: "visitAddSub k l r = Some i" and k: "\<And>bits. k = AddPtr bits \<Longrightarrow> divisor (elemSize bits)"
  shows "wf_info i"
  using v unfolding visitAddSub_def
proof (rule visitBinary_wf [OF w])
  fix x assume "fold_constants (\<lambda>a b. Some (addsub_constant k a b)) l r = Some (Some x)"
  then show "int64 x" by (rule fold_constants_wf) (auto simp: addsub_constant_def split: addsub.splits)
next
  fix d assume d: "d < getRank l" "d < getRank r"
  then show "divisor (addsub_contiguity k l r d) \<and> divisor (gcd_constancy l r d)"
    using wf_infoD [OF w(1)] wf_infoD [OF w(2)] gcd_constancy_divisor [OF w] by (simp add: addsub_contiguity_def gcds_divisor)
  fix x assume x: "addsub_divisibility k l r d = Some x"
  note D = wf_infoD(2) [OF w(1) d(1)] wf_infoD(2) [OF w(2) d(2)]
  show "divisor x"
  proof (cases k)
    case (AddPtr bits)
    then obtain m where "multiplyDivisor (getDivisibility r d) (elemSize bits) = Some m" "divisor m"
      using multiplyDivisor_divisor [OF D(2) k [OF AddPtr]] by blast
    then show ?thesis using x D AddPtr by (auto simp: addsub_divisibility_def gcds_divisor)
  qed (use x D in \<open>auto simp: addsub_divisibility_def gcds_divisor\<close>)
qed

lemma mul_wf:
  assumes w: "wf_info l" "wf_info r" and v: "visitMul l r = Some i"
  shows "wf_info i"
  using v unfolding visitMul_def
proof (rule visitBinary_wf [OF w])
  fix x assume "fold_constants (\<lambda>a b. Some (wrap64 (a * b))) l r = Some (Some x)"
  then show "int64 x" by (rule fold_constants_wf) auto
next
  fix d assume d: "d < getRank l" "d < getRank r"
  note L = wf_infoD [OF w(1) d(1)] and R = wf_infoD [OF w(2) d(2)]
  show "divisor (mul_contiguity l r d) \<and> divisor (gcd_constancy l r d)"
    using L R gcd_constancy_divisor [OF w d] by (simp add: mul_contiguity_def)
  fix x assume x: "mul_divisibility l r d = Some x"
  have "divisor (if getContiguity l d > 1 \<and> constantValue r \<noteq> Some 1 then 1 else getDivisibility l d)"
    "divisor (if getContiguity r d > 1 \<and> constantValue l \<noteq> Some 1 then 1 else getDivisibility r d)" using L R by simp_all
  then show "divisor x" using multiplyDivisor_divisor x unfolding mul_divisibility_def by (metis option.sel)
qed

definition fine_shape :: "int list option \<Rightarrow> bool" where
  "fine_shape sh \<longleftrightarrow> (case sh of Some s \<Rightarrow> list_all divisor s | None \<Rightarrow> True)"

lemma is_pow2_64_divisor:
  assumes "is_pow2_64 \<bar>c\<bar>" and "int64 c" shows "\<bar>c\<bar> = 2 ^ 63 \<or> divisor \<bar>c\<bar>"
proof -
  have m: "\<bar>c\<bar> mod 2 ^ 64 = \<bar>c\<bar>"
    using assms(2) by (intro mod_pos_pos_trivial) (auto simp: int64_def)
  have p: "\<bar>c\<bar> \<noteq> 0" "\<bar>c\<bar> AND (\<bar>c\<bar> - 1) = 0" using assms(1) m by (auto simp: is_pow2_64_def Let_def)
  obtain k where "\<bar>c\<bar> = 2 ^ k" 
  proof -
    obtain k where k: "\<bar>c\<bar> AND NOT (\<bar>c\<bar> - 1) = 2 ^ k" using low_bit_dvd [OF p(1)] by blast
    have "\<bar>c\<bar> AND (\<bar>c\<bar> - 1) OR \<bar>c\<bar> AND NOT (\<bar>c\<bar> - 1) = \<bar>c\<bar>"
      by (rule bit_eqI) (auto simp: bit_and_iff bit_or_iff bit_not_iff)
    then have "\<bar>c\<bar> = 2 ^ k" using p(2) k by simp
    then show ?thesis by (rule that)
  qed
  moreover have "\<bar>c\<bar> \<le> 2 ^ 63" using assms(2) by (auto simp: int64_def)
  ultimately show ?thesis
  proof -
    assume k: "\<bar>c\<bar> = 2 ^ k" and le: "\<bar>c\<bar> \<le> 2 ^ 63"
    then have "k \<le> 63" by (metis not_le power_strict_increasing_iff one_less_numeral_iff semiring_norm(76) linorder_not_le)
    then show ?thesis using k by (cases "k = 63") (auto simp: divisor_def)
  qed
qed

lemma sdiv_int64:
  assumes "int64 a" and "\<not> div_traps a b" shows "int64 (a sdiv b)"
proof (cases "b = 1 \<or> b = -1")
  case True
  then show ?thesis using assms by (auto simp: int64_def div_traps_def signed_divide_int_def sgn_mult_abs abs_mult_sgn)
next
  case False
  have b: "2 \<le> \<bar>b\<bar>" using False assms(2) by (auto simp: div_traps_def)
  have q: "\<bar>a\<bar> div \<bar>b\<bar> \<le> \<bar>a\<bar> div 2" using b by (intro zdiv_mono2) auto
  have "\<bar>a sdiv b\<bar> \<le> \<bar>a\<bar> div \<bar>b\<bar>"
    using b by (cases "a = 0") (auto simp: signed_divide_int_def abs_mult pos_imp_zdiv_nonneg_iff sgn_if)
  moreover have "\<bar>a\<bar> \<le> 2 ^ 63" using assms(1) by (auto simp: int64_def)
  ultimately have "\<bar>a sdiv b\<bar> \<le> 2 ^ 62" using q by simp
  then show ?thesis by (auto simp: int64_def)
qed

lemma div_wf:
  assumes w: "wf_info l" "wf_info r" and v: "visitDiv sh l r = Some i" and s: "fine_shape sh"
  shows "wf_info i"
  using v unfolding visitDiv_def
proof (rule visitBinary_wf [OF w])
  fix x assume "fold_constants (\<lambda>a b. if div_traps a b then None else Some (a sdiv b)) l r = Some (Some x)"
  then show "int64 x"
  proof (rule fold_constants_wf)
    fix a b y assume "constantValue l = Some a" and y: "(if div_traps a b then None else Some (a sdiv b)) = Some y"
    then have "int64 (a sdiv b)" using sdiv_int64 [of a b] wf_constant [OF w(1)] by (simp split: if_splits)
    then show "int64 y" using y by (simp split: if_splits)
  qed
next
  fix d assume d: "d < getRank l" "d < getRank r"
  note L = wf_infoD [OF w(1) d(1)] and R = wf_infoD [OF w(2) d(2)]
  show "divisor (div_contiguity l r d) \<and> divisor (div_constancy sh l r d)"
    using L R gcd_constancy_divisor [OF w d]
    by (auto simp: div_contiguity_def div_constancy_def Let_def gcds_divisor split: option.splits)
  fix x assume x: "div_divisibility l r d = Some x"
  show "divisor x"
  proof (cases "constantValue l = Some 0 \<or> constantValue r = None \<or> constantValue r = Some 1")
    case True
    then show ?thesis using x L by (auto simp: div_divisibility_def split: if_splits)
  next
    case False
    then obtain c where c: "constantValue r = Some c" by auto
    have "divisor (max 1 (getDivisibility l d sdiv \<bar>c\<bar>))" if "is_pow2_64 \<bar>c\<bar>"
    proof (rule max_sdiv_divisor [OF L(2)])
      have "getDivisibility l d sdiv 2 ^ 63 = 0"
      proof -
        obtain k where "k \<le> 62" "getDivisibility l d = 2 ^ k" using L(2) by (auto simp: divisor_def)
        moreover from this have "(2::int) ^ k < 2 ^ 63" by (intro power_strict_increasing) auto
        ultimately show ?thesis by (simp add: signed_divide_int_def div_pos_pos_trivial)
      qed
      then show "divisor \<bar>c\<bar> \<or> getDivisibility l d sdiv \<bar>c\<bar> = 0"
        using is_pow2_64_divisor [OF that wf_constant [OF w(2) c]] by auto
    qed
    then show ?thesis using x False c by (auto simp: div_divisibility_def split: if_splits)
  qed
qed

lemma smod_int64:
  assumes b: "int64 b" "b \<noteq> 0" shows "int64 (a smod b)"
proof -
  have "\<bar>a smod b\<bar> < \<bar>b\<bar>"
    using b(2) by (simp add: signed_modulo_int_def abs_mult)
  then show ?thesis using b(1) by (auto simp: int64_def)
qed

lemma rem_wf:
  assumes w: "wf_info l" "wf_info r" and v: "visitRem sh l r = Some i" and s: "fine_shape sh"
    and n: "\<And>x. sh = Some x \<Longrightarrow> length x = getRank l"
  shows "wf_info i"
  using v unfolding visitRem_def
proof (rule visitBinary_wf [OF w])
  fix x assume x: "rem_constant l r = Some (Some x)"
  show "int64 x"
  proof (cases "constantValue l = None")
    case True
    then show ?thesis using x by (auto simp: rem_constant_def int64_def split: option.splits if_splits)
  next
    case False
    then show ?thesis using x wf_constant [OF w(1)] wf_constant [OF w(2)] smod_int64
      by (auto simp: rem_constant_def div_traps_def split: option.splits if_splits)
  qed
next
  fix d assume d: "d < getRank l" "d < getRank r"
  note L = wf_infoD [OF w(1) d(1)] and R = wf_infoD [OF w(2) d(2)]
  show "divisor (rem_contiguity sh l r d) \<and> divisor (rem_constancy sh l r d)"
    using L R gcd_constancy_divisor [OF w d] s n d(1)
    by (auto simp: rem_contiguity_def rem_constancy_def fine_shape_def gcds_divisor list_all_length split: option.splits)
  fix x assume "rem_divisibility l r d = Some x"
  then show "divisor x" using L R by (auto simp: rem_divisibility_def gcds_divisor)
qed

lemma int64_bit: "int64 a \<longleftrightarrow> (\<forall>j \<ge> 63. bit a j = bit a 63)"
proof -
  have "signed_take_bit 63 a = a \<longleftrightarrow> (\<forall>j. bit a (min 63 j) = bit a j)"
    by (simp add: bit_eq_iff bit_signed_take_bit_iff)
  also have "\<dots> \<longleftrightarrow> (\<forall>j \<ge> 63. bit a j = bit a 63)" by (auto simp: min_def)
  finally show ?thesis by (simp add: int64_iff)
qed

lemma logical_int64: "int64 a \<Longrightarrow> int64 b \<Longrightarrow> int64 (logical_op k a b)"
  unfolding int64_bit
proof (intro allI impI)
  fix j :: nat
  assume "\<forall>j \<ge> 63. bit a j = bit a 63" "\<forall>j \<ge> 63. bit b j = bit b 63" "63 \<le> j"
  then have "bit a j = bit a 63" "bit b j = bit b 63" by blast+
  then show "bit (logical_op k a b) j = bit (logical_op k a b) 63"
    by (cases k) (simp_all add: logical_op_def bit_and_iff bit_or_iff bit_xor_iff)
qed

lemma logical_wf:
  assumes w: "wf_info l" "wf_info r" and v: "visitLogical k l r = Some i"
  shows "wf_info i"
  using v unfolding visitLogical_def
proof (rule visitBinary_wf [OF w])
  fix x assume "fold_constants (\<lambda>a b. Some (logical_op k a b)) l r = Some (Some x)"
  then show "int64 x"
  proof (rule fold_constants_wf)
    fix a b y assume c: "constantValue l = Some a" "constantValue r = Some b" and y: "Some (logical_op k a b) = Some y"
    show "int64 y" using logical_int64 [OF wf_constant [OF w(1) c(1)] wf_constant [OF w(2) c(2)], of k] y by simp
  qed
qed (use gcd_constancy_divisor [OF w] in \<open>auto simp: one_dim_def\<close>)

lemma shift_amount: "shift_ok s \<Longrightarrow> nat s = 63 \<or> wrap64 (2 ^ nat s) = 2 ^ nat s \<and> nat s \<le> 62"
proof -
  assume s: "shift_ok s"
  show ?thesis
  proof (cases "nat s = 63")
    case False
    then have "nat s \<le> 62" using s by (auto simp: shift_ok_def)
    moreover from this have "(2::int) ^ nat s < 2 ^ 63" by (intro power_strict_increasing) auto
    moreover have "- (2 ^ 63) < (2::int) ^ nat s" by (rule less_trans [of _ 0]) simp_all
    ultimately show ?thesis using wrap64_id by blast
  qed simp
qed

lemma wrap64_63: "wrap64 (2 ^ 63) = - (2 ^ 63)"
  by (simp add: wrap64_def)

lemma sdiv_min:
  assumes "divisor x" shows "x sdiv (- (2 ^ 63)) = 0"
proof -
  obtain k where k: "k \<le> 62" "x = 2 ^ k" using assms by (auto simp: divisor_def)
  then have "x < 2 ^ 63" by (simp only:) (intro power_strict_increasing; simp)
  then have "x div 9223372036854775808 = 0" using divisor_pos [OF assms] by (simp add: div_pos_pos_trivial)
  then show ?thesis by (simp add: signed_divide_int_def)
qed

lemma multiplyDivisor_min:
  assumes "divisor x" shows "multiplyDivisor x (- (2 ^ 63)) = Some kMaxDivisor"
  using sdiv_min [of kMaxDivisor] divisor_pos [OF assms] by (simp add: multiplyDivisor_def)

lemma shift_contiguity_divisor: "wf_info l \<Longrightarrow> d < getRank l \<Longrightarrow> divisor (shift_contiguity l r d)"
  using wf_infoD(1) by (simp add: shift_contiguity_def)

lemma shl_wf:
  assumes w: "wf_info l" "wf_info r" and v: "visitShl l r = Some i"
  shows "wf_info i"
  using v unfolding visitShl_def
proof (rule visitBinary_wf [OF w])
  fix x assume "fold_constants (\<lambda>a b. if shift_ok b then Some (wrap64 (a * 2 ^ nat b)) else None) l r = Some (Some x)"
  then show "int64 x" by (rule fold_constants_wf) (auto split: if_splits)
next
  fix d assume d: "d < getRank l" "d < getRank r"
  show "divisor (shift_contiguity l r d) \<and> divisor (gcd_constancy l r d)"
    using shift_contiguity_divisor [OF w(1) d(1)] gcd_constancy_divisor [OF w d] by simp
  fix x assume x: "shl_divisibility l r d = Some x"
  define s where "s = (case constantValue r of Some s \<Rightarrow> s | None \<Rightarrow> 0)"
  define y where "y = (if getContiguity l d > 1 \<and> s \<noteq> 0 then 1 else getDivisibility l d)"
  have s: "shift_ok s" and m: "multiplyDivisor y (wrap64 (2 ^ nat s)) = Some x"
    using x [unfolded shl_divisibility_def Let_def, folded s_def, folded y_def] by (simp_all split: if_splits)
  have y: "divisor y" using wf_infoD [OF w(1) d(1)] by (simp add: y_def)
  show "divisor x"
    using shift_amount [OF s]
  proof
    assume "nat s = 63"
    then show ?thesis using m multiplyDivisor_min [OF y] by (simp add: wrap64_63 del: power_numeral)
  next
    assume a: "wrap64 (2 ^ nat s) = 2 ^ nat s \<and> nat s \<le> 62"
    then show ?thesis using multiplyDivisor_divisor [OF y divisor_pow [of "nat s"]] m by auto
  qed
qed

lemma drop_bit_int64: "int64 a \<Longrightarrow> int64 (drop_bit n a)"
  unfolding int64_bit
proof (intro allI impI)
  fix j :: nat
  assume "\<forall>j \<ge> 63. bit a j = bit a 63" "63 \<le> j"
  then have "bit a (n + j) = bit a 63" "bit a (n + 63) = bit a 63" by (meson le_add2 le_trans)+
  then show "bit (drop_bit n a) j = bit (drop_bit n a) 63" by (simp add: bit_drop_bit_eq)
qed

lemma shr_wf:
  assumes w: "wf_info l" "wf_info r" and v: "visitShr l r = Some i"
  shows "wf_info i"
  using v unfolding visitShr_def
proof (rule visitBinary_wf [OF w])
  fix x assume "fold_constants (\<lambda>a b. if shift_ok b then Some (drop_bit (nat b) a) else None) l r = Some (Some x)"
  then show "int64 x"
  proof (rule fold_constants_wf)
    fix a b y assume c: "constantValue l = Some a" and y: "(if shift_ok b then Some (drop_bit (nat b) a) else None) = Some y"
    show "int64 y" using drop_bit_int64 [OF wf_constant [OF w(1) c], of "nat b"] y by (simp split: if_splits)
  qed
next
  fix d assume d: "d < getRank l" "d < getRank r"
  show "divisor (shift_contiguity l r d) \<and> divisor (gcd_constancy l r d)"
    using shift_contiguity_divisor [OF w(1) d(1)] gcd_constancy_divisor [OF w d] by simp
  fix x assume x: "shr_divisibility l r d = Some x"
  show "divisor x"
  proof (cases "constantValue r")
    case (Some s)
    define y where "y = (if getContiguity l d > 1 \<and> s \<noteq> 0 then 1 else getDivisibility l d)"
    have s: "shift_ok s" and m: "x = max 1 (y sdiv wrap64 (2 ^ nat s))"
      using x [unfolded shr_divisibility_def Some option.case, folded y_def] by (simp_all split: if_splits)
    have y: "divisor y" using wf_infoD [OF w(1) d(1)] by (simp add: y_def)
    have "divisor (wrap64 (2 ^ nat s)) \<or> y sdiv wrap64 (2 ^ nat s) = 0"
      using shift_amount [OF s]
    proof
      assume "nat s = 63"
      then show ?thesis using sdiv_min [OF y] by (simp add: wrap64_63 del: power_numeral)
    next
      assume "wrap64 (2 ^ nat s) = 2 ^ nat s \<and> nat s \<le> 62"
      then show ?thesis by simp
    qed
    then show ?thesis using max_sdiv_divisor [OF y] m by simp
  qed (use x in \<open>auto simp: shr_divisibility_def\<close>)
qed

lemma divisor_pow2_of: "divisor (highestPowOf2Divisor_u32 s)"
proof (cases "s mod 2 ^ 32 = 0")
  case True
  then have "highestPowOf2Divisor_u32 s = 2 ^ 30" by (simp add: highestPowOf2Divisor_u32_def)
  then show ?thesis by (simp only: divisor_pow)
next
  case False
  define u where "u = s mod 2 ^ 32"
  have "0 \<le> u" "u < 2 ^ 32" unfolding u_def by (rule pos_mod_sign, simp, rule pos_mod_bound, simp)
  then have u: "0 < u" "u < 2 ^ 32" using False unfolding u_def by linarith+
  obtain k where k: "u AND NOT (u - 1) = 2 ^ k" "2 ^ k dvd u" using low_bit_dvd [of u] u by auto
  have "2 ^ k \<le> u" using k(2) u(1) by (rule zdvd_imp_le)
  then have "(2::int) ^ k < 2 ^ 32" using u(2) by (rule le_less_trans)
  then have "k < 32" by (rule power_less_imp_less_exp [rotated]) simp
  moreover have "highestPowOf2Divisor_u32 s = 2 ^ k" using False k(1) by (simp add: highestPowOf2Divisor_u32_def u_def)
  ultimately show ?thesis by simp
qed

lemma wf_empty [simp]: "wf_info emptyInfo"
  by (simp add: emptyInfo_def wf_info_def getRank_def)

lemma constant_wf:
  assumes "visitConstant a = Some i" and "\<And>w v sh. a = SplatAttr w v sh \<Longrightarrow> list_all divisor sh"
  shows "wf_info i"
proof -
  have h: "divisor (highestPowOf2Divisor 64 (zext64 w v))" for w v
    using int64_wrap [of "take_bit w v"] highestPowOf2_divides(1) by (simp add: zext64_def int64_def)
  show ?thesis
  proof (cases a)
    case (IntAttr w v)
    then show ?thesis using assms(1) h by (auto simp: visitConstant_def zext64_def elim!: wf_mkAxisInfo)
  next
    case (SplatAttr w v sh)
    have "mkAxisInfo (replicate (length sh) 1) (replicate (length sh) (highestPowOf2Divisor 64 (zext64 w v))) sh (Some (zext64 w v)) = Some i"
      using assms(1) SplatAttr by (simp add: visitConstant_def)
    then show ?thesis by (rule wf_mkAxisInfo) (use h assms(2) [OF SplatAttr] in \<open>auto simp: list_all_iff zext64_def\<close>)
  next
    case OtherAttr
    then show ?thesis using assms(1) by (auto simp: visitConstant_def)
  qed
qed

lemma splat_wf:
  assumes w: "wf_info i" and v: "visitSplat sh i = Some j" and s: "list_all divisor sh"
  shows "wf_info j"
proof -
  have "mkAxisInfo (replicate (length sh) 1) (replicate (length sh) (getDivisibility i 0)) sh (constantValue i) = Some j"
    "sh = [] \<or> getRank i \<noteq> 0"
    using v by (auto simp: visitSplat_def split: if_splits)
  then show ?thesis
    using wf_infoD(2) [OF w, of 0] s wf_constant [OF w] by (elim wf_mkAxisInfo) (auto simp: list_all_iff)
qed

lemma load_wf:
  assumes w: "wf_info p" "\<And>m. ms = Some m \<Longrightarrow> wf_info m" and v: "visitLoad p ms = Some i"
  shows "wf_info i"
proof -
  have i: "mkAxisInfo (replicate (getRank p) 1) (replicate (getRank p) 1)
     (map (\<lambda>d. gcd2 (getConstancy p d) (case ms of Some m \<Rightarrow> getConstancy m d | None \<Rightarrow> 0)) [0..<getRank p]) None = Some i"
    and r: "\<And>m. ms = Some m \<Longrightarrow> getRank p \<le> getRank m"
    using v by (auto simp: visitLoad_def split: if_splits)
  have "divisor (gcd2 (getConstancy p d) (case ms of Some m \<Rightarrow> getConstancy m d | None \<Rightarrow> 0))" if "d < getRank p" for d
  proof (cases ms)
    case None
    then show ?thesis using wf_infoD(3) [OF w(1) that] divisor_pos [of "getConstancy p d"] by (simp add: gcds.simps)
  next
    case (Some m)
    then show ?thesis using wf_infoD(3) [OF w(1) that] wf_infoD(3) [OF w(2) [OF Some]] r [OF Some] that by (simp add: gcds_divisor)
  qed
  then show ?thesis using wf_mkAxisInfo [OF i] by (simp add: list_all_iff)
qed

lemma list_all_insert_at: "list_all P (insert_at k x xs) \<longleftrightarrow> P x \<and> list_all P xs"
proof -
  have "list_all P (take k xs @ drop k xs) \<longleftrightarrow> list_all P (take k xs) \<and> list_all P (drop k xs)" by (rule list_all_append)
  then show ?thesis by (auto simp: insert_at_def)
qed

lemma fold_gcd_divisor:
  "divisor a \<Longrightarrow> (\<And>d. d \<in> set ds \<Longrightarrow> divisor (f d)) \<Longrightarrow> divisor (fold (\<lambda>d acc. gcd2 acc (f d)) ds a)"
  by (induction ds arbitrary: a) (simp_all add: gcds_divisor)

lemma expandDims_wf:
  assumes w: "wf_info i" and v: "visitExpandDims axis i = Some j"
  shows "wf_info j"
proof -
  define elem where "elem = (\<lambda>d. if getContiguity i d > 1 then 1 else getDivisibility i d)"
  define nd where "nd = (case constantValue i of Some c \<Rightarrow> highestPowOf2Divisor 64 c
     | None \<Rightarrow> if getRank i = 0 then 1 else fold (\<lambda>d acc. gcd2 acc (elem d)) [1..<getRank i] (elem 0))"
  have j: "mkAxisInfo (insert_at axis 1 (contiguity i)) (insert_at axis nd (divisibility i)) (insert_at axis 1 (constancy i)) (constantValue i) = Some j"
    using v unfolding visitExpandDims_def Let_def nd_def elem_def by (cases "getRank i < axis") simp_all
  have e: "divisor (elem d)" if "d < getRank i" for d using wf_infoD [OF w that] by (simp add: elem_def)
  have "divisor nd"
    unfolding nd_def using e wf_constant [OF w] highestPowOf2_divides(1)
    by (auto simp: int64_def split: option.splits intro!: fold_gcd_divisor)
  then show ?thesis using w wf_mkAxisInfo [OF j] wf_constant [OF w] by (simp add: wf_info_def list_all_insert_at)
qed

lemma broadcast_wf:
  assumes w: "wf_info i" and v: "visitBroadcast os rs i = Some j" and s: "list_all divisor rs"
  shows "wf_info j"
proof -
  have j: "mkAxisInfo (map (\<lambda>d. if os ! d = 1 then 1 else getContiguity i d) [0..<length rs])
        (map (\<lambda>d. getDivisibility i d) [0..<length rs])
        (map (\<lambda>d. if os ! d = 1 then rs ! d else getConstancy i d) [0..<length rs]) (constantValue i) = Some j"
    and r: "length rs \<le> getRank i"
    using v by (auto simp: visitBroadcast_def split: if_splits)
  then show ?thesis
    using wf_infoD [OF w] s wf_constant [OF w] by (intro wf_mkAxisInfo [OF j]) (auto simp: list_all_iff)
qed

lemma cmp_wf:
  assumes w: "wf_info l" "wf_info r" and v: "visitCmp p sh l r = Some i" and s: "fine_shape sh"
  shows "wf_info i"
proof (cases sh)
  case None
  then show ?thesis using v by (auto simp: visitCmp_def)
next
  case (Some s)
  have i: "mkAxisInfo (replicate (length s) 1) (replicate (length s) 1) (map (cmp_constancy p s l r) [0..<length s])
      (case (s, constantValue l, constantValue r) of (_ # _, Some a, Some b) \<Rightarrow> Some (if compare p a b then 1 else 0) | _ \<Rightarrow> None) = Some i"
    and rk: "length s \<le> getRank l" "length s \<le> getRank r"
    using v Some by (auto simp: visitCmp_def split: if_splits)
  have "divisor (cmp_constancy p s l r d)" if "d < length s" for d
  proof -
    have d: "d < getRank l" "d < getRank r" using that rk by auto
    show ?thesis using wf_infoD [OF w(1) d(1)] wf_infoD [OF w(2) d(2)] gcd_constancy_divisor [OF w d]
      by (simp add: cmp_constancy_def Let_def gcds_divisor)
  qed
  then show ?thesis
    by (intro wf_mkAxisInfo [OF i]) (auto simp: list_all_iff int64_def split: list.splits option.splits if_splits)
qed

lemma select_wf:
  assumes w: "wf_info c" "wf_info l" "wf_info r" and v: "visitSelect i1 c l r = Some i"
  shows "wf_info i"
proof (cases "constantValue c")
  case (Some x)
  then show ?thesis using v w by (auto simp: visitSelect_def split: if_splits)
next
  case None
  define ck where "ck d = (if i1 then [] else [constancy c ! d])" for d
  have i: "mkAxisInfo (map (\<lambda>d. gcds (getContiguity l d) (getContiguity r d) (ck d)) [0..<getRank l])
      (map (getDivisibilityFromContiguity l r) [0..<getRank l])
      (map (\<lambda>d. gcds (getConstancy l d) (getConstancy r d) (ck d)) [0..<getRank l]) (both_constant l r) = Some i"
    and rk: "getRank l \<le> getRank r" "\<not> i1 \<Longrightarrow> getRank l \<le> length (constancy c)"
    using v None by (auto simp: visitSelect_def Let_def ck_def split: if_splits)
  have "divisor (gcds (getContiguity l d) (getContiguity r d) (ck d)) \<and> divisor (gcds (getConstancy l d) (getConstancy r d) (ck d)) \<and>
    divisor (getDivisibilityFromContiguity l r d)" if d: "d < getRank l" for d
  proof -
    have e: "d < getRank r" using d rk by simp
    have "divisor (constancy c ! d)" if "\<not> i1" using w(1) rk(2) [OF that] d by (simp add: wf_info_def list_all_length)
    then show ?thesis
      using wf_infoD [OF w(2) d] wf_infoD [OF w(3) e] getDivisibilityFromContiguity_divisor(1) [OF w(2,3) d e]
      by (simp add: ck_def gcds_divisor)
  qed
  then show ?thesis using wf_constant [OF w(2)]
    by (intro wf_mkAxisInfo [OF i]) (auto simp: list_all_iff both_constant_def split: if_splits)
qed

lemma maxmin_wf:
  assumes w: "wf_info l" "wf_info r" and v: "visitMaxMin k l r = Some i"
  shows "wf_info i"
proof (cases "constantValue l = None \<or> constantValue r = None")
  case False
  then obtain a b where ab: "constantValue l = Some a" "constantValue r = Some b" by auto
  have "mkAxisInfo (replicate (getRank l) 1) (replicate (getRank l) 1) (replicate (getRank l) 1)
      (Some (if k = MaxSI \<or> k = MaxUI then max a b else min a b)) = Some i"
    using v ab by (simp add: visitMaxMin_def Let_def)
  moreover have "int64 (if k = MaxSI \<or> k = MaxUI then max a b else min a b)"
    using wf_constant [OF w(1) ab(1)] wf_constant [OF w(2) ab(2)] by (auto simp: max_def min_def)
  ultimately show ?thesis by (elim wf_mkAxisInfo) (auto simp: list_all_iff)
next
  case True
  then have i: "mkAxisInfo (map (\<lambda>d. gcd2 (getContiguity l d) (getContiguity r d)) [0..<getRank l])
      (map (getDivisibilityFromContiguity l r) [0..<getRank l]) (map (gcd_constancy l r) [0..<getRank l]) None = Some i"
    and rk: "getRank l \<le> getRank r"
    using v by (auto simp: visitMaxMin_def Let_def split: if_splits option.splits)
  have "divisor (gcd2 (getContiguity l d) (getContiguity r d)) \<and> divisor (getDivisibilityFromContiguity l r d) \<and> divisor (gcd_constancy l r d)"
    if d: "d < getRank l" for d
    using wf_infoD [OF w(1) d] wf_infoD [OF w(2), of d] getDivisibilityFromContiguity_divisor(1) [OF w d] gcd_constancy_divisor [OF w d] d rk
    by (simp add: gcds_divisor)
  then show ?thesis by (intro wf_mkAxisInfo [OF i]) (auto simp: list_all_iff)
qed

text \<open>What the verifier of the IR grants of an operation: the sizes it mentions are powers of two and the
  bounds of a range are \<open>int32_t\<close>.\<close>

fun op_fine :: "axis_op \<Rightarrow> axis_info list \<Rightarrow> bool" where
  "op_fine (MakeRangeOp s e) _ \<longleftrightarrow> divisor ((e - s) mod 2 ^ 32)"
| "op_fine (ConstantOp (SplatAttr w v sh)) _ \<longleftrightarrow> list_all divisor sh"
| "op_fine (AddSubOp (AddPtr bits)) _ \<longleftrightarrow> divisor (elemSize bits)"
| "op_fine (DivOp sh) _ \<longleftrightarrow> fine_shape sh"
| "op_fine (RemOp sh) args \<longleftrightarrow> fine_shape sh \<and> (case (sh, args) of (Some s, l # _) \<Rightarrow> length s = getRank l | _ \<Rightarrow> True)"
| "op_fine (BroadcastOp os rs) _ \<longleftrightarrow> list_all divisor rs"
| "op_fine (SplatOp sh) _ \<longleftrightarrow> list_all divisor sh"
| "op_fine (CmpIOp p sh) _ \<longleftrightarrow> fine_shape sh"
| "op_fine _ _ \<longleftrightarrow> True"

lemma visitor_wf:
  assumes "apply_visitor op args = Some i" and "list_all wf_info args" and "op_fine op args"
  shows "wf_info i"
  using assms
proof (induction op args rule: apply_visitor.induct)
  case (2 s e uu)
  then show ?case
    using divisor_pow2_of [of s] by (auto simp: visitMakeRange_def elim!: wf_mkAxisInfo)
next
  case (3 r uv)
  have "mkAxisInfo (replicate r kMaxDivisor) (replicate r kMaxDivisor) (replicate r kMaxDivisor) None = Some i"
    using 3(1) by (simp add: visitPoison_def)
  then show ?case by (rule wf_mkAxisInfo) (auto simp: list_all_iff)
next
  case (4 a uw)
  then show ?case by (auto intro: constant_wf)
next
  case (5 k l r)
  then show ?case by (auto intro: addsub_wf)
next
  case (8 sh l r)
  then show ?case by (auto intro!: rem_wf [of l r sh i] split: option.splits)
next
  case (18 p ms)
  show ?case
  proof (rule load_wf)
    show "visitLoad p (case ms of [] \<Rightarrow> None | m # _ \<Rightarrow> Some m) = Some i" using 18(1) by simp
  qed (use 18(2) in \<open>auto split: list.splits\<close>)
next
  case (19 ux)
  then show ?case by auto
qed (auto intro: mul_wf div_wf broadcast_wf splat_wf expandDims_wf cmp_wf logical_wf select_wf shl_wf shr_wf maxmin_wf)

end
