(* ===== verification/AxisProps.thy ===== *)
theory AxisProps
  imports AxisLemmas
begin

text \<open>The properties of the axis analysis, each with an instance where it has hypotheses.\<close>

section \<open>Divisors\<close>

text \<open>
  C19: for positive arguments \<open>multiplyDivisor\<close> returns the exact product when it is at most
  \<open>kMaxDivisor\<close> and \<open>kMaxDivisor\<close> otherwise: its \<open>int64_t\<close> arithmetic never overflows.
\<close>

theorem multiplyDivisor_saturates:
  assumes "0 < a" and "0 < b"
  shows "multiplyDivisor a b = Some (if a * b \<le> kMaxDivisor then a * b else kMaxDivisor)"
proof -
  have q: "kMaxDivisor sdiv b = kMaxDivisor div b" using assms(2) by (simp add: kMax signed_divide_int_def)
  have le: "a \<le> kMaxDivisor div b \<longleftrightarrow> a * b \<le> kMaxDivisor"
  proof
    assume "a \<le> kMaxDivisor div b"
    then have "a * b \<le> kMaxDivisor div b * b" using assms(2) by simp
    also have "\<dots> \<le> kMaxDivisor" using div_mult_mod_eq [of kMaxDivisor b] pos_mod_sign [OF assms(2), of kMaxDivisor] by linarith
    finally show "a * b \<le> kMaxDivisor" .
  next
    assume "a * b \<le> kMaxDivisor"
    then have "a * b div b \<le> kMaxDivisor div b" using assms(2) by (rule zdiv_mono1)
    then show "a \<le> kMaxDivisor div b" using assms(2) by simp
  qed
  have "wrap64 (a * b) = a * b" if "a * b \<le> kMaxDivisor"
  proof (rule wrap64_id)
    have "0 < a * b" using assms by simp
    then show "- (2 ^ 63) < a * b" by simp
    show "a * b < 2 ^ 63" using that by (simp add: kMax)
  qed
  then show ?thesis using assms(2) le by (auto simp: multiplyDivisor_def q)
qed

theorem multiplyDivisor_saturates_witness:
  "multiplyDivisor 4 8 = Some 32 \<and> multiplyDivisor (2 ^ 40) (2 ^ 30) = Some (2 ^ 62)"
  using multiplyDivisor_saturates [of 4 8] multiplyDivisor_saturates [of "2 ^ 40" "2 ^ 30"] by (simp add: kMax)

section \<open>The lattice\<close>

text \<open>
  C16: every visitor keeps infos well formed: from operands whose contiguities, divisibilities and
  constancies are powers of two up to \<open>kMaxDivisor\<close> and whose constants are \<open>int64_t\<close>, and for an operation
  whose shapes are made of powers of two, each info it returns has entries of that kind again, as many of
  each.
\<close>

theorem visitor_invariant:
  assumes "apply_visitor op args = Some i" and "list_all wf_info args" and "op_fine op args"
  shows "wf_info i"
  by (rule visitor_wf [OF assms])

theorem visitor_invariant_witness:
  "wf_info \<lparr>contiguity = [128], divisibility = [16], constancy = [1], constantValue = None\<rparr>"
proof (rule visitor_invariant)
  let ?r = "\<lparr>contiguity = [128], divisibility = [2 ^ 30], constancy = [1], constantValue = None\<rparr>"
  let ?s = "\<lparr>contiguity = [1], divisibility = [16], constancy = [128], constantValue = None\<rparr>"
  show "apply_visitor (AddSubOp AddI) [?r, ?s] = Some \<lparr>contiguity = [128], divisibility = [16], constancy = [1], constantValue = None\<rparr>"
    by code_simp
  have d: "divisor (2 ^ 7)" "divisor (2 ^ 30)" "divisor (2 ^ 4)" by (rule divisor_pow, simp)+
  show "list_all wf_info [?r, ?s]"
    using d by (simp add: wf_info_def getRank_def)
qed simp

text \<open>
  C15: joining two well-formed infos of one rank always returns, and what the result says is true of every tensor
  that the first or the second one describes, provided no contiguity is the \<open>kMaxDivisor\<close> of a value that is not
  known yet.
\<close>

theorem join_correct:
  assumes w: "wf_info l" "wf_info r" and n: "getRank l = getRank r" "getRank l \<noteq> 0"
    and k: "\<And>d. d < getRank l \<Longrightarrow> getContiguity l d \<noteq> kMaxDivisor \<and> getContiguity r d \<noteq> kMaxDivisor"
  shows "\<exists>j. join l r = Some j \<and> wf_info j \<and> (\<forall>sh T. describes l sh T \<or> describes r sh T \<longrightarrow> describes j sh T)"
proof -
  have "\<exists>j. join l r = Some j \<and> wf_info j \<and> describes j sh T" if "describes l sh T \<or> describes r sh T" for sh T
    using that join_sound [OF w n] join_sound [OF w(2,1)] join_comm [OF w n] n k by metis
  moreover obtain j where "join l r = Some j" "wf_info j"
    using join_wf [OF w n] by blast
  ultimately show ?thesis by fastforce
qed

definition range_info :: axis_info where
  "range_info = \<lparr>contiguity = [4], divisibility = [4], constancy = [1], constantValue = None\<rparr>"

definition steps_info :: axis_info where
  "steps_info = \<lparr>contiguity = [1], divisibility = [4], constancy = [2], constantValue = None\<rparr>"

lemma sample_infos: "wf_info range_info" "wf_info steps_info"
  using divisor_pow [of 2] divisor_pow [of 1] by (simp_all add: range_info_def steps_info_def wf_info_def getRank_def)

lemma in_shape_1: "in_shape [n] ix \<longleftrightarrow> (\<exists>i < n. ix = [i])"
  by (auto simp: in_shape_def list_all2_Cons2)

lemma range_described: "describes range_info [4] (\<lambda>ix. 4 + int (hd ix))"
  by (auto simp: describes_def range_info_def getRank_def in_shape_1 line_ok_def runs_def heads_div_def repeats_def
      getContiguity_def getDivisibility_def getConstancy_def head_def)

lemma steps_described: "describes steps_info [4] (\<lambda>ix. if hd ix < 2 then 0 else 4)"
proof -
  have "i - i mod 2 < 2 \<longleftrightarrow> i < 2" if "i < 4" for i :: nat using that by presburger
  then show ?thesis
    by (auto simp: describes_def steps_info_def getRank_def in_shape_1 line_ok_def runs_def heads_div_def repeats_def
      getContiguity_def getDivisibility_def getConstancy_def head_def)
qed

theorem join_correct_witness:
  "\<exists>j. join range_info steps_info = Some j \<and> describes j [4] (\<lambda>ix. 4 + int (hd ix)) \<and>
     describes j [4] (\<lambda>ix. if hd ix < 2 then 0 else 4)"
proof -
  have "getRank range_info = getRank steps_info" "getRank range_info \<noteq> 0"
    "\<And>d. d < getRank range_info \<Longrightarrow> getContiguity range_info d \<noteq> kMaxDivisor \<and> getContiguity steps_info d \<noteq> kMaxDivisor"
    by (simp_all add: range_info_def steps_info_def getRank_def getContiguity_def kMax)
  then show ?thesis using join_correct [OF sample_infos] range_described steps_described by blast
qed

section \<open>Transfer functions\<close>

text \<open>
  C17: for operands of one rank, the visitor of addition and subtraction returns a well-formed info
  that is true of the elementwise sum or difference, when each group of the result is a union of groups of
  both operands and a folded constant does not overflow.
\<close>

theorem addsub_correct:
  assumes "wf_info l" "wf_info r" and "getRank l = getRank r" and "k = AddI \<or> k = SubI"
    and "\<And>d. d < getRank l \<Longrightarrow> aligned k l r d" and "small_const (addsub_value k) l r"
    and "describes l sh A" "describes r sh B"
  shows "\<exists>i. visitAddSub k l r = Some i \<and> wf_info i \<and> describes i sh (\<lambda>ix. addsub_value k (A ix) (B ix))"
  by (rule visit_addsub_sound [OF assms])

definition splat_info :: axis_info where
  "splat_info = \<lparr>contiguity = [1], divisibility = [8], constancy = [4], constantValue = None\<rparr>"

theorem addsub_correct_witness:
  "\<exists>i. visitAddSub AddI range_info splat_info = Some i \<and> describes i [4] (\<lambda>ix. 4 + int (hd ix) + 24)"
proof -
  have w: "wf_info splat_info"
    using divisor_pow [of 2] divisor_pow [of 3] by (simp add: splat_info_def wf_info_def getRank_def)
  have s: "describes splat_info [4] (\<lambda>_. 24)"
    by (auto simp: describes_def splat_info_def getRank_def in_shape_1 line_ok_def runs_def heads_div_def repeats_def
      getContiguity_def getDivisibility_def getConstancy_def head_def)
  have "addsub_contiguity AddI range_info splat_info 0 = 4" by code_simp
  then have "\<And>d. d < getRank range_info \<Longrightarrow> aligned AddI range_info splat_info d" "getRank range_info = getRank splat_info"
    "small_const (addsub_value AddI) range_info splat_info"
    by (simp_all add: aligned_def range_info_def splat_info_def getRank_def getContiguity_def small_const_def)
  then show ?thesis
    using addsub_correct [OF sample_infos(1) w _ _ _ _ range_described s, of AddI] by (auto simp: addsub_value_def)
qed

text \<open>
  C18: for operands of one rank, the visitor of multiplication returns a well-formed info that is true
  of the elementwise product, when a folded constant does not overflow.
\<close>

theorem mul_correct:
  assumes "wf_info l" "wf_info r" and "getRank l = getRank r" and "small_const (*) l r"
    and "describes l sh A" "describes r sh B"
  shows "\<exists>i. visitMul l r = Some i \<and> wf_info i \<and> describes i sh (\<lambda>ix. A ix * B ix)"
  by (rule visit_mul_sound [OF assms])

theorem mul_correct_witness:
  "\<exists>i. visitMul range_info steps_info = Some i \<and> describes i [4] (\<lambda>ix. (4 + int (hd ix)) * (if hd ix < 2 then 0 else 4))"
proof -
  have "getRank range_info = getRank steps_info" "small_const (*) range_info steps_info"
    by (simp_all add: range_info_def steps_info_def getRank_def small_const_def)
  then show ?thesis using mul_correct [OF sample_infos _ _ range_described steps_described] by blast
qed

text \<open>
  On operands of one rank the visitors of division and remainder stop (an integer division
  without a result inside the compiler) exactly when both operands are known and the second one is 0, or they are
  the least \<open>int64_t\<close> and -1.
\<close>

theorem div_rem_stop:
  assumes "getRank l = getRank r"
  shows "(visitDiv sh l r = None \<longleftrightarrow> (\<exists>a b. constantValue l = Some a \<and> constantValue r = Some b \<and> div_traps a b)) \<and>
    (visitRem sh l r = None \<longleftrightarrow> (\<exists>a b. constantValue l = Some a \<and> constantValue r = Some b \<and> div_traps a b))"
proof -
  have d: "those (map (div_divisibility l r) [0..<n]) \<noteq> None" "those (map (rem_divisibility l r) [0..<n]) \<noteq> None" for n
    using those_map_nth [of n "div_divisibility l r" "\<lambda>d. the (div_divisibility l r d)"]
      those_map_nth [of n "rem_divisibility l r" "\<lambda>d. the (rem_divisibility l r d)"]
    by (simp_all add: div_divisibility_def rem_divisibility_def)
  have len: "those xs = Some ys \<Longrightarrow> length ys = length xs" for xs :: "int option list" and ys
    by (induction xs arbitrary: ys) (auto split: option.splits)
  have b: "visitBinary cv contig divis const l r = None \<longleftrightarrow> cv l r = None"
    if "\<And>n. those (map (divis l r) [0..<n]) \<noteq> None" for cv contig divis const
    using that [of "getRank l"] assms len [of "map (divis l r) [0..<getRank l]"]
    by (auto simp: visitBinary_def Let_def mkAxisInfo_def split: Option.bind_splits option.splits)
  show ?thesis
    unfolding visitDiv_def visitRem_def
    by (subst b [where divis = div_divisibility, OF d(1)], subst b [where divis = rem_divisibility, OF d(2)])
      (auto simp: fold_constants_def rem_constant_def split: option.splits)
qed

theorem div_rem_stop_witness:
  "visitDiv None \<lparr>contiguity = [1], divisibility = [1], constancy = [1], constantValue = Some 7\<rparr>
     \<lparr>contiguity = [1], divisibility = [1], constancy = [1], constantValue = Some 0\<rparr> = None"
  by (subst div_rem_stop [THEN conjunct1]) (simp_all add: getRank_def div_traps_def)

section \<open>Where the analysis is wrong\<close>

text \<open>
  When the groups of the operands are not aligned, the divisibility that the visitor of addition computes can be wrong:
  for the groups 4 5 6 7 and 0 0 4 4, both with divisibility 4, it reports contiguity 2 with divisibility 4,
  and the sum at index 2, the first of a group, is 10.
\<close>

theorem addsub_divisibility_wrong:
  "wf_info range_info \<and> wf_info steps_info \<and> describes range_info [4] (\<lambda>ix. 4 + int (hd ix)) \<and>
   describes steps_info [4] (\<lambda>ix. if hd ix < 2 then 0 else 4) \<and>
   visitAddSub AddI range_info steps_info = Some \<lparr>contiguity = [2], divisibility = [4], constancy = [1], constantValue = None\<rparr> \<and>
   \<not> describes \<lparr>contiguity = [2], divisibility = [4], constancy = [1], constantValue = None\<rparr> [4]
       (\<lambda>ix. (4 + int (hd ix)) + (if hd ix < 2 then 0 else 4))"
proof (intro conjI)
  let ?i = "\<lparr>contiguity = [2], divisibility = [4], constancy = [1], constantValue = None\<rparr>"
  let ?T = "\<lambda>ix. (4 + int (hd ix)) + (if hd ix < 2 then 0 else 4)"
  show "\<not> describes ?i [4] ?T"
  proof
    assume "describes ?i [4] ?T"
    from describesD [OF this, of "[0]" 0] have "line_ok ?i 0 4 (\<lambda>j. ?T [j])" by (simp add: in_shape_1)
    then have "heads_div 2 4 4 (\<lambda>j. ?T [j])" by (simp add: line_ok_def getContiguity_def getDivisibility_def)
    then have "4 dvd ?T [head 2 2]" unfolding heads_div_def by (elim allE [of _ 2]) simp
    then show False by (simp add: head_def)
  qed
  show "visitAddSub AddI range_info steps_info = Some ?i" by code_simp
qed (fact sample_infos range_described steps_described)+

definition minus_info :: axis_info where
  "minus_info = \<lparr>contiguity = [4], divisibility = [4], constancy = [1], constantValue = None\<rparr>"

definition fours_info :: axis_info where
  "fours_info = \<lparr>contiguity = [1], divisibility = [4], constancy = [4], constantValue = None\<rparr>"

text \<open>
  The constancy computed for a division assumes that the quotients of a group of the dividend are
  equal; signed division rounds towards zero, and for the group -4 -3 -2 -1 divided by 4 the reported
  constancy 4 is wrong.
\<close>

theorem div_constancy_wrong:
  "describes minus_info [4] (\<lambda>ix. int (hd ix) - 4) \<and> describes fours_info [4] (\<lambda>_. 4) \<and>
   visitDiv (Some [4]) minus_info fours_info = Some \<lparr>contiguity = [1], divisibility = [1], constancy = [4], constantValue = None\<rparr> \<and>
   (- 4 :: int) sdiv 4 \<noteq> (- 3) sdiv 4"
proof (intro conjI)
  show "visitDiv (Some [4]) minus_info fours_info = Some \<lparr>contiguity = [1], divisibility = [1], constancy = [4], constantValue = None\<rparr>"
    by code_simp
  show "describes minus_info [4] (\<lambda>ix. int (hd ix) - 4)" "describes fours_info [4] (\<lambda>_. 4)"
    by (auto simp: describes_def minus_info_def fours_info_def getRank_def in_shape_1 line_ok_def runs_def heads_div_def repeats_def
      getContiguity_def getDivisibility_def getConstancy_def head_def)
qed (simp add: signed_divide_int_def)

text \<open>
  The constant of an attribute is zero-extended, so that folding a signed comparison of a negative
  32-bit constant gives the wrong answer: -1 < 1 folds to 0.
\<close>

theorem cmp_sign_wrong:
  "\<exists>a b i. visitConstant (SplatAttr 32 (- 1) [4]) = Some a \<and> visitConstant (SplatAttr 32 1 [4]) = Some b \<and>
     visitCmp sltP (Some [4]) a b = Some i \<and> constantValue i = Some 0"
proof -
  obtain a b where a: "visitConstant (SplatAttr 32 (- 1) [4]) = Some a" and b: "visitConstant (SplatAttr 32 1 [4]) = Some b"
    by (simp add: visitConstant_def mkAxisInfo_def)
  have "constantValue a = Some 4294967295" "constantValue b = Some 1" "getRank a = 1" "getRank b = 1"
    using a b by (auto simp: visitConstant_def mkAxisInfo_def zext64_def wrap64_def getRank_def take_bit_int_def)
  then show ?thesis using a b by (auto simp: visitCmp_def mkAxisInfo_def compare_def)
qed

end
