(* ===== verification/Allocation.thy ===== *)
theory Allocation
  imports GenericSwizzling
begin

text \<open>
  The shared-memory allocation of \<open>include/triton/Analysis/Allocation.h\<close> and
  \<open>lib/Analysis/Allocation.cpp\<close>. Operations, values and buffers are numbered. A \<open>size_t\<close> is a
  \<open>nat\<close>; sizes and operation counts stay far below its bound, which only occurs as the end of the
  interval that is always live. What MLIR computes (the liveness of a value, the aliases of the
  dataflow solver, the shapes of types) is a parameter. None is a stopped compiler.
\<close>

section \<open>Intervals\<close>

definition size_max :: nat where
  "size_max = 2 ^ 64 - 1"

record interval =
  istart :: nat
  iend :: nat

definition mkInterval :: "nat \<Rightarrow> nat \<Rightarrow> interval option" where
  "mkInterval s e = (if s \<le> e then Some \<lparr>istart = s, iend = e\<rparr> else None)"

definition fullInterval :: interval where
  "fullInterval = \<lparr>istart = 0, iend = size_max\<rparr>"

definition isize :: "interval \<Rightarrow> nat" where
  "isize i = iend i - istart i"

definition icontains :: "interval \<Rightarrow> nat \<Rightarrow> bool" where
  "icontains i a \<longleftrightarrow> istart i \<le> a \<and> a < iend i"

definition intersects :: "interval \<Rightarrow> interval \<Rightarrow> bool" where
  "intersects a b \<longleftrightarrow> istart a < iend b \<and> istart b < iend a"

definition interval_less :: "interval \<Rightarrow> interval \<Rightarrow> bool" where
  "interval_less a b \<longleftrightarrow> istart a < istart b \<or> istart a = istart b \<and> iend a < iend b"

section \<open>Buffers\<close>

datatype buffer_kind = Explicit | Scratch | Virtual

type_synonym buffer_id = nat

record buffer =
  bkind :: buffer_kind
  bowner :: nat
  bsize :: nat
  balign :: nat
  boffset :: nat

text \<open>\<open>llvm::alignTo\<close>; it asserts an alignment that is not 0.\<close>

definition alignTo :: "nat \<Rightarrow> nat \<Rightarrow> nat" where
  "alignTo v a = (v + a - 1) div a * a"

definition setOffsetAligned :: "buffer \<Rightarrow> nat \<Rightarrow> buffer" where
  "setOffsetAligned b newOffset = b\<lparr>boffset := alignTo newOffset (balign b)\<rparr>"

text \<open>The state of an analysis: the buffers by id, and the maps from values and operations to them.\<close>

record allocation =
  bufferSet :: "buffer list"
  valueBuffer :: "(nat \<times> buffer_id) list"
  opScratch :: "(nat \<times> buffer_id) list"
  opVirtual :: "(nat \<times> buffer_id) list"
  aliasBuffer :: "(nat \<times> buffer_id list) list"
  sharedMemorySize :: nat

definition empty_allocation :: allocation where
  "empty_allocation = \<lparr>bufferSet = [], valueBuffer = [], opScratch = [], opVirtual = [], aliasBuffer = [], sharedMemorySize = 0\<rparr>"

definition addBuffer :: "buffer_kind \<Rightarrow> nat \<Rightarrow> nat \<Rightarrow> nat \<Rightarrow> nat \<Rightarrow> allocation \<Rightarrow> allocation" where
  "addBuffer k key owner bytes alignment a =
     (let i = length (bufferSet a);
          a' = a\<lparr>bufferSet := bufferSet a @ [\<lparr>bkind = k, bowner = owner, bsize = bytes, balign = alignment, boffset = 0\<rparr>]\<rparr>
      in case k of
           Explicit \<Rightarrow> a'\<lparr>valueBuffer := AList.update key i (valueBuffer a)\<rparr>
         | Virtual \<Rightarrow> a'\<lparr>opVirtual := AList.update key i (opVirtual a)\<rparr>
         | Scratch \<Rightarrow> a'\<lparr>opScratch := AList.update key i (opScratch a)\<rparr>)"

text \<open>An alias of a value that owns no buffer stores a null pointer, which a later pass follows: None.\<close>

definition addAlias :: "nat \<Rightarrow> nat \<Rightarrow> allocation \<Rightarrow> allocation option" where
  "addAlias v alloc a = do {
     b \<leftarrow> map_of (valueBuffer a) alloc;
     let old = (case map_of (aliasBuffer a) v of Some bs \<Rightarrow> bs | None \<Rightarrow> []);
     Some (a\<lparr>aliasBuffer := AList.update v (if b \<in> set old then old else old @ [b]) (aliasBuffer a)\<rparr>)
   }"

definition getAllocatedInterval :: "allocation \<Rightarrow> buffer_id \<Rightarrow> interval option" where
  "getAllocatedInterval a i =
     (if i < length (bufferSet a)
      then Some \<lparr>istart = boffset (bufferSet a ! i), iend = boffset (bufferSet a ! i) + bsize (bufferSet a ! i)\<rparr>
      else None)"

text \<open>\<open>getBufferId\<close> and \<open>getBufferIds\<close> of a value; None is \<open>InvalidBufferId\<close>.\<close>

definition valueBufferId :: "allocation \<Rightarrow> nat \<Rightarrow> buffer_id option" where
  "valueBufferId a v = map_of (valueBuffer a) v"

definition getBufferIds :: "allocation \<Rightarrow> nat \<Rightarrow> buffer_id list" where
  "getBufferIds a v =
     remdups ((case valueBufferId a v of Some b \<Rightarrow> [b] | None \<Rightarrow> []) @
       (case map_of (aliasBuffer a) v of Some bs \<Rightarrow> bs | None \<Rightarrow> []))"

definition opBufferId :: "allocation \<Rightarrow> nat \<Rightarrow> buffer_id option" where
  "opBufferId a op = (case map_of (opScratch a) op of Some b \<Rightarrow> Some b | None \<Rightarrow> map_of (opVirtual a) op)"

definition isVirtualBuffer :: "allocation \<Rightarrow> buffer_id \<Rightarrow> bool" where
  "isVirtualBuffer a i = (bkind (bufferSet a ! i) = Virtual)"

section \<open>Sizes\<close>

definition getNumScratchElemsSwizzledCvt :: "linear_layout \<Rightarrow> linear_layout \<Rightarrow> int \<Rightarrow> int option" where
  "getNumScratchElemsSwizzledCvt srcLayout dstLayout bitwidth = do {
     as \<leftarrow> actionRemoveBroadcastedRegs srcLayout;
     s \<leftarrow> applyAction as srcLayout;
     ad \<leftarrow> actionRemoveBroadcastedRegs dstLayout;
     d \<leftarrow> applyAction ad dstLayout;
     smem \<leftarrow> optimalSwizzlingLdSt s d bitwidth;
     reps \<leftarrow> getInDimSize smem ''reps'';
     Some (getTotalOutDimSize smem div reps)
   }"

text \<open>The result of an atomic: unused, a scalar, or a tensor with its layout and its shape per CTA.\<close>

datatype atomic_result = Unused | ScalarResult | TensorResult linear_layout "nat list"

definition getRepShapeForAtomic :: "atomic_result \<Rightarrow> nat list option" where
  "getRepShapeForAtomic r =
     (case r of
        Unused \<Rightarrow> Some []
      | ScalarResult \<Rightarrow> Some [1]
      | TensorResult l shapePerCTA \<Rightarrow>
          map_option (\<lambda>masks. if list_ex (\<lambda>(_, m). m \<noteq> 0) masks then shapePerCTA else []) (getFreeVariableMasks l))"

text \<open>\<open>getNumScratchElements\<close> of \<open>lib/Analysis/Utility.cpp\<close>: nothing for an empty shape.\<close>

definition getNumScratchElements :: "nat list \<Rightarrow> nat" where
  "getNumScratchElements shape = (if shape = [] then 0 else prod_list shape)"

text \<open>
  The operations with scratch memory and what the size depends on. The sizes of reductions, scans and
  gathers come from their lowering helpers.
\<close>

datatype scratch_op =
    ReduceScratch nat
  | ScanScratch nat
  | GatherScratch nat
  | HistogramScratch nat nat nat
  | ConvertScratch bool linear_layout linear_layout nat
  | AtomicScratch atomic_result nat
  | TensormapScratch
  | NoScratch

definition defaultScratchSize :: "scratch_op \<Rightarrow> nat option" where
  "defaultScratchSize op =
     (case op of
        ReduceScratch n \<Rightarrow> Some n
      | ScanScratch n \<Rightarrow> Some n
      | GatherScratch n \<Rightarrow> Some n
      | HistogramScratch numElements threadsPerWarp bits \<Rightarrow> Some (max numElements threadsPerWarp * bits div 8)
      | ConvertScratch needsSharedMemory src dst bits \<Rightarrow>
          if \<not> needsSharedMemory then Some 0
          else map_option (\<lambda>elems. nat elems * bits div 8) (getNumScratchElemsSwizzledCvt src dst (int bits))
      | AtomicScratch r bits \<Rightarrow>
          map_option (\<lambda>shape. let elems = getNumScratchElements shape
                              in if elems = 0 then 0 else elems * max 8 bits div 8) (getRepShapeForAtomic r)
      | TensormapScratch \<Rightarrow> Some 128
      | NoScratch \<Rightarrow> Some 0)"

section \<open>Collecting the buffers\<close>

text \<open>
  What the walk sees of an operation. A local allocation has a result value, the number of its
  elements (of the padded shape, if its encoding pads), the width of one and an alignment.
\<close>

datatype alloc_op =
    LocalAlloc bool nat nat nat nat
  | CallOp nat
  | WarpSpecialize nat nat
  | FuncOp nat
  | PlainOp

definition getExplicitValueSize :: "nat \<Rightarrow> alloc_op \<Rightarrow> allocation \<Rightarrow> allocation" where
  "getExplicitValueSize op k a =
     (case k of
        LocalAlloc isShared v numElems bits alignment \<Rightarrow>
          if isShared then addBuffer Explicit v op (numElems * bits div 8) alignment a else a
      | _ \<Rightarrow> a)"

text \<open>The byte count is an \<open>unsigned\<close>; without an explicit alignment the buffer has alignment 4.\<close>

definition maybeAddScratchBuffer :: "buffer_kind \<Rightarrow> nat \<Rightarrow> nat \<Rightarrow> nat \<Rightarrow> allocation \<Rightarrow> allocation" where
  "maybeAddScratchBuffer k op bytes alignment a =
     (let b = bytes mod 2 ^ 32 in if 0 < b then addBuffer k op op b alignment a else a)"

definition getScratchValueSize ::
  "(nat \<Rightarrow> nat) \<Rightarrow> (nat \<Rightarrow> nat option) \<Rightarrow> nat \<Rightarrow> alloc_op \<Rightarrow> allocation \<Rightarrow> allocation option" where
  "getScratchValueSize calleeSize scratchSize op k a =
     (case k of
        CallOp callee \<Rightarrow> Some (maybeAddScratchBuffer Virtual op (calleeSize callee) 128 a)
      | WarpSpecialize captureSize captureAlign \<Rightarrow> Some (maybeAddScratchBuffer Scratch op captureSize captureAlign a)
      | FuncOp numWarpIndices \<Rightarrow> Some (maybeAddScratchBuffer Scratch op numWarpIndices 4 a)
      | _ \<Rightarrow> map_option (\<lambda>bytes. maybeAddScratchBuffer Scratch op bytes 128 a) (scratchSize op))"

text \<open>The aliases are pairs of a value and an allocated value, in the order of the walk.\<close>

definition getValuesAndSizes ::
  "(nat \<Rightarrow> nat) \<Rightarrow> (nat \<Rightarrow> nat option) \<Rightarrow> (nat \<times> alloc_op) list \<Rightarrow> (nat \<times> nat) list \<Rightarrow> allocation option" where
  "getValuesAndSizes calleeSize scratchSize ops aliases = do {
     a \<leftarrow> fold (\<lambda>(op, k) acc. do {
            s \<leftarrow> acc;
            getScratchValueSize calleeSize scratchSize op k (getExplicitValueSize op k s)
          }) ops (Some empty_allocation);
     fold (\<lambda>(v, alloc) acc. do {s \<leftarrow> acc; addAlias v alloc s}) aliases (Some a)
   }"

section \<open>Liveness\<close>

datatype op_tree = OpNode nat "op_tree list"

text \<open>The walk in post-order, in which a parent comes after its children; an operation's id is its place.\<close>

fun postorder :: "op_tree \<Rightarrow> nat list" where
  "postorder (OpNode op children) = concat (map postorder children) @ [op]"

definition operationId :: "op_tree \<Rightarrow> nat \<Rightarrow> nat option" where
  "operationId t op = index_of op (postorder t)"

definition getValueLivenessRange :: "(nat \<Rightarrow> nat) \<Rightarrow> nat list \<Rightarrow> interval option" where
  "getValueLivenessRange opId liveOps =
     mkInterval (fold (\<lambda>o' m. min m (opId o')) liveOps size_max) (fold (\<lambda>o' m. max m (opId o' + 1)) liveOps 0)"

type_synonym buffer_range = "(buffer_id \<times> interval) list"

definition resolveExplicitBufferLiveness :: "(nat \<Rightarrow> interval option) \<Rightarrow> allocation \<Rightarrow> buffer_range option" where
  "resolveExplicitBufferLiveness live a =
     fold (\<lambda>(v, b) acc. do {r \<leftarrow> acc; i \<leftarrow> live v; Some (AList.update b i r)}) (valueBuffer a) (Some [])"

definition extend_range :: "interval \<Rightarrow> buffer_id \<Rightarrow> buffer_range \<Rightarrow> buffer_range option" where
  "extend_range rng b r = do {
     i \<leftarrow> (case map_of r b of
            Some old \<Rightarrow> mkInterval (min (istart rng) (istart old)) (max (iend rng) (iend old))
          | None \<Rightarrow> mkInterval (istart rng) (iend rng));
     Some (AList.update b i r)
   }"

definition resolveAliasBufferLiveness :: "(nat \<Rightarrow> interval option) \<Rightarrow> allocation \<Rightarrow> buffer_range \<Rightarrow> buffer_range option" where
  "resolveAliasBufferLiveness live a r0 =
     fold (\<lambda>(v, bs) acc. do {
         r \<leftarrow> acc;
         rng \<leftarrow> live v;
         fold (\<lambda>b acc'. do {r' \<leftarrow> acc'; extend_range rng b r'}) bs (Some r)
       }) (aliasBuffer a) (Some r0)"

text \<open>\<open>insert\<close> keeps the range of a buffer that has one. The buffer of the analysed function itself is
  always live.\<close>

definition resolveScratchBufferLiveness :: "(nat \<Rightarrow> nat option) \<Rightarrow> nat \<Rightarrow> allocation \<Rightarrow> buffer_range \<Rightarrow> buffer_range option" where
  "resolveScratchBufferLiveness opId root a r0 =
     fold (\<lambda>(op, b) acc. do {
         r \<leftarrow> acc;
         i \<leftarrow> (if op = root then Some fullInterval
               else map_option (\<lambda>n. \<lparr>istart = n, iend = n + 1\<rparr>) (opId op));
         Some (if map_of r b = None then r @ [(b, i)] else r)
       }) (opScratch a @ opVirtual a) (Some r0)"

definition resolveLiveness :: "op_tree \<Rightarrow> (nat \<Rightarrow> nat list) \<Rightarrow> allocation \<Rightarrow> buffer_range option" where
  "resolveLiveness t liveOps a = do {
     let root = (case t of OpNode op _ \<Rightarrow> op);
     let opId = (\<lambda>op. case operationId t op of Some n \<Rightarrow> n | None \<Rightarrow> 0);
     let live = (\<lambda>v. getValueLivenessRange opId (liveOps v));
     r1 \<leftarrow> resolveExplicitBufferLiveness live a;
     r2 \<leftarrow> resolveAliasBufferLiveness live a r1;
     resolveScratchBufferLiveness (operationId t) root a r2
   }"

section \<open>Initial offsets\<close>

text \<open>
  From here on a buffer is worked on together with its live range, its id and the asynchronous
  region it runs in: the enclosing operation with the \<open>AsyncRegions\<close> trait, if there is one, and
  the region of the owner.
\<close>

record live_buffer = buffer +
  lid :: buffer_id
  lrange :: interval
  lasync :: "nat option"
  lregion :: nat

text \<open>A \<open>std::multimap\<close>: sorted by key, an insertion after the entries with the same key.\<close>

type_synonym triple_map = "(nat \<times> interval) list"

fun triple_insert :: "nat \<Rightarrow> interval \<Rightarrow> triple_map \<Rightarrow> triple_map" where
  "triple_insert k i [] = [(k, i)]"
| "triple_insert k i ((k', i') # m) = (if k < k' then (k, i) # (k', i') # m else (k', i') # triple_insert k i m)"

definition fits_triple :: "triple_map \<Rightarrow> interval \<Rightarrow> 'a live_buffer_scheme \<Rightarrow> bool" where
  "fits_triple m rng x \<longleftrightarrow> intersects (lrange x) rng \<and> list_all (\<lambda>(_, r). \<not> intersects r (lrange x)) m"

definition split_triple :: "nat \<Rightarrow> interval \<Rightarrow> interval \<Rightarrow> nat \<Rightarrow> triple_map \<Rightarrow> triple_map" where
  "split_triple offset rng xRange high m =
     (let m1 = triple_insert high \<lparr>istart = max (istart rng) (istart xRange), iend = min (iend rng) (iend xRange)\<rparr> m;
          m2 = (if istart rng < istart xRange
                then triple_insert offset \<lparr>istart = istart rng, iend = iend xRange\<rparr> m1 else m1)
      in if iend xRange < iend rng
         then triple_insert offset \<lparr>istart = istart xRange, iend = iend rng\<rparr> m2 else m2)"

text \<open>Reading the first triple of an empty map is undefined behaviour: None.\<close>

lemma triple_insert_length [simp]: "length (triple_insert k i m) = Suc (length m)"
  by (induction m) auto

lemma split_triple_length: "length (split_triple offset rng xRange high m) \<le> length m + 3"
  by (simp add: split_triple_def Let_def)

lemma find_member: "find P xs = Some x \<Longrightarrow> x \<in> set xs \<and> P x"
  by (auto simp: find_Some_iff)

function starts_loop :: "triple_map \<Rightarrow> live_buffer list \<Rightarrow> live_buffer list \<Rightarrow> live_buffer list option" where
  "starts_loop m [] placed = Some placed"
| "starts_loop [] (x # xs) placed = None"
| "starts_loop ((offset, rng) # m) (x # xs) placed =
     (case find (fits_triple m rng) (x # xs) of
        None \<Rightarrow> starts_loop m (x # xs) placed
      | Some b \<Rightarrow>
          let b' = b\<lparr>boffset := alignTo offset (balign b)\<rparr>
          in starts_loop (split_triple offset rng (lrange b) (boffset b' + bsize b) m) (remove1 b (x # xs)) (b' # placed))"
  by pat_completeness auto
termination
proof (relation "measure (\<lambda>(m, xs, _). length m + 4 * length xs)", goal_cases)
  case (3 offset rng m x xs placed b b')
  have "length (remove1 b (x # xs)) = length xs" 
    using find_member [OF 3(1)] length_remove1 [of b "x # xs"] by (simp del: remove1.simps)
  then show ?case using split_triple_length [of offset rng "lrange b" "boffset b' + bsize b" m] by simp
qed auto

text \<open>The buffers in their order, each with the offset it was given.\<close>

definition calculateStarts :: "live_buffer list \<Rightarrow> live_buffer list option" where
  "calculateStarts buffers =
     map_option (\<lambda>placed. map (\<lambda>b. case find (\<lambda>p. lid p = lid b) placed of Some p \<Rightarrow> p | None \<Rightarrow> b) buffers)
       (starts_loop [(0, fullInterval)] buffers [])"

section \<open>Interference and colouring\<close>

definition sizeRange :: "'a buffer_scheme \<Rightarrow> interval" where
  "sizeRange b = \<lparr>istart = boffset b, iend = boffset b + bsize b\<rparr>"

text \<open>Two buffers that can be in use at the same time.\<close>

definition concurrent :: "live_buffer \<Rightarrow> live_buffer \<Rightarrow> bool" where
  "concurrent x y \<longleftrightarrow>
     intersects (lrange x) (lrange y) \<or>
     lasync x \<noteq> None \<and> lasync x = lasync y \<and> lregion x \<noteq> lregion y"

definition interferes :: "live_buffer \<Rightarrow> live_buffer \<Rightarrow> bool" where
  "interferes x y \<longleftrightarrow> concurrent x y \<and> intersects (sizeRange x) (sizeRange y)"

text \<open>The adjacency lists of the graph, by the position of a buffer.\<close>

definition buildInterferenceGraph :: "live_buffer list \<Rightarrow> nat list list" where
  "buildInterferenceGraph bs =
     map (\<lambda>i. filter (\<lambda>j. i \<noteq> j \<and> interferes (bs ! i) (bs ! j)) [0..<length bs]) [0..<length bs]"

definition graph_empty :: "nat list list \<Rightarrow> bool" where
  "graph_empty g = list_all (\<lambda>ys. ys = []) g"

definition first_free :: "nat \<Rightarrow> int list \<Rightarrow> int" where
  "first_free n used = (case find (\<lambda>c. int c \<notin> set used) [0..<n] of Some c \<Rightarrow> int c | None \<Rightarrow> int n)"

definition color_buffers :: "nat list list \<Rightarrow> int list" where
  "color_buffers g =
     (let n = length g
      in fold (\<lambda>i colors. colors[i := first_free n (map (\<lambda>j. colors ! j) (g ! i))]) [0..<n]
           (map (\<lambda>i. if i = 0 then 0 else - 1) [0..<n]))"

text \<open>One step of the final loop, which reads the offsets that earlier steps have moved.\<close>

definition move_buffer :: "nat list list \<Rightarrow> int list \<Rightarrow> nat \<Rightarrow> live_buffer list \<Rightarrow> live_buffer list" where
  "move_buffer g colors i bs =
     (if colors ! i \<noteq> 0
      then bs[i := (bs ! i)\<lparr>boffset := alignTo (fold (\<lambda>j m. max m (boffset (bs ! j) + bsize (bs ! j))) (g ! i) 0)
                                        (balign (bs ! i))\<rparr>]
      else bs)"

definition allocate :: "live_buffer list \<Rightarrow> nat list list \<Rightarrow> live_buffer list \<times> nat" where
  "allocate bs g =
     (let colors = color_buffers g
      in fold (\<lambda>i (bs', total). let bs'' = move_buffer g colors i bs'
               in (bs'', max total (boffset (bs'' ! i) + bsize (bs'' ! i)))) [0..<length bs] (bs, 0))"

section \<open>One round of the colouring\<close>

definition statics :: "live_buffer \<Rightarrow> nat \<times> nat \<times> interval \<times> nat option \<times> nat \<times> nat" where
  "statics b = (bsize b, balign b, lrange b, lasync b, lregion b, lid b)"

lemma statics_offset [simp]: "statics (b\<lparr>boffset := v\<rparr>) = statics b"
  by (simp add: statics_def)

lemma staticsD: "statics a = statics b \<Longrightarrow> bsize a = bsize b \<and> balign a = balign b \<and> lrange a = lrange b \<and>
    lasync a = lasync b \<and> lregion a = lregion b \<and> lid a = lid b"
  by (simp add: statics_def)

lemma concurrent_statics: "statics a = statics a' \<Longrightarrow> statics b = statics b' \<Longrightarrow> concurrent a b = concurrent a' b'"
  by (simp add: concurrent_def statics_def)

lemma concurrent_sym: "concurrent x y = concurrent y x"
  by (auto simp: concurrent_def intersects_def)

lemma interferes_sym: "interferes x y = interferes y x"
  by (auto simp: interferes_def concurrent_sym intersects_def)

lemma alignTo_ge: "0 < a \<Longrightarrow> v \<le> alignTo v a"
proof -
  assume a: "0 < a"
  have "v + a - 1 = (v + a - 1) div a * a + (v + a - 1) mod a" by simp
  moreover have "(v + a - 1) mod a < a" using a by simp
  ultimately show ?thesis unfolding alignTo_def by linarith
qed

lemma alignTo_dvd: "a dvd alignTo v a"
  by (simp add: alignTo_def)

definition moved :: "nat list list \<Rightarrow> int list \<Rightarrow> nat \<Rightarrow> live_buffer list \<Rightarrow> live_buffer list" where
  "moved g colors n bs = fold (move_buffer g colors) [0..<n] bs"

lemma moved_0 [simp]: "moved g colors 0 bs = bs"
  by (simp add: moved_def)

lemma moved_Suc: "moved g colors (Suc n) bs = move_buffer g colors n (moved g colors n bs)"
  by (simp add: moved_def)

lemma length_move [simp]: "length (move_buffer g colors i bs) = length bs"
  by (simp add: move_buffer_def)

lemma length_moved [simp]: "length (moved g colors n bs) = length bs"
  by (induction n) (simp_all add: moved_Suc)

lemma move_nth_other: "k \<noteq> i \<Longrightarrow> move_buffer g colors i bs ! k = bs ! k"
  by (simp add: move_buffer_def)

lemma statics_move: "statics (move_buffer g colors i bs ! k) = statics (bs ! k)"
  by (cases "k = i"; cases "i < length bs") (auto simp: move_buffer_def list_update_beyond)

lemma statics_moved: "statics (moved g colors n bs ! k) = statics (bs ! k)"
  by (induction n) (simp_all add: moved_Suc statics_move)

lemma moved_later: "n \<le> k \<Longrightarrow> moved g colors n bs ! k = bs ! k"
  by (induction n) (simp_all add: moved_Suc move_nth_other)

lemma moved_zero: "colors ! k = 0 \<Longrightarrow> moved g colors n bs ! k = bs ! k"
proof (induction n)
  case (Suc n)
  then show ?case by (cases "k = n") (simp_all add: moved_Suc move_nth_other move_buffer_def)
qed simp

lemma moved_settled: "k < n \<Longrightarrow> moved g colors n bs ! k = moved g colors (Suc k) bs ! k"
proof (induction n)
  case (Suc n)
  then show ?case by (cases "k = n") (simp_all add: moved_Suc [of _ _ n] move_nth_other)
qed simp

lemma fold_max_ge: "j \<in> set js \<Longrightarrow> (f j :: nat) \<le> fold (\<lambda>j m. max m (f j)) js a"
proof (induction js arbitrary: a)
  case (Cons k js)
  have mono: "b \<le> fold (\<lambda>j m. max m (f j)) js b" for b
    by (induction js arbitrary: b) (auto intro: order_trans [OF max.cobounded1])
  show ?case using Cons mono [of "max a (f k)"] by (auto intro: order_trans [OF _ mono])
qed simp

lemma fst_allocate: "fst (allocate bs g) = moved g (color_buffers g) (length bs) bs"
proof -
  have "fst (fold (\<lambda>i (bs', total). let bs'' = move_buffer g c i bs' in (bs'', max total (boffset (bs'' ! i) + bsize (bs'' ! i)))) is (b0, t)) =
      fold (move_buffer g c) is b0" for c "is" b0 t
    by (induction "is" arbitrary: b0 t) (auto simp: Let_def)
  then show ?thesis by (simp add: allocate_def moved_def)
qed

subsection \<open>Colours\<close>

definition coloring :: "nat list list \<Rightarrow> nat \<Rightarrow> int list" where
  "coloring g k = fold (\<lambda>i colors. colors[i := first_free (length g) (map (\<lambda>j. colors ! j) (g ! i))]) [0..<k]
     (map (\<lambda>i. if i = 0 then 0 else - 1) [0..<length g])"

lemma color_buffers_eq: "color_buffers g = coloring g (length g)"
  by (simp add: color_buffers_def coloring_def Let_def)

lemma coloring_Suc: "coloring g (Suc k) = (coloring g k)[k := first_free (length g) (map (\<lambda>j. coloring g k ! j) (g ! k))]"
  by (simp add: coloring_def)

lemma length_coloring [simp]: "length (coloring g k) = length g"
  by (induction k) (simp_all add: coloring_Suc, simp add: coloring_def)

lemma coloring_later: "k \<le> j \<Longrightarrow> j < length g \<Longrightarrow> coloring g k ! j = (if j = 0 then 0 else - 1)"
proof (induction k)
  case 0
  then show ?case by (simp add: coloring_def nth_map [of j "[0..<length g]"])
qed (simp add: coloring_Suc)

lemma coloring_settled: "j < k \<Longrightarrow> coloring g k ! j = coloring g (Suc j) ! j"
proof (induction k)
  case (Suc k)
  then show ?case by (cases "j = k") (simp_all add: coloring_Suc [of _ k])
qed simp

lemma first_free_zero: "0 < n \<Longrightarrow> first_free n used = 0 \<longleftrightarrow> 0 \<notin> set used"
proof -
  assume "0 < n"
  then have e: "[0..<n] = 0 # [1..<n]" by (simp add: upt_conv_Cons)
  show ?thesis
  proof (cases "find (\<lambda>c. int c \<notin> set used) [1..<n]")
    case None
    then show ?thesis using \<open>0 < n\<close> unfolding first_free_def e by simp
  next
    case (Some c)
    have "c \<in> set [1..<n]" using find_member [OF Some] by simp
    then show ?thesis using Some unfolding first_free_def e by simp
  qed
qed

definition graph_ok :: "nat list list \<Rightarrow> bool" where
  "graph_ok g \<longleftrightarrow> (\<forall>i < length g. \<forall>j \<in> set (g ! i). j < length g \<and> j \<noteq> i \<and> i \<in> set (g ! j))"

text \<open>A buffer keeps its offset unless an earlier neighbour keeps its own.\<close>

lemma color_zero_iff:
  assumes g: "graph_ok g" and i: "i < length g"
  shows "color_buffers g ! i = 0 \<longleftrightarrow> (\<forall>j \<in> set (g ! i). j < i \<longrightarrow> color_buffers g ! j \<noteq> 0)"
proof -
  have eq: "coloring g i ! j = 0 \<longleftrightarrow> j < i \<and> color_buffers g ! j = 0" if j: "j \<in> set (g ! i)" for j
  proof -
    have jl: "j < length g" "j \<noteq> i" using g [unfolded graph_ok_def, rule_format, OF i j] by simp_all
    show ?thesis
    proof (cases "j < i")
      case True
      have "coloring g i ! j = color_buffers g ! j"
        unfolding color_buffers_eq using coloring_settled [OF True, of g] coloring_settled [OF jl(1)] by simp
      then show ?thesis using True by simp
    next
      case False
      then show ?thesis using coloring_later [of i j g] jl by simp
    qed
  qed
  have "color_buffers g ! i = first_free (length g) (map (\<lambda>j. coloring g i ! j) (g ! i))"
    unfolding color_buffers_eq coloring_settled [OF i] using i by (simp add: coloring_Suc)
  moreover have "0 < length g" using i by (cases g) simp_all
  ultimately have "color_buffers g ! i = 0 \<longleftrightarrow> 0 \<notin> set (map (\<lambda>j. coloring g i ! j) (g ! i))"
    by (simp only: first_free_zero)
  also have "\<dots> \<longleftrightarrow> (\<forall>j \<in> set (g ! i). coloring g i ! j \<noteq> 0)" by auto
  finally show ?thesis using eq by auto
qed

lemma graph_length [simp]: "length (buildInterferenceGraph bs) = length bs"
  by (simp add: buildInterferenceGraph_def)

lemma graph_nth: "i < length bs \<Longrightarrow> set (buildInterferenceGraph bs ! i) = {j. j < length bs \<and> j \<noteq> i \<and> interferes (bs ! i) (bs ! j)}"
  by (auto simp: buildInterferenceGraph_def)

lemma graph_ok_build: "graph_ok (buildInterferenceGraph bs)"
  using interferes_sym by (auto simp: graph_ok_def graph_nth)

lemma graph_empty_iff:
  "graph_empty (buildInterferenceGraph bs) \<longleftrightarrow> (\<forall>i < length bs. \<forall>j < length bs. i \<noteq> j \<longrightarrow> \<not> interferes (bs ! i) (bs ! j))"
proof -
  have "graph_empty g \<longleftrightarrow> (\<forall>i < length g. set (g ! i) = {})" for g :: "nat list list"
    by (auto simp: graph_empty_def list_all_length)
  then have "graph_empty (buildInterferenceGraph bs) \<longleftrightarrow> (\<forall>i < length bs. set (buildInterferenceGraph bs ! i) = {})"
    by simp
  then show ?thesis by (simp add: graph_nth del: set_empty) blast
qed

subsection \<open>Progress\<close>

text \<open>The earlier buffers a buffer may still have to move past.\<close>

definition below :: "live_buffer list \<Rightarrow> nat \<Rightarrow> nat" where
  "below bs j = length (filter (\<lambda>i. concurrent (bs ! i) (bs ! j) \<and> boffset (bs ! j) < boffset (bs ! i) + bsize (bs ! i)) [0..<j])"

definition progress :: "live_buffer list \<Rightarrow> nat list" where
  "progress bs = map (below bs) [0..<length bs]"

definition aligned_buffers :: "live_buffer list \<Rightarrow> bool" where
  "aligned_buffers bs = list_all (\<lambda>b. 0 < balign b) bs"

lemma moved_above:
  assumes i: "i < length bs" and a: "0 < balign (bs ! i)" and c: "color_buffers g ! i \<noteq> 0"
    and j: "j \<in> set (g ! i)" "color_buffers g ! j = 0"
  shows "boffset (bs ! j) + bsize (bs ! j) \<le> boffset (moved g (color_buffers g) (length bs) bs ! i)"
proof -
  let ?c = "color_buffers g" and ?m = "\<lambda>n. moved g (color_buffers g) n bs"
  have "boffset (bs ! j) + bsize (bs ! j) = boffset (?m i ! j) + bsize (?m i ! j)" using moved_zero [OF j(2)] by simp
  also have "\<dots> \<le> fold (\<lambda>j m. max m (boffset (?m i ! j) + bsize (?m i ! j))) (g ! i) 0" by (rule fold_max_ge [OF j(1)])
  also have "\<dots> \<le> alignTo \<dots> (balign (?m i ! i))"
    using a staticsD [OF statics_moved [of g ?c i bs i]] by (intro alignTo_ge) simp
  also have "\<dots> = boffset (?m (Suc i) ! i)" using i c by (simp add: moved_Suc move_buffer_def)
  finally show ?thesis using moved_settled [OF i, of g ?c bs] by simp
qed

lemma round_progress:
  fixes bs :: "live_buffer list"
  defines "g \<equiv> buildInterferenceGraph bs"
  assumes a: "aligned_buffers bs" and ne: "\<not> graph_empty g"
  shows "(progress (fst (allocate bs g)), progress bs) \<in> lenlex less_than"
proof -
  let ?c = "color_buffers g" and ?bs = "fst (allocate bs g)" and ?n = "length bs"
  have m: "?bs = moved g ?c ?n bs" by (rule fst_allocate)
  have gl: "length g = ?n" and ok: "graph_ok g" by (simp_all add: g_def graph_ok_build)
  have "\<exists>i < ?n. ?c ! i \<noteq> 0"
  proof -
    obtain i j where "i < ?n" "j < ?n" "i \<noteq> j" "interferes (bs ! i) (bs ! j)" using ne by (auto simp: g_def graph_empty_iff)
    then have "j \<in> set (g ! i)" "i \<in> set (g ! j)" using interferes_sym by (auto simp: g_def graph_nth)
    then show ?thesis using color_zero_iff [OF ok, of i] color_zero_iff [OF ok, of j] \<open>i < ?n\<close> \<open>j < ?n\<close> \<open>i \<noteq> j\<close> gl
      by (metis nat_neq_iff)
  qed
  define j where "j = (LEAST i. i < ?n \<and> ?c ! i \<noteq> 0)"
  have j: "j < ?n" "?c ! j \<noteq> 0" using LeastI_ex [OF \<open>\<exists>i < ?n. ?c ! i \<noteq> 0\<close>] by (simp_all add: j_def)
  have z: "?c ! i = 0" if "i < j" for i using not_less_Least [of i "\<lambda>i. i < ?n \<and> ?c ! i \<noteq> 0"] that j(1) by (auto simp: j_def)
  have same: "?bs ! i = bs ! i" if "i < j" for i unfolding m by (rule moved_zero [OF z [OF that]])
  have st: "statics (?bs ! k) = statics (bs ! k)" for k unfolding m by (rule statics_moved)
  have eq: "below ?bs i = below bs i" if "i < j" for i
    unfolding below_def using same that by (intro arg_cong [where f = length] filter_cong) auto
  obtain k where k: "k \<in> set (g ! j)" "k < j" "?c ! k = 0" using color_zero_iff [OF ok, of j] j gl by auto
  have kj: "interferes (bs ! j) (bs ! k)" using k j by (simp add: g_def graph_nth)
  have up: "boffset (bs ! k) + bsize (bs ! k) \<le> boffset (?bs ! j)"
    unfolding m using a j k by (intro moved_above) (auto simp: aligned_buffers_def list_all_length)
  have lower: "boffset (bs ! j) < boffset (bs ! k) + bsize (bs ! k)" using kj by (simp add: interferes_def intersects_def sizeRange_def)
  let ?P = "\<lambda>b i. concurrent (b ! i) (b ! j) \<and> boffset (b ! j) < boffset (b ! i) + bsize (b ! i)"
  have P: "?P ?bs i \<Longrightarrow> ?P bs i" if "i < j" for i
    using same [OF that] concurrent_statics [OF refl st, of "bs ! i" j] up lower by auto
  have "{i \<in> {0..<j}. ?P ?bs i} \<subset> {i \<in> {0..<j}. ?P bs i}"
  proof
    show "{i \<in> {0..<j}. ?P ?bs i} \<subseteq> {i \<in> {0..<j}. ?P bs i}" using P by auto
    have "k \<in> {i \<in> {0..<j}. ?P bs i}" using k kj lower by (simp add: interferes_def concurrent_sym)
    moreover have "k \<notin> {i \<in> {0..<j}. ?P ?bs i}" using same [OF k(2)] up by auto
    ultimately show "{i \<in> {0..<j}. ?P ?bs i} \<noteq> {i \<in> {0..<j}. ?P bs i}" by blast
  qed
  then have "card {i \<in> {0..<j}. ?P ?bs i} < card {i \<in> {0..<j}. ?P bs i}" by (intro psubset_card_mono) auto
  moreover have card: "below b j = card {i \<in> {0..<j}. ?P b i}" for b
  proof -
    have "below b j = card (set (filter (?P b) [0..<j]))" unfolding below_def by (rule distinct_card [symmetric]) simp
    then show ?thesis by (simp add: Collect_conj_eq inf_commute atLeast0LessThan)
  qed
  ultimately have dec: "below ?bs j < below bs j" by simp
  have len: "length ?bs = ?n" unfolding m by simp
  have split: "progress b = map (below b) [0..<j] @ below b j # map (below b) [Suc j..<?n]" if "length b = ?n" for b
    using j(1) that upt_add_eq_append [of 0 j "?n - j"] upt_conv_Cons [OF j(1)] by (simp add: progress_def)
  have pre: "map (below ?bs) [0..<j] = map (below bs) [0..<j]" using eq by auto
  show ?thesis unfolding split [OF len] split [OF refl] pre
    using dec by (auto simp: lenlex_conv lex_conv)
qed

lemma aligned_round: "aligned_buffers (fst (allocate bs g)) = aligned_buffers bs"
  using staticsD [OF statics_moved [of g "color_buffers g" "length bs" bs]]
  by (simp add: aligned_buffers_def list_all_length fst_allocate)

section \<open>The fixed point\<close>

text \<open>
  The \<open>do ... while\<close> loop of \<open>computeOffsets\<close>: it colours and moves the buffers until none interfere.
  An alignment of 0 is a failed assertion of \<open>alignTo\<close>.
\<close>

lemma empty_graph_round:
  assumes "graph_empty (buildInterferenceGraph bs)"
  shows "fst (allocate bs (buildInterferenceGraph bs)) = bs"
proof (rule nth_equalityI)
  let ?g = "buildInterferenceGraph bs"
  show "length (fst (allocate bs ?g)) = length bs" by (simp add: fst_allocate)
  fix i assume "i < length (fst (allocate bs ?g))"
  then have i: "i < length bs" by (simp add: fst_allocate)
  have "?g ! i = []" using assms i by (simp add: graph_empty_def list_all_length)
  then have "color_buffers ?g ! i = 0" using color_zero_iff [OF graph_ok_build, of i bs] i by simp
  then show "fst (allocate bs ?g) ! i = bs ! i" unfolding fst_allocate by (rule moved_zero)
qed

function color_loop :: "live_buffer list \<Rightarrow> (live_buffer list \<times> nat) option" where
  "color_loop bs =
     (if \<not> aligned_buffers bs then None
      else let (bs', total) = allocate bs (buildInterferenceGraph bs)
           in if graph_empty (buildInterferenceGraph bs') then Some (bs', total) else color_loop bs')"
  by pat_completeness auto
termination
proof (relation "inv_image (lenlex less_than) progress", goal_cases)
  case 1
  then show ?case by (simp add: wf_lenlex)
next
  case (2 bs x bs' total)
  then have e: "fst (allocate bs (buildInterferenceGraph bs)) = bs'" by (metis fst_conv)
  have "\<not> graph_empty (buildInterferenceGraph bs)" using 2(4) empty_graph_round [of bs] e by auto
  then show ?case using round_progress [of bs] 2(1) e by simp
qed

declare color_loop.simps [simp del]

definition sort_buffers :: "live_buffer list \<Rightarrow> live_buffer list" where
  "sort_buffers bs = sort_key (\<lambda>b. - int (bsize b)) bs"

definition computeOffsets :: "live_buffer list \<Rightarrow> (live_buffer list \<times> nat) option" where
  "computeOffsets buffers = do {
     placed \<leftarrow> calculateStarts (sort_buffers buffers);
     color_loop placed
   }"

text \<open>The whole analysis of one operation; the offsets go back into the buffers.\<close>

definition live_buffers :: "(nat \<Rightarrow> nat option) \<Rightarrow> (nat \<Rightarrow> nat) \<Rightarrow> allocation \<Rightarrow> buffer_range \<Rightarrow> live_buffer list" where
  "live_buffers asyncParent region a r =
     map (\<lambda>(i, rng). let b = bufferSet a ! i in
       \<lparr>bkind = bkind b, bowner = bowner b, bsize = bsize b, balign = balign b, boffset = boffset b,
        lid = i, lrange = rng, lasync = asyncParent (bowner b), lregion = region (bowner b)\<rparr>) r"

definition store_offsets :: "live_buffer list \<Rightarrow> nat \<Rightarrow> allocation \<Rightarrow> allocation" where
  "store_offsets bs sz a =
     a\<lparr>bufferSet := fold (\<lambda>b set. set[lid b := (set ! lid b)\<lparr>boffset := boffset b\<rparr>]) bs (bufferSet a),
       sharedMemorySize := sz\<rparr>"

definition runAllocation ::
  "(nat \<Rightarrow> nat) \<Rightarrow> (nat \<Rightarrow> nat option) \<Rightarrow> (nat \<times> alloc_op) list \<Rightarrow> (nat \<times> nat) list \<Rightarrow>
   op_tree \<Rightarrow> (nat \<Rightarrow> nat list) \<Rightarrow> (nat \<Rightarrow> nat option) \<Rightarrow> (nat \<Rightarrow> nat) \<Rightarrow> allocation option" where
  "runAllocation calleeSize scratchSize ops aliases t liveOps asyncParent region = do {
     a \<leftarrow> getValuesAndSizes calleeSize scratchSize ops aliases;
     r \<leftarrow> resolveLiveness t liveOps a;
     (bs, total) \<leftarrow> computeOffsets (live_buffers asyncParent region a r);
     Some (store_offsets bs total a)
   }"

text \<open>The buffers live at each operation: its own scratch buffer and those of live results.\<close>

definition getLiveBuffers :: "allocation \<Rightarrow> (nat \<times> nat list) list \<Rightarrow> (nat \<Rightarrow> nat list) \<Rightarrow> (nat \<times> buffer_id list) list" where
  "getLiveBuffers a walk liveOps =
     fold (\<lambda>(op, results) m.
         let add = (\<lambda>o' b m. AList.update o' ((case map_of m o' of Some bs \<Rightarrow> bs | None \<Rightarrow> []) @ [b]) m);
             m1 = (case opBufferId a op of Some b \<Rightarrow> add op b m | None \<Rightarrow> m)
         in fold (\<lambda>res m. case valueBufferId a res of
               None \<Rightarrow> m
             | Some b \<Rightarrow> fold (\<lambda>o' m. add o' b m) (liveOps res) m) results m1)
       walk []"

definition moduleSharedMemorySize :: "nat list \<Rightarrow> nat" where
  "moduleSharedMemorySize sizes = fold max sizes 0"

subsection \<open>The result is safe\<close>

definition fits_in :: "nat \<Rightarrow> live_buffer list \<Rightarrow> bool" where
  "fits_in sz bs \<longleftrightarrow> (\<forall>b \<in> set bs. boffset b + bsize b \<le> sz)"

lemma allocate_total: "fits_in (snd (allocate bs g)) (fst (allocate bs g))"
proof -
  let ?c = "color_buffers g"
  define step where "step i s = (case s of (bs', sz) \<Rightarrow> let bs'' = move_buffer g ?c i bs'
               in (bs'', max sz (boffset (bs'' ! i) + bsize (bs'' ! i))))" for i s
  have f: "fst (fold step [0..<n] (bs, 0)) = moved g ?c n bs" for n
    by (induction n) (auto simp: step_def moved_Suc Let_def split: prod.splits)
  have "\<forall>k < n. boffset (moved g ?c n bs ! k) + bsize (moved g ?c n bs ! k) \<le> snd (fold step [0..<n] (bs, 0))" for n
  proof (induction n)
    case (Suc n)
    obtain b t where bt: "fold step [0..<n] (bs, 0) = (b, t)" by (cases "fold step [0..<n] (bs, 0)")
    have b: "b = moved g ?c n bs" using f [of n] bt by simp
    have s: "snd (fold step [0..<Suc n] (bs, 0)) = max t (boffset (moved g ?c (Suc n) bs ! n) + bsize (moved g ?c (Suc n) bs ! n))"
      by (simp add: bt step_def moved_Suc b Let_def)
    show ?case
    proof (intro allI impI)
      fix k assume k: "k < Suc n"
      show "boffset (moved g ?c (Suc n) bs ! k) + bsize (moved g ?c (Suc n) bs ! k) \<le> snd (fold step [0..<Suc n] (bs, 0))"
      proof (cases "k = n")
        case True
        then show ?thesis unfolding s by simp
      next
        case False
        then have "moved g ?c (Suc n) bs ! k = moved g ?c n bs ! k" by (simp add: moved_Suc move_nth_other)
        then show ?thesis unfolding s using Suc k False bt by (simp add: max.coboundedI1)
      qed
    qed
  qed simp
  moreover have "allocate bs g = fold step [0..<length bs] (bs, 0)"
    by (simp add: allocate_def step_def [abs_def] Let_def case_prod_unfold)
  moreover have "fst (fold step [0..<length bs] (bs, 0)) = moved g ?c (length bs) bs" by (rule f)
  ultimately show ?thesis unfolding fits_in_def all_set_conv_all_nth by simp
qed

definition disjoint_live :: "live_buffer list \<Rightarrow> bool" where
  "disjoint_live bs \<longleftrightarrow> (\<forall>i < length bs. \<forall>j < length bs. i \<noteq> j \<longrightarrow> concurrent (bs ! i) (bs ! j) \<longrightarrow>
     \<not> intersects (sizeRange (bs ! i)) (sizeRange (bs ! j)))"

definition on_boundary :: "'a buffer_scheme \<Rightarrow> bool" where
  "on_boundary b \<longleftrightarrow> balign b dvd boffset b"

lemma round_boundary: "\<forall>b \<in> set bs. on_boundary b \<Longrightarrow> \<forall>b \<in> set (fst (allocate bs g)). on_boundary b"
proof -
  assume a: "\<forall>b \<in> set bs. on_boundary b"
  have "\<forall>b \<in> set (moved g c n bs). on_boundary b" for c n
  proof (induction n)
    case (Suc n)
    then show ?case by (auto simp: moved_Suc move_buffer_def on_boundary_def alignTo_dvd dest!: set_update_subset_insert [THEN subsetD])
  qed (simp add: a)
  then show ?thesis by (simp add: fst_allocate)
qed

lemma color_loop_total:
  "aligned_buffers bs \<Longrightarrow> \<exists>bs' sz. color_loop bs = Some (bs', sz) \<and> map statics bs' = map statics bs \<and>
     disjoint_live bs' \<and> fits_in sz bs' \<and> ((\<forall>b \<in> set bs. on_boundary b) \<longrightarrow> (\<forall>b \<in> set bs'. on_boundary b))"
proof (induction bs rule: color_loop.induct)
  case (1 bs)
  let ?a = "allocate bs (buildInterferenceGraph bs)"
  have st: "map statics (fst ?a) = map statics bs"
    by (intro nth_equalityI) (auto simp: fst_allocate statics_moved)
  obtain bs1 t where a: "?a = (bs1, t)" by (cases ?a)
  show ?case
  proof (cases "graph_empty (buildInterferenceGraph bs1)")
    case True
    then have "color_loop bs = Some (bs1, t)" using a 1(2) by (simp add: color_loop.simps [of bs])
    moreover have "disjoint_live bs1" using True by (auto simp: graph_empty_iff disjoint_live_def interferes_def)
    ultimately show ?thesis using st a allocate_total [of bs "buildInterferenceGraph bs"] round_boundary [of bs] by (metis fst_conv snd_conv)
  next
    case False
    have "aligned_buffers bs1" using 1(2) aligned_round [of bs "buildInterferenceGraph bs"] a by simp
    then have "\<exists>bs' sz. color_loop bs1 = Some (bs', sz) \<and> map statics bs' = map statics bs1 \<and>
        disjoint_live bs' \<and> fits_in sz bs' \<and> ((\<forall>b \<in> set bs1. on_boundary b) \<longrightarrow> (\<forall>b \<in> set bs'. on_boundary b))"
      using 1 False a by simp
    moreover have "color_loop bs = color_loop bs1" using False a 1(2) by (simp add: color_loop.simps [of bs])
    ultimately show ?thesis using round_boundary [of bs "buildInterferenceGraph bs"] a st by auto
  qed
qed

subsection \<open>The initial offsets are always found\<close>

definition live_range :: "live_buffer \<Rightarrow> bool" where
  "live_range b \<longleftrightarrow> istart (lrange b) < iend (lrange b) \<and> iend (lrange b) \<le> size_max"

definition reached :: "triple_map \<Rightarrow> live_buffer \<Rightarrow> bool" where
  "reached m x \<longleftrightarrow> (\<exists>(k, r) \<in> set m. intersects r (lrange x))"

lemma set_triple_insert [simp]: "set (triple_insert k i m) = insert (k, i) (set m)"
proof (induction m)
  case (Cons a m)
  then show ?case by (cases a) (simp add: insert_commute)
qed simp

text \<open>The triples a buffer leaves behind cover the triple it was put into.\<close>

lemma split_triple_reached:
  assumes "intersects (lrange b) rng" and "intersects rng (lrange x)"
    and "istart (lrange x) < iend (lrange x)" and "istart (lrange b) < iend (lrange b)"
  shows "reached (split_triple offset rng (lrange b) high m) x"
proof -
  have "intersects \<lparr>istart = max (istart rng) (istart (lrange b)), iend = min (iend rng) (iend (lrange b))\<rparr> (lrange x) \<or>
      istart rng < istart (lrange b) \<and> intersects \<lparr>istart = istart rng, iend = iend (lrange b)\<rparr> (lrange x) \<or>
      iend (lrange b) < iend rng \<and> intersects \<lparr>istart = istart (lrange b), iend = iend rng\<rparr> (lrange x)"
    using assms by (auto simp: intersects_def)
  then show ?thesis by (auto simp: reached_def split_triple_def Let_def)
qed

lemma split_triple_mono: "reached m x \<Longrightarrow> reached (split_triple offset rng r high m) x"
  by (auto simp: reached_def split_triple_def Let_def)

lemma starts_loop_total:
  "\<forall>x \<in> set xs. live_range x \<and> reached m x \<Longrightarrow> \<forall>p \<in> set placed. on_boundary p \<Longrightarrow>
     \<exists>r. starts_loop m xs placed = Some r \<and> mset (map statics r) = mset (map statics (xs @ placed)) \<and> (\<forall>p \<in> set r. on_boundary p)"
proof (induction m xs placed rule: starts_loop.induct)
  case (3 offset rng m x xs placed)
  show ?case
  proof (cases "find (fits_triple m rng) (x # xs)")
    case None
    have "reached m y" if y: "y \<in> set (x # xs)" for y
    proof (rule ccontr)
      assume n: "\<not> reached m y"
      then have "intersects rng (lrange y)" using 3(3) y by (auto simp: reached_def)
      then have "fits_triple m rng y" using n by (auto simp: fits_triple_def intersects_def reached_def list_all_iff)
      then show False using None y by (simp only: find_None_iff) blast
    qed
    then show ?thesis using 3 None by simp
  next
    case (Some b)
    let ?b = "b\<lparr>boffset := alignTo offset (balign b)\<rparr>"
    let ?m = "split_triple offset rng (lrange b) (boffset ?b + bsize b) m" and ?xs = "remove1 b (x # xs)"
    have b: "b \<in> set (x # xs)" "intersects (lrange b) rng" using find_member [OF Some] by (auto simp: fits_triple_def)
    have r: "\<forall>y \<in> set ?xs. live_range y \<and> reached ?m y"
    proof
      fix y assume "y \<in> set ?xs"
      then have y: "y \<in> set (x # xs)" by (metis notin_set_remove1)
      then consider "reached m y" | "intersects rng (lrange y)" using 3(3) by (auto simp: reached_def)
      then have "reached ?m y"
        using 3(3) y b split_triple_mono split_triple_reached [OF b(2), of y] by cases (auto simp: live_range_def)
      then show "live_range y \<and> reached ?m y" using 3(3) y by auto
    qed
    have p: "\<forall>p \<in> set (?b # placed). on_boundary p" using 3(4) by (simp add: on_boundary_def alignTo_dvd)
    have "\<exists>r. starts_loop ?m ?xs (?b # placed) = Some r \<and> mset (map statics r) = mset (map statics (?xs @ ?b # placed)) \<and> (\<forall>p \<in> set r. on_boundary p)"
      by (rule 3(2) [OF Some refl r p])
    moreover have "mset (map statics (?xs @ ?b # placed)) = mset (map statics ((x # xs) @ placed))"
    proof -
      have "add_mset (statics b) (mset (map statics ?xs)) = image_mset statics (add_mset b (mset ?xs))" by simp
      also have "add_mset b (mset ?xs) = mset (x # xs)" using b(1) by (simp del: remove1.simps mset.simps)
      finally show ?thesis by (simp del: remove1.simps)
    qed
    moreover have "starts_loop ((offset, rng) # m) (x # xs) placed = starts_loop ?m ?xs (?b # placed)"
      using Some by (simp add: Let_def del: remove1.simps)
    ultimately show ?thesis by (simp only:)
  qed
qed (auto simp: reached_def)

lemma calculateStarts_total:
  assumes l: "\<forall>x \<in> set bs. live_range x" and d: "distinct (map lid bs)"
  shows "\<exists>bs'. calculateStarts bs = Some bs' \<and> map statics bs' = map statics bs \<and> (\<forall>b \<in> set bs'. on_boundary b)"
proof -
  have "\<forall>x \<in> set bs. live_range x \<and> reached [(0, fullInterval)] x"
    using l by (auto simp: reached_def live_range_def fullInterval_def intersects_def)
  then obtain r where r: "starts_loop [(0, fullInterval)] bs [] = Some r" "mset (map statics r) = mset (map statics bs)"
    "\<forall>p \<in> set r. on_boundary p" using starts_loop_total [of bs "[(0, fullInterval)]" "[]"] by auto
  let ?f = "\<lambda>b. case find (\<lambda>p. lid p = lid b) r of Some p \<Rightarrow> p | None \<Rightarrow> b"
  have f: "statics (?f b) = statics b \<and> ?f b \<in> set r" if b: "b \<in> set bs" for b
  proof -
    have ss: "statics ` set r = statics ` set bs" using r(2) by (metis set_map set_mset_mset)
    then obtain q where q: "q \<in> set r" "statics q = statics b" using b by (metis imageE imageI)
    then have "find (\<lambda>p. lid p = lid b) r \<noteq> None" using staticsD [OF q(2)] by (auto simp: find_None_iff)
    then obtain p where p: "find (\<lambda>p. lid p = lid b) r = Some p" by auto
    then have pr: "p \<in> set r" "lid p = lid b" using find_member [OF p] by auto
    then obtain b' where b': "b' \<in> set bs" "statics p = statics b'" using ss by (metis imageE imageI)
    then have "lid b' = lid b" using pr staticsD [OF b'(2)] by simp
    then have "b' = b" using d b b'(1) by (auto simp: distinct_map inj_on_def)
    then show ?thesis using p pr b' by simp
  qed
  have "calculateStarts bs = Some (map ?f bs)" using r(1) by (simp add: calculateStarts_def)
  then show ?thesis using f r(3) by (intro exI [of _ "map ?f bs"]) auto
qed

definition allocatable :: "live_buffer list \<Rightarrow> bool" where
  "allocatable bs \<longleftrightarrow> list_all (\<lambda>b. istart (lrange b) < iend (lrange b) \<and> iend (lrange b) \<le> size_max \<and> 0 < balign b) bs \<and>
     distinct (map lid bs)"

lemma computeOffsets_total:
  assumes "allocatable bs"
  shows "\<exists>bs' sz. computeOffsets bs = Some (bs', sz) \<and> mset (map statics bs') = mset (map statics bs) \<and>
    disjoint_live bs' \<and> fits_in sz bs' \<and> (\<forall>b \<in> set bs'. on_boundary b)"
proof -
  have s: "mset (sort_buffers bs) = mset bs" by (simp add: sort_buffers_def)
  then have ss: "set (sort_buffers bs) = set bs" by (rule mset_eq_setD)
  have "mset (map lid (sort_buffers bs)) = mset (map lid bs)" using s by simp
  then have "distinct (map lid (sort_buffers bs))" using assms mset_eq_imp_distinct_iff by (metis allocatable_def)
  then obtain p where p: "calculateStarts (sort_buffers bs) = Some p" "map statics p = map statics (sort_buffers bs)" "\<forall>b \<in> set p. on_boundary b"
    using calculateStarts_total [of "sort_buffers bs"] assms ss by (auto simp: allocatable_def live_range_def list_all_iff)
  have "0 < balign b" if "b \<in> set p" for b
  proof -
    have "statics b \<in> set (map statics (sort_buffers bs))" using that p(2) by (metis image_eqI set_map)
    then obtain c where "c \<in> set bs" "statics b = statics c" using ss by auto
    then show ?thesis using assms staticsD [of b c] by (auto simp: allocatable_def list_all_iff)
  qed
  then have "aligned_buffers p" by (simp add: aligned_buffers_def list_all_iff)
  then obtain bs' sz where r: "color_loop p = Some (bs', sz)" "map statics bs' = map statics p" "disjoint_live bs'" "fits_in sz bs'"
    "\<forall>b \<in> set bs'. on_boundary b" using color_loop_total p(3) by blast
  have m: "mset (map statics bs') = mset (map statics bs)" unfolding r(2) p(2) using s by simp
  have "computeOffsets bs = Some (bs', sz)" using r(1) p(1) by (simp add: computeOffsets_def)
  then show ?thesis using r(3-5) m by blast
qed

end
