(* ===== verification/AllocationLiveness.thy ===== *)
theory AllocationLiveness
  imports Allocation
begin

text \<open>
  The analysis \<open>run\<close> as a whole: the walk hands out fresh buffer ids, \<open>resolveLiveness\<close> gives every buffer a
  live range that covers each operation at which it is in use, and the offsets are written to the buffer
  they were computed for.
\<close>

section \<open>Folds that can fail\<close>

lemma fold_option:
  assumes "I r0" and step: "\<And>x r. x \<in> set xs \<Longrightarrow> I r \<Longrightarrow> \<exists>r'. f x r = Some r' \<and> I r' \<and> R r r' \<and> Q x r'"
    and refl: "\<And>r. R r r" and trans: "\<And>a b c. R a b \<Longrightarrow> R b c \<Longrightarrow> R a c" and keep: "\<And>x r r'. Q x r \<Longrightarrow> R r r' \<Longrightarrow> Q x r'"
  shows "\<exists>r'. fold (\<lambda>x acc. Option.bind acc (f x)) xs (Some r0) = Some r' \<and> I r' \<and> R r0 r' \<and> (\<forall>x \<in> set xs. Q x r')"
  using assms(1) step
proof (induction xs arbitrary: r0)
  case Nil
  then show ?case using refl by simp
next
  case (Cons x xs)
  obtain r1 where r1: "f x r0 = Some r1" "I r1" "R r0 r1" "Q x r1" using Cons.prems by fastforce
  obtain r' where "fold (\<lambda>x acc. Option.bind acc (f x)) xs (Some r1) = Some r'" "I r'" "R r1 r'" "\<forall>x \<in> set xs. Q x r'"
    using Cons.IH [OF r1(2)] Cons.prems(2) by (metis list.set_intros(2))
  then show ?case using r1 trans keep by (intro exI [of _ r']) auto
qed

section \<open>The buffers of a walk\<close>

definition buffer_ids :: "allocation \<Rightarrow> buffer_id list" where
  "buffer_ids a = map snd (valueBuffer a) @ map snd (opScratch a) @ map snd (opVirtual a)"

definition alloc_inv :: "allocation \<Rightarrow> bool" where
  "alloc_inv a \<longleftrightarrow> distinct (buffer_ids a) \<and> (\<forall>b \<in> set (buffer_ids a). b < length (bufferSet a)) \<and>
     (\<forall>(v, bs) \<in> set (aliasBuffer a). set bs \<subseteq> set (map snd (valueBuffer a)))"

lemma update_snd: "set (map snd (AList.update k i al)) \<subseteq> insert i (set (map snd al))"
  by (induction al) auto

lemma update_snd_distinct: "distinct (map snd al) \<Longrightarrow> i \<notin> set (map snd al) \<Longrightarrow> distinct (map snd (AList.update k i al))"
proof (induction al)
  case (Cons p al)
  then show ?case using update_snd [of k i al] by (cases p) auto
qed simp

lemma ids_update:
  assumes "distinct (xs @ map snd al @ ys)" and "n \<notin> set (xs @ map snd al @ ys)"
  shows "distinct (xs @ map snd (AList.update k n al) @ ys)"
    "set (xs @ map snd (AList.update k n al) @ ys) \<subseteq> insert n (set (xs @ map snd al @ ys))"
proof -
  define U where "U = map snd (AList.update k n al)"
  have u: "set U \<subseteq> insert n (set (map snd al))" unfolding U_def by (rule update_snd)
  have "distinct (map snd al)" "n \<notin> set (map snd al)" using assms by auto
  then have d: "distinct U" unfolding U_def by (rule update_snd_distinct)
  show "set (xs @ map snd (AList.update k n al) @ ys) \<subseteq> insert n (set (xs @ map snd al @ ys))"
    using u unfolding U_def [symmetric] by auto
  define A where "A = set (map snd al)"
  have x: "distinct xs" "distinct ys" "set xs \<inter> set ys = {}" "set xs \<inter> A = {}" "A \<inter> set ys = {}" "n \<notin> set xs" "n \<notin> set ys"
    using assms unfolding A_def by auto
  have "set xs \<inter> set U = {}" "set U \<inter> set ys = {}" using u x unfolding A_def [symmetric] by blast+
  then show "distinct (xs @ map snd (AList.update k n al) @ ys)"
    unfolding U_def [symmetric] using d x(1-3) by (simp add: Int_Un_distrib)
qed

lemma addBuffer_inv:
  assumes inv: "alloc_inv a" and al: "aliasBuffer a = []"
  shows "alloc_inv (addBuffer k key owner bytes alignment a)" "aliasBuffer (addBuffer k key owner bytes alignment a) = []"
proof -
  let ?n = "length (bufferSet a)" and ?V = "valueBuffer a" and ?S = "opScratch a" and ?O = "opVirtual a"
  show e: "aliasBuffer (addBuffer k key owner bytes alignment a) = []" using al by (simp add: addBuffer_def Let_def split: buffer_kind.splits)
  have lt: "\<forall>b \<in> set (buffer_ids a). b < ?n" and d: "distinct (buffer_ids a)" using inv by (simp_all add: alloc_inv_def)
  have n: "?n \<notin> set (buffer_ids a)" using lt by blast
  have dn: "distinct (buffer_ids (addBuffer k key owner bytes alignment a)) \<and>
      set (buffer_ids (addBuffer k key owner bytes alignment a)) \<subseteq> insert ?n (set (buffer_ids a))"
  proof (cases k)
    case Explicit
    then show ?thesis using ids_update [of "[]" ?V "map snd ?S @ map snd ?O" ?n key] d n
      by (simp only: buffer_ids_def addBuffer_def Let_def append_Nil buffer_kind.case) simp
  next
    case Scratch
    then show ?thesis using ids_update [of "map snd ?V" ?S "map snd ?O" ?n key] d n
      by (simp only: buffer_ids_def addBuffer_def Let_def buffer_kind.case) simp
  next
    case Virtual
    then show ?thesis using ids_update [of "map snd ?V @ map snd ?S" ?O "[]" ?n key] d n
      by (simp only: buffer_ids_def addBuffer_def Let_def append_Nil2 append_assoc buffer_kind.case) simp
  qed
  moreover have "length (bufferSet (addBuffer k key owner bytes alignment a)) = Suc ?n"
    by (simp add: addBuffer_def Let_def split: buffer_kind.splits)
  ultimately show "alloc_inv (addBuffer k key owner bytes alignment a)"
    using e lt unfolding alloc_inv_def by (auto dest!: subsetD)
qed

lemma update_set: "set (AList.update k v al) \<subseteq> insert (k, v) (set al)"
  by (induction al) auto

lemma addAlias_inv:
  assumes "addAlias v al s = Some s'" and inv: "alloc_inv s"
  shows "alloc_inv s'"
proof -
  obtain b where b: "map_of (valueBuffer s) al = Some b" using assms(1) by (auto simp: addAlias_def Option.bind_eq_Some_conv)
  define old where "old = (case map_of (aliasBuffer s) v of Some bs \<Rightarrow> bs | None \<Rightarrow> [])"
  define new where "new = (if b \<in> set old then old else old @ [b])"
  have s': "s' = s\<lparr>aliasBuffer := AList.update v new (aliasBuffer s)\<rparr>"
  proof -
    have "addAlias v al s = Some (s\<lparr>aliasBuffer := AList.update v new (aliasBuffer s)\<rparr>)"
      unfolding addAlias_def b new_def old_def Let_def Option.bind.bind_lunit ..
    then show ?thesis using assms(1) by simp
  qed
  let ?I = "set (map snd (valueBuffer s))"
  have al: "\<forall>(v, bs) \<in> set (aliasBuffer s). set bs \<subseteq> ?I" using inv by (simp add: alloc_inv_def)
  have "set old \<subseteq> ?I"
    unfolding old_def using al map_of_SomeD [of "aliasBuffer s" v] by (cases "map_of (aliasBuffer s) v") fastforce+
  moreover have "b \<in> ?I" using map_of_SomeD [OF b] by (metis in_set_zipE set_zip_rightD snd_conv image_eqI set_map)
  ultimately have n: "set new \<subseteq> ?I" by (simp add: new_def)
  have "\<forall>(v, bs) \<in> set (AList.update v new (aliasBuffer s)). set bs \<subseteq> ?I"
    using update_set [of v new "aliasBuffer s"] al n by blast
  then show ?thesis using inv by (simp add: s' alloc_inv_def buffer_ids_def)
qed

lemma getValuesAndSizes_inv:
  assumes "getValuesAndSizes calleeSize scratchSize ops aliases = Some a"
  shows "alloc_inv a"
proof -
  let ?f = "\<lambda>(op, k) acc. do {s \<leftarrow> acc; getScratchValueSize calleeSize scratchSize op k (getExplicitValueSize op k s)}"
  let ?g = "\<lambda>(v, alloc) acc. do {s \<leftarrow> acc; addAlias v alloc s}"
  have fn: "fold ?f ops None = None" for ops by (induction ops) (simp_all add: case_prod_unfold)
  have gn: "fold ?g as None = None" for as by (induction as) (simp_all add: case_prod_unfold)
  have one: "alloc_inv s' \<and> aliasBuffer s' = []"
    if "getScratchValueSize calleeSize scratchSize op k (getExplicitValueSize op k s) = Some s'" "alloc_inv s" "aliasBuffer s = []" for op k s s'
  proof -
    have e: "alloc_inv (getExplicitValueSize op k s)" "aliasBuffer (getExplicitValueSize op k s) = []"
      using addBuffer_inv that(2,3) by (auto simp: getExplicitValueSize_def split: alloc_op.splits)
    have m: "alloc_inv (maybeAddScratchBuffer bk op b n (getExplicitValueSize op k s))"
      "aliasBuffer (maybeAddScratchBuffer bk op b n (getExplicitValueSize op k s)) = []" for bk b n
      using addBuffer_inv [OF e] e by (simp_all add: maybeAddScratchBuffer_def Let_def)
    show ?thesis using that(1) m by (auto simp: getScratchValueSize_def split: alloc_op.splits)
  qed
  have 1: "fold ?f ops (Some s) = Some s' \<Longrightarrow> alloc_inv s \<Longrightarrow> aliasBuffer s = [] \<Longrightarrow> alloc_inv s' \<and> aliasBuffer s' = []" for s s'
  proof (induction ops arbitrary: s)
    case (Cons p ops)
    obtain op k where p: "p = (op, k)" by fastforce
    show ?case
    proof (cases "getScratchValueSize calleeSize scratchSize op k (getExplicitValueSize op k s)")
      case None
      then show ?thesis using Cons.prems(1) fn by (simp add: p)
    next
      case (Some s1)
      then show ?thesis using Cons.IH [of s1] Cons.prems one [OF Some] by (simp add: p)
    qed
  qed simp
  have 2: "fold ?g aliases (Some s) = Some s' \<Longrightarrow> alloc_inv s \<Longrightarrow> alloc_inv s'" for s s'
  proof (induction aliases arbitrary: s)
    case (Cons p aliases)
    obtain v al where p: "p = (v, al)" by fastforce
    show ?case
    proof (cases "addAlias v al s")
      case None
      then show ?thesis using Cons.prems(1) gn by (simp add: p)
    next
      case (Some s1)
      then show ?thesis using Cons.IH [of s1] Cons.prems addAlias_inv [OF Some] by (simp add: p)
    qed
  qed simp
  have "alloc_inv empty_allocation" "aliasBuffer empty_allocation = []"
    by (simp_all add: empty_allocation_def alloc_inv_def buffer_ids_def)
  then show ?thesis using assms 1 [of empty_allocation] 2
    by (auto simp: getValuesAndSizes_def Option.bind_eq_Some_conv)
qed

section \<open>Live ranges\<close>

definition good_ranges :: "buffer_range \<Rightarrow> bool" where
  "good_ranges r \<longleftrightarrow> distinct (map fst r) \<and> (\<forall>(b, i) \<in> set r. istart i < iend i \<and> iend i \<le> size_max)"

definition grows :: "buffer_range \<Rightarrow> buffer_range \<Rightarrow> bool" where
  "grows r r' \<longleftrightarrow> (\<forall>b i. map_of r b = Some i \<longrightarrow> (\<exists>i'. map_of r' b = Some i' \<and> istart i' \<le> istart i \<and> iend i \<le> iend i'))"

definition covers :: "buffer_range \<Rightarrow> buffer_id \<Rightarrow> nat \<Rightarrow> bool" where
  "covers r b n \<longleftrightarrow> (\<exists>i. map_of r b = Some i \<and> icontains i n)"

lemma grows_refl: "grows r r" by (auto simp: grows_def)

lemma grows_trans: "grows a b \<Longrightarrow> grows b c \<Longrightarrow> grows a c"
  unfolding grows_def by (meson le_trans)

lemma covers_grows: "covers r b n \<Longrightarrow> grows r r' \<Longrightarrow> covers r' b n"
  unfolding covers_def grows_def icontains_def by (meson le_less_trans less_le_trans le_trans)

lemma good_map_of: "good_ranges r \<Longrightarrow> map_of r b = Some i \<Longrightarrow> istart i < iend i \<and> iend i \<le> size_max"
  by (auto simp: good_ranges_def dest!: map_of_SomeD)

lemma good_update:
  "good_ranges r \<Longrightarrow> istart i < iend i \<Longrightarrow> iend i \<le> size_max \<Longrightarrow> good_ranges (AList.update b i r)"
  using update_set [of b i r] by (auto simp: good_ranges_def distinct_update)

lemma fold_min_bound: "fold (\<lambda>o' m. min m (f o')) os (m0 :: nat) \<le> m0 \<and> (\<forall>op \<in> set os. fold (\<lambda>o' m. min m (f o')) os m0 \<le> f op)"
proof (induction os arbitrary: m0)
  case (Cons x os)
  have "fold (\<lambda>o' m. min m (f o')) os (min m0 (f x)) \<le> min m0 (f x)" "\<forall>op \<in> set os. fold (\<lambda>o' m. min m (f o')) os (min m0 (f x)) \<le> f op"
    using Cons by blast+
  then show ?case by auto
qed simp

lemma fold_max_bound: "m0 \<le> fold (\<lambda>o' m. max m (f o')) os (m0 :: nat) \<and> (\<forall>op \<in> set os. f op \<le> fold (\<lambda>o' m. max m (f o')) os m0)"
proof (induction os arbitrary: m0)
  case (Cons x os)
  have "max m0 (f x) \<le> fold (\<lambda>o' m. max m (f o')) os (max m0 (f x))" "\<forall>op \<in> set os. f op \<le> fold (\<lambda>o' m. max m (f o')) os (max m0 (f x))"
    using Cons by blast+
  then show ?case by auto
qed simp

lemma fold_max_le: "(m0 :: nat) \<le> z \<Longrightarrow> (\<And>op. op \<in> set os \<Longrightarrow> f op \<le> z) \<Longrightarrow> fold (\<lambda>o' m. max m (f o')) os m0 \<le> z"
  by (induction os arbitrary: m0) auto

lemma live_range_total:
  assumes "liveOps \<noteq> []" and b: "\<And>op. op \<in> set liveOps \<Longrightarrow> opId op < size_max"
  shows "\<exists>i. getValueLivenessRange opId liveOps = Some i \<and> istart i < iend i \<and> iend i \<le> size_max \<and>
    (\<forall>op \<in> set liveOps. icontains i (opId op))"
proof -
  let ?lo = "fold (\<lambda>o' m. min m (opId o')) liveOps size_max" and ?hi = "fold (\<lambda>o' m. max m (opId o' + 1)) liveOps 0"
  have c: "?lo \<le> opId op \<and> opId op < ?hi" if "op \<in> set liveOps" for op
    using fold_min_bound [of opId liveOps size_max] fold_max_bound [of 0 "\<lambda>o'. opId o' + 1" liveOps] that by (fastforce simp: Suc_le_eq)
  have h: "?hi \<le> size_max" by (rule fold_max_le) (use b in \<open>auto simp: Suc_le_eq\<close>)
  obtain op where "op \<in> set liveOps" using assms(1) by (meson list.set_sel(1))
  then have "?lo < ?hi" using c [of op] by simp
  then show ?thesis using c h by (simp add: getValueLivenessRange_def mkInterval_def icontains_def)
qed

text \<open>The range of a buffer contains another interval.\<close>

definition holds_range :: "buffer_range \<Rightarrow> buffer_id \<Rightarrow> interval \<Rightarrow> bool" where
  "holds_range r b i \<longleftrightarrow> (\<exists>j. map_of r b = Some j \<and> istart j \<le> istart i \<and> iend i \<le> iend j)"

lemma holds_grows: "holds_range r b i \<Longrightarrow> grows r r' \<Longrightarrow> holds_range r' b i"
  unfolding holds_range_def grows_def by (meson le_trans)

lemma holds_covers: "holds_range r b i \<Longrightarrow> icontains i n \<Longrightarrow> covers r b n"
  unfolding holds_range_def covers_def icontains_def by (meson le_trans less_le_trans)

lemma fold_none: "fold (\<lambda>x acc. Option.bind acc (f x)) xs None = None"
  by (induction xs) auto

text \<open>The ranges of values, and of scratch buffers, are appended: every id is new.\<close>

lemma explicit_ranges:
  "distinct (map snd vs) \<Longrightarrow> set (map snd vs) \<inter> set (map fst r0) = {} \<Longrightarrow> (\<forall>v \<in> fst ` set vs. live v \<noteq> None) \<Longrightarrow>
   fold (\<lambda>(v, b) acc. do {r \<leftarrow> acc; i \<leftarrow> live v; Some (AList.update b i r)}) vs (Some r0) =
     Some (r0 @ map (\<lambda>(v, b). (b, the (live v))) vs)"
proof (induction vs arbitrary: r0)
  case (Cons p vs)
  obtain v b where p: "p = (v, b)" by fastforce
  obtain i where i: "live v = Some i" using Cons.prems(3) p by auto
  have u: "AList.update b i r0 = r0 @ [(b, i)]" using Cons.prems(2) p by (intro update_absent) auto
  have "fold (\<lambda>(v, b) acc. do {r \<leftarrow> acc; i \<leftarrow> live v; Some (AList.update b i r)}) vs (Some (r0 @ [(b, i)])) =
      Some ((r0 @ [(b, i)]) @ map (\<lambda>(v, b). (b, the (live v))) vs)"
    using Cons.prems p by (intro Cons.IH) auto
  then show ?case by (simp add: p i u)
qed simp

lemma scratch_ranges:
  "distinct (map snd xs) \<Longrightarrow> set (map snd xs) \<inter> set (map fst r0) = {} \<Longrightarrow> (\<forall>op \<in> fst ` set xs. rng op \<noteq> None) \<Longrightarrow>
   fold (\<lambda>(op, b) acc. do {r \<leftarrow> acc; i \<leftarrow> rng op; Some (if map_of r b = None then r @ [(b, i)] else r)}) xs (Some r0) =
     Some (r0 @ map (\<lambda>(op, b). (b, the (rng op))) xs)"
proof (induction xs arbitrary: r0)
  case (Cons p xs)
  obtain op b where p: "p = (op, b)" by fastforce
  obtain i where i: "rng op = Some i" using Cons.prems(3) p by auto
  have u: "map_of r0 b = None" using Cons.prems(2) p by (auto simp: map_of_eq_None_iff)
  have "fold (\<lambda>(op, b) acc. do {r \<leftarrow> acc; i \<leftarrow> rng op; Some (if map_of r b = None then r @ [(b, i)] else r)}) xs (Some (r0 @ [(b, i)])) =
      Some ((r0 @ [(b, i)]) @ map (\<lambda>(op, b). (b, the (rng op))) xs)"
    using Cons.prems p by (intro Cons.IH) auto
  then show ?case by (simp add: p i u)
qed simp

lemma extend_range_total:
  assumes "good_ranges r" and "istart i < iend i" and "iend i \<le> size_max"
  shows "\<exists>r'. extend_range i b r = Some r' \<and> good_ranges r' \<and> grows r r' \<and> holds_range r' b i \<and>
    set (map fst r') = insert b (set (map fst r))"
proof -
  have f: "set (map fst (AList.update b j r)) = insert b (set (map fst r))" for j
    using dom_update [of b j r] by (simp add: dom_map_of_conv_image_fst)
  show ?thesis
  proof (cases "map_of r b")
    case None
    then have "extend_range i b r = Some (AList.update b i r)"
      using assms(2) by (cases i) (simp add: extend_range_def mkInterval_def)
    moreover have "grows r (AList.update b i r)" using None by (auto simp: grows_def update_conv)
    ultimately show ?thesis using good_update [OF assms] f by (simp add: holds_range_def update_conv)
  next
    case (Some old)
    let ?j = "\<lparr>istart = min (istart i) (istart old), iend = max (iend i) (iend old)\<rparr>"
    have o: "istart old < iend old" "iend old \<le> size_max" using good_map_of [OF assms(1) Some] by simp_all
    have "extend_range i b r = Some (AList.update b ?j r)"
      using Some assms(2) by (simp add: extend_range_def mkInterval_def min_le_iff_disj le_max_iff_disj)
    moreover have "good_ranges (AList.update b ?j r)" using assms o by (intro good_update) (auto simp: min_less_iff_disj)
    moreover have "grows r (AList.update b ?j r)" using Some by (auto simp: grows_def update_conv)
    ultimately show ?thesis using f by (simp add: holds_range_def update_conv)
  qed
qed

lemma alias_total:
  assumes "good_ranges r0" and "\<And>v bs. (v, bs) \<in> set as \<Longrightarrow> \<exists>i. live v = Some i \<and> istart i < iend i \<and> iend i \<le> size_max"
    and "\<And>v bs. (v, bs) \<in> set as \<Longrightarrow> set bs \<subseteq> set (map fst r0)"
  shows "\<exists>r. fold (\<lambda>(v, bs) acc. do {
         r \<leftarrow> acc;
         rng \<leftarrow> live v;
         fold (\<lambda>b acc'. do {r' \<leftarrow> acc'; extend_range rng b r'}) bs (Some r)}) as (Some r0) = Some r \<and>
       good_ranges r \<and> set (map fst r) = set (map fst r0) \<and> grows r0 r \<and>
       (\<forall>(v, bs) \<in> set as. \<forall>b \<in> set bs. holds_range r b (the (live v)))"
proof -
  define B where "B = set (map fst r0)"
  define I where "I r \<longleftrightarrow> good_ranges r \<and> set (map fst r) = B" for r
  define F where "F x r = Option.bind (live (fst x)) (\<lambda>rng. fold (\<lambda>b acc'. Option.bind acc' (extend_range rng b)) (snd x) (Some r))" for x r
  define Q where "Q x r \<longleftrightarrow> (\<forall>b \<in> set (snd x). holds_range r b (the (live (fst x))))" for x r
  have inner: "\<exists>r'. F x r = Some r' \<and> I r' \<and> grows r r' \<and> Q x r'" if x: "x \<in> set as" and r: "I r" for x r
  proof -
    obtain v bs where vb: "x = (v, bs)" by fastforce
    obtain i where i: "live v = Some i" "istart i < iend i" "iend i \<le> size_max" using assms(2) x vb by blast
    have bs: "set bs \<subseteq> B" using assms(3) x vb by (auto simp: B_def)
    have "\<exists>r'. fold (\<lambda>b acc. Option.bind acc (extend_range i b)) bs (Some r) = Some r' \<and> I r' \<and> grows r r' \<and>
        (\<forall>b \<in> set bs. holds_range r' b i)"
    proof (rule fold_option [where I = I, OF r])
      fix b q assume b: "b \<in> set bs" "I q"
      then show "\<exists>q'. extend_range i b q = Some q' \<and> I q' \<and> grows q q' \<and> holds_range q' b i"
        using extend_range_total [of q i b] i(2,3) bs unfolding I_def by (metis insert_absorb subsetD)
    qed (auto intro: grows_refl grows_trans holds_grows)
    then show ?thesis by (simp add: F_def Q_def vb i(1))
  qed
  have "\<exists>r. fold (\<lambda>x acc. Option.bind acc (F x)) as (Some r0) = Some r \<and> I r \<and> grows r0 r \<and> (\<forall>x \<in> set as. Q x r)"
  proof (rule fold_option [where I = I])
    show "I r0" using assms(1) by (simp add: I_def B_def)
    show "\<exists>r'. F x r = Some r' \<and> I r' \<and> grows r r' \<and> Q x r'" if "x \<in> set as" "I r" for x r using inner [OF that] .
  qed (auto intro: grows_refl grows_trans simp: Q_def holds_grows)
  moreover have "(\<lambda>(v, bs) acc. do {
         r \<leftarrow> acc;
         rng \<leftarrow> live v;
         fold (\<lambda>b acc'. do {r' \<leftarrow> acc'; extend_range rng b r'}) bs (Some r)}) = (\<lambda>x acc. Option.bind acc (F x))"
    by (simp add: fun_eq_iff F_def [abs_def])
  ultimately show ?thesis unfolding I_def Q_def B_def by (simp only: case_prod_unfold) blast
qed

section \<open>The ranges of all buffers\<close>

text \<open>What the walk guarantees: operations of the tree, values with uses, alignments that are not 0.\<close>

definition walk_ok :: "op_tree \<Rightarrow> (nat \<Rightarrow> nat list) \<Rightarrow> allocation \<Rightarrow> bool" where
  "walk_ok t liveOps a \<longleftrightarrow>
     length (postorder t) < size_max \<and>
     (\<forall>v \<in> set (map fst (valueBuffer a) @ map fst (aliasBuffer a)). liveOps v \<noteq> [] \<and> set (liveOps v) \<subseteq> set (postorder t)) \<and>
     (\<forall>op \<in> set (map fst (opScratch a) @ map fst (opVirtual a)). op \<in> set (postorder t)) \<and>
     (\<forall>b \<in> set (bufferSet a). 0 < balign b)"

definition root_op :: "op_tree \<Rightarrow> nat" where
  "root_op t = (case t of OpNode op _ \<Rightarrow> op)"

text \<open>A buffer in use at an operation: a live value may point to it, or it is the scratch memory of the
  operation, or of the function itself.\<close>

definition in_use :: "op_tree \<Rightarrow> (nat \<Rightarrow> nat list) \<Rightarrow> allocation \<Rightarrow> nat \<Rightarrow> buffer_id \<Rightarrow> bool" where
  "in_use t liveOps a op b \<longleftrightarrow> op \<in> set (postorder t) \<and>
     ((\<exists>v. op \<in> set (liveOps v) \<and> b \<in> set (getBufferIds a v)) \<or>
      (op, b) \<in> set (opScratch a @ opVirtual a) \<or> (root_op t, b) \<in> set (opScratch a @ opVirtual a))"

definition op_place :: "op_tree \<Rightarrow> nat \<Rightarrow> nat" where
  "op_place t op = (case operationId t op of Some n \<Rightarrow> n | None \<Rightarrow> 0)"

lemma operationId_in: "op \<in> set (postorder t) \<Longrightarrow> \<exists>n. operationId t op = Some n \<and> op_place t op = n \<and> n < length (postorder t)"
  using index_of_None [of op "postorder t"] index_of_Some [of op "postorder t"]
  by (cases "operationId t op") (auto simp: operationId_def op_place_def)

lemma buffer_ids_in:
  assumes "alloc_inv a" "b \<in> set (getBufferIds a v)"
  shows "(v, b) \<in> set (valueBuffer a) \<or> (\<exists>bs. (v, bs) \<in> set (aliasBuffer a) \<and> b \<in> set bs)"
  using assms(2) map_of_SomeD [of "valueBuffer a" v b] map_of_SomeD [of "aliasBuffer a" v]
  by (cases "map_of (valueBuffer a) v"; cases "map_of (aliasBuffer a) v") (auto simp: getBufferIds_def valueBufferId_def split: if_splits)

lemma resolveLiveness_total:
  assumes inv: "alloc_inv a" and ok: "walk_ok t liveOps a"
  shows "\<exists>r. resolveLiveness t liveOps a = Some r \<and> good_ranges r \<and> (\<forall>b \<in> fst ` set r. b < length (bufferSet a)) \<and>
    (\<forall>op b. in_use t liveOps a op b \<longrightarrow> covers r b (op_place t op))"
proof -
  define live where "live v = getValueLivenessRange (op_place t) (liveOps v)" for v
  define root where "root = root_op t"
  define rng where "rng op = (if op = root then Some fullInterval
      else map_option (\<lambda>n. \<lparr>istart = n, iend = n + 1\<rparr>) (operationId t op))" for op
  let ?V = "valueBuffer a" and ?S = "opScratch a @ opVirtual a"
  have len: "length (postorder t) < size_max" using ok by (simp add: walk_ok_def)
  have L: "\<exists>i. live v = Some i \<and> istart i < iend i \<and> iend i \<le> size_max \<and> (\<forall>op \<in> set (liveOps v). icontains i (op_place t op))"
    if v: "v \<in> set (map fst ?V @ map fst (aliasBuffer a))" for v
    unfolding live_def
  proof (rule live_range_total)
    show "liveOps v \<noteq> []" using ok v by (simp add: walk_ok_def)
    show "op_place t op < size_max" if o: "op \<in> set (liveOps v)" for op
    proof -
      have "op \<in> set (postorder t)" using ok v o unfolding walk_ok_def by blast
      then show ?thesis using operationId_in [of op t] len by (metis order.strict_trans)
    qed
  qed
  have d: "distinct (map snd ?V)" "distinct (map snd ?S)" "set (map snd ?V) \<inter> set (map snd ?S) = {}"
    using inv by (auto simp: alloc_inv_def buffer_ids_def)
  define r1 where "r1 = map (\<lambda>(v, b). (b, the (live v))) ?V"
  have f1: "map fst r1 = map snd ?V" by (simp add: r1_def comp_def case_prod_unfold)
  have "\<forall>v \<in> fst ` set ?V. live v \<noteq> None" using L by fastforce
  then have e1: "resolveExplicitBufferLiveness live a = Some r1"
    unfolding resolveExplicitBufferLiveness_def r1_def using explicit_ranges [OF d(1), of "[]" live] by simp
  have g1: "good_ranges r1"
    unfolding good_ranges_def f1 using d(1) L by (fastforce simp: r1_def)
  have h1: "holds_range r1 b (the (live v))" if "(v, b) \<in> set ?V" for v b
  proof -
    have "(b, the (live v)) \<in> set r1" using that by (force simp: r1_def)
    moreover have "distinct (map fst r1)" using f1 d(1) by simp
    ultimately show ?thesis by (simp add: holds_range_def)
  qed
  obtain r2 where r2: "resolveAliasBufferLiveness live a r1 = Some r2" "good_ranges r2" "set (map fst r2) = set (map fst r1)"
      "grows r1 r2" "\<forall>(v, bs) \<in> set (aliasBuffer a). \<forall>b \<in> set bs. holds_range r2 b (the (live v))"
  proof -
    have "\<exists>i. live v = Some i \<and> istart i < iend i \<and> iend i \<le> size_max" if "(v, bs) \<in> set (aliasBuffer a)" for v bs
    proof -
      have "v \<in> set (map fst (aliasBuffer a))" using that by force
      then show ?thesis using L [of v] by auto
    qed
    moreover have "set bs \<subseteq> set (map fst r1)" if "(v, bs) \<in> set (aliasBuffer a)" for v bs
      using inv that unfolding f1 alloc_inv_def by blast
    ultimately show thesis
      using alias_total [OF g1, of "aliasBuffer a" live] that unfolding resolveAliasBufferLiveness_def by blast
  qed
  define r3 where "r3 = map (\<lambda>(op, b). (b, the (rng op))) ?S"
  have f3: "map fst r3 = map snd ?S" unfolding r3_def map_map by (rule map_cong) (simp_all add: case_prod_unfold)
  have R: "\<exists>i. rng op = Some i \<and> istart i < iend i \<and> iend i \<le> size_max \<and> icontains i (op_place t op)"
    if "op \<in> fst ` set ?S" for op
  proof -
    have "op \<in> set (postorder t)" using ok that by (auto simp: walk_ok_def)
    then obtain n where "operationId t op = Some n" "op_place t op = n" "n < length (postorder t)" using operationId_in by blast
    then show ?thesis using len by (auto simp: rng_def fullInterval_def icontains_def)
  qed
  have dis: "set (map snd ?S) \<inter> set (map fst r2) = {}" using d(3) f1 r2(3) by auto
  have e3: "resolveScratchBufferLiveness (operationId t) root a r2 = Some (r2 @ r3)"
  proof -
    have "\<forall>op \<in> fst ` set ?S. rng op \<noteq> None" using R by blast
    from scratch_ranges [OF d(2) dis this] show ?thesis
      unfolding resolveScratchBufferLiveness_def rng_def r3_def .
  qed
  have res: "resolveLiveness t liveOps a = Some (r2 @ r3)"
  proof -
    have l: "(\<lambda>v. getValueLivenessRange (\<lambda>op. case operationId t op of Some n \<Rightarrow> n | None \<Rightarrow> 0) (liveOps v)) = live"
      by (simp add: live_def op_place_def [abs_def] fun_eq_iff)
    show ?thesis unfolding resolveLiveness_def Let_def l e1 r2(1) root_op_def [symmetric] root_def [symmetric] Option.bind.bind_lunit e3 ..
  qed
  have dr: "distinct (map fst (r2 @ r3))" using r2(2) d(2) f3 dis by (auto simp: good_ranges_def)
  have "\<forall>(b, i) \<in> set r3. istart i < iend i \<and> iend i \<le> size_max" using R by (fastforce simp: r3_def)
  then have good: "good_ranges (r2 @ r3)" using dr r2(2) by (auto simp: good_ranges_def)
  have c3: "covers (r2 @ r3) b n" if "(b, i) \<in> set r3" "icontains i n" for b i n
    using that map_of_is_SomeI [OF dr, of b i] by (auto simp: covers_def)
  have c2: "covers (r2 @ r3) b n" if cv: "covers r2 b n" for b n
  proof -
    obtain i where i: "map_of r2 b = Some i" "icontains i n" using cv by (auto simp: covers_def)
    then have "(b, i) \<in> set (r2 @ r3)" by (auto dest: map_of_SomeD)
    then show ?thesis using dr i(2) by (metis covers_def map_of_eq_Some_iff)
  qed
  have use: "covers (r2 @ r3) b (op_place t op)" if iu: "in_use t liveOps a op b" for op b
  proof -
    consider (val) v where "op \<in> set (liveOps v)" "b \<in> set (getBufferIds a v)" | (own) "(op, b) \<in> set ?S" | (root) "(root, b) \<in> set ?S"
      using iu by (auto simp: in_use_def root_def)
    then show ?thesis
    proof cases
      case val
      have h: "holds_range r2 b (the (live v)) \<and> v \<in> set (map fst ?V @ map fst (aliasBuffer a))"
        using buffer_ids_in [OF inv val(2)]
      proof (elim disjE exE conjE)
        assume "(v, b) \<in> set ?V"
        then show ?thesis using holds_grows [OF h1 r2(4)] by force
      next
        fix bs assume "(v, bs) \<in> set (aliasBuffer a)" "b \<in> set bs"
        then show ?thesis using r2(5) by force
      qed
      show ?thesis using L [OF h [THEN conjunct2]] val(1) holds_covers [OF h [THEN conjunct1]] c2 by auto
    next
      case own
      then obtain i where "rng op = Some i" "icontains i (op_place t op)" using R [of op] by force
      then show ?thesis using own c3 [of b i] by (force simp: r3_def)
    next
      case root
      have "op \<in> set (postorder t)" using iu by (simp add: in_use_def)
      then have "icontains fullInterval (op_place t op)" using operationId_in [of op t] len by (auto simp: fullInterval_def icontains_def)
      moreover have "(b, fullInterval) \<in> set r3" using root by (force simp: r3_def rng_def)
      ultimately show ?thesis using c3 by blast
    qed
  qed
  have "set (map fst (r2 @ r3)) = set (buffer_ids a)"
    by (simp only: map_append set_append r2(3) f1 f3 buffer_ids_def Un_assoc)
  then have "\<forall>b \<in> fst ` set (r2 @ r3). b < length (bufferSet a)" using inv unfolding alloc_inv_def set_map [symmetric] by blast
  then show ?thesis using res good use by blast
qed

section \<open>Writing the offsets back\<close>

definition written :: "live_buffer list \<Rightarrow> buffer list \<Rightarrow> buffer list" where
  "written bs set0 = fold (\<lambda>b set. set[lid b := (set ! lid b)\<lparr>boffset := boffset b\<rparr>]) bs set0"

lemma written_length [simp]: "length (written bs s) = length s"
  by (induction bs arbitrary: s) (simp_all add: written_def)

lemma written_other: "i \<notin> lid ` set bs \<Longrightarrow> written bs s ! i = s ! i"
  by (induction bs arbitrary: s) (auto simp: written_def)

lemma written_nth:
  "distinct (map lid bs) \<Longrightarrow> b \<in> set bs \<Longrightarrow> lid b < length s \<Longrightarrow> written bs s ! lid b = (s ! lid b)\<lparr>boffset := boffset b\<rparr>"
proof (induction bs arbitrary: s)
  case (Cons c bs)
  have w: "written (c # bs) s = written bs (s[lid c := (s ! lid c)\<lparr>boffset := boffset c\<rparr>])" by (simp add: written_def)
  show ?case
  proof (cases "b = c")
    case True
    then show ?thesis using Cons.prems written_other [of "lid c" bs] unfolding w by simp
  next
    case False
    then have "b \<in> set bs" "lid c \<noteq> lid b" using Cons.prems by auto
    then show ?thesis using Cons unfolding w by simp
  qed
qed simp

lemma live_buffers_lid: "map lid (live_buffers ap rg a r) = map fst r"
  by (simp add: live_buffers_def Let_def comp_def case_prod_unfold)

lemma runAllocation_total:
  assumes g: "getValuesAndSizes calleeSize scratchSize ops aliases = Some a" and ok: "walk_ok t liveOps a"
  shows "\<exists>a' i'. runAllocation calleeSize scratchSize ops aliases t liveOps asyncParent region = Some a' \<and>
    bufferSet a' = i' \<and> length i' = length (bufferSet a) \<and>
    a' = a\<lparr>bufferSet := i', sharedMemorySize := sharedMemorySize a'\<rparr> \<and>
    (\<forall>b op. in_use t liveOps a op b \<longrightarrow> b < length i' \<and> boffset (i' ! b) + bsize (i' ! b) \<le> sharedMemorySize a' \<and>
        balign (i' ! b) dvd boffset (i' ! b)) \<and>
    (\<forall>b c op op'. in_use t liveOps a op b \<longrightarrow> in_use t liveOps a op' c \<longrightarrow> b \<noteq> c \<longrightarrow>
        op = op' \<or> asyncParent (bowner (i' ! b)) \<noteq> None \<and> asyncParent (bowner (i' ! b)) = asyncParent (bowner (i' ! c)) \<and>
          region (bowner (i' ! b)) \<noteq> region (bowner (i' ! c)) \<longrightarrow>
        \<not> intersects (sizeRange (i' ! b)) (sizeRange (i' ! c)))"
proof -
  have inv: "alloc_inv a" by (rule getValuesAndSizes_inv [OF g])
  obtain r where r: "resolveLiveness t liveOps a = Some r" "good_ranges r" "\<forall>b \<in> fst ` set r. b < length (bufferSet a)"
    and cov: "\<And>op b. in_use t liveOps a op b \<Longrightarrow> covers r b (op_place t op)"
    using resolveLiveness_total [OF inv ok] by blast
  let ?L = "live_buffers asyncParent region a r"
  have dL: "distinct (map lid ?L)" using r(2) by (simp add: live_buffers_lid good_ranges_def)
  have "0 < balign x \<and> istart (lrange x) < iend (lrange x) \<and> iend (lrange x) \<le> size_max" if x: "x \<in> set ?L" for x
  proof -
    obtain i rg where ir: "(i, rg) \<in> set r" "balign x = balign (bufferSet a ! i)" "lrange x = rg"
      using x by (auto simp: live_buffers_def Let_def)
    have "i < length (bufferSet a)" using r(3) ir(1) by force
    then have "0 < balign x" using ok ir(2) by (simp add: walk_ok_def)
    then show ?thesis using r(2) ir(1,3) by (auto simp: good_ranges_def)
  qed
  then have al: "allocatable ?L" using dL by (simp add: allocatable_def list_all_iff)
  obtain bs sz where c: "computeOffsets ?L = Some (bs, sz)" "mset (map statics bs) = mset (map statics ?L)"
      "disjoint_live bs" "fits_in sz bs" "\<forall>b \<in> set bs. on_boundary b"
    using computeOffsets_total [OF al] by blast
  define i' where "i' = written bs (bufferSet a)"
  define a' where "a' = store_offsets bs sz a"
  have run: "runAllocation calleeSize scratchSize ops aliases t liveOps asyncParent region = Some a'"
    by (simp add: runAllocation_def g r(1) c(1) a'_def)
  have st: "set (map statics bs) = set (map statics ?L)" using c(2) by (rule mset_eq_setD)
  have "mset (map lid bs) = mset (map lid ?L)"
    using arg_cong [OF c(2), of "image_mset (\<lambda>s. snd (snd (snd (snd (snd s)))))"] by (simp add: statics_def multiset.map_comp comp_def)
  then have db: "distinct (map lid bs)" using dL mset_eq_imp_distinct_iff by blast
  have slot: "\<exists>k < length bs. lid (bs ! k) = b \<and> b < length i' \<and> i' ! b = (bufferSet a ! b)\<lparr>boffset := boffset (bs ! k)\<rparr> \<and>
      bsize (bs ! k) = bsize (i' ! b) \<and> balign (bs ! k) = balign (i' ! b) \<and> icontains (lrange (bs ! k)) (op_place t op) \<and>
      lasync (bs ! k) = asyncParent (bowner (i' ! b)) \<and> lregion (bs ! k) = region (bowner (i' ! b))"
    if u: "in_use t liveOps a op b" for op b
  proof -
    obtain i where i: "map_of r b = Some i" "icontains i (op_place t op)" using cov [OF u] by (auto simp: covers_def)
    have ri: "(b, i) \<in> set r" using i(1) by (rule map_of_SomeD)
    have len: "b < length (bufferSet a)" using r(3) ri by force
    obtain x where x: "x \<in> set ?L" "lid x = b" "lrange x = i" "bsize x = bsize (bufferSet a ! b)" "balign x = balign (bufferSet a ! b)"
        "lasync x = asyncParent (bowner (bufferSet a ! b))" "lregion x = region (bowner (bufferSet a ! b))"
      using ri by (force simp: live_buffers_def Let_def)
    then have "statics x \<in> set (map statics bs)" using st by (metis image_eqI set_map)
    then obtain k where k: "k < length bs" "statics (bs ! k) = statics x" by (auto simp: in_set_conv_nth)
    have s: "bsize (bs ! k) = bsize x" "balign (bs ! k) = balign x" "lrange (bs ! k) = lrange x" "lasync (bs ! k) = lasync x"
        "lregion (bs ! k) = lregion x" "lid (bs ! k) = lid x" using staticsD [OF k(2)] by blast+
    have w: "i' ! b = (bufferSet a ! b)\<lparr>boffset := boffset (bs ! k)\<rparr>"
      using written_nth [OF db nth_mem [OF k(1)]] s(6) x(2) len by (simp add: i'_def)
    show ?thesis using k(1) s x w len i(2) by (intro exI [of _ k]) (simp add: i'_def [symmetric], simp add: i'_def)
  qed
  have sr: "sizeRange (i' ! b) = sizeRange (bs ! k)" if "i' ! b = (bufferSet a ! b)\<lparr>boffset := boffset (bs ! k)\<rparr>" "bsize (bs ! k) = bsize (i' ! b)" for b k
    using that by (simp add: sizeRange_def)
  have one: "b < length i' \<and> boffset (i' ! b) + bsize (i' ! b) \<le> sz \<and> balign (i' ! b) dvd boffset (i' ! b)"
    if u: "in_use t liveOps a op b" for op b
  proof -
    obtain k where k: "k < length bs" "b < length i'" "i' ! b = (bufferSet a ! b)\<lparr>boffset := boffset (bs ! k)\<rparr>"
        "bsize (bs ! k) = bsize (i' ! b)" "balign (bs ! k) = balign (i' ! b)"
      using slot [OF u] by blast
    have o: "boffset (i' ! b) = boffset (bs ! k)" unfolding k(3) by simp
    have "boffset (bs ! k) + bsize (bs ! k) \<le> sz" "balign (bs ! k) dvd boffset (bs ! k)"
      using c(4,5) nth_mem [OF k(1)] by (auto simp: fits_in_def on_boundary_def)
    then show ?thesis using k(2,4,5) o by simp
  qed
  have two: "\<not> intersects (sizeRange (i' ! b)) (sizeRange (i' ! c))"
    if u: "in_use t liveOps a op b" "in_use t liveOps a op' c" and ne: "b \<noteq> c"
      and con: "op = op' \<or> asyncParent (bowner (i' ! b)) \<noteq> None \<and> asyncParent (bowner (i' ! b)) = asyncParent (bowner (i' ! c)) \<and>
          region (bowner (i' ! b)) \<noteq> region (bowner (i' ! c))" for b c op op'
  proof -
    obtain k where k: "k < length bs" "lid (bs ! k) = b" "sizeRange (i' ! b) = sizeRange (bs ! k)" "icontains (lrange (bs ! k)) (op_place t op)"
        "lasync (bs ! k) = asyncParent (bowner (i' ! b))" "lregion (bs ! k) = region (bowner (i' ! b))"
      using slot [OF u(1)] sr by blast
    obtain l where l: "l < length bs" "lid (bs ! l) = c" "sizeRange (i' ! c) = sizeRange (bs ! l)" "icontains (lrange (bs ! l)) (op_place t op')"
        "lasync (bs ! l) = asyncParent (bowner (i' ! c))" "lregion (bs ! l) = region (bowner (i' ! c))"
      using slot [OF u(2)] sr by blast
    have "concurrent (bs ! k) (bs ! l)"
      using con k(4-6) l(4-6) by (auto simp: concurrent_def intersects_def icontains_def)
    moreover have "k \<noteq> l" using ne k(2) l(2) by blast
    ultimately show ?thesis using \<open>disjoint_live bs\<close> k(1,3) l(1,3) by (simp add: disjoint_live_def)
  qed
  have a': "bufferSet a' = i'" "sharedMemorySize a' = sz" "a' = a\<lparr>bufferSet := i', sharedMemorySize := sharedMemorySize a'\<rparr>"
    by (simp_all add: a'_def i'_def store_offsets_def written_def)
  have "length i' = length (bufferSet a)" by (simp add: i'_def)
  then show ?thesis using run a' one two by blast
qed

end
