(* ===== verification/AllocationProps.thy ===== *)
theory AllocationProps
  imports AllocationLiveness
begin

text \<open>The properties of the shared memory allocation, each with an instance where it has hypotheses.\<close>

section \<open>Offsets\<close>

definition sample_buffer :: "nat \<Rightarrow> nat \<Rightarrow> nat \<Rightarrow> nat \<Rightarrow> nat \<Rightarrow> live_buffer" where
  "sample_buffer i sz al s e = \<lparr>bkind = Explicit, bowner = i, bsize = sz, balign = al, boffset = 0,
     lid = i, lrange = \<lparr>istart = s, iend = e\<rparr>, lasync = None, lregion = 0\<rparr>"

text \<open>
  C2: for buffers with distinct ids, non-empty live ranges and alignments that are not 0,
  \<open>computeOffsets\<close> terminates, keeps the size, alignment and live range of every buffer, and gives
  offsets at which no two buffers that can be in use at the same time overlap, all inside the reported
  total size and each a multiple of its alignment.
\<close>

theorem computeOffsets_safe:
  assumes "allocatable bs"
  shows "\<exists>bs' sz. computeOffsets bs = Some (bs', sz) \<and> mset (map statics bs') = mset (map statics bs) \<and>
    disjoint_live bs' \<and> fits_in sz bs' \<and> (\<forall>b \<in> set bs'. on_boundary b)"
  by (rule computeOffsets_total [OF assms])

theorem computeOffsets_safe_witness:
  "\<exists>bs' sz. computeOffsets [sample_buffer 0 64 16 0 4, sample_buffer 1 128 128 2 6, sample_buffer 2 64 16 5 8] = Some (bs', sz) \<and>
     disjoint_live bs' \<and> fits_in sz bs'"
proof -
  have "allocatable [sample_buffer 0 64 16 0 4, sample_buffer 1 128 128 2 6, sample_buffer 2 64 16 5 8]"
    by (simp add: allocatable_def sample_buffer_def size_max_def)
  then show ?thesis using computeOffsets_safe by blast
qed

text \<open>
  C21: the loop of \<open>calculateStarts\<close> never reads the first triple of an empty map: for buffers with distinct
  ids and non-empty live ranges it places every buffer, in the given order and at an aligned offset.
\<close>

theorem calculateStarts_terminates:
  assumes "\<forall>x \<in> set bs. live_range x" and "distinct (map lid bs)"
  shows "\<exists>bs'. calculateStarts bs = Some bs' \<and> map statics bs' = map statics bs \<and> (\<forall>b \<in> set bs'. on_boundary b)"
  by (rule calculateStarts_total [OF assms])

theorem calculateStarts_terminates_witness:
  "\<exists>bs'. calculateStarts [sample_buffer 0 64 16 0 4, sample_buffer 1 32 16 2 6] = Some bs' \<and> (\<forall>b \<in> set bs'. on_boundary b) \<and>
     length bs' = 2"
proof -
  have l: "\<forall>x \<in> set [sample_buffer 0 64 16 0 4, sample_buffer 1 32 16 2 6]. live_range x"
    "distinct (map lid [sample_buffer 0 64 16 0 4, sample_buffer 1 32 16 2 6])"
    by (simp_all add: live_range_def sample_buffer_def size_max_def)
  obtain bs' where bs: "calculateStarts [sample_buffer 0 64 16 0 4, sample_buffer 1 32 16 2 6] = Some bs'"
    "map statics bs' = map statics [sample_buffer 0 64 16 0 4, sample_buffer 1 32 16 2 6]" "\<forall>b \<in> set bs'. on_boundary b"
    using calculateStarts_terminates [OF l] by blast
  then have "length bs' = 2" by (metis length_map length_Cons list.size(3) numeral_2_eq_2)
  then show ?thesis using bs by blast
qed

section \<open>The colouring of the interference graph\<close>

lemma first_free_nonneg: "0 \<le> first_free n used"
  by (auto simp: first_free_def find_Some_iff split: option.splits)

lemma first_free_fresh: "first_free n used < int n \<Longrightarrow> first_free n used \<notin> set used"
proof (cases "find (\<lambda>c. int c \<notin> set used) [0..<n]")
  case (Some k)
  then have "int k \<notin> set used" by (auto simp: find_Some_iff)
  then show ?thesis using Some by (simp add: first_free_def)
qed (simp add: first_free_def)

lemma pigeon: "card (set used) < n \<Longrightarrow> first_free n used < int n"
proof -
  assume c: "card (set used) < n"
  show ?thesis
  proof (cases "find (\<lambda>c. int c \<notin> set used) [0..<n]")
    case None
    then have "int ` {0..<n} \<subseteq> set used" by (auto simp: find_None_iff)
    then have "card (int ` {0..<n}) \<le> card (set used)" by (intro card_mono) auto
    then show ?thesis using c by (simp add: card_image)
  next
    case (Some k)
    then have "k \<in> {0..<n}" by (auto simp: find_Some_iff)
    then show ?thesis using Some by (simp add: first_free_def)
  qed
qed

text \<open>
  The colouring of \<open>allocate\<close> is proper: for a symmetric graph without loops, neighbours get
  different colours, between 0 and the number of buffers less one.
\<close>

theorem coloring_proper:
  assumes g: "graph_ok g" and i: "i < length g" and j: "j \<in> set (g ! i)"
  shows "color_buffers g ! i \<noteq> color_buffers g ! j \<and> 0 \<le> color_buffers g ! i \<and> color_buffers g ! i < int (length g)"
proof -
  have step: "color_buffers g ! k = first_free (length g) (map (\<lambda>j. coloring g k ! j) (g ! k))" if "k < length g" for k
    unfolding color_buffers_eq coloring_settled [OF that] using that by (simp add: coloring_Suc)
  have nb: "set (g ! k) \<subseteq> {0..<length g} - {k}" if "k < length g" for k
    using g that unfolding graph_ok_def atLeastLessThan_iff subset_iff Diff_iff singleton_iff by blast
  have lt: "color_buffers g ! k < int (length g) \<and> color_buffers g ! k \<notin> set (map (\<lambda>j. coloring g k ! j) (g ! k))"
    if k: "k < length g" for k
  proof -
    have "card (set (map (\<lambda>j. coloring g k ! j) (g ! k))) \<le> card (set (g ! k))" by (simp add: card_image_le)
    also have "\<dots> \<le> card ({0..<length g} - {k})" using nb [OF k] by (intro card_mono) auto
    also have "\<dots> < length g" using k by simp
    finally have "first_free (length g) (map (\<lambda>j. coloring g k ! j) (g ! k)) < int (length g)" by (rule pigeon)
    then show ?thesis unfolding step [OF k] by (intro conjI first_free_fresh)
  qed
  have fixed: "coloring g k ! m = color_buffers g ! m" if "m < k" "k \<le> length g" for m k
    unfolding color_buffers_eq
    by (rule trans [OF coloring_settled [OF that(1)] coloring_settled [symmetric, OF less_le_trans [OF that]]])
  have jl: "j < length g" "j \<noteq> i" "i \<in> set (g ! j)" using g i j unfolding graph_ok_def by blast+
  have "color_buffers g ! i \<noteq> color_buffers g ! j"
  proof (cases "j < i")
    case True
    then have "color_buffers g ! j \<in> set (map (\<lambda>j. coloring g i ! j) (g ! i))"
      unfolding fixed [OF True less_imp_le [OF i], symmetric] using j by simp
    then show ?thesis using lt [OF i] by metis
  next
    case False
    then have "i < j" using jl by simp
    then have "color_buffers g ! i \<in> set (map (\<lambda>i. coloring g j ! i) (g ! j))"
      unfolding fixed [OF \<open>i < j\<close> less_imp_le [OF jl(1)], symmetric] using jl(3) by simp
    then show ?thesis using lt [OF jl(1)] by metis
  qed
  moreover have "0 \<le> color_buffers g ! i" using step [OF i] first_free_nonneg by simp
  ultimately show ?thesis using lt [OF i] by simp
qed

theorem coloring_proper_witness:
  "color_buffers [[1, 2], [0], [0]] ! 1 \<noteq> color_buffers [[1, 2], [0], [0]] ! (0::nat)"
  by (rule coloring_proper [THEN conjunct1]) (simp_all add: graph_ok_def less_Suc_eq numeral_3_eq_3)

section \<open>The whole analysis\<close>

text \<open>
  C3: the memory of a function, from the walk over its operations to the offsets in its buffers.
  When the walk succeeds, with operations of the tree, values that have uses and alignments that
  are not 0, \<open>run\<close> returns. Every buffer in use at an operation, by a live value that may point to it or
  as scratch memory, lies at a multiple of its alignment inside the shared memory size; two buffers in
  use at the same operation, or in different regions of one asynchronous operation, do not overlap.
\<close>

theorem runAllocation_safe:
  assumes "getValuesAndSizes calleeSize scratchSize ops aliases = Some a" and "walk_ok t liveOps a"
  shows "\<exists>a'. runAllocation calleeSize scratchSize ops aliases t liveOps asyncParent region = Some a' \<and>
    (\<forall>b op. in_use t liveOps a' op b \<longrightarrow> b < length (bufferSet a') \<and> boffset (bufferSet a' ! b) + bsize (bufferSet a' ! b) \<le> sharedMemorySize a' \<and>
        balign (bufferSet a' ! b) dvd boffset (bufferSet a' ! b)) \<and>
    (\<forall>b c op op'. in_use t liveOps a' op b \<longrightarrow> in_use t liveOps a' op' c \<longrightarrow> b \<noteq> c \<longrightarrow>
        op = op' \<or> asyncParent (bowner (bufferSet a' ! b)) \<noteq> None \<and>
          asyncParent (bowner (bufferSet a' ! b)) = asyncParent (bowner (bufferSet a' ! c)) \<and>
          region (bowner (bufferSet a' ! b)) \<noteq> region (bowner (bufferSet a' ! c)) \<longrightarrow>
        \<not> intersects (sizeRange (bufferSet a' ! b)) (sizeRange (bufferSet a' ! c)))"
proof -
  obtain a' i' where a': "runAllocation calleeSize scratchSize ops aliases t liveOps asyncParent region = Some a'" "bufferSet a' = i'"
      "a' = a\<lparr>bufferSet := i', sharedMemorySize := sharedMemorySize a'\<rparr>"
    and use: "\<forall>b op. in_use t liveOps a op b \<longrightarrow> b < length i' \<and> boffset (i' ! b) + bsize (i' ! b) \<le> sharedMemorySize a' \<and>
        balign (i' ! b) dvd boffset (i' ! b)"
      "\<forall>b c op op'. in_use t liveOps a op b \<longrightarrow> in_use t liveOps a op' c \<longrightarrow> b \<noteq> c \<longrightarrow>
        op = op' \<or> asyncParent (bowner (i' ! b)) \<noteq> None \<and> asyncParent (bowner (i' ! b)) = asyncParent (bowner (i' ! c)) \<and>
          region (bowner (i' ! b)) \<noteq> region (bowner (i' ! c)) \<longrightarrow>
        \<not> intersects (sizeRange (i' ! b)) (sizeRange (i' ! c))"
    using runAllocation_total [OF assms, of asyncParent region] by (elim exE conjE) (rule that)
  have "in_use t liveOps (a\<lparr>bufferSet := x, sharedMemorySize := y\<rparr>) = in_use t liveOps a" for x y
    by (simp add: in_use_def getBufferIds_def valueBufferId_def fun_eq_iff)
  then have "in_use t liveOps a' = in_use t liveOps a" using a'(3) by metis
  with use a'(1) show ?thesis unfolding a'(2) [symmetric] by (intro exI [of _ a'] conjI) (simp_all only:)
qed

text \<open>Two tiles, of which the second is also reached through an alias, and an operation with scratch
  memory between them.\<close>

definition tile_walk :: "(nat \<times> alloc_op) list" where
  "tile_walk = [(1, LocalAlloc True 10 64 32 16), (2, LocalAlloc True 20 32 32 16), (3, PlainOp), (0, FuncOp 0)]"

definition tile_tree :: op_tree where
  "tile_tree = OpNode 0 [OpNode 1 [], OpNode 2 [], OpNode 3 [], OpNode 4 []]"

definition tile_live :: "nat \<Rightarrow> nat list" where
  "tile_live v = (if v = 10 then [1, 2, 3] else if v = 20 then [2] else [3, 4])"

definition tile_scratch :: "nat \<Rightarrow> nat option" where
  "tile_scratch op = Some (if op = 3 then 100 else 0)"

theorem runAllocation_safe_witness:
  "\<exists>a'. runAllocation (\<lambda>_. 0) tile_scratch tile_walk [(21, 20)] tile_tree tile_live (\<lambda>_. None) (\<lambda>_. 0) = Some a' \<and>
     in_use tile_tree tile_live a' 3 0 \<and> in_use tile_tree tile_live a' 3 1 \<and> in_use tile_tree tile_live a' 3 2 \<and>
     \<not> intersects (sizeRange (bufferSet a' ! 0)) (sizeRange (bufferSet a' ! 1)) \<and>
     \<not> intersects (sizeRange (bufferSet a' ! 0)) (sizeRange (bufferSet a' ! 2))"
proof -
  define a where "a = \<lparr>bufferSet = [\<lparr>bkind = Explicit, bowner = 1, bsize = 256, balign = 16, boffset = 0\<rparr>,
        \<lparr>bkind = Explicit, bowner = 2, bsize = 128, balign = 16, boffset = 0\<rparr>,
        \<lparr>bkind = Scratch, bowner = 3, bsize = 100, balign = 128, boffset = 0\<rparr>],
      valueBuffer = [(10, 0), (20, 1)], opScratch = [(3, 2)], opVirtual = [], aliasBuffer = [(21, [1])], sharedMemorySize = 0\<rparr>"
  have a: "getValuesAndSizes (\<lambda>_. 0) tile_scratch tile_walk [(21, 20)] = Some a"
    by (simp add: getValuesAndSizes_def tile_walk_def tile_scratch_def empty_allocation_def getScratchValueSize_def
        getExplicitValueSize_def maybeAddScratchBuffer_def addBuffer_def addAlias_def a_def Let_def)
  have "length (postorder tile_tree) = 5" by code_simp
  moreover have "\<forall>v \<in> set (map fst (valueBuffer a) @ map fst (aliasBuffer a)). tile_live v \<noteq> [] \<and> set (tile_live v) \<subseteq> set (postorder tile_tree)"
    "\<forall>op \<in> set (map fst (opScratch a) @ map fst (opVirtual a)). op \<in> set (postorder tile_tree)" "\<forall>b \<in> set (bufferSet a). 0 < balign b"
    by (simp_all add: a_def tile_live_def tile_tree_def)
  ultimately have ok: "walk_ok tile_tree tile_live a" by (simp add: walk_ok_def size_max_def)
  obtain r where safe: "runAllocation (\<lambda>_. 0) tile_scratch tile_walk [(21, 20)] tile_tree tile_live (\<lambda>_. None) (\<lambda>_. 0) = Some r"
    and apart: "\<And>b c. in_use tile_tree tile_live r 3 b \<Longrightarrow> in_use tile_tree tile_live r 3 c \<Longrightarrow> b \<noteq> c \<Longrightarrow>
       \<not> intersects (sizeRange (bufferSet r ! b)) (sizeRange (bufferSet r ! c))"
    using runAllocation_safe [OF a ok, of "\<lambda>_. None" "\<lambda>_. 0"] by (elim exE conjE) metis
  have "getBufferIds r = getBufferIds a" "opScratch r = opScratch a" "opVirtual r = opVirtual a"
    using safe by (auto simp: runAllocation_def a store_offsets_def getBufferIds_def valueBufferId_def fun_eq_iff Option.bind_eq_Some_conv)
  moreover have "0 \<in> set (getBufferIds a 10)" "1 \<in> set (getBufferIds a 21)" "(3, 2) \<in> set (opScratch a @ opVirtual a)"
    "3 \<in> set (tile_live 10)" "3 \<in> set (tile_live 21)" "3 \<in> set (postorder tile_tree)"
    by (simp_all add: a_def tile_live_def tile_tree_def getBufferIds_def valueBufferId_def)
  ultimately have "0 \<in> set (getBufferIds r 10)" "1 \<in> set (getBufferIds r 21)" "(3, 2) \<in> set (opScratch r @ opVirtual r)"
    "3 \<in> set (tile_live 10)" "3 \<in> set (tile_live 21)" "3 \<in> set (postorder tile_tree)"
    by simp_all
  then have "in_use tile_tree tile_live r 3 0" "in_use tile_tree tile_live r 3 1" "in_use tile_tree tile_live r 3 2"
    unfolding in_use_def by blast+
  then show ?thesis using safe apart [of 0 1] apart [of 0 2] by (intro exI [of _ r]) simp
qed

end
