(* ===== verification/TensorMemory.thy ===== *)
theory TensorMemory
  imports LayoutConversions Allocation
begin

text \<open>
  The allocation of tensor memory, \<open>lib/Dialect/TritonNvidiaGPU/Transforms/TensorMemoryAllocation.cpp\<close>: a
  linear scan over the allocations, first fit in a bitmap of two rows and as many columns as it takes. Values
  and operations are numbered; the liveness of a value, its users and its definition, which MLIR keeps, are
  arguments. None is a stopped compiler.
\<close>

section \<open>The bitmap\<close>

record tmem_chunk =
  startRow :: nat
  startCol :: nat
  chunkCols :: nat
  chunkRows :: nat

type_synonym memory_map = "bool list"

definition kNumRows :: nat where
  "kNumRows = 2"

definition allocGranularity :: nat where
  "allocGranularity = 64"

definition empty_map :: memory_map where
  "empty_map = replicate (512 * kNumRows) False"

definition isUsed :: "memory_map \<Rightarrow> nat \<Rightarrow> nat \<Rightarrow> bool" where
  "isUsed m row col \<longleftrightarrow> row + col * kNumRows < length m \<and> m ! (row + col * kNumRows)"

definition setUsed :: "memory_map \<Rightarrow> nat \<Rightarrow> nat \<Rightarrow> bool \<Rightarrow> memory_map option" where
  "setUsed m row col used =
     (if row + col * kNumRows < length m then Some (m[row + col * kNumRows := used]) else None)"

text \<open>The cells of a chunk, column by column, in the order of the two loops.\<close>

definition cells :: "tmem_chunk \<Rightarrow> (nat \<times> nat) list" where
  "cells c = concat (map (\<lambda>i. map (\<lambda>j. (startRow c + j, startCol c + i)) [0..<chunkRows c]) [0..<chunkCols c])"

definition mark :: "bool \<Rightarrow> (nat \<times> nat) list \<Rightarrow> memory_map \<Rightarrow> memory_map option" where
  "mark used ps m = fold (\<lambda>(r, c) acc. Option.bind acc (\<lambda>m. setUsed m r c used)) ps (Some m)"

definition free_chunk :: "tmem_chunk \<Rightarrow> memory_map \<Rightarrow> memory_map option" where
  "free_chunk c m = mark False (cells c) m"

text \<open>The bitmap doubles until the chunk fits; it starts with 1024 cells, so it is never empty.\<close>

function grow_map :: "nat \<Rightarrow> memory_map \<Rightarrow> memory_map" where
  "grow_map n m = (if n < length m \<or> m = [] then m else grow_map n (m @ replicate (length m) False))"
  by pat_completeness auto
termination
  by (relation "measure (\<lambda>(n, m). Suc n - length m)") (simp_all flip: length_greater_0_conv, linarith)

declare grow_map.simps [simp del]

definition alloc_chunk :: "tmem_chunk \<Rightarrow> memory_map \<Rightarrow> memory_map option" where
  "alloc_chunk c m = mark True (cells c) (grow_map ((startCol c + chunkCols c) * kNumRows) m)"

section \<open>First fit\<close>

record tmem_size =
  allocCols :: nat
  allocRows :: nat

definition next_aligned :: "nat \<Rightarrow> nat \<Rightarrow> nat" where
  "next_aligned a col = (if col mod a \<noteq> 0 then (col div a + 1) * a else col)"

definition fitting_row :: "memory_map \<Rightarrow> nat \<Rightarrow> nat \<Rightarrow> nat option \<Rightarrow> nat \<Rightarrow> nat option" where
  "fitting_row m cols rows rowId col =
     find (\<lambda>row. (rowId = None \<or> rowId = Some row) \<and>
         \<not> list_ex (\<lambda>(r, c). isUsed m r c) (cells \<lparr>startRow = row, startCol = col, chunkCols = cols, chunkRows = rows\<rparr>))
       [0..<kNumRows - rows + 1]"

partial_function (option) scan_columns :: "memory_map \<Rightarrow> nat \<Rightarrow> nat \<Rightarrow> nat option \<Rightarrow> nat \<Rightarrow> nat \<Rightarrow> tmem_chunk option" where [code]:
  "scan_columns m cols rows rowId a col =
     (let col' = next_aligned a col
      in case fitting_row m cols rows rowId col' of
           Some row \<Rightarrow> Some \<lparr>startRow = row, startCol = col', chunkCols = cols, chunkRows = rows\<rparr>
         | None \<Rightarrow> scan_columns m cols rows rowId a (col' + 1))"

definition findFirstFit :: "memory_map \<Rightarrow> tmem_size \<Rightarrow> nat option \<Rightarrow> nat \<Rightarrow> tmem_chunk option" where
  "findFirstFit m sz rowId columnAlignment =
     (let rows = allocRows sz div allocGranularity
      in if rows \<le> kNumRows \<and> allocRows sz mod allocGranularity = 0 \<and> columnAlignment \<noteq> 0
         then scan_columns m (allocCols sz) rows rowId columnAlignment 0 else None)"

definition allocFirstFit ::
  "memory_map \<Rightarrow> tmem_size \<Rightarrow> nat option \<Rightarrow> tmem_chunk list \<Rightarrow> nat \<Rightarrow> (tmem_chunk \<times> memory_map) option" where
  "allocFirstFit m sz rowId coexisting columnAlignment = do {
     mapForAlloc \<leftarrow> fold (\<lambda>c acc. Option.bind acc (alloc_chunk c)) coexisting (Some m);
     chunk \<leftarrow> findFirstFit mapForAlloc sz rowId columnAlignment;
     m' \<leftarrow> alloc_chunk chunk m;
     Some (chunk, m')
   }"

section \<open>Sizes\<close>

definition ceil_ratio :: "int \<Rightarrow> int \<Rightarrow> int option" where
  "ceil_ratio m n = cdiv (m + n - 1) n"

record mem_desc =
  descShape :: "int list"
  descBits :: int
  descEnc :: encoding

definition numTmemRows :: nat where
  "numTmemRows = 128"

definition getTmemAllocSizes :: "mem_desc \<Rightarrow> tmem_size option" where
  "getTmemAllocSizes d = do {
     per \<leftarrow> getShapePerCTA (descEnc d) (descShape d);
     (case descEnc d of
        TensorMemoryScales _ _ \<Rightarrow>
          if descBits d = 8 \<and> length (descShape d) = 2 \<and> length per = 2
          then do {
            m \<leftarrow> ceil_ratio (per ! 0) 32;
            k \<leftarrow> ceil_ratio (per ! 1) 4;
            Some \<lparr>allocCols = nat (m * k), allocRows = numTmemRows\<rparr>
          } else None
      | TensorMemory t \<Rightarrow>
          if length per < 2 then None
          else do {
            let elementSize = (if unpacked t then 4 else descBits d sdiv 8);
            let bytes = prod_list per * elementSize;
            let single = (per ! (length per - 2) \<le> blockM t \<and> per ! (length per - 1) \<le> blockN t);
            let rows = (if blockM t = 64 \<and> single then 64 else numTmemRows);
            cols \<leftarrow> ceil_ratio bytes (int rows * 4);
            Some \<lparr>allocCols = nat cols, allocRows = rows\<rparr>
          }
      | _ \<Rightarrow> None)
   }"

section \<open>Live intervals\<close>

text \<open>A value with the operations it is live at (by id) and, in the order of its users, the views of it:
  the users that are indexing or reinterpreting operations. The other users add nothing.\<close>

datatype view_tree = View "nat list" "view_tree list"

function view_live :: "view_tree list \<Rightarrow> nat list \<Rightarrow> nat list" where
  "view_live [] ops = ops"
| "view_live (View live views # users) ops = view_live (rev views @ users) (ops @ live)"
  by pat_completeness auto
termination
  by (relation "measure (\<lambda>(users, ops). sum_list (map size users))") (simp_all add: size_list_conv_sum_list rev_map [symmetric])

fun live_operations :: "view_tree \<Rightarrow> nat list" where
  "live_operations (View live views) = view_live (rev views) live"

definition getLiveIntervals :: "view_tree \<Rightarrow> interval option" where
  "getLiveIntervals v =
     (case live_operations v of
        [] \<Rightarrow> None
      | i # is \<Rightarrow> mkInterval (fold min is i) (fold (\<lambda>j m. max m (j + 1)) (i # is) 0))"

text \<open>\<open>std::multimap\<close>: by key, equal keys in the order of insertion.\<close>

fun insert_end :: "nat \<Rightarrow> 'a \<Rightarrow> (nat \<times> 'a) list \<Rightarrow> (nat \<times> 'a) list" where
  "insert_end k x [] = [(k, x)]"
| "insert_end k x ((k', y) # es) = (if k' \<le> k then (k', y) # insert_end k x es else (k, x) # (k', y) # es)"

fun updateMap :: "nat \<Rightarrow> memory_map \<Rightarrow> (nat \<times> tmem_chunk) list \<Rightarrow> (memory_map \<times> (nat \<times> tmem_chunk) list) option" where
  "updateMap start m [] = Some (m, [])"
| "updateMap start m ((e, c) # es) =
     (if e > start then Some (m, (e, c) # es) else Option.bind (free_chunk c m) (\<lambda>m'. updateMap start m' es))"

section \<open>The allocations behind a value\<close>

text \<open>
  How a value is defined, with the values the search goes on with, in the order they are pushed: a block
  argument with the operand every predecessor forwards; an argument of a warp partition, of a for loop, of the
  two regions of a while loop; an allocation, a view or slice, a select, the results of an if, of a for and of a
  while. Anything else is a fatal error.
\<close>

datatype tmem_def =
    BlockArg "nat list"
  | PartitionArg nat
  | ForArg nat nat
  | WhileAfterArg nat
  | WhileBeforeArg nat nat
  | AllocResult nat
  | ViewResult nat
  | SelectResult nat nat
  | IfResult nat nat
  | ForResult nat nat
  | WhileResult nat
  | Unhandled

fun def_sources :: "tmem_def \<Rightarrow> nat list option" where
  "def_sources (BlockArg vs) = Some vs"
| "def_sources (PartitionArg v) = Some [v]"
| "def_sources (ForArg yielded init) = Some [yielded, init]"
| "def_sources (WhileAfterArg v) = Some [v]"
| "def_sources (WhileBeforeArg yielded init) = Some [yielded, init]"
| "def_sources (AllocResult _) = Some []"
| "def_sources (ViewResult v) = Some [v]"
| "def_sources (SelectResult t f) = Some [t, f]"
| "def_sources (IfResult t f) = Some [t, f]"
| "def_sources (ForResult yielded init) = Some [yielded, init]"
| "def_sources (WhileResult v) = Some [v]"
| "def_sources Unhandled = None"

function alloc_search :: "tmem_def list \<Rightarrow> nat list \<Rightarrow> nat set \<Rightarrow> nat list \<Rightarrow> nat list option" where
  "alloc_search defs [] seen allocs = Some allocs"
| "alloc_search defs (v # work) seen allocs =
     (if v \<in> seen then alloc_search defs work seen allocs
      else if v < length defs
      then (case def_sources (defs ! v) of
              None \<Rightarrow> None
            | Some vs \<Rightarrow> alloc_search defs (rev vs @ work) (insert v seen)
                (case defs ! v of AllocResult op \<Rightarrow> allocs @ [op] | _ \<Rightarrow> allocs))
      else None)"
  by pat_completeness auto
termination
proof (relation "measures [\<lambda>(defs, work, seen, allocs). card ({..<length defs} - seen), \<lambda>(defs, work, seen, allocs). length work]", goal_cases)
  case (3 defs v work seen allocs vs)
  then have "{..<length defs} - insert v seen \<subset> {..<length defs} - seen" by auto
  then have "card ({..<length defs} - insert v seen) < card ({..<length defs} - seen)" by (intro psubset_card_mono) auto
  then show ?case by simp
qed auto

definition getAlloc :: "tmem_def list \<Rightarrow> nat \<Rightarrow> nat list option" where
  "getAlloc defs v = alloc_search defs [v] {} []"

section \<open>Row constraints\<close>

text \<open>The equivalence classes of dependent allocations, each with its leader first, and the row of a leader.\<close>

record row_constraints =
  dependentAllocs :: "nat list list"
  rowIndex :: "nat \<Rightarrow> nat option"

definition class_of :: "nat list list \<Rightarrow> nat \<Rightarrow> nat list option" where
  "class_of cs x = find (\<lambda>c. x \<in> set c) cs"

definition insert_class :: "nat \<Rightarrow> nat list list \<Rightarrow> nat list list" where
  "insert_class x cs = (if class_of cs x = None then cs @ [[x]] else cs)"

definition unionSets :: "nat \<Rightarrow> nat \<Rightarrow> nat list list \<Rightarrow> nat list list" where
  "unionSets a b cs =
     (let cs' = insert_class b (insert_class a cs);
          ca = the (class_of cs' a); cb = the (class_of cs' b)
      in if ca = cb then cs' else (ca @ cb) # filter (\<lambda>c. c \<noteq> ca \<and> c \<noteq> cb) cs')"

definition joinOps :: "nat \<Rightarrow> nat \<Rightarrow> row_constraints \<Rightarrow> row_constraints" where
  "joinOps a b rc = rc\<lparr>dependentAllocs := unionSets a b (dependentAllocs rc)\<rparr>"

definition getRowIdConstraint :: "row_constraints \<Rightarrow> nat \<Rightarrow> nat option" where
  "getRowIdConstraint rc op = Option.bind (class_of (dependentAllocs rc) op) (\<lambda>c. rowIndex rc (hd c))"

definition addConstraints :: "nat \<Rightarrow> nat \<Rightarrow> row_constraints \<Rightarrow> row_constraints" where
  "addConstraints op row rc =
     (case class_of (dependentAllocs rc) op of
        None \<Rightarrow> rc
      | Some c \<Rightarrow> rc\<lparr>rowIndex := (rowIndex rc)(hd c \<mapsto> row)\<rparr>)"

section \<open>The scan\<close>

text \<open>An allocation: its operation, type and liveness, the warp-specialized operation around it and its region.\<close>

record tmem_alloc =
  allocOp :: nat
  allocType :: mem_desc
  allocViews :: view_tree
  allocWs :: "nat option"
  allocRegion :: nat

text \<open>The operations the walk looks at, in post-order. A matrix instruction has its operand A and its
  accumulator, as values and types.\<close>

datatype tmem_op =
    TMEMAlloc tmem_alloc
  | MMAv5 nat mem_desc nat mem_desc
  | OtherTmemOp

definition blockM_of :: "mem_desc \<Rightarrow> int option" where
  "blockM_of d = (case descEnc d of TensorMemory t \<Rightarrow> Some (blockM t) | _ \<Rightarrow> None)"

definition constrain_rows :: "tmem_def list \<Rightarrow> tmem_op \<Rightarrow> row_constraints \<Rightarrow> row_constraints option" where
  "constrain_rows defs op rc =
     (case op of
        MMAv5 a aType acc accType \<Rightarrow>
          (case blockM_of aType of
             None \<Rightarrow> Some rc
           | Some aM \<Rightarrow> do {
               sz \<leftarrow> getTmemAllocSizes aType;
               if allocRows sz = 64
               then do {
                 lhs \<leftarrow> getAlloc defs a;
                 accs \<leftarrow> getAlloc defs acc;
                 Some (fold (\<lambda>l rc. fold (\<lambda>c rc. joinOps l c rc) accs rc) lhs rc)
               }
               else do {
                 accM \<leftarrow> blockM_of accType;
                 if aM \<noteq> 64 \<and> accM \<noteq> 64 then Some rc else None
               }
             })
      | _ \<Rightarrow> Some rc)"

definition collect_constraints :: "tmem_def list \<Rightarrow> tmem_op list \<Rightarrow> row_constraints option" where
  "collect_constraints defs ops =
     fold (\<lambda>op acc. Option.bind acc (constrain_rows defs op)) ops
       (Some \<lparr>dependentAllocs = [], rowIndex = (\<lambda>_. None)\<rparr>)"

definition tmem_allocs :: "tmem_op list \<Rightarrow> tmem_alloc list" where
  "tmem_allocs ops = concat (map (\<lambda>op. case op of TMEMAlloc a \<Rightarrow> [a] | _ \<Rightarrow> []) ops)"

text \<open>Allocations of other regions of the same warp-specialized operation may run at the same time.\<close>

definition coexist :: "tmem_alloc \<Rightarrow> tmem_alloc \<Rightarrow> bool" where
  "coexist a b \<longleftrightarrow> allocWs a \<noteq> None \<and> allocWs b = allocWs a \<and> allocRegion a \<noteq> allocRegion b"

record scan_state =
  memoryMap :: memory_map
  liverangeEnd :: "(nat \<times> tmem_chunk) list"
  allocChunks :: "(tmem_alloc \<times> tmem_chunk) list"
  rowIds :: row_constraints
  totalMemory :: nat

definition scan_step :: "tmem_alloc \<Rightarrow> scan_state \<Rightarrow> scan_state option" where
  "scan_step a s = do {
     let coexisting = map snd (filter (\<lambda>(b, _). coexist a b) (allocChunks s));
     live \<leftarrow> getLiveIntervals (allocViews a);
     sz \<leftarrow> getTmemAllocSizes (allocType a);
     (m, ends) \<leftarrow> updateMap (istart live) (memoryMap s) (liverangeEnd s);
     (chunk, m') \<leftarrow> allocFirstFit m sz (getRowIdConstraint (rowIds s) (allocOp a)) coexisting 4;
     Some \<lparr>memoryMap = m', liverangeEnd = insert_end (iend live) chunk ends,
           allocChunks = allocChunks s @ [(a, chunk)],
           rowIds = addConstraints (allocOp a) (startRow chunk) (rowIds s),
           totalMemory = max (totalMemory s) (startCol chunk + allocCols sz)\<rparr>
   }"

definition scan_allocs :: "tmem_alloc list \<Rightarrow> scan_state \<Rightarrow> scan_state option" where
  "scan_allocs as s = fold (\<lambda>a acc. Option.bind acc (scan_step a)) as (Some s)"

text \<open>The offsets written to an allocation, column and row, and the size of the memory.\<close>

definition chunk_offsets :: "tmem_chunk \<Rightarrow> nat \<times> nat" where
  "chunk_offsets c = (startCol c, startRow c * 16)"

definition allocateTMem :: "tmem_def list \<Rightarrow> tmem_op list \<Rightarrow> ((nat \<times> tmem_chunk) list \<times> nat) option" where
  "allocateTMem defs ops = do {
     rc \<leftarrow> collect_constraints defs ops;
     s \<leftarrow> scan_allocs (tmem_allocs ops)
       \<lparr>memoryMap = empty_map, liverangeEnd = [], allocChunks = [], rowIds = rc, totalMemory = 0\<rparr>;
     Some (map (\<lambda>(a, c). (allocOp a, c)) (allocChunks s), totalMemory s)
   }"

text \<open>The size the kernel asks for, and the shared memory of the module, which holds the base address.\<close>

definition tmem_module_size :: "nat \<Rightarrow> nat" where
  "tmem_module_size t =
     (if t \<le> 512 then (case find (\<lambda>s. t \<le> s) [0, 32, 64, 128, 256, 512] of Some s \<Rightarrow> s | None \<Rightarrow> t) else t)"

definition tmem_module_shared :: "nat \<Rightarrow> nat option \<Rightarrow> nat option" where
  "tmem_module_shared t shared =
     (if t > 0 \<and> (case shared of None \<Rightarrow> 0 | Some s \<Rightarrow> s) < 4 then Some 4 else shared)"

definition runTensorMemoryAllocation ::
  "tmem_def list \<Rightarrow> tmem_op list \<Rightarrow> nat option \<Rightarrow> ((nat \<times> nat \<times> nat) list \<times> nat \<times> nat option) option" where
  "runTensorMemoryAllocation defs ops shared = do {
     (chunks, t) \<leftarrow> allocateTMem defs ops;
     let sz = tmem_module_size t;
     Some (map (\<lambda>(op, c). (op, chunk_offsets c)) chunks, sz, tmem_module_shared sz shared)
   }"

end
