(* ===== verification/TensorMemorySafety.thy ===== *)
theory TensorMemorySafety
  imports TensorMemory
begin

text \<open>
  Why the allocations of tensor memory do not overlap: the used cells of the bitmap are those of the chunks
  whose liveness has not ended, the scan always ends, and a search through the definitions of a value finds
  exactly the allocations behind it.
\<close>

section \<open>Marking cells\<close>

definition in_map :: "memory_map \<Rightarrow> nat \<times> nat \<Rightarrow> bool" where
  "in_map m p \<longleftrightarrow> fst p < 2 \<and> fst p + snd p * 2 < length m"

definition used :: "memory_map \<Rightarrow> (nat \<times> nat) set" where
  "used m = {(r, c). r < 2 \<and> isUsed m r c}"

lemma cell_index: "r < 2 \<Longrightarrow> r' < 2 \<Longrightarrow> r + c * 2 = r' + c' * 2 \<longleftrightarrow> r = r' \<and> c = (c' :: nat)" for r r' :: nat
  by auto presburger+

lemma used_in_map: "p \<in> used m \<Longrightarrow> in_map m p"
  by (auto simp: used_def in_map_def isUsed_def kNumRows_def)

lemma setUsed_used:
  assumes "in_map m (r, c)"
  shows "\<exists>m'. setUsed m r c v = Some m' \<and> length m' = length m \<and>
    used m' = (if v then insert (r, c) (used m) else used m - {(r, c)})"
proof -
  have i: "(r + c * 2 = a + b * 2) = (r = a \<and> c = b)" if "a < 2" for a b
    using cell_index [of r a c b] that assms by (simp add: in_map_def)
  then show ?thesis
    using assms by (auto simp: setUsed_def used_def isUsed_def in_map_def kNumRows_def nth_list_update)
qed

lemma mark_used:
  assumes "\<forall>p \<in> set ps. in_map m p"
  shows "\<exists>m'. mark v ps m = Some m' \<and> length m' = length m \<and>
    used m' = (if v then used m \<union> set ps else used m - set ps)"
  using assms
proof (induction ps arbitrary: m)
  case Nil
  then show ?case by (simp add: mark_def)
next
  case (Cons p ps)
  obtain r c where p: "p = (r, c)" by (cases p)
  obtain m1 where m1: "setUsed m r c v = Some m1" "length m1 = length m"
    "used m1 = (if v then insert (r, c) (used m) else used m - {(r, c)})"
    using setUsed_used [of m r c v] Cons.prems p by auto
  have "\<forall>q \<in> set ps. in_map m1 q" using Cons.prems m1(2) by (auto simp: in_map_def)
  from Cons.IH [OF this] m1 show ?case by (auto simp: mark_def p split: if_splits)
qed

lemma grow_map_spec: "m \<noteq> [] \<Longrightarrow> n < length (grow_map n m) \<and> length m \<le> length (grow_map n m) \<and> used (grow_map n m) = used m"
proof (induction n m rule: grow_map.induct)
  case (1 n m)
  show ?case
  proof (cases "n < length m")
    case True
    then show ?thesis by (simp add: grow_map.simps)
  next
    case False
    have "used (m @ replicate (length m) False) = used m"
      by (auto simp: used_def isUsed_def nth_append)
    then show ?thesis using 1 False by (simp add: grow_map.simps [of n m])
  qed
qed

lemma set_cells: "set (cells c) = {startRow c ..< startRow c + chunkRows c} \<times> {startCol c ..< startCol c + chunkCols c}"
proof -
  have "(r, k) \<in> set (cells c)" if "r \<in> {startRow c ..< startRow c + chunkRows c}" "k \<in> {startCol c ..< startCol c + chunkCols c}" for r k
    using that unfolding cells_def
    by (auto intro!: bexI [of _ "k - startCol c"] image_eqI [of _ _ "r - startRow c"])
  then show ?thesis by (auto simp: cells_def)
qed

definition chunk_ok :: "tmem_chunk \<Rightarrow> bool" where
  "chunk_ok c \<longleftrightarrow> startRow c + chunkRows c \<le> 2"

lemma alloc_chunk_total:
  assumes "chunk_ok c" "m \<noteq> []"
  shows "\<exists>m'. alloc_chunk c m = Some m' \<and> m' \<noteq> [] \<and> used m' = used m \<union> set (cells c)"
proof -
  let ?g = "grow_map ((startCol c + chunkCols c) * 2) m"
  have g: "(startCol c + chunkCols c) * 2 < length ?g" "used ?g = used m" "length m \<le> length ?g"
    using grow_map_spec [OF assms(2)] by auto
  have "\<forall>p \<in> set (cells c). in_map ?g p" using g(1) assms(1) by (auto simp: set_cells in_map_def chunk_ok_def)
  from mark_used [OF this, of True] show ?thesis using g assms(2) by (auto simp: alloc_chunk_def kNumRows_def)
qed

lemma free_chunk_total:
  assumes "set (cells c) \<subseteq> used m" "m \<noteq> []"
  shows "\<exists>m'. free_chunk c m = Some m' \<and> m' \<noteq> [] \<and> used m' = used m - set (cells c)"
proof -
  have "\<forall>p \<in> set (cells c). in_map m p" using assms(1) used_in_map by blast
  from mark_used [OF this, of False] show ?thesis using assms(2) by (auto simp: free_chunk_def)
qed

lemma alloc_chunks_total:
  assumes "\<forall>c \<in> set cs. chunk_ok c" "m \<noteq> []"
  shows "\<exists>m'. fold (\<lambda>c acc. Option.bind acc (alloc_chunk c)) cs (Some m) = Some m' \<and> m' \<noteq> [] \<and>
    used m' = used m \<union> (\<Union>c \<in> set cs. set (cells c))"
  using assms
proof (induction cs arbitrary: m)
  case (Cons c cs)
  obtain m1 where "alloc_chunk c m = Some m1" "m1 \<noteq> []" "used m1 = used m \<union> set (cells c)"
    using alloc_chunk_total [of c m] Cons.prems by auto
  moreover have "\<forall>c \<in> set cs. chunk_ok c" using Cons.prems by simp
  ultimately show ?case using Cons.IH [of m1] by (auto simp: Un_assoc)
qed simp

section \<open>The scan for a place ends\<close>

lemma next_aligned_spec: "a \<noteq> 0 \<Longrightarrow> col \<le> next_aligned a col \<and> next_aligned a col mod a = 0"
proof (cases "col mod a = 0")
  case False
  assume a: "a \<noteq> 0"
  have "col = col div a * a + col mod a" by simp
  moreover have "col mod a < a" using a by simp
  ultimately have "col \<le> (col div a + 1) * a" by (metis add.commute add_le_cancel_left distrib_right less_imp_le mult_1 nat_le_linear)
  then show ?thesis using False by (simp add: next_aligned_def)
qed (simp add: next_aligned_def)

definition row_feasible :: "nat \<Rightarrow> nat option \<Rightarrow> bool" where
  "row_feasible rows rowId \<longleftrightarrow> rows \<le> 2 \<and> (case rowId of None \<Rightarrow> True | Some r \<Rightarrow> r + rows \<le> 2)"

lemma fitting_row_Some:
  assumes "fitting_row m cols rows rowId col = Some row" "rows \<le> 2"
  shows "row + rows \<le> 2 \<and> (rowId = None \<or> rowId = Some row) \<and>
    set (cells \<lparr>startRow = row, startCol = col, chunkCols = cols, chunkRows = rows\<rparr>) \<inter> used m = {}"
  using assms by (auto simp: fitting_row_def find_Some_iff kNumRows_def used_def list_ex_iff nth_append split: if_splits)

lemma fitting_row_free:
  assumes "row_feasible rows rowId" "length m \<le> col * 2"
  shows "fitting_row m cols rows rowId col \<noteq> None"
proof -
  let ?r = "case rowId of None \<Rightarrow> 0 | Some r \<Rightarrow> r"
  have "?r < kNumRows - rows + 1" "rowId = None \<or> rowId = Some ?r"
    using assms(1) by (auto simp: row_feasible_def kNumRows_def split: option.splits)
  moreover have "\<not> list_ex (\<lambda>(r, c). isUsed m r c) (cells \<lparr>startRow = ?r, startCol = col, chunkCols = cols, chunkRows = rows\<rparr>)"
    using assms(2) by (auto simp: list_ex_iff set_cells isUsed_def kNumRows_def)
  ultimately show ?thesis
    unfolding fitting_row_def find_None_iff set_upt atLeastLessThan_iff by blast
qed

lemma scan_columns_total:
  assumes "row_feasible rows rowId" "a \<noteq> 0"
  shows "\<exists>c. scan_columns m cols rows rowId a col = Some c \<and> chunk_ok c \<and> startCol c mod a = 0 \<and> chunkCols c = cols \<and>
    chunkRows c = rows \<and> (rowId = None \<or> rowId = Some (startRow c)) \<and> set (cells c) \<inter> used m = {}"
proof (induction "length m - col" arbitrary: col rule: less_induct)
  case less
  let ?col = "next_aligned a col"
  have al: "col \<le> ?col" "?col mod a = 0" using next_aligned_spec [OF assms(2)] by auto
  have rows: "rows \<le> 2" using assms(1) by (simp add: row_feasible_def)
  show ?case
  proof (cases "fitting_row m cols rows rowId ?col")
    case (Some row)
    show ?thesis
      using fitting_row_Some [OF Some rows] al Some by (subst scan_columns.simps) (simp add: chunk_ok_def Let_def)
  next
    case None
    then have "?col * 2 < length m" using fitting_row_free [OF assms(1), of m ?col cols] by linarith
    then have "length m - (?col + 1) < length m - col" using al(1) by linarith
    from less [OF this] show ?thesis using None by (subst scan_columns.simps) (simp add: Let_def)
  qed
qed

text \<open>With a row the chunk cannot start at, the scan never ends.\<close>

lemma scan_columns_row:
  assumes "scan_columns m cols rows rowId a col = Some c"
  shows "rows \<le> 2 \<longrightarrow> startRow c + rows \<le> 2 \<and> (rowId = None \<or> rowId = Some (startRow c))"
proof (rule scan_columns.raw_induct [of "\<lambda>m cols rows rowId a col c. rows \<le> 2 \<longrightarrow>
    startRow c + rows \<le> 2 \<and> (rowId = None \<or> rowId = Some (startRow c))", OF _ assms])
  fix scan m cols rows rowId a col c
  assume step: "\<And>m cols rows rowId a col c. scan m cols rows rowId a col = Some c \<Longrightarrow>
      rows \<le> 2 \<longrightarrow> startRow c + rows \<le> 2 \<and> (rowId = None \<or> rowId = Some (startRow c))"
    and body: "(let col' = next_aligned a col in case fitting_row m cols rows rowId col' of
         None \<Rightarrow> scan m cols rows rowId a (col' + 1)
       | Some row \<Rightarrow> Some \<lparr>startRow = row, startCol = col', chunkCols = cols, chunkRows = rows\<rparr>) = Some c"
  show "rows \<le> 2 \<longrightarrow> startRow c + rows \<le> 2 \<and> (rowId = None \<or> rowId = Some (startRow c))"
  proof (cases "fitting_row m cols rows rowId (next_aligned a col)")
    case None
    then show ?thesis using step body by simp
  next
    case (Some row)
    then show ?thesis using body fitting_row_Some [OF Some] by auto
  qed
qed

lemma scan_columns_stuck:
  assumes "r + rows > 2" "rows \<le> 2"
  shows "scan_columns m cols rows (Some r) a col = None"
proof (cases "scan_columns m cols rows (Some r) a col")
  case (Some c)
  from scan_columns_row [OF this] assms show ?thesis by auto
qed

section \<open>Freeing what has ended\<close>

definition apart :: "tmem_chunk \<Rightarrow> tmem_chunk \<Rightarrow> bool" where
  "apart c d \<longleftrightarrow> set (cells c) \<inter> set (cells d) = {}"

lemma apart_sym: "apart c d \<longleftrightarrow> apart d c"
  by (auto simp: apart_def)

abbreviation ends_apart :: "(nat \<times> tmem_chunk) list \<Rightarrow> bool" where
  "ends_apart \<equiv> sorted_wrt (\<lambda>x y. apart (snd x) (snd y))"

abbreviation end_cells :: "(nat \<times> tmem_chunk) list \<Rightarrow> (nat \<times> nat) set" where
  "end_cells es \<equiv> \<Union>e \<in> set es. set (cells (snd e))"

lemma set_insert_end [simp]: "set (insert_end k x es) = insert (k, x) (set es)"
  by (induction k x es rule: insert_end.induct) (auto split: if_split_asm)

lemma insert_end_sorted: "sorted (map fst es) \<Longrightarrow> sorted (map fst (insert_end k x es))"
proof (induction es)
  case (Cons e es)
  obtain k' y where e: "e = (k', y)" by (cases e)
  have le: "\<forall>f \<in> set es. k' \<le> fst f" using Cons.prems e by auto
  show ?case
  proof (cases "k' \<le> k")
    case True
    then show ?thesis using Cons le e by auto
  next
    case False
    then have "\<forall>f \<in> set es. k \<le> fst f" using le by (meson le_trans nat_le_linear)
    then show ?thesis using Cons.prems False e by auto
  qed
qed simp

lemma insert_end_apart:
  "ends_apart es \<Longrightarrow> \<forall>e \<in> set es. apart x (snd e) \<Longrightarrow> ends_apart (insert_end k x es)"
  by (induction es) (auto simp: apart_sym)

lemma updateMap_total:
  assumes "sorted (map fst es)" "ends_apart es" "used m = end_cells es" "m \<noteq> []"
  shows "\<exists>m'. updateMap t m es = Some (m', filter (\<lambda>e. t < fst e) es) \<and> m' \<noteq> [] \<and>
    used m' = end_cells (filter (\<lambda>e. t < fst e) es)"
  using assms
proof (induction es arbitrary: m)
  case (Cons e es)
  obtain k c where e: "e = (k, c)" by (cases e)
  show ?case
  proof (cases "t < k")
    case True
    have "\<forall>e \<in> set es. k \<le> fst e" using Cons.prems(1) e by auto
    then have "filter (\<lambda>e. t < fst e) es = es" using True by (intro filter_True) auto
    then show ?thesis using True Cons.prems(3,4) e by simp
  next
    case False
    have "set (cells c) \<subseteq> used m" using Cons.prems(3) e by auto
    from free_chunk_total [OF this Cons.prems(4)]
    obtain m1 where m1: "free_chunk c m = Some m1" "m1 \<noteq> []" "used m1 = used m - set (cells c)" by blast
    have "used m1 = end_cells es" using m1(3) Cons.prems(2,3) e by (auto simp: apart_def)
    moreover have "sorted (map fst es)" "ends_apart es" using Cons.prems(1,2) by auto
    ultimately show ?thesis using Cons.IH [of m1] m1(1,2) False e by simp
  qed
qed simp

section \<open>One allocation\<close>

lemma alloc_rows:
  assumes "getTmemAllocSizes d = Some sz"
  shows "allocRows sz mod 64 = 0 \<and> allocRows sz div 64 \<in> {1, 2}"
  using assms
  by (cases "descEnc d") (auto simp: getTmemAllocSizes_def numTmemRows_def bind_eq_Some_conv Let_def split: if_splits)

lemma allocFirstFit_total:
  assumes "m \<noteq> []" "\<forall>c \<in> set cs. chunk_ok c" "allocRows sz mod 64 = 0" "row_feasible (allocRows sz div 64) rowId" "a \<noteq> 0"
  shows "\<exists>c m'. allocFirstFit m sz rowId cs a = Some (c, m') \<and> chunk_ok c \<and> startCol c mod a = 0 \<and>
    chunkCols c = allocCols sz \<and> chunkRows c = allocRows sz div 64 \<and> (rowId = None \<or> rowId = Some (startRow c)) \<and>
    m' \<noteq> [] \<and> used m' = used m \<union> set (cells c) \<and> set (cells c) \<inter> used m = {} \<and> (\<forall>d \<in> set cs. apart c d)"
proof -
  obtain m1 where m1: "fold (\<lambda>c acc. Option.bind acc (alloc_chunk c)) cs (Some m) = Some m1"
    "used m1 = used m \<union> (\<Union>c \<in> set cs. set (cells c))"
    using alloc_chunks_total [OF assms(2,1)] by blast
  obtain c where c: "scan_columns m1 (allocCols sz) (allocRows sz div 64) rowId a 0 = Some c" "chunk_ok c" "startCol c mod a = 0"
    "chunkCols c = allocCols sz" "chunkRows c = allocRows sz div 64" "rowId = None \<or> rowId = Some (startRow c)"
    "set (cells c) \<inter> used m1 = {}"
    using scan_columns_total [OF assms(4,5), of m1 "allocCols sz" 0] by (elim exE conjE) simp
  have "allocRows sz div 64 \<le> 2" using assms(4) by (simp add: row_feasible_def)
  then have "findFirstFit m1 sz rowId a = Some c"
    using assms(3,5) by (simp only: findFirstFit_def allocGranularity_def kNumRows_def Let_def c(1)) simp
  moreover obtain m' where m': "alloc_chunk c m = Some m'" "m' \<noteq> []" "used m' = used m \<union> set (cells c)"
    using alloc_chunk_total [OF c(2) assms(1)] by blast
  ultimately have "allocFirstFit m sz rowId cs a = Some (c, m')" using m1(1) by (simp add: allocFirstFit_def)
  moreover have "set (cells c) \<inter> used m = {}" "\<forall>d \<in> set cs. apart c d" using c(7) m1(2) by (auto simp: apart_def)
  ultimately show ?thesis using c(2-6) m'(2,3) by (intro exI conjI)
qed

section \<open>Classes of dependent allocations\<close>

definition classes_ok :: "nat list list \<Rightarrow> bool" where
  "classes_ok cs \<longleftrightarrow> (\<forall>c \<in> set cs. c \<noteq> []) \<and> (\<forall>c \<in> set cs. \<forall>d \<in> set cs. set c \<inter> set d \<noteq> {} \<longrightarrow> c = d)"

lemma class_of_Some: "class_of cs x = Some c \<Longrightarrow> c \<in> set cs \<and> x \<in> set c"
  by (auto simp: class_of_def find_Some_iff)

lemma class_of_None: "class_of cs x = None \<longleftrightarrow> (\<forall>c \<in> set cs. x \<notin> set c)"
  by (auto simp: class_of_def find_None_iff)

lemma class_of_in:
  assumes "classes_ok cs" "c \<in> set cs" "x \<in> set c"
  shows "class_of cs x = Some c"
proof (cases "class_of cs x")
  case None
  then show ?thesis using assms by (auto simp: class_of_None)
next
  case (Some d)
  then show ?thesis using class_of_Some [OF Some] assms by (auto simp: classes_ok_def)
qed

lemma class_leader:
  assumes "classes_ok cs" "class_of cs x = Some c" "class_of cs y = Some d" "hd c = hd d"
  shows "c = d"
proof -
  have "c \<in> set cs" "d \<in> set cs" "c \<noteq> []" "d \<noteq> []" using class_of_Some assms by (auto simp: classes_ok_def)
  moreover from this have "hd c \<in> set c \<inter> set d" using assms(4) hd_in_set by (metis IntI)
  then have "set c \<inter> set d \<noteq> {}" by blast
  with calculation(1,2) show ?thesis using assms(1) unfolding classes_ok_def by blast
qed

lemma insert_class_ok: "classes_ok cs \<Longrightarrow> classes_ok (insert_class x cs) \<and> class_of (insert_class x cs) x \<noteq> None"
  by (auto simp: insert_class_def classes_ok_def class_of_None)

lemma insert_class_keeps: "class_of cs y \<noteq> None \<Longrightarrow> class_of (insert_class x cs) y \<noteq> None"
  by (auto simp: insert_class_def class_of_None)

lemma unionSets_ok:
  assumes "classes_ok cs"
  shows "classes_ok (unionSets a b cs) \<and> class_of (unionSets a b cs) a = class_of (unionSets a b cs) b \<and>
    class_of (unionSets a b cs) a \<noteq> None"
proof -
  let ?cs = "insert_class b (insert_class a cs)"
  have ok: "classes_ok ?cs" "class_of ?cs b \<noteq> None" using insert_class_ok assms by blast+
  have "class_of ?cs a \<noteq> None" using insert_class_keeps insert_class_ok assms by blast
  then obtain ca cb where c: "class_of ?cs a = Some ca" "class_of ?cs b = Some cb" using ok(2) by auto
  have m: "ca \<in> set ?cs" "a \<in> set ca" "cb \<in> set ?cs" "b \<in> set cb" using class_of_Some c by blast+
  show ?thesis
  proof (cases "ca = cb")
    case True
    then show ?thesis using ok(1) c by (simp add: unionSets_def Let_def)
  next
    case False
    let ?u = "(ca @ cb) # filter (\<lambda>c. c \<noteq> ca \<and> c \<noteq> cb) ?cs"
    have "classes_ok ?u" using ok(1) m by (auto simp: classes_ok_def)
    moreover from this have "class_of ?u a = Some (ca @ cb)" "class_of ?u b = Some (ca @ cb)"
      using m by (auto intro!: class_of_in)
    ultimately show ?thesis using c False by (simp add: unionSets_def Let_def)
  qed
qed

lemma joins_ok: "classes_ok (dependentAllocs rc) \<Longrightarrow>
    classes_ok (dependentAllocs (fold (\<lambda>c rc. joinOps l c rc) accs rc)) \<and> rowIndex (fold (\<lambda>c rc. joinOps l c rc) accs rc) = rowIndex rc"
  by (induction accs arbitrary: rc) (auto simp: joinOps_def unionSets_ok)

lemma joins_all_ok: "classes_ok (dependentAllocs rc) \<Longrightarrow>
    classes_ok (dependentAllocs (fold (\<lambda>l rc. fold (\<lambda>c rc. joinOps l c rc) accs rc) lhs rc)) \<and>
    rowIndex (fold (\<lambda>l rc. fold (\<lambda>c rc. joinOps l c rc) accs rc) lhs rc) = rowIndex rc"
  by (induction lhs arbitrary: rc) (simp_all add: joins_ok)

lemma constrain_rows_ok:
  assumes "constrain_rows defs op rc = Some rc'" "classes_ok (dependentAllocs rc)"
  shows "classes_ok (dependentAllocs rc') \<and> rowIndex rc' = rowIndex rc"
  using assms joins_all_ok [OF assms(2)]
  by (auto simp: constrain_rows_def bind_eq_Some_conv split: tmem_op.splits option.splits if_splits)

lemma collect_constraints_ok:
  assumes "collect_constraints defs ops = Some rc"
  shows "classes_ok (dependentAllocs rc) \<and> rowIndex rc = (\<lambda>_. None)"
proof -
  have "classes_ok (dependentAllocs rc') \<and> rowIndex rc' = rowIndex rc0"
    if "fold (\<lambda>op acc. Option.bind acc (constrain_rows defs op)) ops (Some rc0) = Some rc'" "classes_ok (dependentAllocs rc0)" for rc0 rc'
    using that
  proof (induction ops arbitrary: rc0)
    case (Cons op ops)
    have none: "fold (\<lambda>op acc. Option.bind acc (constrain_rows defs op)) ops None = None" by (induction ops) auto
    then obtain rc1 where "constrain_rows defs op rc0 = Some rc1" using Cons.prems(1) by (cases "constrain_rows defs op rc0") auto
    then show ?case using Cons constrain_rows_ok by fastforce
  qed simp
  from this [OF assms [unfolded collect_constraints_def]] show ?thesis by (simp add: classes_ok_def)
qed

end
