(* ===== verification/TensorMemoryScan.thy ===== *)
theory TensorMemoryScan
  imports TensorMemorySafety
begin

text \<open>
  The scan over the allocations of tensor memory: what holds after every allocation, and that the next one
  always finds a place.
\<close>

section \<open>The invariant of the scan\<close>

definition live_of :: "tmem_alloc \<Rightarrow> interval" where
  "live_of a = the (getLiveIntervals (allocViews a))"

definition size_of :: "tmem_alloc \<Rightarrow> tmem_size" where
  "size_of a = the (getTmemAllocSizes (allocType a))"

definition alloc_fine :: "tmem_alloc \<Rightarrow> bool" where
  "alloc_fine a \<longleftrightarrow> getLiveIntervals (allocViews a) \<noteq> None \<and> getTmemAllocSizes (allocType a) \<noteq> None"

text \<open>Two allocations that may be in use together: their values live at the same time, or they are in partitions of one
  warp-specialized operation, which run at the same time.\<close>

definition together :: "tmem_alloc \<Rightarrow> tmem_alloc \<Rightarrow> bool" where
  "together a b \<longleftrightarrow> intersects (live_of a) (live_of b) \<or>
     allocWs a \<noteq> None \<and> allocWs b = allocWs a \<and> allocRegion a \<noteq> allocRegion b"

definition chunk_fits :: "nat \<Rightarrow> tmem_alloc \<times> tmem_chunk \<Rightarrow> bool" where
  "chunk_fits t p \<longleftrightarrow> chunk_ok (snd p) \<and> startCol (snd p) mod 4 = 0 \<and> chunkCols (snd p) = allocCols (size_of (fst p)) \<and>
     chunkRows (snd p) = allocRows (size_of (fst p)) div 64 \<and> startCol (snd p) + chunkCols (snd p) \<le> t"

text \<open>The bitmap shows the chunks whose liveness has not ended, and they do not overlap.\<close>

definition map_inv :: "memory_map \<Rightarrow> (nat \<times> tmem_chunk) list \<Rightarrow> bool" where
  "map_inv m es \<longleftrightarrow> m \<noteq> [] \<and> sorted (map fst es) \<and> ends_apart es \<and> used m = end_cells es"

text \<open>At time \<open>t\<close> every earlier allocation has its place, is still listed if it is live, and is away from what it
  may be in use with.\<close>

definition chunks_inv :: "nat \<Rightarrow> nat \<Rightarrow> (nat \<times> tmem_chunk) list \<Rightarrow> (tmem_alloc \<times> tmem_chunk) list \<Rightarrow> bool" where
  "chunks_inv t cap es ps \<longleftrightarrow>
     (\<forall>p \<in> set ps. chunk_fits cap p \<and> (t < iend (live_of (fst p)) \<longrightarrow> (iend (live_of (fst p)), snd p) \<in> set es)) \<and>
     sorted_wrt (\<lambda>p q. together (fst p) (fst q) \<longrightarrow> apart (snd p) (snd q)) ps"

text \<open>The row of a class is the row of its allocations.\<close>

definition rows_inv :: "nat list list \<Rightarrow> row_constraints \<Rightarrow> (tmem_alloc \<times> tmem_chunk) list \<Rightarrow> bool" where
  "rows_inv cs rc ps \<longleftrightarrow> dependentAllocs rc = cs \<and>
     (\<forall>p \<in> set ps. \<forall>c. class_of cs (allocOp (fst p)) = Some c \<longrightarrow> rowIndex rc (hd c) = Some (startRow (snd p))) \<and>
     (\<forall>l r. rowIndex rc l = Some r \<longrightarrow>
        (\<exists>p \<in> set ps. \<exists>c. class_of cs (allocOp (fst p)) = Some c \<and> hd c = l \<and> startRow (snd p) = r))"

definition scan_inv :: "nat list list \<Rightarrow> nat \<Rightarrow> scan_state \<Rightarrow> bool" where
  "scan_inv cs t s \<longleftrightarrow> map_inv (memoryMap s) (liverangeEnd s) \<and>
     chunks_inv t (totalMemory s) (liverangeEnd s) (allocChunks s) \<and> rows_inv cs (rowIds s) (allocChunks s)"

definition rows_agree :: "nat list list \<Rightarrow> tmem_alloc list \<Rightarrow> bool" where
  "rows_agree cs as \<longleftrightarrow> (\<forall>a \<in> set as. \<forall>b \<in> set as. class_of cs (allocOp a) \<noteq> None \<and>
     class_of cs (allocOp a) = class_of cs (allocOp b) \<longrightarrow> allocRows (size_of a) = allocRows (size_of b))"

lemma rows_agree_subset: "rows_agree cs as \<Longrightarrow> set bs \<subseteq> set as \<Longrightarrow> rows_agree cs bs"
  unfolding rows_agree_def by blast

section \<open>Row constraints can be met\<close>

lemma alloc_fineD:
  assumes "alloc_fine a"
  shows "getLiveIntervals (allocViews a) = Some (live_of a)" "getTmemAllocSizes (allocType a) = Some (size_of a)"
    "allocRows (size_of a) mod 64 = 0" "allocRows (size_of a) div 64 \<le> 2"
  using assms alloc_rows [of "allocType a"] by (auto simp: alloc_fine_def live_of_def size_of_def)

lemma row_constraint_feasible:
  assumes rc: "rows_inv cs rc ps" and ps: "\<forall>p \<in> set ps. chunk_fits cap p" and cs: "classes_ok cs" and a: "alloc_fine a"
    and ra: "rows_agree cs (map fst ps @ [a])"
  shows "row_feasible (allocRows (size_of a) div 64) (getRowIdConstraint rc (allocOp a))"
proof (cases "getRowIdConstraint rc (allocOp a)")
  case None
  then show ?thesis using alloc_fineD [OF a] by (simp add: row_feasible_def)
next
  case (Some r)
  have dep: "dependentAllocs rc = cs" using rc by (simp add: rows_inv_def)
  obtain c where c: "class_of cs (allocOp a) = Some c" "rowIndex rc (hd c) = Some r"
    using Some dep by (auto simp: getRowIdConstraint_def bind_eq_Some_conv)
  obtain p d where p: "p \<in> set ps" "class_of cs (allocOp (fst p)) = Some d" "hd d = hd c" "startRow (snd p) = r"
    using rc c(2) unfolding rows_inv_def by blast
  have dc: "d = c" by (rule class_leader [OF cs p(2) c(1) p(3)])
  have "fst p \<in> set (map fst ps @ [a])" "a \<in> set (map fst ps @ [a])" using p(1) by simp_all
  then have "allocRows (size_of (fst p)) = allocRows (size_of a)"
    using ra p(2) c(1) dc unfolding rows_agree_def by (metis option.distinct(1))
  moreover have "chunk_fits cap p" using ps p(1) by simp
  ultimately show ?thesis
    using Some p(4) alloc_fineD(4) [OF a] by (simp add: chunk_fits_def chunk_ok_def row_feasible_def)
qed

lemma rows_inv_step:
  assumes rc: "rows_inv cs rc ps" and cs: "classes_ok cs"
    and row: "getRowIdConstraint rc (allocOp a) = None \<or> getRowIdConstraint rc (allocOp a) = Some (startRow c)"
  shows "rows_inv cs (addConstraints (allocOp a) (startRow c) rc) (ps @ [(a, c)])"
proof (cases "class_of cs (allocOp a)")
  case None
  then show ?thesis using rc by (auto simp: rows_inv_def addConstraints_def)
next
  case (Some k)
  have dep: "dependentAllocs rc = cs" using rc by (simp add: rows_inv_def)
  have old: "rowIndex rc (hd k) = None \<or> rowIndex rc (hd k) = Some (startRow c)"
    using row Some dep by (simp add: getRowIdConstraint_def)
  have same: "startRow (snd p) = startRow c" if p: "p \<in> set ps" "class_of cs (allocOp (fst p)) = Some d" "hd d = hd k" for p d
  proof -
    have "rowIndex rc (hd d) = Some (startRow (snd p))" using rc p(1,2) unfolding rows_inv_def by blast
    then show ?thesis using old p(3) by auto
  qed
  have add: "addConstraints (allocOp a) (startRow c) rc = rc\<lparr>rowIndex := (rowIndex rc)(hd k \<mapsto> startRow c)\<rparr>"
    using Some dep by (simp add: addConstraints_def)
  have 1: "((rowIndex rc)(hd k \<mapsto> startRow c)) (hd d) = Some (startRow (snd p))"
    if "p \<in> set (ps @ [(a, c)])" "class_of cs (allocOp (fst p)) = Some d" for p d
  proof (cases "p \<in> set ps")
    case True
    then have "rowIndex rc (hd d) = Some (startRow (snd p))" using rc that(2) unfolding rows_inv_def by blast
    then show ?thesis using same [OF True that(2)] by simp
  next
    case False
    then show ?thesis using that Some by simp
  qed
  have 2: "\<exists>p \<in> set (ps @ [(a, c)]). \<exists>d. class_of cs (allocOp (fst p)) = Some d \<and> hd d = l \<and> startRow (snd p) = r"
    if "((rowIndex rc)(hd k \<mapsto> startRow c)) l = Some r" for l r
  proof (cases "l = hd k")
    case True
    then show ?thesis using that Some by (intro bexI [of _ "(a, c)"]) auto
  next
    case False
    then have "rowIndex rc l = Some r" using that by simp
    then obtain p d where "p \<in> set ps" "class_of cs (allocOp (fst p)) = Some d" "hd d = l" "startRow (snd p) = r"
      using rc unfolding rows_inv_def by blast
    then show ?thesis by (intro bexI [of _ p]) auto
  qed
  show ?thesis unfolding rows_inv_def add using 1 2 dep by simp
qed

section \<open>One step\<close>

lemma chunk_fits_mono: "chunk_fits t p \<Longrightarrow> t \<le> t' \<Longrightarrow> chunk_fits t' p"
  by (simp add: chunk_fits_def)

lemma map_inv_step:
  assumes "map_inv m es" "used m' = used m \<union> set (cells c)" "set (cells c) \<inter> used m = {}" "m' \<noteq> []"
  shows "map_inv m' (insert_end k c es)"
proof -
  have "\<forall>e \<in> set es. apart c (snd e)" using assms(1,3) by (auto simp: map_inv_def apart_def)
  then show ?thesis
    using assms insert_end_sorted [of es k c] insert_end_apart [of es c k] by (auto simp: map_inv_def)
qed

lemma map_inv_update:
  assumes "map_inv m es"
  shows "\<exists>m'. updateMap t m es = Some (m', filter (\<lambda>e. t < fst e) es) \<and> map_inv m' (filter (\<lambda>e. t < fst e) es)"
proof -
  obtain m' where "updateMap t m es = Some (m', filter (\<lambda>e. t < fst e) es)" "m' \<noteq> []" "used m' = end_cells (filter (\<lambda>e. t < fst e) es)"
    using updateMap_total [of es m t] assms by (auto simp: map_inv_def)
  moreover have "sorted (map fst (filter (\<lambda>e. t < fst e) es))" "ends_apart (filter (\<lambda>e. t < fst e) es)"
    using assms by (auto simp: map_inv_def sorted_filter sorted_wrt_filter)
  ultimately show ?thesis by (auto simp: map_inv_def)
qed

lemma chunks_inv_step:
  assumes ci: "chunks_inv t cap es ps" and t: "t \<le> istart (live_of a)" and es': "es' = filter (\<lambda>e. istart (live_of a) < fst e) es"
    and c: "chunk_fits cap' (a, c)" "cap \<le> cap'" and away: "\<forall>e \<in> set es'. apart c (snd e)"
    and co: "\<forall>p \<in> set ps. coexist a (fst p) \<longrightarrow> apart c (snd p)"
  shows "chunks_inv (istart (live_of a)) cap' (insert_end (iend (live_of a)) c es') (ps @ [(a, c)])"
proof -
  let ?t = "istart (live_of a)"
  have listed: "(iend (live_of (fst p)), snd p) \<in> set es'" if "p \<in> set ps" "?t < iend (live_of (fst p))" for p
    using ci that t unfolding chunks_inv_def es' by auto
  have new: "apart (snd p) c" if p: "p \<in> set ps" "together (fst p) a" for p
  proof (cases "coexist a (fst p)")
    case True
    then show ?thesis using co p(1) apart_sym by blast
  next
    case False
    then have "?t < iend (live_of (fst p))" using p(2) by (auto simp: together_def intersects_def coexist_def)
    from listed [OF p(1) this] show ?thesis using away apart_sym by force
  qed
  have fits: "\<forall>p \<in> set ps. chunk_fits cap' p" using ci c(2) chunk_fits_mono unfolding chunks_inv_def by blast
  have "sorted_wrt (\<lambda>p q. together (fst p) (fst q) \<longrightarrow> apart (snd p) (snd q)) (ps @ [(a, c)])"
    using ci new by (auto simp: chunks_inv_def sorted_wrt_append)
  then show ?thesis unfolding chunks_inv_def using fits c(1) listed by auto
qed

lemma scan_step_total:
  assumes inv: "scan_inv cs t s" and cs: "classes_ok cs" and a: "alloc_fine a" "t \<le> istart (live_of a)"
    and ra: "rows_agree cs (map fst (allocChunks s) @ [a])"
  shows "\<exists>s' c. scan_step a s = Some s' \<and> scan_inv cs (istart (live_of a)) s' \<and> allocChunks s' = allocChunks s @ [(a, c)]"
proof -
  let ?co = "map snd (filter (\<lambda>(b, _). coexist a b) (allocChunks s))"
  let ?row = "getRowIdConstraint (rowIds s) (allocOp a)"
  let ?es = "filter (\<lambda>e. istart (live_of a) < fst e) (liverangeEnd s)"
  let ?cap = "\<lambda>c. max (totalMemory s) (startCol c + allocCols (size_of a))"
  note fine = alloc_fineD [OF a(1)]
  have mi: "map_inv (memoryMap s) (liverangeEnd s)" and ci: "chunks_inv t (totalMemory s) (liverangeEnd s) (allocChunks s)"
    and ri: "rows_inv cs (rowIds s) (allocChunks s)" using inv by (simp_all add: scan_inv_def)
  have fits: "\<forall>p \<in> set (allocChunks s). chunk_fits (totalMemory s) p" using ci by (simp add: chunks_inv_def)
  obtain m where m: "updateMap (istart (live_of a)) (memoryMap s) (liverangeEnd s) = Some (m, ?es)" "map_inv m ?es"
    using map_inv_update [OF mi] by blast
  have mne: "m \<noteq> []" using m(2) by (simp add: map_inv_def)
  have four: "(4 :: nat) \<noteq> 0" by simp
  have co: "\<forall>c \<in> set ?co. chunk_ok c" using fits by (auto simp: chunk_fits_def)
  obtain c m' where c: "allocFirstFit m (size_of a) ?row ?co 4 = Some (c, m')" "chunk_ok c" "startCol c mod 4 = 0"
    "chunkCols c = allocCols (size_of a)" "chunkRows c = allocRows (size_of a) div 64" "?row = None \<or> ?row = Some (startRow c)"
    "m' \<noteq> []" "used m' = used m \<union> set (cells c)" "set (cells c) \<inter> used m = {}" "\<forall>d \<in> set ?co. apart c d"
    using allocFirstFit_total [OF mne co fine(3) row_constraint_feasible [OF ri fits cs a(1) ra] four] by (elim exE conjE) simp
  let ?s = "\<lparr>memoryMap = m', liverangeEnd = insert_end (iend (live_of a)) c ?es, allocChunks = allocChunks s @ [(a, c)],
    rowIds = addConstraints (allocOp a) (startRow c) (rowIds s), totalMemory = ?cap c\<rparr>"
  have "map_inv m' (insert_end (iend (live_of a)) c ?es)" by (rule map_inv_step [OF m(2) c(8,9,7)])
  moreover have "chunks_inv (istart (live_of a)) (?cap c) (insert_end (iend (live_of a)) c ?es) (allocChunks s @ [(a, c)])"
  proof (rule chunks_inv_step [OF ci a(2) refl])
    show "chunk_fits (?cap c) (a, c)" using c(2-5) by (simp add: chunk_fits_def)
    have um: "used m = end_cells ?es" using m(2) by (simp add: map_inv_def)
    show "\<forall>e \<in> set ?es. apart c (snd e)" using c(9) unfolding um apart_def by blast
    show "\<forall>p \<in> set (allocChunks s). coexist a (fst p) \<longrightarrow> apart c (snd p)" using c(10) by force
  qed simp
  moreover have "rows_inv cs (addConstraints (allocOp a) (startRow c) (rowIds s)) (allocChunks s @ [(a, c)])"
    by (rule rows_inv_step [OF ri cs c(6)])
  ultimately have "scan_inv cs (istart (live_of a)) ?s" by (simp add: scan_inv_def)
  moreover have "scan_step a s = Some ?s" using fine(1,2) m(1) c(1) by (simp add: scan_step_def Let_def)
  ultimately show ?thesis by (intro exI [of _ ?s] exI [of _ c]) simp
qed

section \<open>All of them\<close>

lemma scan_allocs_total:
  assumes "scan_inv cs t s" "classes_ok cs" "\<forall>a \<in> set as. alloc_fine a \<and> t \<le> istart (live_of a)"
    and "sorted (map (\<lambda>a. istart (live_of a)) as)" "rows_agree cs (map fst (allocChunks s) @ as)"
  shows "\<exists>s' t' ks. scan_allocs as s = Some s' \<and> scan_inv cs t' s' \<and> length ks = length as \<and>
    allocChunks s' = allocChunks s @ zip as ks"
  using assms
proof (induction as arbitrary: s t)
  case Nil
  then show ?case by (auto simp: scan_allocs_def)
next
  case (Cons a as)
  have "rows_agree cs (map fst (allocChunks s) @ [a])" by (rule rows_agree_subset [OF Cons.prems(5)]) auto
  then obtain s1 c where s1: "scan_step a s = Some s1" "scan_inv cs (istart (live_of a)) s1" "allocChunks s1 = allocChunks s @ [(a, c)]"
    using scan_step_total [OF Cons.prems(1,2)] Cons.prems(3) by fastforce
  have "\<forall>b \<in> set as. alloc_fine b \<and> istart (live_of a) \<le> istart (live_of b)" using Cons.prems(3,4) by auto
  moreover have "sorted (map (\<lambda>a. istart (live_of a)) as)" using Cons.prems(4) by simp
  moreover have "rows_agree cs (map fst (allocChunks s1) @ as)" using Cons.prems(5) s1(3) by simp
  ultimately obtain s' t' ks where s': "scan_allocs as s1 = Some s'" "scan_inv cs t' s'" "length ks = length as"
    "allocChunks s' = allocChunks s1 @ zip as ks"
    using Cons.IH [OF s1(2) Cons.prems(2)] by blast
  have "scan_allocs (a # as) s = Some s'" using s1(1) s'(1) by (simp add: scan_allocs_def)
  moreover have "allocChunks s' = allocChunks s @ zip (a # as) (c # ks)" using s'(4) s1(3) by simp
  ultimately show ?case using s'(2,3) by (metis length_Cons)
qed

lemma empty_map_inv: "map_inv empty_map []"
  by (auto simp: map_inv_def empty_map_def kNumRows_def used_def isUsed_def)

lemma allocateTMem_total:
  assumes rc: "collect_constraints defs ops = Some rc" and as: "as = tmem_allocs ops"
    and fine: "\<forall>a \<in> set as. alloc_fine a" and st: "sorted (map (\<lambda>a. istart (live_of a)) as)"
    and ra: "rows_agree (dependentAllocs rc) as"
  shows "\<exists>ks cap. allocateTMem defs ops = Some (zip (map allocOp as) ks, cap) \<and> length ks = length as \<and>
    (\<forall>i < length as. chunk_fits cap (as ! i, ks ! i)) \<and>
    (\<forall>i j. i < j \<and> j < length as \<and> together (as ! i) (as ! j) \<longrightarrow> apart (ks ! i) (ks ! j)) \<and>
    (\<forall>i < length as. \<forall>j < length as. class_of (dependentAllocs rc) (allocOp (as ! i)) \<noteq> None \<and>
       class_of (dependentAllocs rc) (allocOp (as ! i)) = class_of (dependentAllocs rc) (allocOp (as ! j)) \<longrightarrow>
       startRow (ks ! i) = startRow (ks ! j))"
proof -
  let ?cs = "dependentAllocs rc"
  let ?s = "\<lparr>memoryMap = empty_map, liverangeEnd = [], allocChunks = [], rowIds = rc, totalMemory = 0\<rparr>"
  have ok: "classes_ok ?cs" "rowIndex rc = (\<lambda>_. None)" using collect_constraints_ok [OF rc] by auto
  have "scan_inv ?cs 0 ?s" using ok(2) empty_map_inv by (simp add: scan_inv_def chunks_inv_def rows_inv_def)
  then obtain s t ks where s: "scan_allocs as ?s = Some s" "scan_inv ?cs t s" "length ks = length as" "allocChunks s = zip as ks"
    using scan_allocs_total [of ?cs 0 ?s as] ok(1) fine st ra by auto
  have nth: "zip as ks ! i = (as ! i, ks ! i)" "(as ! i, ks ! i) \<in> set (zip as ks)" if "i < length as" for i
    using that s(3) by (auto simp: in_set_zip)
  have ch: "chunks_inv t (totalMemory s) (liverangeEnd s) (zip as ks)" "rows_inv ?cs (rowIds s) (zip as ks)"
    using s(2,4) by (simp_all add: scan_inv_def)
  have "allocateTMem defs ops = Some (zip (map allocOp as) ks, totalMemory s)"
    using rc s(1,4) as by (simp add: allocateTMem_def zip_map1 case_prod_unfold)
  moreover have "\<forall>i < length as. chunk_fits (totalMemory s) (as ! i, ks ! i)" using ch(1) nth(2) unfolding chunks_inv_def by blast
  moreover have "apart (ks ! i) (ks ! j)" if "i < j" "j < length as" "together (as ! i) (as ! j)" for i j
    using sorted_wrt_nth_less [of _ "zip as ks" i j] ch(1) that nth(1) s(3) by (fastforce simp: chunks_inv_def)
  moreover have "startRow (ks ! i) = startRow (ks ! j)"
    if i: "i < length as" and j: "j < length as" and k: "class_of ?cs (allocOp (as ! i)) \<noteq> None"
      "class_of ?cs (allocOp (as ! i)) = class_of ?cs (allocOp (as ! j))" for i j
  proof -
    obtain c where c: "class_of ?cs (allocOp (as ! i)) = Some c" "class_of ?cs (allocOp (as ! j)) = Some c" using k by auto
    have row: "\<forall>p \<in> set (zip as ks). \<forall>c. class_of ?cs (allocOp (fst p)) = Some c \<longrightarrow>
        rowIndex (rowIds s) (hd c) = Some (startRow (snd p))" using ch(2) by (simp add: rows_inv_def)
    show ?thesis using bspec [OF row nth(2) [OF i]] bspec [OF row nth(2) [OF j]] c by simp
  qed
  ultimately show ?thesis using s(3) by blast
qed

end
