(* ===== verification/TensorMemoryProps.thy ===== *)
theory TensorMemoryProps
  imports TensorMemoryScan
begin

text \<open>
  The properties of the allocation of tensor memory, each with an instance on concrete data.
\<close>

section \<open>The search for the allocations behind a value\<close>

definition flows :: "tmem_def list \<Rightarrow> nat \<Rightarrow> nat \<Rightarrow> bool" where
  "flows defs v w \<longleftrightarrow> v < length defs \<and> (\<exists>ws. def_sources (defs ! v) = Some ws \<and> w \<in> set ws)"

definition def_ok :: "tmem_def list \<Rightarrow> nat \<Rightarrow> bool" where
  "def_ok defs v \<longleftrightarrow> v < length defs \<and> def_sources (defs ! v) \<noteq> None"

definition alloc_results :: "tmem_def list \<Rightarrow> nat set \<Rightarrow> nat set" where
  "alloc_results defs vs = {op. \<exists>w \<in> vs. w < length defs \<and> defs ! w = AllocResult op}"

lemma alloc_results_insert:
  "alloc_results defs (insert v vs) =
    (if v < length defs then (case defs ! v of AllocResult op \<Rightarrow> insert op (alloc_results defs vs) | _ \<Rightarrow> alloc_results defs vs)
     else alloc_results defs vs)"
  by (auto simp: alloc_results_def split: tmem_def.splits)

lemma alloc_search_sound:
  assumes "alloc_search defs work seen allocs = Some ops"
    and "\<forall>v \<in> seen. def_ok defs v \<and> (\<forall>w. flows defs v w \<longrightarrow> w \<in> seen \<union> set work)" and "set allocs = alloc_results defs seen"
  shows "\<exists>S. seen \<union> set work \<subseteq> S \<and> (\<forall>v \<in> S. def_ok defs v \<and> (\<forall>w. flows defs v w \<longrightarrow> w \<in> S)) \<and> set ops = alloc_results defs S \<and>
    (\<forall>v \<in> S. v \<in> seen \<or> (\<exists>u \<in> set work. (flows defs)\<^sup>*\<^sup>* u v))"
  using assms
proof (induction defs work seen allocs rule: alloc_search.induct)
  case (1 defs seen allocs)
  then show ?case by (intro exI [of _ seen]) auto
next
  case (2 defs v work seen allocs)
  show ?case
  proof (cases "v \<in> seen")
    case True
    then have "alloc_search defs work seen allocs = Some ops" using 2(3) by simp
    moreover have "\<forall>v \<in> seen. def_ok defs v \<and> (\<forall>w. flows defs v w \<longrightarrow> w \<in> seen \<union> set work)" using 2(4) True by auto
    ultimately obtain S where "seen \<union> set work \<subseteq> S" "\<forall>v \<in> S. def_ok defs v \<and> (\<forall>w. flows defs v w \<longrightarrow> w \<in> S)"
      "set ops = alloc_results defs S" "\<forall>v \<in> S. v \<in> seen \<or> (\<exists>u \<in> set work. (flows defs)\<^sup>*\<^sup>* u v)"
      using 2(1) [OF True _ _ 2(5)] by blast
    then show ?thesis using True by (intro exI [of _ S]) auto
  next
    case False
    have lt: "v < length defs" using 2(3) False by (simp split: if_splits)
    obtain vs where vs: "def_sources (defs ! v) = Some vs" using 2(3) False lt by (auto split: option.splits)
    let ?allocs = "case defs ! v of AllocResult op \<Rightarrow> allocs @ [op] | _ \<Rightarrow> allocs"
    have run: "alloc_search defs (rev vs @ work) (insert v seen) ?allocs = Some ops" using 2(3) False lt vs by simp
    have fl: "flows defs v w \<longleftrightarrow> w \<in> set vs" for w using lt vs by (simp add: flows_def)
    have closed: "\<forall>u \<in> insert v seen. def_ok defs u \<and> (\<forall>w. flows defs u w \<longrightarrow> w \<in> insert v seen \<union> set (rev vs @ work))"
      using 2(4) fl lt vs by (auto simp: def_ok_def)
    have al: "set ?allocs = alloc_results defs (insert v seen)"
      using 2(5) lt by (auto simp: alloc_results_insert split: tmem_def.splits)
    obtain S where S: "insert v seen \<union> set (rev vs @ work) \<subseteq> S" "\<forall>v \<in> S. def_ok defs v \<and> (\<forall>w. flows defs v w \<longrightarrow> w \<in> S)"
      "set ops = alloc_results defs S" "\<forall>u \<in> S. u \<in> insert v seen \<or> (\<exists>x \<in> set (rev vs @ work). (flows defs)\<^sup>*\<^sup>* x u)"
      using 2(2) [OF False lt vs run closed al] by blast
    have "u \<in> seen \<or> (\<exists>x \<in> set (v # work). (flows defs)\<^sup>*\<^sup>* x u)" if "u \<in> S" for u
    proof -
      consider "u = v" | "u \<in> seen" | x where "x \<in> set vs" "(flows defs)\<^sup>*\<^sup>* x u" | x where "x \<in> set work" "(flows defs)\<^sup>*\<^sup>* x u"
        using S(4) \<open>u \<in> S\<close> by auto
      then show ?thesis
      proof cases
        case 3
        then have "(flows defs)\<^sup>*\<^sup>* v u" using fl by (meson converse_rtranclp_into_rtranclp)
        then show ?thesis by auto
      qed auto
    qed
    then show ?thesis using S(1-3) by (intro exI [of _ S]) auto
  qed
qed

text \<open>An allocation has one result.\<close>

definition one_result :: "tmem_def list \<Rightarrow> bool" where
  "one_result defs \<longleftrightarrow> (\<forall>v w op. v < length defs \<and> w < length defs \<and> defs ! v = AllocResult op \<and> defs ! w = AllocResult op \<longrightarrow> v = w)"

lemma alloc_search_each_once:
  assumes "alloc_search defs work seen allocs = Some ops" and "set allocs \<subseteq> alloc_results defs seen" "distinct allocs"
    and "\<forall>v w op. v < length defs \<and> w < length defs \<and> defs ! v = AllocResult op \<and> defs ! w = AllocResult op \<longrightarrow> v = w"
  shows "distinct ops"
  using assms(4,1-3)
proof (induction defs work seen allocs rule: alloc_search.induct)
  case (2 defs v work seen allocs)
  show ?case
  proof (cases "v \<in> seen")
    case True
    then show ?thesis using 2(1) [OF True 2(3) _ 2(5,6)] 2(4) by simp
  next
    case False
    have lt: "v < length defs" using 2(4) False by (simp split: if_splits)
    obtain vs where vs: "def_sources (defs ! v) = Some vs" using 2(4) False lt by (auto split: option.splits)
    let ?allocs = "case defs ! v of AllocResult op \<Rightarrow> allocs @ [op] | _ \<Rightarrow> allocs"
    have run: "alloc_search defs (rev vs @ work) (insert v seen) ?allocs = Some ops" using 2(4) False lt vs by simp
    have "op \<notin> alloc_results defs seen" if "defs ! v = AllocResult op" for op
      using 2(3) that lt False unfolding alloc_results_def by blast
    then have "set ?allocs \<subseteq> alloc_results defs (insert v seen)" "distinct ?allocs"
      using 2(5,6) lt by (auto simp: alloc_results_insert split: tmem_def.splits)
    then show ?thesis by (rule 2(2) [OF False lt vs 2(3) run])
  qed
qed simp

lemma alloc_search_total:
  assumes "\<forall>u \<in> set work. \<forall>v. (flows defs)\<^sup>*\<^sup>* u v \<longrightarrow> def_ok defs v"
  shows "alloc_search defs work seen allocs \<noteq> None"
  using assms
proof (induction defs work seen allocs rule: alloc_search.induct)
  case (2 defs v work seen allocs)
  show ?case
  proof (cases "v \<in> seen")
    case True
    then show ?thesis using 2 by simp
  next
    case False
    have "def_ok defs v" using 2(3) by simp
    then obtain vs where vs: "v < length defs" "def_sources (defs ! v) = Some vs" by (auto simp: def_ok_def)
    have "\<forall>u \<in> set (rev vs @ work). \<forall>w. (flows defs)\<^sup>*\<^sup>* u w \<longrightarrow> def_ok defs w"
    proof (intro ballI allI impI)
      fix u w assume u: "u \<in> set (rev vs @ work)" "(flows defs)\<^sup>*\<^sup>* u w"
      show "def_ok defs w"
      proof (cases "u \<in> set work")
        case True
        then show ?thesis using 2(3) u(2) by simp
      next
        case False
        then have "flows defs v u" using u(1) vs by (auto simp: flows_def)
        then have "(flows defs)\<^sup>*\<^sup>* v w" using u(2) by (rule converse_rtranclp_into_rtranclp)
        then show ?thesis using 2(3) by simp
      qed
    qed
    from 2(2) [OF False vs this] show ?thesis using False vs by simp
  qed
qed simp

text \<open>
  C35: the search from a value to its allocations, through block arguments, loops, branches, selects and views,
  always ends: it answers exactly when every value it can reach has a definition it understands, and then the
  answer names the allocations that can reach the value, no other, and, as an allocation has one result, each once.
\<close>

theorem getAlloc_correct:
  "(getAlloc defs v \<noteq> None \<longleftrightarrow> (\<forall>w. (flows defs)\<^sup>*\<^sup>* v w \<longrightarrow> def_ok defs w)) \<and>
   (\<forall>ops. getAlloc defs v = Some ops \<longrightarrow> set ops = {op. \<exists>w. (flows defs)\<^sup>*\<^sup>* v w \<and> defs ! w = AllocResult op} \<and>
     (one_result defs \<longrightarrow> distinct ops))"
proof -
  have main: "(\<forall>w. (flows defs)\<^sup>*\<^sup>* v w \<longrightarrow> def_ok defs w) \<and> set ops = {op. \<exists>w. (flows defs)\<^sup>*\<^sup>* v w \<and> defs ! w = AllocResult op}"
    if "getAlloc defs v = Some ops" for ops
  proof -
    have run: "alloc_search defs [v] {} [] = Some ops" using that by (simp only: getAlloc_def)
    have "set [] = alloc_results defs {}" by (simp add: alloc_results_def)
    from alloc_search_sound [OF run _ this]
    obtain S where S: "v \<in> S" "\<forall>v \<in> S. def_ok defs v \<and> (\<forall>w. flows defs v w \<longrightarrow> w \<in> S)" "set ops = alloc_results defs S"
      "\<forall>u \<in> S. (flows defs)\<^sup>*\<^sup>* v u"
      by auto
    have "w \<in> S" if "(flows defs)\<^sup>*\<^sup>* v w" for w
      using that S(1,2) by (induction rule: rtranclp_induct) auto
    then have "S = {w. (flows defs)\<^sup>*\<^sup>* v w}" using S(4) by blast
    then show ?thesis using S(2,3) by (auto simp: alloc_results_def def_ok_def)
  qed
  have "getAlloc defs v \<noteq> None" if "\<forall>w. (flows defs)\<^sup>*\<^sup>* v w \<longrightarrow> def_ok defs w"
    unfolding getAlloc_def by (rule alloc_search_total) (use that in simp)
  moreover have "distinct ops" if "getAlloc defs v = Some ops" "one_result defs" for ops
    using alloc_search_each_once [of defs "[v]" "{}" "[]"] that by (simp add: getAlloc_def alloc_results_def one_result_def)
  ultimately show ?thesis using main by blast
qed

lemma getAlloc_correct_witness:
  "getAlloc [ForResult 1 2, SelectResult 0 3, AllocResult 10, ViewResult 4, AllocResult 11] 0 = Some [10, 11] \<and>
   {10, 11} = {op. \<exists>w. (flows [ForResult 1 2, SelectResult 0 3, AllocResult 10, ViewResult 4, AllocResult 11])\<^sup>*\<^sup>* 0 w \<and>
     [ForResult 1 2, SelectResult 0 3, AllocResult 10, ViewResult 4, AllocResult 11] ! w = AllocResult op}"
proof -
  let ?d = "[ForResult 1 2, SelectResult 0 3, AllocResult 10, ViewResult 4, AllocResult 11]"
  have g: "getAlloc ?d 0 = Some [10, 11]" by (simp add: getAlloc_def)
  show ?thesis using conjunct2 [OF getAlloc_correct [of ?d 0]] g by simp
qed
section \<open>The scan\<close>

text \<open>
  C27: the search for the first fit ends exactly when the row the allocation is tied to leaves room for its rows.
  An allocation of 128 lanes tied to the second row of the bitmap, where an allocation of 64 lanes went before,
  makes the compiler loop for ever.
\<close>

theorem findFirstFit_ends:
  assumes "allocRows sz \<in> {64, 128}" "a \<noteq> 0"
  shows "findFirstFit m sz rowId a \<noteq> None \<longleftrightarrow> (case rowId of None \<Rightarrow> True | Some r \<Rightarrow> r + allocRows sz div 64 \<le> 2)"
proof -
  have rows: "allocRows sz div 64 \<le> 2" "allocRows sz mod 64 = 0" using assms(1) by auto
  have run: "findFirstFit m sz rowId a = scan_columns m (allocCols sz) (allocRows sz div 64) rowId a 0"
    using rows assms(2) by (simp add: findFirstFit_def allocGranularity_def kNumRows_def Let_def)
  show ?thesis
  proof (cases "case rowId of None \<Rightarrow> True | Some r \<Rightarrow> r + allocRows sz div 64 \<le> 2")
    case True
    then have "row_feasible (allocRows sz div 64) rowId" using rows(1) by (simp add: row_feasible_def)
    from scan_columns_total [OF this assms(2)] show ?thesis using True run by fastforce
  next
    case False
    then obtain r where "rowId = Some r" "2 < r + allocRows sz div 64" by (auto split: option.splits)
    then show ?thesis using scan_columns_stuck [of r "allocRows sz div 64"] rows(1) run by simp
  qed
qed

lemma findFirstFit_ends_witness:
  "findFirstFit empty_map \<lparr>allocCols = 8, allocRows = 128\<rparr> (Some 1) 4 = None \<and>
   findFirstFit empty_map \<lparr>allocCols = 8, allocRows = 64\<rparr> (Some 1) 4 \<noteq> None"
  using findFirstFit_ends [of "\<lparr>allocCols = 8, allocRows = 128\<rparr>" 4 empty_map "Some 1"]
    findFirstFit_ends [of "\<lparr>allocCols = 8, allocRows = 64\<rparr>" 4 empty_map "Some 1"] by simp

text \<open>
  C26: the allocation of tensor memory. Take allocations in the order of their first uses, with a size and a
  liveness each, where those tied to the same row have the same number of rows. The scan ends and gives every
  allocation a place: its columns start at a multiple of 4, its rows are inside the two of the memory, and it
  ends inside the reported size; allocations that are live together, or that run in different regions of one
  warp-specialized operation, share no cell; and allocations tied together start in the same row.
\<close>

theorem tensor_memory_safe:
  assumes "collect_constraints defs ops = Some rc" "as = tmem_allocs ops" "\<forall>a \<in> set as. alloc_fine a"
    and "sorted (map (\<lambda>a. istart (live_of a)) as)" "rows_agree (dependentAllocs rc) as"
  shows "\<exists>ks cap. allocateTMem defs ops = Some (zip (map allocOp as) ks, cap) \<and> length ks = length as \<and>
    (\<forall>i < length as. chunk_fits cap (as ! i, ks ! i)) \<and>
    (\<forall>i j. i < j \<and> j < length as \<and> together (as ! i) (as ! j) \<longrightarrow> apart (ks ! i) (ks ! j)) \<and>
    (\<forall>i < length as. \<forall>j < length as. class_of (dependentAllocs rc) (allocOp (as ! i)) \<noteq> None \<and>
       class_of (dependentAllocs rc) (allocOp (as ! i)) = class_of (dependentAllocs rc) (allocOp (as ! j)) \<longrightarrow>
       startRow (ks ! i) = startRow (ks ! j))"
  using assms by (rule allocateTMem_total)

definition tmem_type :: "int \<Rightarrow> int \<Rightarrow> mem_desc" where
  "tmem_type m n = \<lparr>descShape = [m, n], descBits = 32,
     descEnc = TensorMemory \<lparr>blockM = m, blockN = n, unpacked = True, CTASplitM = 1, CTASplitN = 1\<rparr>\<rparr>"

definition tmem_sample :: "tmem_op list" where
  "tmem_sample =
     [TMEMAlloc \<lparr>allocOp = 0, allocType = tmem_type 64 16, allocViews = View [0, 1, 2, 3] [View [4, 5] []], allocWs = None, allocRegion = 0\<rparr>,
      TMEMAlloc \<lparr>allocOp = 1, allocType = tmem_type 64 16, allocViews = View [1, 2, 3, 4] [], allocWs = None, allocRegion = 0\<rparr>,
      OtherTmemOp,
      MMAv5 0 (tmem_type 64 16) 1 (tmem_type 64 16),
      TMEMAlloc \<lparr>allocOp = 4, allocType = tmem_type 128 16, allocViews = View [4, 5] [], allocWs = None, allocRegion = 0\<rparr>]"

lemma tensor_memory_safe_witness:
  "\<exists>ks cap. allocateTMem [AllocResult 0, AllocResult 1] tmem_sample = Some (zip [0, 1, 4] ks, cap) \<and>
     apart (ks ! 0) (ks ! 1) \<and> startRow (ks ! 0) = startRow (ks ! 1)"
proof -
  let ?as = "tmem_allocs tmem_sample"
  have rc: "collect_constraints [AllocResult 0, AllocResult 1] tmem_sample = Some \<lparr>dependentAllocs = [[0, 1]], rowIndex = (\<lambda>_. None)\<rparr>"
  proof -
    have sz: "getTmemAllocSizes (tmem_type 64 16) = Some \<lparr>allocCols = 16, allocRows = 64\<rparr>" "blockM_of (tmem_type 64 16) = Some 64"
      by code_simp+
    have g: "getAlloc [AllocResult 0, AllocResult 1] 0 = Some [0]" "getAlloc [AllocResult 0, AllocResult 1] (Suc 0) = Some [1]"
      by (simp_all add: getAlloc_def)
    have j: "unionSets 0 1 [] = [[0, 1]]" by code_simp
    show ?thesis
      using sz g j by (simp add: collect_constraints_def tmem_sample_def constrain_rows_def joinOps_def)
  qed
  have len: "length ?as = 3" by code_simp
  have live: "map live_of ?as = [\<lparr>istart = 0, iend = 6\<rparr>, \<lparr>istart = 1, iend = 5\<rparr>, \<lparr>istart = 4, iend = 6\<rparr>]" by code_simp
  have fine: "\<forall>a \<in> set ?as. alloc_fine a" by code_simp
  have st: "sorted (map (\<lambda>a. istart (live_of a)) ?as)" by code_simp
  have ra: "rows_agree [[0, 1]] ?as" by code_simp
  have ops: "map allocOp ?as = [0, 1, 4]" by code_simp
  have t: "together (?as ! 0) (?as ! 1)" by code_simp
  have c: "class_of [[0, 1]] (allocOp (?as ! 0)) = Some [0, 1]" "class_of [[0, 1]] (allocOp (?as ! 1)) = Some [0, 1]"
    by code_simp+
  have ra': "rows_agree (dependentAllocs \<lparr>dependentAllocs = [[0, 1]], rowIndex = (\<lambda>_. None)\<rparr>) ?as" using ra by simp
  obtain ks cap where k: "allocateTMem [AllocResult 0, AllocResult 1] tmem_sample = Some (zip (map allocOp ?as) ks, cap)"
    "\<forall>i j. i < j \<and> j < length ?as \<and> together (?as ! i) (?as ! j) \<longrightarrow> apart (ks ! i) (ks ! j)"
    "\<forall>i < length ?as. \<forall>j < length ?as. class_of [[0, 1]] (allocOp (?as ! i)) \<noteq> None \<and>
       class_of [[0, 1]] (allocOp (?as ! i)) = class_of [[0, 1]] (allocOp (?as ! j)) \<longrightarrow> startRow (ks ! i) = startRow (ks ! j)"
    using tensor_memory_safe [OF rc refl fine st ra'] by (elim exE conjE) simp
  have "apart (ks ! 0) (ks ! 1)" using k(2) [rule_format, of 0 1] t len by simp
  moreover have "startRow (ks ! 0) = startRow (ks ! 1)" by (rule k(3) [rule_format, of 0 1]) (use c len in simp_all)
  ultimately show ?thesis using k(1) ops by (intro exI [of _ ks] exI [of _ cap]) simp
qed

end
