(* ===== verification/Membar.thy ===== *)
theory Membar
  imports Allocation
begin

text \<open>
  The barrier placement of \<open>include/triton/Analysis/Membar.h\<close> and \<open>lib/Analysis/Membar.cpp\<close>.
  Operations and blocks are numbered; what the analysis reads off an operation is a record. The map
  from intervals to the operations that access them is the set of its pairs. None is a stopped compiler.
\<close>

section \<open>Block information\<close>

record block_info =
  syncReads :: "(interval \<times> nat) set"
  syncWrites :: "(interval \<times> nat) set"

definition no_accesses :: block_info where
  "no_accesses = \<lparr>syncReads = {}, syncWrites = {}\<rparr>"

definition joinInfo :: "block_info \<Rightarrow> block_info \<Rightarrow> block_info" where
  "joinInfo a b = \<lparr>syncReads = syncReads a \<union> syncReads b, syncWrites = syncWrites a \<union> syncWrites b\<rparr>"

text \<open>The callback of the backend; an absent one never filters.\<close>

type_synonym membar_filter = "nat \<Rightarrow> nat \<Rightarrow> bool"

definition intersectedMaps :: "membar_filter \<Rightarrow> (interval \<times> nat) set \<Rightarrow> (interval \<times> nat) set \<Rightarrow> bool" where
  "intersectedMaps flt lhs rhs \<longleftrightarrow>
     (\<exists>(i, a) \<in> lhs. \<exists>(j, b) \<in> rhs. intersects i j \<and> \<not> flt a b)"

definition isIntersected :: "membar_filter \<Rightarrow> block_info \<Rightarrow> block_info \<Rightarrow> bool" where
  "isIntersected flt a b \<longleftrightarrow>
     intersectedMaps flt (syncWrites a) (syncReads b) \<or>
     intersectedMaps flt (syncReads a) (syncWrites b) \<or>
     intersectedMaps flt (syncWrites a) (syncWrites b)"

section \<open>Operations\<close>

datatype mem_effect = MemRead | MemWrite | MemOther

text \<open>Where a region successor leads: back to the parent operation, or to the entry block of a region.\<close>

datatype region_successor = ToParent | ToRegion nat

text \<open>
  What ends a virtual block: a branch to blocks, an operation with regions, the terminator of a region
  whose parent stands in a given block, a return (\<open>tt.return\<close> or another one), or an unknown terminator.
\<close>

datatype terminator =
    BranchTerm "nat list"
  | RegionBranch "region_successor list"
  | RegionTerm nat nat "region_successor list"
  | ReturnLike bool
  | UnknownTerm

datatype mem_kind = BarrierKind | WaitKind | CallKind "nat option" | ArriveKind | ConvertKind linear_layout linear_layout | OtherKind

record mem_op =
  oid :: nat
  okind :: mem_kind
  oeffects :: "(mem_effect \<times> nat) list"
  oterm :: "terminator option"

definition isBarrier :: "mem_op \<Rightarrow> bool" where
  "isBarrier op \<longleftrightarrow> okind op = BarrierKind"

definition barrierOp :: mem_op where
  "barrierOp = \<lparr>oid = 0, okind = BarrierKind, oeffects = [], oterm = None\<rparr>"

text \<open>\<open>isCvtWarpSync\<close> of \<open>lib/Analysis/Utility.cpp\<close>; a layout without a warp dimension has the mask 0.\<close>

definition isCvtWarpSync :: "linear_layout \<Rightarrow> linear_layout \<Rightarrow> bool option" where
  "isCvtWarpSync src dst = do {
     c \<leftarrow> invertAndCompose dst src;
     t \<leftarrow> isTrivialOver c [''warp''];
     if \<not> t then Some False
     else do {
       ms \<leftarrow> getFreeVariableMasks src;
       if (case map_of ms ''warp'' of Some m \<Rightarrow> m | None \<Rightarrow> 0) \<noteq> 0 then Some False
       else do {
         md \<leftarrow> getFreeVariableMasks dst;
         Some ((case map_of md ''warp'' of Some m \<Rightarrow> m | None \<Rightarrow> 0) = 0)
       }
     }
   }"

section \<open>The transfer function\<close>

datatype barrier_action = NoBarrier | BarrierBefore | BarrierAfter

text \<open>The explicit buffers an operation reads and writes, through all aliases of its operands.\<close>

definition effect_infos :: "allocation \<Rightarrow> mem_op \<Rightarrow> (mem_effect \<times> interval) list option" where
  "effect_infos alloc op =
     those [map_option (\<lambda>i. (e, i)) (getAllocatedInterval alloc b). (e, v) \<leftarrow> oeffects op, b \<leftarrow> getBufferIds alloc v]"

definition effects_info :: "allocation \<Rightarrow> mem_op \<Rightarrow> block_info option" where
  "effects_info alloc op =
     map_option (\<lambda>es. \<lparr>syncReads = set [(i, oid op). (e, i) \<leftarrow> es, e = MemRead],
                       syncWrites = set [(i, oid op). (e, i) \<leftarrow> es, e = MemWrite]\<rparr>) (effect_infos alloc op)"

definition all_memory :: "nat \<Rightarrow> block_info" where
  "all_memory op = \<lparr>syncReads = {(fullInterval, op)}, syncWrites = {(fullInterval, op)}\<rparr>"

text \<open>\<open>funcInfo\<close> is the information of the functions analysed before; \<open>nextBarrier\<close> tells whether the next
  operation is a barrier, and is None if there is no next operation.\<close>

definition updateInfo ::
  "membar_filter \<Rightarrow> allocation \<Rightarrow> (nat \<Rightarrow> block_info) \<Rightarrow> mem_op \<Rightarrow> bool option \<Rightarrow> block_info \<Rightarrow>
   (block_info \<times> barrier_action) option" where
  "updateInfo flt alloc funcInfo op nextBarrier info =
     (if isBarrier op then Some (no_accesses, NoBarrier)
      else if okind op = WaitKind \<and> nextBarrier = None then None
      else if okind op = WaitKind \<and> nextBarrier = Some False then Some (no_accesses, BarrierAfter)
      else do {
        (cur, scratch) \<leftarrow> (case okind op of
            CallKind callee \<Rightarrow> Some (case callee of Some f \<Rightarrow> funcInfo f | None \<Rightarrow> no_accesses, None)
          | _ \<Rightarrow> do {
              e \<leftarrow> effects_info alloc op;
              Some (if okind op = ArriveKind then joinInfo e (all_memory (oid op)) else e, opBufferId alloc (oid op))
            });
        (case scratch of
           Some b \<Rightarrow> do {
             warpSync \<leftarrow> (case okind op of ConvertKind s d \<Rightarrow> isCvtWarpSync s d | _ \<Rightarrow> Some False);
             (if cur = no_accesses then Some () else None);
             i \<leftarrow> getAllocatedInterval alloc b;
             let cur1 = \<lparr>syncReads = {}, syncWrites = {(i, oid op)}\<rparr>;
             let insertBarrier = isIntersected flt info cur1;
             let info1 = (if insertBarrier \<or> \<not> warpSync then no_accesses else info);
             Some (joinInfo info1 \<lparr>syncReads = {(i, oid op)}, syncWrites = {(i, oid op)}\<rparr>,
                   if insertBarrier then BarrierBefore else NoBarrier)
           }
         | None \<Rightarrow>
             if isIntersected flt info cur then Some (joinInfo no_accesses cur, BarrierBefore)
             else Some (joinInfo info cur, NoBarrier))
      })"

section \<open>Virtual blocks\<close>

text \<open>
  A virtual block is named by its block and the region operation it starts after, if it does not start
  at the beginning. A block is cut after every operation with regions.
\<close>

type_synonym vblock = "nat \<times> nat option"

fun split_block :: "nat \<Rightarrow> nat option \<Rightarrow> mem_op list \<Rightarrow> mem_op list \<Rightarrow> (vblock \<times> mem_op list) list" where
  "split_block b start seg [] = [((b, start), rev seg)]"
| "split_block b start seg (op # ops) =
     (case oterm op of
        None \<Rightarrow> split_block b start (op # seg) ops
      | Some _ \<Rightarrow> ((b, start), rev (op # seg)) # (if ops = [] then [] else split_block b (Some (oid op)) [] ops))"

definition virtualBlocks :: "(nat \<times> mem_op list) list \<Rightarrow> (vblock \<times> mem_op list) list" where
  "virtualBlocks blocks = concat (map (\<lambda>(b, ops). split_block b None [] ops) blocks)"

definition region_target :: "vblock \<Rightarrow> region_successor \<Rightarrow> vblock" where
  "region_target parent s = (case s of ToParent \<Rightarrow> parent | ToRegion b \<Rightarrow> (b, None))"

definition visitTerminator :: "nat \<Rightarrow> mem_op \<Rightarrow> terminator \<Rightarrow> vblock list option" where
  "visitTerminator block op t =
     (case t of
        BranchTerm bs \<Rightarrow> Some (map (\<lambda>b. (b, None)) bs)
      | RegionBranch rs \<Rightarrow> Some (map (region_target (block, Some (oid op))) rs)
      | RegionTerm pb pop rs \<Rightarrow> Some (map (region_target (pb, Some pop)) rs)
      | ReturnLike _ \<Rightarrow> Some []
      | UnknownTerm \<Rightarrow> None)"

text \<open>
  One pass over a virtual block: the operations with the barriers that were inserted, the information at
  the end and the successors. An inserted barrier behind a wait is the next operation of the loop.
\<close>

fun scan ::
  "(mem_op \<Rightarrow> bool option \<Rightarrow> block_info \<Rightarrow> (block_info \<times> barrier_action) option) \<Rightarrow> nat \<Rightarrow> block_info \<Rightarrow>
   mem_op list \<Rightarrow> (mem_op list \<times> block_info \<times> vblock list) option" where
  "scan upd b info [] = Some ([], info, [])"
| "scan upd b info (op # ops) =
     (case oterm op of
        Some t \<Rightarrow> map_option (\<lambda>succs. (op # ops, info, succs)) (visitTerminator b op t)
      | None \<Rightarrow> do {
          (info', act) \<leftarrow> upd op (case ops of [] \<Rightarrow> None | o' # _ \<Rightarrow> Some (isBarrier o')) info;
          (ops', out, succs) \<leftarrow> scan upd b info' ops;
          Some (case act of
              NoBarrier \<Rightarrow> op # ops'
            | BarrierBefore \<Rightarrow> barrierOp # op # ops'
            | BarrierAfter \<Rightarrow> op # barrierOp # ops', out, succs)
        })"

section \<open>The fixed point\<close>

record membar_state =
  code :: "vblock \<Rightarrow> mem_op list option"
  inputs :: "vblock \<Rightarrow> block_info"
  outputs :: "vblock \<Rightarrow> block_info option"
  blockList :: "vblock list"

definition membar_step ::
  "(mem_op \<Rightarrow> bool option \<Rightarrow> block_info \<Rightarrow> (block_info \<times> barrier_action) option) \<Rightarrow> membar_state \<Rightarrow> membar_state option" where
  "membar_step upd st =
     (case blockList st of
        [] \<Rightarrow> Some st
      | v # rest \<Rightarrow> do {
          ops \<leftarrow> code st v;
          (ops', info, succs) \<leftarrow> scan upd (fst v) (inputs st v) ops;
          let st1 = st\<lparr>code := (code st)(v \<mapsto> ops'), blockList := rest\<rparr>;
          Some (if outputs st v = Some info then st1
                else st1\<lparr>outputs := (outputs st)(v \<mapsto> info),
                         inputs := fold (\<lambda>s m. m(s := joinInfo (m s) info)) succs (inputs st),
                         blockList := rest @ succs\<rparr>)
        })"

partial_function (option) membar_loop ::
  "(mem_op \<Rightarrow> bool option \<Rightarrow> block_info \<Rightarrow> (block_info \<times> barrier_action) option) \<Rightarrow> membar_state \<Rightarrow> membar_state option" where
  "membar_loop upd st =
     (if blockList st = [] then Some st
      else Option.bind (membar_step upd st) (membar_loop upd))"

declare membar_loop.simps [code]

definition initial_state :: "(nat \<times> mem_op list) list \<Rightarrow> nat list \<Rightarrow> membar_state" where
  "initial_state blocks entries =
     \<lparr>code = map_of (virtualBlocks blocks), inputs = (\<lambda>_. no_accesses), outputs = Map.empty,
      blockList = map (\<lambda>b. (b, None)) entries\<rparr>"

text \<open>
  The information of the function: for every return the virtual block of its block that starts last. A
  return in a block that was never visited makes the code follow an end iterator.
\<close>

definition last_vblock :: "membar_state \<Rightarrow> (vblock \<times> mem_op list) list \<Rightarrow> nat \<Rightarrow> vblock option" where
  "last_vblock st vbs b =
     (case filter (\<lambda>v. fst v = b \<and> outputs st v \<noteq> None) (map fst vbs) of [] \<Rightarrow> None | vs \<Rightarrow> Some (last vs))"

definition returns :: "(nat \<times> mem_op list) list \<Rightarrow> nat list" where
  "returns blocks = [b. (b, ops) \<leftarrow> blocks, op \<leftarrow> ops, oterm op = Some (ReturnLike True)]"

definition function_info :: "(nat \<times> mem_op list) list \<Rightarrow> membar_state \<Rightarrow> block_info option" where
  "function_info blocks st =
     fold (\<lambda>b acc. do {
         i \<leftarrow> acc;
         v \<leftarrow> last_vblock st (virtualBlocks blocks) b;
         o' \<leftarrow> outputs st v;
         Some (joinInfo i o')
       }) (returns blocks) (Some no_accesses)"

definition resolveMembar ::
  "membar_filter \<Rightarrow> allocation \<Rightarrow> (nat \<Rightarrow> block_info) \<Rightarrow> (nat \<times> mem_op list) list \<Rightarrow> nat list \<Rightarrow>
   (membar_state \<times> block_info) option" where
  "resolveMembar flt alloc funcInfo blocks entries = do {
     st \<leftarrow> membar_loop (updateInfo flt alloc funcInfo) (initial_state blocks entries);
     i \<leftarrow> function_info blocks st;
     Some (st, i)
   }"

end
