(* ===== verification/MembarSafety.thy ===== *)
theory MembarSafety
  imports Membar
begin

text \<open>
  The barrier placement is correct: the worklist always empties, it only inserts barriers, and on
  every path through the final code an operation that synchronises stands between two accesses that
  conflict. The contract of the transfer function is the locale \<open>membar_transfer\<close>; the interpretation at the
  end discharges it for \<open>updateInfo\<close>.
\<close>

section \<open>The order of the information\<close>

definition le_info :: "block_info \<Rightarrow> block_info \<Rightarrow> bool" where
  "le_info a b \<longleftrightarrow> syncReads a \<subseteq> syncReads b \<and> syncWrites a \<subseteq> syncWrites b"

lemma le_info_refl [simp]: "le_info a a"
  by (simp add: le_info_def)

lemma le_info_trans: "le_info a b \<Longrightarrow> le_info b c \<Longrightarrow> le_info a c"
  by (auto simp: le_info_def)

lemma le_info_antisym: "le_info a b \<Longrightarrow> le_info b a \<Longrightarrow> a = b"
  by (auto simp: le_info_def)

lemma no_accesses_least [simp]: "le_info no_accesses a"
  by (simp add: le_info_def no_accesses_def)

lemma le_join [simp]: "le_info a (joinInfo a b)" "le_info b (joinInfo a b)"
  by (auto simp: le_info_def joinInfo_def)

lemma join_mono: "le_info a b \<Longrightarrow> le_info (joinInfo a c) (joinInfo b c)"
  by (auto simp: le_info_def joinInfo_def)

lemma join_least: "le_info a c \<Longrightarrow> le_info b c \<Longrightarrow> le_info (joinInfo a b) c"
  by (auto simp: le_info_def joinInfo_def)

lemma join_none [simp]: "joinInfo no_accesses a = a" "joinInfo a no_accesses = a"
  by (simp_all add: joinInfo_def no_accesses_def)

lemma isIntersected_mono: "isIntersected flt a p \<Longrightarrow> le_info a b \<Longrightarrow> isIntersected flt b p"
  unfolding isIntersected_def intersectedMaps_def le_info_def by blast

lemma isIntersected_none [simp]: "\<not> isIntersected flt no_accesses p" "\<not> isIntersected flt a no_accesses"
  by (simp_all add: isIntersected_def intersectedMaps_def no_accesses_def)

section \<open>Paths\<close>

fun succs_of :: "nat \<Rightarrow> mem_op list \<Rightarrow> vblock list option" where
  "succs_of b [] = Some []"
| "succs_of b (op # ops) = (case oterm op of Some t \<Rightarrow> visitTerminator b op t | None \<Rightarrow> succs_of b ops)"

text \<open>A path through the virtual blocks from one that an execution starts in.\<close>

fun path :: "membar_state \<Rightarrow> vblock \<Rightarrow> vblock list \<Rightarrow> bool" where
  "path st v [] = True"
| "path st v (w # vs) = ((\<exists>succs. succs_of (fst v) (the (code st v)) = Some succs \<and> w \<in> set succs) \<and> path st w vs)"

definition body :: "mem_op list \<Rightarrow> mem_op list" where
  "body seg = takeWhile (\<lambda>op. oterm op = None) seg"

definition path_ops :: "membar_state \<Rightarrow> vblock list \<Rightarrow> mem_op list" where
  "path_ops st vs = concat (map (\<lambda>v. body (the (code st v))) vs)"

text \<open>The code without its barriers.\<close>

definition erased :: "membar_state \<Rightarrow> vblock \<Rightarrow> mem_op list option" where
  "erased st v = map_option (filter (\<lambda>op. \<not> isBarrier op)) (code st v)"

section \<open>What an operation does\<close>

text \<open>
  The contract of the transfer function: an operation is checked against \<open>probe\<close>, leaves \<open>gen\<close> behind, and
  forgets what came before if it \<open>clears\<close>. It is defined or not independently of the information. A wait without a barrier
  behind it gets one.
\<close>

locale membar_transfer =
  fixes upd :: "mem_op \<Rightarrow> bool option \<Rightarrow> block_info \<Rightarrow> (block_info \<times> barrier_action) option"
    and ok :: "mem_op \<Rightarrow> bool"
    and ready :: "mem_op \<Rightarrow> bool option \<Rightarrow> bool"
    and waits :: "mem_op \<Rightarrow> bool"
    and probe gen :: "mem_op \<Rightarrow> block_info"
    and clears :: "mem_op \<Rightarrow> bool"
    and hz :: "block_info \<Rightarrow> block_info \<Rightarrow> bool"
  assumes spec: "ok op \<Longrightarrow> upd op nb info =
      (if \<not> ready op nb then None
       else if waits op \<and> nb = Some False then Some (no_accesses, BarrierAfter)
       else if hz info (probe op) then Some (gen op, BarrierBefore)
       else Some (if clears op then gen op else joinInfo info (gen op), NoBarrier))"
    and hz_mono: "hz a p \<Longrightarrow> le_info a b \<Longrightarrow> hz b p"
    and hz_none: "\<not> hz no_accesses p" "\<not> hz a no_accesses"
    and waits_plain: "ok op \<Longrightarrow> waits op \<Longrightarrow> probe op = no_accesses \<and> gen op = no_accesses \<and> \<not> clears op \<and> \<not> isBarrier op"
    and barrier: "isBarrier op \<Longrightarrow> ok op \<and> probe op = no_accesses \<and> gen op = no_accesses \<and> clears op"
    and barrier_ready: "isBarrier op \<Longrightarrow> ready op nb"
begin

definition after :: "mem_op \<Rightarrow> block_info \<Rightarrow> block_info" where
  "after op i = (if clears op then gen op else joinInfo i (gen op))"

fun flow :: "block_info \<Rightarrow> mem_op list \<Rightarrow> block_info" where
  "flow i [] = i"
| "flow i (op # ops) = (if oterm op \<noteq> None then i else flow (after op i) ops)"

fun clean :: "block_info \<Rightarrow> mem_op list \<Rightarrow> bool" where
  "clean i [] = True"
| "clean i (op # ops) = (oterm op \<noteq> None \<or> \<not> hz i (probe op) \<and> clean (after op i) ops)"

lemma after_mono: "le_info i j \<Longrightarrow> le_info (after op i) (after op j)"
  by (simp add: after_def join_mono)

lemma flow_mono: "le_info i j \<Longrightarrow> le_info (flow i ops) (flow j ops)"
  by (induction ops arbitrary: i j) (simp_all add: after_mono)

lemma clean_mono: "clean j ops \<Longrightarrow> le_info i j \<Longrightarrow> clean i ops"
proof (induction ops arbitrary: i j)
  case (Cons op ops)
  then show ?case using hz_mono after_mono by auto
qed simp

lemma barrierOp_simps [simp]: "isBarrier barrierOp" "oterm barrierOp = None" "after barrierOp i = no_accesses" "probe barrierOp = no_accesses"
proof -
  show b: "isBarrier barrierOp" "oterm barrierOp = None" by (simp_all add: isBarrier_def barrierOp_def)
  show "after barrierOp i = no_accesses" "probe barrierOp = no_accesses" using barrier [OF b(1)] by (simp_all add: after_def)
qed

lemma scan_spec:
  assumes "scan upd b i ops = Some (ops', out, succs)" and "\<forall>op \<in> set ops. ok op"
  shows "flow i ops' = out \<and> clean i ops' \<and> succs_of b ops = Some succs \<and> succs_of b ops' = Some succs \<and>
    set ops' \<subseteq> insert barrierOp (set ops)"
  using assms
proof (induction ops arbitrary: i ops' out succs)
  case (Cons op ops)
  show ?case
  proof (cases "oterm op")
    case (Some t)
    then show ?thesis using Cons.prems by (auto split: option.splits)
  next
    case None
    let ?nb = "case ops of [] \<Rightarrow> None | o' # _ \<Rightarrow> Some (isBarrier o')"
    obtain i' act ops1 where u: "upd op ?nb i = Some (i', act)" "scan upd b i' ops = Some (ops1, out, succs)"
      and o': "ops' = (case act of NoBarrier \<Rightarrow> op # ops1 | BarrierBefore \<Rightarrow> barrierOp # op # ops1 | BarrierAfter \<Rightarrow> op # barrierOp # ops1)"
      using Cons.prems(1) None by (auto simp: bind_eq_Some_conv split: prod.splits)
    have okop: "ok op" using Cons.prems(2) by simp
    have IH: "flow i' ops1 = out \<and> clean i' ops1 \<and> succs_of b ops = Some succs \<and> succs_of b ops1 = Some succs \<and>
        set ops1 \<subseteq> insert barrierOp (set ops)"
      using Cons.IH [OF u(2)] Cons.prems(2) by simp
    note sp = spec [OF okop, of ?nb i, unfolded u(1)]
    show ?thesis
    proof (cases act)
      case NoBarrier
      then have "\<not> hz i (probe op)" "i' = after op i" using sp by (auto simp: after_def split: if_splits)
      then show ?thesis using IH NoBarrier None o' by auto
    next
      case BarrierBefore
      then have "i' = after op no_accesses" using sp by (auto simp: after_def split: if_splits)
      then show ?thesis using IH BarrierBefore None o' hz_none by auto
    next
      case BarrierAfter
      then have w: "waits op" "i' = no_accesses" using sp by (auto split: if_splits)
      then show ?thesis using IH BarrierAfter None o' hz_none waits_plain [OF okop w(1)] by auto
    qed
  qed
qed simp

section \<open>Safety at the fixed point\<close>

definition inv :: "vblock list \<Rightarrow> membar_state \<Rightarrow> bool" where
  "inv entries st \<longleftrightarrow>
     (\<forall>v seg. code st v = Some seg \<longrightarrow> (\<forall>op \<in> set seg. ok op)) \<and>
     (\<forall>v o'. outputs st v = Some o' \<longrightarrow> (\<exists>seg succs. code st v = Some seg \<and> succs_of (fst v) seg = Some succs \<and>
        (\<forall>s \<in> set succs. le_info o' (inputs st s) \<and> (outputs st s \<noteq> None \<or> s \<in> set (blockList st))) \<and>
        le_info o' (flow (inputs st v) seg) \<and>
        (v \<notin> set (blockList st) \<longrightarrow> clean (inputs st v) seg \<and> flow (inputs st v) seg = o'))) \<and>
     (\<forall>v \<in> set entries. outputs st v \<noteq> None \<or> v \<in> set (blockList st))"

lemma inv_ok: "inv entries st \<Longrightarrow> code st v = Some seg \<Longrightarrow> \<forall>op \<in> set seg. ok op"
  unfolding inv_def by blast

lemma inv_out:
  "inv entries st \<Longrightarrow> outputs st v = Some o' \<Longrightarrow> \<exists>seg succs. code st v = Some seg \<and> succs_of (fst v) seg = Some succs \<and>
     (\<forall>s \<in> set succs. le_info o' (inputs st s) \<and> (outputs st s \<noteq> None \<or> s \<in> set (blockList st))) \<and>
     le_info o' (flow (inputs st v) seg) \<and>
     (v \<notin> set (blockList st) \<longrightarrow> clean (inputs st v) seg \<and> flow (inputs st v) seg = o')"
  unfolding inv_def by blast

lemma inv_entries: "inv entries st \<Longrightarrow> \<forall>v \<in> set entries. outputs st v \<noteq> None \<or> v \<in> set (blockList st)"
  unfolding inv_def by blast

lemma fold_joins:
  "fold (\<lambda>s m. m(s := joinInfo (m s) i)) ss m = (\<lambda>s. if s \<in> set ss then joinInfo (m s) i else m s)"
proof (induction ss arbitrary: m)
  case (Cons t ss)
  have "joinInfo (joinInfo a i) i = joinInfo a i" for a by (simp add: joinInfo_def)
  then show ?case unfolding fold_Cons comp_def Cons.IH by (auto simp: fun_upd_def)
qed simp

lemma fold_join: "le_info (m s) (fold (\<lambda>s m. m(s := joinInfo (m s) i)) ss m s)"
  by (simp add: fold_joins)

lemma fold_join_other: "s \<notin> set ss \<Longrightarrow> fold (\<lambda>s m. m(s := joinInfo (m s) i)) ss m s = m s"
  by (simp add: fold_joins)

lemma fold_join_ge: "s \<in> set ss \<Longrightarrow> le_info i (fold (\<lambda>s m. m(s := joinInfo (m s) i)) ss m s)"
  by (simp add: fold_joins)

lemma step_inv:
  assumes I: "inv entries st" and s: "membar_step upd st = Some st'" and ne: "blockList st \<noteq> []"
  shows "inv entries st'"
proof -
  obtain v rest where wl: "blockList st = v # rest" using ne by (cases "blockList st") auto
  obtain ops ops' info succs where c: "code st v = Some ops" and sc: "scan upd (fst v) (inputs st v) ops = Some (ops', info, succs)"
    and st': "st' = (let st1 = st\<lparr>code := (code st)(v \<mapsto> ops'), blockList := rest\<rparr>
       in if outputs st v = Some info then st1
          else st1\<lparr>outputs := (outputs st)(v \<mapsto> info), inputs := fold (\<lambda>s m. m(s := joinInfo (m s) info)) succs (inputs st),
                   blockList := rest @ succs\<rparr>)"
    using s wl by (auto simp: membar_step_def bind_eq_Some_conv Let_def split: prod.splits)
  note okc = inv_ok [OF I] and outs = inv_out [OF I] and ent = inv_entries [OF I]
  note S = scan_spec [OF sc okc [OF c]]
  have ok': "\<forall>op \<in> set ops'. ok op" using S okc [OF c] barrier [of barrierOp] by auto
  show ?thesis
  proof (cases "outputs st v = Some info")
    case True
    then have e: "st' = st\<lparr>code := (code st)(v \<mapsto> ops'), blockList := rest\<rparr>" using st' by simp
    show ?thesis unfolding inv_def
    proof (intro conjI allI impI)
      fix u seg assume "code st' u = Some seg" then show "\<forall>op \<in> set seg. ok op" using okc ok' by (auto simp: e split: if_splits)
    next
      fix u o' assume "outputs st' u = Some o'"
      then have o': "outputs st u = Some o'" by (simp add: e)
      obtain seg sc' where u: "code st u = Some seg" "succs_of (fst u) seg = Some sc'"
        "\<forall>s \<in> set sc'. le_info o' (inputs st s) \<and> (outputs st s \<noteq> None \<or> s \<in> set (blockList st))"
        "le_info o' (flow (inputs st u) seg)"
        "u \<notin> set (blockList st) \<longrightarrow> clean (inputs st u) seg \<and> flow (inputs st u) seg = o'" using outs [OF o'] by blast
      have m: "outputs st s \<noteq> None \<or> s \<in> set rest" if "s \<in> set sc'" for s using u(3) that True wl by auto
      show "\<exists>seg succs. code st' u = Some seg \<and> succs_of (fst u) seg = Some succs \<and>
        (\<forall>s \<in> set succs. le_info o' (inputs st' s) \<and> (outputs st' s \<noteq> None \<or> s \<in> set (blockList st'))) \<and>
        le_info o' (flow (inputs st' u) seg) \<and> (u \<notin> set (blockList st') \<longrightarrow> clean (inputs st' u) seg \<and> flow (inputs st' u) seg = o')"
      proof (cases "u = v")
        case True
        then have "seg = ops" "o' = info" using u(1) c o' \<open>outputs st v = Some info\<close> by auto
        then show ?thesis using True S u m by (intro exI [of _ ops'] exI [of _ succs]) (auto simp: e)
      next
        case False
        then show ?thesis using u m wl by (intro exI [of _ seg] exI [of _ sc']) (auto simp: e)
      qed
    next
      show "\<forall>u \<in> set entries. outputs st' u \<noteq> None \<or> u \<in> set (blockList st')" using ent True wl by (auto simp: e)
    qed
  next
    case False
    let ?in = "fold (\<lambda>s m. m(s := joinInfo (m s) info)) succs (inputs st)"
    have e: "st' = st\<lparr>code := (code st)(v \<mapsto> ops'), outputs := (outputs st)(v \<mapsto> info), inputs := ?in, blockList := rest @ succs\<rparr>"
      using st' False by simp
    show ?thesis unfolding inv_def
    proof (intro conjI allI impI)
      fix u seg assume "code st' u = Some seg" then show "\<forall>op \<in> set seg. ok op" using okc ok' by (auto simp: e split: if_splits)
    next
      fix u o' assume o'': "outputs st' u = Some o'"
      show "\<exists>seg succs. code st' u = Some seg \<and> succs_of (fst u) seg = Some succs \<and>
        (\<forall>s \<in> set succs. le_info o' (inputs st' s) \<and> (outputs st' s \<noteq> None \<or> s \<in> set (blockList st'))) \<and>
        le_info o' (flow (inputs st' u) seg) \<and> (u \<notin> set (blockList st') \<longrightarrow> clean (inputs st' u) seg \<and> flow (inputs st' u) seg = o')"
      proof (cases "u = v")
        case True
        then have "o' = info" using o'' by (simp add: e)
        moreover have "le_info info (flow (?in v) ops')" using S flow_mono [OF fold_join [of "inputs st" v info succs], of ops'] by simp
        ultimately show ?thesis using True S fold_join_ge [of _ succs info "inputs st"] fold_join_other [of v succs info "inputs st"]
          by (intro exI [of _ ops'] exI [of _ succs]) (auto simp: e)
      next
        case False
        then have o': "outputs st u = Some o'" using o'' by (simp add: e)
        obtain seg sc' where u: "code st u = Some seg" "succs_of (fst u) seg = Some sc'"
          "\<forall>s \<in> set sc'. le_info o' (inputs st s) \<and> (outputs st s \<noteq> None \<or> s \<in> set (blockList st))"
          "le_info o' (flow (inputs st u) seg)"
          "u \<notin> set (blockList st) \<longrightarrow> clean (inputs st u) seg \<and> flow (inputs st u) seg = o'" using outs [OF o'] by blast
        have st: "code st' u = Some seg" "inputs st' = ?in" "blockList st' = rest @ succs" "outputs st' = (outputs st)(v \<mapsto> info)"
          using False u(1) by (simp_all add: e)
        have "le_info o' (inputs st' s) \<and> (outputs st' s \<noteq> None \<or> s \<in> set (blockList st'))" if "s \<in> set sc'" for s
        proof -
          have "outputs st s \<noteq> None \<or> s = v \<or> s \<in> set rest" using bspec [OF u(3) that] wl by simp
          moreover have "le_info o' (?in s)" by (rule le_info_trans [OF conjunct1 [OF bspec [OF u(3) that]] fold_join [of "inputs st" s]])
          ultimately show ?thesis by (auto simp: st)
        qed
        moreover have "le_info o' (flow (inputs st' u) seg)" unfolding st by (rule le_info_trans [OF u(4) flow_mono [OF fold_join [of "inputs st" u]]])
        moreover have "u \<notin> set (blockList st') \<longrightarrow> clean (inputs st' u) seg \<and> flow (inputs st' u) seg = o'"
          using u(5) False wl fold_join_other [of u succs info "inputs st"] by (simp add: st)
        ultimately show ?thesis using u(2) st(1) by (intro exI [of _ seg] exI [of _ sc'] conjI ballI) blast+
      qed
    next
      show "\<forall>u \<in> set entries. outputs st' u \<noteq> None \<or> u \<in> set (blockList st')"
      proof
        fix u assume "u \<in> set entries"
        then have "outputs st u \<noteq> None \<or> u = v \<or> u \<in> set rest" using ent wl by auto
        then show "outputs st' u \<noteq> None \<or> u \<in> set (blockList st')" by (auto simp: e)
      qed
    qed
  qed
qed

section \<open>Termination\<close>

text \<open>The places where a barrier may still be inserted: neighbours that are not barriers.\<close>

fun gaps :: "bool \<Rightarrow> mem_op list \<Rightarrow> nat" where
  "gaps pb [] = 0"
| "gaps pb (op # ops) = (if \<not> pb \<and> \<not> isBarrier op then 1 else 0) + gaps (isBarrier op) ops"

lemma scan_gaps:
  assumes "scan upd b i ops = Some (ops', out, succs)" and "\<forall>op \<in> set ops. ok op" and "pb \<longrightarrow> i = no_accesses"
  shows "ops' = ops \<or> gaps pb ops' < gaps pb ops"
  using assms
proof (induction ops arbitrary: i ops' out succs pb)
  case (Cons op ops)
  show ?case
  proof (cases "oterm op")
    case (Some t)
    then show ?thesis using Cons.prems by (auto split: option.splits)
  next
    case None
    let ?nb = "case ops of [] \<Rightarrow> None | o' # _ \<Rightarrow> Some (isBarrier o')"
    obtain i' act ops1 where u: "upd op ?nb i = Some (i', act)" "scan upd b i' ops = Some (ops1, out, succs)"
      and o': "ops' = (case act of NoBarrier \<Rightarrow> op # ops1 | BarrierBefore \<Rightarrow> barrierOp # op # ops1 | BarrierAfter \<Rightarrow> op # barrierOp # ops1)"
      using Cons.prems(1) None by (auto simp: bind_eq_Some_conv split: prod.splits)
    have okop: "ok op" using Cons.prems(2) by simp
    note sp = spec [OF okop, of ?nb i, unfolded u(1)]
    have IH: "ops1 = ops \<or> gaps q ops1 < gaps q ops" if "q \<longrightarrow> i' = no_accesses" for q
      using Cons.IH [OF u(2) _ that] Cons.prems(2) by simp
    show ?thesis
    proof (cases act)
      case NoBarrier
      have "isBarrier op \<longrightarrow> i' = no_accesses" using sp NoBarrier barrier [of op] by (auto split: if_splits)
      then show ?thesis using IH [of "isBarrier op"] NoBarrier o' by auto
    next
      case BarrierBefore
      then have h: "hz i (probe op)" using sp by (auto split: if_splits)
      then have "\<not> pb" "\<not> isBarrier op" using hz_none Cons.prems(3) barrier [of op] by auto
      then show ?thesis using IH [of False] BarrierBefore o' by auto
    next
      case BarrierAfter
      then have w: "waits op" "?nb = Some False" "i' = no_accesses" using sp by (auto split: if_splits)
      then obtain o1 r where ops: "ops = o1 # r" "\<not> isBarrier o1" by (cases ops) auto
      have "ops1 = ops \<or> gaps True ops1 < gaps True ops" using IH [of True] w(3) by simp
      then have "gaps True ops1 \<le> gaps True ops" by auto
      then show ?thesis using ops BarrierAfter o' waits_plain [OF okop w(1)] by auto
    qed
  qed
qed simp

fun ready_seg :: "mem_op list \<Rightarrow> bool" where
  "ready_seg [] = True"
| "ready_seg (op # ops) = (oterm op \<noteq> None \<or>
     ops \<noteq> [] \<and> ready op (Some True) \<and> ready op (Some False) \<and> ready_seg ops)"

lemma scan_total:
  assumes "ready_seg ops" and "\<forall>op \<in> set ops. ok op" and "succs_of b ops = Some succs"
    and "le_info i U" and "\<forall>op \<in> set ops. le_info (gen op) U"
  shows "\<exists>ops' out. scan upd b i ops = Some (ops', out, succs) \<and> ready_seg ops' \<and> le_info out U \<and> (ops = [] \<longrightarrow> ops' = [])
    \<and> (ops \<noteq> [] \<longrightarrow> ops' \<noteq> [])"
  using assms
proof (induction ops arbitrary: i)
  case (Cons op ops)
  show ?case
  proof (cases "oterm op")
    case (Some t)
    then show ?thesis using Cons.prems by auto
  next
    case None
    let ?nb = "case ops of [] \<Rightarrow> None | o' # _ \<Rightarrow> Some (isBarrier o')"
    have ops: "ops \<noteq> []" "ready_seg ops" "ready op (Some True)" "ready op (Some False)" using Cons.prems(1) None by auto
    have "ready op (Some bb)" for bb using ops(3,4) by (cases bb) auto
    then have r: "ready op ?nb" using ops(1) by (cases ops) auto
    have okop: "ok op" "le_info (gen op) U" using Cons.prems by auto
    obtain i' act where u: "upd op ?nb i = Some (i', act)" using spec [OF okop(1), of ?nb i] r by (auto split: if_splits)
    have "le_info i' U" using spec [OF okop(1), of ?nb i] u okop(2) Cons.prems(4) join_least by (auto split: if_splits)
    then obtain ops1 out where s1: "scan upd b i' ops = Some (ops1, out, succs)" "ready_seg ops1" "le_info out U" "ops1 \<noteq> []"
      using Cons.IH [of i'] Cons.prems ops None by auto
    have br: "ready barrierOp nb" for nb by (rule barrier_ready) simp
    show ?thesis using None u s1 ops br by (cases act) (auto simp: bind_eq_Some_conv)
  qed
qed simp

definition bounded :: "block_info \<Rightarrow> vblock set \<Rightarrow> membar_state \<Rightarrow> bool" where
  "bounded U V st \<longleftrightarrow> dom (code st) = V \<and> set (blockList st) \<subseteq> V \<and>
     (\<forall>v seg. code st v = Some seg \<longrightarrow> ready_seg seg \<and> (\<forall>op \<in> set seg. le_info (gen op) U) \<and>
        (\<exists>succs. succs_of (fst v) seg = Some succs \<and> set succs \<subseteq> V)) \<and>
     (\<forall>v. le_info (inputs st v) U) \<and> (\<forall>v o'. outputs st v = Some o' \<longrightarrow> le_info o' U)"

lemma bounded_seg:
  "bounded U V st \<Longrightarrow> code st v = Some seg \<Longrightarrow> ready_seg seg \<and> (\<forall>op \<in> set seg. le_info (gen op) U) \<and>
     (\<exists>succs. succs_of (fst v) seg = Some succs \<and> set succs \<subseteq> V)"
  unfolding bounded_def by blast

definition info_size :: "block_info \<Rightarrow> nat" where
  "info_size i = card (syncReads i) + card (syncWrites i)"

lemma info_size_less:
  assumes "le_info a b" and "a \<noteq> b" and "le_info b U" and "finite (syncReads U)" and "finite (syncWrites U)"
  shows "info_size a < info_size b" "info_size b \<le> info_size U"
proof -
  have f: "finite (syncReads b)" "finite (syncWrites b)" using assms by (auto simp: le_info_def intro: finite_subset)
  have sub: "syncReads a \<subseteq> syncReads b" "syncWrites a \<subseteq> syncWrites b" using assms(1) by (auto simp: le_info_def)
  have "syncReads a \<noteq> syncReads b \<or> syncWrites a \<noteq> syncWrites b" using assms(2) by auto
  then show "info_size a < info_size b"
    using card_mono [OF f(1) sub(1)] card_mono [OF f(2) sub(2)] psubset_card_mono [OF f(1), of "syncReads a"]
      psubset_card_mono [OF f(2), of "syncWrites a"] sub unfolding info_size_def psubset_eq by linarith
  show "info_size b \<le> info_size U" unfolding info_size_def using assms by (intro add_mono card_mono) (auto simp: le_info_def)
qed

definition room :: "block_info \<Rightarrow> membar_state \<Rightarrow> vblock \<Rightarrow> nat" where
  "room U st v = (case outputs st v of None \<Rightarrow> Suc (info_size U) | Some o' \<Rightarrow> info_size U - info_size o')"

definition all_gaps :: "vblock set \<Rightarrow> membar_state \<Rightarrow> nat" where
  "all_gaps V st = (\<Sum>v \<in> V. gaps False (the (code st v)))"

definition work :: "block_info \<Rightarrow> vblock set \<Rightarrow> membar_state \<Rightarrow> nat \<times> nat \<times> nat" where
  "work U V st = (all_gaps V st, \<Sum>v \<in> V. room U st v, length (blockList st))"

lemma sum_change:
  fixes f g :: "'v \<Rightarrow> nat"
  assumes "finite V" and "v \<in> V" and "\<And>u. u \<noteq> v \<Longrightarrow> f u = g u" and "f v < g v"
  shows "sum f V < sum g V"
  using assms by (intro sum_strict_mono_ex1) (auto, metis order_refl less_imp_le)

lemma step_total:
  assumes I: "inv entries st" and B: "bounded U V st" and V: "finite V" and U: "finite (syncReads U)" "finite (syncWrites U)"
    and ne: "blockList st \<noteq> []"
  shows "\<exists>st'. membar_step upd st = Some st' \<and> bounded U V st' \<and>
    (work U V st', work U V st) \<in> less_than <*lex*> less_than <*lex*> less_than"
proof -
  obtain v rest where wl: "blockList st = v # rest" using ne by (cases "blockList st") auto
  have vV: "v \<in> V" using B wl by (auto simp: bounded_def)
  then obtain ops where c: "code st v = Some ops" using B by (auto simp: bounded_def)
  note okc = inv_ok [OF I c]
  obtain succs where sc: "ready_seg ops" "\<forall>op \<in> set ops. le_info (gen op) U" "succs_of (fst v) ops = Some succs" "set succs \<subseteq> V"
    using B c unfolding bounded_def by blast
  have "le_info (inputs st v) U" using B unfolding bounded_def by blast
  then obtain ops' info where s: "scan upd (fst v) (inputs st v) ops = Some (ops', info, succs)" "ready_seg ops'" "le_info info U"
    using scan_total [OF sc(1) okc sc(3) _ sc(2)] by blast
  note S = scan_spec [OF s(1) okc]
  have genb: "le_info (gen barrierOp) U" using barrier [of barrierOp] by simp
  let ?st1 = "st\<lparr>code := (code st)(v \<mapsto> ops'), blockList := rest\<rparr>"
  let ?in = "fold (\<lambda>s m. m(s := joinInfo (m s) info)) succs (inputs st)"
  let ?st2 = "?st1\<lparr>outputs := (outputs st)(v \<mapsto> info), inputs := ?in, blockList := rest @ succs\<rparr>"
  let ?st' = "if outputs st v = Some info then ?st1 else ?st2"
  have step: "membar_step upd st = Some ?st'" using wl c s(1) by (simp add: membar_step_def Let_def)
  have inU: "le_info (fold (\<lambda>s m. m(s := joinInfo (m s) info)) ss m u) U" if "\<And>u. le_info (m u) U" for ss m u
    using that s(3) by (induction ss arbitrary: m) (auto simp: join_least)
  have segs: "\<forall>op \<in> set ops'. le_info (gen op) U" using S sc(2) genb by auto
  have B1: "bounded U V ?st1"
    unfolding bounded_def
  proof (intro conjI allI impI)
    fix u seg assume a: "code ?st1 u = Some seg"
    show "ready_seg seg" using a bounded_seg [OF B, of u seg] s(2) by (auto split: if_splits)
    show "\<forall>op \<in> set seg. le_info (gen op) U" using a bounded_seg [OF B, of u seg] segs by (auto split: if_splits)
    show "\<exists>succs. succs_of (fst u) seg = Some succs \<and> set succs \<subseteq> V" using a bounded_seg [OF B, of u seg] S sc(4) by (auto split: if_splits)
  qed (use B wl vV in \<open>auto simp: bounded_def\<close>)
  have B2: "bounded U V ?st2"
    unfolding bounded_def
  proof (intro conjI allI impI)
    fix u
    have "le_info (inputs st w) U" for w using B unfolding bounded_def by blast
    then show "le_info (inputs ?st2 u) U" using inU [of "inputs st" succs u] by simp
  next
    fix u o' assume "outputs ?st2 u = Some o'"
    then have "o' = info \<or> outputs st u = Some o'" by (cases "u = v") simp_all
    moreover have "le_info o' U" if "outputs st u = Some o'" using that B unfolding bounded_def by blast
    ultimately show "le_info o' U" using s(3) by blast
  qed (use B1 sc(4) wl in \<open>auto simp: bounded_def\<close>)
  have gapsum: "all_gaps V st' = all_gaps V ?st1" if "code st' = code ?st1" for st' :: membar_state
    using that by (simp add: all_gaps_def)
  have dec: "(work U V ?st', work U V st) \<in> less_than <*lex*> less_than <*lex*> less_than"
  proof (cases "ops' = ops")
    case False
    then have "gaps False ops' < gaps False ops" using scan_gaps [OF s(1) okc, of False] by simp
    then have "all_gaps V ?st1 < all_gaps V st" unfolding all_gaps_def using c by (intro sum_change [OF V vV]) auto
    then show ?thesis using gapsum [of ?st2] by (simp add: work_def)
  next
    case True
    then have same: "all_gaps V ?st' = all_gaps V st" using c by (simp add: all_gaps_def fun_upd_idem)
    show ?thesis
    proof (cases "outputs st v = Some info")
      case True
      then have "(\<Sum>v \<in> V. room U ?st' v) = (\<Sum>v \<in> V. room U st v)" by (simp add: room_def)
      then show ?thesis using same True wl by (simp add: work_def)
    next
      case False
      have "room U ?st2 v < room U st v"
      proof (cases "outputs st v")
        case None
        then show ?thesis by (simp add: room_def)
      next
        case (Some o')
        have "le_info o' (flow (inputs st v) ops)" using inv_out [OF I Some] c by auto
        then have "le_info o' info" using S \<open>ops' = ops\<close> by simp
        moreover have "o' \<noteq> info" using Some False by auto
        ultimately have "info_size o' < info_size info" "info_size info \<le> info_size U" using info_size_less s(3) U by blast+
        then show ?thesis using Some by (simp add: room_def)
      qed
      then have "(\<Sum>v \<in> V. room U ?st2 v) < (\<Sum>v \<in> V. room U st v)" by (intro sum_change [OF V vV]) (auto simp: room_def)
      then show ?thesis using same False by (simp add: work_def)
    qed
  qed
  have "bounded U V ?st'" using B1 B2 by simp
  then show ?thesis using step dec by blast
qed

text \<open>The analysis only inserts barriers.\<close>

lemma scan_erased:
  "scan upd b i ops = Some (ops', out, succs) \<Longrightarrow> filter (\<lambda>op. \<not> isBarrier op) ops' = filter (\<lambda>op. \<not> isBarrier op) ops"
proof (induction ops arbitrary: i ops' out succs)
  case (Cons op ops)
  then show ?case
    by (auto simp: bind_eq_Some_conv split: option.splits prod.splits) (auto split: barrier_action.splits)
qed simp

lemma step_erased: "membar_step upd st = Some st' \<Longrightarrow> erased st' = erased st"
proof (rule ext)
  fix u assume s: "membar_step upd st = Some st'"
  show "erased st' u = erased st u"
  proof (cases "blockList st")
    case (Cons v rest)
    then obtain ops ops' info succs where "code st v = Some ops" "scan upd (fst v) (inputs st v) ops = Some (ops', info, succs)"
      "code st' = (code st)(v \<mapsto> ops')"
      using s by (auto simp: membar_step_def bind_eq_Some_conv Let_def split: prod.splits)
    then show ?thesis using scan_erased by (auto simp: erased_def)
  qed (use s in \<open>simp add: membar_step_def\<close>)
qed

lemma loop_total:
  assumes "inv entries st" and "bounded U V st" and V: "finite V" "finite (syncReads U)" "finite (syncWrites U)"
  shows "\<exists>st'. membar_loop upd st = Some st' \<and> inv entries st' \<and> bounded U V st' \<and> blockList st' = [] \<and> erased st' = erased st"
  using assms(1,2)
proof (induction "work U V st" arbitrary: st rule: wf_induct_rule [OF wf_lex_prod [OF wf_less_than wf_lex_prod [OF wf_less_than wf_less_than]]])
  case (1 st)
  show ?case
  proof (cases "blockList st = []")
    case True
    then show ?thesis using 1(2,3) by (simp add: membar_loop.simps)
  next
    case False
    obtain st1 where s: "membar_step upd st = Some st1" "bounded U V st1"
      "(work U V st1, work U V st) \<in> less_than <*lex*> less_than <*lex*> less_than"
      using step_total [OF 1(2,3) V False] by blast
    have "\<exists>st'. membar_loop upd st1 = Some st' \<and> inv entries st' \<and> bounded U V st' \<and> blockList st' = [] \<and>
        erased st' = erased st1"
      by (rule 1(1) [OF s(3) step_inv [OF 1(2) s(1) False] s(2)])
    then show ?thesis using False s(1) step_erased [OF s(1)] by (simp add: membar_loop.simps)
  qed
qed

section \<open>Clean paths\<close>

lemma clean_body: "clean i seg \<longleftrightarrow> clean i (body seg)" and flow_body: "flow i (body seg) = flow i seg"
  by (induction seg arbitrary: i) (auto simp: body_def)

lemma body_plain: "\<forall>op \<in> set (body seg). oterm op = None"
  unfolding body_def by (auto dest: set_takeWhileD)

lemma clean_append: "\<forall>op \<in> set xs. oterm op = None \<Longrightarrow> clean i (xs @ ys) \<longleftrightarrow> clean i xs \<and> clean (flow i xs) ys"
  by (induction xs arbitrary: i) auto

lemma path_clean:
  assumes I: "inv entries st" and d: "blockList st = []"
  shows "path st v vs \<Longrightarrow> outputs st v \<noteq> None \<Longrightarrow> le_info i (inputs st v) \<Longrightarrow> clean i (path_ops st (v # vs))"
proof (induction vs arbitrary: v i)
  case Nil
  obtain o' where "outputs st v = Some o'" using Nil(2) by auto
  then obtain seg where "code st v = Some seg" "clean (inputs st v) seg" using inv_out [OF I] d by fastforce
  then show ?case using clean_mono [OF _ Nil(3)] clean_body by (simp add: path_ops_def)
next
  case (Cons w vs)
  obtain o' where o': "outputs st v = Some o'" using Cons.prems(2) by auto
  obtain seg succs where v: "code st v = Some seg" "succs_of (fst v) seg = Some succs"
    "\<forall>s \<in> set succs. le_info o' (inputs st s) \<and> outputs st s \<noteq> None" "clean (inputs st v) seg" "flow (inputs st v) seg = o'"
    using inv_out [OF I o'] d by auto
  have w: "w \<in> set succs" "path st w vs" using Cons.prems(1) v by auto
  have "le_info (flow i seg) (inputs st w)"
    using flow_mono [OF Cons.prems(3), of seg] v(3,5) w(1) le_info_trans by blast
  then have "clean (flow i seg) (path_ops st (w # vs))" using Cons.IH [OF w(2)] v(3) w(1) by blast
  moreover have "clean i (body seg)" using clean_mono [OF v(4) Cons.prems(3)] clean_body by blast
  ultimately show ?case using v(1) clean_append [OF body_plain] by (simp add: path_ops_def flow_body)
qed

text \<open>Between an access and a later one that conflicts with it some operation synchronises.\<close>

lemma clean_separated:
  assumes "clean i ops" and "\<forall>op \<in> set ops. oterm op = None" and "p < q" and "q < length ops"
    and h: "hz (gen (ops ! p)) (probe (ops ! q))"
  shows "\<exists>k. p < k \<and> k < q \<and> clears (ops ! k)"
proof (rule ccontr)
  assume n: "\<not> ?thesis"
  define fl where "fl k = flow i (take k ops)" for k
  have fl: "fl (Suc k) = after (ops ! k) (fl k)" if "k < length ops" for k
  proof -
    have "flow i (xs @ [x]) = after x (flow i xs)" if "\<forall>op \<in> set (xs @ [x]). oterm op = None" for xs x i
      using that by (induction xs arbitrary: i) auto
    moreover have "\<forall>op \<in> set (take k ops @ [ops ! k]). oterm op = None" using assms(2) that by (auto dest: in_set_takeD)
    ultimately show ?thesis unfolding fl_def take_Suc_conv_app_nth [OF that] by blast
  qed
  have ge: "le_info (gen (ops ! p)) (fl k)" if "p < k" "k \<le> q" for k
    using that
  proof (induction k)
    case (Suc k)
    show ?case
    proof (cases "p = k")
      case True
      then show ?thesis using Suc assms(4) by (simp add: fl after_def)
    next
      case False
      then have "\<not> clears (ops ! k)" "le_info (gen (ops ! p)) (fl k)" using Suc n by auto
      then show ?thesis using Suc assms(4) le_info_trans [OF _ le_join(1)] by (simp add: fl after_def)
    qed
  qed simp
  have "clean i (take q ops @ ops ! q # drop (Suc q) ops)" using assms(1,4) by (simp add: id_take_nth_drop [symmetric])
  then have "\<not> hz (fl q) (probe (ops ! q))"
    using clean_append [of "take q ops" i "ops ! q # drop (Suc q) ops"] assms(2,4) by (auto simp: fl_def dest: in_set_takeD)
  then show False using hz_mono [OF h ge [OF assms(3) order_refl]] by simp
qed

end

section \<open>The contract holds for the analysis\<close>

definition op_scratch :: "allocation \<Rightarrow> mem_op \<Rightarrow> buffer_id option" where
  "op_scratch alloc op = (case okind op of CallKind _ \<Rightarrow> None | _ \<Rightarrow> opBufferId alloc (oid op))"

definition op_warpSync :: "mem_op \<Rightarrow> bool option" where
  "op_warpSync op = (case okind op of ConvertKind s d \<Rightarrow> isCvtWarpSync s d | _ \<Rightarrow> Some False)"

definition op_info :: "allocation \<Rightarrow> (nat \<Rightarrow> block_info) \<Rightarrow> mem_op \<Rightarrow> block_info option" where
  "op_info alloc funcInfo op =
     (case okind op of
        CallKind callee \<Rightarrow> Some (case callee of Some f \<Rightarrow> funcInfo f | None \<Rightarrow> no_accesses)
      | _ \<Rightarrow> map_option (\<lambda>e. if okind op = ArriveKind then joinInfo e (all_memory (oid op)) else e) (effects_info alloc op))"

definition scratch_interval :: "allocation \<Rightarrow> buffer_id \<Rightarrow> interval" where
  "scratch_interval alloc b = the (getAllocatedInterval alloc b)"

definition op_probe :: "allocation \<Rightarrow> (nat \<Rightarrow> block_info) \<Rightarrow> mem_op \<Rightarrow> block_info" where
  "op_probe alloc funcInfo op =
     (if isBarrier op then no_accesses
      else case op_scratch alloc op of
          Some b \<Rightarrow> \<lparr>syncReads = {}, syncWrites = {(scratch_interval alloc b, oid op)}\<rparr>
        | None \<Rightarrow> (case op_info alloc funcInfo op of Some i \<Rightarrow> i | None \<Rightarrow> no_accesses))"

definition op_gen :: "allocation \<Rightarrow> (nat \<Rightarrow> block_info) \<Rightarrow> mem_op \<Rightarrow> block_info" where
  "op_gen alloc funcInfo op =
     (if isBarrier op then no_accesses
      else case op_scratch alloc op of
          Some b \<Rightarrow> \<lparr>syncReads = {(scratch_interval alloc b, oid op)}, syncWrites = {(scratch_interval alloc b, oid op)}\<rparr>
        | None \<Rightarrow> (case op_info alloc funcInfo op of Some i \<Rightarrow> i | None \<Rightarrow> no_accesses))"

definition op_clears :: "allocation \<Rightarrow> mem_op \<Rightarrow> bool" where
  "op_clears alloc op \<longleftrightarrow> isBarrier op \<or> op_scratch alloc op \<noteq> None \<and> op_warpSync op = Some False"

definition op_ready :: "allocation \<Rightarrow> (nat \<Rightarrow> block_info) \<Rightarrow> mem_op \<Rightarrow> bool option \<Rightarrow> bool" where
  "op_ready alloc funcInfo op nb \<longleftrightarrow> isBarrier op \<or>
     (okind op = WaitKind \<longrightarrow> nb \<noteq> None) \<and> op_info alloc funcInfo op \<noteq> None \<and>
     (case op_scratch alloc op of
        None \<Rightarrow> True
      | Some b \<Rightarrow> op_warpSync op \<noteq> None \<and> op_info alloc funcInfo op = Some no_accesses \<and> b < length (bufferSet alloc))"

text \<open>A wait touches no buffer itself.\<close>

definition op_ok :: "allocation \<Rightarrow> mem_op \<Rightarrow> bool" where
  "op_ok alloc op \<longleftrightarrow> okind op = WaitKind \<longrightarrow> oeffects op = [] \<and> opBufferId alloc (oid op) = None"

lemma wait_info: "op_ok alloc op \<Longrightarrow> okind op = WaitKind \<Longrightarrow> op_info alloc funcInfo op = Some no_accesses \<and> op_scratch alloc op = None"
  by (simp add: op_ok_def op_info_def op_scratch_def effects_info_def effect_infos_def no_accesses_def)

lemma updateInfo_spec:
  assumes "op_ok alloc op"
  shows "updateInfo flt alloc funcInfo op nb info =
    (if \<not> op_ready alloc funcInfo op nb then None
     else if okind op = WaitKind \<and> nb = Some False then Some (no_accesses, BarrierAfter)
     else if isIntersected flt info (op_probe alloc funcInfo op) then Some (op_gen alloc funcInfo op, BarrierBefore)
     else Some (if op_clears alloc op then op_gen alloc funcInfo op else joinInfo info (op_gen alloc funcInfo op), NoBarrier))"
proof (cases "isBarrier op")
  case True
  then show ?thesis by (auto simp: updateInfo_def op_ready_def op_probe_def op_gen_def op_clears_def isBarrier_def)
next
  case b: False
  show ?thesis
  proof (cases "okind op = WaitKind")
    case True
    then show ?thesis using b wait_info [OF assms True, of funcInfo]
      by (auto simp: updateInfo_def op_ready_def op_probe_def op_gen_def op_clears_def op_info_def op_scratch_def split: option.splits)
  next
    case False
    have u: "updateInfo flt alloc funcInfo op nb info = do {
        cur \<leftarrow> op_info alloc funcInfo op;
        (case op_scratch alloc op of
           Some b \<Rightarrow> do {
             warpSync \<leftarrow> op_warpSync op;
             (if cur = no_accesses then Some () else None);
             i \<leftarrow> getAllocatedInterval alloc b;
             let cur1 = \<lparr>syncReads = {}, syncWrites = {(i, oid op)}\<rparr>;
             let insertBarrier = isIntersected flt info cur1;
             let info1 = (if insertBarrier \<or> \<not> warpSync then no_accesses else info);
             Some (joinInfo info1 \<lparr>syncReads = {(i, oid op)}, syncWrites = {(i, oid op)}\<rparr>,
                   if insertBarrier then BarrierBefore else NoBarrier)
           }
         | None \<Rightarrow> if isIntersected flt info cur then Some (joinInfo no_accesses cur, BarrierBefore)
             else Some (joinInfo info cur, NoBarrier))
      }"
      using b False
      by (cases "okind op"; cases "effects_info alloc op"; cases "opBufferId alloc (oid op)")
        (simp_all add: updateInfo_def op_info_def op_scratch_def op_warpSync_def)
    show ?thesis
    proof (cases "op_info alloc funcInfo op")
      case None
      then show ?thesis using b by (simp add: u op_ready_def)
    next
      case (Some cur)
      show ?thesis
      proof (cases "op_scratch alloc op")
        case None
        then show ?thesis using Some b False by (simp add: u op_ready_def op_probe_def op_gen_def op_clears_def)
      next
        case (Some s)
        have i: "getAllocatedInterval alloc s = (if s < length (bufferSet alloc) then Some (scratch_interval alloc s) else None)"
          by (simp add: scratch_interval_def getAllocatedInterval_def)
        show ?thesis using \<open>op_info alloc funcInfo op = Some cur\<close> Some b False
          by (cases "op_warpSync op") (auto simp: u op_ready_def op_probe_def op_gen_def op_clears_def i)
      qed
    qed
  qed
qed

interpretation membar: membar_transfer
  "updateInfo flt alloc funcInfo" "op_ok alloc" "op_ready alloc funcInfo" "\<lambda>op. okind op = WaitKind"
  "op_probe alloc funcInfo" "op_gen alloc funcInfo" "op_clears alloc" "isIntersected flt"
  for flt alloc funcInfo
proof (unfold_locales, goal_cases)
  case (1 op nb info)
  then show ?case by (rule updateInfo_spec)
next
  case (2 a p b)
  then show ?case by (rule isIntersected_mono)
next
  case (5 op)
  then show ?case using wait_info [OF 5] by (auto simp: op_probe_def op_gen_def op_clears_def isBarrier_def)
next
  case (6 op)
  then show ?case by (auto simp: op_ok_def op_probe_def op_gen_def op_clears_def isBarrier_def)
qed (auto simp: op_ready_def)

section \<open>The analysis of a function\<close>

text \<open>What the analysis expects of a function: the entries and all successors are virtual blocks, every
  virtual block ends in a terminator the analysis knows, and it can process every operation.\<close>

definition wf_segment :: "allocation \<Rightarrow> (nat \<Rightarrow> block_info) \<Rightarrow> vblock set \<Rightarrow> vblock \<Rightarrow> mem_op list \<Rightarrow> bool" where
  "wf_segment alloc funcInfo V v seg \<longleftrightarrow>
     seg \<noteq> [] \<and>
     list_all (\<lambda>op. oterm op = None \<and> op_ok alloc op \<and> op_ready alloc funcInfo op (Some True)) (butlast seg) \<and>
     op_ok alloc (last seg) \<and>
     (case oterm (last seg) of
        None \<Rightarrow> False
      | Some t \<Rightarrow> (case visitTerminator (fst v) (last seg) t of None \<Rightarrow> False | Some ss \<Rightarrow> set ss \<subseteq> V))"

definition wf_function :: "allocation \<Rightarrow> (nat \<Rightarrow> block_info) \<Rightarrow> (nat \<times> mem_op list) list \<Rightarrow> nat list \<Rightarrow> bool" where
  "wf_function alloc funcInfo blocks entries \<longleftrightarrow>
     (let vbs = virtualBlocks blocks; V = set (map fst vbs)
      in distinct (map fst vbs) \<and> list_all (\<lambda>b. (b, None) \<in> V) entries \<and>
         list_all (\<lambda>(v, seg). wf_segment alloc funcInfo V v seg) vbs)"

lemma wf_segment_facts:
  assumes "wf_segment alloc funcInfo V v seg"
  shows "\<forall>op \<in> set seg. op_ok alloc op" "membar_transfer.ready_seg (op_ready alloc funcInfo) seg"
    "\<exists>ss. succs_of (fst v) seg = Some ss \<and> set ss \<subseteq> V"
proof -
  obtain xs x where seg: "seg = xs @ [x]" using assms by (metis append_butlast_last_id wf_segment_def)
  obtain t ss where x: "oterm x = Some t" "visitTerminator (fst v) x t = Some ss" "set ss \<subseteq> V" "op_ok alloc x"
    using assms by (auto simp: wf_segment_def seg split: option.splits)
  have xs: "\<forall>op \<in> set xs. oterm op = None \<and> op_ok alloc op \<and> op_ready alloc funcInfo op (Some True)"
    using assms by (auto simp: wf_segment_def seg list_all_iff)
  have r: "op_ready alloc funcInfo op (Some True) \<longleftrightarrow> op_ready alloc funcInfo op (Some False)" for op
    by (simp add: op_ready_def)
  show "\<forall>op \<in> set seg. op_ok alloc op" using xs x by (auto simp: seg)
  show "membar_transfer.ready_seg (op_ready alloc funcInfo) seg"
    unfolding seg using xs x r by (induction xs) (auto simp: membar.ready_seg.simps)
  show "\<exists>ss. succs_of (fst v) seg = Some ss \<and> set ss \<subseteq> V"
    unfolding seg using xs x by (induction xs) auto
qed

definition finite_info :: "block_info \<Rightarrow> bool" where
  "finite_info i \<longleftrightarrow> finite (syncReads i) \<and> finite (syncWrites i)"

lemma finite_gen: "\<forall>f. finite_info (funcInfo f) \<Longrightarrow> finite_info (op_gen alloc funcInfo op)"
proof -
  assume f: "\<forall>f. finite_info (funcInfo f)"
  have e: "finite_info e" if "effects_info alloc op = Some e" for e
    using that by (auto simp: effects_info_def finite_info_def)
  have o: "finite_info i" if "op_info alloc funcInfo op = Some i" for i
    using that f e
    by (cases "okind op") (auto simp: op_info_def finite_info_def joinInfo_def all_memory_def no_accesses_def split: option.splits)
  show ?thesis
  proof (cases "isBarrier op \<or> op_scratch alloc op \<noteq> None")
    case True
    then show ?thesis by (auto simp: op_gen_def finite_info_def no_accesses_def split: option.splits)
  next
    case False
    then show ?thesis using o by (auto simp: op_gen_def finite_info_def no_accesses_def split: option.splits)
  qed
qed

text \<open>The union of what all operations leave behind.\<close>

definition all_infos :: "(mem_op \<Rightarrow> block_info) \<Rightarrow> mem_op list \<Rightarrow> block_info" where
  "all_infos f ops = \<lparr>syncReads = (\<Union>op \<in> set ops. syncReads (f op)), syncWrites = (\<Union>op \<in> set ops. syncWrites (f op))\<rparr>"

lemma all_infos_ge: "op \<in> set ops \<Longrightarrow> le_info (f op) (all_infos f ops)"
  by (auto simp: le_info_def all_infos_def)

text \<open>Two positions of a path conflict if the later one is checked against what the earlier one leaves.\<close>

definition separated :: "membar_filter \<Rightarrow> allocation \<Rightarrow> (nat \<Rightarrow> block_info) \<Rightarrow> mem_op list \<Rightarrow> bool" where
  "separated flt alloc funcInfo ops \<longleftrightarrow>
     (\<forall>p q. p < q \<longrightarrow> q < length ops \<longrightarrow>
        isIntersected flt (op_gen alloc funcInfo (ops ! p)) (op_probe alloc funcInfo (ops ! q)) \<longrightarrow>
        (\<exists>k. p < k \<and> k < q \<and> op_clears alloc (ops ! k)))"

lemma membar_loop_safe:
  assumes wf: "wf_function alloc funcInfo blocks entries" and fin: "\<forall>f. finite_info (funcInfo f)"
  shows "\<exists>st. membar_loop (updateInfo flt alloc funcInfo) (initial_state blocks entries) = Some st \<and>
    erased st = erased (initial_state blocks entries) \<and>
    (\<forall>b \<in> set entries. \<forall>vs. path st (b, None) vs \<longrightarrow> separated flt alloc funcInfo (path_ops st ((b, None) # vs)))"
proof -
  let ?vbs = "virtualBlocks blocks" and ?st = "initial_state blocks entries" and ?es = "map (\<lambda>b. (b, None)) entries"
  let ?V = "set (map fst ?vbs)" and ?gen = "op_gen alloc funcInfo"
  let ?U = "all_infos ?gen (concat (map snd ?vbs))"
  have d: "distinct (map fst ?vbs)" and es: "\<forall>b \<in> set entries. (b, None) \<in> ?V"
    and seg: "\<And>v s. (v, s) \<in> set ?vbs \<Longrightarrow> wf_segment alloc funcInfo ?V v s"
    using wf by (auto simp: wf_function_def Let_def list_all_iff)
  have c: "code ?st v = Some s \<longleftrightarrow> (v, s) \<in> set ?vbs" for v s using d by (simp add: initial_state_def)
  have I: "membar.inv alloc funcInfo flt ?es ?st"
    unfolding membar.inv_def
  proof (intro conjI allI impI)
    fix v s assume "code ?st v = Some s"
    then show "\<forall>op \<in> set s. op_ok alloc op" using wf_segment_facts(1) [OF seg] c by blast
  qed (simp_all add: initial_state_def)
  have B: "membar.bounded alloc funcInfo ?U ?V ?st"
    unfolding membar.bounded_def
  proof (intro conjI allI impI)
    show "dom (code ?st) = ?V" by (simp add: initial_state_def dom_map_of_conv_image_fst)
    show "set (blockList ?st) \<subseteq> ?V" using es by (auto simp: initial_state_def)
    fix v s assume "code ?st v = Some s"
    then have s: "(v, s) \<in> set ?vbs" using c by simp
    show "membar.ready_seg alloc funcInfo s" by (rule wf_segment_facts(2) [OF seg [OF s]])
    show "\<forall>op \<in> set s. le_info (?gen op) ?U" using s by (force intro!: all_infos_ge)
    show "\<exists>ss. succs_of (fst v) s = Some ss \<and> set ss \<subseteq> ?V" by (rule wf_segment_facts(3) [OF seg [OF s]])
  qed (simp_all add: initial_state_def)
  have "finite ?V" "finite (syncReads ?U)" "finite (syncWrites ?U)"
    using finite_gen [OF fin] by (auto simp: all_infos_def finite_info_def)
  then obtain st where st: "membar_loop (updateInfo flt alloc funcInfo) ?st = Some st" "membar.inv alloc funcInfo flt ?es st" "blockList st = []"
    "erased st = erased ?st"
    using membar.loop_total [OF I B] by blast
  have "separated flt alloc funcInfo (path_ops st ((b, None) # vs))" if b: "b \<in> set entries" and p: "path st (b, None) vs" for b vs
    unfolding separated_def
  proof (intro allI impI)
    fix p q assume pq: "p < q" "q < length (path_ops st ((b, None) # vs))"
      "isIntersected flt (?gen (path_ops st ((b, None) # vs) ! p)) (op_probe alloc funcInfo (path_ops st ((b, None) # vs) ! q))"
    have o: "outputs st (b, None) \<noteq> None" using membar.inv_entries [OF st(2)] b st(3) by auto
    have "membar.clean alloc funcInfo flt no_accesses (path_ops st ((b, None) # vs))"
      by (rule membar.path_clean [OF st(2,3) p o]) simp
    moreover have "\<forall>op \<in> set (path_ops st ((b, None) # vs)). oterm op = None"
      using membar.body_plain by (auto simp: path_ops_def)
    ultimately show "\<exists>k. p < k \<and> k < q \<and> op_clears alloc (path_ops st ((b, None) # vs) ! k)"
      by (rule membar.clean_separated [OF _ _ pq])
  qed
  then show ?thesis using st(1,4) by blast
qed

end
