(* ===== verification/MembarProps.thy ===== *)
theory MembarProps
  imports MembarSafety
begin

text \<open>The property of the barrier placement, with an instance.\<close>

section \<open>Barriers\<close>

text \<open>
  C1: for a function whose virtual blocks are well formed (each ends at its only terminator, whose
  successors exist) the fixed-point loop of the analysis terminates; it inserts barriers and changes
  nothing else; and on every path through the transformed function from its entry, two accesses that
  conflict are separated by a barrier or by an operation that synchronises by itself.
\<close>

theorem membar_safe:
  assumes "wf_function alloc funcInfo blocks entries" and "\<forall>f. finite_info (funcInfo f)"
  shows "\<exists>st. membar_loop (updateInfo flt alloc funcInfo) (initial_state blocks entries) = Some st \<and>
    erased st = erased (initial_state blocks entries) \<and>
    (\<forall>b \<in> set entries. \<forall>vs. path st (b, None) vs \<longrightarrow> separated flt alloc funcInfo (path_ops st ((b, None) # vs)))"
  by (rule membar_loop_safe [OF assms])

definition store_op :: "nat \<Rightarrow> mem_op" where
  "store_op v = \<lparr>oid = v, okind = OtherKind, oeffects = [(MemWrite, v)], oterm = None\<rparr>"

definition load_op :: "nat \<Rightarrow> mem_op" where
  "load_op v = \<lparr>oid = 10 + v, okind = OtherKind, oeffects = [(MemRead, v)], oterm = None\<rparr>"

definition loop_op :: "nat list \<Rightarrow> mem_op" where
  "loop_op bs = \<lparr>oid = 20, okind = OtherKind, oeffects = [], oterm = Some (if bs = [] then ReturnLike True else BranchTerm bs)\<rparr>"

definition one_buffer :: allocation where
  "one_buffer = \<lparr>bufferSet = [\<lparr>bkind = Explicit, bowner = 0, bsize = 64, balign = 16, boffset = 0\<rparr>],
     valueBuffer = [(0, 0)], opScratch = [], opVirtual = [], aliasBuffer = [], sharedMemorySize = 64\<rparr>"

definition sample_blocks :: "(nat \<times> mem_op list) list" where
  "sample_blocks = [(0, [store_op 0, loop_op [1]]), (1, [load_op 0, loop_op [0, 2]]), (2, [loop_op []])]"

theorem membar_safe_witness:
  "\<exists>st. membar_loop (updateInfo (\<lambda>_ _. False) one_buffer (\<lambda>_. no_accesses)) (initial_state sample_blocks [0]) = Some st \<and>
     separated (\<lambda>_ _. False) one_buffer (\<lambda>_. no_accesses) (path_ops st [(0, None)])"
proof -
  have w: "wf_function one_buffer (\<lambda>_. no_accesses) sample_blocks [0]" by code_simp
  have f: "\<forall>f :: nat. finite_info no_accesses" by (simp add: finite_info_def no_accesses_def)
  show ?thesis using membar_safe [OF w f, of "\<lambda>_ _. False"] by fastforce
qed

end
