(* ===== verification/CoarseSchedule.thy ===== *)
theory CoarseSchedule
  imports Prelude "HOL-Library.AList" "HOL-Library.Monad_Syntax"
begin

text \<open>
  The coarse schedule of a loop, \<open>include/triton/Dialect/TritonGPU/Transforms/Schedule.h\<close> and
  \<open>lib/Dialect/TritonGPU/Transforms/Pipeliner/Schedule.cpp\<close>: a list of clusters, and the stage and cluster of
  operations. The operations of the loop body, without its terminator, are numbered in program order from 0;
  other operations have larger numbers. None is a stopped compiler or undefined behaviour.
\<close>

section \<open>The list of clusters\<close>

text \<open>A \<open>std::list\<close> of ids: an iterator is the node it points to, which keeps its name when others are inserted.\<close>

type_synonym cluster = nat

record cluster_list =
  orderClusters :: "(cluster \<times> int) list"
  freshNode :: cluster

definition no_clusters :: cluster_list where
  "no_clusters = \<lparr>orderClusters = [], freshNode = 0\<rparr>"

abbreviation bump :: "(cluster \<times> int) list \<Rightarrow> (cluster \<times> int) list" where
  "bump \<equiv> map (\<lambda>(c, i). (c, i + 1))"

definition newAtBack :: "cluster_list \<Rightarrow> cluster \<times> cluster_list" where
  "newAtBack cl = (freshNode cl,
     \<lparr>orderClusters = orderClusters cl @ [(freshNode cl, int (length (orderClusters cl)))], freshNode = freshNode cl + 1\<rparr>)"

definition newAtFront :: "cluster_list \<Rightarrow> cluster \<times> cluster_list" where
  "newAtFront cl = (freshNode cl,
     \<lparr>orderClusters = bump ((freshNode cl, -1) # orderClusters cl), freshNode = freshNode cl + 1\<rparr>)"

definition clusterId :: "cluster_list \<Rightarrow> cluster \<Rightarrow> int option" where
  "clusterId cl c = map_of (orderClusters cl) c"

definition newBefore :: "cluster \<Rightarrow> cluster_list \<Rightarrow> (cluster \<times> cluster_list) option" where
  "newBefore c cl = do {
     i \<leftarrow> clusterId cl c;
     let before = takeWhile (\<lambda>(n, _). n \<noteq> c) (orderClusters cl);
     let rest = dropWhile (\<lambda>(n, _). n \<noteq> c) (orderClusters cl);
     Some (freshNode cl, \<lparr>orderClusters = before @ (freshNode cl, i) # bump rest, freshNode = freshNode cl + 1\<rparr>)
   }"

fun first_of :: "(cluster \<times> int) list \<Rightarrow> cluster \<Rightarrow> cluster \<Rightarrow> bool option" where
  "first_of [] a b = None"
| "first_of ((n, _) # cs) a b = (if n = a then Some True else if n = b then Some False else first_of cs a b)"

definition isBefore :: "cluster_list \<Rightarrow> cluster \<Rightarrow> cluster \<Rightarrow> bool option" where
  "isBefore cl a b = (if a = b then Some False else first_of (orderClusters cl) a b)"

section \<open>The loop\<close>

text \<open>A value is the result of an operation or an argument of a block, with its number; argument 0 of the body
  is the induction variable.\<close>

datatype loop_value = OpResult nat | BlockArg nat nat

text \<open>A user of a result: an operation of the body, one nested inside an operation of the body, or another one
  (the terminator among them).\<close>

datatype loop_user = DirectUser nat | NestedUser nat | OtherUser

text \<open>An operation: its block, the operands of itself and of the operations inside it that are defined outside of
  it, its users, and what the scheduler asks about it.\<close>

record loop_op =
  opBlock :: nat
  opOperands :: "loop_value list"
  opUsers :: "loop_user list"
  isIfOp :: bool
  isLoadOp :: bool
  isLoopOp :: bool
  hasBarrier :: bool
  isLatencyKind :: bool

text \<open>The operations of the body come first and are in block 0; the others are the operations around the loop. A
  block has the operands of its terminator: those of block 0 are the values the loop yields. The slices of an
  operation are computed by MLIR.\<close>

record loop =
  allOps :: "loop_op list"
  bodySize :: nat
  terminators :: "loop_value list list"
  warpSpecialized :: bool
  forwardSlice :: "nat \<Rightarrow> nat list"
  backwardIfs :: "nat \<Rightarrow> nat list"

abbreviation bodyOps :: "loop \<Rightarrow> nat list" where
  "bodyOps l \<equiv> [0..<bodySize l]"

definition terminatorOperand :: "loop \<Rightarrow> nat \<Rightarrow> nat \<Rightarrow> loop_value option" where
  "terminatorOperand l b i =
     (if b < length (terminators l) \<and> i < length (terminators l ! b) then Some (terminators l ! b ! i) else None)"

section \<open>The schedule\<close>

record coarse_schedule =
  clusters :: cluster_list
  opToStageAndCluster :: "(nat \<times> int \<times> cluster option) list"
  numStages :: int

definition new_schedule :: "int \<Rightarrow> coarse_schedule" where
  "new_schedule n = \<lparr>clusters = no_clusters, opToStageAndCluster = [], numStages = n\<rparr>"

definition place :: "coarse_schedule \<Rightarrow> nat \<Rightarrow> (int \<times> cluster option) option" where
  "place s op = map_of (opToStageAndCluster s) op"

text \<open>Reading with \<open>operator[]\<close> adds an absent operation at stage 0 without a cluster.\<close>

definition touch :: "nat \<Rightarrow> coarse_schedule \<Rightarrow> (int \<times> cluster option) \<times> coarse_schedule" where
  "touch op s =
     (case place s op of
        Some p \<Rightarrow> (p, s)
      | None \<Rightarrow> ((0, None), s\<lparr>opToStageAndCluster := AList.update op (0, None) (opToStageAndCluster s)\<rparr>))"

definition assign :: "nat \<Rightarrow> int \<Rightarrow> cluster option \<Rightarrow> coarse_schedule \<Rightarrow> coarse_schedule" where
  "assign op stage c s = s\<lparr>opToStageAndCluster := AList.update op (stage, c) (opToStageAndCluster s)\<rparr>"

definition insert_op :: "nat \<Rightarrow> int \<Rightarrow> cluster option \<Rightarrow> coarse_schedule \<Rightarrow> coarse_schedule" where
  "insert_op op stage c s =
     assign op stage c (if stage \<ge> numStages s then s\<lparr>numStages := stage + 1\<rparr> else s)"

definition insertIfAbsent :: "nat \<Rightarrow> int \<Rightarrow> cluster \<Rightarrow> coarse_schedule \<Rightarrow> bool \<times> coarse_schedule" where
  "insertIfAbsent op stage c s =
     (if place s op \<noteq> None then (False, s) else (True, insert_op op stage (Some c) s))"

definition insertMinimum :: "nat \<Rightarrow> int \<Rightarrow> cluster \<Rightarrow> coarse_schedule \<Rightarrow> (bool \<times> coarse_schedule) option" where
  "insertMinimum op stage c s =
     (case place s op of
        None \<Rightarrow> Some (True, assign op stage (Some c) s)
      | Some (existingStage, existingCluster) \<Rightarrow>
          if stage < existingStage then Some (True, assign op stage (Some c) s)
          else if stage > existingStage then Some (False, s)
          else (case dropWhile (\<lambda>n. n \<noteq> c) (map fst (orderClusters (clusters s))) of
              [] \<Rightarrow> None
            | _ # later \<Rightarrow>
                if existingCluster \<in> Some ` set later
                then if existingCluster = Some c then Some (False, s) else Some (True, assign op existingStage (Some c) s)
                else Some (False, s)))"

definition erase_op :: "nat \<Rightarrow> coarse_schedule \<Rightarrow> coarse_schedule" where
  "erase_op op s = s\<lparr>opToStageAndCluster := AList.delete op (opToStageAndCluster s)\<rparr>"

section \<open>Dependencies\<close>

text \<open>Through an argument of the block, to the operand of its terminator, unless it was seen already.\<close>

function resolve :: "loop \<Rightarrow> nat \<Rightarrow> bool \<Rightarrow> nat set \<Rightarrow> loop_value \<Rightarrow> loop_value option" where
  "resolve l block includeArg seen (BlockArg b n) =
     (if \<not> includeArg \<or> b \<noteq> block \<or> n \<in> seen \<or> n = 0 then Some (BlockArg b n)
      else case terminatorOperand l b (n - 1) of
        None \<Rightarrow> None
      | Some v \<Rightarrow> resolve l block includeArg (insert n seen) v)"
| "resolve l block includeArg seen (OpResult d) = Some (OpResult d)"
  by pat_completeness auto
termination
proof (relation "measure (\<lambda>(l, block, _, seen, _). card ({..length (terminators l ! block)} - seen))", goal_cases)
  case (2 l block includeArg seen b n v)
  then have "n \<le> length (terminators l ! block)" by (auto simp: terminatorOperand_def split: if_splits)
  then have "{..length (terminators l ! block)} - insert n seen \<subset> {..length (terminators l ! block)} - seen" using 2 by auto
  then have "card ({..length (terminators l ! block)} - insert n seen) < card ({..length (terminators l ! block)} - seen)"
    by (intro psubset_card_mono) auto
  then show ?case by simp
qed simp

definition tryInsert :: "bool \<Rightarrow> nat \<Rightarrow> int \<Rightarrow> cluster \<Rightarrow> coarse_schedule \<Rightarrow> (bool \<times> coarse_schedule) option" where
  "tryInsert insertIfEarlier op stage c s =
     (if \<not> insertIfEarlier then Some (insertIfAbsent op stage c s) else insertMinimum op stage c s)"

text \<open>The operands still to visit; the recursion on an inserted operation comes before the next operand.\<close>

partial_function (option) insert_deps ::
  "loop \<Rightarrow> nat \<Rightarrow> int \<Rightarrow> cluster \<Rightarrow> bool \<Rightarrow> bool \<Rightarrow> loop_value list \<Rightarrow> coarse_schedule \<Rightarrow> (bool \<times> coarse_schedule) option" where [code]:
  "insert_deps l block stage c includeArg insertIfEarlier vs s =
     (case vs of
        [] \<Rightarrow> Some (False, s)
      | v # vs' \<Rightarrow> Option.bind (resolve l block includeArg {} v) (\<lambda>r.
          case r of
            OpResult d \<Rightarrow>
              if opBlock (allOps l ! d) = block
              then Option.bind (tryInsert insertIfEarlier d stage c s) (\<lambda>(ok, s1).
                if ok
                then Option.bind (insert_deps l block stage c includeArg insertIfEarlier (opOperands (allOps l ! d)) s1) (\<lambda>(_, s2).
                     Option.bind (insert_deps l block stage c includeArg insertIfEarlier vs' s2) (\<lambda>(_, s3). Some (True, s3)))
                else insert_deps l block stage c includeArg insertIfEarlier vs' s1)
              else insert_deps l block stage c includeArg insertIfEarlier vs' s
          | BlockArg _ _ \<Rightarrow> insert_deps l block stage c includeArg insertIfEarlier vs' s))"

definition insertDepsOfOp ::
  "loop \<Rightarrow> nat \<Rightarrow> int \<Rightarrow> cluster \<Rightarrow> bool \<Rightarrow> bool \<Rightarrow> coarse_schedule \<Rightarrow> (bool \<times> coarse_schedule) option" where
  "insertDepsOfOp l op stage c includeArg insertIfEarlier s =
     insert_deps l (opBlock (allOps l ! op)) stage c includeArg insertIfEarlier (opOperands (allOps l ! op)) s"

text \<open>The smallest stage becomes 0; an empty schedule overflows.\<close>

definition shrinkToFit :: "coarse_schedule \<Rightarrow> coarse_schedule option" where
  "shrinkToFit s =
     (case map (\<lambda>(_, stage, _). stage) (opToStageAndCluster s) of
        [] \<Rightarrow> None
      | x # xs \<Rightarrow>
          (let minStage = fold min xs x; maxStage = fold max xs x
           in Some (s\<lparr>opToStageAndCluster := map (\<lambda>(op, stage, c). (op, stage - minStage, c)) (opToStageAndCluster s),
                     numStages := maxStage - minStage + 1\<rparr>)))"

section \<open>Order\<close>

text \<open>The operations of a cluster before the given one move to a new cluster.\<close>

fun split_before ::
  "nat \<Rightarrow> cluster option \<Rightarrow> cluster option \<Rightarrow> nat list \<Rightarrow> coarse_schedule \<Rightarrow> coarse_schedule option" where
  "split_before op cluster newCluster [] s = Some s"
| "split_before op cluster newCluster (o' # ops) s =
     (if o' = op then Some s
      else let (p, s1) = touch o' s
        in if snd p = cluster
           then case newCluster of
               Some n \<Rightarrow> split_before op cluster newCluster ops (assign o' (fst p) (Some n) s1)
             | None \<Rightarrow> do {
                 c \<leftarrow> cluster;
                 (n, cl) \<leftarrow> newBefore c (clusters s1);
                 split_before op cluster (Some n) ops (assign o' (fst p) (Some n) (s1\<lparr>clusters := cl\<rparr>))
               }
           else split_before op cluster newCluster ops s1)"

definition splitClusterBefore :: "loop \<Rightarrow> nat \<Rightarrow> coarse_schedule \<Rightarrow> (cluster option \<times> coarse_schedule) option" where
  "splitClusterBefore l op s = (let (p, s1) = touch op s in do {
     s2 \<leftarrow> split_before op (snd p) None (bodyOps l) s1;
     Some (snd p, s2)
   })"

definition isOpBefore :: "coarse_schedule \<Rightarrow> nat \<Rightarrow> nat \<Rightarrow> bool option" where
  "isOpBefore s a b = do {
     (aStage, aCluster) \<leftarrow> place s a;
     (bStage, bCluster) \<leftarrow> place s b;
     if aStage \<noteq> bStage then Some (aStage < bStage)
     else if aCluster \<noteq> bCluster
     then (case (aCluster, bCluster) of (Some ca, Some cb) \<Rightarrow> isBefore (clusters s) ca cb | _ \<Rightarrow> None)
     else Some (a < b)
   }"

definition isOpInEarlierCluster :: "coarse_schedule \<Rightarrow> nat \<Rightarrow> nat \<Rightarrow> bool option" where
  "isOpInEarlierCluster s a b = do {
     (_, aCluster) \<leftarrow> place s a;
     (_, bCluster) \<leftarrow> place s b;
     if aCluster = bCluster then Some False
     else (case (aCluster, bCluster) of (Some ca, Some cb) \<Rightarrow> isBefore (clusters s) ca cb | _ \<Rightarrow> None)
   }"

definition isOpInSameCluster :: "coarse_schedule \<Rightarrow> nat \<Rightarrow> nat \<Rightarrow> bool option" where
  "isOpInSameCluster s a b = do {
     (_, aCluster) \<leftarrow> place s a;
     (_, bCluster) \<leftarrow> place s b;
     Some (aCluster = bCluster)
   }"

text \<open>The entry of an operation with the checks of its cluster, stage and id, and the position of its cluster.\<close>

definition checked_place :: "coarse_schedule \<Rightarrow> nat \<Rightarrow> (nat \<times> int \<times> cluster) option option" where
  "checked_place s op =
     (case place s op of
        None \<Rightarrow> Some None
      | Some (stage, cluster) \<Rightarrow> do {
          c \<leftarrow> cluster;
          (if stage < numStages s then Some () else None);
          i \<leftarrow> clusterId (clusters s) c;
          (if i = int (length (takeWhile (\<lambda>n. n \<noteq> c) (map fst (orderClusters (clusters s))))) then Some () else None);
          Some (Some (nat i, stage, c))
        })"

definition getOpsInOrder :: "loop \<Rightarrow> coarse_schedule \<Rightarrow> (nat \<times> int \<times> cluster) list option" where
  "getOpsInOrder l s = do {
     ps \<leftarrow> those (map (\<lambda>op. map_option (map_option (\<lambda>p. (op, p))) (checked_place s op)) (bodyOps l));
     let found = map the (filter (\<lambda>p. p \<noteq> None) ps);
     Some (concat (map (\<lambda>i. map (\<lambda>(op, _, stage, c). (op, stage, c)) (filter (\<lambda>(_, j, _). j = i) found))
       [0..<length (orderClusters (clusters s))]))
   }"

definition createFinalSchedule :: "loop \<Rightarrow> coarse_schedule \<Rightarrow> (nat \<times> int) list option" where
  "createFinalSchedule l s =
     map_option (map (\<lambda>(op, stage, _). (op, stage mod 2 ^ 32))) (getOpsInOrder l s)"

section \<open>The schedule in attributes\<close>

text \<open>The attributes for stage and cluster of every operation, and the one of the loop for the last stage.\<close>

record loop_attrs =
  stageAttr :: "nat \<Rightarrow> int option"
  clusterAttr :: "nat \<Rightarrow> int option"
  maxStageAttr :: "int option"

definition setStageCluster :: "nat \<Rightarrow> int \<Rightarrow> int \<Rightarrow> loop_attrs \<Rightarrow> loop_attrs" where
  "setStageCluster op stage c at = at\<lparr>stageAttr := (stageAttr at)(op \<mapsto> stage), clusterAttr := (clusterAttr at)(op \<mapsto> c)\<rparr>"

definition getStageCluster :: "loop_attrs \<Rightarrow> nat \<Rightarrow> (int \<times> int) option" where
  "getStageCluster at op = do { stage \<leftarrow> stageAttr at op; c \<leftarrow> clusterAttr at op; Some (stage, c) }"

definition getMinMaxCluster :: "loop \<Rightarrow> loop_attrs \<Rightarrow> int \<times> int" where
  "getMinMaxCluster l at =
     fold (\<lambda>op (lo, hi).
         case getStageCluster at op of
           None \<Rightarrow> (lo, hi)
         | Some (_, c) \<Rightarrow> if hi < 0 then (c, c) else (min lo c, max hi c))
       (bodyOps l) (-1, -1)"

definition serialize :: "loop \<Rightarrow> coarse_schedule \<Rightarrow> loop_attrs \<Rightarrow> loop_attrs option" where
  "serialize l s at = do {
     ops \<leftarrow> getOpsInOrder l s;
     at' \<leftarrow> fold (\<lambda>(op, stage, c) acc. Option.bind acc (\<lambda>a. Option.bind (clusterId (clusters s) c) (\<lambda>i.
         Some (setStageCluster op stage i a)))) ops (Some at);
     let maxStages = numStages s - 1;
     Some (at'\<lparr>maxStageAttr := Some (case maxStageAttr at of None \<Rightarrow> maxStages | Some m \<Rightarrow> max maxStages m)\<rparr>)
   }"

text \<open>The failure is an inner None. The new clusters have the ids from the smallest to the largest attribute.\<close>

fun new_clusters :: "nat \<Rightarrow> cluster_list \<Rightarrow> cluster list \<times> cluster_list" where
  "new_clusters 0 cl = ([], cl)"
| "new_clusters (Suc n) cl = (let (c, cl1) = newAtBack cl; (cs, cl2) = new_clusters n cl1 in (c # cs, cl2))"

definition deSerialize :: "loop \<Rightarrow> loop_attrs \<Rightarrow> coarse_schedule \<Rightarrow> coarse_schedule option option" where
  "deSerialize l at s =
     (let (lo, hi) = getMinMaxCluster l at in
      case maxStageAttr at of
        None \<Rightarrow> Some None
      | Some m \<Rightarrow>
          (let (cs, cl) = new_clusters (nat (hi + 1 - lo)) (clusters s);
               cluster = (\<lambda>i. if lo \<le> i \<and> i \<le> hi then Some (cs ! nat (i - lo)) else None)
           in map_option Some (fold (\<lambda>op acc. Option.bind acc (\<lambda>s.
                if stageAttr at op = None then Some s
                else map_option (\<lambda>(stage, i). insert_op op stage (cluster i) s) (getStageCluster at op)))
              (bodyOps l) (Some (s\<lparr>clusters := cl, numStages := m + 1\<rparr>)))))"

text \<open>Stage by stage, the dependencies of every scheduled operation at its own stage and cluster.\<close>

definition schedule_deps :: "loop \<Rightarrow> (nat \<times> int \<times> cluster) list \<Rightarrow> coarse_schedule \<Rightarrow> coarse_schedule option" where
  "schedule_deps l ops s =
     fold (\<lambda>(op, stage, c) acc. Option.bind acc (\<lambda>s. map_option snd (insertDepsOfOp l op stage c False True s))) ops (Some s)"

definition scheduleDependencies :: "loop \<Rightarrow> coarse_schedule \<Rightarrow> coarse_schedule option" where
  "scheduleDependencies l s = do {
     ops \<leftarrow> getOpsInOrder l s;
     schedule_deps l (concat (map (\<lambda>stage. filter (\<lambda>(_, st, _). st = int stage) ops) [0..<nat (numStages s)])) s
   }"

end
