(* ===== verification/ScheduleLoops.thy ===== *)
theory ScheduleLoops
  imports CoarseSchedule
begin

text \<open>
  The schedule of a loop, \<open>lib/Dialect/TritonGPU/Transforms/Pipeliner/ScheduleLoops.cpp\<close>: an initial schedule
  from the latencies or from attributes, the if operations at the ends of the loop, dependencies, dependencies
  of the next iteration, and everything else in the last stage. The maps from operations of the code have no
  order; they are visited in program order here.
\<close>

type_synonym latencies = "nat \<Rightarrow> int option"

definition isIf :: "loop \<Rightarrow> nat \<Rightarrow> bool" where
  "isIf l op \<longleftrightarrow> op < length (allOps l) \<and> isIfOp (allOps l ! op)"

section \<open>Which loops are pipelined\<close>

definition loopHasDistGreaterThanOne :: "loop \<Rightarrow> bool" where
  "loopHasDistGreaterThanOne l = list_ex (\<lambda>v. case v of BlockArg _ _ \<Rightarrow> True | OpResult _ \<Rightarrow> False) (terminators l ! 0)"

definition isOuterLoop :: "loop \<Rightarrow> bool" where
  "isOuterLoop l = list_ex (\<lambda>op. isLoopOp (allOps l ! op)) (bodyOps l)"

definition hasGpuBarriers :: "loop \<Rightarrow> bool" where
  "hasGpuBarriers l = list_ex (\<lambda>op. hasBarrier (allOps l ! op)) (bodyOps l)"

definition isSafeToPipeline :: "loop \<Rightarrow> bool" where
  "isSafeToPipeline l \<longleftrightarrow> \<not> loopHasDistGreaterThanOne l \<and> \<not> isOuterLoop l \<and> \<not> hasGpuBarriers l"

definition hasLatenciesAssigned :: "loop \<Rightarrow> latencies \<Rightarrow> bool" where
  "hasLatenciesAssigned l lat = list_ex (\<lambda>op. lat op \<noteq> None) (bodyOps l)"

section \<open>Key operations\<close>

text \<open>The operation of the body that is or holds a user.\<close>

fun body_user :: "loop_user \<Rightarrow> nat option" where
  "body_user (DirectUser i) = Some i"
| "body_user (NestedUser i) = Some i"
| "body_user OtherUser = None"

text \<open>The largest distance of the users, -1 when there are none, with the distances found so far.\<close>

partial_function (option) users_distance ::
  "loop \<Rightarrow> latencies \<Rightarrow> loop_user list \<Rightarrow> int \<Rightarrow> (nat \<Rightarrow> int option) \<Rightarrow> (int \<times> (nat \<Rightarrow> int option)) option" where [code]:
  "users_distance l lat us maxDist distance =
     (case us of
        [] \<Rightarrow> Some (maxDist, distance)
      | u # us' \<Rightarrow>
          (case body_user u of
             None \<Rightarrow> users_distance l lat us' maxDist distance
           | Some i \<Rightarrow>
               (case distance i of
                  Some d \<Rightarrow> users_distance l lat us' (max maxDist d) distance
                | None \<Rightarrow>
                    Option.bind (users_distance l lat (opUsers (allOps l ! i)) (-1) distance) (\<lambda>(m, distance1).
                      let d = (case lat i of Some k \<Rightarrow> k | None \<Rightarrow> 0) + (if m < 0 then 0 else m)
                      in users_distance l lat us' (max maxDist d) (distance1(i \<mapsto> d))))))"

definition computeDistance ::
  "loop \<Rightarrow> latencies \<Rightarrow> nat \<Rightarrow> (nat \<Rightarrow> int option) \<Rightarrow> (int \<times> (nat \<Rightarrow> int option)) option" where
  "computeDistance l lat op distance =
     (case distance op of
        Some d \<Rightarrow> Some (d, distance)
      | None \<Rightarrow> do {
          (m, distance1) \<leftarrow> users_distance l lat (opUsers (allOps l ! op)) (-1) distance;
          let d = (case lat op of Some k \<Rightarrow> k | None \<Rightarrow> 0) + (if m < 0 then 0 else m);
          Some (d, distance1(op \<mapsto> d))
        })"

definition all_distances :: "loop \<Rightarrow> latencies \<Rightarrow> (int \<times> (nat \<Rightarrow> int option)) option" where
  "all_distances l lat =
     fold (\<lambda>op acc. Option.bind acc (\<lambda>(maxDistance, distance).
         map_option (\<lambda>(d, distance'). (max maxDistance d, distance')) (computeDistance l lat op distance)))
       (filter (\<lambda>op. lat op \<noteq> None) (bodyOps l)) (Some (0, \<lambda>_. None))"

definition key_stages :: "loop \<Rightarrow> latencies \<Rightarrow> (nat \<times> int) list option" where
  "key_stages l lat = do {
     (maxDistance, distance) \<leftarrow> all_distances l lat;
     Some (concat (map (\<lambda>op. case distance op of
         Some d \<Rightarrow> if d \<ge> 0 then [(op, maxDistance - d)] else [] | None \<Rightarrow> []) (bodyOps l)))
   }"

text \<open>An if operation moves to the last cluster unless it has a latency or a scheduled operation depends on it.\<close>

definition to_epilogue :: "loop \<Rightarrow> latencies \<Rightarrow> (nat \<times> int) list \<Rightarrow> nat \<Rightarrow> bool" where
  "to_epilogue l lat opToStage op \<longleftrightarrow> isIf l op \<and> lat op = None \<and>
     \<not> list_ex (\<lambda>o'. o' \<in> fst ` set opToStage) (forwardSlice l op)"

definition key_clusters :: "int \<Rightarrow> (nat \<times> int) list \<Rightarrow> coarse_schedule \<Rightarrow> cluster list \<Rightarrow> coarse_schedule" where
  "key_clusters maxStage opToStage s cs =
     fold (\<lambda>(op, stage) s. insert_op op stage (Some (cs ! nat (maxStage - stage))) s) opToStage s"

definition scheduleKeyOps :: "loop \<Rightarrow> latencies \<Rightarrow> coarse_schedule option" where
  "scheduleKeyOps l lat =
     (if \<not> hasLatenciesAssigned l lat then Some (new_schedule 0)
      else do {
        opToStage \<leftarrow> key_stages l lat;
        (case map snd opToStage of
           [] \<Rightarrow> None
         | x # xs \<Rightarrow>
             (let maxStage = fold max xs x;
                  (cs, cl) = new_clusters (nat (maxStage + 1)) no_clusters;
                  s1 = key_clusters maxStage opToStage ((new_schedule (maxStage + 1))\<lparr>clusters := cl\<rparr>) cs;
                  (epilogue, cl2) = newAtBack (clusters s1)
              in Some (fold (\<lambda>(op, stage) s. if to_epilogue l lat opToStage op then insert_op op stage (Some epilogue) s else s)
                   opToStage (s1\<lparr>clusters := cl2\<rparr>))))
      })"

section \<open>The initial schedule\<close>

definition isLatencyOp :: "loop \<Rightarrow> latencies \<Rightarrow> nat \<Rightarrow> bool" where
  "isLatencyOp l lat op \<longleftrightarrow> lat op \<noteq> None \<or> isLatencyKind (allOps l ! op)"

definition getInitialSchedule :: "loop \<Rightarrow> latencies \<Rightarrow> loop_attrs \<Rightarrow> coarse_schedule option" where
  "getInitialSchedule l lat at =
     (if \<not> isSafeToPipeline l then Some (new_schedule 0)
      else if hasLatenciesAssigned l lat then scheduleKeyOps l lat
      else if warpSpecialized l
      then Option.bind (deSerialize l at (new_schedule 0)) (\<lambda>r.
        case r of
          None \<Rightarrow> Some (new_schedule 0)
        | Some s \<Rightarrow>
            let latencyStages = List.map_filter (\<lambda>op. map_option fst (place s op)) (filter (isLatencyOp l lat) (bodyOps l))
            in if card (set latencyStages) \<le> 1
               then (let (c, cl) = newAtFront no_clusters
                     in Some (fold (\<lambda>op s. insert_op op 0 (Some c) s) (bodyOps l) ((new_schedule 1)\<lparr>clusters := cl\<rparr>)))
               else shrinkToFit s)
      else Some (new_schedule 0))"

section \<open>The ends of the loop\<close>

definition ifs_to_stage :: "loop \<Rightarrow> coarse_schedule \<Rightarrow> (nat \<times> int) list option" where
  "ifs_to_stage l s = do {
     ops \<leftarrow> getOpsInOrder l s;
     Some (fold (\<lambda>(ifOp, stage) m. if map_of m ifOp = None then m @ [(ifOp, stage)] else m)
       (concat (map (\<lambda>stage. concat (map (\<lambda>(op, st, _). if st = int stage then map (\<lambda>i. (i, st)) (backwardIfs l op) else []) ops))
          [0..<nat (numStages s)])) [])
   }"

definition schedulePrologueAndEpilogue :: "loop \<Rightarrow> coarse_schedule \<Rightarrow> (cluster \<times> coarse_schedule) option" where
  "schedulePrologueAndEpilogue l s =
     (case orderClusters (clusters s) of
        [] \<Rightarrow> None
      | (afterPrologue, _) # _ \<Rightarrow> do {
          ifs \<leftarrow> ifs_to_stage l s;
          let s1 = (if ifs = [] then s
                    else (let (prologue, cl) = newAtFront (clusters s)
                          in fold (\<lambda>(ifOp, stage) s. snd (insertIfAbsent ifOp stage prologue s)) ifs (s\<lparr>clusters := cl\<rparr>)));
          let (epilogue, cl2) = newAtBack (clusters s1);
          Some (afterPrologue, fold (\<lambda>op s'.
              if isIf l op \<and> map_of ifs op = None then snd (insertIfAbsent op (numStages s - 1) epilogue s') else s')
            (bodyOps l) (s1\<lparr>clusters := cl2\<rparr>))
        })"

section \<open>Dependencies of the next iteration\<close>

type_synonym dist_state = "coarse_schedule \<times> (cluster \<Rightarrow> cluster option)"

definition dist_cluster :: "cluster \<Rightarrow> dist_state \<Rightarrow> (cluster \<times> dist_state) option" where
  "dist_cluster c d =
     (case snd d c of
        Some n \<Rightarrow> Some (n, d)
      | None \<Rightarrow> do {
          (n, cl) \<leftarrow> newBefore c (clusters (fst d));
          Some (n, ((fst d)\<lparr>clusters := cl\<rparr>, (snd d)(c \<mapsto> n)))
        })"

definition schedule_dist_def :: "loop \<Rightarrow> int \<Rightarrow> cluster \<Rightarrow> nat \<Rightarrow> dist_state \<Rightarrow> dist_state option" where
  "schedule_dist_def l stage c defOp d =
     (if place (fst d) defOp \<noteq> None then Some d
      else if isLoadOp (allOps l ! defOp)
      then map_option (\<lambda>(_, s). (s, snd d))
        (insertDepsOfOp l defOp stage c True True (snd (insertIfAbsent defOp stage c (fst d))))
      else do {
        (n1, d1) \<leftarrow> dist_cluster c d;
        map_option (\<lambda>(_, s). (s, snd d1))
          (insertDepsOfOp l defOp (stage + 1) n1 True True (snd (insertIfAbsent defOp (stage + 1) n1 (fst d1))))
      })"

text \<open>What the body yields for the argument an operand is; it need not be defined in the body.\<close>

definition schedule_dist_one :: "loop \<Rightarrow> int \<Rightarrow> cluster \<Rightarrow> loop_value \<Rightarrow> dist_state \<Rightarrow> dist_state option" where
  "schedule_dist_one l stage c operand d =
     (case operand of
        BlockArg b n \<Rightarrow>
          if b \<noteq> 0 \<or> n = 0 then Some d
          else Option.bind (terminatorOperand l 0 (n - 1)) (\<lambda>v.
            case v of OpResult defOp \<Rightarrow> schedule_dist_def l stage c defOp d | BlockArg _ _ \<Rightarrow> Some d)
      | OpResult _ \<Rightarrow> Some d)"

definition schedule_dist_op :: "loop \<Rightarrow> int \<Rightarrow> nat \<Rightarrow> dist_state \<Rightarrow> dist_state option" where
  "schedule_dist_op l stages op d =
     (case place (fst d) op of
        None \<Rightarrow> Some d
      | Some (stage, cluster) \<Rightarrow>
          if stage = stages - 1 then Some d
          else (case cluster of
              None \<Rightarrow> None
            | Some c \<Rightarrow> fold (\<lambda>v acc. Option.bind acc (schedule_dist_one l stage c v)) (opOperands (allOps l ! op)) (Some d)))"

definition scheduleDistanceOneDependencies :: "loop \<Rightarrow> coarse_schedule \<Rightarrow> coarse_schedule option" where
  "scheduleDistanceOneDependencies l s =
     map_option fst (fold (\<lambda>op acc. Option.bind acc (schedule_dist_op l (numStages s) op)) (bodyOps l) (Some (s, \<lambda>_. None)))"

section \<open>The rest\<close>

text \<open>The clusters of the operations left, pushed behind the clusters of the operations they use; the last
  element of the queue is taken first.\<close>

definition push_user ::
  "coarse_schedule \<Rightarrow> nat \<Rightarrow> loop_user \<Rightarrow> nat list \<times> (nat \<Rightarrow> cluster option) \<Rightarrow> (nat list \<times> (nat \<Rightarrow> cluster option)) option" where
  "push_user s op u qm =
     (case u of
        DirectUser user \<Rightarrow>
          (case snd qm user of
             None \<Rightarrow> Some qm
           | Some userCluster \<Rightarrow> do {
               opCluster \<leftarrow> (case place s op of Some (_, c) \<Rightarrow> c | None \<Rightarrow> snd qm op);
               i \<leftarrow> clusterId (clusters s) userCluster;
               j \<leftarrow> clusterId (clusters s) opCluster;
               Some (if i < j then (user # fst qm, (snd qm)(user \<mapsto> opCluster)) else qm)
             })
      | _ \<Rightarrow> Some qm)"

partial_function (option) push_users ::
  "loop \<Rightarrow> coarse_schedule \<Rightarrow> nat list \<Rightarrow> (nat \<Rightarrow> cluster option) \<Rightarrow> (nat \<Rightarrow> cluster option) option" where [code]:
  "push_users l s queue opToCluster =
     (case queue of
        [] \<Rightarrow> Some opToCluster
      | op # rest \<Rightarrow>
          Option.bind (fold (\<lambda>u acc. Option.bind acc (push_user s op u)) (opUsers (allOps l ! op)) (Some (rest, opToCluster)))
            (\<lambda>(q, m). push_users l s q m))"

definition scheduleRemainingToLastStage :: "loop \<Rightarrow> cluster \<Rightarrow> coarse_schedule \<Rightarrow> coarse_schedule option" where
  "scheduleRemainingToLastStage l afterPrologue s = do {
     ops \<leftarrow> getOpsInOrder l s;
     let queue = rev (map fst (filter (\<lambda>(_, stage, _). stage = numStages s - 1) ops));
     m \<leftarrow> push_users l s queue (\<lambda>op. if op < bodySize l \<and> place s op = None then Some afterPrologue else None);
     Some (fold (\<lambda>op s'. case m op of Some c \<Rightarrow> insert_op op (numStages s - 1) (Some c) s' | None \<Rightarrow> s') (bodyOps l) s)
   }"

section \<open>The loop\<close>

definition schedule_from :: "loop \<Rightarrow> coarse_schedule \<Rightarrow> coarse_schedule option" where
  "schedule_from l s0 = do {
     (afterPrologue, s1) \<leftarrow> schedulePrologueAndEpilogue l s0;
     s2 \<leftarrow> scheduleDependencies l s1;
     s3 \<leftarrow> scheduleDistanceOneDependencies l s2;
     scheduleRemainingToLastStage l afterPrologue s3
   }"

definition scheduleLoop :: "loop \<Rightarrow> latencies \<Rightarrow> loop_attrs \<Rightarrow> loop_attrs option" where
  "scheduleLoop l lat at = do {
     s0 \<leftarrow> getInitialSchedule l lat at;
     if opToStageAndCluster s0 = [] then Some at
     else do {
       s \<leftarrow> schedule_from l s0;
       serialize l s at
     }
   }"

end
