(* ===== verification/ScheduleLemmas.thy ===== *)
theory ScheduleLemmas
  imports ScheduleLoops
begin

text \<open>
  Lemmas about the coarse schedule: the ids of clusters are their positions, the order of clusters survives
  insertions, dependencies never move an operation later.
\<close>

section \<open>Clusters\<close>

definition clusters_ok :: "cluster_list \<Rightarrow> bool" where
  "clusters_ok cl \<longleftrightarrow> map snd (orderClusters cl) = map int [0..<length (orderClusters cl)] \<and>
     distinct (map fst (orderClusters cl)) \<and> (\<forall>c \<in> fst ` set (orderClusters cl). c < freshNode cl)"

abbreviation nodes :: "cluster_list \<Rightarrow> cluster set" where
  "nodes cl \<equiv> fst ` set (orderClusters cl)"

definition rank :: "cluster_list \<Rightarrow> cluster \<Rightarrow> int" where
  "rank cl c = the (clusterId cl c)"

lemma clusters_ok_nth: "clusters_ok cl \<Longrightarrow> i < length (orderClusters cl) \<Longrightarrow> snd (orderClusters cl ! i) = int i"
  unfolding clusters_ok_def by (metis (no_types, lifting) length_map length_upt minus_nat.diff_0 nth_map nth_upt add_0)

lemma node_position:
  assumes "clusters_ok cl" "c \<in> nodes cl"
  obtains i where "i < length (orderClusters cl)" "orderClusters cl ! i = (c, int i)" "clusterId cl c = Some (int i)" "rank cl c = int i"
proof -
  obtain i where i: "i < length (orderClusters cl)" "fst (orderClusters cl ! i) = c"
    using assms(2) by (auto simp: in_set_conv_nth)
  then have e: "orderClusters cl ! i = (c, int i)" using clusters_ok_nth [OF assms(1) i(1)] by (metis prod.collapse)
  then have "(c, int i) \<in> set (orderClusters cl)" using i(1) by (metis nth_mem)
  then have "clusterId cl c = Some (int i)" using assms(1) by (simp add: clusterId_def clusters_ok_def)
  then show ?thesis using that i(1) e by (simp add: rank_def)
qed

lemma clusterId_rank: "clusters_ok cl \<Longrightarrow> c \<in> nodes cl \<Longrightarrow> clusterId cl c = Some (rank cl c)"
  by (erule (1) node_position) simp

lemma rank_inj: "clusters_ok cl \<Longrightarrow> a \<in> nodes cl \<Longrightarrow> b \<in> nodes cl \<Longrightarrow> rank cl a = rank cl b \<longleftrightarrow> a = b"
  by (metis node_position of_nat_eq_iff prod.inject)

lemma rankI: "clusters_ok cl \<Longrightarrow> (a, i) \<in> set (orderClusters cl) \<Longrightarrow> rank cl a = i"
  by (simp add: rank_def clusterId_def clusters_ok_def)

lemma rankE: "clusters_ok cl \<Longrightarrow> a \<in> nodes cl \<Longrightarrow> (a, rank cl a) \<in> set (orderClusters cl)"
  using rankI by fastforce

lemma first_of_ranks:
  assumes "distinct (map fst cs)" "map snd cs = map int [k..<k + length cs]" "(a, i) \<in> set cs" "(b, j) \<in> set cs" "a \<noteq> b"
  shows "first_of cs a b = Some (i < j)"
  using assms
proof (induction cs arbitrary: k)
  case (Cons x cs)
  obtain n m where x: "x = (n, m)" by (cases x)
  have up: "map int [k..<k + length (x # cs)] = int k # map int [Suc k..<Suc k + length cs]" by (simp add: upt_rec)
  then have m: "m = int k" and rest: "map snd cs = map int [Suc k..<Suc k + length cs]" using Cons.prems(2) x by auto
  have later: "int k < i'" if "(c, i') \<in> set cs" for c i'
  proof -
    have "i' \<in> set (map snd cs)" using that by force
    then show ?thesis unfolding rest by auto
  qed
  have d: "distinct (map fst cs)" "n \<notin> fst ` set cs" using Cons.prems(1) x by auto
  consider "a = n" | "b = n" "a \<noteq> n" | "a \<noteq> n" "b \<noteq> n" by blast
  then show ?case
  proof cases
    case 1
    then have "i = int k" "(b, j) \<in> set cs" using Cons.prems(3-5) x m d(2) by (auto simp: rev_image_eqI)
    then show ?thesis using later x 1 by auto
  next
    case 2
    then have "j = int k" "(a, i) \<in> set cs" using Cons.prems(3-5) x m d(2) by (auto simp: rev_image_eqI)
    then show ?thesis using later [of a i] x 2 by auto
  next
    case 3
    then show ?thesis using Cons.IH [OF d(1) rest _ _ Cons.prems(5)] Cons.prems(3,4) x by auto
  qed
qed simp

lemma isBefore_rank:
  assumes "clusters_ok cl" "a \<in> nodes cl" "b \<in> nodes cl"
  shows "isBefore cl a b = Some (rank cl a < rank cl b)"
proof (cases "a = b")
  case False
  obtain i where i: "i < length (orderClusters cl)" "orderClusters cl ! i = (a, int i)" "rank cl a = int i" by (rule node_position [OF assms(1,2)])
  obtain j where j: "j < length (orderClusters cl)" "orderClusters cl ! j = (b, int j)" "rank cl b = int j" by (rule node_position [OF assms(1,3)])
  have "(a, int i) \<in> set (orderClusters cl)" "(b, int j) \<in> set (orderClusters cl)" using i(1,2) j(1,2) by (metis nth_mem)+
  then show ?thesis using first_of_ranks [of "orderClusters cl" 0] False assms(1) i(3) j(3)
    by (simp add: isBefore_def clusters_ok_def)
qed (simp add: isBefore_def)

lemma clusters_ok_empty [simp]: "clusters_ok no_clusters" "nodes no_clusters = {}"
  by (simp_all add: clusters_ok_def no_clusters_def)

text \<open>Adding a cluster keeps the ids, the other clusters and their order.\<close>

definition extends :: "cluster_list \<Rightarrow> cluster_list \<Rightarrow> bool" where
  "extends cl cl' \<longleftrightarrow> clusters_ok cl' \<and> nodes cl \<subseteq> nodes cl' \<and>
     (\<forall>a \<in> nodes cl. \<forall>b \<in> nodes cl. rank cl' a < rank cl' b \<longleftrightarrow> rank cl a < rank cl b)"

lemma extends_refl: "clusters_ok cl \<Longrightarrow> extends cl cl"
  by (simp add: extends_def)

lemma extends_trans: "extends a b \<Longrightarrow> extends b c \<Longrightarrow> extends a c"
  unfolding extends_def by (meson subset_iff)

lemma bump_snd: "map snd (bump xs) = map (\<lambda>i. i + 1) (map snd xs)" "map fst (bump xs) = map fst xs"
  by (induction xs) auto

lemma newAtBack_ok:
  assumes "clusters_ok cl" "newAtBack cl = (c, cl')"
  shows "extends cl cl'" "c \<in> nodes cl'" "nodes cl' = insert c (nodes cl)" "c \<notin> nodes cl" "rank cl' c = int (length (orderClusters cl))"
    "\<forall>a \<in> nodes cl. rank cl' a = rank cl a"
proof -
  have d: "c = freshNode cl" "orderClusters cl' = orderClusters cl @ [(c, int (length (orderClusters cl)))]" "freshNode cl' = freshNode cl + 1"
    using assms(2) by (auto simp: newAtBack_def)
  show n: "c \<notin> nodes cl" using assms(1) d(1) by (auto simp: clusters_ok_def)
  show "nodes cl' = insert c (nodes cl)" "c \<in> nodes cl'" using d(2) by auto
  have ok: "clusters_ok cl'" using assms(1) n d by (auto simp: clusters_ok_def intro: less_SucI)
  have old: "rank cl' a = rank cl a" if "a \<in> nodes cl" for a
    using rankI [OF ok] rankE [OF assms(1) that] d(2) by simp
  then show "\<forall>a \<in> nodes cl. rank cl' a = rank cl a" by blast
  have "map_of (orderClusters cl) c = None" using n by (simp add: map_of_eq_None_iff)
  then show "rank cl' c = int (length (orderClusters cl))" using d(2) by (auto simp: rank_def clusterId_def map_add_def)
  show "extends cl cl'" using ok old d(2) by (auto simp: extends_def)
qed

lemma map_of_bump: "map_of (bump xs) a = map_option (\<lambda>i. i + 1) (map_of xs a)"
  by (induction xs) auto

lemma newAtFront_ok:
  assumes "clusters_ok cl" "newAtFront cl = (c, cl')"
  shows "extends cl cl'" "c \<in> nodes cl'" "nodes cl' = insert c (nodes cl)" "c \<notin> nodes cl"
proof -
  have d: "c = freshNode cl" "orderClusters cl' = (c, 0) # bump (orderClusters cl)" "freshNode cl' = freshNode cl + 1"
    using assms(2) by (auto simp: newAtFront_def)
  show n: "c \<notin> nodes cl" using assms(1) d(1) by (auto simp: clusters_ok_def)
  have f: "fst ` set (bump (orderClusters cl)) = nodes cl" by (metis bump_snd(2) set_map)
  show nodes: "nodes cl' = insert c (nodes cl)" and "c \<in> nodes cl'" using d(2) f by auto
  have "map snd (orderClusters cl') = map int [0..<length (orderClusters cl')]"
  proof -
    have "map snd (orderClusters cl') = 0 # map (\<lambda>i. i + 1) (map int [0..<length (orderClusters cl)])"
      using assms(1) bump_snd(1) [of "orderClusters cl"] unfolding d(2) clusters_ok_def by (metis list.simps(9) snd_conv)
    also have "\<dots> = map int (0 # map Suc [0..<length (orderClusters cl)])" by simp
    also have "\<dots> = map int [0..<length (orderClusters cl')]" by (simp only: map_Suc_upt) (simp add: d(2) upt_rec)
    finally show ?thesis .
  qed
  moreover have "map fst (orderClusters cl') = c # map fst (orderClusters cl)" unfolding d(2) using bump_snd(2) by (metis fst_conv list.simps(9))
  then have "distinct (map fst (orderClusters cl'))" using assms(1) n by (simp add: clusters_ok_def)
  moreover have "\<forall>a \<in> nodes cl'. a < freshNode cl'" unfolding nodes using assms(1) d(1,3) by (auto simp: clusters_ok_def intro: less_SucI)
  ultimately have ok: "clusters_ok cl'" by (simp add: clusters_ok_def)
  have "rank cl' a = rank cl a + 1" if "a \<in> nodes cl" for a
    using rankI [OF ok, of a "rank cl a + 1"] rankE [OF assms(1) that] by (force simp: d(2))
  then show "extends cl cl'" using ok nodes by (auto simp: extends_def)
qed


lemma newBefore_ok:
  assumes ok: "clusters_ok cl" and c: "c \<in> nodes cl"
  obtains n cl' where "newBefore c cl = Some (n, cl')" "extends cl cl'" "n \<in> nodes cl'" "nodes cl' = insert n (nodes cl)" "n \<notin> nodes cl"
    "rank cl' n < rank cl' c" "\<forall>a \<in> nodes cl. rank cl' a < rank cl' n \<longleftrightarrow> rank cl a < rank cl c"
proof -
  obtain k where k: "k < length (orderClusters cl)" "orderClusters cl ! k = (c, int k)" "clusterId cl c = Some (int k)" "rank cl c = int k"
    by (rule node_position [OF ok c])
  let ?n = "freshNode cl"
  have d: "distinct (map fst (orderClusters cl))" and ids: "map snd (orderClusters cl) = map int [0..<length (orderClusters cl)]"
    and fresh: "\<forall>a \<in> nodes cl. a < ?n" using ok by (auto simp: clusters_ok_def)
  have split: "takeWhile (\<lambda>(n, _). n \<noteq> c) (orderClusters cl) = take k (orderClusters cl)"
    "dropWhile (\<lambda>(n, _). n \<noteq> c) (orderClusters cl) = drop k (orderClusters cl)"
  proof -
    have ne: "fst (orderClusters cl ! j) \<noteq> c" if "j < k" for j
      using that k(1,2) d nth_eq_iff_index_eq [OF d, of j k] by auto
    show "takeWhile (\<lambda>(n, _). n \<noteq> c) (orderClusters cl) = take k (orderClusters cl)"
      using k(1,2) ne by (intro takeWhile_eq_take_P_nth) (auto simp: case_prod_beta)
    then show "dropWhile (\<lambda>(n, _). n \<noteq> c) (orderClusters cl) = drop k (orderClusters cl)"
      by (metis append_eq_append_conv append_take_drop_id takeWhile_dropWhile_id)
  qed
  let ?L = "orderClusters cl"
  let ?cl = "\<lparr>orderClusters = take k ?L @ (?n, int k) # bump (drop k ?L), freshNode = ?n + 1\<rparr>"
  have eq: "newBefore c cl = Some (?n, ?cl)" using k(3) split by (simp add: newBefore_def)
  have fsts: "map fst (orderClusters ?cl) = take k (map fst ?L) @ ?n # drop k (map fst ?L)"
    using bump_snd(2) [of "drop k ?L"] by (simp add: take_map drop_map)
  have nodes: "nodes ?cl = insert ?n (nodes cl)"
  proof -
    have "set (take k (map fst ?L)) \<union> set (drop k (map fst ?L)) = set (map fst ?L)" by (metis append_take_drop_id set_append)
    moreover have "set (map fst (orderClusters ?cl)) = insert ?n (set (take k (map fst ?L)) \<union> set (drop k (map fst ?L)))"
      unfolding fsts by simp
    ultimately show ?thesis by (simp only: set_map)
  qed
  have nn: "?n \<notin> nodes cl" using fresh by blast
  have dist: "distinct (map fst (orderClusters ?cl))" unfolding fsts
    using d nn distinct_append [of "take k (map fst ?L)" "drop k (map fst ?L)"]
    by (auto dest: in_set_takeD in_set_dropD)
  have "map snd (orderClusters ?cl) = map int [0..<k] @ int k # map (\<lambda>i. i + 1) (map int [k..<length ?L])"
  proof -
    have "map snd (take k ?L) = map int [0..<k]" unfolding take_map [symmetric] ids using k(1) by (simp add: take_map)
    moreover have "map snd (bump (drop k ?L)) = map (\<lambda>i. i + 1) (map int [k..<length ?L])"
      by (simp only: bump_snd drop_map [symmetric] ids) (simp add: drop_map)
    ultimately show ?thesis by simp
  qed
  also have "\<dots> = map int [0..<length (orderClusters ?cl)]"
  proof -
    have "map (\<lambda>i. i + 1) (map int [k..<length ?L]) = map int [Suc k..<Suc (length ?L)]" by (simp only: map_Suc_upt [symmetric]) simp
    moreover have "[0..<length (orderClusters ?cl)] = [0..<k] @ k # [Suc k..<Suc (length ?L)]"
      using k(1) upt_add_eq_append [of 0 k "Suc (length ?L) - k"] by (simp add: upt_conv_Cons)
    ultimately show ?thesis by simp
  qed
  finally have ok': "clusters_ok ?cl" using dist fresh nodes by (auto simp: clusters_ok_def intro: less_SucI)
  have old: "rank ?cl a = (if rank cl a < int k then rank cl a else rank cl a + 1)" if a: "a \<in> nodes cl" for a
  proof -
    obtain i where i: "i < length ?L" "?L ! i = (a, int i)" "rank cl a = int i" by (rule node_position [OF ok a])
    show ?thesis
    proof (cases "i < k")
      case True
      then have "(a, int i) \<in> set (take k ?L)" using i(1,2) by (auto simp: in_set_conv_nth intro!: exI [of _ i])
      then show ?thesis using rankI [OF ok', of a "int i"] True i(3) by simp
    next
      case False
      then have "(a, int i) \<in> set (drop k ?L)" using i(1,2) by (auto simp: in_set_conv_nth intro!: exI [of _ "i - k"])
      then have "(a, int i + 1) \<in> set (bump (drop k ?L))" by force
      then show ?thesis using rankI [OF ok', of a "int i + 1"] False i(3) by simp
    qed
  qed
  have new: "rank ?cl ?n = int k" by (rule rankI [OF ok']) simp
  have ext: "extends cl ?cl" unfolding extends_def using ok' nodes old by auto
  have "rank ?cl a < rank ?cl ?n \<longleftrightarrow> rank cl a < rank cl c" if "a \<in> nodes cl" for a
    using old [OF that] new k(4) by auto
  then show ?thesis using that [OF eq ext _ nodes nn] old [OF c] new k(4) nodes by auto
qed


section \<open>Schedules\<close>

text \<open>Every scheduled operation has a cluster of the list and a stage in range.\<close>

definition schedule_ok :: "coarse_schedule \<Rightarrow> bool" where
  "schedule_ok s \<longleftrightarrow> clusters_ok (clusters s) \<and>
     (\<forall>op st c. place s op = Some (st, c) \<longrightarrow> 0 \<le> st \<and> st < numStages s \<and> (\<exists>n \<in> nodes (clusters s). c = Some n))"

lemma placeD:
  assumes "schedule_ok s" "place s x = Some (st, Some c)"
  shows "0 \<le> st" "st < numStages s" "c \<in> nodes (clusters s)"
  using assms unfolding schedule_ok_def by (metis option.inject)+

text \<open>Scheduled at a stage and cluster or before.\<close>

definition low :: "coarse_schedule \<Rightarrow> int \<Rightarrow> cluster \<Rightarrow> nat \<Rightarrow> bool" where
  "low s st c d \<longleftrightarrow> (\<exists>st' c'. place s d = Some (st', Some c') \<and>
     (st' < st \<or> st' = st \<and> rank (clusters s) c' \<le> rank (clusters s) c))"

lemma place_assign: "place (assign op st c s) = (place s)(op \<mapsto> (st, c))"
  by (rule ext) (simp add: place_def assign_def update_conv')

lemma assign_fields [simp]: "clusters (assign op st c s) = clusters s" "numStages (assign op st c s) = numStages s"
  by (simp_all add: assign_def)

lemma insert_op_in_range: "st < numStages s \<Longrightarrow> insert_op op st c s = assign op st c s"
  by (simp add: insert_op_def)

lemma place_clusters [simp]: "place (s\<lparr>clusters := cl\<rparr>) = place s" "place (s\<lparr>numStages := n\<rparr>) = place s"
  by (rule ext, simp add: place_def)+

lemma dropWhile_later:
  assumes "map snd cs = map int [k..<k + length cs]" "distinct (map fst cs)" "(c, i) \<in> set cs"
  shows "\<exists>later. dropWhile (\<lambda>n. n \<noteq> c) (map fst cs) = c # later \<and>
    (\<forall>a j. (a, j) \<in> set cs \<longrightarrow> (a \<in> set later \<longleftrightarrow> i < j))"
  using assms
proof (induction cs arbitrary: k)
  case (Cons x cs)
  obtain n m where x: "x = (n, m)" by (cases x)
  have up: "map int [k..<k + length (x # cs)] = int k # map int [Suc k..<Suc k + length cs]" by (simp add: upt_rec)
  then have m: "m = int k" and rest: "map snd cs = map int [Suc k..<Suc k + length cs]" using Cons.prems(1) x by auto
  have later: "int k < i'" if "(c, i') \<in> set cs" for c i'
  proof -
    have "i' \<in> set (map snd cs)" using that by force
    then show ?thesis unfolding rest by auto
  qed
  have d: "distinct (map fst cs)" "n \<notin> fst ` set cs" using Cons.prems(2) x by auto
  show ?case
  proof (cases "c = n")
    case True
    have i: "i = int k" using Cons.prems(3) True d(2) x m by (auto simp: rev_image_eqI)
    have "a \<in> fst ` set cs \<longleftrightarrow> int k < j" if "(a, j) \<in> set (x # cs)" for a j
      using that d(2) later [of a j] x m by (auto simp: rev_image_eqI)
    then show ?thesis using True x i by (intro exI [of _ "map fst cs"]) simp
  next
    case False
    then have c: "(c, i) \<in> set cs" using Cons.prems(3) x by auto
    obtain l where l: "dropWhile (\<lambda>n. n \<noteq> c) (map fst cs) = c # l" "\<forall>a j. (a, j) \<in> set cs \<longrightarrow> (a \<in> set l \<longleftrightarrow> i < j)"
      using Cons.IH [OF rest d(1) c] by blast
    have "set l \<subseteq> fst ` set cs" using l(1) by (metis list.set_map set_dropWhileD set_subset_Cons subset_code(1))
    then have "n \<notin> set l" using d(2) by blast
    then have "a \<in> set l \<longleftrightarrow> i < j" if "(a, j) \<in> set (x # cs)" for a j
      using that l(2) later [OF c] x m d(2) by auto
    then show ?thesis using l(1) False x by auto
  qed
qed simp

lemma insertMinimum_spec:
  assumes ok: "schedule_ok s" and c: "c \<in> nodes (clusters s)"
  shows "insertMinimum op st c s = Some (if low s st c op then (False, s) else (True, assign op st (Some c) s))"
proof (cases "place s op")
  case None
  then show ?thesis by (simp add: insertMinimum_def low_def)
next
  case (Some p)
  then obtain st' c' where p: "place s op = Some (st', Some c')" "c' \<in> nodes (clusters s)"
    using ok unfolding schedule_ok_def by (metis prod.exhaust)
  have cl: "clusters_ok (clusters s)" using ok by (simp add: schedule_ok_def)
  obtain l where l: "dropWhile (\<lambda>n. n \<noteq> c) (map fst (orderClusters (clusters s))) = c # l"
    "\<forall>a j. (a, j) \<in> set (orderClusters (clusters s)) \<longrightarrow> (a \<in> set l \<longleftrightarrow> rank (clusters s) c < j)"
  proof -
    have "map snd (orderClusters (clusters s)) = map int [0..<0 + length (orderClusters (clusters s))]"
      "distinct (map fst (orderClusters (clusters s)))" using cl by (simp_all add: clusters_ok_def)
    from dropWhile_later [OF this rankE [OF cl c]] show ?thesis using that by blast
  qed
  have "c' \<in> set l \<longleftrightarrow> rank (clusters s) c < rank (clusters s) c'" using l(2) rankE [OF cl p(2)] by blast
  then show ?thesis using p(1) l(1) by (auto simp: insertMinimum_def low_def)
qed


section \<open>Dependencies\<close>

text \<open>The operations of the block whose results the operands stand for.\<close>

definition dep_targets :: "loop \<Rightarrow> nat \<Rightarrow> bool \<Rightarrow> loop_value list \<Rightarrow> nat set" where
  "dep_targets l block arg vs = {d. opBlock (allOps l ! d) = block \<and> (\<exists>v \<in> set vs. resolve l block arg {} v = Some (OpResult d))}"

text \<open>A new schedule has the same entries but for some operations of the block, which moved to the given stage and
  cluster from nowhere or from later; what these depend on is there or before.\<close>

definition moved_to :: "loop \<Rightarrow> nat \<Rightarrow> bool \<Rightarrow> int \<Rightarrow> cluster \<Rightarrow> coarse_schedule \<Rightarrow> coarse_schedule \<Rightarrow> bool" where
  "moved_to l block arg st c s s' \<longleftrightarrow> clusters s' = clusters s \<and> numStages s' = numStages s \<and>
     (\<forall>x. place s' x = place s x \<or>
        place s' x = Some (st, Some c) \<and> \<not> low s st c x \<and> opBlock (allOps l ! x) = block \<and>
        (\<forall>d \<in> dep_targets l block arg (opOperands (allOps l ! x)). low s' st c d))"

lemma moved_refl: "moved_to l block arg st c s s"
  by (simp add: moved_to_def)

lemma low_self: "place s x = Some (st, Some c) \<Longrightarrow> low s st c x"
  by (simp add: low_def)

lemma low_trans: "low s st c d \<Longrightarrow> st < st' \<or> st = st' \<and> rank (clusters s) c \<le> rank (clusters s) c' \<Longrightarrow> low s st' c' d"
  unfolding low_def by fastforce

lemma low_moved:
  assumes m: "moved_to l block arg st c s s'" and "schedule_ok s" and low: "low s st1 c1 d"
  shows "low s' st1 c1 d"
proof (cases "place s' d = place s d")
  case True
  then show ?thesis using low m by (simp add: low_def moved_to_def)
next
  case False
  then have p: "place s' d = Some (st, Some c)" "\<not> low s st c d" and cl: "clusters s' = clusters s" using m by (auto simp: moved_to_def)
  obtain st2 c2 where q: "place s d = Some (st2, Some c2)" "st2 < st1 \<or> st2 = st1 \<and> rank (clusters s) c2 \<le> rank (clusters s) c1"
    using low by (auto simp: low_def)
  then have "st < st2 \<or> st = st2 \<and> rank (clusters s) c < rank (clusters s) c2" using p(2) by (auto simp: low_def not_less not_le)
  then show ?thesis using p(1) q(2) cl by (auto simp: low_def)
qed

lemma schedule_ok_moved:
  assumes "moved_to l block arg st c s s'" "schedule_ok s" "0 \<le> st" "st < numStages s" "c \<in> nodes (clusters s)"
  shows "schedule_ok s'"
  unfolding schedule_ok_def
proof (intro conjI allI impI)
  show "clusters_ok (clusters s')" using assms(1,2) by (simp add: moved_to_def schedule_ok_def)
  fix op st' c' assume p: "place s' op = Some (st', c')"
  have "place s' op = place s op \<or> place s' op = Some (st, Some c)" using assms(1) unfolding moved_to_def by blast
  then have "place s op = Some (st', c') \<or> st' = st \<and> c' = Some c" using p by auto
  then show "0 \<le> st'" "st' < numStages s'" "\<exists>n \<in> nodes (clusters s'). c' = Some n"
    using assms by (auto simp: moved_to_def schedule_ok_def)
qed

lemma moved_trans:
  assumes a: "moved_to l block arg st c s s1" and b: "moved_to l block arg st c s1 s2" and ok: "schedule_ok s" "schedule_ok s1"
  shows "moved_to l block arg st c s s2"
  unfolding moved_to_def
proof (intro conjI allI)
  show "clusters s2 = clusters s" "numStages s2 = numStages s" using a b by (simp_all add: moved_to_def)
  fix x
  let ?Q = "\<lambda>s s'. place s' x = Some (st, Some c) \<and> \<not> low s st c x \<and> opBlock (allOps l ! x) = block \<and>
        (\<forall>d \<in> dep_targets l block arg (opOperands (allOps l ! x)). low s' st c d)"
  consider "place s1 x = place s x" "place s2 x = place s1 x" | "?Q s s1" "place s2 x = place s1 x" | "?Q s1 s2"
    using a b unfolding moved_to_def by blast
  then show "place s2 x = place s x \<or> ?Q s s2"
  proof cases
    case 2
    then show ?thesis using low_moved [OF b ok(2)] by simp
  next
    case 3
    then have "\<not> low s st c x" using low_moved [OF a ok(1)] by blast
    then show ?thesis using 3 by blast
  qed simp
qed

text \<open>Every operand stands for something, and for an operation that is known.\<close>

definition values_ok :: "loop \<Rightarrow> nat \<Rightarrow> bool \<Rightarrow> loop_value list \<Rightarrow> bool" where
  "values_ok l block arg vs \<longleftrightarrow> (\<forall>v \<in> set vs. \<exists>r. resolve l block arg {} v = Some r \<and> (\<forall>d. r = OpResult d \<longrightarrow> d < length (allOps l)))"

definition block_ok :: "loop \<Rightarrow> nat \<Rightarrow> bool \<Rightarrow> bool" where
  "block_ok l block arg \<longleftrightarrow> (\<forall>i < length (allOps l). opBlock (allOps l ! i) = block \<longrightarrow> values_ok l block arg (opOperands (allOps l ! i)))"

abbreviation pending :: "loop \<Rightarrow> int \<Rightarrow> cluster \<Rightarrow> coarse_schedule \<Rightarrow> nat set" where
  "pending l st c s \<equiv> {d. d < length (allOps l) \<and> \<not> low s st c d}"

lemma pending_moved: "moved_to l block arg st c s s' \<Longrightarrow> schedule_ok s \<Longrightarrow> pending l st c s' \<subseteq> pending l st c s"
  using low_moved by blast

lemma assign_ok:
  assumes "schedule_ok s" "0 \<le> st" "st < numStages s" "c \<in> nodes (clusters s)"
  shows "schedule_ok (assign x st (Some c) s)"
  using assms by (auto simp: schedule_ok_def place_assign)

lemma low_assign:
  "low (assign x st (Some c) s) st c d \<longleftrightarrow> d = x \<or> low s st c d"
  by (auto simp: low_def place_assign)

text \<open>Moving one operation, then what it depends on.\<close>

lemma moved_assign:
  assumes x: "\<not> low s st c x" "opBlock (allOps l ! x) = block" and ok: "schedule_ok s" "0 \<le> st" "st < numStages s" "c \<in> nodes (clusters s)"
    and m: "moved_to l block arg st c (assign x st (Some c) s) s'"
    and deps: "\<forall>d \<in> dep_targets l block arg (opOperands (allOps l ! x)). low s' st c d"
  shows "moved_to l block arg st c s s'"
  unfolding moved_to_def
proof (intro conjI allI)
  let ?s = "assign x st (Some c) s"
  show "clusters s' = clusters s" "numStages s' = numStages s" using m by (simp_all add: moved_to_def)
  fix y
  let ?Q = "\<lambda>s s'. place s' y = Some (st, Some c) \<and> \<not> low s st c y \<and> opBlock (allOps l ! y) = block \<and>
        (\<forall>d \<in> dep_targets l block arg (opOperands (allOps l ! y)). low s' st c d)"
  consider "place s' y = place ?s y" | "?Q ?s s'" using m unfolding moved_to_def by blast
  then show "place s' y = place s y \<or> ?Q s s'"
  proof cases
    case 1
    then show ?thesis using x deps by (cases "y = x") (auto simp: place_assign)
  next
    case 2
    then show ?thesis by (simp add: low_assign)
  qed
qed

lemma insert_deps_spec:
  assumes blk: "block_ok l block arg" and st: "0 \<le> st" "st < numStages s" and c: "c \<in> nodes (clusters s)"
    and ok: "schedule_ok s" and vs: "values_ok l block arg vs"
  shows "\<exists>b s'. insert_deps l block st c arg True vs s = Some (b, s') \<and> moved_to l block arg st c s s' \<and>
    (\<forall>d \<in> dep_targets l block arg vs. low s' st c d)"
proof -
  have "card (pending l st c s) < n \<Longrightarrow> st < numStages s \<Longrightarrow> c \<in> nodes (clusters s) \<Longrightarrow> schedule_ok s \<Longrightarrow> values_ok l block arg vs \<Longrightarrow>
    \<exists>b s'. insert_deps l block st c arg True vs s = Some (b, s') \<and> moved_to l block arg st c s s' \<and>
    (\<forall>d \<in> dep_targets l block arg vs. low s' st c d)" for n
  proof (induction n arbitrary: s vs)
    case (Suc n)
    show ?case using Suc.prems
    proof (induction vs arbitrary: s)
      case Nil
      have "insert_deps l block st c arg True [] s = Some (False, s)" by (subst insert_deps.simps) simp
      then show ?case by (intro exI [of _ False] exI [of _ s]) (simp add: moved_refl dep_targets_def)
    next
      case (Cons v vs)
      note hyp = Cons.prems
      have vs': "values_ok l block arg vs" using hyp(5) by (simp add: values_ok_def)
      obtain r where r: "resolve l block arg {} v = Some r" "\<And>d. r = OpResult d \<Longrightarrow> d < length (allOps l)"
        using hyp(5) by (auto simp: values_ok_def)
      have targets: "dep_targets l block arg (v # vs) =
          (case r of OpResult d \<Rightarrow> if opBlock (allOps l ! d) = block then {d} else {} | BlockArg _ _ \<Rightarrow> {}) \<union> dep_targets l block arg vs"
        using r(1) by (auto simp: dep_targets_def split: loop_value.splits)
      obtain b s' where rest: "insert_deps l block st c arg True vs s = Some (b, s')" "moved_to l block arg st c s s'"
        "\<forall>d \<in> dep_targets l block arg vs. low s' st c d" using Cons.IH [OF hyp(1-4) vs'] by blast
      show ?case
      proof (cases "\<exists>d. r = OpResult d \<and> opBlock (allOps l ! d) = block \<and> \<not> low s st c d")
        case False
        then have "insert_deps l block st c arg True (v # vs) s = insert_deps l block st c arg True vs s"
          using r(1) insertMinimum_spec [OF hyp(4,3)] by (subst insert_deps.simps) (auto simp: tryInsert_def split: loop_value.splits)
        moreover have "\<forall>d \<in> dep_targets l block arg (v # vs). low s' st c d"
          unfolding targets using False rest(3) low_moved [OF rest(2) hyp(4)] by (auto split: loop_value.splits)
        ultimately show ?thesis using rest(1,2) by auto
      next
        case True
        then obtain d where d: "r = OpResult d" "opBlock (allOps l ! d) = block" "\<not> low s st c d" by blast
        let ?s = "assign d st (Some c) s"
        have ok1: "schedule_ok ?s" by (rule assign_ok [OF hyp(4) st(1) hyp(2,3)])
        have "pending l st c ?s = pending l st c s - {d}" by (auto simp: low_assign)
        moreover have "d \<in> pending l st c s" using r(2) [OF d(1)] d(3) by simp
        ultimately have card: "card (pending l st c ?s) < card (pending l st c s)" using card_Diff1_less [of "pending l st c s" d] by simp
        have ops: "values_ok l block arg (opOperands (allOps l ! d))" using blk r(2) [OF d(1)] d(2) by (simp add: block_ok_def)
        obtain b2 s2 where s2: "insert_deps l block st c arg True (opOperands (allOps l ! d)) ?s = Some (b2, s2)"
          "moved_to l block arg st c ?s s2" "\<forall>e \<in> dep_targets l block arg (opOperands (allOps l ! d)). low s2 st c e"
        proof -
          have "card (pending l st c ?s) < n" "st < numStages ?s" "c \<in> nodes (clusters ?s)" using card hyp(1-3) by simp_all
          from Suc.IH [OF this ok1 ops] show ?thesis using that by blast
        qed
        have m: "moved_to l block arg st c s s2" by (rule moved_assign [OF d(3,2) hyp(4) st(1) hyp(2,3) s2(2,3)])
        have ok2: "schedule_ok s2" by (rule schedule_ok_moved [OF m hyp(4) st(1) hyp(2,3)])
        have same: "numStages s2 = numStages s" "clusters s2 = clusters s" using m by (simp_all add: moved_to_def)
        have le: "card (pending l st c s2) \<le> card (pending l st c s)" using pending_moved [OF m hyp(4)] by (intro card_mono) auto
        obtain b3 s3 where s3: "insert_deps l block st c arg True vs s2 = Some (b3, s3)" "moved_to l block arg st c s2 s3"
          "\<forall>e \<in> dep_targets l block arg vs. low s3 st c e"
        proof -
          have "card (pending l st c s2) < Suc n" "st < numStages s2" "c \<in> nodes (clusters s2)" using le hyp(1-3) same by simp_all
          from Cons.IH [OF this ok2 vs'] show ?thesis using that by blast
        qed
        have "insert_deps l block st c arg True (v # vs) s = Some (True, s3)"
          using r(1) d s2(1) s3(1) insertMinimum_spec [OF hyp(4,3)] by (subst insert_deps.simps) (simp add: tryInsert_def)
        moreover have "moved_to l block arg st c s s3" by (rule moved_trans [OF m s3(2) hyp(4) ok2])
        moreover have "low s2 st c d" using low_moved [OF s2(2) ok1] by (simp add: low_assign)
        then have "low s3 st c d" by (rule low_moved [OF s3(2) ok2])
        then have "\<forall>e \<in> dep_targets l block arg (v # vs). low s3 st c e" unfolding targets using d(1,2) s3(3) by auto
        ultimately show ?thesis by blast
      qed
    qed
  qed simp
  from this [of "Suc (card (pending l st c s))"] st(2) c ok vs show ?thesis by simp
qed


section \<open>Loops\<close>

text \<open>The operations of the body are those of block 0; they read values of the loop, results of the body from
  earlier operations; a yielded value of an operation outside of the body is a constant. The users of an
  operation are the operations that read it; only if operations have operations inside that read values of
  the body.\<close>

definition value_ok :: "loop \<Rightarrow> loop_value \<Rightarrow> bool" where
  "value_ok l v = (case v of OpResult d \<Rightarrow> d < length (allOps l) | BlockArg b n \<Rightarrow> b = 0 \<longrightarrow> n \<le> length (terminators l ! 0))"

definition body_deps :: "loop \<Rightarrow> nat \<Rightarrow> nat set" where
  "body_deps l x = {d. d < bodySize l \<and> OpResult d \<in> set (opOperands (allOps l ! x))}"

definition wf_loop :: "loop \<Rightarrow> bool" where
  "wf_loop l \<longleftrightarrow> terminators l \<noteq> [] \<and> bodySize l \<le> length (allOps l) \<and>
     (\<forall>i < length (allOps l). opBlock (allOps l ! i) = 0 \<longleftrightarrow> i < bodySize l) \<and>
     (\<forall>i < bodySize l. (\<forall>v \<in> set (opOperands (allOps l ! i)). value_ok l v) \<and> (\<forall>d \<in> body_deps l i. d < i)) \<and>
     (\<forall>v \<in> set (terminators l ! 0). value_ok l v \<and> (\<forall>d. v = OpResult d \<and> bodySize l \<le> d \<longrightarrow> opOperands (allOps l ! d) = [])) \<and>
     (\<forall>i < bodySize l. \<forall>d \<in> body_deps l i. DirectUser i \<in> set (opUsers (allOps l ! d)) \<or>
        isIfOp (allOps l ! i) \<and> NestedUser i \<in> set (opUsers (allOps l ! d))) \<and>
     (\<forall>d < bodySize l. \<forall>u \<in> set (opUsers (allOps l ! d)). \<forall>i. body_user u = Some i \<longrightarrow> d < i \<and> i < bodySize l)"

lemma wf_parts:
  assumes "wf_loop l"
  shows "terminators l \<noteq> []" "bodySize l \<le> length (allOps l)"
    "\<forall>i < length (allOps l). opBlock (allOps l ! i) = 0 \<longleftrightarrow> i < bodySize l"
    "\<forall>i < bodySize l. (\<forall>v \<in> set (opOperands (allOps l ! i)). value_ok l v) \<and> (\<forall>d \<in> body_deps l i. d < i)"
    "\<forall>v \<in> set (terminators l ! 0). value_ok l v \<and> (\<forall>d. v = OpResult d \<and> bodySize l \<le> d \<longrightarrow> opOperands (allOps l ! d) = [])"
    "\<forall>i < bodySize l. \<forall>d \<in> body_deps l i. DirectUser i \<in> set (opUsers (allOps l ! d)) \<or>
        isIfOp (allOps l ! i) \<and> NestedUser i \<in> set (opUsers (allOps l ! d))"
    "\<forall>d < bodySize l. \<forall>u \<in> set (opUsers (allOps l ! d)). \<forall>i. body_user u = Some i \<longrightarrow> d < i \<and> i < bodySize l"
  using assms unfolding wf_loop_def by - (elim conjE, assumption)+

lemma resolve_known:
  assumes wf: "wf_loop l" and v: "value_ok l v"
  shows "\<exists>r. resolve l 0 arg seen v = Some r \<and> value_ok l r"
proof -
  have "block = 0 \<Longrightarrow> value_ok l v \<Longrightarrow> \<exists>r. resolve l block arg seen v = Some r \<and> value_ok l r" for block
    using wf
  proof (induction l block arg seen v rule: resolve.induct)
    case (1 l block arg seen b n)
    show ?case
    proof (cases "\<not> arg \<or> b \<noteq> block \<or> n \<in> seen \<or> n = 0")
      case True
      then show ?thesis using 1(3) by simp
    next
      case False
      then have b: "b = 0" "0 < n" "n \<le> length (terminators l ! 0)" using 1(2,3) by (auto simp: value_ok_def)
      have t: "terminatorOperand l b (n - 1) = Some (terminators l ! 0 ! (n - 1))" 
        using b wf_parts(1) [OF 1(4)] by (simp add: terminatorOperand_def)
      have "terminators l ! 0 ! (n - 1) \<in> set (terminators l ! 0)" using b by simp
      moreover have "\<forall>v \<in> set (terminators l ! 0). value_ok l v" using wf_parts(5) [OF 1(4)] by blast
      ultimately have "value_ok l (terminators l ! 0 ! (n - 1))" by blast
      from 1(1) [OF False t 1(2) this 1(4)] False t show ?thesis by simp
    qed
  qed simp
  then show ?thesis using v by blast
qed

lemma values_known:
  assumes "wf_loop l" "\<forall>v \<in> set vs. value_ok l v" shows "values_ok l 0 arg vs"
  unfolding values_ok_def
proof
  fix v assume "v \<in> set vs"
  then obtain r where "resolve l 0 arg {} v = Some r" "value_ok l r" using resolve_known [OF assms(1)] assms(2) by blast
  then show "\<exists>r. resolve l 0 arg {} v = Some r \<and> (\<forall>d. r = OpResult d \<longrightarrow> d < length (allOps l))" by (auto simp: value_ok_def)
qed

lemma wf_loopD:
  assumes "wf_loop l"
  shows "bodySize l \<le> length (allOps l)" "\<And>i. i < length (allOps l) \<Longrightarrow> opBlock (allOps l ! i) = 0 \<longleftrightarrow> i < bodySize l"
    "\<And>i. i < bodySize l \<Longrightarrow> values_ok l 0 arg (opOperands (allOps l ! i))" "\<And>i d. i < bodySize l \<Longrightarrow> d \<in> body_deps l i \<Longrightarrow> d < i"
proof -
  show "bodySize l \<le> length (allOps l)" "\<And>i. i < length (allOps l) \<Longrightarrow> opBlock (allOps l ! i) = 0 \<longleftrightarrow> i < bodySize l"
    "\<And>i d. i < bodySize l \<Longrightarrow> d \<in> body_deps l i \<Longrightarrow> d < i"
    using wf_parts(2-4) [OF assms] by blast+
  fix i assume "i < bodySize l"
  then have "\<forall>v \<in> set (opOperands (allOps l ! i)). value_ok l v" using wf_parts(4) [OF assms] by blast
  then show "values_ok l 0 arg (opOperands (allOps l ! i))" by (rule values_known [OF assms])
qed

lemma body_block_ok: "wf_loop l \<Longrightarrow> block_ok l 0 arg"
  using wf_loopD(2,3) by (simp add: block_ok_def)

lemma body_targets:
  assumes "wf_loop l" shows "body_deps l x \<subseteq> dep_targets l 0 arg (opOperands (allOps l ! x))"
proof
  fix d assume d: "d \<in> body_deps l x"
  then have "d < bodySize l" "d < length (allOps l)" using wf_loopD(1) [OF assms] by (auto simp: body_deps_def)
  then have "opBlock (allOps l ! d) = 0" using wf_loopD(2) [OF assms] by blast
  then show "d \<in> dep_targets l 0 arg (opOperands (allOps l ! x))" using d by (force simp: body_deps_def dep_targets_def)
qed

text \<open>What a scheduled operation of the body reads is scheduled there or before.\<close>

definition settled :: "loop \<Rightarrow> coarse_schedule \<Rightarrow> nat \<Rightarrow> bool" where
  "settled l s x \<longleftrightarrow> (\<forall>st c. place s x = Some (st, Some c) \<longrightarrow> (\<forall>d \<in> body_deps l x. low s st c d))"

lemma settled_moved:
  assumes wf: "wf_loop l" and m: "moved_to l block arg st c s s'" and ok: "schedule_ok s" and x: "x < bodySize l"
    and old: "place s' x = place s x \<Longrightarrow> settled l s x"
  shows "settled l s' x"
proof (cases "place s' x = place s x")
  case True
  then show ?thesis using old low_moved [OF m ok] by (simp add: settled_def)
next
  case False
  then have b: "place s' x = Some (st, Some c)" "opBlock (allOps l ! x) = block"
    "\<forall>d \<in> dep_targets l block arg (opOperands (allOps l ! x)). low s' st c d" using m unfolding moved_to_def by blast+
  moreover have "block = 0" using wf_loopD(2) [OF wf, of x] wf_loopD(1) [OF wf] x b(2) by simp
  ultimately show ?thesis using body_targets [OF wf] unfolding settled_def by auto
qed

lemma deps_of_op:
  assumes wf: "wf_loop l" and x: "x < bodySize l" and ok: "schedule_ok s" "0 \<le> st" "st < numStages s" "c \<in> nodes (clusters s)"
  shows "\<exists>b s'. insertDepsOfOp l x st c arg True s = Some (b, s') \<and> moved_to l 0 arg st c s s' \<and> schedule_ok s' \<and>
    (\<forall>d \<in> body_deps l x. low s' st c d)"
proof -
  have "opBlock (allOps l ! x) = 0" using wf_loopD(2) [OF wf, of x] wf_loopD(1) [OF wf] x by simp
  then obtain b s' where "insertDepsOfOp l x st c arg True s = Some (b, s')" "moved_to l 0 arg st c s s'"
    "\<forall>d \<in> dep_targets l 0 arg (opOperands (allOps l ! x)). low s' st c d"
    using insert_deps_spec [OF body_block_ok [OF wf] ok(2,3,4,1) wf_loopD(3) [OF wf x]] unfolding insertDepsOfOp_def by metis
  then show ?thesis using body_targets [OF wf] schedule_ok_moved [OF _ ok] by blast
qed

section \<open>The dependencies of a schedule\<close>

lemma schedule_deps_spec:
  assumes wf: "wf_loop l" and ok: "schedule_ok s" and as: "\<forall>(x, st, c) \<in> set as. x < bodySize l \<and> 0 \<le> st \<and> st < numStages s \<and> c \<in> nodes (clusters s)"
    and inv: "\<forall>x < bodySize l. settled l s x \<or> (\<exists>st c. place s x = Some (st, Some c) \<and> (x, st, c) \<in> set as)"
  shows "\<exists>s'. schedule_deps l as s = Some s' \<and> schedule_ok s' \<and> clusters s' = clusters s \<and> numStages s' = numStages s \<and>
    (\<forall>x < bodySize l. settled l s' x) \<and> (\<forall>x st c. low s st c x \<longrightarrow> low s' st c x)"
  using ok as inv
proof (induction as arbitrary: s)
  case Nil
  then show ?case by (simp add: schedule_deps_def)
next
  case (Cons a as)
  obtain x st c where a: "a = (x, st, c)" by (cases a)
  have xin: "x < bodySize l" "0 \<le> st" "st < numStages s" "c \<in> nodes (clusters s)" using Cons.prems(2) a by auto
  obtain b s1 where s1: "insertDepsOfOp l x st c False True s = Some (b, s1)" "moved_to l 0 False st c s s1" "schedule_ok s1"
    "\<forall>d \<in> body_deps l x. low s1 st c d" using deps_of_op [OF wf xin(1) Cons.prems(1) xin(2-4)] by blast
  have same: "numStages s1 = numStages s" "clusters s1 = clusters s" using s1(2) by (simp_all add: moved_to_def)
  have as1: "\<forall>(x, st, c) \<in> set as. x < bodySize l \<and> 0 \<le> st \<and> st < numStages s1 \<and> c \<in> nodes (clusters s1)" using Cons.prems(2) same by auto
  have "settled l s1 y \<or> (\<exists>st c. place s1 y = Some (st, Some c) \<and> (y, st, c) \<in> set as)" if y: "y < bodySize l" for y
  proof (rule disjCI)
    assume no: "\<not> (\<exists>st c. place s1 y = Some (st, Some c) \<and> (y, st, c) \<in> set as)"
    show "settled l s1 y"
    proof (cases "place s y = Some (st, Some c) \<and> y = x \<and> place s1 y = place s y")
      case True
      then have "place s1 y = Some (st, Some c)" "y = x" by auto
      then show ?thesis using s1(4) by (simp add: settled_def)
    next
      case False
      show ?thesis
      proof (rule settled_moved [OF wf s1(2) Cons.prems(1) y])
        assume e: "place s1 y = place s y"
        show "settled l s y" using Cons.prems(3) y no False e a by auto
      qed
    qed
  qed
  then obtain s' where "schedule_deps l as s1 = Some s'" "schedule_ok s'" "clusters s' = clusters s" "numStages s' = numStages s"
    "\<forall>x < bodySize l. settled l s' x" "\<forall>x st c. low s1 st c x \<longrightarrow> low s' st c x"
    using Cons.IH [OF s1(3) as1] same by auto
  moreover have "schedule_deps l (a # as) s = schedule_deps l as s1" using s1(1) a by (simp add: schedule_deps_def)
  ultimately show ?case using low_moved [OF s1(2) Cons.prems(1)] by auto
qed


section \<open>Operations in order\<close>

lemma checked_place_ok:
  assumes ok: "schedule_ok s"
  shows "checked_place s op = Some (case place s op of None \<Rightarrow> None | Some (st, c) \<Rightarrow> Some (nat (rank (clusters s) (the c)), st, the c))"
proof (cases "place s op")
  case (Some p)
  then obtain st c where p: "place s op = Some (st, Some c)" "c \<in> nodes (clusters s)" "st < numStages s"
    using ok unfolding schedule_ok_def by (metis prod.exhaust)
  have cl: "clusters_ok (clusters s)" using ok by (simp add: schedule_ok_def)
  obtain i where i: "i < length (orderClusters (clusters s))" "orderClusters (clusters s) ! i = (c, int i)" "clusterId (clusters s) c = Some (int i)"
    "rank (clusters s) c = int i" by (rule node_position [OF cl p(2)])
  have d: "distinct (map fst (orderClusters (clusters s)))" using cl by (simp add: clusters_ok_def)
  have "takeWhile (\<lambda>n. n \<noteq> c) (map fst (orderClusters (clusters s))) = take i (map fst (orderClusters (clusters s)))"
  proof (rule takeWhile_eq_take_P_nth)
    fix j assume j: "j < i" "j < length (map fst (orderClusters (clusters s)))"
    then show "map fst (orderClusters (clusters s)) ! j \<noteq> c" using nth_eq_iff_index_eq [OF d, of j i] i(1,2) by auto
  qed (use i in auto)
  then show ?thesis using p i by (simp add: checked_place_def)
qed (simp add: checked_place_def)

text \<open>Cluster by cluster, in program order inside of a cluster.\<close>

definition scheduled_ops :: "loop \<Rightarrow> coarse_schedule \<Rightarrow> (nat \<times> int \<times> cluster) list" where
  "scheduled_ops l s = concat (map (\<lambda>op. case place s op of Some (st, Some c) \<Rightarrow> [(op, st, c)] | _ \<Rightarrow> []) (bodyOps l))"

lemma those_map_just: "those (map (\<lambda>x. Some (f x)) xs) = Some (map f xs)"
  by (induction xs) auto

lemma getOpsInOrder_eq:
  assumes ok: "schedule_ok s"
  shows "getOpsInOrder l s = Some (concat (map (\<lambda>i. filter (\<lambda>(op, st, c). rank (clusters s) c = int i) (scheduled_ops l s))
    [0..<length (orderClusters (clusters s))]))"
proof -
  let ?g = "\<lambda>op. case place s op of None \<Rightarrow> None | Some (st, c) \<Rightarrow> Some (op, nat (rank (clusters s) (the c)), st, the c)"
  have "(\<lambda>op. map_option (map_option (\<lambda>p. (op, p))) (checked_place s op)) = (\<lambda>op. Some (?g op))"
    by (rule ext) (simp add: checked_place_ok [OF ok] split: option.splits)
  then have ps: "those (map (\<lambda>op. map_option (map_option (\<lambda>p. (op, p))) (checked_place s op)) (bodyOps l)) = Some (map ?g (bodyOps l))"
    by (simp only: those_map_just)
  have c: "\<exists>n. c = Some n \<and> 0 \<le> rank (clusters s) n" if "place s op = Some (st, c)" for op st c
  proof -
    have "\<exists>n \<in> nodes (clusters s). c = Some n" using ok that unfolding schedule_ok_def by blast
    then obtain n where n: "c = Some n" "n \<in> nodes (clusters s)" by (elim bexE)
    have cl: "clusters_ok (clusters s)" using ok by (simp add: schedule_ok_def)
    show ?thesis by (rule node_position [OF cl n(2)]) (use n(1) in simp)
  qed
  have "map (\<lambda>(op, _, st, c). (op, st, c)) (filter (\<lambda>(_, j, _). j = i) (map the (filter (\<lambda>p. p \<noteq> None) (map ?g ops))))
      = filter (\<lambda>(op, st, c). rank (clusters s) c = int i)
          (concat (map (\<lambda>op. case place s op of Some (st, Some c) \<Rightarrow> [(op, st, c)] | _ \<Rightarrow> []) ops))" for i ops
  proof (induction ops)
    case (Cons op ops)
    show ?case
    proof (cases "place s op")
      case (Some p)
      then obtain st n where p: "place s op = Some (st, Some n)" "0 \<le> rank (clusters s) n" using c by (metis prod.exhaust)
      then have "nat (rank (clusters s) n) = i \<longleftrightarrow> rank (clusters s) n = int i" by linarith
      then show ?thesis using Cons p(1) by simp
    qed (use Cons in simp)
  qed simp
  then show ?thesis by (simp add: getOpsInOrder_def ps scheduled_ops_def)
qed

lemma getOpsInOrder_ok:
  assumes ok: "schedule_ok s"
  shows "\<exists>ops. getOpsInOrder l s = Some ops \<and>
    (\<forall>x st c. (x, st, c) \<in> set ops \<longleftrightarrow> x < bodySize l \<and> place s x = Some (st, Some c))"
proof -
  let ?cl = "clusters s"
  have cl: "clusters_ok ?cl" using ok by (simp add: schedule_ok_def)
  have mem: "(x, st, c) \<in> set (scheduled_ops l s) \<longleftrightarrow> x < bodySize l \<and> place s x = Some (st, Some c)" for x st c
    by (auto simp: scheduled_ops_def split: option.splits)
  have r: "0 \<le> rank ?cl c \<and> rank ?cl c < int (length (orderClusters ?cl))" if "(x, st, c) \<in> set (scheduled_ops l s)" for x st c
  proof -
    have "place s x = Some (st, Some c)" using that mem by blast
    then have "c \<in> nodes ?cl" by (rule placeD(3) [OF ok])
    then show ?thesis by (rule node_position [OF cl]) simp
  qed
  let ?ops = "concat (map (\<lambda>i. filter (\<lambda>(op, st, c). rank ?cl c = int i) (scheduled_ops l s)) [0..<length (orderClusters ?cl)])"
  have "(x, st, c) \<in> set ?ops \<longleftrightarrow> (x, st, c) \<in> set (scheduled_ops l s)" for x st c
  proof
    assume a: "(x, st, c) \<in> set (scheduled_ops l s)"
    obtain k where "k < length (orderClusters ?cl)" "rank ?cl c = int k" using r [OF a] by (metis of_nat_less_iff zero_le_imp_eq_int)
    then show "(x, st, c) \<in> set ?ops" using a by force
  qed auto
  then show ?thesis using getOpsInOrder_eq [OF ok] mem by simp
qed

lemma scheduleDependencies_spec:
  assumes wf: "wf_loop l" and ok: "schedule_ok s"
  shows "\<exists>s'. scheduleDependencies l s = Some s' \<and> schedule_ok s' \<and> clusters s' = clusters s \<and> numStages s' = numStages s \<and>
    (\<forall>x < bodySize l. settled l s' x) \<and> (\<forall>x st c. low s st c x \<longrightarrow> low s' st c x)"
proof -
  obtain ops where ops: "getOpsInOrder l s = Some ops"
    "\<And>x st c. (x, st, c) \<in> set ops \<longleftrightarrow> x < bodySize l \<and> place s x = Some (st, Some c)" using getOpsInOrder_ok [OF ok, of l] by blast
  let ?as = "concat (map (\<lambda>stage. filter (\<lambda>(_, st, _). st = int stage) ops) [0..<nat (numStages s)])"
  have range: "0 \<le> st \<and> st < numStages s \<and> c \<in> nodes (clusters s)" if "place s x = Some (st, Some c)" for x st c
    using placeD [OF ok that] by blast
  have mem: "(x, st, c) \<in> set ?as \<longleftrightarrow> x < bodySize l \<and> place s x = Some (st, Some c)" for x st c
  proof
    assume a: "x < bodySize l \<and> place s x = Some (st, Some c)"
    then obtain k where k: "st = int k" "k < nat (numStages s)" using range [of x st c] by (metis nat_int nat_less_eq_zless nonneg_int_cases)
    have "(x, st, c) \<in> set ops" using a ops(2) by blast
    then show "(x, st, c) \<in> set ?as" using k by force
  qed (use ops(2) in auto)
  have as: "\<forall>(x, st, c) \<in> set ?as. x < bodySize l \<and> 0 \<le> st \<and> st < numStages s \<and> c \<in> nodes (clusters s)"
    using mem range by blast
  have inv: "\<forall>x < bodySize l. settled l s x \<or> (\<exists>st c. place s x = Some (st, Some c) \<and> (x, st, c) \<in> set ?as)"
    using mem unfolding settled_def by blast
  from schedule_deps_spec [OF wf ok as inv] show ?thesis by (simp add: scheduleDependencies_def ops(1))
qed

end
