(* ===== verification/ScheduleSafety.thy ===== *)
theory ScheduleSafety
  imports ScheduleLemmas
begin

text \<open>
  The steps of the scheduler keep the schedule valid, and after the dependencies no operation of the body is
  before what it reads; the last step schedules the rest so that this stays true.
\<close>

section \<open>Adding operations and clusters\<close>

lemma insertIfAbsent_new:
  assumes "st < numStages s"
  shows "snd (insertIfAbsent op st c s) = (if place s op = None then assign op st (Some c) s else s)"
  using assms by (simp add: insertIfAbsent_def insert_op_in_range)

lemma low_new: "place s x = None \<Longrightarrow> low s st1 c1 d \<Longrightarrow> low (assign x st c s) st1 c1 d"
  by (auto simp: low_def place_assign)

lemma low_extends:
  assumes ok: "schedule_ok s" and e: "extends (clusters s) cl" and c: "c \<in> nodes (clusters s)"
  shows "low (s\<lparr>clusters := cl\<rparr>) st c d \<longleftrightarrow> low s st c d"
proof -
  have "rank cl c' \<le> rank cl c \<longleftrightarrow> rank (clusters s) c' \<le> rank (clusters s) c" if "place s d = Some (st', Some c')" for st' c'
    using placeD(3) [OF ok that] e c unfolding extends_def by (metis not_less)
  then show ?thesis unfolding low_def by auto
qed

lemma ok_extends:
  assumes ok: "schedule_ok s" and e: "extends (clusters s) cl"
  shows "schedule_ok (s\<lparr>clusters := cl\<rparr>)"
  using assms unfolding schedule_ok_def extends_def by fastforce

lemma settled_extends:
  assumes "schedule_ok s" "extends (clusters s) cl" "settled l s x"
  shows "settled l (s\<lparr>clusters := cl\<rparr>) x"
  using assms(3) low_extends [OF assms(1,2)] placeD(3) [OF assms(1)] by (auto simp: settled_def)

section \<open>The ends of the loop\<close>

text \<open>Operations that are not scheduled are added at stages in range, in known clusters.\<close>

definition adds :: "coarse_schedule \<Rightarrow> coarse_schedule \<Rightarrow> bool" where
  "adds s s' \<longleftrightarrow> schedule_ok s' \<and> clusters s' = clusters s \<and> numStages s' = numStages s \<and>
     (\<forall>x. place s x \<noteq> None \<longrightarrow> place s' x = place s x)"

lemma adds_new:
  assumes "schedule_ok s" "0 \<le> st" "st < numStages s" "c \<in> nodes (clusters s)"
  shows "adds s (snd (insertIfAbsent op st c s))" "place (snd (insertIfAbsent op st c s)) op \<noteq> None"
  using assms assign_ok [OF assms] by (auto simp: adds_def insertIfAbsent_new place_assign)

lemma adds_trans: "adds a b \<Longrightarrow> adds b c \<Longrightarrow> adds a c"
  unfolding adds_def by metis

lemma fold_adds:
  assumes "schedule_ok s" "\<forall>(op, st) \<in> set xs. 0 \<le> st \<and> st < numStages s" "c \<in> nodes (clusters s)"
  shows "adds s (fold (\<lambda>(op, st) s. snd (insertIfAbsent op st c s)) xs s) \<and>
    (\<forall>(op, st) \<in> set xs. place (fold (\<lambda>(op, st) s. snd (insertIfAbsent op st c s)) xs s) op \<noteq> None)"
  using assms
proof (induction xs arbitrary: s)
  case Nil
  then show ?case by (simp add: adds_def)
next
  case (Cons x xs)
  obtain op st where x: "x = (op, st)" by (cases x)
  let ?s = "snd (insertIfAbsent op st c s)"
  have a: "adds s ?s" "place ?s op \<noteq> None" using adds_new [OF Cons.prems(1) _ _ Cons.prems(3)] Cons.prems(2) x by auto
  then have s: "schedule_ok ?s" "clusters ?s = clusters s" "numStages ?s = numStages s" by (simp_all add: adds_def)
  let ?r = "fold (\<lambda>(op, st) s. snd (insertIfAbsent op st c s)) xs ?s"
  have r: "adds ?s ?r" "\<forall>(op, st) \<in> set xs. place ?r op \<noteq> None" using Cons.IH [OF s(1)] Cons.prems(2,3) s(2,3) by auto
  have "place ?r op \<noteq> None" using r(1) a(2) by (simp add: adds_def)
  then show ?case using r adds_trans [OF a(1) r(1)] x by auto
qed

lemma fold_first:
  "fst ` set (fold (\<lambda>(k, v) m. if map_of m k = None then m @ [(k, v)] else m) xs m) = fst ` set m \<union> fst ` set xs \<and>
   set (fold (\<lambda>(k, v) m. if map_of m k = None then m @ [(k, v)] else m) xs m) \<subseteq> set m \<union> set xs"
proof (induction xs arbitrary: m)
  case (Cons x xs)
  obtain k v where x: "x = (k, v)" by (cases x)
  show ?case
  proof (cases "map_of m k = None")
    case True
    then show ?thesis using Cons [of "m @ [(k, v)]"] x by auto
  next
    case False
    then have "k \<in> fst ` set m" by (metis map_of_eq_None_iff)
    then show ?thesis using Cons [of m] x False by auto
  qed
qed simp

lemma ifs_to_stage_ok:
  assumes ok: "schedule_ok s"
  shows "\<exists>ifs. ifs_to_stage l s = Some ifs \<and> (\<forall>(op, st) \<in> set ifs. 0 \<le> st \<and> st < numStages s)"
proof -
  obtain ops where ops: "getOpsInOrder l s = Some ops" using getOpsInOrder_ok [OF ok, of l] by blast
  define pairs where "pairs = concat (map (\<lambda>stage. concat (map (\<lambda>(op, st, _). if st = int stage then map (\<lambda>i. (i, st)) (backwardIfs l op) else []) ops))
      [0..<nat (numStages s)])"
  define ifs where "ifs = fold (\<lambda>(ifOp, stage) m. if map_of m ifOp = None then m @ [(ifOp, stage)] else m) pairs []"
  have "0 \<le> st \<and> st < numStages s" if "(op, st) \<in> set pairs" for op st
    using that unfolding pairs_def by (auto split: if_splits)
  moreover have "set ifs \<subseteq> set pairs" unfolding ifs_def using fold_first [of pairs "[]"] by simp
  ultimately have "\<forall>(op, st) \<in> set ifs. 0 \<le> st \<and> st < numStages s" by blast
  moreover have "ifs_to_stage l s = Some ifs" unfolding ifs_to_stage_def ops ifs_def pairs_def by simp
  ultimately show ?thesis by blast
qed

text \<open>The scheduler's two additions, one at each end.\<close>

lemma adds_extended:
  assumes "schedule_ok s" "extends (clusters s) cl" "adds (s\<lparr>clusters := cl\<rparr>) s'"
  shows "schedule_ok s'" "numStages s' = numStages s" "extends (clusters s) (clusters s')" "\<And>x. place s x \<noteq> None \<Longrightarrow> place s' x = place s x"
  using assms by (simp_all add: adds_def)

lemma prologue_epilogue_spec:
  assumes ok: "schedule_ok s" and n: "0 < numStages s" and ne: "nodes (clusters s) \<noteq> {}"
  shows "\<exists>ap s'. schedulePrologueAndEpilogue l s = Some (ap, s') \<and> schedule_ok s' \<and> ap \<in> nodes (clusters s') \<and>
    numStages s' = numStages s \<and> extends (clusters s) (clusters s') \<and> (\<forall>x. place s x \<noteq> None \<longrightarrow> place s' x = place s x) \<and>
    (\<forall>x < bodySize l. isIf l x \<longrightarrow> place s' x \<noteq> None)"
proof -
  obtain ap i cs where first: "orderClusters (clusters s) = (ap, i) # cs" using ne by (cases "orderClusters (clusters s)") auto
  then have ap: "ap \<in> nodes (clusters s)" by simp
  obtain ifs where ifs: "ifs_to_stage l s = Some ifs" "\<forall>(op, st) \<in> set ifs. 0 \<le> st \<and> st < numStages s"
    using ifs_to_stage_ok [OF ok] by blast
  define s1 where "s1 = (if ifs = [] then s else (let (prologue, cl) = newAtFront (clusters s)
      in fold (\<lambda>(ifOp, stage) s. snd (insertIfAbsent ifOp stage prologue s)) ifs (s\<lparr>clusters := cl\<rparr>)))"
  have "schedule_ok s1 \<and> numStages s1 = numStages s \<and> extends (clusters s) (clusters s1) \<and>
      (\<forall>x. place s x \<noteq> None \<longrightarrow> place s1 x = place s x) \<and> (\<forall>x. x \<in> fst ` set ifs \<longrightarrow> place s1 x \<noteq> None)"
  proof (cases "ifs = []")
    case True
    then show ?thesis
      using ok extends_refl unfolding s1_def schedule_ok_def by auto
  next
    case False
    obtain p cl where p: "newAtFront (clusters s) = (p, cl)" by (cases "newAtFront (clusters s)")
    have cl: "clusters_ok (clusters s)" using ok by (simp add: schedule_ok_def)
    note f = newAtFront_ok [OF cl p]
    have e: "s1 = fold (\<lambda>(ifOp, stage) s. snd (insertIfAbsent ifOp stage p s)) ifs (s\<lparr>clusters := cl\<rparr>)" using False p by (simp add: s1_def)
    have a: "adds (s\<lparr>clusters := cl\<rparr>) s1 \<and> (\<forall>(op, st) \<in> set ifs. place s1 op \<noteq> None)"
      unfolding e by (rule fold_adds [OF ok_extends [OF ok f(1)]]) (use ifs(2) f(2) in simp_all)
    then show ?thesis
      using adds_extended [OF ok f(1)] by auto
  qed
  then have s1: "schedule_ok s1" "numStages s1 = numStages s" "extends (clusters s) (clusters s1)"
      "\<And>x. place s x \<noteq> None \<Longrightarrow> place s1 x = place s x" "\<And>x. x \<in> fst ` set ifs \<Longrightarrow> place s1 x \<noteq> None" by blast+
  obtain e cl2 where e: "newAtBack (clusters s1) = (e, cl2)" by (cases "newAtBack (clusters s1)")
  have cl1: "clusters_ok (clusters s1)" using s1(1) by (simp add: schedule_ok_def)
  note b = newAtBack_ok [OF cl1 e]
  define later where "later = map (\<lambda>op. (op, numStages s1 - 1)) (filter (\<lambda>op. isIf l op \<and> map_of ifs op = None) (bodyOps l))"
  define s2 where "s2 = fold (\<lambda>(op, st) s. snd (insertIfAbsent op st e s)) later (s1\<lparr>clusters := cl2\<rparr>)"
  have a: "adds (s1\<lparr>clusters := cl2\<rparr>) s2 \<and> (\<forall>(op, st) \<in> set later. place s2 op \<noteq> None)"
    unfolding s2_def by (rule fold_adds [OF ok_extends [OF s1(1) b(1)]]) (use n s1(2) b(2) in \<open>auto simp: later_def\<close>)
  note s2 = adds_extended [OF s1(1) b(1) conjunct1 [OF a]]
  have "fold (\<lambda>op s'. if isIf l op \<and> map_of ifs op = None then snd (insertIfAbsent op (N - 1) e s') else s') ops t
      = fold (\<lambda>(op, st) s. snd (insertIfAbsent op st e s)) (map (\<lambda>op. (op, N - 1)) (filter (\<lambda>op. isIf l op \<and> map_of ifs op = None) ops)) t"
    for ops t N
    by (induction ops arbitrary: t) auto
  then have "schedulePrologueAndEpilogue l s = Some (ap, s2)"
    by (simp add: schedulePrologueAndEpilogue_def first ifs(1) s1_def [symmetric] e s2_def later_def Let_def s1(2))
  moreover have "place s2 x \<noteq> None" if "x < bodySize l" "isIf l x" for x
  proof (cases "x \<in> fst ` set ifs")
    case True
    then show ?thesis using s1(5) s2(4) by metis
  next
    case False
    then have "(x, numStages s1 - 1) \<in> set later" using that by (auto simp: later_def map_of_eq_None_iff)
    then show ?thesis using a by blast
  qed
  moreover have "extends (clusters s) (clusters s2)" by (rule extends_trans [OF s1(3) s2(3)])
  moreover have "ap \<in> nodes (clusters s2)" using ap \<open>extends (clusters s) (clusters s2)\<close> unfolding extends_def by blast
  moreover have "place s2 x = place s x" if "place s x \<noteq> None" for x using s1(4) [OF that] s2(4) that by metis
  ultimately show ?thesis using s2(1,2) s1(2) by auto
qed

section \<open>Dependencies of the next iteration\<close>

lemma outer_deps: "opOperands (allOps l ! x) = [] \<Longrightarrow> insertDepsOfOp l x st c arg True s = Some (False, s)"
  by (subst insertDepsOfOp_def, subst insert_deps.simps) simp

text \<open>A new operation, then what it depends on.\<close>

lemma insert_with_deps:
  assumes wf: "wf_loop l" and x: "x < bodySize l \<or> opOperands (allOps l ! x) = []" and new: "place s x = None"
    and ok: "schedule_ok s" "0 \<le> st" "st < numStages s" "c \<in> nodes (clusters s)" and se: "\<forall>y < bodySize l. settled l s y"
  shows "\<exists>b s'. insertDepsOfOp l x st c True True (snd (insertIfAbsent x st c s)) = Some (b, s') \<and> schedule_ok s' \<and>
    clusters s' = clusters s \<and> numStages s' = numStages s \<and> (\<forall>y < bodySize l. settled l s' y) \<and>
    (\<forall>y. place s y \<noteq> None \<longrightarrow> place s' y \<noteq> None)"
proof -
  let ?s = "assign x st (Some c) s"
  have s1: "snd (insertIfAbsent x st c s) = ?s" using new ok(3) by (simp add: insertIfAbsent_new)
  have ok1: "schedule_ok ?s" by (rule assign_ok [OF ok])
  have se1: "settled l ?s y" if "y < bodySize l" "y \<noteq> x" for y
    using se that low_new [OF new] by (auto simp: settled_def place_assign)
  have pl: "place ?s y \<noteq> None" if "place s y \<noteq> None" for y using that by (simp add: place_assign)
  show ?thesis
  proof (cases "x < bodySize l")
    case False
    then have "insertDepsOfOp l x st c True True ?s = Some (False, ?s)" using x outer_deps by blast
    moreover have "\<forall>y < bodySize l. settled l ?s y" using se1 False by blast
    ultimately show ?thesis using s1 ok1 pl by (intro exI [of _ False] exI [of _ ?s]) simp
  next
    case True
    have "st < numStages ?s" "c \<in> nodes (clusters ?s)" using ok(3,4) by (simp_all only: assign_fields)
    from deps_of_op [OF wf True ok1 ok(2) this]
    obtain b s' where s': "insertDepsOfOp l x st c True True ?s = Some (b, s')" "moved_to l 0 True st c ?s s'" "schedule_ok s'"
      "\<forall>d \<in> body_deps l x. low s' st c d" by blast
    have "settled l s' y" if y: "y < bodySize l" for y
    proof (cases "place s' y = place ?s y \<and> y = x")
      case True
      then show ?thesis using s'(4) by (auto simp: settled_def place_assign)
    next
      case False
      show ?thesis by (rule settled_moved [OF wf s'(2) ok1 y]) (use False se1 [OF y] in blast)
    qed
    moreover have "place s' y \<noteq> None" if "place s y \<noteq> None" for y
    proof -
      have "place s' y = place ?s y \<or> place s' y = Some (st, Some c)" using s'(2) unfolding moved_to_def by blast
      then show ?thesis using pl [OF that] by auto
    qed
    ultimately show ?thesis using s' s1 unfolding moved_to_def by auto
  qed
qed

definition dist_inv :: "loop \<Rightarrow> int \<Rightarrow> cluster_list \<Rightarrow> coarse_schedule \<Rightarrow> dist_state \<Rightarrow> bool" where
  "dist_inv l N cl s0 d \<longleftrightarrow> schedule_ok (fst d) \<and> numStages (fst d) = N \<and> extends cl (clusters (fst d)) \<and>
     (\<forall>y < bodySize l. settled l (fst d) y) \<and> (\<forall>c n. snd d c = Some n \<longrightarrow> n \<in> nodes (clusters (fst d))) \<and>
     (\<forall>y. place s0 y \<noteq> None \<longrightarrow> place (fst d) y \<noteq> None)"

lemma dist_cluster_spec:
  assumes d: "dist_inv l N cl s0 d" and c: "c \<in> nodes (clusters (fst d))"
  shows "\<exists>n d'. dist_cluster c d = Some (n, d') \<and> dist_inv l N cl s0 d' \<and> n \<in> nodes (clusters (fst d')) \<and> place (fst d') = place (fst d) \<and>
    extends (clusters (fst d)) (clusters (fst d'))"
proof (cases "snd d c")
  case (Some n)
  have "clusters_ok (clusters (fst d))" using d by (simp add: dist_inv_def schedule_ok_def)
  then show ?thesis using Some d by (auto simp: dist_cluster_def dist_inv_def extends_refl)
next
  case None
  have ok: "schedule_ok (fst d)" using d by (simp add: dist_inv_def)
  then have cl: "clusters_ok (clusters (fst d))" by (simp add: schedule_ok_def)
  obtain n cl' where n: "newBefore c (clusters (fst d)) = Some (n, cl')" "extends (clusters (fst d)) cl'" "n \<in> nodes cl'"
    "nodes cl' = insert n (nodes (clusters (fst d)))" by (rule newBefore_ok [OF cl c])
  let ?d = "((fst d)\<lparr>clusters := cl'\<rparr>, (snd d)(c \<mapsto> n))"
  have "dist_inv l N cl s0 ?d"
    unfolding dist_inv_def fst_conv snd_conv
  proof (intro conjI allI impI)
    show "schedule_ok ((fst d)\<lparr>clusters := cl'\<rparr>)" by (rule ok_extends [OF ok n(2)])
    show "extends cl (clusters ((fst d)\<lparr>clusters := cl'\<rparr>))" using d extends_trans [OF _ n(2)] by (simp add: dist_inv_def)
    show "settled l ((fst d)\<lparr>clusters := cl'\<rparr>) y" if "y < bodySize l" for y
      using settled_extends [OF ok n(2)] d that by (simp add: dist_inv_def)
    show "m \<in> nodes (clusters ((fst d)\<lparr>clusters := cl'\<rparr>))" if "((snd d)(c \<mapsto> n)) a = Some m" for a m
      using d that n(4) by (auto simp: dist_inv_def split: if_splits)
  qed (use d in \<open>simp_all add: dist_inv_def\<close>)
  then show ?thesis using None n by (simp add: dist_cluster_def)
qed

lemma dist_insert:
  assumes wf: "wf_loop l" and d: "dist_inv l N cl s0 d" and x: "x < bodySize l \<or> opOperands (allOps l ! x) = []"
    and new: "place (fst d) x = None" and st: "0 \<le> st" "st < N" and c: "c \<in> nodes (clusters (fst d))"
  shows "\<exists>b s'. insertDepsOfOp l x st c True True (snd (insertIfAbsent x st c (fst d))) = Some (b, s') \<and> dist_inv l N cl s0 (s', snd d)
    \<and> clusters s' = clusters (fst d)"
proof -
  have i: "schedule_ok (fst d)" "numStages (fst d) = N" "\<forall>y < bodySize l. settled l (fst d) y" using d by (simp_all add: dist_inv_def)
  obtain b s' where s': "insertDepsOfOp l x st c True True (snd (insertIfAbsent x st c (fst d))) = Some (b, s')" "schedule_ok s'"
    "clusters s' = clusters (fst d)" "numStages s' = numStages (fst d)" "\<forall>y < bodySize l. settled l s' y"
    "\<forall>y. place (fst d) y \<noteq> None \<longrightarrow> place s' y \<noteq> None"
    using insert_with_deps [OF wf x new i(1) st(1) _ c i(3)] st(2) i(2) by auto
  then have "dist_inv l N cl s0 (s', snd d)" using d by (auto simp: dist_inv_def)
  then show ?thesis using s' by blast
qed

lemma dist_def_spec:
  assumes wf: "wf_loop l" and d: "dist_inv l N cl s0 d" and x: "x < bodySize l \<or> opOperands (allOps l ! x) = []"
    and st: "0 \<le> st" "st + 1 < N" and c: "c \<in> nodes (clusters (fst d))"
  shows "\<exists>d'. schedule_dist_def l st c x d = Some d' \<and> dist_inv l N cl s0 d' \<and> c \<in> nodes (clusters (fst d'))"
proof -
  consider "place (fst d) x \<noteq> None" | "place (fst d) x = None" "isLoadOp (allOps l ! x)" | "place (fst d) x = None" "\<not> isLoadOp (allOps l ! x)" by blast
  then show ?thesis
  proof cases
    case 1
    then show ?thesis using d c by (auto simp: schedule_dist_def_def)
  next
    case 2
    have "st < N" using st(2) by simp
    from dist_insert [OF wf d x 2(1) st(1) this c] obtain b s' where
      "insertDepsOfOp l x st c True True (snd (insertIfAbsent x st c (fst d))) = Some (b, s')" "dist_inv l N cl s0 (s', snd d)"
      "clusters s' = clusters (fst d)" by blast
    then show ?thesis using 2 c by (simp add: schedule_dist_def_def)
  next
    case 3
    obtain n d1 where n: "dist_cluster c d = Some (n, d1)" "dist_inv l N cl s0 d1" "n \<in> nodes (clusters (fst d1))" "place (fst d1) = place (fst d)"
      "extends (clusters (fst d)) (clusters (fst d1))" using dist_cluster_spec [OF d c] by blast
    have c1: "c \<in> nodes (clusters (fst d1))" using n(5) c unfolding extends_def by blast
    have "place (fst d1) x = None" "0 \<le> st + 1" using 3(1) n(4) st(1) by simp_all
    from dist_insert [OF wf n(2) x this st(2) n(3)] obtain b s' where
      "insertDepsOfOp l x (st + 1) n True True (snd (insertIfAbsent x (st + 1) n (fst d1))) = Some (b, s')" "dist_inv l N cl s0 (s', snd d1)"
      "clusters s' = clusters (fst d1)" by blast
    then show ?thesis using 3 n(1) c1 by (simp add: schedule_dist_def_def)
  qed
qed

lemma dist_one_spec:
  assumes wf: "wf_loop l" and d: "dist_inv l N cl s0 d" and v: "value_ok l v" and st: "0 \<le> st" "st + 1 < N" and c: "c \<in> nodes (clusters (fst d))"
  shows "\<exists>d'. schedule_dist_one l st c v d = Some d' \<and> dist_inv l N cl s0 d' \<and> c \<in> nodes (clusters (fst d'))"
proof (cases "\<exists>n. v = BlockArg 0 n \<and> 0 < n")
  case False
  then have "schedule_dist_one l st c v d = Some d" by (auto simp: schedule_dist_one_def split: loop_value.splits)
  then show ?thesis using d c by blast
next
  case True
  then obtain n where n: "v = BlockArg 0 n" "0 < n" "n \<le> length (terminators l ! 0)" using v by (auto simp: value_ok_def)
  let ?y = "terminators l ! 0 ! (n - 1)"
  have t: "terminatorOperand l 0 (n - 1) = Some ?y" using n wf_parts(1) [OF wf] by (simp add: terminatorOperand_def)
  have "?y \<in> set (terminators l ! 0)" using n by simp
  then have y: "value_ok l ?y" "\<And>x. ?y = OpResult x \<Longrightarrow> bodySize l \<le> x \<Longrightarrow> opOperands (allOps l ! x) = []"
    using wf_parts(5) [OF wf] by blast+
  show ?thesis
  proof (cases ?y)
    case (OpResult x)
    have "x < bodySize l \<or> opOperands (allOps l ! x) = []" using y(2) [OF OpResult] by linarith
    from dist_def_spec [OF wf d this st c] show ?thesis using n t OpResult by (simp add: schedule_dist_one_def)
  next
    case BlockArg
    then show ?thesis using n t d c by (simp add: schedule_dist_one_def)
  qed
qed

lemma dist_op_spec:
  assumes wf: "wf_loop l" and d: "dist_inv l N cl s0 d" and x: "x < bodySize l"
  shows "\<exists>d'. schedule_dist_op l N x d = Some d' \<and> dist_inv l N cl s0 d'"
proof (cases "place (fst d) x")
  case None
  then show ?thesis using d by (simp add: schedule_dist_op_def)
next
  case (Some p)
  have ok: "schedule_ok (fst d)" "numStages (fst d) = N" using d by (simp_all add: dist_inv_def)
  obtain st c where p: "place (fst d) x = Some (st, Some c)"
    using Some ok(1) unfolding schedule_ok_def by (metis prod.exhaust)
  note r = placeD [OF ok(1) p]
  show ?thesis
  proof (cases "st = N - 1")
    case True
    then show ?thesis using p d by (simp add: schedule_dist_op_def)
  next
    case False
    then have st: "0 \<le> st" "st + 1 < N" using r ok(2) by auto
    have "\<exists>d'. fold (\<lambda>v acc. Option.bind acc (schedule_dist_one l st c v)) vs (Some d) = Some d' \<and> dist_inv l N cl s0 d'"
      if "dist_inv l N cl s0 d" "c \<in> nodes (clusters (fst d))" "\<forall>v \<in> set vs. value_ok l v" for vs d
      using that
    proof (induction vs arbitrary: d)
      case (Cons v vs)
      have "value_ok l v" using Cons.prems(3) by simp
      from dist_one_spec [OF wf Cons.prems(1) this st Cons.prems(2)]
      obtain d1 where "schedule_dist_one l st c v d = Some d1" "dist_inv l N cl s0 d1" "c \<in> nodes (clusters (fst d1))" by blast
      then show ?case using Cons.IH [of d1] Cons.prems(3) by simp
    qed simp
    moreover have "\<forall>v \<in> set (opOperands (allOps l ! x)). value_ok l v" using wf_parts(4) [OF wf] x by blast
    ultimately show ?thesis using d r(3) False p by (simp add: schedule_dist_op_def)
  qed
qed

lemma distance_one_spec:
  assumes wf: "wf_loop l" and ok: "schedule_ok s" and se: "\<forall>y < bodySize l. settled l s y"
  shows "\<exists>s'. scheduleDistanceOneDependencies l s = Some s' \<and> schedule_ok s' \<and> numStages s' = numStages s \<and>
    extends (clusters s) (clusters s') \<and> (\<forall>y < bodySize l. settled l s' y) \<and> (\<forall>y. place s y \<noteq> None \<longrightarrow> place s' y \<noteq> None)"
proof -
  have "\<exists>d'. fold (\<lambda>op acc. Option.bind acc (schedule_dist_op l (numStages s) op)) ops (Some d) = Some d' \<and>
      dist_inv l (numStages s) (clusters s) s d'"
    if "dist_inv l (numStages s) (clusters s) s d" "\<forall>x \<in> set ops. x < bodySize l" for ops d
    using that
  proof (induction ops arbitrary: d)
    case (Cons x ops)
    obtain d1 where "schedule_dist_op l (numStages s) x d = Some d1" "dist_inv l (numStages s) (clusters s) s d1"
      using dist_op_spec [OF wf Cons.prems(1), of x] Cons.prems(2) by auto
    then show ?case using Cons.IH [of d1] Cons.prems(2) by simp
  qed simp
  moreover have "dist_inv l (numStages s) (clusters s) s (s, \<lambda>_. None)"
    using ok se by (auto simp: dist_inv_def schedule_ok_def extends_refl)
  ultimately obtain d' where "fold (\<lambda>op acc. Option.bind acc (schedule_dist_op l (numStages s) op)) (bodyOps l) (Some (s, \<lambda>_. None)) = Some d'"
    "dist_inv l (numStages s) (clusters s) s d'" by force
  then show ?thesis by (simp add: scheduleDistanceOneDependencies_def dist_inv_def)
qed

section \<open>The rest\<close>

text \<open>The cluster an operation has so far.\<close>

definition cluster_of :: "coarse_schedule \<Rightarrow> (nat \<Rightarrow> cluster option) \<Rightarrow> nat \<Rightarrow> cluster option" where
  "cluster_of s m op = (case place s op of Some (_, c) \<Rightarrow> c | None \<Rightarrow> m op)"

definition behind :: "loop \<Rightarrow> coarse_schedule \<Rightarrow> (nat \<Rightarrow> cluster option) \<Rightarrow> nat \<Rightarrow> nat \<Rightarrow> bool" where
  "behind l s m d u \<longleftrightarrow> (\<forall>c c'. cluster_of s m d = Some c \<longrightarrow> m u = Some c' \<longrightarrow> rank (clusters s) c \<le> rank (clusters s) c')"

text \<open>Operations of the body that are not scheduled have known clusters; an operation outside of the queue is not
  behind the operations that use it.\<close>

definition push_inv :: "loop \<Rightarrow> coarse_schedule \<Rightarrow> nat \<Rightarrow> loop_user list \<Rightarrow> nat list \<Rightarrow> (nat \<Rightarrow> cluster option) \<Rightarrow> bool" where
  "push_inv l s op us q m \<longleftrightarrow> (\<forall>u. m u \<noteq> None \<longleftrightarrow> u < bodySize l \<and> place s u = None) \<and>
     (\<forall>u c. m u = Some c \<longrightarrow> c \<in> nodes (clusters s)) \<and> (\<forall>d \<in> set q. d < bodySize l) \<and>
     (\<forall>d u. d < bodySize l \<longrightarrow> (\<forall>st c. place s d = Some (st, c) \<longrightarrow> st = numStages s - 1) \<longrightarrow>
        DirectUser u \<in> set (opUsers (allOps l ! d)) \<longrightarrow> d \<in> set q \<or> behind l s m d u \<or> d = op \<and> DirectUser u \<in> set us)"

definition room :: "loop \<Rightarrow> coarse_schedule \<Rightarrow> (nat \<Rightarrow> cluster option) \<Rightarrow> nat" where
  "room l s m = (\<Sum>u < bodySize l. case m u of Some c \<Rightarrow> nat (int (length (orderClusters (clusters s))) - rank (clusters s) c) | None \<Rightarrow> 0)"

lemma rank_bounds: "clusters_ok cl \<Longrightarrow> c \<in> nodes cl \<Longrightarrow> 0 \<le> rank cl c \<and> rank cl c < int (length (orderClusters cl))"
  by (erule (1) node_position) simp

lemma room_less:
  assumes m: "m u = Some a" "u < bodySize l" and ab: "rank (clusters s) a < rank (clusters s) b"
    and b: "rank (clusters s) b < int (length (orderClusters (clusters s)))"
  shows "room l s (m(u \<mapsto> b)) < room l s m"
  unfolding room_def
proof (rule sum_strict_mono_ex1)
  show "\<exists>x \<in> {..<bodySize l}. (case (m(u \<mapsto> b)) x of None \<Rightarrow> 0 | Some c \<Rightarrow> nat (int (length (orderClusters (clusters s))) - rank (clusters s) c))
      < (case m x of None \<Rightarrow> 0 | Some c \<Rightarrow> nat (int (length (orderClusters (clusters s))) - rank (clusters s) c))"
    by (rule bexI [of _ u]) (use m ab b in simp_all)
qed (use m ab in auto)

text \<open>One user: it stays, or moves to the cluster of the operation and into the queue.\<close>

lemma push_user_spec:
  assumes ok: "schedule_ok s" and op: "op < bodySize l" and i: "push_inv l s op (u # us) q m" and later: "\<And>x. u = DirectUser x \<Longrightarrow> op < x \<and> x < bodySize l"
  shows "\<exists>q' m'. push_user s op u (q, m) = Some (q', m') \<and> push_inv l s op us q' m' \<and>
    (q' = q \<and> m' = m \<or> room l s m' < room l s m)"
proof (cases "\<exists>x a. u = DirectUser x \<and> m x = Some a")
  case False
  have free: "behind l s m d y" if "u = DirectUser y" for d y using False that by (auto simp: behind_def)
  have "push_inv l s op us q m" unfolding push_inv_def
  proof (intro conjI allI impI)
    fix d y assume "d < bodySize l" "\<forall>st c. place s d = Some (st, c) \<longrightarrow> st = numStages s - 1" "DirectUser y \<in> set (opUsers (allOps l ! d))"
    then have "d \<in> set q \<or> behind l s m d y \<or> d = op \<and> DirectUser y \<in> set (u # us)" using i unfolding push_inv_def by blast
    then show "d \<in> set q \<or> behind l s m d y \<or> d = op \<and> DirectUser y \<in> set us" using free [of y d] by auto
  qed (use i in \<open>unfold push_inv_def, blast+\<close>)
  moreover have "push_user s op u (q, m) = Some (q, m)" using False by (auto simp: push_user_def split: loop_user.splits option.splits)
  ultimately show ?thesis by blast
next
  case True
  then obtain x a where x: "u = DirectUser x" "m x = Some a" by blast
  note lx = later [OF x(1)]
  have cl: "clusters_ok (clusters s)" using ok by (simp add: schedule_ok_def)
  have dom: "\<And>y. m y \<noteq> None \<longleftrightarrow> y < bodySize l \<and> place s y = None" and known: "\<And>y c. m y = Some c \<Longrightarrow> c \<in> nodes (clusters s)"
    and q: "\<And>d. d \<in> set q \<Longrightarrow> d < bodySize l"
    and rel: "\<And>d y. d < bodySize l \<Longrightarrow> \<forall>st c. place s d = Some (st, c) \<longrightarrow> st = numStages s - 1 \<Longrightarrow>
        DirectUser y \<in> set (opUsers (allOps l ! d)) \<Longrightarrow> d \<in> set q \<or> behind l s m d y \<or> d = op \<and> DirectUser y \<in> set (u # us)"
    using i unfolding push_inv_def by blast+
  have "\<exists>b. cluster_of s m op = Some b \<and> b \<in> nodes (clusters s)"
  proof (cases "place s op")
    case None
    then show ?thesis using dom [of op] known op by (auto simp: cluster_of_def)
  next
    case (Some p)
    then obtain st c where p: "place s op = Some (st, Some c)" using ok unfolding schedule_ok_def by (metis prod.exhaust)
    then show ?thesis using placeD(3) [OF ok p] by (simp add: cluster_of_def)
  qed
  then obtain b where b: "cluster_of s m op = Some b" "b \<in> nodes (clusters s)" by blast
  have cb: "(case place s op of None \<Rightarrow> snd (q, m) op | Some (_, c) \<Rightarrow> c) = Some b"
    using b(1) by (cases "place s op") (auto simp: cluster_of_def)
  have step: "push_user s op u (q, m) = Some (if rank (clusters s) a < rank (clusters s) b then (x # q, m(x \<mapsto> b)) else (q, m))"
    using x clusterId_rank [OF cl known [OF x(2)]] clusterId_rank [OF cl b(2)] unfolding push_user_def cb by simp
  show ?thesis
  proof (cases "rank (clusters s) a < rank (clusters s) b")
    case False
    then have "behind l s m op x" using b(1) x(2) by (simp add: behind_def)
    then have "push_inv l s op us q m" using i x(1) unfolding push_inv_def by auto
    then show ?thesis using step False by auto
  next
    case True
    let ?m = "m(x \<mapsto> b)"
    have same: "cluster_of s ?m d = cluster_of s m d" if "d \<noteq> x" for d
      using that by (cases "place s d") (auto simp: cluster_of_def)
    have "behind l s ?m d y" if "behind l s m d y" "d \<noteq> x" for d y
      using that same [of d] x(2) True unfolding behind_def by (metis fun_upd_apply less_imp_le option.inject order_trans)
    moreover have "behind l s ?m op x" using same [of op] lx b(1) by (simp add: behind_def)
    ultimately have rel': "d \<in> set (x # q) \<or> behind l s ?m d y \<or> d = op \<and> DirectUser y \<in> set us"
      if "d < bodySize l" "\<forall>st c. place s d = Some (st, c) \<longrightarrow> st = numStages s - 1" "DirectUser y \<in> set (opUsers (allOps l ! d))" for d y
      using rel [OF that(1,2,3)] x(1) by auto
    have "push_inv l s op us (x # q) ?m" unfolding push_inv_def
    proof (intro conjI)
      show "\<forall>y. ?m y \<noteq> None \<longleftrightarrow> y < bodySize l \<and> place s y = None" using dom x(2) by (metis fun_upd_apply option.distinct(1))
      show "\<forall>y c. ?m y = Some c \<longrightarrow> c \<in> nodes (clusters s)" using known b(2) by (metis fun_upd_apply option.inject)
      show "\<forall>d \<in> set (x # q). d < bodySize l" using q lx by simp
    qed (use rel' in blast)
    moreover have "room l s ?m < room l s m"
      by (rule room_less [where s = s]) (use x lx True rank_bounds [OF cl b(2)] in simp_all)
    ultimately show ?thesis using step True by auto
  qed
qed

lemma push_fold:
  assumes ok: "schedule_ok s" and op: "op < bodySize l" and i: "push_inv l s op us q m"
    and later: "\<forall>x. DirectUser x \<in> set us \<longrightarrow> op < x \<and> x < bodySize l"
  shows "\<exists>q' m'. fold (\<lambda>u acc. Option.bind acc (push_user s op u)) us (Some (q, m)) = Some (q', m') \<and> push_inv l s op [] q' m' \<and>
    (q' = q \<and> m' = m \<or> room l s m' < room l s m)"
  using i later
proof (induction us arbitrary: q m)
  case (Cons u us)
  obtain q1 m1 where s1: "push_user s op u (q, m) = Some (q1, m1)" "push_inv l s op us q1 m1"
    "q1 = q \<and> m1 = m \<or> room l s m1 < room l s m" using push_user_spec [OF ok op Cons.prems(1)] Cons.prems(2) by auto
  obtain q2 m2 where "fold (\<lambda>u acc. Option.bind acc (push_user s op u)) us (Some (q1, m1)) = Some (q2, m2)" "push_inv l s op [] q2 m2"
    "q2 = q1 \<and> m2 = m1 \<or> room l s m2 < room l s m1" using Cons.IH [OF s1(2)] Cons.prems(2) by auto
  then show ?case using s1 by auto
qed simp

lemma pop_inv:
  assumes "push_inv l s op0 [] (op # q) m" shows "push_inv l s op (opUsers (allOps l ! op)) q m"
  unfolding push_inv_def
proof (intro conjI allI impI)
  fix d u assume "d < bodySize l" "\<forall>st c. place s d = Some (st, c) \<longrightarrow> st = numStages s - 1" and u: "DirectUser u \<in> set (opUsers (allOps l ! d))"
  then have "d \<in> set (op # q) \<or> behind l s m d u" using assms unfolding push_inv_def by auto
  then show "d \<in> set q \<or> behind l s m d u \<or> d = op \<and> DirectUser u \<in> set (opUsers (allOps l ! op))" using u by auto
qed (use assms in \<open>unfold push_inv_def, auto\<close>)

lemma push_users_spec:
  assumes wf: "wf_loop l" and ok: "schedule_ok s" and i: "push_inv l s op0 [] q m"
  shows "\<exists>m'. push_users l s q m = Some m' \<and> push_inv l s 0 [] [] m'"
  using i
proof (induction "room l s m" arbitrary: q m op0 rule: less_induct)
  case less
  note outer = less.hyps
  from less.prems show ?case
  proof (induction q arbitrary: op0)
    case Nil
    then have "push_inv l s 0 [] [] m" by (simp add: push_inv_def)
    moreover have "push_users l s [] m = Some m" by (subst push_users.simps) simp
    ultimately show ?case by simp
  next
    case (Cons op q)
    have op: "op < bodySize l" using Cons.prems by (simp add: push_inv_def)
    have later: "\<forall>x. DirectUser x \<in> set (opUsers (allOps l ! op)) \<longrightarrow> op < x \<and> x < bodySize l"
    proof (intro allI impI)
      fix x assume "DirectUser x \<in> set (opUsers (allOps l ! op))"
      then have "\<forall>i. body_user (DirectUser x) = Some i \<longrightarrow> op < i \<and> i < bodySize l" using wf_parts(7) [OF wf] op by blast
      then show "op < x \<and> x < bodySize l" by simp
    qed
    have "push_inv l s op (opUsers (allOps l ! op)) q m"
      by (rule pop_inv [OF Cons.prems])
    from push_fold [OF ok op this later] obtain q' m' where
      f: "fold (\<lambda>u acc. Option.bind acc (push_user s op u)) (opUsers (allOps l ! op)) (Some (q, m)) = Some (q', m')"
      "push_inv l s op [] q' m'" "q' = q \<and> m' = m \<or> room l s m' < room l s m" by blast
    have e: "push_users l s (op # q) m = push_users l s q' m'" using f(1) by (subst push_users.simps) simp
    show ?case using f(2,3) outer [of m' op q'] Cons.IH [of op] e by auto
  qed
qed

text \<open>Everything of the body is scheduled, and nothing before what it reads.\<close>

lemma fold_insert_map:
  assumes "st < numStages s" "distinct ops"
  shows "place (fold (\<lambda>op s'. case m op of Some c \<Rightarrow> insert_op op st (Some c) s' | None \<Rightarrow> s') ops s) x =
      (if x \<in> set ops \<and> m x \<noteq> None then Some (st, m x) else place s x) \<and>
    clusters (fold (\<lambda>op s'. case m op of Some c \<Rightarrow> insert_op op st (Some c) s' | None \<Rightarrow> s') ops s) = clusters s \<and>
    numStages (fold (\<lambda>op s'. case m op of Some c \<Rightarrow> insert_op op st (Some c) s' | None \<Rightarrow> s') ops s) = numStages s"
  using assms
proof (induction ops arbitrary: s)
  case (Cons op ops)
  show ?case
  proof (cases "m op")
    case None
    then show ?thesis using Cons.IH [of s] Cons.prems by auto
  next
    case (Some c)
    have "insert_op op st (Some c) s = assign op st (Some c) s" by (rule insert_op_in_range [OF Cons.prems(1)])
    then show ?thesis using Cons.IH [of "assign op st (Some c) s"] Cons.prems Some by (auto simp: place_assign)
  qed
qed simp

lemma remaining_spec:
  assumes wf: "wf_loop l" and ok: "schedule_ok s" and n: "0 < numStages s" and ap: "ap \<in> nodes (clusters s)"
    and se: "\<forall>x < bodySize l. settled l s x" and ifs: "\<forall>x < bodySize l. isIf l x \<longrightarrow> place s x \<noteq> None"
  shows "\<exists>s'. scheduleRemainingToLastStage l ap s = Some s' \<and> schedule_ok s' \<and> numStages s' = numStages s \<and> clusters s' = clusters s \<and>
    (\<forall>x < bodySize l. place s' x \<noteq> None \<and> settled l s' x)"
proof -
  let ?N = "numStages s - 1"
  let ?m = "\<lambda>op. if op < bodySize l \<and> place s op = None then Some ap else None"
  obtain ops where ops: "getOpsInOrder l s = Some ops"
    "\<And>x st c. (x, st, c) \<in> set ops \<longleftrightarrow> x < bodySize l \<and> place s x = Some (st, Some c)" using getOpsInOrder_ok [OF ok, of l] by blast
  let ?q = "rev (map fst (filter (\<lambda>(_, stage, _). stage = ?N) ops))"
  have "push_inv l s 0 [] ?q ?m" unfolding push_inv_def
  proof (intro conjI allI impI)
    show "\<forall>d \<in> set ?q. d < bodySize l" using ops(2) by auto
    fix d u assume d: "d < bodySize l" and last: "\<forall>st c. place s d = Some (st, c) \<longrightarrow> st = ?N"
    show "d \<in> set ?q \<or> behind l s ?m d u \<or> d = 0 \<and> DirectUser u \<in> set []"
    proof (cases "place s d")
      case None
      then have "behind l s ?m d u" by (simp add: behind_def cluster_of_def)
      then show ?thesis by blast
    next
      case (Some p)
      then obtain c where "place s d = Some (?N, Some c)" using last ok unfolding schedule_ok_def by (metis prod.exhaust)
      then have "(d, ?N, c) \<in> set ops" using ops(2) d by blast
      then show ?thesis by force
    qed
  qed (use ap in \<open>auto split: if_splits\<close>)
  from push_users_spec [OF wf ok this] obtain m where m: "push_users l s ?q ?m = Some m" "push_inv l s 0 [] [] m" by blast
  define s' where "s' = fold (\<lambda>op s'. case m op of Some c \<Rightarrow> insert_op op ?N (Some c) s' | None \<Rightarrow> s') (bodyOps l) s"
  have dom: "m u \<noteq> None \<longleftrightarrow> u < bodySize l \<and> place s u = None" and known: "m u = Some c \<Longrightarrow> c \<in> nodes (clusters s)" for u c
    using m(2) unfolding push_inv_def by blast+
  have rel: "behind l s m d u" if "d < bodySize l" "\<forall>st c. place s d = Some (st, c) \<longrightarrow> st = ?N" "DirectUser u \<in> set (opUsers (allOps l ! d))" for d u
    using m(2) that unfolding push_inv_def by simp
  have place: "place s' x = (if x < bodySize l \<and> m x \<noteq> None then Some (?N, m x) else place s x)" for x
    using fold_insert_map [of ?N s "bodyOps l" m x] by (simp add: s'_def)
  have same: "clusters s' = clusters s" "numStages s' = numStages s"
    using fold_insert_map [of ?N s "bodyOps l" m 0] by (simp_all add: s'_def)
  have run: "scheduleRemainingToLastStage l ap s = Some s'"
    unfolding scheduleRemainingToLastStage_def ops(1) s'_def using m(1) by simp
  have ok': "schedule_ok s'" unfolding schedule_ok_def
  proof (intro conjI allI impI)
    show "clusters_ok (clusters s')" using ok same by (simp add: schedule_ok_def)
    fix op st c assume "place s' op = Some (st, c)"
    then consider "place s op = Some (st, c)" | n where "st = ?N" "c = Some n" "m op = Some n"
    proof (cases "op < bodySize l \<and> m op \<noteq> None")
      assume h: "place s' op = Some (st, c)"
      case True
      then obtain n where n: "m op = Some n" by blast
      have "place s' op = Some (?N, Some n)" using place [of op] True n by simp
      then show ?thesis using that(2) n h by simp
    next
      assume h: "place s' op = Some (st, c)"
      case False
      have "place s' op = place s op" by (subst place) (rule if_not_P [OF False])
      then show ?thesis using that(1) h by simp
    qed
    then show "0 \<le> st" "st < numStages s'" "\<exists>n \<in> nodes (clusters s'). c = Some n"
      using ok n same known unfolding schedule_ok_def by (cases; force)+
  qed
  have lows: "low s' st c d" if "low s st c d" for st c d
  proof -
    have "place s d \<noteq> None" using that by (auto simp: low_def)
    then have "place s' d = place s d" using place dom by auto
    then show ?thesis using that same by (simp add: low_def)
  qed
  have all: "place s' x \<noteq> None" if "x < bodySize l" for x using place [of x] dom [of x] that by auto
  have "settled l s' x" if x: "x < bodySize l" for x
  proof (cases "m x")
    case None
    then have "place s' x = place s x" using place by simp
    then show ?thesis using se x lows by (simp add: settled_def)
  next
    case (Some c)
    have px: "place s' x = Some (?N, Some c)" "place s x = None" using place [of x] dom [of x] Some x by auto
    have "low s' ?N c d" if d: "d \<in> body_deps l x" for d
    proof -
      have dx: "d < bodySize l" using d by (simp add: body_deps_def)
      have "\<not> isIfOp (allOps l ! x)" using ifs x px(2) wf_loopD(1) [OF wf] by (auto simp: isIf_def)
      then have use: "DirectUser x \<in> set (opUsers (allOps l ! d))" using wf_parts(6) [OF wf] x d by blast
      show ?thesis
      proof (cases "\<forall>st c. place s d = Some (st, c) \<longrightarrow> st = ?N")
        case True
        have b: "behind l s m d x" by (rule rel [OF dx True use])
        obtain e where e: "cluster_of s m d = Some e" "place s' d = Some (?N, Some e)"
        proof (cases "place s d")
          case None
          then show ?thesis using that dom [of d] dx place [of d] by (auto simp: cluster_of_def)
        next
          case (Some p)
          then obtain e where "place s d = Some (?N, Some e)" using True ok unfolding schedule_ok_def by (metis prod.exhaust)
          then show ?thesis using that dom [of d] place [of d] by (auto simp: cluster_of_def)
        qed
        then show ?thesis using b Some same by (simp add: low_def behind_def)
      next
        case False
        then obtain st e where p: "place s d = Some (st, Some e)" "st \<noteq> ?N" using ok unfolding schedule_ok_def by (metis (no_types, lifting))
        then have "st < ?N" using placeD(2) [OF ok p(1)] by simp
        then have "low s ?N c d" using p(1) by (simp add: low_def)
        then show ?thesis by (rule lows)
      qed
    qed
    then show ?thesis using px by (simp add: settled_def)
  qed
  then show ?thesis using run ok' same all by blast
qed

end
