(* ===== verification/ScheduleKeys.thy ===== *)
theory ScheduleKeys
  imports ScheduleSafety
begin

text \<open>
  The initial schedule from latencies, and the schedule in attributes.
\<close>

section \<open>Distances\<close>

text \<open>Distances are not negative, and that of an operation is at least its latency plus that of any user.\<close>

definition latency :: "latencies \<Rightarrow> nat \<Rightarrow> int" where
  "latency lat op = (case lat op of Some k \<Rightarrow> k | None \<Rightarrow> 0)"

definition distances_ok :: "loop \<Rightarrow> latencies \<Rightarrow> (nat \<Rightarrow> int option) \<Rightarrow> bool" where
  "distances_ok l lat dist \<longleftrightarrow> (\<forall>i d. dist i = Some d \<longrightarrow> i < bodySize l \<and> 0 \<le> d \<and>
     (\<forall>u \<in> set (opUsers (allOps l ! i)). \<forall>j. body_user u = Some j \<longrightarrow> (\<exists>e. dist j = Some e \<and> latency lat i + e \<le> d)))"

lemma distances_insert:
  assumes ok: "distances_ok l lat dist" and i: "i < bodySize l" "dist i = None" and lat: "0 \<le> latency lat i"
    and users: "\<forall>u \<in> set (opUsers (allOps l ! i)). \<forall>j. body_user u = Some j \<longrightarrow> (\<exists>e. dist j = Some e \<and> e \<le> m)"
  shows "distances_ok l lat (dist(i \<mapsto> latency lat i + (if m < 0 then 0 else m)))"
  unfolding distances_ok_def
proof (intro allI impI)
  let ?d = "latency lat i + (if m < 0 then 0 else m)"
  fix k d assume k: "(dist(i \<mapsto> ?d)) k = Some d"
  show "k < bodySize l \<and> 0 \<le> d \<and> (\<forall>u \<in> set (opUsers (allOps l ! k)). \<forall>j. body_user u = Some j \<longrightarrow>
      (\<exists>e. (dist(i \<mapsto> ?d)) j = Some e \<and> latency lat k + e \<le> d))"
  proof (cases "k = i")
    case True
    have "\<exists>e. (dist(i \<mapsto> ?d)) j = Some e \<and> latency lat k + e \<le> d" if u: "u \<in> set (opUsers (allOps l ! k))" "body_user u = Some j" for u j
    proof -
      obtain e where e: "dist j = Some e" "e \<le> m" using users u True by blast
      then have "j \<noteq> i" using i(2) by auto
      then show ?thesis using e k True by auto
    qed
    moreover have "k < bodySize l" "0 \<le> d" using True k i lat by auto
    ultimately show ?thesis by blast
  next
    case False
    then have d: "dist k = Some d" using k by simp
    have "\<exists>e. (dist(i \<mapsto> ?d)) j = Some e \<and> latency lat k + e \<le> d" if u: "u \<in> set (opUsers (allOps l ! k))" "body_user u = Some j" for u j
    proof -
      obtain e where e: "dist j = Some e" "latency lat k + e \<le> d" using ok d u unfolding distances_ok_def by blast
      then have "j \<noteq> i" using i(2) by auto
      then show ?thesis using e by auto
    qed
    then show ?thesis using ok d unfolding distances_ok_def by blast
  qed
qed

lemma bounded_insert:
  assumes "\<forall>j e. dist j = Some e \<longrightarrow> j \<in> D \<or> e \<le> m" and "0 \<le> (k :: int)"
  shows "\<forall>j e. (dist(i \<mapsto> k + (if m < 0 then 0 else m))) j = Some e \<longrightarrow> j \<in> D \<or> e \<le> k + (if m < 0 then 0 else m)"
proof (intro allI impI)
  fix j e assume e: "(dist(i \<mapsto> k + (if m < 0 then 0 else m))) j = Some e"
  show "j \<in> D \<or> e \<le> k + (if m < 0 then 0 else m)"
  proof (cases "j = i")
    case False
    then have "j \<in> D \<or> e \<le> m" using assms(1) e by simp
    then show ?thesis using assms(2) by auto
  qed (use e in simp)
qed

lemma users_distance_spec:
  assumes wf: "wf_loop l" and lat: "\<And>i. 0 \<le> latency lat i"
    and us: "\<forall>u \<in> set us. \<forall>j. body_user u = Some j \<longrightarrow> k < j \<and> j < bodySize l" and ok: "distances_ok l lat dist"
  shows "\<exists>m dist'. users_distance l lat us acc dist = Some (m, dist') \<and> distances_ok l lat dist' \<and> dist \<subseteq>\<^sub>m dist' \<and> acc \<le> m \<and>
    (\<forall>u \<in> set us. \<forall>j. body_user u = Some j \<longrightarrow> (\<exists>d. dist' j = Some d \<and> d \<le> m)) \<and>
    (\<forall>j d. dist' j = Some d \<longrightarrow> j \<in> dom dist \<or> d \<le> m) \<and> (\<forall>j \<in> dom dist'. j \<in> dom dist \<or> k < j)"
  using us ok
proof (induction "bodySize l - k" arbitrary: k us acc dist rule: less_induct)
  case less
  note outer = less.hyps
  from less.prems show ?case
  proof (induction us arbitrary: acc dist)
    case Nil
    have "users_distance l lat [] acc dist = Some (acc, dist)" by (subst users_distance.simps) simp
    then show ?case using Nil by auto
  next
    case (Cons u us)
    have us: "\<forall>u \<in> set us. \<forall>j. body_user u = Some j \<longrightarrow> k < j \<and> j < bodySize l" using Cons.prems(1) by simp
    show ?case
    proof (cases "body_user u")
      case None
      have "users_distance l lat (u # us) acc dist = users_distance l lat us acc dist" by (subst users_distance.simps) (simp add: None)
      then show ?thesis using Cons.IH [OF us Cons.prems(2), of acc] None by auto
    next
      case (Some i)
      then have i: "k < i" "i < bodySize l" using Cons.prems(1) by auto
      obtain d dist1 where d: "users_distance l lat (u # us) acc dist = users_distance l lat us (max acc d) dist1" "distances_ok l lat dist1"
        "dist \<subseteq>\<^sub>m dist1" "dist1 i = Some d" "\<forall>j e. dist1 j = Some e \<longrightarrow> j \<in> dom dist \<or> e \<le> d" "\<forall>j \<in> dom dist1. j \<in> dom dist \<or> k < j"
      proof (cases "dist i")
        case (Some d)
        have "users_distance l lat (u # us) acc dist = users_distance l lat us (max acc d) dist"
          by (subst users_distance.simps) (simp add: Some \<open>body_user u = Some i\<close>)
        then show ?thesis using that [of d dist] Some Cons.prems(2) by auto
      next
        case None
        have later: "\<forall>u \<in> set (opUsers (allOps l ! i)). \<forall>j. body_user u = Some j \<longrightarrow> i < j \<and> j < bodySize l"
          using wf_parts(7) [OF wf] i(2) by blast
        have "bodySize l - i < bodySize l - k" using i by simp
        from outer [OF this later Cons.prems(2), of "-1"] obtain m dist2 where m:
          "users_distance l lat (opUsers (allOps l ! i)) (-1) dist = Some (m, dist2)" "distances_ok l lat dist2" "dist \<subseteq>\<^sub>m dist2"
          "\<forall>u \<in> set (opUsers (allOps l ! i)). \<forall>j. body_user u = Some j \<longrightarrow> (\<exists>d. dist2 j = Some d \<and> d \<le> m)"
          "\<forall>j d. dist2 j = Some d \<longrightarrow> j \<in> dom dist \<or> d \<le> m" "\<forall>j \<in> dom dist2. j \<in> dom dist \<or> i < j" by blast
        have new: "dist2 i = None" using m(6) None by (metis domIff less_irrefl)
        let ?d = "latency lat i + (if m < 0 then 0 else m)"
        have "users_distance l lat (u # us) acc dist = users_distance l lat us (max acc ?d) (dist2(i \<mapsto> ?d))"
          by (subst users_distance.simps) (simp add: None \<open>body_user u = Some i\<close> m(1) latency_def Let_def)
        moreover have "distances_ok l lat (dist2(i \<mapsto> ?d))" by (rule distances_insert [OF m(2) i(2) new lat m(4)])
        moreover have "dist \<subseteq>\<^sub>m dist2(i \<mapsto> ?d)" using m(3) None by (auto simp: map_le_def)
        moreover have "\<forall>j e. (dist2(i \<mapsto> ?d)) j = Some e \<longrightarrow> j \<in> dom dist \<or> e \<le> ?d" by (rule bounded_insert [OF m(5) lat])
        moreover have "\<forall>j \<in> dom (dist2(i \<mapsto> ?d)). j \<in> dom dist \<or> k < j" using m(6) i(1) by fastforce
        ultimately show ?thesis using that [of ?d "dist2(i \<mapsto> ?d)"] by simp
      qed
      from Cons.IH [OF us d(2), of "max acc d"] obtain m dist' where r: "users_distance l lat us (max acc d) dist1 = Some (m, dist')"
        "distances_ok l lat dist'" "dist1 \<subseteq>\<^sub>m dist'" "max acc d \<le> m"
        "\<forall>u \<in> set us. \<forall>j. body_user u = Some j \<longrightarrow> (\<exists>d. dist' j = Some d \<and> d \<le> m)"
        "\<forall>j d. dist' j = Some d \<longrightarrow> j \<in> dom dist1 \<or> d \<le> m" "\<forall>j \<in> dom dist'. j \<in> dom dist1 \<or> k < j" by blast
      have i': "dist' i = Some d" using r(3) d(4) by (metis domI map_le_def)
      have "\<forall>u' \<in> set (u # us). \<forall>j. body_user u' = Some j \<longrightarrow> (\<exists>d. dist' j = Some d \<and> d \<le> m)"
        using r(4,5) i' Some by auto
      moreover have "j \<in> dom dist \<or> e \<le> m" if e: "dist' j = Some e" for j e
      proof (cases "j \<in> dom dist1")
        case True
        then have "dist1 j = Some e" using r(3) e by (metis map_le_def)
        then show ?thesis using d(5) r(4) by force
      next
        case False
        then show ?thesis using r(6) e by blast
      qed
      moreover have "\<forall>j \<in> dom dist'. j \<in> dom dist \<or> k < j" using r(7) d(6) by blast
      moreover have "acc \<le> m" using r(4) by simp
      moreover have "dist \<subseteq>\<^sub>m dist'" using d(3) r(3) by (rule map_le_trans)
      ultimately show ?thesis using d(1) r(1,2) by auto
    qed
  qed
qed

lemma computeDistance_spec:
  assumes wf: "wf_loop l" and lat: "\<And>i. 0 \<le> latency lat i" and i: "i < bodySize l" and ok: "distances_ok l lat dist"
  shows "\<exists>d dist'. computeDistance l lat i dist = Some (d, dist') \<and> distances_ok l lat dist' \<and> dist \<subseteq>\<^sub>m dist' \<and> dist' i = Some d \<and>
    (\<forall>j e. dist' j = Some e \<longrightarrow> j \<in> dom dist \<or> e \<le> d)"
proof (cases "dist i")
  case (Some d)
  then show ?thesis using ok by (auto simp: computeDistance_def)
next
  case None
  have later: "\<forall>u \<in> set (opUsers (allOps l ! i)). \<forall>j. body_user u = Some j \<longrightarrow> i < j \<and> j < bodySize l"
    using wf_parts(7) [OF wf] i by blast
  from users_distance_spec [OF wf lat later ok, of "-1"] obtain m dist2 where m:
    "users_distance l lat (opUsers (allOps l ! i)) (-1) dist = Some (m, dist2)" "distances_ok l lat dist2" "dist \<subseteq>\<^sub>m dist2"
    "\<forall>u \<in> set (opUsers (allOps l ! i)). \<forall>j. body_user u = Some j \<longrightarrow> (\<exists>d. dist2 j = Some d \<and> d \<le> m)"
    "\<forall>j d. dist2 j = Some d \<longrightarrow> j \<in> dom dist \<or> d \<le> m" "\<forall>j \<in> dom dist2. j \<in> dom dist \<or> i < j" by blast
  have new: "dist2 i = None" using m(6) None by (metis domIff less_irrefl)
  let ?d = "latency lat i + (if m < 0 then 0 else m)"
  have "computeDistance l lat i dist = Some (?d, dist2(i \<mapsto> ?d))" by (simp add: computeDistance_def None m(1) latency_def Let_def)
  moreover have "distances_ok l lat (dist2(i \<mapsto> ?d))" by (rule distances_insert [OF m(2) i new lat m(4)])
  moreover have "dist \<subseteq>\<^sub>m dist2(i \<mapsto> ?d)" using m(3) None by (auto simp: map_le_def)
  moreover have "\<forall>j e. (dist2(i \<mapsto> ?d)) j = Some e \<longrightarrow> j \<in> dom dist \<or> e \<le> ?d" by (rule bounded_insert [OF m(5) lat])
  ultimately show ?thesis by auto
qed

lemma all_distances_spec:
  assumes wf: "wf_loop l" and lat: "\<And>i. 0 \<le> latency lat i"
  shows "\<exists>mx dist. all_distances l lat = Some (mx, dist) \<and> distances_ok l lat dist \<and> (\<forall>j e. dist j = Some e \<longrightarrow> e \<le> mx) \<and>
    (\<forall>i < bodySize l. lat i \<noteq> None \<longrightarrow> dist i \<noteq> None)"
proof -
  have "\<exists>mx dist'. fold (\<lambda>op acc. Option.bind acc (\<lambda>(maxDistance, distance).
         map_option (\<lambda>(d, distance'). (max maxDistance d, distance')) (computeDistance l lat op distance))) ops (Some (m0, dist)) = Some (mx, dist') \<and>
      distances_ok l lat dist' \<and> (\<forall>j e. dist' j = Some e \<longrightarrow> e \<le> mx) \<and> (\<forall>i \<in> set ops \<union> dom dist. dist' i \<noteq> None)"
    if "\<forall>i \<in> set ops. i < bodySize l" "distances_ok l lat dist" "\<forall>j e. dist j = Some e \<longrightarrow> e \<le> m0" for ops m0 dist
    using that
  proof (induction ops arbitrary: m0 dist)
    case Nil
    then show ?case by auto
  next
    case (Cons i ops)
    have "i < bodySize l" using Cons.prems(1) by simp
    from computeDistance_spec [OF wf lat this Cons.prems(2)] obtain d dist1 where d: "computeDistance l lat i dist = Some (d, dist1)"
      "distances_ok l lat dist1" "dist \<subseteq>\<^sub>m dist1" "dist1 i = Some d" "\<forall>j e. dist1 j = Some e \<longrightarrow> j \<in> dom dist \<or> e \<le> d" by blast
    have le: "\<forall>j e. dist1 j = Some e \<longrightarrow> e \<le> max m0 d"
    proof (intro allI impI)
      fix j e assume e: "dist1 j = Some e"
      show "e \<le> max m0 d"
      proof (cases "j \<in> dom dist")
        case True
        then have "dist j = Some e" using d(3) e by (metis map_le_def)
        then show ?thesis using Cons.prems(3) by fastforce
      next
        case False
        then show ?thesis using d(5) e by fastforce
      qed
    qed
    have "\<forall>i \<in> set ops. i < bodySize l" using Cons.prems(1) by simp
    from Cons.IH [OF this d(2) le] obtain mx dist' where r:
      "fold (\<lambda>op acc. Option.bind acc (\<lambda>(maxDistance, distance).
         map_option (\<lambda>(d, distance'). (max maxDistance d, distance')) (computeDistance l lat op distance))) ops (Some (max m0 d, dist1)) = Some (mx, dist')"
      "distances_ok l lat dist'" "\<forall>j e. dist' j = Some e \<longrightarrow> e \<le> mx" "\<forall>i \<in> set ops \<union> dom dist1. dist' i \<noteq> None" by blast
    have "dom dist \<subseteq> dom dist1" using d(3) by (rule map_le_implies_dom_le)
    then have "\<forall>k \<in> set (i # ops) \<union> dom dist. dist' k \<noteq> None" using r(4) d(4) by auto
    then show ?case using r(1-3) d(1) by auto
  qed
  from this [of "filter (\<lambda>op. lat op \<noteq> None) (bodyOps l)" "\<lambda>_. None" 0] show ?thesis
    by (auto simp: all_distances_def distances_ok_def)
qed

section \<open>Key operations\<close>

lemma new_clusters_spec:
  assumes "clusters_ok cl" "new_clusters n cl = (cs, cl')"
  shows "extends cl cl' \<and> length cs = n \<and> (\<forall>a \<in> nodes cl. rank cl' a = rank cl a) \<and>
    length (orderClusters cl') = length (orderClusters cl) + n \<and>
    (\<forall>i < n. cs ! i \<in> nodes cl' \<and> rank cl' (cs ! i) = int (length (orderClusters cl) + i))"
  using assms
proof (induction n arbitrary: cl cs)
  case 0
  then show ?case using extends_refl by auto
next
  case (Suc n)
  obtain c cl1 where c: "newAtBack cl = (c, cl1)" by (cases "newAtBack cl")
  obtain cs1 where cs: "new_clusters n cl1 = (cs1, cl')" "cs = c # cs1"
    using Suc.prems(2) c by (cases "new_clusters n cl1") auto
  note b = newAtBack_ok [OF Suc.prems(1) c]
  have len: "length (orderClusters cl1) = Suc (length (orderClusters cl))" using c by (auto simp: newAtBack_def)
  have "clusters_ok cl1" using b(1) by (simp add: extends_def)
  from Suc.IH [OF this cs(1)] have r: "extends cl1 cl'" "length cs1 = n" "\<forall>a \<in> nodes cl1. rank cl' a = rank cl1 a"
    "length (orderClusters cl') = Suc (length (orderClusters cl)) + n"
    "\<forall>i < n. cs1 ! i \<in> nodes cl' \<and> rank cl' (cs1 ! i) = int (Suc (length (orderClusters cl)) + i)" using len by auto
  have sub: "nodes cl1 \<subseteq> nodes cl'" using r(1) by (simp add: extends_def)
  have "c \<in> nodes cl'" "rank cl' c = int (length (orderClusters cl))" using b(2,5) r(3) sub by auto
  then have "\<forall>i < Suc n. cs ! i \<in> nodes cl' \<and> rank cl' (cs ! i) = int (length (orderClusters cl) + i)"
    using r(5) cs(2) by (auto simp: nth_Cons split: nat.splits)
  moreover have "\<forall>a \<in> nodes cl. rank cl' a = rank cl a" using r(3) b(3,6) by auto
  ultimately show ?case using extends_trans [OF b(1) r(1)] r(2,4) cs(2) by auto
qed

lemma fold_insert_ops:
  assumes "schedule_ok s" "\<forall>(op, st) \<in> set xs. P op st \<longrightarrow> 0 \<le> st \<and> st < numStages s \<and> f st \<in> nodes (clusters s)" "distinct (map fst xs)"
  shows "schedule_ok (fold (\<lambda>(op, st) s. if P op st then insert_op op st (Some (f st)) s else s) xs s) \<and>
    clusters (fold (\<lambda>(op, st) s. if P op st then insert_op op st (Some (f st)) s else s) xs s) = clusters s \<and>
    numStages (fold (\<lambda>(op, st) s. if P op st then insert_op op st (Some (f st)) s else s) xs s) = numStages s \<and>
    (\<forall>x. place (fold (\<lambda>(op, st) s. if P op st then insert_op op st (Some (f st)) s else s) xs s) x =
       (case map_of xs x of Some st \<Rightarrow> if P x st then Some (st, Some (f st)) else place s x | None \<Rightarrow> place s x))"
  using assms
proof (induction xs arbitrary: s)
  case (Cons a xs)
  obtain op st where a: "a = (op, st)" by (cases a)
  have d: "distinct (map fst xs)" "map_of xs op = None" using Cons.prems(3) a by (auto simp: map_of_eq_None_iff)
  show ?case
  proof (cases "P op st")
    case False
    have "\<forall>(op, st) \<in> set xs. P op st \<longrightarrow> 0 \<le> st \<and> st < numStages s \<and> f st \<in> nodes (clusters s)" using Cons.prems(2) by simp
    from Cons.IH [OF Cons.prems(1) this d(1)] show ?thesis using False d(2) a by auto
  next
    case True
    have r: "0 \<le> st" "st < numStages s" "f st \<in> nodes (clusters s)" using Cons.prems(2) a True by auto
    let ?s = "assign op st (Some (f st)) s"
    have i: "insert_op op st (Some (f st)) s = ?s" by (rule insert_op_in_range [OF r(2)])
    have "\<forall>(op, st) \<in> set xs. P op st \<longrightarrow> 0 \<le> st \<and> st < numStages ?s \<and> f st \<in> nodes (clusters ?s)" using Cons.prems(2) by simp
    from Cons.IH [OF assign_ok [OF Cons.prems(1) r] this d(1)] show ?thesis using True i d(2) a
      by (auto simp: place_assign split: option.splits)
  qed
qed simp

text \<open>The stages of the operations that have a distance.\<close>

lemma key_stages_spec:
  assumes wf: "wf_loop l" and lat: "\<And>i. 0 \<le> latency lat i" and some: "hasLatenciesAssigned l lat"
  shows "\<exists>ks. key_stages l lat = Some ks \<and> ks \<noteq> [] \<and> distinct (map fst ks) \<and> (\<forall>(op, st) \<in> set ks. op < bodySize l \<and> 0 \<le> st) \<and>
    (\<forall>op < bodySize l. lat op \<noteq> None \<longrightarrow> map_of ks op \<noteq> None) \<and>
    (\<forall>op st u j. map_of ks op = Some st \<longrightarrow> u \<in> set (opUsers (allOps l ! op)) \<longrightarrow> body_user u = Some j \<longrightarrow>
       (\<exists>st'. map_of ks j = Some st' \<and> st + latency lat op \<le> st'))"
proof -
  obtain mx dist where d: "all_distances l lat = Some (mx, dist)" "distances_ok l lat dist" "\<forall>j e. dist j = Some e \<longrightarrow> e \<le> mx"
    "\<forall>i < bodySize l. lat i \<noteq> None \<longrightarrow> dist i \<noteq> None" using all_distances_spec [OF wf lat] by blast
  define f where "f = (\<lambda>ops. concat (map (\<lambda>op. case dist op of
      Some d \<Rightarrow> if d \<ge> 0 then [(op, mx - d)] else [] | None \<Rightarrow> []) ops))"
  have pos: "0 \<le> d" if "dist i = Some d" for i d using d(2) that unfolding distances_ok_def by blast
  have fst_f: "fst ` set (f ops) \<subseteq> set ops" for ops by (auto simp: f_def split: option.splits if_splits)
  have mem: "map_of (f ops) op = (if op \<in> set ops then map_option (\<lambda>d. mx - d) (dist op) else None) \<and> distinct (map fst (f ops))"
    if "distinct ops" for ops op
    using that
  proof (induction ops)
    case Nil
    then show ?case by (simp add: f_def)
  next
    case (Cons o' ops)
    have IH: "map_of (f ops) op = (if op \<in> set ops then map_option (\<lambda>d. mx - d) (dist op) else None)" "distinct (map fst (f ops))"
      using Cons by auto
    have f: "f (o' # ops) = (case dist o' of Some d \<Rightarrow> [(o', mx - d)] | None \<Rightarrow> []) @ f ops"
      using pos by (simp add: f_def split: option.splits)
    have "o' \<notin> fst ` set (f ops)" using fst_f [of ops] Cons.prems by auto
    then show ?case unfolding f using IH Cons.prems by (auto split: option.splits)
  qed
  let ?ks = "f (bodyOps l)"
  have ks: "key_stages l lat = Some ?ks" by (simp add: key_stages_def d(1) f_def)
  have m: "map_of ?ks op = (if op < bodySize l then map_option (\<lambda>d. mx - d) (dist op) else None)" for op
    using mem [of "bodyOps l" op] by simp
  have dist: "distinct (map fst ?ks)" using mem [of "bodyOps l" 0] by simp
  obtain op0 where "op0 < bodySize l" "lat op0 \<noteq> None" using some by (auto simp: hasLatenciesAssigned_def list_ex_iff)
  then have "map_of ?ks op0 \<noteq> None" using m [of op0] d(4) by simp
  then have "?ks \<noteq> []" by (cases ?ks) auto
  moreover have "op < bodySize l \<and> 0 \<le> st" if "(op, st) \<in> set ?ks" for op st
  proof -
    have "map_of ?ks op = Some st" using that dist by simp
    then obtain e where e: "op < bodySize l" "dist op = Some e" "st = mx - e"
      using m [of op] by (cases "dist op") (auto split: if_splits)
    then have "e \<le> mx" using d(3) by blast
    then show ?thesis using e by simp
  qed
  moreover have "map_of ?ks op \<noteq> None" if "op < bodySize l" "lat op \<noteq> None" for op using m [of op] d(4) that by simp
  moreover have "\<exists>st'. map_of ?ks j = Some st' \<and> st + latency lat op \<le> st'"
    if k: "map_of ?ks op = Some st" "u \<in> set (opUsers (allOps l ! op))" "body_user u = Some j" for op st u j
  proof -
    obtain e where e: "op < bodySize l" "dist op = Some e" "st = mx - e"
      using m [of op] k(1) by (cases "dist op") (auto split: if_splits)
    then obtain e' where e': "dist j = Some e'" "latency lat op + e' \<le> e" using d(2) k(2,3) unfolding distances_ok_def by blast
    have "j < bodySize l" using d(2) e'(1) unfolding distances_ok_def by blast
    then show ?thesis using m [of j] e e' by simp
  qed
  ultimately show ?thesis using ks dist by blast
qed

lemma max_fold_ge: "x \<le> fold max xs (x :: int) \<and> (\<forall>y \<in> set xs. y \<le> fold max xs x) \<and> (0 \<le> x \<longrightarrow> 0 \<le> fold max xs x)"
proof (induction xs arbitrary: x)
  case (Cons y xs)
  show ?case using Cons [of "max y x"] by auto
qed simp

lemma scheduleKeyOps_spec:
  assumes wf: "wf_loop l" and lat: "\<And>i. 0 \<le> latency lat i" and some: "hasLatenciesAssigned l lat"
  shows "\<exists>s. scheduleKeyOps l lat = Some s \<and> schedule_ok s \<and> 0 < numStages s \<and> nodes (clusters s) \<noteq> {} \<and> opToStageAndCluster s \<noteq> [] \<and>
    (\<forall>op < bodySize l. lat op \<noteq> None \<longrightarrow> place s op \<noteq> None) \<and>
    (\<forall>op st c u j. place s op = Some (st, c) \<longrightarrow> u \<in> set (opUsers (allOps l ! op)) \<longrightarrow> body_user u = Some j \<longrightarrow>
       (\<exists>st' c'. place s j = Some (st', c') \<and> st + latency lat op \<le> st'))"
proof -
  obtain ks where ks: "key_stages l lat = Some ks" "ks \<noteq> []" "distinct (map fst ks)" "\<forall>(op, st) \<in> set ks. op < bodySize l \<and> 0 \<le> st"
    "\<forall>op < bodySize l. lat op \<noteq> None \<longrightarrow> map_of ks op \<noteq> None"
    "\<forall>op st u j. map_of ks op = Some st \<longrightarrow> u \<in> set (opUsers (allOps l ! op)) \<longrightarrow> body_user u = Some j \<longrightarrow>
       (\<exists>st'. map_of ks j = Some st' \<and> st + latency lat op \<le> st')" using key_stages_spec [OF wf lat some] by blast
  obtain x xs where x: "map snd ks = x # xs" using ks(2) by (cases "map snd ks") auto
  define mx where "mx = fold max xs x"
  have le: "st \<le> mx \<and> 0 \<le> st" if "(op, st) \<in> set ks" for op st
  proof -
    have "st \<in> set (map snd ks)" using that by force
    then have "st \<in> set (x # xs)" by (simp only: x)
    then show ?thesis using max_fold_ge [of x xs] ks(4) that by (auto simp: mx_def)
  qed
  then have mx0: "0 \<le> mx" using ks(2) by (metis list.set_intros(1) neq_Nil_conv order_trans prod.collapse)
  obtain cs cl where cs: "new_clusters (nat (mx + 1)) no_clusters = (cs, cl)" by (cases "new_clusters (nat (mx + 1)) no_clusters")
  note c = new_clusters_spec [OF clusters_ok_empty(1) cs]
  have clok: "clusters_ok cl" using c by (simp add: extends_def)
  let ?f = "\<lambda>st. cs ! nat (mx - st)"
  let ?s0 = "(new_schedule (mx + 1))\<lparr>clusters := cl\<rparr>"
  have s0: "schedule_ok ?s0" "\<And>y. place ?s0 y = None" using clok by (simp_all add: schedule_ok_def new_schedule_def place_def)
  define s1 where "s1 = key_clusters mx ks ?s0 cs"
  have eq: "s1 = fold (\<lambda>(op, st) s. if True then insert_op op st (Some (?f st)) s else s) ks ?s0" by (simp add: s1_def key_clusters_def)
  have "\<forall>(op, st) \<in> set ks. True \<longrightarrow> 0 \<le> st \<and> st < numStages ?s0 \<and> ?f st \<in> nodes (clusters ?s0)"
  proof (clarsimp)
    fix op st assume "(op, st) \<in> set ks"
    then have "st \<le> mx" "0 \<le> st" using le by blast+
    then show "0 \<le> st \<and> st < numStages (new_schedule (mx + 1)) \<and> cs ! nat (mx - st) \<in> nodes cl" using c by (simp add: new_schedule_def)
  qed
  from fold_insert_ops [OF s0(1) this ks(3), folded eq]
  have F: "schedule_ok s1" "clusters s1 = clusters ?s0" "numStages s1 = numStages ?s0"
    "\<forall>x. place s1 x = (case map_of ks x of Some st \<Rightarrow> if True then Some (st, Some (?f st)) else place ?s0 x | None \<Rightarrow> place ?s0 x)" by blast+
  have s1: "schedule_ok s1" "clusters s1 = cl" "numStages s1 = mx + 1" using F(1-3) by (simp_all add: new_schedule_def)
  have s1p: "place s1 x = (case map_of ks x of Some st \<Rightarrow> Some (st, Some (?f st)) | None \<Rightarrow> None)" for x
    using F(4) s0(2) by (cases "map_of ks x") simp_all
  obtain e cl2 where e: "newAtBack (clusters s1) = (e, cl2)" by (cases "newAtBack (clusters s1)")
  note b = newAtBack_ok [OF clok e [unfolded s1(2)]]
  let ?s2 = "s1\<lparr>clusters := cl2\<rparr>"
  have ok2: "schedule_ok ?s2" by (rule ok_extends [OF s1(1)]) (use b(1) s1(2) in simp)
  define s where "s = fold (\<lambda>(op, st) s. if to_epilogue l lat ks op then insert_op op st (Some e) s else s) ks ?s2"
  have "\<forall>(op, st) \<in> set ks. to_epilogue l lat ks op \<longrightarrow> 0 \<le> st \<and> st < numStages ?s2 \<and> e \<in> nodes (clusters ?s2)"
    using le b(2) s1(3) by fastforce
  from fold_insert_ops [OF ok2 this ks(3), folded s_def]
  have s: "schedule_ok s" "clusters s = clusters ?s2" "numStages s = numStages ?s2"
      "\<forall>x. place s x = (case map_of ks x of Some st \<Rightarrow> if to_epilogue l lat ks x then Some (st, Some e) else place ?s2 x | None \<Rightarrow> place ?s2 x)"
    by blast+
  have run: "scheduleKeyOps l lat = Some s"
    using some ks(1) x e by (simp add: scheduleKeyOps_def mx_def [symmetric] cs s1_def [symmetric] s_def Let_def)
  have stage: "map_option fst (place s y) = map_of ks y" for y
    using s(4) s1p by (cases "map_of ks y") simp_all
  have ne: "opToStageAndCluster s \<noteq> []"
  proof
    assume n: "opToStageAndCluster s = []"
    obtain op st where "(op, st) \<in> set ks" using ks(2) by (metis list.set_intros(1) neq_Nil_conv prod.collapse)
    then have "map_of ks op = Some st" using ks(3) by simp
    then show False using stage [of op] n by (simp add: place_def)
  qed
  have "\<exists>st' c'. place s j = Some (st', c') \<and> st + latency lat op \<le> st'"
    if h: "place s op = Some (st, c)" "u \<in> set (opUsers (allOps l ! op))" "body_user u = Some j" for op st c u j
  proof -
    have "map_of ks op = Some st" using stage [of op] h(1) by simp
    then obtain st' where "map_of ks j = Some st'" "st + latency lat op \<le> st'" using ks(6) h(2,3) by blast
    then show ?thesis using stage [of j] by (cases "place s j") auto
  qed
  moreover have "place s op \<noteq> None" if "op < bodySize l" "lat op \<noteq> None" for op using ks(5) that stage [of op] by (metis option.map_disc_iff)
  moreover have "nodes (clusters s) \<noteq> {}" using b(2) s(2) by auto
  moreover have "0 < numStages s" using s(3) s1(3) mx0 by simp
  ultimately show ?thesis using run s(1) ne by blast
qed

section \<open>The schedule as a whole\<close>

lemma place_some:
  assumes "place s x \<noteq> None" "schedule_ok s"
  obtains st c where "place s x = Some (st, Some c)"
proof -
  obtain st c where p: "place s x = Some (st, c)" using assms(1) by (cases "place s x") auto
  then have "\<exists>n \<in> nodes (clusters s). c = Some n" using assms(2) unfolding schedule_ok_def by blast
  then show ?thesis using p that by blast
qed

lemma schedule_from_spec:
  assumes wf: "wf_loop l" and ok: "schedule_ok s0" and n: "0 < numStages s0" "nodes (clusters s0) \<noteq> {}"
  shows "\<exists>s. schedule_from l s0 = Some s \<and> schedule_ok s \<and> numStages s = numStages s0 \<and>
    (\<forall>x < bodySize l. place s x \<noteq> None \<and> settled l s x)"
proof -
  obtain ap s1 where s1: "schedulePrologueAndEpilogue l s0 = Some (ap, s1)" "schedule_ok s1" "ap \<in> nodes (clusters s1)" "numStages s1 = numStages s0"
    "\<forall>x < bodySize l. isIf l x \<longrightarrow> place s1 x \<noteq> None" using prologue_epilogue_spec [OF ok n, of l] by (elim exE conjE) (rule that)
  obtain s2 where s2: "scheduleDependencies l s1 = Some s2" "schedule_ok s2" "clusters s2 = clusters s1" "numStages s2 = numStages s1"
    "\<forall>x < bodySize l. settled l s2 x" "\<forall>x st c. low s1 st c x \<longrightarrow> low s2 st c x" using scheduleDependencies_spec [OF wf s1(2)] by blast
  obtain s3 where s3: "scheduleDistanceOneDependencies l s2 = Some s3" "schedule_ok s3" "numStages s3 = numStages s2"
    "extends (clusters s2) (clusters s3)" "\<forall>x < bodySize l. settled l s3 x" "\<forall>x. place s2 x \<noteq> None \<longrightarrow> place s3 x \<noteq> None"
    using distance_one_spec [OF wf s2(2,5)] by blast
  have "nodes (clusters s2) \<subseteq> nodes (clusters s3)" using s3(4) by (simp only: extends_def)
  then have ap: "ap \<in> nodes (clusters s3)" using s1(3) by (simp only: s2(3)) (rule subsetD)
  have kept: "place s2 x \<noteq> None" if pl: "place s1 x \<noteq> None" for x
  proof -
    obtain st c where "place s1 x = Some (st, Some c)" by (rule place_some [OF pl s1(2)])
    then have "low s2 st c x" using s2(6) by (simp add: low_self)
    then show ?thesis by (auto simp: low_def)
  qed
  have ifs: "\<forall>x < bodySize l. isIf l x \<longrightarrow> place s3 x \<noteq> None" using s1(5) kept s3(6) by blast
  have "0 < numStages s3" using n(1) s1(4) s2(4) s3(3) by simp
  from remaining_spec [OF wf s3(2) this ap s3(5) ifs] obtain s where "scheduleRemainingToLastStage l ap s3 = Some s" "schedule_ok s"
    "numStages s = numStages s3" "\<forall>x < bodySize l. place s x \<noteq> None \<and> settled l s x" by blast
  then show ?thesis using s1(1,4) s2(1,4) s3(1,3) by (simp add: schedule_from_def)
qed

lemma low_isOpBefore:
  assumes ok: "schedule_ok s" and x: "place s x = Some (st, Some c)" and low: "low s st c d" and "d < x"
  shows "isOpBefore s d x = Some True"
proof -
  obtain st' c' where d: "place s d = Some (st', Some c')" "st' < st \<or> st' = st \<and> rank (clusters s) c' \<le> rank (clusters s) c"
    using low by (auto simp: low_def)
  have cl: "clusters_ok (clusters s)" using ok by (simp add: schedule_ok_def)
  note n = placeD(3) [OF ok d(1)] placeD(3) [OF ok x]
  show ?thesis using d x assms(4) isBefore_rank [OF cl n] rank_inj [OF cl n] by (auto simp: isOpBefore_def)
qed

section \<open>Attributes\<close>

lemma serialize_fold:
  assumes "\<forall>(x, st, c) \<in> set ops. \<exists>i. clusterId cl c = Some i" "\<forall>x st c st' c'. (x, st, c) \<in> set ops \<longrightarrow> (x, st', c') \<in> set ops \<longrightarrow> st' = st \<and> c' = c"
  shows "\<exists>at'. fold (\<lambda>(op, stage, c) acc. Option.bind acc (\<lambda>a. Option.bind (clusterId cl c) (\<lambda>i. Some (setStageCluster op stage i a)))) ops (Some at) = Some at' \<and>
    maxStageAttr at' = maxStageAttr at \<and>
    (\<forall>x st c. (x, st, c) \<in> set ops \<longrightarrow> stageAttr at' x = Some st \<and> clusterAttr at' x = clusterId cl c) \<and>
    (\<forall>x. x \<notin> fst ` set ops \<longrightarrow> stageAttr at' x = stageAttr at x \<and> clusterAttr at' x = clusterAttr at x)"
  using assms
proof (induction ops arbitrary: at)
  case (Cons a ops)
  obtain x st c where a: "a = (x, st, c)" by (cases a)
  obtain i where i: "clusterId cl c = Some i" using Cons.prems(1) a by auto
  have "\<forall>(x, st, c) \<in> set ops. \<exists>i. clusterId cl c = Some i" "\<forall>x st c st' c'. (x, st, c) \<in> set ops \<longrightarrow> (x, st', c') \<in> set ops \<longrightarrow> st' = st \<and> c' = c"
    using Cons.prems by (simp, meson list.set_intros(2))
  from Cons.IH [OF this, of "setStageCluster x st i at"] obtain at' where r:
    "fold (\<lambda>(op, stage, c) acc. Option.bind acc (\<lambda>a. Option.bind (clusterId cl c) (\<lambda>i. Some (setStageCluster op stage i a)))) ops (Some (setStageCluster x st i at)) = Some at'"
    "maxStageAttr at' = maxStageAttr (setStageCluster x st i at)"
    "\<forall>x st c. (x, st, c) \<in> set ops \<longrightarrow> stageAttr at' x = Some st \<and> clusterAttr at' x = clusterId cl c"
    "\<forall>y. y \<notin> fst ` set ops \<longrightarrow> stageAttr at' y = stageAttr (setStageCluster x st i at) y \<and> clusterAttr at' y = clusterAttr (setStageCluster x st i at) y" by blast
  have "stageAttr at' x = Some st \<and> clusterAttr at' x = clusterId cl c"
  proof (cases "x \<in> fst ` set ops")
    case True
    then obtain st' c' where m: "(x, st', c') \<in> set ops" by auto
    then have "st' = st" "c' = c" using Cons.prems(2) a by (metis list.set_intros)+
    then show ?thesis using r(3) m by blast
  next
    case False
    then show ?thesis using r(4) i by (simp add: setStageCluster_def)
  qed
  then show ?case using r a i by (auto simp: setStageCluster_def)
qed simp

lemma serialize_spec:
  assumes ok: "schedule_ok s"
  shows "\<exists>at'. serialize l s at = Some at' \<and>
    maxStageAttr at' = Some (case maxStageAttr at of None \<Rightarrow> numStages s - 1 | Some m \<Rightarrow> max (numStages s - 1) m) \<and>
    (\<forall>x st c. x < bodySize l \<longrightarrow> place s x = Some (st, Some c) \<longrightarrow> stageAttr at' x = Some st \<and> clusterAttr at' x = Some (rank (clusters s) c)) \<and>
    (\<forall>x. place s x = None \<longrightarrow> stageAttr at' x = stageAttr at x \<and> clusterAttr at' x = clusterAttr at x)"
proof -
  obtain ops where ops: "getOpsInOrder l s = Some ops"
    "\<And>x st c. (x, st, c) \<in> set ops \<longleftrightarrow> x < bodySize l \<and> place s x = Some (st, Some c)" using getOpsInOrder_ok [OF ok, of l] by blast
  have cl: "clusters_ok (clusters s)" using ok by (simp add: schedule_ok_def)
  have id: "clusterId (clusters s) c = Some (rank (clusters s) c)" if "place s x = Some (st, Some c)" for x st c
    by (rule clusterId_rank [OF cl placeD(3) [OF ok that]])
  have h: "\<forall>(x, st, c) \<in> set ops. \<exists>i. clusterId (clusters s) c = Some i" using ops(2) id by blast
  have u: "\<forall>x st c st' c'. (x, st, c) \<in> set ops \<longrightarrow> (x, st', c') \<in> set ops \<longrightarrow> st' = st \<and> c' = c" using ops(2) by auto
  from serialize_fold [OF h u, of at] obtain at' where f:
    "fold (\<lambda>(op, stage, c) acc. Option.bind acc (\<lambda>a. Option.bind (clusterId (clusters s) c) (\<lambda>i. Some (setStageCluster op stage i a)))) ops (Some at) = Some at'"
    "maxStageAttr at' = maxStageAttr at"
    "\<forall>x st c. (x, st, c) \<in> set ops \<longrightarrow> stageAttr at' x = Some st \<and> clusterAttr at' x = clusterId (clusters s) c"
    "\<forall>x. x \<notin> fst ` set ops \<longrightarrow> stageAttr at' x = stageAttr at x \<and> clusterAttr at' x = clusterAttr at x" by blast
  let ?m = "Some (case maxStageAttr at of None \<Rightarrow> numStages s - 1 | Some m \<Rightarrow> max (numStages s - 1) m)"
  have "serialize l s at = Some (at'\<lparr>maxStageAttr := ?m\<rparr>)" unfolding serialize_def ops(1) using f(1) by (simp add: Let_def)
  moreover have "x \<notin> fst ` set ops" if "place s x = None" for x using ops(2) that by force
  ultimately show ?thesis using f(3,4) ops(2) id by auto
qed

end
