(* ===== verification/ScheduleOuter.thy ===== *)
theory ScheduleOuter
  imports ScheduleKeys
begin

text \<open>
  What the scheduler does with values the loop yields that are defined in front of it: an operation there that
  reads an argument its own block yields nothing for never gets a place, so that the scheduler cannot go on.
\<close>

text \<open>An operation that reads an argument of its block that the terminator of the block yields nothing for.\<close>

definition reads_missing :: "loop \<Rightarrow> nat \<Rightarrow> bool" where
  "reads_missing l x \<longleftrightarrow> (\<exists>k > 0. BlockArg (opBlock (allOps l ! x)) k \<in> set (opOperands (allOps l ! x)) \<and>
     terminatorOperand l (opBlock (allOps l ! x)) (k - 1) = None)"

text \<open>It stays without a place, and operations before the last stage stay there.\<close>

definition early_placed :: "nat \<Rightarrow> nat \<Rightarrow> int \<Rightarrow> coarse_schedule \<Rightarrow> bool" where
  "early_placed x op N s \<longleftrightarrow> place s x = None \<and> (\<exists>st c. place s op = Some (st, Some c) \<and> st < N)"

lemma early_assign: "early_placed x op N s \<Longrightarrow> d \<noteq> x \<Longrightarrow> st < N \<or> d \<noteq> op \<Longrightarrow> early_placed x op N (assign d st (Some c) s)"
  by (auto simp: early_placed_def place_assign)


lemma early_insertIfAbsent:
  "early_placed x op N s \<Longrightarrow> d \<noteq> x \<Longrightarrow> early_placed x op N (snd (insertIfAbsent d st c s))"
  by (auto simp: early_placed_def insertIfAbsent_def insert_op_def place_assign)

lemma early_insertMinimum:
  assumes "insertMinimum d st c s = Some (b, s')" "early_placed x op N s" "d \<noteq> x" shows "early_placed x op N s'"
proof -
  obtain st0 c0 where p: "place s op = Some (st0, Some c0)" "st0 < N" "place s x = None" using assms(2) by (auto simp: early_placed_def)
  have "s' = s \<or> s' = assign d st (Some c) s \<and> (d = op \<longrightarrow> st \<le> st0)"
  proof -
    obtain ws where ws: "dropWhile (\<lambda>n. n \<noteq> c) (map fst (orderClusters (clusters s))) = ws" by blast
    show ?thesis using assms(1) [unfolded insertMinimum_def ws] p(1) by (cases "place s d"; cases ws) (auto split: if_splits)
  qed
  then show ?thesis using assms(2,3) p(2) early_assign [OF assms(2,3)] by auto
qed

lemma early_tryInsert:
  "tryInsert early d st c s = Some (b, s') \<Longrightarrow> early_placed x op N s \<Longrightarrow> d \<noteq> x \<Longrightarrow> early_placed x op N s'"
  using early_insertIfAbsent [of x op N s d st c] early_insertMinimum [of d st c s b s' x op N] by (auto simp: tryInsert_def split: if_splits)


lemma tryInsert_absent: "place s d = None \<Longrightarrow> \<exists>s'. tryInsert early d st c s = Some (True, s')"
  by (simp add: tryInsert_def insertMinimum_def insertIfAbsent_def)

lemma insert_deps_early:
  assumes "insert_deps l block st c arg early vs s = Some r"
  shows "(\<forall>v \<in> set vs. resolve l block arg {} v \<noteq> None) \<and>
    (arg \<longrightarrow> reads_missing l x \<longrightarrow> early_placed x op N s \<longrightarrow> early_placed x op N (snd r))"
proof (rule insert_deps.raw_induct [where P = "\<lambda>l block st c arg early vs s r. (\<forall>v \<in> set vs. resolve l block arg {} v \<noteq> None) \<and>
    (arg \<longrightarrow> reads_missing l x \<longrightarrow> early_placed x op N s \<longrightarrow> early_placed x op N (snd r))", OF _ assms])
  fix f :: "loop \<Rightarrow> nat \<Rightarrow> int \<Rightarrow> cluster \<Rightarrow> bool \<Rightarrow> bool \<Rightarrow> loop_value list \<Rightarrow> coarse_schedule \<Rightarrow> (bool \<times> coarse_schedule) option"
    and l block st c arg early vs s r
  assume IH: "\<And>l block st c arg early vs s r. f l block st c arg early vs s = Some r \<Longrightarrow>
      (\<forall>v \<in> set vs. resolve l block arg {} v \<noteq> None) \<and>
      (arg \<longrightarrow> reads_missing l x \<longrightarrow> early_placed x op N s \<longrightarrow> early_placed x op N (snd r))"
    and run: "(case vs of [] \<Rightarrow> Some (False, s)
      | v # vs' \<Rightarrow> Option.bind (resolve l block arg {} v) (\<lambda>r. case r of
            OpResult d \<Rightarrow>
              if opBlock (allOps l ! d) = block
              then Option.bind (tryInsert early d st c s) (\<lambda>(ok, s1).
                if ok
                then Option.bind (f l block st c arg early (opOperands (allOps l ! d)) s1) (\<lambda>(_, s2).
                     Option.bind (f l block st c arg early vs' s2) (\<lambda>(_, s3). Some (True, s3)))
                else f l block st c arg early vs' s1)
              else f l block st c arg early vs' s
          | BlockArg _ _ \<Rightarrow> f l block st c arg early vs' s)) = Some r"
  let ?keeps = "\<lambda>s t. arg \<longrightarrow> reads_missing l x \<longrightarrow> early_placed x op N s \<longrightarrow> early_placed x op N t"
  show "(\<forall>v \<in> set vs. resolve l block arg {} v \<noteq> None) \<and> ?keeps s (snd r)"
  proof (cases vs)
    case Nil
    then show ?thesis using run by auto
  next
    case (Cons v vs')
    obtain w where w: "resolve l block arg {} v = Some w" using run Cons by (auto split: bind_splits)
    have "\<exists>s1 r1. f l block st c arg early vs' s1 = Some r1 \<and> snd r1 = snd r \<and> ?keeps s s1"
    proof (cases w)
      case (BlockArg b n)
      then show ?thesis using run Cons w by (intro exI [of _ s] exI [of _ r]) auto
    next
      case (OpResult d)
      show ?thesis
      proof (cases "opBlock (allOps l ! d) = block")
        case False
        then show ?thesis using run Cons w OpResult by (intro exI [of _ s] exI [of _ r]) auto
      next
        case True
        obtain ok s1 where t: "tryInsert early d st c s = Some (ok, s1)"
          using run Cons w OpResult True by (auto split: bind_splits)
        have ok: "ok" if "place s d = None" using tryInsert_absent [OF that, of early st c] t by auto
        show ?thesis
        proof (cases ok)
          case False
          then have "place s d \<noteq> None" using ok by blast
          then have "d \<noteq> x" if "early_placed x op N s" using that by (auto simp: early_placed_def)
          then have "?keeps s s1" using early_tryInsert [OF t, of x op N] by blast
          then show ?thesis using run Cons w OpResult True t False by (intro exI [of _ s1] exI [of _ r]) auto
        next
          case ins: True
          obtain r2 r3 where r2: "f l block st c arg early (opOperands (allOps l ! d)) s1 = Some r2"
            and r3: "f l block st c arg early vs' (snd r2) = Some r3" "snd r3 = snd r"
            using run Cons w OpResult True t ins by (fastforce split: bind_splits prod.splits)
          have "d \<noteq> x" if ar: "arg" and rm: "reads_missing l x"
          proof
            assume "d = x"
            then obtain k where k: "k > 0" "BlockArg block k \<in> set (opOperands (allOps l ! d))" "terminatorOperand l block (k - 1) = None"
              using rm True by (auto simp: reads_missing_def)
            then have "resolve l block arg {} (BlockArg block k) = None" using ar by simp
            then show False using IH [OF r2] k(2) by blast
          qed
          then have "?keeps s s1" using early_tryInsert [OF t, of x op N] by blast
          then have "?keeps s (snd r2)" using IH [OF r2] by blast
          then show ?thesis using r3 by blast
        qed
      qed
    qed
    then obtain s1 r1 where "f l block st c arg early vs' s1 = Some r1" "snd r1 = snd r" "?keeps s s1" by blast
    then show ?thesis using IH [of l block st c arg early vs' s1 r1] w Cons by auto
  qed
qed

lemma reads_missing_stops: "reads_missing l x \<Longrightarrow> insertDepsOfOp l x st c True early s = None"
proof (rule ccontr)
  assume "reads_missing l x" "insertDepsOfOp l x st c True early s \<noteq> None"
  then obtain r k where "insert_deps l (opBlock (allOps l ! x)) st c True early (opOperands (allOps l ! x)) s = Some r" "k > 0"
    "BlockArg (opBlock (allOps l ! x)) k \<in> set (opOperands (allOps l ! x))" "terminatorOperand l (opBlock (allOps l ! x)) (k - 1) = None"
    by (auto simp: insertDepsOfOp_def reads_missing_def)
  then show False using insert_deps_early by fastforce
qed


lemma early_insertDeps:
  assumes "insertDepsOfOp l y st c True early s = Some (b, s')" "reads_missing l x" "early_placed x op N s" shows "early_placed x op N s'"
  using insert_deps_early [of l _ st c True early _ s "(b, s')" x op N] assms by (simp add: insertDepsOfOp_def)

lemma early_dist_def:
  assumes "schedule_dist_def l st c y d = Some d'" "reads_missing l x" "early_placed x op N (fst d)"
  shows "early_placed x op N (fst d')" "y \<noteq> x"
proof -
  have "early_placed x op N (fst d') \<and> y \<noteq> x"
  proof (cases "place (fst d) y")
    case (Some p)
    then show ?thesis using assms by (auto simp: schedule_dist_def_def early_placed_def)
  next
    case None
    have y: "y \<noteq> x"
    proof
      assume "y = x"
      then have none: "insertDepsOfOp l y st' c' True True s' = None" for st' c' s' using reads_missing_stops [OF assms(2)] by simp
      then show False using assms(1) None by (auto simp: schedule_dist_def_def none split: bind_splits if_splits)
    qed
    obtain st' c' s1 b s2 where run: "insertDepsOfOp l y st' c' True True (snd (insertIfAbsent y st' c' s1)) = Some (b, s2)"
      "fst d' = s2" "early_placed x op N s1"
    proof (cases "isLoadOp (allOps l ! y)")
      case True
      then obtain b s2 where "insertDepsOfOp l y st c True True (snd (insertIfAbsent y st c (fst d))) = Some (b, s2)" "fst d' = s2"
        using assms(1) None by (auto simp: schedule_dist_def_def)
      then show ?thesis using that assms(3) by blast
    next
      case False
      then obtain n1 d1 b s2 where *: "dist_cluster c d = Some (n1, d1)"
        "insertDepsOfOp l y (st + 1) n1 True True (snd (insertIfAbsent y (st + 1) n1 (fst d1))) = Some (b, s2)" "fst d' = s2"
        using assms(1) None by (auto simp: schedule_dist_def_def split: bind_splits)
      have "early_placed x op N (fst d1)"
        using *(1) assms(3) by (auto simp: dist_cluster_def early_placed_def split: option.splits bind_splits)
      then show ?thesis using that *(2,3) by blast
    qed
    have "early_placed x op N s2" by (rule early_insertDeps [OF run(1) assms(2) early_insertIfAbsent [OF run(3) y]])
    then show ?thesis using y run(2) by simp
  qed
  then show "early_placed x op N (fst d')" "y \<noteq> x" by simp_all
qed

lemma early_dist_one:
  assumes "schedule_dist_one l st c v d = Some d'" "reads_missing l x" "early_placed x op N (fst d)"
  shows "early_placed x op N (fst d')" "v = BlockArg 0 n \<Longrightarrow> 0 < n \<Longrightarrow> terminatorOperand l 0 (n - 1) \<noteq> Some (OpResult x)"
proof -
  have "early_placed x op N (fst d') \<and> (v = BlockArg 0 n \<longrightarrow> 0 < n \<longrightarrow> terminatorOperand l 0 (n - 1) \<noteq> Some (OpResult x))"
    using assms(1) early_dist_def(1) [OF _ assms(2,3), of st c _ d'] early_dist_def(2) [of l st c x d d' x op N, OF _ assms(2,3)] assms(3)
    by (auto simp: schedule_dist_one_def split: loop_value.splits if_splits bind_splits)
  then show "early_placed x op N (fst d')"
    "v = BlockArg 0 n \<Longrightarrow> 0 < n \<Longrightarrow> terminatorOperand l 0 (n - 1) \<noteq> Some (OpResult x)" by blast+
qed

lemma fold_bind_None: "fold (\<lambda>v acc. Option.bind acc (f v)) vs None = None"
  by (induction vs) simp_all

lemma early_dist_operands:
  assumes "fold (\<lambda>v acc. Option.bind acc (schedule_dist_one l st c v)) vs (Some d) = Some d'" "reads_missing l x" "early_placed x op N (fst d)"
  shows "early_placed x op N (fst d') \<and> (BlockArg 0 n \<in> set vs \<longrightarrow> 0 < n \<longrightarrow> terminatorOperand l 0 (n - 1) \<noteq> Some (OpResult x))"
  using assms(1,3)
proof (induction vs arbitrary: d)
  case (Cons v vs)
  obtain d1 where d1: "schedule_dist_one l st c v d = Some d1"
    using Cons(2) by (cases "schedule_dist_one l st c v d") (simp_all add: fold_bind_None)
  then have "fold (\<lambda>v acc. Option.bind acc (schedule_dist_one l st c v)) vs (Some d1) = Some d'" using Cons(2) by simp
  from Cons(1) [OF this early_dist_one(1) [OF d1 assms(2) Cons(3)]]
  show ?case using early_dist_one(2) [OF d1 assms(2) Cons(3), of n] by auto
qed simp

lemma early_dist_op:
  assumes "schedule_dist_op l N' y d = Some d'" "reads_missing l x" "early_placed x op (N' - 1) (fst d)"
  shows "early_placed x op (N' - 1) (fst d') \<and>
    (y = op \<longrightarrow> BlockArg 0 n \<in> set (opOperands (allOps l ! op)) \<longrightarrow> 0 < n \<longrightarrow> terminatorOperand l 0 (n - 1) \<noteq> Some (OpResult x))"
proof (cases "place (fst d) y")
  case None
  then show ?thesis using assms(1,3) by (auto simp: schedule_dist_op_def early_placed_def)
next
  case (Some p)
  obtain st co where p: "p = (st, co)" by (cases p)
  show ?thesis
  proof (cases "st = N' - 1")
    case True
    then show ?thesis using assms(1,3) Some p by (auto simp: schedule_dist_op_def early_placed_def)
  next
    case False
    then obtain c where c: "co = Some c"
      "fold (\<lambda>v acc. Option.bind acc (schedule_dist_one l st c v)) (opOperands (allOps l ! y)) (Some d) = Some d'"
      using assms(1) Some p by (auto simp: schedule_dist_op_def split: option.splits)
    show ?thesis using early_dist_operands [OF c(2) assms(2,3), of n] by blast
  qed
qed

lemma early_dist_ops:
  assumes "fold (\<lambda>y acc. Option.bind acc (schedule_dist_op l N y)) ys (Some d) = Some d'" "reads_missing l x"
    "early_placed x op (N - 1) (fst d)" "BlockArg 0 n \<in> set (opOperands (allOps l ! op))" "0 < n"
    "terminatorOperand l 0 (n - 1) = Some (OpResult x)"
  shows "op \<notin> set ys"
  using assms(1,3)
proof (induction ys arbitrary: d)
  case (Cons y ys)
  obtain d1 where d1: "schedule_dist_op l N y d = Some d1"
    using Cons(2) by (cases "schedule_dist_op l N y d") (simp_all add: fold_bind_None)
  then have "fold (\<lambda>y acc. Option.bind acc (schedule_dist_op l N y)) ys (Some d1) = Some d'" using Cons(2) by simp
  from Cons(1) [OF this] show ?case using early_dist_op [OF d1 assms(2) Cons(3), of n] assms(4-6) by auto
qed simp

end
