(* ===== verification/ScheduleProps.thy ===== *)
theory ScheduleProps
  imports ScheduleOuter
begin

text \<open>
  The properties of the scheduler of loops, each with an instance on concrete data.
\<close>

section \<open>Clusters\<close>

inductive cluster_step :: "cluster_list \<Rightarrow> cluster_list \<Rightarrow> bool" where
  at_back: "newAtBack cl = (c, cl') \<Longrightarrow> cluster_step cl cl'"
| at_front: "newAtFront cl = (c, cl') \<Longrightarrow> cluster_step cl cl'"
| in_between: "newBefore c cl = Some (n, cl') \<Longrightarrow> cluster_step cl cl'"

lemma cluster_step_extends:
  assumes "cluster_step cl cl'" "clusters_ok cl" shows "extends cl cl'"
  using assms
proof (induction rule: cluster_step.induct)
  case (in_between c cl n cl')
  then obtain i where "map_of (orderClusters cl) c = Some i" by (auto simp: newBefore_def clusterId_def split: bind_splits)
  then have "c \<in> nodes cl" by (force dest: map_of_SomeD)
  then show ?case using newBefore_ok [OF in_between(2)] in_between(1) by (metis option.inject prod.inject)
qed (auto intro: newAtBack_ok(1) newAtFront_ok(1))

lemma cluster_steps_extend: "cluster_step\<^sup>*\<^sup>* cl cl' \<Longrightarrow> clusters_ok cl \<Longrightarrow> extends cl cl'"
proof (induction rule: rtranclp_induct)
  case (step b c)
  then have e: "extends cl b" by (simp only:)
  then have "clusters_ok b" by (simp only: extends_def)
  from extends_trans [OF e cluster_step_extends [OF step(2) this]] show ?case .
qed (rule extends_refl)

text \<open>
  C33: however clusters are added, at the ends or before others, the ids of the list are the positions, so that the
  walk that compares two clusters agrees with their ids, and clusters already there keep their order.
\<close>

theorem cluster_ids:
  assumes "cluster_step\<^sup>*\<^sup>* no_clusters cl" "cluster_step\<^sup>*\<^sup>* cl cl'" "a \<in> nodes cl" "b \<in> nodes cl"
  shows "map snd (orderClusters cl') = map int [0..<length (orderClusters cl')] \<and>
    isBefore cl' a b = Some (the (clusterId cl' a) < the (clusterId cl' b)) \<and> isBefore cl' a b = isBefore cl a b"
proof -
  have e: "extends no_clusters cl" by (rule cluster_steps_extend [OF assms(1)]) simp
  then have cl: "clusters_ok cl" by (simp add: extends_def)
  have e': "extends cl cl'" by (rule cluster_steps_extend [OF assms(2) cl])
  then have cl': "clusters_ok cl'" and sub: "nodes cl \<subseteq> nodes cl'" by (simp_all only: extends_def)
  have m: "a \<in> nodes cl'" "b \<in> nodes cl'" by (rule subsetD [OF sub assms(3)], rule subsetD [OF sub assms(4)])
  have "\<forall>a \<in> nodes cl. \<forall>b \<in> nodes cl. rank cl' a < rank cl' b \<longleftrightarrow> rank cl a < rank cl b" using e' unfolding extends_def by (elim conjE)
  from bspec [OF bspec [OF this assms(3)] assms(4)] have "rank cl' a < rank cl' b \<longleftrightarrow> rank cl a < rank cl b" .
  then show ?thesis using isBefore_rank [OF cl' m] isBefore_rank [OF cl assms(3,4)] cl'
    by (simp add: clusters_ok_def rank_def)
qed

lemma cluster_ids_witness:
  "\<exists>cl cl'. newAtBack no_clusters = (0, cl) \<and> newBefore 0 (snd (newAtBack cl)) = Some (2, cl') \<and>
     isBefore cl' 0 1 = Some True \<and> map snd (orderClusters cl') = [0, 1, 2]"
proof -
  let ?c1 = "snd (newAtBack no_clusters)" and ?c2 = "snd (newAtBack (snd (newAtBack no_clusters)))"
  let ?c3 = "snd (the (newBefore 0 ?c2))"
  have "newAtBack no_clusters = (0, ?c1)" "newAtBack ?c1 = (1, ?c2)" "newBefore 0 ?c2 = Some (2, ?c3)" by code_simp+
  then have s: "cluster_step no_clusters ?c1" "cluster_step ?c1 ?c2" "cluster_step ?c2 ?c3"
    using cluster_step.intros by metis+
  have steps: "cluster_step\<^sup>*\<^sup>* no_clusters ?c2" "cluster_step\<^sup>*\<^sup>* ?c2 ?c3" using s by auto
  have m: "0 \<in> nodes ?c2" "1 \<in> nodes ?c2" by code_simp+
  from cluster_ids [OF steps m] have "map snd (orderClusters ?c3) = map int [0..<length (orderClusters ?c3)]" "isBefore ?c3 0 1 = isBefore ?c2 0 1" by blast+
  moreover have "length (orderClusters ?c3) = 3" "isBefore ?c2 0 1 = Some True" by code_simp+
  ultimately have "isBefore ?c3 0 1 = Some True" "map snd (orderClusters ?c3) = [0, 1, 2]" by (simp_all add: upt_rec)
  then show ?thesis using \<open>newAtBack no_clusters = (0, ?c1)\<close> \<open>newBefore 0 ?c2 = Some (2, ?c3)\<close>
    by (intro exI [of _ ?c1] exI [of _ ?c3]) (simp only: simp_thms)
qed

section \<open>Dependencies\<close>

text \<open>
  C31: scheduling what an operation of the body depends on, at a stage and cluster, always ends; afterwards
  everything it reads from the body is scheduled there or before, everything that moved came from nowhere or from
  later, and what a moved operation reads is there or before as well.
\<close>

theorem insertDepsOfOp_ends:
  assumes "wf_loop l" "x < bodySize l" "schedule_ok s" "0 \<le> st" "st < numStages s" "c \<in> nodes (clusters s)"
  shows "\<exists>b s'. insertDepsOfOp l x st c arg True s = Some (b, s') \<and> schedule_ok s' \<and> (\<forall>d \<in> body_deps l x. low s' st c d) \<and>
    (\<forall>y. place s' y = place s y \<or>
       place s' y = Some (st, Some c) \<and> \<not> low s st c y \<and> (y < bodySize l \<longrightarrow> (\<forall>d \<in> body_deps l y. low s' st c d)))"
proof -
  obtain b s' where s': "insertDepsOfOp l x st c arg True s = Some (b, s')" "moved_to l 0 arg st c s s'" "schedule_ok s'"
    "\<forall>d \<in> body_deps l x. low s' st c d" using deps_of_op [OF assms] by blast
  have "place s' y = place s y \<or> place s' y = Some (st, Some c) \<and> \<not> low s st c y \<and> (\<forall>d \<in> body_deps l y. low s' st c d)" for y
    using s'(2) body_targets [OF assms(1), of y arg] unfolding moved_to_def by blast
  then show ?thesis using s' by blast
qed

definition plain_op :: "loop_value list \<Rightarrow> loop_user list \<Rightarrow> loop_op" where
  "plain_op vs us = \<lparr>opBlock = 0, opOperands = vs, opUsers = us, isIfOp = False, isLoadOp = False, isLoopOp = False,
     hasBarrier = False, isLatencyKind = False\<rparr>"

text \<open>A load address from the last iteration, a load, an accumulation of the loaded value, the next address.\<close>

definition sample_loop :: loop where
  "sample_loop = \<lparr>allOps = [plain_op [BlockArg 0 1] [DirectUser 1, DirectUser 3], plain_op [OpResult 0] [DirectUser 2],
       plain_op [OpResult 1, BlockArg 0 2] [OtherUser], plain_op [OpResult 0] [OtherUser]],
     bodySize = 4, terminators = [[OpResult 3, OpResult 2]], warpSpecialized = False,
     forwardSlice = (\<lambda>_. []), backwardIfs = (\<lambda>_. [])\<rparr>"

definition sample_latencies :: latencies where
  "sample_latencies = [0 \<mapsto> 2, 1 \<mapsto> 1]"

lemma all_four: "(\<forall>i < (4 :: nat). P i) \<longleftrightarrow> P 0 \<and> P 1 \<and> P 2 \<and> P 3"
  by (auto simp: less_Suc_eq numeral_eq_Suc)

lemma sample_loop_wf: "wf_loop sample_loop"
proof -
  have n: "bodySize sample_loop = 4" "length (allOps sample_loop) = 4" by (simp_all add: sample_loop_def)
  have d: "body_deps sample_loop 0 = {}" "body_deps sample_loop 1 = {0}" "body_deps sample_loop 2 = {1}" "body_deps sample_loop 3 = {0}"
    by (auto simp: body_deps_def sample_loop_def plain_op_def)
  show ?thesis unfolding wf_loop_def n all_four d
    by (simp add: sample_loop_def plain_op_def value_ok_def)
qed

lemma sample_latency: "0 \<le> latency sample_latencies i"
  by (simp add: latency_def sample_latencies_def)

lemma sample_keys: "hasLatenciesAssigned sample_loop sample_latencies" "isSafeToPipeline sample_loop"
  by code_simp+

lemma insertDepsOfOp_ends_witness:
  "\<exists>s b s'. scheduleKeyOps sample_loop sample_latencies = Some s \<and> insertDepsOfOp sample_loop 2 0 0 False True s = Some (b, s') \<and>
     low s' 0 0 1 \<and> low s' 0 0 0"
proof -
  obtain s where s: "scheduleKeyOps sample_loop sample_latencies = Some s" "schedule_ok s"
    using scheduleKeyOps_spec [OF sample_loop_wf sample_latency sample_keys(1)] by blast
  have "map_option (\<lambda>s. (numStages s, map fst (orderClusters (clusters s)))) (scheduleKeyOps sample_loop sample_latencies) = Some (4, [0, 1, 2, 3, 4])"
    by code_simp
  then have n: "numStages s = 4" "map fst (orderClusters (clusters s)) = [0, 1, 2, 3, 4]" using s(1) by simp_all
  have c: "0 \<in> nodes (clusters s)" using n(2) by (metis list.set_intros(1) set_map)
  have x: "2 < bodySize sample_loop" by (simp add: sample_loop_def)
  obtain b s' where r: "insertDepsOfOp sample_loop 2 0 0 False True s = Some (b, s')" "\<forall>d \<in> body_deps sample_loop 2. low s' 0 0 d"
    "\<forall>y. place s' y = place s y \<or> place s' y = Some (0, Some 0) \<and> \<not> low s 0 0 y \<and>
       (y < bodySize sample_loop \<longrightarrow> (\<forall>d \<in> body_deps sample_loop y. low s' 0 0 d))"
    using insertDepsOfOp_ends [OF sample_loop_wf x s(2) _ _ c, of 0 False] n(1) by auto
  have one: "1 \<in> body_deps sample_loop 2" "0 \<in> body_deps sample_loop 1" by (simp_all add: body_deps_def sample_loop_def plain_op_def)
  have l1: "low s' 0 0 1" using r(2) one(1) by blast
  have "map_option (\<lambda>s. place s 1) (scheduleKeyOps sample_loop sample_latencies) = Some (Some (2, Some 1))" by code_simp
  then have "place s 1 = Some (2, Some 1)" using s(1) by simp
  then have "place s' 1 \<noteq> place s 1" using l1 by (auto simp: low_def)
  then have "low s' 0 0 0" using r(3) one(2) x by (auto simp: sample_loop_def)
  then show ?thesis using s(1) r(1) l1 by blast
qed

section \<open>The schedule of a loop\<close>

text \<open>
  C28: for a loop whose yielded values come from the body or from operations without operands, whatever valid schedule
  the scheduler starts from, it ends, and its result places every operation of the body at one of the stages, after
  everything of the body that the operation reads.
\<close>

theorem schedule_keeps_order:
  assumes "wf_loop l" "schedule_ok s0" "0 < numStages s0" "nodes (clusters s0) \<noteq> {}"
  shows "\<exists>s. schedule_from l s0 = Some s \<and> numStages s = numStages s0 \<and>
    (\<forall>x < bodySize l. (\<exists>st c. place s x = Some (st, Some c) \<and> 0 \<le> st \<and> st < numStages s) \<and>
       (\<forall>d \<in> body_deps l x. isOpBefore s d x = Some True))"
proof -
  obtain s where s: "schedule_from l s0 = Some s" "schedule_ok s" "numStages s = numStages s0"
    "\<forall>x < bodySize l. place s x \<noteq> None \<and> settled l s x" using schedule_from_spec [OF assms] by blast
  have "(\<exists>st c. place s x = Some (st, Some c) \<and> 0 \<le> st \<and> st < numStages s) \<and> (\<forall>d \<in> body_deps l x. isOpBefore s d x = Some True)"
    if x: "x < bodySize l" for x
  proof -
    have "place s x \<noteq> None" using s(4) x by blast
    then obtain st c where p: "place s x = Some (st, Some c)" using s(2) by (rule place_some)
    have "isOpBefore s d x = Some True" if d: "d \<in> body_deps l x" for d
    proof -
      have "low s st c d" using s(4) x p d unfolding settled_def by blast
      then show ?thesis by (rule low_isOpBefore [OF s(2) p _ wf_loopD(4) [OF assms(1) x d]])
    qed
    then show ?thesis using p placeD [OF s(2) p] by blast
  qed
  then show ?thesis using s(1,3) by blast
qed

lemma schedule_keeps_order_witness:
  "\<exists>s0 s. scheduleKeyOps sample_loop sample_latencies = Some s0 \<and> schedule_from sample_loop s0 = Some s \<and>
     isOpBefore s 1 2 = Some True \<and> isOpBefore s 0 3 = Some True"
proof -
  obtain s0 where s0: "scheduleKeyOps sample_loop sample_latencies = Some s0" "schedule_ok s0" "0 < numStages s0" "nodes (clusters s0) \<noteq> {}"
    using scheduleKeyOps_spec [OF sample_loop_wf sample_latency sample_keys(1)] by blast
  have "1 \<in> body_deps sample_loop 2" "0 \<in> body_deps sample_loop 3" "2 < bodySize sample_loop" "3 < bodySize sample_loop"
    by (simp_all add: body_deps_def sample_loop_def plain_op_def)
  then show ?thesis using schedule_keeps_order [OF sample_loop_wf s0(2-4)] s0(1) by blast
qed

text \<open>
  C30: the key operations always get a valid schedule, every operation with a latency among them; a user of a scheduled
  operation is scheduled at least as many stages later as the latency asks for.
\<close>

theorem key_ops_latency:
  assumes "wf_loop l" "\<And>i. 0 \<le> latency lat i" "hasLatenciesAssigned l lat"
  shows "\<exists>s. scheduleKeyOps l lat = Some s \<and> schedule_ok s \<and> (\<forall>op < bodySize l. lat op \<noteq> None \<longrightarrow> place s op \<noteq> None) \<and>
    (\<forall>op st c u j. place s op = Some (st, c) \<longrightarrow> u \<in> set (opUsers (allOps l ! op)) \<longrightarrow> body_user u = Some j \<longrightarrow>
       (\<exists>st' c'. place s j = Some (st', c') \<and> st + latency lat op \<le> st'))"
  using scheduleKeyOps_spec [OF assms] by blast

lemma key_ops_latency_witness:
  "\<exists>s st c st' c'. scheduleKeyOps sample_loop sample_latencies = Some s \<and> place s 0 = Some (st, c) \<and> place s 1 = Some (st', c') \<and> st + 2 \<le> st'"
proof -
  obtain s where s: "scheduleKeyOps sample_loop sample_latencies = Some s"
    "\<forall>op < bodySize sample_loop. sample_latencies op \<noteq> None \<longrightarrow> place s op \<noteq> None"
    "\<forall>op st c u j. place s op = Some (st, c) \<longrightarrow> u \<in> set (opUsers (allOps sample_loop ! op)) \<longrightarrow> body_user u = Some j \<longrightarrow>
       (\<exists>st' c'. place s j = Some (st', c') \<and> st + latency sample_latencies op \<le> st')"
    using key_ops_latency [OF sample_loop_wf sample_latency sample_keys(1)] by blast
  have "place s 0 \<noteq> None" using s(2) by (simp add: sample_loop_def sample_latencies_def)
  then obtain st c where p: "place s 0 = Some (st, c)" by (cases "place s 0") auto
  have "DirectUser 1 \<in> set (opUsers (allOps sample_loop ! 0))" by (simp add: sample_loop_def plain_op_def)
  then obtain st' c' where "place s 1 = Some (st', c')" "st + latency sample_latencies 0 \<le> st'" using s(3) p by (metis body_user.simps(1))
  moreover have "latency sample_latencies 0 = 2" by (simp add: latency_def sample_latencies_def)
  ultimately show ?thesis using s(1) p by auto
qed

text \<open>
  C29: the pass itself: for such a loop that it may pipeline and that has latencies, it ends and writes a stage and a cluster on every
  operation of the body; what an operation reads from the body has an earlier stage, or the same stage and a
  cluster that is not later.
\<close>

theorem scheduleLoop_order:
  assumes wf: "wf_loop l" and lat: "\<And>i. 0 \<le> latency lat i" and some: "hasLatenciesAssigned l lat" and safe: "isSafeToPipeline l"
  shows "\<exists>at'. scheduleLoop l lat at = Some at' \<and>
    (\<forall>x < bodySize l. \<exists>st i. getStageCluster at' x = Some (st, i) \<and> 0 \<le> st \<and> 0 \<le> i \<and>
       (\<forall>d \<in> body_deps l x. \<exists>st' i'. getStageCluster at' d = Some (st', i') \<and> (st' < st \<or> st' = st \<and> i' \<le> i)))"
proof -
  obtain s0 where s0: "scheduleKeyOps l lat = Some s0" "schedule_ok s0" "0 < numStages s0" "nodes (clusters s0) \<noteq> {}"
    "opToStageAndCluster s0 \<noteq> []" using scheduleKeyOps_spec [OF wf lat some] by blast
  obtain s where s: "schedule_from l s0 = Some s" "schedule_ok s" "\<forall>x < bodySize l. place s x \<noteq> None \<and> settled l s x"
    using schedule_from_spec [OF wf s0(2-4)] by blast
  obtain at' where at': "serialize l s at = Some at'"
    "\<And>x st c. x < bodySize l \<Longrightarrow> place s x = Some (st, Some c) \<Longrightarrow> stageAttr at' x = Some st \<and> clusterAttr at' x = Some (rank (clusters s) c)"
    using serialize_spec [OF s(2), of l at] by blast
  have cl: "clusters_ok (clusters s)" using s(2) by (simp add: schedule_ok_def)
  have attrs: "getStageCluster at' x = Some (st, rank (clusters s) c) \<and> 0 \<le> st \<and> 0 \<le> rank (clusters s) c"
    if "x < bodySize l" "place s x = Some (st, Some c)" for x st c
    using at'(2) [OF that] placeD [OF s(2) that(2)] rank_bounds [OF cl] by (simp add: getStageCluster_def)
  have "\<exists>st i. getStageCluster at' x = Some (st, i) \<and> 0 \<le> st \<and> 0 \<le> i \<and>
       (\<forall>d \<in> body_deps l x. \<exists>st' i'. getStageCluster at' d = Some (st', i') \<and> (st' < st \<or> st' = st \<and> i' \<le> i))"
    if x: "x < bodySize l" for x
  proof -
    have "place s x \<noteq> None" using s(3) x by blast
    then obtain st c where p: "place s x = Some (st, Some c)" using s(2) by (rule place_some)
    have "\<exists>st' i'. getStageCluster at' d = Some (st', i') \<and> (st' < st \<or> st' = st \<and> i' \<le> rank (clusters s) c)" if d: "d \<in> body_deps l x" for d
    proof -
      have dl: "d < bodySize l" using d by (simp add: body_deps_def)
      have "low s st c d" using s(3) x p d unfolding settled_def by blast
      then obtain st' c' where "place s d = Some (st', Some c')" "st' < st \<or> st' = st \<and> rank (clusters s) c' \<le> rank (clusters s) c"
        by (auto simp: low_def)
      then show ?thesis using attrs [OF dl] by blast
    qed
    then show ?thesis using attrs [OF x p] by blast
  qed
  moreover have "scheduleLoop l lat at = Some at'"
    using safe some s0(1,5) s(1) at'(1) by (simp add: scheduleLoop_def getInitialSchedule_def)
  ultimately show ?thesis by blast
qed

definition no_attrs :: loop_attrs where
  "no_attrs = \<lparr>stageAttr = (\<lambda>_. None), clusterAttr = (\<lambda>_. None), maxStageAttr = None\<rparr>"

lemma scheduleLoop_order_witness:
  "\<exists>at' st i st' i'. scheduleLoop sample_loop sample_latencies no_attrs = Some at' \<and> getStageCluster at' 2 = Some (st, i) \<and>
     getStageCluster at' 1 = Some (st', i') \<and> (st' < st \<or> st' = st \<and> i' \<le> i)"
proof -
  obtain at' where at': "scheduleLoop sample_loop sample_latencies no_attrs = Some at'"
    "\<forall>x < bodySize sample_loop. \<exists>st i. getStageCluster at' x = Some (st, i) \<and> 0 \<le> st \<and> 0 \<le> i \<and>
       (\<forall>d \<in> body_deps sample_loop x. \<exists>st' i'. getStageCluster at' d = Some (st', i') \<and> (st' < st \<or> st' = st \<and> i' \<le> i))"
    using scheduleLoop_order [OF sample_loop_wf sample_latency sample_keys] by blast
  have "1 \<in> body_deps sample_loop 2" "2 < bodySize sample_loop" by (simp_all add: body_deps_def sample_loop_def plain_op_def)
  then show ?thesis using at' by blast
qed

section \<open>Where the code stops\<close>

text \<open>A loop that yields the result of an operation in front of it, computed from an argument of the function.\<close>

definition outer_loop :: loop where
  "outer_loop = \<lparr>allOps = [plain_op [BlockArg 0 1] [DirectUser 1], plain_op [OpResult 0] [OtherUser],
       (plain_op [BlockArg 1 1] [OtherUser])\<lparr>opBlock := 1\<rparr>],
     bodySize = 2, terminators = [[OpResult 2], []], warpSpecialized = False, forwardSlice = (\<lambda>_. []), backwardIfs = (\<lambda>_. [])\<rparr>"

text \<open>
  C34: the scheduler follows what the loop yields out of the loop: when an operation before the last stage reads an
  argument yielded by an unscheduled operation in front of the loop, and that operation reads an argument of its own
  block beyond what the terminator of the block has operands for, as a function's return does, the scheduler reads an
  operand that does not exist.
\<close>

theorem outer_dependency_stops:
  assumes "op < bodySize l" "place s op = Some (st, Some c)" "st < numStages s - 1"
    and "BlockArg 0 n \<in> set (opOperands (allOps l ! op))" "0 < n" "terminatorOperand l 0 (n - 1) = Some (OpResult x)"
    and "place s x = None" "reads_missing l x"
  shows "scheduleDistanceOneDependencies l s = None"
proof (rule ccontr)
  assume "scheduleDistanceOneDependencies l s \<noteq> None"
  then obtain d' where run: "fold (\<lambda>y acc. Option.bind acc (schedule_dist_op l (numStages s) y)) (bodyOps l) (Some (s, \<lambda>_. None)) = Some d'"
    by (auto simp: scheduleDistanceOneDependencies_def)
  have "early_placed x op (numStages s - 1) (fst (s, \<lambda>_ :: cluster. None :: cluster option))" using assms(2,3,7) by (simp add: early_placed_def)
  from early_dist_ops [OF run assms(8) this assms(4-6)] show False using assms(1) by simp
qed

lemma outer_dependency_stops_witness:
  "map_option (scheduleDistanceOneDependencies outer_loop) (scheduleKeyOps outer_loop [0 \<mapsto> 1]) = Some None"
proof -
  obtain s where s: "scheduleKeyOps outer_loop [0 \<mapsto> 1] = Some s" "numStages s = 2" "place s 0 = Some (0, Some 1)" "place s 2 = None"
  proof -
    have "map_option (\<lambda>s. (numStages s, place s 0, place s 2)) (scheduleKeyOps outer_loop [0 \<mapsto> 1]) = Some (2, Some (0, Some 1), None)" by code_simp
    then show ?thesis using that by auto
  qed
  have "reads_missing outer_loop 2" by (auto simp: reads_missing_def outer_loop_def plain_op_def terminatorOperand_def)
  moreover have "terminatorOperand outer_loop 0 (1 - 1) = Some (OpResult 2)" "(0 :: nat) < bodySize outer_loop"
    "BlockArg 0 1 \<in> set (opOperands (allOps outer_loop ! 0))" by (simp_all add: outer_loop_def plain_op_def terminatorOperand_def)
  ultimately have "scheduleDistanceOneDependencies outer_loop s = None"
    using outer_dependency_stops [of 0 outer_loop s 0 1 1 2] s by simp
  then show ?thesis using s(1) by simp
qed

section \<open>Attributes\<close>

lemma min_max_fold:
  assumes "\<forall>op \<in> set ops. \<forall>st i. getStageCluster at op = Some (st, i) \<longrightarrow> 0 \<le> i" "0 \<le> hi \<or> lo = -1 \<and> hi = -1"
    "fold (\<lambda>op (lo, hi). case getStageCluster at op of None \<Rightarrow> (lo, hi) | Some (_, c) \<Rightarrow> if hi < 0 then (c, c) else (min lo c, max hi c)) ops (lo, hi) = (lo', hi')"
  shows "(\<forall>op \<in> set ops. \<forall>st i. getStageCluster at op = Some (st, i) \<longrightarrow> lo' \<le> i \<and> i \<le> hi') \<and> (0 \<le> hi \<longrightarrow> lo' \<le> lo \<and> hi \<le> hi')"
  using assms
proof (induction ops arbitrary: lo hi)
  case (Cons op ops)
  show ?case
  proof (cases "getStageCluster at op")
    case None
    then show ?thesis using Cons by simp
  next
    case (Some p)
    obtain st i where p: "p = (st, i)" by (cases p)
    have i: "0 \<le> i" using Cons.prems(1) Some p by auto
    let ?lo = "if hi < 0 then i else min lo i" and ?hi = "if hi < 0 then i else max hi i"
    have f: "fold (\<lambda>op (lo, hi). case getStageCluster at op of None \<Rightarrow> (lo, hi) | Some (_, c) \<Rightarrow> if hi < 0 then (c, c) else (min lo c, max hi c)) ops (?lo, ?hi) = (lo', hi')"
      using Cons.prems(3) Some p by (simp split: if_splits)
    have hi: "0 \<le> ?hi \<or> ?lo = -1 \<and> ?hi = -1" using i by auto
    have "\<forall>op \<in> set ops. \<forall>st i. getStageCluster at op = Some (st, i) \<longrightarrow> 0 \<le> i" using Cons.prems(1) by simp
    from Cons.IH [OF this hi f] have IH: "(\<forall>op \<in> set ops. \<forall>st i. getStageCluster at op = Some (st, i) \<longrightarrow> lo' \<le> i \<and> i \<le> hi') \<and> (0 \<le> ?hi \<longrightarrow> lo' \<le> ?lo \<and> ?hi \<le> hi')"
      .
    then have b: "lo' \<le> ?lo" "?hi \<le> hi'" using i by (auto split: if_splits)
    then have "lo' \<le> i \<and> i \<le> hi'" "0 \<le> hi \<longrightarrow> lo' \<le> lo \<and> hi \<le> hi'" by (auto split: if_splits)
    then show ?thesis using IH Some p by auto
  qed
qed simp

lemma deserialize_fold:
  assumes "\<forall>op \<in> set ops. stageAttr at op \<noteq> None \<longrightarrow> (\<exists>st i. getStageCluster at op = Some (st, i) \<and> st < N)" "numStages s = N"
  shows "\<exists>s'. fold (\<lambda>op acc. Option.bind acc (\<lambda>s. if stageAttr at op = None then Some s
         else map_option (\<lambda>(stage, i). insert_op op stage (f i) s) (getStageCluster at op))) ops (Some s) = Some s' \<and>
    clusters s' = clusters s \<and> numStages s' = N \<and>
    (\<forall>x. place s' x = (if x \<in> set ops \<and> stageAttr at x \<noteq> None then map_option (\<lambda>(st, i). (st, f i)) (getStageCluster at x) else place s x))"
  using assms
proof (induction ops arbitrary: s)
  case (Cons op ops)
  have h: "\<forall>op \<in> set ops. stageAttr at op \<noteq> None \<longrightarrow> (\<exists>st i. getStageCluster at op = Some (st, i) \<and> st < N)" using Cons.prems(1) by simp
  show ?case
  proof (cases "stageAttr at op = None")
    case True
    then show ?thesis using Cons.IH [OF h Cons.prems(2)] by auto
  next
    case False
    then obtain st i where g: "getStageCluster at op = Some (st, i)" "st < N" using Cons.prems(1) by auto
    have e: "insert_op op st (f i) s = assign op st (f i) s" using g(2) Cons.prems(2) by (simp add: insert_op_in_range)
    have "numStages (assign op st (f i) s) = N" using Cons.prems(2) by simp
    from Cons.IH [OF h this] obtain s' where "fold (\<lambda>op acc. Option.bind acc (\<lambda>s. if stageAttr at op = None then Some s
         else map_option (\<lambda>(stage, i). insert_op op stage (f i) s) (getStageCluster at op))) ops (Some (assign op st (f i) s)) = Some s'"
      "clusters s' = clusters s" "numStages s' = N"
      "\<forall>x. place s' x = (if x \<in> set ops \<and> stageAttr at x \<noteq> None then map_option (\<lambda>(st, i). (st, f i)) (getStageCluster at x) else place (assign op st (f i) s) x)"
      by auto
    then show ?thesis using g(1) e False by (auto simp: place_assign)
  qed
qed simp

text \<open>
  C32: a schedule written to the attributes of a loop, where the other operations of the body have none, and read
  back has the same stages and orders any two operations of the body the same way.
\<close>

theorem serialize_roundtrip:
  assumes ok: "schedule_ok s" and clean: "\<forall>x < bodySize l. place s x = None \<longrightarrow> stageAttr at x = None"
  shows "\<exists>at' s'. serialize l s at = Some at' \<and> deSerialize l at' (new_schedule 0) = Some (Some s') \<and>
    (\<forall>x < bodySize l. map_option fst (place s' x) = map_option fst (place s x)) \<and>
    (\<forall>a < bodySize l. \<forall>b < bodySize l. isOpBefore s' a b = isOpBefore s a b)"
proof -
  obtain at' where at': "serialize l s at = Some at'"
    "maxStageAttr at' = Some (case maxStageAttr at of None \<Rightarrow> numStages s - 1 | Some m \<Rightarrow> max (numStages s - 1) m)"
    "\<And>x st c. x < bodySize l \<Longrightarrow> place s x = Some (st, Some c) \<Longrightarrow> stageAttr at' x = Some st \<and> clusterAttr at' x = Some (rank (clusters s) c)"
    "\<And>x. place s x = None \<Longrightarrow> stageAttr at' x = stageAttr at x" using serialize_spec [OF ok, of l at] by blast
  have cl: "clusters_ok (clusters s)" using ok by (simp add: schedule_ok_def)
  obtain m where m: "maxStageAttr at' = Some m" "numStages s - 1 \<le> m" using at'(2) by (cases "maxStageAttr at") auto
  obtain lo hi where mm: "getMinMaxCluster l at' = (lo, hi)" by (cases "getMinMaxCluster l at'")
  have attr: "getStageCluster at' x = (case place s x of Some (st, c) \<Rightarrow> Some (st, rank (clusters s) (the c)) | None \<Rightarrow> None) \<and>
      (stageAttr at' x = None \<longleftrightarrow> place s x = None)" if x: "x < bodySize l" for x
  proof (cases "place s x")
    case None
    then show ?thesis using at'(4) clean x by (simp add: getStageCluster_def)
  next
    case (Some p)
    then have "place s x \<noteq> None" by simp
    then obtain st c where p: "place s x = Some (st, Some c)" using ok by (rule place_some)
    then show ?thesis using at'(3) [OF x p] by (simp add: getStageCluster_def)
  qed
  have rk: "0 \<le> rank (clusters s) c" if "place s x = Some (st, Some c)" for x st c
    using rank_bounds [OF cl placeD(3) [OF ok that]] by blast
  have nonneg: "\<forall>op \<in> set (bodyOps l). \<forall>st i. getStageCluster at' op = Some (st, i) \<longrightarrow> 0 \<le> i"
  proof (intro ballI allI impI)
    fix x st i assume x: "x \<in> set (bodyOps l)" and g: "getStageCluster at' x = Some (st, i)"
    then have "place s x \<noteq> None" using attr [of x] by (auto split: option.splits)
    then obtain st' c where "place s x = Some (st', Some c)" using ok by (rule place_some)
    then show "0 \<le> i" using g x attr [of x] rk by auto
  qed
  have bounds: "lo \<le> rank (clusters s) c \<and> rank (clusters s) c \<le> hi" if x: "x < bodySize l" "place s x = Some (st, Some c)" for x st c
    using min_max_fold [OF nonneg, of "-1" "-1" lo hi] mm attr [OF x(1)] x unfolding getMinMaxCluster_def by auto
  let ?n = "nat (hi + 1 - lo)"
  obtain cs cl' where cs: "new_clusters ?n no_clusters = (cs, cl')" by (cases "new_clusters ?n no_clusters")
  note c = new_clusters_spec [OF clusters_ok_empty(1) cs]
  have cl': "clusters_ok cl'" using c by (simp add: extends_def)
  have new: "cs ! nat (i - lo) \<in> nodes cl' \<and> rank cl' (cs ! nat (i - lo)) = i - lo" if "lo \<le> i" "i \<le> hi" for i
  proof -
    have "nat (i - lo) < ?n" using that by simp
    then show ?thesis using c that by (simp add: no_clusters_def)
  qed
  define f where "f = (\<lambda>i. if lo \<le> i \<and> i \<le> hi then Some (cs ! nat (i - lo)) else None)"
  let ?s0 = "(new_schedule 0)\<lparr>clusters := cl', numStages := m + 1\<rparr>"
  have stage: "\<forall>op \<in> set (bodyOps l). stageAttr at' op \<noteq> None \<longrightarrow> (\<exists>st i. getStageCluster at' op = Some (st, i) \<and> st < m + 1)"
  proof (intro ballI impI)
    fix x assume x: "x \<in> set (bodyOps l)" "stageAttr at' x \<noteq> None"
    then have "place s x \<noteq> None" using attr [of x] by auto
    then obtain st c where p: "place s x = Some (st, Some c)" using ok by (rule place_some)
    then show "\<exists>st i. getStageCluster at' x = Some (st, i) \<and> st < m + 1" using attr [of x] x(1) placeD(2) [OF ok p] m(2) by simp
  qed
  obtain s' where s': "fold (\<lambda>op acc. Option.bind acc (\<lambda>s. if stageAttr at' op = None then Some s
         else map_option (\<lambda>(stage, i). insert_op op stage (f i) s) (getStageCluster at' op))) (bodyOps l) (Some ?s0) = Some s'"
    "clusters s' = cl'"
    "\<And>x. place s' x = (if x < bodySize l \<and> stageAttr at' x \<noteq> None then map_option (\<lambda>(st, i). (st, f i)) (getStageCluster at' x) else place ?s0 x)"
    using deserialize_fold [OF stage, of ?s0 f] by auto
  have run: "deSerialize l at' (new_schedule 0) = Some (Some s')"
    using s'(1) m(1) mm cs unfolding deSerialize_def f_def by (simp add: new_schedule_def)
  have place': "place s' x = (case place s x of Some (st, c) \<Rightarrow> Some (st, Some (cs ! nat (rank (clusters s) (the c) - lo))) | None \<Rightarrow> None)"
    if x: "x < bodySize l" for x
  proof (cases "place s x")
    case None
    then show ?thesis using s'(3) [of x] attr [OF x] by (simp add: place_def new_schedule_def)
  next
    case (Some p)
    then have "place s x \<noteq> None" by simp
    then obtain st e where p: "place s x = Some (st, Some e)" using ok by (rule place_some)
    then show ?thesis using s'(3) [of x] attr [OF x] x bounds [OF x p] by (simp add: f_def)
  qed
  have "isOpBefore s' a b = isOpBefore s a b" if ab: "a < bodySize l" "b < bodySize l" for a b
  proof (cases "place s a = None \<or> place s b = None")
    case True
    then show ?thesis using place' [OF ab(1)] place' [OF ab(2)] by (auto simp: isOpBefore_def split: option.splits)
  next
    case False
    then have "place s a \<noteq> None" "place s b \<noteq> None" by simp_all
    then obtain st c st' c' where p: "place s a = Some (st, Some c)" "place s b = Some (st', Some c')" using ok by (metis place_some)
    let ?c = "cs ! nat (rank (clusters s) c - lo)" and ?c' = "cs ! nat (rank (clusters s) c' - lo)"
    have q: "place s' a = Some (st, Some ?c)" "place s' b = Some (st', Some ?c')" using place' [OF ab(1)] place' [OF ab(2)] p by simp_all
    have n: "?c \<in> nodes cl'" "rank cl' ?c = rank (clusters s) c - lo" "?c' \<in> nodes cl'" "rank cl' ?c' = rank (clusters s) c' - lo"
      using new bounds [OF ab(1) p(1)] bounds [OF ab(2) p(2)] by blast+
    have nd: "c \<in> nodes (clusters s)" "c' \<in> nodes (clusters s)" using placeD(3) [OF ok p(1)] placeD(3) [OF ok p(2)] .
    have "?c = ?c' \<longleftrightarrow> c = c'" using rank_inj [OF cl' n(1,3)] rank_inj [OF cl nd] n(2,4) by simp
    moreover have "isBefore cl' ?c ?c' = isBefore (clusters s) c c'"
      using isBefore_rank [OF cl' n(1,3)] isBefore_rank [OF cl nd] n(2,4) by simp
    ultimately show ?thesis using p q s'(2) by (simp add: isOpBefore_def)
  qed
  moreover have "map_option fst (place s' x) = map_option fst (place s x)" if "x < bodySize l" for x
    using place' [OF that] by (cases "place s x") auto
  ultimately show ?thesis using at'(1) run by blast
qed

lemma serialize_roundtrip_witness:
  "\<exists>s at' s'. scheduleKeyOps sample_loop sample_latencies = Some s \<and> serialize sample_loop s no_attrs = Some at' \<and>
     deSerialize sample_loop at' (new_schedule 0) = Some (Some s') \<and> isOpBefore s' 0 1 = isOpBefore s 0 1"
proof -
  obtain s where s: "scheduleKeyOps sample_loop sample_latencies = Some s" "schedule_ok s"
    using scheduleKeyOps_spec [OF sample_loop_wf sample_latency sample_keys(1)] by blast
  have "\<forall>x < bodySize sample_loop. place s x = None \<longrightarrow> stageAttr no_attrs x = None" by (simp add: no_attrs_def)
  from serialize_roundtrip [OF s(2) this] obtain at' s' where "serialize sample_loop s no_attrs = Some at'"
    "deSerialize sample_loop at' (new_schedule 0) = Some (Some s')"
    "\<forall>a < bodySize sample_loop. \<forall>b < bodySize sample_loop. isOpBefore s' a b = isOpBefore s a b" by blast
  then show ?thesis using s(1) by (auto simp: sample_loop_def)
qed

end
