(* ===== verification/WarpConversion.thy ===== *)
theory WarpConversion
  imports LayoutUtils LayoutConversions
begin

text \<open>
  Conversions within a warp, \<open>getWarpLayoutConvertDecomposition\<close> of \<open>lib/Analysis/Utility.cpp\<close>: the conversion is a
  permutation P of the bits of the register and lane index, factored into swaps of a register bit with a lane bit
  after a permutation of the lane bits and one of the register bits. A location is a bit: 0 and its index for a
  register bit, 1 and its index for a lane bit.
\<close>

section \<open>The permutation\<close>

type_synonym loc = "nat \<times> nat"

definition warp_dims :: "dim list" where
  "warp_dims = [''register'', ''lane'']"

definition pad_dim :: "nat \<Rightarrow> dim \<Rightarrow> nat \<Rightarrow> basesT \<Rightarrow> basesT" where
  "pad_dim outs d n bs =
     (let vs = (case map_of bs d of Some vs \<Rightarrow> vs | None \<Rightarrow> [])
      in AList.update d (vs @ replicate (n - length vs) (replicate outs 0)) bs)"

definition padWithZeros :: "nat \<Rightarrow> nat \<Rightarrow> linear_layout \<Rightarrow> linear_layout option" where
  "padWithZeros nRegBases nLaneBases l =
     (let outs = length (outDims l)
      in mkLayout (pad_dim outs ''lane'' nLaneBases (pad_dim outs ''register'' nRegBases (bases l))) (outDims l) False)"

text \<open>\<open>getBasis(dim, inIdx)[0]\<close>\<close>

definition basis_value :: "linear_layout \<Rightarrow> loc \<Rightarrow> int option" where
  "basis_value l x = (case getBasisVec l (warp_dims ! fst x) (snd x) of Some (v # _) \<Rightarrow> Some v | _ \<Rightarrow> None)"

definition set_entry :: "loc \<Rightarrow> loc \<Rightarrow> basesT \<Rightarrow> basesT option" where
  "set_entry x y p = do {
     vs \<leftarrow> map_of p (warp_dims ! fst x);
     (if snd x < length vs \<and> fst y < length (vs ! snd x)
      then Some (AList.update (warp_dims ! fst x) (vs[snd x := (vs ! snd x)[fst y := 2 ^ snd y]]) p) else None)
   }"

definition locations :: "nat \<Rightarrow> nat \<Rightarrow> loc list" where
  "locations nReg nLane = map (Pair 0) [0..<nReg] @ map (Pair 1) [0..<nLane]"

definition fill_zeros :: "linear_layout \<Rightarrow> linear_layout \<Rightarrow> nat \<Rightarrow> nat \<Rightarrow> basesT \<Rightarrow> basesT option" where
  "fill_zeros S T nReg nLane p = do {
     zs \<leftarrow> those (map (\<lambda>x. do { s \<leftarrow> basis_value S x; t \<leftarrow> basis_value T x; Some (x, s = 0, t = 0) }) (locations nReg nLane));
     let fixed = map fst (filter (\<lambda>(x, s, t). s \<and> t) zs);
     let srcFreeZeros = map fst (filter (\<lambda>(x, s, t). s \<and> \<not> t) zs);
     let dstFreeZeros = map fst (filter (\<lambda>(x, s, t). \<not> s \<and> t) zs);
     fold (\<lambda>(x, y) acc. Option.bind acc (set_entry x y)) (zip fixed fixed @ zip srcFreeZeros dstFreeZeros) (Some p)
   }"

section \<open>The walk\<close>

record cycle_walk =
  visited :: "bool list"
  regBases :: "int list"
  laneBases :: "int list"
  mixedTranspositions :: "(nat \<times> nat) list"
  regStartIdx :: "nat option"
  laneStartIdx :: "nat option"

text \<open>Where a bit goes: the last component of its basis vector that is not 0.\<close>

definition next_loc :: "basesT \<Rightarrow> loc \<Rightarrow> loc option" where
  "next_loc p x = do {
     vs \<leftarrow> map_of p (warp_dims ! fst x);
     (if snd x < length vs
      then (case filter (\<lambda>(k, v). v \<noteq> 0) (enumerate 0 (vs ! snd x)) of
          [] \<Rightarrow> None
        | e # es \<Rightarrow> (let (k, v) = last (e # es) in if k < 2 then Some (k, log2_32 v) else None))
      else None)
   }"

definition flatIdx :: "nat \<Rightarrow> loc \<Rightarrow> nat" where
  "flatIdx nReg x = (if fst x = 0 then snd x else nReg + snd x)"

text \<open>The ends of a run of lane bits are -1, None here, until they are met; the code keeps the end of a run only from
  where it is found to where it is used.\<close>

definition walk_edge :: "nat \<Rightarrow> loc \<Rightarrow> loc \<Rightarrow> cycle_walk \<Rightarrow> cycle_walk option" where
  "walk_edge nReg x y w0 =
     (if flatIdx nReg x \<ge> length (visited w0) then None
      else (let w = w0\<lparr>visited := (visited w0)[flatIdx nReg x := True]\<rparr>; i = snd x; j = snd y
        in if fst x = 0 \<and> fst y = 0
           then (if i < length (regBases w) then Some (w\<lparr>regBases := (regBases w)[i := 2 ^ j]\<rparr>) else None)
           else if fst x \<noteq> 0 \<and> fst y \<noteq> 0
           then (if i < length (laneBases w) then Some (w\<lparr>laneBases := (laneBases w)[i := 2 ^ j]\<rparr>) else None)
           else if fst x = 0 then Some (w\<lparr>regStartIdx := Some i, laneStartIdx := Some j\<rparr>)
           else (case (regStartIdx w, laneStartIdx w) of
               (Some m, Some s) \<Rightarrow>
                 if m < length (regBases w) \<and> i < length (laneBases w)
                 then Some (w\<lparr>regBases := (regBases w)[m := 2 ^ j], laneBases := (laneBases w)[i := 2 ^ s],
                        mixedTranspositions := mixedTranspositions w @ [(j, s)], regStartIdx := None, laneStartIdx := None\<rparr>)
                 else None
             | _ \<Rightarrow> None)))"

partial_function (option) walk_cycle :: "nat \<Rightarrow> basesT \<Rightarrow> loc \<Rightarrow> loc \<Rightarrow> cycle_walk \<Rightarrow> cycle_walk option" where [code]:
  "walk_cycle nReg p start x w =
     (case next_loc p x of
        None \<Rightarrow> None
      | Some y \<Rightarrow>
          (case walk_edge nReg x y w of
             None \<Rightarrow> None
           | Some w' \<Rightarrow> if flatIdx nReg y = flatIdx nReg start then Some w' else walk_cycle nReg p start y w'))"

text \<open>Every cycle starts with no run in progress.\<close>

definition walk_from :: "nat \<Rightarrow> basesT \<Rightarrow> loc \<Rightarrow> cycle_walk \<Rightarrow> cycle_walk option" where
  "walk_from nReg p x w =
     (if flatIdx nReg x \<ge> length (visited w) then None
      else if visited w ! flatIdx nReg x then Some w
      else walk_cycle nReg p x x (w\<lparr>regStartIdx := None, laneStartIdx := None\<rparr>))"

definition walk_cycles :: "nat \<Rightarrow> nat \<Rightarrow> basesT \<Rightarrow> cycle_walk option" where
  "walk_cycles nReg nLane p = do {
     w \<leftarrow> fold (\<lambda>x acc. Option.bind acc (walk_from nReg p x)) (locations nReg nLane)
       (Some \<lparr>visited = replicate (nReg + nLane) False, regBases = replicate nReg 0, laneBases = replicate nLane 0,
          mixedTranspositions = [], regStartIdx = None, laneStartIdx = None\<rparr>);
     (if list_all id (visited w) then Some w else None)
   }"

section \<open>Selectors\<close>

text \<open>A transposition of a register bit with a lane bit, and the selectors of the byte permutes before and after the
  shuffle that do it.\<close>

record transposition_info =
  transposition :: "nat \<times> nat"
  topPreSel :: "16 word"
  botPreSel :: "16 word"
  topPostSel :: "16 word"
  botPostSel :: "16 word"

definition plain_info :: "nat \<times> nat \<Rightarrow> transposition_info" where
  "plain_info t = \<lparr>transposition = t, topPreSel = 0x3210, botPreSel = 0x7654, topPostSel = 0x3210, botPostSel = 0x7654\<rparr>"

definition permuteSelector :: "nat \<Rightarrow> 16 word \<Rightarrow> nat \<Rightarrow> 16 word" where
  "permuteSelector nPack sel bitIdx =
     (let lo = bitIdx + (2 - nPack); maskHi = 0x4444; maskLo = push_bit lo 0x1111;
          fixed = and (and sel (not maskHi)) (not maskLo); shift = 2 - lo
      in or fixed (or (drop_bit shift (and maskHi sel)) (push_bit shift (and maskLo sel))))"

text \<open>Low bits other than the ends of the excised bits become fixed points of the register permutation.\<close>

definition generateSelectors :: "nat \<Rightarrow> nat \<Rightarrow> nat \<Rightarrow> nat list \<Rightarrow> int list \<Rightarrow> (16 word \<times> 16 word) \<times> int list" where
  "generateSelectors nPack h t lowBits regs =
     fold (\<lambda>lowBit ((topSel, botSel), regs).
         ((permuteSelector nPack topSel lowBit, permuteSelector nPack botSel lowBit),
          if lowBit \<noteq> h \<and> lowBit \<noteq> t then regs[lowBit := 2 ^ lowBit] else regs))
       lowBits ((0x3210, 0x7654), regs)"

text \<open>Where the register permutation maps a bit.\<close>

definition next_bit :: "int list \<Rightarrow> nat \<Rightarrow> nat option" where
  "next_bit regs b = (if b < length regs then Some (log2_32 (regs ! b)) else None)"

partial_function (option) nextHighFree :: "nat \<Rightarrow> nat list \<Rightarrow> int list \<Rightarrow> nat \<Rightarrow> nat \<Rightarrow> bool option" where [code]:
  "nextHighFree nPack paired regs start bt =
     (if nPack \<le> bt then Some (bt = start \<or> bt \<notin> set paired)
      else (case next_bit regs bt of
          None \<Rightarrow> None
        | Some c \<Rightarrow> if c = start then Some False else nextHighFree nPack paired regs start c))"

partial_function (option) cycle_from :: "int list \<Rightarrow> nat \<Rightarrow> nat \<Rightarrow> nat list \<Rightarrow> nat list option" where [code]:
  "cycle_from regs start bt acc =
     (case next_bit regs bt of
        None \<Rightarrow> None
      | Some c \<Rightarrow> if c = start then Some (acc @ [bt]) else cycle_from regs start c (acc @ [bt]))"

definition prev_bit :: "int list \<Rightarrow> nat \<Rightarrow> nat option" where
  "prev_bit regs b = map_option last (cycle_from regs b b [])"

text \<open>The first high bit that is not taken.\<close>

partial_function (option) free_partner :: "nat list \<Rightarrow> nat \<Rightarrow> nat option" where [code]:
  "free_partner paired b = (if b \<in> set paired then free_partner paired (b + 1) else Some b)"

text \<open>The partner of a low bit, the low bits before the shuffle, the register permutation and the taken bits.\<close>

definition findPartner ::
  "nat \<Rightarrow> nat \<Rightarrow> nat list \<Rightarrow> int list \<Rightarrow> nat list \<Rightarrow> (nat \<times> nat list \<times> int list \<times> nat list) option" where
  "findPartner nPack lowBit pre regs paired = do {
     let otherLow = 1 - lowBit;
     other \<leftarrow> (if nPack \<noteq> 2 then Some None
       else if lowBit > 1 then None
       else do {
         b \<leftarrow> next_bit regs otherLow;
         n \<leftarrow> next_bit regs lowBit;
         Some (if n = lowBit \<and> nPack \<le> b \<and> b \<notin> set paired \<and> otherLow \<notin> set paired then Some b else None)
       });
     (case other of
        Some b \<Rightarrow> do {
          p \<leftarrow> prev_bit regs otherLow;
          Some (b, pre @ [otherLow], regs[p := 2 ^ b], b # paired)
        }
      | None \<Rightarrow> do {
          b \<leftarrow> free_partner paired nPack;
          Some (b, pre, regs, b # paired)
        })
   }"

text \<open>The ends of the bits to excise, the partner if there is one already, the low bits after and before the shuffle,
  and the taken bits.\<close>

definition excision ::
  "nat \<Rightarrow> nat \<Rightarrow> nat list \<Rightarrow> int list \<Rightarrow> nat list \<Rightarrow> (nat \<times> nat \<times> nat option \<times> nat list \<times> nat list \<times> nat list) option" where
  "excision nPack rBit cyc regs paired =
     (let isBoundary = (\<lambda>b. nPack \<le> b \<or> (b \<in> set paired \<and> b \<noteq> rBit));
          post = takeWhile (\<lambda>b. \<not> isBoundary b) cyc; pre = takeWhile (\<lambda>b. \<not> isBoundary b) (rev cyc)
      in if length post < length cyc
         then (let fe = cyc ! length post; t = rev cyc ! length pre in
           if fe = rBit \<or> fe \<notin> set paired
           then Some (fe, t, Some fe, post, (if t < nPack \<and> t \<in> set paired then t # pre else pre), paired)
           else (case post of
               [] \<Rightarrow> None
             | h # _ \<Rightarrow> (let paired' = removeAll h paired; pre' = pre @ [h]
                 in Some (h, t, None, [h], (if t < nPack \<and> t \<in> set paired' then t # pre' else pre'), paired'))))
         else do {
           n \<leftarrow> next_bit regs rBit;
           (if n \<noteq> rBit \<and> n \<in> set paired
            then (case (pre, butlast post) of
                (_ # pre', h # post') \<Rightarrow> Some (rBit, n, None, h # post', pre', removeAll h paired) | _ \<Rightarrow> None)
            else (case pre of
                [] \<Rightarrow> None
              | h # _ \<Rightarrow> Some (h, h, None, (if length post = 2 then butlast post else post), pre, paired)))
         })"

definition insert_info :: "nat \<Rightarrow> nat list \<Rightarrow> transposition_info \<Rightarrow> transposition_info list \<Rightarrow> transposition_info list" where
  "insert_info nPack pre info ret =
     (if pre = [] then ret @ [info]
      else (let sel = (if int nPack - int (last pre) = 2 then 0x6240 else 0x5410);
                before = takeWhile (\<lambda>t. topPostSel t \<noteq> sel) ret
            in before @ info # drop (length before) ret))"

definition process_transposition ::
  "nat \<Rightarrow> nat \<times> nat \<Rightarrow> int list \<times> nat list \<times> transposition_info list \<Rightarrow> (int list \<times> nat list \<times> transposition_info list) option" where
  "process_transposition nPack p s = (case s of (regs, paired, ret) \<Rightarrow> do {
     cyc \<leftarrow> cycle_from regs (fst p) (fst p) [];
     (h, t, partner, post, pre, paired1) \<leftarrow> excision nPack (fst p) cyc regs paired;
     (partnerBit, pre', regs1, paired2) \<leftarrow> (case partner of
         Some b \<Rightarrow> Some (b, pre, regs, paired1) | None \<Rightarrow> findPartner nPack h pre regs paired1);
     let ((topPost, botPost), regs2) = generateSelectors nPack h t (rev post) regs1;
     let ((topPre, botPre), regs3) = generateSelectors nPack h t pre' regs2;
     (if t < length regs3
      then Some (regs3[t := 2 ^ h], paired2,
        insert_info nPack pre' \<lparr>transposition = (partnerBit, snd p), topPreSel = topPre, botPreSel = botPre,
          topPostSel = topPost, botPostSel = botPost\<rparr> ret)
      else None)
   })"

definition getTranspositionSelectors ::
  "(nat \<times> nat) list \<Rightarrow> int list \<Rightarrow> nat \<Rightarrow> (transposition_info list \<times> int list) option" where
  "getTranspositionSelectors mixed regs nPack =
     (if nPack = 0 then Some (map plain_info mixed, regs)
      else do {
        let paired = map fst mixed;
        free \<leftarrow> those (map (\<lambda>p. nextHighFree nPack paired regs (fst p) (fst p)) mixed);
        let sorted_mixed = map fst (filter snd (zip mixed free)) @ map fst (filter (Not \<circ> snd) (zip mixed free));
        (regs', _, ret) \<leftarrow> fold (\<lambda>p acc. Option.bind acc (process_transposition nPack p)) sorted_mixed (Some (regs, paired, []));
        Some (if nPack = 2 \<and> 2 \<le> length regs' \<and> regs' ! 0 = 2 \<and> regs' ! 1 = 1 \<and> ret \<noteq> []
              then butlast ret @ [(last ret)\<lparr>topPostSel := 0x3120, botPostSel := 0x7564\<rparr>] else ret, regs')
      })"

section \<open>The decomposition\<close>

record decomposed_conversion =
  pReg :: linear_layout
  pLane :: linear_layout
  processedTranspos :: "transposition_info list"
  nPacked :: nat

text \<open>The factors of the permutation with the basis vectors \<open>p\<close>.\<close>

definition factor_permutation :: "nat \<Rightarrow> nat \<Rightarrow> basesT \<Rightarrow> int \<Rightarrow> decomposed_conversion option" where
  "factor_permutation nReg nLane p bitwidth = do {
     w \<leftarrow> walk_cycles nReg nLane p;
     let m = length (mixedTranspositions w);
     let nPackPrelim = log2_32 (max 1 (min 4 (32 sdiv bitwidth)));
     (if bitwidth = 0 \<or> nReg < m then None else Some ());
     (infos, regs) \<leftarrow> getTranspositionSelectors (mixedTranspositions w) (regBases w) (min nPackPrelim (nReg - m));
     reg \<leftarrow> mkLayout [(''register'', map (\<lambda>v. [v]) regs)] [(''register'', 2 ^ nReg)] True;
     lane \<leftarrow> mkLayout [(''lane'', map (\<lambda>v. [v]) (laneBases w))] [(''lane'', 2 ^ nLane)] True;
     Some \<lparr>pReg = reg, pLane = lane, processedTranspos = infos, nPacked = min nPackPrelim (nReg - m)\<rparr>
   }"

definition decompose_layouts :: "linear_layout \<Rightarrow> linear_layout \<Rightarrow> int \<Rightarrow> decomposed_conversion option" where
  "decompose_layouts src0 dst0 bitwidth = do {
     removeSrc \<leftarrow> actionRemoveBroadcastedRegs src0;
     removeDst \<leftarrow> actionRemoveBroadcastedRegs dst0;
     src \<leftarrow> applyAction removeSrc src0;
     dst \<leftarrow> applyAction removeDst dst0;
     nSrcReg \<leftarrow> getInDimSizeLog2 src ''register'';
     nDstReg \<leftarrow> getInDimSizeLog2 dst ''register'';
     nSrcLane \<leftarrow> getInDimSizeLog2 src ''lane'';
     nDstLane \<leftarrow> getInDimSizeLog2 dst ''lane'';
     let nReg = max nSrcReg nDstReg;
     let nLane = max nSrcLane nDstLane;
     S0 \<leftarrow> sublayout src warp_dims (getOutDimNames src);
     T0 \<leftarrow> sublayout dst warp_dims (getOutDimNames src);
     let pad = nSrcReg \<noteq> nDstReg \<or> nSrcLane \<noteq> nDstLane;
     S \<leftarrow> (if pad then padWithZeros nReg nLane S0 else Some S0);
     T \<leftarrow> (if pad then padWithZeros nReg nLane T0 else Some T0);
     P0 \<leftarrow> invertAndCompose S T;
     Sf \<leftarrow> flattenOuts S;
     Tf \<leftarrow> flattenOuts T;
     p \<leftarrow> fill_zeros Sf Tf nReg nLane (bases P0);
     factor_permutation nReg nLane p bitwidth
   }"

definition getWarpLayoutConvertDecomposition ::
  "int list \<Rightarrow> distributed \<Rightarrow> distributed \<Rightarrow> int \<Rightarrow> decomposed_conversion option" where
  "getWarpLayoutConvertDecomposition shape srcEnc dstEnc bitwidth = do {
     src \<leftarrow> distToLinearLayout srcEnc shape;
     dst \<leftarrow> distToLinearLayout dstEnc shape;
     decompose_layouts src dst bitwidth
   }"

section \<open>What a conversion moves\<close>

fun common_prefix :: "dim list \<Rightarrow> dim list \<Rightarrow> dim list" where
  "common_prefix (a # as) (b # bs) = (if a = b then a # common_prefix as bs else [])"
| "common_prefix _ _ = []"

fun quotients :: "dim list \<Rightarrow> linear_layout \<Rightarrow> linear_layout option" where
  "quotients [] l = Some l"
| "quotients (d # ds) l = Option.bind (quotient l [d]) (\<lambda>q. case q of None \<Rightarrow> Some l | Some c \<Rightarrow> quotients ds c)"

text \<open>The slowest moving dimensions on which the conversion is the identity are taken off.\<close>

definition minimal_cvt :: "linear_layout \<Rightarrow> linear_layout \<Rightarrow> linear_layout option" where
  "minimal_cvt srcLayout dstLayout = do {
     c \<leftarrow> invertAndCompose dstLayout srcLayout;
     quotients (common_prefix (rev (getInDimNames srcLayout)) (rev (getInDimNames dstLayout))) c
   }"

definition minimalCvtLayout :: "int list \<Rightarrow> encoding \<Rightarrow> encoding \<Rightarrow> linear_layout option" where
  "minimalCvtLayout shape srcEnc dstEnc = do {
     srcLayout \<leftarrow> toLinearLayout shape srcEnc;
     dstLayout \<leftarrow> toLinearLayout shape dstEnc;
     minimal_cvt srcLayout dstLayout
   }"

definition cvtReordersRegisters :: "int list \<Rightarrow> distributed \<Rightarrow> distributed \<Rightarrow> bool option" where
  "cvtReordersRegisters shape src dst =
     map_option (\<lambda>l. getOutDimNames l = [] \<or> getOutDimNames l = [''register''])
       (minimalCvtLayout shape (Distributed src) (Distributed dst))"

definition cvtNeedsWarpShuffle :: "int list \<Rightarrow> distributed \<Rightarrow> distributed \<Rightarrow> bool option" where
  "cvtNeedsWarpShuffle shape src dst = do {
     l \<leftarrow> minimalCvtLayout shape (Distributed src) (Distributed dst);
     (if getOutDimNames l = warp_dims
      then map_option (\<lambda>f. length (processedTranspos f) < 2) (getWarpLayoutConvertDecomposition shape src dst 32)
      else Some False)
   }"

definition cvtNeedsSharedMemory :: "int list \<Rightarrow> distributed \<Rightarrow> distributed \<Rightarrow> bool option" where
  "cvtNeedsSharedMemory shape src dst = do {
     r \<leftarrow> cvtReordersRegisters shape src dst;
     (if r then Some False else map_option Not (cvtNeedsWarpShuffle shape src dst))
   }"

end
