(* ===== verification/WarpLemmas.thy ===== *)
theory WarpLemmas
  imports WarpConversion
begin

text \<open>
  The walk through the cycles of a permutation of register and lane bits ends, and factors the permutation.
\<close>

section \<open>Locations\<close>

definition locs :: "nat \<Rightarrow> nat \<Rightarrow> loc set" where
  "locs nReg nLane = set (locations nReg nLane)"

lemma locs_iff: "x \<in> locs nReg nLane \<longleftrightarrow> fst x = 0 \<and> snd x < nReg \<or> fst x = 1 \<and> snd x < nLane"
  by (cases x) (auto simp: locs_def locations_def)

lemma finite_locs [simp]: "finite (locs nReg nLane)"
  by (simp add: locs_def)

lemma flatIdx_less: "x \<in> locs nReg nLane \<Longrightarrow> flatIdx nReg x < nReg + nLane"
  by (auto simp: locs_iff flatIdx_def)

lemma flatIdx_inj: "x \<in> locs nReg nLane \<Longrightarrow> y \<in> locs nReg nLane \<Longrightarrow> flatIdx nReg x = flatIdx nReg y \<longleftrightarrow> x = y"
  by (cases x; cases y) (auto simp: locs_iff flatIdx_def)

text \<open>The basis vectors of a permutation of the bits.\<close>

definition permutes_bits :: "nat \<Rightarrow> nat \<Rightarrow> basesT \<Rightarrow> (loc \<Rightarrow> loc) \<Rightarrow> bool" where
  "permutes_bits nReg nLane p f \<longleftrightarrow> inj_on f (locs nReg nLane) \<and>
     (\<forall>x \<in> locs nReg nLane. f x \<in> locs nReg nLane \<and> next_loc p x = Some (f x))"

section \<open>The invariant of the walk\<close>

text \<open>The factors map a bit where the permutation does.\<close>

definition factored_at :: "(loc \<Rightarrow> loc) \<Rightarrow> cycle_walk \<Rightarrow> loc \<Rightarrow> bool" where
  "factored_at f w x \<longleftrightarrow>
     (if fst x = 0
      then (if fst (f x) = 0 then regBases w ! snd x = 2 ^ snd (f x)
            else \<exists>r. regBases w ! snd x = 2 ^ r \<and> (r, snd (f x)) \<in> set (mixedTranspositions w))
      else (if fst (f x) \<noteq> 0 then laneBases w ! snd x = 2 ^ snd (f x)
            else \<exists>s. laneBases w ! snd x = 2 ^ s \<and> (snd (f x), s) \<in> set (mixedTranspositions w)))"

text \<open>Visited bits are factored_at, but for the register bit in front of a run of lane bits in progress.\<close>

definition walk_inv :: "(loc \<Rightarrow> loc) \<Rightarrow> nat \<Rightarrow> nat \<Rightarrow> loc set \<Rightarrow> loc set \<Rightarrow> cycle_walk \<Rightarrow> bool" where
  "walk_inv f nReg nLane V pend w \<longleftrightarrow>
     length (visited w) = nReg + nLane \<and> length (regBases w) = nReg \<and> length (laneBases w) = nLane \<and> V \<subseteq> locs nReg nLane \<and>
     (\<forall>x \<in> locs nReg nLane. visited w ! flatIdx nReg x \<longleftrightarrow> x \<in> V) \<and>
     (\<forall>x \<in> V - pend. factored_at f w x) \<and>
     (\<forall>t \<in> set (mixedTranspositions w). (\<exists>x \<in> V. fst x = 1 \<and> f x = (0, fst t)) \<and> (\<exists>x \<in> V - pend. fst x = 0 \<and> f x = (1, snd t))) \<and>
     distinct (map fst (mixedTranspositions w)) \<and> distinct (map snd (mixedTranspositions w))"

lemma walk_invD:
  assumes "walk_inv f nReg nLane V pend w"
  shows "length (visited w) = nReg + nLane" "length (regBases w) = nReg" "length (laneBases w) = nLane" "V \<subseteq> locs nReg nLane"
    "\<And>x. x \<in> locs nReg nLane \<Longrightarrow> visited w ! flatIdx nReg x \<longleftrightarrow> x \<in> V"
    "\<And>x. x \<in> V \<Longrightarrow> x \<notin> pend \<Longrightarrow> factored_at f w x"
    "\<And>t. t \<in> set (mixedTranspositions w) \<Longrightarrow> \<exists>x \<in> V. fst x = 1 \<and> f x = (0, fst t)"
    "\<And>t. t \<in> set (mixedTranspositions w) \<Longrightarrow> \<exists>x \<in> V - pend. fst x = 0 \<and> f x = (1, snd t)"
    "distinct (map fst (mixedTranspositions w))" "distinct (map snd (mixedTranspositions w))"
  using assms unfolding walk_inv_def by blast+

lemma visit_one:
  assumes "length vs = nReg + nLane" "\<And>z. z \<in> locs nReg nLane \<Longrightarrow> vs ! flatIdx nReg z \<longleftrightarrow> z \<in> V" "x \<in> locs nReg nLane"
    "z \<in> locs nReg nLane"
  shows "vs[flatIdx nReg x := True] ! flatIdx nReg z \<longleftrightarrow> z \<in> insert x V"
  using assms(1,2,4) flatIdx_less [OF assms(3)] flatIdx_inj [OF assms(3,4)] by (auto simp: nth_list_update)

lemma factored_at_reg_other:
  "factored_at f w z \<Longrightarrow> z \<noteq> (0, i) \<Longrightarrow> fst z \<in> {0, 1} \<Longrightarrow> factored_at f (w\<lparr>visited := v, regBases := (regBases w)[i := b]\<rparr>) z"
  by (cases z) (auto simp: factored_at_def)

lemma factored_at_lane_other:
  "factored_at f w z \<Longrightarrow> z \<noteq> (1, i) \<Longrightarrow> fst z \<in> {0, 1} \<Longrightarrow> factored_at f (w\<lparr>visited := v, laneBases := (laneBases w)[i := b]\<rparr>) z"
  by (cases z) (auto simp: factored_at_def)

lemma edge_same:
  assumes w: "walk_inv f nReg nLane V pend w" and x: "x \<in> locs nReg nLane" "x \<notin> V" "f x \<in> locs nReg nLane" "fst (f x) = fst x"
    and p: "pend \<subseteq> V"
  shows "\<exists>w'. walk_edge nReg x (f x) w = Some w' \<and> walk_inv f nReg nLane (insert x V) pend w' \<and>
    regStartIdx w' = regStartIdx w \<and> laneStartIdx w' = laneStartIdx w"
proof -
  note W = walk_invD [OF w]
  let ?v = "(visited w)[flatIdx nReg x := True]"
  define w' where "w' = (if fst x = 0 then w\<lparr>visited := ?v, regBases := (regBases w)[snd x := 2 ^ snd (f x)]\<rparr>
     else w\<lparr>visited := ?v, laneBases := (laneBases w)[snd x := 2 ^ snd (f x)]\<rparr>)"
  have e: "walk_edge nReg x (f x) w = Some w'"
    using x flatIdx_less [OF x(1)] W(1-3) by (auto simp: walk_edge_def w'_def locs_iff Let_def)
  have mixed: "mixedTranspositions w' = mixedTranspositions w" by (simp add: w'_def)
  have vis: "visited w' ! flatIdx nReg z \<longleftrightarrow> z \<in> insert x V" if "z \<in> locs nReg nLane" for z
    using visit_one [OF W(1,5) x(1) that] by (simp add: w'_def)
  have set_x: "factored_at f w' x" using x W(2,3) by (auto simp: w'_def factored_at_def locs_iff)
  have keep: "factored_at f w' z" if z: "z \<in> V" "z \<notin> pend" for z
  proof -
    have "z \<in> locs nReg nLane" using z(1) W(4) by blast
    then have zl: "fst z \<in> {0, 1}" by (auto simp: locs_iff)
    show ?thesis
    proof (cases "fst x = 0")
      case True
      then have "z \<noteq> (0, snd x)" using z(1) x(2) by (cases x) auto
      then show ?thesis using factored_at_reg_other [OF W(6) [OF z] _ zl] True by (simp add: w'_def)
    next
      case False
      then have "fst x = 1" using x(1) by (simp add: locs_iff)
      then have "z \<noteq> (1, snd x)" using z(1) x(2) by (cases x) auto
      then show ?thesis using factored_at_lane_other [OF W(6) [OF z] _ zl] False by (simp add: w'_def)
    qed
  qed
  have "walk_inv f nReg nLane (insert x V) pend w'"
    unfolding walk_inv_def
  proof (intro conjI ballI)
    show "visited w' ! flatIdx nReg z = (z \<in> insert x V)" if "z \<in> locs nReg nLane" for z by (rule vis [OF that])
    show "factored_at f w' z" if "z \<in> insert x V - pend" for z using that set_x keep by blast
    show "\<exists>z \<in> insert x V. fst z = 1 \<and> f z = (0, fst t)" if "t \<in> set (mixedTranspositions w')" for t
      using W(7) that unfolding mixed by blast
    show "\<exists>z \<in> insert x V - pend. fst z = 0 \<and> f z = (1, snd t)" if "t \<in> set (mixedTranspositions w')" for t
      using W(8) that unfolding mixed by blast
    show "length (visited w') = nReg + nLane" "length (regBases w') = nReg" "length (laneBases w') = nLane"
      using W(1-3) by (simp_all add: w'_def)
    show "insert x V \<subseteq> locs nReg nLane" using W(4) x(1) by blast
  qed (simp_all only: mixed W(9,10))
  then show ?thesis using e by (auto simp: w'_def)
qed

lemma edge_enter:
  assumes w: "walk_inv f nReg nLane V {} w" and x: "x \<in> locs nReg nLane" "x \<notin> V" "f x \<in> locs nReg nLane" "fst x = 0" "fst (f x) \<noteq> 0"
  shows "\<exists>w'. walk_edge nReg x (f x) w = Some w' \<and> walk_inv f nReg nLane (insert x V) {x} w' \<and>
    regStartIdx w' = Some (snd x) \<and> laneStartIdx w' = Some (snd (f x))"
proof -
  note W = walk_invD [OF w]
  define w' where "w' = w\<lparr>visited := (visited w)[flatIdx nReg x := True], regStartIdx := Some (snd x), laneStartIdx := Some (snd (f x))\<rparr>"
  have e: "walk_edge nReg x (f x) w = Some w'"
    using x flatIdx_less [OF x(1)] W(1) by (auto simp: walk_edge_def w'_def Let_def)
  have same: "factored_at f w' = factored_at f w" "mixedTranspositions w' = mixedTranspositions w" by (simp_all add: w'_def factored_at_def fun_eq_iff)
  have vis: "visited w' ! flatIdx nReg z \<longleftrightarrow> z \<in> insert x V" if "z \<in> locs nReg nLane" for z
    using visit_one [OF W(1,5) x(1) that] by (simp add: w'_def)
  have "walk_inv f nReg nLane (insert x V) {x} w'"
    unfolding walk_inv_def same
  proof (intro conjI ballI)
    show "visited w' ! flatIdx nReg z = (z \<in> insert x V)" if "z \<in> locs nReg nLane" for z by (rule vis [OF that])
    show "factored_at f w z" if "z \<in> insert x V - {x}" for z using that W(6) by blast
    show "\<exists>z \<in> insert x V. fst z = 1 \<and> f z = (0, fst t)" if "t \<in> set (mixedTranspositions w)" for t using W(7) [OF that] by blast
    show "\<exists>z \<in> insert x V - {x}. fst z = 0 \<and> f z = (1, snd t)" if "t \<in> set (mixedTranspositions w)" for t
      using W(8) [OF that] x(2) by blast
    show "insert x V \<subseteq> locs nReg nLane" using W(4) x(1) by blast
  qed (use W in \<open>simp_all add: w'_def\<close>)
  then show ?thesis using e by (auto simp: w'_def)
qed

lemma edge_leave:
  assumes w: "walk_inv f nReg nLane V {(0, m)} w" and f: "inj_on f (locs nReg nLane)"
    and x: "x \<in> locs nReg nLane" "x \<notin> V" "f x \<in> locs nReg nLane" "fst x \<noteq> 0" "fst (f x) = 0"
    and m: "(0, m) \<in> V" "f (0, m) = (1, s)" "regStartIdx w = Some m" "laneStartIdx w = Some s"
  shows "\<exists>w'. walk_edge nReg x (f x) w = Some w' \<and> walk_inv f nReg nLane (insert x V) {} w' \<and>
    regStartIdx w' = None \<and> laneStartIdx w' = None"
proof -
  note W = walk_invD [OF w]
  let ?j = "snd (f x)"
  define w' where "w' = w\<lparr>visited := (visited w)[flatIdx nReg x := True], regBases := (regBases w)[m := 2 ^ ?j],
    laneBases := (laneBases w)[snd x := 2 ^ s], mixedTranspositions := mixedTranspositions w @ [(?j, s)], regStartIdx := None,
    laneStartIdx := None\<rparr>"
  have ml: "(0, m) \<in> locs nReg nLane" using W(4) m(1) by blast
  have i: "m < nReg" "snd x < nLane" "fst x = 1" using ml x(1,4) by (auto simp: locs_iff)
  have e: "walk_edge nReg x (f x) w = Some w'"
    using x m(3,4) i flatIdx_less [OF x(1)] W(1-3) by (auto simp: walk_edge_def w'_def Let_def)
  have fx: "f x = (0, ?j)" using x(5) by (cases "f x") simp
  have vis: "visited w' ! flatIdx nReg z \<longleftrightarrow> z \<in> insert x V" if "z \<in> locs nReg nLane" for z
    using visit_one [OF W(1,5) x(1) that] by (simp add: w'_def)
  have set_x: "factored_at f w' x" using i x(4,5) W(3) by (auto simp: w'_def factored_at_def)
  have set_m: "factored_at f w' (0, m)" using i m(2) W(2) by (auto simp: w'_def factored_at_def)
  have keep: "factored_at f w' z" if z: "z \<in> V" "z \<noteq> (0, m)" for z
  proof -
    have zl: "z \<in> locs nReg nLane" using z(1) W(4) by blast
    have "z \<noteq> x" using z(1) x(2) by blast
    moreover have "factored_at f w z" using W(6) [OF z(1)] z(2) by simp
    ultimately show ?thesis using z(2) zl i by (cases z; cases x) (auto simp: factored_at_def w'_def locs_iff nth_list_update)
  qed
  have fresh: "?j \<notin> fst ` set (mixedTranspositions w)"
  proof
    assume "?j \<in> fst ` set (mixedTranspositions w)"
    then obtain t where "t \<in> set (mixedTranspositions w)" "?j = fst t" by auto
    then obtain z where "z \<in> V" "f z = f x" using W(7) fx by fastforce
    then show False using inj_onD [OF f] W(4) x(1,2) by blast
  qed
  have fresh2: "s \<notin> snd ` set (mixedTranspositions w)"
  proof
    assume "s \<in> snd ` set (mixedTranspositions w)"
    then obtain t where "t \<in> set (mixedTranspositions w)" "s = snd t" by auto
    then obtain z where "z \<in> V" "z \<noteq> (0, m)" "f z = f (0, m)" using W(8) m(2) by fastforce
    then show False using inj_onD [OF f] W(4) ml by blast
  qed
  have mixed: "mixedTranspositions w' = mixedTranspositions w @ [(?j, s)]" by (simp add: w'_def)
  have "walk_inv f nReg nLane (insert x V) {} w'"
    unfolding walk_inv_def mixed
  proof (intro conjI ballI)
    show "visited w' ! flatIdx nReg z = (z \<in> insert x V)" if "z \<in> locs nReg nLane" for z by (rule vis [OF that])
    show "factored_at f w' z" if "z \<in> insert x V - {}" for z using that set_x set_m keep by blast
    show "\<exists>z \<in> insert x V. fst z = 1 \<and> f z = (0, fst t)" if "t \<in> set (mixedTranspositions w @ [(?j, s)])" for t
    proof (cases "t \<in> set (mixedTranspositions w)")
      case True
      then show ?thesis using W(7) by blast
    next
      case False
      then have "t = (?j, s)" using that by simp
      then show ?thesis using fx i(3) by (intro bexI [of _ x]) auto
    qed
    show "\<exists>z \<in> insert x V - {}. fst z = 0 \<and> f z = (1, snd t)" if "t \<in> set (mixedTranspositions w @ [(?j, s)])" for t
    proof (cases "t \<in> set (mixedTranspositions w)")
      case True
      then show ?thesis using W(8) by blast
    next
      case False
      then have "t = (?j, s)" using that by simp
      then show ?thesis using m(1,2) by (intro bexI [of _ "(0, m)"]) auto
    qed
    show "insert x V \<subseteq> locs nReg nLane" using W(4) x(1) by blast
    show "distinct (map fst (mixedTranspositions w @ [(?j, s)]))" "distinct (map snd (mixedTranspositions w @ [(?j, s)]))"
      using W(9,10) fresh fresh2 by simp_all
  qed (use W in \<open>simp_all add: w'_def\<close>)
  then show ?thesis using e by (auto simp: w'_def)
qed

section \<open>A cycle\<close>

text \<open>What holds before an edge from \<open>x\<close>: the path from the start has been visited, and a run of lane bits in progress
  has the register bit in front of it; a cycle that starts at a lane bit has no register bits.\<close>

definition on_path :: "(loc \<Rightarrow> loc) \<Rightarrow> nat \<Rightarrow> nat \<Rightarrow> loc \<Rightarrow> loc \<Rightarrow> loc set \<Rightarrow> cycle_walk \<Rightarrow> bool" where
  "on_path f nReg nLane start x V w \<longleftrightarrow> x \<in> locs nReg nLane \<and> x \<notin> V \<and> start \<in> insert x V \<and>
     (\<forall>z \<in> V. f z \<in> insert x V) \<and> (\<forall>v \<in> insert x V. v \<noteq> start \<longrightarrow> (\<exists>z \<in> V. f z = v)) \<and>
     (if fst x = 0 then walk_inv f nReg nLane V {} w \<and> fst start = 0
      else (\<exists>m s. walk_inv f nReg nLane V {(0, m)} w \<and> (0, m) \<in> V \<and> f (0, m) = (1, s) \<and> regStartIdx w = Some m \<and> laneStartIdx w = Some s \<and> fst start = 0)
        \<or> walk_inv f nReg nLane V {} w \<and> fst start \<noteq> 0 \<and> (\<forall>z \<in> locs nReg nLane. fst z = 0 \<longrightarrow> z \<in> V))"

lemma path_next:
  assumes f: "inj_on f (locs nReg nLane)" and x: "f x \<in> locs nReg nLane" and V: "V \<subseteq> locs nReg nLane"
    and p: "on_path f nReg nLane start x V w" and ne: "f x \<noteq> start"
  shows "f x \<notin> insert x V" "start \<in> insert (f x) (insert x V)" "\<forall>z \<in> insert x V. f z \<in> insert (f x) (insert x V)"
    "\<forall>v \<in> insert (f x) (insert x V). v \<noteq> start \<longrightarrow> (\<exists>z \<in> insert x V. f z = v)"
proof -
  note P = p [unfolded on_path_def]
  show "f x \<notin> insert x V"
  proof
    assume "f x \<in> insert x V"
    then obtain z where "z \<in> V" "f z = f x" using P ne by blast
    then have "z = x" using inj_onD [OF f] V P by blast
    then show False using \<open>z \<in> V\<close> P by blast
  qed
  show "start \<in> insert (f x) (insert x V)" "\<forall>z \<in> insert x V. f z \<in> insert (f x) (insert x V)"
    "\<forall>v \<in> insert (f x) (insert x V). v \<noteq> start \<longrightarrow> (\<exists>z \<in> insert x V. f z = v)" using P by blast+
qed

lemma path_end:
  assumes f: "inj_on f (locs nReg nLane)" and V: "V \<subseteq> locs nReg nLane"
    and p: "on_path f nReg nLane start x V w" and e: "f x = start"
  shows "f ` insert x V = insert x V"
proof -
  have "f ` insert x V \<subseteq> insert x V" using p e unfolding on_path_def by blast
  moreover have l: "insert x V \<subseteq> locs nReg nLane" using V p unfolding on_path_def by blast
  ultimately show ?thesis by (intro endo_inj_surj finite_subset [OF l finite_locs] inj_on_subset [OF f l])
qed

lemma walk_cycle_done:
  assumes p: "permutes_bits nReg nLane p f" and path: "on_path f nReg nLane start x V w"
  shows "\<exists>w' V'. walk_cycle nReg p start x w = Some w' \<and> walk_inv f nReg nLane V' {} w' \<and> insert x V \<subseteq> V' \<and> f ` V' = V'"
  using path
proof (induction "card (locs nReg nLane - V)" arbitrary: x V w rule: less_induct)
  case less
  note P = less(2) [unfolded on_path_def]
  have inj: "inj_on f (locs nReg nLane)" using p by (simp add: permutes_bits_def)
  have x: "x \<in> locs nReg nLane" "x \<notin> V" using P by blast+
  have y: "f x \<in> locs nReg nLane" "next_loc p x = Some (f x)" using p x(1) by (simp_all add: permutes_bits_def)
  have V: "V \<subseteq> locs nReg nLane" using P walk_invD(4) by metis
  have st: "start \<in> locs nReg nLane" using P V by blast
  let ?V = "insert x V"
  have smaller: "card (locs nReg nLane - ?V) < card (locs nReg nLane - V)"
    using x by (intro psubset_card_mono) auto
  have "\<exists>w'. walk_edge nReg x (f x) w = Some w' \<and> (if f x = start then walk_inv f nReg nLane ?V {} w' else on_path f nReg nLane start (f x) ?V w')"
  proof -
    consider (rr) "fst x = 0" "fst (f x) = 0" | (rl) "fst x = 0" "fst (f x) \<noteq> 0" | (ll) "fst x \<noteq> 0" "fst (f x) \<noteq> 0"
      | (lr) "fst x \<noteq> 0" "fst (f x) = 0" by blast
    then show ?thesis
    proof cases
      case rr
      then have "walk_inv f nReg nLane V {} w" "fst start = 0" using P by auto
      from edge_same [OF this(1) x y(1)] rr obtain w' where w': "walk_edge nReg x (f x) w = Some w'" "walk_inv f nReg nLane ?V {} w'" by auto
      then show ?thesis using path_next [OF inj y(1) V less(2)] \<open>fst start = 0\<close> rr y(1) by (simp add: on_path_def)
    next
      case rl
      then have w: "walk_inv f nReg nLane V {} w" "fst start = 0" using P by auto
      have "f x \<noteq> start" using rl(2) w(2) by auto
      from edge_enter [OF w(1) x y(1) rl] obtain w' where w': "walk_edge nReg x (f x) w = Some w'" "walk_inv f nReg nLane ?V {x} w'"
        "regStartIdx w' = Some (snd x)" "laneStartIdx w' = Some (snd (f x))" by blast
      have "x = (0, snd x)" "f x = (1, snd (f x))" using rl y(1) by (cases x; cases "f x"; auto simp: locs_iff)+
      then have "\<exists>m s. walk_inv f nReg nLane ?V {(0, m)} w' \<and> (0, m) \<in> ?V \<and> f (0, m) = (1, s) \<and> regStartIdx w' = Some m \<and> laneStartIdx w' = Some s"
        using w' by (metis insertI1)
      then show ?thesis using path_next [OF inj y(1) V less(2) \<open>f x \<noteq> start\<close>] \<open>f x \<noteq> start\<close> w'(1) rl(2) y(1) w(2) by (auto simp: on_path_def)
    next
      case ll
      then consider (run) m s where "walk_inv f nReg nLane V {(0, m)} w" "(0, m) \<in> V" "f (0, m) = (1, s)" "regStartIdx w = Some m" "laneStartIdx w = Some s"
            "fst start = 0"
        | (lanes) "walk_inv f nReg nLane V {} w" "fst start \<noteq> 0" "\<forall>z \<in> locs nReg nLane. fst z = 0 \<longrightarrow> z \<in> V" using P by auto
      then show ?thesis
      proof cases
        case run
        have ne: "f x \<noteq> start" using run(6) ll(2) by auto
        have "fst (f x) = fst x" using ll x(1) y(1) by (auto simp: locs_iff)
        from edge_same [OF run(1) x y(1) this] run(2) obtain w' where w': "walk_edge nReg x (f x) w = Some w'" "walk_inv f nReg nLane ?V {(0, m)} w'"
          "regStartIdx w' = regStartIdx w" "laneStartIdx w' = laneStartIdx w" by auto
        then have "\<exists>m s. walk_inv f nReg nLane ?V {(0, m)} w' \<and> (0, m) \<in> ?V \<and> f (0, m) = (1, s) \<and> regStartIdx w' = Some m \<and> laneStartIdx w' = Some s"
          using run by auto
        then show ?thesis using path_next [OF inj y(1) V less(2) ne] ne w'(1) ll(2) y(1) run(6) by (auto simp: on_path_def)
      next
        case lanes
        have "fst (f x) = fst x" using ll x(1) y(1) by (auto simp: locs_iff)
        from edge_same [OF lanes(1) x y(1) this] obtain w' where w': "walk_edge nReg x (f x) w = Some w'" "walk_inv f nReg nLane ?V {} w'" by auto
        then show ?thesis using path_next [OF inj y(1) V less(2)] lanes(2,3) ll(2) y(1) by (auto simp: on_path_def)
      qed
    next
      case lr
      then consider (run) m s where "walk_inv f nReg nLane V {(0, m)} w" "(0, m) \<in> V" "f (0, m) = (1, s)" "regStartIdx w = Some m" "laneStartIdx w = Some s"
            "fst start = 0"
        | (lanes) "fst start \<noteq> 0" "\<forall>z \<in> locs nReg nLane. fst z = 0 \<longrightarrow> z \<in> V" using P by auto
      then show ?thesis
      proof cases
        case run
        from edge_leave [OF run(1) inj x y(1) lr run(2-5)] obtain w' where w': "walk_edge nReg x (f x) w = Some w'"
          "walk_inv f nReg nLane ?V {} w'" by auto
        then show ?thesis using path_next [OF inj y(1) V less(2)] run(6) lr y(1) by (simp add: on_path_def)
      next
        case lanes
        have "f x \<noteq> start" using lanes(1) lr(2) by auto
        then have "f x \<notin> V" using path_next(1) [OF inj y(1) V less(2)] by blast
        then show ?thesis using lanes(2) y(1) lr(2) by blast
      qed
    qed
  qed
  then obtain w' where w': "walk_edge nReg x (f x) w = Some w'"
    "if f x = start then walk_inv f nReg nLane ?V {} w' else on_path f nReg nLane start (f x) ?V w'" by blast
  have flat: "flatIdx nReg (f x) = flatIdx nReg start \<longleftrightarrow> f x = start" by (rule flatIdx_inj [OF y(1) st])
  show ?case
  proof (cases "f x = start")
    case True
    then have "walk_cycle nReg p start x w = Some w'" using y(2) w'(1) by (subst walk_cycle.simps) simp
    moreover have "walk_inv f nReg nLane ?V {} w'" using w'(2) True by simp
    moreover have "f ` ?V = ?V" by (rule path_end [OF inj V less(2) True])
    ultimately show ?thesis by blast
  next
    case False
    then have "walk_cycle nReg p start x w = walk_cycle nReg p start (f x) w'" using y(2) w'(1) flat by (subst walk_cycle.simps) simp
    then show ?thesis using less(1) [OF smaller, of "f x" w'] w'(2) False by auto
  qed
qed


section \<open>All cycles\<close>

lemma walk_inv_start: "walk_inv f nReg nLane V pend (w\<lparr>regStartIdx := a, laneStartIdx := b\<rparr>) = walk_inv f nReg nLane V pend w"
  by (simp add: walk_inv_def factored_at_def)

lemma walk_from_done:
  assumes p: "permutes_bits nReg nLane p f" and w: "walk_inv f nReg nLane V {} w" "f ` V = V" and x: "x \<in> locs nReg nLane"
    and regs: "fst x = 0 \<or> (\<forall>z \<in> locs nReg nLane. fst z = 0 \<longrightarrow> z \<in> V)"
  shows "\<exists>w' V'. walk_from nReg p x w = Some w' \<and> walk_inv f nReg nLane V' {} w' \<and> insert x V \<subseteq> V' \<and> f ` V' = V'"
proof -
  have l: "flatIdx nReg x < length (visited w)" using flatIdx_less [OF x] walk_invD(1) [OF w(1)] by simp
  have vis: "visited w ! flatIdx nReg x \<longleftrightarrow> x \<in> V" by (rule walk_invD(5) [OF w(1) x])
  show ?thesis
  proof (cases "x \<in> V")
    case True
    then show ?thesis using l vis w by (simp add: walk_from_def) blast
  next
    case False
    have "\<exists>z \<in> V. f z = v" if "v \<in> V" for v using that w(2) by (metis imageE)
    moreover have "\<forall>z \<in> V. f z \<in> insert x V" using w(2) by blast
    ultimately have "\<forall>z \<in> V. f z \<in> insert x V" "\<forall>v \<in> insert x V. v \<noteq> x \<longrightarrow> (\<exists>z \<in> V. f z = v)" by blast+
    then have "on_path f nReg nLane x x V (w\<lparr>regStartIdx := None, laneStartIdx := None\<rparr>)"
      using x False w(1) regs by (cases "fst x = 0") (simp_all add: on_path_def walk_inv_start)
    from walk_cycle_done [OF p this] show ?thesis using l vis False by (simp add: walk_from_def)
  qed
qed

lemma walk_list_done:
  assumes p: "permutes_bits nReg nLane p f"
    and xs: "\<forall>x \<in> set xs. x \<in> locs nReg nLane \<and> (fst x = 0 \<or> (\<forall>z \<in> locs nReg nLane. fst z = 0 \<longrightarrow> z \<in> V))"
  shows "walk_inv f nReg nLane V {} w \<Longrightarrow> f ` V = V \<Longrightarrow>
    \<exists>w' V'. fold (\<lambda>x acc. Option.bind acc (walk_from nReg p x)) xs (Some w) = Some w' \<and> walk_inv f nReg nLane V' {} w' \<and>
      set xs \<union> V \<subseteq> V' \<and> f ` V' = V'"
  using xs
proof (induction xs arbitrary: w V)
  case (Cons x xs)
  from walk_from_done [OF p Cons(2,3), of x] Cons(4) obtain w1 V1 where 1: "walk_from nReg p x w = Some w1"
    "walk_inv f nReg nLane V1 {} w1" "insert x V \<subseteq> V1" "f ` V1 = V1" by auto
  have "\<forall>x \<in> set xs. x \<in> locs nReg nLane \<and> (fst x = 0 \<or> (\<forall>z \<in> locs nReg nLane. fst z = 0 \<longrightarrow> z \<in> V1))"
    using Cons(4) 1(3) by (meson list.set_intros(2) subsetD subset_insertI)
  from Cons(1) [OF 1(2,4) this] obtain w' V' where 2: "fold (\<lambda>x acc. Option.bind acc (walk_from nReg p x)) xs (Some w1) = Some w'"
    "walk_inv f nReg nLane V' {} w'" "set xs \<union> V1 \<subseteq> V'" "f ` V' = V'" by blast
  have "fold (\<lambda>x acc. Option.bind acc (walk_from nReg p x)) (x # xs) (Some w) = Some w'" using 1(1) 2(1) by simp
  moreover have "set (x # xs) \<union> V \<subseteq> V'" using 1(3) 2(3) by auto
  ultimately show ?case using 2(2,4) by blast
qed auto

lemma walk_cycles_inv:
  assumes p: "permutes_bits nReg nLane p f"
  shows "\<exists>w. walk_cycles nReg nLane p = Some w \<and> walk_inv f nReg nLane (locs nReg nLane) {} w"
proof -
  let ?w = "\<lparr>visited = replicate (nReg + nLane) False, regBases = replicate nReg 0, laneBases = replicate nLane 0,
    mixedTranspositions = [], regStartIdx = None, laneStartIdx = None\<rparr>"
  let ?F = "fold (\<lambda>x acc. Option.bind acc (walk_from nReg p x))"
  have start: "walk_inv f nReg nLane {} {} ?w" using flatIdx_less by (auto simp: walk_inv_def)
  have "\<forall>x \<in> set (map (Pair 0) [0..<nReg]). x \<in> locs nReg nLane \<and> (fst x = 0 \<or> (\<forall>z \<in> locs nReg nLane. fst z = 0 \<longrightarrow> z \<in> {}))"
    by (auto simp: locs_iff)
  from walk_list_done [OF p this start image_empty] obtain w1 V1 where 1: "?F (map (Pair 0) [0..<nReg]) (Some ?w) = Some w1"
    "walk_inv f nReg nLane V1 {} w1" "set (map (Pair 0) [0..<nReg]) \<union> {} \<subseteq> V1" "f ` V1 = V1" by blast
  have regs: "\<forall>z \<in> locs nReg nLane. fst z = 0 \<longrightarrow> z \<in> V1" using 1(3) by (auto simp: locs_iff image_subset_iff)
  have "\<forall>x \<in> set (map (Pair 1) [0..<nLane]). x \<in> locs nReg nLane \<and> (fst x = 0 \<or> (\<forall>z \<in> locs nReg nLane. fst z = 0 \<longrightarrow> z \<in> V1))"
    using regs by (auto simp: locs_iff)
  from walk_list_done [OF p this 1(2,4)] obtain w2 V2 where 2: "?F (map (Pair 1) [0..<nLane]) (Some w1) = Some w2"
    "walk_inv f nReg nLane V2 {} w2" "set (map (Pair 1) [0..<nLane]) \<union> V1 \<subseteq> V2" by blast
  have "locs nReg nLane \<subseteq> V2" using 1(3) 2(3) by (auto simp: locs_def locations_def)
  then have V2: "V2 = locs nReg nLane" using walk_invD(4) [OF 2(2)] by blast
  have "visited w2 ! k" if "k < nReg + nLane" for k
  proof -
    have l: "(if k < nReg then (0, k) else (1, k - nReg)) \<in> locs nReg nLane" using that by (auto simp: locs_iff)
    from walk_invD(5) [OF 2(2) l] show ?thesis using l V2 by (simp add: flatIdx_def split: if_splits)
  qed
  then have "list_all id (visited w2)" using walk_invD(1) [OF 2(2)] by (simp add: list_all_length)
  then show ?thesis using 1(1) 2(1,2) V2 by (simp add: walk_cycles_def locations_def)
qed

text \<open>Swaps of register bits with lane bits.\<close>

definition swap_bits :: "(nat \<times> nat) list \<Rightarrow> loc \<Rightarrow> loc" where
  "swap_bits ts x =
     (if fst x = 0 then (case map_of ts (snd x) of Some s \<Rightarrow> (1, s) | None \<Rightarrow> x)
      else (case map_of (map prod.swap ts) (snd x) of Some r \<Rightarrow> (0, r) | None \<Rightarrow> x))"

lemma swap_bits_pair:
  assumes "distinct (map fst ts)" "distinct (map snd ts)" "(r, s) \<in> set ts"
  shows "swap_bits ts (0, r) = (1, s)" "swap_bits ts (1, s) = (0, r)"
proof -
  have "map fst (map prod.swap ts) = map snd ts" by (simp add: comp_def)
  moreover have "(s, r) \<in> set (map prod.swap ts)" using assms(3) by force
  ultimately have "map_of (map prod.swap ts) s = Some r" using assms(2) by (metis map_of_is_SomeI)
  then show "swap_bits ts (0, r) = (1, s)" "swap_bits ts (1, s) = (0, r)" using assms(1,3) by (simp_all add: swap_bits_def)
qed

lemma swap_bits_other:
  "r \<notin> fst ` set ts \<Longrightarrow> swap_bits ts (0, r) = (0, r)" "s \<notin> snd ` set ts \<Longrightarrow> swap_bits ts (1, s) = (1, s)"
  by (simp_all add: swap_bits_def map_of_eq_None_iff [THEN iffD2] image_image)

text \<open>The permutation of register bits and that of lane bits that basis vectors describe.\<close>

definition permute_bits :: "int list \<Rightarrow> int list \<Rightarrow> loc \<Rightarrow> loc" where
  "permute_bits regs lanes x = (fst x, log2_32 ((if fst x = 0 then regs else lanes) ! snd x))"


lemma factored:
  assumes p: "permutes_bits nReg nLane p f" and w: "walk_inv f nReg nLane (locs nReg nLane) {} w" and n: "nReg < 32" "nLane < 32"
    and x: "x \<in> locs nReg nLane"
  shows "f x = swap_bits (mixedTranspositions w) (permute_bits (regBases w) (laneBases w) x)"
    "permute_bits (regBases w) (laneBases w) x \<in> locs nReg nLane"
    "(if fst x = 0 then regBases w else laneBases w) ! snd x = 2 ^ snd (permute_bits (regBases w) (laneBases w) x)"
proof -
  note W = walk_invD [OF w]
  let ?ts = "mixedTranspositions w"
  have f: "inj_on f (locs nReg nLane)" "\<And>z. z \<in> locs nReg nLane \<Longrightarrow> f z \<in> locs nReg nLane" using p by (simp_all add: permutes_bits_def)
  have fx: "f x \<in> locs nReg nLane" by (rule f(2) [OF x])
  have pair: "r < nReg \<and> s < nLane" if "(r, s) \<in> set ?ts" for r s
    using W(7,8) [OF that] f(2) by (force simp: locs_iff)
  have s: "factored_at f w x" using W(6) [OF x] by simp
  have "(fst x = 0 \<longrightarrow> fst (f x) = 0 \<longrightarrow> snd (f x) \<notin> fst ` set ?ts) \<and> (fst x \<noteq> 0 \<longrightarrow> fst (f x) \<noteq> 0 \<longrightarrow> snd (f x) \<notin> snd ` set ?ts)"
  proof (intro conjI impI notI)
    assume h: "fst x = 0" "fst (f x) = 0" "snd (f x) \<in> fst ` set ?ts"
    then obtain t where t: "t \<in> set ?ts" "snd (f x) = fst t" by auto
    then obtain z where z: "z \<in> locs nReg nLane" "fst z = 1" "f z = (0, fst t)" using W(7) by blast
    have "f z = f x" using z(3) t(2) h(2) by (cases "f x") simp
    then show False using inj_onD [OF f(1) _ z(1) x] z(2) h(1) by auto
  next
    assume h: "fst x \<noteq> 0" "fst (f x) \<noteq> 0" "snd (f x) \<in> snd ` set ?ts"
    then obtain t where t: "t \<in> set ?ts" "snd (f x) = snd t" by auto
    then obtain z where z: "z \<in> locs nReg nLane" "fst z = 0" "f z = (1, snd t)" using W(8) by blast
    have "f z = f x" using z(3) t(2) h(2) fx by (cases "f x") (auto simp: locs_iff)
    then show False using inj_onD [OF f(1) _ z(1) x] z(2) h(1) by auto
  qed
  note out = this
  have "f x = swap_bits ?ts (permute_bits (regBases w) (laneBases w) x) \<and> permute_bits (regBases w) (laneBases w) x \<in> locs nReg nLane \<and>
    (if fst x = 0 then regBases w else laneBases w) ! snd x = 2 ^ snd (permute_bits (regBases w) (laneBases w) x)"
  proof (cases "fst x = 0")
    case True
    show ?thesis
    proof (cases "fst (f x) = 0")
      case r: True
      have e: "regBases w ! snd x = 2 ^ snd (f x)" "snd (f x) < nReg" using s True r fx by (simp_all add: factored_at_def locs_iff)
      then have "permute_bits (regBases w) (laneBases w) x = (0, snd (f x))" using True n by (simp add: permute_bits_def)
      then show ?thesis using e out True r fx swap_bits_other(1) by (cases "f x") (simp add: locs_iff)
    next
      case False
      obtain r where r: "regBases w ! snd x = 2 ^ r" "(r, snd (f x)) \<in> set ?ts" using s True False by (auto simp: factored_at_def)
      have "permute_bits (regBases w) (laneBases w) x = (0, r)" using r(1) pair [OF r(2)] True n by (simp add: permute_bits_def)
      then show ?thesis using r pair [OF r(2)] swap_bits_pair(1) [OF W(9,10) r(2)] True False fx
        by (cases "f x") (auto simp: locs_iff)
    qed
  next
    case False
    then have x1: "fst x = 1" using x by (simp add: locs_iff)
    show ?thesis
    proof (cases "fst (f x) = 0")
      case r: True
      obtain t where t: "laneBases w ! snd x = 2 ^ t" "(snd (f x), t) \<in> set ?ts" using s False r by (auto simp: factored_at_def)
      have "permute_bits (regBases w) (laneBases w) x = (1, t)" using t(1) pair [OF t(2)] x1 n by (simp add: permute_bits_def)
      then show ?thesis using t pair [OF t(2)] swap_bits_pair(2) [OF W(9,10) t(2)] x1 r
        by (cases "f x") (auto simp: locs_iff)
    next
      case l: False
      have f1: "fst (f x) = 1" using l fx by (simp add: locs_iff)
      have e: "laneBases w ! snd x = 2 ^ snd (f x)" "snd (f x) < nLane" using s False l fx by (simp_all add: factored_at_def locs_iff)
      then have "permute_bits (regBases w) (laneBases w) x = (1, snd (f x))" using x1 n by (simp add: permute_bits_def)
      then show ?thesis using e out x1 f1 fx swap_bits_other(2) by (cases "f x") (simp add: locs_iff)
    qed
  qed
  then show "f x = swap_bits (mixedTranspositions w) (permute_bits (regBases w) (laneBases w) x)"
    "permute_bits (regBases w) (laneBases w) x \<in> locs nReg nLane"
    "(if fst x = 0 then regBases w else laneBases w) ! snd x = 2 ^ snd (permute_bits (regBases w) (laneBases w) x)" by simp_all
qed

end
