(* ===== verification/WarpProps.thy ===== *)
theory WarpProps
  imports WarpLemmas PlacedLayouts
begin

text \<open>
  The factorization of conversions within a warp, with an instance on concrete data.
\<close>

lemma inj_onto:
  assumes "inj_on g {..<n}" "\<And>i. i < n \<Longrightarrow> g i < n" "k < n" shows "\<exists>i < n. g i = (k :: nat)"
proof -
  have "g ` {..<n} = {..<n}" using assms(1,2) by (intro endo_inj_surj) auto
  then show ?thesis using assms(3) by (metis imageE lessThan_iff)
qed

text \<open>The constructor accepts a permutation of bits.\<close>

lemma permutation_layout:
  assumes n: "n < 31" and g: "inj_on g {..<n}" "\<And>i. i < n \<Longrightarrow> g i < n"
  shows "\<exists>l. mkLayout [(d, map (\<lambda>i. [2 ^ g i]) [0..<n])] [(d, 2 ^ n)] True = Some l \<and> isSurjective l \<and>
    bases l = [(d, map (\<lambda>i. [2 ^ g i]) [0..<n])]"
proof -
  let ?bs = "[(d, map (\<lambda>i. [(2 :: int) ^ g i]) [0..<n])]" and ?outs = "[(d, (2 :: int) ^ n)]"
  have "fits_width (2 ^ g i) n" if "i < n" for i using g(2) [OF that] by (simp add: fits_width_def)
  then have data: "layout_data \<lparr>bases = ?bs, outDims = ?outs, rank = 0\<rparr>"
    using n by (auto simp: layout_data_def columns_def good_column_def getInDimNames_def getOutDimNames_def small_pow_iff
        getTotalInDimSizeLog2_def getTotalOutDimSizeLog2_def getOutDimSizeLog2_def list_all_iff fits_width_def)
  from mkLayout_total [OF this, of False] obtain l where l: "wf l" "bases l = ?bs" "outDims l = ?outs" by auto
  have e: "entry l x p y = (if x = d \<and> y = d \<and> p < n then 2 ^ g p else 0)" for x p y
    using l(2,3) by (auto simp: entry_def in_len_def hasOutDim_def getOutDimNames_def getBasis_def getBasisVec_def
        getOutDimIndex_def getInDimSizeLog2_def)
  have w: "out_len l y = (if y = d then n else 0)" for y using l(3) n by (auto simp: out_len_def)
  have "placed l"
  proof (rule placedI [OF l(1)])
    show "\<exists>x p. entry l x p od = 2 ^ k" if k: "k < out_len l od" for od k
      using inj_onto [OF g, of k] k by (auto simp: e w split: if_splits)
    show "d1 = d2 \<and> p1 = p2" if k: "k < out_len l od" "entry l d2 p2 od = 2 ^ k" "entry l d1 p1 od = 2 ^ k" for od k d1 p1 d2 p2
      using k inj_onD [OF g(1), of p1 p2] by (auto simp: e w split: if_splits)
  qed (auto simp: e split: if_splits)
  then have s: "surj_vals l" by (rule placed_surj(1))
  have "surj_vals \<lparr>bases = ?bs, outDims = ?outs, rank = 0\<rparr>"
  proof -
    have "\<lparr>bases = ?bs, outDims = ?outs, rank = 0\<rparr> = l\<lparr>rank := 0\<rparr>" using l(2,3) by simp
    then show ?thesis using s by (simp del: linear_layout.update_convs)
  qed
  from mkLayout_total [OF data this, of True] obtain l' where l': "mkLayout ?bs ?outs True = Some l'" "wf l'" "bases l' = ?bs" "outDims l' = ?outs"
    by auto
  have "l' = l\<lparr>rank := rank l'\<rparr>" using l l' by simp
  then have "surj_vals l'" using s surj_vals_rank by metis
  then show ?thesis using l' isSurjective_vals [OF l'(2)] by blast
qed

section \<open>The factors\<close>

text \<open>Where the factors without the swaps move a bit.\<close>

definition move_bit :: "decomposed_conversion \<Rightarrow> loc \<Rightarrow> loc" where
  "move_bit c x = (fst x, log2_32 (the (basis_value (if fst x = 0 then pReg c else pLane c) x)))"

lemma basis_value_single:
  "bases l = [(warp_dims ! fst x, map (\<lambda>i. [h i]) [0..<n])] \<Longrightarrow> snd x < n \<Longrightarrow> basis_value l x = Some (h (snd x))"
  by (simp add: basis_value_def getBasisVec_def)

lemma mixed_bits:
  assumes w: "walk_inv f nReg nLane (locs nReg nLane) {} w" and p: "permutes_bits nReg nLane p f"
    and t: "t \<in> set (mixedTranspositions w)"
  shows "fst t < nReg \<and> snd t < nLane"
proof -
  have "(0, fst t) \<in> locs nReg nLane" "(1, snd t) \<in> locs nReg nLane"
    using walk_invD(7,8) [OF w] t p unfolding permutes_bits_def by (metis Diff_iff)+
  then show ?thesis by (simp add: locs_iff)
qed

lemma card_regs:
  assumes w: "walk_inv f nReg nLane (locs nReg nLane) {} w" and p: "permutes_bits nReg nLane p f"
  shows "length (mixedTranspositions w) \<le> nReg"
proof -
  have "fst ` set (mixedTranspositions w) \<subseteq> {..<nReg}" using mixed_bits [OF w p] by blast
  then have "card (set (map fst (mixedTranspositions w))) \<le> nReg" using card_mono [of "{..<nReg}"] by fastforce
  then show ?thesis using distinct_card [OF walk_invD(9) [OF w]] by simp
qed

text \<open>
  C39: for elements of more than 16 bits, the walk through the cycles of a conversion within a warp, a permutation of at
  most 30 register bits and 30 lane bits, ends and factors it: a permutation of the register bits and one of the lane
  bits, both layouts the constructor accepts, and then disjoint swaps of a register bit with a lane bit.
\<close>

theorem warp_factors:
  assumes p: "permutes_bits nReg nLane p f" and n: "nReg < 31" "nLane < 31" and b: "16 < bitwidth"
  shows "\<exists>c. factor_permutation nReg nLane p bitwidth = Some c \<and> isSurjective (pReg c) \<and> isSurjective (pLane c) \<and>
    (let ts = map transposition (processedTranspos c) in
      distinct (map fst ts) \<and> distinct (map snd ts) \<and> (\<forall>t \<in> set ts. fst t < nReg \<and> snd t < nLane) \<and>
      (\<forall>x \<in> locs nReg nLane. move_bit c x \<in> locs nReg nLane \<and>
         basis_value (if fst x = 0 then pReg c else pLane c) x = Some (2 ^ snd (move_bit c x)) \<and>
         f x = swap_bits ts (move_bit c x)))"
proof -
  obtain w where w: "walk_cycles nReg nLane p = Some w" "walk_inv f nReg nLane (locs nReg nLane) {} w"
    using walk_cycles_inv [OF p] by blast
  note W = walk_invD [OF w(2)]
  define g where "g = permute_bits (regBases w) (laneBases w)"
  have n32: "nReg < 32" "nLane < 32" using n by simp_all
  note F = factored [OF p w(2) n32, folded g_def]
  have g: "fst (g x) = fst x" for x by (simp add: g_def permute_bits_def)
  have inj: "inj_on g (locs nReg nLane)"
  proof (rule inj_onI)
    fix x y assume "x \<in> locs nReg nLane" "y \<in> locs nReg nLane" "g x = g y"
    then show "x = y" using F(1) [of x] F(1) [of y] inj_onD [of f "locs nReg nLane" x y] p by (simp add: permutes_bits_def)
  qed
  have loc: "(0, i) \<in> locs nReg nLane \<longleftrightarrow> i < nReg" "(1, i) \<in> locs nReg nLane \<longleftrightarrow> i < nLane" for i by (simp_all add: locs_iff)
  have onto: "inj_on (\<lambda>i. snd (g (k, i))) {..<n}" if n: "\<And>i. i < n \<Longrightarrow> (k, i) \<in> locs nReg nLane" for k n
  proof (rule inj_onI)
    fix i j assume a: "i \<in> {..<n}" "j \<in> {..<n}" and e: "snd (g (k, i)) = snd (g (k, j))"
    have "g (k, i) = g (k, j)" using e g by (simp add: prod_eq_iff)
    then show "i = j" using inj_onD [OF inj, of "(k, i)" "(k, j)"] n a by simp
  qed
  have reg: "inj_on (\<lambda>i. snd (g (0, i))) {..<nReg}" "\<And>i. i < nReg \<Longrightarrow> snd (g (0, i)) < nReg"
    and lane: "inj_on (\<lambda>i. snd (g (1, i))) {..<nLane}" "\<And>i. i < nLane \<Longrightarrow> snd (g (1, i)) < nLane"
  proof -
    show "inj_on (\<lambda>i. snd (g (0, i))) {..<nReg}" "inj_on (\<lambda>i. snd (g (1, i))) {..<nLane}"
      by (rule onto, simp only: loc)+
    show "snd (g (0, i)) < nReg" if "i < nReg" for i using F(2) [of "(0, i)"] g [of "(0, i)"] that by (simp add: locs_iff)
    show "snd (g (1, i)) < nLane" if "i < nLane" for i using F(2) [of "(1, i)"] g [of "(1, i)"] that by (simp add: locs_iff)
  qed
  have regs: "map (\<lambda>v. [v]) (regBases w) = map (\<lambda>i. [2 ^ snd (g (0, i))]) [0..<nReg]"
    using W(2) F(3) [of "(0, _)"] loc by (intro nth_equalityI) auto
  have lanes: "map (\<lambda>v. [v]) (laneBases w) = map (\<lambda>i. [2 ^ snd (g (1, i))]) [0..<nLane]"
    using W(3) F(3) [of "(1, _)"] loc by (intro nth_equalityI) auto
  obtain r where r: "mkLayout [(''register'', map (\<lambda>v. [v]) (regBases w))] [(''register'', 2 ^ nReg)] True = Some r" "isSurjective r"
    "bases r = [(''register'', map (\<lambda>i. [2 ^ snd (g (0, i))]) [0..<nReg])]"
    using permutation_layout [OF n(1) reg, of "''register''"] unfolding regs by blast
  obtain l where l: "mkLayout [(''lane'', map (\<lambda>v. [v]) (laneBases w))] [(''lane'', 2 ^ nLane)] True = Some l" "isSurjective l"
    "bases l = [(''lane'', map (\<lambda>i. [2 ^ snd (g (1, i))]) [0..<nLane])]"
    using permutation_layout [OF n(2) lane, of "''lane''"] unfolding lanes by blast
  have "32 sdiv bitwidth \<le> 1"
  proof -
    have "32 div bitwidth \<le> 32 div 17" by (rule zdiv_mono2) (use b in auto)
    then show ?thesis using b by (simp add: signed_divide_int_def)
  qed
  then have "max 1 (min 4 (32 sdiv bitwidth)) = 1" by simp
  then have pack: "log2_32 (max 1 (min 4 (32 sdiv bitwidth))) = 0" using log2_32_pow [of 0] by (simp only: power_0)
  let ?c = "\<lparr>pReg = r, pLane = l, processedTranspos = map plain_info (mixedTranspositions w), nPacked = 0\<rparr>"
  have run: "factor_permutation nReg nLane p bitwidth = Some ?c"
    unfolding factor_permutation_def w(1) using card_regs [OF w(2) p] b r(1) l(1) pack
    by (simp add: getTranspositionSelectors_def)
  have ts: "map transposition (map plain_info (mixedTranspositions w)) = mixedTranspositions w" by (simp add: plain_info_def comp_def)
  have val: "basis_value (if fst x = 0 then pReg ?c else pLane ?c) x = Some (2 ^ snd (g x))" if x: "x \<in> locs nReg nLane" for x
  proof (cases "fst x = 0")
    case True
    then have "x = (0, snd x)" "snd x < nReg" using x by (cases x; auto simp: locs_iff)+
    then show ?thesis using basis_value_single [of r x "\<lambda>i. 2 ^ snd (g (0, i))" nReg] r(3) True by (simp add: warp_dims_def)
  next
    case False
    then have x1: "fst x = 1" "snd x < nLane" using x by (auto simp: locs_iff)
    then have "g x = g (1, snd x)" by (metis prod.collapse)
    then show ?thesis using basis_value_single [of l x "\<lambda>i. 2 ^ snd (g (1, i))" nLane] l(3) x1 by (simp add: warp_dims_def)
  qed
  have move: "move_bit ?c x = g x" if x: "x \<in> locs nReg nLane" for x
  proof -
    have "snd (g x) < 32" using F(2) [OF x] n by (auto simp: locs_iff)
    then show ?thesis using val [OF x] g [of x] by (simp add: move_bit_def prod_eq_iff)
  qed
  have "\<forall>t \<in> set (mixedTranspositions w). fst t < nReg \<and> snd t < nLane" using mixed_bits [OF w(2) p] by blast
  moreover have "\<forall>x \<in> locs nReg nLane. move_bit ?c x \<in> locs nReg nLane \<and>
      basis_value (if fst x = 0 then pReg ?c else pLane ?c) x = Some (2 ^ snd (move_bit ?c x)) \<and>
      f x = swap_bits (mixedTranspositions w) (move_bit ?c x)"
    using F(1,2) val move by metis
  ultimately show ?thesis unfolding run Let_def
    by (intro exI [of _ ?c] conjI refl) (simp_all only: decomposed_conversion.simps ts W(9,10) r(2) l(2))
qed

text \<open>Two register bits and two lane bits, moved in one cycle.\<close>

lemma warp_factors_witness:
  "\<exists>c. factor_permutation 2 2 [(''register'', [[0, 1], [1, 0]]), (''lane'', [[0, 2], [2, 0]])] 32 = Some c \<and> isSurjective (pReg c) \<and>
    (1, 0) = swap_bits (map transposition (processedTranspos c)) (move_bit c (0, 0))"
proof -
  let ?p = "[(''register'', [[0, 1], [1, 0]]), (''lane'', [[0, 2], [2, 0]])]"
  let ?f = "\<lambda>x :: loc. the (next_loc ?p x)"
  have l: "locs 2 2 = {(0, 0), (0, 1), (1, 0), (1, 1)}" by (auto simp: locs_def locations_def upt_rec)
  have v: "next_loc ?p (0, 0) = Some (1, 0)" "next_loc ?p (0, 1) = Some (0, 0)" "next_loc ?p (1, 0) = Some (1, 1)" "next_loc ?p (1, 1) = Some (0, 1)"
    by code_simp+
  have "permutes_bits 2 2 ?p ?f" by (simp add: permutes_bits_def l v inj_on_def del: One_nat_def)
  from warp_factors [OF this, of 32] obtain c where c: "factor_permutation 2 2 ?p 32 = Some c" "isSurjective (pReg c)"
    "\<forall>x \<in> locs 2 2. ?f x = swap_bits (map transposition (processedTranspos c)) (move_bit c x)"
    unfolding Let_def by auto
  have "?f (0, 0) = swap_bits (map transposition (processedTranspos c)) (move_bit c (0, 0))" using c(3) l by blast
  then show ?thesis using c(1,2) v(1) by auto
qed

end
