(* ===== verification/Spec2Isabelle.thy ===== *)
theory Spec2Isabelle
  imports LayoutProps ConversionProps InferProps GenericSwizzling AxisProps AllocationProps TensorMemoryProps MembarProps
    ScheduleProps WarpProps
begin

text \<open>
  A model of the algorithmic core of the Triton compiler for Ascend: the linear layouts that map
  registers, lanes and warps to tensor indices, the swizzling built on them, and the analyses over a
  function in the compiler's intermediate representation (axis information, shared-memory allocation,
  memory barriers), the allocation of tensor memory and the scheduling of loops for pipelining.

  Theories, in dependency order:

  \<^item> Prelude: parity algebra, powers of two, the collections shared by the other theories.
  \<^item> F2Reduce: \<open>inplace_rref_strided\<close> of \<open>third_party/f2reduce/f2reduce.cpp\<close> for matrices of at most 64
    rows and columns, where a row is one \<open>uint64_t\<close> (a 64-bit word here); row operations as an inductive
    relation, the reduced echelon form, rank, kernel and image; the locale \<open>row_reducer\<close> states what the
    layouts use of it and is interpreted on the model of the code.
  \<^item> LinearLayout: the class of \<open>lib/Tools/LinearLayout.cpp\<close>, its invariant check, its constructors,
    accessors and \<open>apply\<close>; LayoutLemmas: \<open>apply\<close> as an exclusive or of basis vectors, the matrix,
    well-formedness, the meaning of the cached rank, when a constructor returns.
  \<^item> Supremum: \<open>supremum\<close> of \<open>lib/Tools/LayoutUtils.cpp\<close>. LayoutAlgebra: composition and product.
    LayoutDivide: \<open>divideLeft\<close>, \<open>divideRight\<close>. LayoutShape: transposition, reshaping, concatenation,
    sublayouts, squeezing. LayoutSolve: \<open>lstsq\<close>, \<open>invertAndCompose\<close>, \<open>invert\<close>, and what a solution is;
    LayoutInvert: the lemmas about inverses.
  \<^item> ColumnAction: the class \<open>ColumnAction\<close>. LayoutUtils: the other helpers of \<open>LayoutUtils.cpp\<close>.
    GenericSwizzling: \<open>lib/Tools/GenericSwizzling.cpp\<close>, from the bases to \<open>optimalSwizzling\<close>.
  \<^item> Encodings: the attributes of \<open>TritonGPUAttrDefs.td\<close> and \<open>lib/Dialect/TritonGPU/IR/Dialect.cpp\<close> as
    records and datatypes, with their builders, verifiers, orders and shapes. LayoutConversions:
    \<open>lib/Dialect/TritonGPU/IR/LinearLayoutConversions.cpp\<close>, from an encoding and a shape to the layout.
  \<^item> PlacedLayouts, PlacedShapes, PlacedCombine: layouts each of whose basis vectors moves by a power of two in
    one dimension, kept by products, transpositions and the fitting to a shape. BlockedLayouts: blocked
    encodings convert; BlockedBuilder: what their builder answers; MmaLayouts: the tiles of matrix
    instructions; MfmaTiles: one AMD encoding evaluated; SwizzledShared: shapes that fit exactly, and the swizzle.
  \<^item> InferLayout: the layout inference interface of \<open>lib/Dialect/TritonGPU/IR/Dialect.cpp\<close>: the encoding of
    the result of a reduction, expansion, transposition, reshape, join, split or conversion from that of the
    operand, the verifier of tensor layouts, and \<open>getReshapeDecomposition\<close> of \<open>lib/Analysis/Utility.cpp\<close>.
  \<^item> AxisInfo: the lattice, the visitors and the module map of \<open>lib/Analysis/AxisInfo.cpp\<close>; AxisLemmas:
    what an info claims of the values of a tensor, and why the visitors keep it true.
  \<^item> Allocation: \<open>lib/Analysis/Allocation.cpp\<close>: buffers, liveness, offsets by interval packing and graph
    colouring, with the lemmas about them; AllocationLiveness: the live ranges and the analysis as a whole.
  \<^item> TensorMemory: \<open>lib/Dialect/TritonNvidiaGPU/Transforms/TensorMemoryAllocation.cpp\<close> and the sizes of
    \<open>lib/Dialect/TritonNvidiaGPU/IR/Dialect.cpp\<close>: a linear scan, first fit in a bitmap; TensorMemorySafety: the
    bitmap, the search and the row constraints; TensorMemoryScan: the invariant of the scan.
  \<^item> Membar: \<open>lib/Analysis/Membar.cpp\<close>: accesses, barriers, the fixed-point loop over virtual blocks;
    MembarSafety: termination of the loop and the absence of hazards on every path.
  \<^item> CoarseSchedule: \<open>include/triton/Dialect/TritonGPU/Transforms/Schedule.h\<close> and
    \<open>lib/Dialect/TritonGPU/Transforms/Pipeliner/Schedule.cpp\<close>: the list of clusters, the stage and cluster of
    operations, dependencies, attributes; ScheduleLoops: \<open>ScheduleLoops.cpp\<close> beside it, from latencies to the
    schedule of a loop. ScheduleLemmas: clusters, valid schedules, and the search for dependencies; ScheduleSafety:
    every step of the scheduler keeps dependencies in order; ScheduleKeys: distances and the initial schedule;
    ScheduleOuter: values the loop yields from in front of it.
  \<^item> WarpConversion: \<open>getWarpLayoutConvertDecomposition\<close> and the tests what a conversion moves, from
    \<open>lib/Analysis/Utility.cpp\<close>; WarpLemmas: the invariant of the walk through the cycles of the permutation. The selectors
    of elements of at most 16 bits are modelled, without a theorem.
  \<^item> LayoutProps, ConversionProps, InferProps, AxisProps, AllocationProps, TensorMemoryProps, MembarProps,
    ScheduleProps, WarpProps: the properties, each with an instance on concrete data.

  Conventions. A compiler stopped by a failed assertion, a fatal error or a division by zero is None; a
  \<open>std::optional\<close> result is then an option inside that option. \<open>int32_t\<close> and \<open>int64_t\<close> values are
  \<open>int\<close>; the places where the code relies on their width (\<open>isPowerOf2_32\<close>, \<open>Log2_32\<close>, \<open>NextPowerOf2\<close>,
  the folding of constants) write the wrap-around out. \<open>MapVector\<close> is an association list in insertion
  order. What MLIR provides (types, dominance, the dataflow solver's aliases, liveness of values) enters
  as arguments of the definitions.

  Bounds. Matrices have at most 64 rows and columns: the code packs a row of the matrix of a layout into
  one \<open>uint64_t\<close>. Loops that may not end carry fuel or are options, and the properties show that they
  return: the supremum, the interval packing, the colouring, the fixed-point loop of the barriers, the search
  for free tensor memory, the decomposition of a reshape, and the worklists of the scheduler (through
  dependencies, through users, and back to front), and the walk through
  the cycles of a conversion within a warp. Sizes are unbounded where the code keeps them in an \<open>int\<close>: the size of a
  dimension (\<open>getInDimSize\<close>), the bytes of an allocation of tensor memory, the numbers of elements in the decomposition
  of a reshape and the solution of \<open>lstsq\<close>; the two agree below \<open>2^31\<close>, i.e. for dimensions of at most 30 bases.

  Not modelled: parsing and printing of attributes and operations (MLIR's generated code), the other rewriting passes and the
  lowering to LLVM (their meaning is that of MLIR's rewriter and of LLVM), the Python bindings, the tools and the unit tests.
\<close>

end
